(* ===== verification/Prelude.thy ===== *)
theory Prelude
  imports Main "HOL-Library.Word" "HOL-Library.Monad_Syntax"
begin

text \<open>
  Shared vocabulary of the development: the machine types of the C code, the
  typed heap in which linked structures live, and the generic lemmas on heaps
  and lists that the component theories use.

  Every field access through a pointer goes through \<open>deref\<close>, which has no value
  for the null pointer and for memory that is not allocated; so a model function
  that returns \<open>Some\<close> has dereferenced valid pointers only.  Loops over pointers
  are \<open>partial_function (option)\<close>: a loop that does not end has no value either.
\<close>

section \<open>Machine types\<close>

type_synonym uchar = "8 word"
type_synonym ushort = "16 word"
type_synonym ulong = "32 word"
type_synonym ulong64 = "64 word"

section \<open>Pointers and heaps\<close>

type_synonym addr = nat
type_synonym 'a heap = "addr \<rightharpoonup> 'a"

abbreviation (input) NULL :: addr where "NULL \<equiv> 0"

definition deref :: "'a heap \<Rightarrow> addr \<Rightarrow> 'a option" where
  "deref h p = (if p = NULL then None else h p)"

definition modify :: "addr \<Rightarrow> ('a \<Rightarrow> 'a) \<Rightarrow> 'a heap \<Rightarrow> 'a heap option" where
  "modify p f h = (case deref h p of None \<Rightarrow> None | Some x \<Rightarrow> Some (h(p \<mapsto> f x)))"

named_theorems heap_simps

lemma deref_Some [heap_simps]: "p \<noteq> NULL \<Longrightarrow> h p = Some x \<Longrightarrow> deref h p = Some x"
  by (simp add: deref_def)

lemma deref_NULL [simp]: "deref h NULL = None"
  by (simp add: deref_def)

lemma deref_SomeD: "deref h p = Some x \<Longrightarrow> p \<noteq> NULL \<and> h p = Some x"
  by (auto simp: deref_def split: if_splits)

lemma modify_Some [heap_simps]:
  "p \<noteq> NULL \<Longrightarrow> h p = Some x \<Longrightarrow> modify p f h = Some (h(p \<mapsto> f x))"
  by (simp add: modify_def deref_def)

lemma modify_NULL [simp]: "modify NULL f h = None"
  by (simp add: modify_def)

text \<open>Two heaps agree outside a set of addresses: what a frame condition says.\<close>

definition same_outside :: "addr set \<Rightarrow> 'a heap \<Rightarrow> 'a heap \<Rightarrow> bool" where
  "same_outside A h h' \<longleftrightarrow> (\<forall>x. x \<notin> A \<longrightarrow> h' x = h x)"

lemma same_outside_refl [simp, intro]: "same_outside A h h"
  by (simp add: same_outside_def)

lemma same_outside_trans:
  "same_outside A h h' \<Longrightarrow> same_outside B h' h'' \<Longrightarrow> A \<subseteq> C \<Longrightarrow> B \<subseteq> C \<Longrightarrow> same_outside C h h''"
  unfolding same_outside_def by (metis subsetD)

lemma same_outside_mono: "same_outside A h h' \<Longrightarrow> A \<subseteq> B \<Longrightarrow> same_outside B h h'"
  by (auto simp: same_outside_def)

lemma same_outside_upd: "same_outside A h h' \<Longrightarrow> p \<in> A \<Longrightarrow> same_outside A h (h'(p := x))"
  by (auto simp: same_outside_def)

lemma same_outsideD: "same_outside A h h' \<Longrightarrow> x \<notin> A \<Longrightarrow> h' x = h x"
  by (simp add: same_outside_def)

end
