(* ===== verification/AvlLinks.thy ===== *)
theory AvlLinks
  imports Prelude
begin

text \<open>
  The AVL tree of \<open>phlib/avltree.c\<close>, as it is written: nodes with parent pointers
  in memory, a sentinel node embedded in the tree object whose right child is the
  real root, and loops that walk parent pointers.  The types are those of
  \<open>phlib/include/phbasesup.h\<close>.
\<close>

section \<open>Data\<close>

record avl_links =
  Parent :: addr
  Left :: addr
  Right :: addr
  Balance :: int

type_synonym avl_heap = "avl_links heap"

text \<open>
  The tree object.  \<open>RootAddr\<close> is the address of its embedded sentinel
  \<open>Tree->Root\<close>; the sentinel's links are in the heap like any other node's.  The
  compare function gets two links pointers and looks at the records around them,
  which no operation of this file writes: it is a function of the two addresses.
\<close>

record avl_tree =
  RootAddr :: addr
  Count :: ulong
  CompareFunction :: "addr \<Rightarrow> addr \<Rightarrow> int"

datatype TREE_ENUMERATION_ORDER = TreeEnumerateInOrder | TreeEnumerateInReverseOrder

text \<open>A pointer to a pointer (\<open>PPH_AVL_LINKS *\<close>) always points to a child field.\<close>

datatype slot = LeftOf addr | RightOf addr

fun read_slot :: "avl_heap \<Rightarrow> slot \<Rightarrow> addr option" where
  "read_slot h (LeftOf p) = map_option Left (deref h p)"
| "read_slot h (RightOf p) = map_option Right (deref h p)"

fun write_slot :: "slot \<Rightarrow> addr \<Rightarrow> avl_heap \<Rightarrow> avl_heap option" where
  "write_slot (LeftOf p) v h = modify p (Left_update (\<lambda>_. v)) h"
| "write_slot (RightOf p) v h = modify p (Right_update (\<lambda>_. v)) h"

definition set_Parent :: "addr \<Rightarrow> addr \<Rightarrow> avl_heap \<Rightarrow> avl_heap option" where
  "set_Parent p v = modify p (Parent_update (\<lambda>_. v))"

definition set_Left :: "addr \<Rightarrow> addr \<Rightarrow> avl_heap \<Rightarrow> avl_heap option" where
  "set_Left p v = modify p (Left_update (\<lambda>_. v))"

definition set_Right :: "addr \<Rightarrow> addr \<Rightarrow> avl_heap \<Rightarrow> avl_heap option" where
  "set_Right p v = modify p (Right_update (\<lambda>_. v))"

definition set_Balance :: "addr \<Rightarrow> int \<Rightarrow> avl_heap \<Rightarrow> avl_heap option" where
  "set_Balance p v = modify p (Balance_update (\<lambda>_. v))"

text \<open>\<open>if (p) p->Parent = v;\<close>\<close>

definition set_Parent_if :: "addr \<Rightarrow> addr \<Rightarrow> avl_heap \<Rightarrow> avl_heap option" where
  "set_Parent_if p v h = (if p \<noteq> NULL then set_Parent p v h else Some h)"

definition PhRootElementAvlTree :: "avl_tree \<Rightarrow> avl_heap \<Rightarrow> addr option" where
  "PhRootElementAvlTree T h = map_option Right (deref h (RootAddr T))"

definition PhInitializeAvlTree ::
  "addr \<Rightarrow> (addr \<Rightarrow> addr \<Rightarrow> int) \<Rightarrow> avl_heap \<Rightarrow> (avl_tree \<times> avl_heap) option" where
  "PhInitializeAvlTree root cmp h = do {
     h \<leftarrow> modify root (\<lambda>_. \<lparr>Parent = NULL, Left = NULL, Right = NULL, Balance = 0\<rparr>) h;
     Some (\<lparr>RootAddr = root, Count = 0, CompareFunction = cmp\<rparr>, h)
   }"

section \<open>Searching\<close>

partial_function (option) PhpFindElement_loop ::
  "(addr \<Rightarrow> addr \<Rightarrow> int) \<Rightarrow> addr \<Rightarrow> addr \<Rightarrow> avl_heap \<Rightarrow> (addr \<times> int) option" where
  "PhpFindElement_loop cmp Element links h = (
     let result = cmp Element links in
     if result = 0 then Some (links, 0)
     else do {
       l \<leftarrow> deref h links;
       if result < 0 then
         (if Left l \<noteq> NULL then PhpFindElement_loop cmp Element (Left l) h
          else Some (links, - 1))
       else
         (if Right l \<noteq> NULL then PhpFindElement_loop cmp Element (Right l) h
          else Some (links, 1))
     })"

definition PhpFindElementAvlTree :: "avl_tree \<Rightarrow> addr \<Rightarrow> avl_heap \<Rightarrow> (addr \<times> int) option" where
  "PhpFindElementAvlTree T Element h = do {
     links \<leftarrow> PhRootElementAvlTree T h;
     if links = NULL then Some (RootAddr T, 1)
     else PhpFindElement_loop (CompareFunction T) Element links h
   }"

definition PhFindElementAvlTree :: "avl_tree \<Rightarrow> addr \<Rightarrow> avl_heap \<Rightarrow> addr option" where
  "PhFindElementAvlTree T Element h = do {
     (links, result) \<leftarrow> PhpFindElementAvlTree T Element h;
     if result = 0 then Some links else Some NULL
   }"

section \<open>Rotations and rebalancing\<close>

definition PhpRotateLeftAvlLinks :: "slot \<Rightarrow> avl_heap \<Rightarrow> avl_heap option" where
  "PhpRotateLeftAvlLinks Root h = do {
     P \<leftarrow> read_slot h Root;
     Pl \<leftarrow> deref h P;
     let Q = Right Pl;
     h \<leftarrow> write_slot Root Q h;
     Pl \<leftarrow> deref h P;
     h \<leftarrow> set_Parent Q (Parent Pl) h;
     Ql \<leftarrow> deref h Q;
     h \<leftarrow> set_Right P (Left Ql) h;
     Pl \<leftarrow> deref h P;
     h \<leftarrow> set_Parent_if (Right Pl) P h;
     h \<leftarrow> set_Left Q P h;
     set_Parent P Q h
   }"

definition PhpRotateLeftTwiceAvlLinks :: "slot \<Rightarrow> avl_heap \<Rightarrow> avl_heap option" where
  "PhpRotateLeftTwiceAvlLinks Root h = do {
     P \<leftarrow> read_slot h Root;
     Pl \<leftarrow> deref h P;
     let Q = Right Pl;
     Ql \<leftarrow> deref h Q;
     let R = Left Ql;
     h \<leftarrow> write_slot Root R h;
     Pl \<leftarrow> deref h P;
     h \<leftarrow> set_Parent R (Parent Pl) h;
     Rl \<leftarrow> deref h R;
     h \<leftarrow> set_Left Q (Right Rl) h;
     Ql \<leftarrow> deref h Q;
     h \<leftarrow> set_Parent_if (Left Ql) Q h;
     h \<leftarrow> set_Right R Q h;
     h \<leftarrow> set_Parent Q R h;
     Rl \<leftarrow> deref h R;
     h \<leftarrow> set_Right P (Left Rl) h;
     Pl \<leftarrow> deref h P;
     h \<leftarrow> set_Parent_if (Right Pl) P h;
     h \<leftarrow> set_Left R P h;
     set_Parent P R h
   }"

definition PhpRotateRightAvlLinks :: "slot \<Rightarrow> avl_heap \<Rightarrow> avl_heap option" where
  "PhpRotateRightAvlLinks Root h = do {
     Q \<leftarrow> read_slot h Root;
     Ql \<leftarrow> deref h Q;
     let P = Left Ql;
     h \<leftarrow> write_slot Root P h;
     Ql \<leftarrow> deref h Q;
     h \<leftarrow> set_Parent P (Parent Ql) h;
     Pl \<leftarrow> deref h P;
     h \<leftarrow> set_Left Q (Right Pl) h;
     Ql \<leftarrow> deref h Q;
     h \<leftarrow> set_Parent_if (Left Ql) Q h;
     h \<leftarrow> set_Right P Q h;
     set_Parent Q P h
   }"

definition PhpRotateRightTwiceAvlLinks :: "slot \<Rightarrow> avl_heap \<Rightarrow> avl_heap option" where
  "PhpRotateRightTwiceAvlLinks Root h = do {
     P \<leftarrow> read_slot h Root;
     Pl \<leftarrow> deref h P;
     let Q = Left Pl;
     Ql \<leftarrow> deref h Q;
     let R = Right Ql;
     h \<leftarrow> write_slot Root R h;
     Pl \<leftarrow> deref h P;
     h \<leftarrow> set_Parent R (Parent Pl) h;
     Rl \<leftarrow> deref h R;
     h \<leftarrow> set_Right Q (Left Rl) h;
     Ql \<leftarrow> deref h Q;
     h \<leftarrow> set_Parent_if (Right Ql) Q h;
     h \<leftarrow> set_Left R Q h;
     h \<leftarrow> set_Parent Q R h;
     Rl \<leftarrow> deref h R;
     h \<leftarrow> set_Left P (Right Rl) h;
     Pl \<leftarrow> deref h P;
     h \<leftarrow> set_Parent_if (Left Pl) P h;
     h \<leftarrow> set_Right R P h;
     set_Parent P R h
   }"

text \<open>The result is the new memory and the kind of rotation (1, 2 or 3).\<close>

definition PhpRebalanceAvlLinks :: "slot \<Rightarrow> avl_heap \<Rightarrow> (avl_heap \<times> nat) option" where
  "PhpRebalanceAvlLinks Root h = do {
     P \<leftarrow> read_slot h Root;
     Pl \<leftarrow> deref h P;
     if Balance Pl = - 1 then do {
       let Q = Left Pl;
       Ql \<leftarrow> deref h Q;
       if Balance Ql = - 1 then do {
         h \<leftarrow> PhpRotateRightAvlLinks Root h;
         h \<leftarrow> set_Balance P 0 h;
         h \<leftarrow> set_Balance Q 0 h;
         Some (h, 1)
       }
       else if Balance Ql = 1 then do {
         let R = Right Ql;
         h \<leftarrow> PhpRotateRightTwiceAvlLinks Root h;
         Rl \<leftarrow> deref h R;
         h \<leftarrow> (if Balance Rl = - 1 then do { h \<leftarrow> set_Balance P 1 h; set_Balance Q 0 h }
              else if Balance Rl = 1 then do { h \<leftarrow> set_Balance P 0 h; set_Balance Q (- 1) h }
              else do { h \<leftarrow> set_Balance P 0 h; set_Balance Q 0 h });
         h \<leftarrow> set_Balance R 0 h;
         Some (h, 2)
       }
       else do {
         h \<leftarrow> PhpRotateRightAvlLinks Root h;
         h \<leftarrow> set_Balance Q 1 h;
         Some (h, 3)
       }
     }
     else do {
       let Q = Right Pl;
       Ql \<leftarrow> deref h Q;
       if Balance Ql = 1 then do {
         h \<leftarrow> PhpRotateLeftAvlLinks Root h;
         h \<leftarrow> set_Balance P 0 h;
         h \<leftarrow> set_Balance Q 0 h;
         Some (h, 1)
       }
       else if Balance Ql = - 1 then do {
         let R = Left Ql;
         h \<leftarrow> PhpRotateLeftTwiceAvlLinks Root h;
         Rl \<leftarrow> deref h R;
         h \<leftarrow> (if Balance Rl = - 1 then do { h \<leftarrow> set_Balance P 0 h; set_Balance Q 1 h }
              else if Balance Rl = 1 then do { h \<leftarrow> set_Balance P (- 1) h; set_Balance Q 0 h }
              else do { h \<leftarrow> set_Balance P 0 h; set_Balance Q 0 h });
         h \<leftarrow> set_Balance R 0 h;
         Some (h, 2)
       }
       else do {
         h \<leftarrow> PhpRotateLeftAvlLinks Root h;
         h \<leftarrow> set_Balance Q (- 1) h;
         Some (h, 3)
       }
     }
   }"

section \<open>Adding an element\<close>

partial_function (option) PhAddElement_balance ::
  "addr \<Rightarrow> addr \<Rightarrow> avl_heap \<Rightarrow> avl_heap option" where
  "PhAddElement_balance P root h = (
     if P = root then Some h
     else do {
       Pl \<leftarrow> deref h P;
       PPl \<leftarrow> deref h (Parent Pl);
       let balance = (if Left PPl = P then - 1 else 1);
       let P = Parent Pl;
       if Balance PPl = 0 then do {
         h \<leftarrow> set_Balance P balance h;
         PhAddElement_balance P root h
       }
       else if Balance PPl \<noteq> balance then set_Balance P 0 h
       else do {
         GPl \<leftarrow> deref h (Parent PPl);
         let ref = (if Left GPl = P then LeftOf (Parent PPl) else RightOf (Parent PPl));
         (h, _) \<leftarrow> PhpRebalanceAvlLinks ref h;
         Some h
       }
     })"

text \<open>Hanging the new node below \<open>P\<close>, on the side the search ended.\<close>

definition PhAddElement_link :: "addr \<Rightarrow> addr \<Rightarrow> int \<Rightarrow> avl_heap \<Rightarrow> avl_heap option" where
  "PhAddElement_link Element P result h = do {
     h \<leftarrow> (if result < 0 then set_Left P Element h else set_Right P Element h);
     h \<leftarrow> set_Parent Element P h;
     h \<leftarrow> set_Left Element NULL h;
     h \<leftarrow> set_Right Element NULL h;
     set_Balance Element 0 h
   }"

text \<open>The first component of the result is the returned pointer.\<close>

definition PhAddElementAvlTree ::
  "avl_tree \<Rightarrow> addr \<Rightarrow> avl_heap \<Rightarrow> (addr \<times> avl_tree \<times> avl_heap) option" where
  "PhAddElementAvlTree T Element h = do {
     (P, result) \<leftarrow> PhpFindElementAvlTree T Element h;
     if result = 0 then Some (P, T, h)
     else do {
       h \<leftarrow> PhAddElement_link Element P result h;
       root \<leftarrow> PhRootElementAvlTree T h;
       h \<leftarrow> PhAddElement_balance Element root h;
       Some (NULL, T\<lparr>Count := Count T + 1\<rparr>, h)
     }
   }"

section \<open>Walking to the ends of a subtree\<close>

text \<open>\<open>while (p->Left) p = p->Left;\<close> and its mirror.\<close>

partial_function (option) walk_Left :: "addr \<Rightarrow> avl_heap \<Rightarrow> addr option" where
  "walk_Left p h = do {
     l \<leftarrow> deref h p;
     if Left l \<noteq> NULL then walk_Left (Left l) h else Some p
   }"

partial_function (option) walk_Right :: "addr \<Rightarrow> avl_heap \<Rightarrow> addr option" where
  "walk_Right p h = do {
     l \<leftarrow> deref h p;
     if Right l \<noteq> NULL then walk_Right (Right l) h else Some p
   }"

section \<open>Removing an element\<close>

partial_function (option) PhRemoveElement_balance ::
  "addr \<Rightarrow> int \<Rightarrow> addr \<Rightarrow> avl_heap \<Rightarrow> avl_heap option" where
  "PhRemoveElement_balance P balance root h = (
     if P = root then Some h
     else do {
       Pl \<leftarrow> deref h P;
       if Balance Pl = balance then do {
         h \<leftarrow> set_Balance P 0 h;
         Pl \<leftarrow> deref h P;
         PPl \<leftarrow> deref h (Parent Pl);
         PhRemoveElement_balance (Parent Pl) (if Left PPl = P then - 1 else 1) root h
       }
       else if Balance Pl = 0 then set_Balance P (- balance) h
       else do {
         PPl \<leftarrow> deref h (Parent Pl);
         let ref = (if Left PPl = P then LeftOf (Parent Pl) else RightOf (Parent Pl));
         (h, kind) \<leftarrow> PhpRebalanceAvlLinks ref h;
         if kind = 3 then Some h
         else do {
           Pl \<leftarrow> deref h P;
           let P = Parent Pl;
           Pl \<leftarrow> deref h P;
           PPl \<leftarrow> deref h (Parent Pl);
           PhRemoveElement_balance (Parent Pl) (if Left PPl = P then - 1 else 1) root h
         }
       }
     })"

text \<open>Which node is taken out of the shape of the tree.\<close>

definition PhRemoveElement_pick :: "addr \<Rightarrow> avl_heap \<Rightarrow> addr option" where
  "PhRemoveElement_pick Element h = do {
     El \<leftarrow> deref h Element;
     if Left El = NULL \<or> Right El = NULL then Some Element
     else if Balance El \<ge> 0 then walk_Left (Right El) h
     else walk_Right (Left El) h
   }"

text \<open>Unlinking the picked node: its only child takes its place.\<close>

definition PhRemoveElement_unlink :: "addr \<Rightarrow> avl_heap \<Rightarrow> (int \<times> avl_heap) option" where
  "PhRemoveElement_unlink newElement h = do {
     Nl \<leftarrow> deref h newElement;
     Pl \<leftarrow> deref h (Parent Nl);
     let (replace, balance) =
       (if Left Pl = newElement then (LeftOf (Parent Nl), - 1) else (RightOf (Parent Nl), 1));
     if Right Nl = NULL then do {
       h \<leftarrow> write_slot replace (Left Nl) h;
       h \<leftarrow> set_Parent_if (Left Nl) (Parent Nl) h;
       Some (balance, h)
     }
     else do {
       h \<leftarrow> write_slot replace (Right Nl) h;
       h \<leftarrow> set_Parent (Right Nl) (Parent Nl) h;
       Some (balance, h)
     }
   }"

text \<open>Putting the picked node in the place of the removed one.\<close>

definition PhRemoveElement_replace :: "addr \<Rightarrow> addr \<Rightarrow> avl_heap \<Rightarrow> avl_heap option" where
  "PhRemoveElement_replace Element newElement h = do {
     El \<leftarrow> deref h Element;
     h \<leftarrow> modify newElement (\<lambda>_. El) h;
     Pl \<leftarrow> deref h (Parent El);
     h \<leftarrow> (if Left Pl = Element then set_Left (Parent El) newElement h
          else set_Right (Parent El) newElement h);
     Nl \<leftarrow> deref h newElement;
     h \<leftarrow> set_Parent_if (Left Nl) newElement h;
     Nl \<leftarrow> deref h newElement;
     set_Parent_if (Right Nl) newElement h
   }"

definition PhRemoveElementAvlTree ::
  "avl_tree \<Rightarrow> addr \<Rightarrow> avl_heap \<Rightarrow> (avl_tree \<times> avl_heap) option" where
  "PhRemoveElementAvlTree T Element h = do {
     newElement \<leftarrow> PhRemoveElement_pick Element h;
     (balance, h) \<leftarrow> PhRemoveElement_unlink newElement h;
     Nl \<leftarrow> deref h newElement;
     h \<leftarrow> PhRemoveElement_balance (Parent Nl) balance (RootAddr T) h;
     h \<leftarrow> (if newElement \<noteq> Element then PhRemoveElement_replace Element newElement h
          else Some h);
     Some (T\<lparr>Count := Count T - 1\<rparr>, h)
   }"

section \<open>Bounds\<close>

text \<open>
  The four bound searches run the same loop with a different test, and differ in
  which side remembers the node as the closest one.
\<close>

partial_function (option) PhLowerBound_loop ::
  "(addr \<Rightarrow> addr \<Rightarrow> int) \<Rightarrow> addr \<Rightarrow> addr \<Rightarrow> addr \<Rightarrow> avl_heap \<Rightarrow> addr option" where
  "PhLowerBound_loop cmp Element links closest h = (
     if links = NULL then Some closest
     else do {
       l \<leftarrow> deref h links;
       if cmp Element links > 0 then PhLowerBound_loop cmp Element (Right l) closest h
       else PhLowerBound_loop cmp Element (Left l) links h
     })"

definition PhLowerBoundElementAvlTree :: "avl_tree \<Rightarrow> addr \<Rightarrow> avl_heap \<Rightarrow> addr option" where
  "PhLowerBoundElementAvlTree T Element h = do {
     links \<leftarrow> PhRootElementAvlTree T h;
     PhLowerBound_loop (CompareFunction T) Element links NULL h
   }"

partial_function (option) PhUpperBound_loop ::
  "(addr \<Rightarrow> addr \<Rightarrow> int) \<Rightarrow> addr \<Rightarrow> addr \<Rightarrow> addr \<Rightarrow> avl_heap \<Rightarrow> addr option" where
  "PhUpperBound_loop cmp Element links closest h = (
     if links = NULL then Some closest
     else do {
       l \<leftarrow> deref h links;
       if cmp Element links \<ge> 0 then PhUpperBound_loop cmp Element (Right l) closest h
       else PhUpperBound_loop cmp Element (Left l) links h
     })"

definition PhUpperBoundElementAvlTree :: "avl_tree \<Rightarrow> addr \<Rightarrow> avl_heap \<Rightarrow> addr option" where
  "PhUpperBoundElementAvlTree T Element h = do {
     links \<leftarrow> PhRootElementAvlTree T h;
     PhUpperBound_loop (CompareFunction T) Element links NULL h
   }"

partial_function (option) PhLowerDualBound_loop ::
  "(addr \<Rightarrow> addr \<Rightarrow> int) \<Rightarrow> addr \<Rightarrow> addr \<Rightarrow> addr \<Rightarrow> avl_heap \<Rightarrow> addr option" where
  "PhLowerDualBound_loop cmp Element links closest h = (
     if links = NULL then Some closest
     else do {
       l \<leftarrow> deref h links;
       if cmp Element links > 0 then PhLowerDualBound_loop cmp Element (Right l) links h
       else PhLowerDualBound_loop cmp Element (Left l) closest h
     })"

definition PhLowerDualBoundElementAvlTree :: "avl_tree \<Rightarrow> addr \<Rightarrow> avl_heap \<Rightarrow> addr option" where
  "PhLowerDualBoundElementAvlTree T Element h = do {
     links \<leftarrow> PhRootElementAvlTree T h;
     PhLowerDualBound_loop (CompareFunction T) Element links NULL h
   }"

partial_function (option) PhUpperDualBound_loop ::
  "(addr \<Rightarrow> addr \<Rightarrow> int) \<Rightarrow> addr \<Rightarrow> addr \<Rightarrow> addr \<Rightarrow> avl_heap \<Rightarrow> addr option" where
  "PhUpperDualBound_loop cmp Element links closest h = (
     if links = NULL then Some closest
     else do {
       l \<leftarrow> deref h links;
       if cmp Element links \<ge> 0 then PhUpperDualBound_loop cmp Element (Right l) links h
       else PhUpperDualBound_loop cmp Element (Left l) closest h
     })"

definition PhUpperDualBoundElementAvlTree :: "avl_tree \<Rightarrow> addr \<Rightarrow> avl_heap \<Rightarrow> addr option" where
  "PhUpperDualBoundElementAvlTree T Element h = do {
     links \<leftarrow> PhRootElementAvlTree T h;
     PhUpperDualBound_loop (CompareFunction T) Element links NULL h
   }"

section \<open>First, last, next and previous elements\<close>

definition PhMinimumElementAvlTree :: "avl_tree \<Rightarrow> avl_heap \<Rightarrow> addr option" where
  "PhMinimumElementAvlTree T h = do {
     links \<leftarrow> PhRootElementAvlTree T h;
     if links = NULL then Some NULL else walk_Left links h
   }"

definition PhMaximumElementAvlTree :: "avl_tree \<Rightarrow> avl_heap \<Rightarrow> addr option" where
  "PhMaximumElementAvlTree T h = do {
     links \<leftarrow> PhRootElementAvlTree T h;
     if links = NULL then Some NULL else walk_Right links h
   }"

text \<open>The climbing loops; the result is \<open>links\<close> where the loop stops.\<close>

partial_function (option) PhSuccessor_climb :: "addr \<Rightarrow> addr \<Rightarrow> avl_heap \<Rightarrow> addr option" where
  "PhSuccessor_climb Element links h = (
     if links = NULL then Some NULL
     else do {
       l \<leftarrow> deref h links;
       if Right l = Element then PhSuccessor_climb links (Parent l) h
       else Some links
     })"

definition PhSuccessorElementAvlTree :: "addr \<Rightarrow> avl_heap \<Rightarrow> addr option" where
  "PhSuccessorElementAvlTree Element h = do {
     El \<leftarrow> deref h Element;
     if Right El \<noteq> NULL then walk_Left (Right El) h
     else PhSuccessor_climb Element (Parent El) h
   }"

partial_function (option) PhPredecessor_climb :: "addr \<Rightarrow> addr \<Rightarrow> avl_heap \<Rightarrow> addr option" where
  "PhPredecessor_climb Element links h = (
     if links = NULL then Some NULL
     else do {
       l \<leftarrow> deref h links;
       if Left l = Element then PhPredecessor_climb links (Parent l) h
       else Some links
     })"

definition PhPredecessorElementAvlTree :: "addr \<Rightarrow> avl_heap \<Rightarrow> addr option" where
  "PhPredecessorElementAvlTree Element h = do {
     El \<leftarrow> deref h Element;
     if Left El \<noteq> NULL then walk_Right (Left El) h
     else do {
       links \<leftarrow> PhPredecessor_climb Element (Parent El) h;
       if links \<noteq> NULL then do {
         l \<leftarrow> deref h links;
         if Parent l = NULL then Some NULL else Some links
       }
       else Some links
     }
   }"

section \<open>Enumeration\<close>

text \<open>
  The stack is a local array of 47 pointers: pushing a 48th is an out-of-bounds
  write, which has no value here.  The head of the list is the top of the stack.  The
  callback is a function of the element and of its own state; a false result stops
  the enumeration.  It gets the tree to read, not to change.
\<close>

definition stackBase_size :: nat where "stackBase_size = 47"

definition push :: "addr \<Rightarrow> addr list \<Rightarrow> addr list option" where
  "push p stack = (if length stack < stackBase_size then Some (p # stack) else None)"

partial_function (option) push_Left :: "addr \<Rightarrow> addr list \<Rightarrow> avl_heap \<Rightarrow> addr list option" where
  "push_Left links stack h = (
     if links = NULL then Some stack
     else do {
       stack \<leftarrow> push links stack;
       l \<leftarrow> deref h links;
       push_Left (Left l) stack h
     })"

partial_function (option) push_Right :: "addr \<Rightarrow> addr list \<Rightarrow> avl_heap \<Rightarrow> addr list option" where
  "push_Right links stack h = (
     if links = NULL then Some stack
     else do {
       stack \<leftarrow> push links stack;
       l \<leftarrow> deref h links;
       push_Right (Right l) stack h
     })"

partial_function (option) PhEnum_inorder ::
  "(addr \<Rightarrow> 's \<Rightarrow> bool \<times> 's) \<Rightarrow> addr list \<Rightarrow> 's \<Rightarrow> avl_heap \<Rightarrow> 's option" where
  "PhEnum_inorder Callback stack s h = (
     case stack of [] \<Rightarrow> Some s
     | links # stack \<Rightarrow> (
       case Callback links s of (cont, s) \<Rightarrow>
       if \<not> cont then Some s
       else do {
         l \<leftarrow> deref h links;
         stack \<leftarrow> push_Left (Right l) stack h;
         PhEnum_inorder Callback stack s h
       }))"

partial_function (option) PhEnum_reverse ::
  "(addr \<Rightarrow> 's \<Rightarrow> bool \<times> 's) \<Rightarrow> addr list \<Rightarrow> 's \<Rightarrow> avl_heap \<Rightarrow> 's option" where
  "PhEnum_reverse Callback stack s h = (
     case stack of [] \<Rightarrow> Some s
     | links # stack \<Rightarrow> (
       case Callback links s of (cont, s) \<Rightarrow>
       if \<not> cont then Some s
       else do {
         l \<leftarrow> deref h links;
         stack \<leftarrow> push_Right (Left l) stack h;
         PhEnum_reverse Callback stack s h
       }))"

definition PhEnumAvlTree ::
  "avl_tree \<Rightarrow> TREE_ENUMERATION_ORDER \<Rightarrow> (addr \<Rightarrow> 's \<Rightarrow> bool \<times> 's) \<Rightarrow> 's \<Rightarrow> avl_heap \<Rightarrow> 's option" where
  "PhEnumAvlTree T Order Callback Context h = do {
     links \<leftarrow> PhRootElementAvlTree T h;
     case Order of
       TreeEnumerateInOrder \<Rightarrow> do {
         stack \<leftarrow> push_Left links [] h;
         PhEnum_inorder Callback stack Context h
       }
     | TreeEnumerateInReverseOrder \<Rightarrow> do {
         stack \<leftarrow> push_Right links [] h;
         PhEnum_reverse Callback stack Context h
       }
   }"

end
