(* ===== verification/AvlTree.thy ===== *)
theory AvlTree
  imports AvlLinks
begin

text \<open>
  The abstract side of the AVL tree: trees whose nodes carry the address of their
  links and their balance factor, contexts (the path from a node up to the root, the
  way the code walks it), and the relation between memory and trees.
\<close>

section \<open>Trees and paths\<close>

datatype atree = Leaf | Node atree addr int atree

fun root_of :: "atree \<Rightarrow> addr" where
  "root_of Leaf = NULL"
| "root_of (Node l a b r) = a"

fun addrs :: "atree \<Rightarrow> addr list" where
  "addrs Leaf = []"
| "addrs (Node l a b r) = addrs l @ a # addrs r"

fun height :: "atree \<Rightarrow> nat" where
  "height Leaf = 0"
| "height (Node l a b r) = Suc (max (height l) (height r))"

fun bal :: "atree \<Rightarrow> int" where
  "bal Leaf = 0"
| "bal (Node l a b r) = b"

text \<open>The AVL invariant: every balance field is the height difference, and small.\<close>

fun avl :: "atree \<Rightarrow> bool" where
  "avl Leaf = True"
| "avl (Node l a b r) \<longleftrightarrow> b = int (height r) - int (height l) \<and> \<bar>b\<bar> \<le> 1 \<and> avl l \<and> avl r"

text \<open>
  A path is the list of the ancestors of a position, the nearest first, each with its
  other subtree: \<open>FL a b r\<close> when the position is in the left subtree of \<open>a\<close>.
\<close>

datatype frame = FL addr int atree | FR atree addr int

type_synonym path = "frame list"

fun fill :: "frame \<Rightarrow> atree \<Rightarrow> atree" where
  "fill (FL a b r) t = Node t a b r"
| "fill (FR l a b) t = Node l a b t"

fun plug :: "path \<Rightarrow> atree \<Rightarrow> atree" where
  "plug [] t = t"
| "plug (f # c) t = plug c (fill f t)"

fun before_frame :: "frame \<Rightarrow> addr list" where
  "before_frame (FL a b r) = []"
| "before_frame (FR l a b) = addrs l @ [a]"

fun after_frame :: "frame \<Rightarrow> addr list" where
  "after_frame (FL a b r) = a # addrs r"
| "after_frame (FR l a b) = []"

fun before :: "path \<Rightarrow> addr list" where
  "before [] = []"
| "before (f # c) = before c @ before_frame f"

fun after :: "path \<Rightarrow> addr list" where
  "after [] = []"
| "after (f # c) = after_frame f @ after c"

lemma addrs_fill [simp]: "addrs (fill f t) = before_frame f @ addrs t @ after_frame f"
  by (cases f) auto

lemma addrs_plug [simp]: "addrs (plug c t) = before c @ addrs t @ after c"
  by (induction c arbitrary: t) auto

lemma plug_append: "plug (c @ d) t = plug d (plug c t)"
  by (induction c arbitrary: t) auto

lemma root_of_NULL: "NULL \<notin> set (addrs t) \<Longrightarrow> root_of t = NULL \<longleftrightarrow> t = Leaf"
  by (cases t) auto

lemma root_of_in: "t \<noteq> Leaf \<Longrightarrow> root_of t \<in> set (addrs t)"
  by (cases t) auto

lemma root_of_cases: "root_of t = NULL \<or> root_of t \<in> set (addrs t)"
  by (cases t) auto

text \<open>Every address of a tree is reached by a path.\<close>

lemma path_to:
  assumes "a \<in> set (addrs t)"
  obtains c l b r where "t = plug c (Node l a b r)"
proof -
  have "\<exists>c l b r. t = plug c (Node l a b r)"
    using assms
  proof (induction t)
    case Leaf
    then show ?case by simp
  next
    case (Node tl x bx tr)
    then consider "a = x" | "a \<in> set (addrs tl)" | "a \<in> set (addrs tr)" by auto
    then show ?case
    proof cases
      case 1
      then show ?thesis by (metis plug.simps(1))
    next
      case 2
      then obtain c l b r where "tl = plug c (Node l a b r)" using Node.IH(1) by blast
      then have "Node tl x bx tr = plug (c @ [FL x bx tr]) (Node l a b r)"
        by (simp add: plug_append)
      then show ?thesis by blast
    next
      case 3
      then obtain c l b r where "tr = plug c (Node l a b r)" using Node.IH(2) by blast
      then have "Node tl x bx tr = plug (c @ [FR tl x bx]) (Node l a b r)"
        by (simp add: plug_append)
      then show ?thesis by blast
    qed
  qed
  then show ?thesis using that by blast
qed

section \<open>Trees in memory\<close>

fun tree_in :: "avl_heap \<Rightarrow> addr \<Rightarrow> atree \<Rightarrow> bool" where
  "tree_in h par Leaf = True"
| "tree_in h par (Node l a b r) \<longleftrightarrow>
     a \<noteq> NULL
   \<and> h a = Some \<lparr>Parent = par, Left = root_of l, Right = root_of r, Balance = b\<rparr>
   \<and> tree_in h a l \<and> tree_in h a r"

text \<open>The parent address of a position and the pointer field that points to it.\<close>

fun par_of :: "addr \<Rightarrow> path \<Rightarrow> addr" where
  "par_of R [] = R"
| "par_of R (FL a b r # c) = a"
| "par_of R (FR l a b # c) = a"

fun slot_of :: "addr \<Rightarrow> path \<Rightarrow> slot" where
  "slot_of R [] = RightOf R"
| "slot_of R (FL a b r # c) = LeftOf a"
| "slot_of R (FR l a b # c) = RightOf a"

fun side_of :: "path \<Rightarrow> int" where
  "side_of [] = 1"
| "side_of (FL a b r # c) = - 1"
| "side_of (FR l a b # c) = 1"

text \<open>The path is in memory, with \<open>p\<close> the pointer stored at its open end.\<close>

fun path_in :: "avl_heap \<Rightarrow> addr \<Rightarrow> addr \<Rightarrow> path \<Rightarrow> bool" where
  "path_in h R p [] \<longleftrightarrow>
     h R = Some \<lparr>Parent = NULL, Left = NULL, Right = p, Balance = 0\<rparr>"
| "path_in h R p (FL a b r # c) \<longleftrightarrow>
     a \<noteq> NULL
   \<and> h a = Some \<lparr>Parent = par_of R c, Left = p, Right = root_of r, Balance = b\<rparr>
   \<and> tree_in h a r \<and> path_in h R a c"
| "path_in h R p (FR l a b # c) \<longleftrightarrow>
     a \<noteq> NULL
   \<and> h a = Some \<lparr>Parent = par_of R c, Left = root_of l, Right = p, Balance = b\<rparr>
   \<and> tree_in h a l \<and> path_in h R a c"

text \<open>The whole picture: a tree under the sentinel \<open>R\<close>, nodes pairwise distinct.\<close>

definition avl_repr :: "avl_heap \<Rightarrow> addr \<Rightarrow> atree \<Rightarrow> bool" where
  "avl_repr h R t \<longleftrightarrow>
     R \<noteq> NULL \<and> path_in h R (root_of t) [] \<and> tree_in h R t \<and> distinct (R # addrs t)"

definition zip_in :: "avl_heap \<Rightarrow> addr \<Rightarrow> path \<Rightarrow> atree \<Rightarrow> bool" where
  "zip_in h R c t \<longleftrightarrow>
     R \<noteq> NULL \<and> path_in h R (root_of t) c \<and> tree_in h (par_of R c) t
   \<and> distinct (R # addrs (plug c t))"

lemma zip_in_fill: "zip_in h R c (fill f t) \<longleftrightarrow> zip_in h R (f # c) t"
  by (cases f) (auto simp: zip_in_def)

lemma zip_in_plug: "zip_in h R c t \<longleftrightarrow> avl_repr h R (plug c t)"
proof (induction c arbitrary: t)
  case Nil
  then show ?case by (auto simp: zip_in_def avl_repr_def)
next
  case (Cons f c)
  then show ?case by (simp add: zip_in_fill [symmetric])
qed

lemma tree_in_NULL: "tree_in h p t \<Longrightarrow> NULL \<notin> set (addrs t)"
  by (induction h p t rule: tree_in.induct) auto

lemma tree_in_dom: "tree_in h p t \<Longrightarrow> set (addrs t) \<subseteq> dom h"
  by (induction h p t rule: tree_in.induct) auto

lemma path_in_NULL: "path_in h R p c \<Longrightarrow> NULL \<notin> set (before c @ after c)"
  by (induction h R p c rule: path_in.induct) (auto dest: tree_in_NULL)

lemma zip_in_NULL: "zip_in h R c t \<Longrightarrow> NULL \<notin> set (R # addrs (plug c t))"
  by (auto simp: zip_in_def dest: tree_in_NULL path_in_NULL)

subsection \<open>Frame rules\<close>

lemma tree_in_cong:
  "(\<And>x. x \<in> set (addrs t) \<Longrightarrow> h' x = h x) \<Longrightarrow> tree_in h' p t \<longleftrightarrow> tree_in h p t"
  by (induction h p t rule: tree_in.induct) auto

lemma tree_in_upd [simp]: "x \<notin> set (addrs t) \<Longrightarrow> tree_in (h(x := v)) p t \<longleftrightarrow> tree_in h p t"
  by (rule tree_in_cong) auto

lemma path_in_cong:
  "(\<And>x. x \<in> set (R # before c @ after c) \<Longrightarrow> h' x = h x) \<Longrightarrow> path_in h' R p c \<longleftrightarrow> path_in h R p c"
proof (induction h R p c rule: path_in.induct)
  case (1 h R p)
  then show ?case by simp
next
  case (2 h R p a b r c)
  have "path_in h' R a c = path_in h R a c"
    by (rule "2.IH") (use "2.prems" in auto)
  moreover have "tree_in h' a r = tree_in h a r"
    by (rule tree_in_cong) (simp add: "2.prems")
  ultimately show ?case using "2.prems" by simp
next
  case (3 h R p l a b c)
  have "path_in h' R a c = path_in h R a c"
    by (rule "3.IH") (use "3.prems" in auto)
  moreover have "tree_in h' a l = tree_in h a l"
    by (rule tree_in_cong) (simp add: "3.prems")
  ultimately show ?case using "3.prems" by simp
qed

lemma path_in_upd [simp]:
  "x \<notin> set (R # before c @ after c) \<Longrightarrow> path_in (h(x := v)) R p c \<longleftrightarrow> path_in h R p c"
  by (rule path_in_cong) auto

lemma par_of_in: "par_of R c \<in> set (R # before c @ after c)"
  by (cases c; cases "hd c") auto

lemma par_of_not_NULL: "path_in h R p c \<Longrightarrow> R \<noteq> NULL \<Longrightarrow> par_of R c \<noteq> NULL"
  by (cases c; cases "hd c") auto

lemma same_outside_tree_in:
  "same_outside A h h' \<Longrightarrow> A \<inter> set (addrs t) = {} \<Longrightarrow> tree_in h' p t \<longleftrightarrow> tree_in h p t"
  by (rule tree_in_cong) (auto simp: same_outside_def)

lemma same_outside_path_in:
  "same_outside A h h' \<Longrightarrow> A \<inter> set (R # before c @ after c) = {} \<Longrightarrow>
   path_in h' R p c \<longleftrightarrow> path_in h R p c"
  by (rule path_in_cong) (auto simp: same_outside_def)

end
