(* ===== verification/AvlRotate.thy ===== *)
theory AvlRotate
  imports AvlTree
begin

text \<open>
  What the rotations and the rebalancing step do to the tree in memory: each one
  turns the tree at a position of the path into the rotated tree, leaves the path
  alone and writes nothing outside the tree object.
\<close>

section \<open>Writing through the slot of a position\<close>

lemma read_slot_of: "path_in h R p c \<Longrightarrow> R \<noteq> NULL \<Longrightarrow> read_slot h (slot_of R c) = Some p"
  by (induction h R p c rule: path_in.induct) (auto simp: heap_simps)

lemma write_slot_of:
  assumes "path_in h R p c" "distinct (R # before c @ after c)" "R \<noteq> NULL"
  obtains h' where "write_slot (slot_of R c) q h = Some h'" "path_in h' R q c"
    "\<And>x. x \<noteq> par_of R c \<Longrightarrow> h' x = h x"
proof -
  have "\<exists>h'. write_slot (slot_of R c) q h = Some h' \<and> path_in h' R q c
      \<and> (\<forall>x. x \<noteq> par_of R c \<longrightarrow> h' x = h x)"
    using assms
    by (induction h R p c rule: path_in.induct) (auto simp: heap_simps)
  then show ?thesis using that by blast
qed

lemma write_slot_zip:
  assumes "zip_in h R c t"
  obtains h1 where "write_slot (slot_of R c) q h = Some h1" "path_in h1 R q c"
    "tree_in h1 (par_of R c) t" "\<And>x. x \<noteq> par_of R c \<Longrightarrow> h1 x = h x"
    "par_of R c \<notin> set (addrs t)" "par_of R c \<noteq> NULL"
    "read_slot h (slot_of R c) = Some (root_of t)"
    "same_outside (set (R # addrs (plug c t))) h h1"
proof -
  have d: "distinct (R # before c @ addrs t @ after c)"
    and z: "path_in h R (root_of t) c" "tree_in h (par_of R c) t" "R \<noteq> NULL"
    using assms by (auto simp: zip_in_def)
  have dc: "distinct (R # before c @ after c)" using d by auto
  have in_c: "par_of R c \<in> set (R # before c @ after c)" by (rule par_of_in)
  then have notin: "par_of R c \<notin> set (addrs t)" using d by auto
  obtain h1 where h1: "write_slot (slot_of R c) q h = Some h1" "path_in h1 R q c"
    and same: "\<And>x. x \<noteq> par_of R c \<Longrightarrow> h1 x = h x"
    using write_slot_of [OF z(1) dc z(3)] by metis
  have "tree_in h1 (par_of R c) t \<longleftrightarrow> tree_in h (par_of R c) t"
    by (rule tree_in_cong) (metis same notin)
  moreover have "same_outside {par_of R c} h h1"
    using same by (simp add: same_outside_def)
  then have "same_outside (set (R # addrs (plug c t))) h h1"
    by (rule same_outside_mono) (use in_c in auto)
  ultimately show ?thesis
    using that h1 same notin z par_of_not_NULL read_slot_of by blast
qed

lemmas link_writes = set_Parent_def set_Left_def set_Right_def set_Balance_def set_Parent_if_def
  heap_simps

lemma zip_in_distinct: "zip_in h R c t \<Longrightarrow> distinct (R # before c @ addrs t @ after c)"
  by (simp add: zip_in_def)

text \<open>
  \<open>yields m h R c t t'\<close>: run in \<open>h\<close>, where \<open>t\<close> is the tree at the position \<open>c\<close>, the
  step \<open>m\<close> succeeds, leaves \<open>t'\<close> there, and writes inside the tree object only.
\<close>

definition yields ::
  "avl_heap option \<Rightarrow> avl_heap \<Rightarrow> addr \<Rightarrow> path \<Rightarrow> atree \<Rightarrow> atree \<Rightarrow> bool" where
  "yields m h R c t t' \<longleftrightarrow>
     (\<exists>h'. m = Some h' \<and> zip_in h' R c t' \<and> same_outside (set (R # addrs (plug c t))) h h')"

lemma yieldsE:
  assumes "yields m h R c t t'"
  obtains h' where "m = Some h'" "zip_in h' R c t'" "same_outside (set (R # addrs (plug c t))) h h'"
  using assms by (auto simp: yields_def)

lemma yields_bind:
  assumes "yields m h R c t t'" "set (addrs t') = set (addrs t)"
    and "\<And>h'. m = Some h' \<Longrightarrow> zip_in h' R c t' \<Longrightarrow> yields (f h') h' R c t' t''"
  shows "yields (Option.bind m f) h R c t t''"
proof -
  obtain h' where h': "m = Some h'" "zip_in h' R c t'"
    "same_outside (set (R # addrs (plug c t))) h h'"
    using assms(1) by (rule yieldsE)
  obtain h'' where "f h' = Some h''" "zip_in h'' R c t''"
    "same_outside (set (R # addrs (plug c t'))) h' h''"
    using assms(3) [OF h'(1,2)] by (rule yieldsE)
  then show ?thesis
    using h' assms(2) unfolding yields_def by (auto elim: same_outside_trans)
qed

lemma zip_inD:
  "zip_in h R c t \<Longrightarrow> R \<noteq> NULL" "zip_in h R c t \<Longrightarrow> tree_in h (par_of R c) t"
  "zip_in h R c t \<Longrightarrow> path_in h R (root_of t) c"
  "zip_in h R c t \<Longrightarrow> read_slot h (slot_of R c) = Some (root_of t)"
  by (auto simp: zip_in_def read_slot_of)

section \<open>Rotations\<close>

lemma rotate_left:
  assumes "zip_in h R c (Node A p bp (Node B q bq C))" (is "zip_in h R c ?t")
  shows "yields (PhpRotateLeftAvlLinks (slot_of R c) h) h R c ?t (Node (Node A p bp B) q bq C)"
proof -
  obtain h1 where w: "write_slot (slot_of R c) q h = Some h1" "path_in h1 R q c"
    "tree_in h1 (par_of R c) ?t" "same_outside (set (R # addrs (plug c ?t))) h h1"
    by (rule write_slot_zip [OF assms])
  then show ?thesis
    using zip_inD [OF assms] zip_in_distinct [OF assms]
    by (cases B; simp add: yields_def PhpRotateLeftAvlLinks_def link_writes zip_in_def same_outside_upd)
qed

lemma rotate_right:
  assumes "zip_in h R c (Node (Node A p bp B) q bq C)" (is "zip_in h R c ?t")
  shows "yields (PhpRotateRightAvlLinks (slot_of R c) h) h R c ?t (Node A p bp (Node B q bq C))"
proof -
  obtain h1 where w: "write_slot (slot_of R c) p h = Some h1" "path_in h1 R p c"
    "tree_in h1 (par_of R c) ?t" "same_outside (set (R # addrs (plug c ?t))) h h1"
    by (rule write_slot_zip [OF assms])
  then show ?thesis
    using zip_inD [OF assms] zip_in_distinct [OF assms]
    by (cases B; simp add: yields_def PhpRotateRightAvlLinks_def link_writes zip_in_def same_outside_upd)
qed

lemma rotate_left_twice:
  assumes "zip_in h R c (Node A p bp (Node (Node B r br C) q bq D))" (is "zip_in h R c ?t")
  shows "yields (PhpRotateLeftTwiceAvlLinks (slot_of R c) h) h R c ?t
    (Node (Node A p bp B) r br (Node C q bq D))"
proof -
  obtain h1 where w: "write_slot (slot_of R c) r h = Some h1" "path_in h1 R r c"
    "tree_in h1 (par_of R c) ?t" "same_outside (set (R # addrs (plug c ?t))) h h1"
    by (rule write_slot_zip [OF assms])
  then show ?thesis
    using zip_inD [OF assms] zip_in_distinct [OF assms]
    by (cases B; cases C;
        clarsimp simp: yields_def PhpRotateLeftTwiceAvlLinks_def link_writes zip_in_def same_outside_upd)
qed

lemma rotate_right_twice:
  assumes "zip_in h R c (Node (Node A q bq (Node B r br C)) p bp D)" (is "zip_in h R c ?t")
  shows "yields (PhpRotateRightTwiceAvlLinks (slot_of R c) h) h R c ?t
    (Node (Node A q bq B) r br (Node C p bp D))"
proof -
  obtain h1 where w: "write_slot (slot_of R c) r h = Some h1" "path_in h1 R r c"
    "tree_in h1 (par_of R c) ?t" "same_outside (set (R # addrs (plug c ?t))) h h1"
    by (rule write_slot_zip [OF assms])
  then show ?thesis
    using zip_inD [OF assms] zip_in_distinct [OF assms]
    by (cases B; cases C;
        clarsimp simp: yields_def PhpRotateRightTwiceAvlLinks_def link_writes zip_in_def same_outside_upd)
qed

section \<open>Rebalancing\<close>

fun set_bal :: "addr \<Rightarrow> int \<Rightarrow> atree \<Rightarrow> atree" where
  "set_bal x v Leaf = Leaf"
| "set_bal x v (Node l a b r) = Node (set_bal x v l) a (if a = x then v else b) (set_bal x v r)"

lemma set_bal_id [simp]: "x \<notin> set (addrs t) \<Longrightarrow> set_bal x v t = t"
  by (induction t) auto

lemma root_of_set_bal [simp]: "root_of (set_bal x v t) = root_of t"
  by (cases t) auto

lemma addrs_set_bal [simp]: "addrs (set_bal x v t) = addrs t"
  by (induction t) auto

lemma tree_in_set_bal:
  "tree_in h p t \<Longrightarrow> distinct (addrs t) \<Longrightarrow> x \<in> set (addrs t) \<Longrightarrow>
   \<exists>h'. set_Balance x v h = Some h' \<and> tree_in h' p (set_bal x v t) \<and> (\<forall>y. y \<noteq> x \<longrightarrow> h' y = h y)"
proof (induction h p t rule: tree_in.induct)
  case (1 h par)
  then show ?case by simp
next
  case (2 h par l a b r)
  then consider "x = a" | "x \<in> set (addrs l)" "x \<noteq> a" "x \<notin> set (addrs r)"
    | "x \<in> set (addrs r)" "x \<noteq> a" "x \<notin> set (addrs l)" by auto
  then show ?case
  proof cases
    case 1
    then show ?thesis using "2.prems" by (auto simp: link_writes)
  next
    case 2
    with "2.IH"(1) "2.prems" obtain h' where h': "set_Balance x v h = Some h'"
      "tree_in h' a (set_bal x v l)" "\<forall>y. y \<noteq> x \<longrightarrow> h' y = h y" by auto
    moreover have "tree_in h' a r \<longleftrightarrow> tree_in h a r"
      by (rule tree_in_cong) (metis h'(3) 2(3))
    ultimately show ?thesis using "2.prems" 2 by auto
  next
    case 3
    with "2.IH"(2) "2.prems" obtain h' where h': "set_Balance x v h = Some h'"
      "tree_in h' a (set_bal x v r)" "\<forall>y. y \<noteq> x \<longrightarrow> h' y = h y" by auto
    moreover have "tree_in h' a l \<longleftrightarrow> tree_in h a l"
      by (rule tree_in_cong) (metis h'(3) 3(3))
    ultimately show ?thesis using "2.prems" 3 by auto
  qed
qed

lemma set_Balance_yields:
  assumes z: "zip_in h R c t" and x: "x \<in> set (addrs t)"
  shows "yields (set_Balance x v h) h R c t (set_bal x v t)"
proof -
  have d: "distinct (R # before c @ addrs t @ after c)" by (rule zip_in_distinct [OF z])
  then have "distinct (addrs t)" by simp
  then obtain h' where h': "set_Balance x v h = Some h'" "tree_in h' (par_of R c) (set_bal x v t)"
    "\<forall>y. y \<noteq> x \<longrightarrow> h' y = h y"
    using tree_in_set_bal [OF zip_inD(2) [OF z] _ x] by blast
  have "path_in h' R (root_of t) c \<longleftrightarrow> path_in h R (root_of t) c"
    by (rule path_in_cong) (use h'(3) d x in auto)
  moreover have "same_outside (set (R # addrs (plug c t))) h h'"
    using h'(3) x by (auto simp: same_outside_def)
  ultimately show ?thesis
    using h' d zip_inD [OF z] by (auto simp: yields_def zip_in_def)
qed

end
