(* ===== verification/AvlRebalance.thy ===== *)
theory AvlRebalance
  imports AvlRotate
begin

text \<open>
  The rebalancing step and the two loops that walk up the path, on trees: \<open>rebal\<close>,
  \<open>add_up\<close> and \<open>remove_up\<close> say what \<open>PhpRebalanceAvlLinks\<close> and the loops of
  \<open>PhAddElementAvlTree\<close> and \<open>PhRemoveElementAvlTree\<close> do to the tree in memory, and
  the lemmas of the second half that the balance invariant is restored.
\<close>

section \<open>The rebalancing step on trees\<close>

fun rebal :: "atree \<Rightarrow> atree \<times> nat" where
  "rebal Leaf = (Leaf, 0)"
| "rebal (Node l p bp r) =
     (if bp = - 1 then
        (case l of Leaf \<Rightarrow> (Node l p bp r, 0)
         | Node A q bq B \<Rightarrow>
             if bq = - 1 then (Node A q 0 (Node B p 0 r), 1)
             else if bq = 1 then
               (case B of Leaf \<Rightarrow> (Node l p bp r, 0)
                | Node B1 s bs B2 \<Rightarrow>
                    (Node (Node A q (if bs = 1 then - 1 else 0) B1) s 0
                          (Node B2 p (if bs = - 1 then 1 else 0) r), 2))
             else (Node A q 1 (Node B p bp r), 3))
      else
        (case r of Leaf \<Rightarrow> (Node l p bp r, 0)
         | Node B q bq C \<Rightarrow>
             if bq = 1 then (Node (Node l p 0 B) q 0 C, 1)
             else if bq = - 1 then
               (case B of Leaf \<Rightarrow> (Node l p bp r, 0)
                | Node B1 s bs B2 \<Rightarrow>
                    (Node (Node l p (if bs = 1 then - 1 else 0) B1) s 0
                          (Node B2 q (if bs = - 1 then 1 else 0) C), 2))
             else (Node (Node l p bp B) q (- 1) C, 3)))"

lemma addrs_rebal [simp]: "addrs (fst (rebal t)) = addrs t"
  by (cases t) (auto split: atree.splits)

text \<open>The step in memory is the step on trees.\<close>

definition rebalanced :: "avl_heap \<Rightarrow> addr \<Rightarrow> path \<Rightarrow> atree \<Rightarrow> bool" where
  "rebalanced h R c t \<longleftrightarrow>
     (\<exists>h'. PhpRebalanceAvlLinks (slot_of R c) h = Some (h', snd (rebal t))
         \<and> zip_in h' R c (fst (rebal t)) \<and> same_outside (set (R # addrs (plug c t))) h h')"

lemma set_Balance_step:
  assumes "zip_in h R c t" "x \<in> set (addrs t)" "A = set (R # addrs (plug c t))"
  obtains h' where "set_Balance x v h = Some h'" "zip_in h' R c (set_bal x v t)"
    "same_outside A h h'"
  using set_Balance_yields [OF assms(1,2), of v] assms(3) by (auto elim: yieldsE)

lemma rebalancedI:
  assumes "PhpRebalanceAvlLinks (slot_of R c) h = Some (h', snd (rebal t))"
    "zip_in h' R c (fst (rebal t))" "A = set (R # addrs (plug c t))"
    "same_outside A h h1" "same_outside A h1 h'"
  shows "rebalanced h R c t"
  using assms unfolding rebalanced_def by (meson same_outside_trans subset_refl)

lemma rebalanced_single_left:
  assumes z: "zip_in h R c (Node (Node A q bq B) p (- 1) C)" (is "zip_in h R c ?t")
    and b: "bq \<noteq> 1"
  shows "rebalanced h R c ?t"
proof -
  let ?S = "set (R # addrs (plug c ?t))"
  let ?t1 = "Node A q bq (Node B p (- 1) C)"
  have d: "distinct (addrs ?t)" using zip_in_distinct [OF z] by auto
  obtain h1 where 1: "PhpRotateRightAvlLinks (slot_of R c) h = Some h1" "zip_in h1 R c ?t1"
    "same_outside ?S h h1"
    using rotate_right [OF z] by (rule yieldsE)
  show ?thesis
  proof (cases "bq = - 1")
    case True
    obtain h2 where 2: "set_Balance p 0 h1 = Some h2" "zip_in h2 R c (set_bal p 0 ?t1)"
      "same_outside ?S h1 h2"
      by (rule set_Balance_step [OF 1(2), of p ?S 0]) auto
    obtain h3 where 3: "set_Balance q 0 h2 = Some h3" "zip_in h3 R c (set_bal q 0 (set_bal p 0 ?t1))"
      "same_outside ?S h2 h3"
      by (rule set_Balance_step [OF 2(2), of q ?S 0]) auto
    have "same_outside ?S h1 h3" using 2(3) 3(3) by (rule same_outside_trans) auto
    then show ?thesis
      using 1 2(1) 3 True d zip_inD [OF z]
      by (intro rebalancedI [where h' = h3, OF _ _ refl 1(3)])
         (auto simp: PhpRebalanceAvlLinks_def heap_simps)
  next
    case False
    obtain h2 where 2: "set_Balance q 1 h1 = Some h2" "zip_in h2 R c (set_bal q 1 ?t1)"
      "same_outside ?S h1 h2"
      by (rule set_Balance_step [OF 1(2), of q ?S 1]) auto
    then show ?thesis
      using 1 False b d zip_inD [OF z]
      by (intro rebalancedI [where h' = h2, OF _ _ refl 1(3)])
         (auto simp: PhpRebalanceAvlLinks_def heap_simps)
  qed
qed

lemma rebalanced_single_right:
  assumes z: "zip_in h R c (Node A p bp (Node B q bq C))" (is "zip_in h R c ?t")
    and b: "bp \<noteq> - 1" "bq \<noteq> - 1"
  shows "rebalanced h R c ?t"
proof -
  let ?S = "set (R # addrs (plug c ?t))"
  let ?t1 = "Node (Node A p bp B) q bq C"
  have d: "distinct (addrs ?t)" using zip_in_distinct [OF z] by auto
  obtain h1 where 1: "PhpRotateLeftAvlLinks (slot_of R c) h = Some h1" "zip_in h1 R c ?t1"
    "same_outside ?S h h1"
    using rotate_left [OF z] by (rule yieldsE)
  show ?thesis
  proof (cases "bq = 1")
    case True
    obtain h2 where 2: "set_Balance p 0 h1 = Some h2" "zip_in h2 R c (set_bal p 0 ?t1)"
      "same_outside ?S h1 h2"
      by (rule set_Balance_step [OF 1(2), of p ?S 0]) auto
    obtain h3 where 3: "set_Balance q 0 h2 = Some h3" "zip_in h3 R c (set_bal q 0 (set_bal p 0 ?t1))"
      "same_outside ?S h2 h3"
      by (rule set_Balance_step [OF 2(2), of q ?S 0]) auto
    have "same_outside ?S h1 h3" using 2(3) 3(3) by (rule same_outside_trans) auto
    then show ?thesis
      using 1 2(1) 3 True b d zip_inD [OF z]
      by (intro rebalancedI [where h' = h3, OF _ _ refl 1(3)])
         (auto simp: PhpRebalanceAvlLinks_def heap_simps)
  next
    case False
    obtain h2 where 2: "set_Balance q (- 1) h1 = Some h2" "zip_in h2 R c (set_bal q (- 1) ?t1)"
      "same_outside ?S h1 h2"
      by (rule set_Balance_step [OF 1(2), of q ?S "- 1"]) auto
    then show ?thesis
      using 1 False b d zip_inD [OF z]
      by (intro rebalancedI [where h' = h2, OF _ _ refl 1(3)])
         (auto simp: PhpRebalanceAvlLinks_def heap_simps)
  qed
qed

text \<open>After a double rotation three balances are set; only their values differ.\<close>

lemma set_three_balances:
  assumes "zip_in h R c t" "{p, q, s} \<subseteq> set (addrs t)" "A = set (R # addrs (plug c t))"
  obtains h1 h2 h3 where "set_Balance p v h = Some h1" "set_Balance q w h1 = Some h2"
    "set_Balance s 0 h2 = Some h3" "zip_in h3 R c (set_bal s 0 (set_bal q w (set_bal p v t)))"
    "same_outside A h h3"
proof -
  obtain h1 where 1: "set_Balance p v h = Some h1" "zip_in h1 R c (set_bal p v t)"
    "same_outside A h h1"
    by (rule set_Balance_step [OF assms(1), of p A v]) (use assms in auto)
  obtain h2 where 2: "set_Balance q w h1 = Some h2" "zip_in h2 R c (set_bal q w (set_bal p v t))"
    "same_outside A h1 h2"
    by (rule set_Balance_step [OF 1(2), of q A w]) (use assms in auto)
  obtain h3 where 3: "set_Balance s 0 h2 = Some h3"
    "zip_in h3 R c (set_bal s 0 (set_bal q w (set_bal p v t)))" "same_outside A h2 h3"
    by (rule set_Balance_step [OF 2(2), of s A 0]) (use assms in auto)
  have "same_outside A h h3" using 1(3) 2(3) 3(3) by (meson same_outside_trans subset_refl)
  then show ?thesis using that 1 2 3 by blast
qed

lemma rebalanced_double_left:
  assumes z: "zip_in h R c (Node (Node A q 1 (Node B s bs C)) p (- 1) D)" (is "zip_in h R c ?t")
  shows "rebalanced h R c ?t"
proof -
  let ?S = "set (R # addrs (plug c ?t))"
  let ?t1 = "Node (Node A q 1 B) s bs (Node C p (- 1) D)"
  let ?v = "if bs = - 1 then 1 else (0::int)"
  let ?w = "if bs = 1 then - 1 else (0::int)"
  have d: "distinct (addrs ?t)" using zip_in_distinct [OF z] by auto
  obtain h1 where 1: "PhpRotateRightTwiceAvlLinks (slot_of R c) h = Some h1" "zip_in h1 R c ?t1"
    "same_outside ?S h h1"
    using rotate_right_twice [OF z] by (rule yieldsE)
  obtain h2 h3 h4 where 2: "set_Balance p ?v h1 = Some h2" "set_Balance q ?w h2 = Some h3"
    "set_Balance s 0 h3 = Some h4" "zip_in h4 R c (set_bal s 0 (set_bal q ?w (set_bal p ?v ?t1)))"
    "same_outside ?S h1 h4"
    by (rule set_three_balances [OF 1(2), of p q s ?S ?v ?w]) auto
  show ?thesis
    using 1(1) 2(1-4) d zip_inD [OF z] zip_inD [OF 1(2)]
    by (intro rebalancedI [where h' = h4, OF _ _ refl 1(3) 2(5)])
       (auto simp: PhpRebalanceAvlLinks_def heap_simps split: if_splits)
qed

lemma rebalanced_double_right:
  assumes z: "zip_in h R c (Node A p bp (Node (Node B s bs C) q (- 1) D))" (is "zip_in h R c ?t")
    and b: "bp \<noteq> - 1"
  shows "rebalanced h R c ?t"
proof -
  let ?S = "set (R # addrs (plug c ?t))"
  let ?t1 = "Node (Node A p bp B) s bs (Node C q (- 1) D)"
  let ?v = "if bs = 1 then - 1 else (0::int)"
  let ?w = "if bs = - 1 then 1 else (0::int)"
  have d: "distinct (addrs ?t)" using zip_in_distinct [OF z] by auto
  obtain h1 where 1: "PhpRotateLeftTwiceAvlLinks (slot_of R c) h = Some h1" "zip_in h1 R c ?t1"
    "same_outside ?S h h1"
    using rotate_left_twice [OF z] by (rule yieldsE)
  obtain h2 h3 h4 where 2: "set_Balance p ?v h1 = Some h2" "set_Balance q ?w h2 = Some h3"
    "set_Balance s 0 h3 = Some h4" "zip_in h4 R c (set_bal s 0 (set_bal q ?w (set_bal p ?v ?t1)))"
    "same_outside ?S h1 h4"
    by (rule set_three_balances [OF 1(2), of p q s ?S ?v ?w]) auto
  show ?thesis
    using 1(1) 2(1-4) b d zip_inD [OF z] zip_inD [OF 1(2)]
    by (intro rebalancedI [where h' = h4, OF _ _ refl 1(3) 2(5)])
       (auto simp: PhpRebalanceAvlLinks_def heap_simps split: if_splits)
qed

lemma rebalance_correct:
  assumes z: "zip_in h R c t" and k: "snd (rebal t) \<noteq> 0"
  shows "rebalanced h R c t"
proof -
  from k obtain l p bp r where t: "t = Node l p bp r" by (cases t) auto
  show ?thesis
  proof (cases "bp = - 1")
    case True
    with k t obtain A q bq B where l: "l = Node A q bq B" by (cases l) auto
    show ?thesis
    proof (cases "bq = 1")
      case False
      then show ?thesis using rebalanced_single_left z t l True by simp
    next
      case bq: True
      with k t l True obtain B1 s bs B2 where "B = Node B1 s bs B2" by (cases B) auto
      then show ?thesis using rebalanced_double_left z t l True bq by simp
    qed
  next
    case False
    with k t obtain B q bq C where r: "r = Node B q bq C" by (cases r) auto
    show ?thesis
    proof (cases "bq = - 1")
      case bq: False
      then show ?thesis using rebalanced_single_right z t r False by simp
    next
      case True
      with k t r False obtain B1 s bs B2 where "B = Node B1 s bs B2" by (cases B) auto
      then show ?thesis using rebalanced_double_right z t r False True by simp
    qed
  qed
qed

section \<open>The loops that walk up, on trees\<close>

text \<open>
  \<open>add_up c t\<close>: the subtree at the position \<open>c\<close> is now \<open>t\<close> and has grown by one.
  \<open>remove_up c t\<close>: it is now \<open>t\<close> and has shrunk by one.  The result is the whole tree.
\<close>

fun frame_bal :: "frame \<Rightarrow> int" where
  "frame_bal (FL a b r) = b"
| "frame_bal (FR l a b) = b"

fun frame_side :: "frame \<Rightarrow> int" where
  "frame_side (FL a b r) = - 1"
| "frame_side (FR l a b) = 1"

fun frame_set :: "int \<Rightarrow> frame \<Rightarrow> frame" where
  "frame_set v (FL a b r) = FL a v r"
| "frame_set v (FR l a b) = FR l a v"

fun add_up :: "path \<Rightarrow> atree \<Rightarrow> atree" where
  "add_up [] t = t"
| "add_up (f # c) t =
     (if frame_bal f = 0 then add_up c (fill (frame_set (frame_side f) f) t)
      else if frame_bal f \<noteq> frame_side f then plug c (fill (frame_set 0 f) t)
      else plug c (fst (rebal (fill f t))))"

fun remove_up :: "path \<Rightarrow> atree \<Rightarrow> atree" where
  "remove_up [] t = t"
| "remove_up (f # c) t =
     (if frame_bal f = frame_side f then remove_up c (fill (frame_set 0 f) t)
      else if frame_bal f = 0 then plug c (fill (frame_set (- frame_side f) f) t)
      else if snd (rebal (fill f t)) = 3 then plug c (fst (rebal (fill f t)))
      else remove_up c (fst (rebal (fill f t))))"

lemma frame_set_addrs [simp]:
  "before_frame (frame_set v f) = before_frame f" "after_frame (frame_set v f) = after_frame f"
  by (cases f; simp)+

lemma addrs_add_up [simp]: "addrs (add_up c t) = addrs (plug c t)"
  by (induction c t rule: add_up.induct) auto

lemma addrs_remove_up [simp]: "addrs (remove_up c t) = addrs (plug c t)"
  by (induction c t rule: remove_up.induct) auto

subsection \<open>The balance invariant\<close>

text \<open>The path is balanced around a subtree of height \<open>n\<close>.\<close>

fun avl_path :: "path \<Rightarrow> nat \<Rightarrow> bool" where
  "avl_path [] n \<longleftrightarrow> True"
| "avl_path (FL a b r # c) n \<longleftrightarrow>
     b = int (height r) - int n \<and> \<bar>b\<bar> \<le> 1 \<and> avl r \<and> avl_path c (Suc (max n (height r)))"
| "avl_path (FR l a b # c) n \<longleftrightarrow>
     b = int n - int (height l) \<and> \<bar>b\<bar> \<le> 1 \<and> avl l \<and> avl_path c (Suc (max (height l) n))"

lemma avl_plug: "avl (plug c t) \<longleftrightarrow> avl t \<and> avl_path c (height t)"
proof (induction c arbitrary: t)
  case Nil
  then show ?case by simp
next
  case (Cons f c)
  then show ?case by (cases f) auto
qed

text \<open>
  What \<open>rebal\<close> achieves on a node that leans by two: a balanced tree, one lower than
  before except in the special case (kind 3), where the height stays.
\<close>

lemma rebal_left:
  assumes "avl l" "avl r" "height l = Suc (Suc (height r))"
  shows "avl (fst (rebal (Node l p (- 1) r)))" "snd (rebal (Node l p (- 1) r)) \<noteq> 0"
    "height (fst (rebal (Node l p (- 1) r))) =
       (if snd (rebal (Node l p (- 1) r)) = 3 then Suc (height l) else height l)"
    "snd (rebal (Node l p (- 1) r)) = 3 \<longleftrightarrow> bal l = 0"
  using assms by (cases l; force split: atree.splits)+

lemma rebal_right:
  assumes "avl l" "avl r" "height r = Suc (Suc (height l))"
  shows "avl (fst (rebal (Node l p 1 r)))" "snd (rebal (Node l p 1 r)) \<noteq> 0"
    "height (fst (rebal (Node l p 1 r))) =
       (if snd (rebal (Node l p 1 r)) = 3 then Suc (height r) else height r)"
    "snd (rebal (Node l p 1 r)) = 3 \<longleftrightarrow> bal r = 0"
  using assms by (cases r; force split: atree.splits)+

declare rebal.simps [simp del]

lemma frame_path:
  "avl_path (f # c) n \<Longrightarrow> \<bar>frame_bal f\<bar> \<le> 1"
  by (cases f) auto

lemma add_up_rebal:
  assumes "avl_path (f # c) n" "avl t" "height t = Suc n" "n = 0 \<or> bal t \<noteq> 0"
    and "frame_bal f \<noteq> 0" "frame_bal f = frame_side f"
  shows "avl (fst (rebal (fill f t)))" "snd (rebal (fill f t)) \<noteq> 0"
    "height (fst (rebal (fill f t))) = Suc n"
proof -
  have "avl (fst (rebal (fill f t))) \<and> snd (rebal (fill f t)) \<noteq> 0
      \<and> height (fst (rebal (fill f t))) = Suc n"
  proof (cases f)
    case (FL a b r)
    with assms have "b = - 1" "height t = Suc (Suc (height r))" "avl r" by auto
    then show ?thesis using rebal_left [of t r a] assms FL by auto
  next
    case (FR l a b)
    with assms have "b = 1" "height t = Suc (Suc (height l))" "avl l" by auto
    then show ?thesis using rebal_right [of l t a] assms FR by auto
  qed
  then show "avl (fst (rebal (fill f t)))" "snd (rebal (fill f t)) \<noteq> 0"
    "height (fst (rebal (fill f t))) = Suc n" by blast+
qed

text \<open>Growing: the path was balanced around height \<open>n\<close>, the new subtree has \<open>n + 1\<close>.\<close>

lemma avl_add_up:
  "avl_path c n \<Longrightarrow> avl t \<Longrightarrow> height t = Suc n \<Longrightarrow> n = 0 \<or> bal t \<noteq> 0 \<Longrightarrow> avl (add_up c t)"
proof (induction c arbitrary: n t)
  case Nil
  then show ?case by simp
next
  case (Cons f c)
  consider "frame_bal f = 0" | "frame_bal f \<noteq> 0" "frame_bal f \<noteq> frame_side f"
    | "frame_bal f \<noteq> 0" "frame_bal f = frame_side f" by blast
  then show ?case
  proof cases
    case 1
    then have "avl_path c (Suc n)" "avl (fill (frame_set (frame_side f) f) t)"
      "height (fill (frame_set (frame_side f) f) t) = Suc (Suc n)"
      "bal (fill (frame_set (frame_side f) f) t) \<noteq> 0"
      using Cons.prems by (cases f; auto)+
    then show ?thesis using Cons.IH 1 by simp
  next
    case 2
    then have "avl_path c (Suc (Suc n))" "avl (fill (frame_set 0 f) t)"
      "height (fill (frame_set 0 f) t) = Suc (Suc n)"
      using Cons.prems by (cases f; simp; smt (verit) max_def of_nat_Suc of_nat_eq_iff)+
    then show ?thesis using 2 by (simp add: avl_plug)
  next
    case 3
    then have "avl_path c (Suc n)" using Cons.prems by (cases f) auto
    then show ?thesis using add_up_rebal [OF Cons.prems 3] 3 by (simp add: avl_plug)
  qed
qed

text \<open>Shrinking: the path was balanced around height \<open>n + 1\<close>, the new subtree has \<open>n\<close>.\<close>

lemma remove_up_rebal:
  assumes "avl_path (f # c) (Suc n)" "avl t" "height t = n"
    and "frame_bal f \<noteq> 0" "frame_bal f \<noteq> frame_side f"
  shows "avl (fst (rebal (fill f t)))" "snd (rebal (fill f t)) \<noteq> 0"
    "snd (rebal (fill f t)) = 3 \<Longrightarrow> avl_path c (height (fst (rebal (fill f t))))"
    "snd (rebal (fill f t)) \<noteq> 3 \<Longrightarrow> avl_path c (Suc (height (fst (rebal (fill f t)))))"
proof -
  have "avl (fst (rebal (fill f t))) \<and> snd (rebal (fill f t)) \<noteq> 0
      \<and> (snd (rebal (fill f t)) = 3 \<longrightarrow> avl_path c (height (fst (rebal (fill f t)))))
      \<and> (snd (rebal (fill f t)) \<noteq> 3 \<longrightarrow> avl_path c (Suc (height (fst (rebal (fill f t))))))"
  proof (cases f)
    case (FL a b r)
    with assms have r: "b = 1" "height r = Suc (Suc (height t))" "avl r" by auto
    have "avl_path c (Suc (height r))" using assms FL r by simp
    then show ?thesis using rebal_right [OF assms(2) r(3,2), of a] assms FL r by auto
  next
    case (FR l a b)
    with assms have l: "b = - 1" "height l = Suc (Suc (height t))" "avl l" by auto
    have "avl_path c (Suc (height l))" using assms FR l by simp
    then show ?thesis using rebal_left [OF l(3) assms(2) l(2), of a] assms FR l by auto
  qed
  then show "avl (fst (rebal (fill f t)))" "snd (rebal (fill f t)) \<noteq> 0"
    "snd (rebal (fill f t)) = 3 \<Longrightarrow> avl_path c (height (fst (rebal (fill f t))))"
    "snd (rebal (fill f t)) \<noteq> 3 \<Longrightarrow> avl_path c (Suc (height (fst (rebal (fill f t)))))" by blast+
qed

lemma avl_remove_up:
  "avl_path c (Suc n) \<Longrightarrow> avl t \<Longrightarrow> height t = n \<Longrightarrow> avl (remove_up c t)"
proof (induction c arbitrary: n t)
  case Nil
  then show ?case by simp
next
  case (Cons f c)
  consider "frame_bal f = frame_side f" | "frame_bal f \<noteq> frame_side f" "frame_bal f = 0"
    | "frame_bal f \<noteq> 0" "frame_bal f \<noteq> frame_side f" by blast
  then show ?case
  proof cases
    case 1
    then have "avl_path c (Suc (height (fill (frame_set 0 f) t)))" "avl (fill (frame_set 0 f) t)"
      using Cons.prems by (cases f; auto simp: max_def)+
    then show ?thesis using Cons.IH 1 by simp
  next
    case 2
    then have "avl_path c (Suc (Suc n))" "avl (fill (frame_set (- frame_side f) f) t)"
      "height (fill (frame_set (- frame_side f) f) t) = Suc (Suc n)"
      using Cons.prems by (cases f; simp; smt (verit) max_def of_nat_Suc of_nat_eq_iff)+
    then show ?thesis using 2 by (simp add: avl_plug)
  next
    case 3
    then show ?thesis
      using remove_up_rebal [OF Cons.prems 3] Cons.IH by (auto simp: avl_plug)
  qed
qed

section \<open>The loops in memory\<close>

fun frame_addr :: "frame \<Rightarrow> addr" where
  "frame_addr (FL a b r) = a"
| "frame_addr (FR l a b) = a"

fun top_of :: "path \<Rightarrow> addr \<Rightarrow> addr" where
  "top_of [] p = p"
| "top_of (f # c) p = top_of c (frame_addr f)"

lemma root_of_fill [simp]: "root_of (fill f t) = frame_addr f"
  by (cases f) auto

lemma root_of_plug: "root_of (plug c t) = top_of c (root_of t)"
  by (induction c arbitrary: t) auto

lemma frame_addr_in: "frame_addr f \<in> set (before_frame f @ after_frame f)"
  by (cases f) auto

lemma top_of_in: "c \<noteq> [] \<Longrightarrow> top_of c p \<in> set (before c @ after c)"
proof (induction c arbitrary: p)
  case Nil
  then show ?case by simp
next
  case (Cons f c)
  then show ?case using frame_addr_in [of f] by (cases c) auto
qed

lemma par_of_Cons [simp]: "par_of R (f # c) = frame_addr f"
  by (cases f) auto

lemma zip_in_frame:
  assumes "zip_in h R (f # c) t"
  shows "h (frame_addr f) = Some \<lparr>Parent = par_of R c,
      Left = root_of (case f of FL a b r \<Rightarrow> t | FR l a b \<Rightarrow> l),
      Right = root_of (case f of FL a b r \<Rightarrow> r | FR l a b \<Rightarrow> t), Balance = frame_bal f\<rparr>"
    "frame_addr f \<noteq> NULL"
  using assms by (cases f; auto simp: zip_in_def)+

lemma zip_in_root: "zip_in h R c t \<Longrightarrow> t \<noteq> Leaf \<Longrightarrow> root_of t \<noteq> NULL"
  by (cases t) (auto simp: zip_in_def)

text \<open>The test \<open>P->Parent->Left == P\<close> tells on which side of its parent \<open>P\<close> hangs.\<close>

lemma zip_in_side:
  assumes z: "zip_in h R c t" and t: "t \<noteq> Leaf"
  obtains l where "deref h (par_of R c) = Some l" "Left l = root_of t \<longleftrightarrow> side_of c = - 1"
    "(if Left l = root_of t then LeftOf (par_of R c) else RightOf (par_of R c)) = slot_of R c"
proof (cases c)
  case Nil
  then show ?thesis
    using that z zip_in_root [OF z t] by (auto simp: zip_in_def heap_simps)
next
  case (Cons f d)
  have in_t: "root_of t \<in> set (addrs t)" using t root_of_in by auto
  show ?thesis
  proof (cases f)
    case (FL a b r)
    then show ?thesis using that zip_in_frame [of h R f d t] z Cons by (auto simp: heap_simps)
  next
    case (FR l a b)
    have "root_of l \<noteq> root_of t"
      using zip_in_distinct [OF z] in_t root_of_cases [of l] zip_in_root [OF z t] Cons FR by auto
    then show ?thesis using that zip_in_frame [of h R f d t] z Cons FR by (auto simp: heap_simps)
  qed
qed

text \<open>Setting the balance of the nearest ancestor.\<close>

lemma set_frame_balance:
  assumes "zip_in h R (f # c) t"
  obtains h' where "set_Balance (frame_addr f) v h = Some h'"
    "zip_in h' R (frame_set v f # c) t" "same_outside (set (R # addrs (plug (f # c) t))) h h'"
proof -
  have z: "zip_in h R c (fill f t)" using assms by (simp add: zip_in_fill)
  have "set_bal (frame_addr f) v (fill f t) = fill (frame_set v f) t"
    using zip_in_distinct [OF z] by (cases f) auto
  then show ?thesis
    using that set_Balance_yields [OF z, of "frame_addr f" v] frame_addr_in [of f]
    by (auto simp: yields_def zip_in_fill)
qed

lemma frame_set_simps [simp]:
  "frame_addr (frame_set v f) = frame_addr f" "frame_side (frame_set v f) = frame_side f"
  "frame_bal (frame_set v f) = v"
  by (cases f; simp)+

lemma side_of_Cons [simp]: "side_of (f # c) = frame_side f"
  by (cases f) auto

lemma frame_side_cases: "frame_side f = - 1 \<or> frame_side f = 1"
  by (cases f) auto

text \<open>Only in the middle of the path is the position's root not the tree's root.\<close>

lemma root_of_plug_eq:
  assumes "zip_in h R c t" "t \<noteq> Leaf"
  shows "root_of t = root_of (plug c t) \<longleftrightarrow> c = []"
proof (cases "c = []")
  case False
  have "root_of t \<in> set (addrs t)" using assms root_of_in by auto
  moreover have "root_of (plug c t) \<in> set (before c @ after c)"
    using False top_of_in by (simp add: root_of_plug)
  ultimately show ?thesis using False zip_in_distinct [OF assms(1)] by fastforce
qed simp

lemma add_balance_correct:
  "zip_in h R c t \<Longrightarrow> t \<noteq> Leaf \<Longrightarrow> avl_path c n \<Longrightarrow> avl t \<Longrightarrow> height t = Suc n \<Longrightarrow>
   n = 0 \<or> bal t \<noteq> 0 \<Longrightarrow>
   \<exists>h'. PhAddElement_balance (root_of t) (root_of (plug c t)) h = Some h'
      \<and> avl_repr h' R (add_up c t) \<and> same_outside (set (R # addrs (plug c t))) h h'"
proof (induction c arbitrary: t n h)
  case Nil
  then show ?case
    by (auto simp: PhAddElement_balance.simps zip_in_plug [of h R "[]", simplified])
next
  case (Cons f c)
  note z = Cons.prems(1)
  let ?P = "root_of t" and ?A = "frame_addr f" and ?root = "root_of (plug (f # c) t)"
  let ?S = "set (R # addrs (plug (f # c) t))"
  have P: "deref h ?P = Some \<lparr>Parent = ?A, Left = root_of (case t of Node l a b r \<Rightarrow> l),
      Right = root_of (case t of Node l a b r \<Rightarrow> r), Balance = bal t\<rparr>"
    using z Cons.prems(2) by (cases t) (auto simp: zip_in_def heap_simps)
  have ne: "?P \<noteq> ?root" using root_of_plug_eq [OF z Cons.prems(2)] by simp
  obtain A where A: "deref h ?A = Some A" "Left A = ?P \<longleftrightarrow> frame_side f = - 1"
    using zip_in_side [OF z Cons.prems(2)] by (metis par_of_Cons side_of_Cons)
  have A': "Balance A = frame_bal f" "Parent A = par_of R c"
    using A(1) zip_in_frame [OF z] by (auto simp: deref_def)
  have side: "(if Left A = ?P then - 1 else 1) = frame_side f"
    using A(2) frame_side_cases [of f] by auto
  note step = PhAddElement_balance.simps [of ?P ?root h]
  consider "frame_bal f = 0" | "frame_bal f \<noteq> 0" "frame_bal f \<noteq> frame_side f"
    | "frame_bal f \<noteq> 0" "frame_bal f = frame_side f" by blast
  then show ?case
  proof cases
    case 1
    let ?f = "frame_set (frame_side f) f"
    obtain h1 where h1: "set_Balance ?A (frame_side f) h = Some h1" "zip_in h1 R (?f # c) t"
      "same_outside ?S h h1"
      by (rule set_frame_balance [OF z])
    have "avl_path c (Suc n)" "avl (fill ?f t)" "height (fill ?f t) = Suc (Suc n)"
      "bal (fill ?f t) \<noteq> 0" "fill ?f t \<noteq> Leaf"
      using Cons.prems 1 by (cases f; auto)+
    then obtain h2 where h2: "PhAddElement_balance (root_of (fill ?f t)) (root_of (plug c (fill ?f t))) h1 = Some h2"
      "avl_repr h2 R (add_up c (fill ?f t))"
      "same_outside (set (R # addrs (plug c (fill ?f t)))) h1 h2"
      using Cons.IH [of h1 "fill ?f t" "Suc n"] h1(2) by (auto simp: zip_in_fill)
    have "same_outside ?S h h2" using h1(3) h2(3) by (auto elim: same_outside_trans)
    then show ?thesis
      using h1 h2 1 ne P A A' side step by (simp add: root_of_plug)
  next
    case 2
    obtain h1 where h1: "set_Balance ?A 0 h = Some h1" "zip_in h1 R (frame_set 0 f # c) t"
      "same_outside ?S h h1"
      by (rule set_frame_balance [OF z])
    then show ?thesis
      using 2 ne P A A' side step by (simp add: zip_in_plug)
  next
    case 3
    have z': "zip_in h R c (fill f t)" using z by (simp add: zip_in_fill)
    have nL: "fill f t \<noteq> Leaf" by (cases f) auto
    obtain G where G: "deref h (par_of R c) = Some G"
      "(if Left G = ?A then LeftOf (par_of R c) else RightOf (par_of R c)) = slot_of R c"
      using zip_in_side [OF z' nL] by (metis root_of_fill)
    obtain h1 where h1: "PhpRebalanceAvlLinks (slot_of R c) h = Some (h1, snd (rebal (fill f t)))"
      "zip_in h1 R c (fst (rebal (fill f t)))" "same_outside ?S h h1"
      using rebalance_correct [OF z'] add_up_rebal(2) [OF Cons.prems(3-6) 3]
      by (auto simp: rebalanced_def)
    then show ?thesis
      using 3 ne P A A' side G step by (cases "Left G = ?A"; simp add: zip_in_plug)
  qed
qed

lemma side_of_test: "L = p \<longleftrightarrow> side_of c = - 1 \<Longrightarrow> (if L = p then - 1 else 1) = side_of c"
  using frame_side_cases by (cases c) auto

text \<open>After a rotation of kind 1 or 2 the old top node is a child of the new one.\<close>

lemma rebal_parent:
  assumes "t \<noteq> Leaf" "snd (rebal t) \<noteq> 0" "snd (rebal t) \<noteq> 3"
  obtains l s b r where "fst (rebal t) = Node l s b r" "root_of l = root_of t \<or> root_of r = root_of t"
proof -
  have "\<exists>l s b r. fst (rebal t) = Node l s b r \<and> (root_of l = root_of t \<or> root_of r = root_of t)"
    using assms by (cases t) (simp_all add: rebal.simps split: atree.splits if_splits)
  then show ?thesis using that by blast
qed

lemma zip_in_child:
  assumes "zip_in h R c (Node l s b r)" "root_of l = p \<or> root_of r = p" "p \<noteq> NULL"
  obtains P where "deref h p = Some P" "Parent P = s"
proof -
  have "\<exists>P. deref h (root_of u) = Some P \<and> Parent P = s" if "tree_in h s u" "root_of u \<noteq> NULL" for u
    using that by (cases u) (simp_all add: heap_simps)
  moreover have "tree_in h s l" "tree_in h s r" using assms(1) by (simp_all add: zip_in_def)
  ultimately show ?thesis using assms(2,3) that by blast
qed

lemma remove_balance_correct:
  "zip_in h R c t \<Longrightarrow> avl_path c (Suc n) \<Longrightarrow> avl t \<Longrightarrow> height t = n \<Longrightarrow>
   \<exists>h'. PhRemoveElement_balance (par_of R c) (side_of c) R h = Some h'
      \<and> avl_repr h' R (remove_up c t) \<and> same_outside (set (R # addrs (plug c t))) h h'"
proof (induction c arbitrary: t n h)
  case Nil
  then show ?case
    by (auto simp: PhRemoveElement_balance.simps zip_in_plug [of h R "[]", simplified])
next
  case (Cons f c)
  note z = Cons.prems(1)
  let ?P = "frame_addr f" and ?b = "frame_side f"
  let ?S = "set (R # addrs (plug (f # c) t))"
  have z': "zip_in h R c (fill f t)" using z by (simp add: zip_in_fill)
  have nL: "fill g t \<noteq> Leaf" for g by (cases g) auto
  obtain P where P: "deref h ?P = Some P" "Balance P = frame_bal f" "Parent P = par_of R c"
    using zip_in_frame [OF z] by (auto simp: deref_def)
  have "R \<notin> set (before_frame f @ after_frame f)" using zip_in_distinct [OF z] by auto
  then have ne: "?P \<noteq> R" using frame_addr_in [of f] by auto
  note step = PhRemoveElement_balance.simps [of ?P ?b R h]
  consider "frame_bal f = frame_side f" | "frame_bal f \<noteq> frame_side f" "frame_bal f = 0"
    | "frame_bal f \<noteq> 0" "frame_bal f \<noteq> frame_side f" by blast
  then show ?case
  proof cases
    case 1
    let ?f = "frame_set 0 f"
    obtain h1 where h1: "set_Balance ?P 0 h = Some h1" "zip_in h1 R (?f # c) t"
      "same_outside ?S h h1"
      by (rule set_frame_balance [OF z])
    have z1: "zip_in h1 R c (fill ?f t)" using h1(2) by (simp add: zip_in_fill)
    obtain P1 where P1: "deref h1 ?P = Some P1" "Parent P1 = par_of R c"
      using zip_in_frame [OF h1(2)] by (auto simp: deref_def)
    obtain G where G: "deref h1 (par_of R c) = Some G" "Left G = ?P \<longleftrightarrow> side_of c = - 1"
      by (rule zip_in_side [OF z1 nL]) simp
    have side: "(if Left G = ?P then - 1 else 1) = side_of c"
      using G(2) by (rule side_of_test)
    have "avl_path c (Suc (height (fill ?f t)))" "avl (fill ?f t)"
      using Cons.prems 1 by (cases f; auto simp: max_def)+
    then obtain h2 where h2: "PhRemoveElement_balance (par_of R c) (side_of c) R h1 = Some h2"
      "avl_repr h2 R (remove_up c (fill ?f t))"
      "same_outside (set (R # addrs (plug c (fill ?f t)))) h1 h2"
      using Cons.IH [OF z1] by blast
    have "same_outside ?S h h2" using h1(3) h2(3) by (auto elim: same_outside_trans)
    then show ?thesis
      using h1 h2 1 ne P P1 G(1) side step by simp
  next
    case 2
    obtain h1 where h1: "set_Balance ?P (- ?b) h = Some h1" "zip_in h1 R (frame_set (- ?b) f # c) t"
      "same_outside ?S h h1"
      by (rule set_frame_balance [OF z])
    then show ?thesis
      using 2 ne P step by (simp add: zip_in_plug)
  next
    case 3
    obtain G where G: "deref h (par_of R c) = Some G"
      "(if Left G = ?P then LeftOf (par_of R c) else RightOf (par_of R c)) = slot_of R c"
      using zip_in_side [OF z' nL] by (metis root_of_fill)
    note reb = remove_up_rebal [OF Cons.prems(2-4) 3]
    let ?t = "fst (rebal (fill f t))"
    obtain h1 where h1: "PhpRebalanceAvlLinks (slot_of R c) h = Some (h1, snd (rebal (fill f t)))"
      "zip_in h1 R c ?t" "same_outside ?S h h1"
      using rebalance_correct [OF z'] reb(2) by (auto simp: rebalanced_def)
    show ?thesis
    proof (cases "snd (rebal (fill f t)) = 3")
      case True
      then show ?thesis
        using h1 3 ne P G step by (cases "Left G = ?P"; simp add: zip_in_plug)
    next
      case False
      then obtain l s b r where t: "?t = Node l s b r" "root_of l = ?P \<or> root_of r = ?P"
        using rebal_parent [OF nL, of f] reb(2) by (metis root_of_fill)
      obtain P1 where P1: "deref h1 ?P = Some P1" "Parent P1 = root_of ?t"
        using zip_in_child [of h1 R c l s b r ?P] h1(2) t zip_in_frame(2) [OF z] by auto
      obtain Q where Q: "deref h1 (root_of ?t) = Some Q" "Parent Q = par_of R c"
        using h1(2) t(1) by (auto simp: zip_in_def heap_simps)
      obtain G1 where G1: "deref h1 (par_of R c) = Some G1" "Left G1 = root_of ?t \<longleftrightarrow> side_of c = - 1"
        using zip_in_side [OF h1(2)] t(1) by auto
      have side: "(if Left G1 = root_of ?t then - 1 else 1) = side_of c"
        using G1(2) by (rule side_of_test)
      obtain h2 where h2: "PhRemoveElement_balance (par_of R c) (side_of c) R h1 = Some h2"
        "avl_repr h2 R (remove_up c ?t)" "same_outside (set (R # addrs (plug c ?t))) h1 h2"
        using Cons.IH [OF h1(2) reb(4) reb(1) refl] False by blast
      have "same_outside ?S h h2" using h1(3) h2(3) by (auto elim: same_outside_trans)
      then show ?thesis
        using h1(1) h2 3 False ne P P1 Q G1(1) side G step by (cases "Left G = ?P"; simp)
    qed
  qed
qed

end
