(* ===== verification/Compare.thy ===== *)
theory Compare
  imports Prelude
begin

text \<open>
  The contract of the compare functions given to the ordered containers, and the two
  compare functions of phlib that are given to an AVL tree: that of the module set of
  the symbol provider (\<open>symprv.c\<close>) and that of the view set of the file pool
  (\<open>filepool.c\<close>).
\<close>

section \<open>The comparisons of \<open>phsup.h\<close>\<close>

definition PH_BUILTIN_COMPARE :: "'a::linorder \<Rightarrow> 'a \<Rightarrow> int" where
  "PH_BUILTIN_COMPARE value1 value2 =
     (if value1 > value2 then 1 else if value1 < value2 then - 1 else 0)"

definition uint64cmp :: "ulong64 \<Rightarrow> ulong64 \<Rightarrow> int" where
  "uint64cmp value1 value2 = PH_BUILTIN_COMPARE value1 value2"

definition uintptrcmp :: "ulong64 \<Rightarrow> ulong64 \<Rightarrow> int" where
  "uintptrcmp value1 value2 = PH_BUILTIN_COMPARE value1 value2"

text \<open>
  The records around the links: \<open>BaseAddress\<close> and \<open>Base\<close> give the field of the record
  that contains the links at an address.
\<close>

definition PhpSymbolModuleCompareFunction :: "(addr \<Rightarrow> ulong64) \<Rightarrow> addr \<Rightarrow> addr \<Rightarrow> int" where
  "PhpSymbolModuleCompareFunction BaseAddress Links1 Links2 =
     uint64cmp (BaseAddress Links1) (BaseAddress Links2)"

definition PhpFilePoolViewByBaseCompareFunction :: "(addr \<Rightarrow> ulong64) \<Rightarrow> addr \<Rightarrow> addr \<Rightarrow> int" where
  "PhpFilePoolViewByBaseCompareFunction Base Links1 Links2 = uintptrcmp (Base Links1) (Base Links2)"

section \<open>The contract\<close>

text \<open>Strictly increasing lists, and where a new element goes in one.\<close>

definition increasing :: "('a \<Rightarrow> 'a \<Rightarrow> int) \<Rightarrow> 'a list \<Rightarrow> bool" where
  "increasing cmp xs \<longleftrightarrow> sorted_wrt (\<lambda>a b. cmp a b < 0) xs"

definition insert_by :: "('a \<Rightarrow> 'a \<Rightarrow> int) \<Rightarrow> 'a \<Rightarrow> 'a list \<Rightarrow> 'a list" where
  "insert_by cmp e xs =
     takeWhile (\<lambda>x. cmp e x > 0) xs @ e # dropWhile (\<lambda>x. cmp e x > 0) xs"

text \<open>Only the sign of the result counts, and it says how two elements are ordered.\<close>

lemma increasing_remove1: "increasing cmp xs \<Longrightarrow> increasing cmp (remove1 x xs)"
proof (induction xs)
  case Nil
  then show ?case by simp
next
  case (Cons y ys)
  then show ?case using set_remove1_subset [of x ys] by (auto simp: increasing_def)
qed

locale compare_order =
  fixes cmp :: "addr \<Rightarrow> addr \<Rightarrow> int"
  assumes flip: "cmp a b < 0 \<longleftrightarrow> cmp b a > 0"
    and trans: "cmp a b \<le> 0 \<Longrightarrow> cmp b c \<le> 0 \<Longrightarrow> cmp a c \<le> 0"
begin

lemma flip_le: "cmp a b \<le> 0 \<longleftrightarrow> cmp b a \<ge> 0"
  using flip [of b a] by linarith

lemma refl [simp]: "cmp a a = 0"
  using flip [of a a] by linarith

lemma sym0: "cmp a b = 0 \<longleftrightarrow> cmp b a = 0"
  using flip [of a b] flip [of b a] by linarith

lemma less_trans: "cmp a b < 0 \<Longrightarrow> cmp b c \<le> 0 \<Longrightarrow> cmp a c < 0"
  using trans [of b c a] flip [of a b] flip [of a c] flip [of c a] flip_le [of c a] by linarith

lemma le_less_trans: "cmp a b \<le> 0 \<Longrightarrow> cmp b c < 0 \<Longrightarrow> cmp a c < 0"
  using trans [of c a b] flip [of b c] flip [of a c] flip [of c a] flip_le [of c a] by linarith

lemma increasing_nth_less:
  "increasing cmp (xs @ a # ys) \<Longrightarrow> x \<in> set xs \<Longrightarrow> cmp e a \<ge> 0 \<Longrightarrow> cmp e x > 0"
  using less_trans [of x a e] flip [of x e] flip_le [of a e] by (auto simp: increasing_def sorted_wrt_append)

lemma increasing_nth_greater:
  "increasing cmp (xs @ a # ys) \<Longrightarrow> y \<in> set ys \<Longrightarrow> cmp e a \<le> 0 \<Longrightarrow> cmp e y < 0"
  using le_less_trans [of e a y] by (auto simp: increasing_def sorted_wrt_append)

lemma insert_by_split:
  assumes "\<forall>x \<in> set xs. cmp e x > 0" "\<forall>y \<in> set ys. cmp e y < 0"
  shows "insert_by cmp e (xs @ ys) = xs @ e # ys"
proof -
  have "takeWhile (\<lambda>x. cmp e x > 0) ys = []" "dropWhile (\<lambda>x. cmp e x > 0) ys = ys"
    using assms(2) by (cases ys; fastforce)+
  then show ?thesis using assms(1) by (simp add: insert_by_def)
qed

lemma increasing_insert:
  assumes "increasing cmp (xs @ ys)" "\<forall>x \<in> set xs. cmp e x > 0" "\<forall>y \<in> set ys. cmp e y < 0"
  shows "increasing cmp (xs @ e # ys)"
  using assms flip by (auto simp: increasing_def sorted_wrt_append)

text \<open>At most one element of an increasing list compares equal to a given one.\<close>

lemma increasing_unique:
  assumes "increasing cmp xs" "x \<in> set xs" "y \<in> set xs" "cmp e x = 0" "cmp e y = 0"
  shows "x = y"
proof -
  obtain as bs where xs: "xs = as @ x # bs" using assms(2) by (meson split_list)
  show ?thesis
    using assms increasing_nth_less [of as x bs y e] increasing_nth_greater [of as x bs y e] xs by auto
qed

end

lemma PH_BUILTIN_COMPARE_order:
  "compare_order (\<lambda>a b. PH_BUILTIN_COMPARE (f a :: 'k::linorder) (f b))"
  by unfold_locales (auto simp: PH_BUILTIN_COMPARE_def split: if_splits)

interpretation symbol_modules: compare_order "PhpSymbolModuleCompareFunction BaseAddress"
  for BaseAddress :: "addr \<Rightarrow> ulong64"
  using PH_BUILTIN_COMPARE_order [of BaseAddress]
  by (simp add: PhpSymbolModuleCompareFunction_def [abs_def] uint64cmp_def)

interpretation file_pool_views: compare_order "PhpFilePoolViewByBaseCompareFunction Base"
  for Base :: "addr \<Rightarrow> ulong64"
  using PH_BUILTIN_COMPARE_order [of Base]
  by (simp add: PhpFilePoolViewByBaseCompareFunction_def [abs_def] uintptrcmp_def)

end
