(* ===== verification/AvlOps.thy ===== *)
theory AvlOps
  imports AvlRebalance Compare
begin

text \<open>
  The operations of \<open>avltree.c\<close> against their abstract meaning: the tree object stands
  for the increasing list of its elements, and every operation is the obvious one on
  that list.
\<close>

section \<open>The abstraction\<close>

definition avl_holds :: "avl_heap \<Rightarrow> avl_tree \<Rightarrow> addr list \<Rightarrow> bool" where
  "avl_holds h T xs \<longleftrightarrow>
     (\<exists>t. avl_repr h (RootAddr T) t \<and> avl t \<and> addrs t = xs)
   \<and> increasing (CompareFunction T) xs \<and> Count T = of_nat (length xs)"

lemma root_element: "avl_repr h R t \<Longrightarrow> RootAddr T = R \<Longrightarrow> PhRootElementAvlTree T h = Some (root_of t)"
  by (simp add: avl_repr_def PhRootElementAvlTree_def heap_simps)

section \<open>Searching\<close>

fun find_in :: "(addr \<Rightarrow> addr \<Rightarrow> int) \<Rightarrow> addr \<Rightarrow> atree \<Rightarrow> addr \<times> int" where
  "find_in cmp e Leaf = (NULL, 1)"
| "find_in cmp e (Node l a b r) =
     (if cmp e a = 0 then (a, 0)
      else if cmp e a < 0 then (if l = Leaf then (a, - 1) else find_in cmp e l)
      else (if r = Leaf then (a, 1) else find_in cmp e r))"

lemma find_loop_correct:
  "tree_in h p t \<Longrightarrow> t \<noteq> Leaf \<Longrightarrow> PhpFindElement_loop cmp e (root_of t) h = Some (find_in cmp e t)"
proof (induction h p t rule: tree_in.induct)
  case (1 h par)
  then show ?case by simp
next
  case (2 h par l a b r)
  have "deref h a = Some \<lparr>Parent = par, Left = root_of l, Right = root_of r, Balance = b\<rparr>"
    "root_of l = NULL \<longleftrightarrow> l = Leaf" "root_of r = NULL \<longleftrightarrow> r = Leaf"
    using 2 by (auto simp: heap_simps) (cases l; simp; fail | cases r; simp; fail)+
  then show ?case
    using 2 by (auto simp: PhpFindElement_loop.simps [of cmp e a] Let_def)
qed

text \<open>The path to the free place where the search ends.\<close>

fun find_path :: "(addr \<Rightarrow> addr \<Rightarrow> int) \<Rightarrow> addr \<Rightarrow> path \<Rightarrow> atree \<Rightarrow> path" where
  "find_path cmp e c Leaf = c"
| "find_path cmp e c (Node l a b r) =
     (if cmp e a < 0 then find_path cmp e (FL a b r # c) l else find_path cmp e (FR l a b # c) r)"

lemma find_path_plug: "plug (find_path cmp e c t) Leaf = plug c t"
  by (induction cmp e c t rule: find_path.induct) auto

lemma find_in_path:
  "snd (find_in cmp e t) \<noteq> 0 \<Longrightarrow> t \<noteq> Leaf \<Longrightarrow>
   fst (find_in cmp e t) = par_of R (find_path cmp e c t)
   \<and> snd (find_in cmp e t) = side_of (find_path cmp e c t) \<and> find_path cmp e c t \<noteq> []"
proof (induction cmp e c t rule: find_path.induct)
  case (1 cmp e c)
  then show ?case by simp
next
  case (2 cmp e c l a b r)
  then show ?case by (cases l; cases r) (auto split: if_splits)
qed

lemma find_in_found:
  "snd (find_in cmp e t) = 0 \<Longrightarrow> fst (find_in cmp e t) \<in> set (addrs t) \<and> cmp e (fst (find_in cmp e t)) = 0"
  by (induction cmp e t rule: find_in.induct) (auto split: if_splits)

context compare_order
begin

lemma find_in_not_found:
  "increasing cmp (addrs t) \<Longrightarrow> t \<noteq> Leaf \<Longrightarrow> snd (find_in cmp e t) \<noteq> 0 \<Longrightarrow>
   x \<in> set (addrs t) \<Longrightarrow> cmp e x \<noteq> 0"
proof (induction t)
  case Leaf
  then show ?case by simp
next
  case (Node l a b r)
  have l: "x \<in> set (addrs l) \<Longrightarrow> cmp e a \<ge> 0 \<Longrightarrow> cmp e x > 0"
    using increasing_nth_less Node.prems(1) by simp
  have r: "x \<in> set (addrs r) \<Longrightarrow> cmp e a \<le> 0 \<Longrightarrow> cmp e x < 0"
    using increasing_nth_greater Node.prems(1) by simp
  have "increasing cmp (addrs l)" "increasing cmp (addrs r)"
    using Node.prems(1) by (auto simp: increasing_def sorted_wrt_append)
  then show ?case
    using Node.IH Node.prems l r by (auto split: if_splits)
qed

lemma find_path_order:
  "increasing cmp (addrs (plug c t)) \<Longrightarrow> \<forall>x \<in> set (before c). cmp e x > 0 \<Longrightarrow>
   \<forall>x \<in> set (after c). cmp e x < 0 \<Longrightarrow> \<forall>x \<in> set (addrs t). cmp e x \<noteq> 0 \<Longrightarrow>
   (\<forall>x \<in> set (before (find_path cmp e c t)). cmp e x > 0)
   \<and> (\<forall>x \<in> set (after (find_path cmp e c t)). cmp e x < 0)"
proof (induction t arbitrary: c)
  case Leaf
  then show ?case by simp
next
  case (Node l a b r)
  have inc: "increasing cmp (addrs l @ a # addrs r)"
    using Node.prems(1) by (auto simp: increasing_def sorted_wrt_append)
  show ?case
  proof (cases "cmp e a < 0")
    case True
    have "\<forall>x \<in> set (after (FL a b r # c)). cmp e x < 0"
      using True Node.prems(3) increasing_nth_greater [OF inc, of _ e] by auto
    then show ?thesis
      using Node.IH(1) [of "FL a b r # c"] Node.prems True by simp
  next
    case False
    then have "cmp e a > 0" using Node.prems(4) by force
    then have "\<forall>x \<in> set (before (FR l a b # c)). cmp e x > 0"
      using Node.prems(2) increasing_nth_less [OF inc, of _ e] by auto
    then show ?thesis
      using Node.IH(2) [of "FR l a b # c"] Node.prems False by simp
  qed
qed

end

text \<open>The search of the operations, on the tree under the sentinel.\<close>

lemma find_element:
  assumes "avl_repr h R t" "RootAddr T = R"
  shows "PhpFindElementAvlTree T e h =
    Some (if t = Leaf then (R, 1) else find_in (CompareFunction T) e t)"
proof -
  have t: "tree_in h R t" using assms by (simp add: avl_repr_def)
  then have "root_of t = NULL \<longleftrightarrow> t = Leaf" by (cases t) auto
  then show ?thesis
    using root_element [OF assms] find_loop_correct [OF t] assms(2)
    by (simp add: PhpFindElementAvlTree_def)
qed

lemma find_found:
  assumes "avl_holds h T xs" "compare_order (CompareFunction T)"
    and "x \<in> set xs" "CompareFunction T e x = 0"
  shows "PhpFindElementAvlTree T e h = Some (x, 0)"
proof -
  let ?cmp = "CompareFunction T"
  obtain t where t: "avl_repr h (RootAddr T) t" "addrs t = xs" and inc: "increasing ?cmp (addrs t)"
    using assms(1) by (auto simp: avl_holds_def)
  have "t \<noteq> Leaf" using assms(3) t by auto
  moreover from this have "snd (find_in ?cmp e t) = 0"
    using compare_order.find_in_not_found [OF assms(2) inc] assms(3,4) t by blast
  moreover from this have "fst (find_in ?cmp e t) = x"
    using find_in_found [of ?cmp e t] compare_order.increasing_unique [OF assms(2) inc] assms(3,4) t
    by blast
  ultimately show ?thesis
    using find_element [OF t(1) refl] by (simp add: prod_eq_iff)
qed

lemma find_not_found:
  assumes "avl_holds h T xs" "\<forall>x \<in> set xs. CompareFunction T e x \<noteq> 0"
  obtains p k where "PhpFindElementAvlTree T e h = Some (p, k)" "k \<noteq> 0"
proof -
  obtain t where t: "avl_repr h (RootAddr T) t" "addrs t = xs"
    using assms(1) by (auto simp: avl_holds_def)
  then have "t \<noteq> Leaf \<Longrightarrow> snd (find_in (CompareFunction T) e t) \<noteq> 0"
    using find_in_found [of "CompareFunction T" e t] assms(2) by auto
  then show ?thesis
    using that find_element [OF t(1) refl] by (cases "t = Leaf") (auto simp: prod_eq_iff)
qed

section \<open>Adding\<close>

text \<open>Linking a new node into the free place at the end of a path.\<close>

lemma link_new:
  assumes z: "zip_in h R c Leaf" and e: "e \<notin> set (R # addrs (plug c Leaf))" "e \<noteq> NULL" "e \<in> dom h"
  obtains h' where
    "PhAddElement_link e (par_of R c) (side_of c) h = Some h'"
    "zip_in h' R c (Node Leaf e 0 Leaf)" "same_outside (set (R # e # addrs (plug c Leaf))) h h'"
proof -
  obtain h1 where h1: "write_slot (slot_of R c) e h = Some h1" "path_in h1 R e c"
    "\<And>x. x \<noteq> par_of R c \<Longrightarrow> h1 x = h x" "same_outside (set (R # addrs (plug c Leaf))) h h1"
    by (rule write_slot_zip [OF z]) blast
  have w: "(if side_of c < 0 then set_Left (par_of R c) e h else set_Right (par_of R c) e h) = Some h1"
    using h1(1) by (cases c; cases "hd c") (auto simp: set_Left_def set_Right_def)
  have "par_of R c \<noteq> e" using par_of_in [of R c] e(1) by auto
  then obtain l where l: "h1 e = Some l" using e(3) h1(3) by fastforce
  let ?n = "\<lparr>Parent = par_of R c, Left = NULL, Right = NULL, Balance = 0\<rparr>"
  have "same_outside (set (R # e # addrs (plug c Leaf))) h (h1(e \<mapsto> ?n))"
    using h1(4) by (auto simp: same_outside_def)
  moreover have "zip_in (h1(e \<mapsto> ?n)) R c (Node Leaf e 0 Leaf)"
    using zip_in_distinct [OF z] zip_inD(1) [OF z] h1(2) e(1,2) by (auto simp: zip_in_def)
  ultimately show ?thesis
    using that l e(2) by (cases l) (simp add: PhAddElement_link_def w, simp add: link_writes)
qed

lemma add_correct:
  assumes h: "avl_holds h T xs" "compare_order (CompareFunction T)"
    and new: "\<forall>x \<in> set xs. CompareFunction T e x \<noteq> 0"
    and e: "e \<notin> set (RootAddr T # xs)" "e \<noteq> NULL" "e \<in> dom h"
  obtains h' where "PhAddElementAvlTree T e h = Some (NULL, T\<lparr>Count := Count T + 1\<rparr>, h')"
    "avl_holds h' (T\<lparr>Count := Count T + 1\<rparr>) (insert_by (CompareFunction T) e xs)"
    "same_outside (set (RootAddr T # e # xs)) h h'"
proof -
  let ?R = "RootAddr T" and ?cmp = "CompareFunction T"
  obtain t where t: "avl_repr h ?R t" "avl t" "addrs t = xs" and inc: "increasing ?cmp (addrs t)"
    and count: "Count T = of_nat (length xs)"
    using h(1) by (auto simp: avl_holds_def)
  define c where "c = find_path ?cmp e [] t"
  have c: "plug c Leaf = t" by (simp add: c_def find_path_plug)
  have z: "zip_in h ?R c Leaf" using t(1) c by (simp add: zip_in_plug)
  obtain p k where f: "PhpFindElementAvlTree T e h = Some (p, k)" "k \<noteq> 0"
    by (rule find_not_found [OF h(1) new])
  have pk: "p = par_of ?R c" "k = side_of c"
    using f find_element [OF t(1) refl, of e] find_in_path [of ?cmp e t ?R "[]"]
    by (cases "t = Leaf"; simp add: c_def prod_eq_iff)+
  obtain h1 where h1: "PhAddElement_link e p k h = Some h1"
    "zip_in h1 ?R c (Node Leaf e 0 Leaf)" "same_outside (set (?R # e # xs)) h h1"
    unfolding pk using link_new [OF z _ e(2,3)] e(1) c t(3) by metis
  have "avl_path c 0" using t(2) c avl_plug [of c Leaf] by simp
  then obtain h2 where h2: "PhAddElement_balance e (root_of (plug c (Node Leaf e 0 Leaf))) h1 = Some h2"
    "avl_repr h2 ?R (add_up c (Node Leaf e 0 Leaf))"
    "same_outside (set (?R # addrs (plug c (Node Leaf e 0 Leaf)))) h1 h2"
    using add_balance_correct [OF h1(2), of 0] by auto
  have "PhRootElementAvlTree T h1 = Some (root_of (plug c (Node Leaf e 0 Leaf)))"
    using h1(2) by (intro root_element [where R = ?R]) (simp_all add: zip_in_plug)
  then have run: "PhAddElementAvlTree T e h = Some (NULL, T\<lparr>Count := Count T + 1\<rparr>, h2)"
    using f h1(1) h2(1) by (simp add: PhAddElementAvlTree_def)
  let ?xs = "before c @ e # after c"
  have xs: "xs = before c @ after c" using c t(3) by auto
  have ord: "\<forall>x \<in> set (before c). ?cmp e x > 0" "\<forall>x \<in> set (after c). ?cmp e x < 0"
    using compare_order.find_path_order [OF h(2), of "[]" t e] inc new t(3) by (auto simp: c_def)
  have "insert_by ?cmp e xs = ?xs"
    unfolding xs by (rule compare_order.insert_by_split [OF h(2) ord])
  moreover have "increasing ?cmp ?xs"
    using compare_order.increasing_insert [OF h(2) _ ord] inc t(3) xs by simp
  moreover have "avl (add_up c (Node Leaf e 0 Leaf))"
    using avl_add_up [OF \<open>avl_path c 0\<close>] by simp
  ultimately have "avl_holds h2 (T\<lparr>Count := Count T + 1\<rparr>) (insert_by ?cmp e xs)"
    using h2(2) count xs unfolding avl_holds_def
    by (auto intro!: exI [of _ "add_up c (Node Leaf e 0 Leaf)"])
  moreover have "same_outside (set (?R # e # xs)) h h2"
    by (rule same_outside_trans [OF h1(3) h2(3)]) (use xs in auto)
  ultimately show ?thesis using that run by blast
qed

section \<open>The ends of a subtree\<close>

lemma walk_Left_correct:
  "tree_in h p t \<Longrightarrow> t \<noteq> Leaf \<Longrightarrow> walk_Left (root_of t) h = Some (hd (addrs t))"
proof (induction h p t rule: tree_in.induct)
  case (1 h par)
  then show ?case by simp
next
  case (2 h par l a b r)
  then show ?case
    by (cases l) (auto simp: walk_Left.simps [of a] heap_simps hd_append)
qed

lemma walk_Right_correct:
  "tree_in h p t \<Longrightarrow> t \<noteq> Leaf \<Longrightarrow> walk_Right (root_of t) h = Some (last (addrs t))"
proof (induction h p t rule: tree_in.induct)
  case (1 h par)
  then show ?case by simp
next
  case (2 h par l a b r)
  then show ?case
    by (cases r) (auto simp: walk_Right.simps [of a] heap_simps)
qed

lemma leftmost_path:
  "t \<noteq> Leaf \<Longrightarrow> \<exists>c b r. t = plug c (Node Leaf (hd (addrs t)) b r) \<and> before c = []"
proof (induction t)
  case Leaf
  then show ?case by simp
next
  case (Node l a b r)
  show ?case
  proof (cases l)
    case Leaf
    then have "Node l a b r = plug [] (Node Leaf (hd (addrs (Node l a b r))) b r)" by simp
    then show ?thesis by (metis before.simps(1))
  next
    case (Node l1 a1 b1 r1)
    then obtain c b2 r2 where c: "l = plug c (Node Leaf (hd (addrs l)) b2 r2)" "before c = []"
      using \<open>l \<noteq> Leaf \<Longrightarrow> _\<close> by auto
    have "hd (addrs (Node l a b r)) = hd (addrs l)" using Node by (simp add: hd_append)
    then have "Node l a b r = plug (c @ [FL a b r]) (Node Leaf (hd (addrs (Node l a b r))) b2 r2)"
      using c(1) by (simp add: plug_append)
    moreover have "before (c @ [FL a b r]) = []" using c(2) by (induction c) auto
    ultimately show ?thesis by blast
  qed
qed

lemma rightmost_path:
  "t \<noteq> Leaf \<Longrightarrow> \<exists>c b l. t = plug c (Node l (last (addrs t)) b Leaf) \<and> after c = []"
proof (induction t)
  case Leaf
  then show ?case by simp
next
  case (Node l a b r)
  show ?case
  proof (cases r)
    case Leaf
    then have "Node l a b r = plug [] (Node l (last (addrs (Node l a b r))) b Leaf)" by simp
    then show ?thesis by (metis after.simps(1))
  next
    case (Node l1 a1 b1 r1)
    then obtain c b2 l2 where c: "r = plug c (Node l2 (last (addrs r)) b2 Leaf)" "after c = []"
      using \<open>r \<noteq> Leaf \<Longrightarrow> _\<close> by auto
    have "last (addrs (Node l a b r)) = last (addrs r)" using Node by simp
    then have "Node l a b r = plug (c @ [FR l a b]) (Node l2 (last (addrs (Node l a b r))) b2 Leaf)"
      using c(1) by (simp add: plug_append)
    moreover have "after (c @ [FR l a b]) = []" using c(2) by (induction c) auto
    ultimately show ?thesis by blast
  qed
qed

section \<open>Removing\<close>

lemma unlink_correct:
  assumes z: "zip_in h R c (Node l n b r)" and one: "l = Leaf \<or> r = Leaf"
  obtains h' where "PhRemoveElement_unlink n h = Some (side_of c, h')"
    "zip_in h' R c (if r = Leaf then l else r)" "h' n = h n"
    "same_outside (set (R # addrs (plug c (Node l n b r)))) h h'"
proof -
  let ?u = "if r = Leaf then l else r" and ?S = "set (R # addrs (plug c (Node l n b r)))"
  note d = zip_in_distinct [OF z]
  obtain h1 where h1: "write_slot (slot_of R c) (root_of ?u) h = Some h1" "path_in h1 R (root_of ?u) c"
    "tree_in h1 (par_of R c) (Node l n b r)" "\<And>x. x \<noteq> par_of R c \<Longrightarrow> h1 x = h x"
    "par_of R c \<notin> set (addrs (Node l n b r))" "same_outside ?S h h1"
    by (rule write_slot_zip [OF z]) blast
  obtain P where P: "deref h (par_of R c) = Some P" "Left P = n \<longleftrightarrow> side_of c = - 1"
    "(if Left P = n then LeftOf (par_of R c) else RightOf (par_of R c)) = slot_of R c"
    by (rule zip_in_side [OF z]) auto
  have side: "(if Left P = n then - 1 else 1) = side_of c" using P(2) by (rule side_of_test)
  have N: "deref h n = Some \<lparr>Parent = par_of R c, Left = root_of l, Right = root_of r, Balance = b\<rparr>"
    using z by (auto simp: zip_in_def heap_simps)
  have run: "PhRemoveElement_unlink n h =
      do { h \<leftarrow> set_Parent_if (root_of ?u) (par_of R c) h1; Some (side_of c, h) }"
    using N P(1,3) side h1(1,3) one
    by (cases "Left P = n"; cases r)
       (auto simp: PhRemoveElement_unlink_def set_Parent_if_def)
  show ?thesis
  proof (cases ?u)
    case Leaf
    then show ?thesis
      using that [of h1] run h1 d zip_inD(1) [OF z]
      by (auto simp: set_Parent_if_def zip_in_def)
  next
    case (Node ul a ub ur)
    let ?h' = "h1(a \<mapsto> \<lparr>Parent = par_of R c, Left = root_of ul, Right = root_of ur, Balance = ub\<rparr>)"
    have u: "tree_in h1 n ?u" using h1(3) by simp
    have in_u: "set (addrs ?u) \<subseteq> set (addrs l) \<union> set (addrs r)" by auto
    have da: "distinct (R # before c @ addrs ?u @ after c)" "n \<notin> set (addrs ?u)"
      using d by auto
    have "set_Parent_if (root_of ?u) (par_of R c) h1 = Some ?h'"
      using u Node by (auto simp: set_Parent_if_def link_writes)
    moreover have "zip_in ?h' R c ?u"
      using u h1(2) da(1) zip_inD(1) [OF z] unfolding Node by (auto simp: zip_in_def)
    moreover have "same_outside ?S h ?h'"
      using h1(6) in_u Node by (intro same_outside_upd) auto
    moreover have "?h' n = h n" using da(2) Node h1(4,5) by auto
    ultimately show ?thesis using that [of ?h'] run by auto
  qed
qed

lemma remove_up_unlinked:
  assumes "avl (plug c (Node l n b r))" "l = Leaf \<or> r = Leaf"
  shows "avl (remove_up c (if r = Leaf then l else r))"
    "avl_path c (Suc (height (if r = Leaf then l else r)))" "avl (if r = Leaf then l else r)"
proof -
  let ?u = "if r = Leaf then l else r"
  have p: "avl (Node l n b r)" "avl_path c (height (Node l n b r))"
    using assms(1) avl_plug by blast+
  then show u: "avl_path c (Suc (height ?u))" "avl ?u" using assms(2) by (auto split: if_splits)
  then show "avl (remove_up c ?u)" by (rule avl_remove_up) simp
qed

text \<open>The picked node takes the place of the removed one.\<close>

lemma replace_correct:
  assumes z: "zip_in h R c (Node l e b r)" and n: "n \<notin> set (R # addrs (plug c (Node l e b r)))"
    "n \<noteq> NULL" "n \<in> dom h"
  obtains h' where "PhRemoveElement_replace e n h = Some h'" "zip_in h' R c (Node l n b r)"
    "same_outside (set (R # n # addrs (plug c (Node l e b r)))) h h'"
proof -
  let ?S = "set (R # n # addrs (plug c (Node l e b r)))"
  let ?E = "\<lparr>Parent = par_of R c, Left = root_of l, Right = root_of r, Balance = b\<rparr>"
  let ?h1 = "h(n \<mapsto> ?E)"
  note d = zip_in_distinct [OF z]
  have nd: "n \<notin> set (R # before c @ after c)" "n \<notin> set (addrs (Node l e b r))"
    "n \<noteq> par_of R c"
    using n(1) par_of_in [of R c] by auto
  have E: "deref h e = Some ?E" using z by (auto simp: zip_in_def heap_simps)
  have cp: "modify n (\<lambda>_. ?E) h = Some ?h1" using n(2,3) by (auto simp: heap_simps)
  have z1: "zip_in ?h1 R c (Node l e b r)" using z nd by (auto simp: zip_in_def)
  obtain h2 where h2: "write_slot (slot_of R c) n ?h1 = Some h2" "path_in h2 R n c"
    "tree_in h2 (par_of R c) (Node l e b r)" "\<And>x. x \<noteq> par_of R c \<Longrightarrow> h2 x = ?h1 x"
    "same_outside (set (R # addrs (plug c (Node l e b r)))) ?h1 h2"
    by (rule write_slot_zip [OF z1]) blast
  obtain P where P: "deref ?h1 (par_of R c) = Some P"
    "(if Left P = e then LeftOf (par_of R c) else RightOf (par_of R c)) = slot_of R c"
    by (rule zip_in_side [OF z1]) auto
  have w: "(if Left P = e then set_Left (par_of R c) n ?h1 else set_Right (par_of R c) n ?h1) = Some h2"
    using h2(1) unfolding P(2) [symmetric] by (auto simp: set_Left_def set_Right_def)
  have N: "deref h2 n = Some ?E" using h2(4) nd(3) n(2) by (simp add: heap_simps)
  have run: "PhRemoveElement_replace e n h =
      do { h \<leftarrow> set_Parent_if (root_of l) n h2; Nl \<leftarrow> deref h n; set_Parent_if (Right Nl) n h }"
    using E cp P(1) w N by (cases "Left P = e"; simp add: PhRemoveElement_replace_def)
  have "\<exists>h'. PhRemoveElement_replace e n h = Some h' \<and> zip_in h' R c (Node l n b r)
      \<and> same_outside ?S h2 h'"
    unfolding run using N n(2) nd d h2(2,3) zip_inD(1) [OF z]
    by (cases l; cases r; clarsimp simp: link_writes deref_def zip_in_def same_outside_upd)
  then obtain h' where h': "PhRemoveElement_replace e n h = Some h'" "zip_in h' R c (Node l n b r)"
    "same_outside ?S h2 h'" by blast
  have "same_outside ?S h ?h1" by (simp add: same_outside_def)
  moreover have "same_outside ?S ?h1 h2" by (rule same_outside_mono [OF h2(5)]) auto
  ultimately have "same_outside ?S h h'" using h'(3) by (meson same_outside_trans subset_refl)
  then show ?thesis using that h' by blast
qed

lemma avl_rename: "avl (plug c (Node l e b r)) \<Longrightarrow> avl (plug c (Node l n b r))"
  unfolding avl_plug by auto

text \<open>
  The node to unlink: the removed one itself when it has a free side, else its
  neighbour in order, on the deeper side.
\<close>

lemma pick_correct:
  assumes t: "avl_repr h R t" "e \<in> set (addrs t)"
  obtains c l n b r where "PhRemoveElement_pick e h = Some n" "t = plug c (Node l n b r)"
    "l = Leaf \<or> r = Leaf"
    "n = e \<or> (\<exists>xs ys. addrs t = xs @ e # n # ys) \<or> (\<exists>xs ys. addrs t = xs @ n # e # ys)"
proof -
  obtain c l b r where tc: "t = plug c (Node l e b r)" by (rule path_to [OF t(2)])
  have z: "zip_in h R c (Node l e b r)" using t(1) tc by (simp add: zip_in_plug)
  have E: "deref h e = Some \<lparr>Parent = par_of R c, Left = root_of l, Right = root_of r, Balance = b\<rparr>"
    and lr: "tree_in h e l" "tree_in h e r"
    using z by (auto simp: zip_in_def heap_simps)
  have NULLs: "root_of l = NULL \<longleftrightarrow> l = Leaf" "root_of r = NULL \<longleftrightarrow> r = Leaf"
    by (rule root_of_NULL [OF tree_in_NULL], rule lr)+
  consider "l = Leaf \<or> r = Leaf" | "l \<noteq> Leaf" "r \<noteq> Leaf" "b \<ge> 0" | "l \<noteq> Leaf" "r \<noteq> Leaf" "b < 0"
    by linarith
  then show ?thesis
  proof cases
    case 1
    then show ?thesis using that [of e c l b r] tc E NULLs by (auto simp: PhRemoveElement_pick_def)
  next
    case 2
    obtain d b2 r2 where d: "r = plug d (Node Leaf (hd (addrs r)) b2 r2)" "before d = []"
      using leftmost_path [OF 2(2)] by blast
    have "t = plug (d @ FR l e b # c) (Node Leaf (hd (addrs r)) b2 r2)"
      using tc d(1) by (simp add: plug_append)
    moreover have "addrs t = (before c @ addrs l) @ e # hd (addrs r) # (addrs r2 @ after d @ after c)"
      using tc arg_cong [OF d(1), of addrs] d(2) by simp
    moreover have "PhRemoveElement_pick e h = Some (hd (addrs r))"
      using E NULLs 2 walk_Left_correct [OF lr(2) 2(2)] by (simp add: PhRemoveElement_pick_def)
    ultimately show ?thesis using that by blast
  next
    case 3
    obtain d b2 l2 where d: "l = plug d (Node l2 (last (addrs l)) b2 Leaf)" "after d = []"
      using rightmost_path [OF 3(1)] by blast
    have "t = plug (d @ FL e b r # c) (Node l2 (last (addrs l)) b2 Leaf)"
      using tc d(1) by (simp add: plug_append)
    moreover have "addrs t = (before c @ before d @ addrs l2) @ last (addrs l) # e # (addrs r @ after c)"
      using tc arg_cong [OF d(1), of addrs] d(2) by simp
    moreover have "PhRemoveElement_pick e h = Some (last (addrs l))"
      using E NULLs 3 walk_Right_correct [OF lr(1) 3(1)] by (simp add: PhRemoveElement_pick_def)
    ultimately show ?thesis using that by blast
  qed
qed

lemma remove1_at: "e \<notin> set xs \<Longrightarrow> remove1 e (xs @ e # ys) = xs @ ys"
  by (simp add: remove1_append)

lemma unique_split:
  "distinct (as @ e # bs) \<Longrightarrow> as @ e # bs = ys @ e # zs \<Longrightarrow> as = ys \<and> bs = zs"
  by (auto simp: append_eq_append_conv2 append_eq_Cons_conv Cons_eq_append_conv)

lemma neighbour_replaces:
  assumes "distinct xs" "(\<exists>as bs. xs = as @ e # n # bs) \<or> (\<exists>as bs. xs = as @ n # e # bs)"
    and ys: "remove1 n xs = ys @ e # zs"
  shows "ys @ n # zs = remove1 e xs"
proof -
  obtain as bs where "xs = as @ e # n # bs \<or> xs = as @ n # e # bs" using assms(2) by blast
  then have "remove1 n xs = as @ e # bs" "remove1 e xs = as @ n # bs"
    using assms(1) by (auto simp: remove1_append)
  moreover from this have "as = ys \<and> bs = zs"
    using unique_split [of as e bs ys zs] ys distinct_remove1 [OF assms(1), of n] by metis
  ultimately show ?thesis by simp
qed

lemma remove_correct:
  assumes h: "avl_holds h T xs" and e: "e \<in> set xs"
  obtains h' where "PhRemoveElementAvlTree T e h = Some (T\<lparr>Count := Count T - 1\<rparr>, h')"
    "avl_holds h' (T\<lparr>Count := Count T - 1\<rparr>) (remove1 e xs)"
    "same_outside (set (RootAddr T # xs)) h h'"
proof -
  let ?R = "RootAddr T" and ?T = "T\<lparr>Count := Count T - 1\<rparr>"
  obtain t where t: "avl_repr h ?R t" "avl t" "addrs t = xs" and inc: "increasing (CompareFunction T) xs"
    and count: "Count T = of_nat (length xs)"
    using h by (auto simp: avl_holds_def)
  have dist: "distinct (?R # xs)" using t by (simp add: avl_repr_def)
  obtain c l n b r where pick: "PhRemoveElement_pick e h = Some n" "t = plug c (Node l n b r)"
    "l = Leaf \<or> r = Leaf"
    and where_n: "n = e \<or> (\<exists>as bs. xs = as @ e # n # bs) \<or> (\<exists>as bs. xs = as @ n # e # bs)"
    using pick_correct [OF t(1)] e t(3) by metis
  let ?u = "if r = Leaf then l else r"
  have xs: "xs = before c @ addrs l @ n # addrs r @ after c" using pick(2) t(3) by auto
  have u: "addrs (plug c ?u) = remove1 n xs"
    using xs pick(3) dist by (auto simp: remove1_append)
  have n: "n \<in> set xs" "n \<notin> set (remove1 n xs)" using xs dist by (auto simp: set_remove1_eq)
  have z: "zip_in h ?R c (Node l n b r)" using t(1) pick(2) by (simp add: zip_in_plug)
  obtain h1 where h1: "PhRemoveElement_unlink n h = Some (side_of c, h1)" "zip_in h1 ?R c ?u"
    "h1 n = h n" "same_outside (set (?R # xs)) h h1"
    using unlink_correct [OF z pick(3)] pick(2) t(3) by metis
  have N: "deref h1 n = Some \<lparr>Parent = par_of ?R c, Left = root_of l, Right = root_of r, Balance = b\<rparr>"
    using z h1(3) by (auto simp: zip_in_def heap_simps)
  note up = remove_up_unlinked [OF t(2) [unfolded pick(2)] pick(3)]
  obtain h2 where h2: "PhRemoveElement_balance (par_of ?R c) (side_of c) ?R h1 = Some h2"
    "avl_repr h2 ?R (remove_up c ?u)" "same_outside (set (?R # addrs (plug c ?u))) h1 h2"
    using remove_balance_correct [OF h1(2) up(2,3) refl] by blast
  have sub: "set (addrs (plug c ?u)) \<subseteq> set xs" unfolding u by (rule set_remove1_subset)
  then have s2: "same_outside (set (?R # xs)) h h2"
    by (intro same_outside_trans [OF h1(4) h2(3)]) auto
  have inc1: "increasing (CompareFunction T) (remove1 e xs)"
    using inc by (rule increasing_remove1)
  have len: "Count ?T = of_nat (length (remove1 e xs))"
  proof -
    have "length xs = Suc (length (remove1 e xs))"
      using e length_pos_if_in_set [OF e] by (simp add: length_remove1)
    then show ?thesis using count by simp
  qed
  note run = pick(1) h1(1) N h2(1)
  show ?thesis
  proof (cases "n = e")
    case True
    have "avl_holds h2 ?T (remove1 e xs)"
      unfolding avl_holds_def using h2(2) up(1) u True inc1 len by auto
    then show ?thesis
      using that [of h2] run True s2 by (simp add: PhRemoveElementAvlTree_def)
  next
    case False
    then have "e \<in> set (addrs (remove_up c ?u))" using e u by (simp add: in_set_remove1)
    then obtain c2 l2 b2 r2 where t2: "remove_up c ?u = plug c2 (Node l2 e b2 r2)"
      by (rule path_to)
    have z2: "zip_in h2 ?R c2 (Node l2 e b2 r2)" using h2(2) t2 by (simp add: zip_in_plug)
    have a2: "before c2 @ addrs l2 @ e # addrs r2 @ after c2 = remove1 n xs"
      using arg_cong [OF t2, of addrs] u by auto
    have n2: "n \<notin> set (?R # addrs (plug c2 (Node l2 e b2 r2)))" "n \<noteq> NULL" "n \<in> dom h2"
      using n dist a2 zip_in_NULL [OF z] xs N h2(3) u
      by (auto simp: same_outside_def deref_def split: if_splits)
    obtain h3 where h3: "PhRemoveElement_replace e n h2 = Some h3" "zip_in h3 ?R c2 (Node l2 n b2 r2)"
      "same_outside (set (?R # n # addrs (plug c2 (Node l2 e b2 r2)))) h2 h3"
      by (rule replace_correct [OF z2 n2])
    have "addrs (plug c2 (Node l2 n b2 r2)) = remove1 e xs"
      using neighbour_replaces [of xs e n "before c2 @ addrs l2" "addrs r2 @ after c2"]
        dist where_n False a2 by simp
    moreover have "avl (plug c2 (Node l2 n b2 r2))"
      using avl_rename up(1) t2 by simp
    moreover have "avl_repr h3 ?R (plug c2 (Node l2 n b2 r2))"
      using h3(2) by (simp only: zip_in_plug)
    ultimately have "avl_holds h3 ?T (remove1 e xs)"
      using inc1 len
      by (auto simp: avl_holds_def simp del: addrs_plug
          intro!: exI [of _ "plug c2 (Node l2 n b2 r2)"])
    moreover have "same_outside (set (?R # xs)) h h3"
      by (rule same_outside_trans [OF s2 h3(3)])
         (use t2 u sub n(1) in \<open>auto simp flip: addrs_plug addrs_remove_up\<close>)
    ultimately show ?thesis
      using that [of h3] run h3(1) False by (simp add: PhRemoveElementAvlTree_def)
  qed
qed

end
