(* ===== verification/AvlIter.thy ===== *)
theory AvlIter
  imports AvlOps
begin

text \<open>
  The read-only operations of \<open>avltree.c\<close>: bounds, first and last, next and previous,
  and the enumeration with its fixed stack.
\<close>

section \<open>Bounds\<close>

text \<open>The first element of a list that satisfies a test, or null; and the last one.\<close>

fun first_or :: "(addr \<Rightarrow> bool) \<Rightarrow> addr list \<Rightarrow> addr \<Rightarrow> addr" where
  "first_or P [] y = y"
| "first_or P (x # xs) y = (if P x then x else first_or P xs y)"

definition first_with :: "(addr \<Rightarrow> bool) \<Rightarrow> addr list \<Rightarrow> addr" where
  "first_with P xs = first_or P xs NULL"

definition last_with :: "(addr \<Rightarrow> bool) \<Rightarrow> addr list \<Rightarrow> addr" where
  "last_with P xs = first_or P (rev xs) NULL"

lemma first_or_append: "first_or P (xs @ ys) y = first_or P xs (first_or P ys y)"
  by (induction xs) auto

lemma first_or_none: "(\<And>x. x \<in> set xs \<Longrightarrow> \<not> P x) \<Longrightarrow> first_or P xs y = y"
  by (induction xs) auto

context compare_order
begin

lemma lower_bound_loop:
  "tree_in h p t \<Longrightarrow> increasing cmp (addrs t) \<Longrightarrow>
   PhLowerBound_loop cmp e (root_of t) y h = Some (first_or (\<lambda>x. cmp e x \<le> 0) (addrs t) y)"
proof (induction t arbitrary: p y)
  case Leaf
  then show ?case by (simp add: PhLowerBound_loop.simps)
next
  case (Node l a b r)
  have inc: "increasing cmp (addrs l @ a # addrs r)" using Node.prems(2) by simp
  have sub: "increasing cmp (addrs l)" "increasing cmp (addrs r)"
    using inc by (auto simp: increasing_def sorted_wrt_append)
  have less: "cmp e a > 0 \<Longrightarrow> x \<in> set (addrs l) \<Longrightarrow> cmp e x > 0" for x
    using increasing_nth_less [OF inc, of x e] by simp
  then have "cmp e a > 0 \<Longrightarrow> first_or (\<lambda>x. cmp e x \<le> 0) (addrs l) z = z" for z
    by (intro first_or_none) fastforce
  moreover have "tree_in h a l" "tree_in h a r" using Node.prems(1) by auto
  ultimately show ?case
    using Node.IH(1) [OF _ sub(1)] Node.IH(2) [OF _ sub(2)] Node.prems(1)
    by (fastforce simp: PhLowerBound_loop.simps [of cmp e a] heap_simps first_or_append)
qed

lemma upper_bound_loop:
  "tree_in h p t \<Longrightarrow> increasing cmp (addrs t) \<Longrightarrow>
   PhUpperBound_loop cmp e (root_of t) y h = Some (first_or (\<lambda>x. cmp e x < 0) (addrs t) y)"
proof (induction t arbitrary: p y)
  case Leaf
  then show ?case by (simp add: PhUpperBound_loop.simps)
next
  case (Node l a b r)
  have inc: "increasing cmp (addrs l @ a # addrs r)" using Node.prems(2) by simp
  have sub: "increasing cmp (addrs l)" "increasing cmp (addrs r)"
    using inc by (auto simp: increasing_def sorted_wrt_append)
  have less: "cmp e a \<ge> 0 \<Longrightarrow> x \<in> set (addrs l) \<Longrightarrow> cmp e x > 0" for x
    using increasing_nth_less [OF inc, of x e] by simp
  then have "cmp e a \<ge> 0 \<Longrightarrow> first_or (\<lambda>x. cmp e x < 0) (addrs l) z = z" for z
    by (intro first_or_none) fastforce
  moreover have "tree_in h a l" "tree_in h a r" using Node.prems(1) by auto
  ultimately show ?case
    using Node.IH(1) [OF _ sub(1)] Node.IH(2) [OF _ sub(2)] Node.prems(1)
    by (fastforce simp: PhUpperBound_loop.simps [of cmp e a] heap_simps first_or_append)
qed

lemma lower_dual_bound_loop:
  "tree_in h p t \<Longrightarrow> increasing cmp (addrs t) \<Longrightarrow>
   PhLowerDualBound_loop cmp e (root_of t) y h = Some (first_or (\<lambda>x. cmp e x > 0) (rev (addrs t)) y)"
proof (induction t arbitrary: p y)
  case Leaf
  then show ?case by (simp add: PhLowerDualBound_loop.simps)
next
  case (Node l a b r)
  have inc: "increasing cmp (addrs l @ a # addrs r)" using Node.prems(2) by simp
  have sub: "increasing cmp (addrs l)" "increasing cmp (addrs r)"
    using inc by (auto simp: increasing_def sorted_wrt_append)
  have "cmp e a \<le> 0 \<Longrightarrow> x \<in> set (addrs r) \<Longrightarrow> cmp e x < 0" for x
    using increasing_nth_greater [OF inc, of x e] by simp
  then have "cmp e a \<le> 0 \<Longrightarrow> first_or (\<lambda>x. cmp e x > 0) (rev (addrs r)) z = z" for z
    by (intro first_or_none) fastforce
  moreover have "tree_in h a l" "tree_in h a r" using Node.prems(1) by auto
  ultimately show ?case
    using Node.IH(1) [OF _ sub(1)] Node.IH(2) [OF _ sub(2)] Node.prems(1)
    by (fastforce simp: PhLowerDualBound_loop.simps [of cmp e a] heap_simps first_or_append)
qed

lemma upper_dual_bound_loop:
  "tree_in h p t \<Longrightarrow> increasing cmp (addrs t) \<Longrightarrow>
   PhUpperDualBound_loop cmp e (root_of t) y h = Some (first_or (\<lambda>x. cmp e x \<ge> 0) (rev (addrs t)) y)"
proof (induction t arbitrary: p y)
  case Leaf
  then show ?case by (simp add: PhUpperDualBound_loop.simps)
next
  case (Node l a b r)
  have inc: "increasing cmp (addrs l @ a # addrs r)" using Node.prems(2) by simp
  have sub: "increasing cmp (addrs l)" "increasing cmp (addrs r)"
    using inc by (auto simp: increasing_def sorted_wrt_append)
  have "cmp e a < 0 \<Longrightarrow> x \<in> set (addrs r) \<Longrightarrow> cmp e x < 0" for x
    using increasing_nth_greater [OF inc, of x e] by simp
  then have "cmp e a < 0 \<Longrightarrow> first_or (\<lambda>x. cmp e x \<ge> 0) (rev (addrs r)) z = z" for z
    by (intro first_or_none) fastforce
  moreover have "tree_in h a l" "tree_in h a r" using Node.prems(1) by auto
  ultimately show ?case
    using Node.IH(1) [OF _ sub(1)] Node.IH(2) [OF _ sub(2)] Node.prems(1)
    by (fastforce simp: PhUpperDualBound_loop.simps [of cmp e a] heap_simps first_or_append)
qed

end

section \<open>Next and previous\<close>

text \<open>Climbing from a position: the first ancestor reached from its left, or null.\<close>

lemma successor_climb:
  assumes "zip_in h R c t" "t \<noteq> Leaf"
  shows "PhSuccessor_climb (root_of t) (par_of R c) h = Some (case after c of [] \<Rightarrow> NULL | x # xs \<Rightarrow> x)"
  using assms
proof (induction c arbitrary: t)
  case Nil
  then have "h R = Some \<lparr>Parent = NULL, Left = NULL, Right = root_of t, Balance = 0\<rparr>" "R \<noteq> NULL"
    by (auto simp: zip_in_def)
  then show ?case
    by (simp add: PhSuccessor_climb.simps [of _ R] PhSuccessor_climb.simps [of R] heap_simps)
next
  case (Cons f c)
  note z = Cons.prems(1)
  have fr: "deref h (frame_addr f) = Some \<lparr>Parent = par_of R c,
      Left = root_of (case f of FL a b r \<Rightarrow> t | FR l a b \<Rightarrow> l),
      Right = root_of (case f of FL a b r \<Rightarrow> r | FR l a b \<Rightarrow> t), Balance = frame_bal f\<rparr>"
    using zip_in_frame [OF z] by (simp add: heap_simps)
  have nz: "frame_addr f \<noteq> NULL" using zip_in_frame [OF z] by simp
  show ?case
  proof (cases f)
    case (FL a b r)
    have "root_of r \<noteq> root_of t"
      using zip_in_distinct [OF z] root_of_in [OF Cons.prems(2)] root_of_cases [of r]
        zip_in_root [OF z Cons.prems(2)] FL by auto
    then show ?thesis using fr nz FL by (simp add: PhSuccessor_climb.simps [of "root_of t"])
  next
    case (FR l a b)
    have "zip_in h R c (fill f t)" using z by (simp only: zip_in_fill)
    moreover have "fill f t \<noteq> Leaf" using FR by simp
    ultimately have "PhSuccessor_climb (frame_addr f) (par_of R c) h
        = Some (case after c of [] \<Rightarrow> NULL | x # xs \<Rightarrow> x)"
      using Cons.IH by (metis root_of_fill)
    then show ?thesis using fr nz FR by (simp add: PhSuccessor_climb.simps [of "root_of t"])
  qed
qed

lemma predecessor_climb:
  assumes "zip_in h R c t" "t \<noteq> Leaf"
  shows "PhPredecessor_climb (root_of t) (par_of R c) h = Some (last (R # before c))"
  using assms
proof (induction c arbitrary: t)
  case Nil
  then have "h R = Some \<lparr>Parent = NULL, Left = NULL, Right = root_of t, Balance = 0\<rparr>" "R \<noteq> NULL"
    "root_of t \<noteq> NULL"
    using zip_in_root [OF Nil] by (auto simp: zip_in_def)
  then show ?case by (simp add: PhPredecessor_climb.simps [of _ R] heap_simps)
next
  case (Cons f c)
  note z = Cons.prems(1)
  have fr: "deref h (frame_addr f) = Some \<lparr>Parent = par_of R c,
      Left = root_of (case f of FL a b r \<Rightarrow> t | FR l a b \<Rightarrow> l),
      Right = root_of (case f of FL a b r \<Rightarrow> r | FR l a b \<Rightarrow> t), Balance = frame_bal f\<rparr>"
    using zip_in_frame [OF z] by (simp add: heap_simps)
  have nz: "frame_addr f \<noteq> NULL" using zip_in_frame [OF z] by simp
  show ?case
  proof (cases f)
    case (FL a b r)
    have "zip_in h R c (fill f t)" using z by (simp only: zip_in_fill)
    moreover have "fill f t \<noteq> Leaf" using FL by simp
    ultimately have "PhPredecessor_climb (frame_addr f) (par_of R c) h = Some (last (R # before c))"
      using Cons.IH by (metis root_of_fill)
    then show ?thesis using fr nz FL by (simp add: PhPredecessor_climb.simps [of "root_of t"])
  next
    case (FR l a b)
    have "root_of l \<noteq> root_of t"
      using zip_in_distinct [OF z] root_of_in [OF Cons.prems(2)] root_of_cases [of l]
        zip_in_root [OF z Cons.prems(2)] FR by auto
    then show ?thesis using fr nz FR by (simp add: PhPredecessor_climb.simps [of "root_of t"])
  qed
qed

lemma parent_not_NULL:
  "tree_in h p t \<Longrightarrow> p \<noteq> NULL \<Longrightarrow> x \<in> set (addrs t) \<Longrightarrow> \<exists>l. deref h x = Some l \<and> Parent l \<noteq> NULL"
  by (induction h p t rule: tree_in.induct) (auto simp: heap_simps)

lemma successor_correct:
  assumes "avl_repr h R t" "addrs t = xs @ e # ys"
  shows "PhSuccessorElementAvlTree e h = Some (case ys of [] \<Rightarrow> NULL | y # _ \<Rightarrow> y)"
proof -
  have "e \<in> set (addrs t)" using assms(2) by simp
  then obtain c l b r where t: "t = plug c (Node l e b r)" by (rule path_to)
  have z: "zip_in h R c (Node l e b r)" using assms(1) t by (simp add: zip_in_plug)
  have d: "distinct (xs @ e # ys)" using assms by (auto simp: avl_repr_def)
  have ys: "ys = addrs r @ after c"
    using unique_split [OF d, of "before c @ addrs l" "addrs r @ after c"] t assms(2) by auto
  have E: "deref h e = Some \<lparr>Parent = par_of R c, Left = root_of l, Right = root_of r, Balance = b\<rparr>"
    and r: "tree_in h e r"
    using z by (auto simp: zip_in_def heap_simps)
  show ?thesis
  proof (cases "r = Leaf")
    case True
    then show ?thesis
      using E successor_climb [OF z] ys by (simp add: PhSuccessorElementAvlTree_def)
  next
    case False
    then have "root_of r \<noteq> NULL" using root_of_NULL [OF tree_in_NULL [OF r]] by simp
    moreover have "addrs r = hd (addrs r) # tl (addrs r)" using False by (cases r) auto
    then have "ys = hd (addrs r) # tl (addrs r) @ after c" using ys by (metis append_Cons)
    ultimately show ?thesis
      using E walk_Left_correct [OF r False] by (simp add: PhSuccessorElementAvlTree_def)
  qed
qed

lemma predecessor_correct:
  assumes "avl_repr h R t" "addrs t = xs @ e # ys"
  shows "PhPredecessorElementAvlTree e h = Some (if xs = [] then NULL else last xs)"
proof -
  have "e \<in> set (addrs t)" using assms(2) by simp
  then obtain c l b r where t: "t = plug c (Node l e b r)" by (rule path_to)
  have z: "zip_in h R c (Node l e b r)" using assms(1) t by (simp add: zip_in_plug)
  have d: "distinct (xs @ e # ys)" "R \<notin> set xs" using assms by (auto simp: avl_repr_def)
  have xs: "xs = before c @ addrs l"
    using unique_split [OF d(1), of "before c @ addrs l" "addrs r @ after c"] t assms(2) by auto
  have E: "deref h e = Some \<lparr>Parent = par_of R c, Left = root_of l, Right = root_of r, Balance = b\<rparr>"
    and l: "tree_in h e l"
    using z by (auto simp: zip_in_def heap_simps)
  show ?thesis
  proof (cases "l = Leaf")
    case True
    have climb: "PhPredecessor_climb e (par_of R c) h = Some (last (R # xs))"
      using predecessor_climb [OF z] xs True by simp
    show ?thesis
    proof (cases "xs = []")
      case xs_Nil: True
      have "deref h R = Some \<lparr>Parent = NULL, Left = NULL, Right = root_of t, Balance = 0\<rparr>" "R \<noteq> NULL"
        using assms(1) by (auto simp: avl_repr_def heap_simps)
      then show ?thesis
        using E climb True xs_Nil by (simp add: PhPredecessorElementAvlTree_def)
    next
      case False
      then have "last xs \<in> set (addrs t)" using assms(2) by simp
      then obtain x where "deref h (last xs) = Some x" "Parent x \<noteq> NULL"
        using parent_not_NULL [of h R t] assms(1) by (auto simp: avl_repr_def)
      moreover from this have "last xs \<noteq> NULL" by (auto simp: deref_def split: if_splits)
      ultimately show ?thesis
        using E climb True False by (simp add: PhPredecessorElementAvlTree_def)
    qed
  next
    case False
    then have "root_of l \<noteq> NULL" using root_of_NULL [OF tree_in_NULL [OF l]] by simp
    moreover have "addrs l \<noteq> []" using False by (cases l) auto
    ultimately show ?thesis
      using E walk_Right_correct [OF l False] xs by (simp add: PhPredecessorElementAvlTree_def)
  qed
qed

section \<open>How high a balanced tree can be\<close>

text \<open>\<open>min_nodes n\<close>: the fewest nodes of a balanced tree of height \<open>n\<close>.\<close>

fun min_nodes :: "nat \<Rightarrow> nat" where
  "min_nodes 0 = 0"
| "min_nodes (Suc 0) = 1"
| "min_nodes (Suc (Suc n)) = min_nodes (Suc n) + min_nodes n + 1"

lemma min_nodes_mono: "m \<le> n \<Longrightarrow> min_nodes m \<le> min_nodes n"
proof -
  have "min_nodes n \<le> min_nodes (Suc n)" for n
    by (induction n rule: min_nodes.induct) auto
  then show "m \<le> n \<Longrightarrow> min_nodes m \<le> min_nodes n" by (rule lift_Suc_mono_le)
qed

lemma avl_min_nodes: "avl t \<Longrightarrow> min_nodes (height t) \<le> length (addrs t)"
proof (induction t)
  case Leaf
  then show ?case by simp
next
  case (Node l a b r)
  then have "height l = height r \<or> height l = Suc (height r) \<or> height r = Suc (height l)"
    by auto
  then obtain n where "height (Node l a b r) = Suc (Suc n) \<or> height (Node l a b r) = Suc 0"
    "height (Node l a b r) = Suc (Suc n) \<Longrightarrow>
       (Suc n \<le> height l \<and> n \<le> height r) \<or> (n \<le> height l \<and> Suc n \<le> height r)"
    by (cases "height l"; cases "height r") auto
  moreover have "min_nodes (height l) \<le> length (addrs l)" "min_nodes (height r) \<le> length (addrs r)"
    using Node by auto
  ultimately show ?case
    using min_nodes_mono [of n "height l"] min_nodes_mono [of "Suc n" "height l"]
      min_nodes_mono [of n "height r"] min_nodes_mono [of "Suc n" "height r"]
    by (auto simp del: height.simps)
qed

text \<open>
  The stack of the enumeration has 47 entries.  A balanced tree that needs a 48th has
  at least \<open>min_nodes 48 = 12586269024\<close> nodes.
\<close>

primrec min_nodes_pair :: "nat \<Rightarrow> nat \<times> nat" where
  "min_nodes_pair 0 = (0, 1)"
| "min_nodes_pair (Suc n) = (case min_nodes_pair n of (a, b) \<Rightarrow> (b, b + a + 1))"

lemma min_nodes_pair: "min_nodes_pair n = (min_nodes n, min_nodes (Suc n))"
  by (induction n) auto

lemma min_nodes_pair_numeral:
  "min_nodes_pair (numeral k) = (case min_nodes_pair (pred_numeral k) of (a, b) \<Rightarrow> (b, b + a + 1))"
  by (simp add: numeral_eq_Suc)

lemma min_nodes_pair_1: "min_nodes_pair (Suc 0) = (1, 2)"
  by simp

lemma min_nodes_48: "min_nodes 48 = 12586269024"
proof -
  have "fst (min_nodes_pair 48) = 12586269024"
    using min_nodes_pair_1 by (simp add: min_nodes_pair_numeral del: min_nodes_pair.simps(2))
  then show ?thesis by (simp add: min_nodes_pair)
qed

lemma avl_height_stack:
  assumes "avl t" "length (addrs t) < 12586269024"
  shows "height t \<le> stackBase_size"
proof (rule ccontr)
  assume "\<not> height t \<le> stackBase_size"
  then have "min_nodes 48 \<le> min_nodes (height t)"
    by (intro min_nodes_mono) (simp add: stackBase_size_def)
  then show False using avl_min_nodes [OF assms(1)] assms(2) by (simp add: min_nodes_48)
qed

section \<open>Enumeration\<close>

text \<open>Calling back on a list of elements until the callback says stop.\<close>

fun enum_list :: "(addr \<Rightarrow> 's \<Rightarrow> bool \<times> 's) \<Rightarrow> addr list \<Rightarrow> 's \<Rightarrow> 's" where
  "enum_list Callback [] s = s"
| "enum_list Callback (x # xs) s =
     (case Callback x s of (cont, s) \<Rightarrow> if cont then enum_list Callback xs s else s)"

text \<open>The left spine of a tree, and what the stack stands for.\<close>

fun spine :: "atree \<Rightarrow> (addr \<times> atree) list" where
  "spine Leaf = []"
| "spine (Node l a b r) = spine l @ [(a, r)]"

fun pending :: "(addr \<times> atree) list \<Rightarrow> addr list" where
  "pending [] = []"
| "pending ((a, r) # ts) = a # addrs r @ pending ts"

lemma pending_append: "pending (xs @ ys) = pending xs @ pending ys"
  by (induction xs rule: pending.induct) auto

lemma pending_spine: "pending (spine t) = addrs t"
  by (induction t) (auto simp: pending_append)

text \<open>
  A stack is in order when each entry is a node of memory whose right subtree fits in
  the room left above the entries below it.
\<close>

fun stacked :: "avl_heap \<Rightarrow> (addr \<times> atree) list \<Rightarrow> bool" where
  "stacked h [] \<longleftrightarrow> True"
| "stacked h ((a, r) # ts) \<longleftrightarrow>
     (\<exists>l. deref h a = Some l \<and> Right l = root_of r) \<and> (\<exists>p. tree_in h p r)
   \<and> height r + length ts \<le> stackBase_size \<and> length ts < stackBase_size \<and> stacked h ts"

lemma push_Left_correct:
  "tree_in h p t \<Longrightarrow> stacked h ts \<Longrightarrow> height t + length ts \<le> stackBase_size \<Longrightarrow>
   push_Left (root_of t) (map fst ts) h = Some (map fst (spine t @ ts)) \<and> stacked h (spine t @ ts)"
proof (induction t arbitrary: p ts)
  case Leaf
  then show ?case by (simp add: push_Left.simps)
next
  case (Node l a b r)
  have "stacked h ((a, r) # ts)"
    using Node.prems by (auto simp: heap_simps)
  then have "push_Left (root_of l) (map fst ((a, r) # ts)) h = Some (map fst (spine l @ (a, r) # ts))
      \<and> stacked h (spine l @ (a, r) # ts)"
    using Node.IH(1) [of a "(a, r) # ts"] Node.prems by simp
  then show ?case
    using Node.prems by (simp add: push_Left.simps [of a] push_def heap_simps)
qed

lemma enum_inorder_loop:
  "stacked h ts \<Longrightarrow>
   PhEnum_inorder Callback (map fst ts) s h = Some (enum_list Callback (pending ts) s)"
proof (induction "length (pending ts)" arbitrary: ts s rule: less_induct)
  case less
  show ?case
  proof (cases ts)
    case Nil
    then show ?thesis by (simp add: PhEnum_inorder.simps)
  next
    case (Cons ar us)
    obtain a r where ar: "ar = (a, r)" by (cases ar)
    obtain l p where l: "deref h a = Some l" "Right l = root_of r" "tree_in h p r"
      "stacked h us" "height r + length us \<le> stackBase_size"
      using less.prems Cons ar by auto
    have push: "push_Left (root_of r) (map fst us) h = Some (map fst (spine r @ us))"
      "stacked h (spine r @ us)"
      using push_Left_correct [OF l(3-5)] by auto
    have pend: "pending ts = a # pending (spine r @ us)"
      using Cons ar by (simp add: pending_append pending_spine)
    then have "PhEnum_inorder Callback (map fst (spine r @ us)) s' h
        = Some (enum_list Callback (pending (spine r @ us)) s')" for s'
      using less.hyps [of "spine r @ us"] push(2) by simp
    then show ?thesis
      using l(1,2) push(1) pend Cons ar
      by (simp add: PhEnum_inorder.simps [of _ "a # _"] split: prod.split)
  qed
qed

text \<open>The same from the right.\<close>

fun rspine :: "atree \<Rightarrow> (addr \<times> atree) list" where
  "rspine Leaf = []"
| "rspine (Node l a b r) = rspine r @ [(a, l)]"

fun rpending :: "(addr \<times> atree) list \<Rightarrow> addr list" where
  "rpending [] = []"
| "rpending ((a, l) # ts) = a # rev (addrs l) @ rpending ts"

lemma rpending_append: "rpending (xs @ ys) = rpending xs @ rpending ys"
  by (induction xs rule: rpending.induct) auto

lemma rpending_rspine: "rpending (rspine t) = rev (addrs t)"
  by (induction t) (auto simp: rpending_append)

text \<open>
  A stack is in order when each entry is a node of memory whose left subtree fits in
  the room left above the entries below it.
\<close>

fun rstacked :: "avl_heap \<Rightarrow> (addr \<times> atree) list \<Rightarrow> bool" where
  "rstacked h [] \<longleftrightarrow> True"
| "rstacked h ((a, l) # ts) \<longleftrightarrow>
     (\<exists>n. deref h a = Some n \<and> Left n = root_of l) \<and> (\<exists>p. tree_in h p l)
   \<and> height l + length ts \<le> stackBase_size \<and> length ts < stackBase_size \<and> rstacked h ts"

lemma push_Right_correct:
  "tree_in h p t \<Longrightarrow> rstacked h ts \<Longrightarrow> height t + length ts \<le> stackBase_size \<Longrightarrow>
   push_Right (root_of t) (map fst ts) h = Some (map fst (rspine t @ ts)) \<and> rstacked h (rspine t @ ts)"
proof (induction t arbitrary: p ts)
  case Leaf
  then show ?case by (simp add: push_Right.simps)
next
  case (Node l a b r)
  have "rstacked h ((a, l) # ts)"
    using Node.prems by (auto simp: heap_simps)
  then have "push_Right (root_of r) (map fst ((a, l) # ts)) h = Some (map fst (rspine r @ (a, l) # ts))
      \<and> rstacked h (rspine r @ (a, l) # ts)"
    using Node.IH(2) [of a "(a, l) # ts"] Node.prems by simp
  then show ?case
    using Node.prems by (simp add: push_Right.simps [of a] push_def heap_simps)
qed

lemma enum_reverse_loop:
  "rstacked h ts \<Longrightarrow>
   PhEnum_reverse Callback (map fst ts) s h = Some (enum_list Callback (rpending ts) s)"
proof (induction "length (rpending ts)" arbitrary: ts s rule: less_induct)
  case less
  show ?case
  proof (cases ts)
    case Nil
    then show ?thesis by (simp add: PhEnum_reverse.simps)
  next
    case (Cons al us)
    obtain a l where al: "al = (a, l)" by (cases al)
    obtain n p where n: "deref h a = Some n" "Left n = root_of l" "tree_in h p l"
      "rstacked h us" "height l + length us \<le> stackBase_size"
      using less.prems Cons al by auto
    have push: "push_Right (root_of l) (map fst us) h = Some (map fst (rspine l @ us))"
      "rstacked h (rspine l @ us)"
      using push_Right_correct [OF n(3-5)] by auto
    have pend: "rpending ts = a # rpending (rspine l @ us)"
      using Cons al by (simp add: rpending_append rpending_rspine)
    then have "PhEnum_reverse Callback (map fst (rspine l @ us)) s' h
        = Some (enum_list Callback (rpending (rspine l @ us)) s')" for s'
      using less.hyps [of "rspine l @ us"] push(2) by simp
    then show ?thesis
      using n(1,2) push(1) pend Cons al
      by (simp add: PhEnum_reverse.simps [of _ "a # _"] split: prod.split)
  qed
qed

section \<open>The operations on a tree object\<close>

text \<open>What an operation reads of a tree object that holds \<open>xs\<close>.\<close>

lemma holds_tree:
  assumes "avl_holds h T xs"
  obtains t where "avl_repr h (RootAddr T) t" "avl t" "addrs t = xs" "tree_in h (RootAddr T) t"
    "PhRootElementAvlTree T h = Some (root_of t)" "increasing (CompareFunction T) (addrs t)"
  using assms root_element [OF _ refl] by (auto simp: avl_holds_def avl_repr_def)

lemma enum_correct:
  assumes "avl_holds h T xs" "length xs < 12586269024"
  shows "PhEnumAvlTree T Order Callback s h =
    Some (enum_list Callback (case Order of TreeEnumerateInOrder \<Rightarrow> xs | _ \<Rightarrow> rev xs) s)"
proof -
  obtain t where t: "avl t" "addrs t = xs" "tree_in h (RootAddr T) t"
    "PhRootElementAvlTree T h = Some (root_of t)"
    using assms(1) by (rule holds_tree)
  have high: "height t \<le> stackBase_size" using avl_height_stack t(1,2) assms(2) by simp
  show ?thesis
  proof (cases Order)
    case TreeEnumerateInOrder
    have "push_Left (root_of t) [] h = Some (map fst (spine t))" "stacked h (spine t)"
      using push_Left_correct [OF t(3), of "[]"] high by auto
    then show ?thesis
      using t TreeEnumerateInOrder enum_inorder_loop [of h "spine t"]
      by (simp add: PhEnumAvlTree_def pending_spine)
  next
    case TreeEnumerateInReverseOrder
    have "push_Right (root_of t) [] h = Some (map fst (rspine t))" "rstacked h (rspine t)"
      using push_Right_correct [OF t(3), of "[]"] high by auto
    then show ?thesis
      using t TreeEnumerateInReverseOrder enum_reverse_loop [of h "rspine t"]
      by (simp add: PhEnumAvlTree_def rpending_rspine)
  qed
qed

lemma addrs_Nil: "addrs t = [] \<longleftrightarrow> t = Leaf"
  by (cases t) auto

lemma minimum_correct:
  assumes "avl_holds h T xs"
  shows "PhMinimumElementAvlTree T h = Some (case xs of [] \<Rightarrow> NULL | x # _ \<Rightarrow> x)"
proof -
  obtain t where t: "addrs t = xs" "tree_in h (RootAddr T) t"
    "PhRootElementAvlTree T h = Some (root_of t)"
    using assms by (rule holds_tree)
  show ?thesis
    using t walk_Left_correct [OF t(2)] root_of_NULL [OF tree_in_NULL [OF t(2)]]
    by (cases "t = Leaf"; cases xs) (auto simp: PhMinimumElementAvlTree_def addrs_Nil)
qed

lemma maximum_correct:
  assumes "avl_holds h T xs"
  shows "PhMaximumElementAvlTree T h = Some (if xs = [] then NULL else last xs)"
proof -
  obtain t where t: "addrs t = xs" "tree_in h (RootAddr T) t"
    "PhRootElementAvlTree T h = Some (root_of t)"
    using assms by (rule holds_tree)
  show ?thesis
    using t walk_Right_correct [OF t(2)] root_of_NULL [OF tree_in_NULL [OF t(2)]]
    by (cases "t = Leaf") (auto simp: PhMaximumElementAvlTree_def addrs_Nil)
qed

lemma lower_bound_correct:
  assumes "avl_holds h T xs" "compare_order (CompareFunction T)"
  shows "PhLowerBoundElementAvlTree T e h = Some (first_with (\<lambda>x. CompareFunction T e x \<le> 0) xs)"
proof -
  obtain t where "addrs t = xs" "tree_in h (RootAddr T) t"
    "PhRootElementAvlTree T h = Some (root_of t)" "increasing (CompareFunction T) (addrs t)"
    using assms(1) by (rule holds_tree)
  then show ?thesis
    using compare_order.lower_bound_loop [OF assms(2)]
    by (simp add: PhLowerBoundElementAvlTree_def first_with_def)
qed

lemma upper_bound_correct:
  assumes "avl_holds h T xs" "compare_order (CompareFunction T)"
  shows "PhUpperBoundElementAvlTree T e h = Some (first_with (\<lambda>x. CompareFunction T e x < 0) xs)"
proof -
  obtain t where "addrs t = xs" "tree_in h (RootAddr T) t"
    "PhRootElementAvlTree T h = Some (root_of t)" "increasing (CompareFunction T) (addrs t)"
    using assms(1) by (rule holds_tree)
  then show ?thesis
    using compare_order.upper_bound_loop [OF assms(2)]
    by (simp add: PhUpperBoundElementAvlTree_def first_with_def)
qed

lemma lower_dual_bound_correct:
  assumes "avl_holds h T xs" "compare_order (CompareFunction T)"
  shows "PhLowerDualBoundElementAvlTree T e h = Some (last_with (\<lambda>x. CompareFunction T e x > 0) xs)"
proof -
  obtain t where "addrs t = xs" "tree_in h (RootAddr T) t"
    "PhRootElementAvlTree T h = Some (root_of t)" "increasing (CompareFunction T) (addrs t)"
    using assms(1) by (rule holds_tree)
  then show ?thesis
    using compare_order.lower_dual_bound_loop [OF assms(2)]
    by (simp add: PhLowerDualBoundElementAvlTree_def last_with_def)
qed

lemma upper_dual_bound_correct:
  assumes "avl_holds h T xs" "compare_order (CompareFunction T)"
  shows "PhUpperDualBoundElementAvlTree T e h = Some (last_with (\<lambda>x. CompareFunction T e x \<ge> 0) xs)"
proof -
  obtain t where "addrs t = xs" "tree_in h (RootAddr T) t"
    "PhRootElementAvlTree T h = Some (root_of t)" "increasing (CompareFunction T) (addrs t)"
    using assms(1) by (rule holds_tree)
  then show ?thesis
    using compare_order.upper_dual_bound_loop [OF assms(2)]
    by (simp add: PhUpperDualBoundElementAvlTree_def last_with_def)
qed

end
