(* ===== verification/AvlProps.thy ===== *)
theory AvlProps
  imports AvlIter
begin

text \<open>
  The contract of the AVL tree, one property per operation, over \<open>avl_holds h T xs\<close>:
  memory and tree object stand for the increasing list \<open>xs\<close> of element addresses.
  The witnesses run the operations on a tree of three symbol modules.
\<close>

section \<open>Histories of a tree\<close>

text \<open>
  A caller adds nodes it has just allocated (with any contents) and removes nodes that
  are in the tree.  \<open>run_avl\<close> runs the code, \<open>spec_avl\<close> keeps the sorted list.
\<close>

datatype avl_call = Add addr avl_links | Remove addr

fun run_avl :: "avl_call list \<Rightarrow> avl_tree \<Rightarrow> avl_heap \<Rightarrow> (avl_tree \<times> avl_heap) option" where
  "run_avl [] T h = Some (T, h)"
| "run_avl (Add e l # cs) T h = do {
     (found, T, h) \<leftarrow> PhAddElementAvlTree T e (h(e \<mapsto> l));
     run_avl cs T h
   }"
| "run_avl (Remove e # cs) T h = do {
     (T, h) \<leftarrow> PhRemoveElementAvlTree T e h;
     run_avl cs T h
   }"

fun spec_call :: "(addr \<Rightarrow> addr \<Rightarrow> int) \<Rightarrow> avl_call \<Rightarrow> addr list \<Rightarrow> addr list" where
  "spec_call cmp (Add e l) xs =
     (if \<exists>x \<in> set xs. cmp e x = 0 then xs else insert_by cmp e xs)"
| "spec_call cmp (Remove e) xs = remove1 e xs"

fun spec_avl :: "(addr \<Rightarrow> addr \<Rightarrow> int) \<Rightarrow> avl_call list \<Rightarrow> addr list \<Rightarrow> addr list" where
  "spec_avl cmp [] xs = xs"
| "spec_avl cmp (c # cs) xs = spec_avl cmp cs (spec_call cmp c xs)"

fun proper_call :: "addr \<Rightarrow> avl_call \<Rightarrow> addr list \<Rightarrow> bool" where
  "proper_call R (Add e l) xs \<longleftrightarrow> e \<noteq> NULL \<and> e \<noteq> R \<and> e \<notin> set xs"
| "proper_call R (Remove e) xs \<longleftrightarrow> e \<in> set xs"

fun proper_calls :: "(addr \<Rightarrow> addr \<Rightarrow> int) \<Rightarrow> addr \<Rightarrow> avl_call list \<Rightarrow> addr list \<Rightarrow> bool" where
  "proper_calls cmp R [] xs \<longleftrightarrow> True"
| "proper_calls cmp R (c # cs) xs \<longleftrightarrow>
     proper_call R c xs \<and> proper_calls cmp R cs (spec_call cmp c xs)"

lemma holds_frame: "avl_holds h T xs \<Longrightarrow> e \<notin> set (RootAddr T # xs) \<Longrightarrow> avl_holds (h(e \<mapsto> l)) T xs"
  by (auto simp: avl_holds_def avl_repr_def tree_in_upd)

lemma init_holds:
  assumes "R \<noteq> NULL" "R \<in> dom h"
  obtains h' where "PhInitializeAvlTree R cmp h = Some (\<lparr>RootAddr = R, Count = 0, CompareFunction = cmp\<rparr>, h')"
    "avl_holds h' \<lparr>RootAddr = R, Count = 0, CompareFunction = cmp\<rparr> []"
    "same_outside {R} h h'"
  using assms
  by (auto simp: PhInitializeAvlTree_def modify_Some avl_holds_def avl_repr_def increasing_def
      same_outside_def addrs_Nil intro!: exI [of _ Leaf])

lemma add_found:
  assumes "avl_holds h T xs" "compare_order (CompareFunction T)"
    and "x \<in> set xs" "CompareFunction T e x = 0"
  shows "PhAddElementAvlTree T e h = Some (x, T, h)"
  using find_found [OF assms] by (simp add: PhAddElementAvlTree_def)

lemma add_holds:
  assumes "avl_holds h T xs" "compare_order (CompareFunction T)"
    and "e \<notin> set (RootAddr T # xs)" "e \<noteq> NULL" "e \<in> dom h"
  obtains f T' h' where "PhAddElementAvlTree T e h = Some (f, T', h')"
    "avl_holds h' T' (spec_call (CompareFunction T) (Add e l) xs)"
    "RootAddr T' = RootAddr T" "CompareFunction T' = CompareFunction T"
proof (cases "\<exists>x \<in> set xs. CompareFunction T e x = 0")
  case True
  then obtain x where "x \<in> set xs" "CompareFunction T e x = 0" by blast
  note found = add_found [OF assms(1,2) this]
  have "avl_holds h T (spec_call (CompareFunction T) (Add e l) xs)" using True assms(1) by simp
  then show ?thesis by (rule that [OF found]) simp_all
next
  case False
  then obtain h' where "PhAddElementAvlTree T e h = Some (NULL, T\<lparr>Count := Count T + 1\<rparr>, h')"
    "avl_holds h' (T\<lparr>Count := Count T + 1\<rparr>) (insert_by (CompareFunction T) e xs)"
    using add_correct [OF assms(1,2) _ assms(3-5)] by blast
  then show ?thesis using False by (intro that [of NULL "T\<lparr>Count := Count T + 1\<rparr>" h']) simp_all
qed

lemma run_avl_refines:
  "avl_holds h T xs \<Longrightarrow> compare_order (CompareFunction T) \<Longrightarrow>
   proper_calls (CompareFunction T) (RootAddr T) cs xs \<Longrightarrow>
   \<exists>T' h'. run_avl cs T h = Some (T', h') \<and> avl_holds h' T' (spec_avl (CompareFunction T) cs xs)"
proof (induction cs arbitrary: T h xs)
  case Nil
  then show ?case by simp
next
  case (Cons c cs)
  show ?case
  proof (cases c)
    case (Add e l)
    then have "e \<notin> set (RootAddr T # xs)" "e \<noteq> NULL" "e \<in> dom (h(e \<mapsto> l))"
      using Cons.prems(3) by auto
    then obtain f T' h' where "PhAddElementAvlTree T e (h(e \<mapsto> l)) = Some (f, T', h')"
      "avl_holds h' T' (spec_call (CompareFunction T) c xs)"
      "RootAddr T' = RootAddr T" "CompareFunction T' = CompareFunction T"
      using add_holds [OF holds_frame [OF Cons.prems(1)] Cons.prems(2)] Add by metis
    then show ?thesis using Cons.IH [of h' T'] Cons.prems(2,3) Add by simp
  next
    case (Remove e)
    then obtain h' where "PhRemoveElementAvlTree T e h = Some (T\<lparr>Count := Count T - 1\<rparr>, h')"
      "avl_holds h' (T\<lparr>Count := Count T - 1\<rparr>) (remove1 e xs)"
      using remove_correct [OF Cons.prems(1)] Cons.prems(3) by auto
    then show ?thesis
      using Cons.IH [of h' "T\<lparr>Count := Count T - 1\<rparr>"] Cons.prems(2,3) Remove by simp
  qed
qed

lemma first_or_member:
  "\<exists>x \<in> set xs. P x \<Longrightarrow> first_or P xs y \<in> set xs \<and> P (first_or P xs y)"
  by (induction xs) auto

lemma first_with_unique:
  assumes "x \<in> set xs" "P x" "\<And>y. y \<in> set xs \<Longrightarrow> P y \<Longrightarrow> x = y"
  shows "first_with P xs = x"
  using first_or_member [of xs P NULL] assms unfolding first_with_def by blast

section \<open>A concrete tree\<close>

text \<open>
  Three symbol modules at 2, 3 and 4, loaded at the base addresses 20, 30 and 40,
  under the sentinel at 1; and a fourth one at 5, based at 35, not in the tree.
\<close>

definition sample_base :: "addr \<Rightarrow> ulong64" where
  "sample_base a = (if a = 5 then 35 else of_nat (10 * a))"

definition sample_tree :: avl_tree where
  "sample_tree = \<lparr>RootAddr = 1, Count = 3,
     CompareFunction = PhpSymbolModuleCompareFunction sample_base\<rparr>"

definition sample_heap :: avl_heap where
  "sample_heap = [
     1 \<mapsto> \<lparr>Parent = NULL, Left = NULL, Right = 3, Balance = 0\<rparr>,
     2 \<mapsto> \<lparr>Parent = 3, Left = NULL, Right = NULL, Balance = 0\<rparr>,
     3 \<mapsto> \<lparr>Parent = 1, Left = 2, Right = 4, Balance = 0\<rparr>,
     4 \<mapsto> \<lparr>Parent = 3, Left = NULL, Right = NULL, Balance = 0\<rparr>,
     5 \<mapsto> \<lparr>Parent = 77, Left = 78, Right = 79, Balance = 7\<rparr>]"

definition sample_new :: avl_links where
  "sample_new = \<lparr>Parent = 77, Left = 78, Right = 79, Balance = 7\<rparr>"

lemmas sample_defs = sample_base_def PhpSymbolModuleCompareFunction_def uint64cmp_def
  PH_BUILTIN_COMPARE_def

lemma sample_order: "compare_order (CompareFunction sample_tree)"
  using symbol_modules.compare_order_axioms by (simp add: sample_tree_def)

lemma sample_cmp: "CompareFunction sample_tree a b =
  PH_BUILTIN_COMPARE (sample_base a) (sample_base b)"
  by (simp add: sample_tree_def PhpSymbolModuleCompareFunction_def uint64cmp_def)

lemma sample_holds: "avl_holds sample_heap sample_tree [2, 3, 4]"
proof -
  let ?t = "Node (Node Leaf 2 0 Leaf) 3 0 (Node Leaf 4 0 Leaf)"
  have "avl_repr sample_heap (RootAddr sample_tree) ?t" "avl ?t" "addrs ?t = [2, 3, 4]"
    by (simp_all add: avl_repr_def sample_heap_def sample_tree_def)
  moreover have "increasing (CompareFunction sample_tree) [2, 3, 4]"
    by (simp add: increasing_def sample_cmp sample_defs)
  moreover have "Count sample_tree = 3" by (simp add: sample_tree_def)
  ultimately show ?thesis unfolding avl_holds_def by force
qed

section \<open>Properties\<close>

text \<open>
  C1.  Any history of an AVL tree refines the sorted list: after \<open>PhInitializeAvlTree\<close>, every
  sequence of \<open>PhAddElementAvlTree\<close> on fresh nodes and \<open>PhRemoveElementAvlTree\<close> on members runs
  through on valid pointers only, each loop ends, and the tree left behind is a balanced
  search tree with correct balance fields, parent pointers and count for exactly the
  elements the sorted list holds.
\<close>

theorem avl_history:
  assumes "R \<noteq> NULL" "R \<in> dom h" "compare_order cmp" "proper_calls cmp R cs []"
  shows "\<exists>T h0 T' h'. PhInitializeAvlTree R cmp h = Some (T, h0)
    \<and> run_avl cs T h0 = Some (T', h') \<and> avl_holds h' T' (spec_avl cmp cs [])"
proof -
  obtain h0 where "PhInitializeAvlTree R cmp h
      = Some (\<lparr>RootAddr = R, Count = 0, CompareFunction = cmp\<rparr>, h0)"
    "avl_holds h0 \<lparr>RootAddr = R, Count = 0, CompareFunction = cmp\<rparr> []"
    using init_holds [OF assms(1,2)] by blast
  then show ?thesis
    using run_avl_refines [of h0 "\<lparr>RootAddr = R, Count = 0, CompareFunction = cmp\<rparr>" "[]" cs]
      assms(3,4) by simp
qed

theorem avl_history_witness:
  "\<exists>T h0 T' h'. PhInitializeAvlTree 1 (CompareFunction sample_tree) sample_heap = Some (T, h0)
    \<and> run_avl [Add 4 sample_new, Add 3 sample_new, Add 2 sample_new, Add 5 sample_new, Remove 3] T h0 = Some (T', h')
    \<and> avl_holds h' T' [2, 5, 4]"
  using avl_history [OF _ _ sample_order, of 1 sample_heap
      "[Add 4 sample_new, Add 3 sample_new, Add 2 sample_new, Add 5 sample_new, Remove 3]"]
  by (simp add: sample_cmp sample_defs sample_heap_def insert_by_def)

text \<open>
  Adding an element that compares equal to none of the tree puts it at its place in
  the order, counts it, returns null, and writes only to the sentinel, the new node
  and the nodes of the tree.
\<close>

theorem PhAddElementAvlTree_new:
  assumes "avl_holds h T xs" "compare_order (CompareFunction T)"
    and "\<forall>x \<in> set xs. CompareFunction T e x \<noteq> 0"
    and "e \<notin> set (RootAddr T # xs)" "e \<noteq> NULL" "e \<in> dom h"
  shows "\<exists>h'. PhAddElementAvlTree T e h = Some (NULL, T\<lparr>Count := Count T + 1\<rparr>, h')
    \<and> avl_holds h' (T\<lparr>Count := Count T + 1\<rparr>) (insert_by (CompareFunction T) e xs)
    \<and> same_outside (set (RootAddr T # e # xs)) h h'"
  using add_correct [OF assms] by metis

theorem PhAddElementAvlTree_new_witness:
  "\<exists>h'. PhAddElementAvlTree sample_tree 5 sample_heap
      = Some (NULL, sample_tree\<lparr>Count := Count sample_tree + 1\<rparr>, h')
    \<and> avl_holds h' (sample_tree\<lparr>Count := Count sample_tree + 1\<rparr>) [2, 3, 5, 4]
    \<and> same_outside {1, 2, 3, 4, 5} sample_heap h'"
proof -
  have "insert_by (CompareFunction sample_tree) 5 [2, 3, 4] = [2, 3, 5, 4]"
    by (simp add: sample_cmp sample_defs insert_by_def)
  moreover have "{1, 5, 2, 3, 4} = {1, 2, 3, 4, 5 :: addr}" by auto
  moreover have "RootAddr sample_tree = 1" "(5 :: addr) \<in> dom sample_heap"
    by (simp_all add: sample_tree_def sample_heap_def)
  moreover have "\<forall>x \<in> set [2, 3, 4]. CompareFunction sample_tree 5 x \<noteq> 0"
    by (simp add: sample_cmp sample_defs)
  ultimately show ?thesis
    using PhAddElementAvlTree_new [OF sample_holds sample_order, of 5] by simp
qed

text \<open>
  Adding an element equal to one of the tree returns that one and changes nothing.
\<close>

theorem PhAddElementAvlTree_existing:
  assumes "avl_holds h T xs" "compare_order (CompareFunction T)"
    and "x \<in> set xs" "CompareFunction T e x = 0"
  shows "PhAddElementAvlTree T e h = Some (x, T, h)"
  by (rule add_found [OF assms])

theorem PhAddElementAvlTree_existing_witness:
  "PhAddElementAvlTree sample_tree 3 sample_heap = Some (3, sample_tree, sample_heap)"
  using PhAddElementAvlTree_existing [OF sample_holds sample_order, of 3 3]
  by (simp add: sample_cmp sample_defs)

text \<open>
  C2.  Removing an element of the tree, a leaf or an inner node, takes exactly that one out,
  leaves the others in order in a balanced tree, counts down and writes only to the
  sentinel and the nodes of the tree.
\<close>

theorem PhRemoveElementAvlTree_correct:
  assumes "avl_holds h T xs" "e \<in> set xs"
  shows "\<exists>h'. PhRemoveElementAvlTree T e h = Some (T\<lparr>Count := Count T - 1\<rparr>, h')
    \<and> avl_holds h' (T\<lparr>Count := Count T - 1\<rparr>) (remove1 e xs)
    \<and> same_outside (set (RootAddr T # xs)) h h'"
  using remove_correct [OF assms] by metis

theorem PhRemoveElementAvlTree_correct_witness:
  "\<exists>h'. PhRemoveElementAvlTree sample_tree 3 sample_heap
      = Some (sample_tree\<lparr>Count := Count sample_tree - 1\<rparr>, h')
    \<and> avl_holds h' (sample_tree\<lparr>Count := Count sample_tree - 1\<rparr>) [2, 4]
    \<and> same_outside {1, 2, 3, 4} sample_heap h'"
  using PhRemoveElementAvlTree_correct [OF sample_holds, of 3] by (simp add: sample_tree_def)

text \<open>
  Searching finds the element that compares equal, and null when there is none.
\<close>

theorem PhFindElementAvlTree_correct:
  assumes "avl_holds h T xs" "compare_order (CompareFunction T)"
  shows "PhFindElementAvlTree T e h = Some (first_with (\<lambda>x. CompareFunction T e x = 0) xs)"
proof (cases "\<exists>x \<in> set xs. CompareFunction T e x = 0")
  case True
  then obtain x where x: "x \<in> set xs" "CompareFunction T e x = 0" by blast
  have "increasing (CompareFunction T) xs" using assms(1) by (simp add: avl_holds_def)
  then have "first_with (\<lambda>x. CompareFunction T e x = 0) xs = x"
    using x compare_order.increasing_unique [OF assms(2)] by (intro first_with_unique)
  then show ?thesis using find_found [OF assms x] by (simp add: PhFindElementAvlTree_def)
next
  case False
  then obtain p k where "PhpFindElementAvlTree T e h = Some (p, k)" "k \<noteq> 0"
    using find_not_found [OF assms(1)] by blast
  then show ?thesis
    using False by (simp add: PhFindElementAvlTree_def first_with_def first_or_none)
qed

theorem PhFindElementAvlTree_correct_witness:
  "PhFindElementAvlTree sample_tree 4 sample_heap = Some 4
   \<and> PhFindElementAvlTree sample_tree 5 sample_heap = Some NULL"
  using PhFindElementAvlTree_correct [OF sample_holds sample_order]
  by (simp add: sample_cmp sample_defs first_with_def)

text \<open>
  The lower and upper bound searches return the first element not below, and the
  first element above, the given one.
\<close>

theorem PhBoundElementAvlTree_correct:
  assumes "avl_holds h T xs" "compare_order (CompareFunction T)"
  shows "PhLowerBoundElementAvlTree T e h = Some (first_with (\<lambda>x. CompareFunction T e x \<le> 0) xs)
       \<and> PhUpperBoundElementAvlTree T e h = Some (first_with (\<lambda>x. CompareFunction T e x < 0) xs)"
  using lower_bound_correct [OF assms] upper_bound_correct [OF assms] by simp

theorem PhBoundElementAvlTree_correct_witness:
  "PhLowerBoundElementAvlTree sample_tree 3 sample_heap = Some 3
   \<and> PhUpperBoundElementAvlTree sample_tree 3 sample_heap = Some 4"
  using PhBoundElementAvlTree_correct [OF sample_holds sample_order, of 3]
  by (simp add: sample_cmp sample_defs first_with_def)

text \<open>
  The dual bound searches return the last element below, and the last element not
  above, the given one.
\<close>

theorem PhDualBoundElementAvlTree_correct:
  assumes "avl_holds h T xs" "compare_order (CompareFunction T)"
  shows "PhLowerDualBoundElementAvlTree T e h = Some (last_with (\<lambda>x. CompareFunction T e x > 0) xs)
       \<and> PhUpperDualBoundElementAvlTree T e h = Some (last_with (\<lambda>x. CompareFunction T e x \<ge> 0) xs)"
  using lower_dual_bound_correct [OF assms] upper_dual_bound_correct [OF assms] by simp

theorem PhDualBoundElementAvlTree_correct_witness:
  "PhLowerDualBoundElementAvlTree sample_tree 3 sample_heap = Some 2
   \<and> PhUpperDualBoundElementAvlTree sample_tree 5 sample_heap = Some 3"
  using PhDualBoundElementAvlTree_correct [OF sample_holds sample_order, of 3]
    PhDualBoundElementAvlTree_correct [OF sample_holds sample_order, of 5]
  by (simp add: sample_cmp sample_defs last_with_def)

text \<open>
  First, last, next and previous element are those of the sorted list; at the ends
  there is null, also where the climb of the predecessor ends in the sentinel.
\<close>

theorem PhNeighbourElementAvlTree_correct:
  assumes "avl_holds h T xs" "xs = as @ e # bs"
  shows "PhMinimumElementAvlTree T h = Some (hd xs)
       \<and> PhMaximumElementAvlTree T h = Some (last xs)
       \<and> PhSuccessorElementAvlTree e h = Some (if bs = [] then NULL else hd bs)
       \<and> PhPredecessorElementAvlTree e h = Some (if as = [] then NULL else last as)"
proof -
  obtain t where t: "avl_repr h (RootAddr T) t" "addrs t = as @ e # bs"
    using assms by (auto simp: avl_holds_def)
  show ?thesis
    using minimum_correct [OF assms(1)] maximum_correct [OF assms(1)] assms(2)
      successor_correct [OF t] predecessor_correct [OF t]
    by (cases as; cases bs) auto
qed

theorem PhNeighbourElementAvlTree_correct_witness:
  "PhMinimumElementAvlTree sample_tree sample_heap = Some 2
   \<and> PhMaximumElementAvlTree sample_tree sample_heap = Some 4
   \<and> PhSuccessorElementAvlTree 4 sample_heap = Some NULL
   \<and> PhPredecessorElementAvlTree 4 sample_heap = Some 3"
  using PhNeighbourElementAvlTree_correct [OF sample_holds, of "[2, 3]" 4 "[]"] by simp

text \<open>
  C3.  The enumeration with its stack of 47 pointers visits the elements in order, or in
  reverse order, until the callback says stop; the stack cannot overflow for fewer than
  12586269024 elements, hence for any count a \<open>ULONG\<close> can hold.
\<close>

theorem PhEnumAvlTree_correct:
  assumes "avl_holds h T xs" "length xs < 12586269024"
  shows "PhEnumAvlTree T Order Callback s h =
    Some (enum_list Callback (case Order of TreeEnumerateInOrder \<Rightarrow> xs | _ \<Rightarrow> rev xs) s)"
  by (rule enum_correct [OF assms])

theorem PhEnumAvlTree_correct_witness:
  "PhEnumAvlTree sample_tree TreeEnumerateInReverseOrder (\<lambda>x s. (x > 3, s @ [x])) [] sample_heap
   = Some [4, 3]"
  using PhEnumAvlTree_correct [OF sample_holds, of TreeEnumerateInReverseOrder
      "\<lambda>x s. (x > 3, s @ [x])" "[]"]
  by simp

end
