(* ===== verification/Buffers.thy ===== *)
theory Buffers
  imports Prelude
begin

text \<open>
  Blocks of memory the containers allocate: a list of cells, \<open>None\<close> for a cell nobody
  has written since it was allocated.  Every access outside of a block, and every read
  of an unwritten cell as a value, has no result.  \<open>PhAllocate\<close> and \<open>PhReAllocate\<close>
  raise when memory runs out, so they always return a block of the size asked for.
\<close>

type_synonym 'a block = "'a option list"

text \<open>The status that \<open>PhRaiseStatus\<close> leaves a function with.\<close>

datatype ph_error = STATUS_INVALID_PARAMETER | STATUS_INVALID_PARAMETER_2 | STATUS_INVALID_PARAMETER_3
  | STATUS_INVALID_PARAMETER_MIX | STATUS_UNSUCCESSFUL

text \<open>What runs after a call that may have raised a status.\<close>

definition ebind :: "'e + 'a \<Rightarrow> ('a \<Rightarrow> 'e + 'b) \<Rightarrow> 'e + 'b" where
  "ebind m f = (case m of Inl e \<Rightarrow> Inl e | Inr x \<Rightarrow> f x)"

lemma ebind_simps [simp]: "ebind (Inl e) f = Inl e" "ebind (Inr x) f = f x"
  by (simp_all add: ebind_def)

definition alloc_block :: "nat \<Rightarrow> 'a block" where
  "alloc_block n = replicate n None"

text \<open>\<open>PhReAllocate\<close> keeps the cells that fit.\<close>

definition realloc_block :: "nat \<Rightarrow> 'a block \<Rightarrow> 'a block" where
  "realloc_block n B = take n B @ replicate (n - length B) None"

definition read_cell :: "'a block \<Rightarrow> nat \<Rightarrow> 'a option" where
  "read_cell B i = (if i < length B then B ! i else None)"

definition write_cell :: "nat \<Rightarrow> 'a \<Rightarrow> 'a block \<Rightarrow> 'a block option" where
  "write_cell i x B = (if i < length B then Some (B[i := Some x]) else None)"

text \<open>Overwriting a range, what \<open>memcpy\<close> and \<open>memmove\<close> do to the destination.\<close>

definition overwrite :: "nat \<Rightarrow> 'a list \<Rightarrow> 'a list \<Rightarrow> 'a list" where
  "overwrite i ys xs = take i xs @ ys @ drop (i + length ys) xs"

definition copy_in :: "nat \<Rightarrow> 'a list \<Rightarrow> 'a block \<Rightarrow> 'a block option" where
  "copy_in dst ys B =
     (if dst + length ys \<le> length B then Some (overwrite dst (map Some ys) B) else None)"

definition move_in :: "nat \<Rightarrow> nat \<Rightarrow> nat \<Rightarrow> 'a block \<Rightarrow> 'a block option" where
  "move_in dst src n B =
     (if src + n \<le> length B \<and> dst + n \<le> length B
      then Some (overwrite dst (take n (drop src B)) B) else None)"

named_theorems block_simps

section \<open>Counting with words\<close>

lemma unat_add_exact:
  "unat (a :: 'a::len word) + unat b < 2 ^ LENGTH('a) \<Longrightarrow> unat (a + b) = unat a + unat b"
  by (simp add: unat_add_lem)

lemma unat_inc: "i < (c :: 'a::len word) \<Longrightarrow> unat (i + 1) = Suc (unat i)"
proof -
  assume "i < c"
  then have "unat i < unat c" by (simp add: word_less_nat_alt)
  then have "unat i + 1 < 2 ^ LENGTH('a)" using unsigned_less [of c, where ?'a = nat] by linarith
  then show ?thesis using unat_add_exact [of i 1] by simp
qed

lemma unat_of_nat_small: "n < 2 ^ 64 \<Longrightarrow> unat (of_nat n :: ulong64) = n"
  by (simp add: unat_of_nat take_bit_nat_eq_self)

lemma unat_of_nat_ulong: "n < 2 ^ 32 \<Longrightarrow> unat (of_nat n :: ulong) = n"
  by (simp add: unat_of_nat take_bit_nat_eq_self)

lemma of_nat_unatI: "unat (w :: 'a::len word) = n \<Longrightarrow> w = of_nat n"
  by auto

lemma unat_double:
  "unat (a :: 'a::len word) * 2 < 2 ^ LENGTH('a) \<Longrightarrow> unat (a * 2) = unat a * 2"
proof -
  assume "unat a * 2 < 2 ^ LENGTH('a)"
  then have "unat (a + a) = unat a + unat a" by (intro unat_add_exact) simp
  then show ?thesis by (simp flip: mult_2_right)
qed

lemma unat_minus_exact: "b \<le> (a :: 'a::len word) \<Longrightarrow> unat (a - b) = unat a - unat b"
  by (simp add: unat_sub)

lemma card_words_below: "card {i. i < (n :: 'a::len word)} = unat n"
proof -
  have "\<exists>i \<in> {i. i < n}. k = unat i" if k: "k < unat n" for k
  proof
    have "k < 2 ^ LENGTH('a)" using k unsigned_less [of n] by (rule order_less_trans)
    then have "unat (of_nat k :: 'a word) = k" by (simp add: unat_of_nat take_bit_nat_eq_self)
    then show "k = unat (of_nat k :: 'a word)" "(of_nat k :: 'a word) \<in> {i. i < n}"
      using k by (simp_all add: word_less_nat_alt)
  qed
  then have "bij_betw unat {i. i < n} {..<unat n}"
    by (intro bij_betwI') (auto simp: word_unat_eq_iff word_less_nat_alt)
  then show ?thesis using bij_betw_same_card by fastforce
qed

lemma unat_mult_exact:
  "unat (a :: 'a::len word) * unat b < 2 ^ LENGTH('a) \<Longrightarrow> unat (a * b) = unat a * unat b"
  by (simp add: unat_mult_lem)

lemma unat_mult_le:
  "unat a \<le> m \<Longrightarrow> m * unat b < 2 ^ LENGTH('a) \<Longrightarrow>
   unat ((a :: 'a::len word) * b) = unat a * unat b"
  by (meson mult_le_mono1 order.strict_trans1 unat_mult_exact)

section \<open>Blocks\<close>

lemma length_alloc_block [simp]: "length (alloc_block n) = n"
  by (simp add: alloc_block_def)

lemma length_realloc_block [simp]: "length (realloc_block n B) = n"
  by (simp add: realloc_block_def)

lemma take_realloc_block [block_simps]:
  "k \<le> n \<Longrightarrow> k \<le> length B \<Longrightarrow> take k (realloc_block n B) = take k B"
  by (simp add: realloc_block_def)

lemma nth_realloc_block [block_simps]:
  "i < n \<Longrightarrow> i < length B \<Longrightarrow> realloc_block n B ! i = B ! i"
  by (simp add: realloc_block_def nth_append)

lemma length_overwrite [simp]: "i + length ys \<le> length xs \<Longrightarrow> length (overwrite i ys xs) = length xs"
  by (simp add: overwrite_def)

lemma take_overwrite_le [block_simps]: "k \<le> i \<Longrightarrow> i \<le> length xs \<Longrightarrow> take k (overwrite i ys xs) = take k xs"
  by (simp add: overwrite_def)

lemma take_overwrite_end [block_simps]:
  "i \<le> length xs \<Longrightarrow> k = i + length ys \<Longrightarrow> take k (overwrite i ys xs) = take i xs @ ys"
  by (simp add: overwrite_def)

lemma copy_in_Some [block_simps]:
  "dst + length ys \<le> length B \<Longrightarrow> copy_in dst ys B = Some (overwrite dst (map Some ys) B)"
  by (simp add: copy_in_def)

lemma move_in_Some [block_simps]:
  "src + n \<le> length B \<Longrightarrow> dst + n \<le> length B \<Longrightarrow>
   move_in dst src n B = Some (overwrite dst (take n (drop src B)) B)"
  by (simp add: move_in_def)

lemma write_cell_Some [block_simps]: "i < length B \<Longrightarrow> write_cell i x B = Some (B[i := Some x])"
  by (simp add: write_cell_def)

lemma read_cell_take:
  "take k B = map Some xs \<Longrightarrow> k = length xs \<Longrightarrow> i < k \<Longrightarrow> read_cell B i = Some (xs ! i)"
proof -
  assume a: "take k B = map Some xs" "k = length xs" "i < k"
  have "length (take k B) = k" using a(1,2) by (metis length_map)
  then have "k \<le> length B" by simp
  moreover have "take k B ! i = Some (xs ! i)" using a by simp
  ultimately show "read_cell B i = Some (xs ! i)" using a(3) by (simp add: read_cell_def)
qed

text \<open>\<open>n\<close> items the caller hands over; there must be that many.\<close>

definition items_from :: "'a list \<Rightarrow> nat \<Rightarrow> 'a list option" where
  "items_from Items n = (if n \<le> length Items then Some (take n Items) else None)"

text \<open>A block that starts with the values \<open>xs\<close>.\<close>

definition starts :: "'a block \<Rightarrow> 'a list \<Rightarrow> bool" where
  "starts B xs \<longleftrightarrow> length xs \<le> length B \<and> take (length xs) B = map Some xs"

lemma starts_read: "starts B xs \<Longrightarrow> i < length xs \<Longrightarrow> read_cell B i = Some (xs ! i)"
  unfolding starts_def by (rule read_cell_take) auto

lemma starts_realloc: "starts B xs \<Longrightarrow> length xs \<le> n \<Longrightarrow> starts (realloc_block n B) xs"
  by (simp add: starts_def take_realloc_block)

lemma starts_Nil [simp]: "starts B []"
  by (simp add: starts_def)

lemma starts_eq: "starts B xs \<Longrightarrow> B = map Some xs @ drop (length xs) B"
  unfolding starts_def by (metis append_take_drop_id)

lemma starts_split: "starts B xs \<longleftrightarrow> (\<exists>C. B = map Some xs @ C)"
proof
  show "starts B xs \<Longrightarrow> \<exists>C. B = map Some xs @ C" using starts_eq by blast
  show "\<exists>C. B = map Some xs @ C \<Longrightarrow> starts B xs" by (auto simp: starts_def)
qed

lemma starts_append:
  "starts B xs \<Longrightarrow> length xs + length ys \<le> length B \<Longrightarrow>
   starts (overwrite (length xs) (map Some ys) B) (xs @ ys)"
  by (auto simp: starts_split overwrite_def)

lemma starts_write:
  "starts B xs \<Longrightarrow> length xs < length B \<Longrightarrow> starts (B[length xs := Some y]) (xs @ [y])"
  by (auto simp: starts_split list_update_append neq_Nil_conv split: list.split)

lemma starts_take: "starts B xs \<Longrightarrow> starts B (take n xs)"
proof -
  assume "starts B xs"
  then obtain C where "B = map Some xs @ C" by (auto simp: starts_split)
  then have "B = map Some (take n xs) @ map Some (drop n xs) @ C"
    by (metis append.assoc append_take_drop_id map_append)
  then show ?thesis by (auto simp: starts_split)
qed

text \<open>Opening a gap inside, filling it, and closing one.\<close>

lemma starts_shift_up:
  assumes "starts B (xs @ ys)" "length xs + n + length ys \<le> length B"
  shows "\<exists>zs. length zs = n \<and> overwrite (length xs + n) (take (length ys) (drop (length xs) B)) B
     = map Some xs @ zs @ map Some ys @ drop (length xs + n + length ys) B"
proof -
  obtain C where B: "B = map Some xs @ map Some ys @ C" using assms(1) by (auto simp: starts_split)
  let ?zs = "take n (map Some ys @ C)"
  have "length ?zs = n" using assms(2) B by simp
  moreover have "overwrite (length xs + n) (take (length ys) (drop (length xs) B)) B
     = map Some xs @ ?zs @ map Some ys @ drop (length xs + n + length ys) B"
    using B by (simp add: overwrite_def)
  ultimately show ?thesis by blast
qed

lemma starts_shift_down:
  assumes "starts B (xs @ ys @ zs)"
  shows "starts (overwrite (length xs) (take (length zs) (drop (length xs + length ys) B)) B) (xs @ zs)"
  using assms by (auto simp: starts_split overwrite_def)

end
