(* ===== verification/Lists.thy ===== *)
theory Lists
  imports Buffers
begin

text \<open>
  The growable list of pointers \<open>PH_LIST\<close> of \<open>phlib/basesup.c\<close>.  Counts are 32-bit
  words that wrap, so a capacity that doubles past \<open>2 ^ 32\<close> is 0 here as it is there.
\<close>

section \<open>The code\<close>

record 'a ph_list =
  ListCount :: ulong
  ListAllocatedCount :: ulong
  ListItems :: "'a block"

definition PhItemList :: "'a ph_list \<Rightarrow> ulong \<Rightarrow> 'a option" where
  "PhItemList List Index = read_cell (ListItems List) (unat Index)"

definition PhCreateList :: "ulong \<Rightarrow> 'a ph_list" where
  "PhCreateList InitialCapacity =
     (let InitialCapacity = if InitialCapacity = 0 then 1 else InitialCapacity in
      \<lparr>ListCount = 0, ListAllocatedCount = InitialCapacity,
       ListItems = alloc_block (unat InitialCapacity)\<rparr>)"

definition PhResizeList :: "'a ph_list \<Rightarrow> ulong \<Rightarrow> ph_error + 'a ph_list" where
  "PhResizeList List NewCapacity =
     (if ListCount List > NewCapacity then Inl STATUS_INVALID_PARAMETER_2
      else Inr (List\<lparr>ListAllocatedCount := NewCapacity,
        ListItems := realloc_block (unat NewCapacity) (ListItems List)\<rparr>))"

definition PhAddItemList :: "'a ph_list \<Rightarrow> 'a \<Rightarrow> 'a ph_list option" where
  "PhAddItemList List Item = (
     let List =
       (if ListCount List = ListAllocatedCount List then
          let n = ListAllocatedCount List * 2 in
          List\<lparr>ListAllocatedCount := n, ListItems := realloc_block (unat n) (ListItems List)\<rparr>
        else List)
     in do {
       items \<leftarrow> write_cell (unat (ListCount List)) Item (ListItems List);
       Some (List\<lparr>ListCount := ListCount List + 1, ListItems := items\<rparr>)
     })"

text \<open>The common first step of adding and inserting several items.\<close>

definition grow_list :: "'a ph_list \<Rightarrow> ulong \<Rightarrow> 'a ph_list" where
  "grow_list List n =
     (if ListAllocatedCount List < ListCount List + n then
        let a = ListAllocatedCount List * 2;
            a = if a < ListCount List + n then ListCount List + n else a in
        List\<lparr>ListAllocatedCount := a, ListItems := realloc_block (unat a) (ListItems List)\<rparr>
      else List)"

definition PhAddItemsList :: "'a ph_list \<Rightarrow> 'a list \<Rightarrow> ulong \<Rightarrow> 'a ph_list option" where
  "PhAddItemsList List Items n = (
     let List = grow_list List n in do {
       new \<leftarrow> items_from Items (unat n);
       items \<leftarrow> copy_in (unat (ListCount List)) new (ListItems List);
       Some (List\<lparr>ListCount := ListCount List + n, ListItems := items\<rparr>)
     })"

definition PhClearList :: "'a ph_list \<Rightarrow> 'a ph_list" where
  "PhClearList List = List\<lparr>ListCount := 0\<rparr>"

function PhFindItemList_loop :: "'a ph_list \<Rightarrow> 'a \<Rightarrow> ulong \<Rightarrow> ulong option" where
  "PhFindItemList_loop List Item i =
     (if i < ListCount List then do {
        x \<leftarrow> PhItemList List i;
        if x = Item then Some i else PhFindItemList_loop List Item (i + 1)
      }
      else Some (- 1))"
  by auto
termination
  by (relation "measure (\<lambda>(List, Item, i). unat (ListCount List) - unat i)")
    (auto simp: unat_inc word_less_nat_alt)

definition PhFindItemList :: "'a ph_list \<Rightarrow> 'a \<Rightarrow> ulong option" where
  "PhFindItemList List Item = PhFindItemList_loop List Item 0"

definition PhInsertItemsList :: "'a ph_list \<Rightarrow> ulong \<Rightarrow> 'a list \<Rightarrow> ulong \<Rightarrow> 'a ph_list option" where
  "PhInsertItemsList List Index Items n = (
     let List = grow_list List n in do {
       items \<leftarrow>
         (if Index < ListCount List then
            move_in (unat (Index + n)) (unat Index) (unat (ListCount List - Index)) (ListItems List)
          else Some (ListItems List));
       new \<leftarrow> items_from Items (unat n);
       items \<leftarrow> copy_in (unat Index) new items;
       Some (List\<lparr>ListCount := ListCount List + n, ListItems := items\<rparr>)
     })"

definition PhInsertItemList :: "'a ph_list \<Rightarrow> ulong \<Rightarrow> 'a \<Rightarrow> 'a ph_list option" where
  "PhInsertItemList List Index Item = PhInsertItemsList List Index [Item] 1"

definition PhRemoveItemsList :: "'a ph_list \<Rightarrow> ulong \<Rightarrow> ulong \<Rightarrow> 'a ph_list option" where
  "PhRemoveItemsList List StartIndex n = do {
     items \<leftarrow> move_in (unat StartIndex) (unat (StartIndex + n))
       (unat (ListCount List - StartIndex - n)) (ListItems List);
     Some (List\<lparr>ListCount := ListCount List - n, ListItems := items\<rparr>)
   }"

definition PhRemoveItemList :: "'a ph_list \<Rightarrow> ulong \<Rightarrow> 'a ph_list option" where
  "PhRemoveItemList List Index = PhRemoveItemsList List Index 1"


section \<open>What a list object stands for\<close>

definition list_wf :: "'a ph_list \<Rightarrow> bool" where
  "list_wf L \<longleftrightarrow> length (ListItems L) = unat (ListAllocatedCount L) \<and> 0 < unat (ListAllocatedCount L)"

definition list_holds :: "'a ph_list \<Rightarrow> 'a list \<Rightarrow> bool" where
  "list_holds L xs \<longleftrightarrow> list_wf L \<and> unat (ListCount L) = length xs \<and> starts (ListItems L) xs"

lemma list_holds_room:
  "list_holds L xs \<Longrightarrow> length xs \<le> unat (ListAllocatedCount L)"
  by (auto simp: list_holds_def list_wf_def starts_def)

lemma create_holds: "list_holds (PhCreateList n) []"
  by (simp add: list_holds_def list_wf_def PhCreateList_def Let_def unat_gt_0)

lemma clear_holds: "list_holds L xs \<Longrightarrow> list_holds (PhClearList L) []"
  by (simp add: list_holds_def list_wf_def PhClearList_def)

lemma item_correct:
  "list_holds L xs \<Longrightarrow> unat i < length xs \<Longrightarrow> PhItemList L i = Some (xs ! unat i)"
  by (simp add: list_holds_def PhItemList_def starts_read)

lemma resize_correct:
  assumes "list_holds L xs"
  shows "n < ListCount L \<Longrightarrow> PhResizeList L n = Inl STATUS_INVALID_PARAMETER_2"
    and "ListCount L \<le> n \<Longrightarrow> 0 < n \<Longrightarrow> \<exists>L'. PhResizeList L n = Inr L' \<and> list_holds L' xs
      \<and> ListAllocatedCount L' = n"
  using assms
  by (auto simp: PhResizeList_def list_holds_def list_wf_def word_le_nat_alt word_less_nat_alt starts_realloc)

lemma add_item_correct:
  assumes L: "list_holds L xs" and room: "length xs < 2 ^ 31"
  obtains L' where "PhAddItemList L x = Some L'" "list_holds L' (xs @ [x])"
proof -
  let ?L = "if ListCount L = ListAllocatedCount L then
      L\<lparr>ListAllocatedCount := ListAllocatedCount L * 2,
        ListItems := realloc_block (unat (ListAllocatedCount L * 2)) (ListItems L)\<rparr> else L"
  have count: "unat (ListCount L) = length xs" using L by (simp add: list_holds_def)
  have full: "unat (ListAllocatedCount L * 2) = length xs * 2" "0 < length xs"
    if "ListCount L = ListAllocatedCount L"
    using that count room unat_double [of "ListAllocatedCount L"] L
    by (auto simp: list_holds_def list_wf_def unat_gt_0)
  then have G: "list_holds ?L xs" "length xs < length (ListItems ?L)"
    using L list_holds_room [OF L] count word_unat_eq_iff [of "ListCount L" "ListAllocatedCount L"]
    by (auto simp: list_holds_def list_wf_def starts_realloc)
  moreover have "ListCount ?L = ListCount L" by simp
  then have "unat (ListCount ?L + 1) = Suc (length xs)"
    using count room unat_add_exact [of "ListCount L" 1] by (simp only:) simp
  ultimately have "PhAddItemList L x = Some (?L\<lparr>ListCount := ListCount ?L + 1,
      ListItems := (ListItems ?L)[length xs := Some x]\<rparr>)"
    "list_holds (?L\<lparr>ListCount := ListCount ?L + 1,
      ListItems := (ListItems ?L)[length xs := Some x]\<rparr>) (xs @ [x])"
    using count
    by (auto simp: PhAddItemList_def Let_def list_holds_def list_wf_def block_simps starts_write)
  then show ?thesis by (rule that)
qed

lemma grow_correct:
  assumes L: "list_holds L xs" and room: "length xs + unat n < 2 ^ 32"
  shows "list_holds (grow_list L n) xs" "ListCount (grow_list L n) = ListCount L"
    "length xs + unat n \<le> length (ListItems (grow_list L n))"
proof -
  have sum: "unat (ListCount L + n) = length xs + unat n"
    using L room unat_add_exact [of "ListCount L" n] by (simp add: list_holds_def)
  show "ListCount (grow_list L n) = ListCount L" by (simp add: grow_list_def Let_def)
  show "list_holds (grow_list L n) xs"
    using L sum by (auto simp: grow_list_def Let_def list_holds_def list_wf_def word_less_nat_alt
        intro!: starts_realloc)
  show "length xs + unat n \<le> length (ListItems (grow_list L n))"
    using L sum by (auto simp: grow_list_def Let_def list_holds_def list_wf_def word_less_nat_alt)
qed

lemma add_items_correct:
  assumes L: "list_holds L xs" and room: "length xs + unat n < 2 ^ 32" and n: "unat n \<le> length ys"
  obtains L' where "PhAddItemsList L ys n = Some L'" "list_holds L' (xs @ take (unat n) ys)"
proof -
  let ?L = "grow_list L n" and ?ys = "take (unat n) ys"
  note G = grow_correct [OF L room]
  have count: "unat (ListCount ?L) = length xs" using G(1) by (simp add: list_holds_def)
  moreover have "unat (ListCount ?L + n) = length xs + unat n"
    using count room unat_add_exact [of "ListCount ?L" n] by simp
  ultimately have "PhAddItemsList L ys n = Some (?L\<lparr>ListCount := ListCount ?L + n,
      ListItems := overwrite (length xs) (map Some ?ys) (ListItems ?L)\<rparr>)"
    "list_holds (?L\<lparr>ListCount := ListCount ?L + n,
      ListItems := overwrite (length xs) (map Some ?ys) (ListItems ?L)\<rparr>) (xs @ ?ys)"
    using n G(1,3)
    by (auto simp: PhAddItemsList_def items_from_def Let_def list_holds_def list_wf_def block_simps
        starts_append)
  then show ?thesis by (rule that)
qed

lemma insert_items_correct:
  assumes L: "list_holds L (xs @ ys)" and i: "unat i = length xs"
    and room: "length xs + length ys + unat n < 2 ^ 32" and n: "unat n \<le> length zs"
  obtains L' where "PhInsertItemsList L i zs n = Some L'"
    "list_holds L' (xs @ take (unat n) zs @ ys)"
proof -
  let ?L = "grow_list L n" and ?zs = "take (unat n) zs"
  have "length (xs @ ys) + unat n < 2 ^ 32" using room by simp
  note G = grow_correct [OF L this]
  let ?B = "ListItems ?L"
  have start: "starts ?B (xs @ ys)" and count: "unat (ListCount ?L) = length xs + length ys"
    using G(1) by (simp_all add: list_holds_def)
  have sum: "unat (ListCount ?L + n) = length xs + length ys + unat n"
    using count room unat_add_exact [of "ListCount ?L" n] by simp
  have dst: "unat (i + n) = length xs + unat n" using i room unat_add_exact [of i n] by simp
  define C where "C = (if i < ListCount ?L
     then overwrite (length xs + unat n) (take (length ys) (drop (length xs) ?B)) ?B else ?B)"
  have len: "unat (ListCount ?L - i) = length ys" if "i < ListCount ?L"
    using that count i unat_minus_exact [of i "ListCount ?L"] by (simp add: order_less_imp_le)
  have less: "i < ListCount ?L \<longleftrightarrow> ys \<noteq> []" using i count by (auto simp: word_less_nat_alt)
  have "\<exists>us D. length us = unat n \<and> C = map Some xs @ us @ map Some ys @ D"
  proof (cases "ys = []")
    case True
    have "?B = map Some xs @ drop (length xs) ?B" using starts_eq [OF start] True by simp
    then have "?B = map Some xs @ take (unat n) (drop (length xs) ?B)
        @ drop (unat n) (drop (length xs) ?B)"
      by (simp only: append_take_drop_id)
    moreover have "length (take (unat n) (drop (length xs) ?B)) = unat n" using G(3) by simp
    ultimately show ?thesis using True less by (force simp: C_def)
  next
    case False
    then show ?thesis
      using starts_shift_up [OF start, of "unat n"] G(3) less by (auto simp: C_def)
  qed
  then obtain us D where C: "length us = unat n" "C = map Some xs @ us @ map Some ys @ D"
    by blast
  have lenC: "length C = length ?B"
    using G(3) by (simp add: C_def overwrite_def)
  then have "starts (overwrite (length xs) (map Some ?zs) C) (xs @ ?zs @ ys)"
    using n C by (simp add: starts_split overwrite_def)
  moreover have "PhInsertItemsList L i zs n = Some (?L\<lparr>ListCount := ListCount ?L + n,
      ListItems := overwrite (length xs) (map Some ?zs) C\<rparr>)"
    using n G(3) len dst i lenC
    by (simp add: PhInsertItemsList_def items_from_def Let_def C_def block_simps)
  ultimately show ?thesis
    using that G(1) sum n lenC G(3) by (simp add: list_holds_def list_wf_def)
qed

lemma remove_items_correct:
  assumes L: "list_holds L (xs @ ys @ zs)" and i: "unat i = length xs" and n: "unat n = length ys"
  obtains L' where "PhRemoveItemsList L i n = Some L'" "list_holds L' (xs @ zs)"
proof -
  have count: "unat (ListCount L) = length xs + length ys + length zs"
    and start: "starts (ListItems L) (xs @ ys @ zs)"
    using L by (simp_all add: list_holds_def)
  then have bound: "length xs + length ys + length zs < 2 ^ 32"
    using unsigned_less [of "ListCount L", where ?'a = nat] by simp
  have src: "unat (i + n) = length xs + length ys"
    using i n bound unat_add_exact [of i n] by simp
  have "unat (ListCount L - i) = length ys + length zs"
    using count i unat_minus_exact [of i "ListCount L"] by (simp add: word_le_nat_alt)
  then have rest: "unat (ListCount L - i - n) = length zs"
    using n unat_minus_exact [of n "ListCount L - i"] by (simp add: word_le_nat_alt)
  have new: "unat (ListCount L - n) = length xs + length zs"
    using count n unat_minus_exact [of n "ListCount L"] by (simp add: word_le_nat_alt)
  have len: "length xs + length ys + length zs \<le> length (ListItems L)"
    using start by (simp add: starts_def)
  then have "PhRemoveItemsList L i n = Some (L\<lparr>ListCount := ListCount L - n,
     ListItems := overwrite (length xs) (take (length zs) (drop (length xs + length ys) (ListItems L)))
       (ListItems L)\<rparr>)"
    using src rest i by (simp add: PhRemoveItemsList_def block_simps)
  then show ?thesis
    using that starts_shift_down [OF start] new len L by (simp add: list_holds_def list_wf_def)
qed

text \<open>The index of the first occurrence, or the count when there is none.\<close>

definition first_index :: "'a list \<Rightarrow> 'a \<Rightarrow> nat" where
  "first_index xs x = length (takeWhile (\<lambda>y. y \<noteq> x) xs)"

lemma first_index_drop:
  "k < length xs \<Longrightarrow>
   first_index (drop k xs) x = (if xs ! k = x then 0 else Suc (first_index (drop (Suc k) xs) x))"
  by (simp add: first_index_def flip: Cons_nth_drop_Suc)

lemma find_loop:
  "list_holds L xs \<Longrightarrow> unat i \<le> length xs \<Longrightarrow> PhFindItemList_loop L x i = Some
    (if x \<in> set (drop (unat i) xs) then of_nat (unat i + first_index (drop (unat i) xs) x) else - 1)"
proof (induction L x i rule: PhFindItemList_loop.induct)
  case (1 L x i)
  have count: "i < ListCount L \<longleftrightarrow> unat i < length xs"
    using 1(2) by (simp add: list_holds_def word_less_nat_alt)
  show ?case
  proof (cases "unat i < length xs")
    case True
    then have less: "i < ListCount L" and inc: "unat (i + 1) = Suc (unat i)"
      using count unat_inc by blast+
    have item: "PhItemList L i = Some (xs ! unat i)" by (rule item_correct [OF 1(2) True])
    have rest: "drop (unat i) xs = xs ! unat i # drop (Suc (unat i)) xs"
      using True by (simp add: Cons_nth_drop_Suc)
    show ?thesis
    proof (cases "xs ! unat i = x")
      case eq: True
      then show ?thesis
        using less item rest first_index_drop [OF True] by (simp add: PhFindItemList_loop.simps [of L])
    next
      case neq: False
      then show ?thesis
        using less item rest first_index_drop [OF True] 1(1) [OF less item neq 1(2)] inc True
        by (simp add: PhFindItemList_loop.simps [of L])
    qed
  next
    case False
    then show ?thesis using 1(3) count by (simp add: PhFindItemList_loop.simps [of L])
  qed
qed

lemma find_correct:
  "list_holds L xs \<Longrightarrow>
   PhFindItemList L x = Some (if x \<in> set xs then of_nat (first_index xs x) else - 1)"
  using find_loop [of L xs 0 x] by (simp add: PhFindItemList_def)

section \<open>Histories of a list\<close>

datatype 'a list_call = AddItem 'a | AddItems "'a list" ulong | InsertItems ulong "'a list" ulong
  | RemoveItems ulong ulong | ResizeList ulong | ClearList

definition to_option :: "'e + 'a \<Rightarrow> 'a option" where
  "to_option r = (case r of Inl e \<Rightarrow> None | Inr x \<Rightarrow> Some x)"

fun run_list_call :: "'a list_call \<Rightarrow> 'a ph_list \<Rightarrow> 'a ph_list option" where
  "run_list_call (AddItem x) L = PhAddItemList L x"
| "run_list_call (AddItems ys n) L = PhAddItemsList L ys n"
| "run_list_call (InsertItems i ys n) L = PhInsertItemsList L i ys n"
| "run_list_call (RemoveItems i n) L = PhRemoveItemsList L i n"
| "run_list_call (ResizeList n) L = to_option (PhResizeList L n)"
| "run_list_call ClearList L = Some (PhClearList L)"

fun run_list :: "'a list_call list \<Rightarrow> 'a ph_list \<Rightarrow> 'a ph_list option" where
  "run_list [] L = Some L"
| "run_list (c # cs) L = do { L \<leftarrow> run_list_call c L; run_list cs L }"

fun spec_list_call :: "'a list_call \<Rightarrow> 'a list \<Rightarrow> 'a list" where
  "spec_list_call (AddItem x) xs = xs @ [x]"
| "spec_list_call (AddItems ys n) xs = xs @ take (unat n) ys"
| "spec_list_call (InsertItems i ys n) xs = take (unat i) xs @ take (unat n) ys @ drop (unat i) xs"
| "spec_list_call (RemoveItems i n) xs = take (unat i) xs @ drop (unat i + unat n) xs"
| "spec_list_call (ResizeList n) xs = xs"
| "spec_list_call ClearList xs = []"

text \<open>What the callers owe: valid indices, enough items, a capacity that is not 0.\<close>

fun proper_list_call :: "'a list_call \<Rightarrow> 'a list \<Rightarrow> bool" where
  "proper_list_call (AddItem x) xs \<longleftrightarrow> length xs < 2 ^ 31"
| "proper_list_call (AddItems ys n) xs \<longleftrightarrow> length xs + unat n < 2 ^ 32 \<and> unat n \<le> length ys"
| "proper_list_call (InsertItems i ys n) xs \<longleftrightarrow>
     unat i \<le> length xs \<and> length xs + unat n < 2 ^ 32 \<and> unat n \<le> length ys"
| "proper_list_call (RemoveItems i n) xs \<longleftrightarrow> unat i + unat n \<le> length xs"
| "proper_list_call (ResizeList n) xs \<longleftrightarrow> length xs \<le> unat n \<and> 0 < unat n"
| "proper_list_call ClearList xs \<longleftrightarrow> True"

fun proper_list :: "'a list_call list \<Rightarrow> 'a list \<Rightarrow> bool" where
  "proper_list [] xs \<longleftrightarrow> True"
| "proper_list (c # cs) xs \<longleftrightarrow> proper_list_call c xs \<and> proper_list cs (spec_list_call c xs)"

lemma run_list_call_correct:
  assumes L: "list_holds L xs" and c: "proper_list_call c xs"
  obtains L' where "run_list_call c L = Some L'" "list_holds L' (spec_list_call c xs)"
proof (cases c)
  case (AddItem x)
  then show ?thesis using add_item_correct [OF L, of x] c that by auto
next
  case (AddItems ys n)
  then show ?thesis using add_items_correct [OF L, of n ys] c that by auto
next
  case (InsertItems i ys n)
  have "list_holds L (take (unat i) xs @ drop (unat i) xs)" using L by simp
  then show ?thesis
    using insert_items_correct [of L "take (unat i) xs" "drop (unat i) xs" i n ys] InsertItems c that
    by auto
next
  case (RemoveItems i n)
  have "list_holds L (take (unat i) xs @ take (unat n) (drop (unat i) xs) @ drop (unat i + unat n) xs)"
    using L by (metis add.commute append_take_drop_id drop_drop)
  then show ?thesis
    using remove_items_correct [of L "take (unat i) xs" "take (unat n) (drop (unat i) xs)"
        "drop (unat i + unat n) xs" i n] RemoveItems c that by auto
next
  case (ResizeList n)
  then have "ListCount L \<le> n" "0 < n"
    using L c by (auto simp: list_holds_def word_le_nat_alt word_less_nat_alt)
  then obtain L' where "PhResizeList L n = Inr L'" "list_holds L' xs"
    using resize_correct(2) [OF L] by blast
  then show ?thesis using ResizeList that [of L'] by (simp add: to_option_def)
next
  case ClearList
  then show ?thesis using clear_holds [OF L] that by simp
qed

lemma run_list_correct:
  "list_holds L xs \<Longrightarrow> proper_list cs xs \<Longrightarrow>
   \<exists>L'. run_list cs L = Some L' \<and> list_holds L' (foldl (\<lambda>xs c. spec_list_call c xs) xs cs)"
proof (induction cs arbitrary: L xs)
  case Nil
  then show ?case by simp
next
  case (Cons c cs)
  obtain L' where "run_list_call c L = Some L'" "list_holds L' (spec_list_call c xs)"
    using run_list_call_correct [OF Cons.prems(1)] Cons.prems(2) by auto
  then show ?case using Cons.IH [of L'] Cons.prems(2) by simp
qed

section \<open>Properties\<close>



text \<open>
  \<open>PhFindItemList\<close> returns the index of the first occurrence of the item, or \<open>-1\<close>.
\<close>

theorem PhFindItemList_correct:
  assumes "list_holds L xs"
  shows "PhFindItemList L x = Some (if x \<in> set xs then of_nat (first_index xs x) else - 1)"
  by (rule find_correct [OF assms])

theorem PhFindItemList_correct_witness:
  "PhFindItemList (PhClearList (PhCreateList 3)) (5 :: nat) = Some (- 1)
   \<and> PhFindItemList \<lparr>ListCount = 2, ListAllocatedCount = 3, ListItems = [Some 4, Some 5, None]\<rparr>
       (5 :: nat) = Some 1"
  using PhFindItemList_correct [OF clear_holds [OF create_holds], of 3 5]
    PhFindItemList_correct [of "\<lparr>ListCount = 2, ListAllocatedCount = 3,
      ListItems = [Some 4, Some (5 :: nat), None]\<rparr>" "[4, 5]" 5]
  by (simp add: list_holds_def list_wf_def starts_def first_index_def)

text \<open>
  \<open>PhResizeList\<close> accepts a capacity of 0 for an empty list, which \<open>PhCreateList\<close> does
  not; doubling it gives 0 again, so the next \<open>PhAddItemList\<close> writes outside of the block.
\<close>

theorem PhResizeList_zero:
  assumes "list_holds L []"
  shows "\<exists>L'. PhResizeList L 0 = Inr L' \<and> PhAddItemList L' x = None"
  using assms
  by (simp add: list_holds_def PhResizeList_def PhAddItemList_def write_cell_def unat_eq_0 Let_def)

theorem PhResizeList_zero_witness:
  "\<exists>L'. PhResizeList (PhCreateList 4) 0 = Inr L' \<and> PhAddItemList L' (1 :: nat) = None"
  by (rule PhResizeList_zero [OF create_holds])

end
