(* ===== verification/Arrays.thy ===== *)
theory Arrays
  imports Buffers
begin

text \<open>
  The growable array of items of any size, \<open>PH_ARRAY\<close> of \<open>phlib/basesup.c\<close>: a block of
  bytes, in which item \<open>i\<close> is the \<open>ItemSize\<close> bytes from offset \<open>i * ItemSize\<close>.  Counts and
  offsets are 64-bit words that wrap.
\<close>

section \<open>The code\<close>

record ph_array =
  ArrayCount :: ulong64
  ArrayAllocatedCount :: ulong64
  ArrayItemSize :: ulong64
  ArrayItems :: "uchar block"

text \<open>The offset of an item from \<open>Array->Items\<close>.\<close>

definition PhItemArray :: "ph_array \<Rightarrow> ulong64 \<Rightarrow> ulong64" where
  "PhItemArray Arr Index = Index * ArrayItemSize Arr"

definition PhInitializeArray :: "ulong64 \<Rightarrow> ulong64 \<Rightarrow> ph_array" where
  "PhInitializeArray ItemSize InitialCapacity =
     (let InitialCapacity = if InitialCapacity = 0 then 1 else InitialCapacity in
      \<lparr>ArrayCount = 0, ArrayAllocatedCount = InitialCapacity, ArrayItemSize = ItemSize,
       ArrayItems = alloc_block (unat (InitialCapacity * ItemSize))\<rparr>)"

definition PhFinalArrayItems :: "ph_array \<Rightarrow> uchar block" where
  "PhFinalArrayItems Arr = ArrayItems Arr"

text \<open>Setting the capacity and reallocating; and the check that raises.\<close>

definition realloc_array :: "ph_array \<Rightarrow> ulong64 \<Rightarrow> ph_array" where
  "realloc_array Arr n = Arr\<lparr>ArrayAllocatedCount := n,
     ArrayItems := realloc_block (unat (n * ArrayItemSize Arr)) (ArrayItems Arr)\<rparr>"

definition PhResizeArray :: "ph_array \<Rightarrow> ulong64 \<Rightarrow> ph_error + ph_array" where
  "PhResizeArray Arr NewCapacity =
     (if ArrayCount Arr > NewCapacity then Inl STATUS_INVALID_PARAMETER_2
      else Inr (realloc_array Arr NewCapacity))"

definition PhAddItemArray :: "ph_array \<Rightarrow> uchar list \<Rightarrow> ph_array option" where
  "PhAddItemArray Arr Item = (
     let Arr = (if ArrayCount Arr = ArrayAllocatedCount Arr
                then realloc_array Arr (ArrayAllocatedCount Arr * 2) else Arr)
     in do {
       bytes \<leftarrow> items_from Item (unat (ArrayItemSize Arr));
       items \<leftarrow> copy_in (unat (PhItemArray Arr (ArrayCount Arr))) bytes (ArrayItems Arr);
       Some (Arr\<lparr>ArrayCount := ArrayCount Arr + 1, ArrayItems := items\<rparr>)
     })"

definition grow_array :: "ph_array \<Rightarrow> ulong64 \<Rightarrow> ph_array" where
  "grow_array Arr n =
     (if ArrayAllocatedCount Arr < ArrayCount Arr + n then
        let a = ArrayAllocatedCount Arr * 2;
            a = if a < ArrayCount Arr + n then ArrayCount Arr + n else a in
        realloc_array Arr a
      else Arr)"

definition PhAddItemsArray :: "ph_array \<Rightarrow> uchar list \<Rightarrow> ulong64 \<Rightarrow> ph_array option" where
  "PhAddItemsArray Arr Items n = (
     let Arr = grow_array Arr n in do {
       bytes \<leftarrow> items_from Items (unat (n * ArrayItemSize Arr));
       items \<leftarrow> copy_in (unat (PhItemArray Arr (ArrayCount Arr))) bytes (ArrayItems Arr);
       Some (Arr\<lparr>ArrayCount := ArrayCount Arr + n, ArrayItems := items\<rparr>)
     })"

definition PhClearArray :: "ph_array \<Rightarrow> ph_array" where
  "PhClearArray Arr = Arr\<lparr>ArrayCount := 0\<rparr>"

definition PhRemoveItemsArray :: "ph_array \<Rightarrow> ulong64 \<Rightarrow> ulong64 \<Rightarrow> ph_array option" where
  "PhRemoveItemsArray Arr StartIndex n = do {
     items \<leftarrow> move_in (unat (PhItemArray Arr StartIndex)) (unat (PhItemArray Arr (StartIndex + n)))
       (unat ((ArrayCount Arr - StartIndex - n) * ArrayItemSize Arr)) (ArrayItems Arr);
     Some (Arr\<lparr>ArrayCount := ArrayCount Arr - n, ArrayItems := items\<rparr>)
   }"

definition PhRemoveItemArray :: "ph_array \<Rightarrow> ulong64 \<Rightarrow> ph_array option" where
  "PhRemoveItemArray Arr Index = PhRemoveItemsArray Arr Index 1"

section \<open>What an array object stands for\<close>

definition array_holds :: "ph_array \<Rightarrow> uchar list list \<Rightarrow> bool" where
  "array_holds A xss \<longleftrightarrow>
     length (ArrayItems A) = unat (ArrayAllocatedCount A) * unat (ArrayItemSize A)
   \<and> length (ArrayItems A) < 2 ^ 64 \<and> 0 < unat (ArrayAllocatedCount A)
   \<and> unat (ArrayCount A) = length xss \<and> length xss \<le> unat (ArrayAllocatedCount A)
   \<and> (\<forall>xs \<in> set xss. length xs = unat (ArrayItemSize A)) \<and> starts (ArrayItems A) (concat xss)"

lemma length_concat_const: "\<forall>xs \<in> set xss. length xs = n \<Longrightarrow> length (concat xss) = length xss * n"
  by (induction xss) auto

lemma init_array_holds:
  assumes "unat n * unat s < 2 ^ 64" "unat s < 2 ^ 64"
  shows "array_holds (PhInitializeArray s n) []"
  using assms
  by (auto simp: array_holds_def PhInitializeArray_def Let_def unat_mult_exact unat_gt_0)

lemma clear_array_holds: "array_holds A xss \<Longrightarrow> array_holds (PhClearArray A) []"
  by (simp add: array_holds_def PhClearArray_def)

lemma realloc_array_holds:
  assumes A: "array_holds A xss" and n: "length xss \<le> unat n" "0 < unat n"
    and fit: "unat n * unat (ArrayItemSize A) < 2 ^ 64"
  shows "array_holds (realloc_array A n) xss"
proof -
  have "length (concat xss) = length xss * unat (ArrayItemSize A)"
    using A by (intro length_concat_const) (simp add: array_holds_def)
  also have "\<dots> \<le> unat n * unat (ArrayItemSize A)" using n(1) by simp
  finally show ?thesis
    using A n fit by (simp add: array_holds_def realloc_array_def unat_mult_exact starts_realloc)
qed

lemma resize_array_correct:
  assumes "array_holds A xss"
  shows "n < ArrayCount A \<Longrightarrow> PhResizeArray A n = Inl STATUS_INVALID_PARAMETER_2"
    and "ArrayCount A \<le> n \<Longrightarrow> 0 < n \<Longrightarrow> unat n * unat (ArrayItemSize A) < 2 ^ 64 \<Longrightarrow>
      \<exists>A'. PhResizeArray A n = Inr A' \<and> array_holds A' xss \<and> ArrayAllocatedCount A' = n"
  using assms realloc_array_holds [OF assms, of n]
  by (auto simp: PhResizeArray_def word_le_nat_alt word_less_nat_alt array_holds_def realloc_array_def)

lemma append_items:
  assumes A: "array_holds A xss" and n: "unat n = length yss"
    and yss: "\<forall>ys \<in> set yss. length ys = unat (ArrayItemSize A)"
    and room: "length xss + length yss \<le> unat (ArrayAllocatedCount A)"
  shows "copy_in (unat (PhItemArray A (ArrayCount A))) (concat yss) (ArrayItems A)
      = Some (overwrite (length (concat xss)) (map Some (concat yss)) (ArrayItems A))"
    and "array_holds (A\<lparr>ArrayCount := ArrayCount A + n,
       ArrayItems := overwrite (length (concat xss)) (map Some (concat yss)) (ArrayItems A)\<rparr>)
       (xss @ yss)"
proof -
  let ?s = "unat (ArrayItemSize A)"
  have len: "length (concat xss) = length xss * ?s" "length (concat yss) = length yss * ?s"
    using A yss by (auto simp: array_holds_def intro!: length_concat_const)
  have "(length xss + length yss) * ?s \<le> unat (ArrayAllocatedCount A) * ?s" using room by simp
  then have fit: "length (concat xss) + length (concat yss) \<le> length (ArrayItems A)"
    using A len by (simp add: array_holds_def algebra_simps)
  then have off: "unat (PhItemArray A (ArrayCount A)) = length (concat xss)"
    using A len unat_mult_exact [of "ArrayCount A" "ArrayItemSize A"]
    by (simp add: array_holds_def PhItemArray_def)
  show "copy_in (unat (PhItemArray A (ArrayCount A))) (concat yss) (ArrayItems A)
      = Some (overwrite (length (concat xss)) (map Some (concat yss)) (ArrayItems A))"
    using off fit by (simp add: block_simps)
  have "length xss + length yss < 2 ^ 64"
    using room unsigned_less [of "ArrayAllocatedCount A", where ?'a = nat] by simp
  then have "unat (ArrayCount A + n) = length xss + length yss"
    using A n unat_add_exact [of "ArrayCount A" n] by (simp add: array_holds_def)
  then show "array_holds (A\<lparr>ArrayCount := ArrayCount A + n,
       ArrayItems := overwrite (length (concat xss)) (map Some (concat yss)) (ArrayItems A)\<rparr>)
       (xss @ yss)"
    using A yss room fit starts_append [of "ArrayItems A" "concat xss" "concat yss"]
    by (auto simp: array_holds_def)
qed

text \<open>
  Adding items succeeds as long as the doubled capacity does not overflow the address
  space; that is the bound \<open>fits\<close> states.
\<close>

definition fits :: "ph_array \<Rightarrow> nat \<Rightarrow> bool" where
  "fits A n \<longleftrightarrow> unat (ArrayAllocatedCount A) * 2 * unat (ArrayItemSize A) < 2 ^ 64
     \<and> unat (ArrayAllocatedCount A) * 2 < 2 ^ 64
     \<and> (unat (ArrayCount A) + n) * unat (ArrayItemSize A) < 2 ^ 64
     \<and> unat (ArrayCount A) + n < 2 ^ 64"

lemma double_array_holds:
  assumes A: "array_holds A xss" and fit: "fits A n"
  shows "array_holds (realloc_array A (ArrayAllocatedCount A * 2)) xss"
    "unat (ArrayAllocatedCount A * 2) = unat (ArrayAllocatedCount A) * 2"
proof -
  show d: "unat (ArrayAllocatedCount A * 2) = unat (ArrayAllocatedCount A) * 2"
    using fit unat_double [of "ArrayAllocatedCount A"] by (simp add: fits_def)
  show "array_holds (realloc_array A (ArrayAllocatedCount A * 2)) xss"
    using A fit d by (intro realloc_array_holds) (auto simp: array_holds_def fits_def)
qed

lemma add_item_array_correct:
  assumes A: "array_holds A xss" and x: "length x = unat (ArrayItemSize A)" and fit: "fits A 1"
  obtains A' where "PhAddItemArray A x = Some A'" "array_holds A' (xss @ [x])"
    "ArrayItemSize A' = ArrayItemSize A"
proof -
  let ?A = "if ArrayCount A = ArrayAllocatedCount A
    then realloc_array A (ArrayAllocatedCount A * 2) else A"
  have size: "ArrayItemSize ?A = ArrayItemSize A" by (simp add: realloc_array_def)
  have A': "array_holds ?A xss" using A double_array_holds [OF A fit] by simp
  have "length xss + 1 \<le> unat (ArrayAllocatedCount ?A)"
    using A double_array_holds(2) [OF A fit] word_unat_eq_iff [of "ArrayCount A" "ArrayAllocatedCount A"]
    by (auto simp: array_holds_def realloc_array_def)
  then have "length xss + length [x] \<le> unat (ArrayAllocatedCount ?A)" by simp
  moreover have "unat (1 :: ulong64) = length [x]" by simp
  moreover have "\<forall>y \<in> set [x]. length y = unat (ArrayItemSize ?A)" using x size by simp
  ultimately show ?thesis
    using that append_items [OF A', of 1 "[x]"] x size
    by (simp add: PhAddItemArray_def items_from_def Let_def)
qed

lemma add_items_array_correct:
  assumes A: "array_holds A xss" and n: "unat n = length yss"
    and yss: "\<forall>ys \<in> set yss. length ys = unat (ArrayItemSize A)" and fit: "fits A (length yss)"
  obtains A' where "PhAddItemsArray A (concat yss) n = Some A'" "array_holds A' (xss @ yss)"
    "ArrayItemSize A' = ArrayItemSize A"
proof -
  let ?A = "grow_array A n"
  have sum: "unat (ArrayCount A + n) = length xss + length yss"
    using A n fit unat_add_exact [of "ArrayCount A" n] by (simp add: array_holds_def fits_def)
  have size: "ArrayItemSize ?A = ArrayItemSize A"
    by (simp add: grow_array_def realloc_array_def Let_def)
  have "array_holds (realloc_array A (ArrayCount A + n)) xss"
    if "ArrayAllocatedCount A < ArrayCount A + n"
    using that A fit sum
    by (intro realloc_array_holds) (auto simp: array_holds_def fits_def word_less_nat_alt)
  then have A': "array_holds ?A xss"
    using A double_array_holds [OF A fit] by (simp add: grow_array_def Let_def)
  have room: "length xss + length yss \<le> unat (ArrayAllocatedCount ?A)"
    using sum by (auto simp: grow_array_def realloc_array_def word_less_nat_alt Let_def)
  have bytes: "unat (n * ArrayItemSize A) = length (concat yss)"
    using n fit length_concat_const [OF yss]
      unat_mult_le [of n "unat (ArrayCount A) + length yss" "ArrayItemSize A"]
    by (simp add: fits_def)
  have yss': "\<forall>ys \<in> set yss. length ys = unat (ArrayItemSize ?A)" using yss size by simp
  show ?thesis
    using that append_items [OF A' n yss' room] bytes size
    by (simp add: PhAddItemsArray_def items_from_def Let_def)
qed

lemma remove_items_array_correct:
  assumes A: "array_holds A (xss @ yss @ zss)" and i: "unat i = length xss" and n: "unat n = length yss"
  obtains A' where "PhRemoveItemsArray A i n = Some A'" "array_holds A' (xss @ zss)"
proof -
  let ?s = "unat (ArrayItemSize A)"
  have count: "unat (ArrayCount A) = length xss + length yss + length zss"
    and start: "starts (ArrayItems A) (concat xss @ concat yss @ concat zss)"
    and sizes: "\<forall>xs \<in> set xss. length xs = ?s" "\<forall>xs \<in> set yss. length xs = ?s"
      "\<forall>xs \<in> set zss. length xs = ?s"
    using A by (auto simp: array_holds_def)
  note len = sizes [THEN length_concat_const]
  have room: "length (concat xss) + length (concat yss) + length (concat zss) \<le> length (ArrayItems A)"
    using start by (simp add: starts_def)
  also have "\<dots> < 2 ^ 64" using A by (simp add: array_holds_def)
  finally have bound: "(length xss + length yss + length zss) * ?s < 2 ^ LENGTH(64)"
    using len by (simp add: distrib_right)
  have bound': "length xss + length yss + length zss < 2 ^ 64"
    using count unsigned_less [of "ArrayCount A", where ?'a = nat] by simp
  have dst: "unat (PhItemArray A i) = length (concat xss)"
    using i len unat_mult_le [OF _ bound, of i] by (simp add: PhItemArray_def)
  have "unat (i + n) = length xss + length yss"
    using i n bound' unat_add_exact [of i n] by simp
  then have src: "unat (PhItemArray A (i + n)) = length (concat xss) + length (concat yss)"
    using len unat_mult_le [OF _ bound, of "i + n"] by (simp add: PhItemArray_def distrib_right)
  have "unat (ArrayCount A - i) = length yss + length zss"
    using count i unat_minus_exact [of i "ArrayCount A"] by (simp add: word_le_nat_alt)
  then have "unat (ArrayCount A - i - n) = length zss"
    using n unat_minus_exact [of n "ArrayCount A - i"] by (simp add: word_le_nat_alt)
  then have rest: "unat ((ArrayCount A - i - n) * ArrayItemSize A) = length (concat zss)"
    using len unat_mult_le [OF _ bound, of "ArrayCount A - i - n"] by simp
  have new: "unat (ArrayCount A - n) = length xss + length zss"
    using count n unat_minus_exact [of n "ArrayCount A"] by (simp add: word_le_nat_alt)
  have "PhRemoveItemsArray A i n = Some (A\<lparr>ArrayCount := ArrayCount A - n,
     ArrayItems := overwrite (length (concat xss))
       (take (length (concat zss)) (drop (length (concat xss) + length (concat yss)) (ArrayItems A)))
       (ArrayItems A)\<rparr>)"
    using src dst rest room by (simp add: PhRemoveItemsArray_def block_simps)
  moreover have "array_holds (A\<lparr>ArrayCount := ArrayCount A - n,
     ArrayItems := overwrite (length (concat xss))
       (take (length (concat zss)) (drop (length (concat xss) + length (concat yss)) (ArrayItems A)))
       (ArrayItems A)\<rparr>) (xss @ zss)"
    using A starts_shift_down [OF start] new room by (auto simp: array_holds_def)
  ultimately show ?thesis by (rule that)
qed

section \<open>Properties\<close>

text \<open>
  Adding one item to a \<open>PH_ARRAY\<close> appends its bytes after those of the items there,
  doubling the block when it is full.
\<close>

theorem PhAddItemArray_correct:
  assumes "array_holds A xss" "length x = unat (ArrayItemSize A)" "fits A 1"
  shows "\<exists>A'. PhAddItemArray A x = Some A' \<and> array_holds A' (xss @ [x])"
  using add_item_array_correct [OF assms] by metis

theorem PhAddItemArray_correct_witness:
  "\<exists>A'. PhAddItemArray (PhInitializeArray 2 0) [1, 2] = Some A' \<and> array_holds A' [[1, 2]]"
  using PhAddItemArray_correct [OF init_array_holds, of 0 2 "[1, 2]"]
  by (simp add: PhInitializeArray_def Let_def fits_def)

text \<open>
  Adding several items to a \<open>PH_ARRAY\<close> appends them all, whatever the capacity was.
\<close>

theorem PhAddItemsArray_correct:
  assumes "array_holds A xss" "unat n = length yss"
    and "\<forall>ys \<in> set yss. length ys = unat (ArrayItemSize A)" "fits A (length yss)"
  shows "\<exists>A'. PhAddItemsArray A (concat yss) n = Some A' \<and> array_holds A' (xss @ yss)"
  using add_items_array_correct [OF assms] by metis

theorem PhAddItemsArray_correct_witness:
  "\<exists>A'. PhAddItemsArray (PhInitializeArray 2 0) [1, 2, 3, 4, 5, 6] 3 = Some A'
    \<and> array_holds A' [[1, 2], [3, 4], [5, 6]]"
  using PhAddItemsArray_correct [OF init_array_holds, of 0 2 3 "[[1, 2], [3, 4], [5, 6]]"]
  by (simp add: PhInitializeArray_def Let_def fits_def)

text \<open>
  C5.  Removing items from a \<open>PH_ARRAY\<close> takes out exactly those, at whole-item offsets.
\<close>

theorem PhRemoveItemsArray_correct:
  assumes "array_holds A (xss @ yss @ zss)" "unat i = length xss" "unat n = length yss"
  shows "\<exists>A'. PhRemoveItemsArray A i n = Some A' \<and> array_holds A' (xss @ zss)"
  using remove_items_array_correct [OF assms] by metis

definition sample_array :: ph_array where
  "sample_array = \<lparr>ArrayCount = 3, ArrayAllocatedCount = 4, ArrayItemSize = 2,
     ArrayItems = map Some [1, 2, 3, 4, 5, 6] @ [None, None]\<rparr>"

lemma sample_array_holds: "array_holds sample_array ([[1, 2]] @ [[3, 4]] @ [[5, 6]])"
  by (simp add: sample_array_def array_holds_def starts_def)

theorem PhRemoveItemsArray_correct_witness:
  "\<exists>A'. PhRemoveItemsArray sample_array 1 1 = Some A' \<and> array_holds A' [[1, 2], [5, 6]]"
  using PhRemoveItemsArray_correct [OF sample_array_holds, of 1 1] by simp

end
