(* ===== verification/HandleStore.thy ===== *)
theory HandleStore
  imports Prelude
begin

text \<open>
  The contract shared by the containers that hand out handles for pointers: adding gives
  a handle that was not in use, looking a handle up gives the pointer it was given for,
  removing frees it.  \<open>used s\<close> bounds how many entries were ever in use at once.
\<close>

fun add_all :: "('s \<Rightarrow> 'p \<Rightarrow> ('h \<times> 's) option) \<Rightarrow> 's \<Rightarrow> 'p list \<Rightarrow> ('h list \<times> 's) option" where
  "add_all add s [] = Some ([], s)"
| "add_all add s (p # ps) = do {
     (h, s) \<leftarrow> add s p;
     (hs, s) \<leftarrow> add_all add s ps;
     Some (h # hs, s)
   }"

fun rem_all :: "('s \<Rightarrow> 'h \<Rightarrow> 's option) \<Rightarrow> 's \<Rightarrow> 'h list \<Rightarrow> 's option" where
  "rem_all rem s [] = Some s"
| "rem_all rem s (h # hs) = do { s \<leftarrow> rem s h; rem_all rem s hs }"

locale handle_store =
  fixes inv :: "'s \<Rightarrow> bool" and view :: "'s \<Rightarrow> 'h \<Rightarrow> 'p option"
    and add :: "'s \<Rightarrow> 'p \<Rightarrow> ('h \<times> 's) option" and rem :: "'s \<Rightarrow> 'h \<Rightarrow> 's option"
    and proper :: "'p \<Rightarrow> bool" and used :: "'s \<Rightarrow> nat" and limit :: nat
  assumes add_law: "inv s \<Longrightarrow> proper p \<Longrightarrow> used s < limit \<Longrightarrow>
      \<exists>h s'. add s p = Some (h, s') \<and> inv s' \<and> view s h = None
        \<and> view s' = (view s)(h \<mapsto> p) \<and> used s' \<le> Suc (used s)"
    and rem_law: "inv s \<Longrightarrow> view s h = Some p \<Longrightarrow>
      \<exists>s'. rem s h = Some s' \<and> inv s' \<and> view s' = (view s)(h := None) \<and> used s' \<le> used s"
begin

lemma add_all_fresh:
  "inv s \<Longrightarrow> (\<forall>p \<in> set ps. proper p) \<Longrightarrow> used s + length ps \<le> limit \<Longrightarrow>
   \<exists>hs s'. add_all add s ps = Some (hs, s') \<and> inv s' \<and> length hs = length ps \<and> distinct hs
     \<and> (\<forall>h \<in> set hs. view s h = None) \<and> view s' = view s ++ map_of (zip hs ps)"
proof (induction ps arbitrary: s)
  case Nil
  then show ?case by simp
next
  case (Cons p ps)
  obtain h s1 where 1: "add s p = Some (h, s1)" "inv s1" "view s h = None"
    "view s1 = (view s)(h \<mapsto> p)" "used s1 \<le> Suc (used s)"
    using add_law [of s p] Cons.prems by auto
  have "\<forall>p \<in> set ps. proper p" "used s1 + length ps \<le> limit" using Cons.prems 1(5) by auto
  then obtain hs s2 where 2: "add_all add s1 ps = Some (hs, s2)" "inv s2" "length hs = length ps"
    "distinct hs" "\<forall>h \<in> set hs. view s1 h = None" "view s2 = view s1 ++ map_of (zip hs ps)"
    using Cons.IH [OF 1(2)] by blast
  have h: "h \<notin> set hs" "\<forall>h \<in> set hs. view s h = None" using 1(4) 2(5) by (auto split: if_splits)
  then have "map_of (zip hs ps) h = None" using 2(3) by (auto simp: map_of_eq_None_iff dest: set_zip_leftD)
  then have "view s2 = view s ++ map_of (zip (h # hs) (p # ps))"
    using 1(4) 2(6) by (auto simp: fun_eq_iff map_add_def split: option.split)
  then show ?case using 1 2 h by auto
qed

lemma rem_all_view:
  "inv s \<Longrightarrow> distinct hs \<Longrightarrow> (\<forall>h \<in> set hs. view s h \<noteq> None) \<Longrightarrow>
   \<exists>s'. rem_all rem s hs = Some s' \<and> inv s' \<and> view s' = (\<lambda>h. if h \<in> set hs then None else view s h)"
proof (induction hs arbitrary: s)
  case Nil
  then show ?case by simp
next
  case (Cons h hs)
  obtain s1 where 1: "rem s h = Some s1" "inv s1" "view s1 = (view s)(h := None)"
    using rem_law [of s h] Cons.prems by auto
  have "distinct hs" "\<forall>h \<in> set hs. view s1 h \<noteq> None" using 1(3) Cons.prems(2,3) by auto
  then obtain s2 where "rem_all rem s1 hs = Some s2" "inv s2"
    "view s2 = (\<lambda>h. if h \<in> set hs then None else view s1 h)"
    using Cons.IH [OF 1(2)] by blast
  then show ?case using 1 by (auto simp: fun_eq_iff)
qed

text \<open>Removing what was added leaves the store as it was.\<close>

lemma add_rem_all:
  assumes "inv s" "\<forall>p \<in> set ps. proper p" "used s + length ps \<le> limit"
  obtains hs s' s'' where "add_all add s ps = Some (hs, s')" "distinct hs" "length hs = length ps"
    "\<And>i. i < length ps \<Longrightarrow> view s' (hs ! i) = Some (ps ! i)"
    "rem_all rem s' hs = Some s''" "inv s''" "view s'' = view s"
proof -
  obtain hs s1 where 1: "add_all add s ps = Some (hs, s1)" "inv s1" "length hs = length ps" "distinct hs"
    "\<forall>h \<in> set hs. view s h = None" "view s1 = view s ++ map_of (zip hs ps)"
    using add_all_fresh [OF assms] by blast
  have look: "view s1 (hs ! i) = Some (ps ! i)" if "i < length ps" for i
    using that 1(3,4,6) by (simp add: map_of_zip_nth map_add_def)
  then have "\<forall>h \<in> set hs. view s1 h \<noteq> None"
    using 1(3) by (metis in_set_conv_nth option.distinct(1))
  then obtain s2 where 2: "rem_all rem s1 hs = Some s2" "inv s2"
    "view s2 = (\<lambda>h. if h \<in> set hs then None else view s1 h)"
    using rem_all_view [OF 1(2,4)] by blast
  have "view s2 = view s"
    using 2(3) 1(3,5,6) by (auto simp: fun_eq_iff map_add_def map_of_eq_None_iff split: option.split
        dest: map_of_SomeD in_set_zipE)
  then show ?thesis using that 1 2 look by blast
qed

end

end
