(* ===== verification/PointerLists.thy ===== *)
theory PointerLists
  imports Buffers HandleStore
begin

text \<open>
  The pointer list \<open>PH_POINTER_LIST\<close> of \<open>phlib/basesup.c\<close>: a growable array whose free
  entries are chained through the cells themselves.  A free cell holds the index of the
  next free one, shifted left with the lowest bit set; pointers are 2-byte aligned.
\<close>

unbundle bit_operations_syntax

section \<open>The code\<close>

type_synonym pvoid = "64 word"

record ph_pointer_list =
  PlCount :: ulong
  PlAllocatedCount :: ulong
  FreeEntry :: ulong
  NextEntry :: ulong
  PlItems :: "pvoid block"

definition ULONG_MAX :: ulong where "ULONG_MAX = 0xFFFFFFFF"

definition PH_IS_LIST_POINTER_VALID :: "pvoid \<Rightarrow> bool" where
  "PH_IS_LIST_POINTER_VALID Pointer \<longleftrightarrow> Pointer AND 1 = 0"

definition PhCreatePointerList :: "ulong \<Rightarrow> ph_pointer_list" where
  "PhCreatePointerList InitialCapacity =
     (let InitialCapacity = if InitialCapacity = 0 then 1 else InitialCapacity in
      \<lparr>PlCount = 0, PlAllocatedCount = InitialCapacity, FreeEntry = ULONG_MAX, NextEntry = 0,
       PlItems = alloc_block (unat InitialCapacity)\<rparr>)"

definition PhpDecodePointerListIndex :: "pvoid \<Rightarrow> ulong" where
  "PhpDecodePointerListIndex Index = ucast (signed_drop_bit 1 Index)"

definition PhpEncodePointerListIndex :: "ulong \<Rightarrow> pvoid" where
  "PhpEncodePointerListIndex Index = push_bit 1 (ucast Index) OR 1"

definition PhpPointerListIndexToHandle :: "ulong \<Rightarrow> pvoid" where
  "PhpPointerListIndexToHandle Index = ucast (Index + 1)"

definition PhpPointerListHandleToIndex :: "pvoid \<Rightarrow> ulong" where
  "PhpPointerListHandleToIndex Handle = ucast Handle - 1"

text \<open>The block doubles when the next entry is past its end.\<close>

definition grow_pointer_list :: "ph_pointer_list \<Rightarrow> ph_pointer_list" where
  "grow_pointer_list P =
     (if NextEntry P = PlAllocatedCount P then
        let n = PlAllocatedCount P * 2 in
        P\<lparr>PlAllocatedCount := n, PlItems := realloc_block (unat n) (PlItems P)\<rparr>
      else P)"

definition PhAddItemPointerList ::
  "ph_pointer_list \<Rightarrow> pvoid \<Rightarrow> (pvoid \<times> ph_pointer_list) option" where
  "PhAddItemPointerList P Pointer = do {
     (index, P) \<leftarrow>
       (if FreeEntry P \<noteq> ULONG_MAX then do {
          let index = FreeEntry P;
          oldPointer \<leftarrow> read_cell (PlItems P) (unat index);
          items \<leftarrow> write_cell (unat index) Pointer (PlItems P);
          Some (index, P\<lparr>PlItems := items, FreeEntry := PhpDecodePointerListIndex oldPointer\<rparr>)
        }
        else do {
          let P = grow_pointer_list P;
          let index = NextEntry P;
          items \<leftarrow> write_cell (unat index) Pointer (PlItems P);
          Some (index, P\<lparr>NextEntry := index + 1, PlItems := items\<rparr>)
        });
     Some (PhpPointerListIndexToHandle index, P\<lparr>PlCount := PlCount P + 1\<rparr>)
   }"

text \<open>
  \<open>PhEnumPointerListEx\<close>: the next pointer from \<open>EnumerationKey\<close> on with its handle, and
  the new key.  The outer \<open>None\<close> is a fault, the inner one the result \<open>FALSE\<close>.
\<close>

function PhEnumPointerListEx ::
  "ph_pointer_list \<Rightarrow> ulong \<Rightarrow> ((pvoid \<times> pvoid) option \<times> ulong) option" where
  "PhEnumPointerListEx P EnumerationKey =
     (if EnumerationKey < NextEntry P then do {
        let index = EnumerationKey;
        pointer \<leftarrow> read_cell (PlItems P) (unat index);
        if PH_IS_LIST_POINTER_VALID pointer
        then Some (Some (pointer, PhpPointerListIndexToHandle index), EnumerationKey + 1)
        else PhEnumPointerListEx P (EnumerationKey + 1)
      }
      else Some (None, EnumerationKey))"
  by auto
termination
  by (relation "measure (\<lambda>(P, i). unat (NextEntry P) - unat i)")
    (auto simp: unat_inc word_less_nat_alt)

function PhFindItemPointerList_loop :: "ph_pointer_list \<Rightarrow> pvoid \<Rightarrow> ulong \<Rightarrow> pvoid option" where
  "PhFindItemPointerList_loop P Pointer i =
     (if i < NextEntry P then do {
        p \<leftarrow> read_cell (PlItems P) (unat i);
        if p = Pointer then Some (PhpPointerListIndexToHandle i)
        else PhFindItemPointerList_loop P Pointer (i + 1)
      }
      else Some 0)"
  by auto
termination
  by (relation "measure (\<lambda>(P, p, i). unat (NextEntry P) - unat i)")
    (auto simp: unat_inc word_less_nat_alt)

definition PhFindItemPointerList :: "ph_pointer_list \<Rightarrow> pvoid \<Rightarrow> pvoid option" where
  "PhFindItemPointerList P Pointer = PhFindItemPointerList_loop P Pointer 0"

definition PhRemoveItemPointerList :: "ph_pointer_list \<Rightarrow> pvoid \<Rightarrow> ph_pointer_list option" where
  "PhRemoveItemPointerList P PointerHandle = do {
     let index = PhpPointerListHandleToIndex PointerHandle;
     items \<leftarrow> write_cell (unat index) (PhpEncodePointerListIndex (FreeEntry P)) (PlItems P);
     Some (P\<lparr>PlItems := items, FreeEntry := index, PlCount := PlCount P - 1\<rparr>)
   }"

declare PhEnumPointerListEx.simps [simp del] PhFindItemPointerList_loop.simps [simp del]

section \<open>Encoded indices\<close>

lemma encode_bit: "bit (PhpEncodePointerListIndex i) n \<longleftrightarrow> n = 0 \<or> 1 \<le> n \<and> bit i (n - 1)"
proof -
  have "bit (ucast i :: pvoid) m \<longleftrightarrow> bit i m" for m
    by (auto simp: bit_unsigned_iff dest: bit_imp_le_length)
  moreover have "bit i (n - 1) \<Longrightarrow> n < 64" by (drule bit_imp_le_length) simp
  ultimately show ?thesis
    unfolding PhpEncodePointerListIndex_def
    by (auto simp only: bit_or_iff bit_push_bit_iff bit_1_iff possible_bit_word) auto
qed

lemma PhpDecodeEncode: "PhpDecodePointerListIndex (PhpEncodePointerListIndex i) = i"
proof (rule bit_word_eqI)
  fix n assume "n < LENGTH(32)"
  then show "bit (PhpDecodePointerListIndex (PhpEncodePointerListIndex i)) n \<longleftrightarrow> bit i n"
    by (simp add: PhpDecodePointerListIndex_def bit_unsigned_iff bit_signed_drop_bit_iff encode_bit)
qed

lemma encoded_not_valid: "\<not> PH_IS_LIST_POINTER_VALID (PhpEncodePointerListIndex i)"
proof -
  have "bit (PhpEncodePointerListIndex i AND 1) 0"
    by (simp add: encode_bit bit_simps)
  then show ?thesis by (auto simp: PH_IS_LIST_POINTER_VALID_def)
qed

lemma ucast_up_down: "ucast (ucast (i :: ulong) :: ulong64) = i"
  by (rule bit_word_eqI) (auto simp: bit_simps)

lemma handle_index: "PhpPointerListHandleToIndex (PhpPointerListIndexToHandle i) = i"
  by (simp add: ucast_up_down PhpPointerListHandleToIndex_def PhpPointerListIndexToHandle_def)

section \<open>Well-formed pointer lists\<close>

text \<open>The chain of free cells from an index on.\<close>

fun free_chain :: "pvoid block \<Rightarrow> ulong \<Rightarrow> ulong list \<Rightarrow> bool" where
  "free_chain B e [] \<longleftrightarrow> e = ULONG_MAX"
| "free_chain B e (i # gs) \<longleftrightarrow> e = i \<and> i \<noteq> ULONG_MAX
     \<and> (\<exists>e'. read_cell B (unat i) = Some (PhpEncodePointerListIndex e') \<and> free_chain B e' gs)"

definition pl_wf :: "ph_pointer_list \<Rightarrow> ulong list \<Rightarrow> bool" where
  "pl_wf P fs \<longleftrightarrow>
     length (PlItems P) = unat (PlAllocatedCount P) \<and> 0 < unat (PlAllocatedCount P)
   \<and> NextEntry P \<le> PlAllocatedCount P \<and> free_chain (PlItems P) (FreeEntry P) fs \<and> distinct fs
   \<and> (\<forall>i \<in> set fs. i < NextEntry P) \<and> unat (PlCount P) + length fs = unat (NextEntry P)
   \<and> (\<forall>i. i < NextEntry P \<longrightarrow> i \<notin> set fs \<longrightarrow>
        (\<exists>p. read_cell (PlItems P) (unat i) = Some p \<and> PH_IS_LIST_POINTER_VALID p))"

definition pl_inv :: "ph_pointer_list \<Rightarrow> bool" where
  "pl_inv P \<longleftrightarrow> (\<exists>fs. pl_wf P fs)"

text \<open>The pointer behind an index, and behind a handle.\<close>

definition pl_at :: "ph_pointer_list \<Rightarrow> ulong \<Rightarrow> pvoid option" where
  "pl_at P i = (if i < NextEntry P then
     (case read_cell (PlItems P) (unat i) of None \<Rightarrow> None
      | Some p \<Rightarrow> if PH_IS_LIST_POINTER_VALID p then Some p else None) else None)"

definition pl_view :: "ph_pointer_list \<Rightarrow> pvoid \<Rightarrow> pvoid option" where
  "pl_view P h = (if h = PhpPointerListIndexToHandle (PhpPointerListHandleToIndex h)
     then pl_at P (PhpPointerListHandleToIndex h) else None)"

lemma read_write_cell:
  "write_cell i x B = Some B' \<Longrightarrow> read_cell B' j = (if j = i then Some x else read_cell B j)"
  by (auto simp: write_cell_def read_cell_def split: if_splits)

lemma length_write_cell: "write_cell i x B = Some B' \<Longrightarrow> length B' = length B"
  by (auto simp: write_cell_def split: if_splits)

lemma read_realloc:
  "i < length B \<Longrightarrow> length B \<le> n \<Longrightarrow> read_cell (realloc_block n B) i = read_cell B i"
  by (simp add: read_cell_def nth_realloc_block)

lemma unat_eq_simps: "unat (i :: ulong) = unat j \<longleftrightarrow> i = j"
  by (simp flip: word_unat_eq_iff)

lemma free_chain_cong:
  "(\<And>i. i \<in> set fs \<Longrightarrow> read_cell B' (unat i) = read_cell B (unat i)) \<Longrightarrow>
   free_chain B' e fs = free_chain B e fs"
  by (induction fs arbitrary: e) auto

lemma create_pl_wf: "pl_wf (PhCreatePointerList n) []"
  by (simp add: pl_wf_def PhCreatePointerList_def Let_def unat_gt_0)

lemma free_chain_cell:
  "free_chain B e fs \<Longrightarrow> i \<in> set fs \<Longrightarrow>
   \<exists>e'. read_cell B (unat i) = Some (PhpEncodePointerListIndex e')"
  by (induction fs arbitrary: e) auto

lemma pl_at_cases:
  assumes "pl_wf P fs" "i < NextEntry P"
  shows "i \<in> set fs \<and> pl_at P i = None
    \<or> i \<notin> set fs \<and> (\<exists>p. read_cell (PlItems P) (unat i) = Some p \<and> pl_at P i = Some p)"
proof -
  have "free_chain (PlItems P) (FreeEntry P) fs" using assms(1) by (simp add: pl_wf_def)
  then have "i \<in> set fs \<Longrightarrow> pl_at P i = None"
    using free_chain_cell [of "PlItems P" _ fs i] encoded_not_valid by (fastforce simp: pl_at_def)
  moreover have "i \<notin> set fs \<Longrightarrow> \<exists>p. read_cell (PlItems P) (unat i) = Some p \<and> pl_at P i = Some p"
    using assms by (force simp: pl_wf_def pl_at_def)
  ultimately show ?thesis by blast
qed

text \<open>A view changed at one index.\<close>

lemma pl_view_upd:
  assumes "\<And>j. pl_at P' j = (if j = i then x else pl_at P j)"
  shows "pl_view P' = (pl_view P)(PhpPointerListIndexToHandle i := x)"
  using assms by (auto simp: pl_view_def handle_index fun_eq_iff)

lemma pl_add_correct:
  assumes wf: "pl_wf P fs" and p: "PH_IS_LIST_POINTER_VALID p" and room: "unat (NextEntry P) < 2 ^ 31"
  obtains i P' fs' where "PhAddItemPointerList P p = Some (PhpPointerListIndexToHandle i, P')"
    "pl_wf P' fs'" "pl_at P i = None" "pl_view P' = (pl_view P)(PhpPointerListIndexToHandle i \<mapsto> p)"
    "unat (NextEntry P') \<le> Suc (unat (NextEntry P))" "PlCount P' = PlCount P + 1"
proof (cases fs)
  case (Cons i gs)
  have i: "FreeEntry P = i" "i \<noteq> ULONG_MAX" "i < NextEntry P" "i \<notin> set gs" "distinct gs"
    using wf Cons by (auto simp: pl_wf_def)
  obtain e where e: "read_cell (PlItems P) (unat i) = Some (PhpEncodePointerListIndex e)"
    "free_chain (PlItems P) e gs"
    using wf Cons by (auto simp: pl_wf_def)
  have "unat i < length (PlItems P)"
    using wf i(3) by (simp add: pl_wf_def word_less_nat_alt word_le_nat_alt)
  then obtain B where B: "write_cell (unat i) p (PlItems P) = Some B"
    by (simp add: write_cell_def)
  let ?P = "P\<lparr>PlItems := B, FreeEntry := e, PlCount := PlCount P + 1\<rparr>"
  have run: "PhAddItemPointerList P p = Some (PhpPointerListIndexToHandle i, ?P)"
    using i e B by (simp add: PhAddItemPointerList_def PhpDecodeEncode Let_def)
  have at: "pl_at ?P j = (if j = i then Some p else pl_at P j)" for j
    using p i(3) by (auto simp: pl_at_def read_write_cell [OF B] unat_eq_simps)
  have count: "unat (PlCount P + 1) = Suc (unat (PlCount P))"
    using wf room unat_add_exact [of "PlCount P" 1] by (simp add: pl_wf_def)
  have "free_chain B e gs"
    using e(2) i(4) by (subst free_chain_cong [of _ _ "PlItems P"])
      (auto simp: read_write_cell [OF B] unat_eq_simps)
  then have "pl_wf ?P gs"
    using wf Cons i p count length_write_cell [OF B]
    by (auto simp: pl_wf_def read_write_cell [OF B] unat_eq_simps)
  moreover have "pl_at P i = None" using pl_at_cases [OF wf i(3)] Cons by simp
  ultimately show ?thesis
    by (intro that [OF run _ _ pl_view_upd [OF at]]) simp_all
next
  case Nil
  let ?i = "NextEntry P"
  let ?Q = "grow_pointer_list P"
  have "unat (PlAllocatedCount P * 2) = unat ?i * 2" if "?i = PlAllocatedCount P"
    using room that unat_double [of "PlAllocatedCount P"] by simp
  then have Q: "length (PlItems ?Q) = unat (PlAllocatedCount ?Q)" "unat ?i < length (PlItems ?Q)"
    "\<And>j. j < ?i \<Longrightarrow> read_cell (PlItems ?Q) (unat j) = read_cell (PlItems P) (unat j)"
    using wf unat_eq_simps [of ?i "PlAllocatedCount P"]
    by (auto simp: grow_pointer_list_def pl_wf_def word_le_nat_alt word_less_nat_alt read_realloc Let_def)
  have keep: "NextEntry ?Q = ?i" "FreeEntry ?Q = FreeEntry P" "PlCount ?Q = PlCount P"
    by (simp_all add: grow_pointer_list_def Let_def)
  obtain B where B: "write_cell (unat ?i) p (PlItems ?Q) = Some B"
    using Q(2) by (simp add: write_cell_def)
  let ?P = "?Q\<lparr>NextEntry := ?i + 1, PlItems := B, PlCount := PlCount P + 1\<rparr>"
  have inc: "unat (?i + 1) = Suc (unat ?i)" "unat (PlCount P + 1) = Suc (unat (PlCount P))"
    using wf room unat_add_exact [of ?i 1] unat_add_exact [of "PlCount P" 1]
    by (simp_all add: pl_wf_def)
  then have less: "j < ?i + 1 \<longleftrightarrow> j = ?i \<or> j < ?i" for j
    using unat_eq_simps [of j ?i] by (auto simp: word_less_nat_alt)
  have free: "FreeEntry P = ULONG_MAX" using wf Nil by (simp add: pl_wf_def)
  have run: "PhAddItemPointerList P p = Some (PhpPointerListIndexToHandle ?i, ?P)"
    using free B keep by (simp add: PhAddItemPointerList_def Let_def)
  have at: "pl_at ?P j = (if j = ?i then Some p else pl_at P j)" for j
    using p Q(3) by (auto simp: pl_at_def less read_write_cell [OF B] unat_eq_simps)
  have "pl_wf ?P []"
    using wf Nil p inc Q keep length_write_cell [OF B]
    by (auto simp: pl_wf_def less read_write_cell [OF B] unat_eq_simps word_le_nat_alt)
  moreover have "pl_at P ?i = None" by (simp add: pl_at_def)
  ultimately show ?thesis
    using inc by (intro that [OF run _ _ pl_view_upd [OF at]]) simp_all
qed

lemma pl_remove_correct:
  assumes wf: "pl_wf P fs" and at: "pl_at P i = Some p"
  obtains P' where "PhRemoveItemPointerList P (PhpPointerListIndexToHandle i) = Some P'"
    "pl_wf P' (i # fs)" "pl_view P' = (pl_view P)(PhpPointerListIndexToHandle i := None)"
    "NextEntry P' = NextEntry P" "PlCount P' = PlCount P - 1"
proof -
  have i: "i < NextEntry P" "i \<notin> set fs"
    using at pl_at_cases [OF wf, of i] by (auto simp: pl_at_def split: if_splits)
  have "unat i < length (PlItems P)"
    using wf i(1) by (simp add: pl_wf_def word_less_nat_alt word_le_nat_alt)
  then obtain B where B: "write_cell (unat i) (PhpEncodePointerListIndex (FreeEntry P)) (PlItems P) = Some B"
    by (simp add: write_cell_def)
  let ?P = "P\<lparr>PlItems := B, FreeEntry := i, PlCount := PlCount P - 1\<rparr>"
  have run: "PhRemoveItemPointerList P (PhpPointerListIndexToHandle i) = Some ?P"
    using B by (simp add: PhRemoveItemPointerList_def handle_index Let_def)
  have at': "pl_at ?P j = (if j = i then None else pl_at P j)" for j
    using i(1) by (auto simp: pl_at_def read_write_cell [OF B] unat_eq_simps encoded_not_valid)
  have "set fs \<subset> {j. j < NextEntry P}" using wf i by (auto simp: pl_wf_def)
  then have "card (set fs) < card {j. j < NextEntry P}" by (intro psubset_card_mono) auto
  moreover note card_words_below [of "NextEntry P"]
  moreover have "card (set fs) = length fs" using wf by (simp add: pl_wf_def distinct_card)
  ultimately have "0 < unat (PlCount P)" using wf by (simp add: pl_wf_def)
  then have count: "unat (PlCount P - 1) = unat (PlCount P) - 1" "0 < unat (PlCount P)"
    by (auto simp: unat_minus_one unat_gt_0)
  have "i \<noteq> ULONG_MAX" 
    using i(1) unsigned_less [of "NextEntry P", where ?'a = nat]
    by (auto simp: ULONG_MAX_def word_less_nat_alt)
  moreover have "free_chain B (FreeEntry P) fs"
    using wf i(2) by (subst free_chain_cong [of _ _ "PlItems P"])
      (auto simp: read_write_cell [OF B] unat_eq_simps pl_wf_def)
  ultimately have "pl_wf ?P (i # fs)"
    using wf i count length_write_cell [OF B]
    by (auto simp: pl_wf_def read_write_cell [OF B] unat_eq_simps)
  then show ?thesis
    by (intro that [OF run _ pl_view_upd [OF at']]) simp_all
qed

section \<open>Finding and enumerating\<close>

text \<open>The pointers with their handles from an index on, in the order of the indices.\<close>

definition pl_entries :: "ph_pointer_list \<Rightarrow> ulong \<Rightarrow> (pvoid \<times> pvoid) list" where
  "pl_entries P k = List.map_filter (\<lambda>n. case pl_at P (of_nat n) of None \<Rightarrow> None
     | Some p \<Rightarrow> Some (p, PhpPointerListIndexToHandle (of_nat n))) [unat k..<unat (NextEntry P)]"

lemma pl_entries_step:
  "k < NextEntry P \<Longrightarrow> pl_entries P k = (case pl_at P k of None \<Rightarrow> pl_entries P (k + 1)
     | Some p \<Rightarrow> (p, PhpPointerListIndexToHandle k) # pl_entries P (k + 1))"
  by (simp add: pl_entries_def unat_inc word_less_nat_alt upt_conv_Cons List.map_filter_simps
      split: option.split)

lemma pl_entries_end: "\<not> k < NextEntry P \<Longrightarrow> pl_entries P k = []"
  by (simp add: pl_entries_def word_less_nat_alt List.map_filter_simps)

lemma enum_step_correct:
  "pl_wf P fs \<Longrightarrow> \<exists>k'. PhEnumPointerListEx P k =
     Some (case pl_entries P k of [] \<Rightarrow> None | e # es \<Rightarrow> Some e, k')
   \<and> pl_entries P k' = tl (pl_entries P k)"
proof (induction P k rule: PhEnumPointerListEx.induct)
  case (1 P k)
  show ?case
  proof (cases "k < NextEntry P")
    case True
    note run = PhEnumPointerListEx.simps [of P k]
    have wf: "pl_wf P fs" by (rule 1(2))
    obtain p where p: "read_cell (PlItems P) (unat k) = Some p"
      using wf True free_chain_cell [of "PlItems P" "FreeEntry P" fs k] by (auto simp: pl_wf_def)
    then have at: "pl_at P k = (if PH_IS_LIST_POINTER_VALID p then Some p else None)"
      using True by (simp add: pl_at_def)
    show ?thesis
    proof (cases "PH_IS_LIST_POINTER_VALID p")
      case valid: True
      then show ?thesis using run True p at by (simp add: pl_entries_step)
    next
      case False
      then show ?thesis
        using run True p at 1(1) [OF True refl p False wf] by (simp add: pl_entries_step)
    qed
  next
    case False
    then show ?thesis by (simp add: PhEnumPointerListEx.simps [of P k] pl_entries_end)
  qed
qed

lemma find_pl_loop:
  "pl_wf P fs \<Longrightarrow> PH_IS_LIST_POINTER_VALID p \<Longrightarrow> PhFindItemPointerList_loop P p k =
     Some (case List.find (\<lambda>e. fst e = p) (pl_entries P k) of None \<Rightarrow> 0 | Some e \<Rightarrow> snd e)"
proof (induction P p k rule: PhFindItemPointerList_loop.induct)
  case (1 P p k)
  show ?case
  proof (cases "k < NextEntry P")
    case True
    note run = PhFindItemPointerList_loop.simps [of P p k]
    note wf = 1(2) and valid = 1(3)
    obtain q where q: "read_cell (PlItems P) (unat k) = Some q"
      using wf True free_chain_cell [of "PlItems P" "FreeEntry P" fs k] by (auto simp: pl_wf_def)
    then have at: "pl_at P k = (if PH_IS_LIST_POINTER_VALID q then Some q else None)"
      using True by (simp add: pl_at_def)
    show ?thesis
    proof (cases "q = p")
      case eq: True
      then show ?thesis using run True q at valid by (simp add: pl_entries_step)
    next
      case False
      then show ?thesis
        using run True q at 1(1) [OF True q False wf valid] by (simp add: pl_entries_step)
    qed
  next
    case False
    then show ?thesis by (simp add: PhFindItemPointerList_loop.simps [of P p k] pl_entries_end)
  qed
qed

lemma pl_entries_view:
  "(p, h) \<in> set (pl_entries P 0) \<longleftrightarrow> pl_view P h = Some p"
proof
  show "(p, h) \<in> set (pl_entries P 0) \<Longrightarrow> pl_view P h = Some p"
    by (auto simp: pl_entries_def List.map_filter_def pl_view_def handle_index split: option.splits)
next
  assume v: "pl_view P h = Some p"
  let ?i = "PhpPointerListHandleToIndex h"
  have i: "pl_at P ?i = Some p" "h = PhpPointerListIndexToHandle ?i"
    using v by (auto simp: pl_view_def split: if_splits)
  then have "unat ?i < unat (NextEntry P)"
    by (auto simp: pl_at_def word_less_nat_alt split: if_splits)
  moreover have "of_nat (unat ?i) = ?i" by simp
  ultimately show "(p, h) \<in> set (pl_entries P 0)"
    using i unfolding pl_entries_def List.map_filter_def
    by (auto simp: image_iff intro!: bexI [of _ "unat ?i"])
qed

lemma find_pl_correct:
  assumes "pl_wf P fs" "PH_IS_LIST_POINTER_VALID p"
  shows "\<exists>h. PhFindItemPointerList P p = Some h
    \<and> (if p \<in> ran (pl_view P) then pl_view P h = Some p else h = 0)"
proof (cases "List.find (\<lambda>e. fst e = p) (pl_entries P 0)")
  case None
  then have "p \<notin> ran (pl_view P)"
    by (auto simp: find_None_iff ran_def pl_entries_view [symmetric])
  then show ?thesis using find_pl_loop [OF assms] None by (simp add: PhFindItemPointerList_def)
next
  case (Some e)
  then have "e \<in> set (pl_entries P 0)" "fst e = p" by (auto simp: find_Some_iff)
  then have "pl_view P (snd e) = Some p" by (metis pl_entries_view prod.collapse)
  then show ?thesis
    using find_pl_loop [OF assms] Some by (auto simp: PhFindItemPointerList_def ranI)
qed

section \<open>The pointer list is a handle store\<close>

lemma pl_view_handle: "pl_view P h = Some p \<Longrightarrow> \<exists>i. h = PhpPointerListIndexToHandle i \<and> pl_at P i = Some p"
  by (auto simp: pl_view_def split: if_splits)

interpretation pl: handle_store pl_inv pl_view PhAddItemPointerList PhRemoveItemPointerList
  PH_IS_LIST_POINTER_VALID "\<lambda>P. unat (NextEntry P)" "2 ^ 31"
proof unfold_locales
  fix P p
  assume "pl_inv P" "PH_IS_LIST_POINTER_VALID p" "unat (NextEntry P) < 2 ^ 31"
  then obtain i P' fs' where "PhAddItemPointerList P p = Some (PhpPointerListIndexToHandle i, P')"
    "pl_wf P' fs'" "pl_at P i = None" "pl_view P' = (pl_view P)(PhpPointerListIndexToHandle i \<mapsto> p)"
    "unat (NextEntry P') \<le> Suc (unat (NextEntry P))"
    unfolding pl_inv_def using pl_add_correct by metis
  then show "\<exists>h P'. PhAddItemPointerList P p = Some (h, P') \<and> pl_inv P' \<and> pl_view P h = None
      \<and> pl_view P' = (pl_view P)(h \<mapsto> p) \<and> unat (NextEntry P') \<le> Suc (unat (NextEntry P))"
    by (auto simp: pl_inv_def pl_view_def handle_index)
next
  fix P h p
  assume "pl_inv P" "pl_view P h = Some p"
  then obtain fs i where "pl_wf P fs" "pl_at P i = Some p" "h = PhpPointerListIndexToHandle i"
    unfolding pl_inv_def using pl_view_handle by blast
  then show "\<exists>P'. PhRemoveItemPointerList P h = Some P' \<and> pl_inv P'
      \<and> pl_view P' = (pl_view P)(h := None) \<and> unat (NextEntry P') \<le> unat (NextEntry P)"
    unfolding pl_inv_def using pl_remove_correct by (metis order_refl)
qed

section \<open>A concrete pointer list\<close>

text \<open>Three entries, of which the one in the middle is free.\<close>

definition sample_pl :: ph_pointer_list where
  "sample_pl = \<lparr>PlCount = 2, PlAllocatedCount = 4, FreeEntry = 1, NextEntry = 3,
     PlItems = [Some 8, Some 0x1FFFFFFFF, Some 24, None]\<rparr>"

lemma sample_pl_inv: "pl_inv sample_pl"
proof -
  have below: "i < 3 \<longleftrightarrow> i = 0 \<or> i = 1 \<or> i = 2" for i :: ulong
  proof -
    have "i < 3 \<longleftrightarrow> unat i = 0 \<or> unat i = 1 \<or> unat i = 2" by (auto simp: word_less_nat_alt)
    then show ?thesis by (simp add: word_unat_eq_iff)
  qed
  have "PhpEncodePointerListIndex ULONG_MAX = 0x1FFFFFFFF" by code_simp
  then have "pl_wf sample_pl [1]"
    by (auto simp: pl_wf_def sample_pl_def below read_cell_def PH_IS_LIST_POINTER_VALID_def
        ULONG_MAX_def)
  then show ?thesis unfolding pl_inv_def by blast
qed

section \<open>Properties\<close>



text \<open>
  \<open>PhFindItemPointerList\<close> returns a handle of the pointer, or null when the list does
  not hold it; chained free entries are never taken for pointers.
\<close>

theorem PhFindItemPointerList_correct:
  assumes "pl_inv P" "PH_IS_LIST_POINTER_VALID p"
  shows "\<exists>h. PhFindItemPointerList P p = Some h
    \<and> (if p \<in> ran (pl_view P) then pl_view P h = Some p else h = 0)"
  using assms find_pl_correct unfolding pl_inv_def by blast

theorem PhFindItemPointerList_correct_witness:
  "\<exists>h. PhFindItemPointerList sample_pl 24 = Some h
    \<and> (if 24 \<in> ran (pl_view sample_pl) then pl_view sample_pl h = Some 24 else h = 0)"
  by (rule PhFindItemPointerList_correct [OF sample_pl_inv])
    (simp add: PH_IS_LIST_POINTER_VALID_def)

text \<open>
  \<open>PhEnumPointerListEx\<close>, called again with the key it leaves, gives every pointer of
  the list with its handle, once, and then \<open>FALSE\<close>.
\<close>

theorem PhEnumPointerListEx_correct:
  assumes "pl_inv P"
  shows "\<exists>k'. PhEnumPointerListEx P k =
     Some (case pl_entries P k of [] \<Rightarrow> None | e # es \<Rightarrow> Some e, k')
   \<and> pl_entries P k' = tl (pl_entries P k)
   \<and> set (pl_entries P 0) = {(p, h). pl_view P h = Some p}"
proof -
  have "set (pl_entries P 0) = {(p, h). pl_view P h = Some p}"
    using pl_entries_view [of _ _ P] by auto
  then show ?thesis using assms enum_step_correct unfolding pl_inv_def by blast
qed

theorem PhEnumPointerListEx_correct_witness:
  "\<exists>k'. PhEnumPointerListEx sample_pl 0 = Some (Some (8, 1), k')"
proof -
  have "pl_entries sample_pl 0 = (8, 1) # pl_entries sample_pl 1"
    by (simp add: pl_entries_step sample_pl_def pl_at_def read_cell_def
        PH_IS_LIST_POINTER_VALID_def PhpPointerListIndexToHandle_def)
  then show ?thesis using PhEnumPointerListEx_correct [OF sample_pl_inv, of 0] by auto
qed

end
