(* ===== verification/Numbers.thy ===== *)
theory Numbers
  imports Prelude
begin

text \<open>
  The number routines of \<open>phlib/basesup.c\<close> and \<open>phbasesup.h\<close>: rounding up to a power of
  two, exponentiation by squaring, and the integer and byte hashes.
\<close>

unbundle bit_operations_syntax

section \<open>Rounding up to a power of two\<close>

definition PhRoundUpToPowerOfTwo :: "ulong \<Rightarrow> ulong" where
  "PhRoundUpToPowerOfTwo Number = (
     let Number = Number - 1;
         Number = Number OR drop_bit 1 Number;
         Number = Number OR drop_bit 2 Number;
         Number = Number OR drop_bit 4 Number;
         Number = Number OR drop_bit 8 Number;
         Number = Number OR drop_bit 16 Number
     in Number + 1)"

text \<open>Each step doubles how far a bit has spread to the right.\<close>

definition spread :: "nat \<Rightarrow> ulong \<Rightarrow> ulong \<Rightarrow> bool" where
  "spread n x y \<longleftrightarrow> (\<forall>i. bit y i \<longleftrightarrow> (\<exists>d<n. bit x (i + d)))"

lemma spread_refl: "spread 1 x x"
  by (simp add: spread_def)

lemma spread_step: "spread n x y \<Longrightarrow> spread (n + n) x (y OR drop_bit n y)"
proof -
  assume y: "spread n x y"
  have "(\<exists>d<n + n. P d) \<longleftrightarrow> (\<exists>d<n. P d) \<or> (\<exists>d<n. P (n + d))" for P :: "nat \<Rightarrow> bool"
  proof
    assume "\<exists>d<n + n. P d"
    then obtain d where "d < n + n" "P d" by blast
    then show "(\<exists>d<n. P d) \<or> (\<exists>d<n. P (n + d))"
      by (cases "d < n") (auto intro: exI [of _ "d - n"])
  next
    assume "(\<exists>d<n. P d) \<or> (\<exists>d<n. P (n + d))"
    then show "\<exists>d<n + n. P d" by (meson nat_add_left_cancel_less trans_less_add1)
  qed
  then show ?thesis
    using y by (auto simp: spread_def bit_or_iff bit_drop_bit_eq add.assoc add.left_commute)
qed

lemma spread_32:
  "spread 32 x (let x = x OR drop_bit 1 x; x = x OR drop_bit 2 x; x = x OR drop_bit 4 x;
     x = x OR drop_bit 8 x; x = x OR drop_bit 16 x in x)"
  using spread_refl [of x, THEN spread_step, simplified one_add_one, THEN spread_step,
      simplified, THEN spread_step, simplified, THEN spread_step, simplified,
      THEN spread_step, simplified]
  by (simp add: Let_def)

lemma bit_unat: "bit (x :: 'a::len word) j \<longleftrightarrow> odd (unat x div 2 ^ j)"
proof -
  have "bit (unat x) j \<longleftrightarrow> bit x j" by (auto simp: bit_unsigned_iff dest: bit_imp_le_length)
  then show ?thesis unfolding bit_nat_def by simp
qed

lemma unat_2_power: "k < LENGTH('a) \<Longrightarrow> unat (2 ^ k :: 'a::len word) = 2 ^ k"
proof -
  assume "k < LENGTH('a)"
  then have "(2 :: nat) ^ k < 2 ^ LENGTH('a)" by simp
  then have "unat (of_nat (2 ^ k) :: 'a word) = 2 ^ k"
    by (simp only: unat_of_nat mod_less)
  then show ?thesis by simp
qed

lemma spread_mask:
  assumes x: "unat x < 2 ^ Suc t" "2 ^ t \<le> unat x" "spread 32 x y"
  shows "y = mask (Suc t)"
proof (rule bit_word_eqI)
  fix i assume i: "i < LENGTH(32)"
  have small: "j \<le> t" if "bit x j" for j
  proof (rule ccontr)
    assume "\<not> j \<le> t"
    then have "(2 :: nat) ^ Suc t \<le> 2 ^ j" by (intro power_increasing) auto
    then have "unat x div 2 ^ j = 0" using x(1) by simp
    then show False using that by (simp add: bit_unat)
  qed
  have "unat x div 2 ^ t = 1"
    using x(1,2) by (intro div_nat_eqI) auto
  then have top: "bit x t" by (simp add: bit_unat)
  then have t: "t < 32" using bit_imp_le_length by fastforce
  show "bit y i \<longleftrightarrow> bit (mask (Suc t) :: ulong) i"
  proof (cases "i \<le> t")
    case True
    then have "t - i < 32" "bit x (i + (t - i))" using top t by auto
    then have "bit y i" using x(3) unfolding spread_def by blast
    then show ?thesis using True i by (simp add: bit_mask_iff)
  next
    case False
    then have "\<not> bit x (i + d)" for d using small [of "i + d"] by auto
    then have "\<not> bit y i" using x(3) unfolding spread_def by blast
    then show ?thesis using False by (simp add: bit_mask_iff)
  qed
qed

lemma nat_between_powers: "0 < n \<Longrightarrow> \<exists>t. 2 ^ t \<le> n \<and> n < (2 :: nat) ^ Suc t"
  unfolding Suc_eq_plus1 by (rule ex_power_ivl1) auto

lemma round_up_correct:
  assumes "0 < unat n" "unat n \<le> 2 ^ 31"
  obtains k where "k \<le> 31" "unat (PhRoundUpToPowerOfTwo n) = 2 ^ k" "unat n \<le> 2 ^ k" "2 ^ k < 2 * unat n"
proof -
  let ?x = "n - 1"
  have x: "unat ?x = unat n - 1" using assms(1) by (simp add: unat_minus_one unat_gt_0)
  obtain y where y: "spread 32 ?x y" "PhRoundUpToPowerOfTwo n = y + 1"
    using spread_32 [of ?x] by (simp add: PhRoundUpToPowerOfTwo_def Let_def)
  show ?thesis
  proof (cases "unat n = 1")
    case True
    then have "?x = 0" using x by (simp add: unat_eq_0)
    then have "y = 0" using y(1) by (intro bit_word_eqI) (simp add: spread_def)
    then show ?thesis using that [of 0] y(2) True by simp
  next
    case False
    then obtain t where t: "2 ^ t \<le> unat ?x" "unat ?x < 2 ^ Suc t"
      using nat_between_powers [of "unat ?x"] x assms(1) by auto
    have "(2 :: nat) ^ t < 2 ^ 31" using t(1) x assms by simp
    then have t31: "t < 31" by (simp only: power_strict_increasing_iff)
    have "y = mask (Suc t)" by (rule spread_mask [OF t(2,1) y(1)])
    then have "PhRoundUpToPowerOfTwo n = 2 ^ Suc t" using y(2) by (simp add: mask_eq_exp_minus_1)
    moreover have "unat (2 ^ Suc t :: ulong) = 2 ^ Suc t" using t31 by (intro unat_2_power) simp
    ultimately show ?thesis using that [of "Suc t"] t t31 x assms by auto
  qed
qed

text \<open>Above \<open>2 ^ 31\<close> there is no power of two left: the result wraps to 0.\<close>

lemma round_up_wraps:
  assumes "2 ^ 31 < unat n"
  shows "PhRoundUpToPowerOfTwo n = 0"
proof -
  let ?x = "n - 1"
  have "n \<noteq> 0" using assms by auto
  then have x: "unat ?x = unat n - 1" by (rule unat_minus_one)
  obtain y where y: "spread 32 ?x y" "PhRoundUpToPowerOfTwo n = y + 1"
    using spread_32 [of ?x] by (simp add: PhRoundUpToPowerOfTwo_def Let_def)
  have "unat ?x < 2 ^ Suc 31" using unsigned_less [of ?x, where ?'a = nat] by simp
  moreover have "2 ^ 31 \<le> unat ?x" using assms x by simp
  ultimately have "y = mask (Suc 31)" using y(1) by (rule spread_mask)
  then show ?thesis using y(2) by (simp add: mask_eq_exp_minus_1)
qed

section \<open>Exponentiation\<close>

lemma unat_drop_bit_1: "unat (drop_bit 1 (e :: ulong)) = unat e div 2"
proof -
  have "drop_bit 1 e = e div 2" by (simp add: drop_bit_eq_div)
  then show ?thesis by (simp add: unat_div)
qed

lemmas unat_halves = unat_drop_bit_1 unat_drop_bit_1 [unfolded One_nat_def]

function PhExponentiate_loop :: "'a::len word \<Rightarrow> ulong \<Rightarrow> 'a word \<Rightarrow> 'a word" where
  "PhExponentiate_loop Base Exponent result =
     (if Exponent \<noteq> 0 then
        let result = (if Exponent AND 1 \<noteq> 0 then result * Base else result) in
        PhExponentiate_loop (Base * Base) (drop_bit 1 Exponent) result
      else result)"
  by auto
termination
  by (relation "measure (\<lambda>(b, e, r). unat e)") (auto simp: unat_halves unat_gt_0)

declare PhExponentiate_loop.simps [simp del]

definition PhExponentiate :: "ulong \<Rightarrow> ulong \<Rightarrow> ulong" where
  "PhExponentiate Base Exponent = PhExponentiate_loop Base Exponent 1"

definition PhExponentiate64 :: "ulong64 \<Rightarrow> ulong \<Rightarrow> ulong64" where
  "PhExponentiate64 Base Exponent = PhExponentiate_loop Base Exponent 1"

lemma exponentiate_loop: "PhExponentiate_loop b e r = r * b ^ unat e"
proof (induction b e r rule: PhExponentiate_loop.induct)
  case (1 b e r)
  show ?case
  proof (cases "e = 0")
    case True
    then show ?thesis by (subst PhExponentiate_loop.simps) simp
  next
    case False
    have odd: "e AND 1 \<noteq> 0 \<longleftrightarrow> odd (unat e)"
      using bit_unat [of e 0] by (simp add: bit_0 and_one_eq flip: even_iff_mod_2_eq_zero)
    have half: "(b * b) ^ (unat e div 2) = b ^ (2 * (unat e div 2))"
      by (simp add: power_mult power2_eq_square)
    show ?thesis
    proof (cases "odd (unat e)")
      case o: True
      then have "unat e = Suc (2 * (unat e div 2))" by presburger
      then have "b ^ unat e = b * b ^ (2 * (unat e div 2))" by (metis power_Suc)
      then show ?thesis
        using False odd o half 1 [OF False refl]
        by (simp add: PhExponentiate_loop.simps [of b e] unat_halves mult.assoc)
    next
      case ev: False
      then have "unat e = 2 * (unat e div 2)" by presburger
      then have "b ^ unat e = (b * b) ^ (unat e div 2)" using half by metis
      then show ?thesis
        using False odd ev 1 [OF False refl]
        by (simp add: PhExponentiate_loop.simps [of b e] unat_halves)
    qed
  qed
qed

section \<open>Hashes\<close>

definition PhHashInt32 :: "ulong \<Rightarrow> ulong" where
  "PhHashInt32 Value = (
     let Value = Value XOR (drop_bit 20 Value XOR drop_bit 12 Value)
     in Value XOR drop_bit 7 Value XOR drop_bit 4 Value)"

definition PhHashInt64 :: "ulong64 \<Rightarrow> ulong" where
  "PhHashInt64 Value = (
     let Value = NOT Value + push_bit 18 Value;
         Value = Value XOR drop_bit 31 Value;
         Value = Value * 21;
         Value = Value XOR drop_bit 11 Value;
         Value = Value + push_bit 6 Value;
         Value = Value XOR drop_bit 22 Value
     in ucast Value)"

text \<open>On a 64-bit system.\<close>

definition PhHashIntPtr :: "ulong64 \<Rightarrow> ulong" where
  "PhHashIntPtr Value = PhHashInt64 Value"

fun PhHashBytes_loop :: "ulong \<Rightarrow> uchar list \<Rightarrow> ulong" where
  "PhHashBytes_loop hash [] = hash"
| "PhHashBytes_loop hash (b # bs) = PhHashBytes_loop ((hash XOR ucast b) * 0x01000193) bs"

definition PhHashBytes :: "uchar list \<Rightarrow> ulong" where
  "PhHashBytes Bytes = PhHashBytes_loop 0 Bytes"

section \<open>The properties\<close>

lemma round_up_zero: "PhRoundUpToPowerOfTwo 0 = 0"
  by (simp add: PhRoundUpToPowerOfTwo_def Let_def)

lemma unat_power: "unat (b ^ k :: 'a::len word) = unat b ^ k mod 2 ^ LENGTH('a)"
  by (induction k) (simp_all add: unat_word_ariths mod_mult_right_eq)

text \<open>
  For a number from 1 to \<open>2 ^ 31\<close> the bit-spreading routine gives the smallest power
  of two that is not below it (it is less than twice the number); above \<open>2 ^ 31\<close>, where no 32-bit power of two is left, it
  wraps to 0, and so it does at 0.
\<close>

theorem PhRoundUpToPowerOfTwo_correct:
  "(unat n = 0 \<or> 2 ^ 31 < unat n) \<and> PhRoundUpToPowerOfTwo n = 0
   \<or> (\<exists>k. k \<le> 31 \<and> unat (PhRoundUpToPowerOfTwo n) = 2 ^ k \<and> unat n \<le> 2 ^ k \<and> 2 ^ k < 2 * unat n)"
proof (cases "unat n = 0 \<or> 2 ^ 31 < unat n")
  case True
  then show ?thesis using round_up_zero round_up_wraps by (auto simp: unat_eq_0)
next
  case False
  then show ?thesis using round_up_correct [of n] by auto
qed

text \<open>
  C9.  Exponentiation by squaring gives the power modulo the width of the result, at 32 and
  at 64 bits: nothing is lost but the carry out of the top.
\<close>

theorem PhExponentiate_correct:
  "unat (PhExponentiate b e) = unat b ^ unat e mod 2 ^ 32
   \<and> unat (PhExponentiate64 c e) = unat c ^ unat e mod 2 ^ 64"
  by (simp add: PhExponentiate_def PhExponentiate64_def exponentiate_loop unat_power)

end
