(* ===== verification/Hashtables.thy ===== *)
theory Hashtables
  imports Buffers Numbers
begin

text \<open>
  The hashtable \<open>PH_HASHTABLE\<close> of \<open>phlib/basesup.c\<close>, in the configuration of
  \<open>phbasesup.h\<close>: bucket counts are powers of two and hash codes have 31 bits.  Entries
  live in one array; buckets, and the list of free entries, are chains of indices
  through the \<open>Next\<close> fields.
\<close>

section \<open>Data\<close>

record 'e hash_entry =
  HashCode :: ulong
  Next :: ulong
  Body :: 'e

record 'e ph_hashtable =
  EqualFunction :: "'e \<Rightarrow> 'e \<Rightarrow> bool"
  HashFunction :: "'e \<Rightarrow> ulong"
  AllocatedBuckets :: ulong
  Buckets :: "ulong block"
  AllocatedEntries :: ulong
  Entries :: "'e hash_entry block"
  HtCount :: ulong
  HtFreeEntry :: ulong
  HtNextEntry :: ulong

definition NO_ENTRY :: ulong where "NO_ENTRY = 0xFFFFFFFF"

definition PH_HASHTABLE_GET_ENTRY :: "'e ph_hashtable \<Rightarrow> ulong \<Rightarrow> 'e hash_entry option" where
  "PH_HASHTABLE_GET_ENTRY H i = read_cell (Entries H) (unat i)"

definition get_bucket :: "'e ph_hashtable \<Rightarrow> ulong \<Rightarrow> ulong option" where
  "get_bucket H i = read_cell (Buckets H) (unat i)"

definition set_bucket :: "ulong \<Rightarrow> ulong \<Rightarrow> 'e ph_hashtable \<Rightarrow> 'e ph_hashtable option" where
  "set_bucket i v H = map_option (\<lambda>B. H\<lparr>Buckets := B\<rparr>) (write_cell (unat i) v (Buckets H))"

definition set_entry :: "ulong \<Rightarrow> 'e hash_entry \<Rightarrow> 'e ph_hashtable \<Rightarrow> 'e ph_hashtable option" where
  "set_entry i e H = map_option (\<lambda>B. H\<lparr>Entries := B\<rparr>) (write_cell (unat i) e (Entries H))"

section \<open>Hash codes and buckets\<close>

definition MAXLONG :: ulong where "MAXLONG = 0x7FFFFFFF"

definition PhpValidateHash :: "ulong \<Rightarrow> ulong" where
  "PhpValidateHash Hash = Hash AND MAXLONG"

definition PhpIndexFromHash :: "'e ph_hashtable \<Rightarrow> ulong \<Rightarrow> ulong" where
  "PhpIndexFromHash H Hash = Hash AND (AllocatedBuckets H - 1)"

definition PhpGetNumberOfBuckets :: "ulong \<Rightarrow> ulong" where
  "PhpGetNumberOfBuckets Capacity = PhRoundUpToPowerOfTwo Capacity"

text \<open>A block whose cells are all set to \<open>-1\<close>.\<close>

definition minus_one_block :: "ulong \<Rightarrow> ulong block" where
  "minus_one_block n = replicate (unat n) (Some NO_ENTRY)"

definition PhCreateHashtable ::
  "('e \<Rightarrow> 'e \<Rightarrow> bool) \<Rightarrow> ('e \<Rightarrow> ulong) \<Rightarrow> ulong \<Rightarrow> 'e ph_hashtable" where
  "PhCreateHashtable eq hash InitialCapacity =
     (let InitialCapacity = if InitialCapacity = 0 then 1 else InitialCapacity;
          n = PhpGetNumberOfBuckets InitialCapacity in
      \<lparr>EqualFunction = eq, HashFunction = hash, AllocatedBuckets = n, Buckets = minus_one_block n,
       AllocatedEntries = n, Entries = alloc_block (unat n), HtCount = 0,
       HtFreeEntry = NO_ENTRY, HtNextEntry = 0\<rparr>)"

section \<open>Resizing\<close>

text \<open>
  The loop that distributes the entries \<open>i\<close> to \<open>n - 1\<close> among the new buckets; its body
  does not change the bound \<open>NextEntry\<close>, handed in as \<open>n\<close>.
\<close>

definition PhpResizeHashtable_step :: "ulong \<Rightarrow> 'e ph_hashtable \<Rightarrow> 'e ph_hashtable option" where
  "PhpResizeHashtable_step i H = do {
     entry \<leftarrow> PH_HASHTABLE_GET_ENTRY H i;
     if HashCode entry \<noteq> NO_ENTRY then do {
       let index = PhpIndexFromHash H (HashCode entry);
       b \<leftarrow> get_bucket H index;
       H \<leftarrow> set_entry i (entry\<lparr>Next := b\<rparr>) H;
       set_bucket index i H
     }
     else Some H
   }"

function PhpResizeHashtable_loop ::
  "ulong \<Rightarrow> ulong \<Rightarrow> 'e ph_hashtable \<Rightarrow> 'e ph_hashtable option" where
  "PhpResizeHashtable_loop n i H =
     (if i < n then do {
        H \<leftarrow> PhpResizeHashtable_step i H;
        PhpResizeHashtable_loop n (i + 1) H
      }
      else Some H)"
  by auto
termination
  by (relation "measure (\<lambda>(n, i, H). unat n - unat i)") (auto simp: unat_inc word_less_nat_alt)

declare PhpResizeHashtable_loop.simps [simp del]

definition PhpResizeHashtable :: "ulong \<Rightarrow> 'e ph_hashtable \<Rightarrow> 'e ph_hashtable option" where
  "PhpResizeHashtable NewCapacity H =
     (let n = PhpGetNumberOfBuckets NewCapacity in
      PhpResizeHashtable_loop (HtNextEntry H) 0 (H\<lparr>AllocatedBuckets := n,
        Buckets := minus_one_block n, AllocatedEntries := n,
        Entries := realloc_block (unat n) (Entries H)\<rparr>))"

section \<open>Adding, finding and removing\<close>

text \<open>Following a bucket; the result is the index of the entry, \<open>None\<close> for none.\<close>

partial_function (option) PhpFindEntry_loop ::
  "'e ph_hashtable \<Rightarrow> ulong \<Rightarrow> 'e \<Rightarrow> ulong \<Rightarrow> ulong option option" where
  "PhpFindEntry_loop H hashCode Entry i =
     (if i \<noteq> NO_ENTRY then do {
        entry \<leftarrow> PH_HASHTABLE_GET_ENTRY H i;
        if HashCode entry = hashCode \<and> EqualFunction H (Body entry) Entry then Some (Some i)
        else PhpFindEntry_loop H hashCode Entry (Next entry)
      }
      else Some None)"

text \<open>
  A pointer to the body of an entry is its index.  The result of adding is that pointer,
  whether the entry was added, and the hashtable.
\<close>

definition PhpTakeEntry_Hashtable ::
  "'e ph_hashtable \<Rightarrow> ulong \<Rightarrow> ulong \<Rightarrow> (ulong \<times> ulong \<times> 'e ph_hashtable) option" where
  "PhpTakeEntry_Hashtable H hashCode index =
     (if HtFreeEntry H \<noteq> NO_ENTRY then do {
        let freeEntry = HtFreeEntry H;
        entry \<leftarrow> PH_HASHTABLE_GET_ENTRY H freeEntry;
        Some (freeEntry, index, H\<lparr>HtFreeEntry := Next entry\<rparr>)
      }
      else do {
        (index, H) \<leftarrow>
          (if HtNextEntry H = AllocatedEntries H then do {
             H \<leftarrow> PhpResizeHashtable (AllocatedBuckets H * 2) H;
             Some (PhpIndexFromHash H hashCode, H)
           }
           else Some (index, H));
        Some (HtNextEntry H, index, H\<lparr>HtNextEntry := HtNextEntry H + 1\<rparr>)
      })"

definition PhpAddEntryHashtable ::
  "'e ph_hashtable \<Rightarrow> 'e \<Rightarrow> bool \<Rightarrow> (ulong \<times> bool \<times> 'e ph_hashtable) option" where
  "PhpAddEntryHashtable H Entry CheckForDuplicate = do {
     let hashCode = PhpValidateHash (HashFunction H Entry);
     let index = PhpIndexFromHash H hashCode;
     found \<leftarrow>
       (if CheckForDuplicate then do {
          i \<leftarrow> get_bucket H index;
          PhpFindEntry_loop H hashCode Entry i
        }
        else Some None);
     case found of Some i \<Rightarrow> Some (i, False, H)
     | None \<Rightarrow> do {
         (freeEntry, index, H) \<leftarrow> PhpTakeEntry_Hashtable H hashCode index;
         b \<leftarrow> get_bucket H index;
         H \<leftarrow> set_entry freeEntry \<lparr>HashCode = hashCode, Next = b, Body = Entry\<rparr> H;
         H \<leftarrow> set_bucket index freeEntry H;
         Some (freeEntry, True, H\<lparr>HtCount := HtCount H + 1\<rparr>)
       }
   }"

definition PhAddEntryHashtable :: "'e ph_hashtable \<Rightarrow> 'e \<Rightarrow> (ulong option \<times> 'e ph_hashtable) option" where
  "PhAddEntryHashtable H Entry = do {
     (entry, added, H) \<leftarrow> PhpAddEntryHashtable H Entry True;
     Some (if added then Some entry else None, H)
   }"

definition PhAddEntryHashtableEx :: "'e ph_hashtable \<Rightarrow> 'e \<Rightarrow> (ulong \<times> bool \<times> 'e ph_hashtable) option" where
  "PhAddEntryHashtableEx H Entry = PhpAddEntryHashtable H Entry True"

definition PhClearHashtable :: "'e ph_hashtable \<Rightarrow> 'e ph_hashtable" where
  "PhClearHashtable H =
     (if HtCount H > 0 then
        H\<lparr>Buckets := minus_one_block (AllocatedBuckets H), HtCount := 0,
          HtFreeEntry := NO_ENTRY, HtNextEntry := 0\<rparr>
      else H)"

function PhEnumHashtable :: "'e ph_hashtable \<Rightarrow> ulong \<Rightarrow> (ulong option \<times> ulong) option" where
  "PhEnumHashtable H EnumerationKey =
     (if EnumerationKey < HtNextEntry H then do {
        entry \<leftarrow> PH_HASHTABLE_GET_ENTRY H EnumerationKey;
        if HashCode entry \<noteq> NO_ENTRY then Some (Some EnumerationKey, EnumerationKey + 1)
        else PhEnumHashtable H (EnumerationKey + 1)
      }
      else Some (None, EnumerationKey))"
  by auto
termination
  by (relation "measure (\<lambda>(H, i). unat (HtNextEntry H) - unat i)")
    (auto simp: unat_inc word_less_nat_alt)

declare PhEnumHashtable.simps [simp del]

definition PhFindEntryHashtable :: "'e ph_hashtable \<Rightarrow> 'e \<Rightarrow> ulong option option" where
  "PhFindEntryHashtable H Entry = do {
     let hashCode = PhpValidateHash (HashFunction H Entry);
     i \<leftarrow> get_bucket H (PhpIndexFromHash H hashCode);
     PhpFindEntry_loop H hashCode Entry i
   }"

text \<open>Unlinking the entry \<open>i\<close> from its bucket and putting it on the free list.\<close>

definition PhRemoveEntry_unlink ::
  "'e ph_hashtable \<Rightarrow> ulong \<Rightarrow> ulong \<Rightarrow> ulong \<Rightarrow> 'e hash_entry \<Rightarrow> 'e ph_hashtable option" where
  "PhRemoveEntry_unlink H index previousIndex i entry = do {
     H \<leftarrow>
       (if previousIndex = NO_ENTRY then set_bucket index (Next entry) H
        else do {
          previous \<leftarrow> PH_HASHTABLE_GET_ENTRY H previousIndex;
          set_entry previousIndex (previous\<lparr>Next := Next entry\<rparr>) H
        });
     H \<leftarrow> set_entry i (entry\<lparr>HashCode := NO_ENTRY, Next := HtFreeEntry H\<rparr>) H;
     Some (H\<lparr>HtFreeEntry := i, HtCount := HtCount H - 1\<rparr>)
   }"

partial_function (option) PhRemoveEntry_loop ::
  "'e ph_hashtable \<Rightarrow> ulong \<Rightarrow> ulong \<Rightarrow> 'e \<Rightarrow> ulong \<Rightarrow> ulong \<Rightarrow> (bool \<times> 'e ph_hashtable) option" where
  "PhRemoveEntry_loop H index hashCode Entry previousIndex i =
     (if i \<noteq> NO_ENTRY then do {
        entry \<leftarrow> PH_HASHTABLE_GET_ENTRY H i;
        if HashCode entry = hashCode \<and> EqualFunction H (Body entry) Entry then do {
          H \<leftarrow> PhRemoveEntry_unlink H index previousIndex i entry;
          Some (True, H)
        }
        else PhRemoveEntry_loop H index hashCode Entry i (Next entry)
      }
      else Some (False, H))"

definition PhRemoveEntryHashtable :: "'e ph_hashtable \<Rightarrow> 'e \<Rightarrow> (bool \<times> 'e ph_hashtable) option" where
  "PhRemoveEntryHashtable H Entry = do {
     let hashCode = PhpValidateHash (HashFunction H Entry);
     let index = PhpIndexFromHash H hashCode;
     i \<leftarrow> get_bucket H index;
     PhRemoveEntry_loop H index hashCode Entry NO_ENTRY i
   }"

end
