(* ===== verification/HashWf.thy ===== *)
theory HashWf
  imports Hashtables
begin

text \<open>
  Well-formed hashtables: the buckets partition the used entries by hash code, the free
  list holds the others, and every chain ends.  \<open>X\<close> is the entry taken off the free list
  or off the end of the array and not yet linked, while an addition is under way.
\<close>

section \<open>Chains\<close>

abbreviation entry_at :: "'e ph_hashtable \<Rightarrow> ulong \<Rightarrow> 'e hash_entry option" where
  "entry_at \<equiv> PH_HASHTABLE_GET_ENTRY"

definition nxt :: "'e ph_hashtable \<Rightarrow> ulong \<Rightarrow> ulong option" where
  "nxt H i = map_option Next (entry_at H i)"

fun chain :: "(ulong \<Rightarrow> ulong option) \<Rightarrow> ulong \<Rightarrow> ulong list \<Rightarrow> bool" where
  "chain n e [] \<longleftrightarrow> e = NO_ENTRY"
| "chain n e (i # is) \<longleftrightarrow> e = i \<and> i \<noteq> NO_ENTRY \<and> (\<exists>e'. n i = Some e' \<and> chain n e' is)"

lemma chain_cong: "(\<And>i. i \<in> set js \<Longrightarrow> n' i = n i) \<Longrightarrow> chain n' e js \<longleftrightarrow> chain n e js"
  by (induction js arbitrary: e) auto


lemma chain_upd [simp]: "j \<notin> set js \<Longrightarrow> chain (n(j := v)) e js \<longleftrightarrow> chain n e js"
  by (rule chain_cong) auto

text \<open>Taking one index out of the middle of a chain.\<close>

lemma chain_unlink:
  "chain n e (as @ j # bs) \<Longrightarrow> n j = Some m \<Longrightarrow> distinct (as @ j # bs) \<Longrightarrow> as \<noteq> [] \<Longrightarrow>
   chain (n(last as \<mapsto> m)) e (as @ bs)"
proof (induction as arbitrary: e)
  case Nil
  then show ?case by simp
next
  case (Cons a as)
  have "\<exists>e'. n a = Some e' \<and> chain n e' (as @ j # bs)" "a = e" "a \<noteq> NO_ENTRY"
    using Cons.prems(1) by simp_all
  then obtain e' where e': "n a = Some e'" "chain n e' (as @ j # bs)" "a = e" "a \<noteq> NO_ENTRY"
    by blast
  show ?case
  proof (cases "as = []")
    case True
    then have "chain n m bs" "a \<notin> set bs" using e'(2) Cons.prems(2,3) by simp_all
    then show ?thesis using True e'(3,4) by (simp del: fun_upd_apply add: fun_upd_same)
  next
    case False
    then have "chain (n(last as \<mapsto> m)) e' (as @ bs)"
      using Cons.IH [OF e'(2) Cons.prems(2)] Cons.prems(3) by (simp del: fun_upd_apply)
    moreover have "last as \<noteq> a" using False Cons.prems(3) by auto
    ultimately show ?thesis
      using False e' by (simp del: fun_upd_apply add: fun_upd_same fun_upd_other)
  qed
qed

section \<open>Well-formedness\<close>

definition code_at :: "'e ph_hashtable \<Rightarrow> ulong \<Rightarrow> ulong option" where
  "code_at H i = (if i < HtNextEntry H then map_option HashCode (entry_at H i) else None)"

text \<open>The body of a used entry.\<close>

definition ht_at :: "'e ph_hashtable \<Rightarrow> ulong \<Rightarrow> 'e option" where
  "ht_at H i = (if i < HtNextEntry H then
     (case entry_at H i of None \<Rightarrow> None
      | Some e \<Rightarrow> if HashCode e \<noteq> NO_ENTRY then Some (Body e) else None) else None)"

definition ht_sizes :: "'e ph_hashtable \<Rightarrow> bool" where
  "ht_sizes H \<longleftrightarrow> (\<exists>k \<le> 31. unat (AllocatedBuckets H) = 2 ^ k)
   \<and> length (Buckets H) = unat (AllocatedBuckets H) \<and> AllocatedEntries H = AllocatedBuckets H
   \<and> length (Entries H) = unat (AllocatedEntries H) \<and> HtNextEntry H \<le> AllocatedEntries H"

definition ht_coded :: "'e ph_hashtable \<Rightarrow> ulong set \<Rightarrow> bool" where
  "ht_coded H X \<longleftrightarrow> (\<forall>i. i < HtNextEntry H \<longrightarrow> i \<notin> X \<longrightarrow> (\<exists>e. entry_at H i = Some e
     \<and> (HashCode e = NO_ENTRY \<or> HashCode e = PhpValidateHash (HashFunction H (Body e)))))"

definition in_bucket :: "'e ph_hashtable \<Rightarrow> ulong \<Rightarrow> ulong \<Rightarrow> bool" where
  "in_bucket H b i \<longleftrightarrow> (\<exists>h. code_at H i = Some h \<and> h \<noteq> NO_ENTRY \<and> PhpIndexFromHash H h = b)"

definition ht_buckets :: "'e ph_hashtable \<Rightarrow> ulong set \<Rightarrow> (ulong \<Rightarrow> ulong list) \<Rightarrow> bool" where
  "ht_buckets H X ch \<longleftrightarrow> (\<forall>b < AllocatedBuckets H. \<exists>e. get_bucket H b = Some e
     \<and> chain (nxt H) e (ch b) \<and> distinct (ch b) \<and> set (ch b) = {i. i \<notin> X \<and> in_bucket H b i})"

definition ht_free :: "'e ph_hashtable \<Rightarrow> ulong set \<Rightarrow> ulong list \<Rightarrow> bool" where
  "ht_free H X fs \<longleftrightarrow> chain (nxt H) (HtFreeEntry H) fs \<and> distinct fs
     \<and> set fs = {i. i \<notin> X \<and> code_at H i = Some NO_ENTRY}"

definition ht_wf :: "'e ph_hashtable \<Rightarrow> ulong set \<Rightarrow> (ulong \<Rightarrow> ulong list) \<Rightarrow> ulong list \<Rightarrow> bool" where
  "ht_wf H X ch fs \<longleftrightarrow> ht_sizes H \<and> ht_coded H X \<and> ht_buckets H X ch \<and> ht_free H X fs
     \<and> X \<subseteq> {i. i < HtNextEntry H} \<and> unat (HtCount H) + length fs + card X = unat (HtNextEntry H)"

lemmas ht_defs = ht_wf_def ht_sizes_def ht_coded_def ht_buckets_def ht_free_def

lemma word_and_le: "(a :: 'a::len word) AND b \<le> b"
  by (simp add: word_le_def uint_and AND_upper2)

lemma index_less: "ht_sizes H \<Longrightarrow> PhpIndexFromHash H h < AllocatedBuckets H"
proof -
  assume "ht_sizes H"
  then have "AllocatedBuckets H \<noteq> 0" by (auto simp: ht_sizes_def)
  then have "AllocatedBuckets H - 1 < AllocatedBuckets H"
    by (simp add: word_less_nat_alt unat_minus_one unat_gt_0)
  then show ?thesis
    unfolding PhpIndexFromHash_def using word_and_le [of h] by (meson order_le_less_trans)
qed

lemma sizes_bound: "ht_sizes H \<Longrightarrow> i < HtNextEntry H \<Longrightarrow>
    unat i < length (Entries H) \<and> unat i < 2 ^ 31 \<and> i \<noteq> NO_ENTRY"
proof -
  assume H: "ht_sizes H" and i: "i < HtNextEntry H"
  obtain k where k: "k \<le> 31" "unat (AllocatedBuckets H) = 2 ^ k"
    using H by (auto simp: ht_sizes_def)
  have "(2 :: nat) ^ k \<le> 2 ^ 31" using k(1) by (intro power_increasing) auto
  moreover have "unat i < unat (AllocatedBuckets H)"
    using H i by (auto simp: ht_sizes_def word_less_nat_alt word_le_nat_alt)
  ultimately have "unat i < 2 ^ 31" using k by simp
  moreover have "i \<noteq> NO_ENTRY" using calculation by (auto simp: NO_ENTRY_def)
  moreover have "unat i < length (Entries H)"
    using H \<open>unat i < unat (AllocatedBuckets H)\<close> by (simp add: ht_sizes_def)
  ultimately show ?thesis by blast
qed

lemma valid_hash: "PhpValidateHash h \<noteq> NO_ENTRY"
proof
  assume "PhpValidateHash h = NO_ENTRY"
  then have "NO_ENTRY \<le> MAXLONG" using word_and_le [of h MAXLONG] by (simp add: PhpValidateHash_def)
  then show False by (simp add: NO_ENTRY_def MAXLONG_def)
qed

text \<open>Fields an observation does not look at.\<close>

lemma entry_at_frame [simp]:
  "entry_at (H\<lparr>HtCount := v\<rparr>) = entry_at H" "entry_at (H\<lparr>HtFreeEntry := v\<rparr>) = entry_at H"
  "entry_at (H\<lparr>HtNextEntry := v\<rparr>) = entry_at H"
  by (simp_all add: fun_eq_iff PH_HASHTABLE_GET_ENTRY_def)

lemma get_bucket_frame [simp]:
  "get_bucket (H\<lparr>HtCount := v\<rparr>) = get_bucket H" "get_bucket (H\<lparr>HtFreeEntry := v\<rparr>) = get_bucket H"
  "get_bucket (H\<lparr>HtNextEntry := v\<rparr>) = get_bucket H"
  by (simp_all add: fun_eq_iff get_bucket_def)

lemma index_frame [simp]:
  "PhpIndexFromHash (H\<lparr>HtCount := v\<rparr>) = PhpIndexFromHash H"
  "PhpIndexFromHash (H\<lparr>HtFreeEntry := v\<rparr>) = PhpIndexFromHash H"
  "PhpIndexFromHash (H\<lparr>HtNextEntry := v\<rparr>) = PhpIndexFromHash H"
  by (simp_all add: fun_eq_iff PhpIndexFromHash_def)

lemma nxt_frame [simp]:
  "nxt (H\<lparr>HtCount := v\<rparr>) = nxt H" "nxt (H\<lparr>HtFreeEntry := v\<rparr>) = nxt H"
  "nxt (H\<lparr>HtNextEntry := v\<rparr>) = nxt H"
  by (simp_all add: fun_eq_iff nxt_def)

lemma used_frame [simp]:
  "code_at (H\<lparr>HtCount := v\<rparr>) = code_at H" "code_at (H\<lparr>HtFreeEntry := v\<rparr>) = code_at H"
  "ht_at (H\<lparr>HtCount := v\<rparr>) = ht_at H" "ht_at (H\<lparr>HtFreeEntry := v\<rparr>) = ht_at H"
  "in_bucket (H\<lparr>HtCount := v\<rparr>) = in_bucket H" "in_bucket (H\<lparr>HtFreeEntry := v\<rparr>) = in_bucket H"
  by (simp_all add: fun_eq_iff code_at_def ht_at_def in_bucket_def)

text \<open>The entries, when only buckets change, and the buckets, when only entries change.\<close>

lemma bucket_frame:
  "entry_at (H\<lparr>Buckets := C\<rparr>) = entry_at H" "nxt (H\<lparr>Buckets := C\<rparr>) = nxt H"
  "code_at (H\<lparr>Buckets := C\<rparr>) = code_at H"
  by (simp_all add: fun_eq_iff PH_HASHTABLE_GET_ENTRY_def nxt_def code_at_def)

lemma entry_frame: "get_bucket (H\<lparr>Entries := B\<rparr>) = get_bucket H"
  by (simp add: fun_eq_iff get_bucket_def)

text \<open>Writing cells.\<close>

lemma set_entry_correct:
  "unat i < length (Entries H) \<Longrightarrow> \<exists>B. set_entry i e H = Some (H\<lparr>Entries := B\<rparr>)
     \<and> length B = length (Entries H)
     \<and> (\<forall>j. entry_at (H\<lparr>Entries := B\<rparr>) j = (if j = i then Some e else entry_at H j))"
  by (auto simp: set_entry_def write_cell_def PH_HASHTABLE_GET_ENTRY_def read_cell_def nth_list_update
      word_unat_eq_iff)

lemma set_bucket_correct:
  "unat b < length (Buckets H) \<Longrightarrow> \<exists>B. set_bucket b v H = Some (H\<lparr>Buckets := B\<rparr>)
     \<and> length B = length (Buckets H)
     \<and> (\<forall>j. get_bucket (H\<lparr>Buckets := B\<rparr>) j = (if j = b then Some v else get_bucket H j))"
  by (auto simp: set_bucket_def write_cell_def get_bucket_def read_cell_def nth_list_update
      word_unat_eq_iff)

end
