(* ===== verification/HashOps.thy ===== *)
theory HashOps
  imports HashWf
begin

text \<open>
  The operations on well-formed hashtables.  The user's functions come with a contract:
  equality is an equivalence, and equal entries have equal hashes.
\<close>

section \<open>The contract of the user's functions\<close>

locale hash_contract =
  fixes eq :: "'e \<Rightarrow> 'e \<Rightarrow> bool" and hash :: "'e \<Rightarrow> ulong"
  assumes eq_refl: "eq a a" and eq_sym: "eq a b \<Longrightarrow> eq b a"
    and eq_trans: "eq a b \<Longrightarrow> eq b c \<Longrightarrow> eq a c" and eq_hash: "eq a b \<Longrightarrow> hash a = hash b"
begin

text \<open>Entries are looked for by their class: any representative will do.\<close>

lemma eq_class: "eq a b \<Longrightarrow> eq c a \<longleftrightarrow> eq c b"
  using eq_sym eq_trans by blast

lemma validated: "eq a b \<Longrightarrow> PhpValidateHash (hash a) = PhpValidateHash (hash b)"
  using eq_hash by simp

end

section \<open>Finding\<close>

lemma chain_not_end: "chain n e js \<Longrightarrow> NO_ENTRY \<notin> set js"
  by (induction js arbitrary: e) auto

definition matches :: "'e ph_hashtable \<Rightarrow> ulong \<Rightarrow> 'e \<Rightarrow> ulong \<Rightarrow> bool" where
  "matches H h x j \<longleftrightarrow> (\<exists>e. entry_at H j = Some e \<and> HashCode e = h \<and> EqualFunction H (Body e) x)"

lemma nxt_entry: "nxt H i = Some m \<longleftrightarrow> (\<exists>e. entry_at H i = Some e \<and> Next e = m)"
  by (auto simp: nxt_def)

lemma find_entry_loop:
  "chain (nxt H) i js \<Longrightarrow> PhpFindEntry_loop H h x i = Some (List.find (matches H h x) js)"
proof (induction js arbitrary: i)
  case Nil
  then show ?case by (simp add: PhpFindEntry_loop.simps)
next
  case (Cons j js)
  then obtain e where "entry_at H j = Some e" "chain (nxt H) (Next e) js" "i = j" "j \<noteq> NO_ENTRY"
    by (auto simp: nxt_entry)
  then show ?case
    using Cons.IH [of "Next e"] by (simp add: PhpFindEntry_loop.simps [of H h x j] matches_def)
qed

lemma bucket_chain:
  assumes "ht_wf H X ch fs"
  obtains b where "get_bucket H (PhpIndexFromHash H h) = Some b"
    "chain (nxt H) b (ch (PhpIndexFromHash H h))" "distinct (ch (PhpIndexFromHash H h))"
    "set (ch (PhpIndexFromHash H h)) = {i. i \<notin> X \<and> in_bucket H (PhpIndexFromHash H h) i}"
  using assms index_less [of H h] by (auto simp: ht_wf_def ht_buckets_def)

lemma ht_at_entry:
  "ht_at H i = Some b \<longleftrightarrow> i < HtNextEntry H \<and>
     (\<exists>e. entry_at H i = Some e \<and> HashCode e \<noteq> NO_ENTRY \<and> Body e = b)"
  by (auto simp: ht_at_def split: option.splits if_splits)

lemma in_bucket_match:
  assumes wf: "ht_wf H {} ch fs" and h: "h = PhpValidateHash k"
    and j: "in_bucket H (PhpIndexFromHash H h) j"
  shows "matches H h x j \<longleftrightarrow>
    (\<exists>b. ht_at H j = Some b \<and> PhpValidateHash (HashFunction H b) = h \<and> EqualFunction H b x)"
proof -
  obtain e where e: "j < HtNextEntry H" "entry_at H j = Some e" "HashCode e \<noteq> NO_ENTRY"
    using j by (auto simp: in_bucket_def code_at_def split: if_splits)
  then have "HashCode e = PhpValidateHash (HashFunction H (Body e))"
    using wf by (force simp: ht_wf_def ht_coded_def)
  then show ?thesis using e by (auto simp: matches_def ht_at_entry)
qed

lemma at_in_bucket:
  assumes "ht_wf H {} ch fs" "ht_at H j = Some b"
  shows "in_bucket H (PhpIndexFromHash H (PhpValidateHash (HashFunction H b))) j"
  using assms
  by (force simp: ht_at_entry in_bucket_def code_at_def ht_wf_def ht_coded_def)

text \<open>What a search of a bucket finds.\<close>

definition found_in :: "'e ph_hashtable \<Rightarrow> 'e \<Rightarrow> ulong option \<Rightarrow> bool" where
  "found_in H x r \<longleftrightarrow> (case r of
     None \<Rightarrow> \<forall>j b. ht_at H j = Some b \<longrightarrow> \<not> EqualFunction H b x
   | Some j \<Rightarrow> \<exists>b. ht_at H j = Some b \<and> EqualFunction H b x)"

lemma search_bucket:
  assumes wf: "ht_wf H {} ch fs" and c: "hash_contract (EqualFunction H) (HashFunction H)"
    and h: "h = PhpValidateHash (HashFunction H x)"
  shows "found_in H x (List.find (matches H h x) (ch (PhpIndexFromHash H h)))"
proof (cases "List.find (matches H h x) (ch (PhpIndexFromHash H h))")
  case None
  have "\<not> EqualFunction H b x" if at: "ht_at H j = Some b" for j b
  proof
    assume eq: "EqualFunction H b x"
    then have "PhpValidateHash (HashFunction H b) = h"
      using hash_contract.validated [OF c] h by blast
    then have "in_bucket H (PhpIndexFromHash H h) j" "matches H h x j"
      using at_in_bucket [OF wf at] in_bucket_match [OF wf h] at eq by auto
    moreover have "in_bucket H (PhpIndexFromHash H h) j \<Longrightarrow> j \<in> set (ch (PhpIndexFromHash H h))"
      using bucket_chain [OF wf, of h] by auto
    ultimately show False using None by (auto simp: find_None_iff)
  qed
  then show ?thesis using None by (simp add: found_in_def)
next
  case (Some j)
  then have "matches H h x j" "j \<in> set (ch (PhpIndexFromHash H h))"
    by (auto simp: find_Some_iff)
  moreover have "j \<in> set (ch (PhpIndexFromHash H h)) \<Longrightarrow> in_bucket H (PhpIndexFromHash H h) j"
    using bucket_chain [OF wf, of h] by auto
  ultimately show ?thesis
    using in_bucket_match [OF wf h] Some by (auto simp: found_in_def)
qed

lemma find_entry_correct:
  assumes "ht_wf H {} ch fs" "hash_contract (EqualFunction H) (HashFunction H)"
  obtains r where "PhFindEntryHashtable H x = Some r" "found_in H x r"
proof -
  let ?h = "PhpValidateHash (HashFunction H x)"
  obtain b where "get_bucket H (PhpIndexFromHash H ?h) = Some b"
    "chain (nxt H) b (ch (PhpIndexFromHash H ?h))"
    using bucket_chain [OF assms(1)] by blast
  then have "PhFindEntryHashtable H x
      = Some (List.find (matches H ?h x) (ch (PhpIndexFromHash H ?h)))"
    by (simp add: PhFindEntryHashtable_def Let_def find_entry_loop)
  then show ?thesis using that search_bucket [OF assms refl] by blast
qed

section \<open>Linking an entry\<close>

text \<open>
  Linking the entry \<open>i\<close>, one of those not in the buckets yet, at the head of the bucket of
  its hash code \<open>h\<close>: the same writes for a new entry and for one that is redistributed.
\<close>

lemma relink:
  assumes sizes: "ht_sizes H" and bs: "ht_buckets H X ch" and iX: "i \<in> X" "i < HtNextEntry H"
    and hn: "h \<noteq> NO_ENTRY"
  obtains b B C where "get_bucket H (PhpIndexFromHash H h) = Some b"
    "set_entry i \<lparr>HashCode = h, Next = b, Body = x\<rparr> H = Some (H\<lparr>Entries := B\<rparr>)"
    "set_bucket (PhpIndexFromHash H h) i (H\<lparr>Entries := B\<rparr>) = Some (H\<lparr>Entries := B, Buckets := C\<rparr>)"
    "ht_sizes (H\<lparr>Entries := B, Buckets := C\<rparr>)"
    "ht_buckets (H\<lparr>Entries := B, Buckets := C\<rparr>) (X - {i})
       (ch(PhpIndexFromHash H h := i # ch (PhpIndexFromHash H h)))"
    "\<forall>j. entry_at (H\<lparr>Entries := B, Buckets := C\<rparr>) j
       = (if j = i then Some \<lparr>HashCode = h, Next = b, Body = x\<rparr> else entry_at H j)"
proof -
  let ?d = "PhpIndexFromHash H h"
  let ?e = "\<lambda>b. \<lparr>HashCode = h, Next = b, Body = x\<rparr>"
  note inn = sizes_bound [OF sizes iX(2)] and d = index_less [OF sizes, of h]
  obtain b where b: "get_bucket H ?d = Some b" "chain (nxt H) b (ch ?d)" "distinct (ch ?d)"
    "set (ch ?d) = {j. j \<notin> X \<and> in_bucket H ?d j}"
    using bs d by (auto simp: ht_buckets_def)
  obtain B where B: "set_entry i (?e b) H = Some (H\<lparr>Entries := B\<rparr>)" "length B = length (Entries H)"
    "\<forall>j. entry_at (H\<lparr>Entries := B\<rparr>) j = (if j = i then Some (?e b) else entry_at H j)"
    using set_entry_correct [of i H "?e b"] inn by blast
  have "unat ?d < length (Buckets (H\<lparr>Entries := B\<rparr>))"
    using d sizes by (simp add: ht_sizes_def word_less_nat_alt)
  then obtain C where C: "set_bucket ?d i (H\<lparr>Entries := B\<rparr>) = Some (H\<lparr>Entries := B, Buckets := C\<rparr>)"
    "length C = length (Buckets H)"
    "\<forall>j. get_bucket (H\<lparr>Entries := B, Buckets := C\<rparr>) j = (if j = ?d then Some i else get_bucket H j)"
    using set_bucket_correct [of ?d "H\<lparr>Entries := B\<rparr>" i] by (auto simp: get_bucket_def)
  let ?H = "H\<lparr>Entries := B, Buckets := C\<rparr>"
  have ent: "entry_at ?H j = (if j = i then Some (?e b) else entry_at H j)" for j
    using B(3) by (simp add: PH_HASHTABLE_GET_ENTRY_def)
  have nx: "nxt ?H = (nxt H)(i \<mapsto> b)" by (auto simp: nxt_def ent fun_eq_iff)
  have bu: "in_bucket ?H c j \<longleftrightarrow> (if j = i then c = ?d else in_bucket H c j)" for c j
    using hn iX(2) by (auto simp: in_bucket_def code_at_def ent PhpIndexFromHash_def)
  have "ht_buckets ?H (X - {i}) (ch(?d := i # ch ?d))"
    unfolding ht_buckets_def
  proof (intro allI impI)
    fix c assume "c < AllocatedBuckets ?H"
    then obtain e where e: "get_bucket H c = Some e" "chain (nxt H) e (ch c)" "distinct (ch c)"
      "set (ch c) = {j. j \<notin> X \<and> in_bucket H c j}"
      using bs by (auto simp: ht_buckets_def)
    then have "i \<notin> set (ch c)" using iX by simp
    then show "\<exists>e. get_bucket ?H c = Some e \<and> chain (nxt ?H) e ((ch(?d := i # ch ?d)) c)
      \<and> distinct ((ch(?d := i # ch ?d)) c)
      \<and> set ((ch(?d := i # ch ?d)) c) = {j. j \<notin> X - {i} \<and> in_bucket ?H c j}"
      using e b inn iX C(3) by (cases "c = ?d") (auto simp: nx bu simp del: fun_upd_apply
          simp add: fun_upd_same fun_upd_other)
  qed
  moreover have "ht_sizes ?H" using sizes B(2) C(2) by (auto simp: ht_sizes_def)
  ultimately show ?thesis using that [OF b(1) B(1) C(1)] ent by simp
qed

lemma link_entry:
  assumes wf: "ht_wf H {i} ch fs" and h: "h = PhpValidateHash (HashFunction H x)"
  obtains b B C where "get_bucket H (PhpIndexFromHash H h) = Some b"
    "set_entry i \<lparr>HashCode = h, Next = b, Body = x\<rparr> H = Some (H\<lparr>Entries := B\<rparr>)"
    "set_bucket (PhpIndexFromHash H h) i (H\<lparr>Entries := B\<rparr>) = Some (H\<lparr>Entries := B, Buckets := C\<rparr>)"
    "ht_wf (H\<lparr>Entries := B, Buckets := C, HtCount := HtCount H + 1\<rparr>) {}
       (ch(PhpIndexFromHash H h := i # ch (PhpIndexFromHash H h))) fs"
    "\<And>j. ht_at (H\<lparr>Entries := B, Buckets := C, HtCount := HtCount H + 1\<rparr>) j
       = (if j = i then Some x else ht_at H j)"
proof -
  let ?d = "PhpIndexFromHash H h"
  have sizes: "ht_sizes H" and i: "i < HtNextEntry H" "i \<in> {i}" and bs: "ht_buckets H {i} ch"
    using wf by (auto simp: ht_wf_def)
  have hn: "h \<noteq> NO_ENTRY" using h valid_hash by simp
  obtain b B C where L: "get_bucket H ?d = Some b"
    "set_entry i \<lparr>HashCode = h, Next = b, Body = x\<rparr> H = Some (H\<lparr>Entries := B\<rparr>)"
    "set_bucket ?d i (H\<lparr>Entries := B\<rparr>) = Some (H\<lparr>Entries := B, Buckets := C\<rparr>)"
    "ht_sizes (H\<lparr>Entries := B, Buckets := C\<rparr>)"
    "ht_buckets (H\<lparr>Entries := B, Buckets := C\<rparr>) ({i} - {i}) (ch(?d := i # ch ?d))"
    and ent: "\<forall>j. entry_at (H\<lparr>Entries := B, Buckets := C\<rparr>) j
       = (if j = i then Some \<lparr>HashCode = h, Next = b, Body = x\<rparr> else entry_at H j)"
    by (rule relink [OF sizes bs i(2,1) hn, of x]) blast
  let ?G = "H\<lparr>Entries := B, Buckets := C\<rparr>" and ?H = "H\<lparr>Entries := B, Buckets := C, HtCount := HtCount H + 1\<rparr>"
  have same: "entry_at ?H = entry_at ?G" "nxt ?H = nxt ?G" "code_at ?H = code_at ?G"
    "get_bucket ?H = get_bucket ?G" "in_bucket ?H = in_bucket ?G"
    by (auto simp: fun_eq_iff PH_HASHTABLE_GET_ENTRY_def nxt_def code_at_def get_bucket_def
        in_bucket_def PhpIndexFromHash_def)
  have nx: "nxt ?G = (nxt H)(i \<mapsto> b)" by (auto simp: nxt_def ent fun_eq_iff)
  have code: "code_at ?G j = (if j = i then Some h else code_at H j)" for j
    using i by (simp add: code_at_def ent)
  have "ht_buckets ?H {} (ch(?d := i # ch ?d))"
    using L(5) by (simp add: ht_buckets_def same)
  moreover have "ht_free ?H {} fs"
    using wf hn by (auto simp: ht_wf_def ht_free_def nx code same simp del: fun_upd_apply)
  moreover have "ht_coded ?H {}"
    using wf h by (auto simp: ht_wf_def ht_coded_def ent same)
  moreover have "ht_sizes ?H" using L(4) by (auto simp: ht_sizes_def)
  moreover have "unat (HtCount H + 1) = unat (HtCount H) + 1"
    using wf sizes_bound [OF sizes i(1)] unat_add_exact [of "HtCount H" 1] i
      unsigned_less [of "HtNextEntry H", where ?'a = nat]
    by (auto simp: ht_wf_def)
  moreover have "unat (HtCount H) + length fs + 1 = unat (HtNextEntry H)"
    using wf by (simp add: ht_wf_def)
  ultimately have new: "ht_wf ?H {} (ch(?d := i # ch ?d)) fs" by (simp add: ht_wf_def)
  have at: "ht_at ?H j = (if j = i then Some x else ht_at H j)" for j
    using i hn by (simp add: ht_at_def ent same)
  show ?thesis by (rule that [OF L(1-3) new at])
qed

section \<open>Redistributing the entries\<close>

text \<open>What redistribution keeps.\<close>

definition same_entries :: "'e ph_hashtable \<Rightarrow> 'e ph_hashtable \<Rightarrow> bool" where
  "same_entries H H' \<longleftrightarrow> (\<forall>i < HtNextEntry H. map_option HashCode (entry_at H' i) = map_option HashCode (entry_at H i)
     \<and> map_option Body (entry_at H' i) = map_option Body (entry_at H i))
   \<and> HtNextEntry H' = HtNextEntry H \<and> HtCount H' = HtCount H \<and> HtFreeEntry H' = HtFreeEntry H
   \<and> EqualFunction H' = EqualFunction H \<and> HashFunction H' = HashFunction H"

lemma same_entries_trans: "same_entries H H' \<Longrightarrow> same_entries H' H'' \<Longrightarrow> same_entries H H''"
  by (auto simp: same_entries_def)

lemma resize_step:
  assumes "ht_sizes H" "ht_buckets H X ch" "i \<in> X" "i < HtNextEntry H"
    and e: "entry_at H i = Some e" "HashCode e \<noteq> NO_ENTRY"
  obtains H' ch' where "PhpResizeHashtable_step i H = Some H'" "ht_sizes H'"
    "ht_buckets H' (X - {i}) ch'" "same_entries H H'" "AllocatedBuckets H' = AllocatedBuckets H"
proof -
  obtain b B C where L: "get_bucket H (PhpIndexFromHash H (HashCode e)) = Some b"
    "set_entry i \<lparr>HashCode = HashCode e, Next = b, Body = Body e\<rparr> H = Some (H\<lparr>Entries := B\<rparr>)"
    "set_bucket (PhpIndexFromHash H (HashCode e)) i (H\<lparr>Entries := B\<rparr>)
      = Some (H\<lparr>Entries := B, Buckets := C\<rparr>)"
    "ht_sizes (H\<lparr>Entries := B, Buckets := C\<rparr>)"
    "ht_buckets (H\<lparr>Entries := B, Buckets := C\<rparr>) (X - {i}) (ch(PhpIndexFromHash H (HashCode e)
       := i # ch (PhpIndexFromHash H (HashCode e))))"
    "\<forall>j. entry_at (H\<lparr>Entries := B, Buckets := C\<rparr>) j
       = (if j = i then Some \<lparr>HashCode = HashCode e, Next = b, Body = Body e\<rparr> else entry_at H j)"
    by (rule relink [OF assms(1-4) e(2), of "Body e"]) blast
  have "set_entry i (e\<lparr>Next := b\<rparr>) H = Some (H\<lparr>Entries := B\<rparr>)"
    using L(2) by (cases e) simp
  then have "PhpResizeHashtable_step i H = Some (H\<lparr>Entries := B, Buckets := C\<rparr>)"
    using e L(1,3) by (simp add: PhpResizeHashtable_step_def Let_def)
  moreover have "same_entries H (H\<lparr>Entries := B, Buckets := C\<rparr>)"
    using L(6) e by (simp add: same_entries_def)
  ultimately show ?thesis using that L(4,5) by simp
qed

lemma resize_loop:
  assumes "ht_sizes H" "ht_buckets H {j. i \<le> j} ch" "HtNextEntry H = n"
    and "\<forall>j < n. \<exists>h. code_at H j = Some h \<and> h \<noteq> NO_ENTRY"
  shows "\<exists>H' ch'. PhpResizeHashtable_loop n i H = Some H' \<and> ht_sizes H'
    \<and> ht_buckets H' {j. n \<le> j \<and> i \<le> j} ch' \<and> same_entries H H'
    \<and> AllocatedBuckets H' = AllocatedBuckets H"
  using assms
proof (induction n i H arbitrary: ch rule: PhpResizeHashtable_loop.induct)
  case (1 n i H)
  show ?case
  proof (cases "i < n")
    case True
    then obtain e where "entry_at H i = Some e" "HashCode e \<noteq> NO_ENTRY"
      using 1(4,5) by (auto simp: code_at_def)
    then obtain H1 ch1 where H1: "PhpResizeHashtable_step i H = Some H1" "ht_sizes H1"
      "ht_buckets H1 ({j. i \<le> j} - {i}) ch1" "same_entries H H1" "AllocatedBuckets H1 = AllocatedBuckets H"
      using resize_step [OF 1(2,3), of i] 1(4) True by auto
    have inc: "unat (i + 1) = Suc (unat i)" using unat_inc True by blast
    then have X: "{j. i \<le> j} - {i} = {j. i + 1 \<le> j}"
      by (auto simp: word_le_nat_alt word_unat_eq_iff)
    have "{j. n \<le> j \<and> i + 1 \<le> j} = {j. n \<le> j \<and> i \<le> j}"
      using True inc by (auto simp: word_le_nat_alt word_less_nat_alt)
    moreover have "\<forall>j < n. \<exists>h. code_at H1 j = Some h \<and> h \<noteq> NO_ENTRY"
      using 1(4,5) H1(4) by (auto simp: same_entries_def code_at_def)
    moreover have "HtNextEntry H1 = n" using 1(4) H1(4) by (simp add: same_entries_def)
    ultimately obtain H2 ch2 where "PhpResizeHashtable_loop n (i + 1) H1 = Some H2" "ht_sizes H2"
      "ht_buckets H2 {j. n \<le> j \<and> i \<le> j} ch2" "same_entries H1 H2" "AllocatedBuckets H2 = AllocatedBuckets H1"
      using 1(1) [OF True H1(1,2) H1(3) [unfolded X]] by auto
    then show ?thesis
      using True H1(1,4,5) same_entries_trans
      by (fastforce simp: PhpResizeHashtable_loop.simps [of n i H])
  next
    case False
    then have "{j. i \<le> j} = {j. n \<le> j \<and> i \<le> j}" by auto
    then show ?thesis
      using False 1(2,3) by (auto simp: PhpResizeHashtable_loop.simps [of n i H] same_entries_def)
  qed
qed

lemma coded_entry:
  "ht_wf H X ch fs \<Longrightarrow> i < HtNextEntry H \<Longrightarrow> i \<notin> X \<Longrightarrow> \<exists>e. entry_at H i = Some e
     \<and> (HashCode e = NO_ENTRY \<or> HashCode e = PhpValidateHash (HashFunction H (Body e)))"
  by (simp add: ht_wf_def ht_coded_def)

lemma in_bucket_less: "in_bucket H b i \<Longrightarrow> i < HtNextEntry H"
  by (auto simp: in_bucket_def code_at_def split: if_splits)

lemma round_up_power:
  assumes "unat n = 2 ^ k" "k \<le> 31"
  shows "PhRoundUpToPowerOfTwo n = n"
proof -
  have "(2 :: nat) ^ k \<le> 2 ^ 31" using assms(2) by (intro power_increasing) auto
  moreover have "0 < unat n" using assms(1) by simp
  ultimately obtain j where j: "j \<le> 31" "unat (PhRoundUpToPowerOfTwo n) = 2 ^ j"
    "(2 :: nat) ^ k \<le> 2 ^ j" "(2 :: nat) ^ j < 2 ^ Suc k"
    using round_up_correct [of n] assms(1) by (metis power_Suc)
  then have "k \<le> j" by simp
  moreover have "j < Suc k" using j(4) by (rule power_less_imp_less_exp [rotated]) simp
  ultimately have "k = j" by simp
  then show ?thesis using j(2) assms(1) by (simp add: word_unat_eq_iff)
qed

lemma same_entries_at:
  assumes "same_entries H H'"
  shows "code_at H' = code_at H" "ht_at H' = ht_at H"
proof -
  show "code_at H' = code_at H" using assms by (auto simp: fun_eq_iff same_entries_def code_at_def)
  have "ht_at H' i = ht_at H i" if "i < HtNextEntry H" for i
    using that assms by (cases "entry_at H i"; cases "entry_at H' i")
      (auto simp: same_entries_def ht_at_def)
  then show "ht_at H' = ht_at H"
    using assms by (auto simp: fun_eq_iff same_entries_def ht_at_def)
qed

text \<open>Doubling a hashtable whose entries are all in use.\<close>

lemma resize_table_correct:
  assumes wf: "ht_wf H {} ch []" and room: "unat (AllocatedBuckets H) < 2 ^ 31"
  obtains H' ch' where "PhpResizeHashtable (AllocatedBuckets H * 2) H = Some H'"
    "ht_wf H' {} ch' []" "same_entries H H'" "unat (AllocatedEntries H') = 2 * unat (AllocatedEntries H)"
proof -
  obtain k where k: "unat (AllocatedBuckets H) = 2 ^ k" using wf by (auto simp: ht_wf_def ht_sizes_def)
  then have "(2 :: nat) ^ k < 2 ^ 31" using room by simp
  then have "k < 31" by (rule power_less_imp_less_exp [rotated]) simp
  then have k31: "Suc k \<le> 31" by simp
  let ?n = "AllocatedBuckets H * 2"
  have n: "unat ?n = 2 ^ Suc k" using k room unat_double [of "AllocatedBuckets H"] by simp
  then have N: "PhpGetNumberOfBuckets ?n = ?n"
    unfolding PhpGetNumberOfBuckets_def using k31 by (rule round_up_power)
  let ?H = "H\<lparr>AllocatedBuckets := ?n, Buckets := minus_one_block ?n, AllocatedEntries := ?n,
     Entries := realloc_block (unat ?n) (Entries H)\<rparr>"
  have sz: "ht_sizes H" "length (Entries H) = 2 ^ k" using wf k by (auto simp: ht_wf_def ht_sizes_def)
  have full: "\<exists>e. entry_at H i = Some e \<and> HashCode e \<noteq> NO_ENTRY
      \<and> HashCode e = PhpValidateHash (HashFunction H (Body e))" if i: "i < HtNextEntry H" for i
  proof -
    obtain e where e: "entry_at H i = Some e"
      "HashCode e = NO_ENTRY \<or> HashCode e = PhpValidateHash (HashFunction H (Body e))"
      using coded_entry [OF wf i] by blast
    have "code_at H i \<noteq> Some NO_ENTRY" using wf by (auto simp: ht_wf_def ht_free_def)
    then show ?thesis using e i by (simp add: code_at_def)
  qed
  have ent: "entry_at ?H i = entry_at H i" if "i < HtNextEntry H" for i
    using sizes_bound [OF sz(1) that] sz(2) n
    by (simp add: PH_HASHTABLE_GET_ENTRY_def read_cell_def nth_realloc_block)
  then have same: "same_entries H ?H" by (simp add: same_entries_def)
  have "unat (HtNextEntry H) \<le> 2 ^ k" using sz(1) k by (auto simp: ht_sizes_def word_le_nat_alt)
  then have "HtNextEntry H \<le> ?n" unfolding word_le_nat_alt n by simp
  then have sizes: "ht_sizes ?H"
    unfolding ht_sizes_def using n k31
    by (intro conjI exI [of _ "Suc k"]) (simp_all add: minus_one_block_def del: power_Suc)
  have "get_bucket ?H b = Some NO_ENTRY" if "b < ?n" for b
    using that by (simp add: get_bucket_def read_cell_def minus_one_block_def word_less_nat_alt)
  moreover have "{j. \<not> (0 :: ulong) \<le> j \<and> P j} = {}" for P by simp
  ultimately have "ht_buckets ?H {j. 0 \<le> j} (\<lambda>b. [])"
    by (auto simp: ht_buckets_def)
  moreover have "\<forall>j < HtNextEntry H. \<exists>h. code_at ?H j = Some h \<and> h \<noteq> NO_ENTRY"
    using full ent by (force simp: code_at_def)
  ultimately obtain H' ch' where H': "PhpResizeHashtable_loop (HtNextEntry H) 0 ?H = Some H'"
    "ht_sizes H'" "ht_buckets H' {j. HtNextEntry H \<le> j} ch'" "same_entries ?H H'"
    "AllocatedBuckets H' = ?n"
    using resize_loop [OF sizes, of 0 "\<lambda>b. []" "HtNextEntry H"] by auto
  have all: "same_entries H H'" using same H'(4) by (rule same_entries_trans)
  have "HtNextEntry H' = HtNextEntry H" using all by (simp add: same_entries_def)
  then have X: "(i \<notin> {j. HtNextEntry H \<le> j} \<and> in_bucket H' b i) = (i \<notin> {} \<and> in_bucket H' b i)" for b i
    using in_bucket_less [of H' b i] by (auto simp: not_le)
  have "ht_buckets H' {} ch'"
    using H'(3) by (simp only: ht_buckets_def X)
  moreover have "ht_coded H' {}"
    unfolding ht_coded_def
  proof (intro allI impI)
    fix i assume "i < HtNextEntry H'"
    then have i: "i < HtNextEntry H" using all by (simp add: same_entries_def)
    obtain e where e: "entry_at H i = Some e" "HashCode e = PhpValidateHash (HashFunction H (Body e))"
      using full [OF i] by blast
    then have "map_option HashCode (entry_at H' i) = Some (HashCode e)"
      "map_option Body (entry_at H' i) = Some (Body e)"
      using all i by (simp_all add: same_entries_def)
    then obtain e' where "entry_at H' i = Some e'" "HashCode e' = HashCode e" "Body e' = Body e"
      by auto
    note this e(2)
    then show "\<exists>e. entry_at H' i = Some e \<and> (HashCode e = NO_ENTRY
        \<or> HashCode e = PhpValidateHash (HashFunction H' (Body e)))"
      using all by (simp add: same_entries_def)
  qed
  moreover have "ht_free H' {} []"
    using wf same_entries_at(1) [OF all] all by (simp add: ht_wf_def ht_free_def same_entries_def)
  moreover have "unat (HtCount H') = unat (HtNextEntry H')"
    using wf all by (simp add: ht_wf_def same_entries_def)
  ultimately have "ht_wf H' {} ch' []" using H'(2) by (simp add: ht_wf_def)
  moreover have "PhpResizeHashtable ?n H = Some H'"
    using H'(1) N by (simp add: PhpResizeHashtable_def Let_def)
  moreover have "unat (AllocatedEntries H') = 2 * unat (AllocatedEntries H)"
    using H'(2,5) sz(1) n k by (simp add: ht_sizes_def)
  ultimately show ?thesis using that all by blast
qed

section \<open>Taking a place for a new entry\<close>

lemma take_entry:
  assumes wf: "ht_wf H {} ch fs" and room: "unat (HtNextEntry H) < 2 ^ 31"
  obtains i H' ch' fs' where "PhpTakeEntry_Hashtable H h (PhpIndexFromHash H h)
      = Some (i, PhpIndexFromHash H' h, H')"
    "ht_wf H' {i} ch' fs'" "ht_at H i = None" "\<forall>j. j \<noteq> i \<longrightarrow> ht_at H' j = ht_at H j"
    "EqualFunction H' = EqualFunction H" "HashFunction H' = HashFunction H"
    "HtCount H' = HtCount H" "unat (HtNextEntry H') \<le> Suc (unat (HtNextEntry H))"
proof -
  note out = that
  show ?thesis
  proof (cases fs)
    case (Cons i gs)
    have free: "ht_free H {} fs" using wf by (simp add: ht_wf_def)
    then obtain e where e: "HtFreeEntry H = i" "i \<noteq> NO_ENTRY" "entry_at H i = Some e"
      "chain (nxt H) (Next e) gs" "i \<notin> set gs" "distinct gs" "code_at H i = Some NO_ENTRY"
      using Cons by (auto simp: ht_free_def nxt_entry)
    let ?H = "H\<lparr>HtFreeEntry := Next e\<rparr>"
    have same: "entry_at ?H = entry_at H" "nxt ?H = nxt H" "code_at ?H = code_at H" "ht_at ?H = ht_at H"
      "get_bucket ?H = get_bucket H" "in_bucket ?H = in_bucket H" "PhpIndexFromHash ?H = PhpIndexFromHash H"
      by (auto simp: fun_eq_iff PH_HASHTABLE_GET_ENTRY_def nxt_def code_at_def ht_at_def get_bucket_def
          in_bucket_def PhpIndexFromHash_def)
    have "i < HtNextEntry H" using e(7) by (auto simp: code_at_def split: if_splits)
    moreover have "{j. j \<notin> {i} \<and> in_bucket H b j} = {j. j \<notin> {} \<and> in_bucket H b j}" for b
      using e(7) by (auto simp: in_bucket_def)
    moreover have "set gs = {j. j \<notin> {i} \<and> code_at H j = Some NO_ENTRY}"
      using free Cons e(5) by (auto simp: ht_free_def)
    moreover have "ht_sizes ?H" using wf by (auto simp: ht_wf_def ht_sizes_def)
    ultimately have "ht_wf ?H {i} ch gs"
      using wf Cons e(4,6) by (simp add: ht_wf_def ht_coded_def ht_buckets_def ht_free_def same)
    moreover have "ht_at H i = None" using e(3,7) by (auto simp: ht_at_def code_at_def split: if_splits)
    ultimately show ?thesis
      using e by (intro out [of i ?H]) (simp_all add: PhpTakeEntry_Hashtable_def Let_def same)
  next
    case Nil
    have add: thesis if K: "ht_wf K {} k []" "HtNextEntry K < AllocatedEntries K" "same_entries H K"
      "(if HtNextEntry H = AllocatedEntries H
        then PhpResizeHashtable (AllocatedBuckets H * 2) H \<bind> (\<lambda>H. Some (PhpIndexFromHash H h, H))
        else Some (PhpIndexFromHash H h, H)) = Some (PhpIndexFromHash K h, K)" for K k
    proof -
      let ?i = "HtNextEntry K"
      let ?K = "K\<lparr>HtNextEntry := ?i + 1\<rparr>"
      have N: "HtNextEntry K = HtNextEntry H" using K(3) by (simp add: same_entries_def)
      have inc: "unat (?i + 1) = Suc (unat ?i)" using K(2) by (rule unat_inc)
      then have less: "j < ?i + 1 \<longleftrightarrow> j = ?i \<or> j < ?i" for j
        by (auto simp: word_less_nat_alt word_unat_eq_iff)
      have same: "entry_at ?K = entry_at K" "nxt ?K = nxt K" "get_bucket ?K = get_bucket K"
        "PhpIndexFromHash ?K = PhpIndexFromHash K"
        by (auto simp: fun_eq_iff PH_HASHTABLE_GET_ENTRY_def nxt_def get_bucket_def PhpIndexFromHash_def)
      have code: "j \<noteq> ?i \<Longrightarrow> code_at ?K j = code_at K j" "code_at K ?i = None" for j
        by (auto simp: code_at_def less same)
      have code2: "j \<noteq> ?i \<and> code_at ?K j = Some c \<longleftrightarrow> code_at K j = Some c" for j c
        using code by (cases "j = ?i") auto
      have "j \<noteq> ?i \<and> in_bucket ?K b j \<longleftrightarrow> in_bucket K b j" for b j
        unfolding in_bucket_def same using code2 by metis
      then have "{j. j \<notin> {?i} \<and> in_bucket ?K b j} = {j. j \<notin> {} \<and> in_bucket K b j}"
        "{j. j \<notin> {?i} \<and> code_at ?K j = Some NO_ENTRY} = {j. j \<notin> {} \<and> code_at K j = Some NO_ENTRY}" for b
        using code2 by simp_all
      moreover have "ht_sizes ?K"
        using K(1,2) inc by (auto simp: ht_wf_def ht_sizes_def word_less_nat_alt word_le_nat_alt)
      moreover have "ht_coded ?K {?i}" using K(1) by (auto simp: ht_wf_def ht_coded_def less same)
      ultimately have "ht_wf ?K {?i} k []"
        using K(1) inc by (simp add: ht_wf_def ht_buckets_def ht_free_def same less)
      moreover have "ht_at H ?i = None" using N by (simp add: ht_at_def)
      moreover have "j \<noteq> ?i \<Longrightarrow> ht_at ?K j = ht_at H j" for j
      proof -
        assume "j \<noteq> ?i"
        then have "ht_at ?K j = ht_at K j" by (simp add: ht_at_def less same)
        then show "ht_at ?K j = ht_at H j" using same_entries_at(2) [OF K(3)] by simp
      qed
      moreover have "HtFreeEntry H = NO_ENTRY" using wf Nil by (simp add: ht_wf_def ht_free_def)
      ultimately have "PhpTakeEntry_Hashtable H h (PhpIndexFromHash H h)
          = Some (?i, PhpIndexFromHash ?K h, ?K)"
        unfolding PhpTakeEntry_Hashtable_def K(4) by simp
      note this \<open>ht_wf ?K {?i} k []\<close> \<open>ht_at H ?i = None\<close> \<open>\<And>j. j \<noteq> ?i \<Longrightarrow> ht_at ?K j = ht_at H j\<close>
      then show thesis
        using K(3) inc N by (intro out [of ?i ?K]) (simp_all add: same_entries_def)
    qed
    show ?thesis
    proof (cases "HtNextEntry H = AllocatedEntries H")
      case True
      then have "unat (AllocatedBuckets H) < 2 ^ 31" using wf room by (auto simp: ht_wf_def ht_sizes_def)
      then obtain K k where K: "PhpResizeHashtable (AllocatedBuckets H * 2) H = Some K"
        "ht_wf K {} k []" "same_entries H K" "unat (AllocatedEntries K) = 2 * unat (AllocatedEntries H)"
        using resize_table_correct wf Nil by metis
      have "0 < unat (AllocatedEntries H)" using wf by (auto simp: ht_wf_def ht_sizes_def)
      then have "HtNextEntry K < AllocatedEntries K"
        using K(3,4) True by (simp add: same_entries_def word_less_nat_alt)
      then show ?thesis using add [OF K(2) _ K(3)] K(1) True by simp
    next
      case False
      then have "HtNextEntry H < AllocatedEntries H" using wf by (auto simp: ht_wf_def ht_sizes_def)
      then show ?thesis using add [of H ch] wf Nil False by (simp add: same_entries_def)
    qed
qed
qed

section \<open>Adding\<close>

definition ht_unique :: "'e ph_hashtable \<Rightarrow> bool" where
  "ht_unique H \<longleftrightarrow> (\<forall>i j a b. ht_at H i = Some a \<longrightarrow> ht_at H j = Some b
     \<longrightarrow> EqualFunction H a b \<longrightarrow> i = j)"

text \<open>A hashtable in use: well-formed, over functions that keep their contract, no duplicates.\<close>

definition ht_inv :: "'e ph_hashtable \<Rightarrow> bool" where
  "ht_inv H \<longleftrightarrow> (\<exists>ch fs. ht_wf H {} ch fs) \<and> ht_unique H
     \<and> hash_contract (EqualFunction H) (HashFunction H)"

lemma add_entry_correct:
  assumes inv: "ht_inv H" and room: "unat (HtNextEntry H) < 2 ^ 31"
  shows "(\<exists>i b. PhpAddEntryHashtable H x True = Some (i, False, H)
      \<and> ht_at H i = Some b \<and> EqualFunction H b x)
   \<or> (\<forall>j b. ht_at H j = Some b \<longrightarrow> \<not> EqualFunction H b x)
     \<and> (\<exists>i H'. PhpAddEntryHashtable H x True = Some (i, True, H') \<and> ht_inv H'
        \<and> ht_at H i = None \<and> ht_at H' = (ht_at H)(i \<mapsto> x) \<and> HtCount H' = HtCount H + 1
        \<and> EqualFunction H' = EqualFunction H \<and> HashFunction H' = HashFunction H
        \<and> unat (HtNextEntry H') \<le> Suc (unat (HtNextEntry H)))"
proof -
  obtain ch fs where wf: "ht_wf H {} ch fs" and uniq: "ht_unique H"
    and c: "hash_contract (EqualFunction H) (HashFunction H)"
    using inv by (auto simp: ht_inv_def)
  let ?h = "PhpValidateHash (HashFunction H x)"
  let ?d = "PhpIndexFromHash H ?h"
  obtain b0 where b0: "get_bucket H ?d = Some b0" "chain (nxt H) b0 (ch ?d)"
    using bucket_chain [OF wf] by blast
  note search = search_bucket [OF wf c refl, of x] and loop = find_entry_loop [OF b0(2), of ?h x]
  show ?thesis
  proof (cases "List.find (matches H ?h x) (ch ?d)")
    case (Some i)
    then have "PhpAddEntryHashtable H x True = Some (i, False, H)"
      using b0(1) loop by (simp add: PhpAddEntryHashtable_def Let_def)
    then show ?thesis using search Some by (auto simp: found_in_def)
  next
    case None
    then have new: "\<forall>j b. ht_at H j = Some b \<longrightarrow> \<not> EqualFunction H b x"
      using search by (simp add: found_in_def)
    obtain i K k gs where K: "PhpTakeEntry_Hashtable H ?h ?d = Some (i, PhpIndexFromHash K ?h, K)"
      "ht_wf K {i} k gs" "ht_at H i = None" "\<forall>j. j \<noteq> i \<longrightarrow> ht_at K j = ht_at H j"
      "EqualFunction K = EqualFunction H" "HashFunction K = HashFunction H"
      "HtCount K = HtCount H" "unat (HtNextEntry K) \<le> Suc (unat (HtNextEntry H))"
      by (rule take_entry [OF wf room, of ?h])
    have "?h = PhpValidateHash (HashFunction K x)" using K(6) by simp
    then obtain b B C where L: "get_bucket K (PhpIndexFromHash K ?h) = Some b"
      "set_entry i \<lparr>HashCode = ?h, Next = b, Body = x\<rparr> K = Some (K\<lparr>Entries := B\<rparr>)"
      "set_bucket (PhpIndexFromHash K ?h) i (K\<lparr>Entries := B\<rparr>) = Some (K\<lparr>Entries := B, Buckets := C\<rparr>)"
      "ht_wf (K\<lparr>Entries := B, Buckets := C, HtCount := HtCount K + 1\<rparr>) {}
         (k(PhpIndexFromHash K ?h := i # k (PhpIndexFromHash K ?h))) gs"
      "\<forall>j. ht_at (K\<lparr>Entries := B, Buckets := C, HtCount := HtCount K + 1\<rparr>) j
         = (if j = i then Some x else ht_at K j)"
      using link_entry [OF K(2)] by metis
    let ?H = "K\<lparr>Entries := B, Buckets := C, HtCount := HtCount K + 1\<rparr>"
    have at: "ht_at ?H = (ht_at H)(i \<mapsto> x)" using L(5) K(4) by (auto simp: fun_eq_iff)
    have "PhpAddEntryHashtable H x True = Some (i, True, ?H)"
      using b0(1) loop None K(1) L(1-3) by (simp add: PhpAddEntryHashtable_def Let_def)
    moreover have "\<forall>j b. ht_at H j = Some b \<longrightarrow> \<not> EqualFunction H x b"
      using new hash_contract.eq_sym [OF c] by blast
    then have "ht_unique ?H"
      using uniq new
      by (auto simp: ht_unique_def at [simplified] K(5) split: if_splits)
    ultimately show ?thesis using new L(4) K c at by (auto simp: ht_inv_def)
  qed
qed

section \<open>Removing\<close>

lemma find_split:
  "List.find P xs = Some x \<Longrightarrow> \<exists>as bs. xs = as @ x # bs \<and> P x \<and> (\<forall>a \<in> set as. \<not> P a)"
proof (induction xs)
  case (Cons y ys)
  then show ?case
  proof (cases "P y")
    case True
    then show ?thesis using Cons.prems by force
  next
    case False
    then obtain as bs where "ys = as @ x # bs" "P x" "\<forall>a \<in> set as. \<not> P a"
      using Cons by auto
    then show ?thesis using False by (intro exI [of _ "y # as"] exI [of _ bs]) simp
  qed
qed simp

text \<open>The loop runs to the entry that matches, with the one before it as \<open>previousIndex\<close>.\<close>

lemma remove_entry_loop:
  "chain (nxt H) i js \<Longrightarrow> PhRemoveEntry_loop H d h x (if ps = [] then NO_ENTRY else last ps) i =
   (case List.find (matches H h x) js of None \<Rightarrow> Some (False, H)
    | Some j \<Rightarrow> do {
        e \<leftarrow> entry_at H j;
        H \<leftarrow> PhRemoveEntry_unlink H d
          (let qs = ps @ takeWhile (\<lambda>j. \<not> matches H h x j) js in if qs = [] then NO_ENTRY else last qs) j e;
        Some (True, H)
      })"
proof (induction js arbitrary: i ps)
  case Nil
  then show ?case by (simp add: PhRemoveEntry_loop.simps)
next
  case (Cons j js)
  then obtain e where e: "entry_at H j = Some e" "chain (nxt H) (Next e) js" "i = j" "j \<noteq> NO_ENTRY"
    by (auto simp: nxt_entry)
  have m: "matches H h x j \<longleftrightarrow> HashCode e = h \<and> EqualFunction H (Body e) x"
    using e(1) by (simp add: matches_def)
  show ?case
  proof (cases "matches H h x j")
    case True
    then show ?thesis
      using e m by (simp add: PhRemoveEntry_loop.simps [of H d h x _ j] Let_def)
  next
    case False
    then have "PhRemoveEntry_loop H d h x (if ps = [] then NO_ENTRY else last ps) i
        = PhRemoveEntry_loop H d h x (last (ps @ [j])) (Next e)"
      using e m by (auto simp: PhRemoveEntry_loop.simps [of H d h x _ j])
    then show ?thesis
      using Cons.IH [OF e(2), of "ps @ [j]"] False by (simp add: Let_def split: option.split)
  qed
qed

text \<open>Unlinking an entry from its bucket, then putting it on the free list.\<close>

lemma unlink_bucket:
  assumes wf: "ht_wf H {} ch fs" and d: "d < AllocatedBuckets H" and split: "ch d = as @ j # bs"
    and e: "entry_at H j = Some e"
  obtains M where
    "(if as = [] then set_bucket d (Next e) H
      else entry_at H (last as) \<bind> (\<lambda>p. set_entry (last as) (p\<lparr>Next := Next e\<rparr>) H)) = Some M"
    "ht_wf (M\<lparr>HtCount := HtCount M - 1\<rparr>) {j} (ch(d := as @ bs)) fs" "ht_at M = ht_at H"
    "entry_at M j = Some e" "same_entries H M"
proof -
  note out = that
  have sizes: "ht_sizes H" using wf by (simp add: ht_wf_def)
  obtain b where b: "get_bucket H d = Some b" "chain (nxt H) b (as @ j # bs)" "distinct (as @ j # bs)"
    "set (as @ j # bs) = {i. in_bucket H d i}"
    using wf d split by (auto simp: ht_wf_def ht_buckets_def)
  have nj: "nxt H j = Some (Next e)" using e by (simp add: nxt_def)
  have jd: "in_bucket H d j" using b(4) by auto
  then have only: "in_bucket H c j \<longleftrightarrow> c = d" for c by (auto simp: in_bucket_def)
  have finish: thesis if M: "(if as = [] then set_bucket d (Next e) H
      else entry_at H (last as) \<bind> (\<lambda>p. set_entry (last as) (p\<lparr>Next := Next e\<rparr>) H)) = Some M"
    "ht_sizes M" "same_entries H M" "AllocatedBuckets M = AllocatedBuckets H" "entry_at M j = Some e"
    "ht_coded M {}" "ht_free M {} fs"
    "\<And>c. c < AllocatedBuckets H \<Longrightarrow> \<exists>e. get_bucket M c = Some e \<and> chain (nxt M) e ((ch(d := as @ bs)) c)"
    for M
  proof -
    let ?M = "M\<lparr>HtCount := HtCount M - 1\<rparr>"
    note code = same_entries_at(1) [OF M(3)]
    have inb: "in_bucket M = in_bucket H"
      using M(4) by (auto simp: fun_eq_iff in_bucket_def code PhpIndexFromHash_def)
    have "ht_buckets ?M {j} (ch(d := as @ bs))"
      unfolding ht_buckets_def
    proof (intro allI impI)
      fix c assume "c < AllocatedBuckets ?M"
      then have c: "c < AllocatedBuckets H" using M(4) by simp
      then have "distinct (ch c)" "set (ch c) = {i. in_bucket H c i}"
        using wf by (auto simp: ht_wf_def ht_buckets_def)
      then have "distinct ((ch(d := as @ bs)) c)"
        "set ((ch(d := as @ bs)) c) = {i. i \<notin> {j} \<and> in_bucket H c i}"
        using b(3,4) only [of c] by (cases "c = d"; force)+
      then show "\<exists>e. get_bucket ?M c = Some e \<and> chain (nxt ?M) e ((ch(d := as @ bs)) c)
          \<and> distinct ((ch(d := as @ bs)) c)
          \<and> set ((ch(d := as @ bs)) c) = {i. i \<notin> {j} \<and> in_bucket ?M c i}"
        using M(8) [OF c] inb by auto
    qed
    moreover have "code_at H j \<noteq> Some NO_ENTRY" using jd by (auto simp: in_bucket_def)
    then have "ht_free ?M {j} fs"
      using M(7) code by (auto simp: ht_free_def)
    moreover have "ht_coded ?M {j}" using M(6) by (simp add: ht_coded_def)
    moreover have "ht_sizes ?M" using M(2) by (auto simp: ht_sizes_def)
    moreover have jn: "j < HtNextEntry H" using jd by (rule in_bucket_less)
    moreover have "unat (HtCount M - 1) + 1 = unat (HtCount H)"
    proof -
      have "set fs \<subset> {i. i < HtNextEntry H}"
        using wf \<open>code_at H j \<noteq> Some NO_ENTRY\<close> jn
        by (auto simp: ht_wf_def ht_free_def code_at_def split: if_splits)
      then have "card (set fs) < card {i. i < HtNextEntry H}" by (intro psubset_card_mono) auto
      then have "length fs < unat (HtNextEntry H)"
        using wf by (simp add: card_words_below distinct_card [symmetric] ht_wf_def ht_free_def)
      then have "0 < unat (HtCount H)" using wf by (simp add: ht_wf_def)
      moreover from this have "HtCount H \<noteq> 0" by auto
      ultimately show ?thesis using M(3) by (simp add: same_entries_def unat_minus_one)
    qed
    ultimately have "ht_wf ?M {j} (ch(d := as @ bs)) fs"
      using wf M(3) by (simp add: ht_wf_def same_entries_def)
    then show thesis by (rule out [OF M(1) _ same_entries_at(2) [OF M(3)] M(5,3)])
  qed
  show thesis
  proof (cases "as = []")
    case True
    have "unat d < length (Buckets H)" using d sizes by (simp add: ht_sizes_def word_less_nat_alt)
    then obtain C where C: "set_bucket d (Next e) H = Some (H\<lparr>Buckets := C\<rparr>)"
      "length C = length (Buckets H)"
      "\<forall>c. get_bucket (H\<lparr>Buckets := C\<rparr>) c = (if c = d then Some (Next e) else get_bucket H c)"
      using set_bucket_correct by blast
    show thesis
    proof (rule finish [of "H\<lparr>Buckets := C\<rparr>"])
      fix c assume c: "c < AllocatedBuckets H"
      show "\<exists>e. get_bucket (H\<lparr>Buckets := C\<rparr>) c = Some e
          \<and> chain (nxt (H\<lparr>Buckets := C\<rparr>)) e ((ch(d := as @ bs)) c)"
        using wf c C(3) True b(2) nj
          by (cases "c = d") (auto simp: ht_wf_def ht_buckets_def bucket_frame)
    qed (use wf sizes C True e in \<open>auto simp: ht_wf_def ht_sizes_def ht_coded_def ht_free_def
        same_entries_def bucket_frame\<close>)
  next
    case False
    let ?l = "last as"
    have l: "?l \<in> set as" "?l \<noteq> j" using False b(3) by auto
    then have ld: "in_bucket H c ?l \<longleftrightarrow> c = d" for c
      using b(4) by (auto simp: in_bucket_def)
    then have ln: "?l < HtNextEntry H" using in_bucket_less by blast
    obtain p where p: "entry_at H ?l = Some p" "HashCode p \<noteq> NO_ENTRY"
      using ld [of d] by (auto simp: in_bucket_def code_at_def split: if_splits)
    have "unat ?l < length (Entries H)" using sizes_bound [OF sizes ln] by blast
    then obtain B where B: "set_entry ?l (p\<lparr>Next := Next e\<rparr>) H = Some (H\<lparr>Entries := B\<rparr>)"
      "length B = length (Entries H)"
      "\<forall>i. entry_at (H\<lparr>Entries := B\<rparr>) i = (if i = ?l then Some (p\<lparr>Next := Next e\<rparr>) else entry_at H i)"
      using set_entry_correct by blast
    have nx: "nxt (H\<lparr>Entries := B\<rparr>) = (nxt H)(?l \<mapsto> Next e)" by (auto simp: nxt_def B(3) fun_eq_iff)
    have code_l: "code_at H ?l \<noteq> Some NO_ENTRY" using ld [of d] by (auto simp: in_bucket_def)
    show thesis
    proof (rule finish [of "H\<lparr>Entries := B\<rparr>"])
      fix c assume c: "c < AllocatedBuckets H"
      obtain e0 where e0: "get_bucket H c = Some e0" "chain (nxt H) e0 (ch c)"
        "set (ch c) = {i. in_bucket H c i}"
        using wf c by (auto simp: ht_wf_def ht_buckets_def)
      show "\<exists>e. get_bucket (H\<lparr>Entries := B\<rparr>) c = Some e
          \<and> chain (nxt (H\<lparr>Entries := B\<rparr>)) e ((ch(d := as @ bs)) c)"
      proof (cases "c = d")
        case True
        have "chain ((nxt H)(?l \<mapsto> Next e)) b (as @ bs)"
          by (rule chain_unlink [OF b(2) nj b(3) False])
        then show ?thesis using True b(1) nx by (simp add: entry_frame)
      next
        case other: False
        then have "?l \<notin> set (ch c)" using e0(3) ld by simp
        then show ?thesis using e0 other nx by (simp del: fun_upd_apply add: fun_upd_other entry_frame)
      qed
    next
      have "?l \<notin> set fs" using wf code_l by (auto simp: ht_wf_def ht_free_def)
      moreover have "code_at (H\<lparr>Entries := B\<rparr>) = code_at H"
        using p by (auto simp: fun_eq_iff code_at_def B(3))
      ultimately show "ht_free (H\<lparr>Entries := B\<rparr>) {} fs"
        using wf nx by (simp add: ht_wf_def ht_free_def del: fun_upd_apply)
    qed (use wf sizes B p False e l in \<open>auto simp: ht_wf_def ht_sizes_def ht_coded_def
        same_entries_def\<close>)
  qed
qed

lemma free_entry:
  assumes wf: "ht_wf H {j} ch fs" and e: "entry_at H j = Some e"
  obtains B where "set_entry j (e\<lparr>HashCode := NO_ENTRY, Next := HtFreeEntry H\<rparr>) H = Some (H\<lparr>Entries := B\<rparr>)"
    "ht_wf (H\<lparr>Entries := B, HtFreeEntry := j\<rparr>) {} ch (j # fs)"
    "\<forall>i. ht_at (H\<lparr>Entries := B, HtFreeEntry := j\<rparr>) i = (if i = j then None else ht_at H i)"
proof -
  have sizes: "ht_sizes H" and j: "j < HtNextEntry H" using wf by (auto simp: ht_wf_def)
  note inn = sizes_bound [OF sizes j]
  let ?e = "e\<lparr>HashCode := NO_ENTRY, Next := HtFreeEntry H\<rparr>"
  obtain B where B: "set_entry j ?e H = Some (H\<lparr>Entries := B\<rparr>)" "length B = length (Entries H)"
    "\<forall>i. entry_at (H\<lparr>Entries := B\<rparr>) i = (if i = j then Some ?e else entry_at H i)"
    using set_entry_correct [of j H ?e] inn by blast
  let ?H = "H\<lparr>Entries := B, HtFreeEntry := j\<rparr>"
  have nx: "nxt (H\<lparr>Entries := B\<rparr>) = (nxt H)(j \<mapsto> HtFreeEntry H)"
    by (auto simp: nxt_def B(3) fun_eq_iff)
  have code: "code_at (H\<lparr>Entries := B\<rparr>) i = (if i = j then Some NO_ENTRY else code_at H i)" for i
    using j by (simp add: code_at_def B(3))
  have idx: "PhpIndexFromHash (H\<lparr>Entries := B\<rparr>) = PhpIndexFromHash H"
    by (simp add: fun_eq_iff PhpIndexFromHash_def)
  have inb: "in_bucket (H\<lparr>Entries := B\<rparr>) c i \<longleftrightarrow> i \<noteq> j \<and> in_bucket H c i" for c i
    by (auto simp: in_bucket_def code idx)
  have free: "chain (nxt H) (HtFreeEntry H) fs" "distinct fs" "j \<notin> set fs"
    "set fs = {i. i \<notin> {j} \<and> code_at H i = Some NO_ENTRY}"
    using wf by (auto simp: ht_wf_def ht_free_def)
  have "ht_buckets ?H {} ch"
    unfolding ht_buckets_def
  proof (intro allI impI)
    fix c assume "c < AllocatedBuckets ?H"
    then obtain b where b: "get_bucket H c = Some b" "chain (nxt H) b (ch c)" "distinct (ch c)"
      "set (ch c) = {i. i \<notin> {j} \<and> in_bucket H c i}"
      using wf by (auto simp: ht_wf_def ht_buckets_def)
    then have "j \<notin> set (ch c)" by simp
    then show "\<exists>b. get_bucket ?H c = Some b \<and> chain (nxt ?H) b (ch c) \<and> distinct (ch c)
        \<and> set (ch c) = {i. i \<notin> {} \<and> in_bucket ?H c i}"
      using b by (simp add: entry_frame nx inb del: fun_upd_apply)
  qed
  moreover have "ht_free ?H {} (j # fs)"
    using free inn by (auto simp: ht_free_def nx code fun_upd_same simp del: fun_upd_apply)
  moreover have "ht_coded ?H {}" using wf by (auto simp: ht_wf_def ht_coded_def B(3))
  moreover have "ht_sizes ?H" using sizes B(2) by (auto simp: ht_sizes_def)
  ultimately have "ht_wf ?H {} ch (j # fs)" using wf by (simp add: ht_wf_def)
  moreover have "\<forall>i. ht_at ?H i = (if i = j then None else ht_at H i)"
    using j by (simp add: ht_at_def B(3))
  ultimately show ?thesis using that [OF B(1)] by blast
qed

lemma unique_remove:
  "ht_unique H \<Longrightarrow> ht_at H' = (ht_at H)(j := None) \<Longrightarrow> EqualFunction H' = EqualFunction H \<Longrightarrow> ht_unique H'"
  by (auto simp: ht_unique_def split: if_splits)

lemma remove_entry_correct:
  assumes inv: "ht_inv H"
  shows "(\<exists>j b H'. PhRemoveEntryHashtable H x = Some (True, H') \<and> ht_at H j = Some b
      \<and> EqualFunction H b x \<and> ht_inv H' \<and> ht_at H' = (ht_at H)(j := None)
      \<and> HtCount H' = HtCount H - 1 \<and> EqualFunction H' = EqualFunction H
      \<and> HashFunction H' = HashFunction H \<and> HtNextEntry H' = HtNextEntry H)
   \<or> (\<forall>j b. ht_at H j = Some b \<longrightarrow> \<not> EqualFunction H b x)
     \<and> PhRemoveEntryHashtable H x = Some (False, H)"
proof -
  obtain ch fs where wf: "ht_wf H {} ch fs" and uniq: "ht_unique H"
    and c: "hash_contract (EqualFunction H) (HashFunction H)"
    using inv by (auto simp: ht_inv_def)
  let ?h = "PhpValidateHash (HashFunction H x)"
  let ?d = "PhpIndexFromHash H ?h"
  obtain b0 where b0: "get_bucket H ?d = Some b0" "chain (nxt H) b0 (ch ?d)"
    using bucket_chain [OF wf] by blast
  note search = search_bucket [OF wf c refl, of x]
    and loop = remove_entry_loop [OF b0(2), of ?d ?h x "[]"]
  have run: "PhRemoveEntryHashtable H x = PhRemoveEntry_loop H ?d ?h x NO_ENTRY b0"
    using b0(1) by (simp add: PhRemoveEntryHashtable_def Let_def)
  show ?thesis
  proof (cases "List.find (matches H ?h x) (ch ?d)")
    case None
    then show ?thesis using search loop run by (simp add: found_in_def)
  next
    case (Some j)
    then obtain as bs where split: "ch ?d = as @ j # bs" "matches H ?h x j"
      "\<forall>a \<in> set as. \<not> matches H ?h x a"
      using find_split by metis
    then obtain e where e: "entry_at H j = Some e" by (auto simp: matches_def)
    obtain b where b: "ht_at H j = Some b" "EqualFunction H b x"
      using search Some by (auto simp: found_in_def)
    have sizes: "ht_sizes H" using wf by (simp add: ht_wf_def)
    obtain M where M: "(if as = [] then set_bucket ?d (Next e) H
        else entry_at H (last as) \<bind> (\<lambda>p. set_entry (last as) (p\<lparr>Next := Next e\<rparr>) H)) = Some M"
      "ht_wf (M\<lparr>HtCount := HtCount M - 1\<rparr>) {j} (ch(?d := as @ bs)) fs" "ht_at M = ht_at H"
      "entry_at M j = Some e" "same_entries H M"
      by (rule unlink_bucket [OF wf index_less [OF sizes] split(1) e])
    let ?M = "M\<lparr>HtCount := HtCount M - 1\<rparr>"
    have "entry_at ?M j = Some e" using M(4) by simp
    then obtain B where B: "set_entry j (e\<lparr>HashCode := NO_ENTRY, Next := HtFreeEntry ?M\<rparr>) ?M
        = Some (?M\<lparr>Entries := B\<rparr>)"
      "ht_wf (?M\<lparr>Entries := B, HtFreeEntry := j\<rparr>) {} (ch(?d := as @ bs)) (j # fs)"
      "\<forall>i. ht_at (?M\<lparr>Entries := B, HtFreeEntry := j\<rparr>) i = (if i = j then None else ht_at ?M i)"
      using free_entry [OF M(2)] by blast
    let ?H = "?M\<lparr>Entries := B, HtFreeEntry := j\<rparr>"
    have "set_entry j (e\<lparr>HashCode := NO_ENTRY, Next := HtFreeEntry M\<rparr>) M = Some (M\<lparr>Entries := B\<rparr>)"
      using B(1) by (auto simp: set_entry_def dest: arg_cong [where f = Entries])
    moreover have "NO_ENTRY \<notin> set as"
      using chain_not_end [of "nxt H" b0 "ch ?d"] b0(2) split(1) by auto
    then have "as \<noteq> [] \<Longrightarrow> last as \<noteq> NO_ENTRY" using last_in_set by metis
    ultimately have "PhRemoveEntry_unlink H ?d (if as = [] then NO_ENTRY else last as) j e = Some ?H"
      using M(1) by (cases "as = []") (auto simp: PhRemoveEntry_unlink_def split: bind_splits)
    then have "PhRemoveEntryHashtable H x = Some (True, ?H)"
      using run loop Some split e by simp
    moreover have at: "ht_at ?H = (ht_at H)(j := None)" using B(3) M(3) by (auto simp: fun_eq_iff)
    moreover have "ht_unique ?H"
      by (rule unique_remove [OF uniq at]) (use M(5) in \<open>simp add: same_entries_def\<close>)
    moreover have "hash_contract (EqualFunction ?H) (HashFunction ?H)"
      using c M(5) by (simp add: same_entries_def)
    ultimately show ?thesis
      using b B(2) M(5) by (auto simp: ht_inv_def same_entries_def)
  qed
qed

end
