(* ===== verification/HashProps.thy ===== *)
theory HashProps
  imports HashOps
begin

text \<open>
  The contract of the hashtable, and the simple hashtable from pointers to pointers, which
  is a map.  \<open>ht_at H i\<close> is the entry the hashtable keeps at index \<open>i\<close>.
\<close>

section \<open>Creating, clearing, enumerating\<close>

lemma create_inv:
  assumes "hash_contract eq hash" "unat n \<le> 2 ^ 31"
  shows "ht_inv (PhCreateHashtable eq hash n)" "ht_at (PhCreateHashtable eq hash n) = (\<lambda>i. None)"
    "HtCount (PhCreateHashtable eq hash n) = 0" "HtNextEntry (PhCreateHashtable eq hash n) = 0"
    "EqualFunction (PhCreateHashtable eq hash n) = eq" "HashFunction (PhCreateHashtable eq hash n) = hash"
proof -
  let ?H = "PhCreateHashtable eq hash n"
  define c where "c = (if n = 0 then 1 else n)"
  have "0 < unat c" "unat c \<le> 2 ^ 31" using assms(2) by (auto simp: c_def unat_gt_0)
  then obtain k where k: "k \<le> 31" "unat (PhRoundUpToPowerOfTwo c) = 2 ^ k"
    using round_up_correct by metis
  have H: "?H = \<lparr>EqualFunction = eq, HashFunction = hash, AllocatedBuckets = PhRoundUpToPowerOfTwo c,
     Buckets = minus_one_block (PhRoundUpToPowerOfTwo c),
     AllocatedEntries = PhRoundUpToPowerOfTwo c,
     Entries = alloc_block (unat (PhRoundUpToPowerOfTwo c)), HtCount = 0,
     HtFreeEntry = NO_ENTRY, HtNextEntry = 0\<rparr>"
    by (simp add: PhCreateHashtable_def c_def Let_def PhpGetNumberOfBuckets_def)
  then have sizes: "ht_sizes ?H" using k by (auto simp: ht_sizes_def minus_one_block_def)
  have none: "code_at ?H i = None" "ht_at ?H i = None" "\<not> in_bucket ?H b i" for b i
    using H by (auto simp: code_at_def ht_at_def in_bucket_def)
  have "ht_buckets ?H {} (\<lambda>b. [])"
    using H none
    by (auto simp: ht_buckets_def get_bucket_def minus_one_block_def read_cell_def word_less_nat_alt)
  then have "ht_wf ?H {} (\<lambda>b. []) []"
    using sizes H none by (simp add: ht_wf_def ht_coded_def ht_free_def)
  then show "ht_inv ?H"
    using assms(1) none H by (auto simp: ht_inv_def ht_unique_def)
  show "ht_at ?H = (\<lambda>i. None)" using none by auto
  show "HtCount ?H = 0" "HtNextEntry ?H = 0" "EqualFunction ?H = eq" "HashFunction ?H = hash"
    using H by simp_all
qed

lemma count_entries:
  assumes "ht_inv H"
  shows "card (dom (ht_at H)) = unat (HtCount H)" "finite (dom (ht_at H))"
proof -
  obtain ch fs where wf: "ht_wf H {} ch fs" using assms by (auto simp: ht_inv_def)
  have "dom (ht_at H) = {i. i < HtNextEntry H} - set fs"
  proof (rule set_eqI)
    fix i show "i \<in> dom (ht_at H) \<longleftrightarrow> i \<in> {i. i < HtNextEntry H} - set fs"
    proof (cases "i < HtNextEntry H")
      case True
      then obtain e where e: "entry_at H i = Some e" using coded_entry [OF wf] by blast
      have "i \<in> set fs \<longleftrightarrow> HashCode e = NO_ENTRY"
        using wf True e by (simp add: ht_wf_def ht_free_def code_at_def)
      moreover have "i \<in> dom (ht_at H) \<longleftrightarrow> HashCode e \<noteq> NO_ENTRY"
        using True e by (simp add: ht_at_def dom_def)
      ultimately show ?thesis using True by simp
    qed (simp add: ht_at_def dom_def)
  qed
  moreover have "set fs \<subseteq> {i. i < HtNextEntry H}"
    using wf by (auto simp: ht_wf_def ht_free_def code_at_def split: if_splits)
  moreover have "distinct fs" using wf by (simp add: ht_wf_def ht_free_def)
  then have "card (set fs) = length fs" by (rule distinct_card)
  ultimately have "card (dom (ht_at H)) = unat (HtNextEntry H) - length fs"
    by (simp add: card_Diff_subset card_words_below)
  moreover have "unat (HtCount H) + length fs = unat (HtNextEntry H)" using wf by (simp add: ht_wf_def)
  ultimately show "card (dom (ht_at H)) = unat (HtCount H)" by linarith
  show "finite (dom (ht_at H))" by simp
qed

lemma clear_inv:
  assumes "ht_inv H"
  shows "ht_inv (PhClearHashtable H)" "ht_at (PhClearHashtable H) = (\<lambda>i. None)"
    "EqualFunction (PhClearHashtable H) = EqualFunction H"
    "HashFunction (PhClearHashtable H) = HashFunction H"
    "HtNextEntry (PhClearHashtable H) \<le> HtNextEntry H" "HtCount (PhClearHashtable H) = 0"
proof -
  let ?H = "PhClearHashtable H"
  show "EqualFunction ?H = EqualFunction H" "HashFunction ?H = HashFunction H"
    "HtNextEntry ?H \<le> HtNextEntry H" "HtCount ?H = 0"
    by (simp_all add: PhClearHashtable_def word_gt_0)
  show "ht_at ?H = (\<lambda>i. None)"
  proof (cases "HtCount H > 0")
    case True
    then show ?thesis by (simp add: PhClearHashtable_def ht_at_def fun_eq_iff)
  next
    case False
    then have "HtCount H = 0" by (simp add: word_gt_0)
    then have "card (dom (ht_at H)) = 0" using count_entries [OF assms] by simp
    then have "dom (ht_at H) = {}" using count_entries(2) [OF assms] by simp
    then show ?thesis using False by (auto simp: PhClearHashtable_def)
  qed
  show "ht_inv ?H"
  proof (cases "HtCount H > 0")
    case True
    obtain ch fs where wf: "ht_wf H {} ch fs" using assms by (auto simp: ht_inv_def)
    have H: "?H = H\<lparr>Buckets := minus_one_block (AllocatedBuckets H), HtCount := 0,
       HtFreeEntry := NO_ENTRY, HtNextEntry := 0\<rparr>"
      using True by (simp add: PhClearHashtable_def)
    have none: "code_at ?H i = None" "ht_at ?H i = None" "\<not> in_bucket ?H b i" for b i
      using H by (auto simp: code_at_def ht_at_def in_bucket_def)
    have "ht_sizes ?H" using wf H by (auto simp: ht_wf_def ht_sizes_def minus_one_block_def)
    moreover have "ht_buckets ?H {} (\<lambda>b. [])"
      using H none
      by (auto simp: ht_buckets_def get_bucket_def minus_one_block_def read_cell_def word_less_nat_alt)
    ultimately have "ht_wf ?H {} (\<lambda>b. []) []"
      using H none by (simp add: ht_wf_def ht_coded_def ht_free_def)
    then show ?thesis using assms none H by (auto simp: ht_inv_def ht_unique_def)
  next
    case False
    then show ?thesis using assms by (simp add: PhClearHashtable_def)
  qed
qed

text \<open>The indices of the entries from \<open>k\<close> on.\<close>

definition ht_indices :: "'e ph_hashtable \<Rightarrow> ulong \<Rightarrow> ulong list" where
  "ht_indices H k = filter (\<lambda>i. ht_at H i \<noteq> None) (map of_nat [unat k..<unat (HtNextEntry H)])"

lemma ht_indices_step:
  "k < HtNextEntry H \<Longrightarrow>
   ht_indices H k = (if ht_at H k \<noteq> None then k # ht_indices H (k + 1) else ht_indices H (k + 1))"
  by (simp add: ht_indices_def unat_inc word_less_nat_alt upt_conv_Cons)

lemma ht_indices_all: "set (ht_indices H 0) = dom (ht_at H)"
proof -
  have "i \<in> dom (ht_at H) \<Longrightarrow> i \<in> of_nat ` {0..<unat (HtNextEntry H)}" for i
    by (rule image_eqI [of _ _ "unat i"]) (auto simp: ht_at_def word_less_nat_alt split: if_splits)
  then show ?thesis by (auto simp: ht_indices_def)
qed

lemma enum_hashtable_correct:
  "ht_wf H {} ch fs \<Longrightarrow> \<exists>k'. PhEnumHashtable H k =
     Some (case ht_indices H k of [] \<Rightarrow> None | i # is \<Rightarrow> Some i, k')
   \<and> ht_indices H k' = tl (ht_indices H k)"
proof (induction H k rule: PhEnumHashtable.induct)
  case (1 H k)
  note run = PhEnumHashtable.simps [of H k]
  show ?case
  proof (cases "k < HtNextEntry H")
    case True
    then obtain e where e: "entry_at H k = Some e" using coded_entry [OF 1(2)] by blast
    have at: "ht_at H k \<noteq> None \<longleftrightarrow> HashCode e \<noteq> NO_ENTRY" using True e by (simp add: ht_at_def)
    show ?thesis
    proof (cases "HashCode e \<noteq> NO_ENTRY")
      case used: True
      then show ?thesis using run True e at by (simp add: ht_indices_step)
    next
      case False
      then show ?thesis using run True e at 1(1) [OF True e] 1(2) by (simp add: ht_indices_step)
    qed
  next
    case False
    then show ?thesis using run by (simp add: ht_indices_def word_less_nat_alt)
  qed
qed

section \<open>The simple hashtable\<close>

record key_value_pair =
  Key :: ulong64
  Value :: ulong64

definition PhpSimpleHashtableEqualFunction :: "key_value_pair \<Rightarrow> key_value_pair \<Rightarrow> bool" where
  "PhpSimpleHashtableEqualFunction Entry1 Entry2 \<longleftrightarrow> Key Entry1 = Key Entry2"

definition PhpSimpleHashtableHashFunction :: "key_value_pair \<Rightarrow> ulong" where
  "PhpSimpleHashtableHashFunction Entry = PhHashIntPtr (Key Entry)"

type_synonym simple_hashtable = "key_value_pair ph_hashtable"

definition PhCreateSimpleHashtable :: "ulong \<Rightarrow> simple_hashtable" where
  "PhCreateSimpleHashtable InitialCapacity =
     PhCreateHashtable PhpSimpleHashtableEqualFunction PhpSimpleHashtableHashFunction InitialCapacity"

text \<open>The result of adding is the value, or null; that of finding a pointer to the value.\<close>

definition PhAddItemSimpleHashtable ::
  "simple_hashtable \<Rightarrow> ulong64 \<Rightarrow> ulong64 \<Rightarrow> (ulong64 \<times> simple_hashtable) option" where
  "PhAddItemSimpleHashtable H k v = do {
     (entry, H) \<leftarrow> PhAddEntryHashtable H \<lparr>Key = k, Value = v\<rparr>;
     Some (if entry \<noteq> None then v else 0, H)
   }"

text \<open>The entry to look up with is filled in with the key only: its value is arbitrary.\<close>

definition PhFindItemSimpleHashtable :: "simple_hashtable \<Rightarrow> ulong64 \<Rightarrow> ulong64 \<Rightarrow> ulong option option" where
  "PhFindItemSimpleHashtable H k junk = PhFindEntryHashtable H \<lparr>Key = k, Value = junk\<rparr>"

definition PhRemoveItemSimpleHashtable ::
  "simple_hashtable \<Rightarrow> ulong64 \<Rightarrow> ulong64 \<Rightarrow> (bool \<times> simple_hashtable) option" where
  "PhRemoveItemSimpleHashtable H k junk = PhRemoveEntryHashtable H \<lparr>Key = k, Value = junk\<rparr>"

interpretation simple: hash_contract PhpSimpleHashtableEqualFunction PhpSimpleHashtableHashFunction
  by unfold_locales
    (auto simp: PhpSimpleHashtableEqualFunction_def PhpSimpleHashtableHashFunction_def)

text \<open>A simple hashtable stands for a map from keys to values.\<close>

definition sh_holds :: "simple_hashtable \<Rightarrow> (ulong64 \<Rightarrow> ulong64 option) \<Rightarrow> bool" where
  "sh_holds H m \<longleftrightarrow> ht_inv H \<and> EqualFunction H = PhpSimpleHashtableEqualFunction
   \<and> HashFunction H = PhpSimpleHashtableHashFunction
   \<and> (\<forall>k v. m k = Some v \<longleftrightarrow> (\<exists>i. ht_at H i = Some \<lparr>Key = k, Value = v\<rparr>))"

lemma sh_key: "sh_holds H m \<Longrightarrow> ht_at H i = Some b \<Longrightarrow> m (Key b) = Some (Value b)"
  unfolding sh_holds_def by (metis key_value_pair.surjective unit.exhaust)

lemma sh_none:
  "sh_holds H m \<Longrightarrow> (\<forall>j b. ht_at H j = Some b \<longrightarrow> \<not> PhpSimpleHashtableEqualFunction b \<lparr>Key = k, Value = v\<rparr>)
     \<longleftrightarrow> m k = None"
proof
  assume "sh_holds H m" "\<forall>j b. ht_at H j = Some b \<longrightarrow> \<not> PhpSimpleHashtableEqualFunction b \<lparr>Key = k, Value = v\<rparr>"
  then show "m k = None"
    by (cases "m k") (fastforce simp: sh_holds_def PhpSimpleHashtableEqualFunction_def)+
next
  assume "sh_holds H m" "m k = None"
  then show "\<forall>j b. ht_at H j = Some b \<longrightarrow> \<not> PhpSimpleHashtableEqualFunction b \<lparr>Key = k, Value = v\<rparr>"
    using sh_key [of H m] by (fastforce simp: PhpSimpleHashtableEqualFunction_def)
qed

lemma sh_add:
  assumes H: "sh_holds H m" and room: "unat (HtNextEntry H) < 2 ^ 31"
  obtains H' where "PhAddItemSimpleHashtable H k v = Some (if m k = None then v else 0, H')"
    "sh_holds H' (if m k = None then m(k \<mapsto> v) else m)" "unat (HtNextEntry H') \<le> Suc (unat (HtNextEntry H))"
proof -
  let ?x = "\<lparr>Key = k, Value = v\<rparr>"
  have inv: "ht_inv H" and eq: "EqualFunction H = PhpSimpleHashtableEqualFunction"
    using H by (auto simp: sh_holds_def)
  note none = sh_none [OF H, of k v]
  consider (dup) i b where "PhpAddEntryHashtable H ?x True = Some (i, False, H)" "ht_at H i = Some b"
      "EqualFunction H b ?x"
    | (new) i H' where "\<forall>j b. ht_at H j = Some b \<longrightarrow> \<not> EqualFunction H b ?x"
      "PhpAddEntryHashtable H ?x True = Some (i, True, H')" "ht_inv H'" "ht_at H i = None"
      "ht_at H' = (ht_at H)(i \<mapsto> ?x)" "EqualFunction H' = EqualFunction H"
      "HashFunction H' = HashFunction H" "unat (HtNextEntry H') \<le> Suc (unat (HtNextEntry H))"
    using add_entry_correct [OF inv room, of ?x] by blast
  then show ?thesis
  proof cases
    case dup
    then have "m k \<noteq> None" using none eq by auto
    then show ?thesis
      using dup H by (intro that [of H]) (auto simp: PhAddItemSimpleHashtable_def PhAddEntryHashtable_def)
  next
    case new
    then have "m k = None" using none eq by simp
    moreover have "sh_holds H' (m(k \<mapsto> v))"
      unfolding sh_holds_def
    proof (intro conjI allI)
      fix k' v'
      have old: "m k' = Some v' \<longleftrightarrow> (\<exists>j. ht_at H j = Some \<lparr>Key = k', Value = v'\<rparr>)"
        using H by (simp add: sh_holds_def)
      show "(m(k \<mapsto> v)) k' = Some v' \<longleftrightarrow> (\<exists>j. ht_at H' j = Some \<lparr>Key = k', Value = v'\<rparr>)"
      proof (cases "k' = k")
        case True
        then have "\<not> (\<exists>j. ht_at H j = Some \<lparr>Key = k, Value = v'\<rparr>)" using old \<open>m k = None\<close> by simp
        then show ?thesis using True new(5) by (auto split: if_splits)
      next
        case False
        have "(\<exists>j. ht_at H' j = Some \<lparr>Key = k', Value = v'\<rparr>) \<longleftrightarrow> (\<exists>j. ht_at H j = Some \<lparr>Key = k', Value = v'\<rparr>)"
          using False new(4,5) by (auto split: if_splits) (metis option.distinct(1))
        then show ?thesis using False old by simp
      qed
    qed (use new H in \<open>auto simp: sh_holds_def\<close>)
    ultimately show ?thesis
      using new by (intro that [of H']) (auto simp: PhAddItemSimpleHashtable_def PhAddEntryHashtable_def)
  qed
qed

lemma sh_find:
  assumes H: "sh_holds H m"
  obtains r where "PhFindItemSimpleHashtable H k junk = Some r"
    "map_option Value (r \<bind> ht_at H) = m k" "r = None \<longleftrightarrow> m k = None"
proof -
  let ?x = "\<lparr>Key = k, Value = junk\<rparr>"
  have inv: "ht_inv H" and eq: "EqualFunction H = PhpSimpleHashtableEqualFunction"
    using H by (auto simp: sh_holds_def)
  obtain r where r: "PhFindEntryHashtable H ?x = Some r" "found_in H ?x r"
    using inv find_entry_correct unfolding ht_inv_def by metis
  show ?thesis
  proof (cases r)
    case None
    then have "m k = None" using r(2) sh_none [OF H, of k junk] eq by (simp add: found_in_def)
    then show ?thesis using that [of r] r(1) None by (simp add: PhFindItemSimpleHashtable_def)
  next
    case (Some j)
    then obtain b where "ht_at H j = Some b" "Key b = k"
      using r(2) eq by (auto simp: found_in_def PhpSimpleHashtableEqualFunction_def)
    then show ?thesis
      using that [of r] r(1) Some sh_key [OF H] by (auto simp: PhFindItemSimpleHashtable_def)
  qed
qed

lemma sh_remove:
  assumes H: "sh_holds H m"
  obtains H' where "PhRemoveItemSimpleHashtable H k junk = Some (m k \<noteq> None, H')"
    "sh_holds H' (m(k := None))" "HtNextEntry H' = HtNextEntry H"
proof -
  let ?x = "\<lparr>Key = k, Value = junk\<rparr>"
  have inv: "ht_inv H" and eq: "EqualFunction H = PhpSimpleHashtableEqualFunction" and uniq: "ht_unique H"
    using H by (auto simp: sh_holds_def ht_inv_def)
  consider (found) j b H' where "PhRemoveEntryHashtable H ?x = Some (True, H')" "ht_at H j = Some b"
      "EqualFunction H b ?x" "ht_inv H'" "ht_at H' = (ht_at H)(j := None)"
      "EqualFunction H' = EqualFunction H" "HashFunction H' = HashFunction H" "HtNextEntry H' = HtNextEntry H"
    | (none) "\<forall>j b. ht_at H j = Some b \<longrightarrow> \<not> EqualFunction H b ?x"
      "PhRemoveEntryHashtable H ?x = Some (False, H)"
    using remove_entry_correct [OF inv, of ?x] by blast
  then show ?thesis
  proof cases
    case found
    have kb: "Key b = k" using found(3) eq by (simp add: PhpSimpleHashtableEqualFunction_def)
    have only: "i = j" if "ht_at H i = Some a" "Key a = k" for i a
      using uniq found(2) that eq kb by (auto simp: ht_unique_def PhpSimpleHashtableEqualFunction_def)
    have "sh_holds H' (m(k := None))"
      unfolding sh_holds_def
    proof (intro conjI allI)
      fix k' v'
      have old: "m k' = Some v' \<longleftrightarrow> (\<exists>i. ht_at H i = Some \<lparr>Key = k', Value = v'\<rparr>)"
        using H by (simp add: sh_holds_def)
      show "(m(k := None)) k' = Some v' \<longleftrightarrow> (\<exists>i. ht_at H' i = Some \<lparr>Key = k', Value = v'\<rparr>)"
      proof (cases "k' = k")
        case True
        then show ?thesis using found(5) only by (auto split: if_splits)
      next
        case False
        then have "b \<noteq> \<lparr>Key = k', Value = v'\<rparr>" using kb by auto
        then have "ht_at H i = Some \<lparr>Key = k', Value = v'\<rparr> \<Longrightarrow> i \<noteq> j" for i
          using found(2) by auto
        then have "(\<exists>i. ht_at H' i = Some \<lparr>Key = k', Value = v'\<rparr>)
            \<longleftrightarrow> (\<exists>i. ht_at H i = Some \<lparr>Key = k', Value = v'\<rparr>)"
          using found(5) by (metis fun_upd_apply option.distinct(1))
        then show ?thesis using False old by simp
      qed
    qed (use found H in \<open>auto simp: sh_holds_def\<close>)
    moreover have "m k \<noteq> None" using sh_key [OF H found(2)] kb by simp
    ultimately show ?thesis
      using found that [of H'] by (simp add: PhRemoveItemSimpleHashtable_def)
  next
    case none
    then have "m k = None" using sh_none [OF H, of k junk] eq by simp
    then have "m(k := None) = m" by auto
    then show ?thesis
      using none \<open>m k = None\<close> H that [of H] by (simp add: PhRemoveItemSimpleHashtable_def)
  qed
qed

section \<open>Histories of a simple hashtable\<close>

datatype sh_call = AddKey ulong64 ulong64 | FindKey ulong64 | RemoveKey ulong64 | ClearKeys

datatype sh_result = Added ulong64 | Found "ulong64 option" | Removed bool | Cleared

text \<open>What a caller sees: the value behind the pointer that finding returns.\<close>

fun run_sh_call :: "sh_call \<Rightarrow> simple_hashtable \<Rightarrow> (sh_result \<times> simple_hashtable) option" where
  "run_sh_call (AddKey k v) H = map_option (map_prod Added id) (PhAddItemSimpleHashtable H k v)"
| "run_sh_call (FindKey k) H =
     map_option (\<lambda>r. (Found (map_option Value (r \<bind> ht_at H)), H)) (PhFindItemSimpleHashtable H k 0)"
| "run_sh_call (RemoveKey k) H = map_option (map_prod Removed id) (PhRemoveItemSimpleHashtable H k 0)"
| "run_sh_call ClearKeys H = Some (Cleared, PhClearHashtable H)"

fun spec_sh_call :: "sh_call \<Rightarrow> (ulong64 \<Rightarrow> ulong64 option) \<Rightarrow> sh_result \<times> (ulong64 \<Rightarrow> ulong64 option)" where
  "spec_sh_call (AddKey k v) m = (if m k = None then (Added v, m(k \<mapsto> v)) else (Added 0, m))"
| "spec_sh_call (FindKey k) m = (Found (m k), m)"
| "spec_sh_call (RemoveKey k) m = (Removed (m k \<noteq> None), m(k := None))"
| "spec_sh_call ClearKeys m = (Cleared, Map.empty)"

fun run_sh :: "sh_call list \<Rightarrow> simple_hashtable \<Rightarrow> (sh_result list \<times> simple_hashtable) option" where
  "run_sh [] H = Some ([], H)"
| "run_sh (c # cs) H = do {
     (r, H) \<leftarrow> run_sh_call c H;
     (rs, H) \<leftarrow> run_sh cs H;
     Some (r # rs, H)
   }"

fun spec_sh :: "sh_call list \<Rightarrow> (ulong64 \<Rightarrow> ulong64 option) \<Rightarrow> sh_result list \<times> (ulong64 \<Rightarrow> ulong64 option)" where
  "spec_sh [] m = ([], m)"
| "spec_sh (c # cs) m = (case spec_sh_call c m of (r, m) \<Rightarrow>
     (case spec_sh cs m of (rs, m) \<Rightarrow> (r # rs, m)))"

lemma run_sh_call_correct:
  assumes H: "sh_holds H m" and room: "unat (HtNextEntry H) < 2 ^ 31"
  obtains H' where "run_sh_call c H = Some (fst (spec_sh_call c m), H')"
    "sh_holds H' (snd (spec_sh_call c m))" "unat (HtNextEntry H') \<le> Suc (unat (HtNextEntry H))"
proof (cases c)
  case (AddKey k v)
  obtain H' where "PhAddItemSimpleHashtable H k v = Some (if m k = None then v else 0, H')"
    "sh_holds H' (if m k = None then m(k \<mapsto> v) else m)" "unat (HtNextEntry H') \<le> Suc (unat (HtNextEntry H))"
    by (rule sh_add [OF H room])
  then show ?thesis using that [of H'] AddKey by (auto split: if_splits)
next
  case (FindKey k)
  obtain r where "PhFindItemSimpleHashtable H k 0 = Some r" "map_option Value (r \<bind> ht_at H) = m k"
    by (rule sh_find [OF H])
  then show ?thesis using that [of H] FindKey H by simp
next
  case (RemoveKey k)
  obtain H' where "PhRemoveItemSimpleHashtable H k 0 = Some (m k \<noteq> None, H')"
    "sh_holds H' (m(k := None))" "HtNextEntry H' = HtNextEntry H"
    by (rule sh_remove [OF H])
  then show ?thesis using that [of H'] RemoveKey by simp
next
  case ClearKeys
  have inv: "ht_inv H" using H by (simp add: sh_holds_def)
  have "unat (HtNextEntry (PhClearHashtable H)) \<le> unat (HtNextEntry H)"
    using clear_inv(5) [OF inv] by (simp add: word_le_nat_alt)
  moreover have "sh_holds (PhClearHashtable H) Map.empty"
    using clear_inv(1-4) [OF inv] H by (simp add: sh_holds_def)
  ultimately show ?thesis using that [of "PhClearHashtable H"] ClearKeys by simp
qed

lemma run_sh_correct:
  "sh_holds H m \<Longrightarrow> unat (HtNextEntry H) + length cs \<le> 2 ^ 31 \<Longrightarrow>
   \<exists>H'. run_sh cs H = Some (fst (spec_sh cs m), H') \<and> sh_holds H' (snd (spec_sh cs m))"
proof (induction cs arbitrary: H m)
  case Nil
  then show ?case by simp
next
  case (Cons c cs)
  have "unat (HtNextEntry H) < 2 ^ 31" using Cons.prems(2) by simp
  then obtain H1 where 1: "run_sh_call c H = Some (fst (spec_sh_call c m), H1)"
    "sh_holds H1 (snd (spec_sh_call c m))" "unat (HtNextEntry H1) \<le> Suc (unat (HtNextEntry H))"
    using run_sh_call_correct [OF Cons.prems(1)] by blast
  have "unat (HtNextEntry H1) + length cs \<le> 2 ^ 31" using 1(3) Cons.prems(2) by simp
  then obtain H2 where "run_sh cs H1 = Some (fst (spec_sh cs (snd (spec_sh_call c m))), H2)"
    "sh_holds H2 (snd (spec_sh cs (snd (spec_sh_call c m))))"
    using Cons.IH [OF 1(2)] by blast
  then show ?case using 1(1) by (simp add: case_prod_beta)
qed

lemma create_sh_holds: "unat n \<le> 2 ^ 31 \<Longrightarrow> sh_holds (PhCreateSimpleHashtable n) Map.empty"
  using create_inv [OF simple.hash_contract_axioms, of n]
  by (simp add: sh_holds_def PhCreateSimpleHashtable_def)

section \<open>Properties\<close>

text \<open>
  C7.  Any history of a simple hashtable refines a map: from \<open>PhCreateSimpleHashtable\<close>,
  every sequence of adding, finding, removing and clearing ends, touches no memory
  outside of the buckets and entries, and gives the results of the map: through
  collisions, reused free entries and doublings of the table alike.
\<close>

theorem PhSimpleHashtable_history:
  assumes "unat n \<le> 2 ^ 31" "length cs \<le> 2 ^ 31"
  shows "\<exists>H. run_sh cs (PhCreateSimpleHashtable n) = Some (fst (spec_sh cs Map.empty), H)
    \<and> sh_holds H (snd (spec_sh cs Map.empty))"
proof -
  have "HtNextEntry (PhCreateSimpleHashtable n) = 0"
    using create_inv(4) [OF simple.hash_contract_axioms assms(1)] by (simp add: PhCreateSimpleHashtable_def)
  then show ?thesis using run_sh_correct [OF create_sh_holds [OF assms(1)], of cs] assms(2) by simp
qed

theorem PhSimpleHashtable_history_witness:
  "\<exists>H. run_sh [AddKey 1 10, AddKey 2 20, AddKey 1 30, FindKey 1, RemoveKey 2, FindKey 2, AddKey 3 30]
      (PhCreateSimpleHashtable 1)
    = Some ([Added 10, Added 20, Added 0, Found (Some 10), Removed True, Found None, Added 30], H)
    \<and> sh_holds H ([1 \<mapsto> 10, 2 \<mapsto> 20](2 := None, 3 \<mapsto> 30))"
  using PhSimpleHashtable_history [of 1 "[AddKey 1 10, AddKey 2 20, AddKey 1 30, FindKey 1,
      RemoveKey 2, FindKey 2, AddKey 3 30]"]
  by simp

text \<open>
  C8.  Adding to a hashtable either returns the entry already there that is equal to the
  new one and changes nothing, or, when there is none, puts the new entry at a free index,
  leaves every other entry at its index and counts one more; also when the table has to
  double and redistribute its entries.
\<close>

theorem PhpAddEntryHashtable_correct:
  assumes "ht_inv H" "unat (HtNextEntry H) < 2 ^ 31"
  shows "(\<exists>i b. PhpAddEntryHashtable H x True = Some (i, False, H)
      \<and> ht_at H i = Some b \<and> EqualFunction H b x)
   \<or> (\<forall>j b. ht_at H j = Some b \<longrightarrow> \<not> EqualFunction H b x)
     \<and> (\<exists>i H'. PhpAddEntryHashtable H x True = Some (i, True, H') \<and> ht_inv H'
        \<and> ht_at H i = None \<and> ht_at H' = (ht_at H)(i \<mapsto> x) \<and> HtCount H' = HtCount H + 1)"
  using add_entry_correct [OF assms, of x] by blast

definition sample_ht :: simple_hashtable where
  "sample_ht = PhCreateHashtable PhpSimpleHashtableEqualFunction PhpSimpleHashtableHashFunction 4"

lemma sample_ht_inv: "ht_inv sample_ht" "ht_at sample_ht i = None" "HtNextEntry sample_ht = 0"
  using create_inv [OF simple.hash_contract_axioms, of 4] by (simp_all add: sample_ht_def)

theorem PhpAddEntryHashtable_correct_witness:
  "\<exists>i H'. PhpAddEntryHashtable sample_ht \<lparr>Key = 5, Value = 6\<rparr> True = Some (i, True, H')
    \<and> ht_at H' i = Some \<lparr>Key = 5, Value = 6\<rparr>"
proof -
  have "unat (HtNextEntry sample_ht) < 2 ^ 31" by (simp add: sample_ht_inv(3))
  then show ?thesis
    using PhpAddEntryHashtable_correct [OF sample_ht_inv(1), of "\<lparr>Key = 5, Value = 6\<rparr>"] sample_ht_inv(2)
    by (metis fun_upd_same option.distinct(1))
qed

text \<open>
  Finding returns the index of an entry equal to the one asked for, and null exactly
  when the hashtable holds none.
\<close>

theorem PhFindEntryHashtable_correct:
  assumes "ht_inv H"
  shows "\<exists>r. PhFindEntryHashtable H x = Some r \<and> (case r of
      None \<Rightarrow> \<forall>j b. ht_at H j = Some b \<longrightarrow> \<not> EqualFunction H b x
    | Some j \<Rightarrow> \<exists>b. ht_at H j = Some b \<and> EqualFunction H b x)"
proof -
  obtain ch fs where wf: "ht_wf H {} ch fs"
    and contract: "hash_contract (EqualFunction H) (HashFunction H)"
    using assms by (auto simp: ht_inv_def)
  obtain r where r: "PhFindEntryHashtable H x = Some r" and found: "found_in H x r"
    by (rule find_entry_correct [OF wf contract])
  from r found show ?thesis unfolding found_in_def by (intro exI conjI)
qed

lemma sample_added:
  obtains i H where "PhpAddEntryHashtable sample_ht \<lparr>Key = 5, Value = 6\<rparr> True = Some (i, True, H)"
    "ht_inv H" "ht_at H = [i \<mapsto> \<lparr>Key = 5, Value = 6\<rparr>]"
    "EqualFunction H = PhpSimpleHashtableEqualFunction"
proof -
  have "EqualFunction sample_ht = PhpSimpleHashtableEqualFunction"
    using create_inv(5) [OF simple.hash_contract_axioms, of 4] by (simp add: sample_ht_def)
  moreover have "ht_at sample_ht = Map.empty" by (rule ext) (rule sample_ht_inv(2))
  moreover have "unat (HtNextEntry sample_ht) < 2 ^ 31" by (simp add: sample_ht_inv(3))
  then have "\<exists>i H. PhpAddEntryHashtable sample_ht \<lparr>Key = 5, Value = 6\<rparr> True = Some (i, True, H)
      \<and> ht_inv H \<and> ht_at H = (ht_at sample_ht)(i \<mapsto> \<lparr>Key = 5, Value = 6\<rparr>)
      \<and> EqualFunction H = EqualFunction sample_ht"
    using add_entry_correct [OF sample_ht_inv(1), of "\<lparr>Key = 5, Value = 6\<rparr>"] sample_ht_inv(2)
    by (metis option.distinct(1))
  ultimately show ?thesis using that by metis
qed

theorem PhFindEntryHashtable_correct_witness:
  "\<exists>i H. PhpAddEntryHashtable sample_ht \<lparr>Key = 5, Value = 6\<rparr> True = Some (i, True, H)
    \<and> PhFindEntryHashtable H \<lparr>Key = 5, Value = 9\<rparr> = Some (Some i)"
proof -
  obtain i H where H: "PhpAddEntryHashtable sample_ht \<lparr>Key = 5, Value = 6\<rparr> True = Some (i, True, H)"
    "ht_inv H" "ht_at H = [i \<mapsto> \<lparr>Key = 5, Value = 6\<rparr>]"
    "EqualFunction H = PhpSimpleHashtableEqualFunction"
    by (rule sample_added)
  obtain r where "PhFindEntryHashtable H \<lparr>Key = 5, Value = 9\<rparr> = Some r" "case r of
      None \<Rightarrow> \<forall>j b. ht_at H j = Some b \<longrightarrow> \<not> EqualFunction H b \<lparr>Key = 5, Value = 9\<rparr>
    | Some j \<Rightarrow> \<exists>b. ht_at H j = Some b \<and> EqualFunction H b \<lparr>Key = 5, Value = 9\<rparr>"
    using PhFindEntryHashtable_correct [OF H(2)] by blast
  then show ?thesis
    using H by (cases r) (auto simp: PhpSimpleHashtableEqualFunction_def split: if_splits)
qed

text \<open>
  Removing takes out the entry equal to the one asked for, leaves the others at their
  indices and counts one less; when there is none it says so and changes nothing.
\<close>

theorem PhRemoveEntryHashtable_correct:
  assumes "ht_inv H"
  shows "(\<exists>j b H'. PhRemoveEntryHashtable H x = Some (True, H') \<and> ht_at H j = Some b
      \<and> EqualFunction H b x \<and> ht_inv H' \<and> ht_at H' = (ht_at H)(j := None)
      \<and> HtCount H' = HtCount H - 1)
   \<or> (\<forall>j b. ht_at H j = Some b \<longrightarrow> \<not> EqualFunction H b x)
     \<and> PhRemoveEntryHashtable H x = Some (False, H)"
  using remove_entry_correct [OF assms, of x] by blast

theorem PhRemoveEntryHashtable_correct_witness:
  "\<exists>i H H'. PhpAddEntryHashtable sample_ht \<lparr>Key = 5, Value = 6\<rparr> True = Some (i, True, H)
    \<and> PhRemoveEntryHashtable H \<lparr>Key = 5, Value = 9\<rparr> = Some (True, H') \<and> ht_at H' = Map.empty"
proof -
  obtain i H where H: "PhpAddEntryHashtable sample_ht \<lparr>Key = 5, Value = 6\<rparr> True = Some (i, True, H)"
    "ht_inv H" "ht_at H = [i \<mapsto> \<lparr>Key = 5, Value = 6\<rparr>]"
    "EqualFunction H = PhpSimpleHashtableEqualFunction"
    by (rule sample_added)
  then show ?thesis
    using PhRemoveEntryHashtable_correct [OF H(2), of "\<lparr>Key = 5, Value = 9\<rparr>"]
    by (auto simp: PhpSimpleHashtableEqualFunction_def split: if_splits)
qed

text \<open>
  \<open>PhEnumHashtable\<close>, called again with the key it leaves, gives the index of every
  entry of the hashtable, in increasing order, each once; there are \<open>Count\<close> of them.
\<close>

theorem PhEnumHashtable_correct:
  assumes "ht_inv H"
  shows "\<exists>k'. PhEnumHashtable H k =
      Some (case ht_indices H k of [] \<Rightarrow> None | i # is \<Rightarrow> Some i, k')
    \<and> ht_indices H k' = tl (ht_indices H k)
    \<and> set (ht_indices H 0) = dom (ht_at H) \<and> card (dom (ht_at H)) = unat (HtCount H)"
proof -
  obtain ch fs where "ht_wf H {} ch fs" using assms by (auto simp: ht_inv_def)
  then show ?thesis
    using enum_hashtable_correct [of H ch fs k] ht_indices_all [of H] count_entries(1) [OF assms] by blast
qed

theorem PhEnumHashtable_correct_witness:
  "\<exists>k'. PhEnumHashtable sample_ht 0 = Some (None, k')"
proof -
  have "ht_indices sample_ht 0 = []" by (simp add: ht_indices_def sample_ht_inv)
  then show ?thesis using PhEnumHashtable_correct [of sample_ht 0] sample_ht_inv(1) by auto
qed

end
