(* ===== verification/Threads.thy ===== *)
theory Threads
  imports Prelude
begin

text \<open>
  Counting threads by where they are, for the invariants of the concurrent components: a system
  of \<open>N\<close> threads has a function from threads to places, and a weight of places is summed over it.
\<close>

definition total :: "nat \<Rightarrow> ('p \<Rightarrow> nat) \<Rightarrow> (nat \<Rightarrow> 'p) \<Rightarrow> nat" where
  "total N f p = (\<Sum>i<N. f (p i))"

definition is_at :: "'p \<Rightarrow> 'p \<Rightarrow> nat" where
  "is_at x q = (if q = x then 1 else 0)"

lemma total_upd: "i < N \<Longrightarrow> total N f (p(i := q)) + f (p i) = total N f p + f q"
proof -
  assume i: "i < N"
  have split: "(\<Sum>j<N. g j) = g i + (\<Sum>j\<in>{..<N} - {i}. g j)" for g :: "nat \<Rightarrow> nat"
    by (rule sum.remove) (use i in auto)
  have "(\<Sum>j\<in>{..<N} - {i}. f ((p(i := q)) j)) = (\<Sum>j\<in>{..<N} - {i}. f (p j))"
    by (rule sum.cong) auto
  moreover have "total N f (p(i := q)) = f q + (\<Sum>j\<in>{..<N} - {i}. f ((p(i := q)) j))"
    unfolding total_def by (subst split) simp
  moreover have "total N f p = f (p i) + (\<Sum>j\<in>{..<N} - {i}. f (p j))"
    unfolding total_def by (rule split)
  ultimately show ?thesis by linarith
qed

lemma total_at_le: "total N (is_at x) p \<le> N"
proof -
  have "total N (is_at x) p \<le> (\<Sum>i<N. 1)" unfolding total_def by (rule sum_mono) (simp add: is_at_def)
  then show ?thesis by simp
qed

lemma total_pos:
  assumes "0 < total N f p"
  shows "\<exists>i < N. 0 < f (p i)"
proof (rule ccontr)
  assume "\<not> (\<exists>i < N. 0 < f (p i))"
  then have "total N f p = 0" unfolding total_def by (intro sum.neutral) simp
  then show False using assms by simp
qed

lemma total_member: "i < N \<Longrightarrow> f (p i) \<le> total N f p"
  unfolding total_def by (rule member_le_sum) auto

lemma total_two: "i < N \<Longrightarrow> j < N \<Longrightarrow> i \<noteq> j \<Longrightarrow> f (p i) + f (p j) \<le> total N f p"
proof -
  assume "i < N" "j < N" "i \<noteq> j"
  then have "(\<Sum>k\<in>{i, j}. f (p k)) \<le> total N f p" unfolding total_def by (intro sum_mono2) auto
  then show ?thesis using \<open>i \<noteq> j\<close> by simp
qed

lemma total_zero: "total N f p = 0 \<longleftrightarrow> (\<forall>i < N. f (p i) = 0)"
  by (auto simp: total_def)

lemma total_cong: "(\<And>i. i < N \<Longrightarrow> f (p i) = g (q i)) \<Longrightarrow> total N f p = total N g q"
  unfolding total_def by (rule sum.cong) auto

text \<open>Reading one field of a number that is made of fields.\<close>

lemma field_split: "a < m \<Longrightarrow> (a + m * b) div m = b" "a < m \<Longrightarrow> (a + m * b) mod m = a" for a b m :: nat
  by simp_all

end
