(* ===== verification/FastLock.thy ===== *)
theory FastLock
  imports Numbers Threads
begin

text \<open>
  The fast resource lock of \<open>phlib/fastlock.c\<close>: one word that holds an owned bit, a bit for
  an exclusive waiter being woken, and three counters of ten bits, and two semaphores.

  Every change of the word is an interlocked compare-exchange against the value read before,
  so an attempt that succeeds is a function of the current value, and one that fails changes
  nothing but the event it may have created.  The functions below are one turn of the loop of
  each operation; the step relation runs them in any order for any number of threads, with the
  release of a semaphore as a step of its own after the exchange.
\<close>

unbundle bit_operations_syntax

section \<open>The lock word\<close>

definition PH_LOCK_OWNED :: ulong where "PH_LOCK_OWNED = 0x1"
definition PH_LOCK_EXCLUSIVE_WAKING :: ulong where "PH_LOCK_EXCLUSIVE_WAKING = 0x2"
definition PH_LOCK_SHARED_OWNERS_SHIFT :: nat where "PH_LOCK_SHARED_OWNERS_SHIFT = 2"
definition PH_LOCK_SHARED_OWNERS_MASK :: ulong where "PH_LOCK_SHARED_OWNERS_MASK = 0x3ff"
definition PH_LOCK_SHARED_OWNERS_INC :: ulong where "PH_LOCK_SHARED_OWNERS_INC = 0x4"
definition PH_LOCK_SHARED_WAITERS_SHIFT :: nat where "PH_LOCK_SHARED_WAITERS_SHIFT = 12"
definition PH_LOCK_SHARED_WAITERS_MASK :: ulong where "PH_LOCK_SHARED_WAITERS_MASK = 0x3ff"
definition PH_LOCK_SHARED_WAITERS_INC :: ulong where "PH_LOCK_SHARED_WAITERS_INC = 0x1000"
definition PH_LOCK_EXCLUSIVE_WAITERS_SHIFT :: nat where "PH_LOCK_EXCLUSIVE_WAITERS_SHIFT = 22"
definition PH_LOCK_EXCLUSIVE_WAITERS_MASK :: ulong where "PH_LOCK_EXCLUSIVE_WAITERS_MASK = 0x3ff"
definition PH_LOCK_EXCLUSIVE_WAITERS_INC :: ulong where "PH_LOCK_EXCLUSIVE_WAITERS_INC = 0x400000"

definition PH_LOCK_EXCLUSIVE_MASK :: ulong where
  "PH_LOCK_EXCLUSIVE_MASK = PH_LOCK_EXCLUSIVE_WAKING OR
     push_bit PH_LOCK_EXCLUSIVE_WAITERS_SHIFT PH_LOCK_EXCLUSIVE_WAITERS_MASK"

definition SharedOwners :: "ulong \<Rightarrow> ulong" where
  "SharedOwners v = drop_bit PH_LOCK_SHARED_OWNERS_SHIFT v AND PH_LOCK_SHARED_OWNERS_MASK"

definition SharedWaiters :: "ulong \<Rightarrow> ulong" where
  "SharedWaiters v = drop_bit PH_LOCK_SHARED_WAITERS_SHIFT v AND PH_LOCK_SHARED_WAITERS_MASK"

definition ExclusiveWaiters :: "ulong \<Rightarrow> ulong" where
  "ExclusiveWaiters v = drop_bit PH_LOCK_EXCLUSIVE_WAITERS_SHIFT v AND PH_LOCK_EXCLUSIVE_WAITERS_MASK"

lemmas lock_consts = PH_LOCK_OWNED_def PH_LOCK_EXCLUSIVE_WAKING_def PH_LOCK_SHARED_OWNERS_SHIFT_def
  PH_LOCK_SHARED_OWNERS_MASK_def PH_LOCK_SHARED_OWNERS_INC_def PH_LOCK_SHARED_WAITERS_SHIFT_def
  PH_LOCK_SHARED_WAITERS_MASK_def PH_LOCK_SHARED_WAITERS_INC_def PH_LOCK_EXCLUSIVE_WAITERS_SHIFT_def
  PH_LOCK_EXCLUSIVE_WAITERS_MASK_def PH_LOCK_EXCLUSIVE_WAITERS_INC_def

section \<open>The operations\<close>

text \<open>
  What a turn of an acquiring loop asks the compare-exchange to store: it takes the lock, or
  queues up and waits, or goes round without an exchange.
\<close>

datatype attempt = Take ulong | Wait ulong | Again

definition PhfAcquireFastLockExclusive :: "ulong \<Rightarrow> bool \<Rightarrow> attempt" where
  "PhfAcquireFastLockExclusive value spun = (
     if value AND (PH_LOCK_OWNED OR PH_LOCK_EXCLUSIVE_WAKING) = 0 then Take (value + PH_LOCK_OWNED)
     else if spun then Wait (value + PH_LOCK_EXCLUSIVE_WAITERS_INC)
     else Again)"

text \<open>The exchange of a thread that has been woken.\<close>

definition PhfAcquireFastLockExclusive_woken :: "ulong \<Rightarrow> ulong" where
  "PhfAcquireFastLockExclusive_woken value = value + PH_LOCK_OWNED - PH_LOCK_EXCLUSIVE_WAKING"

definition PhfAcquireFastLockShared :: "ulong \<Rightarrow> bool \<Rightarrow> attempt" where
  "PhfAcquireFastLockShared value spun = (
     if value AND (PH_LOCK_OWNED OR push_bit PH_LOCK_SHARED_OWNERS_SHIFT PH_LOCK_SHARED_OWNERS_MASK
          OR PH_LOCK_EXCLUSIVE_MASK) = 0 then
       Take (value + PH_LOCK_OWNED + PH_LOCK_SHARED_OWNERS_INC)
     else if value AND PH_LOCK_OWNED \<noteq> 0 \<and> SharedOwners value > 0
          \<and> value AND PH_LOCK_EXCLUSIVE_MASK = 0 then
       Take (value + PH_LOCK_SHARED_OWNERS_INC)
     else if spun then Wait (value + PH_LOCK_SHARED_WAITERS_INC)
     else Again)"

text \<open>The new value, and how much the two semaphores are to be released by.\<close>

definition PhfReleaseFastLockExclusive :: "ulong \<Rightarrow> ulong \<times> nat \<times> nat" where
  "PhfReleaseFastLockExclusive value = (
     if ExclusiveWaiters value \<noteq> 0 then
       (value - PH_LOCK_OWNED + PH_LOCK_EXCLUSIVE_WAKING - PH_LOCK_EXCLUSIVE_WAITERS_INC, 1, 0)
     else
       (value AND NOT (PH_LOCK_OWNED OR push_bit PH_LOCK_SHARED_WAITERS_SHIFT PH_LOCK_SHARED_WAITERS_MASK),
        0, unat (SharedWaiters value)))"

definition PhfReleaseFastLockShared :: "ulong \<Rightarrow> ulong \<times> nat" where
  "PhfReleaseFastLockShared value = (
     if SharedOwners value > 1 then (value - PH_LOCK_SHARED_OWNERS_INC, 0)
     else if ExclusiveWaiters value \<noteq> 0 then
       (value - PH_LOCK_OWNED + PH_LOCK_EXCLUSIVE_WAKING - PH_LOCK_SHARED_OWNERS_INC
          - PH_LOCK_EXCLUSIVE_WAITERS_INC, 1)
     else (value - PH_LOCK_OWNED - PH_LOCK_SHARED_OWNERS_INC, 0))"

definition PhfTryAcquireFastLockExclusive :: "ulong \<Rightarrow> ulong option" where
  "PhfTryAcquireFastLockExclusive value = (
     if value AND (PH_LOCK_OWNED OR PH_LOCK_EXCLUSIVE_WAKING) \<noteq> 0 then None
     else Some (value + PH_LOCK_OWNED))"

definition PhfTryAcquireFastLockShared :: "ulong \<Rightarrow> ulong option" where
  "PhfTryAcquireFastLockShared value = (
     if value AND PH_LOCK_EXCLUSIVE_MASK \<noteq> 0 then None
     else if value AND PH_LOCK_OWNED = 0 then Some (value + PH_LOCK_OWNED + PH_LOCK_SHARED_OWNERS_INC)
     else if SharedOwners value \<noteq> 0 then Some (value + PH_LOCK_SHARED_OWNERS_INC)
     else None)"

section \<open>Threads\<close>

text \<open>An event that has not been created is \<open>None\<close>; a created one is the count of a semaphore.\<close>

record fast_lock =
  Value :: ulong
  ExclusiveWakeEvent :: "nat option"
  SharedWakeEvent :: "nat option"

definition PhInitializeFastLock :: fast_lock where
  "PhInitializeFastLock = \<lparr>Value = 0, ExclusiveWakeEvent = None, SharedWakeEvent = None\<rparr>"

definition PhDeleteFastLock :: "fast_lock \<Rightarrow> fast_lock" where
  "PhDeleteFastLock FastLock = FastLock\<lparr>ExclusiveWakeEvent := None, SharedWakeEvent := None\<rparr>"

definition PhpEnsureEventCreated :: "nat option \<Rightarrow> nat option" where
  "PhpEnsureEventCreated event = (case event of None \<Rightarrow> Some 0 | Some n \<Rightarrow> Some n)"

text \<open>Where a thread is: outside of a held lock and of a wait, in a wait, woken, holding the
  lock, or about to release a semaphore.\<close>

datatype place = Running | WaitsExclusive | Woken | OwnsExclusive | WaitsShared | OwnsShared
  | WakesExclusive | WakesShared nat

record lock_system =
  lock :: fast_lock
  place_of :: "nat \<Rightarrow> place"

definition goes :: "nat \<Rightarrow> place \<Rightarrow> lock_system \<Rightarrow> lock_system" where
  "goes i p s = s\<lparr>place_of := (place_of s)(i := p)\<rparr>"

definition set_value :: "ulong \<Rightarrow> lock_system \<Rightarrow> lock_system" where
  "set_value v s = s\<lparr>lock := (lock s)\<lparr>Value := v\<rparr>\<rparr>"

definition set_exclusive_event :: "nat option \<Rightarrow> lock_system \<Rightarrow> lock_system" where
  "set_exclusive_event e s = s\<lparr>lock := (lock s)\<lparr>ExclusiveWakeEvent := e\<rparr>\<rparr>"

definition set_shared_event :: "nat option \<Rightarrow> lock_system \<Rightarrow> lock_system" where
  "set_shared_event e s = s\<lparr>lock := (lock s)\<lparr>SharedWakeEvent := e\<rparr>\<rparr>"

text \<open>
  A retry is a turn whose exchange failed, or that asked for none: the value it had read may
  be of any moment, so the step has no guard but the place of the thread.
\<close>

inductive lock_step :: "nat \<Rightarrow> lock_system \<Rightarrow> lock_system \<Rightarrow> bool" for i :: nat where
  take_exclusive: "place_of s i = Running \<Longrightarrow>
    PhfAcquireFastLockExclusive (Value (lock s)) spun = Take v \<Longrightarrow>
    lock_step i s (goes i OwnsExclusive (set_value v s))"
| queue_exclusive: "place_of s i = Running \<Longrightarrow>
    PhfAcquireFastLockExclusive (Value (lock s)) True = Wait v \<Longrightarrow>
    lock_step i s (goes i WaitsExclusive (set_value v
      (set_exclusive_event (PhpEnsureEventCreated (ExclusiveWakeEvent (lock s))) s)))"
| retry_exclusive: "place_of s i = Running \<Longrightarrow>
    lock_step i s (set_exclusive_event (PhpEnsureEventCreated (ExclusiveWakeEvent (lock s))) s)"
| wake_exclusive: "place_of s i = WaitsExclusive \<Longrightarrow> ExclusiveWakeEvent (lock s) = Some (Suc n) \<Longrightarrow>
    lock_step i s (goes i Woken (set_exclusive_event (Some n) s))"
| take_woken: "place_of s i = Woken \<Longrightarrow>
    lock_step i s (goes i OwnsExclusive
      (set_value (PhfAcquireFastLockExclusive_woken (Value (lock s))) s))"
| take_shared: "place_of s i = Running \<Longrightarrow>
    PhfAcquireFastLockShared (Value (lock s)) spun = Take v \<Longrightarrow>
    lock_step i s (goes i OwnsShared (set_value v s))"
| queue_shared: "place_of s i = Running \<Longrightarrow>
    PhfAcquireFastLockShared (Value (lock s)) True = Wait v \<Longrightarrow>
    lock_step i s (goes i WaitsShared (set_value v
      (set_shared_event (PhpEnsureEventCreated (SharedWakeEvent (lock s))) s)))"
| retry_shared: "place_of s i = Running \<Longrightarrow>
    lock_step i s (set_shared_event (PhpEnsureEventCreated (SharedWakeEvent (lock s))) s)"
| wake_shared: "place_of s i = WaitsShared \<Longrightarrow> SharedWakeEvent (lock s) = Some (Suc n) \<Longrightarrow>
    lock_step i s (goes i Running (set_shared_event (Some n) s))"
| try_exclusive: "place_of s i = Running \<Longrightarrow>
    PhfTryAcquireFastLockExclusive (Value (lock s)) = Some v \<Longrightarrow>
    lock_step i s (goes i OwnsExclusive (set_value v s))"
| try_shared: "place_of s i = Running \<Longrightarrow>
    PhfTryAcquireFastLockShared (Value (lock s)) = Some v \<Longrightarrow>
    lock_step i s (goes i OwnsShared (set_value v s))"
| release_exclusive: "place_of s i = OwnsExclusive \<Longrightarrow>
    PhfReleaseFastLockExclusive (Value (lock s)) = (v, e, n) \<Longrightarrow>
    lock_step i s (goes i (if e \<noteq> 0 then WakesExclusive else if n \<noteq> 0 then WakesShared n else Running)
      (set_value v s))"
| release_shared: "place_of s i = OwnsShared \<Longrightarrow>
    PhfReleaseFastLockShared (Value (lock s)) = (v, e) \<Longrightarrow>
    lock_step i s (goes i (if e \<noteq> 0 then WakesExclusive else Running) (set_value v s))"
| signal_exclusive: "place_of s i = WakesExclusive \<Longrightarrow> ExclusiveWakeEvent (lock s) = Some n \<Longrightarrow>
    lock_step i s (goes i Running (set_exclusive_event (Some (Suc n)) s))"
| signal_shared: "place_of s i = WakesShared k \<Longrightarrow> SharedWakeEvent (lock s) = Some n \<Longrightarrow>
    lock_step i s (goes i Running (set_shared_event (Some (n + k)) s))"

inductive_cases lock_stepE: "lock_step i s t"

text \<open>The states that \<open>N\<close> threads reach.\<close>

inductive lock_reachable :: "nat \<Rightarrow> lock_system \<Rightarrow> bool" for N :: nat where
  start: "lock_reachable N \<lparr>lock = PhInitializeFastLock, place_of = (\<lambda>_. Running)\<rparr>"
| move: "lock_reachable N s \<Longrightarrow> i < N \<Longrightarrow> lock_step i s t \<Longrightarrow> lock_reachable N t"

section \<open>The fields of the word\<close>

definition word_fields :: "ulong \<Rightarrow> nat \<Rightarrow> nat \<Rightarrow> nat \<Rightarrow> nat \<Rightarrow> nat \<Rightarrow> bool" where
  "word_fields v ow wk so sw ew \<longleftrightarrow> ow < 2 \<and> wk < 2 \<and> so < 1024 \<and> sw < 1024 \<and> ew < 1024
     \<and> unat v = ow + 2 * wk + 4 * so + 4096 * sw + 4194304 * ew"

lemma counter_unat: "unat (drop_bit k v AND 0x3ff :: ulong) = unat v div 2 ^ k mod 1024"
proof -
  have "drop_bit k v AND 0x3ff = drop_bit k v AND mask 10" by (simp add: mask_eq_exp_minus_1)
  then show ?thesis
    unfolding take_bit_eq_mask [symmetric]
    by (simp only: unsigned_take_bit_eq unsigned_drop_bit_eq)
      (subst take_bit_nat_eq_self, use unsigned_less [of v, where ?'a = nat] in
        \<open>simp_all add: take_bit_eq_mod drop_bit_eq_div\<close>)
qed

lemma counters:
  assumes "word_fields v ow wk so sw ew"
  shows "unat (SharedOwners v) = so" "unat (SharedWaiters v) = sw" "unat (ExclusiveWaiters v) = ew"
proof -
  have lt: "ow + 2 * wk < 4" "ow + 2 * wk + 4 * so < 4096" "ow + 2 * wk + 4 * so + 4096 * sw < 4194304"
    "so < 1024" "sw < 1024" "ew < 1024"
    using assms by (auto simp: word_fields_def)
  have v: "unat v = (ow + 2 * wk) + 4 * (so + 1024 * (sw + 1024 * ew))"
    "unat v = (ow + 2 * wk + 4 * so) + 4096 * (sw + 1024 * ew)"
    "unat v = (ow + 2 * wk + 4 * so + 4096 * sw) + 4194304 * ew"
    using assms by (auto simp: word_fields_def)
  have "unat v div 4 = so + 1024 * (sw + 1024 * ew)" unfolding v(1) by (rule field_split(1) [OF lt(1)])
  moreover have "unat v div 4096 = sw + 1024 * ew" unfolding v(2) by (rule field_split(1) [OF lt(2)])
  moreover have "unat v div 4194304 = ew" unfolding v(3) by (rule field_split(1) [OF lt(3)])
  moreover have "(so + 1024 * (sw + 1024 * ew)) mod 1024 = so" "(sw + 1024 * ew) mod 1024 = sw" "ew mod 1024 = ew"
    by (simp_all only: field_split(2) [OF lt(4)] field_split(2) [OF lt(5)] mod_less [OF lt(6)])
  ultimately have n: "unat v div 4 mod 1024 = so" "unat v div 4096 mod 1024 = sw" "unat v div 4194304 mod 1024 = ew"
    by (simp_all only:)
  show "unat (SharedOwners v) = so" "unat (SharedWaiters v) = sw" "unat (ExclusiveWaiters v) = ew"
    using n by (simp_all add: SharedOwners_def SharedWaiters_def ExclusiveWaiters_def lock_consts counter_unat)
qed

lemma low_bits:
  assumes "word_fields v ow wk so sw ew"
  shows "v AND 1 = 0 \<longleftrightarrow> ow = 0" "v AND 2 = 0 \<longleftrightarrow> wk = 0"
proof -
  have "unat v = ow + 2 * (wk + 2 * (so + 1024 * (sw + 1024 * ew)))" "ow < 2" "wk < 2"
    using assms by (auto simp: word_fields_def)
  then have "unat v mod 2 = ow" "unat v div 2 = wk + 2 * (so + 1024 * (sw + 1024 * ew))" "wk < 2"
    by (simp_all only: field_split)
  moreover from this(2,3) have "unat v div 2 mod 2 = wk" by (simp only: field_split)
  ultimately have "odd (unat v) \<longleftrightarrow> ow \<noteq> 0" "odd (unat v div 2) \<longleftrightarrow> wk \<noteq> 0"
    by (simp_all only: odd_iff_mod_2_eq_one) (use \<open>ow < 2\<close> \<open>wk < 2\<close> in auto)
  then show "v AND 1 = 0 \<longleftrightarrow> ow = 0" "v AND 2 = 0 \<longleftrightarrow> wk = 0"
    using and_exp_eq_0_iff_not_bit [of v 0] and_exp_eq_0_iff_not_bit [of v 1]
    by (simp_all add: bit_unat)
qed

lemma shifted_mask: "k + 10 \<le> 32 \<Longrightarrow> v AND push_bit k 0x3ff = 0 \<longleftrightarrow> drop_bit k v AND 0x3ff = 0" for v :: ulong
proof -
  assume k: "k + 10 \<le> 32"
  have m: "(0x3ff :: ulong) = mask 10" by (simp add: mask_eq_exp_minus_1)
  have "v AND push_bit k (mask 10) = push_bit k (drop_bit k v AND mask 10)"
    by (rule bit_word_eqI) (auto simp: bit_simps)
  moreover have "drop_bit k (push_bit k (drop_bit k v AND mask 10)) = drop_bit k v AND mask 10"
  proof (rule bit_word_eqI)
    fix n assume "n < LENGTH(32)"
    then show "bit (drop_bit k (push_bit k (drop_bit k v AND mask 10))) n = bit (drop_bit k v AND mask 10) n"
      using k by (auto simp: bit_simps)
  qed
  ultimately show ?thesis unfolding m by (metis drop_bit_of_0 push_bit_of_0)
qed

lemma and_or_0: "v AND (a OR b) = 0 \<longleftrightarrow> v AND a = 0 \<and> v AND b = 0" for v :: ulong
  by (simp add: bit.conj_disj_distrib or_eq_0_iff)

lemma counter_0: "(w :: ulong) = 0 \<longleftrightarrow> unat w = 0" "0 < w \<longleftrightarrow> 0 < unat w" "1 < w \<longleftrightarrow> 1 < unat w"
  by (simp_all add: unat_eq_0 word_less_nat_alt)

text \<open>The tests of the operations, on the fields.\<close>

lemma lock_tests:
  assumes "word_fields v ow wk so sw ew"
  shows "v AND (PH_LOCK_OWNED OR PH_LOCK_EXCLUSIVE_WAKING) = 0 \<longleftrightarrow> ow = 0 \<and> wk = 0"
    "v AND PH_LOCK_OWNED = 0 \<longleftrightarrow> ow = 0"
    "v AND PH_LOCK_EXCLUSIVE_MASK = 0 \<longleftrightarrow> wk = 0 \<and> ew = 0"
    "v AND (PH_LOCK_OWNED OR push_bit PH_LOCK_SHARED_OWNERS_SHIFT PH_LOCK_SHARED_OWNERS_MASK
       OR PH_LOCK_EXCLUSIVE_MASK) = 0 \<longleftrightarrow> ow = 0 \<and> so = 0 \<and> wk = 0 \<and> ew = 0"
    "0 < SharedOwners v \<longleftrightarrow> 0 < so" "1 < SharedOwners v \<longleftrightarrow> 1 < so" "SharedOwners v = 0 \<longleftrightarrow> so = 0"
    "ExclusiveWaiters v = 0 \<longleftrightarrow> ew = 0"
proof -
  note c = counters [OF assms]
  have so: "v AND push_bit 2 0x3ff = 0 \<longleftrightarrow> so = 0"
  proof -
    have "drop_bit 2 v AND 0x3ff = 0 \<longleftrightarrow> so = 0"
      using c(1) unfolding SharedOwners_def lock_consts by (simp only: counter_0(1))
    then show ?thesis using shifted_mask [of 2 v] by linarith
  qed
  have ew: "v AND push_bit 22 0x3ff = 0 \<longleftrightarrow> ew = 0"
  proof -
    have "drop_bit 22 v AND 0x3ff = 0 \<longleftrightarrow> ew = 0"
      using c(3) unfolding ExclusiveWaiters_def lock_consts by (simp only: counter_0(1))
    then show ?thesis using shifted_mask [of 22 v] by linarith
  qed
  note bits = low_bits [OF assms]
  show "v AND (PH_LOCK_OWNED OR PH_LOCK_EXCLUSIVE_WAKING) = 0 \<longleftrightarrow> ow = 0 \<and> wk = 0"
    unfolding lock_consts and_or_0 bits ..
  show "v AND PH_LOCK_OWNED = 0 \<longleftrightarrow> ow = 0" unfolding lock_consts bits ..
  show m: "v AND PH_LOCK_EXCLUSIVE_MASK = 0 \<longleftrightarrow> wk = 0 \<and> ew = 0"
    unfolding PH_LOCK_EXCLUSIVE_MASK_def lock_consts and_or_0 bits ew ..
  show "v AND (PH_LOCK_OWNED OR push_bit PH_LOCK_SHARED_OWNERS_SHIFT PH_LOCK_SHARED_OWNERS_MASK
       OR PH_LOCK_EXCLUSIVE_MASK) = 0 \<longleftrightarrow> ow = 0 \<and> so = 0 \<and> wk = 0 \<and> ew = 0"
    unfolding and_or_0 m unfolding lock_consts bits so ..
  show "0 < SharedOwners v \<longleftrightarrow> 0 < so" "1 < SharedOwners v \<longleftrightarrow> 1 < so" "SharedOwners v = 0 \<longleftrightarrow> so = 0"
    "ExclusiveWaiters v = 0 \<longleftrightarrow> ew = 0"
    by (simp_all add: counter_0 c)
qed

lemma fields_word:
  "word_fields v ow wk so sw ew \<longleftrightarrow> ow < 2 \<and> wk < 2 \<and> so < 1024 \<and> sw < 1024 \<and> ew < 1024
     \<and> v = of_nat ow + 2 * of_nat wk + 4 * of_nat so + 4096 * of_nat sw + 4194304 * of_nat ew"
proof -
  have word: "unat v = n \<longleftrightarrow> v = of_nat n" if "n < 2 ^ 32" for n
    using that by (auto simp: unsigned_of_nat take_bit_nat_eq_self)
  show ?thesis
  proof (cases "ow < 2 \<and> wk < 2 \<and> so < 1024 \<and> sw < 1024 \<and> ew < 1024")
    case True
    then have "ow + 2 * wk + 4 * so + 4096 * sw + 4194304 * ew < 2 ^ 32" by auto
    from word [OF this] show ?thesis unfolding word_fields_def by simp
  qed (auto simp: word_fields_def)
qed

lemma field_values:
  assumes "word_fields v ow wk so sw ew"
  shows "ow = 0 \<Longrightarrow> word_fields (v + PH_LOCK_OWNED) 1 wk so sw ew"
    "ow = 0 \<Longrightarrow> Suc so < 1024 \<Longrightarrow> word_fields (v + PH_LOCK_OWNED + PH_LOCK_SHARED_OWNERS_INC) 1 wk (Suc so) sw ew"
    "Suc so < 1024 \<Longrightarrow> word_fields (v + PH_LOCK_SHARED_OWNERS_INC) ow wk (Suc so) sw ew"
    "Suc sw < 1024 \<Longrightarrow> word_fields (v + PH_LOCK_SHARED_WAITERS_INC) ow wk so (Suc sw) ew"
    "Suc ew < 1024 \<Longrightarrow> word_fields (v + PH_LOCK_EXCLUSIVE_WAITERS_INC) ow wk so sw (Suc ew)"
    "ow = 0 \<Longrightarrow> wk = 1 \<Longrightarrow> word_fields (v + PH_LOCK_OWNED - PH_LOCK_EXCLUSIVE_WAKING) 1 0 so sw ew"
    "ow = 1 \<Longrightarrow> wk = 0 \<Longrightarrow> ew = Suc e \<Longrightarrow>
      word_fields (v - PH_LOCK_OWNED + PH_LOCK_EXCLUSIVE_WAKING - PH_LOCK_EXCLUSIVE_WAITERS_INC) 0 1 so sw e"
    "ow = 1 \<Longrightarrow> wk = 0 \<Longrightarrow> so = Suc p \<Longrightarrow> ew = Suc e \<Longrightarrow>
      word_fields (v - PH_LOCK_OWNED + PH_LOCK_EXCLUSIVE_WAKING - PH_LOCK_SHARED_OWNERS_INC
        - PH_LOCK_EXCLUSIVE_WAITERS_INC) 0 1 p sw e"
    "so = Suc p \<Longrightarrow> word_fields (v - PH_LOCK_SHARED_OWNERS_INC) ow wk p sw ew"
    "ow = 1 \<Longrightarrow> so = Suc p \<Longrightarrow> word_fields (v - PH_LOCK_OWNED - PH_LOCK_SHARED_OWNERS_INC) 0 wk p sw ew"
  using assms by (auto simp: fields_word lock_consts algebra_simps)

lemma clear_shared_waiters:
  assumes "word_fields v 1 0 0 sw 0"
  shows "v AND NOT (PH_LOCK_OWNED OR push_bit PH_LOCK_SHARED_WAITERS_SHIFT PH_LOCK_SHARED_WAITERS_MASK) = 0"
proof -
  have v: "v = 1 + push_bit 12 (of_nat sw)" and sw: "sw < 1024"
    using assms by (auto simp: fields_word push_bit_eq_mult mult.commute)
  have s: "(of_nat sw :: ulong) = of_nat sw AND mask 10"
    unfolding take_bit_eq_mask [symmetric] using sw by (simp add: take_bit_of_nat take_bit_nat_eq_self)
  let ?w = "of_nat sw :: ulong"
  have "1 AND push_bit 12 ?w = 0" by (rule bit_word_eqI) (auto simp: bit_simps)
  then have "v = 1 OR push_bit 12 (?w AND mask 10)"
    unfolding v using disjunctive_add_eq_or [of 1 "push_bit 12 ?w"] s by simp
  moreover have "(1 OR push_bit 12 (?w AND mask 10)) AND NOT (1 OR push_bit 12 (mask 10)) = 0"
    by (rule bit_word_eqI) (auto simp: bit_simps)
  moreover have "(0x3ff :: ulong) = mask 10" by (simp add: mask_eq_exp_minus_1)
  ultimately show ?thesis unfolding lock_consts by (simp only:)
qed

section \<open>The invariant\<close>

fun tokens :: "place \<Rightarrow> nat" where
  "tokens (WakesShared n) = n"
| "tokens _ = 0"

definition signals :: "nat option \<Rightarrow> nat" where
  "signals event = (case event of None \<Rightarrow> 0 | Some n \<Rightarrow> n)"

text \<open>
  The word against the places of the threads: the owned bit is an exclusive owner or some
  shared owners, the waking bit is one wake-up on its way, and each waiting thread is either
  in a counter of the word or has a wake-up on its way.  Nobody is left in a counter of a
  lock that is free.
\<close>

definition counts :: "nat \<Rightarrow> nat \<Rightarrow> nat \<Rightarrow> nat \<Rightarrow> nat \<Rightarrow> nat \<Rightarrow> nat option \<Rightarrow> nat option
    \<Rightarrow> (nat \<Rightarrow> place) \<Rightarrow> bool" where
  "counts N ow wk so sw ew ex sh p \<longleftrightarrow>
     total N (is_at OwnsShared) p = so
   \<and> ow = total N (is_at OwnsExclusive) p + (if so = 0 then 0 else 1)
   \<and> wk = total N (is_at Woken) p + total N (is_at WakesExclusive) p + signals ex
   \<and> total N (is_at WaitsExclusive) p = ew + total N (is_at WakesExclusive) p + signals ex
   \<and> total N (is_at WaitsShared) p = sw + total N tokens p + signals sh
   \<and> ow + wk < 2
   \<and> (ew = 0 \<or> ow + wk > 0)
   \<and> (sw = 0 \<or> total N (is_at OwnsExclusive) p > 0 \<or> wk > 0 \<or> ew > 0)
   \<and> (ex \<noteq> None \<or> ew + total N (is_at WakesExclusive) p = 0)
   \<and> (sh \<noteq> None \<or> sw + total N tokens p = 0)"

definition lock_inv :: "nat \<Rightarrow> lock_system \<Rightarrow> bool" where
  "lock_inv N s \<longleftrightarrow> (\<exists>ow wk so sw ew. word_fields (Value (lock s)) ow wk so sw ew
     \<and> counts N ow wk so sw ew (ExclusiveWakeEvent (lock s)) (SharedWakeEvent (lock s)) (place_of s))"

lemma lock_inv_start: "lock_inv N \<lparr>lock = PhInitializeFastLock, place_of = (\<lambda>_. Running)\<rparr>"
proof -
  have "word_fields 0 0 0 0 0 0" by (simp add: word_fields_def)
  moreover have "counts N 0 0 0 0 0 None None (\<lambda>_. Running)"
    by (simp add: counts_def total_def is_at_def signals_def)
  ultimately show ?thesis unfolding lock_inv_def PhInitializeFastLock_def lock_system.simps fast_lock.simps by blast
qed

lemmas system_simps = goes_def set_value_def set_exclusive_event_def set_shared_event_def

lemma signals_simps [simp]: "signals (Some n) = n" "signals None = 0"
  "signals (PhpEnsureEventCreated e) = signals e" "PhpEnsureEventCreated e \<noteq> None"
  by (auto simp: signals_def PhpEnsureEventCreated_def split: option.splits)

text \<open>How the totals change when one thread moves.\<close>

lemma moved:
  assumes "i < N" "p i = a"
  shows "total N (is_at x) (p(i := b)) + is_at x a = total N (is_at x) p + is_at x b"
    "total N tokens (p(i := b)) + tokens a = total N tokens p + tokens b"
  using total_upd [OF assms(1), of _ p b] assms(2) by metis+

lemma moved_all:
  assumes "i < N" "p i = a"
  shows "total N (is_at OwnsShared) (p(i := b)) + is_at OwnsShared a = total N (is_at OwnsShared) p + is_at OwnsShared b"
    "total N (is_at OwnsExclusive) (p(i := b)) + is_at OwnsExclusive a
       = total N (is_at OwnsExclusive) p + is_at OwnsExclusive b"
    "total N (is_at Woken) (p(i := b)) + is_at Woken a = total N (is_at Woken) p + is_at Woken b"
    "total N (is_at WakesExclusive) (p(i := b)) + is_at WakesExclusive a
       = total N (is_at WakesExclusive) p + is_at WakesExclusive b"
    "total N (is_at WaitsExclusive) (p(i := b)) + is_at WaitsExclusive a
       = total N (is_at WaitsExclusive) p + is_at WaitsExclusive b"
    "total N (is_at WaitsShared) (p(i := b)) + is_at WaitsShared a
       = total N (is_at WaitsShared) p + is_at WaitsShared b"
    "total N tokens (p(i := b)) + tokens a = total N tokens p + tokens b"
  by (rule moved [where p = p, OF assms])+

lemma lock_invI:
  "word_fields v ow wk so sw ew \<Longrightarrow> counts N ow wk so sw ew ex sh p \<Longrightarrow> Value (lock t) = v \<Longrightarrow>
    ExclusiveWakeEvent (lock t) = ex \<Longrightarrow> SharedWakeEvent (lock t) = sh \<Longrightarrow> place_of t = p \<Longrightarrow> lock_inv N t"
  unfolding lock_inv_def by blast

lemma lock_step_inv:
  assumes "lock_step i s t" "i < N" "N < 1024" "lock_inv N s"
  shows "lock_inv N t"
proof -
  obtain ow wk so sw ew where f: "word_fields (Value (lock s)) ow wk so sw ew"
    and c: "counts N ow wk so sw ew (ExclusiveWakeEvent (lock s)) (SharedWakeEvent (lock s)) (place_of s)"
    using assms(4) by (auto simp: lock_inv_def)
  note le = total_at_le [of N]
  note tests = lock_tests [OF f]
  note c = c [unfolded counts_def]
  have exclusive: "lock_inv N (goes i OwnsExclusive (set_value (Value (lock s) + PH_LOCK_OWNED) s))"
    if "place_of s i = Running" "ow = 0" "wk = 0"
  proof -
    have W: "word_fields (Value (lock s) + PH_LOCK_OWNED) 1 wk so sw ew" using field_values(1) [OF f that(2)] .
    have C: "counts N 1 wk so sw ew (ExclusiveWakeEvent (lock s)) (SharedWakeEvent (lock s)) ((place_of s)(i := OwnsExclusive))"
      using c moved_all [where p = "place_of s", OF assms(2) that(1), of OwnsExclusive] that(2,3)
      by (auto simp: counts_def is_at_def split: if_splits)
    from W C show ?thesis by (rule lock_invI) (simp_all add: system_simps)
  qed
  have shared: "lock_inv N (goes i OwnsShared (set_value v s))"
    if "place_of s i = Running" "ow = 0 \<and> so = 0 \<and> wk = 0 \<and> ew = 0 \<and> v = Value (lock s) + PH_LOCK_OWNED + PH_LOCK_SHARED_OWNERS_INC
      \<or> ow \<noteq> 0 \<and> 0 < so \<and> wk = 0 \<and> ew = 0 \<and> v = Value (lock s) + PH_LOCK_SHARED_OWNERS_INC" for v
  proof -
    have "Suc so < 1024"
      using c moved_all [where p = "place_of s", OF assms(2) that(1), of OwnsShared] assms(3)
        le [of OwnsShared "(place_of s)(i := OwnsShared)"] by (auto simp: is_at_def)
    then have W: "word_fields v 1 wk (Suc so) sw ew"
      using field_values(2,3) [OF f] that(2) f by (auto simp: word_fields_def less_2_cases_iff)
    have C: "counts N 1 wk (Suc so) sw ew (ExclusiveWakeEvent (lock s)) (SharedWakeEvent (lock s)) ((place_of s)(i := OwnsShared))"
      using c moved_all [where p = "place_of s", OF assms(2) that(1), of OwnsShared] that(2)
      by (auto simp: counts_def is_at_def split: if_splits)
    from W C show ?thesis by (rule lock_invI) (simp_all add: system_simps)
  qed
  show ?thesis using assms(1)
  proof (cases rule: lock_step.cases)
    case (take_exclusive spun v)
    then have "ow = 0" "wk = 0" "v = Value (lock s) + PH_LOCK_OWNED"
      by (auto simp: PhfAcquireFastLockExclusive_def tests split: if_splits)
    then show ?thesis using exclusive [OF take_exclusive(2)] by (simp add: take_exclusive)
  next
    case (queue_exclusive v)
    then have q: "ow \<noteq> 0 \<or> wk \<noteq> 0" "v = Value (lock s) + PH_LOCK_EXCLUSIVE_WAITERS_INC"
      by (auto simp: PhfAcquireFastLockExclusive_def tests split: if_splits)
    have m: "Suc ew < 1024"
      using c moved_all [where p = "place_of s", OF assms(2) queue_exclusive(2), of WaitsExclusive] assms(3)
        le [of WaitsExclusive "(place_of s)(i := WaitsExclusive)"] by (auto simp: is_at_def)
    then have W: "word_fields v ow wk so sw (Suc ew)" using field_values(5) [OF f] q(2) by simp
    have C: "counts N ow wk so sw (Suc ew) (PhpEnsureEventCreated (ExclusiveWakeEvent (lock s))) (SharedWakeEvent (lock s)) ((place_of s)(i := WaitsExclusive))"
      using c moved_all [where p = "place_of s", OF assms(2) queue_exclusive(2), of WaitsExclusive] q(1)
      by (auto simp: counts_def is_at_def split: if_splits)
    from W C show ?thesis by (rule lock_invI) (simp_all add: system_simps queue_exclusive)
  next
    case retry_exclusive
    have C: "counts N ow wk so sw ew (PhpEnsureEventCreated (ExclusiveWakeEvent (lock s))) (SharedWakeEvent (lock s)) (place_of s)"
      using c by (auto simp: counts_def)
    from f C show ?thesis by (rule lock_invI) (simp_all add: system_simps retry_exclusive)
  next
    case (wake_exclusive n)
    have C: "counts N ow wk so sw ew (Some n) (SharedWakeEvent (lock s)) ((place_of s)(i := Woken))"
      using c moved_all [where p = "place_of s", OF assms(2) wake_exclusive(2), of Woken] wake_exclusive(3)
      by (auto simp: counts_def is_at_def)
    from f C show ?thesis by (rule lock_invI) (simp_all add: system_simps wake_exclusive)
  next
    case take_woken
    have "0 < total N (is_at Woken) (place_of s)"
      using total_member [OF assms(2), of "is_at Woken" "place_of s"] take_woken(2) by (simp add: is_at_def)
    then have w: "wk = 1" "ow = 0" using c by auto
    then have W: "word_fields (PhfAcquireFastLockExclusive_woken (Value (lock s))) 1 0 so sw ew"
      using field_values(6) [OF f] by (simp add: PhfAcquireFastLockExclusive_woken_def)
    have C: "counts N 1 0 so sw ew (ExclusiveWakeEvent (lock s)) (SharedWakeEvent (lock s)) ((place_of s)(i := OwnsExclusive))"
      using c moved_all [where p = "place_of s", OF assms(2) take_woken(2), of OwnsExclusive] w
      by (auto simp: counts_def is_at_def split: if_splits)
    from W C show ?thesis by (rule lock_invI) (simp_all add: system_simps take_woken)
  next
    case (take_shared spun v)
    then have "ow = 0 \<and> so = 0 \<and> wk = 0 \<and> ew = 0 \<and> v = Value (lock s) + PH_LOCK_OWNED + PH_LOCK_SHARED_OWNERS_INC
      \<or> ow \<noteq> 0 \<and> 0 < so \<and> wk = 0 \<and> ew = 0 \<and> v = Value (lock s) + PH_LOCK_SHARED_OWNERS_INC"
      by (auto simp: PhfAcquireFastLockShared_def tests split: if_splits)
    then show ?thesis using shared [OF take_shared(2)] by (simp add: take_shared)
  next
    case (queue_shared v)
    then have q: "\<not> (ow = 0 \<and> so = 0 \<and> wk = 0 \<and> ew = 0)" "\<not> (ow \<noteq> 0 \<and> 0 < so \<and> wk = 0 \<and> ew = 0)"
        "v = Value (lock s) + PH_LOCK_SHARED_WAITERS_INC"
      by (auto simp: PhfAcquireFastLockShared_def tests split: if_splits)
    have m: "Suc sw < 1024"
      using c moved_all [where p = "place_of s", OF assms(2) queue_shared(2), of WaitsShared] assms(3)
        le [of WaitsShared "(place_of s)(i := WaitsShared)"] by (auto simp: is_at_def)
    then have W: "word_fields v ow wk so (Suc sw) ew" using field_values(4) [OF f] q(3) by simp
    have C: "counts N ow wk so (Suc sw) ew (ExclusiveWakeEvent (lock s)) (PhpEnsureEventCreated (SharedWakeEvent (lock s))) ((place_of s)(i := WaitsShared))"
      using c moved_all [where p = "place_of s", OF assms(2) queue_shared(2), of WaitsShared] q(1,2)
      by (auto simp: counts_def is_at_def split: if_splits)
    from W C show ?thesis by (rule lock_invI) (simp_all add: system_simps queue_shared)
  next
    case retry_shared
    have C: "counts N ow wk so sw ew (ExclusiveWakeEvent (lock s)) (PhpEnsureEventCreated (SharedWakeEvent (lock s))) (place_of s)"
      using c by (auto simp: counts_def)
    from f C show ?thesis by (rule lock_invI) (simp_all add: system_simps retry_shared)
  next
    case (wake_shared n)
    have C: "counts N ow wk so sw ew (ExclusiveWakeEvent (lock s)) (Some n) ((place_of s)(i := Running))"
      using c moved_all [where p = "place_of s", OF assms(2) wake_shared(2), of Running] wake_shared(3)
      by (auto simp: counts_def is_at_def)
    from f C show ?thesis by (rule lock_invI) (simp_all add: system_simps wake_shared)
  next
    case (try_exclusive v)
    then have "ow = 0" "wk = 0" "v = Value (lock s) + PH_LOCK_OWNED"
      by (auto simp: PhfTryAcquireFastLockExclusive_def tests split: if_splits)
    then show ?thesis using exclusive [OF try_exclusive(2)] by (simp add: try_exclusive)
  next
    case (try_shared v)
    then have "ow = 0 \<and> wk = 0 \<and> ew = 0 \<and> v = Value (lock s) + PH_LOCK_OWNED + PH_LOCK_SHARED_OWNERS_INC
      \<or> ow \<noteq> 0 \<and> 0 < so \<and> wk = 0 \<and> ew = 0 \<and> v = Value (lock s) + PH_LOCK_SHARED_OWNERS_INC"
      by (auto simp: PhfTryAcquireFastLockShared_def tests split: if_splits)
    moreover have "ow = 0 \<Longrightarrow> so = 0" using c by (auto split: if_splits)
    ultimately show ?thesis using shared [OF try_shared(2)] by (auto simp: try_shared)
  next
    case (release_exclusive v e n)
    have "0 < total N (is_at OwnsExclusive) (place_of s)"
      using total_member [OF assms(2), of "is_at OwnsExclusive" "place_of s"] release_exclusive(2)
      by (simp add: is_at_def)
    then have o: "ow = 1" "so = 0" "wk = 0" "total N (is_at OwnsExclusive) (place_of s) = 1"
      using c by (auto split: if_splits)
    show ?thesis
    proof (cases ew)
      case 0
      then have r: "v = 0" "e = 0" "n = sw"
        using release_exclusive(3) clear_shared_waiters [of "Value (lock s)" sw] f o counters(2) [OF f]
        by (auto simp: PhfReleaseFastLockExclusive_def tests)
      let ?q = "if sw \<noteq> 0 then WakesShared sw else Running"
      have W: "word_fields 0 0 0 0 0 0" by (simp add: word_fields_def)
      have C: "counts N 0 0 0 0 0 (ExclusiveWakeEvent (lock s)) (SharedWakeEvent (lock s)) ((place_of s)(i := ?q))"
        using c moved_all [where p = "place_of s", OF assms(2) release_exclusive(2), of ?q] o 0
        by (auto simp: counts_def is_at_def split: if_splits)
      from W C show ?thesis by (rule lock_invI) (simp_all add: system_simps release_exclusive(1) r)
    next
      case (Suc k)
      then have r: "v = Value (lock s) - PH_LOCK_OWNED + PH_LOCK_EXCLUSIVE_WAKING - PH_LOCK_EXCLUSIVE_WAITERS_INC" "e = 1"
        using release_exclusive(3) by (auto simp: PhfReleaseFastLockExclusive_def tests)
      then have W: "word_fields v 0 1 so sw k" using field_values(7) [OF f] o Suc by simp
      have C: "counts N 0 1 so sw k (ExclusiveWakeEvent (lock s)) (SharedWakeEvent (lock s)) ((place_of s)(i := WakesExclusive))"
        using c moved_all [where p = "place_of s", OF assms(2) release_exclusive(2), of WakesExclusive] o Suc
        by (auto simp: counts_def is_at_def split: if_splits)
      from W C show ?thesis by (rule lock_invI) (simp_all add: system_simps release_exclusive(1) r)
    qed
  next
    case (release_shared v e)
    have "0 < total N (is_at OwnsShared) (place_of s)"
      using total_member [OF assms(2), of "is_at OwnsShared" "place_of s"] release_shared(2)
      by (simp add: is_at_def)
    then obtain p where o: "ow = 1" "so = Suc p" "wk = 0" "total N (is_at OwnsExclusive) (place_of s) = 0"
      using c by (cases so) (auto split: if_splits)
    consider "p \<noteq> 0" | k where "p = 0" "ew = Suc k" | "p = 0" "ew = 0" by (cases ew) auto
    then show ?thesis
    proof cases
      case 1
      then have r: "v = Value (lock s) - PH_LOCK_SHARED_OWNERS_INC" "e = 0"
        using release_shared(3) o by (auto simp: PhfReleaseFastLockShared_def tests)
      then have W: "word_fields v ow wk p sw ew" using field_values(9) [OF f] o by simp
      have C: "counts N ow wk p sw ew (ExclusiveWakeEvent (lock s)) (SharedWakeEvent (lock s)) ((place_of s)(i := Running))"
        using c moved_all [where p = "place_of s", OF assms(2) release_shared(2), of Running] o 1
        by (auto simp: counts_def is_at_def split: if_splits)
      from W C show ?thesis by (rule lock_invI) (simp_all add: system_simps release_shared(1) r)
    next
      case 2
      then have r: "v = Value (lock s) - PH_LOCK_OWNED + PH_LOCK_EXCLUSIVE_WAKING - PH_LOCK_SHARED_OWNERS_INC
          - PH_LOCK_EXCLUSIVE_WAITERS_INC" "e = 1"
        using release_shared(3) o by (auto simp: PhfReleaseFastLockShared_def tests)
      then have W: "word_fields v 0 1 p sw k" using field_values(8) [OF f] o 2 by simp
      have C: "counts N 0 1 p sw k (ExclusiveWakeEvent (lock s)) (SharedWakeEvent (lock s)) ((place_of s)(i := WakesExclusive))"
        using c moved_all [where p = "place_of s", OF assms(2) release_shared(2), of WakesExclusive] o 2
        by (auto simp: counts_def is_at_def split: if_splits)
      from W C show ?thesis by (rule lock_invI) (simp_all add: system_simps release_shared(1) r)
    next
      case 3
      then have r: "v = Value (lock s) - PH_LOCK_OWNED - PH_LOCK_SHARED_OWNERS_INC" "e = 0"
        using release_shared(3) o by (auto simp: PhfReleaseFastLockShared_def tests)
      then have W: "word_fields v 0 wk p sw ew" using field_values(10) [OF f] o by simp
      have C: "counts N 0 wk p sw ew (ExclusiveWakeEvent (lock s)) (SharedWakeEvent (lock s)) ((place_of s)(i := Running))"
        using c moved_all [where p = "place_of s", OF assms(2) release_shared(2), of Running] o 3
        by (auto simp: counts_def is_at_def split: if_splits)
      from W C show ?thesis by (rule lock_invI) (simp_all add: system_simps release_shared(1) r)
    qed
  next
    case (signal_exclusive n)
    have C: "counts N ow wk so sw ew (Some (Suc n)) (SharedWakeEvent (lock s)) ((place_of s)(i := Running))"
      using c moved_all [where p = "place_of s", OF assms(2) signal_exclusive(2), of Running] signal_exclusive(3)
      by (auto simp: counts_def is_at_def)
    from f C show ?thesis by (rule lock_invI) (simp_all add: system_simps signal_exclusive)
  next
    case (signal_shared k n)
    have C: "counts N ow wk so sw ew (ExclusiveWakeEvent (lock s)) (Some (n + k)) ((place_of s)(i := Running))"
      using c moved_all [where p = "place_of s", OF assms(2) signal_shared(2), of Running] signal_shared(3)
      by (auto simp: counts_def is_at_def)
    from f C show ?thesis by (rule lock_invI) (simp_all add: system_simps signal_shared)
  qed
qed

lemma reachable_inv: "lock_reachable N s \<Longrightarrow> N < 1024 \<Longrightarrow> lock_inv N s"
  by (induction rule: lock_reachable.induct) (auto intro: lock_inv_start lock_step_inv)

lemma reachable_place: "lock_reachable N s \<Longrightarrow> \<not> i < N \<Longrightarrow> place_of s i = Running"
proof (induction rule: lock_reachable.induct)
  case (move s j t)
  from move(3) show ?case
    by (cases rule: lock_step.cases) (use move(2,4) move.prems in \<open>auto simp: system_simps\<close>)
qed simp

section \<open>The properties\<close>

text \<open>
  C13.  With fewer than 1024 threads, in every state the threads can reach by any interleaving
  of acquiring, trying, waiting, waking and releasing, a thread that holds the lock
  exclusively holds it alone.
\<close>

theorem PhFastLock_exclusion:
  assumes "lock_reachable N s" "N < 1024" "place_of s i = OwnsExclusive" "i \<noteq> j"
  shows "place_of s j \<noteq> OwnsExclusive \<and> place_of s j \<noteq> OwnsShared"
proof -
  obtain ow so where c: "total N (is_at OwnsShared) (place_of s) = so"
    "ow = total N (is_at OwnsExclusive) (place_of s) + (if so = 0 then 0 else 1)" "ow < 2"
    using reachable_inv [OF assms(1,2)] by (auto simp: lock_inv_def counts_def)
  have i: "i < N" using reachable_place [OF assms(1), of i] assms(3) by fastforce
  show ?thesis
  proof (cases "j < N")
    case True
    have "is_at OwnsExclusive (place_of s j) = 0" "is_at OwnsShared (place_of s j) = 0"
      using total_two [OF i True assms(4), of "is_at OwnsExclusive" "place_of s"]
        total_member [OF i, of "is_at OwnsExclusive" "place_of s"]
        total_member [OF True, of "is_at OwnsShared" "place_of s"] c assms(3)
      by (auto simp: is_at_def split: if_splits)
    then show ?thesis by (auto simp: is_at_def)
  next
    case False
    then show ?thesis using reachable_place [OF assms(1), of j] by simp
  qed
qed

definition one_owner :: lock_system where
  "one_owner = goes 0 OwnsExclusive (set_value 1 \<lparr>lock = PhInitializeFastLock, place_of = (\<lambda>_. Running)\<rparr>)"

lemma one_owner_reachable: "lock_reachable 2 one_owner"
proof (rule lock_reachable.move [OF lock_reachable.start])
  show "lock_step 0 \<lparr>lock = PhInitializeFastLock, place_of = (\<lambda>_. Running)\<rparr> one_owner"
    unfolding one_owner_def
    by (rule lock_step.take_exclusive [where spun = False])
      (simp_all add: PhInitializeFastLock_def PhfAcquireFastLockExclusive_def lock_consts)
qed simp

theorem PhFastLock_exclusion_witness:
  "lock_reachable 2 one_owner \<and> place_of one_owner 1 \<noteq> OwnsShared"
  using PhFastLock_exclusion [OF one_owner_reachable, of 0 1] one_owner_reachable
  by (simp add: one_owner_def goes_def)

text \<open>
  C14.  No wake-up is lost: while a thread waits for the lock, some thread holds it or is on
  its way to it or about to wake somebody, or a semaphore is up that lets a waiting thread
  go on.
\<close>

definition on_its_way :: "place \<Rightarrow> bool" where
  "on_its_way q \<longleftrightarrow> q = OwnsExclusive \<or> q = OwnsShared \<or> q = Woken \<or> q = WakesExclusive \<or> (\<exists>n. q = WakesShared n)"

theorem PhFastLock_no_lost_wakeup:
  assumes "lock_reachable N s" "N < 1024" "place_of s i = WaitsExclusive \<or> place_of s i = WaitsShared"
  shows "(\<exists>j. on_its_way (place_of s j)) \<or> 0 < signals (ExclusiveWakeEvent (lock s))
    \<or> 0 < signals (SharedWakeEvent (lock s))"
proof (rule ccontr)
  assume quiet: "\<not> ?thesis"
  have none: "total N (is_at x) (place_of s) = 0" if "on_its_way x" for x
    using quiet that total_pos [of N "is_at x" "place_of s"] by (fastforce simp: is_at_def split: if_splits)
  have "total N tokens (place_of s) = 0"
  proof (rule ccontr)
    assume "total N tokens (place_of s) \<noteq> 0"
    then obtain j where "0 < tokens (place_of s j)" using total_pos [of N tokens "place_of s"] by auto
    then have "on_its_way (place_of s j)" by (cases "place_of s j") (auto simp: on_its_way_def)
    then show False using quiet by blast
  qed
  then have "total N (is_at WaitsExclusive) (place_of s) = 0" "total N (is_at WaitsShared) (place_of s) = 0"
    using reachable_inv [OF assms(1,2)] none quiet
    by (auto simp: lock_inv_def counts_def on_its_way_def split: if_splits)
  moreover have "i < N" using reachable_place [OF assms(1), of i] assms(3) by fastforce
  ultimately show False
    using total_member [of i N "is_at WaitsExclusive" "place_of s"]
      total_member [of i N "is_at WaitsShared" "place_of s"] assms(3) by (auto simp: is_at_def)
qed

definition one_waiter :: lock_system where
  "one_waiter = goes 1 WaitsShared (set_value 0x1001 (set_shared_event (Some 0) one_owner))"

lemma one_waiter_reachable: "lock_reachable 2 one_waiter"
proof (rule lock_reachable.move [OF one_owner_reachable])
  have v: "Value (lock one_owner) = 1" "SharedWakeEvent (lock one_owner) = None" "place_of one_owner 1 = Running"
    by (simp_all add: one_owner_def system_simps PhInitializeFastLock_def)
  have "word_fields 1 1 0 0 0 0" by (simp add: word_fields_def)
  note tests = lock_tests [OF this]
  have "PhfAcquireFastLockShared 1 True = Wait 0x1001"
    by (simp add: PhfAcquireFastLockShared_def tests) (simp add: lock_consts)
  then show "lock_step 1 one_owner one_waiter"
    using lock_step.queue_shared [of one_owner 1 "0x1001"] v by (simp add: one_waiter_def PhpEnsureEventCreated_def)
qed simp

theorem PhFastLock_no_lost_wakeup_witness:
  "(\<exists>j. on_its_way (place_of one_waiter j)) \<or> 0 < signals (ExclusiveWakeEvent (lock one_waiter))
    \<or> 0 < signals (SharedWakeEvent (lock one_waiter))"
  using PhFastLock_no_lost_wakeup [OF one_waiter_reachable, of 1] by (simp add: one_waiter_def goes_def)


end
