(* ===== verification/StringRefs.thy ===== *)
theory StringRefs
  imports Numbers Buffers
begin

text \<open>
  Memory of UTF-16 units, the vector instructions the string routines of \<open>phlib/basesup.c\<close>
  use, and the string references of \<open>phbasesup.h\<close>: a length in bytes and a pointer to units
  that somebody else owns.  Comparing, searching, splitting, trimming and reversing them.

  Memory maps the address of a unit to the unit; an access to an address that is not
  mapped has no result.  \<open>PhpVectorLevel\<close> is the Boolean \<open>vec\<close>: whether the processor has
  SSE2.  \<open>up\<close> is \<open>RtlUpcaseUnicodeChar\<close>.  A difference of pointers is taken between pointers
  into one buffer, the higher one first, and so is not negative.
\<close>

unbundle bit_operations_syntax

type_synonym memory = "ulong64 \<Rightarrow> ushort option"
type_synonym slong = "32 word"

abbreviation (input) NULL_PTR :: ulong64 where "NULL_PTR \<equiv> 0"
abbreviation (input) SIZE_MAX :: ulong64 where "SIZE_MAX \<equiv> - 1"

section \<open>Memory\<close>

fun read_units :: "memory \<Rightarrow> ulong64 \<Rightarrow> nat \<Rightarrow> ushort list option" where
  "read_units mem p 0 = Some []"
| "read_units mem p (Suc n) = do {
     c \<leftarrow> mem p;
     cs \<leftarrow> read_units mem (p + 2) n;
     Some (c # cs)
   }"

definition write_unit :: "memory \<Rightarrow> ulong64 \<Rightarrow> ushort \<Rightarrow> memory option" where
  "write_unit mem p c = (case mem p of None \<Rightarrow> None | Some _ \<Rightarrow> Some (mem(p \<mapsto> c)))"

text \<open>The C library: \<open>wcslen\<close>, \<open>wcschr\<close> and \<open>wcsrchr\<close> read up to the null terminator.\<close>

partial_function (option) wcslen :: "memory \<Rightarrow> ulong64 \<Rightarrow> ulong64 option" where
  "wcslen mem p = do {
     c \<leftarrow> mem p;
     if c = 0 then Some 0 else do { n \<leftarrow> wcslen mem (p + 2); Some (n + 1) }
   }"

partial_function (option) wcschr :: "memory \<Rightarrow> ulong64 \<Rightarrow> ushort \<Rightarrow> ulong64 option" where
  "wcschr mem p x = do {
     c \<leftarrow> mem p;
     if c = x then Some p else if c = 0 then Some NULL_PTR else wcschr mem (p + 2) x
   }"

partial_function (option) wcsrchr_from ::
  "memory \<Rightarrow> ulong64 \<Rightarrow> ushort \<Rightarrow> ulong64 \<Rightarrow> ulong64 option" where
  "wcsrchr_from mem p x seen = do {
     c \<leftarrow> mem p;
     let seen = (if c = x then p else seen);
     if c = 0 then Some seen else wcsrchr_from mem (p + 2) x seen
   }"

section \<open>Vector instructions\<close>

text \<open>A vector register is its eight 16-bit lanes, the low one first.\<close>

type_synonym xmm = "ushort list"

definition mm_load_si128 :: "memory \<Rightarrow> ulong64 \<Rightarrow> xmm option" where
  "mm_load_si128 mem p = (if p AND 0xf = 0 then read_units mem p 8 else None)"

definition mm_loadu_si128 :: "memory \<Rightarrow> ulong64 \<Rightarrow> xmm option" where
  "mm_loadu_si128 mem p = read_units mem p 8"

definition mm_set1_epi16 :: "ushort \<Rightarrow> xmm" where
  "mm_set1_epi16 c = replicate 8 c"

definition mm_cmpeq_epi16 :: "xmm \<Rightarrow> xmm \<Rightarrow> xmm" where
  "mm_cmpeq_epi16 a b = map2 (\<lambda>x y. if x = y then 0xffff else 0) a b"

fun mm_cmpeq_epi32 :: "xmm \<Rightarrow> xmm \<Rightarrow> xmm" where
  "mm_cmpeq_epi32 (a # b # as) (c # d # cs) =
     (if a = c \<and> b = d then [0xffff, 0xffff] else [0, 0]) @ mm_cmpeq_epi32 as cs"
| "mm_cmpeq_epi32 _ _ = []"

text \<open>The top bit of every byte.\<close>

definition mm_movemask_epi8 :: "xmm \<Rightarrow> ulong" where
  "mm_movemask_epi8 a = horner_sum of_bool 2 (concat (map (\<lambda>x. [bit x 7, bit x 15]) a))"

definition BitScanForward :: "ulong \<Rightarrow> ulong option" where
  "BitScanForward m = map_option of_nat (find (bit m) [0..<32])"

definition BitScanReverse :: "ulong \<Rightarrow> ulong option" where
  "BitScanReverse m = map_option of_nat (find (bit m) (rev [0..<32]))"

section \<open>Counting\<close>

partial_function (option) PhCountStringZ_blocks :: "memory \<Rightarrow> ulong64 \<Rightarrow> ulong64 \<Rightarrow> ulong64 option" where
  "PhCountStringZ_blocks mem String p = do {
     b \<leftarrow> mm_load_si128 mem p;
     case BitScanForward (mm_movemask_epi8 (mm_cmpeq_epi16 b (mm_set1_epi16 0))) of
       Some index \<Rightarrow> Some ((p - String) div 2 + ucast index div 2)
     | None \<Rightarrow> PhCountStringZ_blocks mem String (p + 16)
   }"

definition PhCountStringZ :: "bool \<Rightarrow> memory \<Rightarrow> ulong64 \<Rightarrow> ulong64 option" where
  "PhCountStringZ vec mem String = (
     if vec then
       let p = String AND NOT 0xe;
           unaligned = ucast String AND 0xf :: ulong
       in if unaligned \<noteq> 0 then do {
            b \<leftarrow> mm_load_si128 mem p;
            let bits = drop_bit (unat unaligned) (mm_movemask_epi8 (mm_cmpeq_epi16 b (mm_set1_epi16 0)));
            case BitScanForward bits of
              Some index \<Rightarrow> Some (ucast (index div 2))
            | None \<Rightarrow> PhCountStringZ_blocks mem String (p + 16)
          }
          else PhCountStringZ_blocks mem String p
     else wcslen mem String)"

section \<open>String references\<close>

record ph_stringref =
  Length :: ulong64
  Buffer :: ulong64

definition PhInitializeStringRef :: "memory \<Rightarrow> ulong64 \<Rightarrow> ph_stringref option" where
  "PhInitializeStringRef mem B = do { n \<leftarrow> wcslen mem B; Some \<lparr>Length = n * 2, Buffer = B\<rparr> }"

definition PhInitializeStringRefLongHint :: "bool \<Rightarrow> memory \<Rightarrow> ulong64 \<Rightarrow> ph_stringref option" where
  "PhInitializeStringRefLongHint vec mem B =
     do { n \<leftarrow> PhCountStringZ vec mem B; Some \<lparr>Length = n * 2, Buffer = B\<rparr> }"

definition PhInitializeEmptyStringRef :: ph_stringref where
  "PhInitializeEmptyStringRef = \<lparr>Length = 0, Buffer = NULL_PTR\<rparr>"

definition PhSkipStringRef :: "ph_stringref \<Rightarrow> ulong64 \<Rightarrow> ph_stringref" where
  "PhSkipStringRef S n = S\<lparr>Buffer := Buffer S + n, Length := Length S - n\<rparr>"

text \<open>The counted string of the system: 16-bit lengths in bytes.\<close>

record unicode_string =
  UsLength :: ushort
  UsMaximumLength :: ushort
  UsBuffer :: ulong64

definition UNICODE_STRING_MAX_BYTES :: ushort where
  "UNICODE_STRING_MAX_BYTES = 65534"

definition PhStringRefToUnicodeString :: "ph_stringref \<Rightarrow> bool \<times> unicode_string" where
  "PhStringRefToUnicodeString S =
     (Length S \<le> ucast UNICODE_STRING_MAX_BYTES,
      \<lparr>UsLength = ucast (Length S), UsMaximumLength = ucast (Length S) + 2, UsBuffer = Buffer S\<rparr>)"

definition PhUnicodeStringToStringRef :: "unicode_string \<Rightarrow> ph_stringref" where
  "PhUnicodeStringToStringRef U = \<lparr>Length = ucast (UsLength U), Buffer = UsBuffer U\<rparr>"

subsection \<open>Comparing\<close>

text \<open>The test inside of the comparing loops: the units to compare, after folding.\<close>

definition fold_pair :: "(ushort \<Rightarrow> ushort) \<Rightarrow> bool \<Rightarrow> ushort \<Rightarrow> ushort \<Rightarrow> ushort \<times> ushort" where
  "fold_pair up IgnoreCase c1 c2 = (if IgnoreCase \<and> c1 \<noteq> c2 then (up c1, up c2) else (c1, c2))"

partial_function (option) PhCompareStringRef_loop ::
  "(ushort \<Rightarrow> ushort) \<Rightarrow> bool \<Rightarrow> memory \<Rightarrow> ulong64 \<Rightarrow> ulong64 \<Rightarrow> ulong64 \<Rightarrow> slong option option" where
  "PhCompareStringRef_loop up IgnoreCase mem stop s1 s2 = (
     if s1 = stop then Some None
     else do {
       c1 \<leftarrow> mem s1;
       c2 \<leftarrow> mem s2;
       let (c1, c2) = fold_pair up IgnoreCase c1 c2;
       if c1 \<noteq> c2 then Some (Some (ucast c1 - ucast c2))
       else PhCompareStringRef_loop up IgnoreCase mem stop (s1 + 2) (s2 + 2)
     })"

definition PhCompareStringRef ::
  "(ushort \<Rightarrow> ushort) \<Rightarrow> memory \<Rightarrow> ph_stringref \<Rightarrow> ph_stringref \<Rightarrow> bool \<Rightarrow> slong option" where
  "PhCompareStringRef up mem String1 String2 IgnoreCase = (
     let l1 = Length String1; l2 = Length String2 in
     if l1 AND 1 \<noteq> 0 \<or> l2 AND 1 \<noteq> 0 then None
     else do {
       r \<leftarrow> PhCompareStringRef_loop up IgnoreCase mem (Buffer String1 + (if l1 \<le> l2 then l1 else l2))
         (Buffer String1) (Buffer String2);
       case r of Some d \<Rightarrow> Some d | None \<Rightarrow> Some (ucast (l1 - l2))
     })"

text \<open>One block of 16 bytes, and one of the size of a pointer.\<close>

definition equal_si128 :: "memory \<Rightarrow> ulong64 \<Rightarrow> ulong64 \<Rightarrow> bool option" where
  "equal_si128 mem s1 s2 = do {
     b1 \<leftarrow> mm_loadu_si128 mem s1;
     b2 \<leftarrow> mm_loadu_si128 mem s2;
     Some (mm_movemask_epi8 (mm_cmpeq_epi32 b1 b2) = 0xffff)
   }"

definition equal_ulong_ptr :: "memory \<Rightarrow> ulong64 \<Rightarrow> ulong64 \<Rightarrow> bool option" where
  "equal_ulong_ptr mem s1 s2 = do {
     b1 \<leftarrow> read_units mem s1 4;
     b2 \<leftarrow> read_units mem s2 4;
     Some (b1 = b2)
   }"

text \<open>The block loop returns where it stopped and how many blocks were left.\<close>

function PhEqualStringRef_blocks ::
  "(ulong64 \<Rightarrow> ulong64 \<Rightarrow> bool option) \<Rightarrow> ulong64 \<Rightarrow> ulong64 \<Rightarrow> ulong64 \<Rightarrow> ulong64
   \<Rightarrow> (ulong64 \<times> ulong64 \<times> ulong64) option" where
  "PhEqualStringRef_blocks equal_block bytes s1 s2 n = (
     if n \<noteq> 0 then do {
       e \<leftarrow> equal_block s1 s2;
       if e then PhEqualStringRef_blocks equal_block bytes (s1 + bytes) (s2 + bytes) (n - 1)
       else Some (s1, s2, n)
     }
     else Some (s1, s2, 0))"
  by auto
termination
  by (relation "measure (\<lambda>(e, z, s1, s2, n). unat n)") (auto simp: unat_minus_one unat_gt_0)

function PhEqualStringRef_characters ::
  "(ushort \<Rightarrow> ushort) \<Rightarrow> bool \<Rightarrow> memory \<Rightarrow> ulong64 \<Rightarrow> ulong64 \<Rightarrow> ulong64 \<Rightarrow> bool option" where
  "PhEqualStringRef_characters up IgnoreCase mem s1 s2 l1 = (
     if l1 \<noteq> 0 then do {
       c1 \<leftarrow> mem s1;
       c2 \<leftarrow> mem s2;
       let (c1, c2) = fold_pair up IgnoreCase c1 c2;
       if c1 \<noteq> c2 then Some False
       else PhEqualStringRef_characters up IgnoreCase mem (s1 + 2) (s2 + 2) (l1 - 1)
     }
     else Some True)"
  by auto
termination
  by (relation "measure (\<lambda>(u, c, m, s1, s2, n). unat n)") (auto simp: unat_minus_one unat_gt_0)

definition PhEqualStringRef ::
  "bool \<Rightarrow> (ushort \<Rightarrow> ushort) \<Rightarrow> memory \<Rightarrow> ph_stringref \<Rightarrow> ph_stringref \<Rightarrow> bool \<Rightarrow> bool option" where
  "PhEqualStringRef vec up mem String1 String2 IgnoreCase = (
     let l1 = Length String1; l2 = Length String2;
         bytes = (if vec then 16 else 8);
         equal_block = (if vec then equal_si128 mem else equal_ulong_ptr mem)
     in
     if l1 AND 1 \<noteq> 0 \<or> l2 AND 1 \<noteq> 0 then None
     else if l1 \<noteq> l2 then Some False
     else do {
       (s1, s2, n) \<leftarrow> PhEqualStringRef_blocks equal_block bytes (Buffer String1) (Buffer String2) (l1 div bytes);
       if n \<noteq> 0 \<and> \<not> IgnoreCase then Some False
       else PhEqualStringRef_characters up IgnoreCase mem s1 s2 ((n * bytes + (l1 AND (bytes - 1))) div 2)
     })"

definition PhCompareStringRef2 ::
  "(ushort \<Rightarrow> ushort) \<Rightarrow> memory \<Rightarrow> ph_stringref \<Rightarrow> ulong64 \<Rightarrow> bool \<Rightarrow> slong option" where
  "PhCompareStringRef2 up mem String1 String2 IgnoreCase = do {
     sr2 \<leftarrow> PhInitializeStringRef mem String2;
     PhCompareStringRef up mem String1 sr2 IgnoreCase
   }"

definition PhEqualStringRef2 ::
  "bool \<Rightarrow> (ushort \<Rightarrow> ushort) \<Rightarrow> memory \<Rightarrow> ph_stringref \<Rightarrow> ulong64 \<Rightarrow> bool \<Rightarrow> bool option" where
  "PhEqualStringRef2 vec up mem String1 String2 IgnoreCase = do {
     sr2 \<leftarrow> PhInitializeStringRef mem String2;
     PhEqualStringRef vec up mem String1 sr2 IgnoreCase
   }"

definition PhStartsWithStringRef ::
  "bool \<Rightarrow> (ushort \<Rightarrow> ushort) \<Rightarrow> memory \<Rightarrow> ph_stringref \<Rightarrow> ph_stringref \<Rightarrow> bool \<Rightarrow> bool option" where
  "PhStartsWithStringRef vec up mem String Prefix IgnoreCase = (
     let sr = \<lparr>Length = Length Prefix, Buffer = Buffer String\<rparr> in
     if Length String < Length sr then Some False
     else PhEqualStringRef vec up mem sr Prefix IgnoreCase)"

definition PhStartsWithStringRef2 ::
  "bool \<Rightarrow> (ushort \<Rightarrow> ushort) \<Rightarrow> memory \<Rightarrow> ph_stringref \<Rightarrow> ulong64 \<Rightarrow> bool \<Rightarrow> bool option" where
  "PhStartsWithStringRef2 vec up mem String Prefix IgnoreCase = do {
     prefix \<leftarrow> PhInitializeStringRef mem Prefix;
     PhStartsWithStringRef vec up mem String prefix IgnoreCase
   }"

definition PhEndsWithStringRef ::
  "bool \<Rightarrow> (ushort \<Rightarrow> ushort) \<Rightarrow> memory \<Rightarrow> ph_stringref \<Rightarrow> ph_stringref \<Rightarrow> bool \<Rightarrow> bool option" where
  "PhEndsWithStringRef vec up mem String Suffix IgnoreCase = (
     if Length Suffix > Length String then Some False
     else
       let sr = \<lparr>Length = Length Suffix, Buffer = Buffer String + (Length String - Length Suffix)\<rparr> in
       PhEqualStringRef vec up mem sr Suffix IgnoreCase)"

definition PhEndsWithStringRef2 ::
  "bool \<Rightarrow> (ushort \<Rightarrow> ushort) \<Rightarrow> memory \<Rightarrow> ph_stringref \<Rightarrow> ulong64 \<Rightarrow> bool \<Rightarrow> bool option" where
  "PhEndsWithStringRef2 vec up mem String Suffix IgnoreCase = do {
     suffix \<leftarrow> PhInitializeStringRef mem Suffix;
     PhEndsWithStringRef vec up mem String suffix IgnoreCase
   }"

subsection \<open>Searching\<close>

text \<open>The block loops return the place of a match, or the buffer after the last block.\<close>

function PhFindChar_blocks ::
  "memory \<Rightarrow> xmm \<Rightarrow> ulong64 \<Rightarrow> ulong64 \<Rightarrow> (ulong \<times> ulong64 + ulong64) option" where
  "PhFindChar_blocks mem pattern buffer length16 = (
     if length16 \<noteq> 0 then do {
       block \<leftarrow> mm_loadu_si128 mem buffer;
       case BitScanForward (mm_movemask_epi8 (mm_cmpeq_epi16 block pattern)) of
         Some index \<Rightarrow> Some (Inl (index, length16))
       | None \<Rightarrow> PhFindChar_blocks mem pattern (buffer + 16) (length16 - 1)
     }
     else Some (Inr buffer))"
  by auto
termination
  by (relation "measure (\<lambda>(m, p, b, n). unat n)") (auto simp: unat_minus_one unat_gt_0)

text \<open>The remaining length when the unit was found; \<open>f\<close> is applied to the units of the string.\<close>

function PhFindChar_units ::
  "(ushort \<Rightarrow> ushort) \<Rightarrow> memory \<Rightarrow> ushort \<Rightarrow> ulong64 \<Rightarrow> ulong64 \<Rightarrow> ulong64 option option" where
  "PhFindChar_units f mem c buffer n = (
     if n \<noteq> 0 then do {
       x \<leftarrow> mem buffer;
       if f x = c then Some (Some n) else PhFindChar_units f mem c (buffer + 2) (n - 1)
     }
     else Some None)"
  by auto
termination
  by (relation "measure (\<lambda>(f, m, c, b, n). unat n)") (auto simp: unat_minus_one unat_gt_0)

definition PhFindCharInStringRef ::
  "bool \<Rightarrow> (ushort \<Rightarrow> ushort) \<Rightarrow> memory \<Rightarrow> ph_stringref \<Rightarrow> ushort \<Rightarrow> bool \<Rightarrow> ulong64 option" where
  "PhFindCharInStringRef vec up mem String Character IgnoreCase = (
     let search = (\<lambda>f c buffer n. do {
           r \<leftarrow> PhFindChar_units f mem c buffer n;
           Some (case r of Some n \<Rightarrow> Length String div 2 - n | None \<Rightarrow> SIZE_MAX)
         })
     in
     if \<not> IgnoreCase then
       if vec then do {
         r \<leftarrow> PhFindChar_blocks mem (mm_set1_epi16 Character) (Buffer String) (Length String div 16);
         let n = Length String div 2 AND 7;
         case r of
           Inl (index, length16) \<Rightarrow> Some ((Length String - length16 * 16) div 2 - n + ucast (index div 2))
         | Inr buffer \<Rightarrow> search (\<lambda>x. x) Character buffer n
       }
       else do {
         _ \<leftarrow> (if Buffer String \<noteq> NULL_PTR then wcschr mem (Buffer String) Character else Some NULL_PTR);
         search (\<lambda>x. x) Character (Buffer String) (Length String div 2)
       }
     else search up (up Character) (Buffer String) (Length String div 2))"

function PhFindLastChar_blocks ::
  "memory \<Rightarrow> xmm \<Rightarrow> ulong64 \<Rightarrow> ulong64 \<Rightarrow> (ulong \<times> ulong64 + ulong64) option" where
  "PhFindLastChar_blocks mem pattern buffer length16 = (
     if length16 \<noteq> 0 then do {
       block \<leftarrow> mm_loadu_si128 mem buffer;
       case BitScanReverse (mm_movemask_epi8 (mm_cmpeq_epi16 block pattern)) of
         Some index \<Rightarrow> Some (Inl (index, length16))
       | None \<Rightarrow> PhFindLastChar_blocks mem pattern (buffer - 16) (length16 - 1)
     }
     else Some (Inr buffer))"
  by auto
termination
  by (relation "measure (\<lambda>(m, p, b, n). unat n)") (auto simp: unat_minus_one unat_gt_0)

function PhFindLastChar_units ::
  "(ushort \<Rightarrow> ushort) \<Rightarrow> memory \<Rightarrow> ushort \<Rightarrow> ulong64 \<Rightarrow> ulong64 \<Rightarrow> ulong64 option option" where
  "PhFindLastChar_units f mem c buffer n = (
     if n \<noteq> 0 then do {
       x \<leftarrow> mem buffer;
       if f x = c then Some (Some n) else PhFindLastChar_units f mem c (buffer - 2) (n - 1)
     }
     else Some None)"
  by auto
termination
  by (relation "measure (\<lambda>(f, m, c, b, n). unat n)") (auto simp: unat_minus_one unat_gt_0)

definition PhFindLastCharInStringRef ::
  "bool \<Rightarrow> (ushort \<Rightarrow> ushort) \<Rightarrow> memory \<Rightarrow> ph_stringref \<Rightarrow> ushort \<Rightarrow> bool \<Rightarrow> ulong64 option" where
  "PhFindLastCharInStringRef vec up mem String Character IgnoreCase = (
     let buffer = Buffer String + Length String;
         search = (\<lambda>f c buffer n. do {
           r \<leftarrow> PhFindLastChar_units f mem c (buffer - 2) n;
           Some (case r of Some n \<Rightarrow> n - 1 | None \<Rightarrow> SIZE_MAX)
         })
     in
     if \<not> IgnoreCase then
       if vec then do {
         let length16 = Length String div 16;
         let n = Length String div 2 AND 7;
         r \<leftarrow> (if length16 \<noteq> 0 then do {
                r \<leftarrow> PhFindLastChar_blocks mem (mm_set1_epi16 Character) (buffer - 16) length16;
                Some (map_sum id (\<lambda>buffer. buffer + 16) r)
              }
              else Some (Inr buffer));
         case r of
           Inl (index, length16) \<Rightarrow> Some ((length16 - 1) * 16 div 2 + n + ucast (index div 2))
         | Inr buffer \<Rightarrow> search (\<lambda>x. x) Character buffer n
       }
       else do {
         _ \<leftarrow> (if buffer \<noteq> NULL_PTR then wcsrchr_from mem buffer Character NULL_PTR else Some NULL_PTR);
         search (\<lambda>x. x) Character buffer (Length String div 2)
       }
     else search up (up Character) buffer (Length String div 2))"

function PhFindString_loop ::
  "bool \<Rightarrow> (ushort \<Rightarrow> ushort) \<Rightarrow> memory \<Rightarrow> bool \<Rightarrow> ushort \<Rightarrow> ph_stringref \<Rightarrow> ph_stringref \<Rightarrow> ulong64
   \<Rightarrow> ulong64 option option" where
  "PhFindString_loop vec up mem IgnoreCase c sr1 sr2 i = (
     if i \<noteq> 0 then do {
       x \<leftarrow> mem (Buffer sr1);
       let sr1 = sr1\<lparr>Buffer := Buffer sr1 + 2\<rparr>;
       found \<leftarrow> (if (if IgnoreCase then up x else x) = c then PhEqualStringRef vec up mem sr1 sr2 IgnoreCase
                else Some False);
       if found then Some (Some (Buffer sr1))
       else PhFindString_loop vec up mem IgnoreCase c sr1 sr2 (i - 1)
     }
     else Some None)"
  by auto
termination
  by (relation "measure (\<lambda>(v, u, m, ic, c, sr1, sr2, i). unat i)") (auto simp: unat_minus_one unat_gt_0)

definition PhFindStringInStringRef ::
  "bool \<Rightarrow> (ushort \<Rightarrow> ushort) \<Rightarrow> memory \<Rightarrow> ph_stringref \<Rightarrow> ph_stringref \<Rightarrow> bool \<Rightarrow> ulong64 option" where
  "PhFindStringInStringRef vec up mem String SubString IgnoreCase = (
     let length1 = Length String div 2; length2 = Length SubString div 2 in
     if length2 > length1 then Some SIZE_MAX
     else if length2 = 0 then Some 0
     else do {
       c \<leftarrow> mem (Buffer SubString);
       let sr1 = \<lparr>Length = Length SubString - 2, Buffer = Buffer String\<rparr>;
       let sr2 = \<lparr>Length = Length SubString - 2, Buffer = Buffer SubString + 2\<rparr>;
       r \<leftarrow> PhFindString_loop vec up mem IgnoreCase (if IgnoreCase then up c else c) sr1 sr2
         (length1 - length2 + 1);
       Some (case r of Some b \<Rightarrow> (b - Buffer String) div 2 - 1 | None \<Rightarrow> SIZE_MAX)
     })"

end
