(* ===== verification/StringFind.thy ===== *)
theory StringFind
  imports StringRefs "HOL-Library.List_Lexorder"
begin

text \<open>
  What memory holds, the meaning of the vector instructions on the lanes of a register,
  and the comparing and searching routines of theory StringRefs against their
  specification on lists of units.
\<close>

unbundle bit_operations_syntax

section \<open>What memory holds\<close>

fun chars_at :: "memory \<Rightarrow> ulong64 \<Rightarrow> ushort list \<Rightarrow> bool" where
  "chars_at mem p [] \<longleftrightarrow> True"
| "chars_at mem p (c # cs) \<longleftrightarrow> mem p = Some c \<and> chars_at mem (p + 2) cs"

definition holds_ref :: "memory \<Rightarrow> ph_stringref \<Rightarrow> ushort list \<Rightarrow> bool" where
  "holds_ref mem S cs \<longleftrightarrow> unat (Length S) = 2 * length cs \<and> chars_at mem (Buffer S) cs"

lemma chars_at_append:
  "chars_at mem p (cs @ ds) \<longleftrightarrow> chars_at mem p cs \<and> chars_at mem (p + 2 * of_nat (length cs)) ds"
  by (induction cs arbitrary: p) (simp_all add: algebra_simps)

lemma chars_at_drop: "chars_at mem p cs \<Longrightarrow> n \<le> length cs \<Longrightarrow> chars_at mem (p + 2 * of_nat n) (drop n cs)"
  using chars_at_append [of mem p "take n cs" "drop n cs"] by (simp add: min_absorb2)

lemma chars_at_take: "chars_at mem p cs \<Longrightarrow> chars_at mem p (take n cs)"
  using chars_at_append [of mem p "take n cs" "drop n cs"] by simp

lemma chars_at_nth: "chars_at mem p cs \<Longrightarrow> i < length cs \<Longrightarrow> mem (p + 2 * of_nat i) = Some (cs ! i)"
  using chars_at_drop [of mem p cs i] by (simp add: Cons_nth_drop_Suc [symmetric])

lemma read_units_chars: "chars_at mem p cs \<Longrightarrow> n \<le> length cs \<Longrightarrow> read_units mem p n = Some (take n cs)"
proof (induction n arbitrary: p cs)
  case (Suc n)
  then obtain c ds where "cs = c # ds" by (cases cs) auto
  then show ?case using Suc.prems Suc.IH [of "p + 2" ds] by simp
qed simp

lemma holds_ref_Length: "holds_ref mem S cs \<Longrightarrow> Length S = 2 * of_nat (length cs)"
  unfolding holds_ref_def by (metis of_nat_mult of_nat_numeral of_nat_unat ucast_id)

lemma holds_ref_small: "holds_ref mem S cs \<Longrightarrow> length cs < 2 ^ 63"
  unfolding holds_ref_def using unsigned_less [of "Length S", where ?'a = nat] by simp

lemma unat_half: "unat (w div 2 :: ulong64) = unat w div 2"
  by (simp add: unat_div)

lemma holds_ref_units: "holds_ref mem S cs \<Longrightarrow> unat (Length S div 2) = length cs"
  by (simp add: holds_ref_def unat_div)

lemma holds_ref_blocks: "holds_ref mem S cs \<Longrightarrow> unat (Length S div 16) = length cs div 8"
  by (simp add: holds_ref_def unat_div)

lemma unat_pred: "unat (n :: ulong64) = Suc k \<Longrightarrow> n \<noteq> 0 \<and> unat (n - 1) = k"
  by (cases "n = 0") (simp_all add: unat_minus_one)

lemma and_7: "w AND 7 = (w :: ulong64) mod 8"
  using take_bit_eq_mask [of 3 w] take_bit_eq_mod [of 3 w] by (simp add: mask_eq_exp_minus_1)

lemma and_15: "w AND 15 = (w :: ulong64) mod 16"
  using take_bit_eq_mask [of 4 w] take_bit_eq_mod [of 4 w] by (simp add: mask_eq_exp_minus_1)

lemma and_15_ulong: "w AND 15 = (w :: ulong) mod 16"
  using take_bit_eq_mask [of 4 w] take_bit_eq_mod [of 4 w] by (simp add: mask_eq_exp_minus_1)

lemma holds_ref_even: "holds_ref mem S cs \<Longrightarrow> Length S AND 1 = 0"
proof -
  assume "holds_ref mem S cs"
  then have "unat (Length S mod 2) = 0" by (simp add: holds_ref_def unat_mod)
  then show ?thesis by (simp only: and_one_eq unat_eq_0)
qed

section \<open>Vector instructions\<close>

lemma length_pairs: "length (concat (map (\<lambda>x. [f x, g x]) a)) = 2 * length a"
  by (induction a) auto

lemma nth_pairs:
  "k < 2 * length a \<Longrightarrow>
   concat (map (\<lambda>x. [f x, g x]) a) ! k = (if even k then f (a ! (k div 2)) else g (a ! (k div 2)))"
proof (induction a arbitrary: k)
  case (Cons x a)
  show ?case
  proof (cases "k < 2")
    case True
    then have "k = 0 \<or> k = 1" by auto
    then show ?thesis by auto
  next
    case False
    then obtain m where k: "k = Suc (Suc m)" by (metis add_2_eq_Suc le_Suc_ex not_less)
    then show ?thesis using Cons.IH [of m] Cons.prems by simp
  qed
qed simp

text \<open>Two bits for every lane, when the lanes are all ones or all zeros.\<close>

lemma bit_movemask:
  assumes "length a \<le> 16" "set a \<subseteq> {0, 0xffff}"
  shows "bit (mm_movemask_epi8 a) k \<longleftrightarrow> k < 2 * length a \<and> a ! (k div 2) = 0xffff"
proof (cases "k < 2 * length a")
  case True
  then have k: "k div 2 < length a" by auto
  then have "a ! (k div 2) = 0 \<or> a ! (k div 2) = 0xffff" using assms(2) nth_mem by blast
  moreover have "bit (0xffff :: ushort) 7" "bit (0xffff :: ushort) 15" by simp_all
  ultimately show ?thesis
    using True assms(1) unfolding mm_movemask_epi8_def bit_horner_sum_bit_iff length_pairs
    by (auto simp: nth_pairs)
next
  case False
  then show ?thesis
    unfolding mm_movemask_epi8_def bit_horner_sum_bit_iff length_pairs by simp
qed

lemma cmpeq_lanes:
  "length b = 8 \<Longrightarrow> mm_cmpeq_epi16 b (mm_set1_epi16 c) = map (\<lambda>x. if x = c then 0xffff else 0) b"
  by (rule nth_equalityI) (simp_all add: mm_cmpeq_epi16_def mm_set1_epi16_def)

lemma bit_cmpeq:
  "length b = 8 \<Longrightarrow>
   bit (mm_movemask_epi8 (mm_cmpeq_epi16 b (mm_set1_epi16 c))) k \<longleftrightarrow> k < 16 \<and> b ! (k div 2) = c"
  by (subst bit_movemask) (auto simp: cmpeq_lanes split: if_splits)

lemma find_upt_Some: "n < m \<Longrightarrow> P n \<Longrightarrow> (\<And>k. k < n \<Longrightarrow> \<not> P k) \<Longrightarrow> find P [0..<m] = Some n"
  by (auto simp: find_Some_iff intro!: exI [of _ n])

lemma find_rev_upt_Suc: "find P (rev [0..<Suc m]) = (if P m then Some m else find P (rev [0..<m]))"
  by simp

lemma find_rev_upt_Some:
  "n < m \<Longrightarrow> P n \<Longrightarrow> (\<And>k. n < k \<Longrightarrow> \<not> P k) \<Longrightarrow> find P (rev [0..<m]) = Some n"
  by (induction m) (auto simp: less_Suc_eq)

text \<open>The first lane with \<open>c\<close> from lane \<open>j\<close> on, and the last lane with \<open>c\<close>.\<close>

lemma scan_forward:
  fixes c :: ushort and j :: nat
  assumes b: "length b = 8"
  defines "scan \<equiv> BitScanForward (drop_bit (2 * j) (mm_movemask_epi8 (mm_cmpeq_epi16 b (mm_set1_epi16 c))))"
  obtains (none) "scan = None" "c \<notin> set (drop j b)"
    | (lane) k where "scan = Some (of_nat (2 * k))" "j + k < 8" "b ! (j + k) = c" "c \<notin> set (take k (drop j b))"
proof -
  let ?P = "bit (drop_bit (2 * j) (mm_movemask_epi8 (mm_cmpeq_epi16 b (mm_set1_epi16 c))))"
  have P: "?P k \<longleftrightarrow> 2 * j + k < 16 \<and> b ! (j + k div 2) = c" for k
    using b by (simp add: bit_drop_bit_eq bit_cmpeq)
  show thesis
  proof (cases "c \<in> set (drop j b)")
    case True
    then obtain pre post where split: "drop j b = pre @ c # post" "c \<notin> set pre"
      using split_list_first by metis
    let ?k = "length pre"
    have len: "j + ?k < 8" using arg_cong [OF split(1), of length] b by simp
    have nth: "b ! (j + i) = (pre @ c # post) ! i" for i
      by (metis (no_types, lifting) split(1) nth_drop b len less_imp_le le_add1 order_trans)
    have "find ?P [0..<32] = Some (2 * ?k)"
    proof (rule find_upt_Some)
      show "2 * ?k < 32" using len by simp
      show "?P (2 * ?k)" using len nth [of ?k] by (simp add: P)
      fix i assume i: "i < 2 * ?k"
      then have d: "i div 2 < ?k" by simp
      then have "pre ! (i div 2) \<noteq> c" using split(2) nth_mem by metis
      then show "\<not> ?P i" using nth [of "i div 2"] d by (auto simp: P nth_append)
    qed
    then show thesis
      using lane [of ?k] len nth [of ?k] split by (simp add: scan_def BitScanForward_def)
  next
    case False
    have "\<not> ?P i" for i
    proof
      assume "?P i"
      then have "j + i div 2 < length b" "b ! (j + i div 2) = c" using b by (auto simp: P)
      then have "c \<in> set (drop j b)"
        by (metis in_set_conv_nth length_drop less_diff_conv add.commute nth_drop le_add1 less_imp_le order_trans)
      then show False using False by simp
    qed
    then have "find ?P [0..<32] = None" by (simp add: find_None_iff)
    then show thesis using none False by (simp add: scan_def BitScanForward_def)
  qed
qed

lemma scan_reverse:
  fixes c :: ushort
  assumes b: "length b = 8"
  defines "scan \<equiv> BitScanReverse (mm_movemask_epi8 (mm_cmpeq_epi16 b (mm_set1_epi16 c)))"
  obtains (none) "scan = None" "c \<notin> set b"
    | (lane) k where "scan = Some (of_nat (2 * k + 1))" "k < 8" "b ! k = c" "c \<notin> set (drop (Suc k) b)"
proof -
  let ?P = "bit (mm_movemask_epi8 (mm_cmpeq_epi16 b (mm_set1_epi16 c)))"
  have P: "?P k \<longleftrightarrow> k < 16 \<and> b ! (k div 2) = c" for k
    using b by (simp add: bit_cmpeq)
  show thesis
  proof (cases "c \<in> set b")
    case True
    then obtain pre post where split: "b = pre @ c # post" "c \<notin> set post"
      using split_list_last by metis
    let ?k = "length pre"
    have len: "?k < 8" using b split(1) by simp
    have "find ?P (rev [0..<32]) = Some (2 * ?k + 1)"
    proof (rule find_rev_upt_Some)
      show "2 * ?k + 1 < 32" using len by simp
      show "?P (2 * ?k + 1)" using len by (subst P) (simp add: split(1))
      fix i assume i: "2 * ?k + 1 < i"
      show "\<not> ?P i"
      proof
        assume "?P i"
        then have "i div 2 < length b" "b ! (i div 2) = c" using b by (auto simp: P)
        moreover have "Suc ?k \<le> i div 2" using i by simp
        then obtain m where "i div 2 = Suc (?k + m)" by (metis add_Suc le_Suc_ex)
        ultimately show False using split by (auto simp: nth_append nth_mem)
      qed
    qed
    then show thesis
      using lane [of ?k] len split by (simp add: scan_def BitScanReverse_def)
  next
    case False
    then have "\<not> ?P i" for i using b nth_mem [of "i div 2" b] by (auto simp: P)
    then have "find ?P (rev [0..<32]) = None" by (simp add: find_None_iff)
    then show thesis using none False by (simp add: scan_def BitScanReverse_def)
  qed
qed

lemma cmpeq_epi32_lanes: "set (mm_cmpeq_epi32 a b) \<subseteq> {0, 0xffff}"
  by (induction a b rule: mm_cmpeq_epi32.induct) auto

lemma length_cmpeq_epi32:
  "length a = length b \<Longrightarrow> even (length a) \<Longrightarrow> length (mm_cmpeq_epi32 a b) = length a"
  by (induction a b rule: mm_cmpeq_epi32.induct) auto

lemma cmpeq_epi32_all:
  "length a = length b \<Longrightarrow> even (length a) \<Longrightarrow>
   (\<forall>x \<in> set (mm_cmpeq_epi32 a b). x = 0xffff) \<longleftrightarrow> a = b"
  by (induction a b rule: mm_cmpeq_epi32.induct) auto

lemma bit_ffff: "bit (0xffff :: ulong) k \<longleftrightarrow> k < 16"
proof -
  have "(0xffff :: ulong) = mask 16" by (simp add: mask_eq_exp_minus_1)
  then show ?thesis by (simp only: bit_mask_iff) auto
qed

lemma movemask_full:
  assumes "length l = 8" "set l \<subseteq> {0, 0xffff}"
  shows "mm_movemask_epi8 l = 0xffff \<longleftrightarrow> (\<forall>x \<in> set l. x = 0xffff)"
proof
  assume full: "mm_movemask_epi8 l = 0xffff"
  have "l ! i = 0xffff" if "i < 8" for i
    using bit_movemask [OF _ assms(2), of "2 * i"] assms(1) that bit_ffff [of "2 * i"]
    unfolding full by simp
  then show "\<forall>x \<in> set l. x = 0xffff" using assms(1) by (auto simp: in_set_conv_nth)
next
  assume all: "\<forall>x \<in> set l. x = 0xffff"
  have "bit (mm_movemask_epi8 l) k \<longleftrightarrow> k < 16" for k
    using all assms by (auto simp: bit_movemask)
  then show "mm_movemask_epi8 l = 0xffff" using bit_ffff by (blast intro: bit_word_eqI)
qed

section \<open>Comparing\<close>

lemma equal_si128_chars:
  assumes "chars_at mem s1 xs" "chars_at mem s2 ys" "8 \<le> length xs" "8 \<le> length ys"
  shows "equal_si128 mem s1 s2 = Some (take 8 xs = take 8 ys)"
  using assms
  by (simp add: equal_si128_def mm_loadu_si128_def read_units_chars movemask_full
      length_cmpeq_epi32 cmpeq_epi32_lanes cmpeq_epi32_all)

lemma equal_ulong_ptr_chars:
  assumes "chars_at mem s1 xs" "chars_at mem s2 ys" "4 \<le> length xs" "4 \<le> length ys"
  shows "equal_ulong_ptr mem s1 s2 = Some (take 4 xs = take 4 ys)"
  using assms by (simp add: equal_ulong_ptr_def read_units_chars)

declare PhEqualStringRef_blocks.simps [simp del] PhEqualStringRef_characters.simps [simp del]

lemma fold_pair_eq:
  "fold_pair up ic a b = (d, e) \<Longrightarrow> (d = e) \<longleftrightarrow> (if ic then up a = up b else a = b)"
  by (auto simp: fold_pair_def split: if_splits)

lemma equal_characters:
  assumes "chars_at mem s1 xs" "chars_at mem s2 ys" "length ys = length xs" "unat n = length xs"
  shows "PhEqualStringRef_characters up ic mem s1 s2 n
    = Some (if ic then map up xs = map up ys else xs = ys)"
  using assms
proof (induction xs arbitrary: ys s1 s2 n)
  case Nil
  then have "n = 0" by (simp add: unat_eq_0)
  then show ?case using Nil by (simp add: PhEqualStringRef_characters.simps)
next
  case (Cons x xs)
  then obtain y ys' where ys: "ys = y # ys'" by (cases ys) auto
  have n: "n \<noteq> 0" "unat (n - 1) = length xs" using unat_pred [of n "length xs"] Cons.prems by simp_all
  obtain d e where de: "fold_pair up ic x y = (d, e)" by (cases "fold_pair up ic x y")
  show ?case
    using Cons.prems Cons.IH [of "s1 + 2" "s2 + 2" ys' "n - 1"] n ys fold_pair_eq [OF de] de
    by (subst PhEqualStringRef_characters.simps) auto
qed

lemma drop_eq_iff: "take k xs = take k ys \<Longrightarrow> drop k xs = drop k ys \<longleftrightarrow> xs = ys"
  by (metis append_take_drop_id)

lemma map_drop_eq_iff: "take k xs = take k ys \<Longrightarrow> map f (drop k xs) = map f (drop k ys) \<longleftrightarrow> map f xs = map f ys"
  using drop_eq_iff [of k "map f xs" "map f ys"] by (simp add: take_map drop_map)

text \<open>
  The contract of a block comparison, which the two ways of comparing fulfil: by vector
  registers and by words of the size of a pointer.
\<close>

locale block_compare =
  fixes equal_block :: "memory \<Rightarrow> ulong64 \<Rightarrow> ulong64 \<Rightarrow> bool option"
    and units :: nat
    and bytes :: ulong64
  assumes block: "chars_at mem s1 xs \<Longrightarrow> chars_at mem s2 ys \<Longrightarrow> units \<le> length xs \<Longrightarrow>
      units \<le> length ys \<Longrightarrow> equal_block mem s1 s2 = Some (take units xs = take units ys)"
    and units: "0 < units" "unat bytes = 2 * units"
    and low_bits: "w AND (bytes - 1) = w mod bytes"
begin

lemma bytes: "bytes = 2 * of_nat units"
  using units(2) by (metis of_nat_mult of_nat_numeral of_nat_unat ucast_id)

text \<open>The blocks that were equal, and what is left when the loop stops.\<close>

lemma equal_blocks:
  assumes "chars_at mem s1 xs" "chars_at mem s2 ys" "units * unat n \<le> length xs" "length ys = length xs"
  obtains s1' s2' m where
    "PhEqualStringRef_blocks (equal_block mem) bytes s1 s2 n = Some (s1', s2', m)" "unat m \<le> unat n"
    "take (units * (unat n - unat m)) xs = take (units * (unat n - unat m)) ys"
    "chars_at mem s1' (drop (units * (unat n - unat m)) xs)"
    "chars_at mem s2' (drop (units * (unat n - unat m)) ys)"
    "m \<noteq> 0 \<Longrightarrow> xs \<noteq> ys"
  using assms
proof (induction "unat n" arbitrary: s1 s2 xs ys n thesis)
  case 0
  then have "n = 0" by (simp add: unat_eq_0)
  then show ?case using 0 by (simp add: PhEqualStringRef_blocks.simps)
next
  case (Suc k)
  have n: "n \<noteq> 0" "unat (n - 1) = k" using unat_pred [of n k] Suc.hyps(2) by simp_all
  have le: "units \<le> length xs" "units \<le> length ys"
    using Suc.prems(4,5) Suc.hyps(2) by (auto intro: order_trans [of _ "units * unat n"])
  note e = block [OF Suc.prems(2,3) le]
  show ?case
  proof (cases "take units xs = take units ys")
    case False
    then show ?thesis
      using Suc.prems e n by (intro Suc.prems(1) [of s1 s2 n]) (auto simp: PhEqualStringRef_blocks.simps)
  next
    case True
    have at: "chars_at mem (s1 + bytes) (drop units xs)" "chars_at mem (s2 + bytes) (drop units ys)"
      using chars_at_drop [OF Suc.prems(2) le(1)] chars_at_drop [OF Suc.prems(3) le(2)]
      by (simp_all add: bytes)
    have len: "units * unat (n - 1) \<le> length (drop units xs)" "length (drop units ys) = length (drop units xs)"
    proof -
      have "units + units * k \<le> length xs" using Suc.prems(4) unfolding Suc.hyps(2) [symmetric] by simp
      then show "units * unat (n - 1) \<le> length (drop units xs)" unfolding n(2) by simp
      show "length (drop units ys) = length (drop units xs)" using Suc.prems(5) by simp
    qed
    from Suc.hyps(1) [OF n(2) [symmetric] _ at len]
    obtain s1' s2' m where m:
      "PhEqualStringRef_blocks (equal_block mem) bytes (s1 + bytes) (s2 + bytes) (n - 1) = Some (s1', s2', m)"
      "unat m \<le> k" "take (units * (k - unat m)) (drop units xs) = take (units * (k - unat m)) (drop units ys)"
      "chars_at mem s1' (drop (units * (k - unat m)) (drop units xs))"
      "chars_at mem s2' (drop (units * (k - unat m)) (drop units ys))"
      "m \<noteq> 0 \<Longrightarrow> drop units xs \<noteq> drop units ys"
      using n(2) by blast
    have k: "units * (unat n - unat m) = units + units * (k - unat m)"
      using m(2) Suc.hyps(2) by (simp add: Suc_diff_le flip: Suc.hyps(2))
    show ?thesis
    proof (rule Suc.prems(1) [of s1' s2' m])
      show "PhEqualStringRef_blocks (equal_block mem) bytes s1 s2 n = Some (s1', s2', m)"
        using e True n(1) m(1) by (subst PhEqualStringRef_blocks.simps) simp
      show "unat m \<le> unat n" using m(2) Suc.hyps(2) by simp
      show "take (units * (unat n - unat m)) xs = take (units * (unat n - unat m)) ys"
        unfolding k take_add using True m(3) by simp
      show "chars_at mem s1' (drop (units * (unat n - unat m)) xs)"
        "chars_at mem s2' (drop (units * (unat n - unat m)) ys)"
        using m(4,5) by (simp_all add: k add.commute)
      show "xs \<noteq> ys" if "m \<noteq> 0" using m(6) [OF that] by blast
    qed
  qed
qed

text \<open>The units that the last loop looks at are those the blocks have left.\<close>

lemma rest_count:
  assumes "unat l = 2 * len" "unat m \<le> unat (l div bytes)"
  shows "unat ((m * bytes + (l AND (bytes - 1))) div 2) = len - units * (unat (l div bytes) - unat m)"
proof -
  let ?q = "unat l div unat bytes" and ?r = "unat l mod unat bytes"
  have q: "unat (l div bytes) = ?q" by (simp add: unat_div)
  have l: "unat l = ?q * unat bytes + ?r" by simp
  have le: "unat m * unat bytes + ?r \<le> unat l"
    using assms(2) l by (metis add_le_mono1 mult_le_mono1 q)
  have "unat (m * bytes) = unat m * unat bytes"
    using le unsigned_less [of l, where ?'a = nat] by (intro unat_mult_exact) linarith
  then have s: "unat (m * bytes + l mod bytes) = unat m * unat bytes + ?r"
    using le unsigned_less [of l, where ?'a = nat] by (subst unat_add_exact) (simp_all add: unat_mod)
  obtain d where d: "?q = unat m + d" using assms(2) q le_Suc_ex by metis
  have "unat l = (unat m + d) * unat bytes + ?r" by (metis l d)
  then have "unat m * unat bytes + ?r = 2 * len - d * (2 * units)"
    unfolding units(2) assms(1) add_mult_distrib by linarith
  also have "\<dots> = 2 * (len - units * (?q - unat m))"
    unfolding d by (simp add: diff_mult_distrib2 ac_simps)
  finally show ?thesis by (simp add: low_bits unat_div s q)
qed

lemma equal_refs:
  assumes "holds_ref mem S1 xs" "holds_ref mem S2 ys" "length xs = length ys"
  obtains s1 s2 m where
    "PhEqualStringRef_blocks (equal_block mem) bytes (Buffer S1) (Buffer S2) (Length S1 div bytes) = Some (s1, s2, m)"
    "m \<noteq> 0 \<Longrightarrow> xs \<noteq> ys"
    "PhEqualStringRef_characters up ic mem s1 s2 ((m * bytes + (Length S1 AND (bytes - 1))) div 2)
      = Some (if ic then map up xs = map up ys else xs = ys)"
proof -
  have len: "unat (Length S1) = 2 * length xs" and at: "chars_at mem (Buffer S1) xs" "chars_at mem (Buffer S2) ys"
    using assms(1,2) by (simp_all add: holds_ref_def)
  have n: "units * unat (Length S1 div bytes) \<le> length xs"
    by (simp add: unat_div len units(2))
  obtain s1 s2 m where m:
    "PhEqualStringRef_blocks (equal_block mem) bytes (Buffer S1) (Buffer S2) (Length S1 div bytes) = Some (s1, s2, m)"
    "unat m \<le> unat (Length S1 div bytes)"
    and eq: "take (units * (unat (Length S1 div bytes) - unat m)) xs
      = take (units * (unat (Length S1 div bytes) - unat m)) ys"
    and at': "chars_at mem s1 (drop (units * (unat (Length S1 div bytes) - unat m)) xs)"
      "chars_at mem s2 (drop (units * (unat (Length S1 div bytes) - unat m)) ys)"
    and ne: "m \<noteq> 0 \<Longrightarrow> xs \<noteq> ys"
    by (rule equal_blocks [OF at n assms(3) [symmetric]]) blast
  let ?k = "units * (unat (Length S1 div bytes) - unat m)"
  have rest: "PhEqualStringRef_characters up ic mem s1 s2 ((m * bytes + (Length S1 AND (bytes - 1))) div 2)
    = Some (if ic then map up (drop ?k xs) = map up (drop ?k ys) else drop ?k xs = drop ?k ys)"
    using assms(3) by (intro equal_characters at') (simp_all add: rest_count [OF len m(2)])
  have eqs: "drop ?k xs = drop ?k ys \<longleftrightarrow> xs = ys"
    "map up (drop ?k xs) = map up (drop ?k ys) \<longleftrightarrow> map up xs = map up ys"
    by (rule drop_eq_iff [OF eq], rule map_drop_eq_iff [OF eq])
  show thesis by (rule that [OF m(1) ne rest [unfolded eqs]])
qed

end

interpretation by_register: block_compare equal_si128 8 16
  by unfold_locales (simp_all add: equal_si128_chars and_15)

interpretation by_word: block_compare equal_ulong_ptr 4 8
  by unfold_locales (simp_all add: equal_ulong_ptr_chars and_7)

lemma equal_ref:
  assumes "holds_ref mem S1 xs" "holds_ref mem S2 ys"
  shows "PhEqualStringRef vec up mem S1 S2 ic = Some (if ic then map up xs = map up ys else xs = ys)"
proof (cases "length xs = length ys")
  case False
  then have "Length S1 \<noteq> Length S2" using assms by (auto simp: holds_ref_def)
  moreover have "map up xs \<noteq> map up ys" "xs \<noteq> ys"
    using False by (auto dest: arg_cong [where f = length])
  ultimately show ?thesis
    using holds_ref_even [OF assms(1)] holds_ref_even [OF assms(2)] by (simp add: PhEqualStringRef_def)
next
  case True
  then have l: "Length S1 = Length S2" using assms by (auto simp: holds_ref_def word_unat_eq_iff)
  note even = holds_ref_even [OF assms(1)] holds_ref_even [OF assms(2)]
  show ?thesis
  proof (cases vec)
    case v: True
    show ?thesis
      by (rule by_register.equal_refs [OF assms True, of up ic])
        (use l even v in \<open>auto simp: PhEqualStringRef_def Let_def\<close>)
  next
    case v: False
    show ?thesis
      by (rule by_word.equal_refs [OF assms True, of up ic])
        (use l even v in \<open>auto simp: PhEqualStringRef_def Let_def\<close>)
  qed
qed

text \<open>The folding of a whole string, and the order of strings by their folded units.\<close>

definition folded :: "(ushort \<Rightarrow> ushort) \<Rightarrow> bool \<Rightarrow> ushort list \<Rightarrow> ushort list" where
  "folded up IgnoreCase xs = (if IgnoreCase then map up xs else xs)"

lemma folded_simps [simp]:
  "folded up ic [] = []" "folded up ic (x # xs) = (if ic then up x else x) # folded up ic xs"
  "length (folded up ic xs) = length xs" "folded up ic (xs @ ys) = folded up ic xs @ folded up ic ys"
  by (simp_all add: folded_def)

lemma equal_ref_folded:
  "holds_ref mem S1 xs \<Longrightarrow> holds_ref mem S2 ys \<Longrightarrow>
   PhEqualStringRef vec up mem S1 S2 ic = Some (folded up ic xs = folded up ic ys)"
  by (simp add: equal_ref folded_def)

lemma fold_pair_ne:
  "fold_pair up ic a b = (d, e) \<Longrightarrow> d \<noteq> e \<Longrightarrow> d = (if ic then up a else a) \<and> e = (if ic then up b else b)"
  by (auto simp: fold_pair_def split: if_splits)

lemma compare_loop:
  assumes "chars_at mem s1 xs" "chars_at mem s2 ys" "length ys = length xs" "2 * length xs < 2 ^ 64"
  obtains (same) "folded up ic xs = folded up ic ys"
      "PhCompareStringRef_loop up ic mem (s1 + 2 * of_nat (length xs)) s1 s2 = Some None"
    | (differ) p a b us vs where "folded up ic xs = p @ a # us" "folded up ic ys = p @ b # vs" "a \<noteq> b"
      "PhCompareStringRef_loop up ic mem (s1 + 2 * of_nat (length xs)) s1 s2 = Some (Some (ucast a - ucast b))"
  using assms
proof (induction xs arbitrary: ys s1 s2 thesis)
  case Nil
  then show ?case by (simp add: PhCompareStringRef_loop.simps)
next
  case (Cons x xs)
  obtain y ys' where ys: "ys = y # ys'" using Cons.prems(5) by (cases ys) auto
  let ?stop = "s1 + 2 * of_nat (length (x # xs)) :: ulong64"
  have "unat (2 * of_nat (length (x # xs)) :: ulong64) = 2 * length (x # xs)"
    using Cons.prems(6) unat_of_nat_small [of "2 * length (x # xs)"] by simp
  then have "(2 * of_nat (length (x # xs)) :: ulong64) \<noteq> 0" by fastforce
  then have go: "s1 \<noteq> ?stop" by simp
  have stop: "?stop = (s1 + 2) + 2 * of_nat (length xs)" by simp
  obtain d e where de: "fold_pair up ic x y = (d, e)" by (cases "fold_pair up ic x y")
  have mem: "mem s1 = Some x" "mem s2 = Some y" "chars_at mem (s1 + 2) xs" "chars_at mem (s2 + 2) ys'"
    using Cons.prems(3,4) ys by auto
  show ?case
  proof (cases "d = e")
    case False
    show ?thesis
      by (rule Cons.prems(2) [of "[]" d "folded up ic xs" e "folded up ic ys'"])
        (use go mem de False fold_pair_ne [OF de False] ys in
          \<open>auto simp: PhCompareStringRef_loop.simps [of _ _ _ _ s1]\<close>)
  next
    case True
    then have xy: "(if ic then up x else x) = (if ic then up y else y)"
      using fold_pair_eq [OF de] by simp
    have step: "PhCompareStringRef_loop up ic mem ?stop s1 s2
      = PhCompareStringRef_loop up ic mem (s1 + 2 + 2 * of_nat (length xs)) (s1 + 2) (s2 + 2)"
      using go mem de True unfolding stop by (subst PhCompareStringRef_loop.simps) simp
    show ?thesis
    proof (rule Cons.IH [of ys' "s1 + 2" "s2 + 2"])
      show "chars_at mem (s1 + 2) xs" "chars_at mem (s2 + 2) ys'" using mem by simp_all
      show "length ys' = length xs" "2 * length xs < 2 ^ 64" using Cons.prems(5,6) ys by simp_all
    next
      assume "folded up ic xs = folded up ic ys'"
        "PhCompareStringRef_loop up ic mem (s1 + 2 + 2 * of_nat (length xs)) (s1 + 2) (s2 + 2) = Some None"
      then show ?thesis using xy ys step by (intro Cons.prems(1)) simp_all
    next
      fix p a us b vs
      assume "folded up ic xs = p @ a # us" "folded up ic ys' = p @ b # vs" "a \<noteq> b"
        "PhCompareStringRef_loop up ic mem (s1 + 2 + 2 * of_nat (length xs)) (s1 + 2) (s2 + 2)
          = Some (Some (ucast a - ucast b))"
      then show ?thesis
        using xy ys step
        by (intro Cons.prems(2) [of "(if ic then up x else x) # p" a us b vs]) simp_all
    qed
  qed
qed

lemma less_append_same: "(p @ a # us < p @ b # vs) \<longleftrightarrow> a < b \<or> a = b \<and> us < (vs :: ushort list)"
  by (induction p) auto

lemma less_append_prefix: "(p @ us < p @ vs) \<longleftrightarrow> us < (vs :: ushort list)"
  by (induction p) auto

lemma rest_order:
  "us = [] \<or> vs = [] \<Longrightarrow>
   (us < vs \<longleftrightarrow> length us < length vs) \<and> (us = (vs :: ushort list) \<longleftrightarrow> length us = length vs)"
  by (cases us; cases vs) auto

lemma sint_small_diff:
  "- (2 ^ 31) \<le> k \<Longrightarrow> k < 2 ^ 31 \<Longrightarrow> sint (word_of_int k :: slong) = k"
  by (simp add: signed_of_int signed_take_bit_int_eq_self)

lemma unit_difference: "ucast (a :: ushort) - ucast b = (word_of_int (uint a - uint b) :: slong)"
  by (simp add: unsigned_ucast_eq)

lemma ucast_of_int: "ucast (word_of_int k :: ulong64) = (word_of_int k :: slong)"
  by (simp add: unsigned_of_int word_of_int_eq_iff)

lemma length_difference: "ucast (a - b :: ulong64) = (word_of_int (int (unat a) - int (unat b)) :: slong)"
  using ucast_of_int [of "uint a - uint b"] by simp

lemma unit_range: "uint (a :: ushort) < 65536" "0 \<le> uint a"
  using unsigned_less [of a, where ?'a = int] by simp_all

lemma compare_ref:
  assumes S1: "holds_ref mem S1 xs" and S2: "holds_ref mem S2 ys"
    and small: "length xs < length ys + 2 ^ 30" "length ys < length xs + 2 ^ 30"
  obtains d where "PhCompareStringRef up mem S1 S2 ic = Some d"
    "sint d < 0 \<longleftrightarrow> folded up ic xs < folded up ic ys"
    "sint d = 0 \<longleftrightarrow> folded up ic xs = folded up ic ys"
proof -
  let ?n = "min (length xs) (length ys)"
  let ?l1 = "Length S1" and ?l2 = "Length S2"
  have len: "unat ?l1 = 2 * length xs" "unat ?l2 = 2 * length ys"
    and at: "chars_at mem (Buffer S1) (take ?n xs)" "chars_at mem (Buffer S2) (take ?n ys)"
    using S1 S2 by (simp_all add: holds_ref_def chars_at_take)
  have stop: "(if ?l1 \<le> ?l2 then ?l1 else ?l2) = 2 * of_nat (length (take ?n xs))"
    using len holds_ref_Length [OF S1] holds_ref_Length [OF S2]
    by (simp add: word_le_nat_alt min_def)
  have eq: "PhCompareStringRef up mem S1 S2 ic = do {
      r \<leftarrow> PhCompareStringRef_loop up ic mem (Buffer S1 + 2 * of_nat (length (take ?n xs))) (Buffer S1) (Buffer S2);
      case r of Some d \<Rightarrow> Some d | None \<Rightarrow> Some (ucast (?l1 - ?l2)) }"
    unfolding PhCompareStringRef_def Let_def holds_ref_even [OF S1] holds_ref_even [OF S2] stop by simp
  have split: "folded up ic zs = folded up ic (take ?n zs) @ folded up ic (drop ?n zs)" for zs
    by (metis append_take_drop_id folded_simps(4))
  have n: "length (take ?n ys) = length (take ?n xs)" "2 * length (take ?n xs) < 2 ^ 64"
    using holds_ref_small [OF S1] by auto
  show thesis
  proof (rule compare_loop [OF at n, of up ic])
    assume same: "folded up ic (take ?n xs) = folded up ic (take ?n ys)"
      and loop: "PhCompareStringRef_loop up ic mem (Buffer S1 + 2 * of_nat (length (take ?n xs)))
        (Buffer S1) (Buffer S2) = Some None"
    let ?d = "2 * int (length xs) - 2 * int (length ys)"
    have d: "ucast (?l1 - ?l2) = (word_of_int ?d :: slong)"
      unfolding length_difference len by simp
    have "sint (word_of_int ?d :: slong) = ?d" using small by (intro sint_small_diff) auto
    moreover have "folded up ic (drop ?n xs) = [] \<or> folded up ic (drop ?n ys) = []"
      by (auto simp: folded_def min_def)
    from rest_order [OF this] have "folded up ic xs < folded up ic ys \<longleftrightarrow> length xs < length ys"
      "folded up ic xs = folded up ic ys \<longleftrightarrow> length xs = length ys"
      unfolding split [of xs] split [of ys] same less_append_prefix same_append_eq
      by (auto simp: min_def)
    ultimately show thesis
      using loop d eq by (intro that [of "ucast (?l1 - ?l2)"]) auto
  next
    fix p a us b vs
    assume diff: "folded up ic (take ?n xs) = p @ a # us" "folded up ic (take ?n ys) = p @ b # vs" "a \<noteq> b"
      and loop: "PhCompareStringRef_loop up ic mem (Buffer S1 + 2 * of_nat (length (take ?n xs)))
        (Buffer S1) (Buffer S2) = Some (Some (ucast a - ucast b))"
    have "- 65536 \<le> uint a - uint b" "uint a - uint b \<le> 65536"
      using unit_range [of a] unit_range [of b] by linarith+
    then have "sint (ucast a - ucast b :: slong) = uint a - uint b"
      unfolding unit_difference by (intro sint_small_diff) auto
    then show thesis
      using loop eq split [of xs] split [of ys] diff
      by (intro that [of "ucast a - ucast b"]) (auto simp: less_append_same word_less_def word_uint_eq_iff)
  qed
qed

section \<open>Searching for a unit\<close>

text \<open>What the searches return: the first and the last index, or \<open>SIZE_MAX\<close>.\<close>

definition first_unit :: "(ushort \<Rightarrow> bool) \<Rightarrow> ushort list \<Rightarrow> ulong64" where
  "first_unit P xs =
     (if list_ex P xs then of_nat (length (takeWhile (\<lambda>x. \<not> P x) xs)) else SIZE_MAX)"

definition last_unit :: "(ushort \<Rightarrow> bool) \<Rightarrow> ushort list \<Rightarrow> ulong64" where
  "last_unit P xs =
     (if list_ex P xs then of_nat (length xs - 1 - length (takeWhile (\<lambda>x. \<not> P x) (rev xs))) else SIZE_MAX)"

lemma first_unit_at:
  "P c \<Longrightarrow> (\<And>x. x \<in> set pre \<Longrightarrow> \<not> P x) \<Longrightarrow> first_unit P (pre @ c # post) = of_nat (length pre)"
  by (simp add: first_unit_def takeWhile_append2)

lemma last_unit_at:
  "P c \<Longrightarrow> (\<And>x. x \<in> set post \<Longrightarrow> \<not> P x) \<Longrightarrow> last_unit P (pre @ c # post) = of_nat (length pre)"
  by (simp add: last_unit_def, subst takeWhile_append2) auto

lemma unit_missing:
  "(\<And>x. x \<in> set xs \<Longrightarrow> \<not> P x) \<Longrightarrow> first_unit P xs = SIZE_MAX \<and> last_unit P xs = SIZE_MAX"
  by (auto simp: first_unit_def last_unit_def list_ex_iff)

declare PhFindChar_blocks.simps [simp del] PhFindChar_units.simps [simp del]
  PhFindLastChar_blocks.simps [simp del] PhFindLastChar_units.simps [simp del]

lemma find_units:
  assumes "chars_at mem p xs" "unat n = length xs"
  obtains (none) "PhFindChar_units f mem c p n = Some None" "\<And>x. x \<in> set xs \<Longrightarrow> f x \<noteq> c"
    | (at) pre y post m where "PhFindChar_units f mem c p n = Some (Some m)" "xs = pre @ y # post" "f y = c"
      "\<And>x. x \<in> set pre \<Longrightarrow> f x \<noteq> c" "unat m = Suc (length post)"
  using assms
proof (induction xs arbitrary: p n thesis)
  case Nil
  then have "n = 0" by (simp add: unat_eq_0)
  then show ?case using Nil(1) by (simp add: PhFindChar_units.simps)
next
  case (Cons x xs)
  have n: "n \<noteq> 0" "unat (n - 1) = length xs" using unat_pred [of n "length xs"] Cons.prems(4) by simp_all
  have mem: "mem p = Some x" "chars_at mem (p + 2) xs" using Cons.prems(3) by simp_all
  show ?case
  proof (cases "f x = c")
    case True
    show ?thesis
      by (rule Cons.prems(2) [of n "[]" x xs])
        (use True n mem Cons.prems(4) in \<open>auto simp: PhFindChar_units.simps [of _ _ _ p]\<close>)
  next
    case False
    then have step: "PhFindChar_units f mem c p n = PhFindChar_units f mem c (p + 2) (n - 1)"
      using n mem by (simp add: PhFindChar_units.simps [of _ _ _ p])
    show ?thesis
    proof (rule Cons.IH [of "p + 2" "n - 1"])
      show "chars_at mem (p + 2) xs" "unat (n - 1) = length xs" using mem n by simp_all
    next
      assume "PhFindChar_units f mem c (p + 2) (n - 1) = Some None" "\<And>x. x \<in> set xs \<Longrightarrow> f x \<noteq> c"
      then show ?thesis using step False by (intro Cons.prems(1)) auto
    next
      fix pre y post m
      assume "PhFindChar_units f mem c (p + 2) (n - 1) = Some (Some m)" "xs = pre @ y # post" "f y = c"
        "\<And>x. x \<in> set pre \<Longrightarrow> f x \<noteq> c" "unat m = Suc (length post)"
      then show ?thesis using step False by (intro Cons.prems(2) [of m "x # pre" y post]) auto
    qed
  qed
qed

lemma find_blocks:
  assumes "chars_at mem p xs" "8 * unat n \<le> length xs"
  obtains (none) "PhFindChar_blocks mem (mm_set1_epi16 c) p n = Some (Inr (p + 16 * n))"
      "c \<notin> set (take (8 * unat n) xs)"
    | (at) i m pre post where "PhFindChar_blocks mem (mm_set1_epi16 c) p n = Some (Inl (i, m))"
      "unat m \<le> unat n" "xs = pre @ c # post" "c \<notin> set pre"
      "length pre = 8 * (unat n - unat m) + unat i div 2" "unat i < 16"
  using assms
proof (induction "unat n" arbitrary: p n xs thesis)
  case 0
  then have "n = 0" by (simp add: unat_eq_0)
  then show ?case using 0 by (simp add: PhFindChar_blocks.simps)
next
  case (Suc k)
  have n: "n \<noteq> 0" "unat (n - 1) = k" using unat_pred [of n k] Suc.hyps(2) by simp_all
  have le: "8 + 8 * k \<le> length xs" using Suc.prems(4) unfolding Suc.hyps(2) [symmetric] by simp
  let ?b = "take 8 xs"
  have load: "mm_loadu_si128 mem p = Some ?b" "length ?b = 8"
    using le Suc.prems(3) by (simp_all add: mm_loadu_si128_def read_units_chars)
  have at: "chars_at mem (p + 16) (drop 8 xs)"
    using chars_at_drop [OF Suc.prems(3), of 8] le by simp
  show ?case
  proof (rule scan_forward [OF load(2), of 0 c])
    fix i assume i: "BitScanForward (drop_bit (2 * 0) (mm_movemask_epi8 (mm_cmpeq_epi16 ?b (mm_set1_epi16 c))))
        = Some (of_nat (2 * i))" "0 + i < 8" "?b ! (0 + i) = c" "c \<notin> set (take i (drop 0 ?b))"
    show ?thesis
    proof (rule Suc.prems(2) [of "of_nat (2 * i)" n "take i xs" "drop (Suc i) xs"])
      show "PhFindChar_blocks mem (mm_set1_epi16 c) p n = Some (Inl (of_nat (2 * i), n))"
        using n load i by (subst PhFindChar_blocks.simps) simp
      show "xs = take i xs @ c # drop (Suc i) xs" using id_take_nth_drop [of i xs] i le by simp
      show "c \<notin> set (take i xs)" using i by (simp add: min_absorb1)
      have "unat (of_nat (2 * i) :: ulong) = 2 * i" using unat_of_nat_ulong [of "2 * i"] i(2) by simp
      then show "length (take i xs) = 8 * (unat n - unat n) + unat (of_nat (2 * i) :: ulong) div 2"
        "unat (of_nat (2 * i) :: ulong) < 16" using i(2) le by simp_all
    qed simp
  next
    assume none: "BitScanForward (drop_bit (2 * 0) (mm_movemask_epi8 (mm_cmpeq_epi16 ?b (mm_set1_epi16 c)))) = None"
      and c: "c \<notin> set (drop 0 ?b)"
    have step: "PhFindChar_blocks mem (mm_set1_epi16 c) p n = PhFindChar_blocks mem (mm_set1_epi16 c) (p + 16) (n - 1)"
      using n load none by (subst PhFindChar_blocks.simps) simp
    have len: "8 * unat (n - 1) \<le> length (drop 8 xs)" using le n(2) by simp
    show ?thesis
    proof (rule Suc.hyps(1) [OF n(2) [symmetric] _ _ at len])
      assume "PhFindChar_blocks mem (mm_set1_epi16 c) (p + 16) (n - 1) = Some (Inr (p + 16 + 16 * (n - 1)))"
        "c \<notin> set (take (8 * unat (n - 1)) (drop 8 xs))"
      moreover have "take (8 * unat n) xs = ?b @ take (8 * unat (n - 1)) (drop 8 xs)"
        unfolding n(2) Suc.hyps(2) [symmetric] by (simp add: take_add flip: take_add)
      ultimately show ?thesis using step c by (intro Suc.prems(1)) (simp_all add: algebra_simps)
    next
      fix i m pre post
      assume "PhFindChar_blocks mem (mm_set1_epi16 c) (p + 16) (n - 1) = Some (Inl (i, m))"
        "unat m \<le> unat (n - 1)" "drop 8 xs = pre @ c # post" "c \<notin> set pre"
        "length pre = 8 * (unat (n - 1) - unat m) + unat i div 2" "unat i < 16"
      moreover from this have "xs = (?b @ pre) @ c # post" by (metis append.assoc append_take_drop_id)
      ultimately show ?thesis
        using step c load(2) n(2) Suc.hyps(2) by (intro Suc.prems(2) [of i m "?b @ pre" post]) auto
    qed
  qed
qed

text \<open>Word arithmetic on counts of units.\<close>

lemma half_of_nat: "k < 2 ^ 63 \<Longrightarrow> of_nat (2 * k) div 2 = (of_nat k :: ulong64)"
  by (rule of_nat_unatI) (simp only: unat_half, subst unat_of_nat_small, simp_all)

lemma holds_ref_half: "holds_ref mem S xs \<Longrightarrow> Length S div 2 = of_nat (length xs)"
  using holds_ref_units of_nat_unatI by metis

lemma and_7_units: "holds_ref mem S xs \<Longrightarrow> unat (Length S div 2 AND 7) = length xs mod 8"
  unfolding and_7 by (simp add: unat_mod holds_ref_units del: of_nat_unat)

lemma unat_ucast_ulong: "unat (ucast (w :: ulong) :: ulong64) = unat w"
  using unsigned_less [of w, where ?'a = nat] by (simp add: unsigned_ucast_eq take_bit_nat_eq_self)

text \<open>A null-terminated string starts here, so that the C library stops.\<close>

definition terminated :: "memory \<Rightarrow> ulong64 \<Rightarrow> bool" where
  "terminated mem p \<longleftrightarrow> (\<exists>zs. chars_at mem p (zs @ [0]))"

lemma wcschr_stops: "chars_at mem p (zs @ [0]) \<Longrightarrow> \<exists>q. wcschr mem p c = Some q"
proof (induction zs arbitrary: p)
  case Nil
  then show ?case by (simp add: wcschr.simps [of mem p])
next
  case (Cons z zs)
  then show ?case by (simp add: wcschr.simps [of mem p])
qed

lemma wcsrchr_stops: "chars_at mem p (zs @ [0]) \<Longrightarrow> \<exists>q. wcsrchr_from mem p c seen = Some q"
proof (induction zs arbitrary: p seen)
  case Nil
  then show ?case by (simp add: wcsrchr_from.simps [of mem p])
next
  case (Cons z zs)
  then show ?case by (simp add: wcsrchr_from.simps [of mem p] Let_def)
qed

lemma blocks_left: "M \<le> q \<Longrightarrow> L = 8 * q + r \<Longrightarrow> L - 8 * M - r = 8 * (q - M) \<and> r \<le> L - 8 * M"
  for M q L r :: nat
  by (auto simp: diff_mult_distrib2)

text \<open>The place the block loop found, as the code computes it.\<close>

lemma block_index:
  assumes S: "holds_ref mem S xs" and m: "unat m \<le> length xs div 8" and i: "unat (i :: ulong) < 16"
  shows "(Length S - m * 16) div 2 - (Length S div 2 AND 7) + ucast (i div 2)
    = of_nat (8 * (length xs div 8 - unat m) + unat i div 2)"
proof -
  let ?L = "length xs" and ?M = "unat m"
  have small: "?L < 2 ^ 63" by (rule holds_ref_small [OF S])
  have le: "8 * ?M \<le> ?L" using m by linarith
  obtain M where M: "m = of_nat M" "?M = M" using of_nat_unatI [of m] by blast
  have "m * 16 = of_nat (2 * (8 * ?M))" unfolding M(2) unfolding M(1) by simp
  then have "Length S - m * 16 = of_nat (2 * (?L - 8 * ?M))"
    using le by (simp add: holds_ref_Length [OF S] of_nat_diff algebra_simps)
  then have a: "(Length S - m * 16) div 2 = of_nat (?L - 8 * ?M)"
    using small by (simp only: half_of_nat)
  have b: "(Length S div 2 AND 7) = of_nat (?L mod 8)"
    by (rule of_nat_unatI) (rule and_7_units [OF S])
  have c: "ucast (i div 2) = (of_nat (unat i div 2) :: ulong64)"
    by (rule of_nat_unatI) (simp add: unat_ucast_ulong unat_div)
  have "?L - 8 * ?M - ?L mod 8 = 8 * (?L div 8 - ?M)" "?L mod 8 \<le> ?L - 8 * ?M"
    using blocks_left [OF m, of ?L "?L mod 8"] by simp_all
  then show ?thesis unfolding a b c by (simp only: of_nat_add flip: of_nat_diff)
qed

lemma find_char_units:
  assumes S: "holds_ref mem S xs" and k: "k \<le> length xs" and n: "unat n = length xs - k"
    and none: "\<And>x. x \<in> set (take k xs) \<Longrightarrow> f x \<noteq> c" and p: "p = Buffer S + 2 * of_nat k"
  shows "do {
      r \<leftarrow> PhFindChar_units f mem c p n;
      Some (case r of Some n \<Rightarrow> Length S div 2 - n | None \<Rightarrow> SIZE_MAX)
    } = Some (first_unit (\<lambda>x. f x = c) xs)"
proof -
  have at: "chars_at mem p (drop k xs)"
    using S chars_at_drop [OF _ k] unfolding holds_ref_def p by blast
  have len: "unat n = length (drop k xs)" using n by simp
  have split: "xs = take k xs @ drop k xs" by simp
  show ?thesis
  proof (rule find_units [OF at len, of f c])
    assume "PhFindChar_units f mem c p n = Some None" "\<And>x. x \<in> set (drop k xs) \<Longrightarrow> f x \<noteq> c"
    moreover from this none have "f x \<noteq> c" if "x \<in> set xs" for x
      using that set_append [of "take k xs" "drop k xs"] by auto
    ultimately show ?thesis by (simp add: unit_missing)
  next
    fix pre y post m
    assume found: "PhFindChar_units f mem c p n = Some (Some m)" "drop k xs = pre @ y # post" "f y = c"
      "\<And>x. x \<in> set pre \<Longrightarrow> f x \<noteq> c" "unat m = Suc (length post)"
    have xs: "xs = (take k xs @ pre) @ y # post" using found(2) split by (metis append.assoc)
    have index: "first_unit (\<lambda>x. f x = c) ((take k xs @ pre) @ y # post) = of_nat (length (take k xs @ pre))"
      using none found(3,4) by (intro first_unit_at) auto
    have "Length S div 2 - m = of_nat (length xs) - of_nat (Suc (length post))"
      using holds_ref_half [OF S] of_nat_unatI [OF found(5)] by simp
    also have "\<dots> = of_nat (length (take k xs @ pre))"
      by (subst xs) (simp add: of_nat_diff)
    also have "\<dots> = first_unit (\<lambda>x. f x = c) xs"
      using index xs by simp
    finally show ?thesis using found(1) by simp
  qed
qed

lemma find_char:
  assumes S: "holds_ref mem S xs" and stop: "vec \<or> ic \<or> Buffer S = 0 \<or> terminated mem (Buffer S)"
  shows "PhFindCharInStringRef vec up mem S c ic
    = Some (first_unit (\<lambda>x. if ic then up x = up c else x = c) xs)"
proof (cases ic)
  case True
  then show ?thesis
    using find_char_units [OF S, of 0 "Length S div 2" up "up c" "Buffer S"] holds_ref_units [OF S]
    by (simp add: PhFindCharInStringRef_def Let_def)
next
  case nic: False
  show ?thesis
  proof (cases vec)
    case False
    then obtain q where "(if Buffer S \<noteq> NULL_PTR then wcschr mem (Buffer S) c else Some NULL_PTR) = Some q"
      using stop nic wcschr_stops [of mem "Buffer S" _ c] unfolding terminated_def
      by (cases "Buffer S = 0") auto
    then show ?thesis
      using False nic find_char_units [OF S, of 0 "Length S div 2" "\<lambda>x. x" c "Buffer S"] holds_ref_units [OF S]
      by (simp add: PhFindCharInStringRef_def Let_def)
  next
    case True
    let ?N = "length xs div 8"
    have N: "unat (Length S div 16) = ?N" by (rule holds_ref_blocks [OF S])
    have len: "8 * unat (Length S div 16) \<le> length xs" unfolding N by simp
    have at: "chars_at mem (Buffer S) xs" using S by (simp add: holds_ref_def)
    show ?thesis
    proof (rule find_blocks [OF at len, of c])
      assume none: "PhFindChar_blocks mem (mm_set1_epi16 c) (Buffer S) (Length S div 16)
          = Some (Inr (Buffer S + 16 * (Length S div 16)))" "c \<notin> set (take (8 * unat (Length S div 16)) xs)"
      have "16 * (Length S div 16) = 2 * of_nat (8 * ?N)"
        using of_nat_unatI [OF N] by simp
      then show ?thesis
        using True nic none N and_7_units [OF S]
          find_char_units [OF S, of "8 * ?N" "Length S div 2 AND 7" "\<lambda>x. x" c "Buffer S + 16 * (Length S div 16)"]
        by (auto simp: PhFindCharInStringRef_def Let_def modulo_nat_def mult.commute)
    next
      fix i m pre post
      assume found: "PhFindChar_blocks mem (mm_set1_epi16 c) (Buffer S) (Length S div 16) = Some (Inl (i, m))"
        "unat m \<le> unat (Length S div 16)" "xs = pre @ c # post" "c \<notin> set pre"
        "length pre = 8 * (unat (Length S div 16) - unat m) + unat i div 2" "unat i < 16"
      have "(Length S - m * 16) div 2 - (Length S div 2 AND 7) + ucast (i div 2) = of_nat (length pre)"
        using block_index [OF S _ found(6), of m] found(2,5) N by simp
      moreover have "first_unit (\<lambda>x. x = c) xs = of_nat (length pre)"
        using found(4) unfolding found(3) by (intro first_unit_at) auto
      ultimately show ?thesis
        using True nic found(1) by (simp add: PhFindCharInStringRef_def Let_def)
    qed
  qed
qed

subsection \<open>Backwards\<close>

lemma find_last_units:
  assumes "chars_at mem p xs" "unat n = length xs" "q = p + 2 * of_nat (length xs) - 2"
  obtains (none) "PhFindLastChar_units f mem c q n = Some None" "\<And>x. x \<in> set xs \<Longrightarrow> f x \<noteq> c"
    | (at) pre y post m where "PhFindLastChar_units f mem c q n = Some (Some m)" "xs = pre @ y # post" "f y = c"
      "\<And>x. x \<in> set post \<Longrightarrow> f x \<noteq> c" "unat m = Suc (length pre)"
  using assms
proof (induction xs arbitrary: q n thesis rule: rev_induct)
  case Nil
  then have "n = 0" by (simp add: unat_eq_0)
  then show ?case using Nil(1) by (simp add: PhFindLastChar_units.simps)
next
  case (snoc x xs)
  have n: "n \<noteq> 0" "unat (n - 1) = length xs" using unat_pred [of n "length xs"] snoc.prems(4) by simp_all
  have mem: "mem q = Some x" "chars_at mem p xs"
    using snoc.prems(3,5) by (simp_all add: chars_at_append)
  show ?case
  proof (cases "f x = c")
    case True
    show ?thesis
      by (rule snoc.prems(2) [of n xs x "[]"])
        (use True n mem snoc.prems(4) in \<open>auto simp: PhFindLastChar_units.simps [of _ _ _ q]\<close>)
  next
    case False
    then have step: "PhFindLastChar_units f mem c q n = PhFindLastChar_units f mem c (q - 2) (n - 1)"
      using n mem by (simp add: PhFindLastChar_units.simps [of _ _ _ q])
    show ?thesis
    proof (rule snoc.IH [where n = "n - 1" and q = "q - 2"])
      show "chars_at mem p xs" "unat (n - 1) = length xs" using mem n by simp_all
      show "q - 2 = p + 2 * of_nat (length xs) - 2" using snoc.prems(5) by simp
    next
      assume "PhFindLastChar_units f mem c (q - 2) (n - 1) = Some None" "\<And>x. x \<in> set xs \<Longrightarrow> f x \<noteq> c"
      then show ?thesis using step False by (intro snoc.prems(1)) auto
    next
      fix pre y post m
      assume "PhFindLastChar_units f mem c (q - 2) (n - 1) = Some (Some m)" "xs = pre @ y # post" "f y = c"
        "\<And>x. x \<in> set post \<Longrightarrow> f x \<noteq> c" "unat m = Suc (length pre)"
      then show ?thesis using step False by (intro snoc.prems(2) [of m pre y "post @ [x]"]) auto
    qed
  qed
qed

lemma find_last_blocks:
  assumes "chars_at mem p xs" "8 * unat n \<le> length xs" "q = p + 2 * of_nat (length xs) - 16"
  obtains (none) "PhFindLastChar_blocks mem (mm_set1_epi16 c) q n = Some (Inr (q - 16 * n))"
      "c \<notin> set (drop (length xs - 8 * unat n) xs)"
    | (at) i m pre post where "PhFindLastChar_blocks mem (mm_set1_epi16 c) q n = Some (Inl (i, m))"
      "0 < unat m" "unat m \<le> unat n" "xs = pre @ c # post" "c \<notin> set post"
      "length pre = length xs - 8 * unat n + 8 * (unat m - 1) + unat i div 2" "unat i < 16"
  using assms
proof (induction "unat n" arbitrary: q n xs thesis)
  case 0
  have n: "n = 0" using 0(1) by (simp add: unat_eq_0)
  have "PhFindLastChar_blocks mem (mm_set1_epi16 c) q 0 = Some (Inr q)"
    by (subst PhFindLastChar_blocks.simps) simp
  then show ?case by (intro 0(2)) (simp_all add: n)
next
  case (Suc k)
  have n: "n \<noteq> 0" "unat (n - 1) = k" using unat_pred [of n k] Suc.hyps(2) by simp_all
  have le: "8 + 8 * k \<le> length xs" using Suc.prems(4) unfolding Suc.hyps(2) [symmetric] by simp
  define front b where "front = take (length xs - 8) xs" and "b = drop (length xs - 8) xs"
  have xs: "xs = front @ b" "length b = 8" "length front = length xs - 8"
    using le by (simp_all add: front_def b_def)
  have at: "chars_at mem p front" "chars_at mem (p + 2 * of_nat (length front)) b"
    using Suc.prems(3) xs(1) chars_at_append by metis+
  have q: "q = p + 2 * of_nat (length front)"
    unfolding Suc.prems(5) using xs(2) by (simp add: xs(1))
  have load: "mm_loadu_si128 mem q = Some b"
    using read_units_chars [OF at(2), of 8] xs(2) by (simp add: mm_loadu_si128_def q)
  show ?case
  proof (rule scan_reverse [OF xs(2), of c])
    fix i assume i: "BitScanReverse (mm_movemask_epi8 (mm_cmpeq_epi16 b (mm_set1_epi16 c)))
        = Some (of_nat (2 * i + 1))" "i < 8" "b ! i = c" "c \<notin> set (drop (Suc i) b)"
    have idx: "unat (of_nat (2 * i + 1) :: ulong) = 2 * i + 1"
      using i(2) by (intro unat_of_nat_ulong) simp
    show ?thesis
    proof (rule Suc.prems(2) [of "of_nat (2 * i + 1)" n "front @ take i b" "drop (Suc i) b"])
      show "PhFindLastChar_blocks mem (mm_set1_epi16 c) q n = Some (Inl (of_nat (2 * i + 1), n))"
        using n load i by (subst PhFindLastChar_blocks.simps) simp
      show "xs = (front @ take i b) @ c # drop (Suc i) b"
        using id_take_nth_drop [of i b] i xs by simp
      show "length (front @ take i b)
        = length xs - 8 * unat n + 8 * (unat n - 1) + unat (of_nat (2 * i + 1) :: ulong) div 2"
        unfolding idx Suc.hyps(2) [symmetric] using i(2) xs le by simp
      show "unat (of_nat (2 * i + 1) :: ulong) < 16" unfolding idx using i(2) by simp
      show "0 < unat n" unfolding Suc.hyps(2) [symmetric] by simp
    qed (use i in simp_all)
  next
    assume none: "BitScanReverse (mm_movemask_epi8 (mm_cmpeq_epi16 b (mm_set1_epi16 c))) = None" and c: "c \<notin> set b"
    have step: "PhFindLastChar_blocks mem (mm_set1_epi16 c) q n
        = PhFindLastChar_blocks mem (mm_set1_epi16 c) (q - 16) (n - 1)"
      using n load none by (subst PhFindLastChar_blocks.simps) simp
    have len: "8 * unat (n - 1) \<le> length front" using le n(2) xs(3) by simp
    have q': "q - 16 = p + 2 * of_nat (length front) - 16" unfolding q by simp
    have diff: "length front - 8 * unat (n - 1) = length xs - 8 * unat n"
      unfolding n(2) Suc.hyps(2) [symmetric] using xs(3) le by simp
    show ?thesis
    proof (rule Suc.hyps(1) [OF n(2) [symmetric] _ _ at(1) len q'])
      assume "PhFindLastChar_blocks mem (mm_set1_epi16 c) (q - 16) (n - 1) = Some (Inr (q - 16 - 16 * (n - 1)))"
        "c \<notin> set (drop (length front - 8 * unat (n - 1)) front)"
      moreover from this have "c \<notin> set (drop (length xs - 8 * unat n) xs)"
        using c unfolding diff by (auto simp: xs(1) dest: in_set_dropD)
      ultimately show ?thesis using step by (intro Suc.prems(1)) (simp_all add: algebra_simps)
    next
      fix i m pre post
      assume found: "PhFindLastChar_blocks mem (mm_set1_epi16 c) (q - 16) (n - 1) = Some (Inl (i, m))"
        "0 < unat m" "unat m \<le> unat (n - 1)" "front = pre @ c # post" "c \<notin> set post"
        "length pre = length front - 8 * unat (n - 1) + 8 * (unat m - 1) + unat i div 2" "unat i < 16"
      show ?thesis
      proof (rule Suc.prems(2) [of i m pre "post @ b"])
        show "xs = pre @ c # post @ b" unfolding xs(1) found(4) by simp
        show "length pre = length xs - 8 * unat n + 8 * (unat m - 1) + unat i div 2"
          using found(6) unfolding diff .
        show "unat m \<le> unat n" using found(3) n(2) Suc.hyps(2) by simp
      qed (use step c found in simp_all)
    qed
  qed
qed

lemma find_last_char_units:
  assumes S: "holds_ref mem S xs" and k: "k \<le> length xs" and n: "unat n = k"
    and none: "\<And>x. x \<in> set (drop k xs) \<Longrightarrow> f x \<noteq> c" and p: "p = Buffer S + 2 * of_nat k"
  shows "do {
      r \<leftarrow> PhFindLastChar_units f mem c (p - 2) n;
      Some (case r of Some n \<Rightarrow> n - 1 | None \<Rightarrow> SIZE_MAX)
    } = Some (last_unit (\<lambda>x. f x = c) xs)"
proof -
  have at: "chars_at mem (Buffer S) (take k xs)" and len: "unat n = length (take k xs)"
    and q: "p - 2 = Buffer S + 2 * of_nat (length (take k xs)) - 2"
    using S chars_at_take k n p by (auto simp: holds_ref_def min_absorb2)
  have split: "xs = take k xs @ drop k xs" by simp
  show ?thesis
  proof (rule find_last_units [OF at len q, of f c])
    assume "PhFindLastChar_units f mem c (p - 2) n = Some None" "\<And>x. x \<in> set (take k xs) \<Longrightarrow> f x \<noteq> c"
    moreover from this none have "f x \<noteq> c" if "x \<in> set xs" for x
      using that set_append [of "take k xs" "drop k xs"] by auto
    ultimately show ?thesis by (simp add: unit_missing)
  next
    fix pre y post m
    assume found: "PhFindLastChar_units f mem c (p - 2) n = Some (Some m)" "take k xs = pre @ y # post" "f y = c"
      "\<And>x. x \<in> set post \<Longrightarrow> f x \<noteq> c" "unat m = Suc (length pre)"
    have xs: "xs = pre @ y # post @ drop k xs" using found(2) split by (metis append.assoc append_Cons)
    have "last_unit (\<lambda>x. f x = c) (pre @ y # post @ drop k xs) = of_nat (length pre)"
      using none found(3,4) by (intro last_unit_at) auto
    moreover have "m - 1 = of_nat (length pre)" using of_nat_unatI [OF found(5)] by simp
    ultimately show ?thesis using found(1) xs by simp
  qed
qed

lemma last_block_index:
  assumes S: "holds_ref mem S xs" and m: "0 < unat m" "unat m \<le> length xs div 8" and i: "unat (i :: ulong) < 16"
  shows "(m - 1) * 16 div 2 + (Length S div 2 AND 7) + ucast (i div 2)
    = of_nat (length xs mod 8 + 8 * (unat m - 1) + unat i div 2)"
proof -
  let ?L = "length xs"
  obtain k where k: "unat m = Suc k" using m(1) by (cases "unat m") auto
  have small: "8 * k < 2 ^ 63" using m(2) k holds_ref_small [OF S] by linarith
  have "(m - 1) * 16 = of_nat (2 * (8 * k))" using of_nat_unatI [OF k] by simp
  then have a: "(m - 1) * 16 div 2 = of_nat (8 * k)" by (simp only: half_of_nat [OF small])
  have b: "(Length S div 2 AND 7) = of_nat (?L mod 8)"
    by (rule of_nat_unatI) (rule and_7_units [OF S])
  have c: "ucast (i div 2) = (of_nat (unat i div 2) :: ulong64)"
    by (rule of_nat_unatI) (simp add: unat_ucast_ulong unat_div)
  show ?thesis unfolding a b c k by (simp only: of_nat_add add_ac diff_Suc_1)
qed

lemma find_last_char:
  assumes S: "holds_ref mem S xs"
    and stop: "vec \<or> ic \<or> Buffer S + Length S = 0 \<or> terminated mem (Buffer S + Length S)"
  shows "PhFindLastCharInStringRef vec up mem S c ic
    = Some (last_unit (\<lambda>x. if ic then up x = up c else x = c) xs)"
proof -
  let ?stop = "Buffer S + Length S"
  have e: "?stop = Buffer S + 2 * of_nat (length xs)" using holds_ref_Length [OF S] by simp
  note whole = find_last_char_units [OF S order_refl holds_ref_units [OF S] _ e]
  show ?thesis
  proof (cases ic)
    case True
    then show ?thesis using whole [of up "up c"] by (simp add: PhFindLastCharInStringRef_def Let_def)
  next
    case nic: False
    show ?thesis
    proof (cases vec)
      case False
      then obtain q where "(if ?stop \<noteq> NULL_PTR then wcsrchr_from mem ?stop c NULL_PTR else Some NULL_PTR) = Some q"
        using stop nic wcsrchr_stops [of mem ?stop _ c] unfolding terminated_def
        by (cases "?stop = 0") auto
      then show ?thesis
        using False nic whole [of "\<lambda>x. x" c] by (simp add: PhFindLastCharInStringRef_def Let_def)
    next
      case True
      let ?N = "length xs div 8" and ?n = "Length S div 16"
      have N: "unat ?n = ?N" by (rule holds_ref_blocks [OF S])
      have len: "8 * unat ?n \<le> length xs" unfolding N by simp
      have at: "chars_at mem (Buffer S) xs" using S by (simp add: holds_ref_def)
      have q: "?stop - 16 = Buffer S + 2 * of_nat (length xs) - 16" unfolding e ..
      have left: "length xs - 8 * unat ?n = length xs mod 8" unfolding N by (simp add: minus_mult_div_eq_mod)
      have low: "?stop - 16 * ?n = Buffer S + 2 * of_nat (length xs mod 8)"
      proof -
        have "length xs = 8 * ?N + length xs mod 8" by simp
        then have "of_nat (length xs) = (8 * of_nat ?N + of_nat (length xs mod 8) :: ulong64)"
          by (metis of_nat_add of_nat_mult of_nat_numeral)
        then show ?thesis unfolding e of_nat_unatI [OF N] by (simp add: algebra_simps)
      qed
      note rest = find_last_char_units [OF S _ and_7_units [OF S], of "\<lambda>x. x" c "?stop - 16 * ?n"]
      have zero: "?N = 0 \<longleftrightarrow> ?n = 0" using N by (metis unat_eq_0)
      show ?thesis
      proof (rule find_last_blocks [OF at len q, of c])
        assume none: "PhFindLastChar_blocks mem (mm_set1_epi16 c) (?stop - 16) ?n = Some (Inr (?stop - 16 - 16 * ?n))"
          "c \<notin> set (drop (length xs - 8 * unat ?n) xs)"
        have "(if ?n \<noteq> 0 then do {
              r \<leftarrow> PhFindLastChar_blocks mem (mm_set1_epi16 c) (?stop - 16) ?n;
              Some (map_sum id (\<lambda>buffer. buffer + 16) r)
            } else Some (Inr ?stop)) = Some (Inr (?stop - 16 * ?n) :: ulong \<times> ulong64 + ulong64)"
          unfolding none(1) by simp
        moreover have "do {
            r \<leftarrow> PhFindLastChar_units (\<lambda>x. x) mem c (?stop - 16 * ?n - 2) (Length S div 2 AND 7);
            Some (case r of Some n \<Rightarrow> n - 1 | None \<Rightarrow> SIZE_MAX)
          } = Some (last_unit (\<lambda>x. x = c) xs)"
          using none(2) low unfolding left by (intro rest) auto
        ultimately show ?thesis
          using True nic by (simp add: PhFindLastCharInStringRef_def Let_def)
      next
        fix i m pre post
        assume found: "PhFindLastChar_blocks mem (mm_set1_epi16 c) (?stop - 16) ?n = Some (Inl (i, m))"
          "0 < unat m" "unat m \<le> unat ?n" "xs = pre @ c # post" "c \<notin> set post"
          "length pre = length xs - 8 * unat ?n + 8 * (unat m - 1) + unat i div 2" "unat i < 16"
        have "(m - 1) * 16 div 2 + (Length S div 2 AND 7) + ucast (i div 2) = of_nat (length pre)"
          using last_block_index [OF S found(2) found(3) [unfolded N] found(7)] found(6) [unfolded left]
          by (simp only:)
        moreover have "last_unit (\<lambda>x. x = c) xs = of_nat (length pre)"
          using found(5) unfolding found(4) by (intro last_unit_at) auto
        moreover have "?n \<noteq> 0" using found(2,3) by auto
        ultimately show ?thesis
          using True nic found(1) by (simp add: PhFindLastCharInStringRef_def Let_def)
      qed
    qed
  qed
qed

section \<open>Searching for a string\<close>

text \<open>The first place where a string occurs in another, or \<open>SIZE_MAX\<close>.\<close>

definition first_sub :: "ushort list \<Rightarrow> ushort list \<Rightarrow> ulong64" where
  "first_sub sub xs = (case find (\<lambda>k. take (length sub) (drop k xs) = sub) [0..<Suc (length xs) - length sub] of
     Some k \<Rightarrow> of_nat k | None \<Rightarrow> SIZE_MAX)"

declare PhFindString_loop.simps [simp del]

lemma folded_take_drop: "folded up ic (take n xs) = take n (folded up ic xs)"
  "folded up ic (drop n xs) = drop n (folded up ic xs)"
  by (simp_all add: folded_def take_map drop_map)

lemma find_string_loop:
  assumes S: "chars_at mem B xs" and T: "chars_at mem (Buffer sr2) ys" "unat (Length sr2) = 2 * length ys"
    and len: "k + unat i + length ys \<le> length xs" and f: "f = (if ic then up else (\<lambda>x. x))"
  shows "PhFindString_loop vec up mem ic (f y) \<lparr>Length = Length sr2, Buffer = B + 2 * of_nat k\<rparr> sr2 i
    = Some (map_option (\<lambda>j. B + 2 * of_nat j + 2)
        (find (\<lambda>j. take (Suc (length ys)) (drop j (folded up ic xs)) = folded up ic (y # ys)) [k..<k + unat i]))"
  using len
proof (induction "unat i" arbitrary: i k)
  case 0
  then have "i = 0" by (simp add: unat_eq_0)
  then show ?case by (subst PhFindString_loop.simps) simp
next
  case (Suc n)
  have i: "i \<noteq> 0" "unat (i - 1) = n" using unat_pred [of i n] Suc.hyps(2) by simp_all
  have k: "k < length xs" using Suc.prems Suc.hyps(2) by simp
  have x: "mem (B + 2 * of_nat k) = Some (xs ! k)" by (rule chars_at_nth [OF S k])
  let ?sr = "\<lparr>Length = Length sr2, Buffer = B + 2 * of_nat (Suc k)\<rparr>"
  have "chars_at mem (B + 2 * of_nat (Suc k)) (take (length ys) (drop (Suc k) xs))"
    using chars_at_take [OF chars_at_drop [OF S, of "Suc k"]] k by simp
  moreover have "length (take (length ys) (drop (Suc k) xs)) = length ys"
    using Suc.prems Suc.hyps(2) by simp
  ultimately have "holds_ref mem ?sr (take (length ys) (drop (Suc k) xs))" "holds_ref mem sr2 ys"
    using T by (simp_all add: holds_ref_def)
  note eq = equal_ref_folded [OF this, of vec up ic]
  have sr: "\<lparr>Length = Length sr2, Buffer = B + 2 * of_nat k\<rparr>\<lparr>Buffer := B + 2 * of_nat k + 2\<rparr> = ?sr"
    by simp
  let ?P = "\<lambda>j. take (Suc (length ys)) (drop j (folded up ic xs)) = folded up ic (y # ys)"
  have P: "?P k \<longleftrightarrow> f (xs ! k) = f y \<and> folded up ic (take (length ys) (drop (Suc k) xs)) = folded up ic ys"
  proof -
    have "drop k (folded up ic xs) = f (xs ! k) # folded up ic (drop (Suc k) xs)"
      unfolding folded_take_drop(2) [symmetric] Cons_nth_drop_Suc [OF k, symmetric] by (simp add: f)
    then show ?thesis by (simp add: f folded_take_drop(1))
  qed
  have upt: "[k..<k + unat i] = k # [Suc k..<Suc k + unat (i - 1)]"
    using i(2) by (simp add: upt_conv_Cons flip: Suc.hyps(2))
  have fold: "(if ic then up (xs ! k) else xs ! k) = f (xs ! k)" by (simp add: f)
  show ?case
  proof (cases "?P k")
    case True
    then show ?thesis
      using i(1) x eq P unfolding upt
      by (subst PhFindString_loop.simps) (simp add: fold Let_def sr [simplified] algebra_simps)
  next
    case False
    have "Suc k + unat (i - 1) + length ys \<le> length xs" using Suc.prems i(2) Suc.hyps(2) by simp
    note IH = Suc.hyps(1) [OF i(2) [symmetric] this]
    have "PhFindString_loop vec up mem ic (f y) \<lparr>Length = Length sr2, Buffer = B + 2 * of_nat k\<rparr> sr2 i
      = PhFindString_loop vec up mem ic (f y) ?sr sr2 (i - 1)"
      using i(1) x eq P False
      by (subst PhFindString_loop.simps) (auto simp: fold Let_def algebra_simps)
    then show ?thesis unfolding IH upt using False by simp
  qed
qed

lemma find_string:
  assumes S: "holds_ref mem S xs" and T: "holds_ref mem T ys"
  shows "PhFindStringInStringRef vec up mem S T ic = Some (first_sub (folded up ic ys) (folded up ic xs))"
proof -
  have lens: "unat (Length S div 2) = length xs" "unat (Length T div 2) = length ys"
    using holds_ref_units S T by blast+
  show ?thesis
  proof (cases "length ys \<le> length xs \<and> ys \<noteq> []")
    case False
    then show ?thesis
      using lens by (auto simp: PhFindStringInStringRef_def Let_def word_less_nat_alt first_sub_def
          unat_eq_0 upt_conv_Cons split: option.splits)
  next
    case True
    then obtain y zs where ys: "ys = y # zs" by (cases ys) auto
    let ?sr2 = "\<lparr>Length = Length T - 2, Buffer = Buffer T + 2\<rparr>"
    let ?f = "if ic then up else (\<lambda>x. x)"
    have T': "unat (Length T) = 2 * length ys" "chars_at mem (Buffer T) ys" using T by (simp_all add: holds_ref_def)
    have y: "mem (Buffer T) = Some y" "chars_at mem (Buffer ?sr2) zs" using T'(2) ys by simp_all
    have "unat (2 :: ulong64) \<le> unat (Length T)" using T'(1) ys by simp
    then have l2: "unat (Length ?sr2) = 2 * length zs"
      using T'(1) ys by (simp add: unat_minus_exact word_le_nat_alt)
    have le: "Length T div 2 \<le> Length S div 2" using True lens by (simp add: word_le_nat_alt)
    let ?i = "Length S div 2 - Length T div 2 + 1"
    have i: "unat ?i = length xs - length zs"
    proof -
      have "unat (Length S div 2 - Length T div 2) = length xs - length ys"
        using le lens by (simp add: unat_minus_exact)
      then show ?thesis
        using holds_ref_small [OF S] True ys by (subst unat_add_exact) auto
    qed
    have S': "chars_at mem (Buffer S) xs" using S by (simp add: holds_ref_def)
    have "PhFindString_loop vec up mem ic (?f y) \<lparr>Length = Length T - 2, Buffer = Buffer S\<rparr> ?sr2 ?i
      = Some (map_option (\<lambda>j. Buffer S + 2 * of_nat j + 2)
        (find (\<lambda>j. take (Suc (length zs)) (drop j (folded up ic xs)) = folded up ic (y # zs)) [0..<0 + unat ?i]))"
      using find_string_loop [OF S' y(2) l2, of 0 ?i ?f ic up vec y] i True ys by simp
    note loop = this [unfolded i add_0]
    let ?found = "find (\<lambda>j. take (Suc (length zs)) (drop j (folded up ic xs)) = folded up ic (y # zs)) [0..<length xs - length zs]"
    have sub: "first_sub (folded up ic ys) (folded up ic xs) = (case ?found of Some k \<Rightarrow> of_nat k | None \<Rightarrow> SIZE_MAX)"
      unfolding first_sub_def ys by simp
    have small: "of_nat j * 2 + 2 = (of_nat (2 * Suc j) :: ulong64)" for j by simp
    have index: "(Buffer S + 2 * of_nat j + 2 - Buffer S) div 2 - 1 = of_nat j" if "?found = Some j" for j
    proof -
      have "j < length xs" using that by (auto simp: find_Some_iff)
      then have "of_nat (2 * Suc j) div 2 = (of_nat (Suc j) :: ulong64)"
        using holds_ref_small [OF S] by (intro half_of_nat) simp
      moreover have "Buffer S + 2 * of_nat j + 2 - Buffer S = of_nat (2 * Suc j)" by simp
      ultimately show ?thesis by (simp only:) simp
    qed
    have ne: "Length T div 2 \<noteq> 0" "\<not> Length S div 2 < Length T div 2"
      using lens(2) le ys by (auto simp: unat_eq_0 not_less)
    show ?thesis
    proof (cases ?found)
      case None
      then show ?thesis using loop ne y(1) sub by (cases ic) (simp_all add: PhFindStringInStringRef_def Let_def)
    next
      case (Some j)
      then show ?thesis
        using loop ne y(1) sub index [OF Some] by (cases ic) (simp_all add: PhFindStringInStringRef_def Let_def)
    qed
  qed
qed

section \<open>Counting\<close>

text \<open>Memory is mapped in pages, so with an address the sixteen bytes around it are mapped.\<close>

definition mapped_blocks :: "memory \<Rightarrow> bool" where
  "mapped_blocks mem \<longleftrightarrow> (\<forall>p i. mem p \<noteq> None \<longrightarrow> i < 8 \<longrightarrow> mem ((p AND NOT 0xf) + 2 * of_nat i) \<noteq> None)"

lemma and_not_and: "(q AND NOT m) AND m = (0 :: ulong64)"
  by (rule bit_word_eqI) (simp add: bit_and_iff bit_not_iff)

lemma and_split: "(x AND m) + (x AND NOT m) = (x :: ulong64)"
proof -
  have "(x AND m) AND (x AND NOT m) = 0"
    by (rule bit_word_eqI) (simp add: bit_and_iff bit_not_iff)
  then have "(x AND m) + (x AND NOT m) = (x AND m) OR (x AND NOT m)"
    by (rule disjunctive_add_eq_or)
  also have "\<dots> = x" by (rule bit_word_eqI) (auto simp: bit_and_iff bit_or_iff bit_not_iff)
  finally show ?thesis .
qed

lemma read_units_mapped:
  "(\<And>i. i < n \<Longrightarrow> mem (p + 2 * of_nat i) \<noteq> None) \<Longrightarrow>
   \<exists>b. read_units mem p n = Some b \<and> length b = n \<and> chars_at mem p b"
proof (induction n arbitrary: p)
  case (Suc n)
  have "mem (p + 2 + 2 * of_nat i) \<noteq> None" if "i < n" for i
    using Suc.prems [of "Suc i"] that by (simp add: algebra_simps)
  then obtain b where "read_units mem (p + 2) n = Some b" "length b = n" "chars_at mem (p + 2) b"
    using Suc.IH [of "p + 2"] by blast
  moreover obtain c where "mem p = Some c" using Suc.prems [of 0] by auto
  ultimately show ?case by simp
qed simp

lemma load_block:
  assumes "mapped_blocks mem" "mem q \<noteq> None" "q AND NOT 0xf = p"
  obtains b where "mm_load_si128 mem p = Some b" "length b = 8" "chars_at mem p b"
proof -
  have "mem (p + 2 * of_nat i) \<noteq> None" if "i < 8" for i
    using assms that unfolding mapped_blocks_def by blast
  then obtain b where "read_units mem p 8 = Some b" "length b = 8" "chars_at mem p b"
    using read_units_mapped [of 8 mem p] by blast
  moreover have "p AND 0xf = 0" unfolding assms(3) [symmetric] by (rule and_not_and)
  ultimately show thesis using that by (simp add: mm_load_si128_def)
qed

text \<open>The lanes of a block and the string agree where both are.\<close>

lemma chars_at_agree:
  assumes "chars_at mem p (drop j b)" "chars_at mem p cs" "j + i < length b" "i < length cs"
  shows "b ! (j + i) = cs ! i"
  using chars_at_nth [OF assms(1), of i] chars_at_nth [OF assms(2,4)] assms(3) by simp

lemma first_zero_lane:
  assumes b: "length b = 8" "chars_at mem p (drop j b)" and s: "chars_at mem p (zs @ [0])" "0 \<notin> set zs"
    and k: "j + k < 8" "b ! (j + k) = 0" "0 \<notin> set (take k (drop j b))"
  shows "k = length zs"
proof (rule linorder_cases)
  assume "k < length zs"
  then have "b ! (j + k) = zs ! k"
    using chars_at_agree [OF b(2) s(1), of k] k(1) b(1) by (simp add: nth_append)
  then show ?thesis using k(2) s(2) \<open>k < length zs\<close> nth_mem by fastforce
next
  assume less: "length zs < k"
  then have "b ! (j + length zs) = 0"
    using chars_at_agree [OF b(2) s(1), of "length zs"] k(1) b(1) by simp
  moreover have "take k (drop j b) ! length zs = b ! (j + length zs)"
    using less k(1) b(1) by simp
  ultimately have "0 \<in> set (take k (drop j b))"
    using less k(1) b(1) by (metis length_take length_drop min_less_iff_conj nth_mem add.commute less_diff_conv less_trans)
  then show ?thesis using k(3) by simp
qed

lemma no_zero_lane:
  assumes b: "length b = 8" "chars_at mem p (drop j b)" "j \<le> 8" and s: "chars_at mem p (zs @ [0])"
    and none: "0 \<notin> set (drop j b)"
  shows "8 - j \<le> length zs"
proof (rule ccontr)
  assume "\<not> 8 - j \<le> length zs"
  then have l: "j + length zs < 8" by simp
  then have "b ! (j + length zs) = 0"
    using chars_at_agree [OF b(2) s, of "length zs"] b(1) by simp
  moreover have "drop j b ! length zs = b ! (j + length zs)" using l b(1) by simp
  ultimately have "0 \<in> set (drop j b)"
    using l b(1) by (metis length_drop nth_mem add.commute less_diff_conv)
  then show False using none by simp
qed

lemma aligned_next: "p AND NOT 0xf = p \<Longrightarrow> (p + 16) AND NOT 0xf = (p + 16 :: ulong64)"
proof -
  assume p: "p AND NOT 0xf = p"
  have "(p + 16) AND 0xf = (p mod 16)"
    unfolding and_15 by (rule word_unat_eq_iff [THEN iffD2]) (simp add: unat_mod unat_word_ariths mod_mod_cancel)
  also have "\<dots> = p AND 0xf" by (simp add: and_15)
  also have "\<dots> = 0" by (subst p [symmetric]) (rule and_not_and)
  finally show ?thesis using and_split [of "p + 16" 15] by simp
qed

lemma count_blocks:
  assumes "mapped_blocks mem" "p AND NOT 0xf = p" "chars_at mem p (zs @ [0])" "0 \<notin> set zs"
  shows "PhCountStringZ_blocks mem String p = Some ((p + 2 * of_nat (8 * (length zs div 8)) - String) div 2
    + of_nat (length zs mod 8))"
  using assms
proof (induction "length zs" arbitrary: zs p rule: less_induct)
  case less
  have "mem p \<noteq> None" using less.prems(3) by (cases zs) auto
  then obtain b where b: "mm_load_si128 mem p = Some b" "length b = 8" "chars_at mem p b"
    using load_block [OF less.prems(1) _ less.prems(2)] by blast
  have b0: "chars_at mem p (drop 0 b)" using b(3) by simp
  show ?case
  proof (rule scan_forward [OF b(2), of 0 0])
    fix k assume k: "BitScanForward (drop_bit (2 * 0) (mm_movemask_epi8 (mm_cmpeq_epi16 b (mm_set1_epi16 0))))
        = Some (of_nat (2 * k))" "0 + k < 8" "b ! (0 + k) = 0" "0 \<notin> set (take k (drop 0 b))"
    have z: "k = length zs" by (rule first_zero_lane [OF b(2) b0 less.prems(3,4) k(2-4)])
    have "unat (of_nat (2 * k) :: ulong) = 2 * k" using k(2) by (intro unat_of_nat_ulong) simp
    then have "ucast (of_nat (2 * k) :: ulong) = (of_nat (2 * k) :: ulong64)"
      by (intro of_nat_unatI) (simp only: unat_ucast_ulong)
    moreover have "k < 2 ^ 63" using k(2) by simp
    ultimately have "ucast (of_nat (2 * k) :: ulong) div 2 = (of_nat k :: ulong64)"
      by (simp only: half_of_nat)
    then show ?thesis using b(1) k z by (subst PhCountStringZ_blocks.simps) simp
  next
    assume none: "BitScanForward (drop_bit (2 * 0) (mm_movemask_epi8 (mm_cmpeq_epi16 b (mm_set1_epi16 0)))) = None"
      "0 \<notin> set (drop 0 b)"
    have long: "8 \<le> length zs" using no_zero_lane [OF b(2) b0 _ less.prems(3) none(2)] by simp
    have "chars_at mem (p + 16) (drop 8 (zs @ [0]))"
      using chars_at_drop [OF less.prems(3), of 8] long by simp
    then have at: "chars_at mem (p + 16) (drop 8 zs @ [0])" using long by simp
    have IH: "PhCountStringZ_blocks mem String (p + 16)
      = Some ((p + 16 + 2 * of_nat (8 * (length (drop 8 zs) div 8)) - String) div 2 + of_nat (length (drop 8 zs) mod 8))"
      using long in_set_dropD [of 0 8 zs] less.prems(4)
      by (intro less.hyps [OF _ less.prems(1) aligned_next [OF less.prems(2)] at]) auto
    obtain m where m: "length zs = 8 + m" using long le_Suc_ex by blast
    have "PhCountStringZ_blocks mem String p = PhCountStringZ_blocks mem String (p + 16)"
      using b(1) none by (subst PhCountStringZ_blocks.simps) simp
    moreover have "(m + 8) div 8 = Suc (m div 8)" "(m + 8) mod 8 = m mod 8" by simp_all
    ultimately show ?thesis unfolding IH by (simp add: m algebra_simps)
  qed
qed

lemma clear_even:
  "\<not> bit s 0 \<Longrightarrow> (\<And>n. bit a n \<longleftrightarrow> n = 0 \<or> bit b n) \<Longrightarrow> s AND NOT b = (s AND NOT a :: ulong64)"
  by (rule bit_word_eqI) (auto simp: bit_and_iff bit_not_iff simp del: bit_0, metis gr0I)

lemma count_string:
  assumes mem: "vec \<Longrightarrow> mapped_blocks mem" and even: "vec \<Longrightarrow> even (unat String)"
    and s: "chars_at mem String (zs @ [0])" "0 \<notin> set zs" "2 * length zs < 2 ^ 64"
  shows "PhCountStringZ vec mem String = Some (of_nat (length zs))"
proof (cases vec)
  case False
  have "wcslen mem p = Some (of_nat (length zs))" if "chars_at mem p (zs @ [0])" for p
    using that s(2)
  proof (induction zs arbitrary: p)
    case Nil
    then show ?case by (simp add: wcslen.simps [of mem p])
  next
    case (Cons z zs)
    then show ?case by (simp add: wcslen.simps [of mem p])
  qed
  then show ?thesis using False s(1) by (simp add: PhCountStringZ_def)
next
  case True
  let ?p = "String AND NOT 0xe"
  have low: "\<not> bit String 0" using even [OF True] by (simp add: bit_unat)
  have p: "?p = String AND NOT 0xf"
  proof (rule clear_even [OF low])
    show "bit (0xf :: ulong64) n \<longleftrightarrow> n = 0 \<or> bit (0xe :: ulong64) n" for n
      by (cases n) (simp_all add: bit_Suc bit_0)
  qed
  have align: "?p AND NOT 0xf = ?p" unfolding p by (rule bit_word_eqI) (auto simp: bit_and_iff bit_not_iff)
  let ?u = "String AND 0xf"
  have String: "String = ?p + ?u" using and_split [of String 15] unfolding p by (simp add: add.commute)
  obtain j where j: "unat ?u = 2 * j" "j < 8"
  proof -
    have "unat ?u = unat String mod 16" unfolding and_15 by (simp add: unat_mod)
    moreover have "even (unat String mod 16)" using even [OF True] by (simp add: dvd_mod_iff)
    ultimately show thesis using that [of "unat ?u div 2"] by auto
  qed
  have u: "?u = 2 * of_nat j" using of_nat_unatI [OF j(1)] by simp
  let ?u32 = "ucast String AND 0xf :: ulong"
  have u32: "unat ?u32 = 2 * j"
  proof -
    have "unat ?u32 = unat (ucast String :: ulong) mod 16"
      unfolding and_15_ulong by (simp add: unat_mod)
    also have "\<dots> = unat String mod 16"
      by (simp add: unsigned_ucast_eq take_bit_eq_mod mod_mod_cancel)
    finally show ?thesis using j(1) unfolding and_15 by (simp add: unat_mod)
  qed
  have m0: "mem String \<noteq> None" using s(1) by (cases zs) auto
  show ?thesis
  proof (cases "j = 0")
    case z: True
    then have "?p = String" using String u by simp
    moreover have "?u32 = 0" using u32 z by (simp add: unat_eq_0)
    moreover have "(2 * of_nat (8 * (length zs div 8)) :: ulong64) div 2 = of_nat (8 * (length zs div 8))"
      using half_of_nat [of "8 * (length zs div 8)"] s(3) by simp
    moreover have "of_nat (8 * (length zs div 8)) + of_nat (length zs mod 8) = (of_nat (length zs) :: ulong64)"
      by (metis mult_div_mod_eq of_nat_add)
    ultimately show ?thesis
      using True count_blocks [OF mem [OF True] align _ s(2), of String] s(1)
      by (simp add: PhCountStringZ_def Let_def)
  next
    case nz: False
    obtain b where b: "mm_load_si128 mem ?p = Some b" "length b = 8" "chars_at mem ?p b"
      using load_block [OF mem [OF True] m0 p [symmetric]] by blast
    have bj: "chars_at mem String (drop j b)"
      using chars_at_drop [OF b(3), of j] b(2) j(2) String u by simp
    have ne: "?u32 \<noteq> 0" using u32 nz by auto
    show ?thesis
    proof (rule scan_forward [OF b(2), of j 0])
      fix k assume k: "BitScanForward (drop_bit (2 * j) (mm_movemask_epi8 (mm_cmpeq_epi16 b (mm_set1_epi16 0))))
          = Some (of_nat (2 * k))" "j + k < 8" "b ! (j + k) = 0" "0 \<notin> set (take k (drop j b))"
      have z: "k = length zs" by (rule first_zero_lane [OF b(2) bj s(1,2) k(2-4)])
      have "unat (of_nat (2 * k) :: ulong) = 2 * k" using k(2) by (intro unat_of_nat_ulong) simp
      then have "ucast (of_nat (2 * k) div 2 :: ulong) = (of_nat k :: ulong64)"
        by (intro of_nat_unatI) (simp only: unat_ucast_ulong unat_div, simp)
      then show ?thesis using True b(1) k z ne u32 by (simp add: PhCountStringZ_def Let_def)
    next
      assume none: "BitScanForward (drop_bit (2 * j) (mm_movemask_epi8 (mm_cmpeq_epi16 b (mm_set1_epi16 0)))) = None"
        "0 \<notin> set (drop j b)"
      have long: "8 - j \<le> length zs" using no_zero_lane [OF b(2) bj _ s(1) none(2)] j(2) by simp
      let ?zs = "drop (8 - j) zs"
      have p16: "?p + 16 = String + 2 * of_nat (8 - j)"
        using String u j(2) by (simp add: of_nat_diff algebra_simps)
      then have "chars_at mem (?p + 16) (drop (8 - j) (zs @ [0]))"
        using chars_at_drop [OF s(1), of "8 - j"] long by simp
      then have at: "chars_at mem (?p + 16) (?zs @ [0])" using long by simp
      have "PhCountStringZ_blocks mem String (?p + 16) = Some ((?p + 16 + 2 * of_nat (8 * (length ?zs div 8)) - String) div 2
          + of_nat (length ?zs mod 8))"
        using in_set_dropD [of 0 "8 - j" zs] s(2)
        by (intro count_blocks [OF mem [OF True] aligned_next [OF align] at]) blast
      moreover have "?p + 16 + 2 * of_nat (8 * (length ?zs div 8)) - String = of_nat (2 * (8 - j + 8 * (length ?zs div 8)))"
        unfolding p16 by simp
      moreover have "8 - j + 8 * (length ?zs div 8) < 2 ^ 63"
        using s(3) long by simp
      moreover have "of_nat (8 - j + 8 * (length ?zs div 8)) + of_nat (length ?zs mod 8) = (of_nat (length zs) :: ulong64)"
      proof -
        have "8 - j + 8 * (length ?zs div 8) + length ?zs mod 8 = length zs" using long by simp
        then show ?thesis by (metis of_nat_add)
      qed
      ultimately have "PhCountStringZ_blocks mem String (?p + 16) = Some (of_nat (length zs))"
        by (simp only: half_of_nat)
      then show ?thesis using True b(1) none ne u32 by (simp add: PhCountStringZ_def Let_def)
    qed
  qed
qed

end
