(* ===== verification/Digits.thy ===== *)
theory Digits
  imports StringFind
begin

text \<open>
  Numbers as text (\<open>phlib/basesup.c\<close>, tables of \<open>data.c\<close>): hexadecimal strings of byte
  buffers, and integers in bases up to 69.  A buffer is a block of cells (theory Buffers); the
  strings are read from memory (theory StringRefs).
\<close>

unbundle bit_operations_syntax

section \<open>The tables\<close>

definition PhCharToInteger :: "ulong list" where
  "PhCharToInteger = replicate 32 (- 1)
     @ map of_nat ([36..<52] @ [0..<10] @ [52..<59] @ [10..<36] @ [59..<65] @ [10..<36] @ [65..<69])
     @ replicate 129 (- 1)"

text \<open>Digits, letters, and the three runs of punctuation of ASCII.\<close>

definition PhIntegerToChar :: "uchar list" where
  "PhIntegerToChar = map of_nat ([48..<58] @ [97..<123] @ [32..<48] @ [58..<65] @ [91..<97] @ [123..<127])"

definition PhIntegerToCharUpper :: "uchar list" where
  "PhIntegerToCharUpper = map of_nat ([48..<58] @ [65..<91] @ [32..<48] @ [58..<65] @ [91..<97] @ [123..<127])"

text \<open>\<open>PhCharToInteger[(UCHAR)c]\<close>: only the low byte of the unit counts.\<close>

definition char_to_integer :: "ushort \<Rightarrow> ulong" where
  "char_to_integer c = PhCharToInteger ! unat (ucast c :: uchar)"

section \<open>Hexadecimal strings\<close>

function PhHexStringToBuffer_loop ::
  "memory \<Rightarrow> ulong64 \<Rightarrow> ulong64 \<Rightarrow> ulong64 \<Rightarrow> uchar block \<Rightarrow> uchar block option" where
  "PhHexStringToBuffer_loop mem B n i out = (
     if i < n then do {
       c1 \<leftarrow> mem (B + i * 2 * 2);
       c2 \<leftarrow> mem (B + (i * 2 + 1) * 2);
       out \<leftarrow> write_cell (unat i) (ucast (push_bit 4 (char_to_integer c1)) + ucast (char_to_integer c2)) out;
       PhHexStringToBuffer_loop mem B n (i + 1) out
     }
     else Some out)"
  by auto
termination
  by (relation "measure (\<lambda>(m, b, n, i, out). unat n - unat i)") (auto simp: unat_inc word_less_nat_alt)

definition PhHexStringToBuffer :: "memory \<Rightarrow> ph_stringref \<Rightarrow> uchar block \<Rightarrow> (bool \<times> uchar block) option" where
  "PhHexStringToBuffer mem String out = (
     if (Length String div 2) AND 1 \<noteq> 0 then Some (False, out)
     else do {
       out \<leftarrow> PhHexStringToBuffer_loop mem (Buffer String) (Length String div 2 div 2) 0 out;
       Some (True, out)
     })"

definition PhHexStringToBufferEx ::
  "memory \<Rightarrow> ph_stringref \<Rightarrow> ulong \<Rightarrow> uchar block \<Rightarrow> (bool \<times> uchar block) option" where
  "PhHexStringToBufferEx mem String BufferLength out = (
     if (Length String div 2) AND 1 \<noteq> 0 then Some (False, out)
     else
       let n = Length String div 2 div 2 in
       if n > ucast BufferLength then Some (False, out)
       else do {
         out \<leftarrow> PhHexStringToBuffer_loop mem (Buffer String) n 0 out;
         Some (True, out)
       })"

text \<open>The buffer of a new string object: its units and the null terminator.\<close>

definition PhCreateStringEx :: "ushort list option \<Rightarrow> ulong64 \<Rightarrow> ushort block option" where
  "PhCreateStringEx data n = (
     if n AND 1 \<noteq> 0 then None
     else do {
       b \<leftarrow> write_cell (unat (n div 2)) 0 (alloc_block (unat (n div 2) + 1));
       case data of
         None \<Rightarrow> Some b
       | Some cs \<Rightarrow> do { cs \<leftarrow> items_from cs (unat (n div 2)); copy_in 0 cs b }
     })"

function PhBufferToHexString_loop ::
  "uchar list \<Rightarrow> uchar block \<Rightarrow> ulong \<Rightarrow> ulong \<Rightarrow> ushort block \<Rightarrow> ushort block option" where
  "PhBufferToHexString_loop table input n i string = (
     if i < n then do {
       b \<leftarrow> read_cell input (unat i);
       string \<leftarrow> write_cell (unat (ucast i * 2 :: ulong64)) (ucast (table ! unat (drop_bit 4 b))) string;
       string \<leftarrow> write_cell (unat (ucast i * 2 + 1 :: ulong64)) (ucast (table ! unat (b AND 0xf))) string;
       PhBufferToHexString_loop table input n (i + 1) string
     }
     else Some string)"
  by auto
termination
  by (relation "measure (\<lambda>(t, b, n, i, s). unat n - unat i)") (auto simp: unat_inc word_less_nat_alt)

definition PhBufferToHexStringEx :: "uchar block \<Rightarrow> ulong \<Rightarrow> bool \<Rightarrow> ushort block option" where
  "PhBufferToHexStringEx input n UpperCase = do {
     let table = (if UpperCase then PhIntegerToCharUpper else PhIntegerToChar);
     string \<leftarrow> PhCreateStringEx None (ucast n * 2 * 2);
     PhBufferToHexString_loop table input n 0 string
   }"

definition PhBufferToHexString :: "uchar block \<Rightarrow> ulong \<Rightarrow> ushort block option" where
  "PhBufferToHexString input n = PhBufferToHexStringEx input n False"

section \<open>Integers\<close>

function PhpStringToInteger64_loop ::
  "memory \<Rightarrow> ph_stringref \<Rightarrow> ulong \<Rightarrow> ulong64 \<Rightarrow> ulong64 \<Rightarrow> bool \<Rightarrow> ulong64 \<Rightarrow> (bool \<times> ulong64) option" where
  "PhpStringToInteger64_loop mem String Base n i valid result = (
     if i < n then do {
       c \<leftarrow> mem (Buffer String + i * 2);
       let value = char_to_integer c;
       if value < Base
       then PhpStringToInteger64_loop mem String Base n (i + 1) valid (result * ucast Base + ucast value)
       else PhpStringToInteger64_loop mem String Base n (i + 1) False result
     }
     else Some (valid, result))"
  by auto
termination
  by (relation "measure (\<lambda>(m, s, b, n, i, v, r). unat n - unat i)") (auto simp: unat_inc word_less_nat_alt)

definition PhpStringToInteger64 :: "memory \<Rightarrow> ph_stringref \<Rightarrow> ulong \<Rightarrow> (bool \<times> ulong64) option" where
  "PhpStringToInteger64 mem String Base = PhpStringToInteger64_loop mem String Base (Length String div 2) 0 True 0"

text \<open>The base a prefix letter stands for: x, o, b, t, q, w, r in either case.\<close>

definition prefix_base :: "ushort \<Rightarrow> ulong" where
  "prefix_base c = (
     if c = 120 \<or> c = 88 then 16
     else if c = 111 \<or> c = 79 then 8
     else if c = 98 \<or> c = 66 then 2
     else if c = 116 \<or> c = 84 then 3
     else if c = 113 \<or> c = 81 then 4
     else if c = 119 \<or> c = 87 then 12
     else if c = 114 \<or> c = 82 then 32
     else 10)"

text \<open>The result is \<open>FALSE\<close> alone when the base is out of range, and else a flag and the integer.\<close>

definition PhStringToInteger64 :: "memory \<Rightarrow> ph_stringref \<Rightarrow> ulong \<Rightarrow> (bool \<times> ulong64 option) option" where
  "PhStringToInteger64 mem String Base = (
     if Base > 69 then Some (False, None)
     else do {
       (string, negative) \<leftarrow>
         (if Length String \<noteq> 0 then do {
            c \<leftarrow> mem (Buffer String);
            if c = 45 \<or> c = 43 then Some (PhSkipStringRef String 2, c = 45) else Some (String, False)
          }
          else Some (String, False));
       (string, base) \<leftarrow>
         (if Base \<noteq> 0 then Some (string, Base)
          else if Length string \<ge> 4 then do {
            c0 \<leftarrow> mem (Buffer string);
            if c0 = 48 then do {
              c1 \<leftarrow> mem (Buffer string + 2);
              let base = prefix_base c1;
              Some (if base \<noteq> 10 then PhSkipStringRef string 4 else string, base)
            }
            else Some (string, 10)
          }
          else Some (string, 10));
       (valid, result) \<leftarrow> PhpStringToInteger64 mem string base;
       Some (valid, Some (if negative then - result else result))
     })"

section \<open>The digits\<close>

definition digit_table :: "bool \<Rightarrow> uchar list" where
  "digit_table UpperCase = (if UpperCase then PhIntegerToCharUpper else PhIntegerToChar)"

lemma table_digits:
  "\<forall>d \<in> set [0..<69]. char_to_integer (ucast (PhIntegerToChar ! d)) = of_nat d"
  "\<forall>d \<in> set [0..<69]. char_to_integer (ucast (PhIntegerToCharUpper ! d)) = of_nat d"
  by code_simp+

definition digit_unit :: "bool \<Rightarrow> nat \<Rightarrow> ushort" where
  "digit_unit UpperCase d = ucast (digit_table UpperCase ! d)"

lemma digit_value: "d < 69 \<Longrightarrow> char_to_integer (digit_unit u d) = of_nat d"
  using table_digits by (simp add: digit_unit_def digit_table_def)

definition hex_pair :: "bool \<Rightarrow> uchar \<Rightarrow> ushort list" where
  "hex_pair u b = [digit_unit u (unat b div 16), digit_unit u (unat b mod 16)]"

lemma nibbles: "unat (drop_bit 4 b) = unat b div 16" "unat (b AND 0xf :: uchar) = unat b mod 16"
proof -
  have "b AND 0xf = b mod 16"
    using take_bit_eq_mask [of 4 b] take_bit_eq_mod [of 4 b] by (simp add: mask_eq_exp_minus_1)
  then show "unat (b AND 0xf) = unat b mod 16" by (simp add: unat_mod)
  show "unat (drop_bit 4 b) = unat b div 16"
    by (simp add: drop_bit_eq_div unat_div)
qed

lemma join_nibbles:
  "ucast (push_bit 4 (of_nat (unat b div 16) :: ulong)) + ucast (of_nat (unat b mod 16) :: ulong) = (b :: uchar)"
proof -
  have b: "unat b < 256" using unsigned_less [of b, where ?'a = nat] by simp
  have "push_bit 4 (of_nat (unat b div 16) :: ulong) = of_nat (16 * (unat b div 16))"
    by (simp add: push_bit_eq_mult mult.commute)
  moreover have "ucast (of_nat k :: ulong) = (of_nat k :: uchar)" if "k < 256" for k
    using that by (intro of_nat_unatI) (simp add: unsigned_ucast_eq unsigned_of_nat take_bit_nat_eq_self)
  moreover have "16 * (unat b div 16) < 256" "unat b mod 16 < 256" using b by simp_all
  moreover have "16 * (unat b div 16) + unat b mod 16 = unat b" by simp
  ultimately show ?thesis by (metis of_nat_add of_nat_unat ucast_id)
qed

section \<open>Hexadecimal strings\<close>

declare PhHexStringToBuffer_loop.simps [simp del] PhBufferToHexString_loop.simps [simp del]
  PhpStringToInteger64_loop.simps [simp del]

lemma starts_next:
  "starts out (take k bs) \<Longrightarrow> k < length bs \<Longrightarrow> length bs \<le> length out \<Longrightarrow>
   starts (out[k := Some (bs ! k)]) (take (Suc k) bs)"
  using starts_write [of out "take k bs" "bs ! k"] by (simp add: take_Suc_conv_app_nth min_absorb2)

lemma hex_loop:
  assumes "chars_at mem B (concat (map (hex_pair u) bs))" "unat n = length bs" "unat i \<le> length bs"
    "starts out (take (unat i) bs)" "length bs \<le> length out"
  obtains out' where "PhHexStringToBuffer_loop mem B n i out = Some out'" "starts out' bs" "length out' = length out"
  using assms
proof (induction "length bs - unat i" arbitrary: i out thesis)
  case 0
  then have "\<not> i < n" by (simp add: word_less_nat_alt)
  then have "PhHexStringToBuffer_loop mem B n i out = Some out" by (subst PhHexStringToBuffer_loop.simps) simp
  then show ?case using 0 by (intro "0.prems"(1) [of out]) auto
next
  case (Suc k)
  then have less: "unat i < length bs" "i < n" by (simp_all add: word_less_nat_alt)
  have i: "unat (i + 1) = Suc (unat i)" using less(2) by (rule unat_inc)
  let ?b = "bs ! unat i"
  have pairs: "hex_pair u = (\<lambda>b. [digit_unit u (unat b div 16), digit_unit u (unat b mod 16)])"
    by (simp add: fun_eq_iff hex_pair_def)
  have len: "2 * unat i + 1 < length (concat (map (hex_pair u) bs))"
    using less(1) unfolding pairs length_pairs by simp
  have c1: "mem (B + i * 2 * 2) = Some (digit_unit u (unat ?b div 16))"
    using chars_at_nth [OF Suc.prems(2), of "2 * unat i"] len less(1) unfolding pairs
    by (simp add: nth_pairs algebra_simps)
  have c2: "mem (B + (i * 2 + 1) * 2) = Some (digit_unit u (unat ?b mod 16))"
    using chars_at_nth [OF Suc.prems(2), of "2 * unat i + 1"] len less(1) unfolding pairs
    by (simp add: nth_pairs algebra_simps)
  have b: "unat ?b < 256" using unsigned_less [of ?b, where ?'a = nat] by simp
  have wr: "write_cell (unat i) ?b out = Some (out[unat i := Some ?b])"
    using less(1) Suc.prems(6) by (simp add: write_cell_def)
  have step: "PhHexStringToBuffer_loop mem B n i out
      = PhHexStringToBuffer_loop mem B n (i + 1) (out[unat i := Some ?b])"
    using less(2) c1 c2 wr b join_nibbles [of ?b]
    by (subst PhHexStringToBuffer_loop.simps) (simp add: digit_value)
  have "starts (out[unat i := Some ?b]) (take (unat (i + 1)) bs)"
    unfolding i using Suc.prems(5,6) less(1) by (intro starts_next)
  moreover have "k = length bs - unat (i + 1)" "unat (i + 1) \<le> length bs" "length bs \<le> length (out[unat i := Some ?b])"
    using Suc.hyps(2) Suc.prems(6) less(1) i by simp_all
  ultimately obtain out' where "PhHexStringToBuffer_loop mem B n (i + 1) (out[unat i := Some ?b]) = Some out'"
    "starts out' bs" "length out' = length (out[unat i := Some ?b])"
    using Suc.hyps(1) [OF _ _ Suc.prems(2,3)] by blast
  then show ?case using step by (intro Suc.prems(1) [of out']) simp_all
qed

lemma hex_write_loop:
  assumes "starts input bs" "unat n = length bs" "unat i \<le> length bs" "length string = 2 * length bs + 1"
    "starts string (concat (map (hex_pair u) (take (unat i) bs)))" "string ! (2 * length bs) = Some 0"
  shows "PhBufferToHexString_loop (digit_table u) input n i string
    = Some (map Some (concat (map (hex_pair u) bs)) @ [Some 0])"
  using assms(3-)
proof (induction "length bs - unat i" arbitrary: i string)
  case 0
  then have "\<not> i < n" using assms(2) by (simp add: word_less_nat_alt)
  then have "PhBufferToHexString_loop (digit_table u) input n i string = Some string"
    by (subst PhBufferToHexString_loop.simps) simp
  moreover have "string = map Some (concat (map (hex_pair u) bs)) @ [Some 0]"
  proof -
    have pairs: "hex_pair u = (\<lambda>b. [digit_unit u (unat b div 16), digit_unit u (unat b mod 16)])"
      by (simp add: fun_eq_iff hex_pair_def)
    have "length (concat (map (hex_pair u) bs)) = 2 * length bs" unfolding pairs by (rule length_pairs)
    moreover have "starts string (concat (map (hex_pair u) bs))" using 0 by simp
    then obtain C where C: "string = map Some (concat (map (hex_pair u) bs)) @ C" by (auto simp: starts_split)
    ultimately have "length C = 1" "C ! 0 = Some 0" using 0 by (auto simp: nth_append)
    then show ?thesis using C by (auto simp: length_Suc_conv)
  qed
  ultimately show ?case by simp
next
  case (Suc k)
  then have less: "unat i < length bs" "i < n" using assms(2) by (simp_all add: word_less_nat_alt)
  have i: "unat (i + 1) = Suc (unat i)" using less(2) by (rule unat_inc)
  let ?b = "bs ! unat i" and ?d = "concat (map (hex_pair u) (take (unat i) bs))"
  have pairs: "hex_pair u = (\<lambda>b. [digit_unit u (unat b div 16), digit_unit u (unat b mod 16)])"
    by (simp add: fun_eq_iff hex_pair_def)
  have d: "length ?d = 2 * unat i" unfolding pairs length_pairs using less(1) by simp
  have small: "unat i < 2 ^ 32" using unsigned_less [of i, where ?'a = nat] by simp
  have i64: "(ucast i :: ulong64) = of_nat (unat i)"
    by (rule of_nat_unatI) (simp add: unat_ucast_ulong)
  have at: "unat (ucast i * 2 :: ulong64) = 2 * unat i" "unat (ucast i * 2 + 1 :: ulong64) = 2 * unat i + 1"
    using unat_of_nat_small [of "2 * unat i"] unat_of_nat_small [of "2 * unat i + 1"] small unfolding i64
    by (simp_all add: mult.commute add.commute)
  let ?h = "digit_unit u (unat ?b div 16)" and ?l = "digit_unit u (unat ?b mod 16)"
  let ?s1 = "string[2 * unat i := Some ?h]" and ?s2 = "string[2 * unat i := Some ?h, 2 * unat i + 1 := Some ?l]"
  have w: "write_cell (2 * unat i) ?h string = Some ?s1" "write_cell (2 * unat i + 1) ?l ?s1 = Some ?s2"
    using less(1) Suc.prems(2) by (simp_all add: write_cell_def)
  have step: "PhBufferToHexString_loop (digit_table u) input n i string
      = PhBufferToHexString_loop (digit_table u) input n (i + 1) ?s2"
    using less starts_read [OF assms(1) less(1)] w
    by (subst PhBufferToHexString_loop.simps) (simp add: at nibbles flip: digit_unit_def)
  have s1: "starts ?s1 (?d @ [?h])"
    using starts_write [OF Suc.prems(3), of ?h] d less(1) Suc.prems(2) by simp
  have "starts ?s2 ((?d @ [?h]) @ [?l])"
    using starts_write [OF s1, of ?l] d less(1) Suc.prems(2) by simp
  then have "starts ?s2 (concat (map (hex_pair u) (take (unat (i + 1)) bs)))"
    unfolding i using less(1) by (simp add: take_Suc_conv_app_nth hex_pair_def)
  moreover have "k = length bs - unat (i + 1)" "unat (i + 1) \<le> length bs" "length ?s2 = 2 * length bs + 1"
    "?s2 ! (2 * length bs) = Some 0"
    using Suc.hyps(2) Suc.prems(2,4) less(1) i by simp_all
  ultimately show ?case unfolding step by (intro Suc.hyps(1))
qed

section \<open>Integers\<close>

text \<open>The digits of a number, the most significant one first.\<close>

function digits_of :: "nat \<Rightarrow> nat \<Rightarrow> nat list" where
  "digits_of b n = (if b \<le> 1 \<or> n < b then [n] else digits_of b (n div b) @ [n mod b])"
  by auto
termination by (relation "measure snd") auto

declare digits_of.simps [simp del]

lemma digits_of_small: "d \<in> set (digits_of b n) \<Longrightarrow> 1 < b \<Longrightarrow> d < b"
  by (induction b n rule: digits_of.induct) (subst (asm) (2) digits_of.simps, auto split: if_splits)

lemma digits_of_hd: "1 < b \<Longrightarrow> n \<noteq> 0 \<Longrightarrow> hd (digits_of b n) \<noteq> 0 \<and> digits_of b n \<noteq> []"
proof (induction b n rule: digits_of.induct)
  case (1 b n)
  show ?case
  proof (cases "n < b")
    case True
    then show ?thesis using 1(3) by (simp add: digits_of.simps [of b n])
  next
    case False
    then have "n div b \<noteq> 0" using 1(2) by (simp add: div_eq_0_iff)
    then show ?thesis using 1 False by (simp add: digits_of.simps [of b n])
  qed
qed

lemma foldl_digits:
  assumes "1 < b"
  shows "foldl (\<lambda>r d. r * of_nat b + of_nat d) 0 (digits_of b n) = (of_nat n :: ulong64)"
  using assms
proof (induction b n rule: digits_of.induct)
  case (1 b n)
  show ?case
  proof (cases "n < b")
    case True
    then show ?thesis by (simp add: digits_of.simps [of b n])
  next
    case False
    have "(of_nat (n div b) * of_nat b + of_nat (n mod b) :: ulong64) = of_nat n"
      by (metis div_mult_mod_eq of_nat_add of_nat_mult)
    then show ?thesis using 1 False by (simp add: digits_of.simps [of b n])
  qed
qed

text \<open>The loop on any string: the valid digits make the number, the others make the string invalid.\<close>

definition valid_digit :: "ulong \<Rightarrow> ushort \<Rightarrow> bool" where
  "valid_digit Base c \<longleftrightarrow> char_to_integer c < Base"

lemma integer_loop:
  assumes "chars_at mem (Buffer S) cs" "unat n = length cs" "unat i \<le> length cs"
  shows "PhpStringToInteger64_loop mem S Base n i valid result
    = Some (valid \<and> list_all (valid_digit Base) (drop (unat i) cs),
        foldl (\<lambda>r c. r * ucast Base + ucast (char_to_integer c)) result (filter (valid_digit Base) (drop (unat i) cs)))"
  using assms(3)
proof (induction "length cs - unat i" arbitrary: i valid result)
  case 0
  then have "\<not> i < n" using assms(2) by (simp add: word_less_nat_alt)
  then have "PhpStringToInteger64_loop mem S Base n i valid result = Some (valid, result)"
    by (subst PhpStringToInteger64_loop.simps) simp
  then show ?case using 0 by simp
next
  case (Suc k)
  then have less: "unat i < length cs" "i < n" using assms(2) by (simp_all add: word_less_nat_alt)
  have i: "unat (i + 1) = Suc (unat i)" using less(2) by (rule unat_inc)
  have c: "mem (Buffer S + i * 2) = Some (cs ! unat i)"
    using chars_at_nth [OF assms(1) less(1)] by (simp add: mult.commute)
  have d: "drop (unat i) cs = cs ! unat i # drop (unat (i + 1)) cs"
    unfolding i by (rule Cons_nth_drop_Suc [OF less(1), symmetric])
  have k: "k = length cs - unat (i + 1)" "unat (i + 1) \<le> length cs" using Suc.hyps(2) less(1) i by simp_all
  show ?case
    using less(2) c Suc.hyps(1) [OF k]
    by (subst PhpStringToInteger64_loop.simps) (simp add: d valid_digit_def Let_def)
qed

lemma string_to_integer:
  assumes "holds_ref mem S cs"
  shows "PhpStringToInteger64 mem S Base = Some (list_all (valid_digit Base) cs,
    foldl (\<lambda>r c. r * ucast Base + ucast (char_to_integer c)) 0 (filter (valid_digit Base) cs))"
  using assms integer_loop [of mem S cs "Length S div 2" 0 Base True 0] holds_ref_units [OF assms]
  by (simp add: PhpStringToInteger64_def holds_ref_def)

lemma parse_digits:
  assumes S: "holds_ref mem S (map (digit_unit u) (digits_of b n))" and b: "1 < b" "b \<le> 69"
  shows "PhpStringToInteger64 mem S (of_nat b) = Some (True, of_nat n)"
proof -
  let ?ds = "digits_of b n"
  have ub: "unat (of_nat b :: ulong) = b" using b by (intro unat_of_nat_ulong) simp
  have d: "char_to_integer (digit_unit u d) = of_nat d" "valid_digit (of_nat b) (digit_unit u d)"
    "ucast (of_nat d :: ulong) = (of_nat d :: ulong64)" if "d \<in> set ?ds" for d
  proof -
    have less: "d < b" using digits_of_small [OF that b(1)] .
    then show v: "char_to_integer (digit_unit u d) = of_nat d" using b(2) by (intro digit_value) simp
    have ud: "unat (of_nat d :: ulong) = d" using less b(2) by (intro unat_of_nat_ulong) simp
    show "valid_digit (of_nat b) (digit_unit u d)"
      unfolding valid_digit_def v using less by (simp only: word_less_nat_alt ub ud)
    show "ucast (of_nat d :: ulong) = (of_nat d :: ulong64)"
      by (rule of_nat_unatI) (simp only: unat_ucast_ulong ud)
  qed
  have cb: "ucast (of_nat b :: ulong) = (of_nat b :: ulong64)"
    by (rule of_nat_unatI) (simp only: unat_ucast_ulong ub)
  have all: "list_all (valid_digit (of_nat b)) (map (digit_unit u) ?ds)" using d(2) by (simp add: list_all_iff)
  have "foldl (\<lambda>r c. r * of_nat b + ucast (char_to_integer c)) r (map (digit_unit u) ds)
    = foldl (\<lambda>r d. r * of_nat b + of_nat d) (r :: ulong64) ds" if "set ds \<subseteq> set ?ds" for r ds
    using that by (induction ds arbitrary: r) (simp_all add: d)
  from this [OF subset_refl, of 0] show ?thesis
    using string_to_integer [OF S, of "of_nat b"] all foldl_digits [OF b(1), of n]
    by (simp add: cb list_all_iff filter_id_conv)
qed

lemma skip_holds:
  assumes "holds_ref mem S (pre @ cs)" "k = of_nat (2 * length pre)"
  shows "holds_ref mem (PhSkipStringRef S k) cs"
proof -
  have len: "unat (Length S) = 2 * (length pre + length cs)" and
    at: "chars_at mem (Buffer S + 2 * of_nat (length pre)) cs"
    using assms(1) by (simp_all add: holds_ref_def chars_at_append)
  have "Length S - k = of_nat (2 * length cs)"
    unfolding assms(2) holds_ref_Length [OF assms(1)] by simp
  moreover have "unat (of_nat (2 * length cs) :: ulong64) = 2 * length cs"
    using len unsigned_less [of "Length S", where ?'a = nat] by (intro unat_of_nat_small) simp
  ultimately show ?thesis using at by (simp add: holds_ref_def PhSkipStringRef_def assms(2))
qed

text \<open>The numeral of a number: a sign, a prefix when the base is to be inferred, digits.\<close>

definition sign_units :: "bool \<Rightarrow> ushort list" where
  "sign_units negative = (if negative then [45] else [])"

definition base_prefix :: "ulong \<Rightarrow> nat \<Rightarrow> ushort list \<Rightarrow> bool" where
  "base_prefix Base b prefix \<longleftrightarrow>
     (if Base \<noteq> 0 then Base = of_nat b \<and> prefix = []
      else b = 10 \<and> prefix = [] \<or> b \<noteq> 10 \<and> (\<exists>c. prefix = [48, c] \<and> prefix_base c = of_nat b))"

lemma digit_unit_code:
  "d < 36 \<Longrightarrow> unat (digit_unit u d) = (if d < 10 then 48 + d else if u then 55 + d else 87 + d)"
proof -
  assume d: "d < 36"
  then have "d - 10 < 26" by simp
  then have "digit_table u ! d = of_nat (if d < 10 then 48 + d else if u then 55 + d else 87 + d)"
    using d by (simp add: digit_table_def PhIntegerToChar_def PhIntegerToCharUpper_def nth_append
        del: upt_rec_numeral)
  moreover have "unat (ucast (of_nat k :: uchar) :: ushort) = k" if "k < 256" for k
    using that by (simp add: unsigned_ucast_eq unsigned_of_nat take_bit_nat_eq_self)
  ultimately show ?thesis using d by (simp add: digit_unit_def)
qed

lemma digit_units:
  "d < 36 \<Longrightarrow> digit_unit u d \<noteq> 45" "d < 36 \<Longrightarrow> digit_unit u d \<noteq> 43"
  "d < 10 \<Longrightarrow> prefix_base (digit_unit u d) = 10"
proof -
  have ne: "digit_unit u d \<noteq> c" if "d < 36" "unat c \<noteq> (if d < 10 then 48 + d else if u then 55 + d else 87 + d)" for c
    using digit_unit_code [OF that(1), of u] that(2) by auto
  show "d < 36 \<Longrightarrow> digit_unit u d \<noteq> 45" "d < 36 \<Longrightarrow> digit_unit u d \<noteq> 43" by (rule ne; simp)+
  assume d: "d < 10"
  then have "digit_unit u d \<noteq> c" if "58 \<le> unat c" for c using that by (intro ne) auto
  then show "prefix_base (digit_unit u d) = 10" by (simp add: prefix_base_def)
qed

lemma integer_sign:
  assumes S: "holds_ref mem S (sign_units neg @ cs)" and cs: "cs \<noteq> []" "hd cs \<noteq> 45" "hd cs \<noteq> 43"
  obtains S' where "holds_ref mem S' cs"
    "(if Length S \<noteq> 0 then do {
        c \<leftarrow> mem (Buffer S);
        if c = 45 \<or> c = 43 then Some (PhSkipStringRef S 2, c = 45) else Some (S, False)
      } else Some (S, False)) = Some (S', neg)"
proof (cases neg)
  case True
  then have S1: "holds_ref mem S ([45] @ cs)" using S by (simp add: sign_units_def)
  then have "holds_ref mem (PhSkipStringRef S 2) cs" by (rule skip_holds) simp
  moreover have "mem (Buffer S) = Some 45" "Length S \<noteq> 0" using S1 by (auto simp: holds_ref_def)
  ultimately show thesis using True by (intro that) simp_all
next
  case False
  then have S1: "holds_ref mem S cs" using S by (simp add: sign_units_def)
  then have "mem (Buffer S) = Some (hd cs)" "Length S \<noteq> 0" using cs(1) by (cases cs; auto simp: holds_ref_def)+
  then show thesis using False S1 cs by (intro that [of S]) simp_all
qed

lemma integer_base:
  assumes S: "holds_ref mem S (prefix @ map (digit_unit u) (digits_of b n))" and b: "1 < b" "b \<le> 36"
    and prefix: "base_prefix Base b prefix"
  obtains S' where "holds_ref mem S' (map (digit_unit u) (digits_of b n))"
    "(if Base \<noteq> 0 then Some (S, Base)
      else if Length S \<ge> 4 then do {
        c0 \<leftarrow> mem (Buffer S);
        if c0 = 48 then do {
          c1 \<leftarrow> mem (Buffer S + 2);
          let base = prefix_base c1;
          Some (if base \<noteq> 10 then PhSkipStringRef S 4 else S, base)
        }
        else Some (S, 10)
      }
      else Some (S, 10)) = Some (S', of_nat b)"
proof (cases "Base = 0")
  case False
  then show thesis using S prefix by (intro that [of S]) (simp_all add: base_prefix_def)
next
  case True
  let ?ds = "map (digit_unit u) (digits_of b n)"
  show thesis
  proof (cases "b = 10")
    case ten: True
    then have S1: "holds_ref mem S ?ds" using S prefix True by (auto simp: base_prefix_def)
    show thesis
    proof (cases "Length S \<ge> 4")
      case True
      then have "2 \<le> length (digits_of b n)" using S1 by (simp add: holds_ref_def word_le_nat_alt)
      then obtain d0 d1 ds where ds: "digits_of b n = d0 # d1 # ds"
        by (cases "digits_of b n"; cases "tl (digits_of b n)") auto
      have "d1 < 10" using digits_of_small [of d1 b n] b(1) ten ds by simp
      then have "prefix_base (digit_unit u d1) = 10" by (rule digit_units(3))
      moreover have "mem (Buffer S) = Some (digit_unit u d0)" "mem (Buffer S + 2) = Some (digit_unit u d1)"
        using S1 by (simp_all add: holds_ref_def ds)
      ultimately show thesis using S1 \<open>Base = 0\<close> True ten by (intro that [of S]) (simp_all add: Let_def)
    next
      case False
      then show thesis using S1 \<open>Base = 0\<close> ten by (intro that [of S]) simp_all
    qed
  next
    case nten: False
    then obtain c where c: "prefix = [48, c]" "prefix_base c = of_nat b"
      using prefix True by (auto simp: base_prefix_def)
    have "unat (of_nat b :: ulong) = b" using b by (intro unat_of_nat_ulong) simp
    then have ne: "(of_nat b :: ulong) \<noteq> 10" using nten by auto
    have S1: "holds_ref mem S ([48, c] @ ?ds)" using S c(1) by simp
    then have at: "mem (Buffer S) = Some 48" "mem (Buffer S + 2) = Some c" by (simp_all add: holds_ref_def)
    have "Length S \<ge> 4" using S1 by (simp add: holds_ref_def word_le_nat_alt)
    then show thesis
      using skip_holds [OF S1, of 4] True at c(2) ne by (intro that [of "PhSkipStringRef S 4"]) (simp_all add: Let_def)
  qed
qed

lemma parse_integer:
  assumes S: "holds_ref mem S (sign_units neg @ prefix @ map (digit_unit u) (digits_of b n))"
    and b: "1 < b" "b \<le> 36" and prefix: "base_prefix Base b prefix"
  shows "PhStringToInteger64 mem S Base = Some (True, Some (if neg then - of_nat n else of_nat n))"
proof -
  let ?ds = "map (digit_unit u) (digits_of b n)"
  have "Base = 0 \<or> Base = of_nat b" using prefix by (auto simp: base_prefix_def split: if_splits)
  moreover have "unat (of_nat b :: ulong) = b" using b by (intro unat_of_nat_ulong) simp
  ultimately have Base: "\<not> Base > 69" using b(2) by (auto simp: word_less_nat_alt)
  have ne: "digits_of b n \<noteq> []" by (subst digits_of.simps) simp
  have "hd (digits_of b n) < b" using digits_of_small [of _ b n] ne b(1) hd_in_set by metis
  then have "digit_unit u (hd (digits_of b n)) \<noteq> 45" "digit_unit u (hd (digits_of b n)) \<noteq> 43"
    using digit_units(1,2) b(2) by simp_all
  then have hd: "prefix @ ?ds \<noteq> []" "hd (prefix @ ?ds) \<noteq> 45" "hd (prefix @ ?ds) \<noteq> 43"
    using ne prefix by (auto simp: base_prefix_def hd_map hd_append split: if_splits)
  obtain S1 where S1: "holds_ref mem S1 (prefix @ ?ds)"
    "(if Length S \<noteq> 0 then do {
        c \<leftarrow> mem (Buffer S);
        if c = 45 \<or> c = 43 then Some (PhSkipStringRef S 2, c = 45) else Some (S, False)
      } else Some (S, False)) = Some (S1, neg)"
    by (rule integer_sign [OF S hd])
  obtain S2 where S2: "holds_ref mem S2 ?ds"
    "(if Base \<noteq> 0 then Some (S1, Base)
      else if Length S1 \<ge> 4 then do {
        c0 \<leftarrow> mem (Buffer S1);
        if c0 = 48 then do {
          c1 \<leftarrow> mem (Buffer S1 + 2);
          let base = prefix_base c1;
          Some (if base \<noteq> 10 then PhSkipStringRef S1 4 else S1, base)
        }
        else Some (S1, 10)
      }
      else Some (S1, 10)) = Some (S2, of_nat b)"
    by (rule integer_base [OF S1(1) b prefix])
  have "b \<le> 69" using b(2) by simp
  note parse = parse_digits [OF S2(1) b(1) this]
  show ?thesis
    unfolding PhStringToInteger64_def S1(2) using Base S2(2) parse by simp
qed

section \<open>Properties\<close>

text \<open>
  C18.  A buffer written as a hexadecimal string, in either case, gives two digits for every byte
  and a null terminator, and reading the digits back gives the buffer.
\<close>

theorem PhHexString_roundtrip:
  assumes "length bs < 2 ^ 32"
  shows "\<exists>ds. PhBufferToHexStringEx (map Some bs) (of_nat (length bs)) UpperCase = Some (map Some ds @ [Some 0])
    \<and> length ds = 2 * length bs
    \<and> (\<forall>mem String out. holds_ref mem String ds \<longrightarrow> length out = length bs \<longrightarrow>
        PhHexStringToBuffer mem String out = Some (True, map Some bs)
        \<and> PhHexStringToBufferEx mem String (of_nat (length bs)) out = Some (True, map Some bs))"
proof -
  let ?ds = "concat (map (hex_pair UpperCase) bs)"
  have pairs: "hex_pair UpperCase = (\<lambda>b. [digit_unit UpperCase (unat b div 16), digit_unit UpperCase (unat b mod 16)])"
    by (simp add: fun_eq_iff hex_pair_def)
  have len: "length ?ds = 2 * length bs" unfolding pairs by (rule length_pairs)
  have n: "unat (of_nat (length bs) :: ulong) = length bs" using assms by (rule unat_of_nat_ulong)
  have n64: "(ucast (of_nat (length bs) :: ulong) :: ulong64) = of_nat (length bs)"
    by (rule of_nat_unatI) (simp only: unat_ucast_ulong n)
  have "ucast (of_nat (length bs) :: ulong) * 2 * 2 = (of_nat (2 * (2 * length bs)) :: ulong64)"
    unfolding n64 by simp
  moreover have even: "(of_nat (2 * k) :: ulong64) AND 1 = 0" for k
  proof -
    have "(2 :: ulong64) dvd of_nat (2 * k)" by simp
    then show ?thesis unfolding and_one_eq by (rule even_iff_mod_2_eq_zero [THEN iffD1])
  qed
  moreover have "unat (of_nat (2 * length bs) :: ulong64) = 2 * length bs"
    using assms by (intro unat_of_nat_small) simp
  moreover have "(of_nat (2 * (2 * length bs)) :: ulong64) div 2 = of_nat (2 * length bs)"
    using assms by (intro half_of_nat) simp
  ultimately have create: "PhCreateStringEx None (ucast (of_nat (length bs) :: ulong) * 2 * 2)
      = Some ((alloc_block (2 * length bs + 1))[2 * length bs := Some 0])"
    by (simp only: PhCreateStringEx_def simp_thms if_False option.case write_cell_def length_alloc_block)
      simp
  have "starts (map Some bs) bs" by (simp add: starts_split)
  then have print: "PhBufferToHexStringEx (map Some bs) (of_nat (length bs)) UpperCase = Some (map Some ?ds @ [Some 0])"
    using hex_write_loop [of "map Some bs" bs "of_nat (length bs)" 0 "(alloc_block (2 * length bs + 1))[2 * length bs := Some 0]" UpperCase] n
    unfolding PhBufferToHexStringEx_def create digit_table_def [symmetric] by simp
  have read: "PhHexStringToBuffer mem String out = Some (True, map Some bs)
      \<and> PhHexStringToBufferEx mem String (of_nat (length bs)) out = Some (True, map Some bs)"
    if S: "holds_ref mem String ?ds" and out: "length out = length bs" for mem String out
  proof -
    have half: "Length String div 2 = of_nat (2 * length bs)" using holds_ref_half [OF S] len by simp
    have l: "Length String div 2 div 2 = of_nat (length bs)"
      unfolding half using assms by (intro half_of_nat) simp
    have u: "unat (of_nat (length bs) :: ulong64) = length bs" using assms by (intro unat_of_nat_small) simp
    have at: "chars_at mem (Buffer String) ?ds" using S by (simp add: holds_ref_def)
    obtain out' where out': "PhHexStringToBuffer_loop mem (Buffer String) (of_nat (length bs)) 0 out = Some out'"
      "starts out' bs" "length out' = length out"
      by (rule hex_loop [OF at u, of 0 out]) (use out in simp_all)
    then have "out' = map Some bs" using out by (simp add: starts_def)
    then show ?thesis
      using out'(1) unfolding PhHexStringToBuffer_def PhHexStringToBufferEx_def l Let_def
      by (simp add: n64 half even del: of_nat_mult)
  qed
  show ?thesis using print len read by blast
qed

lemma PhHexString_roundtrip_witness:
  "\<exists>ds. PhBufferToHexStringEx [Some 0x1a, Some 0xff] 2 False = Some (map Some ds @ [Some 0]) \<and> length ds = 4"
  using PhHexString_roundtrip [of "[0x1a, 0xff]" False] by auto



end
