(* ===== verification/StringSplit.thy ===== *)
theory StringSplit
  imports StringFind
begin

text \<open>
  Splitting, trimming and reversing string references (\<open>phlib/basesup.c\<close>, \<open>phbasesup.h\<close>),
  and their specification on lists of units.
\<close>

unbundle bit_operations_syntax

section \<open>Splitting at a character or a string\<close>

text \<open>The parts when there is no separator, and around one of \<open>n\<close> bytes at \<open>index\<close>.\<close>

definition split_none :: "ph_stringref \<Rightarrow> bool \<times> ph_stringref \<times> ph_stringref" where
  "split_none Input = (False, Input, \<lparr>Length = 0, Buffer = NULL_PTR\<rparr>)"

definition split_at :: "ph_stringref \<Rightarrow> ulong64 \<Rightarrow> ulong64 \<Rightarrow> bool \<times> ph_stringref \<times> ph_stringref" where
  "split_at input index n =
     (True, \<lparr>Length = index * 2, Buffer = Buffer input\<rparr>,
      \<lparr>Length = Length input - index * 2 - n, Buffer = Buffer input + (index * 2 + n)\<rparr>)"

definition PhSplitStringRefAtChar ::
  "bool \<Rightarrow> (ushort \<Rightarrow> ushort) \<Rightarrow> memory \<Rightarrow> ph_stringref \<Rightarrow> ushort \<Rightarrow> (bool \<times> ph_stringref \<times> ph_stringref) option" where
  "PhSplitStringRefAtChar vec up mem Input Separator = do {
     index \<leftarrow> PhFindCharInStringRef vec up mem Input Separator False;
     if index = SIZE_MAX then Some (split_none Input)
     else Some (split_at Input index 2)
   }"

definition PhSplitStringRefAtLastChar ::
  "bool \<Rightarrow> (ushort \<Rightarrow> ushort) \<Rightarrow> memory \<Rightarrow> ph_stringref \<Rightarrow> ushort \<Rightarrow> (bool \<times> ph_stringref \<times> ph_stringref) option" where
  "PhSplitStringRefAtLastChar vec up mem Input Separator = do {
     index \<leftarrow> PhFindLastCharInStringRef vec up mem Input Separator False;
     if index = SIZE_MAX then Some (split_none Input)
     else Some (split_at Input index 2)
   }"

definition PhSplitStringRefAtString ::
  "bool \<Rightarrow> (ushort \<Rightarrow> ushort) \<Rightarrow> memory \<Rightarrow> ph_stringref \<Rightarrow> ph_stringref \<Rightarrow> bool
   \<Rightarrow> (bool \<times> ph_stringref \<times> ph_stringref) option" where
  "PhSplitStringRefAtString vec up mem Input Separator IgnoreCase = do {
     index \<leftarrow> PhFindStringInStringRef vec up mem Input Separator IgnoreCase;
     if index = SIZE_MAX then Some (split_none Input)
     else Some (split_at Input index (Length Separator))
   }"

section \<open>Splitting at a set of characters\<close>

definition PH_SPLIT_AT_STRING :: ulong where "PH_SPLIT_AT_STRING = 0x1"
definition PH_SPLIT_AT_RANGE :: ulong where "PH_SPLIT_AT_RANGE = 0x2"
definition PH_SPLIT_CASE_INSENSITIVE :: ulong where "PH_SPLIT_CASE_INSENSITIVE = 0x1000"
definition PH_SPLIT_COMPLEMENT_CHAR_SET :: ulong where "PH_SPLIT_COMPLEMENT_CHAR_SET = 0x2000"
definition PH_SPLIT_START_AT_END :: ulong where "PH_SPLIT_START_AT_END = 0x4000"
definition PH_SPLIT_CHAR_SET_IS_UPPERCASE :: ulong where "PH_SPLIT_CHAR_SET_IS_UPPERCASE = 0x8000"

definition flag :: "ulong \<Rightarrow> ulong \<Rightarrow> bool" where
  "flag Flags f \<longleftrightarrow> Flags AND f \<noteq> 0"

text \<open>The lookup table by the low byte, and whether it decides alone.\<close>

function build_charset ::
  "(ushort \<Rightarrow> ushort) \<Rightarrow> memory \<Rightarrow> ulong64 \<Rightarrow> ulong64 \<Rightarrow> ulong64 \<Rightarrow> bool list \<times> bool \<Rightarrow> (bool list \<times> bool) option" where
  "build_charset f mem charSet charSetCount i T = (
     if i < charSetCount then do {
       c \<leftarrow> mem (charSet + i * 2);
       let c = f c;
       build_charset f mem charSet charSetCount (i + 1)
         ((fst T)[unat (c AND 0xff) := True], snd T \<and> c < 256)
     }
     else Some T)"
  by auto
termination
  by (relation "measure (\<lambda>(f, m, p, n, i, T). unat n - unat i)") (auto simp: unat_inc word_less_nat_alt)

text \<open>The index at which the search through the set stops: its length when it finds nothing.\<close>

function scan_charset ::
  "(ushort \<Rightarrow> ushort) \<Rightarrow> memory \<Rightarrow> ulong64 \<Rightarrow> ulong64 \<Rightarrow> ushort \<Rightarrow> ulong64 \<Rightarrow> ulong64 option" where
  "scan_charset f mem charSet charSetCount c j = (
     if j < charSetCount then do {
       d \<leftarrow> mem (charSet + j * 2);
       if f d = c then Some j else scan_charset f mem charSet charSetCount c (j + 1)
     }
     else Some j)"
  by auto
termination
  by (relation "measure (\<lambda>(f, m, p, n, c, j). unat n - unat j)") (auto simp: unat_inc word_less_nat_alt)

text \<open>Whether the character is a separator.\<close>

definition PhSplit_test ::
  "(ushort \<Rightarrow> ushort) \<Rightarrow> memory \<Rightarrow> ulong \<Rightarrow> ulong64 \<Rightarrow> ulong64 \<Rightarrow> bool list \<times> bool \<Rightarrow> ushort \<Rightarrow> bool option" where
  "PhSplit_test up mem Flags charSet charSetCount T c = (
     let complement = flag Flags PH_SPLIT_COMPLEMENT_CHAR_SET;
         f = (if \<not> flag Flags PH_SPLIT_CASE_INSENSITIVE \<or> flag Flags PH_SPLIT_CHAR_SET_IS_UPPERCASE
              then (\<lambda>d. d) else up)
     in
     if c < 256 \<and> snd T then
       Some (if \<not> complement then fst T ! unat c else \<not> fst T ! unat c)
     else if \<not> complement then
       if fst T ! unat (c AND 0xff) then do {
         j \<leftarrow> scan_charset f mem charSet charSetCount c 0;
         Some (j < charSetCount)
       }
       else Some False
     else
       if fst T ! unat (c AND 0xff) then do {
         j \<leftarrow> scan_charset f mem charSet charSetCount c 0;
         Some (j = charSetCount)
       }
       else Some True)"

text \<open>The search: \<open>do { ... s += direction; } while (--i != 0)\<close>.\<close>

function PhSplit_loop ::
  "(ushort \<Rightarrow> bool option) \<Rightarrow> (ushort \<Rightarrow> ushort) \<Rightarrow> memory \<Rightarrow> ulong64 \<Rightarrow> ulong64 \<Rightarrow> ulong64 \<Rightarrow> ulong64 option option" where
  "PhSplit_loop test f mem direction s i = do {
     c \<leftarrow> mem s;
     found \<leftarrow> test (f c);
     if found then Some (Some s)
     else if i - 1 \<noteq> 0 then PhSplit_loop test f mem direction (s + direction) (i - 1)
     else Some None
   }"
  by auto
termination
proof (relation "measure (\<lambda>(t, f, m, d, s, i). unat (i - 1))")
  fix i :: ulong64 and t f m d s s' found c
  assume "i - 1 \<noteq> 0"
  then have "unat (i - 1 - 1) < unat (i - 1)"
    using unat_minus_one [of "i - 1"] unat_gt_0 [of "i - 1"] by linarith
  then show "((t, f, m, d, s', i - 1), t, f, m, d, s, i) \<in> measure (\<lambda>(t, f, m, d, s, i). unat (i - 1))"
    by simp
qed simp

text \<open>Where the separator is and how many bytes it has, \<open>None\<close> when there is none.\<close>

definition PhSplit_search ::
  "bool \<Rightarrow> (ushort \<Rightarrow> ushort) \<Rightarrow> memory \<Rightarrow> ph_stringref \<Rightarrow> ph_stringref \<Rightarrow> ulong
   \<Rightarrow> (ulong64 \<times> ulong64) option option" where
  "PhSplit_search vec up mem Input Separator Flags = (
     let found = (\<lambda>index n. if index = SIZE_MAX then None else Some (index, n));
         insensitive = flag Flags PH_SPLIT_CASE_INSENSITIVE
     in
     if flag Flags PH_SPLIT_AT_RANGE then Some (found (Buffer Separator) (Length Separator))
     else if flag Flags PH_SPLIT_AT_STRING then
       if flag Flags PH_SPLIT_START_AT_END then Some None
       else do {
         index \<leftarrow> PhFindStringInStringRef vec up mem Input Separator insensitive;
         Some (found index (Length Separator))
       }
     else if \<not> flag Flags PH_SPLIT_COMPLEMENT_CHAR_SET \<and> Length Separator = 2 then do {
       c \<leftarrow> mem (Buffer Separator);
       index \<leftarrow> (if \<not> flag Flags PH_SPLIT_START_AT_END
                then PhFindCharInStringRef vec up mem Input c insensitive
                else PhFindLastCharInStringRef vec up mem Input c insensitive);
       Some (found index 2)
     }
     else if Length Input = 0 then Some None
     else do {
       let f = (if insensitive then up else (\<lambda>c. c));
       let charSet = Buffer Separator;
       let charSetCount = Length Separator div 2;
       T \<leftarrow> build_charset f mem charSet charSetCount 0 (replicate 256 False, True);
       let (s, direction) =
         (if \<not> flag Flags PH_SPLIT_START_AT_END then (Buffer Input, 2)
          else (Buffer Input + (Length Input - 2), - 2));
       r \<leftarrow> PhSplit_loop (PhSplit_test up mem Flags charSet charSetCount T) f mem direction s (Length Input div 2);
       Some (case r of None \<Rightarrow> None | Some s \<Rightarrow> Some ((s - Buffer Input) div 2, 2))
     })"

definition PhSplitStringRefEx ::
  "bool \<Rightarrow> (ushort \<Rightarrow> ushort) \<Rightarrow> memory \<Rightarrow> ph_stringref \<Rightarrow> ph_stringref \<Rightarrow> ulong
   \<Rightarrow> (bool \<times> ph_stringref \<times> ph_stringref \<times> ph_stringref) option" where
  "PhSplitStringRefEx vec up mem Input Separator Flags = do {
     r \<leftarrow> PhSplit_search vec up mem Input Separator Flags;
     Some (case r of
       Some (separatorIndex, separatorLength) \<Rightarrow>
         (True, \<lparr>Length = separatorIndex * 2, Buffer = Buffer Input\<rparr>,
          \<lparr>Length = Length Input - separatorIndex * 2 - separatorLength,
           Buffer = Buffer Input + (separatorIndex * 2 + separatorLength)\<rparr>,
          \<lparr>Length = separatorLength, Buffer = Buffer Input + separatorIndex * 2\<rparr>)
     | None \<Rightarrow>
         (False, Input, \<lparr>Length = 0, Buffer = NULL_PTR\<rparr>, \<lparr>Length = 0, Buffer = NULL_PTR\<rparr>))
   }"

section \<open>Trimming\<close>

definition PH_TRIM_START_ONLY :: ulong where "PH_TRIM_START_ONLY = 0x1"
definition PH_TRIM_END_ONLY :: ulong where "PH_TRIM_END_ONLY = 0x2"

text \<open>How many characters the test accepts from \<open>s\<close> on, in steps of \<open>direction\<close>.\<close>

function PhTrim_count ::
  "(ushort \<Rightarrow> bool option) \<Rightarrow> memory \<Rightarrow> ulong64 \<Rightarrow> ulong64 \<Rightarrow> ulong64 \<Rightarrow> ulong64 \<Rightarrow> ulong64 option" where
  "PhTrim_count test mem direction s count trimCount = (
     if count \<noteq> 0 then do {
       c \<leftarrow> mem s;
       t \<leftarrow> test c;
       if \<not> t then Some trimCount
       else PhTrim_count test mem direction (s + direction) (count - 1) (trimCount + 1)
     }
     else Some trimCount)"
  by auto
termination
  by (relation "measure (\<lambda>(t, m, d, s, n, k). unat n)") (auto simp: unat_minus_one unat_gt_0)

definition PhTrim_test ::
  "memory \<Rightarrow> ulong64 \<Rightarrow> ulong64 \<Rightarrow> bool list \<times> bool \<Rightarrow> ushort \<Rightarrow> bool option" where
  "PhTrim_test mem charSet charSetCount T c = (
     if \<not> fst T ! unat (c AND 0xff) then Some False
     else if \<not> snd T then do {
       j \<leftarrow> scan_charset (\<lambda>d. d) mem charSet charSetCount c 0;
       Some (j < charSetCount)
     }
     else Some True)"

text \<open>Both ends, as the flags ask for.\<close>

definition PhTrim_ends ::
  "(ushort \<Rightarrow> bool option) \<Rightarrow> memory \<Rightarrow> ph_stringref \<Rightarrow> ulong \<Rightarrow> ph_stringref option" where
  "PhTrim_ends test mem String Flags = do {
     String \<leftarrow>
       (if \<not> flag Flags PH_TRIM_END_ONLY then do {
          trimCount \<leftarrow> PhTrim_count test mem 2 (Buffer String) (Length String div 2) 0;
          Some (PhSkipStringRef String (trimCount * 2))
        }
        else Some String);
     if \<not> flag Flags PH_TRIM_START_ONLY then do {
       trimCount \<leftarrow> PhTrim_count test mem (- 2) (Buffer String + (Length String - 2)) (Length String div 2) 0;
       Some (String\<lparr>Length := Length String - trimCount * 2\<rparr>)
     }
     else Some String
   }"

definition PhTrimStringRef :: "memory \<Rightarrow> ph_stringref \<Rightarrow> ph_stringref \<Rightarrow> ulong \<Rightarrow> ph_stringref option" where
  "PhTrimStringRef mem String CharSet Flags = (
     if Length String = 0 \<or> Length CharSet = 0 then Some String
     else if Length CharSet = 2 then do {
       c \<leftarrow> mem (Buffer CharSet);
       PhTrim_ends (\<lambda>d. Some (d = c)) mem String Flags
     }
     else do {
       let charSet = Buffer CharSet;
       let charSetCount = Length CharSet div 2;
       T \<leftarrow> build_charset (\<lambda>c. c) mem charSet charSetCount 0 (replicate 256 False, True);
       PhTrim_ends (PhTrim_test mem charSet charSetCount T) mem String Flags
     })"

section \<open>Reversing\<close>

text \<open>
  \<open>for (i = 0, j = Length / 2 - 1; i <= j; i++, j--)\<close> with unsigned indices, so that an
  empty string starts with the largest \<open>j\<close>.
\<close>

partial_function (option) PhReverse_loop ::
  "ulong64 \<Rightarrow> ulong64 \<Rightarrow> ulong64 \<Rightarrow> memory \<Rightarrow> memory option" where
  "PhReverse_loop B i j mem = (
     if i \<le> j then do {
       t \<leftarrow> mem (B + i * 2);
       u \<leftarrow> mem (B + j * 2);
       mem \<leftarrow> write_unit mem (B + i * 2) u;
       mem \<leftarrow> write_unit mem (B + j * 2) t;
       PhReverse_loop B (i + 1) (j - 1) mem
     }
     else Some mem)"

definition PhReverseStringRef :: "memory \<Rightarrow> ph_stringref \<Rightarrow> memory option" where
  "PhReverseStringRef mem String = PhReverse_loop (Buffer String) 0 (Length String div 2 - 1) mem"

end
