(* ===== verification/StringProps.thy ===== *)
theory StringProps
  imports StringSplit
begin

text \<open>
  The correctness of the string references: what the parts of a split hold, what trimming
  leaves, that reversing reverses, and the properties of comparing, searching and counting
  that theory StringFind prepares.
\<close>

unbundle bit_operations_syntax

section \<open>Sets of characters\<close>

declare build_charset.simps [simp del] scan_charset.simps [simp del] PhSplit_loop.simps [simp del]
  PhTrim_count.simps [simp del]

lemma chars_at_word: "chars_at mem p cs \<Longrightarrow> unat i < length cs \<Longrightarrow> mem (p + i * 2) = Some (cs ! unat i)"
  using chars_at_nth [of mem p cs "unat i"] by (simp add: mult.commute)

lemma and_ff: "unat (c AND 0xff :: ushort) = unat c mod 256"
proof -
  have "c AND 0xff = c mod 256"
    using take_bit_eq_mask [of 8 c] take_bit_eq_mod [of 8 c] by (simp add: mask_eq_exp_minus_1)
  then show ?thesis by (simp add: unat_mod)
qed

text \<open>The table after some characters of the set.\<close>

definition charset_table :: "bool list \<times> bool \<Rightarrow> ushort list \<Rightarrow> bool" where
  "charset_table T ds \<longleftrightarrow>
     length (fst T) = 256 \<and> (\<forall>k < 256. fst T ! k \<longleftrightarrow> (\<exists>d \<in> set ds. unat d mod 256 = k))
     \<and> (snd T \<longleftrightarrow> (\<forall>d \<in> set ds. d < 256))"

lemma charset_table_empty: "charset_table (replicate 256 False, True) []"
  by (simp add: charset_table_def)

lemma charset_table_step:
  "charset_table T ds \<Longrightarrow>
   charset_table ((fst T)[unat (c AND 0xff) := True], snd T \<and> c < 256) (ds @ [c])"
  by (auto simp: charset_table_def and_ff nth_list_update)

lemma build_charset:
  assumes "chars_at mem p cs" "unat n = length cs" "unat i \<le> length cs" "charset_table T (map f (take (unat i) cs))"
  obtains T' where "build_charset f mem p n i T = Some T'" "charset_table T' (map f cs)"
  using assms
proof (induction "length cs - unat i" arbitrary: i T thesis)
  case 0
  then have "\<not> i < n" by (simp add: word_less_nat_alt)
  then show ?case
    using 0 by (intro "0.prems"(1) [of T]) (simp_all add: build_charset.simps [of _ _ _ _ i])
next
  case (Suc k)
  then have less: "unat i < length cs" "i < n" by (simp_all add: word_less_nat_alt)
  have i: "unat (i + 1) = Suc (unat i)" using less(2) by (rule unat_inc)
  let ?T = "((fst T)[unat (f (cs ! unat i) AND 0xff) := True], snd T \<and> f (cs ! unat i) < 256)"
  have "charset_table ?T (map f (take (unat (i + 1)) cs))"
    using charset_table_step [OF Suc.prems(5), of "f (cs ! unat i)"] less(1)
    by (simp add: i take_Suc_conv_app_nth)
  moreover have k: "k = length cs - unat (i + 1)" "unat (i + 1) \<le> length cs"
    using Suc.hyps(2) i less(1) by simp_all
  ultimately obtain T' where "build_charset f mem p n (i + 1) ?T = Some T'" "charset_table T' (map f cs)"
    using Suc.hyps(1) [OF k(1) _ Suc.prems(2,3) k(2)] by blast
  then show ?case
    using less chars_at_word [OF Suc.prems(2) less(1)]
    by (intro Suc.prems(1) [of T']) (simp_all add: build_charset.simps [of _ _ _ _ i])
qed

lemma scan_charset:
  assumes "chars_at mem p cs" "unat n = length cs" "unat i \<le> length cs"
  obtains j where "scan_charset f mem p n c i = Some j" "j \<le> n"
    "j < n \<longleftrightarrow> (\<exists>d \<in> set (drop (unat i) cs). f d = c)"
  using assms
proof (induction "length cs - unat i" arbitrary: i thesis)
  case 0
  then have i: "\<not> i < n" "i \<le> n" by (simp_all add: word_less_nat_alt word_le_nat_alt)
  then have "scan_charset f mem p n c i = Some i" by (subst scan_charset.simps) simp
  then show ?case using i 0 by (intro "0.prems"(1) [of i]) auto
next
  case (Suc k)
  then have less: "unat i < length cs" "i < n" by (simp_all add: word_less_nat_alt)
  have i: "unat (i + 1) = Suc (unat i)" using less(2) by (rule unat_inc)
  have d: "drop (unat i) cs = cs ! unat i # drop (unat (i + 1)) cs"
    unfolding i by (rule Cons_nth_drop_Suc [OF less(1), symmetric])
  note char = chars_at_word [OF Suc.prems(2) less(1)]
  show ?case
  proof (cases "f (cs ! unat i) = c")
    case True
    then show ?thesis
      using less char d by (intro Suc.prems(1) [of i]) (simp_all add: scan_charset.simps [of _ _ _ _ _ i])
  next
    case False
    have "k = length cs - unat (i + 1)" using Suc.hyps(2) i by simp
    then obtain j where j: "scan_charset f mem p n c (i + 1) = Some j" "j \<le> n"
      "j < n \<longleftrightarrow> (\<exists>d \<in> set (drop (unat (i + 1)) cs). f d = c)"
      using Suc.hyps(1) [of "i + 1"] Suc.prems(2,3) less(1) i by (metis Suc_leI)
    show ?thesis
    proof (rule Suc.prems(1) [of j])
      show "scan_charset f mem p n c i = Some j"
        using j(1) less(2) char False by (simp add: scan_charset.simps [of _ _ _ _ _ i])
      show "j < n \<longleftrightarrow> (\<exists>x \<in> set (drop (unat i) cs). f x = c)" using j(3) False unfolding d by simp
    qed (rule j(2))
  qed
qed

lemma scan_whole:
  assumes "chars_at mem p cs" "unat n = length cs"
  obtains j where "scan_charset f mem p n c 0 = Some j" "j < n \<longleftrightarrow> c \<in> f ` set cs" "j = n \<longleftrightarrow> c \<notin> f ` set cs"
proof (rule scan_charset [OF assms, of 0 f c])
  fix j assume "scan_charset f mem p n c 0 = Some j" "j \<le> n" "j < n \<longleftrightarrow> (\<exists>d \<in> set (drop (unat (0 :: ulong64)) cs). f d = c)"
  then show thesis by (intro that [of j]) (auto simp: less_le)
qed simp

text \<open>The table alone decides for small characters when it is complete, and never says no wrongly.\<close>

lemma table_complete:
  assumes "charset_table T ds" "snd T" "c < 256"
  shows "fst T ! unat c \<longleftrightarrow> c \<in> set ds"
proof -
  have small: "unat d < 256" if "d < 256" for d :: ushort using that by (simp add: word_less_nat_alt)
  then have "fst T ! unat c \<longleftrightarrow> (\<exists>d \<in> set ds. unat d mod 256 = unat c)"
    using assms by (simp add: charset_table_def)
  also have "\<dots> \<longleftrightarrow> (\<exists>d \<in> set ds. unat d = unat c)"
    using assms(1,2) small by (intro bex_cong) (auto simp: charset_table_def)
  also have "\<dots> \<longleftrightarrow> c \<in> set ds" by (metis word_unat_eq_iff)
  finally show ?thesis .
qed

lemma table_rejects: "charset_table T ds \<Longrightarrow> \<not> fst T ! unat (c AND 0xff) \<Longrightarrow> c \<notin> set ds"
  by (auto simp: charset_table_def and_ff)

section \<open>Splitting\<close>

definition separator_char :: "(ushort \<Rightarrow> ushort) \<Rightarrow> ulong \<Rightarrow> ushort list \<Rightarrow> ushort \<Rightarrow> bool" where
  "separator_char up Flags cs x \<longleftrightarrow>
     (if flag Flags PH_SPLIT_CASE_INSENSITIVE then up x \<in> up ` set cs else x \<in> set cs)
     \<noteq> flag Flags PH_SPLIT_COMPLEMENT_CHAR_SET"

lemma split_test:
  fixes cs :: "ushort list"
  assumes set: "chars_at mem p cs" "unat n = length cs"
    and f: "f = (if flag Flags PH_SPLIT_CASE_INSENSITIVE then up else (\<lambda>c. c))"
    and T: "charset_table T (map f cs)"
    and upper: "flag Flags PH_SPLIT_CHAR_SET_IS_UPPERCASE \<Longrightarrow> \<forall>c \<in> set cs. up c = c"
  shows "PhSplit_test up mem Flags p n T (f x) = Some (separator_char up Flags cs x)"
proof -
  let ?g = "if \<not> flag Flags PH_SPLIT_CASE_INSENSITIVE \<or> flag Flags PH_SPLIT_CHAR_SET_IS_UPPERCASE
    then (\<lambda>d. d) else up"
  have same: "?g ` set cs = f ` set cs"
    using upper by (auto simp: f image_iff)
  obtain j where j: "scan_charset ?g mem p n (f x) 0 = Some j" "j < n \<longleftrightarrow> f x \<in> f ` set cs" "j = n \<longleftrightarrow> f x \<notin> f ` set cs"
    by (rule scan_whole [OF set, of ?g "f x"]) (use that same in auto)
  have sep: "separator_char up Flags cs x \<longleftrightarrow> (f x \<in> f ` set cs) \<noteq> flag Flags PH_SPLIT_COMPLEMENT_CHAR_SET"
    by (simp add: separator_char_def f)
  show ?thesis
  proof (cases "f x < 256 \<and> snd T")
    case True
    then show ?thesis
      using table_complete [OF T, of "f x"] by (simp add: PhSplit_test_def sep)
  next
    case False
    then have branch: "PhSplit_test up mem Flags p n T (f x) =
      (if \<not> flag Flags PH_SPLIT_COMPLEMENT_CHAR_SET then
         if fst T ! unat (f x AND 0xff) then Some (j < n) else Some False
       else if fst T ! unat (f x AND 0xff) then Some (j = n) else Some True)"
      using j(1) by (simp only: PhSplit_test_def Let_def if_False bind.bind_lunit)
    show ?thesis
      using table_rejects [OF T, of "f x"] j(2,3) unfolding branch sep by auto
  qed
qed

lemma split_forward:
  assumes "chars_at mem s xs" "unat i = length xs" "xs \<noteq> []" "\<And>x. x \<in> set xs \<Longrightarrow> test (f x) = Some (P x)"
  obtains (none) "PhSplit_loop test f mem 2 s i = Some None" "\<And>x. x \<in> set xs \<Longrightarrow> \<not> P x"
    | (at) pre x post where "PhSplit_loop test f mem 2 s i = Some (Some (s + 2 * of_nat (length pre)))"
      "xs = pre @ x # post" "P x" "\<And>y. y \<in> set pre \<Longrightarrow> \<not> P y"
  using assms
proof (induction xs arbitrary: s i thesis)
  case (Cons x xs)
  have i: "unat (i - 1) = length xs" using unat_pred [of i "length xs"] Cons.prems(4) by simp
  have mem: "mem s = Some x" "chars_at mem (s + 2) xs" "test (f x) = Some (P x)"
    using Cons.prems(3,6) by simp_all
  show ?case
  proof (cases "P x")
    case True
    then show ?thesis
      using mem by (intro Cons.prems(2) [of "[]" x xs]) (simp_all add: PhSplit_loop.simps [of _ _ _ _ s])
  next
    case nP: False
    show ?thesis
    proof (cases "xs = []")
      case True
      then have "i - 1 = 0" using i by (simp add: unat_eq_0)
      then show ?thesis
        using mem nP True by (intro Cons.prems(1)) (simp_all add: PhSplit_loop.simps [of _ _ _ _ s])
    next
      case False
      then have "i - 1 \<noteq> 0" using i by (metis length_0_conv unat_0)
      then have step: "PhSplit_loop test f mem 2 s i = PhSplit_loop test f mem 2 (s + 2) (i - 1)"
        using mem nP by (simp add: PhSplit_loop.simps [of _ _ _ _ s])
      show ?thesis
      proof (rule Cons.IH [of "s + 2" "i - 1"])
        show "chars_at mem (s + 2) xs" "unat (i - 1) = length xs" "xs \<noteq> []" using mem i False by simp_all
        show "test (f y) = Some (P y)" if "y \<in> set xs" for y using Cons.prems(6) that by simp
      next
        assume "PhSplit_loop test f mem 2 (s + 2) (i - 1) = Some None" "\<And>x. x \<in> set xs \<Longrightarrow> \<not> P x"
        then show ?thesis using step nP by (intro Cons.prems(1)) auto
      next
        fix pre y post
        assume "PhSplit_loop test f mem 2 (s + 2) (i - 1) = Some (Some (s + 2 + 2 * of_nat (length pre)))"
          "xs = pre @ y # post" "P y" "\<And>z. z \<in> set pre \<Longrightarrow> \<not> P z"
        then show ?thesis using step nP by (intro Cons.prems(2) [of "x # pre" y post]) auto
      qed
    qed
  qed
qed simp

lemma split_backward:
  assumes "chars_at mem p xs" "unat i = length xs" "xs \<noteq> []" "s = p + 2 * of_nat (length xs) - 2"
    "\<And>x. x \<in> set xs \<Longrightarrow> test (f x) = Some (P x)"
  obtains (none) "PhSplit_loop test f mem (- 2) s i = Some None" "\<And>x. x \<in> set xs \<Longrightarrow> \<not> P x"
    | (at) pre x post where "PhSplit_loop test f mem (- 2) s i = Some (Some (p + 2 * of_nat (length pre)))"
      "xs = pre @ x # post" "P x" "\<And>y. y \<in> set post \<Longrightarrow> \<not> P y"
  using assms
proof (induction xs arbitrary: s i thesis rule: rev_induct)
  case (snoc x xs)
  have i: "unat (i - 1) = length xs" using unat_pred [of i "length xs"] snoc.prems(4) by simp
  have mem: "mem s = Some x" "chars_at mem p xs" "test (f x) = Some (P x)"
    using snoc.prems(3,6,7) by (simp_all add: chars_at_append)
  show ?case
  proof (cases "P x")
    case True
    then have "PhSplit_loop test f mem (- 2) s i = Some (Some s)"
      using mem by (simp add: PhSplit_loop.simps [of _ _ _ _ s])
    then show ?thesis using True snoc.prems(6) by (intro snoc.prems(2) [of xs x "[]"]) simp_all
  next
    case nP: False
    show ?thesis
    proof (cases "xs = []")
      case True
      then have "i - 1 = 0" using i by (simp add: unat_eq_0)
      then show ?thesis
        using mem nP True by (intro snoc.prems(1)) (simp_all add: PhSplit_loop.simps [of _ _ _ _ s])
    next
      case False
      then have "i - 1 \<noteq> 0" using i by (metis length_0_conv unat_0)
      then have step: "PhSplit_loop test f mem (- 2) s i = PhSplit_loop test f mem (- 2) (s - 2) (i - 1)"
        using mem nP by (simp add: PhSplit_loop.simps [of _ _ _ _ s])
      show ?thesis
      proof (rule snoc.IH [where s = "s - 2" and i = "i - 1"])
        show "chars_at mem p xs" "unat (i - 1) = length xs" "xs \<noteq> []" using mem i False by simp_all
        show "s - 2 = p + 2 * of_nat (length xs) - 2" using snoc.prems(6) by simp
        show "test (f y) = Some (P y)" if "y \<in> set xs" for y using snoc.prems(7) that by simp
      next
        assume "PhSplit_loop test f mem (- 2) (s - 2) (i - 1) = Some None" "\<And>x. x \<in> set xs \<Longrightarrow> \<not> P x"
        then show ?thesis using step nP by (intro snoc.prems(1)) auto
      next
        fix pre y post
        assume "PhSplit_loop test f mem (- 2) (s - 2) (i - 1) = Some (Some (p + 2 * of_nat (length pre)))"
          "xs = pre @ y # post" "P y" "\<And>z. z \<in> set post \<Longrightarrow> \<not> P z"
        then show ?thesis using step nP by (intro snoc.prems(2) [of pre y "post @ [x]"]) auto
      qed
    qed
  qed
qed simp

text \<open>The parts around an index hold the parts of the list.\<close>

lemma holds_parts:
  assumes "holds_ref mem S (pre @ mid @ post)" "index = of_nat (length pre)" "n = of_nat (2 * length mid)"
  shows "holds_ref mem \<lparr>Length = index * 2, Buffer = Buffer S\<rparr> pre"
    "holds_ref mem \<lparr>Length = Length S - index * 2 - n, Buffer = Buffer S + (index * 2 + n)\<rparr> post"
    "holds_ref mem \<lparr>Length = n, Buffer = Buffer S + index * 2\<rparr> mid"
proof -
  have len: "length pre + length mid + length post < 2 ^ 63" using holds_ref_small [OF assms(1)] by simp
  have at: "chars_at mem (Buffer S) pre" "chars_at mem (Buffer S + 2 * of_nat (length pre)) mid"
    "chars_at mem (Buffer S + 2 * of_nat (length pre) + 2 * of_nat (length mid)) post"
    using assms(1) by (simp_all add: holds_ref_def chars_at_append)
  have i: "index * 2 = of_nat (2 * length pre)" using assms(2) by simp
  show "holds_ref mem \<lparr>Length = index * 2, Buffer = Buffer S\<rparr> pre"
    using at(1) len unat_of_nat_small [of "2 * length pre"] unfolding holds_ref_def i by simp
  show "holds_ref mem \<lparr>Length = n, Buffer = Buffer S + index * 2\<rparr> mid"
    using at(2) len unat_of_nat_small [of "2 * length mid"] unfolding holds_ref_def assms(3) i by simp
  have "Length S - index * 2 - n = of_nat (2 * length post)"
    unfolding holds_ref_Length [OF assms(1)] i assms(3) by simp
  then show "holds_ref mem \<lparr>Length = Length S - index * 2 - n, Buffer = Buffer S + (index * 2 + n)\<rparr> post"
    using at(3) len unat_of_nat_small [of "2 * length post"] unfolding holds_ref_def i assms(3)
    by (simp add: add.assoc)
qed

lemma index_not_max: "k < 2 ^ 63 \<Longrightarrow> (of_nat k :: ulong64) \<noteq> SIZE_MAX"
proof
  assume "k < 2 ^ 63" "(of_nat k :: ulong64) = SIZE_MAX"
  then have "unat (SIZE_MAX) = k" using unat_of_nat_small [of k] by simp
  then show False using \<open>k < 2 ^ 63\<close> by (simp add: unsigned_minus_1_eq_mask mask_eq_exp_minus_1)
qed

lemma first_unit_cases:
  obtains (none) "first_unit P xs = SIZE_MAX" "\<And>x. x \<in> set xs \<Longrightarrow> \<not> P x"
    | (at) pre x post where "first_unit P xs = of_nat (length pre)" "xs = pre @ x # post" "P x"
      "\<And>y. y \<in> set pre \<Longrightarrow> \<not> P y"
proof (cases "\<exists>x \<in> set xs. P x")
  case True
  then obtain pre x post where "xs = pre @ x # post" "P x" "\<forall>y \<in> set pre. \<not> P y"
    using split_list_first_prop [of xs P] by blast
  then show thesis by (intro at [of pre x post]) (auto intro: first_unit_at)
next
  case False
  then show thesis using unit_missing [of xs P] by (intro none) auto
qed

lemma last_unit_cases:
  obtains (none) "last_unit P xs = SIZE_MAX" "\<And>x. x \<in> set xs \<Longrightarrow> \<not> P x"
    | (at) pre x post where "last_unit P xs = of_nat (length pre)" "xs = pre @ x # post" "P x"
      "\<And>y. y \<in> set post \<Longrightarrow> \<not> P y"
proof (cases "\<exists>x \<in> set xs. P x")
  case True
  then obtain pre x post where "xs = pre @ x # post" "P x" "\<forall>y \<in> set post. \<not> P y"
    using split_list_last_prop [of xs P] by blast
  then show thesis by (intro at [of pre x post]) (auto intro: last_unit_at)
next
  case False
  then show thesis using unit_missing [of xs P] by (intro none) auto
qed

definition split_from :: "ulong \<Rightarrow> ushort list \<Rightarrow> ushort list \<Rightarrow> ushort list" where
  "split_from Flags pre post = (if flag Flags PH_SPLIT_START_AT_END then post else pre)"

text \<open>The two searches for a single character and the two loops have the same outcome.\<close>

lemma split_search_single:
  assumes S: "holds_ref mem Input xs" and T: "holds_ref mem Separator [c]"
    and flags: "\<not> flag Flags PH_SPLIT_AT_RANGE" "\<not> flag Flags PH_SPLIT_AT_STRING"
      "\<not> flag Flags PH_SPLIT_COMPLEMENT_CHAR_SET"
  obtains (none) "PhSplit_search True up mem Input Separator Flags = Some None"
      "\<And>x. x \<in> set xs \<Longrightarrow> \<not> separator_char up Flags [c] x"
    | (at) pre x post where "PhSplit_search True up mem Input Separator Flags = Some (Some (of_nat (length pre), 2))"
      "xs = pre @ x # post" "separator_char up Flags [c] x"
      "\<And>y. y \<in> set (split_from Flags pre post) \<Longrightarrow> \<not> separator_char up Flags [c] y"
proof -
  let ?ic = "flag Flags PH_SPLIT_CASE_INSENSITIVE"
  let ?P = "\<lambda>x. if ?ic then up x = up c else x = c"
  have P: "separator_char up Flags [c] = ?P" using flags(3) by (auto simp: separator_char_def)
  have two: "Length Separator = 2" "mem (Buffer Separator) = Some c"
    using holds_ref_Length [OF T] T by (simp_all add: holds_ref_def)
  have small: "(of_nat (length pre) :: ulong64) \<noteq> SIZE_MAX" if "xs = pre @ post" for pre post
    using holds_ref_small [OF S] that by (intro index_not_max) simp
  show thesis
  proof (cases "flag Flags PH_SPLIT_START_AT_END")
    case False
    note search = find_char [OF S, where vec = True and up = up and c = c and ic = ?ic]
    show thesis
    proof (cases rule: first_unit_cases [of ?P xs])
      case none
      then show thesis using that(1) P flags two search False by (simp add: PhSplit_search_def Let_def)
    next
      case (at pre x post)
      then show thesis
        using P flags two search False small [of pre "x # post"]
        by (intro that(2) [of pre x post]) (simp_all add: PhSplit_search_def Let_def split_from_def)
    qed
  next
    case True
    note search = find_last_char [OF S, where vec = True and up = up and c = c and ic = ?ic]
    show thesis
    proof (cases rule: last_unit_cases [of ?P xs])
      case none
      then show thesis using that(1) P flags two search True by (simp add: PhSplit_search_def Let_def)
    next
      case (at pre x post)
      then show thesis
        using P flags two search True small [of pre "x # post"]
        by (intro that(2) [of pre x post]) (simp_all add: PhSplit_search_def Let_def split_from_def)
    qed
  qed
qed

lemma split_search_set:
  assumes S: "holds_ref mem Input xs" and T: "holds_ref mem Separator cs"
    and flags: "\<not> flag Flags PH_SPLIT_AT_RANGE" "\<not> flag Flags PH_SPLIT_AT_STRING"
      "flag Flags PH_SPLIT_COMPLEMENT_CHAR_SET \<or> length cs \<noteq> 1"
    and upper: "flag Flags PH_SPLIT_CHAR_SET_IS_UPPERCASE \<Longrightarrow> \<forall>c \<in> set cs. up c = c"
  obtains (none) "PhSplit_search True up mem Input Separator Flags = Some None"
      "\<And>x. x \<in> set xs \<Longrightarrow> \<not> separator_char up Flags cs x"
    | (at) pre x post where "PhSplit_search True up mem Input Separator Flags = Some (Some (of_nat (length pre), 2))"
      "xs = pre @ x # post" "separator_char up Flags cs x"
      "\<And>y. y \<in> set (split_from Flags pre post) \<Longrightarrow> \<not> separator_char up Flags cs y"
proof -
  let ?f = "if flag Flags PH_SPLIT_CASE_INSENSITIVE then up else (\<lambda>c. c)"
  let ?n = "Length Separator div 2" and ?p = "Buffer Separator" and ?i = "Length Input div 2"
  have set: "chars_at mem ?p cs" "unat ?n = length cs" "chars_at mem (Buffer Input) xs" "unat ?i = length xs"
    using S T holds_ref_units by (auto simp: holds_ref_def)
  have two: "Length Separator \<noteq> 2 \<or> flag Flags PH_SPLIT_COMPLEMENT_CHAR_SET"
    using T flags(3) by (auto simp: holds_ref_def)
  show thesis
  proof (cases "xs = []")
    case True
    then have "Length Input = 0" using holds_ref_Length [OF S] by simp
    then show thesis using True flags two by (intro that(1)) (auto simp: PhSplit_search_def Let_def)
  next
    case False
    have ne: "Length Input \<noteq> 0" using S False by (auto simp: holds_ref_def)
    obtain T' where T': "build_charset ?f mem ?p ?n 0 (replicate 256 False, True) = Some T'"
      "charset_table T' (map ?f cs)"
      by (rule build_charset [OF set(1,2), of 0 "(replicate 256 False, True)" ?f])
        (use charset_table_empty in simp_all)
    let ?test = "PhSplit_test up mem Flags ?p ?n T'"
    have test: "?test (?f x) = Some (separator_char up Flags cs x)" for x
      by (rule split_test [OF set(1,2) refl T'(2) upper])
    have fwd: "PhSplit_search True up mem Input Separator Flags = do {
        r \<leftarrow> PhSplit_loop ?test ?f mem (if \<not> flag Flags PH_SPLIT_START_AT_END then 2 else - 2)
          (if \<not> flag Flags PH_SPLIT_START_AT_END then Buffer Input else Buffer Input + (Length Input - 2)) ?i;
        Some (case r of None \<Rightarrow> None | Some s \<Rightarrow> Some ((s - Buffer Input) div 2, 2)) }"
      using flags two ne T'(1) by (auto simp: PhSplit_search_def Let_def)
    have index: "(Buffer Input + 2 * of_nat (length pre) - Buffer Input) div 2 = of_nat (length pre)"
      if "xs = pre @ post" for pre post
      using half_of_nat [of "length pre"] holds_ref_small [OF S] that by simp
    show thesis
    proof (cases "flag Flags PH_SPLIT_START_AT_END")
      case dir: False
      show thesis
      proof (cases rule: split_forward [where f = ?f and P = "separator_char up Flags cs", OF set(3,4) False test])
        case 1
        then show thesis using dir fwd by (intro that(1)) auto
      next
        case (2 pre x post)
        then show thesis
          using dir fwd index [of pre "x # post"] by (intro that(2) [of pre x post]) (auto simp: split_from_def)
      qed
    next
      case dir: True
      have s: "Buffer Input + (Length Input - 2) = Buffer Input + 2 * of_nat (length xs) - 2"
        using holds_ref_Length [OF S] by simp
      show thesis
      proof (cases rule: split_backward [where f = ?f and P = "separator_char up Flags cs", OF set(3,4) False s test])
        case 1
        then show thesis using dir fwd by (intro that(1)) auto
      next
        case (2 pre x post)
        then show thesis
          using dir fwd index [of pre "x # post"] by (intro that(2) [of pre x post]) (auto simp: split_from_def)
      qed
    qed
  qed
qed

text \<open>The splits at a character and at a string: the parts and the separator make the input.\<close>

lemma split_at_parts:
  assumes S: "holds_ref mem S (pre @ mid @ post)"
  shows "\<exists>F G. split_at S (of_nat (length pre)) (of_nat (2 * length mid)) = (True, F, G)
    \<and> holds_ref mem F pre \<and> holds_ref mem G post"
  using holds_parts [OF S refl refl] by (simp add: split_at_def)

lemma split_at_char:
  assumes S: "holds_ref mem S xs" and stop: "vec \<or> terminated mem (Buffer S)" and c: "c \<in> set xs"
  obtains pre post F G where "PhSplitStringRefAtChar vec up mem S c = Some (True, F, G)"
    "xs = pre @ c # post" "c \<notin> set pre" "holds_ref mem F pre" "holds_ref mem G post"
proof -
  obtain pre post where xs: "xs = pre @ c # post" "c \<notin> set pre" using split_list_first [OF c] by blast
  have "first_unit (\<lambda>x. x = c) xs = of_nat (length pre)"
    using xs(2) unfolding xs(1) by (intro first_unit_at) auto
  moreover have "(of_nat (length pre) :: ulong64) \<noteq> SIZE_MAX"
    using holds_ref_small [OF S] xs(1) by (intro index_not_max) simp
  moreover have "holds_ref mem S (pre @ [c] @ post)" using S xs(1) by simp
  note split_at_parts [OF this]
  ultimately show thesis
    using that xs find_char [OF S, of vec False up c] stop by (auto simp: PhSplitStringRefAtChar_def)
qed

lemma split_at_last_char:
  assumes S: "holds_ref mem S xs" and stop: "vec \<or> terminated mem (Buffer S + Length S)" and c: "c \<in> set xs"
  obtains pre post F G where "PhSplitStringRefAtLastChar vec up mem S c = Some (True, F, G)"
    "xs = pre @ c # post" "c \<notin> set post" "holds_ref mem F pre" "holds_ref mem G post"
proof -
  obtain pre post where xs: "xs = pre @ c # post" "c \<notin> set post" using split_list_last [OF c] by blast
  have "last_unit (\<lambda>x. x = c) xs = of_nat (length pre)"
    using xs(2) unfolding xs(1) by (intro last_unit_at) auto
  moreover have "(of_nat (length pre) :: ulong64) \<noteq> SIZE_MAX"
    using holds_ref_small [OF S] xs(1) by (intro index_not_max) simp
  moreover have "holds_ref mem S (pre @ [c] @ post)" using S xs(1) by simp
  note split_at_parts [OF this]
  ultimately show thesis
    using that xs find_last_char [OF S, of vec False up c] stop by (auto simp: PhSplitStringRefAtLastChar_def)
qed

lemma split_at_string:
  assumes S: "holds_ref mem S xs" and T: "holds_ref mem T ys"
    and k: "find (\<lambda>k. take (length ys) (drop k (folded up ic xs)) = folded up ic ys) [0..<Suc (length xs) - length ys] = Some k"
  obtains F G where "PhSplitStringRefAtString vec up mem S T ic = Some (True, F, G)"
    "holds_ref mem F (take k xs)" "holds_ref mem G (drop (k + length ys) xs)"
proof -
  have len: "k + length ys \<le> length xs" using k by (auto simp: find_Some_iff)
  then have xs: "xs = take k xs @ take (length ys) (drop k xs) @ drop (k + length ys) xs"
    by (metis add.commute append_take_drop_id drop_drop)
  have lens: "length (take k xs) = k" "length (take (length ys) (drop k xs)) = length ys" using len by simp_all
  have "first_sub (folded up ic ys) (folded up ic xs) = of_nat k" using k by (simp add: first_sub_def)
  moreover have "(of_nat k :: ulong64) \<noteq> SIZE_MAX"
    using holds_ref_small [OF S] len by (intro index_not_max) simp
  moreover have "Length T = of_nat (2 * length ys)" using holds_ref_Length [OF T] by simp
  moreover have "holds_ref mem S (take k xs @ take (length ys) (drop k xs) @ drop (k + length ys) xs)"
    using S xs by simp
  note split_at_parts [OF this, unfolded lens]
  ultimately show thesis using that find_string [OF S T, of vec up ic] by (auto simp: PhSplitStringRefAtString_def)
qed

lemma starts_with:
  assumes S: "holds_ref mem S xs" and T: "holds_ref mem T ys"
  shows "PhStartsWithStringRef vec up mem S T ic = Some (take (length ys) (folded up ic xs) = folded up ic ys)"
proof (cases "length ys \<le> length xs")
  case True
  then have "\<not> Length S < Length T" using S T by (simp add: holds_ref_def word_less_nat_alt)
  moreover have "holds_ref mem \<lparr>Length = Length T, Buffer = Buffer S\<rparr> (take (length ys) xs)"
    using S T True chars_at_take by (simp add: holds_ref_def)
  ultimately show ?thesis
    using equal_ref_folded [OF _ T, of "\<lparr>Length = Length T, Buffer = Buffer S\<rparr>"]
    by (simp add: PhStartsWithStringRef_def folded_take_drop)
next
  case False
  then have "Length S < Length T" using S T by (simp add: holds_ref_def word_less_nat_alt)
  moreover have "take (length ys) (folded up ic xs) \<noteq> folded up ic ys"
    using False by (auto dest: arg_cong [where f = length])
  ultimately show ?thesis by (simp add: PhStartsWithStringRef_def)
qed

lemma ends_with:
  assumes S: "holds_ref mem S xs" and T: "holds_ref mem T ys"
  shows "PhEndsWithStringRef vec up mem S T ic
    = Some (length ys \<le> length xs \<and> drop (length xs - length ys) (folded up ic xs) = folded up ic ys)"
proof (cases "length ys \<le> length xs")
  case True
  let ?k = "length xs - length ys"
  let ?sr = "\<lparr>Length = Length T, Buffer = Buffer S + (Length S - Length T)\<rparr>"
  have "\<not> Length S < Length T" using S T True by (simp add: holds_ref_def word_less_nat_alt)
  moreover have "Length S - Length T = 2 * of_nat ?k"
    using True by (simp add: holds_ref_Length [OF S] holds_ref_Length [OF T] of_nat_diff algebra_simps)
  then have "holds_ref mem ?sr (drop ?k xs)"
    using S T True chars_at_drop [of mem "Buffer S" xs ?k] by (simp add: holds_ref_def)
  ultimately show ?thesis
    using equal_ref_folded [OF _ T, of ?sr] True by (simp add: PhEndsWithStringRef_def folded_take_drop)
next
  case False
  then have "Length S < Length T" using S T by (simp add: holds_ref_def word_less_nat_alt)
  then show ?thesis using False by (simp add: PhEndsWithStringRef_def)
qed

section \<open>Trimming\<close>

lemma trim_count:
  assumes "chars_at mem s xs" "unat n = length xs" "\<And>x. x \<in> set xs \<Longrightarrow> test x = Some (P x)"
  shows "PhTrim_count test mem 2 s n k = Some (k + of_nat (length (takeWhile P xs)))"
  using assms
proof (induction xs arbitrary: s n k)
  case Nil
  then have "n = 0" by (simp add: unat_eq_0)
  then show ?case by (subst PhTrim_count.simps) simp
next
  case (Cons x xs)
  have n: "n \<noteq> 0" "unat (n - 1) = length xs" using unat_pred [of n "length xs"] Cons.prems(2) by simp_all
  show ?case
    using Cons.IH [of "s + 2" "n - 1" "k + 1"] Cons.prems n
    by (subst PhTrim_count.simps) (simp add: algebra_simps)
qed

lemma trim_count_back:
  assumes "chars_at mem p xs" "unat n = length xs" "s = p + 2 * of_nat (length xs) - 2"
    "\<And>x. x \<in> set xs \<Longrightarrow> test x = Some (P x)"
  shows "PhTrim_count test mem (- 2) s n k = Some (k + of_nat (length (takeWhile P (rev xs))))"
  using assms
proof (induction xs arbitrary: s n k rule: rev_induct)
  case Nil
  then have "n = 0" by (simp add: unat_eq_0)
  then show ?case by (subst PhTrim_count.simps) simp
next
  case (snoc x xs)
  have n: "n \<noteq> 0" "unat (n - 1) = length xs" using unat_pred [of n "length xs"] snoc.prems(2) by simp_all
  have mem: "mem s = Some x" "chars_at mem p xs" "test x = Some (P x)" "s - 2 = p + 2 * of_nat (length xs) - 2"
    using snoc.prems(1,3,4) by (simp_all add: chars_at_append)
  have IH: "PhTrim_count test mem (- 2) (s - 2) (n - 1) (k + 1)
      = Some (k + 1 + of_nat (length (takeWhile P (rev xs))))"
    using snoc.IH [OF mem(2) n(2) mem(4)] snoc.prems(4) by simp
  show ?case
    using IH mem n by (subst PhTrim_count.simps) (simp add: algebra_simps)
qed

definition trimmed :: "(ushort \<Rightarrow> bool) \<Rightarrow> ulong \<Rightarrow> ushort list \<Rightarrow> ushort list" where
  "trimmed P Flags xs = (
     let xs = (if flag Flags PH_TRIM_END_ONLY then xs else dropWhile P xs) in
     if flag Flags PH_TRIM_START_ONLY then xs else rev (dropWhile P (rev xs)))"

lemma ref_updates:
  "S\<lparr>Buffer := b, Length := l\<rparr> = \<lparr>Length = l, Buffer = b\<rparr>" "S\<lparr>Length := l\<rparr> = \<lparr>Length = l, Buffer = Buffer S\<rparr>"
  by (cases S, simp)+

lemma trim_start:
  assumes "holds_ref mem S xs"
  shows "holds_ref mem (PhSkipStringRef S (of_nat (length (takeWhile P xs)) * 2)) (dropWhile P xs)"
  using holds_parts(2) [of mem S "takeWhile P xs" "[]" "dropWhile P xs"] assms
  by (simp add: PhSkipStringRef_def ref_updates)

lemma trim_end:
  assumes "holds_ref mem S xs"
  shows "holds_ref mem (S\<lparr>Length := Length S - of_nat (length (takeWhile P (rev xs))) * 2\<rparr>) (rev (dropWhile P (rev xs)))"
proof -
  have xs: "xs = rev (dropWhile P (rev xs)) @ [] @ rev (takeWhile P (rev xs))"
    by (metis append_Nil rev_append rev_rev_ident takeWhile_dropWhile_id)
  then have "length xs = length (dropWhile P (rev xs)) + length (takeWhile P (rev xs))"
    by (metis add.commute length_append length_rev takeWhile_dropWhile_id)
  then have "Length S - of_nat (length (takeWhile P (rev xs))) * 2
    = of_nat (length (rev (dropWhile P (rev xs)))) * 2"
    using holds_ref_Length [OF assms] by simp
  then show ?thesis
    using holds_parts(1) [OF assms [unfolded arg_cong [where f = "holds_ref mem S", OF xs]] refl refl] by (simp add: ref_updates)
qed

lemma trim_ends:
  assumes S: "holds_ref mem S xs" and test: "\<And>x. x \<in> set xs \<Longrightarrow> test x = Some (P x)"
  obtains S' where "PhTrim_ends test mem S Flags = Some S'" "holds_ref mem S' (trimmed P Flags xs)"
proof -
  let ?ys = "if flag Flags PH_TRIM_END_ONLY then xs else dropWhile P xs"
  obtain S1 where S1: "holds_ref mem S1 ?ys"
    "(if \<not> flag Flags PH_TRIM_END_ONLY then do {
          trimCount \<leftarrow> PhTrim_count test mem 2 (Buffer S) (Length S div 2) 0;
          Some (PhSkipStringRef S (trimCount * 2))
        }
        else Some S) = Some S1"
    using S trim_start [OF S, of P]
      trim_count [of mem "Buffer S" xs "Length S div 2" test P 0] holds_ref_units [OF S] test
    by (cases "flag Flags PH_TRIM_END_ONLY") (auto simp: holds_ref_def)
  have test': "\<And>x. x \<in> set ?ys \<Longrightarrow> test x = Some (P x)" using test by (auto split: if_splits dest: set_dropWhileD)
  have q: "Buffer S1 + (Length S1 - 2) = Buffer S1 + 2 * of_nat (length ?ys) - 2"
    using holds_ref_Length [OF S1(1)] by simp
  have at: "chars_at mem (Buffer S1) ?ys" using S1(1) by (simp add: holds_ref_def)
  have count: "PhTrim_count test mem (- 2) (Buffer S1 + (Length S1 - 2)) (Length S1 div 2) 0
    = Some (of_nat (length (takeWhile P (rev ?ys))))"
    using trim_count_back [OF at holds_ref_units [OF S1(1)] q test', where k = 0] by simp
  have unfold: "PhTrim_ends test mem S Flags =
    (if \<not> flag Flags PH_TRIM_START_ONLY then
       Some (S1\<lparr>Length := Length S1 - of_nat (length (takeWhile P (rev ?ys))) * 2\<rparr>)
     else Some S1)"
    unfolding PhTrim_ends_def S1(2) using count by simp
  show thesis
  proof (cases "flag Flags PH_TRIM_START_ONLY")
    case True
    then show thesis using unfold S1(1) by (intro that [of S1]) (simp_all add: trimmed_def)
  next
    case False
    then show thesis
      using unfold trim_end [OF S1(1), of P] by (intro that) (simp_all add: trimmed_def Let_def)
  qed
qed

text \<open>
  What the trimming loop takes for a member of the set: with a complete table it looks at the
  low byte only.
\<close>

definition trim_char :: "ushort list \<Rightarrow> ushort \<Rightarrow> bool" where
  "trim_char cs x \<longleftrightarrow>
     (if length cs \<noteq> 1 \<and> (\<forall>d \<in> set cs. d < 256) then x AND 0xff \<in> set cs else x \<in> set cs)"

lemma trim_char_small: "x < 256 \<or> (\<exists>d \<in> set cs. 256 \<le> d) \<or> length cs = 1 \<Longrightarrow> trim_char cs x \<longleftrightarrow> x \<in> set cs"
proof -
  have "x AND 0xff = x" if "x < 256"
    using that by (simp add: word_unat_eq_iff and_ff word_less_nat_alt)
  then show "x < 256 \<or> (\<exists>d \<in> set cs. 256 \<le> d) \<or> length cs = 1 \<Longrightarrow> trim_char cs x \<longleftrightarrow> x \<in> set cs"
    by (auto simp: trim_char_def not_less [symmetric])
qed

lemma trim_test:
  assumes set: "chars_at mem p cs" "unat n = length cs" "length cs \<noteq> 1" and T: "charset_table T cs"
  shows "PhTrim_test mem p n T x = Some (trim_char cs x)"
proof -
  obtain j where j: "scan_charset (\<lambda>d. d) mem p n x 0 = Some j" "j < n \<longleftrightarrow> x \<in> (\<lambda>d. d) ` set cs"
    by (rule scan_whole [OF set(1,2), of "\<lambda>d. d" x])
  have low: "x AND 0xff < 256" by (simp add: word_less_nat_alt and_ff)
  have self: "x AND 0xff AND 0xff = x AND 0xff" by (simp add: word_unat_eq_iff and_ff)
  show ?thesis
  proof (cases "snd T")
    case True
    then have "\<forall>d \<in> set cs. d < 256" using T by (simp add: charset_table_def)
    moreover have "fst T ! unat (x AND 0xff) \<longleftrightarrow> x AND 0xff \<in> set cs"
      by (rule table_complete [OF T True low])
    ultimately show ?thesis using True set(3) by (auto simp: PhTrim_test_def trim_char_def)
  next
    case False
    then have "\<not> (\<forall>d \<in> set cs. d < 256)" using T by (simp add: charset_table_def)
    then show ?thesis
      using False j table_rejects [OF T, of x] by (auto simp: PhTrim_test_def trim_char_def)
  qed
qed

lemma trim_string:
  assumes S: "holds_ref mem S xs" and C: "holds_ref mem C cs"
  obtains S' where "PhTrimStringRef mem S C Flags = Some S'" "holds_ref mem S' (trimmed (trim_char cs) Flags xs)"
proof (cases "xs = [] \<or> cs = []")
  case True
  then have "Length S = 0 \<or> Length C = 0" using holds_ref_Length [OF S] holds_ref_Length [OF C] by auto
  moreover have "trimmed (trim_char cs) Flags xs = xs"
  proof -
    have "dropWhile (trim_char []) ys = ys" for ys by (cases ys) (simp_all add: trim_char_def)
    then show ?thesis using True by (auto simp: trimmed_def)
  qed
  ultimately show thesis using S by (intro that [of S]) (simp_all add: PhTrimStringRef_def)
next
  case False
  have ne: "Length S \<noteq> 0" "Length C \<noteq> 0" using S C False by (auto simp: holds_ref_def)
  have set: "chars_at mem (Buffer C) cs" "unat (Length C div 2) = length cs"
    using C holds_ref_units [OF C] by (simp_all add: holds_ref_def)
  show thesis
  proof (cases "length cs = 1")
    case True
    then obtain c where c: "cs = [c]" by (auto simp: length_Suc_conv)
    then have two: "Length C = 2" "mem (Buffer C) = Some c" using holds_ref_Length [OF C] set by simp_all
    have P: "trim_char cs = (\<lambda>x. x = c)" by (auto simp: trim_char_def c)
    show thesis
      by (rule trim_ends [OF S, where test = "\<lambda>d. Some (d = c)" and P = "trim_char cs" and Flags = Flags])
        (use P ne two in \<open>auto simp: PhTrimStringRef_def intro: that\<close>)
  next
    case nz: False
    then have two: "Length C \<noteq> 2" using C by (auto simp: holds_ref_def)
    obtain T where T: "build_charset (\<lambda>c. c) mem (Buffer C) (Length C div 2) 0 (replicate 256 False, True) = Some T"
      "charset_table T (map (\<lambda>c. c) cs)"
      by (rule build_charset [OF set, of 0 "(replicate 256 False, True)" "\<lambda>c. c"])
        (use charset_table_empty in simp_all)
    have test: "PhTrim_test mem (Buffer C) (Length C div 2) T x = Some (trim_char cs x)" for x
      using trim_test [OF set nz] T(2) by simp
    show thesis
      by (rule trim_ends [OF S test, where Flags = Flags])
        (use ne two T(1) in \<open>auto simp: PhTrimStringRef_def Let_def intro: that\<close>)
  qed
qed

section \<open>Reversing\<close>

lemma chars_at_iff: "chars_at mem p cs \<longleftrightarrow> (\<forall>i < length cs. mem (p + 2 * of_nat i) = Some (cs ! i))"
proof (induction cs arbitrary: p)
  case (Cons c cs)
  have "(\<forall>i < Suc (length cs). Q i) \<longleftrightarrow> Q 0 \<and> (\<forall>i < length cs. Q (Suc i))" for Q
    by (metis less_Suc_eq_0_disj)
  then show ?case by (simp add: Cons.IH algebra_simps)
qed simp

lemma unit_address_eq:
  assumes "i < n" "k < n" "2 * n < 2 ^ 64"
  shows "p + 2 * of_nat i = p + 2 * (of_nat k :: ulong64) \<longleftrightarrow> i = k"
proof -
  have "p + 2 * of_nat i = p + 2 * of_nat k \<longleftrightarrow> (of_nat (2 * i) :: ulong64) = of_nat (2 * k)" by simp
  also have "\<dots> \<longleftrightarrow> 2 * i = 2 * k"
  proof -
    have "unat (of_nat (2 * i) :: ulong64) = 2 * i" "unat (of_nat (2 * k) :: ulong64) = 2 * k"
      using assms by (intro unat_of_nat_small; simp)+
    then show ?thesis by (metis (no_types))
  qed
  finally show ?thesis by simp
qed

lemma chars_at_update:
  assumes "chars_at mem p cs" "k < length cs" "2 * length cs < 2 ^ 64"
  shows "chars_at (mem(p + 2 * of_nat k \<mapsto> c)) p (cs[k := c])"
  using assms unit_address_eq [OF _ assms(2,3)] by (auto simp: chars_at_iff nth_list_update)

definition unit_addresses :: "ulong64 \<Rightarrow> nat \<Rightarrow> ulong64 set" where
  "unit_addresses p n = (\<lambda>i. p + 2 * of_nat i) ` {..<n}"

lemma unit_addresses_mem: "k < n \<Longrightarrow> p + 2 * of_nat k \<in> unit_addresses p n"
  by (simp add: unit_addresses_def)

lemma reverse_swap:
  "(pre @ x # ms @ y # post)[length pre := y, Suc (length pre + length ms) := x] = pre @ y # ms @ x # post"
  by (simp add: list_update_append)

lemma reverse_loop:
  assumes "chars_at mem B (pre @ ms @ post)" "unat i = length pre" "j = i + of_nat (length ms) - 1"
    "length pre = length post" "pre \<noteq> [] \<or> 2 \<le> length ms" "length pre + length ms + length post < 2 ^ 63"
  obtains mem' where "PhReverse_loop B i j mem = Some mem'" "chars_at mem' B (pre @ rev ms @ post)"
    "\<And>q. q \<notin> unit_addresses B (length (pre @ ms @ post)) \<Longrightarrow> mem' q = mem q"
  using assms
proof (induction "length ms" arbitrary: mem i j pre ms post thesis rule: less_induct)
  case less
  let ?n = "length (pre @ ms @ post)"
  have n: "2 * ?n < 2 ^ 64" using less.prems(7) by simp
  have i: "i = of_nat (length pre)" by (rule of_nat_unatI [OF less.prems(3)])
  show ?case
  proof (cases "length ms \<le> 1")
    case True
    then have pre: "0 < length pre" using less.prems(6) by auto
    then have i0: "unat (i - 1) = length pre - 1" "unat (i + 1) = length pre + 1"
      using less.prems(3,7) unat_pred [of i "length pre - 1"]
      by (simp_all add: unat_add_exact)
    have rev: "rev ms = ms" using True by (cases ms) auto
    have "PhReverse_loop B i j mem = Some mem"
    proof (cases ms)
      case Nil
      then have "\<not> i \<le> j"
        using less.prems(3,4) i0 pre by (simp add: word_le_nat_alt del: length_greater_0_conv)
      then show ?thesis by (subst PhReverse_loop.simps) simp
    next
      case (Cons x ms')
      then have ms: "ms = [x]" "j = i" using True less.prems(4) by auto
      have x: "mem (B + i * 2) = Some x"
        using chars_at_nth [OF less.prems(2), of "length pre"] by (simp add: ms i mult.commute)
      then have same: "mem(B + i * 2 \<mapsto> x) = mem" by (simp add: fun_upd_idem)
      have "\<not> i + 1 \<le> i - 1" using i0 pre by (simp add: word_le_nat_alt)
      then have "PhReverse_loop B (i + 1) (i - 1) mem = Some mem" by (subst PhReverse_loop.simps) simp
      then show ?thesis
        using x same by (subst PhReverse_loop.simps) (simp add: ms(2) write_unit_def)
    qed
    then show ?thesis using less.prems(2) rev by (intro less.prems(1) [of mem]) auto
  next
    case False
    then obtain x ms1 where ms1: "ms = x # ms1" "ms1 \<noteq> []" by (cases ms) auto
    then obtain ms' y where ms: "ms = x # ms' @ [y]" by (metis rev_exhaust)
    let ?k = "Suc (length pre + length ms')"
    have j: "j = of_nat ?k" using less.prems(4) by (simp add: i ms)
    have uj: "unat j = ?k" unfolding j using less.prems(7) by (intro unat_of_nat_small) (simp add: ms)
    have le: "i \<le> j" using less.prems(3) uj by (simp add: word_le_nat_alt)
    have x: "mem (B + i * 2) = Some x"
      using chars_at_nth [OF less.prems(2), of "length pre"] by (simp add: ms i mult.commute)
    have y: "mem (B + j * 2) = Some y"
      using chars_at_nth [OF less.prems(2), of ?k] by (simp add: ms j nth_append algebra_simps)
    let ?m1 = "mem(B + i * 2 \<mapsto> y)" and ?m2 = "mem(B + i * 2 \<mapsto> y, B + j * 2 \<mapsto> x)"
    have addr: "B + i * 2 = B + 2 * of_nat (length pre)" "B + j * 2 = B + 2 * of_nat ?k"
      by (simp_all add: i j)
    have "chars_at ?m1 B ((pre @ ms @ post)[length pre := y])"
      unfolding addr(1) using n by (intro chars_at_update less.prems(2)) (simp_all add: ms)
    then have "chars_at ?m2 B ((pre @ ms @ post)[length pre := y, ?k := x])"
      unfolding addr(2) using n by (intro chars_at_update) (simp_all add: ms)
    then have at: "chars_at ?m2 B ((pre @ [y]) @ ms' @ (x # post))"
      using reverse_swap [of pre x ms' y post] by (simp add: ms)
    have i1: "unat (i + 1) = length (pre @ [y])"
      using less.prems(3,7) by (simp add: unat_add_exact)
    have j1: "j - 1 = (i + 1) + of_nat (length ms') - 1" by (simp add: i j)
    have len: "length (pre @ [y]) = length (x # post)" "length ms' < length ms"
      "length (pre @ [y]) + length ms' + length (x # post) < 2 ^ 63"
      using less.prems(5,7) by (simp_all add: ms)
    obtain mem' where m': "PhReverse_loop B (i + 1) (j - 1) ?m2 = Some mem'"
      "chars_at mem' B ((pre @ [y]) @ rev ms' @ (x # post))"
      "\<And>q. q \<notin> unit_addresses B (length ((pre @ [y]) @ ms' @ (x # post))) \<Longrightarrow> mem' q = ?m2 q"
      by (rule less.hyps [OF len(2) _ at i1 j1 len(1) _ len(3)]) blast+
    have step: "PhReverse_loop B i j mem = Some mem'"
    proof -
      have "?m1 (B + j * 2) \<noteq> None" using y by (auto simp: fun_upd_def)
      then have "write_unit ?m1 (B + j * 2) x = Some ?m2" by (auto simp: write_unit_def)
      then show ?thesis
        using le x y m'(1) by (subst PhReverse_loop.simps) (simp add: write_unit_def [of mem])
    qed
    show ?thesis
    proof (rule less.prems(1) [OF step])
      show "chars_at mem' B (pre @ rev ms @ post)" using m'(2) by (simp add: ms)
      fix q assume q: "q \<notin> unit_addresses B (length (pre @ ms @ post))"
      have "B + i * 2 \<in> unit_addresses B (length (pre @ ms @ post))" "B + j * 2 \<in> unit_addresses B (length (pre @ ms @ post))"
        unfolding addr by (intro unit_addresses_mem; simp add: ms)+
      then have "q \<noteq> B + i * 2" "q \<noteq> B + j * 2" using q by blast+
      moreover have "mem' q = ?m2 q" using m'(3) [of q] q by (simp add: ms)
      ultimately show "mem' q = mem q" by simp
    qed
  qed
qed

lemma reverse_string:
  assumes S: "holds_ref mem S xs" and long: "2 \<le> length xs"
  obtains mem' where "PhReverseStringRef mem S = Some mem'" "holds_ref mem' S (rev xs)"
    "\<And>q. q \<notin> unit_addresses (Buffer S) (length xs) \<Longrightarrow> mem' q = mem q"
proof -
  have at: "chars_at mem (Buffer S) ([] @ xs @ [])" using S by (simp add: holds_ref_def)
  have j: "Length S div 2 - 1 = 0 + of_nat (length xs) - 1" using holds_ref_half [OF S] by simp
  show thesis
    by (rule reverse_loop [OF at _ j])
      (use S long holds_ref_small [OF S] that in \<open>auto simp: PhReverseStringRef_def holds_ref_def\<close>)
qed

text \<open>The loop of a shorter string does not stop before it has read below the buffer.\<close>

lemma reverse_short:
  assumes S: "holds_ref mem S xs" and short: "length xs < 2" and below: "mem (Buffer S - 2) = None"
  shows "PhReverseStringRef mem S = None"
proof (cases xs)
  case Nil
  then have "Length S = 0" using holds_ref_Length [OF S] by simp
  then show ?thesis
    using below unfolding PhReverseStringRef_def
    by (subst PhReverse_loop.simps) (simp split: option.splits bind_splits)
next
  case (Cons x ys)
  then have xs: "xs = [x]" using short by simp
  then have two: "Length S = 2" "mem (Buffer S) = Some x" using holds_ref_Length [OF S] S by (simp_all add: holds_ref_def)
  have ne: "Buffer S - 2 \<noteq> Buffer S" by simp
  then have "(mem(Buffer S \<mapsto> x)) (Buffer S - 2) = None" using below by simp
  then have "PhReverse_loop (Buffer S) 1 (- 1) (mem(Buffer S \<mapsto> x)) = None"
    by (subst PhReverse_loop.simps) (simp split: option.splits bind_splits)
  then show ?thesis
    using two unfolding PhReverseStringRef_def
    by (subst PhReverse_loop.simps) (simp add: write_unit_def)
qed

section \<open>Properties\<close>

text \<open>A string in memory, for concrete instances.\<close>

fun place :: "ulong64 \<Rightarrow> ushort list \<Rightarrow> memory \<Rightarrow> memory" where
  "place p [] mem = mem"
| "place p (c # cs) mem = (place (p + 2) cs mem)(p \<mapsto> c)"

definition sample :: memory where
  "sample = place 4096 [65, 59, 98, 59, 32] (place 8192 [97, 59, 66, 59, 32] (place 12288 [59, 32] (\<lambda>_. None)))"

definition sample_up :: "ushort \<Rightarrow> ushort" where
  "sample_up c = (if 97 \<le> c \<and> c \<le> 122 then c - 32 else c)"

lemma sample_refs:
  "holds_ref sample \<lparr>Length = 10, Buffer = 4096\<rparr> [65, 59, 98, 59, 32]"
  "holds_ref sample \<lparr>Length = 10, Buffer = 8192\<rparr> [97, 59, 66, 59, 32]"
  "holds_ref sample \<lparr>Length = 4, Buffer = 12288\<rparr> [59, 32]"
  by (simp_all add: holds_ref_def sample_def)

text \<open>
  Comparing two references for equality, by vector registers or by words, with or without
  case, reads only the units the references hold and says whether the folded strings are equal.
\<close>

theorem PhEqualStringRef_correct:
  assumes "holds_ref mem String1 xs" "holds_ref mem String2 ys"
  shows "PhEqualStringRef vec up mem String1 String2 IgnoreCase
    = Some (folded up IgnoreCase xs = folded up IgnoreCase ys)"
  using assms by (rule equal_ref_folded)

lemma PhEqualStringRef_correct_witness:
  "PhEqualStringRef True sample_up sample \<lparr>Length = 10, Buffer = 4096\<rparr> \<lparr>Length = 10, Buffer = 8192\<rparr> True = Some True"
  using PhEqualStringRef_correct [OF sample_refs(1,2), of True sample_up True]
  by (simp add: sample_up_def)

text \<open>
  The sign of the comparison of two references is the lexicographic order of the folded
  strings, when their lengths differ by less than the 2 to the 31 bytes that a LONG can hold.
\<close>

theorem PhCompareStringRef_correct:
  assumes "holds_ref mem String1 xs" "holds_ref mem String2 ys"
    and "length xs < length ys + 2 ^ 30" "length ys < length xs + 2 ^ 30"
  shows "\<exists>d. PhCompareStringRef up mem String1 String2 IgnoreCase = Some d
    \<and> (sint d < 0 \<longleftrightarrow> folded up IgnoreCase xs < folded up IgnoreCase ys)
    \<and> (sint d = 0 \<longleftrightarrow> folded up IgnoreCase xs = folded up IgnoreCase ys)"
  by (rule compare_ref [OF assms, of up IgnoreCase]) blast

lemma PhCompareStringRef_correct_witness:
  "\<exists>d. PhCompareStringRef sample_up sample \<lparr>Length = 10, Buffer = 4096\<rparr> \<lparr>Length = 10, Buffer = 8192\<rparr> False = Some d
    \<and> sint d < 0"
  using PhCompareStringRef_correct [OF sample_refs(1,2), of sample_up False] by auto

text \<open>
  The searches for a character return the first and the last index at which it is, or -1;
  with SSE2 they read only the units of the reference.  Without SSE2 they first run the C
  library over the buffer, which ends only where a null-terminated string does.
\<close>

theorem PhFindCharInStringRef_correct:
  assumes "holds_ref mem String xs"
    and "vec \<or> IgnoreCase \<or> terminated mem (Buffer String) \<and> terminated mem (Buffer String + Length String)"
  shows "PhFindCharInStringRef vec up mem String c IgnoreCase
      = Some (first_unit (\<lambda>x. if IgnoreCase then up x = up c else x = c) xs)
    \<and> PhFindLastCharInStringRef vec up mem String c IgnoreCase
      = Some (last_unit (\<lambda>x. if IgnoreCase then up x = up c else x = c) xs)"
  using find_char [OF assms(1), of vec IgnoreCase up c] find_last_char [OF assms(1), of vec IgnoreCase up c] assms(2)
  by blast

lemma PhFindCharInStringRef_correct_witness:
  "PhFindCharInStringRef True sample_up sample \<lparr>Length = 10, Buffer = 4096\<rparr> 59 False = Some 1
   \<and> PhFindLastCharInStringRef True sample_up sample \<lparr>Length = 10, Buffer = 4096\<rparr> 59 False = Some 3"
  using PhFindCharInStringRef_correct [OF sample_refs(1), of True False sample_up 59]
  by (simp add: first_unit_def last_unit_def)

text \<open>
  C16.  The search for a string returns the first index at which it occurs, case folded when
  asked, or -1, and reads only the units of the two references.
\<close>

theorem PhFindStringInStringRef_correct:
  assumes "holds_ref mem String xs" "holds_ref mem SubString ys"
  shows "PhFindStringInStringRef vec up mem String SubString IgnoreCase
    = Some (first_sub (folded up IgnoreCase ys) (folded up IgnoreCase xs))"
  using assms by (rule find_string)

lemma PhFindStringInStringRef_correct_witness:
  "PhFindStringInStringRef True sample_up sample \<lparr>Length = 10, Buffer = 4096\<rparr> \<lparr>Length = 4, Buffer = 12288\<rparr> False = Some 3"
  using PhFindStringInStringRef_correct [OF sample_refs(1,3), of True sample_up False]
  by (simp add: first_sub_def folded_def upt_rec)

text \<open>
  Counting a null-terminated string in aligned blocks of sixteen bytes, which read beyond
  both of its ends, gives the same count as the C library: the aligned blocks around a string in
  mapped pages are mapped.
\<close>

theorem PhCountStringZ_correct:
  assumes "mapped_blocks mem" "even (unat String)"
    and "chars_at mem String (zs @ [0])" "0 \<notin> set zs" "length zs < 2 ^ 63"
  shows "PhCountStringZ vec mem String = Some (of_nat (length zs))"
  using assms by (intro count_string) simp_all

lemma PhCountStringZ_correct_witness:
  "PhCountStringZ True (\<lambda>p. Some (if p = 0x1016 then 0 else 65)) 0x1002 = Some 10"
proof -
  let ?mem = "\<lambda>p. Some (if p = 0x1016 then 0 else 65) :: ushort option"
  have "mapped_blocks ?mem" by (simp add: mapped_blocks_def)
  moreover have "chars_at ?mem 0x1002 ([65, 65, 65, 65, 65, 65, 65, 65, 65, 65] @ [0])" by simp
  ultimately show ?thesis
    using PhCountStringZ_correct [of ?mem "0x1002" "[65, 65, 65, 65, 65, 65, 65, 65, 65, 65]" True] by simp
qed

text \<open>
  Splitting at a character set, or at its complement, from either end and with or without
  case, finds the first (last) separator and returns the parts before it, after it and of it; or
  finds none and returns the whole input and empty parts.
\<close>

theorem PhSplitStringRefEx_correct:
  assumes "holds_ref mem Input xs" "holds_ref mem Separator cs"
    and "\<not> flag Flags PH_SPLIT_AT_RANGE" "\<not> flag Flags PH_SPLIT_AT_STRING"
    and "flag Flags PH_SPLIT_CHAR_SET_IS_UPPERCASE \<longrightarrow> (\<forall>c \<in> set cs. up c = c)"
  shows "\<exists>found F G H. PhSplitStringRefEx True up mem Input Separator Flags = Some (found, F, G, H)
    \<and> (if found then \<exists>pre x post. xs = pre @ x # post \<and> separator_char up Flags cs x
           \<and> (\<forall>y \<in> set (split_from Flags pre post). \<not> separator_char up Flags cs y)
           \<and> holds_ref mem F pre \<and> holds_ref mem G post \<and> holds_ref mem H [x]
       else (\<forall>x \<in> set xs. \<not> separator_char up Flags cs x)
           \<and> F = Input \<and> holds_ref mem G [] \<and> holds_ref mem H [])"
proof -
  have none: ?thesis if "PhSplit_search True up mem Input Separator Flags = Some None"
    "\<And>x. x \<in> set xs \<Longrightarrow> \<not> separator_char up Flags cs x"
    using that by (intro exI [of _ False]) (simp add: PhSplitStringRefEx_def holds_ref_def)
  have at: ?thesis if search: "PhSplit_search True up mem Input Separator Flags = Some (Some (of_nat (length pre), 2))"
    and xs: "xs = pre @ x # post" and sep: "separator_char up Flags cs x"
      "\<And>y. y \<in> set (split_from Flags pre post) \<Longrightarrow> \<not> separator_char up Flags cs y" for pre x post
  proof -
    have "holds_ref mem Input (pre @ [x] @ post)" using assms(1) xs by simp
    note parts = holds_parts [OF this refl, of 2]
    then show ?thesis using search xs sep unfolding PhSplitStringRefEx_def by simp blast
  qed
  show ?thesis
  proof (cases "flag Flags PH_SPLIT_COMPLEMENT_CHAR_SET \<or> length cs \<noteq> 1")
    case True
    show ?thesis
      by (rule split_search_set [OF assms(1-4) True, of up]) (use assms(5) none at in blast)+
  next
    case False
    then obtain c where "cs = [c]" by (auto simp: length_Suc_conv)
    then have single: "holds_ref mem Separator [c]" and cs: "cs = [c]" using assms(2) by simp_all
    have "\<not> flag Flags PH_SPLIT_COMPLEMENT_CHAR_SET" using False by simp
    then show ?thesis
      by (rule split_search_single [OF assms(1) single assms(3,4), of up]) (use none at in \<open>unfold cs, blast\<close>)+
  qed
qed

lemma PhSplitStringRefEx_correct_witness:
  "\<exists>F G H. PhSplitStringRefEx True sample_up sample \<lparr>Length = 10, Buffer = 4096\<rparr> \<lparr>Length = 4, Buffer = 12288\<rparr> 0
     = Some (True, F, G, H) \<and> holds_ref sample F [65] \<and> holds_ref sample G [98, 59, 32] \<and> holds_ref sample H [59]"
proof -
  have flags: "\<not> flag 0 f" for f by (simp add: flag_def)
  have upper: "flag 0 PH_SPLIT_CHAR_SET_IS_UPPERCASE \<longrightarrow> (\<forall>c \<in> set [59, 32]. sample_up c = c)"
    using flags by blast
  have sep: "separator_char sample_up 0 [59, 32] x \<longleftrightarrow> x = 59 \<or> x = 32" for x
    by (simp add: separator_char_def flags)
  obtain found F G H where r: "PhSplitStringRefEx True sample_up sample \<lparr>Length = 10, Buffer = 4096\<rparr>
      \<lparr>Length = 4, Buffer = 12288\<rparr> 0 = Some (found, F, G, H)"
    and parts: "if found then \<exists>pre x post. [65, 59, 98, 59, 32] = pre @ x # post \<and> separator_char sample_up 0 [59, 32] x
           \<and> (\<forall>y \<in> set (split_from 0 pre post). \<not> separator_char sample_up 0 [59, 32] y)
           \<and> holds_ref sample F pre \<and> holds_ref sample G post \<and> holds_ref sample H [x]
       else (\<forall>x \<in> set [65, 59, 98, 59, 32]. \<not> separator_char sample_up 0 [59, 32] x)
           \<and> F = \<lparr>Length = 10, Buffer = 4096\<rparr> \<and> holds_ref sample G [] \<and> holds_ref sample H []"
    using PhSplitStringRefEx_correct [OF sample_refs(1,3) flags flags upper] by (elim exE conjE) (rule that)
  have found: found
  proof (rule ccontr)
    assume "\<not> found"
    then have "\<forall>x \<in> set [65, 59, 98, 59, 32]. \<not> separator_char sample_up 0 [59, 32] x"
      using parts by (simp only: if_False) (elim conjE)
    then show False by (simp add: sep)
  qed
  have "\<exists>pre x post. [65, 59, 98, 59, 32] = pre @ x # post \<and> separator_char sample_up 0 [59, 32] x
      \<and> (\<forall>y \<in> set (split_from 0 pre post). \<not> separator_char sample_up 0 [59, 32] y)
      \<and> holds_ref sample F pre \<and> holds_ref sample G post \<and> holds_ref sample H [x]"
    using parts found by (simp only: if_True)
  then obtain pre x post where split: "[65, 59, 98, 59, 32] = pre @ x # post" "x = 59 \<or> x = 32"
    "\<forall>y \<in> set pre. \<not> (y = 59 \<or> y = 32)" "holds_ref sample F pre" "holds_ref sample G post" "holds_ref sample H [x]"
    unfolding sep split_from_def using flags [of PH_SPLIT_START_AT_END] by (elim exE conjE) (rule that, simp_all)
  have "pre = [65] \<and> x = 59 \<and> post = [98, 59, 32]"
    using split(1-3) by (cases pre; cases "tl pre"; simp)
  then show ?thesis using r found split(4-6) by simp
qed

text \<open>
  Trimming takes the characters of the set off the ends the flags name, for strings of
  8-bit characters, for a set with a larger character and for a set of one character.  In the
  remaining case (\<open>trim_char\<close>) it also takes off the characters of which only the low byte is in
  the set.
\<close>

theorem PhTrimStringRef_correct:
  assumes "holds_ref mem String xs" "holds_ref mem CharSet cs"
  shows "(\<exists>S. PhTrimStringRef mem String CharSet Flags = Some S \<and> holds_ref mem S (trimmed (trim_char cs) Flags xs))
    \<and> ((\<forall>x \<in> set xs. x < 256) \<or> (\<exists>d \<in> set cs. 256 \<le> d) \<or> length cs = 1 \<longrightarrow>
        trimmed (trim_char cs) Flags xs = trimmed (\<lambda>x. x \<in> set cs) Flags xs)"
proof
  show "\<exists>S. PhTrimStringRef mem String CharSet Flags = Some S \<and> holds_ref mem S (trimmed (trim_char cs) Flags xs)"
    by (rule trim_string [OF assms, of Flags]) blast
  have cong: "dropWhile (trim_char cs) ys = dropWhile (\<lambda>x. x \<in> set cs) ys"
    if "(\<forall>x \<in> set ys. x < 256) \<or> (\<exists>d \<in> set cs. 256 \<le> d) \<or> length cs = 1" for ys
    using that trim_char_small [of _ cs] by (intro dropWhile_cong) auto
  show "(\<forall>x \<in> set xs. x < 256) \<or> (\<exists>d \<in> set cs. 256 \<le> d) \<or> length cs = 1 \<longrightarrow>
      trimmed (trim_char cs) Flags xs = trimmed (\<lambda>x. x \<in> set cs) Flags xs"
    using cong [of xs] cong [of "rev xs"] cong [of "rev (dropWhile (\<lambda>x. x \<in> set cs) xs)"]
    by (auto simp: trimmed_def Let_def dest: set_dropWhileD)
qed

text \<open>
  The instance: the set of tab and space takes the letter U+0120 off, whose low byte is that of
  a space.
\<close>

lemma PhTrimStringRef_correct_witness:
  "\<exists>S. PhTrimStringRef (place 4096 [0x0120, 65] (place 8192 [9, 32] (\<lambda>_. None)))
      \<lparr>Length = 4, Buffer = 4096\<rparr> \<lparr>Length = 4, Buffer = 8192\<rparr> 0 = Some S
    \<and> holds_ref (place 4096 [0x0120, 65] (place 8192 [9, 32] (\<lambda>_. None))) S [65]"
proof -
  let ?mem = "place 4096 [0x0120, 65] (place 8192 [9, 32] (\<lambda>_. None))"
  have "holds_ref ?mem \<lparr>Length = 4, Buffer = 4096\<rparr> [0x0120, 65]" "holds_ref ?mem \<lparr>Length = 4, Buffer = 8192\<rparr> [9, 32]"
    by (simp_all add: holds_ref_def)
  note trim = conjunct1 [OF PhTrimStringRef_correct [OF this, of 0]]
  have "trimmed (trim_char [9, 32]) 0 [0x0120, 65] = [65]"
    by (simp add: trimmed_def trim_char_def flag_def)
  then show ?thesis using trim by simp
qed

text \<open>
  C17.  Reversing a string of two or more characters reverses it in place and touches nothing
  else.  For an empty string and for a single character the unsigned index wraps around and the
  loop goes on outside of the buffer: where the memory below the buffer is not mapped, it faults.
\<close>

theorem PhReverseStringRef_correct:
  assumes "holds_ref mem String xs"
  shows "if 2 \<le> length xs then
      \<exists>mem'. PhReverseStringRef mem String = Some mem' \<and> holds_ref mem' String (rev xs)
        \<and> (\<forall>q. q \<notin> unit_addresses (Buffer String) (length xs) \<longrightarrow> mem' q = mem q)
    else mem (Buffer String - 2) = None \<longrightarrow> PhReverseStringRef mem String = None"
proof (cases "2 \<le> length xs")
  case True
  then show ?thesis by (rule reverse_string [OF assms]) (use True in auto)
next
  case False
  then show ?thesis using reverse_short [OF assms] by simp
qed

lemma PhReverseStringRef_correct_witness:
  "\<exists>mem. PhReverseStringRef sample \<lparr>Length = 4, Buffer = 12288\<rparr> = Some mem
    \<and> holds_ref mem \<lparr>Length = 4, Buffer = 12288\<rparr> [32, 59]"
  using PhReverseStringRef_correct [OF sample_refs(3)] by auto

end
