(* ===== verification/Unicode.thy ===== *)
theory Unicode
  imports Buffers
begin

text \<open>
  The Unicode decoder and encoder of \<open>phlib/basesup.c\<close>.  A decoder holds a short queue of
  input units and the units of the character it is in the middle of; the functions on it
  return the changed decoder, or the status they raise.  The C structure keeps the state
  of the three encodings in a union; the encoding is fixed when the decoder is initialized,
  so one member of the union is used in its life, and the record below has them side by side.
\<close>

unbundle bit_operations_syntax

section \<open>Code units\<close>

definition PH_UNICODE_UTF8 :: uchar where "PH_UNICODE_UTF8 = 0"
definition PH_UNICODE_UTF16 :: uchar where "PH_UNICODE_UTF16 = 1"
definition PH_UNICODE_UTF32 :: uchar where "PH_UNICODE_UTF32 = 2"

definition PH_UNICODE_MAX_CODE_POINT :: ulong where "PH_UNICODE_MAX_CODE_POINT = 0x10ffff"

text \<open>The two conversions to surrogates are stored in 16 bits by their users.\<close>

definition PH_UNICODE_UTF16_TO_HIGH_SURROGATE :: "ulong \<Rightarrow> ushort" where
  "PH_UNICODE_UTF16_TO_HIGH_SURROGATE CodePoint = ucast (drop_bit 10 CodePoint) + 0xd7c0"

definition PH_UNICODE_UTF16_TO_LOW_SURROGATE :: "ulong \<Rightarrow> ushort" where
  "PH_UNICODE_UTF16_TO_LOW_SURROGATE CodePoint = ucast (CodePoint AND 0x3ff) + 0xdc00"

definition PH_UNICODE_UTF16_IS_HIGH_SURROGATE :: "ulong \<Rightarrow> bool" where
  "PH_UNICODE_UTF16_IS_HIGH_SURROGATE CodeUnit \<longleftrightarrow> CodeUnit \<ge> 0xd800 \<and> CodeUnit \<le> 0xdbff"

definition PH_UNICODE_UTF16_IS_LOW_SURROGATE :: "ulong \<Rightarrow> bool" where
  "PH_UNICODE_UTF16_IS_LOW_SURROGATE CodeUnit \<longleftrightarrow> CodeUnit \<ge> 0xdc00 \<and> CodeUnit \<le> 0xdfff"

definition PH_UNICODE_UTF16_TO_CODE_POINT :: "ushort \<Rightarrow> ulong \<Rightarrow> ulong" where
  "PH_UNICODE_UTF16_TO_CODE_POINT HighSurrogate LowSurrogate =
     push_bit 10 (ucast HighSurrogate) + LowSurrogate - 0x35fdc00"

section \<open>The decoder\<close>

record unicode_decoder =
  Encoding :: uchar
  State :: uchar
  InputCount :: uchar
  Utf8_Input :: "uchar list"
  Utf8_CodeUnit1 :: uchar
  Utf8_CodeUnit2 :: uchar
  Utf8_CodeUnit3 :: uchar
  Utf8_CodeUnit4 :: uchar
  Utf16_Input :: "ushort list"
  Utf16_CodeUnit :: ushort
  Utf32_Input :: ulong

definition PhInitializeUnicodeDecoder :: "uchar \<Rightarrow> unicode_decoder" where
  "PhInitializeUnicodeDecoder Encoding' =
     \<lparr>Encoding = Encoding', State = 0, InputCount = 0, Utf8_Input = [0, 0, 0, 0],
      Utf8_CodeUnit1 = 0, Utf8_CodeUnit2 = 0, Utf8_CodeUnit3 = 0, Utf8_CodeUnit4 = 0,
      Utf16_Input = [0, 0], Utf16_CodeUnit = 0, Utf32_Input = 0\<rparr>"

definition PhWriteUnicodeDecoder ::
  "unicode_decoder \<Rightarrow> ulong \<Rightarrow> ph_error + bool \<times> unicode_decoder" where
  "PhWriteUnicodeDecoder D CodeUnit = (
     if Encoding D = PH_UNICODE_UTF8 then
       if InputCount D \<ge> 4 then Inr (False, D)
       else Inr (True, D\<lparr>Utf8_Input := (Utf8_Input D)[unat (InputCount D) := ucast CodeUnit],
              InputCount := InputCount D + 1\<rparr>)
     else if Encoding D = PH_UNICODE_UTF16 then
       if InputCount D \<ge> 2 then Inr (False, D)
       else Inr (True, D\<lparr>Utf16_Input := (Utf16_Input D)[unat (InputCount D) := ucast CodeUnit],
              InputCount := InputCount D + 1\<rparr>)
     else if Encoding D = PH_UNICODE_UTF32 then
       if InputCount D \<ge> 1 then Inr (False, D)
       else Inr (True, D\<lparr>Utf32_Input := CodeUnit, InputCount := 1\<rparr>)
     else Inl STATUS_UNSUCCESSFUL)"

definition PhpReadUnicodeDecoder ::
  "unicode_decoder \<Rightarrow> ph_error + ulong option \<times> unicode_decoder" where
  "PhpReadUnicodeDecoder D = (
     if Encoding D = PH_UNICODE_UTF8 then
       if InputCount D = 0 then Inr (None, D)
       else let xs = Utf8_Input D in
         Inr (Some (ucast (xs ! 0)),
              D\<lparr>Utf8_Input := xs[0 := xs ! 1, 1 := xs ! 2, 2 := xs ! 3], InputCount := InputCount D - 1\<rparr>)
     else if Encoding D = PH_UNICODE_UTF16 then
       if InputCount D = 0 then Inr (None, D)
       else let xs = Utf16_Input D in
         Inr (Some (ucast (xs ! 0)), D\<lparr>Utf16_Input := xs[0 := xs ! 1], InputCount := InputCount D - 1\<rparr>)
     else if Encoding D = PH_UNICODE_UTF32 then
       if InputCount D = 0 then Inr (None, D)
       else Inr (Some (Utf32_Input D), D\<lparr>InputCount := InputCount D - 1\<rparr>)
     else Inl STATUS_UNSUCCESSFUL)"

definition PhpUnreadUnicodeDecoder :: "unicode_decoder \<Rightarrow> ulong \<Rightarrow> ph_error + unicode_decoder" where
  "PhpUnreadUnicodeDecoder D CodeUnit = (
     if Encoding D = PH_UNICODE_UTF8 then
       if InputCount D \<ge> 4 then Inl STATUS_UNSUCCESSFUL
       else let xs = Utf8_Input D in
         Inr (D\<lparr>Utf8_Input := xs[3 := xs ! 2, 2 := xs ! 1, 1 := xs ! 0, 0 := ucast CodeUnit],
                InputCount := InputCount D + 1\<rparr>)
     else if Encoding D = PH_UNICODE_UTF16 then
       if InputCount D \<ge> 2 then Inl STATUS_UNSUCCESSFUL
       else let xs = Utf16_Input D in
         Inr (D\<lparr>Utf16_Input := xs[1 := xs ! 0, 0 := ucast CodeUnit], InputCount := InputCount D + 1\<rparr>)
     else if Encoding D = PH_UNICODE_UTF32 then
       if InputCount D \<ge> 1 then Inl STATUS_UNSUCCESSFUL
       else Inr (D\<lparr>Utf32_Input := CodeUnit, InputCount := 1\<rparr>)
     else Inl STATUS_UNSUCCESSFUL)"

definition PhpDecodeUtf8Error ::
  "unicode_decoder \<Rightarrow> nat \<Rightarrow> ph_error + ulong \<times> unicode_decoder" where
  "PhpDecodeUtf8Error D Which =
     ebind (if Which \<ge> 4 then PhpUnreadUnicodeDecoder D (ucast (Utf8_CodeUnit4 D)) else Inr D) (\<lambda>D.
     ebind (if Which \<ge> 3 then PhpUnreadUnicodeDecoder D (ucast (Utf8_CodeUnit3 D)) else Inr D) (\<lambda>D.
     ebind (if Which \<ge> 2 then PhpUnreadUnicodeDecoder D (ucast (Utf8_CodeUnit2 D)) else Inr D) (\<lambda>D.
     Inr (ucast (Utf8_CodeUnit1 D) + 0xdc00, D\<lparr>State := 0\<rparr>))))"

text \<open>
  One turn of the decoding loop: it either goes round again or returns, with or without a
  code point.
\<close>

datatype decode_outcome = Continue | Return "ulong option"

definition decode_error :: "unicode_decoder \<Rightarrow> nat \<Rightarrow> ph_error + decode_outcome \<times> unicode_decoder" where
  "decode_error D Which = ebind (PhpDecodeUtf8Error D Which) (\<lambda>(cp, D). Inr (Return (Some cp), D))"

definition is_tail :: "ulong \<Rightarrow> bool" where
  "is_tail codeUnit \<longleftrightarrow> codeUnit AND 0xc0 = 0x80"

definition PhDecodeUtf8_state0 ::
  "unicode_decoder \<Rightarrow> ulong \<Rightarrow> ph_error + decode_outcome \<times> unicode_decoder" where
  "PhDecodeUtf8_state0 D codeUnit = (
     let D = D\<lparr>Utf8_CodeUnit1 := ucast codeUnit\<rparr> in
     if codeUnit < 0x80 then Inr (Return (Some codeUnit), D)
     else if codeUnit < 0xc2 then decode_error D 1
     else if codeUnit < 0xe0 then Inr (Continue, D\<lparr>State := 1\<rparr>)
     else if codeUnit < 0xf0 then Inr (Continue, D\<lparr>State := 2\<rparr>)
     else if codeUnit < 0xf5 then Inr (Continue, D\<lparr>State := 3\<rparr>)
     else decode_error D 1)"

definition PhDecodeUtf8_switch ::
  "unicode_decoder \<Rightarrow> ulong \<Rightarrow> ph_error + decode_outcome \<times> unicode_decoder" where
  "PhDecodeUtf8_switch D codeUnit = (
     if State D = 0 then PhDecodeUtf8_state0 D codeUnit
     else if State D = 1 then
       let D = D\<lparr>Utf8_CodeUnit2 := ucast codeUnit\<rparr> in
       if is_tail codeUnit then
         Inr (Return (Some (push_bit 6 (ucast (Utf8_CodeUnit1 D)) + codeUnit - 0x3080)), D\<lparr>State := 0\<rparr>)
       else decode_error D 2
     else if State D = 2 then
       let D = D\<lparr>Utf8_CodeUnit2 := ucast codeUnit\<rparr> in
       if is_tail codeUnit \<and> (Utf8_CodeUnit1 D \<noteq> 0xe0 \<or> codeUnit \<ge> 0xa0) then
         Inr (Continue, D\<lparr>State := 4\<rparr>)
       else decode_error D 2
     else if State D = 3 then
       let D = D\<lparr>Utf8_CodeUnit2 := ucast codeUnit\<rparr> in
       if is_tail codeUnit \<and> (Utf8_CodeUnit1 D \<noteq> 0xf0 \<or> codeUnit \<ge> 0x90)
          \<and> (Utf8_CodeUnit1 D \<noteq> 0xf4 \<or> codeUnit < 0x90) then
         Inr (Continue, D\<lparr>State := 5\<rparr>)
       else decode_error D 2
     else if State D = 4 then
       let D = D\<lparr>Utf8_CodeUnit3 := ucast codeUnit\<rparr> in
       if is_tail codeUnit then
         Inr (Return (Some (push_bit 12 (ucast (Utf8_CodeUnit1 D))
              + push_bit 6 (ucast (Utf8_CodeUnit2 D)) + codeUnit - 0xe2080)), D\<lparr>State := 0\<rparr>)
       else decode_error D 3
     else if State D = 5 then
       let D = D\<lparr>Utf8_CodeUnit3 := ucast codeUnit\<rparr> in
       if is_tail codeUnit then Inr (Continue, D\<lparr>State := 6\<rparr>)
       else decode_error D 3
     else if State D = 6 then
       let D = D\<lparr>Utf8_CodeUnit4 := ucast codeUnit\<rparr> in
       if is_tail codeUnit then
         Inr (Return (Some (push_bit 18 (ucast (Utf8_CodeUnit1 D))
              + push_bit 12 (ucast (Utf8_CodeUnit2 D)) + push_bit 6 (ucast (Utf8_CodeUnit3 D))
              + codeUnit - 0x3c82080)), D\<lparr>State := 0\<rparr>)
       else decode_error D 4
     else Inr (Return None, D))"

definition PhDecodeUtf16_switch ::
  "unicode_decoder \<Rightarrow> ulong \<Rightarrow> ph_error + decode_outcome \<times> unicode_decoder" where
  "PhDecodeUtf16_switch D codeUnit = (
     if State D = 0 then
       if PH_UNICODE_UTF16_IS_HIGH_SURROGATE codeUnit then
         Inr (Continue, D\<lparr>Utf16_CodeUnit := ucast codeUnit, State := 1\<rparr>)
       else Inr (Return (Some codeUnit), D)
     else if State D = 1 then
       if PH_UNICODE_UTF16_IS_LOW_SURROGATE codeUnit then
         Inr (Return (Some (PH_UNICODE_UTF16_TO_CODE_POINT (Utf16_CodeUnit D) codeUnit)), D\<lparr>State := 0\<rparr>)
       else
         ebind (PhpUnreadUnicodeDecoder D codeUnit) (\<lambda>E.
           Inr (Return (Some (ucast (Utf16_CodeUnit D))), E\<lparr>State := 0\<rparr>))
     else Inr (Return None, D))"

definition PhDecodeUnicode_turn ::
  "unicode_decoder \<Rightarrow> ph_error + decode_outcome \<times> unicode_decoder" where
  "PhDecodeUnicode_turn D = (
     if Encoding D = PH_UNICODE_UTF8 then
       ebind (PhpReadUnicodeDecoder D) (\<lambda>(r, D).
         case r of None \<Rightarrow> Inr (Return None, D) | Some codeUnit \<Rightarrow> PhDecodeUtf8_switch D codeUnit)
     else if Encoding D = PH_UNICODE_UTF16 then
       ebind (PhpReadUnicodeDecoder D) (\<lambda>(r, D).
         case r of None \<Rightarrow> Inr (Return None, D) | Some codeUnit \<Rightarrow> PhDecodeUtf16_switch D codeUnit)
     else if Encoding D = PH_UNICODE_UTF32 then
       ebind (PhpReadUnicodeDecoder D) (\<lambda>(r, D). Inr (Return r, D))
     else Inr (Return None, D))"

subsection \<open>The loop ends\<close>

text \<open>The units of the character in progress, by the state, and those still queued.\<close>

definition held_count :: "unicode_decoder \<Rightarrow> nat" where
  "held_count D = (
     if Encoding D = PH_UNICODE_UTF8 then
       if State D = 1 \<or> State D = 2 \<or> State D = 3 then 1
       else if State D = 4 \<or> State D = 5 then 2 else if State D = 6 then 3 else 0
     else if Encoding D = PH_UNICODE_UTF16 then if State D = 1 then 1 else 0
     else 0)"

definition unit_count :: "unicode_decoder \<Rightarrow> nat" where
  "unit_count D = held_count D + unat (InputCount D)"

named_theorems encodings

lemma encoding_distinct [encodings]:
  "PH_UNICODE_UTF8 \<noteq> PH_UNICODE_UTF16" "PH_UNICODE_UTF8 \<noteq> PH_UNICODE_UTF32"
  "PH_UNICODE_UTF16 \<noteq> PH_UNICODE_UTF8" "PH_UNICODE_UTF16 \<noteq> PH_UNICODE_UTF32"
  by (simp_all add: PH_UNICODE_UTF8_def PH_UNICODE_UTF16_def PH_UNICODE_UTF32_def)

lemma read_count:
  assumes "PhpReadUnicodeDecoder D = Inr (Some c, D')"
  shows "Encoding D' = Encoding D \<and> State D' = State D \<and> Suc (unat (InputCount D')) = unat (InputCount D)"
proof -
  have "InputCount D \<noteq> 0" "InputCount D' = InputCount D - 1" "Encoding D' = Encoding D" "State D' = State D"
    using assms by (auto simp: PhpReadUnicodeDecoder_def Let_def split: if_splits)
  then show ?thesis by (simp add: unat_minus_one unat_gt_0)
qed

lemma read_None:
  "PhpReadUnicodeDecoder D = Inr (None, D') \<Longrightarrow> D' = D"
  by (auto simp: PhpReadUnicodeDecoder_def Let_def split: if_splits)

lemma word_less_1: "Suc 0 \<le> unat (x :: 'a::len word) \<longleftrightarrow> x \<noteq> 0"
  by (metis One_nat_def Suc_leI not_less_eq_eq unat_eq_0 unat_gt_0 le_zero_eq)

lemma unread_count:
  assumes "PhpUnreadUnicodeDecoder D c = Inr D'"
  shows "Encoding D' = Encoding D \<and> State D' = State D \<and> unat (InputCount D') = Suc (unat (InputCount D))"
proof -
  have "InputCount D' = InputCount D + 1 \<and> unat (InputCount D) < 4"
    using assms by (auto simp: PhpUnreadUnicodeDecoder_def Let_def word_le_nat_alt word_less_1 split: if_splits)
  moreover from this have "unat (InputCount D + 1) = Suc (unat (InputCount D))"
    by (intro unat_inc [of _ 255]) (simp add: word_less_nat_alt)
  moreover have "Encoding D' = Encoding D" "State D' = State D"
    using assms by (auto simp: PhpUnreadUnicodeDecoder_def Let_def split: if_splits)
  ultimately show ?thesis by simp
qed

lemma error_count:
  assumes "PhpDecodeUtf8Error D w = Inr (cp, D')"
  shows "Encoding D' = Encoding D \<and> State D' = 0 \<and> unat (InputCount D') \<le> unat (InputCount D) + (w - 1)"
proof -
  obtain D4 D3 D2 where
    "(if w \<ge> 4 then PhpUnreadUnicodeDecoder D (ucast (Utf8_CodeUnit4 D)) else Inr D) = Inr D4"
    "(if w \<ge> 3 then PhpUnreadUnicodeDecoder D4 (ucast (Utf8_CodeUnit3 D4)) else Inr D4) = Inr D3"
    "(if w \<ge> 2 then PhpUnreadUnicodeDecoder D3 (ucast (Utf8_CodeUnit2 D3)) else Inr D3) = Inr D2"
    "D' = D2\<lparr>State := 0\<rparr>"
    using assms by (auto simp: PhpDecodeUtf8Error_def ebind_def split: sum.splits)
  then show ?thesis
    by (auto split: if_splits dest!: unread_count)
qed

lemma decode_error_count:
  assumes "decode_error D w = Inr (r, D')" "Encoding D = PH_UNICODE_UTF8"
  shows "\<exists>cp. r = Return (Some cp) \<and> unit_count D' \<le> unat (InputCount D) + (w - 1)"
proof -
  obtain cp where cp: "PhpDecodeUtf8Error D w = Inr (cp, D')" "r = Return (Some cp)"
    using assms(1) by (cases "PhpDecodeUtf8Error D w") (auto simp: decode_error_def)
  from error_count [OF cp(1)] show ?thesis
    by (simp add: cp(2) unit_count_def held_count_def)
qed

lemma read_unit_count:
  "PhpReadUnicodeDecoder D = Inr (Some c, E) \<Longrightarrow>
    unit_count D = Suc (unit_count E) \<and> unat (InputCount E) < unat (InputCount D) \<and> Encoding E = Encoding D"
  by (drule read_count) (simp add: unit_count_def held_count_def)

named_theorems switches

lemmas [switches] = PhDecodeUtf8_switch_def PhDecodeUtf8_state0_def PhDecodeUtf16_switch_def Let_def

lemma utf8_switch_count:
  assumes "PhDecodeUtf8_switch D c = Inr (r, D')" "Encoding D = PH_UNICODE_UTF8"
  shows "case r of Continue \<Rightarrow> InputCount D' = InputCount D \<and> unit_count D' \<le> Suc (unit_count D)
    | Return None \<Rightarrow> D' = D
    | Return (Some cp) \<Rightarrow> unit_count D' \<le> unit_count D"
proof -
  consider "State D = 0" | "State D = 1" | "State D = 2" | "State D = 3" | "State D = 4" | "State D = 5"
    | "State D = 6" | "State D \<notin> {0, 1, 2, 3, 4, 5, 6}" by blast
  then show ?thesis
    by cases
      (use assms in \<open>auto simp: switches unit_count_def [of "D :: unicode_decoder"] held_count_def [of D]
        split: if_splits dest!: decode_error_count\<close>,
       simp_all add: unit_count_def held_count_def)
qed

lemma utf16_switch_count:
  assumes "PhDecodeUtf16_switch D c = Inr (r, D')" "Encoding D = PH_UNICODE_UTF16"
  shows "case r of Continue \<Rightarrow> InputCount D' = InputCount D \<and> unit_count D' \<le> Suc (unit_count D)
    | Return None \<Rightarrow> D' = D
    | Return (Some cp) \<Rightarrow> unit_count D' \<le> unit_count D"
proof -
  consider "State D = 0" | "State D = 1" | "State D \<notin> {0, 1}" by blast
  then show ?thesis
    by cases
      (use assms in \<open>auto simp: switches unit_count_def held_count_def ebind_def encodings
        split: if_splits sum.splits dest!: unread_count\<close>)
qed

lemma turn_count:
  assumes "PhDecodeUnicode_turn D = Inr (r, D')"
  shows "case r of Continue \<Rightarrow> unat (InputCount D') < unat (InputCount D) \<and> unit_count D' \<le> unit_count D
    | Return None \<Rightarrow> unit_count D' \<le> unit_count D
    | Return (Some cp) \<Rightarrow> unit_count D' < unit_count D"
proof -
  have none: "PhpReadUnicodeDecoder D = Inr (None, E) \<Longrightarrow> unit_count E = unit_count D" for E
    by (auto dest: read_None)
  consider (none) E where "PhpReadUnicodeDecoder D = Inr (None, E)" "r = Return None" "D' = E"
    | (utf8) c E where "Encoding D = PH_UNICODE_UTF8" "PhpReadUnicodeDecoder D = Inr (Some c, E)"
        "PhDecodeUtf8_switch E c = Inr (r, D')"
    | (utf16) c E where "Encoding D = PH_UNICODE_UTF16" "PhpReadUnicodeDecoder D = Inr (Some c, E)"
        "PhDecodeUtf16_switch E c = Inr (r, D')"
    | (utf32) c where "PhpReadUnicodeDecoder D = Inr (Some c, D')" "r = Return (Some c)"
    | (other) "r = Return None" "D' = D"
    using assms
    by (cases "PhpReadUnicodeDecoder D"; cases "fst (projr (PhpReadUnicodeDecoder D))")
       (auto simp: PhDecodeUnicode_turn_def split: if_splits)
  then show ?thesis
  proof cases
    case utf8
    then show ?thesis
      using utf8_switch_count [OF utf8(3)] read_unit_count [OF utf8(2)]
      by (auto split: decode_outcome.splits option.splits)
  next
    case utf16
    then show ?thesis
      using utf16_switch_count [OF utf16(3)] read_unit_count [OF utf16(2)]
      by (auto split: decode_outcome.splits option.splits)
  next
    case (utf32 c)
    then show ?thesis using read_unit_count [OF utf32(1)] by simp
  qed (auto dest: none)
qed

function PhDecodeUnicodeDecoder :: "unicode_decoder \<Rightarrow> ph_error + ulong option \<times> unicode_decoder" where
  "PhDecodeUnicodeDecoder D = (case PhDecodeUnicode_turn D of
     Inl e \<Rightarrow> Inl e
   | Inr (Continue, D) \<Rightarrow> PhDecodeUnicodeDecoder D
   | Inr (Return r, D) \<Rightarrow> Inr (r, D))"
  by auto
termination
  by (relation "measure (\<lambda>D. unat (InputCount D))") (auto dest: turn_count)

declare PhDecodeUnicodeDecoder.simps [simp del]

lemma decode_count:
  "PhDecodeUnicodeDecoder D = Inr (Some cp, D') \<Longrightarrow> unit_count D' < unit_count D"
proof (induction D rule: PhDecodeUnicodeDecoder.induct)
  case (1 D)
  show ?case
  proof (cases "PhDecodeUnicode_turn D")
    case (Inl e)
    then show ?thesis using 1(2) by (simp add: PhDecodeUnicodeDecoder.simps [of D])
  next
    case (Inr rD)
    then obtain r E where turn: "PhDecodeUnicode_turn D = Inr (r, E)" by (cases rD) simp
    show ?thesis
    proof (cases r)
      case Continue
      then have "unit_count D' < unit_count E"
        using 1(1) [OF turn refl] 1(2) turn by (simp add: PhDecodeUnicodeDecoder.simps [of D])
      then show ?thesis using turn_count [OF turn] Continue by simp
    next
      case (Return q)
      then show ?thesis
        using turn_count [OF turn] 1(2) turn by (simp add: PhDecodeUnicodeDecoder.simps [of D])
    qed
  qed
qed

section \<open>The encoder\<close>

text \<open>
  The code units are the values stored, each at the width of its encoding; their number is
  the number the C function gives out, also when it is called without a buffer.
\<close>

definition PhEncodeUnicode :: "uchar \<Rightarrow> ulong \<Rightarrow> ulong list option" where
  "PhEncodeUnicode Encoding' CodePoint = (
     if Encoding' = PH_UNICODE_UTF8 then
       if CodePoint < 0x80 then Some (map ucast [ucast CodePoint :: uchar])
       else if CodePoint \<le> 0x7ff then
         Some (map ucast [ucast (drop_bit 6 CodePoint) + 0xc0, ucast (CodePoint AND 0x3f) + 0x80 :: uchar])
       else if CodePoint \<le> 0xffff then
         Some (map ucast [ucast (drop_bit 12 CodePoint) + 0xe0, ucast (drop_bit 6 CodePoint AND 0x3f) + 0x80,
           ucast (CodePoint AND 0x3f) + 0x80 :: uchar])
       else if CodePoint \<le> PH_UNICODE_MAX_CODE_POINT then
         Some (map ucast [ucast (drop_bit 18 CodePoint) + 0xf0, ucast (drop_bit 12 CodePoint AND 0x3f) + 0x80,
           ucast (drop_bit 6 CodePoint AND 0x3f) + 0x80, ucast (CodePoint AND 0x3f) + 0x80 :: uchar])
       else None
     else if Encoding' = PH_UNICODE_UTF16 then
       if CodePoint < 0x10000 then Some (map ucast [ucast CodePoint :: ushort])
       else if CodePoint \<le> PH_UNICODE_MAX_CODE_POINT then
         Some (map ucast [PH_UNICODE_UTF16_TO_HIGH_SURROGATE CodePoint,
           PH_UNICODE_UTF16_TO_LOW_SURROGATE CodePoint])
       else None
     else if Encoding' = PH_UNICODE_UTF32 then Some [CodePoint]
     else None)"

section \<open>Conversions of whole strings\<close>

text \<open>
  \<open>while (PhDecodeUnicodeDecoder(&decoder, &codePoint)) body\<close>, and the loop around it that
  writes one input unit at a time; \<open>body\<close> changes the variables of the conversion.
\<close>

function decode_while ::
  "(ulong \<Rightarrow> 's \<Rightarrow> 's) \<Rightarrow> unicode_decoder \<Rightarrow> 's \<Rightarrow> ph_error + 's \<times> unicode_decoder" where
  "decode_while body D s = (case PhDecodeUnicodeDecoder D of
     Inl e \<Rightarrow> Inl e
   | Inr (None, D) \<Rightarrow> Inr (s, D)
   | Inr (Some codePoint, D) \<Rightarrow> decode_while body D (body codePoint s))"
  by auto
termination
  by (relation "measure (\<lambda>(b, D, s). unit_count D)") (auto dest: decode_count)

declare decode_while.simps [simp del]

fun convert_while ::
  "(ulong \<Rightarrow> 's \<Rightarrow> 's) \<Rightarrow> ulong list \<Rightarrow> unicode_decoder \<Rightarrow> 's \<Rightarrow> ph_error + 's \<times> unicode_decoder" where
  "convert_while body [] D s = Inr (s, D)"
| "convert_while body (u # us) D s =
     ebind (PhWriteUnicodeDecoder D u) (\<lambda>(_, D).
     ebind (decode_while body D s) (\<lambda>(s, D). convert_while body us D s))"

text \<open>
  The conversions between UTF-8 and UTF-16, in the portable branch of each function (the
  build can replace their loops by calls of the system).  The variables of a conversion are
  its result, the units written, the room left and the number of bytes counted.
\<close>

record 'u conversion =
  conv_result :: bool
  conv_out :: "'u list"
  conv_remaining :: ulong64
  conv_bytes :: ulong64

definition size_body :: "uchar \<Rightarrow> ulong64 \<Rightarrow> ulong \<Rightarrow> bool \<times> ulong64 \<Rightarrow> bool \<times> ulong64" where
  "size_body Encoding' unit_size codePoint s = (case PhEncodeUnicode Encoding' codePoint of
     Some codeUnits \<Rightarrow> (fst s, snd s + of_nat (length codeUnits) * unit_size)
   | None \<Rightarrow> (False, snd s))"

definition buffer_body ::
  "uchar \<Rightarrow> ulong64 \<Rightarrow> ulong \<Rightarrow> 'u::len word conversion \<Rightarrow> 'u word conversion" where
  "buffer_body Encoding' unit_size codePoint c = (case PhEncodeUnicode Encoding' codePoint of
     Some codeUnits \<Rightarrow>
       let n = of_nat (length codeUnits); c = c\<lparr>conv_bytes := conv_bytes c + n * unit_size\<rparr> in
       if conv_remaining c \<ge> n then
         c\<lparr>conv_out := conv_out c @ map ucast codeUnits, conv_remaining := conv_remaining c - n\<rparr>
       else c\<lparr>conv_result := False\<rparr>
   | None \<Rightarrow> c\<lparr>conv_result := False\<rparr>)"

definition PhConvertUtf8ToUtf16Size :: "uchar list \<Rightarrow> ph_error + bool \<times> ulong64" where
  "PhConvertUtf8ToUtf16Size Utf8String =
     ebind (convert_while (size_body PH_UNICODE_UTF16 2) (map ucast Utf8String)
       (PhInitializeUnicodeDecoder PH_UNICODE_UTF8) (True, 0)) (\<lambda>(s, _). Inr s)"

definition PhConvertUtf8ToUtf16Buffer ::
  "ulong64 \<Rightarrow> uchar list \<Rightarrow> ph_error + ushort conversion" where
  "PhConvertUtf8ToUtf16Buffer MaxBytesInUtf16String Utf8String =
     ebind (convert_while (buffer_body PH_UNICODE_UTF16 2) (map ucast Utf8String)
       (PhInitializeUnicodeDecoder PH_UNICODE_UTF8)
       \<lparr>conv_result = True, conv_out = [], conv_remaining = MaxBytesInUtf16String div 2, conv_bytes = 0\<rparr>)
     (\<lambda>(s, _). Inr s)"

text \<open>The string that is returned: its length in bytes and the units in it.\<close>

definition PhConvertUtf8ToUtf16Ex :: "uchar list \<Rightarrow> ph_error + (ulong64 \<times> ushort list) option" where
  "PhConvertUtf8ToUtf16Ex Buffer =
     ebind (PhConvertUtf8ToUtf16Size Buffer) (\<lambda>(ok, utf16Bytes).
       if \<not> ok then Inr None
       else ebind (PhConvertUtf8ToUtf16Buffer utf16Bytes Buffer) (\<lambda>c.
         if \<not> conv_result c then Inr None else Inr (Some (utf16Bytes, conv_out c))))"

definition PhConvertUtf16ToUtf8Size :: "ushort list \<Rightarrow> ph_error + bool \<times> ulong64" where
  "PhConvertUtf16ToUtf8Size Utf16String =
     ebind (convert_while (size_body PH_UNICODE_UTF8 1) (map ucast Utf16String)
       (PhInitializeUnicodeDecoder PH_UNICODE_UTF16) (True, 0)) (\<lambda>(s, _). Inr s)"

definition PhConvertUtf16ToUtf8Buffer ::
  "ulong64 \<Rightarrow> ushort list \<Rightarrow> ph_error + uchar conversion" where
  "PhConvertUtf16ToUtf8Buffer MaxBytesInUtf8String Utf16String =
     ebind (convert_while (buffer_body PH_UNICODE_UTF8 1) (map ucast Utf16String)
       (PhInitializeUnicodeDecoder PH_UNICODE_UTF16)
       \<lparr>conv_result = True, conv_out = [], conv_remaining = MaxBytesInUtf8String, conv_bytes = 0\<rparr>)
     (\<lambda>(s, _). Inr s)"

definition PhConvertUtf16ToUtf8Ex :: "ushort list \<Rightarrow> ph_error + (ulong64 \<times> uchar list) option" where
  "PhConvertUtf16ToUtf8Ex Buffer =
     ebind (PhConvertUtf16ToUtf8Size Buffer) (\<lambda>(ok, utf8Bytes).
       if \<not> ok then Inr None
       else ebind (PhConvertUtf16ToUtf8Buffer utf8Bytes Buffer) (\<lambda>c.
         if \<not> conv_result c then Inr None else Inr (Some (utf8Bytes, conv_out c))))"

text \<open>To ASCII; the bytes written and the length set are in the result.\<close>

definition ascii_body :: "uchar \<Rightarrow> ulong \<Rightarrow> uchar list \<times> ulong64 \<Rightarrow> uchar list \<times> ulong64" where
  "ascii_body Replacement codePoint s = (
     if codePoint < 0x80 then (fst s @ [ucast codePoint], snd s + 1)
     else if Replacement \<noteq> 0 then (fst s @ [Replacement], snd s + 1)
     else s)"

definition PhConvertUtf16ToAsciiEx :: "ushort list \<Rightarrow> uchar \<Rightarrow> ph_error + uchar list \<times> ulong64" where
  "PhConvertUtf16ToAsciiEx Buffer Replacement =
     ebind (convert_while (ascii_body Replacement) (map ucast Buffer)
       (PhInitializeUnicodeDecoder PH_UNICODE_UTF16) ([], 0)) (\<lambda>(s, _). Inr s)"

text \<open>
  From ASCII, four bytes at a time and then the rest.  The pointers are the bytes still to be
  read and the units already written; reading past the input has no value.
\<close>

fun PhZeroExtend_loop ::
  "uchar list \<Rightarrow> ulong64 \<Rightarrow> ushort list \<Rightarrow> (uchar list \<times> ushort list) option" where
  "PhZeroExtend_loop (a # b # c # d # Input) inputLength Output = (
     let Output = Output @ [ucast a, ucast b, ucast c, ucast d]; inputLength = inputLength - 4 in
     if inputLength \<noteq> 0 then PhZeroExtend_loop Input inputLength Output else Some (Input, Output))"
| "PhZeroExtend_loop _ _ _ = None"

fun zero_extend_one :: "uchar list \<times> ushort list \<Rightarrow> (uchar list \<times> ushort list) option" where
  "zero_extend_one (a # Input, Output) = Some (Input, Output @ [ucast a])"
| "zero_extend_one ([], Output) = None"

definition PhZeroExtendToUtf16Buffer :: "uchar list \<Rightarrow> ulong64 \<Rightarrow> ushort list option" where
  "PhZeroExtendToUtf16Buffer Input InputLength = do {
     let inputLength = InputLength AND - 4;
     p \<leftarrow> if inputLength \<noteq> 0 then PhZeroExtend_loop Input inputLength [] else Some (Input, []);
     p \<leftarrow> if InputLength AND 3 = 3 then zero_extend_one p else Some p;
     p \<leftarrow> if InputLength AND 3 = 3 \<or> InputLength AND 3 = 2 then zero_extend_one p else Some p;
     p \<leftarrow> if InputLength AND 3 \<noteq> 0 then zero_extend_one p else Some p;
     Some (snd p)
   }"

end
