(* ===== verification/Decoding.thy ===== *)
theory Decoding
  imports Unicode
begin

text \<open>
  What the conversions need of a decoder, as an interface.  \<open>first\<close> is the specification of
  one character at the front of a string of code units, \<open>chars\<close> of a whole string, and
  \<open>rep D h q\<close> says that the decoder \<open>D\<close> holds the units \<open>h\<close> of an unfinished character and
  has the units \<open>q\<close> queued.  The loops of the conversions are proved here once, and the
  theories of the two encodings interpret the interface.
\<close>

lemma unat_widen:
  "LENGTH('a) \<le> LENGTH('b) \<Longrightarrow> unat (ucast (c :: 'a::len word) :: 'b::len word) = unat c"
proof -
  assume "LENGTH('a) \<le> LENGTH('b)"
  then have "(2 :: nat) ^ LENGTH('a) \<le> 2 ^ LENGTH('b)" by (rule power_increasing) simp
  then have "unat c < 2 ^ LENGTH('b)" by (rule order.strict_trans2 [OF unsigned_less])
  then show ?thesis by (simp add: unsigned_ucast_eq take_bit_nat_eq_self)
qed

lemma unat_units [simp]:
  "unat (ucast (c :: uchar) :: ulong) = unat c" "unat (ucast (d :: ushort) :: ulong) = unat d"
  by (simp_all add: unat_widen)

lemma unit_through_ulong [simp]:
  "ucast (ucast (c :: uchar) :: ulong) = c" "ucast (ucast (d :: ushort) :: ulong) = d"
  by (rule bit_word_eqI; auto simp: bit_simps)+

lemma ulong_of_nat: "unat (w :: ulong) = n \<longleftrightarrow> n < 2 ^ 32 \<and> w = of_nat n"
  using unsigned_less [of w, where ?'a = nat] by (auto simp: unat_of_nat take_bit_nat_eq_self unsigned_of_nat)

lemma ucast_of_nat:
  "(ucast (b :: uchar) :: ulong) = of_nat (unat b)" "(ucast (d :: ushort) :: ulong) = of_nat (unat d)"
  by (simp_all add: word_eq_iff_unsigned unsigned_of_nat)

locale stream_decoder =
  fixes first :: "'u::len word list \<Rightarrow> (nat \<times> 'u word list) option"
    and chars :: "'u word list \<Rightarrow> nat list \<times> 'u word list"
    and rep :: "unicode_decoder \<Rightarrow> 'u word list \<Rightarrow> 'u word list \<Rightarrow> bool"
    and room :: nat
  assumes first_append: "first us = Some (cp, r) \<Longrightarrow> first (us @ vs) = Some (cp, r @ vs)"
    and first_shorter: "first us = Some (cp, r) \<Longrightarrow> length r < length us"
    and chars_unfold: "chars us = (case first us of None \<Rightarrow> ([], us)
      | Some (cp, r) \<Rightarrow> (cp # fst (chars r), snd (chars r)))"
    and rep_held: "rep D h q \<Longrightarrow> first h = None \<and> length h < room"
    and rep_write: "rep D h [] \<Longrightarrow> \<exists>W. PhWriteUnicodeDecoder D (ucast u) = Inr (True, W) \<and> rep W h [u]"
    and rep_idle: "rep D h [] \<Longrightarrow> PhDecodeUnicode_turn D = Inr (Return None, D)"
    and rep_turn: "rep D h (u # us) \<Longrightarrow> length h + length us < room \<Longrightarrow> (case first (h @ [u]) of
        None \<Rightarrow> \<exists>E. PhDecodeUnicode_turn D = Inr (Continue, E) \<and> rep E (h @ [u]) us
      | Some (cp, r) \<Rightarrow> \<exists>c E. PhDecodeUnicode_turn D = Inr (Return (Some c), E) \<and> unat c = cp
          \<and> rep E [] (r @ us))"
begin

lemma chars_None: "first us = None \<Longrightarrow> chars us = ([], us)"
  by (subst chars_unfold) simp

lemma chars_Some: "first us = Some (cp, r) \<Longrightarrow> chars us = (cp # fst (chars r), snd (chars r))"
  by (subst chars_unfold) simp

text \<open>A string put together from the forms of single characters is read back as these.\<close>

lemma chars_concat:
  "(\<And>c. c \<in> set cs \<Longrightarrow> first (form c) = Some (val c, [])) \<Longrightarrow>
     chars (concat (map form cs)) = (map val cs, [])"
proof (induction cs)
  case Nil
  have "first [] = None" using first_shorter [of "[]"] by (cases "first []") auto
  then show ?case by (simp add: chars_None)
next
  case (Cons c cs)
  have "first (form c) = Some (val c, [])" using Cons(2) by simp
  from first_append [OF this, of "concat (map form cs)"]
  have "first (concat (map form (c # cs))) = Some (val c, concat (map form cs))" by simp
  then show ?case using Cons by (simp add: chars_Some)
qed

lemma chars_length: "length (fst (chars us)) \<le> length us"
proof (induction "length us" arbitrary: us rule: less_induct)
  case less
  show ?case
  proof (cases "first us")
    case (Some p)
    then obtain cp r where p: "first us = Some (cp, r)" by (cases p) simp
    then show ?thesis
      using less [OF first_shorter [OF p]] first_shorter [OF p] by (simp add: chars_Some [OF p])
  qed (simp add: chars_None)
qed

lemma chars_all:
  assumes "\<And>us cp r. first us = Some (cp, r) \<Longrightarrow> P cp"
  shows "n \<in> set (fst (chars us)) \<Longrightarrow> P n"
proof (induction "length us" arbitrary: us rule: less_induct)
  case less
  show ?case
  proof (cases "first us")
    case (Some p)
    then obtain cp r where p: "first us = Some (cp, r)" by (cases p) simp
    then show ?thesis
      using less(1) [OF first_shorter [OF p]] less(2) assms [OF p] by (auto simp: chars_Some [OF p])
  qed (use less(2) in \<open>simp add: chars_None\<close>)
qed

lemma decode:
  assumes "rep D h q" "length h + length q \<le> room"
  shows "case first (h @ q) of
      None \<Rightarrow> \<exists>E. PhDecodeUnicodeDecoder D = Inr (None, E) \<and> rep E (h @ q) []
    | Some (cp, r) \<Rightarrow> \<exists>c E. PhDecodeUnicodeDecoder D = Inr (Some c, E) \<and> unat c = cp \<and> rep E [] r"
  using assms
proof (induction q arbitrary: D h)
  case Nil
  then show ?case
    using rep_held [OF Nil(1)] rep_idle [OF Nil(1)] by (simp add: PhDecodeUnicodeDecoder.simps [of D])
next
  case (Cons u us)
  have t: "case first (h @ [u]) of
        None \<Rightarrow> \<exists>E. PhDecodeUnicode_turn D = Inr (Continue, E) \<and> rep E (h @ [u]) us
      | Some (cp, r) \<Rightarrow> \<exists>c E. PhDecodeUnicode_turn D = Inr (Return (Some c), E) \<and> unat c = cp
          \<and> rep E [] (r @ us)"
    using Cons(2,3) by (intro rep_turn) auto
  show ?case
  proof (cases "first (h @ [u])")
    case None
    then obtain E where "PhDecodeUnicode_turn D = Inr (Continue, E)" "rep E (h @ [u]) us"
      using t by auto
    then have D: "PhDecodeUnicodeDecoder D = PhDecodeUnicodeDecoder E" and E: "rep E (h @ [u]) us"
      by (simp_all add: PhDecodeUnicodeDecoder.simps [of D])
    have "length (h @ [u]) + length us \<le> room" using Cons(3) by simp
    from Cons(1) [OF E this] show ?thesis unfolding D append_assoc append_Cons append_Nil .
  next
    case (Some p)
    then obtain cp r where p: "first (h @ [u]) = Some (cp, r)" by (cases p) simp
    then obtain c E where E: "PhDecodeUnicode_turn D = Inr (Return (Some c), E)" "unat c = cp"
      "rep E [] (r @ us)" using t by auto
    have "first (h @ u # us) = Some (cp, r @ us)" using first_append [OF p, of us] by simp
    then show ?thesis using E by (simp add: PhDecodeUnicodeDecoder.simps [of D])
  qed
qed

lemma drain:
  assumes "rep D h q" "length h + length q \<le> room"
  shows "\<exists>E cps. decode_while body D s = Inr (fold body cps s, E)
    \<and> map unat cps = fst (chars (h @ q)) \<and> rep E (snd (chars (h @ q))) []"
  using assms
proof (induction "length h + length q" arbitrary: D h q s rule: less_induct)
  case less
  note step = decode [OF less(2,3)]
  show ?case
  proof (cases "first (h @ q)")
    case None
    then have "chars (h @ q) = ([], h @ q)" by (rule chars_None)
    then show ?thesis
      using step None by (auto simp: decode_while.simps [of body D] intro!: exI [of _ "[]"])
  next
    case (Some p)
    then obtain cp r where p: "first (h @ q) = Some (cp, r)" by (cases p) simp
    then obtain c E where E: "PhDecodeUnicodeDecoder D = Inr (Some c, E)" "unat c = cp" "rep E [] r"
      using step by auto
    have r: "length r < length h + length q" using first_shorter [OF p] by simp
    obtain F cps where F: "decode_while body E (body c s) = Inr (fold body cps (body c s), F)"
      "map unat cps = fst (chars r)" "rep F (snd (chars r)) []"
      using less(1) [of "[]" r E "body c s"] r E(3) less(3) by auto
    have "chars (h @ q) = (cp # fst (chars r), snd (chars r))" by (rule chars_Some [OF p])
    then show ?thesis
      using E F by (auto simp: decode_while.simps [of body D] intro!: exI [of _ "c # cps"])
  qed
qed

lemma chars_append:
  "chars (bs @ xs) = (fst (chars bs) @ fst (chars (snd (chars bs) @ xs)),
     snd (chars (snd (chars bs) @ xs)))"
proof (induction "length bs" arbitrary: bs rule: less_induct)
  case less
  show ?case
  proof (cases "first bs")
    case None
    then show ?thesis by (simp add: chars_None)
  next
    case (Some p)
    then obtain cp r where p: "first bs = Some (cp, r)" by (cases p) simp
    show ?thesis
      using less [OF first_shorter [OF p]] chars_Some [OF p] chars_Some [OF first_append [OF p]] by simp
  qed
qed

lemma convert:
  assumes "rep D h []"
  shows "\<exists>E cps. convert_while body (map ucast bs) D s = Inr (fold body cps s, E)
    \<and> map unat cps = fst (chars (h @ bs)) \<and> rep E (snd (chars (h @ bs))) []"
  using assms
proof (induction bs arbitrary: D h s)
  case Nil
  then have "chars h = ([], h)" using rep_held by (blast intro: chars_None)
  then show ?case using Nil by (auto intro!: exI [of _ "[]"])
next
  case (Cons b bs)
  obtain W where W: "PhWriteUnicodeDecoder D (ucast b) = Inr (True, W)" "rep W h [b]"
    using rep_write [OF Cons(2)] by blast
  obtain E cps where E: "decode_while body W s = Inr (fold body cps s, E)"
    "map unat cps = fst (chars (h @ [b]))" "rep E (snd (chars (h @ [b]))) []"
    using drain [OF W(2), of body s] rep_held [OF Cons(2)] by auto
  obtain F ds where F: "convert_while body (map ucast bs) E (fold body cps s) = Inr (fold body ds (fold body cps s), F)"
    "map unat ds = fst (chars (snd (chars (h @ [b])) @ bs))"
    "rep F (snd (chars (snd (chars (h @ [b])) @ bs))) []"
    using Cons(1) [OF E(3)] by blast
  have "chars (h @ b # bs) = chars ((h @ [b]) @ bs)" by simp
  then show ?case
    using W(1) E(1,2) F unfolding chars_append [of "h @ [b]" bs]
    by (auto intro!: exI [of _ "cps @ ds"])
qed

end

end
