(* ===== verification/Utf8.thy ===== *)
theory Utf8
  imports Decoding Numbers
begin

text \<open>
  The UTF-8 decoder against a specification on byte strings.  \<open>utf8_next\<close> reads one
  character off the front of a string, or one byte that begins none, or says that the
  string is the beginning of a longer sequence.  The decoder holds such a beginning in its
  registers and the bytes after it in its queue (\<open>utf8_at\<close>), and one turn of its loop
  moves a byte from the queue to the registers or finishes a character.
\<close>

unbundle bit_operations_syntax

section \<open>The specification\<close>

definition tail_byte :: "uchar \<Rightarrow> bool" where
  "tail_byte b \<longleftrightarrow> 0x80 \<le> b \<and> b < 0xc0"

text \<open>The second byte also rules out overlong forms and values above the last code point.\<close>

definition second_byte :: "uchar \<Rightarrow> uchar \<Rightarrow> bool" where
  "second_byte a b \<longleftrightarrow> tail_byte b \<and> (a = 0xe0 \<longrightarrow> 0xa0 \<le> b) \<and> (a = 0xf0 \<longrightarrow> 0x90 \<le> b)
     \<and> (a = 0xf4 \<longrightarrow> b < 0x90)"

definition bad_byte :: "uchar \<Rightarrow> nat" where
  "bad_byte a = unat a + 0xdc00"

definition code2 :: "uchar \<Rightarrow> uchar \<Rightarrow> nat" where
  "code2 a b = (unat a - 0xc0) * 2 ^ 6 + (unat b - 0x80)"

definition code3 :: "uchar \<Rightarrow> uchar \<Rightarrow> uchar \<Rightarrow> nat" where
  "code3 a b c = (unat a - 0xe0) * 2 ^ 12 + (unat b - 0x80) * 2 ^ 6 + (unat c - 0x80)"

definition code4 :: "uchar \<Rightarrow> uchar \<Rightarrow> uchar \<Rightarrow> uchar \<Rightarrow> nat" where
  "code4 a b c d =
     (unat a - 0xf0) * 2 ^ 18 + (unat b - 0x80) * 2 ^ 12 + (unat c - 0x80) * 2 ^ 6 + (unat d - 0x80)"

fun utf8_next :: "uchar list \<Rightarrow> (nat \<times> uchar list) option" where
  "utf8_next [] = None"
| "utf8_next (a # r) = (
     if a < 0x80 then Some (unat a, r)
     else if a < 0xc2 \<or> 0xf5 \<le> a then Some (bad_byte a, r)
     else case r of [] \<Rightarrow> None | b # s \<Rightarrow>
       if \<not> second_byte a b then Some (bad_byte a, r)
       else if a < 0xe0 then Some (code2 a b, s)
       else case s of [] \<Rightarrow> None | c # t \<Rightarrow>
         if \<not> tail_byte c then Some (bad_byte a, r)
         else if a < 0xf0 then Some (code3 a b c, t)
         else case t of [] \<Rightarrow> None | d # v \<Rightarrow>
           if \<not> tail_byte d then Some (bad_byte a, r) else Some (code4 a b c d, v))"

lemma utf8_next_append: "utf8_next bs = Some (cp, r) \<Longrightarrow> utf8_next (bs @ xs) = Some (cp, r @ xs)"
  by (cases bs) (auto split: if_splits list.splits)

lemma utf8_next_shorter: "utf8_next bs = Some (cp, r) \<Longrightarrow> length r < length bs"
  by (cases bs) (auto split: if_splits list.splits)

section \<open>The decoder\<close>

definition utf8_core :: "unicode_decoder \<Rightarrow> uchar \<Rightarrow> uchar list \<Rightarrow> uchar list \<Rightarrow> bool" where
  "utf8_core D st cs q \<longleftrightarrow> Encoding D = PH_UNICODE_UTF8 \<and> State D = st
     \<and> [Utf8_CodeUnit1 D, Utf8_CodeUnit2 D, Utf8_CodeUnit3 D, Utf8_CodeUnit4 D] = cs
     \<and> length (Utf8_Input D) = 4 \<and> unat (InputCount D) \<le> 4 \<and> take (unat (InputCount D)) (Utf8_Input D) = q"

lemma length_4: "length xs = 4 \<longleftrightarrow> (\<exists>a b c d. xs = [a, b, c, d])"
  by (auto simp: length_Suc_conv numeral_eq_Suc)

lemma core_read:
  assumes "utf8_core D st cs (u # us)"
  shows "\<exists>E. PhpReadUnicodeDecoder D = Inr (Some (ucast u), E) \<and> utf8_core E st cs us"
proof -
  obtain a b c d where xs: "Utf8_Input D = [a, b, c, d]"
    using assms by (auto simp: utf8_core_def length_4)
  obtain n where n: "unat (InputCount D) = Suc n"
    using assms by (cases "unat (InputCount D)") (auto simp: utf8_core_def)
  then have n0: "InputCount D \<noteq> 0" by auto
  then have n1: "unat (InputCount D - 1) = n" using n by (simp add: unat_minus_one)
  have "take (Suc n) [a, b, c, d] = u # us" "Suc n \<le> 4" using assms xs n by (auto simp: utf8_core_def)
  then have "u = a" "us = take n [b, c, d, d]" by (auto simp: take_Cons' split: if_splits)
  then show ?thesis
    using assms xs n n0 n1 by (auto simp: PhpReadUnicodeDecoder_def utf8_core_def)
qed

lemma core_empty: "utf8_core D st cs [] \<Longrightarrow> PhpReadUnicodeDecoder D = Inr (None, D)"
  by (auto simp: PhpReadUnicodeDecoder_def utf8_core_def unat_eq_0)

lemma core_unread:
  assumes "utf8_core D st cs q" "length q < 4"
  shows "\<exists>E. PhpUnreadUnicodeDecoder D (ucast c) = Inr E \<and> utf8_core E st cs (c # q)"
proof -
  obtain i j k l where xs: "Utf8_Input D = [i, j, k, l]"
    using assms(1) by (auto simp: utf8_core_def length_4)
  have n: "unat (InputCount D) < 4" using assms by (auto simp: utf8_core_def)
  then have "unat (InputCount D + 1) = Suc (unat (InputCount D))"
    by (intro unat_inc [of _ 255]) (simp add: word_less_nat_alt)
  moreover have "take (unat (InputCount D)) [i, j, k, l] = take (unat (InputCount D)) [i, j, k]"
    using n by (auto simp: take_Cons' )
  ultimately show ?thesis
    using assms xs n by (auto simp: PhpUnreadUnicodeDecoder_def utf8_core_def word_le_nat_alt)
qed

lemma core_full: "utf8_core D st cs q \<Longrightarrow> length q = 4 \<Longrightarrow> PhpUnreadUnicodeDecoder D u = Inl STATUS_UNSUCCESSFUL"
  by (auto simp: PhpUnreadUnicodeDecoder_def utf8_core_def word_le_nat_alt)

lemma core_write:
  assumes "utf8_core D st cs q" "length q < 4"
  shows "\<exists>E. PhWriteUnicodeDecoder D (ucast c) = Inr (True, E) \<and> utf8_core E st cs (q @ [c])"
proof -
  have n: "unat (InputCount D) < 4" using assms by (auto simp: utf8_core_def)
  then have "unat (InputCount D + 1) = Suc (unat (InputCount D))"
    by (intro unat_inc [of _ 255]) (simp add: word_less_nat_alt)
  then show ?thesis
    using assms n
    by (auto simp: PhWriteUnicodeDecoder_def utf8_core_def word_le_nat_alt take_Suc_conv_app_nth)
qed

lemma core_set:
  "utf8_core D st cs q \<Longrightarrow> utf8_core (D\<lparr>State := s\<rparr>) s cs q"
  "utf8_core D st cs q \<Longrightarrow> utf8_core (D\<lparr>Utf8_CodeUnit1 := x\<rparr>) st (cs[0 := x]) q"
  "utf8_core D st cs q \<Longrightarrow> utf8_core (D\<lparr>Utf8_CodeUnit2 := x\<rparr>) st (cs[1 := x]) q"
  "utf8_core D st cs q \<Longrightarrow> utf8_core (D\<lparr>Utf8_CodeUnit3 := x\<rparr>) st (cs[2 := x]) q"
  "utf8_core D st cs q \<Longrightarrow> utf8_core (D\<lparr>Utf8_CodeUnit4 := x\<rparr>) st (cs[3 := x]) q"
  by (auto simp: utf8_core_def)

lemma core_regs:
  "utf8_core D st [c1, c2, c3, c4] q \<Longrightarrow> Utf8_CodeUnit1 D = c1 \<and> Utf8_CodeUnit2 D = c2
     \<and> Utf8_CodeUnit3 D = c3 \<and> Utf8_CodeUnit4 D = c4 \<and> State D = st"
  by (auto simp: utf8_core_def)

lemma unread_if:
  assumes "utf8_core D st [c1, c2, c3, c4] q" "P \<Longrightarrow> length q < 4"
  shows "\<exists>E. (if P then PhpUnreadUnicodeDecoder D (ucast c) else Inr D) = Inr E
    \<and> utf8_core E st [c1, c2, c3, c4] ((if P then [c] else []) @ q)"
  using assms core_unread [OF assms(1), of c] by (cases P) auto

lemma core_error:
  assumes "utf8_core D st [c1, c2, c3, c4] q" "1 \<le> w" "w \<le> 4" "length q + (w - 1) \<le> 4"
  shows "\<exists>cp E. decode_error D w = Inr (Return (Some cp), E) \<and> unat cp = bad_byte c1
    \<and> utf8_core E 0 [c1, c2, c3, c4] (take (w - 1) [c2, c3, c4] @ q)"
proof -
  let ?p4 = "if 4 \<le> w then [c4] else []" and ?p3 = "if 3 \<le> w then [c3] else []"
  let ?p2 = "if 2 \<le> w then [c2] else []"
  have b4: "4 \<le> w \<Longrightarrow> length q < 4" and b3: "3 \<le> w \<Longrightarrow> length (?p4 @ q) < 4"
    and b2: "2 \<le> w \<Longrightarrow> length (?p3 @ ?p4 @ q) < 4" using assms(4) by auto
  obtain E4 where E4: "(if 4 \<le> w then PhpUnreadUnicodeDecoder D (ucast c4) else Inr D) = Inr E4"
    "utf8_core E4 st [c1, c2, c3, c4] (?p4 @ q)"
    using unread_if [OF assms(1) b4] by blast
  obtain E3 where E3: "(if 3 \<le> w then PhpUnreadUnicodeDecoder E4 (ucast c3) else Inr E4) = Inr E3"
    "utf8_core E3 st [c1, c2, c3, c4] (?p3 @ ?p4 @ q)"
    using unread_if [OF E4(2) b3] by blast
  obtain E2 where E2: "(if 2 \<le> w then PhpUnreadUnicodeDecoder E3 (ucast c2) else Inr E3) = Inr E2"
    "utf8_core E2 st [c1, c2, c3, c4] (?p2 @ ?p3 @ ?p4 @ q)"
    using unread_if [OF E3(2) b2] by blast
  have "PhpDecodeUtf8Error D w = Inr (ucast c1 + 0xdc00, E2\<lparr>State := 0\<rparr>)"
    by (simp only: PhpDecodeUtf8Error_def core_regs [OF assms(1)] E4(1) ebind_simps core_regs [OF E4(2)]
      E3(1) core_regs [OF E3(2)] E2(1) core_regs [OF E2(2)])
  then have "decode_error D w = Inr (Return (Some (ucast c1 + 0xdc00)), E2\<lparr>State := 0\<rparr>)"
    by (simp add: decode_error_def)
  moreover have "?p2 @ ?p3 @ ?p4 = take (w - 1) [c2, c3, c4]"
    using assms(2,3) by (auto simp: take_Cons' numeral_eq_Suc le_Suc_eq)
  then have "utf8_core (E2\<lparr>State := 0\<rparr>) 0 [c1, c2, c3, c4] (take (w - 1) [c2, c3, c4] @ q)"
    using core_set(1) [OF E2(2), of 0] by (metis append.assoc)
  moreover have "unat (ucast c1 + 0xdc00 :: ulong) = bad_byte c1"
    using unsigned_less [of c1, where ?'a = nat]
    by (simp add: bad_byte_def unat_word_ariths)
  ultimately show ?thesis by blast
qed

section \<open>One turn\<close>

text \<open>The state in which a decoder is after the bytes of \<open>h\<close>.\<close>

fun utf8_state :: "uchar list \<Rightarrow> uchar" where
  "utf8_state [] = 0"
| "utf8_state [a] = (if a < 0xe0 then 1 else if a < 0xf0 then 2 else 3)"
| "utf8_state [a, b] = (if a < 0xf0 then 4 else 5)"
| "utf8_state _ = 6"

definition utf8_at :: "unicode_decoder \<Rightarrow> uchar list \<Rightarrow> uchar list \<Rightarrow> bool" where
  "utf8_at D h q \<longleftrightarrow> utf8_next h = None
     \<and> (\<exists>cs. length cs = 4 \<and> take (length h) cs = h \<and> utf8_core D (utf8_state h) cs q)"

lemma bits_192: "bit (192 :: ulong) n \<longleftrightarrow> n = 6 \<or> n = 7"
proof -
  have "(192 :: ulong) = push_bit 6 (mask 2)" by (simp add: mask_eq_exp_minus_1 push_bit_eq_mult)
  moreover have "bit (push_bit 6 (mask 2) :: ulong) n \<longleftrightarrow> n = 6 \<or> n = 7"
    by (auto simp: bit_simps)
  ultimately show ?thesis by metis
qed

lemma bits_128: "bit (128 :: ulong) n \<longleftrightarrow> n = 7"
proof -
  have "(128 :: ulong) = 2 ^ 7" by simp
  then show ?thesis by (simp only: bit_exp_iff) auto
qed

lemma two_bits:
  assumes "P 6" "P 7" "Q 6" "Q 7"
  shows "(\<forall>n :: nat. P n \<longrightarrow> ((Q n \<and> b n) \<and> (n = 6 \<or> n = 7)) = (n = 7)) \<longleftrightarrow> b 7 \<and> \<not> b 6"
proof
  assume *: "\<forall>n :: nat. P n \<longrightarrow> ((Q n \<and> b n) \<and> (n = 6 \<or> n = 7)) = (n = 7)"
  show "b 7 \<and> \<not> b 6" using * [rule_format, of 6] * [rule_format, of 7] assms by simp
qed (use assms in auto)

lemma is_tail_byte: "is_tail (ucast (b :: uchar)) \<longleftrightarrow> tail_byte b"
proof -
  have top: "odd (n div 2 ^ 7) \<and> \<not> odd (n div 2 ^ 6) \<longleftrightarrow> 128 \<le> n \<and> n < 192" if "n < 256" for n :: nat
  proof -
    obtain m where m: "m = n div 64" by simp
    have "n div 128 = m div 2" unfolding m by (simp flip: div_mult2_eq)
    moreover have "128 \<le> n \<longleftrightarrow> 2 \<le> m" "n < 192 \<longleftrightarrow> m < 3"
      unfolding m by (simp_all add: less_eq_div_iff_mult_less_eq div_less_iff_less_mult)
    moreover have "m < 4" unfolding m using that by (simp add: div_less_iff_less_mult)
    then have "m \<in> {0, 1, 2, 3}" by auto
    ultimately show ?thesis by (auto simp: m [symmetric])
  qed
  have "is_tail (ucast b) \<longleftrightarrow> bit b 7 \<and> \<not> bit b 6"
    unfolding is_tail_def bit_eq_iff [where ?'a = ulong] bit_and_iff bits_192 bits_128 bit_unsigned_iff
    by (rule two_bits) simp_all
  also have "\<dots> \<longleftrightarrow> 128 \<le> unat b \<and> unat b < 192"
    unfolding bit_unat by (rule top) (use unsigned_less [of b, where ?'a = nat] in simp)
  finally show ?thesis by (simp add: tail_byte_def word_less_nat_alt word_le_nat_alt)
qed

lemma unit_less [simp]:
  "(ucast (b :: uchar) :: ulong) < numeral k \<longleftrightarrow> unat b < unat (numeral k :: ulong)"
  "numeral k \<le> (ucast (b :: uchar) :: ulong) \<longleftrightarrow> unat (numeral k :: ulong) \<le> unat b"
  by (simp_all add: word_less_nat_alt word_le_nat_alt)

lemma held_cases:
  assumes "utf8_next h = None"
  obtains (none) "h = []"
  | (two) a where "h = [a]" "0xc2 \<le> unat a" "unat a < 0xe0"
  | (three) a where "h = [a]" "0xe0 \<le> unat a" "unat a < 0xf0"
  | (four) a where "h = [a]" "0xf0 \<le> unat a" "unat a < 0xf5"
  | (three2) a b where "h = [a, b]" "0xe0 \<le> unat a" "unat a < 0xf0" "second_byte a b"
  | (four2) a b where "h = [a, b]" "0xf0 \<le> unat a" "unat a < 0xf5" "second_byte a b"
  | (four3) a b c where "h = [a, b, c]" "0xf0 \<le> unat a" "unat a < 0xf5" "second_byte a b" "tail_byte c"
proof (cases h)
  case (Cons a r)
  have a: "0xc2 \<le> unat a" "unat a < 0xf5"
    using assms Cons by (auto simp: word_less_nat_alt word_le_nat_alt split: if_splits)
  show ?thesis
  proof (cases r)
    case Nil
    consider "unat a < 0xe0" | "0xe0 \<le> unat a" "unat a < 0xf0" | "0xf0 \<le> unat a" by linarith
    then show ?thesis
    proof cases
      case 1 then show ?thesis using a Cons Nil by (intro two [of a]) auto
    next
      case 2 then show ?thesis using a Cons Nil by (intro three [of a]) auto
    next
      case 3 then show ?thesis using a Cons Nil by (intro four [of a]) auto
    qed
  next
    case r: (Cons b s)
    have b: "0xe0 \<le> unat a" "second_byte a b"
      using assms Cons r a by (auto simp: word_less_nat_alt word_le_nat_alt split: if_splits)
    show ?thesis
    proof (cases s)
      case Nil
      consider "unat a < 0xf0" | "0xf0 \<le> unat a" by linarith
      then show ?thesis
      proof cases
        case 1 then show ?thesis using a b Cons r Nil by (intro three2 [of a b]) auto
      next
        case 2 then show ?thesis using a b Cons r Nil by (intro four2 [of a b]) auto
      qed
    next
      case s: (Cons c t)
      have "0xf0 \<le> unat a" "tail_byte c" "t = []"
        using assms Cons r s a b
        by (auto simp: word_less_nat_alt word_le_nat_alt split: if_splits list.splits)
      then show ?thesis using a b Cons r s by (intro four3 [of a b c]) auto
    qed
  qed
qed (rule none)

text \<open>The arithmetic of the three sequences: no step leaves the 32 bits.\<close>

lemma tail_unat: "tail_byte b \<Longrightarrow> \<exists>m < 64. unat b = 128 + m"
  by (intro exI [of _ "unat b - 128"]) (auto simp: tail_byte_def word_less_nat_alt word_le_nat_alt)

lemma code2_word:
  assumes "0xc0 \<le> unat a" "unat a < 0xe0" "tail_byte b"
  shows "unat (push_bit 6 (ucast a) + ucast b - 0x3080 :: ulong) = code2 a b"
proof -
  obtain m n where "unat a = 192 + m" "m < 32" "unat b = 128 + n" "n < 64"
    using assms tail_unat [OF assms(3)] le_Suc_ex [OF assms(1)] by auto
  then show ?thesis
    by (simp add: ulong_of_nat code2_def push_bit_eq_mult ucast_of_nat)
qed

lemma code3_word:
  assumes "0xe0 \<le> unat a" "unat a < 0xf0" "tail_byte b" "tail_byte c"
  shows "unat (push_bit 12 (ucast a) + push_bit 6 (ucast b) + ucast c - 0xe2080 :: ulong) = code3 a b c"
proof -
  obtain m n k where "unat a = 224 + m" "m < 16" "unat b = 128 + n" "unat c = 128 + k" "n < 64" "k < 64"
    using assms tail_unat [OF assms(3)] tail_unat [OF assms(4)] le_Suc_ex [OF assms(1)] by auto
  then show ?thesis
    by (simp add: ulong_of_nat code3_def push_bit_eq_mult ucast_of_nat)
qed

lemma code4_word:
  assumes "0xf0 \<le> unat a" "unat a < 0xf8" "tail_byte b" "tail_byte c" "tail_byte d"
  shows "unat (push_bit 18 (ucast a) + push_bit 12 (ucast b) + push_bit 6 (ucast c) + ucast d
    - 0x3c82080 :: ulong) = code4 a b c d"
proof -
  obtain m n k l where "unat a = 240 + m" "m < 8" "unat b = 128 + n" "unat c = 128 + k" "unat d = 128 + l"
    "n < 64" "k < 64" "l < 64"
    using assms tail_unat [OF assms(3)] tail_unat [OF assms(4)] tail_unat [OF assms(5)]
      le_Suc_ex [OF assms(1)] by auto
  then show ?thesis
    by (simp add: ulong_of_nat code4_def push_bit_eq_mult ucast_of_nat)
qed

text \<open>
  One turn takes a byte from the queue.  The decoder goes on with the byte held, or it
  returns what the specification reads and puts the rest in front of the queue.
\<close>

definition turns_to :: "unicode_decoder \<Rightarrow> uchar list \<Rightarrow> uchar list \<Rightarrow> bool" where
  "turns_to D bs q \<longleftrightarrow> (case utf8_next bs of
     None \<Rightarrow> \<exists>E. PhDecodeUnicode_turn D = Inr (Continue, E) \<and> utf8_at E bs q
   | Some (cp, r) \<Rightarrow> \<exists>c E. PhDecodeUnicode_turn D = Inr (Return (Some c), E) \<and> unat c = cp
       \<and> utf8_at E [] (r @ q))"

lemma turns_to_go:
  assumes "utf8_next bs = None" "PhDecodeUnicode_turn D = Inr (Continue, E)"
    "utf8_core E (utf8_state bs) cs q" "length cs = 4" "take (length bs) cs = bs"
  shows "turns_to D bs q"
  using assms unfolding turns_to_def utf8_at_def by simp blast

lemma turns_to_return:
  assumes "utf8_next bs = Some (unat c, r)" "PhDecodeUnicode_turn D = Inr (Return (Some c), E)"
    "utf8_core E 0 cs (r @ q)" "length cs = 4"
  shows "turns_to D bs q"
  using assms unfolding turns_to_def utf8_at_def by simp blast

lemma turns_to_bad:
  assumes "utf8_next (a # r) = Some (bad_byte a, r)" "PhDecodeUnicode_turn D = decode_error F (Suc (length r))"
    "utf8_core F st [a, c2, c3, c4] q" "take (length r) [c2, c3, c4] = r" "length r \<le> 3"
    "length q + length r \<le> 4"
  shows "turns_to D (a # r) q"
proof -
  obtain cp E where E: "decode_error F (Suc (length r)) = Inr (Return (Some cp), E)" "unat cp = bad_byte a"
    "utf8_core E 0 [a, c2, c3, c4] (r @ q)"
    using core_error [OF assms(3), of "Suc (length r)"] assms(4-6) by auto
  show ?thesis using turns_to_return [of _ cp r D E] assms(1,2) E by simp
qed

lemma error_width:
  "decode_error D 2 = decode_error D (Suc (Suc 0))" "decode_error D 3 = decode_error D (Suc (Suc (Suc 0)))"
  "decode_error D 4 = decode_error D (Suc (Suc (Suc (Suc 0))))"
  by (simp_all add: numeral_eq_Suc)

lemmas byte_order = word_less_nat_alt word_le_nat_alt not_less not_le

lemma second_tail: "second_byte a b \<Longrightarrow> tail_byte b"
  by (simp add: second_byte_def)

lemma second_test2: "0xc0 \<le> unat a \<Longrightarrow> unat a < 0xe0 \<Longrightarrow> second_byte a b \<longleftrightarrow> tail_byte b"
  by (auto simp: second_byte_def)

lemma second_test:
  "0xe0 \<le> unat a \<Longrightarrow> unat a < 0xf0 \<Longrightarrow>
     second_byte a b \<longleftrightarrow> is_tail (ucast b) \<and> (a \<noteq> 0xe0 \<or> 0xa0 \<le> (ucast b :: ulong))"
  "0xf0 \<le> unat a \<Longrightarrow> second_byte a b \<longleftrightarrow> is_tail (ucast b) \<and> (a \<noteq> 0xf0 \<or> 0x90 \<le> (ucast b :: ulong))
     \<and> (a \<noteq> 0xf4 \<or> (ucast b :: ulong) < 0x90)"
  by (auto simp: second_byte_def is_tail_byte byte_order)

lemma utf8_turn:
  assumes "utf8_at D h (u # us)" "length h + length us \<le> 4"
  shows "turns_to D (h @ [u]) us"
proof -
  obtain c1 c2 c3 c4 where h: "utf8_next h = None" "take (length h) [c1, c2, c3, c4] = h"
    "utf8_core D (utf8_state h) [c1, c2, c3, c4] (u # us)"
    using assms(1) by (auto simp: utf8_at_def length_4)
  obtain E where E: "PhpReadUnicodeDecoder D = Inr (Some (ucast u), E)"
    "utf8_core E (utf8_state h) [c1, c2, c3, c4] us"
    using core_read [OF h(3)] by blast
  have turn: "PhDecodeUnicode_turn D = PhDecodeUtf8_switch E (ucast u)"
    using h(3) E(1) by (simp add: PhDecodeUnicode_turn_def utf8_core_def)
  have st: "State E = utf8_state h" and c1: "Utf8_CodeUnit1 E = c1" and c2: "Utf8_CodeUnit2 E = c2"
    and c3: "Utf8_CodeUnit3 E = c3" using core_regs [OF E(2)] by simp_all
  from h(1) show ?thesis
  proof (cases rule: held_cases)
    case none
    have R: "utf8_core (E\<lparr>Utf8_CodeUnit1 := u\<rparr>) 0 [u, c2, c3, c4] us"
      using core_set(2) [OF E(2), of u] none by simp
    consider "unat u < 0x80" | "0x80 \<le> unat u" "unat u < 0xc2 \<or> 0xf5 \<le> unat u"
      | "0xc2 \<le> unat u" "unat u < 0xf5" by linarith
    then show ?thesis
    proof cases
      case 1
      then show ?thesis using turn st none R
        by (intro turns_to_return [where r = "[]"]) (auto simp: switches byte_order)
    next
      case 2
      then have "turns_to D (u # []) us" using turn st none R assms(2)
        by (intro turns_to_bad) (auto simp: switches byte_order)
      then show ?thesis using none by simp
    next
      case 3
      then have "PhDecodeUnicode_turn D = Inr (Continue, E\<lparr>Utf8_CodeUnit1 := u, State := utf8_state [u]\<rparr>)"
        using turn st none by (auto simp: switches byte_order)
      then show ?thesis using 3 none core_set(1) [OF R, of "utf8_state [u]"]
        by (intro turns_to_go) (auto simp: byte_order)
    qed
  next
    case (two a)
    have second: "second_byte a u \<longleftrightarrow> tail_byte u" using two by (intro second_test2) auto
    have R: "utf8_core (E\<lparr>Utf8_CodeUnit2 := u\<rparr>) 1 [a, u, c3, c4] us"
      using core_set(3) [OF E(2), of u] h(2) two by (auto simp: byte_order)
    show ?thesis
    proof (cases "second_byte a u")
      case True
      then show ?thesis using turn st c1 c2 c3 h(2) two R core_set(1) [OF R]
        by (intro turns_to_return [where r = "[]"]) (auto simp: switches byte_order is_tail_byte second code2_word)
    next
      case False
      then have "turns_to D (a # [u]) us" using turn st c1 h(2) two R assms(2)
        by (intro turns_to_bad) (auto simp: switches byte_order is_tail_byte error_width second)
      then show ?thesis using two by simp
    qed
  next
    case (three a)
    have R: "utf8_core (E\<lparr>Utf8_CodeUnit2 := u\<rparr>) 2 [a, u, c3, c4] us"
      using core_set(3) [OF E(2), of u] h(2) three by (auto simp: byte_order)
    show ?thesis
    proof (cases "second_byte a u")
      case True
      then show ?thesis using turn st c1 c2 c3 h(2) three R core_set(1) [OF R]
        by (intro turns_to_go) (auto simp: switches byte_order is_tail_byte second_tail second_test)
    next
      case False
      then have "turns_to D (a # [u]) us" using turn st c1 h(2) three R assms(2)
        by (intro turns_to_bad) (auto simp: switches byte_order is_tail_byte error_width second_test)
      then show ?thesis using three by simp
    qed
  next
    case (four a)
    have R: "utf8_core (E\<lparr>Utf8_CodeUnit2 := u\<rparr>) 3 [a, u, c3, c4] us"
      using core_set(3) [OF E(2), of u] h(2) four by (auto simp: byte_order)
    show ?thesis
    proof (cases "second_byte a u")
      case True
      then show ?thesis using turn st c1 c2 c3 h(2) four R core_set(1) [OF R]
        by (intro turns_to_go) (auto simp: switches byte_order is_tail_byte second_tail second_test)
    next
      case False
      then have "turns_to D (a # [u]) us" using turn st c1 h(2) four R assms(2)
        by (intro turns_to_bad) (auto simp: switches byte_order is_tail_byte error_width second_test)
      then show ?thesis using four by simp
    qed
  next
    case (three2 a b)
    have R: "utf8_core (E\<lparr>Utf8_CodeUnit3 := u\<rparr>) 4 [a, b, u, c4] us"
      using core_set(4) [OF E(2), of u] h(2) three2 by (auto simp: byte_order)
    show ?thesis
    proof (cases "tail_byte u")
      case True
      then show ?thesis using turn st c1 c2 c3 h(2) three2 R core_set(1) [OF R]
        by (intro turns_to_return [where r = "[]"]) (auto simp: switches byte_order is_tail_byte second_tail code3_word)
    next
      case False
      then have "turns_to D (a # [b, u]) us" using turn st c1 h(2) three2 R assms(2)
        by (intro turns_to_bad) (auto simp: switches byte_order is_tail_byte error_width second_test)
      then show ?thesis using three2 by simp
    qed
  next
    case (four2 a b)
    have R: "utf8_core (E\<lparr>Utf8_CodeUnit3 := u\<rparr>) 5 [a, b, u, c4] us"
      using core_set(4) [OF E(2), of u] h(2) four2 by (auto simp: byte_order)
    show ?thesis
    proof (cases "tail_byte u")
      case True
      then show ?thesis using turn st c1 c2 c3 h(2) four2 R core_set(1) [OF R]
        by (intro turns_to_go) (auto simp: switches byte_order is_tail_byte second_tail)
    next
      case False
      then have "turns_to D (a # [b, u]) us" using turn st c1 h(2) four2 R assms(2)
        by (intro turns_to_bad) (auto simp: switches byte_order is_tail_byte error_width second_test)
      then show ?thesis using four2 by simp
    qed
  next
    case (four3 a b c)
    have R: "utf8_core (E\<lparr>Utf8_CodeUnit4 := u\<rparr>) 6 [a, b, c, u] us"
      using core_set(5) [OF E(2), of u] h(2) four3 by (auto simp: byte_order)
    show ?thesis
    proof (cases "tail_byte u")
      case True
      then show ?thesis using turn st c1 c2 c3 h(2) four3 R core_set(1) [OF R]
        by (intro turns_to_return [where r = "[]"]) (auto simp: switches byte_order is_tail_byte second_tail code4_word)
    next
      case False
      then have "turns_to D (a # [b, c, u]) us" using turn st c1 h(2) four3 R assms(2)
        by (intro turns_to_bad) (auto simp: switches byte_order is_tail_byte error_width second_test)
      then show ?thesis using four3 by simp
    qed
  qed
qed

section \<open>A whole string\<close>

lemma utf8_next_length: "utf8_next h = None \<Longrightarrow> length h \<le> 3"
  by (erule held_cases) auto

lemma utf8_idle:
  assumes "utf8_at D h []"
  shows "PhDecodeUnicode_turn D = Inr (Return None, D)"
proof -
  have "PhpReadUnicodeDecoder D = Inr (None, D)" "Encoding D = PH_UNICODE_UTF8"
    using assms core_empty [of D] by (auto simp: utf8_at_def utf8_core_def)
  then show ?thesis by (simp add: PhDecodeUnicode_turn_def)
qed

text \<open>All the characters of a string, and the unfinished sequence at its end.\<close>

function utf8_chars :: "uchar list \<Rightarrow> nat list \<times> uchar list" where
  "utf8_chars bs = (case utf8_next bs of
     None \<Rightarrow> ([], bs)
   | Some (cp, r) \<Rightarrow> (cp # fst (utf8_chars r), snd (utf8_chars r)))"
  by auto
termination
  by (relation "measure length") (auto dest: utf8_next_shorter)

declare utf8_chars.simps [simp del]

interpretation utf8: stream_decoder utf8_next utf8_chars utf8_at 5
proof
  fix D h q us and u :: uchar
  show "utf8_next h = None \<and> length h < 5" if "utf8_at D h q"
    using that utf8_next_length [of h] by (auto simp: utf8_at_def)
  show "\<exists>W. PhWriteUnicodeDecoder D (ucast u) = Inr (True, W) \<and> utf8_at W h [u]" if "utf8_at D h []"
    using that core_write [of D "utf8_state h" _ "[]" u] by (fastforce simp: utf8_at_def)
  show "PhDecodeUnicode_turn D = Inr (Return None, D)" if "utf8_at D h []"
    using that by (rule utf8_idle)
  show "case utf8_next (h @ [u]) of
      None \<Rightarrow> \<exists>E. PhDecodeUnicode_turn D = Inr (Continue, E) \<and> utf8_at E (h @ [u]) us
    | Some (cp, r) \<Rightarrow> \<exists>c E. PhDecodeUnicode_turn D = Inr (Return (Some c), E) \<and> unat c = cp
        \<and> utf8_at E [] (r @ us)"
    if "utf8_at D h (u # us)" "length h + length us < 5"
    using utf8_turn [OF that(1)] that(2) by (simp add: turns_to_def)
qed (use utf8_next_append utf8_next_shorter utf8_chars.simps in blast)+

lemma utf8_initial: "utf8_at (PhInitializeUnicodeDecoder PH_UNICODE_UTF8) [] []"
  by (auto simp: utf8_at_def utf8_core_def PhInitializeUnicodeDecoder_def)

end
