(* ===== verification/Utf16.thy ===== *)
theory Utf16
  imports Decoding
begin

text \<open>
  The UTF-16 decoder against its specification: a high surrogate joins the low surrogate
  after it, and every other unit stands for itself, lone surrogates too.
\<close>

unbundle bit_operations_syntax

section \<open>The specification\<close>

definition high_unit :: "ushort \<Rightarrow> bool" where
  "high_unit a \<longleftrightarrow> 0xd800 \<le> unat a \<and> unat a < 0xdc00"

definition low_unit :: "ushort \<Rightarrow> bool" where
  "low_unit a \<longleftrightarrow> 0xdc00 \<le> unat a \<and> unat a < 0xe000"

definition pair_code :: "ushort \<Rightarrow> ushort \<Rightarrow> nat" where
  "pair_code a b = 0x10000 + (unat a - 0xd800) * 2 ^ 10 + (unat b - 0xdc00)"

fun utf16_next :: "ushort list \<Rightarrow> (nat \<times> ushort list) option" where
  "utf16_next [] = None"
| "utf16_next (a # r) = (
     if \<not> high_unit a then Some (unat a, r)
     else case r of [] \<Rightarrow> None | b # s \<Rightarrow>
       if low_unit b then Some (pair_code a b, s) else Some (unat a, r))"

lemma utf16_next_append: "utf16_next bs = Some (cp, r) \<Longrightarrow> utf16_next (bs @ xs) = Some (cp, r @ xs)"
  by (cases bs) (auto split: if_splits list.splits)

lemma utf16_next_shorter: "utf16_next bs = Some (cp, r) \<Longrightarrow> length r < length bs"
  by (cases bs) (auto split: if_splits list.splits)

lemma utf16_held: "utf16_next h = None \<longleftrightarrow> h = [] \<or> (\<exists>a. h = [a] \<and> high_unit a)"
  by (cases h) (auto split: list.splits)

function utf16_chars :: "ushort list \<Rightarrow> nat list \<times> ushort list" where
  "utf16_chars bs = (case utf16_next bs of
     None \<Rightarrow> ([], bs)
   | Some (cp, r) \<Rightarrow> (cp # fst (utf16_chars r), snd (utf16_chars r)))"
  by auto
termination
  by (relation "measure length") (auto dest: utf16_next_shorter)

declare utf16_chars.simps [simp del]

section \<open>The decoder\<close>

definition utf16_core :: "unicode_decoder \<Rightarrow> uchar \<Rightarrow> ushort \<Rightarrow> ushort list \<Rightarrow> bool" where
  "utf16_core D st a q \<longleftrightarrow> Encoding D = PH_UNICODE_UTF16 \<and> State D = st \<and> Utf16_CodeUnit D = a
     \<and> length (Utf16_Input D) = 2 \<and> unat (InputCount D) \<le> 2 \<and> take (unat (InputCount D)) (Utf16_Input D) = q"

lemma length_2: "length xs = 2 \<longleftrightarrow> (\<exists>a b. xs = [a, b])"
  by (auto simp: length_Suc_conv numeral_eq_Suc)

lemma core16_read:
  assumes "utf16_core D st a (u # us)"
  shows "\<exists>E. PhpReadUnicodeDecoder D = Inr (Some (ucast u), E) \<and> utf16_core E st a us \<and> length us < 2"
proof -
  obtain i j where xs: "Utf16_Input D = [i, j]"
    using assms by (auto simp: utf16_core_def length_2)
  obtain n where n: "unat (InputCount D) = Suc n"
    using assms by (cases "unat (InputCount D)") (auto simp: utf16_core_def)
  then have n0: "InputCount D \<noteq> 0" by auto
  then have n1: "unat (InputCount D - 1) = n" using n by (simp add: unat_minus_one)
  have "take (Suc n) [i, j] = u # us" "Suc n \<le> 2" using assms xs n by (auto simp: utf16_core_def)
  then have "u = i" "us = take n [j, j]" "length us < 2" by (auto simp: take_Cons' split: if_splits)
  then show ?thesis
    using assms xs n n0 n1 by (auto simp: PhpReadUnicodeDecoder_def utf16_core_def encodings)
qed

lemma core16_unread:
  assumes "utf16_core D st a q" "length q < 2"
  shows "\<exists>E. PhpUnreadUnicodeDecoder D (ucast u) = Inr E \<and> utf16_core E st a (u # q)"
proof -
  obtain i j where xs: "Utf16_Input D = [i, j]"
    using assms(1) by (auto simp: utf16_core_def length_2)
  have n: "unat (InputCount D) < 2" using assms by (auto simp: utf16_core_def)
  then have "unat (InputCount D + 1) = Suc (unat (InputCount D))"
    by (intro unat_inc [of _ 255]) (simp add: word_less_nat_alt)
  moreover have "take (unat (InputCount D)) [i, j] = take (unat (InputCount D)) [i]"
    using n by (auto simp: take_Cons')
  ultimately show ?thesis
    using assms xs n by (auto simp: PhpUnreadUnicodeDecoder_def utf16_core_def word_le_nat_alt encodings)
qed

lemma core16_write:
  assumes "utf16_core D st a q" "length q < 2"
  shows "\<exists>E. PhWriteUnicodeDecoder D (ucast u) = Inr (True, E) \<and> utf16_core E st a (q @ [u])"
proof -
  have n: "unat (InputCount D) < 2" using assms by (auto simp: utf16_core_def)
  then have "unat (InputCount D + 1) = Suc (unat (InputCount D))"
    by (intro unat_inc [of _ 255]) (simp add: word_less_nat_alt)
  then show ?thesis
    using assms n
    by (auto simp: PhWriteUnicodeDecoder_def utf16_core_def word_le_nat_alt take_Suc_conv_app_nth encodings)
qed

definition utf16_at :: "unicode_decoder \<Rightarrow> ushort list \<Rightarrow> ushort list \<Rightarrow> bool" where
  "utf16_at D h q \<longleftrightarrow>
     h = [] \<and> (\<exists>a. utf16_core D 0 a q) \<or> (\<exists>a. h = [a] \<and> high_unit a \<and> utf16_core D 1 a q)"

lemma surrogate_tests:
  "PH_UNICODE_UTF16_IS_HIGH_SURROGATE (ucast (a :: ushort)) \<longleftrightarrow> high_unit a"
  "PH_UNICODE_UTF16_IS_LOW_SURROGATE (ucast (a :: ushort)) \<longleftrightarrow> low_unit a"
  by (auto simp: PH_UNICODE_UTF16_IS_HIGH_SURROGATE_def PH_UNICODE_UTF16_IS_LOW_SURROGATE_def
    high_unit_def low_unit_def word_le_nat_alt)

lemma pair_word:
  assumes "high_unit a" "low_unit b"
  shows "unat (PH_UNICODE_UTF16_TO_CODE_POINT a (ucast b)) = pair_code a b"
proof -
  obtain m n where "unat a = 0xd800 + m" "m < 0x400" "unat b = 0xdc00 + n" "n < 0x400"
    using assms le_Suc_ex [of "0xd800" "unat a"] le_Suc_ex [of "0xdc00" "unat b"]
    by (auto simp: high_unit_def low_unit_def)
  then show ?thesis
    by (simp add: PH_UNICODE_UTF16_TO_CODE_POINT_def ulong_of_nat pair_code_def push_bit_eq_mult ucast_of_nat)
qed

lemma utf16_turn:
  assumes "utf16_at D h (u # us)"
  shows "case utf16_next (h @ [u]) of
      None \<Rightarrow> \<exists>E. PhDecodeUnicode_turn D = Inr (Continue, E) \<and> utf16_at E (h @ [u]) us
    | Some (cp, r) \<Rightarrow> \<exists>c E. PhDecodeUnicode_turn D = Inr (Return (Some c), E) \<and> unat c = cp
        \<and> utf16_at E [] (r @ us)"
proof -
  obtain st a where core: "utf16_core D st a (u # us)" and h: "h = [] \<and> st = 0 \<or> h = [a] \<and> high_unit a \<and> st = 1"
    using assms by (auto simp: utf16_at_def)
  obtain E where E: "PhpReadUnicodeDecoder D = Inr (Some (ucast u), E)" "utf16_core E st a us" "length us < 2"
    using core16_read [OF core] by blast
  have turn: "PhDecodeUnicode_turn D = PhDecodeUtf16_switch E (ucast u)"
    using core E(1) by (simp add: PhDecodeUnicode_turn_def utf16_core_def encodings)
  have st: "State E = st" "Utf16_CodeUnit E = a" using E(2) by (auto simp: utf16_core_def)
  show ?thesis
  proof (cases "h = []")
    case True
    have "utf16_core (E\<lparr>Utf16_CodeUnit := u, State := 1\<rparr>) 1 u us" using E(2) by (simp add: utf16_core_def)
    then show ?thesis
      using True h turn st E(2) by (auto simp: switches surrogate_tests utf16_at_def)
  next
    case False
    have low: "utf16_core (E\<lparr>State := 0\<rparr>) 0 a us" using E(2) by (simp add: utf16_core_def)
    obtain F where F: "PhpUnreadUnicodeDecoder E (ucast u) = Inr F" "utf16_core F st a (u # us)"
      using core16_unread [OF E(2,3)] by blast
    have "utf16_core (F\<lparr>State := 0\<rparr>) 0 a (u # us)" using F(2) by (simp add: utf16_core_def)
    then show ?thesis
      using False h turn st F(1) low pair_word [of a u]
      by (auto simp: switches surrogate_tests utf16_at_def)
  qed
qed

interpretation utf16: stream_decoder utf16_next utf16_chars utf16_at 3
proof
  fix D h q us and u :: ushort
  show "utf16_next h = None \<and> length h < 3" if "utf16_at D h q"
    using that by (auto simp: utf16_at_def)
  show "\<exists>W. PhWriteUnicodeDecoder D (ucast u) = Inr (True, W) \<and> utf16_at W h [u]" if "utf16_at D h []"
    using that core16_write [of D _ _ "[]" u] by (fastforce simp: utf16_at_def)
  show "PhDecodeUnicode_turn D = Inr (Return None, D)" if "utf16_at D h []"
    using that by (auto simp: utf16_at_def utf16_core_def PhDecodeUnicode_turn_def
      PhpReadUnicodeDecoder_def unat_eq_0 encodings)
  show "case utf16_next (h @ [u]) of
      None \<Rightarrow> \<exists>E. PhDecodeUnicode_turn D = Inr (Continue, E) \<and> utf16_at E (h @ [u]) us
    | Some (cp, r) \<Rightarrow> \<exists>c E. PhDecodeUnicode_turn D = Inr (Return (Some c), E) \<and> unat c = cp
        \<and> utf16_at E [] (r @ us)"
    if "utf16_at D h (u # us)" using that by (rule utf16_turn)
qed (use utf16_next_append utf16_next_shorter utf16_chars.simps in blast)+

lemma utf16_initial: "utf16_at (PhInitializeUnicodeDecoder PH_UNICODE_UTF16) [] []"
  by (auto simp: utf16_at_def utf16_core_def PhInitializeUnicodeDecoder_def)

end
