(* ===== verification/Conversions.thy ===== *)
theory Conversions
  imports Utf8 Utf16
begin

text \<open>
  The encoder and the conversions of whole strings: every code point is encoded as the
  decoder reads it, and the loops of the conversions turn a string into the forms of its
  characters.
\<close>

unbundle bit_operations_syntax

section \<open>The encoder\<close>

lemma unat_narrow: "unat (ucast (w :: ulong) :: 'a::len word) = unat w mod 2 ^ LENGTH('a)"
  by (simp add: unsigned_ucast_eq take_bit_eq_mod)

lemma unat_shifted: "unat (drop_bit k (w :: ulong)) = unat w div 2 ^ k"
  unfolding unsigned_drop_bit_eq
  by (subst take_bit_nat_eq_self) (use unsigned_less [of w, where ?'a = nat] in \<open>simp_all add: drop_bit_eq_div\<close>)

lemma unat_low: "unat ((w :: ulong) AND mask k) = unat w mod 2 ^ k"
  unfolding take_bit_eq_mask [symmetric] unsigned_take_bit_eq by (simp add: take_bit_eq_mod)

lemma unat_low6: "unat ((w :: ulong) AND 0x3f) = unat w mod 64"
  using unat_low [of w 6] by (simp add: mask_eq_exp_minus_1)

lemma unat_low10: "unat ((w :: ulong) AND 0x3ff) = unat w mod 1024"
  using unat_low [of w 10] by (simp add: mask_eq_exp_minus_1)

text \<open>The first byte of a sequence, and the others.\<close>

lemma unat_lead:
  "unat (cp :: ulong) div 2 ^ k < 32 \<Longrightarrow> unat (ucast (drop_bit k cp) + 0xc0 :: uchar) = 192 + unat cp div 2 ^ k"
  "unat (cp :: ulong) div 2 ^ k < 16 \<Longrightarrow> unat (ucast (drop_bit k cp) + 0xe0 :: uchar) = 224 + unat cp div 2 ^ k"
  "unat (cp :: ulong) div 2 ^ k < 8 \<Longrightarrow> unat (ucast (drop_bit k cp) + 0xf0 :: uchar) = 240 + unat cp div 2 ^ k"
  by (simp_all add: unat_word_ariths unat_narrow unat_shifted)

lemma unat_cont:
  "unat (ucast ((cp :: ulong) AND 0x3f) + 0x80 :: uchar) = 128 + unat cp mod 64"
  by (simp add: unat_word_ariths unat_narrow unat_low6)

lemma byte_num: "(a :: uchar) = numeral k \<longleftrightarrow> unat a = unat (numeral k :: uchar)"
  by (rule word_eq_iff_unsigned)

lemma second_unat: "second_byte a b \<longleftrightarrow> 128 \<le> unat b \<and> unat b < 192 \<and> (unat a = 224 \<longrightarrow> 160 \<le> unat b)
    \<and> (unat a = 240 \<longrightarrow> 144 \<le> unat b) \<and> (unat a = 244 \<longrightarrow> unat b < 144)"
  by (auto simp: second_byte_def tail_byte_def byte_order byte_num)

lemma split_64: "(n :: nat) div 4096 * 4096 + n div 64 mod 64 * 64 + n mod 64 = n"
proof -
  have "n div 64 = n div 64 div 64 * 64 + n div 64 mod 64" by (simp only: div_mult_mod_eq)
  moreover have "n div 64 div 64 = n div 4096" by (simp flip: div_mult2_eq)
  moreover have "n = n div 64 * 64 + n mod 64" by (simp only: div_mult_mod_eq)
  ultimately show ?thesis by linarith
qed

lemma split_64_4:
  "(n :: nat) div 262144 * 262144 + n div 4096 mod 64 * 4096 + n div 64 mod 64 * 64 + n mod 64 = n"
proof -
  have "n div 4096 = n div 4096 div 64 * 64 + n div 4096 mod 64" by (simp only: div_mult_mod_eq)
  moreover have "n div 4096 div 64 = n div 262144" by (simp flip: div_mult2_eq)
  ultimately show ?thesis using split_64 [of n] by linarith
qed

lemma reads2:
  "unat a = 192 + m \<Longrightarrow> unat b = 128 + n \<Longrightarrow> 2 \<le> m \<Longrightarrow> m < 32 \<Longrightarrow> n < 64 \<Longrightarrow>
    utf8_next [a, b] = Some (m * 64 + n, [])"
  by (simp add: byte_order second_unat code2_def)

lemma reads3:
  "unat a = 224 + l \<Longrightarrow> unat b = 128 + m \<Longrightarrow> unat c = 128 + n \<Longrightarrow> l < 16 \<Longrightarrow> m < 64 \<Longrightarrow> n < 64 \<Longrightarrow>
    l = 0 \<longrightarrow> 32 \<le> m \<Longrightarrow> utf8_next [a, b, c] = Some (l * 4096 + m * 64 + n, [])"
  by (simp add: byte_order second_unat tail_byte_def code3_def)

lemma reads4:
  "unat a = 240 + k \<Longrightarrow> unat b = 128 + l \<Longrightarrow> unat c = 128 + m \<Longrightarrow> unat d = 128 + n \<Longrightarrow>
    l < 64 \<Longrightarrow> m < 64 \<Longrightarrow> n < 64 \<Longrightarrow> k = 0 \<longrightarrow> 16 \<le> l \<Longrightarrow> k < 4 \<or> k = 4 \<and> l < 16 \<Longrightarrow>
    utf8_next [a, b, c, d] = Some (k * 262144 + l * 4096 + m * 64 + n, [])"
  by (auto simp: byte_order second_unat tail_byte_def code4_def)

definition encode8 :: "ulong \<Rightarrow> uchar list" where
  "encode8 cp = map ucast (the (PhEncodeUnicode PH_UNICODE_UTF8 cp))"

definition encode16 :: "ulong \<Rightarrow> ushort list" where
  "encode16 cp = map ucast (the (PhEncodeUnicode PH_UNICODE_UTF16 cp))"

lemma encode8_reads:
  assumes "unat cp \<le> 0x10ffff"
  shows "PhEncodeUnicode PH_UNICODE_UTF8 cp = Some (map ucast (encode8 cp))
    \<and> utf8_next (encode8 cp) = Some (unat cp, []) \<and> length (encode8 cp) \<le> 4"
proof -
  consider "unat cp < 0x80" | "0x80 \<le> unat cp" "unat cp < 0x800" | "0x800 \<le> unat cp" "unat cp < 0x10000"
    | "0x10000 \<le> unat cp" "unat cp \<le> 0x10ffff" using assms by linarith
  then show ?thesis
  proof cases
    case 1
    then show ?thesis by (simp add: PhEncodeUnicode_def encode8_def byte_order unat_narrow)
  next
    case 2
    then have n: "unat cp div 2 ^ 6 < 32" "2 \<le> unat cp div 2 ^ 6"
      by (simp_all add: div_less_iff_less_mult less_eq_div_iff_mult_less_eq)
    have "utf8_next [ucast (drop_bit 6 cp) + 0xc0, ucast (cp AND 0x3f) + 0x80]
        = Some (unat cp div 2 ^ 6 * 64 + unat cp mod 64, [])"
      by (rule reads2 [OF unat_lead(1) [OF n(1)] unat_cont n(2,1)]) simp
    then show ?thesis using 2 by (simp add: PhEncodeUnicode_def encode8_def byte_order)
  next
    case 3
    then have n: "unat cp div 2 ^ 12 < 16"
      by (simp_all add: div_less_iff_less_mult)
    have z: "unat cp div 2 ^ 12 = 0 \<longrightarrow> 32 \<le> unat (drop_bit 6 cp) mod 64"
      using 3 by (auto simp: unat_shifted div_eq_0_iff less_eq_div_iff_mult_less_eq div_less_iff_less_mult)
    have v: "unat cp div 2 ^ 12 * 4096 + unat (drop_bit 6 cp) mod 64 * 64 + unat cp mod 64 = unat cp"
      using split_64 [of "unat cp"] by (simp add: unat_shifted)
    have "utf8_next [ucast (drop_bit 12 cp) + 0xe0, ucast (drop_bit 6 cp AND 0x3f) + 0x80, ucast (cp AND 0x3f) + 0x80]
        = Some (unat cp div 2 ^ 12 * 4096 + unat (drop_bit 6 cp) mod 64 * 64 + unat cp mod 64, [])"
      by (rule reads3 [OF unat_lead(2) [OF n] unat_cont unat_cont n _ _ z]) simp_all
    then show ?thesis using 3 unfolding v by (simp add: PhEncodeUnicode_def encode8_def byte_order)
  next
    case 4
    let ?t = "unat cp div 262144" and ?r = "unat cp div 4096 mod 64"
    have "?t * 262144 + ?r * 4096 \<le> 0x10ffff" using split_64_4 [of "unat cp"] 4(2) by linarith
    then have "?t < 4 \<or> ?t = 4 \<and> ?r < 16" by linarith
    then have n: "unat cp div 2 ^ 18 < 8" "unat cp div 2 ^ 18 < 4 \<or> unat cp div 2 ^ 18 = 4 \<and> unat (drop_bit 12 cp) mod 64 < 16"
      by (auto simp: unat_shifted)
    have z: "unat cp div 2 ^ 18 = 0 \<longrightarrow> 16 \<le> unat (drop_bit 12 cp) mod 64"
      using 4 by (auto simp: unat_shifted div_eq_0_iff less_eq_div_iff_mult_less_eq div_less_iff_less_mult)
    have v: "unat cp div 2 ^ 18 * 262144 + unat (drop_bit 12 cp) mod 64 * 4096
        + unat (drop_bit 6 cp) mod 64 * 64 + unat cp mod 64 = unat cp"
      using split_64_4 [of "unat cp"] by (simp add: unat_shifted)
    have "utf8_next [ucast (drop_bit 18 cp) + 0xf0, ucast (drop_bit 12 cp AND 0x3f) + 0x80,
          ucast (drop_bit 6 cp AND 0x3f) + 0x80, ucast (cp AND 0x3f) + 0x80]
        = Some (unat cp div 2 ^ 18 * 262144 + unat (drop_bit 12 cp) mod 64 * 4096
        + unat (drop_bit 6 cp) mod 64 * 64 + unat cp mod 64, [])"
      by (rule reads4 [OF unat_lead(3) [OF n(1)] unat_cont unat_cont unat_cont _ _ _ z n(2)]) simp_all
    then show ?thesis using 4 unfolding v
      by (simp add: PhEncodeUnicode_def encode8_def byte_order PH_UNICODE_MAX_CODE_POINT_def)
  qed
qed

lemma encode16_total:
  assumes "unat cp \<le> 0x10ffff"
  shows "PhEncodeUnicode PH_UNICODE_UTF16 cp = Some (map ucast (encode16 cp)) \<and> length (encode16 cp) \<le> 2"
  using assms
  by (auto simp: PhEncodeUnicode_def encode16_def encodings byte_order PH_UNICODE_MAX_CODE_POINT_def)

lemma encode16_unit:
  assumes "unat cp < 0x10000"
  shows "encode16 cp = [ucast cp]"
  using assms by (simp add: PhEncodeUnicode_def encode16_def encodings byte_order)

lemma encode16_pair:
  assumes "high_unit a" "low_unit b" "unat cp = pair_code a b"
  shows "encode16 cp = [a, b]"
proof -
  obtain m n where mn: "unat a = 0xd800 + m" "m < 0x400" "unat b = 0xdc00 + n" "n < 0x400"
    using assms le_Suc_ex [of "0xd800" "unat a"] le_Suc_ex [of "0xdc00" "unat b"]
    by (auto simp: high_unit_def low_unit_def)
  then have cp: "unat cp = (64 + m) * 1024 + n" using assms(3) by (simp add: pair_code_def)
  have "unat cp mod 1024 = n" unfolding cp using mn(4) by (simp only: mod_mult_self3 mod_less)
  moreover have "unat cp div 1024 = 64 + m" unfolding cp using mn(4) by (simp only: div_mult_self3 div_less)
  ultimately have "unat (PH_UNICODE_UTF16_TO_HIGH_SURROGATE cp) = unat a"
    "unat (PH_UNICODE_UTF16_TO_LOW_SURROGATE cp) = unat b"
    using mn by (simp_all add: PH_UNICODE_UTF16_TO_HIGH_SURROGATE_def PH_UNICODE_UTF16_TO_LOW_SURROGATE_def
      unat_word_ariths unat_narrow unat_shifted unat_low10)
  then have "PH_UNICODE_UTF16_TO_HIGH_SURROGATE cp = a" "PH_UNICODE_UTF16_TO_LOW_SURROGATE cp = b"
    by (simp_all add: word_eq_iff_unsigned [where 'a = nat])
  then show ?thesis
    using cp mn by (simp add: PhEncodeUnicode_def encode16_def encodings byte_order PH_UNICODE_MAX_CODE_POINT_def)
qed

section \<open>The loops of the conversions\<close>

lemma size_fold:
  assumes "\<forall>cp \<in> set cps. PhEncodeUnicode e cp = Some (form cp)"
  shows "fold (size_body e k) cps (ok, n) = (ok, n + of_nat (length (concat (map form cps))) * k)"
  using assms by (induction cps arbitrary: n) (simp_all add: size_body_def algebra_simps)

lemma buffer_fold:
  assumes "\<forall>cp \<in> set cps. PhEncodeUnicode e cp = Some (map ucast (form cp))"
    "length (concat (map form cps)) \<le> unat (conv_remaining c)"
    "\<forall>cp \<in> set cps. map ucast (map ucast (form cp) :: ulong list) = form cp"
  shows "conv_result (fold (buffer_body e k) cps c) = conv_result c
    \<and> conv_out (fold (buffer_body e k) cps c) = conv_out c @ concat (map form cps)"
  using assms
proof (induction cps arbitrary: c)
  case (Cons cp cps)
  let ?n = "of_nat (length (form cp)) :: ulong64"
  let ?d = "buffer_body e k cp c"
  have n: "unat ?n = length (form cp)"
    using Cons(3) unsigned_less [of "conv_remaining c", where ?'a = nat]
    by (simp add: unsigned_of_nat take_bit_nat_eq_self)
  then have d: "?d = c\<lparr>conv_bytes := conv_bytes c + ?n * k, conv_out := conv_out c @ form cp,
      conv_remaining := conv_remaining c - ?n\<rparr>"
    using Cons(2-4) by (simp add: buffer_body_def Let_def word_le_nat_alt)
  have "unat (conv_remaining c - ?n) = unat (conv_remaining c) - length (form cp)"
    using n Cons(3) by (simp add: unat_sub word_le_nat_alt)
  then have "length (concat (map form cps)) \<le> unat (conv_remaining ?d)" using d Cons(3) by simp
  then show ?case using Cons(1) [of ?d] Cons(2,4) d by simp
qed simp

lemma code_bounds:
  "unat a < 0xe0 \<Longrightarrow> tail_byte b \<Longrightarrow> code2 a b \<le> 0x10ffff"
  "unat a < 0xf0 \<Longrightarrow> tail_byte b \<Longrightarrow> tail_byte c \<Longrightarrow> code3 a b c \<le> 0x10ffff"
  "unat a < 0xf5 \<Longrightarrow> second_byte a b \<Longrightarrow> tail_byte c \<Longrightarrow> tail_byte d \<Longrightarrow> code4 a b c d \<le> 0x10ffff"
proof -
  show "code2 a b \<le> 0x10ffff" if "unat a < 0xe0" "tail_byte b"
  proof -
    have "unat a - 192 \<le> 31" "unat b - 128 \<le> 63" using that by (auto simp: tail_byte_def byte_order)
    then show ?thesis unfolding code2_def by auto
  qed
  show "code3 a b c \<le> 0x10ffff" if "unat a < 0xf0" "tail_byte b" "tail_byte c"
  proof -
    have "unat a - 224 \<le> 15" "unat b - 128 \<le> 63" "unat c - 128 \<le> 63"
      using that by (auto simp: tail_byte_def byte_order)
    then show ?thesis unfolding code3_def by auto
  qed
  assume d: "unat a < 0xf5" "second_byte a b" "tail_byte c" "tail_byte d"
  then have "unat a - 240 \<le> 3 \<and> unat b - 128 \<le> 63 \<or> unat a - 240 = 4 \<and> unat b - 128 \<le> 15"
    by (cases "unat a = 244") (auto simp: second_unat)
  moreover have "unat c - 128 \<le> 63" "unat d - 128 \<le> 63" using d by (auto simp: tail_byte_def byte_order)
  ultimately show "code4 a b c d \<le> 0x10ffff" unfolding code4_def by auto
qed

lemma utf8_next_bound:
  assumes "utf8_next bs = Some (n, r)"
  shows "n \<le> 0x10ffff"
proof (cases bs)
  case (Cons a s)
  have "unat a < 256" using unsigned_less [of a, where ?'a = nat] by simp
  then have "unat a \<le> 0x10ffff" "bad_byte a \<le> 0x10ffff" by (simp_all add: bad_byte_def)
  then show ?thesis
    using assms Cons code_bounds
    by (auto simp: byte_order second_tail split: if_splits list.splits)
qed (use assms in simp)

lemma utf16_next_bound:
  assumes "utf16_next us = Some (n, r)"
  shows "n \<le> 0x10ffff"
proof (cases us)
  case (Cons a s)
  have "unat a \<le> 0x10ffff" using unsigned_less [of a, where ?'a = nat] by simp
  then show ?thesis
    using assms Cons by (auto simp: pair_code_def high_unit_def low_unit_def split: if_splits list.splits)
qed (use assms in simp)

section \<open>Whole strings\<close>

text \<open>The encoded forms of a list of code points.\<close>

definition utf8_form :: "nat list \<Rightarrow> uchar list" where
  "utf8_form ns = concat (map (\<lambda>n. encode8 (of_nat n)) ns)"

definition utf16_form :: "nat list \<Rightarrow> ushort list" where
  "utf16_form ns = concat (map (\<lambda>n. encode16 (of_nat n)) ns)"

lemma unat_of_nat_self: "of_nat (unat (w :: 'a::len word)) = w"
  by simp

lemma words_of_nats: "map unat cps = ns \<Longrightarrow> cps = map of_nat ns"
  by (induction cps arbitrary: ns) auto

lemma unat_code_point: "n \<le> 0x10ffff \<Longrightarrow> unat (of_nat n :: ulong) = n"
  by (simp add: unsigned_of_nat take_bit_nat_eq_self)

lemma concat_length: "\<forall>x \<in> set xs. length (f x) \<le> k \<Longrightarrow> length (concat (map f xs)) \<le> k * length xs"
  by (induction xs) auto

lemma utf8_form_reads:
  assumes "\<forall>n \<in> set ns. n \<le> 0x10ffff"
  shows "utf8_chars (utf8_form ns) = (ns, [])"
proof -
  have "utf8_chars (concat (map (\<lambda>n. encode8 (of_nat n)) ns)) = (map (\<lambda>n. n) ns, [])"
    using assms encode8_reads [of "of_nat _"] unat_code_point by (intro utf8.chars_concat) simp
  then show ?thesis by (simp add: utf8_form_def)
qed

lemma utf16_form_chars: "utf16_form (fst (utf16_chars us)) @ snd (utf16_chars us) = us"
proof (induction us rule: utf16_chars.induct)
  case (1 us)
  show ?case
  proof (cases "utf16_next us")
    case None
    then show ?thesis by (simp add: utf16_chars.simps [of us] utf16_form_def)
  next
    case (Some p)
    then obtain n r where p: "utf16_next us = Some (n, r)" by (cases p) simp
    have "encode16 (of_nat n) @ r = us"
    proof (cases us)
      case (Cons a s)
      have a: "unat a < 0x10000" using unsigned_less [of a, where ?'a = nat] by simp
      have one: "encode16 (of_nat (unat a)) = [a]"
        using encode16_unit [of "of_nat (unat a)"] a by (simp add: ucast_of_nat unsigned_of_nat take_bit_nat_eq_self flip: ucast_of_nat)
      have two: "high_unit a \<Longrightarrow> low_unit b \<Longrightarrow> encode16 (of_nat (pair_code a b)) = [a, b]" for b
        using pair_word [of a b] encode16_pair [of a b "of_nat (pair_code a b)"] unat_code_point
          utf16_next_bound [of "[a, b]"] by simp
      show ?thesis using p Cons one two by (auto split: if_splits list.splits)
    qed (use p in simp)
    moreover have "utf16_chars us = (n # fst (utf16_chars r), snd (utf16_chars r))"
      using p by (simp add: utf16_chars.simps [of us])
    ultimately show ?thesis using 1 [OF p refl] by (simp add: utf16_form_def)
  qed
qed

lemma utf16_rest: "snd (utf16_chars us) = (if us \<noteq> [] \<and> high_unit (last us) then [last us] else [])"
proof (induction us rule: utf16_chars.induct)
  case (1 us)
  show ?case
  proof (cases "utf16_next us")
    case None
    then show ?thesis by (auto simp: utf16_chars.simps [of us] utf16_held)
  next
    case (Some p)
    then obtain n r where p: "utf16_next us = Some (n, r)" by (cases p) simp
    have "(us \<noteq> [] \<and> high_unit (last us)) = (r \<noteq> [] \<and> high_unit (last r)) \<and> (r \<noteq> [] \<longrightarrow> last us = last r)"
      using p by (cases us) (auto simp: high_unit_def low_unit_def split: if_splits list.splits)
    then show ?thesis using 1 [OF p refl] p by (auto simp: utf16_chars.simps [of us])
  qed
qed

text \<open>The two passes of a conversion: the first counts what the second writes.\<close>

definition conversion_start :: "ulong64 \<Rightarrow> 'u conversion" where
  "conversion_start n = \<lparr>conv_result = True, conv_out = [], conv_remaining = n, conv_bytes = 0\<rparr>"

lemma two_passes:
  fixes form :: "ulong \<Rightarrow> 'u::len word list"
  assumes enc: "\<forall>cp \<in> set cps. PhEncodeUnicode e cp = Some (map ucast (form cp))"
      "\<forall>cp \<in> set cps. map ucast (map ucast (form cp) :: ulong list) = form cp"
    and room: "unat n = length (concat (map form cps))"
  shows "fold (size_body e k) cps (True, 0) = (True, n * k)"
    "conv_result (fold (buffer_body e k) cps (conversion_start n :: 'u word conversion))
     \<and> conv_out (fold (buffer_body e k) cps (conversion_start n :: 'u word conversion)) = concat (map form cps)"
proof -
  have n: "n = of_nat (length (concat (map form cps)))" using room by (metis unat_of_nat_self)
  have "length (concat (map (\<lambda>cp. map ucast (form cp) :: ulong list) cps)) = length (concat (map form cps))"
    by (simp add: length_concat comp_def)
  then show "fold (size_body e k) cps (True, 0) = (True, n * k)"
    using size_fold [OF enc(1), of k True 0] n by simp
  show "conv_result (fold (buffer_body e k) cps (conversion_start n :: 'u word conversion))
     \<and> conv_out (fold (buffer_body e k) cps (conversion_start n :: 'u word conversion)) = concat (map form cps)"
    using buffer_fold [OF enc(1) _ enc(2), of "conversion_start n :: 'u word conversion" k] room by (simp add: conversion_start_def)
qed

lemma utf8_to_utf16:
  assumes "length bs < 2 ^ 60"
  shows "\<exists>n. PhConvertUtf8ToUtf16Ex bs = Inr (Some (n, utf16_form (fst (utf8_chars bs))))
    \<and> unat n = 2 * length (utf16_form (fst (utf8_chars bs)))"
proof -
  let ?D = "PhInitializeUnicodeDecoder PH_UNICODE_UTF8" and ?ns = "fst (utf8_chars bs)"
  let ?cps = "map of_nat ?ns :: ulong list"
  have conv: "\<exists>E. convert_while body (map ucast bs) ?D s = Inr (fold body ?cps s, E)" for body s
    using utf8.convert [OF utf8_initial, of body bs s] by (auto dest!: words_of_nats)
  have bound: "\<forall>n \<in> set ?ns. n \<le> 0x10ffff"
    using utf8.chars_all [of "\<lambda>n. n \<le> 0x10ffff" _ bs] utf8_next_bound by blast
  have form: "concat (map encode16 ?cps) = utf16_form ?ns"
    by (simp add: utf16_form_def comp_def)
  have enc: "\<forall>cp \<in> set ?cps. PhEncodeUnicode PH_UNICODE_UTF16 cp = Some (map ucast (encode16 cp)) \<and> length (encode16 cp) \<le> 2"
    using bound encode16_total unat_code_point by auto
  have "length (utf16_form ?ns) \<le> 2 * length ?cps" unfolding form [symmetric] using enc by (intro concat_length) blast
  also have "\<dots> \<le> 2 * length bs" using utf8.chars_length [of bs] by simp
  finally have len: "length (utf16_form ?ns) < 2 ^ 62" using assms by simp
  let ?n = "of_nat (length (utf16_form ?ns)) :: ulong64"
  have n: "unat ?n = length (utf16_form ?ns)" "unat (?n * 2) = 2 * length (utf16_form ?ns)"
    using len by (simp_all add: unat_word_ariths unsigned_of_nat take_bit_nat_eq_self)
  then have "unat (?n * 2 div 2) = unat ?n" by (simp add: unat_div)
  then have half: "?n * 2 div 2 = ?n" by (simp only: word_unat_eq_iff)
  have "\<forall>cp \<in> set ?cps. PhEncodeUnicode PH_UNICODE_UTF16 cp = Some (map ucast (encode16 cp))"
    "\<forall>cp \<in> set ?cps. map ucast (map ucast (encode16 cp) :: ulong list) = encode16 cp"
    using enc by (auto simp: comp_def)
  note passes = two_passes [OF this, of ?n 2, unfolded form, OF n(1)]
  have "PhConvertUtf8ToUtf16Size bs = Inr (True, ?n * 2)"
    using conv [of "size_body PH_UNICODE_UTF16 2" "(True, 0)"] passes(1)
    by (auto simp: PhConvertUtf8ToUtf16Size_def)
  moreover obtain c where "PhConvertUtf8ToUtf16Buffer (?n * 2) bs = Inr c" "conv_result c" "conv_out c = utf16_form ?ns"
    using conv [of "buffer_body PH_UNICODE_UTF16 2 :: _ \<Rightarrow> ushort conversion \<Rightarrow> _" "conversion_start ?n"] passes(2)
    by (auto simp: PhConvertUtf8ToUtf16Buffer_def half conversion_start_def)
  ultimately show ?thesis using n(2) by (simp add: PhConvertUtf8ToUtf16Ex_def)
qed

lemma utf16_to_utf8:
  assumes "length us < 2 ^ 60"
  shows "\<exists>n. PhConvertUtf16ToUtf8Ex us = Inr (Some (n, utf8_form (fst (utf16_chars us))))
    \<and> unat n = length (utf8_form (fst (utf16_chars us)))
    \<and> length (utf8_form (fst (utf16_chars us))) \<le> 4 * length us"
proof -
  let ?D = "PhInitializeUnicodeDecoder PH_UNICODE_UTF16" and ?ns = "fst (utf16_chars us)"
  let ?cps = "map of_nat ?ns :: ulong list"
  have conv: "\<exists>E. convert_while body (map ucast us) ?D s = Inr (fold body ?cps s, E)" for body s
    using utf16.convert [OF utf16_initial, of body us s] by (auto dest!: words_of_nats)
  have bound: "\<forall>n \<in> set ?ns. n \<le> 0x10ffff"
    using utf16.chars_all [of "\<lambda>n. n \<le> 0x10ffff" _ us] utf16_next_bound by blast
  have form: "concat (map encode8 ?cps) = utf8_form ?ns"
    by (simp add: utf8_form_def comp_def)
  have enc: "\<forall>cp \<in> set ?cps. PhEncodeUnicode PH_UNICODE_UTF8 cp = Some (map ucast (encode8 cp)) \<and> length (encode8 cp) \<le> 4"
    using bound encode8_reads unat_code_point by auto
  have "length (utf8_form ?ns) \<le> 4 * length ?cps" unfolding form [symmetric] using enc by (intro concat_length) blast
  also have "\<dots> \<le> 4 * length us" using utf16.chars_length [of us] by simp
  finally have len: "length (utf8_form ?ns) \<le> 4 * length us" .
  let ?n = "of_nat (length (utf8_form ?ns)) :: ulong64"
  have n: "unat ?n = length (utf8_form ?ns)"
    using len assms by (simp add: unsigned_of_nat take_bit_nat_eq_self)
  have "\<forall>cp \<in> set ?cps. PhEncodeUnicode PH_UNICODE_UTF8 cp = Some (map ucast (encode8 cp))"
    "\<forall>cp \<in> set ?cps. map ucast (map ucast (encode8 cp) :: ulong list) = encode8 cp"
    using enc by (auto simp: comp_def)
  note passes = two_passes [OF this, of ?n 1, unfolded form, OF n]
  have "PhConvertUtf16ToUtf8Size us = Inr (True, ?n)"
    using conv [of "size_body PH_UNICODE_UTF8 1" "(True, 0)"] passes(1)
    by (auto simp: PhConvertUtf16ToUtf8Size_def)
  moreover obtain c where "PhConvertUtf16ToUtf8Buffer ?n us = Inr c" "conv_result c" "conv_out c = utf8_form ?ns"
    using conv [of "buffer_body PH_UNICODE_UTF8 1 :: _ \<Rightarrow> uchar conversion \<Rightarrow> _" "conversion_start ?n"] passes(2)
    by (auto simp: PhConvertUtf16ToUtf8Buffer_def conversion_start_def)
  ultimately show ?thesis using n len by (simp add: PhConvertUtf16ToUtf8Ex_def)
qed

definition ascii_unit :: "uchar \<Rightarrow> ulong \<Rightarrow> uchar list" where
  "ascii_unit r cp = (if cp < 0x80 then [ucast cp] else if r \<noteq> 0 then [r] else [])"

lemma ascii_unit_length: "length (ascii_unit r cp) \<le> 1"
  by (simp add: ascii_unit_def)

lemma ascii_fold:
  "fold (ascii_body r) cps (out, n) = (out @ concat (map (ascii_unit r) cps),
      n + of_nat (length (concat (map (ascii_unit r) cps))))"
proof (induction cps arbitrary: out n)
  case (Cons cp cps)
  have "ascii_body r cp (out, n) = (out @ ascii_unit r cp, n + of_nat (length (ascii_unit r cp)))"
    by (simp add: ascii_body_def ascii_unit_def)
  then show ?case using Cons by simp
qed simp

text \<open>ASCII bytes for a string of code points.\<close>

definition ascii_form :: "uchar \<Rightarrow> nat list \<Rightarrow> uchar list" where
  "ascii_form r ns = concat (map (\<lambda>n. if n < 0x80 then [of_nat n] else if r \<noteq> 0 then [r] else []) ns)"

lemma utf16_to_ascii:
  "\<exists>out. PhConvertUtf16ToAsciiEx us r = Inr (out, of_nat (length out))
    \<and> out = ascii_form r (fst (utf16_chars us)) \<and> length out \<le> length us"
proof -
  let ?ns = "fst (utf16_chars us)"
  obtain E cps where E: "convert_while (ascii_body r) (map ucast us) (PhInitializeUnicodeDecoder PH_UNICODE_UTF16) ([], 0)
      = Inr (fold (ascii_body r) cps ([], 0), E)" "map unat cps = ?ns"
    using utf16.convert [OF utf16_initial, of "ascii_body r" us "([], 0)"] by auto
  have "concat (map (ascii_unit r) cps) = ascii_form r ?ns"
    unfolding ascii_form_def E(2) [symmetric] by (induction cps) (simp_all add: ascii_unit_def word_less_nat_alt)
  moreover have "length (concat (map (ascii_unit r) cps)) \<le> length us"
    using concat_length [of cps "ascii_unit r" 1] utf16.chars_length [of us] E(2) [THEN arg_cong, of length]
      ascii_unit_length by simp
  ultimately show ?thesis using E(1) by (simp add: PhConvertUtf16ToAsciiEx_def ascii_fold)
qed

section \<open>Zero extension\<close>

lemma zero_extend_loop:
  "unat n = 4 * Suc k \<Longrightarrow> 4 * Suc k \<le> length xs \<Longrightarrow>
    PhZeroExtend_loop xs n out = Some (drop (4 * Suc k) xs, out @ map ucast (take (4 * Suc k) xs))"
proof (induction k arbitrary: n xs out)
  case 0
  then obtain a b c d ys where xs: "xs = a # b # c # d # ys"
    by (auto simp: numeral_eq_Suc Suc_le_length_iff)
  have "n = 4" using 0 by (simp add: word_unat_eq_iff)
  then show ?case using xs by simp
next
  case (Suc k)
  then obtain a b c d ys where xs: "xs = a # b # c # d # ys"
    by (auto simp: numeral_eq_Suc Suc_le_length_iff)
  have "4 \<le> n" using Suc(2) by (simp add: word_le_nat_alt)
  then have n: "unat (n - 4) = 4 * Suc k" using Suc(2) by (simp add: unat_sub)
  then have "n - 4 \<noteq> 0" by auto
  moreover have "4 * Suc k \<le> length ys" using Suc(3) xs by simp
  moreover have four: "4 * Suc (Suc k) = Suc (Suc (Suc (Suc (4 * Suc k))))" by simp
  ultimately show ?case using Suc(1) [OF n] unfolding four xs by (simp add: Let_def del: mult_Suc_right)
qed

lemma zero_extend_one: "k < length xs \<Longrightarrow>
    zero_extend_one (drop k xs, map ucast (take k xs)) = Some (drop (Suc k) xs, map ucast (take (Suc k) xs))"
  by (simp add: Cons_nth_drop_Suc [symmetric] take_Suc_conv_app_nth)

lemma zero_extend:
  assumes "unat n \<le> length xs"
  shows "PhZeroExtendToUtf16Buffer xs n = Some (map ucast (take (unat n) xs))"
proof -
  have "n AND 3 = n AND mask 2" by (simp add: mask_eq_exp_minus_1)
  then have r: "unat (n AND 3) = unat n mod 4"
    unfolding take_bit_eq_mask [symmetric] by (simp only: unsigned_take_bit_eq) (simp add: take_bit_eq_mod)
  have "- 4 = NOT (mask 2 :: ulong64)" by (simp add: mask_eq_exp_minus_1 not_eq_complement)
  moreover have "n AND NOT (mask 2) = push_bit 2 (drop_bit 2 n)"
  proof (rule bit_word_eqI)
    fix i assume "i < LENGTH(64)"
    then show "bit (n AND NOT (mask 2)) i = bit (push_bit 2 (drop_bit 2 n)) i"
    proof (cases "i < 2")
      case False
      then obtain j where "i = 2 + j" by (auto simp: not_less dest: le_Suc_ex)
      then show ?thesis by (auto simp: bit_and_iff bit_not_iff bit_mask_iff bit_push_bit_iff bit_drop_bit_eq)
    qed (auto simp: bit_and_iff bit_mask_iff bit_not_iff bit_push_bit_iff)
  qed
  moreover have d: "unat (drop_bit 2 n) = unat n div 4"
    unfolding unsigned_drop_bit_eq
    by (subst take_bit_nat_eq_self) (use unsigned_less [of n, where ?'a = nat] in \<open>simp_all add: drop_bit_eq_div\<close>)
  ultimately have q: "unat (n AND - 4) = 4 * (unat n div 4)"
    using unsigned_less [of n, where ?'a = nat] by (simp only: push_bit_eq_mult unat_word_ariths d) simp
  let ?m = "4 * (unat n div 4)"
  have start: "(if n AND - 4 \<noteq> 0 then PhZeroExtend_loop xs (n AND - 4) [] else Some (xs, []))
      = Some (drop ?m xs, map ucast (take ?m xs))"
  proof (cases "unat n div 4")
    case 0
    then have "n AND - 4 = 0" using q by (simp add: unat_eq_0)
    then show ?thesis using 0 by simp
  next
    case (Suc k)
    then have "n AND - 4 \<noteq> 0" using q by auto
    then show ?thesis using zero_extend_loop [of "n AND - 4" k xs "[]"] q Suc assms by simp
  qed
  have cases: "n AND 3 = 3 \<longleftrightarrow> unat n mod 4 = 3" "n AND 3 = 2 \<longleftrightarrow> unat n mod 4 = 2" "n AND 3 = 0 \<longleftrightarrow> unat n mod 4 = 0"
    using r by (simp_all add: word_unat_eq_iff)
  define M where "M = ?m"
  have m: "unat n = M + unat n mod 4" unfolding M_def by simp
  note start = start [folded M_def]
  have one: "zero_extend_one (drop k xs, map ucast (take k xs)) = Some (drop (Suc k) xs, map ucast (take (Suc k) xs))"
    if "k < unat n" for k using that assms by (intro zero_extend_one) simp
  consider "unat n mod 4 = 0" | "unat n mod 4 = 1" | "unat n mod 4 = 2" | "unat n mod 4 = 3" by linarith
  then show ?thesis
  proof cases
    case 1
    then have "unat n = M" "n AND 3 \<noteq> 3" "n AND 3 \<noteq> 2" "n AND 3 = 0" using m cases by simp_all
    then show ?thesis using start by (simp add: PhZeroExtendToUtf16Buffer_def)
  next
    case 2
    then have n: "unat n = Suc M" "n AND 3 \<noteq> 3" "n AND 3 \<noteq> 2" "n AND 3 \<noteq> 0" using m cases by simp_all
    then have "zero_extend_one (drop M xs, map ucast (take M xs)) = Some (drop (Suc M) xs, map ucast (take (Suc M) xs))"
      by (intro one) simp
    then show ?thesis using start n by (simp add: PhZeroExtendToUtf16Buffer_def)
  next
    case 3
    then have n: "unat n = Suc (Suc M)" "n AND 3 \<noteq> 3" "n AND 3 = 2" using m cases by simp_all
    then have "zero_extend_one (drop M xs, map ucast (take M xs)) = Some (drop (Suc M) xs, map ucast (take (Suc M) xs))"
      "zero_extend_one (drop (Suc M) xs, map ucast (take (Suc M) xs))
        = Some (drop (Suc (Suc M)) xs, map ucast (take (Suc (Suc M)) xs))"
      by (intro one; simp)+
    then show ?thesis using start n by (simp add: PhZeroExtendToUtf16Buffer_def)
  next
    case 4
    then have n: "unat n = Suc (Suc (Suc M))" "n AND 3 = 3" using m cases by simp_all
    then have "zero_extend_one (drop M xs, map ucast (take M xs)) = Some (drop (Suc M) xs, map ucast (take (Suc M) xs))"
      "zero_extend_one (drop (Suc M) xs, map ucast (take (Suc M) xs))
        = Some (drop (Suc (Suc M)) xs, map ucast (take (Suc (Suc M)) xs))"
      "zero_extend_one (drop (Suc (Suc M)) xs, map ucast (take (Suc (Suc M)) xs))
        = Some (drop (Suc (Suc (Suc M))) xs, map ucast (take (Suc (Suc (Suc M))) xs))"
      by (intro one; simp)+
    then show ?thesis using start n by (simp add: PhZeroExtendToUtf16Buffer_def)
  qed
qed

section \<open>The properties\<close>



text \<open>
  C11.  UTF-16 goes to UTF-8 and back unchanged, lone surrogates included, except that a
  high surrogate in the last place is lost.
\<close>

theorem PhConvertUtf16_roundtrip:
  assumes "length us < 2 ^ 57"
  shows "\<exists>n bs. PhConvertUtf16ToUtf8Ex us = Inr (Some (n, bs)) \<and> unat n = length bs
    \<and> (\<exists>m. PhConvertUtf8ToUtf16Ex bs =
          Inr (Some (m, if us \<noteq> [] \<and> high_unit (last us) then butlast us else us)))"
proof -
  let ?bs = "utf8_form (fst (utf16_chars us))"
  obtain n where n: "PhConvertUtf16ToUtf8Ex us = Inr (Some (n, ?bs))" "unat n = length ?bs" "length ?bs \<le> 4 * length us"
    using utf16_to_utf8 [of us] assms by auto
  have "utf8_chars ?bs = (fst (utf16_chars us), [])"
    using utf16.chars_all [of "\<lambda>n. n \<le> 0x10ffff" _ us] utf16_next_bound by (blast intro: utf8_form_reads)
  moreover obtain m where "PhConvertUtf8ToUtf16Ex ?bs = Inr (Some (m, utf16_form (fst (utf8_chars ?bs))))"
    using utf8_to_utf16 [of ?bs] n(3) assms by auto
  moreover have "utf16_form (fst (utf16_chars us)) = (if us \<noteq> [] \<and> high_unit (last us) then butlast us else us)"
    using utf16_form_chars [of us] utf16_rest [of us] by (auto dest: arg_cong [of _ _ butlast] split: if_splits)
  ultimately show ?thesis using n by auto
qed

theorem PhConvertUtf16_roundtrip_witness:
  "\<exists>n bs m. PhConvertUtf16ToUtf8Ex [0x41, 0xdc00, 0xd83d, 0xde00] = Inr (Some (n, bs))
    \<and> PhConvertUtf8ToUtf16Ex bs = Inr (Some (m, [0x41, 0xdc00, 0xd83d, 0xde00]))"
  using PhConvertUtf16_roundtrip [of "[0x41, 0xdc00, 0xd83d, 0xde00]"] by (auto simp: high_unit_def)

text \<open>
  What the encoder writes for a list of code points the decoder reads back, one by
  one: in UTF-8 for all of them, surrogates included.
\<close>

theorem PhEncodeUnicode_decodes:
  assumes "\<forall>cp \<in> set cps. unat cp \<le> 0x10ffff"
  shows "\<exists>bs E. map (PhEncodeUnicode PH_UNICODE_UTF8) cps = map (\<lambda>b. Some (map ucast b)) bs
    \<and> convert_while (\<lambda>cp out. out @ [cp]) (map ucast (concat bs :: uchar list))
        (PhInitializeUnicodeDecoder PH_UNICODE_UTF8) [] = Inr (cps, E)"
proof -
  have out: "fold (\<lambda>cp out. out @ [cp]) ds xs = xs @ ds" for ds xs :: "ulong list"
    by (induction ds arbitrary: xs) auto
  have "utf8_chars (concat (map encode8 cps)) = (map unat cps, [])"
    using assms encode8_reads by (intro utf8.chars_concat) blast
  then obtain E ds where "convert_while (\<lambda>cp out. out @ [cp]) (map ucast (concat (map encode8 cps)))
      (PhInitializeUnicodeDecoder PH_UNICODE_UTF8) [] = Inr (ds, E)" "map unat ds = map unat cps"
    using utf8.convert [OF utf8_initial, of "\<lambda>cp out. out @ [cp]" "concat (map encode8 cps)" "[]"] out by auto
  moreover from this(2) have "ds = cps" using words_of_nats [of ds] by (simp add: comp_def)
  moreover have "map (PhEncodeUnicode PH_UNICODE_UTF8) cps = map (\<lambda>b. Some (map ucast b)) (map encode8 cps)"
    using assms encode8_reads by simp
  ultimately show ?thesis by metis
qed

theorem PhEncodeUnicode_decodes_witness:
  "\<exists>bs E. map (PhEncodeUnicode PH_UNICODE_UTF8) [0x24, 0xd800, 0x10ffff] = map (\<lambda>b. Some (map ucast b)) bs
    \<and> convert_while (\<lambda>cp out. out @ [cp]) (map ucast (concat bs :: uchar list))
        (PhInitializeUnicodeDecoder PH_UNICODE_UTF8) [] = Inr ([0x24, 0xd800, 0x10ffff], E)"
  by (rule PhEncodeUnicode_decodes) simp

text \<open>
  C12.  A caller that fills the decoder while it holds the beginning of a four-byte
  sequence, as the result of \<open>PhWriteUnicodeDecoder\<close> allows, makes it raise a status: it
  cannot put back the bytes of the sequence it gives up.  The conversions write one unit at
  a time and never get there.
\<close>

theorem PhDecodeUnicodeDecoder_overrun:
  assumes "utf8_at D [a, b, c] [d, e, f, g]" "\<not> tail_byte d"
  shows "PhDecodeUnicodeDecoder D = Inl STATUS_UNSUCCESSFUL"
proof -
  obtain c4 where D: "utf8_core D 6 [a, b, c, c4] [d, e, f, g]"
    using assms(1) by (auto simp: utf8_at_def length_4 simp del: utf8_next.simps)
  obtain E where E: "PhpReadUnicodeDecoder D = Inr (Some (ucast d), E)" "utf8_core E 6 [a, b, c, c4] [e, f, g]"
    using core_read [OF D] by blast
  let ?E = "E\<lparr>Utf8_CodeUnit4 := d\<rparr>"
  have E4: "utf8_core ?E 6 [a, b, c, d] [e, f, g]" using core_set(5) [OF E(2), of d] by simp
  obtain F where F: "PhpUnreadUnicodeDecoder ?E (ucast d) = Inr F" "utf8_core F 6 [a, b, c, d] [d, e, f, g]"
    using core_unread [OF E4, of d] by auto
  have "PhpUnreadUnicodeDecoder F (ucast c) = Inl STATUS_UNSUCCESSFUL" by (rule core_full [OF F(2)]) simp
  then have "decode_error ?E 4 = Inl STATUS_UNSUCCESSFUL"
    using F(1) core_regs [OF F(2)] by (simp add: decode_error_def PhpDecodeUtf8Error_def)
  moreover have "PhDecodeUnicode_turn D = decode_error ?E 4"
    using D E assms(2) by (simp add: PhDecodeUnicode_turn_def utf8_core_def switches is_tail_byte)
  ultimately show ?thesis by (simp add: PhDecodeUnicodeDecoder.simps [of D])
qed

definition full_decoder :: unicode_decoder where
  "full_decoder = (PhInitializeUnicodeDecoder PH_UNICODE_UTF8)\<lparr>State := 6, InputCount := 4,
     Utf8_Input := [0x41, 0x41, 0x41, 0x41], Utf8_CodeUnit1 := 0xf0, Utf8_CodeUnit2 := 0x90, Utf8_CodeUnit3 := 0x80\<rparr>"

theorem PhDecodeUnicodeDecoder_overrun_witness:
  "PhDecodeUnicodeDecoder full_decoder = Inl STATUS_UNSUCCESSFUL"
proof (rule PhDecodeUnicodeDecoder_overrun)
  show "utf8_at full_decoder [0xf0, 0x90, 0x80] [0x41, 0x41, 0x41, 0x41]"
    by (auto simp: utf8_at_def utf8_core_def full_decoder_def PhInitializeUnicodeDecoder_def
      second_byte_def tail_byte_def)
qed (simp add: tail_byte_def)

text \<open>
  The conversion to ASCII keeps the ASCII characters and puts the replacement, if
  there is one, for each other; it writes no more bytes than the input has units, which is
  what it has allocated, and sets the length to what it has written.
\<close>

theorem PhConvertUtf16ToAsciiEx_correct:
  "\<exists>out. PhConvertUtf16ToAsciiEx us r = Inr (out, of_nat (length out))
    \<and> out = ascii_form r (fst (utf16_chars us)) \<and> length out \<le> length us"
  by (rule utf16_to_ascii)

text \<open>
  The unrolled zero extension reads the bytes it is given, no more, and gives each as
  a unit, whatever the remainder of the length by four.
\<close>

theorem PhZeroExtendToUtf16Buffer_correct:
  assumes "unat n \<le> length xs"
  shows "PhZeroExtendToUtf16Buffer xs n = Some (map ucast (take (unat n) xs))"
  using assms by (rule zero_extend)

theorem PhZeroExtendToUtf16Buffer_correct_witness:
  "PhZeroExtendToUtf16Buffer [1, 2, 3, 4, 5, 6, 7] 7 = Some [1, 2, 3, 4, 5, 6, 7]"
  using PhZeroExtendToUtf16Buffer_correct [of 7 "[1, 2, 3, 4, 5, 6, 7]"] by simp

end
