(* ===== verification/ZStrings.thy ===== *)
theory ZStrings
  imports StringProps Conversions
begin

text \<open>
  Copies of null-terminated strings, of bytes and of UTF-16 units, with a limit on the input and
  on the output (\<open>phlib/basesup.c\<close>).  Memory maps addresses to cells of one type, a cell of
  bytes or of units; \<open>s\<close> is the size of a cell.  \<open>PhAllocate\<close> returns the address of a fresh
  block, which is a parameter.
\<close>

unbundle bit_operations_syntax

section \<open>Cells\<close>

type_synonym byte_memory = "ulong64 \<Rightarrow> uchar option"

fun read_cells :: "ulong64 \<Rightarrow> (ulong64 \<Rightarrow> 'a option) \<Rightarrow> ulong64 \<Rightarrow> nat \<Rightarrow> 'a list option" where
  "read_cells s mem p 0 = Some []"
| "read_cells s mem p (Suc n) = do {
     c \<leftarrow> mem p;
     cs \<leftarrow> read_cells s mem (p + s) n;
     Some (c # cs)
   }"

fun write_cells :: "ulong64 \<Rightarrow> ulong64 \<Rightarrow> 'a list \<Rightarrow> (ulong64 \<Rightarrow> 'a option) \<Rightarrow> (ulong64 \<Rightarrow> 'a option) option" where
  "write_cells s p [] mem = Some mem"
| "write_cells s p (c # cs) mem =
     (case mem p of None \<Rightarrow> None | Some _ \<Rightarrow> write_cells s (p + s) cs (mem(p \<mapsto> c)))"

partial_function (option) strlen :: "byte_memory \<Rightarrow> ulong64 \<Rightarrow> ulong64 option" where
  "strlen mem p = do {
     c \<leftarrow> mem p;
     if c = 0 then Some 0 else do { n \<leftarrow> strlen mem (p + 1); Some (n + 1) }
   }"

text \<open>\<open>while (i < MaxCount && InputBuffer[i]) i++;\<close>\<close>

function count_limited :: "ulong64 \<Rightarrow> (ulong64 \<Rightarrow> 'a::zero option) \<Rightarrow> ulong64 \<Rightarrow> ulong64 \<Rightarrow> ulong64 \<Rightarrow> ulong64 option" where
  "count_limited s mem p MaxCount i = (
     if i < MaxCount then do {
       c \<leftarrow> mem (p + i * s);
       if c \<noteq> 0 then count_limited s mem p MaxCount (i + 1) else Some i
     }
     else Some i)"
  by auto
termination
  by (relation "measure (\<lambda>(s, m, p, n, i). unat n - unat i)") (auto simp: unat_inc word_less_nat_alt)

section \<open>Copies\<close>

text \<open>The result, the memory afterwards and the returned count.\<close>

definition PhCopyBytesZ ::
  "byte_memory \<Rightarrow> ulong64 \<Rightarrow> ulong64 \<Rightarrow> ulong64 \<Rightarrow> ulong64 \<Rightarrow> (bool \<times> byte_memory \<times> ulong64) option" where
  "PhCopyBytesZ mem InputBuffer MaxCount OutputBuffer OutputCount = do {
     i \<leftarrow> (if MaxCount \<noteq> SIZE_MAX then count_limited 1 mem InputBuffer MaxCount 0
          else strlen mem InputBuffer);
     if OutputBuffer \<noteq> NULL_PTR \<and> OutputCount \<ge> i + 1 then do {
       cs \<leftarrow> read_cells 1 mem InputBuffer (unat i);
       mem \<leftarrow> write_cells 1 OutputBuffer cs mem;
       mem \<leftarrow> write_cells 1 (OutputBuffer + i) [0] mem;
       Some (True, mem, i + 1)
     }
     else Some (False, mem, i + 1)
   }"

definition PhCopyStringZ ::
  "bool \<Rightarrow> memory \<Rightarrow> ulong64 \<Rightarrow> ulong64 \<Rightarrow> ulong64 \<Rightarrow> ulong64 \<Rightarrow> (bool \<times> memory \<times> ulong64) option" where
  "PhCopyStringZ vec mem InputBuffer MaxCount OutputBuffer OutputCount = do {
     i \<leftarrow> (if MaxCount \<noteq> SIZE_MAX then count_limited 2 mem InputBuffer MaxCount 0
          else PhCountStringZ vec mem InputBuffer);
     if OutputBuffer \<noteq> NULL_PTR \<and> OutputCount \<ge> i + 2 then do {
       cs \<leftarrow> read_cells 2 mem InputBuffer (unat (i * 2) div 2);
       mem \<leftarrow> write_cells 2 OutputBuffer cs mem;
       mem \<leftarrow> write_cells 2 (OutputBuffer + i * 2) [0] mem;
       Some (True, mem, i + 2)
     }
     else Some (False, mem, i + 2)
   }"

definition PhCopyStringZFromBytes ::
  "byte_memory \<Rightarrow> memory \<Rightarrow> ulong64 \<Rightarrow> ulong64 \<Rightarrow> ulong64 \<Rightarrow> ulong64 \<Rightarrow> (bool \<times> memory \<times> ulong64) option" where
  "PhCopyStringZFromBytes bytes mem InputBuffer MaxCount OutputBuffer OutputCount = do {
     i \<leftarrow> (if MaxCount \<noteq> SIZE_MAX then count_limited 1 bytes InputBuffer MaxCount 0
          else strlen bytes InputBuffer);
     if OutputBuffer \<noteq> NULL_PTR \<and> OutputCount \<ge> i + 1 then do {
       cs \<leftarrow> read_cells 1 bytes InputBuffer (unat i);
       units \<leftarrow> PhZeroExtendToUtf16Buffer cs i;
       mem \<leftarrow> write_cells 2 OutputBuffer units mem;
       mem \<leftarrow> write_cells 2 (OutputBuffer + i * 2) [0] mem;
       Some (True, mem, i + 1)
     }
     else Some (False, mem, i + 1)
   }"

text \<open>
  The duplicates return the new memory; the fresh block starts at \<open>newString\<close>.  The safe one
  returns \<open>NULL\<close>, here \<open>None\<close> inside of the result, when the block is \<open>NULL\<close>.
\<close>

definition PhDuplicateBytesZ :: "byte_memory \<Rightarrow> ulong64 \<Rightarrow> ulong64 \<Rightarrow> byte_memory option" where
  "PhDuplicateBytesZ mem newString String = do {
     n \<leftarrow> strlen mem String;
     cs \<leftarrow> read_cells 1 mem String (unat (n + 1));
     write_cells 1 newString cs mem
   }"

definition PhDuplicateBytesZSafe :: "byte_memory \<Rightarrow> ulong64 \<Rightarrow> ulong64 \<Rightarrow> byte_memory option option" where
  "PhDuplicateBytesZSafe mem newString String = do {
     n \<leftarrow> strlen mem String;
     if newString = NULL_PTR then Some None
     else do {
       cs \<leftarrow> read_cells 1 mem String (unat (n + 1));
       mem \<leftarrow> write_cells 1 newString cs mem;
       Some (Some mem)
     }
   }"

definition PhDuplicateStringZ :: "bool \<Rightarrow> memory \<Rightarrow> ulong64 \<Rightarrow> ulong64 \<Rightarrow> memory option" where
  "PhDuplicateStringZ vec mem newString String = do {
     n \<leftarrow> PhCountStringZ vec mem String;
     cs \<leftarrow> read_cells 2 mem String (unat (n * 2 + 2) div 2);
     write_cells 2 newString cs mem
   }"

section \<open>Reading and writing cells\<close>

definition cells_at :: "ulong64 \<Rightarrow> (ulong64 \<Rightarrow> 'a option) \<Rightarrow> ulong64 \<Rightarrow> 'a list \<Rightarrow> bool" where
  "cells_at s mem p cs \<longleftrightarrow> (\<forall>i < length cs. mem (p + of_nat i * s) = Some (cs ! i))"

definition cell_range :: "ulong64 \<Rightarrow> ulong64 \<Rightarrow> nat \<Rightarrow> ulong64 set" where
  "cell_range s p n = (\<lambda>i. p + of_nat i * s) ` {..<n}"

lemma cells_at_Nil [simp]: "cells_at s mem p []"
  by (simp add: cells_at_def)

lemma cells_at_Cons: "cells_at s mem p (c # cs) \<longleftrightarrow> mem p = Some c \<and> cells_at s mem (p + s) cs"
proof -
  have "(\<forall>i < Suc (length cs). Q i) \<longleftrightarrow> Q 0 \<and> (\<forall>i < length cs. Q (Suc i))" for Q
    by (metis less_Suc_eq_0_disj)
  then show ?thesis by (simp add: cells_at_def algebra_simps)
qed

lemma cells_at_append:
  "cells_at s mem p (cs @ ds) \<longleftrightarrow> cells_at s mem p cs \<and> cells_at s mem (p + of_nat (length cs) * s) ds"
  by (induction cs arbitrary: p) (simp_all add: cells_at_Cons algebra_simps)

lemma chars_cells: "chars_at mem p cs \<longleftrightarrow> cells_at 2 mem p cs"
  by (simp add: chars_at_iff cells_at_def mult.commute)

lemma read_cells: "cells_at s mem p cs \<Longrightarrow> n \<le> length cs \<Longrightarrow> read_cells s mem p n = Some (take n cs)"
proof (induction n arbitrary: p cs)
  case (Suc n)
  then obtain c ds where "cs = c # ds" by (cases cs) auto
  then show ?case using Suc.prems Suc.IH [of "p + s" ds] by (simp add: cells_at_Cons)
qed simp

lemma cell_range_Suc: "cell_range s p (Suc n) = insert p (cell_range s (p + s) n)"
  by (simp add: cell_range_def lessThan_Suc_eq_insert_0 image_image algebra_simps)

text \<open>Different indices are different addresses when the range does not wrap around.\<close>

lemma cell_apart:
  assumes "0 < unat s" "n * unat s < 2 ^ 64"
  shows "p \<notin> cell_range s (p + s) (n - 1)"
proof
  assume "p \<in> cell_range s (p + s) (n - 1)"
  then obtain i where i: "i < n - 1" "p = p + s + of_nat i * s" by (auto simp: cell_range_def)
  then have "of_nat (Suc i) * s = 0" by (simp add: algebra_simps)
  moreover have "Suc i * unat s < 2 ^ 64"
    using i(1) assms(2) by (meson Suc_leI less_imp_le less_le_trans mult_le_mono1 order_le_less_trans diff_le_self)
  then have "unat (of_nat (Suc i * unat s) :: ulong64) = Suc i * unat s" by (intro unat_of_nat_small)
  moreover have "of_nat (Suc i) * s = (of_nat (Suc i * unat s) :: ulong64)" by (simp add: distrib_right)
  ultimately show False using assms(1) by (metis mult_is_0 nat.simps(3) not_gr_zero unat_0)
qed

lemma write_cells:
  assumes "\<And>q. q \<in> cell_range s p (length cs) \<Longrightarrow> mem q \<noteq> None" "0 < unat s" "length cs * unat s < 2 ^ 64"
  obtains mem' where "write_cells s p cs mem = Some mem'" "cells_at s mem' p cs"
    "\<And>q. q \<notin> cell_range s p (length cs) \<Longrightarrow> mem' q = mem q"
    "\<And>q. mem' q = None \<longleftrightarrow> mem q = None"
  using assms(1,3)
proof (induction cs arbitrary: p mem thesis)
  case (Cons c cs)
  have p: "mem p \<noteq> None" using Cons.prems(2) by (simp add: cell_range_Suc)
  have apart: "p \<notin> cell_range s (p + s) (length cs)"
    using cell_apart [OF assms(2), of "Suc (length cs)" p] Cons.prems(3) by simp
  have "(mem(p \<mapsto> c)) q \<noteq> None" if "q \<in> cell_range s (p + s) (length cs)" for q
    using Cons.prems(2) [of q] that by (auto simp: cell_range_Suc)
  moreover have "length cs * unat s < 2 ^ 64" using Cons.prems(3) by simp
  ultimately obtain mem' where m: "write_cells s (p + s) cs (mem(p \<mapsto> c)) = Some mem'" "cells_at s mem' (p + s) cs"
    "\<And>q. q \<notin> cell_range s (p + s) (length cs) \<Longrightarrow> mem' q = (mem(p \<mapsto> c)) q"
    "\<And>q. mem' q = None \<longleftrightarrow> (mem(p \<mapsto> c)) q = None"
    using Cons.IH [of "p + s" "mem(p \<mapsto> c)"] by blast
  show ?case
  proof (rule Cons.prems(1) [of mem'])
    show "write_cells s p (c # cs) mem = Some mem'" using p m(1) by auto
    show "cells_at s mem' p (c # cs)" using m(2) m(3) [OF apart] by (simp add: cells_at_Cons)
    show "mem' q = mem q" if "q \<notin> cell_range s p (length (c # cs))" for q
      using that m(3) [of q] by (auto simp: cell_range_Suc)
    show "mem' q = None \<longleftrightarrow> mem q = None" for q using m(4) [of q] p by auto
  qed
qed simp

section \<open>Counting with a limit\<close>

declare count_limited.simps [simp del]

text \<open>The input: characters that are not null, and after them a null or the limit.\<close>

definition z_input :: "ulong64 \<Rightarrow> (ulong64 \<Rightarrow> 'a::zero option) \<Rightarrow> ulong64 \<Rightarrow> ulong64 \<Rightarrow> 'a list \<Rightarrow> bool" where
  "z_input s mem p MaxCount zs \<longleftrightarrow>
     cells_at s mem p zs \<and> 0 \<notin> set zs \<and> length zs < 2 ^ 62
     \<and> (mem (p + of_nat (length zs) * s) = Some 0 \<or> unat MaxCount \<le> length zs)"

lemma count_limited_from:
  assumes "z_input s mem p n zs" "unat i \<le> length zs" "unat i \<le> unat n"
  shows "count_limited s mem p n i = Some (of_nat (min (length zs) (unat n)))"
  using assms(2,3)
proof (induction "length zs - unat i" arbitrary: i)
  case 0
  then have i: "unat i = length zs" by simp
  then have "i = of_nat (length zs)" by (rule of_nat_unatI)
  then show ?case
    using 0 i assms(1) by (subst count_limited.simps) (auto simp: z_input_def word_less_nat_alt min_def)
next
  case (Suc k)
  have less: "unat i < length zs" using Suc.hyps(2) by simp
  show ?case
  proof (cases "i < n")
    case True
    have i: "unat (i + 1) = Suc (unat i)" using True by (rule unat_inc)
    have "mem (p + i * s) = Some (zs ! unat i)"
      using assms(1) less by (auto simp: z_input_def cells_at_def dest: spec [of _ "unat i"])
    moreover have "zs ! unat i \<noteq> 0" using assms(1) less nth_mem by (fastforce simp: z_input_def)
    moreover have "count_limited s mem p n (i + 1) = Some (of_nat (min (length zs) (unat n)))"
      using Suc.hyps(2) less True i by (intro Suc.hyps(1)) (simp_all add: word_less_nat_alt)
    ultimately show ?thesis using True by (subst count_limited.simps) simp
  next
    case False
    then have "unat i = unat n" using Suc.prems(2) by (simp add: word_less_nat_alt)
    then have "min (length zs) (unat n) = unat i" using less by simp
    then show ?thesis using False by (subst count_limited.simps) simp
  qed
qed

lemma count_limited:
  "z_input s mem p n zs \<Longrightarrow> count_limited s mem p n 0 = Some (of_nat (min (length zs) (unat n)))"
  by (rule count_limited_from) simp_all

lemma size_max_unlimited: "length zs < 2 ^ 62 \<Longrightarrow> min (length zs) (unat SIZE_MAX) = length zs"
  by (simp add: unsigned_minus_1_eq_mask mask_eq_exp_minus_1)

lemma z_input_terminated: "z_input s mem p SIZE_MAX zs \<Longrightarrow> cells_at s mem p (zs @ [0])"
  by (auto simp: z_input_def cells_at_append cells_at_Cons unsigned_minus_1_eq_mask mask_eq_exp_minus_1)

lemma strlen: "cells_at 1 mem p (zs @ [0]) \<Longrightarrow> 0 \<notin> set zs \<Longrightarrow> strlen mem p = Some (of_nat (length zs))"
proof (induction zs arbitrary: p)
  case Nil
  then show ?case by (simp add: strlen.simps [of mem p] cells_at_Cons)
next
  case (Cons z zs)
  then show ?case by (simp add: strlen.simps [of mem p] cells_at_Cons)
qed

text \<open>The count that the three functions start with.\<close>

lemma count_bytes:
  assumes "z_input 1 mem p n zs"
  shows "(if n \<noteq> SIZE_MAX then count_limited 1 mem p n 0 else strlen mem p) = Some (of_nat (min (length zs) (unat n)))"
proof (cases "n = SIZE_MAX")
  case True
  then have "strlen mem p = Some (of_nat (length zs))"
    using z_input_terminated [of 1 mem p zs] assms by (intro strlen) (simp_all add: z_input_def)
  then show ?thesis using True assms size_max_unlimited [of zs] by (simp add: z_input_def)
qed (use count_limited [OF assms] in simp)

lemma count_units:
  assumes "z_input 2 mem p n zs" "vec \<Longrightarrow> mapped_blocks mem \<and> even (unat p)"
  shows "(if n \<noteq> SIZE_MAX then count_limited 2 mem p n 0 else PhCountStringZ vec mem p)
    = Some (of_nat (min (length zs) (unat n)))"
proof (cases "n = SIZE_MAX")
  case True
  then have "PhCountStringZ vec mem p = Some (of_nat (length zs))"
    using z_input_terminated [of 2 mem p zs] assms
    by (intro count_string) (simp_all add: z_input_def chars_cells)
  then show ?thesis using True assms(1) size_max_unlimited [of zs] by (simp add: z_input_def)
qed (use count_limited [OF assms(1)] in simp)

section \<open>The copies\<close>

text \<open>What a copy of \<open>cs\<close> with its terminator leaves.\<close>

definition copied_to :: "ulong64 \<Rightarrow> ulong64 \<Rightarrow> 'a::zero list \<Rightarrow> (ulong64 \<Rightarrow> 'a option) \<Rightarrow> (ulong64 \<Rightarrow> 'a option) \<Rightarrow> bool" where
  "copied_to s p cs mem mem' \<longleftrightarrow>
     cells_at s mem' p (cs @ [0]) \<and> (\<forall>q. q \<notin> cell_range s p (Suc (length cs)) \<longrightarrow> mem' q = mem q)"

lemma cell_range_snoc: "cell_range s p (Suc n) = insert (p + of_nat n * s) (cell_range s p n)"
  by (simp add: cell_range_def lessThan_Suc)

lemma cell_range_mono: "m \<le> n \<Longrightarrow> cell_range s p m \<subseteq> cell_range s p n"
  by (auto simp: cell_range_def)

lemma write_terminated:
  assumes mapped: "\<And>q. q \<in> cell_range s p n \<Longrightarrow> mem q \<noteq> None" and s: "0 < unat s" "n * unat s < 2 ^ 64"
    and len: "length cs < n"
  obtains mem1 mem2 where "write_cells s p cs mem = Some mem1" "write_cells s (p + of_nat (length cs) * s) [0] mem1 = Some mem2"
    "copied_to s p cs mem mem2"
proof -
  have sub: "cell_range s p (length cs) \<subseteq> cell_range s p n" using len by (intro cell_range_mono) simp
  have size: "length cs * unat s < 2 ^ 64" using s(2) len by (meson le_less_trans less_imp_le mult_le_mono1)
  obtain mem1 where m1: "write_cells s p cs mem = Some mem1" "cells_at s mem1 p cs"
    "\<And>q. q \<notin> cell_range s p (length cs) \<Longrightarrow> mem1 q = mem q" "\<And>q. mem1 q = None \<longleftrightarrow> mem q = None"
    by (rule write_cells [OF _ s(1) size, of p mem]) (use mapped sub in blast)+
  let ?q = "p + of_nat (length cs) * s"
  let ?m2 = "mem1(?q \<mapsto> 0)"
  have "?q \<in> cell_range s p n" using len by (auto simp: cell_range_def)
  then have "mem1 ?q \<noteq> None" using mapped m1(4) by blast
  then have w: "write_cells s ?q [0] mem1 = Some ?m2" by auto
  have "?q \<noteq> p + of_nat i * s" if "i < length cs" for i
  proof
    assume eq: "?q = p + of_nat i * s"
    let ?r = "p + of_nat i * s"
    have a: "?q = ?r + s + of_nat (length cs - Suc i) * s"
      using that by (simp add: of_nat_diff algebra_simps)
    have "(length cs - i + 1) * unat s < 2 ^ 64"
      by (rule le_less_trans [OF mult_le_mono1 s(2)]) (use len in simp)
    then have b: "?r \<notin> cell_range s (?r + s) (length cs - i)"
      using cell_apart [OF s(1), of "length cs - i + 1" ?r] by simp
    have c: "?r + s + of_nat (length cs - Suc i) * s \<in> cell_range s (?r + s) (length cs - i)"
      unfolding cell_range_def by (rule image_eqI [where x = "length cs - Suc i"]) (use that in auto)
    have "?r \<in> cell_range s (?r + s) (length cs - i)"
      using c unfolding a [symmetric] eq .
    then show False using b by simp
  qed
  then have apart: "p + of_nat i * s \<noteq> ?q" if "i < length cs" for i
    using that by metis
  have "cells_at s ?m2 p cs" using m1(2) apart unfolding cells_at_def fun_upd_apply by simp
  then have "cells_at s ?m2 p (cs @ [0])"
    by (simp add: cells_at_append cells_at_Cons) (simp add: cells_at_def)?
  then have "copied_to s p cs mem ?m2"
    using m1(3) by (auto simp: copied_to_def cell_range_snoc)
  then show thesis using that m1(1) w by blast
qed

lemma take_taken: "take (length (take n zs)) zs = take n zs"
  by (simp add: min_def)

lemma taken_small: "length zs < 2 ^ 62 \<Longrightarrow> unat (of_nat (min (length zs) m) :: ulong64) = min (length zs) m"
  by (intro unat_of_nat_small) simp

lemma room: "length zs < 2 ^ 62 \<Longrightarrow> k \<le> 2 \<Longrightarrow>
  (of_nat (min (length zs) m) + of_nat k \<le> n) \<longleftrightarrow> min (length zs) m + k \<le> unat (n :: ulong64)"
  using unat_of_nat_small [of "min (length zs) m + k"] by (simp add: word_le_nat_alt)

lemma copy_bytes:
  assumes input: "z_input 1 mem p n zs" and out: "\<And>q. q \<in> cell_range 1 OutputBuffer (unat OutputCount) \<Longrightarrow> mem q \<noteq> None"
  defines "cs \<equiv> take (unat n) zs"
  obtains mem' where "PhCopyBytesZ mem p n OutputBuffer OutputCount
      = Some (OutputBuffer \<noteq> NULL_PTR \<and> length cs < unat OutputCount, mem', of_nat (length cs) + 1)"
    "if OutputBuffer \<noteq> NULL_PTR \<and> length cs < unat OutputCount then copied_to 1 OutputBuffer cs mem mem' else mem' = mem"
proof -
  have zs: "cells_at 1 mem p zs" "length zs < 2 ^ 62" using input by (simp_all add: z_input_def)
  have len: "min (length zs) (unat n) = length cs" "length cs \<le> length zs" "take (length cs) zs = cs"
    unfolding cs_def by (simp, simp, rule take_taken)
  have read: "read_cells 1 mem p (unat (of_nat (length cs) :: ulong64)) = Some cs"
    using read_cells [OF zs(1) len(2)] taken_small [OF zs(2), of "unat n"] unfolding len(1) len(3) by simp
  have fits: "(of_nat (length cs) + 1 \<le> OutputCount) \<longleftrightarrow> length cs < unat OutputCount"
    using room [OF zs(2), of 1 "unat n" OutputCount] unfolding len(1) by auto
  note count = count_bytes [OF input, unfolded len(1)]
  show thesis
  proof (cases "OutputBuffer \<noteq> NULL_PTR \<and> length cs < unat OutputCount")
    case True
    have size: "unat OutputCount * unat (1 :: ulong64) < 2 ^ 64" using unsigned_less [of OutputCount, where ?'a = nat] by simp
    obtain mem1 mem2 where w: "write_cells 1 OutputBuffer cs mem = Some mem1"
      "write_cells 1 (OutputBuffer + of_nat (length cs) * 1) [0] mem1 = Some mem2" "copied_to 1 OutputBuffer cs mem mem2"
      by (rule write_terminated [where s = 1 and p = OutputBuffer and n = "unat OutputCount" and mem = mem and cs = cs])
        (use out True size in auto)
    then show thesis
      using True count read fits by (intro that [of mem2]) (simp_all add: PhCopyBytesZ_def)
  next
    case False
    then show thesis using count fits by (intro that [of mem]) (auto simp: PhCopyBytesZ_def)
  qed
qed

lemma copies_units:
  assumes input: "z_input 2 mem p n zs" and vec: "vec \<longrightarrow> mapped_blocks mem \<and> even (unat p)"
    and out: "\<And>q. q \<in> cell_range 2 OutputBuffer (unat OutputCount) \<Longrightarrow> mem q \<noteq> None" "unat OutputCount < 2 ^ 63"
  defines "cs \<equiv> take (unat n) zs"
  obtains mem' where "PhCopyStringZ vec mem p n OutputBuffer OutputCount
      = Some (OutputBuffer \<noteq> NULL_PTR \<and> Suc (length cs) < unat OutputCount, mem', of_nat (length cs) + 2)"
    "if OutputBuffer \<noteq> NULL_PTR \<and> Suc (length cs) < unat OutputCount then copied_to 2 OutputBuffer cs mem mem' else mem' = mem"
proof -
  have zs: "cells_at 2 mem p zs" "length zs < 2 ^ 62" using input by (simp_all add: z_input_def)
  have len: "min (length zs) (unat n) = length cs" "length cs \<le> length zs" "take (length cs) zs = cs"
    unfolding cs_def by (simp, simp, rule take_taken)
  have "2 * length cs < 2 ^ 64" using zs(2) len(2) by simp
  then have "unat (of_nat (length cs) * 2 :: ulong64) = 2 * length cs"
    using unat_of_nat_small [of "2 * length cs"] by (simp add: mult.commute)
  then have read: "read_cells 2 mem p (unat (of_nat (length cs) * 2 :: ulong64) div 2) = Some cs"
    using read_cells [OF zs(1) len(2)] unfolding len(3) by simp
  have fits: "(of_nat (length cs) + 2 \<le> OutputCount) \<longleftrightarrow> Suc (length cs) < unat OutputCount"
    using room [OF zs(2), of 2 "unat n" OutputCount] unfolding len(1) by auto
  have count: "(if n \<noteq> SIZE_MAX then count_limited 2 mem p n 0 else PhCountStringZ vec mem p) = Some (of_nat (length cs))"
    using count_units [OF input, of vec] vec unfolding len(1) by blast
  show thesis
  proof (cases "OutputBuffer \<noteq> NULL_PTR \<and> Suc (length cs) < unat OutputCount")
    case True
    have size: "unat OutputCount * unat (2 :: ulong64) < 2 ^ 64" using out(2) by simp
    obtain mem1 mem2 where w: "write_cells 2 OutputBuffer cs mem = Some mem1"
      "write_cells 2 (OutputBuffer + of_nat (length cs) * 2) [0] mem1 = Some mem2" "copied_to 2 OutputBuffer cs mem mem2"
      by (rule write_terminated [where s = 2 and p = OutputBuffer and n = "unat OutputCount" and mem = mem and cs = cs])
        (use out(1) True size in auto)
    then show thesis
      using True count read fits by (intro that [of mem2]) (simp_all add: PhCopyStringZ_def)
  next
    case False
    then show thesis using count fits by (intro that [of mem]) (auto simp: PhCopyStringZ_def)
  qed
qed

lemma copy_from_bytes:
  assumes input: "z_input 1 bytes p n zs"
    and out: "\<And>q. q \<in> cell_range 2 OutputBuffer (unat OutputCount) \<Longrightarrow> mem q \<noteq> None" "unat OutputCount < 2 ^ 63"
  defines "cs \<equiv> take (unat n) zs"
  obtains mem' where "PhCopyStringZFromBytes bytes mem p n OutputBuffer OutputCount
      = Some (OutputBuffer \<noteq> NULL_PTR \<and> length cs < unat OutputCount, mem', of_nat (length cs) + 1)"
    "if OutputBuffer \<noteq> NULL_PTR \<and> length cs < unat OutputCount then copied_to 2 OutputBuffer (map ucast cs) mem mem' else mem' = mem"
proof -
  have zs: "cells_at 1 bytes p zs" "length zs < 2 ^ 62" using input by (simp_all add: z_input_def)
  have len: "min (length zs) (unat n) = length cs" "length cs \<le> length zs" "take (length cs) zs = cs"
    unfolding cs_def by (simp, simp, rule take_taken)
  have u: "unat (of_nat (length cs) :: ulong64) = length cs"
    using taken_small [OF zs(2), of "unat n"] unfolding len(1) .
  have read: "read_cells 1 bytes p (unat (of_nat (length cs) :: ulong64)) = Some cs"
    using read_cells [OF zs(1) len(2)] unfolding u len(3) .
  have fits: "(of_nat (length cs) + 1 \<le> OutputCount) \<longleftrightarrow> length cs < unat OutputCount"
    using room [OF zs(2), of 1 "unat n" OutputCount] unfolding len(1) by auto
  have extend: "PhZeroExtendToUtf16Buffer cs (of_nat (length cs)) = Some (map ucast cs)"
    using zero_extend [of "of_nat (length cs)" cs] u by simp
  note count = count_bytes [OF input, unfolded len(1)]
  show thesis
  proof (cases "OutputBuffer \<noteq> NULL_PTR \<and> length cs < unat OutputCount")
    case True
    have size: "unat OutputCount * unat (2 :: ulong64) < 2 ^ 64" using out(2) by simp
    obtain mem1 mem2 where w: "write_cells 2 OutputBuffer (map ucast cs) mem = Some mem1"
      "write_cells 2 (OutputBuffer + of_nat (length cs) * 2) [0] mem1 = Some mem2"
      "copied_to 2 OutputBuffer (map ucast cs) mem mem2"
      by (rule write_terminated [where s = 2 and p = OutputBuffer and n = "unat OutputCount" and mem = mem and cs = "map ucast cs"])
        (use out(1) True size in auto)
    then show thesis
      using True count read fits extend by (intro that [of mem2]) (simp_all add: PhCopyStringZFromBytes_def)
  next
    case False
    then show thesis using count fits by (intro that [of mem]) (auto simp: PhCopyStringZFromBytes_def)
  qed
qed

section \<open>Properties\<close>

text \<open>
  Copying a null-terminated string, or its first \<open>MaxCount\<close> characters, copies it with a
  terminator when there is room, touches nothing else, and otherwise leaves memory alone.  The
  room asked for and the count returned are one character more than the terminated string has: the
  size of the terminator in bytes is added to a count of characters.
\<close>

theorem PhCopyStringZ_correct:
  assumes "z_input 2 mem InputBuffer MaxCount zs"
    and "vec \<longrightarrow> mapped_blocks mem \<and> even (unat InputBuffer)"
    and "\<forall>q \<in> cell_range 2 OutputBuffer (unat OutputCount). mem q \<noteq> None" "unat OutputCount < 2 ^ 63"
    and "cs = take (unat MaxCount) zs"
  shows "\<exists>copied mem'. PhCopyStringZ vec mem InputBuffer MaxCount OutputBuffer OutputCount
      = Some (copied, mem', of_nat (length cs) + 2)
    \<and> (copied \<longleftrightarrow> OutputBuffer \<noteq> 0 \<and> length cs + 2 \<le> unat OutputCount)
    \<and> (if copied then copied_to 2 OutputBuffer cs mem mem' else mem' = mem)"
proof -
  obtain mem' where "PhCopyStringZ vec mem InputBuffer MaxCount OutputBuffer OutputCount
      = Some (OutputBuffer \<noteq> 0 \<and> Suc (length cs) < unat OutputCount, mem', of_nat (length cs) + 2)"
    "if OutputBuffer \<noteq> 0 \<and> Suc (length cs) < unat OutputCount then copied_to 2 OutputBuffer cs mem mem' else mem' = mem"
    unfolding assms(5) by (rule copies_units [OF assms(1,2) _ assms(4), of OutputBuffer]) (use assms(3) in blast)+
  then show ?thesis by auto
qed

lemma PhCopyStringZ_correct_witness:
  "\<exists>mem'. PhCopyStringZ False sample 12288 2 4096 5 = Some (True, mem', 4) \<and> copied_to 2 4096 [59, 32] sample mem'"
proof -
  have cells: "cells_at 2 sample 12288 [59, 32]" "cells_at 2 sample 4096 [65, 59, 98, 59, 32]"
    using sample_refs(3,1) by (simp_all add: holds_ref_def chars_cells)
  then have input: "z_input 2 sample 12288 2 [59, 32]" by (simp add: z_input_def)
  have out: "\<forall>q \<in> cell_range 2 4096 (unat (5 :: ulong64)). sample q \<noteq> None"
    using cells(2) by (auto simp: cells_at_def cell_range_def)
  show ?thesis
    using PhCopyStringZ_correct [OF input, of False 4096 5 "[59, 32]"] out by auto
qed

end
