(* ===== verification/StringBuilders.thy ===== *)
theory StringBuilders
  imports Digits ZStrings
begin

text \<open>
  String objects and the builders of \<open>phlib/basesup.c\<close>.  A string object owns a buffer with
  one cell more than its units, for the terminator; a builder is a string object that has room to
  grow.  What is appended is read from memory (theory StringRefs), the object's own buffer is a
  block (theory Buffers).  Reference counts are not part of the model.
\<close>

unbundle bit_operations_syntax

section \<open>String objects\<close>

record ph_string =
  StrLength :: ulong64
  StrBuffer :: "ushort block"

definition new_string :: "ushort list option \<Rightarrow> ulong64 \<Rightarrow> ph_string option" where
  "new_string data n = do { b \<leftarrow> PhCreateStringEx data n; Some \<lparr>StrLength = n, StrBuffer = b\<rparr> }"

definition PhCreateString :: "memory \<Rightarrow> ulong64 \<Rightarrow> ph_string option" where
  "PhCreateString mem B = do {
     n \<leftarrow> wcslen mem B;
     cs \<leftarrow> read_units mem B (unat (n * 2 div 2));
     new_string (Some cs) (n * 2)
   }"

definition PhCreateString2 :: "memory \<Rightarrow> ph_stringref \<Rightarrow> ph_string option" where
  "PhCreateString2 mem String = (
     if Length String = 0 then new_string None 0
     else do {
       cs \<leftarrow> read_units mem (Buffer String) (unat (Length String div 2));
       new_string (Some cs) (Length String)
     })"

text \<open>\<open>memcpy\<close> of \<open>n\<close> bytes from memory to a byte offset of a buffer.\<close>

definition copy_units :: "memory \<Rightarrow> ulong64 \<Rightarrow> ulong64 \<Rightarrow> ulong64 \<Rightarrow> ushort block \<Rightarrow> ushort block option" where
  "copy_units mem dst src n B = do {
     cs \<leftarrow> read_units mem src (unat (n div 2));
     copy_in (unat (dst div 2)) cs B
   }"

definition PhConcatStringRef2 :: "memory \<Rightarrow> ph_stringref \<Rightarrow> ph_stringref \<Rightarrow> ph_string option" where
  "PhConcatStringRef2 mem String1 String2 = (
     if Length String1 AND 1 \<noteq> 0 \<or> Length String2 AND 1 \<noteq> 0 then None
     else do {
       S \<leftarrow> new_string None (Length String1 + Length String2);
       b \<leftarrow> copy_units mem 0 (Buffer String1) (Length String1) (StrBuffer S);
       b \<leftarrow> copy_units mem (Length String1) (Buffer String2) (Length String2) b;
       Some (S\<lparr>StrBuffer := b\<rparr>)
     })"

definition PhConcatStringRef3 ::
  "memory \<Rightarrow> ph_stringref \<Rightarrow> ph_stringref \<Rightarrow> ph_stringref \<Rightarrow> ph_string option" where
  "PhConcatStringRef3 mem String1 String2 String3 = (
     if Length String1 AND 1 \<noteq> 0 \<or> Length String2 AND 1 \<noteq> 0 \<or> Length String3 AND 1 \<noteq> 0 then None
     else do {
       S \<leftarrow> new_string None (Length String1 + Length String2 + Length String3);
       let buffer = 0;
       b \<leftarrow> copy_units mem buffer (Buffer String1) (Length String1) (StrBuffer S);
       let buffer = buffer + Length String1;
       b \<leftarrow> copy_units mem buffer (Buffer String2) (Length String2) b;
       let buffer = buffer + Length String2;
       b \<leftarrow> copy_units mem buffer (Buffer String3) (Length String3) b;
       Some (S\<lparr>StrBuffer := b\<rparr>)
     })"

definition PhConcatStringRefZ :: "memory \<Rightarrow> ph_stringref \<Rightarrow> ulong64 \<Rightarrow> ph_string option" where
  "PhConcatStringRefZ mem String1 String2 = do {
     string \<leftarrow> PhInitializeStringRef mem String2;
     PhConcatStringRef2 mem String1 string
   }"

definition PhConcatStrings2 :: "bool \<Rightarrow> memory \<Rightarrow> ulong64 \<Rightarrow> ulong64 \<Rightarrow> ph_string option" where
  "PhConcatStrings2 vec mem String1 String2 = do {
     n1 \<leftarrow> PhCountStringZ vec mem String1;
     n2 \<leftarrow> PhCountStringZ vec mem String2;
     let (length1, length2) = (n1 * 2, n2 * 2);
     S \<leftarrow> new_string None (length1 + length2);
     b \<leftarrow> copy_units mem 0 String1 length1 (StrBuffer S);
     b \<leftarrow> copy_units mem length1 String2 length2 b;
     Some (S\<lparr>StrBuffer := b\<rparr>)
   }"

text \<open>
  Any number of strings: the argument list is a list, read once per loop.  The lengths of the
  first sixteen are remembered from the first loop to the second.
\<close>

definition PH_CONCAT_STRINGS_LENGTH_CACHE_SIZE :: ulong where
  "PH_CONCAT_STRINGS_LENGTH_CACHE_SIZE = 16"

function PhConcatStrings_measure ::
  "bool \<Rightarrow> memory \<Rightarrow> ulong64 list \<Rightarrow> ulong \<Rightarrow> ulong \<Rightarrow> ulong64 \<Rightarrow> ulong64 block \<Rightarrow> (ulong64 \<times> ulong64 block) option" where
  "PhConcatStrings_measure vec mem args n i totalLength cachedLengths = (
     if i < n then
       case args of
         [] \<Rightarrow> None
       | arg # args \<Rightarrow> do {
           k \<leftarrow> PhCountStringZ vec mem arg;
           let stringLength = k * 2;
           cachedLengths \<leftarrow>
             (if i < PH_CONCAT_STRINGS_LENGTH_CACHE_SIZE then write_cell (unat i) stringLength cachedLengths
              else Some cachedLengths);
           PhConcatStrings_measure vec mem args n (i + 1) (totalLength + stringLength) cachedLengths
         }
     else Some (totalLength, cachedLengths))"
  by pat_completeness auto
termination
  by (relation "measure (\<lambda>(v, m, a, n, i, t, c). unat n - unat i)") (auto simp: unat_inc word_less_nat_alt)

function PhConcatStrings_append ::
  "bool \<Rightarrow> memory \<Rightarrow> ulong64 list \<Rightarrow> ulong \<Rightarrow> ulong \<Rightarrow> ulong64 \<Rightarrow> ulong64 block \<Rightarrow> ushort block \<Rightarrow> ushort block option" where
  "PhConcatStrings_append vec mem args n i totalLength cachedLengths b = (
     if i < n then
       case args of
         [] \<Rightarrow> None
       | arg # args \<Rightarrow> do {
           stringLength \<leftarrow>
             (if i < PH_CONCAT_STRINGS_LENGTH_CACHE_SIZE then read_cell cachedLengths (unat i)
              else do { k \<leftarrow> PhCountStringZ vec mem arg; Some (k * 2) });
           b \<leftarrow> copy_units mem totalLength arg stringLength b;
           PhConcatStrings_append vec mem args n (i + 1) (totalLength + stringLength) cachedLengths b
         }
     else Some b)"
  by pat_completeness auto
termination
  by (relation "measure (\<lambda>(v, m, a, n, i, t, c, b). unat n - unat i)") (auto simp: unat_inc word_less_nat_alt)

definition PhConcatStrings_V :: "bool \<Rightarrow> memory \<Rightarrow> ulong \<Rightarrow> ulong64 list \<Rightarrow> ph_string option" where
  "PhConcatStrings_V vec mem n args = do {
     (totalLength, cachedLengths) \<leftarrow>
       PhConcatStrings_measure vec mem args n 0 0 (alloc_block (unat PH_CONCAT_STRINGS_LENGTH_CACHE_SIZE));
     S \<leftarrow> new_string None totalLength;
     b \<leftarrow> PhConcatStrings_append vec mem args n 0 0 cachedLengths (StrBuffer S);
     Some (S\<lparr>StrBuffer := b\<rparr>)
   }"

definition PhConcatStrings :: "bool \<Rightarrow> memory \<Rightarrow> ulong \<Rightarrow> ulong64 list \<Rightarrow> ph_string option" where
  "PhConcatStrings vec mem n args = PhConcatStrings_V vec mem n args"

section \<open>The string builder\<close>

record string_builder =
  AllocatedLength :: ulong64
  BString :: ph_string

definition PhInitializeStringBuilder :: "ulong64 \<Rightarrow> string_builder option" where
  "PhInitializeStringBuilder InitialCapacity = (
     let InitialCapacity = (if InitialCapacity AND 1 \<noteq> 0 then InitialCapacity + 1 else InitialCapacity) in do {
       S \<leftarrow> new_string None InitialCapacity;
       b \<leftarrow> write_cell 0 0 (StrBuffer S);
       Some \<lparr>AllocatedLength = InitialCapacity, BString = \<lparr>StrLength = 0, StrBuffer = b\<rparr>\<rparr>
     })"

definition PhFinalStringBuilderString :: "string_builder \<Rightarrow> ph_string" where
  "PhFinalStringBuilderString sb = BString sb"

text \<open>\<open>memcpy\<close> between two buffers, with the cells nobody has written.\<close>

definition copy_block :: "nat \<Rightarrow> 'a block \<Rightarrow> 'a block \<Rightarrow> 'a block option" where
  "copy_block n old new =
     (if n \<le> length old \<and> n \<le> length new then Some (overwrite 0 (take n old) new) else None)"

definition PhpResizeStringBuilder :: "string_builder \<Rightarrow> ulong64 \<Rightarrow> string_builder option" where
  "PhpResizeStringBuilder sb NewCapacity = (
     let a = AllocatedLength sb * 2;
         a = (if a < NewCapacity then NewCapacity else a)
     in do {
       newString \<leftarrow> new_string None a;
       b \<leftarrow> copy_block (unat ((StrLength (BString sb) + 2) div 2)) (StrBuffer (BString sb)) (StrBuffer newString);
       Some \<lparr>AllocatedLength = a, BString = \<lparr>StrLength = StrLength (BString sb), StrBuffer = b\<rparr>\<rparr>
     })"

definition PhpWriteNullTerminatorStringBuilder :: "string_builder \<Rightarrow> string_builder option" where
  "PhpWriteNullTerminatorStringBuilder sb = (
     if StrLength (BString sb) AND 1 \<noteq> 0 then None
     else do {
       b \<leftarrow> write_cell (unat (StrLength (BString sb) div 2)) 0 (StrBuffer (BString sb));
       Some (sb\<lparr>BString := (BString sb)\<lparr>StrBuffer := b\<rparr>\<rparr>)
     })"

text \<open>Making room for \<open>n\<close> more bytes, and ending an operation that added \<open>n\<close> bytes.\<close>

definition reserve_builder :: "string_builder \<Rightarrow> ulong64 \<Rightarrow> string_builder option" where
  "reserve_builder sb n =
     (if AllocatedLength sb < StrLength (BString sb) + n
      then PhpResizeStringBuilder sb (StrLength (BString sb) + n) else Some sb)"

definition finish_builder :: "string_builder \<Rightarrow> ushort block \<Rightarrow> ulong64 \<Rightarrow> string_builder option" where
  "finish_builder sb b n =
     PhpWriteNullTerminatorStringBuilder
       (sb\<lparr>BString := \<lparr>StrLength = StrLength (BString sb) + n, StrBuffer = b\<rparr>\<rparr>)"

definition PhAppendStringBuilderEx :: "memory \<Rightarrow> string_builder \<Rightarrow> ulong64 \<Rightarrow> ulong64 \<Rightarrow> string_builder option" where
  "PhAppendStringBuilderEx mem sb String n = (
     if n = 0 then Some sb
     else do {
       sb \<leftarrow> reserve_builder sb n;
       b \<leftarrow> (if String \<noteq> NULL_PTR then copy_units mem (StrLength (BString sb)) String n (StrBuffer (BString sb))
            else Some (StrBuffer (BString sb)));
       finish_builder sb b n
     })"

definition PhAppendStringBuilder :: "memory \<Rightarrow> string_builder \<Rightarrow> ph_stringref \<Rightarrow> string_builder option" where
  "PhAppendStringBuilder mem sb String = PhAppendStringBuilderEx mem sb (Buffer String) (Length String)"

definition PhAppendStringBuilder2 :: "bool \<Rightarrow> memory \<Rightarrow> string_builder \<Rightarrow> ulong64 \<Rightarrow> string_builder option" where
  "PhAppendStringBuilder2 vec mem sb String = do {
     n \<leftarrow> PhCountStringZ vec mem String;
     PhAppendStringBuilderEx mem sb String (n * 2)
   }"

definition PhAppendCharStringBuilder :: "string_builder \<Rightarrow> ushort \<Rightarrow> string_builder option" where
  "PhAppendCharStringBuilder sb c = do {
     sb \<leftarrow> reserve_builder sb 2;
     b \<leftarrow> write_cell (unat (StrLength (BString sb) div 2)) c (StrBuffer (BString sb));
     finish_builder sb b 2
   }"

definition PhAppendCharStringBuilder2 :: "string_builder \<Rightarrow> ushort \<Rightarrow> ulong64 \<Rightarrow> string_builder option" where
  "PhAppendCharStringBuilder2 sb c n = (
     if n = 0 then Some sb
     else do {
       sb \<leftarrow> reserve_builder sb (n * 2);
       b \<leftarrow> copy_in (unat (StrLength (BString sb) div 2)) (replicate (unat n) c) (StrBuffer (BString sb));
       finish_builder sb b (n * 2)
     })"

definition PhInsertStringBuilderEx ::
  "memory \<Rightarrow> string_builder \<Rightarrow> ulong64 \<Rightarrow> ulong64 \<Rightarrow> ulong64 \<Rightarrow> string_builder option" where
  "PhInsertStringBuilderEx mem sb Index String n = (
     if n = 0 then Some sb
     else do {
       sb \<leftarrow> reserve_builder sb n;
       b \<leftarrow> (if Index * 2 < StrLength (BString sb)
            then move_in (unat (Index + n div 2)) (unat Index)
              (unat ((StrLength (BString sb) - Index * 2) div 2)) (StrBuffer (BString sb))
            else Some (StrBuffer (BString sb)));
       b \<leftarrow> (if String \<noteq> NULL_PTR then copy_units mem (Index * 2) String n b else Some b);
       finish_builder sb b n
     })"

definition PhInsertStringBuilder ::
  "memory \<Rightarrow> string_builder \<Rightarrow> ulong64 \<Rightarrow> ph_stringref \<Rightarrow> string_builder option" where
  "PhInsertStringBuilder mem sb Index String = PhInsertStringBuilderEx mem sb Index (Buffer String) (Length String)"

definition PhInsertStringBuilder2 ::
  "bool \<Rightarrow> memory \<Rightarrow> string_builder \<Rightarrow> ulong64 \<Rightarrow> ulong64 \<Rightarrow> string_builder option" where
  "PhInsertStringBuilder2 vec mem sb Index String = do {
     n \<leftarrow> PhCountStringZ vec mem String;
     PhInsertStringBuilderEx mem sb Index String (n * 2)
   }"

definition PhRemoveStringBuilder :: "string_builder \<Rightarrow> ulong64 \<Rightarrow> ulong64 \<Rightarrow> string_builder option" where
  "PhRemoveStringBuilder sb StartIndex n = do {
     b \<leftarrow> move_in (unat StartIndex) (unat (StartIndex + n))
       (unat ((StrLength (BString sb) - (n + StartIndex) * 2) div 2)) (StrBuffer (BString sb));
     PhpWriteNullTerminatorStringBuilder
       (sb\<lparr>BString := \<lparr>StrLength = StrLength (BString sb) - n * 2, StrBuffer = b\<rparr>\<rparr>)
   }"

definition PhRemoveEndStringBuilder :: "string_builder \<Rightarrow> ulong64 \<Rightarrow> string_builder option" where
  "PhRemoveEndStringBuilder sb n = PhRemoveStringBuilder sb (StrLength (BString sb) div 2 - n) n"

section \<open>The byte string builder\<close>

record ph_bytes =
  BytesLength :: ulong64
  BytesBuffer :: "uchar block"

definition PhCreateBytesEx :: "uchar list option \<Rightarrow> ulong64 \<Rightarrow> ph_bytes option" where
  "PhCreateBytesEx data n = do {
     b \<leftarrow> write_cell (unat n) 0 (alloc_block (unat n + 1));
     b \<leftarrow> (case data of
            None \<Rightarrow> Some b
          | Some bs \<Rightarrow> do { bs \<leftarrow> items_from bs (unat n); copy_in 0 bs b });
     Some \<lparr>BytesLength = n, BytesBuffer = b\<rparr>
   }"

definition PhCreateBytes :: "byte_memory \<Rightarrow> ulong64 \<Rightarrow> ph_bytes option" where
  "PhCreateBytes mem B = do {
     n \<leftarrow> strlen mem B;
     bs \<leftarrow> read_cells 1 mem B (unat n);
     PhCreateBytesEx (Some bs) n
   }"

record bytes_builder =
  BAllocatedLength :: ulong64
  Bytes :: ph_bytes

definition PhInitializeBytesBuilder :: "ulong64 \<Rightarrow> bytes_builder option" where
  "PhInitializeBytesBuilder InitialCapacity = do {
     B \<leftarrow> PhCreateBytesEx None InitialCapacity;
     b \<leftarrow> write_cell 0 0 (BytesBuffer B);
     Some \<lparr>BAllocatedLength = InitialCapacity, Bytes = \<lparr>BytesLength = 0, BytesBuffer = b\<rparr>\<rparr>
   }"

definition PhFinalBytesBuilderBytes :: "bytes_builder \<Rightarrow> ph_bytes" where
  "PhFinalBytesBuilderBytes bb = Bytes bb"

definition PhpResizeBytesBuilder :: "bytes_builder \<Rightarrow> ulong64 \<Rightarrow> bytes_builder option" where
  "PhpResizeBytesBuilder bb NewCapacity = (
     let a = BAllocatedLength bb * 2;
         a = (if a < NewCapacity then NewCapacity else a)
     in do {
       newBytes \<leftarrow> PhCreateBytesEx None a;
       b \<leftarrow> copy_block (unat (BytesLength (Bytes bb) + 1)) (BytesBuffer (Bytes bb)) (BytesBuffer newBytes);
       Some \<lparr>BAllocatedLength = a, Bytes = \<lparr>BytesLength = BytesLength (Bytes bb), BytesBuffer = b\<rparr>\<rparr>
     })"

definition PhpWriteNullTerminatorBytesBuilder :: "bytes_builder \<Rightarrow> bytes_builder option" where
  "PhpWriteNullTerminatorBytesBuilder bb = do {
     b \<leftarrow> write_cell (unat (BytesLength (Bytes bb))) 0 (BytesBuffer (Bytes bb));
     Some (bb\<lparr>Bytes := (Bytes bb)\<lparr>BytesBuffer := b\<rparr>\<rparr>)
   }"

text \<open>\<open>ALIGN_UP_BY\<close>\<close>

definition ALIGN_UP_BY :: "ulong64 \<Rightarrow> ulong64 \<Rightarrow> ulong64" where
  "ALIGN_UP_BY x a = (x + a - 1) AND NOT (a - 1)"

text \<open>The builder and the offset of the appended bytes.\<close>

definition PhAppendBytesBuilderEx ::
  "byte_memory \<Rightarrow> bytes_builder \<Rightarrow> ulong64 \<Rightarrow> ulong64 \<Rightarrow> ulong64 \<Rightarrow> (bytes_builder \<times> ulong64) option" where
  "PhAppendBytesBuilderEx mem bb B n Alignment = (
     let currentLength = BytesLength (Bytes bb) in
     if n = 0 then Some (bb, currentLength)
     else do {
       let currentLength = (if Alignment \<noteq> 0 then ALIGN_UP_BY currentLength Alignment else currentLength);
       bb \<leftarrow> (if BAllocatedLength bb < currentLength + n
             then PhpResizeBytesBuilder bb (currentLength + n) else Some bb);
       b \<leftarrow> (if B \<noteq> NULL_PTR then do {
              bs \<leftarrow> read_cells 1 mem B (unat n);
              copy_in (unat currentLength) bs (BytesBuffer (Bytes bb))
            }
            else Some (BytesBuffer (Bytes bb)));
       bb \<leftarrow> PhpWriteNullTerminatorBytesBuilder
              (bb\<lparr>Bytes := \<lparr>BytesLength = currentLength + n, BytesBuffer = b\<rparr>\<rparr>);
       Some (bb, currentLength)
     })"

definition PhAppendBytesBuilder :: "byte_memory \<Rightarrow> bytes_builder \<Rightarrow> ulong64 \<Rightarrow> ulong64 \<Rightarrow> bytes_builder option" where
  "PhAppendBytesBuilder mem bb B n = do { r \<leftarrow> PhAppendBytesBuilderEx mem bb B n 0; Some (fst r) }"

definition PhAppendBytesBuilder2 :: "byte_memory \<Rightarrow> bytes_builder \<Rightarrow> ulong64 \<Rightarrow> bytes_builder option" where
  "PhAppendBytesBuilder2 mem bb B = do { n \<leftarrow> strlen mem B; PhAppendBytesBuilder mem bb B n }"

end
