(* ===== verification/BuilderProps.thy ===== *)
theory BuilderProps
  imports StringBuilders
begin

text \<open>
  What a string object and a string builder hold, and that every operation of the builder keeps
  it: the history of a builder is a history of list operations.
\<close>

unbundle bit_operations_syntax

section \<open>Lengths in bytes\<close>

lemma and_1_even: "n AND 1 = (0 :: ulong64) \<longleftrightarrow> even (unat n)"
proof -
  have "n AND 1 = n mod 2" by (rule and_one_eq)
  moreover have "unat (n mod 2) = unat n mod 2" by (simp add: unat_mod)
  ultimately show ?thesis by (metis even_iff_mod_2_eq_zero unat_0 unat_eq_0)
qed

lemma even_bytes: "unat (n :: ulong64) = 2 * k \<Longrightarrow> n AND 1 = 0 \<and> unat (n div 2) = k"
  by (simp add: and_1_even unat_div)

lemma byte_lengthI: "even (unat (n :: ulong64)) \<Longrightarrow> \<exists>k. unat n = 2 * k"
  by auto

section \<open>Strings\<close>

definition string_holds :: "ph_string \<Rightarrow> ushort list \<Rightarrow> bool" where
  "string_holds S cs \<longleftrightarrow> unat (StrLength S) = 2 * length cs \<and> StrBuffer S = map Some (cs @ [0])"

lemma set_last: "(replicate k x @ [y])[k := z] = replicate k x @ [z]"
  by (simp add: list_update_append)

lemma new_string_empty:
  "unat n = 2 * k \<Longrightarrow>
   new_string None n = Some \<lparr>StrLength = n, StrBuffer = alloc_block k @ [Some 0]\<rparr>"
  using even_bytes [of n k]
  by (simp add: new_string_def PhCreateStringEx_def write_cell_def alloc_block_def
      replicate_append_same [symmetric] set_last)

lemma new_string_of:
  assumes "unat n = 2 * length cs"
  shows "\<exists>S. new_string (Some cs) n = Some S \<and> string_holds S cs"
  using even_bytes [OF assms] assms
  by (simp add: new_string_def PhCreateStringEx_def write_cell_def alloc_block_def items_from_def
      copy_in_def overwrite_def string_holds_def replicate_append_same [symmetric] set_last)

lemma copy_units:
  assumes "chars_at mem src cs" "unat n = 2 * length cs" "unat dst = 2 * k" "k + length cs \<le> length B"
  shows "copy_units mem dst src n B = Some (overwrite k (map Some cs) B)"
  using read_units_chars [OF assms(1), of "length cs"] even_bytes [OF assms(2)] even_bytes [OF assms(3)] assms(4)
  by (simp add: copy_units_def copy_in_def)

lemma create_string2:
  assumes "holds_ref mem String cs"
  shows "\<exists>S. PhCreateString2 mem String = Some S \<and> string_holds S cs"
proof (cases "Length String = 0")
  case True
  then have "cs = []" using assms by (simp add: holds_ref_def)
  then show ?thesis
    using True new_string_empty [of 0 0] by (simp add: PhCreateString2_def string_holds_def alloc_block_def)
next
  case False
  have "read_units mem (Buffer String) (unat (Length String div 2)) = Some cs"
    using assms read_units_chars [of mem "Buffer String" cs "length cs"] holds_ref_units [OF assms]
    by (simp add: holds_ref_def)
  then show ?thesis
    using False new_string_of [of "Length String" cs] assms by (simp add: PhCreateString2_def holds_ref_def)
qed

section \<open>Builders\<close>

definition builder_holds :: "string_builder \<Rightarrow> ushort list \<Rightarrow> bool" where
  "builder_holds sb cs \<longleftrightarrow>
     even (unat (AllocatedLength sb)) \<and> 2 * length cs \<le> unat (AllocatedLength sb)
   \<and> unat (StrLength (BString sb)) = 2 * length cs
   \<and> length (StrBuffer (BString sb)) = unat (AllocatedLength sb) div 2 + 1
   \<and> starts (StrBuffer (BString sb)) (cs @ [0])"

lemma starts_prefix: "starts B (xs @ ys) \<Longrightarrow> starts B xs"
  by (auto simp: starts_split)

lemma initialize_builder:
  assumes "unat n < 2 ^ 64 - 1"
  shows "\<exists>sb. PhInitializeStringBuilder n = Some sb \<and> builder_holds sb []"
proof -
  let ?n = "if n AND 1 \<noteq> 0 then n + 1 else n"
  have "even (unat ?n)"
  proof (cases "n AND 1 = 0")
    case False
    then have "odd (unat n)" by (simp add: and_1_even)
    moreover have "unat (n + 1) = unat n + 1" using assms by (subst unat_add_exact) simp_all
    ultimately show ?thesis using False by simp
  qed (simp add: and_1_even)
  then obtain k where k: "unat ?n = 2 * k" by blast
  then have "PhInitializeStringBuilder n = Some \<lparr>AllocatedLength = ?n,
      BString = \<lparr>StrLength = 0, StrBuffer = (alloc_block k @ [Some 0])[0 := Some 0]\<rparr>\<rparr>"
    using new_string_empty [OF k] by (simp add: PhInitializeStringBuilder_def Let_def write_cell_def)
  moreover have "builder_holds \<lparr>AllocatedLength = ?n,
      BString = \<lparr>StrLength = 0, StrBuffer = (alloc_block k @ [Some 0])[0 := Some 0]\<rparr>\<rparr> []"
    using k by (cases k) (simp_all add: builder_holds_def starts_def alloc_block_def del: unat_eq_0)
  ultimately show ?thesis by blast
qed

lemma resize_builder:
  assumes sb: "builder_holds sb cs" and n: "unat n = 2 * k" "length cs \<le> k" "unat (AllocatedLength sb) \<le> 2 * k"
    and small: "2 * k < 2 ^ 64 - 2"
  shows "\<exists>sb'. PhpResizeStringBuilder sb n = Some sb' \<and> builder_holds sb' cs
    \<and> StrLength (BString sb') = StrLength (BString sb) \<and> 2 * k \<le> unat (AllocatedLength sb')"
proof -
  let ?a = "if AllocatedLength sb * 2 < n then n else AllocatedLength sb * 2"
  have "even (unat (AllocatedLength sb * 2))"
    unfolding unat_word_ariths(2) by (intro dvd_mod) simp_all
  then have "even (unat ?a)" using n(1) by simp
  then obtain m where m: "unat ?a = 2 * m" by blast
  have km: "k \<le> m" using m n(1) by (auto simp: word_less_nat_alt split: if_splits)
  have len: "unat (StrLength (BString sb)) = 2 * length cs" using sb by (simp add: builder_holds_def)
  have "unat (StrLength (BString sb) + 2) = unat (StrLength (BString sb)) + 2"
    using len n(2) small by (subst unat_add_exact) simp_all
  then have "unat ((StrLength (BString sb) + 2) div 2) = Suc (length cs)" using len by (simp add: unat_div)
  moreover have "copy_block (Suc (length cs)) (StrBuffer (BString sb)) (alloc_block m @ [Some 0])
      = Some (overwrite 0 (map Some (cs @ [0])) (alloc_block m @ [Some 0]))"
    using sb km n(2) by (auto simp: copy_block_def builder_holds_def starts_def)
  ultimately have "PhpResizeStringBuilder sb n = Some \<lparr>AllocatedLength = ?a,
      BString = \<lparr>StrLength = StrLength (BString sb),
        StrBuffer = overwrite 0 (map Some (cs @ [0])) (alloc_block m @ [Some 0])\<rparr>\<rparr>"
    using new_string_empty [OF m] by (simp add: PhpResizeStringBuilder_def Let_def)
  moreover have "builder_holds \<lparr>AllocatedLength = ?a,
      BString = \<lparr>StrLength = StrLength (BString sb),
        StrBuffer = overwrite 0 (map Some (cs @ [0])) (alloc_block m @ [Some 0])\<rparr>\<rparr> cs"
    using m len km n(2) by (simp add: builder_holds_def starts_def overwrite_def) arith
  ultimately show ?thesis using m km by (auto intro: exI [of _ m])
qed

lemma reserve_builder:
  assumes sb: "builder_holds sb cs" and n: "unat n = 2 * k" and small: "2 * (length cs + k) < 2 ^ 64 - 2"
  obtains sb' where "reserve_builder sb n = Some sb'" "builder_holds sb' cs"
    "StrLength (BString sb') = StrLength (BString sb)" "2 * (length cs + k) \<le> unat (AllocatedLength sb')"
proof -
  have len: "unat (StrLength (BString sb)) = 2 * length cs" using sb by (simp add: builder_holds_def)
  have sum: "unat (StrLength (BString sb) + n) = 2 * (length cs + k)"
    using len n small by (subst unat_add_exact) simp_all
  show thesis
  proof (cases "AllocatedLength sb < StrLength (BString sb) + n")
    case True
    then have "unat (AllocatedLength sb) \<le> 2 * (length cs + k)" using sum by (simp add: word_less_nat_alt)
    then show thesis
      using resize_builder [OF sb sum] small True that by (auto simp: reserve_builder_def)
  next
    case False
    then have "2 * (length cs + k) \<le> unat (AllocatedLength sb)" using sum by (simp add: word_less_nat_alt)
    then show thesis using False sb that by (simp add: reserve_builder_def)
  qed
qed

lemma write_terminator:
  assumes "even (unat (AllocatedLength sb))" "2 * length xs \<le> unat (AllocatedLength sb)"
    and "length b = unat (AllocatedLength sb) div 2 + 1" "starts b xs" "unat n = 2 * length xs"
  shows "\<exists>sb'. PhpWriteNullTerminatorStringBuilder (sb\<lparr>BString := \<lparr>StrLength = n, StrBuffer = b\<rparr>\<rparr>) = Some sb'
    \<and> builder_holds sb' xs"
proof -
  have "length xs < length b" using assms(2,3) by linarith
  moreover have "starts (b[length xs := Some 0]) (xs @ [0])"
    using assms(4) calculation by (rule starts_write)
  ultimately show ?thesis
    using assms even_bytes [OF assms(5)]
    by (simp add: PhpWriteNullTerminatorStringBuilder_def write_cell_def builder_holds_def)
qed

lemma finish_builder:
  assumes "builder_holds sb cs" "length b = length (StrBuffer (BString sb))" "starts b xs"
    and "unat n = 2 * k" "length xs = length cs + k" "2 * (length cs + k) \<le> unat (AllocatedLength sb)"
  shows "\<exists>sb'. finish_builder sb b n = Some sb' \<and> builder_holds sb' xs"
proof -
  have "unat (StrLength (BString sb)) + unat n < 2 ^ 64"
    using assms(1,4,6) unsigned_less [of "AllocatedLength sb", where ?'a = nat] by (simp add: builder_holds_def)
  then have "unat (StrLength (BString sb) + n) = 2 * length xs"
    using assms(1,4,5) by (subst unat_add_exact) (simp_all add: builder_holds_def)
  then show ?thesis
    unfolding finish_builder_def
    using assms by (intro write_terminator) (simp_all add: builder_holds_def)
qed

text \<open>Appending units that a function of the buffer puts after the held ones.\<close>

lemma append_with:
  assumes sb: "builder_holds sb cs" and n: "unat n = 2 * length xs"
    and small: "2 * (length cs + length xs) < 2 ^ 64 - 2"
    and put: "\<And>b. starts b cs \<Longrightarrow> length cs + length xs < length b \<Longrightarrow>
      put (2 * length cs) b = Some (overwrite (length cs) (map Some xs) b)"
  shows "\<exists>sb'. do { sb \<leftarrow> reserve_builder sb n;
           b \<leftarrow> put (unat (StrLength (BString sb))) (StrBuffer (BString sb)); finish_builder sb b n } = Some sb'
    \<and> builder_holds sb' (cs @ xs)"
proof -
  obtain sb1 where r: "reserve_builder sb n = Some sb1" "builder_holds sb1 cs"
    "StrLength (BString sb1) = StrLength (BString sb)" "2 * (length cs + length xs) \<le> unat (AllocatedLength sb1)"
    by (rule reserve_builder [OF sb n small])
  let ?b = "StrBuffer (BString sb1)"
  have b: "starts ?b cs" "length cs + length xs < length ?b" "unat (StrLength (BString sb1)) = 2 * length cs"
    using r(2,4) by (auto simp: builder_holds_def intro: starts_prefix)
  have "starts (overwrite (length cs) (map Some xs) ?b) (cs @ xs)" using b by (intro starts_append) simp_all
  moreover have "length (overwrite (length cs) (map Some xs) ?b) = length ?b" using b(2) by simp
  ultimately have "\<exists>sb'. finish_builder sb1 (overwrite (length cs) (map Some xs) ?b) n = Some sb'
      \<and> builder_holds sb' (cs @ xs)"
    using r(2,4) n by (intro finish_builder [where k = "length xs"]) simp_all
  then show ?thesis using r(1) put [OF b(1,2)] b(3) by simp
qed

lemma append_ref:
  assumes sb: "builder_holds sb cs" and S: "holds_ref mem S xs" "Buffer S \<noteq> 0"
    and small: "2 * (length cs + length xs) < 2 ^ 64 - 2"
  shows "\<exists>sb'. PhAppendStringBuilder mem sb S = Some sb' \<and> builder_holds sb' (cs @ xs)"
proof (cases "Length S = 0")
  case True
  then show ?thesis using sb S(1) by (simp add: PhAppendStringBuilder_def PhAppendStringBuilderEx_def holds_ref_def)
next
  case False
  have n: "unat (Length S) = 2 * length xs" using S(1) by (simp add: holds_ref_def)
  have "copy_units mem w (Buffer S) (Length S) b = Some (overwrite (length cs) (map Some xs) b)"
    if "unat w = 2 * length cs" "length cs + length xs < length b" for w b
    using that S(1) n by (intro copy_units) (simp_all add: holds_ref_def)
  then have "copy_units mem (of_nat (2 * length cs)) (Buffer S) (Length S) b = Some (overwrite (length cs) (map Some xs) b)"
    if "length cs + length xs < length b" for b
    using that small unat_of_nat_small [of "2 * length cs"] by simp
  then show ?thesis
    using append_with [OF sb n small, of "\<lambda>k b. copy_units mem (of_nat k) (Buffer S) (Length S) b"] False S(2)
    by (simp add: PhAppendStringBuilder_def PhAppendStringBuilderEx_def)
qed

lemma append_char:
  assumes sb: "builder_holds sb cs" and small: "2 * length cs < 2 ^ 64 - 4"
  shows "\<exists>sb'. PhAppendCharStringBuilder sb c = Some sb' \<and> builder_holds sb' (cs @ [c])"
proof -
  have "write_cell (length cs) c b = Some (overwrite (length cs) (map Some [c]) b)"
    if "length cs < length b" for b
    using that by (simp add: write_cell_def overwrite_def upd_conv_take_nth_drop)
  then show ?thesis
    using append_with [OF sb, of 2 "[c]" "\<lambda>k. write_cell (k div 2) c"] small
    by (simp add: PhAppendCharStringBuilder_def unat_div)
qed

lemma append_chars:
  assumes sb: "builder_holds sb cs" and small: "2 * (length cs + unat n) < 2 ^ 64 - 2"
  shows "\<exists>sb'. PhAppendCharStringBuilder2 sb c n = Some sb' \<and> builder_holds sb' (cs @ replicate (unat n) c)"
proof (cases "n = 0")
  case False
  have n: "unat (n * 2) = 2 * unat n" using small by (subst unat_double) simp_all
  have "copy_in (length cs) (replicate (unat n) c) b
      = Some (overwrite (length cs) (map Some (replicate (unat n) c)) b)"
    if "length cs + unat n < length b" for b
    using that by (simp add: copy_in_def)
  then show ?thesis
    using append_with [OF sb, of "n * 2" "replicate (unat n) c" "\<lambda>k. copy_in (k div 2) (replicate (unat n) c)"]
      False small n by (simp add: PhAppendCharStringBuilder2_def unat_div)
qed (use sb in \<open>simp add: PhAppendCharStringBuilder2_def\<close>)

lemma insert_gap:
  assumes "starts b (us @ vs)" "length us + n + length vs < length b"
  shows "\<exists>c. (if vs \<noteq> [] then move_in (length us + n) (length us) (length vs) b else Some b) = Some c
    \<and> length c = length b
    \<and> (\<forall>xs. length xs = n \<longrightarrow> starts (overwrite (length us) (map Some xs) c) (us @ xs @ vs))"
proof (cases "vs = []")
  case True
  then show ?thesis using assms starts_append [of b us] by simp
next
  case False
  obtain zs where zs: "length zs = n"
    "overwrite (length us + n) (take (length vs) (drop (length us) b)) b
     = map Some us @ zs @ map Some vs @ drop (length us + n + length vs) b"
    using starts_shift_up [OF assms(1), of n] assms(2) by auto
  have "starts (overwrite (length us) (map Some xs) (map Some us @ zs @ map Some vs @ d)) (us @ xs @ vs)"
    if "length xs = n" for xs d
    using that zs(1) by (simp add: starts_split overwrite_def)
  then show ?thesis using False assms(2) zs by (simp add: move_in_def)
qed

lemma insert_ref:
  assumes sb: "builder_holds sb (us @ vs)" and i: "unat Index = length us"
    and S: "holds_ref mem S xs" "Buffer S \<noteq> 0"
    and small: "2 * (length us + length vs + length xs) < 2 ^ 64 - 2"
  shows "\<exists>sb'. PhInsertStringBuilder mem sb Index S = Some sb' \<and> builder_holds sb' (us @ xs @ vs)"
proof (cases "Length S = 0")
  case True
  then show ?thesis using sb S(1) by (simp add: PhInsertStringBuilder_def PhInsertStringBuilderEx_def holds_ref_def)
next
  case False
  have n: "unat (Length S) = 2 * length xs" using S(1) by (simp add: holds_ref_def)
  obtain sb1 where r: "reserve_builder sb (Length S) = Some sb1" "builder_holds sb1 (us @ vs)"
    "StrLength (BString sb1) = StrLength (BString sb)" "2 * (length (us @ vs) + length xs) \<le> unat (AllocatedLength sb1)"
    by (rule reserve_builder [OF sb n]) (use small in simp)
  let ?b = "StrBuffer (BString sb1)"
  have len: "unat (StrLength (BString sb1)) = 2 * (length us + length vs)" using r(2) by (simp add: builder_holds_def)
  have b: "starts ?b (us @ vs)" "length us + length xs + length vs < length ?b"
    using r(2,4) starts_prefix [of ?b "us @ vs" "[0]"] by (auto simp: builder_holds_def)
  obtain c where c: "(if vs \<noteq> [] then move_in (length us + length xs) (length us) (length vs) ?b else Some ?b) = Some c"
    "length c = length ?b" "starts (overwrite (length us) (map Some xs) c) (us @ xs @ vs)"
    using insert_gap [OF b] by blast
  have i2: "unat (Index * 2) = 2 * length us" using i small by (subst unat_double) simp_all
  have gap: "Index * 2 < StrLength (BString sb1) \<longleftrightarrow> vs \<noteq> []" using i2 len by (simp add: word_less_nat_alt)
  have rest: "unat ((StrLength (BString sb1) - Index * 2) div 2) = length vs"
    using i2 len by (simp add: unat_div unat_minus_exact word_le_nat_alt)
  have "unat (Index + Length S div 2) = length us + length xs"
    using i n small by (subst unat_add_exact) (simp_all add: unat_div)
  moreover have "copy_units mem (Index * 2) (Buffer S) (Length S) c = Some (overwrite (length us) (map Some xs) c)"
    using S(1) n i2 b(2) c(2) by (intro copy_units) (simp_all add: holds_ref_def)
  moreover have "\<exists>sb'. finish_builder sb1 (overwrite (length us) (map Some xs) c) (Length S) = Some sb'
      \<and> builder_holds sb' (us @ xs @ vs)"
    using r(2,4) n c(2,3) b(2) by (intro finish_builder [where k = "length xs" and cs = "us @ vs"]) simp_all
  ultimately show ?thesis
    using False r(1) S(2) i gap rest c(1) by (auto simp: PhInsertStringBuilder_def PhInsertStringBuilderEx_def)
qed

lemma remove_units:
  assumes sb: "builder_holds sb (us @ vs @ ws)" and i: "unat Index = length us" "unat n = length vs"
    and small: "2 * (length us + length vs + length ws) < 2 ^ 64"
  shows "\<exists>sb'. PhRemoveStringBuilder sb Index n = Some sb' \<and> builder_holds sb' (us @ ws)"
proof -
  let ?b = "StrBuffer (BString sb)"
  have len: "unat (StrLength (BString sb)) = 2 * (length us + length vs + length ws)"
    using sb by (simp add: builder_holds_def)
  have sum: "unat (n + Index) = length us + length vs" "unat (Index + n) = length us + length vs"
    using i small by (simp_all add: unat_add_exact)
  have n2: "unat (n * 2) = 2 * length vs" using i(2) small by (subst unat_double) simp_all
  have "unat ((n + Index) * 2) = 2 * (length us + length vs)" using sum(1) small by (subst unat_double) simp_all
  then have rest: "unat ((StrLength (BString sb) - (n + Index) * 2) div 2) = length ws"
    using len by (simp add: unat_div unat_minus_exact word_le_nat_alt)
  have b: "starts ?b (us @ vs @ ws)" "length us + length vs + length ws < length ?b"
    using sb starts_prefix [of ?b "us @ vs @ ws" "[0]"] by (auto simp: builder_holds_def)
  let ?c = "overwrite (length us) (take (length ws) (drop (length us + length vs) ?b)) ?b"
  have move: "move_in (length us) (length us + length vs) (length ws) ?b = Some ?c"
    using b(2) by (simp add: move_in_def)
  have "unat (StrLength (BString sb) - n * 2) = 2 * length (us @ ws)"
    using len n2 by (simp add: unat_minus_exact word_le_nat_alt)
  moreover have "starts ?c (us @ ws)" using b(1) by (rule starts_shift_down)
  moreover have "length ?c = length ?b" using b(2) by simp
  ultimately have "\<exists>sb'. PhpWriteNullTerminatorStringBuilder
      (sb\<lparr>BString := \<lparr>StrLength = StrLength (BString sb) - n * 2, StrBuffer = ?c\<rparr>\<rparr>) = Some sb'
    \<and> builder_holds sb' (us @ ws)"
    using sb by (intro write_terminator) (simp_all add: builder_holds_def)
  then show ?thesis using move i sum rest by (simp add: PhRemoveStringBuilder_def)
qed

section \<open>Concatenation\<close>

lemma copy_units_to:
  assumes "chars_at mem src cs" "unat n = 2 * length cs" "unat dst = 2 * length us"
    and "length us + length cs < 2 ^ 63" "length X = length cs"
  shows "copy_units mem dst src n (map Some us @ X @ Y) = Some (map Some (us @ cs) @ Y)"
  using copy_units [OF assms(1-3), of "map Some us @ X @ Y"] assms(5) by (simp add: overwrite_def)

lemma concat_refs:
  assumes "holds_ref mem S xs" "holds_ref mem T ys" "length xs + length ys < 2 ^ 62"
  shows "\<exists>R. PhConcatStringRef2 mem S T = Some R \<and> string_holds R (xs @ ys)"
proof -
  have n: "unat (Length S) = 2 * length xs" "unat (Length T) = 2 * length ys"
    and c: "chars_at mem (Buffer S) xs" "chars_at mem (Buffer T) ys"
    using assms(1,2) by (simp_all add: holds_ref_def)
  have sum: "unat (Length S + Length T) = 2 * (length xs + length ys)"
    using n assms(3) by (subst unat_add_exact) simp_all
  have X: "alloc_block (length xs + length ys) = map Some [] @ alloc_block (length xs) @ alloc_block (length ys)"
    by (simp add: alloc_block_def replicate_add)
  have "copy_units mem 0 (Buffer S) (Length S) (alloc_block (length xs + length ys) @ [Some 0])
      = Some (map Some xs @ alloc_block (length ys) @ [Some 0])"
    using copy_units_to [OF c(1) n(1), of 0 "[]" "alloc_block (length xs)" "alloc_block (length ys) @ [Some 0]"]
      assms(3) by (simp add: X)
  moreover have "copy_units mem (Length S) (Buffer T) (Length T) (map Some xs @ alloc_block (length ys) @ [Some 0])
      = Some (map Some (xs @ ys) @ [Some 0])"
    using copy_units_to [OF c(2) n(2,1), of "alloc_block (length ys)"] assms(3) by simp
  ultimately show ?thesis
    using even_bytes [OF n(1)] even_bytes [OF n(2)] new_string_empty [OF sum] sum
    by (simp add: PhConcatStringRef2_def string_holds_def)
qed

text \<open>A null-terminated string that both ways of counting can count.\<close>

definition z_string :: "bool \<Rightarrow> memory \<Rightarrow> ulong64 \<Rightarrow> ushort list \<Rightarrow> bool" where
  "z_string vec mem p zs \<longleftrightarrow>
     chars_at mem p (zs @ [0]) \<and> 0 \<notin> set zs \<and> length zs < 2 ^ 62 \<and> (vec \<longrightarrow> mapped_blocks mem \<and> even (unat p))"

lemma count_z_string: "z_string vec mem p zs \<Longrightarrow> PhCountStringZ vec mem p = Some (of_nat (length zs))"
  unfolding z_string_def by (intro count_string) simp_all

lemma z_string_bytes: "z_string vec mem p zs \<Longrightarrow> unat (of_nat (length zs) * 2 :: ulong64) = 2 * length zs"
  using unat_of_nat_small [of "2 * length zs"] by (simp add: z_string_def mult.commute)

declare PhConcatStrings_measure.simps [simp del] PhConcatStrings_append.simps [simp del]

lemma unat_succ: "unat (n :: ulong) = Suc (unat i + k) \<Longrightarrow> i < n \<and> unat (i + 1) = Suc (unat i)"
proof -
  assume "unat n = Suc (unat i + k)"
  then have "i < n" by (simp add: word_less_nat_alt)
  then show ?thesis using unat_inc by blast
qed

definition cached :: "nat \<Rightarrow> ulong64 block \<Rightarrow> ushort list list \<Rightarrow> bool" where
  "cached i cache zss \<longleftrightarrow>
     (\<forall>j < length zss. i + j < 16 \<longrightarrow> cache ! (i + j) = Some (of_nat (2 * length (zss ! j))))"

lemma cached_Cons:
  "cached i cache (zs # zss) \<longleftrightarrow>
     (i < 16 \<longrightarrow> cache ! i = Some (of_nat (2 * length zs))) \<and> cached (Suc i) cache zss"
  by (auto simp: cached_def less_Suc_eq_0_disj)

lemma concat_measure:
  assumes "list_all2 (z_string vec mem) args zss" "unat n = unat i + length args" "length cache = 16"
  shows "\<exists>cache'. PhConcatStrings_measure vec mem args n i t cache = Some (t + of_nat (2 * length (concat zss)), cache')
    \<and> length cache' = 16 \<and> (\<forall>j < unat i. j < 16 \<longrightarrow> cache' ! j = cache ! j) \<and> cached (unat i) cache' zss"
  using assms
proof (induction args arbitrary: zss i t cache)
  case Nil
  then show ?case by (subst PhConcatStrings_measure.simps) (simp add: word_less_nat_alt cached_def)
next
  case (Cons arg args)
  then obtain zs zss' where z: "zss = zs # zss'" "z_string vec mem arg zs" "list_all2 (z_string vec mem) args zss'"
    by (auto simp: list_all2_Cons1)
  have i: "i < n" "unat (i + 1) = Suc (unat i)" using unat_succ [of n i "length args"] Cons.prems(2) by simp_all
  have small: "i < PH_CONCAT_STRINGS_LENGTH_CACHE_SIZE \<longleftrightarrow> unat i < 16"
    by (simp add: PH_CONCAT_STRINGS_LENGTH_CACHE_SIZE_def word_less_nat_alt)
  define c where "c = (if unat i < 16 then cache[unat i := Some (of_nat (length zs) * 2)] else cache)"
  let ?t = "t + of_nat (length zs) * 2"
  have c: "length c = 16" "\<And>j. j < unat i \<Longrightarrow> c ! j = cache ! j"
    "unat i < 16 \<Longrightarrow> c ! unat i = Some (of_nat (2 * length zs))"
    using Cons.prems(3) by (simp_all add: c_def mult.commute)
  have n: "unat n = unat (i + 1) + length args" using Cons.prems(2) i(2) by simp
  obtain cache' where c': "PhConcatStrings_measure vec mem args n (i + 1) ?t c
      = Some (?t + of_nat (2 * length (concat zss')), cache')"
    "length cache' = 16" "\<forall>j < unat (i + 1). j < 16 \<longrightarrow> cache' ! j = c ! j" "cached (unat (i + 1)) cache' zss'"
    using Cons.IH [OF z(3) n c(1), of ?t] by (elim exE conjE) (rule that)
  have "PhConcatStrings_measure vec mem (arg # args) n i t cache = PhConcatStrings_measure vec mem args n (i + 1) ?t c"
    using count_z_string [OF z(2)] i(1) small Cons.prems(3)
    by (subst PhConcatStrings_measure.simps) (simp add: write_cell_def Let_def c_def)
  moreover have "?t + of_nat (2 * length (concat zss')) = t + of_nat (2 * length (concat zss))"
    by (simp add: z(1) algebra_simps)
  moreover have "\<forall>j < unat i. j < 16 \<longrightarrow> cache' ! j = cache ! j" using c'(3) c(2) i(2) by simp
  moreover have "cached (unat i) cache' zss" using c'(3,4) c(3) i(2) by (simp add: z(1) cached_Cons)
  ultimately show ?case using c'(1,2) by metis
qed

lemma concat_append:
  assumes "list_all2 (z_string vec mem) args zss" "unat n = unat i + length args" "length cache = 16"
    and "cached (unat i) cache zss" "unat t = 2 * length us" "length us + length (concat zss) < 2 ^ 62"
    and "length X = length (concat zss)"
  shows "PhConcatStrings_append vec mem args n i t cache (map Some us @ X @ [Some 0])
    = Some (map Some (us @ concat zss) @ [Some 0])"
  using assms
proof (induction args arbitrary: zss i t us X)
  case Nil
  then show ?case by (subst PhConcatStrings_append.simps) (simp add: word_less_nat_alt)
next
  case (Cons arg args)
  then obtain zs zss' where z: "zss = zs # zss'" "z_string vec mem arg zs" "list_all2 (z_string vec mem) args zss'"
    by (auto simp: list_all2_Cons1)
  have i: "i < n" "unat (i + 1) = Suc (unat i)" using unat_succ [of n i "length args"] Cons.prems(2) by simp_all
  have small: "i < PH_CONCAT_STRINGS_LENGTH_CACHE_SIZE \<longleftrightarrow> unat i < 16"
    by (simp add: PH_CONCAT_STRINGS_LENGTH_CACHE_SIZE_def word_less_nat_alt)
  let ?k = "of_nat (length zs) * 2 :: ulong64"
  have k: "unat ?k = 2 * length zs" by (rule z_string_bytes [OF z(2)])
  have len: "(if i < PH_CONCAT_STRINGS_LENGTH_CACHE_SIZE then read_cell cache (unat i)
      else do { k \<leftarrow> PhCountStringZ vec mem arg; Some (k * 2) }) = Some ?k"
    using count_z_string [OF z(2)] small Cons.prems(3,4) z(1)
    by (simp add: read_cell_def cached_Cons mult.commute)
  have t: "unat (t + ?k) = 2 * length (us @ zs)"
    using Cons.prems(5,6) k z(1) by (subst unat_add_exact) simp_all
  have chars: "chars_at mem arg zs" using z(2) by (simp add: z_string_def chars_at_append)
  obtain A C where X: "X = A @ C" "length A = length zs" "length C = length (concat zss')"
    using Cons.prems(7) z(1) by (intro that [of "take (length zs) X" "drop (length zs) X"]) simp_all
  have copy: "copy_units mem t arg ?k (map Some us @ X @ [Some 0]) = Some (map Some (us @ zs) @ C @ [Some 0])"
    using copy_units_to [OF chars k Cons.prems(5), of A "C @ [Some 0]"] X Cons.prems(6) z(1) by simp
  have rest: "PhConcatStrings_append vec mem args n (i + 1) (t + ?k) cache (map Some (us @ zs) @ C @ [Some 0])
      = Some (map Some ((us @ zs) @ concat zss') @ [Some 0])"
    using Cons.prems(2,3,4,6) z(1) i(2) X(3)
    by (intro Cons.IH [OF z(3)] t) (simp_all add: cached_Cons)
  show ?case
    using i(1) len copy rest z(1) by (subst PhConcatStrings_append.simps) (simp del: map_append append.append_Cons)
qed

lemma concat_strings:
  assumes "list_all2 (z_string vec mem) args zss" "unat n = length args" "length (concat zss) < 2 ^ 62"
  shows "\<exists>S. PhConcatStrings vec mem n args = Some S \<and> string_holds S (concat zss)"
proof -
  let ?t = "of_nat (2 * length (concat zss)) :: ulong64"
  have t: "unat ?t = 2 * length (concat zss)" using assms(3) by (intro unat_of_nat_small) simp
  obtain cache where c: "PhConcatStrings_measure vec mem args n 0 0 (alloc_block 16) = Some (?t, cache)"
    "length cache = 16" "cached 0 cache zss"
    using concat_measure [OF assms(1), of n 0 "alloc_block 16" 0] assms(2) by auto
  have "PhConcatStrings_append vec mem args n 0 0 cache (alloc_block (length (concat zss)) @ [Some 0])
      = Some (map Some (concat zss) @ [Some 0])"
    using concat_append [OF assms(1), of n 0 cache 0 "[]" "alloc_block (length (concat zss))"] assms(2,3) c(2,3)
    by simp
  then show ?thesis
    using c(1) new_string_empty [OF t] t
    by (simp add: PhConcatStrings_def PhConcatStrings_V_def PH_CONCAT_STRINGS_LENGTH_CACHE_SIZE_def string_holds_def)
qed

section \<open>The byte string builder\<close>

text \<open>The cells up to the length, some of them never written when an alignment skipped them.\<close>

definition bytes_hold :: "bytes_builder \<Rightarrow> uchar block \<Rightarrow> bool" where
  "bytes_hold bb cs \<longleftrightarrow>
     unat (BytesLength (Bytes bb)) = length cs \<and> length cs \<le> unat (BAllocatedLength bb)
   \<and> length (BytesBuffer (Bytes bb)) = unat (BAllocatedLength bb) + 1
   \<and> (\<exists>C. BytesBuffer (Bytes bb) = cs @ Some 0 # C)"

lemma align_up:
  assumes "unat a = 2 ^ k" "unat x + unat a < 2 ^ 64"
  shows "unat x \<le> unat (ALIGN_UP_BY x a)" "unat (ALIGN_UP_BY x a) < unat x + unat a"
    "unat a dvd unat (ALIGN_UP_BY x a)"
proof -
  let ?y = "unat x + unat a - 1"
  have "(2 :: nat) ^ k < 2 ^ 64" using assms by linarith
  then have k: "k < 64" by (rule power_less_imp_less_exp [rotated]) simp
  have "a = 2 ^ k" using assms(1) k by (metis of_nat_numeral of_nat_power of_nat_unat ucast_id)
  then have m: "a - 1 = mask k" by (simp add: mask_eq_exp_minus_1)
  have a: "1 \<le> unat a" using assms(1) by simp
  have y: "unat (x + a - 1) = ?y"
    using assms(2) a unat_add_exact [of x a] unat_minus_exact [of 1 "x + a"]
    by (simp add: word_le_nat_alt)
  have "ALIGN_UP_BY x a = push_bit k (drop_bit k (x + a - 1))"
    unfolding ALIGN_UP_BY_def m by (rule bit_eqI) (auto simp: bit_simps)
  moreover have "push_bit k (drop_bit k (x + a - 1)) + take_bit k (x + a - 1) = x + a - 1" by (rule bits_ident)
  ultimately have "ALIGN_UP_BY x a = (x + a - 1) - take_bit k (x + a - 1)" by (simp add: algebra_simps)
  moreover have t: "unat (take_bit k (x + a - 1)) = ?y mod unat a"
    by (simp only: unsigned_take_bit_eq y assms(1)) (simp only: take_bit_eq_mod)
  ultimately have r: "unat (ALIGN_UP_BY x a) = ?y - ?y mod unat a"
    using y by (simp add: unat_minus_exact word_le_nat_alt)
  have "?y mod unat a < unat a" using a by simp
  then show "unat x \<le> unat (ALIGN_UP_BY x a)" using r by linarith
  show "unat (ALIGN_UP_BY x a) < unat x + unat a" using r a by linarith
  show "unat a dvd unat (ALIGN_UP_BY x a)" unfolding r by (rule dvd_minus_mod)
qed

lemma create_bytes: "unat n < 2 ^ 64 \<Longrightarrow> PhCreateBytesEx None n
    = Some \<lparr>BytesLength = n, BytesBuffer = alloc_block (unat n) @ [Some 0]\<rparr>"
  by (simp add: PhCreateBytesEx_def write_cell_def alloc_block_def replicate_append_same [symmetric] set_last)

lemma initialize_bytes: "\<exists>bb. PhInitializeBytesBuilder n = Some bb \<and> bytes_hold bb []"
  using create_bytes [of n] unsigned_less [of n, where ?'a = nat]
  by (cases "unat n") (auto simp: PhInitializeBytesBuilder_def write_cell_def bytes_hold_def alloc_block_def)

lemma reserve_bytes:
  assumes bb: "bytes_hold bb cs" and n: "length cs \<le> unat n" "unat n < 2 ^ 64 - 1"
  shows "\<exists>bb'. (if BAllocatedLength bb < n then PhpResizeBytesBuilder bb n else Some bb) = Some bb'
    \<and> bytes_hold bb' cs \<and> BytesLength (Bytes bb') = BytesLength (Bytes bb) \<and> unat n \<le> unat (BAllocatedLength bb')"
proof (cases "BAllocatedLength bb < n")
  case True
  let ?a = "if BAllocatedLength bb * 2 < n then n else BAllocatedLength bb * 2"
  have a: "unat n \<le> unat ?a" by (simp add: word_less_nat_alt)
  obtain C where C: "BytesBuffer (Bytes bb) = cs @ Some 0 # C" using bb by (auto simp: bytes_hold_def)
  have len: "unat (BytesLength (Bytes bb)) = length cs" using bb by (simp add: bytes_hold_def)
  then have "unat (BytesLength (Bytes bb) + 1) = Suc (length cs)" using n by (subst unat_add_exact) simp_all
  moreover have "copy_block (Suc (length cs)) (BytesBuffer (Bytes bb)) (alloc_block (unat ?a) @ [Some 0])
      = Some (overwrite 0 (cs @ [Some 0]) (alloc_block (unat ?a) @ [Some 0]))"
    using C a n(1) by (simp add: copy_block_def)
  ultimately have "PhpResizeBytesBuilder bb n = Some \<lparr>BAllocatedLength = ?a,
      Bytes = \<lparr>BytesLength = BytesLength (Bytes bb),
        BytesBuffer = overwrite 0 (cs @ [Some 0]) (alloc_block (unat ?a) @ [Some 0])\<rparr>\<rparr>"
    using create_bytes [of ?a] unsigned_less [of ?a, where ?'a = nat]
    by (simp add: PhpResizeBytesBuilder_def Let_def)
  moreover have "length (overwrite 0 (cs @ [Some 0]) (alloc_block (unat ?a) @ [Some 0])) = unat ?a + 1"
    using a n(1) by (subst length_overwrite) simp_all
  ultimately show ?thesis
    using True a len n(1) by (simp add: bytes_hold_def overwrite_def)
qed (use bb in \<open>auto simp: word_less_nat_alt\<close>)

text \<open>Appending at an aligned offset leaves a gap of cells that hold whatever was there.\<close>

lemma append_bytes:
  assumes bb: "bytes_hold bb cs" and bs: "cells_at 1 mem B bs" "unat n = length bs" "bs \<noteq> []" "B \<noteq> 0"
    and a: "a = 0 \<or> (\<exists>k. unat a = 2 ^ k)" and small: "length cs + unat a + length bs < 2 ^ 64 - 1"
  shows "\<exists>bb' offset gap. PhAppendBytesBuilderEx mem bb B n a = Some (bb', offset)
    \<and> bytes_hold bb' (cs @ gap @ map Some bs) \<and> unat offset = length cs + length gap
    \<and> (a = 0 \<longrightarrow> gap = []) \<and> (a \<noteq> 0 \<longrightarrow> length gap < unat a \<and> unat a dvd unat offset)"
proof -
  define offset where "offset = (if a \<noteq> 0 then ALIGN_UP_BY (BytesLength (Bytes bb)) a else BytesLength (Bytes bb))"
  have len: "unat (BytesLength (Bytes bb)) = length cs" using bb by (simp add: bytes_hold_def)
  have off: "length cs \<le> unat offset" "a = 0 \<Longrightarrow> unat offset = length cs"
    "a \<noteq> 0 \<Longrightarrow> unat offset < length cs + unat a \<and> unat a dvd unat offset"
    using align_up [of a _ "BytesLength (Bytes bb)"] a small len by (auto simp: offset_def)
  have off_le: "unat offset \<le> length cs + unat a" using off(2,3) by (cases "a = 0") auto
  have sum: "unat (offset + n) = unat offset + length bs"
    using off_le small bs(2) by (subst unat_add_exact) simp_all
  obtain bb1 where r: "(if BAllocatedLength bb < offset + n then PhpResizeBytesBuilder bb (offset + n) else Some bb) = Some bb1"
    "bytes_hold bb1 cs" "unat (offset + n) \<le> unat (BAllocatedLength bb1)"
    using reserve_bytes [OF bb, of "offset + n"] off(1) off_le small sum by auto
  obtain C where C: "BytesBuffer (Bytes bb1) = cs @ Some 0 # C" using r(2) by (auto simp: bytes_hold_def)
  have blen: "length (BytesBuffer (Bytes bb1)) = unat (BAllocatedLength bb1) + 1" using r(2) by (simp add: bytes_hold_def)
  let ?gap = "take (unat offset - length cs) (Some 0 # C)"
  let ?b = "overwrite (unat offset) (map Some bs) (BytesBuffer (Bytes bb1))"
  have b: "?b = cs @ ?gap @ map Some bs @ drop (unat offset + length bs) (BytesBuffer (Bytes bb1))"
    using C off(1) by (simp add: overwrite_def)
  have gap: "length ?gap = unat offset - length cs" using C blen r(3) sum bs(3) by (simp add: Suc_le_eq)
  have room: "unat offset + length bs < length (BytesBuffer (Bytes bb1))" using blen r(3) sum by simp
  then obtain c D where D: "drop (unat offset + length bs) (BytesBuffer (Bytes bb1)) = c # D"
    by (metis Cons_nth_drop_Suc)
  have "?b[unat offset + length bs := Some 0] = (cs @ ?gap @ map Some bs) @ Some 0 # D"
    using b D gap off(1) by (auto simp: list_update_append)
  moreover have "length ?b = length (BytesBuffer (Bytes bb1))" using room by simp
  moreover have "read_cells 1 mem B (unat n) = Some bs" using read_cells [OF bs(1), of "unat n"] bs(2) by simp
  moreover have "copy_in (unat offset) bs (BytesBuffer (Bytes bb1)) = Some ?b" using room by (simp add: copy_in_def)
  moreover have "n \<noteq> 0" using bs(2,3) by auto
  ultimately have "PhAppendBytesBuilderEx mem bb B n a = Some (bb1\<lparr>Bytes := \<lparr>BytesLength = offset + n,
      BytesBuffer = (cs @ ?gap @ map Some bs) @ Some 0 # D\<rparr>\<rparr>, offset)"
    using bs(4) sum room
    unfolding PhAppendBytesBuilderEx_def Let_def offset_def [symmetric] if_not_P [OF \<open>n \<noteq> 0\<close>] r(1) bind.bind_lunit
    by (simp add: PhpWriteNullTerminatorBytesBuilder_def write_cell_def del: append_assoc)
  moreover have "bytes_hold (bb1\<lparr>Bytes := \<lparr>BytesLength = offset + n,
      BytesBuffer = (cs @ ?gap @ map Some bs) @ Some 0 # D\<rparr>\<rparr>) (cs @ ?gap @ map Some bs)"
  proof -
    have "length ((cs @ ?gap @ map Some bs) @ Some 0 # D) = unat (BAllocatedLength bb1) + 1"
      using blen \<open>?b[unat offset + length bs := Some 0] = (cs @ ?gap @ map Some bs) @ Some 0 # D\<close> \<open>length ?b = _\<close>
      by (metis length_list_update)
    then show ?thesis using sum gap off(1) r(3) by (simp add: bytes_hold_def)
  qed
  moreover have "unat offset = length cs + length ?gap" using gap off(1) by simp
  ultimately show ?thesis using off(2,3) gap
    by (intro exI [of _ "bb1\<lparr>Bytes := \<lparr>BytesLength = offset + n,
      BytesBuffer = (cs @ ?gap @ map Some bs) @ Some 0 # D\<rparr>\<rparr>"] exI [of _ offset] exI [of _ ?gap]) auto
qed

section \<open>Histories\<close>

datatype builder_call =
    Append ph_stringref
  | AppendChar ushort
  | AppendChars ushort ulong64
  | Insert ulong64 ph_stringref
  | Remove ulong64 ulong64
  | RemoveEnd ulong64

fun run_builder_call :: "memory \<Rightarrow> builder_call \<Rightarrow> string_builder \<Rightarrow> string_builder option" where
  "run_builder_call mem (Append S) sb = PhAppendStringBuilder mem sb S"
| "run_builder_call mem (AppendChar c) sb = PhAppendCharStringBuilder sb c"
| "run_builder_call mem (AppendChars c n) sb = PhAppendCharStringBuilder2 sb c n"
| "run_builder_call mem (Insert i S) sb = PhInsertStringBuilder mem sb i S"
| "run_builder_call mem (Remove i n) sb = PhRemoveStringBuilder sb i n"
| "run_builder_call mem (RemoveEnd n) sb = PhRemoveEndStringBuilder sb n"

fun run_builder :: "memory \<Rightarrow> builder_call list \<Rightarrow> string_builder \<Rightarrow> string_builder option" where
  "run_builder mem [] sb = Some sb"
| "run_builder mem (c # cs) sb = do { sb \<leftarrow> run_builder_call mem c sb; run_builder mem cs sb }"

text \<open>The units a reference refers to.\<close>

definition ref_units :: "memory \<Rightarrow> ph_stringref \<Rightarrow> ushort list" where
  "ref_units mem S = (case read_units mem (Buffer S) (unat (Length S div 2)) of Some cs \<Rightarrow> cs | None \<Rightarrow> [])"

fun spec_builder_call :: "memory \<Rightarrow> builder_call \<Rightarrow> ushort list \<Rightarrow> ushort list" where
  "spec_builder_call mem (Append S) cs = cs @ ref_units mem S"
| "spec_builder_call mem (AppendChar c) cs = cs @ [c]"
| "spec_builder_call mem (AppendChars c n) cs = cs @ replicate (unat n) c"
| "spec_builder_call mem (Insert i S) cs = take (unat i) cs @ ref_units mem S @ drop (unat i) cs"
| "spec_builder_call mem (Remove i n) cs = take (unat i) cs @ drop (unat i + unat n) cs"
| "spec_builder_call mem (RemoveEnd n) cs = take (length cs - unat n) cs"

text \<open>What the callers owe: references into mapped memory, indices inside, less than \<open>2 ^ 62\<close> units.\<close>

definition proper_ref :: "memory \<Rightarrow> ph_stringref \<Rightarrow> bool" where
  "proper_ref mem S \<longleftrightarrow> Buffer S \<noteq> 0 \<and> holds_ref mem S (ref_units mem S)"

fun proper_builder_call :: "memory \<Rightarrow> builder_call \<Rightarrow> ushort list \<Rightarrow> bool" where
  "proper_builder_call mem (Append S) cs \<longleftrightarrow> proper_ref mem S"
| "proper_builder_call mem (AppendChar c) cs \<longleftrightarrow> True"
| "proper_builder_call mem (AppendChars c n) cs \<longleftrightarrow> True"
| "proper_builder_call mem (Insert i S) cs \<longleftrightarrow> proper_ref mem S \<and> unat i \<le> length cs"
| "proper_builder_call mem (Remove i n) cs \<longleftrightarrow> unat i + unat n \<le> length cs"
| "proper_builder_call mem (RemoveEnd n) cs \<longleftrightarrow> unat n \<le> length cs"

fun proper_builder :: "memory \<Rightarrow> builder_call list \<Rightarrow> ushort list \<Rightarrow> bool" where
  "proper_builder mem [] cs \<longleftrightarrow> True"
| "proper_builder mem (c # calls) cs \<longleftrightarrow> proper_builder_call mem c cs
     \<and> length (spec_builder_call mem c cs) < 2 ^ 62 \<and> proper_builder mem calls (spec_builder_call mem c cs)"

lemma remove_end:
  assumes sb: "builder_holds sb cs" and n: "unat n \<le> length cs" and small: "length cs < 2 ^ 62"
  shows "\<exists>sb'. PhRemoveEndStringBuilder sb n = Some sb' \<and> builder_holds sb' (take (length cs - unat n) cs)"
proof -
  let ?us = "take (length cs - unat n) cs" and ?vs = "drop (length cs - unat n) cs"
  have "unat (StrLength (BString sb) div 2) = length cs" using sb by (simp add: builder_holds_def unat_div)
  then have "unat (StrLength (BString sb) div 2 - n) = length ?us"
    using n by (simp add: unat_minus_exact word_le_nat_alt)
  moreover have "unat n = length ?vs" using n by simp
  ultimately show ?thesis
    using remove_units [of sb ?us ?vs "[]"] sb small by (simp add: PhRemoveEndStringBuilder_def)
qed

lemma three_parts: "take i cs @ take n (drop i cs) @ drop (i + n) cs = cs"
  by (simp add: add.commute [of i] flip: drop_drop)

lemma run_builder_call_correct:
  assumes sb: "builder_holds sb cs" and c: "proper_builder_call mem c cs"
    and small: "length cs < 2 ^ 62" "length (spec_builder_call mem c cs) < 2 ^ 62"
  shows "\<exists>sb'. run_builder_call mem c sb = Some sb' \<and> builder_holds sb' (spec_builder_call mem c cs)"
proof (cases c)
  case (Append S)
  then show ?thesis using append_ref [OF sb, of mem S] c small(2) by (simp add: proper_ref_def)
next
  case (AppendChar x)
  then show ?thesis using append_char [OF sb, of x] small(2) by simp
next
  case (AppendChars x n)
  then show ?thesis using append_chars [OF sb, of n x] small(2) by simp
next
  case (Insert i S)
  have "builder_holds sb (take (unat i) cs @ drop (unat i) cs)" using sb by simp
  then show ?thesis
    using insert_ref [of sb "take (unat i) cs" "drop (unat i) cs" i mem S "ref_units mem S"] Insert c small(2)
    by (simp add: proper_ref_def)
next
  case (Remove i n)
  have "builder_holds sb (take (unat i) cs @ take (unat n) (drop (unat i) cs) @ drop (unat i + unat n) cs)"
    using sb unfolding three_parts .
  then show ?thesis
    using remove_units [of sb "take (unat i) cs" "take (unat n) (drop (unat i) cs)" "drop (unat i + unat n) cs" i n]
      Remove c small(1) by simp
next
  case (RemoveEnd n)
  then show ?thesis using remove_end [OF sb, of n] c small(1) by simp
qed

lemma run_builder_correct:
  "builder_holds sb cs \<Longrightarrow> length cs < 2 ^ 62 \<Longrightarrow> proper_builder mem calls cs \<Longrightarrow>
   \<exists>sb'. run_builder mem calls sb = Some sb' \<and> builder_holds sb' (foldl (\<lambda>cs c. spec_builder_call mem c cs) cs calls)"
proof (induction calls arbitrary: sb cs)
  case (Cons c calls)
  obtain sb' where "run_builder_call mem c sb = Some sb'" "builder_holds sb' (spec_builder_call mem c cs)"
    using run_builder_call_correct [OF Cons.prems(1)] Cons.prems(2,3) by auto
  then show ?case using Cons.IH [of sb'] Cons.prems(3) by simp
qed simp

section \<open>Properties\<close>


definition sample_ref :: ph_stringref where
  "sample_ref = \<lparr>Length = 4, Buffer = 12288\<rparr>"

lemma sample_ref_proper: "ref_units sample sample_ref = [59, 32]" "proper_ref sample sample_ref"
proof -
  have "read_units sample 12288 2 = Some [59, 32]"
    using read_units_chars [of sample 12288 "[59, 32]" 2] sample_refs(3) by (simp add: holds_ref_def)
  moreover have "unat (Length sample_ref div 2) = 2" "Buffer sample_ref = 12288" by (simp_all add: sample_ref_def unat_div)
  ultimately show "ref_units sample sample_ref = [59, 32]" by (simp only: ref_units_def option.case)
  then show "proper_ref sample sample_ref"
    using sample_refs(3) by (simp add: proper_ref_def sample_ref_def)
qed


text \<open>
  Concatenating any number of null-terminated strings gives a string object with their
  units one after the other and a terminator, whether a length was remembered from the first
  loop (the first sixteen) or counted again.
\<close>

theorem PhConcatStrings_correct:
  assumes "list_all2 (z_string vec mem) args zss" "unat n = length args" "length (concat zss) < 2 ^ 62"
  shows "\<exists>S. PhConcatStrings vec mem n args = Some S \<and> string_holds S (concat zss)"
  using assms by (rule concat_strings)

lemma PhConcatStrings_correct_witness:
  "\<exists>S. PhConcatStrings False (place 4096 [65, 66, 0] (\<lambda>_. None)) 2 [4096, 4098] = Some S \<and> string_holds S [65, 66, 66]"
proof -
  let ?mem = "place 4096 [65, 66, 0] (\<lambda>_. None)"
  have "z_string False ?mem 4096 [65, 66]" "z_string False ?mem 4098 [66]"
    by (simp_all add: z_string_def)
  then show ?thesis using PhConcatStrings_correct [of False ?mem "[4096, 4098]" "[[65, 66], [66]]" 2] by simp
qed

end
