(* ===== verification/Wildcards.thy ===== *)
theory Wildcards
  imports BuilderProps
begin

text \<open>
  Pattern matching with wildcards and menu prefixes (\<open>phlib/util.c\<close>), on null-terminated
  strings in memory.  \<open>up\<close> is \<open>towupper\<close>.
\<close>

section \<open>The code\<close>

text \<open>\<open>while (*p == L'*') p++;\<close>\<close>

partial_function (option) skip_stars :: "memory \<Rightarrow> ulong64 \<Rightarrow> ulong64 option" where
  "skip_stars mem p = do { d \<leftarrow> mem p; if d = 42 then skip_stars mem (p + 2) else Some p }"

text \<open>The loop and its two jumps: \<open>LoopStart\<close> begins again at \<open>String\<close> and \<open>Pattern\<close>.\<close>

partial_function (option) PhpMatchWildcards_loop ::
  "(ushort \<Rightarrow> ushort) \<Rightarrow> bool \<Rightarrow> memory \<Rightarrow> bool \<Rightarrow> ulong64 \<Rightarrow> ulong64 \<Rightarrow> ulong64 \<Rightarrow> ulong64 \<Rightarrow> bool option" where
  "PhpMatchWildcards_loop up IgnoreCase mem star Pattern String s p = do {
     c \<leftarrow> mem s;
     if c \<noteq> 0 then do {
       d \<leftarrow> mem p;
       if d = 63 then PhpMatchWildcards_loop up IgnoreCase mem star Pattern String (s + 2) (p + 2)
       else if d = 42 then do {
         Pattern \<leftarrow> skip_stars mem (p + 2);
         e \<leftarrow> mem Pattern;
         if e = 0 then Some True
         else PhpMatchWildcards_loop up IgnoreCase mem True Pattern s s Pattern
       }
       else if (if \<not> IgnoreCase then c \<noteq> d else up c \<noteq> up d) then
         if \<not> star then Some False
         else PhpMatchWildcards_loop up IgnoreCase mem star Pattern (String + 2) (String + 2) Pattern
       else PhpMatchWildcards_loop up IgnoreCase mem star Pattern String (s + 2) (p + 2)
     }
     else do {
       p \<leftarrow> skip_stars mem p;
       d \<leftarrow> mem p;
       Some (d = 0)
     }
   }"

definition PhpMatchWildcards ::
  "(ushort \<Rightarrow> ushort) \<Rightarrow> memory \<Rightarrow> ulong64 \<Rightarrow> ulong64 \<Rightarrow> bool \<Rightarrow> bool option" where
  "PhpMatchWildcards up mem Pattern String IgnoreCase =
     PhpMatchWildcards_loop up IgnoreCase mem False Pattern String String Pattern"

definition PhMatchWildcards ::
  "(ushort \<Rightarrow> ushort) \<Rightarrow> memory \<Rightarrow> ulong64 \<Rightarrow> ulong64 \<Rightarrow> bool \<Rightarrow> bool option" where
  "PhMatchWildcards up mem Pattern String IgnoreCase =
     (if \<not> IgnoreCase then PhpMatchWildcards up mem Pattern String False
      else PhpMatchWildcards up mem Pattern String True)"

text \<open>
  Escaping ampersands: runs of other characters are appended at once.  \<open>amp\<close> is the address of
  the literal \<open>L"&&"\<close>.
\<close>

function PhEscapeStringForMenuPrefix_loop ::
  "bool \<Rightarrow> memory \<Rightarrow> ulong64 \<Rightarrow> ph_stringref \<Rightarrow> ulong64 \<Rightarrow> ulong64 \<Rightarrow> ulong64 \<Rightarrow> ulong64 \<Rightarrow> string_builder
   \<Rightarrow> (ulong64 \<times> ulong64 \<times> string_builder) option" where
  "PhEscapeStringForMenuPrefix_loop vec mem amp String n i runStart runCount sb = (
     if i < n then do {
       c \<leftarrow> mem (Buffer String + i * 2);
       if c = 38 then do {
         (runStart, sb) \<leftarrow>
           (if runStart \<noteq> NULL_PTR
            then do { sb \<leftarrow> PhAppendStringBuilderEx mem sb runStart (runCount * 2); Some (NULL_PTR, sb) }
            else Some (runStart, sb));
         sb \<leftarrow> PhAppendStringBuilder2 vec mem sb amp;
         PhEscapeStringForMenuPrefix_loop vec mem amp String n (i + 1) runStart runCount sb
       }
       else if runStart \<noteq> NULL_PTR
       then PhEscapeStringForMenuPrefix_loop vec mem amp String n (i + 1) runStart (runCount + 1) sb
       else PhEscapeStringForMenuPrefix_loop vec mem amp String n (i + 1) (Buffer String + i * 2) 1 sb
     }
     else Some (runStart, runCount, sb))"
  by auto
termination
  by (relation "measure (\<lambda>(v, m, a, s, n, i, r, k, b). unat n - unat i)") (auto simp: unat_inc word_less_nat_alt)

definition PhEscapeStringForMenuPrefix :: "bool \<Rightarrow> memory \<Rightarrow> ulong64 \<Rightarrow> ph_stringref \<Rightarrow> ph_string option" where
  "PhEscapeStringForMenuPrefix vec mem amp String = do {
     sb \<leftarrow> PhInitializeStringBuilder (Length String);
     (runStart, runCount, sb) \<leftarrow>
       PhEscapeStringForMenuPrefix_loop vec mem amp String (Length String div 2) 0 NULL_PTR 0 sb;
     sb \<leftarrow> (if runStart \<noteq> NULL_PTR then PhAppendStringBuilderEx mem sb runStart (runCount * 2) else Some sb);
     Some (PhFinalStringBuilderString sb)
   }"

text \<open>\<open>if (*A == L'&') A++;\<close>\<close>

definition skip_ampersand :: "memory \<Rightarrow> ulong64 \<Rightarrow> ulong64 option" where
  "skip_ampersand mem A = do { c \<leftarrow> mem A; Some (if c = 38 then A + 2 else A) }"

partial_function (option) PhCompareIgnoreMenuPrefix_loop ::
  "(ushort \<Rightarrow> ushort) \<Rightarrow> memory \<Rightarrow> bool \<Rightarrow> bool \<Rightarrow> ulong64 \<Rightarrow> ulong64 \<Rightarrow> slong option" where
  "PhCompareIgnoreMenuPrefix_loop up mem IgnoreCase MatchIfPrefix A B = do {
     A \<leftarrow> skip_ampersand mem A;
     B \<leftarrow> skip_ampersand mem B;
     t \<leftarrow> mem A;
     if t = 0 then
       if MatchIfPrefix then Some 0
       else do { b \<leftarrow> mem B; Some (ucast t - ucast b) }
     else do {
       b \<leftarrow> mem B;
       if (if \<not> IgnoreCase then t \<noteq> b else up t \<noteq> up b) then Some (ucast t - ucast b)
       else PhCompareIgnoreMenuPrefix_loop up mem IgnoreCase MatchIfPrefix (A + 2) (B + 2)
     }
   }"

definition PhCompareUnicodeStringZIgnoreMenuPrefix ::
  "(ushort \<Rightarrow> ushort) \<Rightarrow> memory \<Rightarrow> ulong64 \<Rightarrow> ulong64 \<Rightarrow> bool \<Rightarrow> bool \<Rightarrow> slong option" where
  "PhCompareUnicodeStringZIgnoreMenuPrefix up mem A B IgnoreCase MatchIfPrefix =
     (if A = NULL_PTR \<or> B = NULL_PTR then Some (- 1)
      else PhCompareIgnoreMenuPrefix_loop up mem IgnoreCase MatchIfPrefix A B)"

section \<open>What a pattern matches\<close>

fun wild :: "(ushort \<Rightarrow> ushort \<Rightarrow> bool) \<Rightarrow> ushort list \<Rightarrow> ushort list \<Rightarrow> bool" where
  "wild eq [] s \<longleftrightarrow> s = []"
| "wild eq (d # p) s \<longleftrightarrow>
     (if d = 42 then wild eq p s \<or> (case s of [] \<Rightarrow> False | c # s \<Rightarrow> wild eq (d # p) s)
      else case s of [] \<Rightarrow> False | c # s \<Rightarrow> (d = 63 \<or> eq c d) \<and> wild eq p s)"

declare wild.simps(2) [simp del]

lemma wild_star: "wild eq (42 # p) s \<longleftrightarrow> (\<exists>k \<le> length s. wild eq p (drop k s))"
proof (induction s)
  case (Cons c s)
  have "(\<exists>k \<le> Suc (length s). wild eq p (drop k (c # s))) \<longleftrightarrow>
      wild eq p (c # s) \<or> (\<exists>k \<le> length s. wild eq p (drop k s))"
    by (metis Suc_le_mono drop0 drop_Suc_Cons not0_implies_Suc zero_le)
  then show ?case using Cons.IH by (simp add: wild.simps(2) [of eq 42 p "c # s"])
qed (simp add: wild.simps)

lemma wild_char: "d \<noteq> 42 \<Longrightarrow> wild eq (d # p) (c # s) \<longleftrightarrow> (d = 63 \<or> eq c d) \<and> wild eq p s"
  by (simp add: wild.simps)

lemma wild_char_Nil: "d \<noteq> 42 \<Longrightarrow> \<not> wild eq (d # p) []"
  by (simp add: wild.simps)

text \<open>A part without stars matches as many characters as it has.\<close>

lemma wild_prefix:
  "42 \<notin> set u \<Longrightarrow> wild eq (u @ q) s \<longleftrightarrow>
     length u \<le> length s \<and> list_all2 (\<lambda>c d. d = 63 \<or> eq c d) (take (length u) s) u
   \<and> wild eq q (drop (length u) s)"
proof (induction u arbitrary: s)
  case (Cons d u)
  then show ?case by (cases s) (auto simp: wild_char wild_char_Nil)
qed simp

lemma wild_stars: "wild eq (42 # replicate n 42 @ q) s \<longleftrightarrow> wild eq (42 # q) s"
proof (induction n)
  case (Suc n)
  have "wild eq (42 # 42 # p) s \<longleftrightarrow> wild eq (42 # p) s" for p
  proof
    assume "wild eq (42 # 42 # p) s"
    then obtain k l where "k \<le> length s" "l \<le> length s - k" "wild eq p (drop l (drop k s))"
      by (auto simp: wild_star)
    then show "wild eq (42 # p) s" unfolding wild_star by (intro exI [of _ "l + k"]) simp
  qed (simp add: wild.simps(2) [of eq 42 "42 # p"])
  then show ?case using Suc.IH by simp
qed simp

lemma wild_star_end: "wild eq [42] s"
  unfolding wild_star by (rule exI [of _ "length s"]) simp

lemma wild_Nil: "wild eq q [] \<longleftrightarrow> (\<forall>d \<in> set q. d = 42)"
  by (induction q) (simp_all add: wild.simps)

text \<open>The first place after a star is enough: what follows the next star can start there.\<close>

lemma wild_next_star:
  assumes "42 \<notin> set u" "length u = length v" "list_all2 (\<lambda>c d. d = 63 \<or> eq c d) v u"
  shows "wild eq (42 # u @ 42 # q) (v @ w) \<longleftrightarrow> wild eq (42 # q) w"
proof
  assume "wild eq (42 # u @ 42 # q) (v @ w)"
  then obtain k where k: "k \<le> length (v @ w)" "wild eq (u @ 42 # q) (drop k (v @ w))"
    unfolding wild_star by blast
  from k(2) have n: "length u \<le> length (drop k (v @ w))" "wild eq (42 # q) (drop (length u) (drop k (v @ w)))"
    unfolding wild_prefix [OF assms(1)] by blast+
  then obtain l where l: "l \<le> length (drop (length u) (drop k (v @ w)))"
    "wild eq q (drop l (drop (length u) (drop k (v @ w))))"
    unfolding wild_star by blast
  have "drop l (drop (length u) (drop k (v @ w))) = drop (l + k + length v) (v @ w)"
    using assms(2) by (simp only: drop_drop ac_simps)
  also have "\<dots> = drop (l + k) w" by simp
  finally have "drop l (drop (length u) (drop k (v @ w))) = drop (l + k) w" .
  moreover have "l + k \<le> length w" using n(1) l(1) k(1) assms(2) unfolding length_drop length_append by linarith
  ultimately show "wild eq (42 # q) w" unfolding wild_star using l(2) by auto
next
  assume "wild eq (42 # q) w"
  then have "wild eq (u @ 42 # q) (v @ w)" using wild_prefix [OF assms(1), of eq "42 # q" "v @ w"] assms(2,3) by simp
  then show "wild eq (42 # u @ 42 # q) (v @ w)" unfolding wild_star by (intro exI [of _ 0]) simp
qed

lemma wild_end:
  assumes "42 \<notin> set u" "length u = length v" "list_all2 (\<lambda>c d. d = 63 \<or> eq c d) v u"
  shows "wild eq (u @ q) v \<longleftrightarrow> (\<forall>d \<in> set q. d = 42)" "wild eq (42 # u @ q) v \<longleftrightarrow> (\<forall>d \<in> set q. d = 42)"
proof -
  show 1: "wild eq (u @ q) v \<longleftrightarrow> (\<forall>d \<in> set q. d = 42)"
    using wild_prefix [OF assms(1), of eq q v] assms(2,3) by (simp add: wild_Nil)
  have "\<not> wild eq (u @ q) (drop k v)" if "0 < k" "k \<le> length v" for k
    using wild_prefix [OF assms(1), of eq q "drop k v"] that assms(2) by auto
  then have "wild eq (42 # u @ q) v \<longleftrightarrow> wild eq (u @ q) v"
    unfolding wild_star by (metis drop0 gr0I le0)
  then show "wild eq (42 # u @ q) v \<longleftrightarrow> (\<forall>d \<in> set q. d = 42)" using 1 by simp
qed

lemma wild_mismatch:
  assumes "42 \<notin> set u" "length u = length v"
    and "\<not> wild eq q w" "v @ w \<noteq> []"
  shows "\<not> wild eq (u @ q) (v @ w)" "wild eq (42 # u @ q) (v @ w) \<longleftrightarrow> wild eq (42 # u @ q) (tl (v @ w))"
proof -
  show 1: "\<not> wild eq (u @ q) (v @ w)" using wild_prefix [OF assms(1), of eq q "v @ w"] assms(2,3) by auto
  obtain c s where "v @ w = c # s" using assms(4) by (cases "v @ w") auto
  then show "wild eq (42 # u @ q) (v @ w) \<longleftrightarrow> wild eq (42 # u @ q) (tl (v @ w))"
    using 1 by (simp add: wild.simps(2) [of eq 42])
qed

section \<open>The loop\<close>

lemma skip_stars:
  "chars_at mem p (q @ [0]) \<Longrightarrow> 0 \<notin> set q \<Longrightarrow>
   \<exists>n q'. q = replicate n 42 @ q' \<and> (\<forall>r. q' \<noteq> 42 # r) \<and> skip_stars mem p = Some (p + 2 * of_nat n)
     \<and> chars_at mem (p + 2 * of_nat n) (q' @ [0])"
proof (induction q arbitrary: p)
  case Nil
  then show ?case by (intro exI [of _ 0] exI [of _ "[]"]) (simp add: skip_stars.simps [of mem p])
next
  case (Cons d q)
  show ?case
  proof (cases "d = 42")
    case True
    obtain n q' where "q = replicate n 42 @ q'" "\<forall>r. q' \<noteq> 42 # r" "skip_stars mem (p + 2) = Some (p + 2 + 2 * of_nat n)"
      "chars_at mem (p + 2 + 2 * of_nat n) (q' @ [0])"
      using Cons.IH [of "p + 2"] Cons.prems by auto
    then show ?thesis using True Cons.prems
      by (intro exI [of _ "Suc n"] exI [of _ q']) (simp add: skip_stars.simps [of mem p] algebra_simps)
  next
    case False
    then show ?thesis using Cons.prems
      by (intro exI [of _ 0] exI [of _ "d # q"]) (simp add: skip_stars.simps [of mem p])
  qed
qed

text \<open>
  The loop at \<open>s\<close> and \<open>p\<close>: \<open>u\<close>, without stars, has matched \<open>v\<close> since the last jump, \<open>q\<close> and \<open>w\<close>
  are still to come.
\<close>

lemma match_loop:
  fixes ic :: bool and up :: "ushort \<Rightarrow> ushort"
  assumes up: "\<And>c. up c = up 0 \<Longrightarrow> c = 0"
  defines "eq \<equiv> (\<lambda>c d. if ic then up c = up d else c = d)"
  assumes "chars_at mem P (u @ q @ [0])" "chars_at mem S (v @ w @ [0])" "0 \<notin> set (u @ q)" "0 \<notin> set (v @ w)"
    and "42 \<notin> set u" "length u = length v" "list_all2 (\<lambda>c d. d = 63 \<or> eq c d) v u"
  shows "PhpMatchWildcards_loop up ic mem star P S (S + 2 * of_nat (length v)) (P + 2 * of_nat (length u))
    = Some (if star then wild eq (42 # u @ q) (v @ w) else wild eq (u @ q) (v @ w))"
  using assms(3-)
proof (induction "(length (u @ q), length (v @ w), length w)" arbitrary: star P S u q v w
    rule: wf_induct_rule [OF wf_lex_prod [OF wf_less wf_lex_prod [OF wf_less wf_less]], case_names less])
  case (less u q v w star P S)
  let ?s = "S + 2 * of_nat (length v)" and ?p = "P + 2 * of_nat (length u)"
  have IH: "PhpMatchWildcards_loop up ic mem star' P' S' (S' + 2 * of_nat (length v')) (P' + 2 * of_nat (length u'))
      = Some (if star' then wild eq (42 # u' @ q') (v' @ w') else wild eq (u' @ q') (v' @ w'))"
    if "length (u' @ q') < length (u @ q) \<or> length (u' @ q') = length (u @ q) \<and>
        (length (v' @ w') < length (v @ w) \<or> length (v' @ w') = length (v @ w) \<and> length w' < length w)"
      "chars_at mem P' (u' @ q' @ [0])" "chars_at mem S' (v' @ w' @ [0])" "0 \<notin> set (u' @ q')" "0 \<notin> set (v' @ w')"
      "42 \<notin> set u'" "length u' = length v'" "list_all2 (\<lambda>c d. d = 63 \<or> eq c d) v' u'"
    for star' P' S' u' q' v' w'
    using that by (intro less.hyps) (auto simp: in_lex_prod less_eq)
  have ps: "chars_at mem ?p (q @ [0])" "chars_at mem ?s (w @ [0])"
    using less.prems(1,2) by (simp_all add: chars_at_append)
  show ?case
  proof (cases w)
    case Nil
    obtain n q' where "q = replicate n 42 @ q'" "\<forall>r. q' \<noteq> 42 # r" "skip_stars mem ?p = Some (?p + 2 * of_nat n)"
      "chars_at mem (?p + 2 * of_nat n) (q' @ [0])"
      using skip_stars [OF ps(1)] less.prems(3) by auto
    moreover from this have "(\<exists>d. mem (?p + 2 * of_nat n) = Some d \<and> (d = 0 \<longleftrightarrow> (\<forall>d \<in> set q. d = 42)))"
      using less.prems(3) by (cases q') auto
    ultimately have "PhpMatchWildcards_loop up ic mem star P S ?s ?p = Some (\<forall>d \<in> set q. d = 42)"
      using ps(2) Nil by (subst PhpMatchWildcards_loop.simps) auto
    then show ?thesis using wild_end [OF less.prems(5,6,7)] Nil by simp
  next
    case (Cons c w')
    have c: "mem ?s = Some c" "c \<noteq> 0" using ps(2) less.prems(4) Cons by auto
    have mismatch: "PhpMatchWildcards_loop up ic mem star P S ?s ?p
        = Some (if star then wild eq (42 # u @ q) (v @ w) else wild eq (u @ q) (v @ w))"
      if d: "mem ?p = Some d" "d \<noteq> 63" "d \<noteq> 42" "\<not> eq c d" and no: "\<not> wild eq q w" for d
    proof -
      have loop: "PhpMatchWildcards_loop up ic mem star P S ?s ?p
          = (if star then PhpMatchWildcards_loop up ic mem star P (S + 2) (S + 2) P else Some False)"
        using c d by (subst PhpMatchWildcards_loop.simps) (auto simp: eq_def)
      obtain x xs where x: "v @ w = x # xs" using Cons by (cases "v @ w") auto
      have m: "\<not> wild eq (u @ q) (v @ w)" "wild eq (42 # u @ q) (v @ w) \<longleftrightarrow> wild eq (42 # u @ q) xs"
        using wild_mismatch [OF less.prems(5,6) no, of] x by auto
      have "chars_at mem S ((v @ w) @ [0])" using less.prems(2) by simp
      then have "chars_at mem (S + 2) ([] @ xs @ [0])" unfolding x by simp
      then have "PhpMatchWildcards_loop up ic mem True P (S + 2) (S + 2) P = Some (wild eq (42 # u @ q) xs)"
        using IH [of "[]" "u @ q" "[]" xs P "S + 2" True] less.prems(1,3,4) x by simp
      then show ?thesis using loop m by simp
    qed
    show ?thesis
    proof (cases q)
      case Nil
      then have "mem ?p = Some 0" "\<not> wild eq q w" using ps(1) Cons by auto
      moreover have "\<not> eq c 0" using up [of c] c(2) by (auto simp: eq_def)
      ultimately show ?thesis by (intro mismatch) auto
    next
      case q: (Cons d q')
      have d: "mem ?p = Some d" "d \<noteq> 0" using ps(1) less.prems(3) q by auto
      consider (star) "d = 42" | (match) "d \<noteq> 42" "d = 63 \<or> eq c d" | (no) "d \<noteq> 42" "d \<noteq> 63" "\<not> eq c d" by blast
      then show ?thesis
      proof cases
        case match
        have "PhpMatchWildcards_loop up ic mem star P S ?s ?p = PhpMatchWildcards_loop up ic mem star P S (?s + 2) (?p + 2)"
          using c d match by (subst PhpMatchWildcards_loop.simps) (auto simp: eq_def)
        also have "\<dots> = Some (if star then wild eq (42 # (u @ [d]) @ q') ((v @ [c]) @ w') else wild eq ((u @ [d]) @ q') ((v @ [c]) @ w'))"
          using IH [of "u @ [d]" q' "v @ [c]" w' P S star] less.prems Cons q match
          by (simp add: algebra_simps list_all2_appendI)
        finally show ?thesis using Cons q by simp
      next
        case no
        then show ?thesis using d(1) Cons q by (intro mismatch [of d]) (simp_all add: wild_char)
      next
        case star
        have "chars_at mem (?p + 2) (q' @ [0])" using ps(1) q by simp
        then obtain n r where r: "q' = replicate n 42 @ r" "skip_stars mem (?p + 2) = Some (?p + 2 + 2 * of_nat n)"
          "chars_at mem (?p + 2 + 2 * of_nat n) (r @ [0])"
          using skip_stars [of mem "?p + 2" q'] less.prems(3) q by auto
        have spec: "wild eq (42 # u @ q) (v @ w) \<longleftrightarrow> wild eq (42 # r) w"
          "wild eq (u @ q) (v @ w) \<longleftrightarrow> wild eq (42 # r) w"
          using wild_next_star [OF less.prems(5,6,7), of q' w] wild_prefix [OF less.prems(5), of eq q "v @ w"]
            less.prems(6,7) star q r(1) wild_stars [of eq n r w] by simp_all
        show ?thesis
        proof (cases r)
          case Nil
          then have "PhpMatchWildcards_loop up ic mem star P S ?s ?p = Some True"
            using c d(1) star r(2,3) by (subst PhpMatchWildcards_loop.simps) auto
          then show ?thesis using spec Nil wild_star_end [of eq w] by simp
        next
          case (Cons e r')
          let ?P = "?p + 2 + 2 * of_nat n"
          have e: "mem ?P = Some e" "e \<noteq> 0" using r(1,3) less.prems(3) q Cons by auto
          have "PhpMatchWildcards_loop up ic mem star P S ?s ?p = PhpMatchWildcards_loop up ic mem True ?P ?s ?s ?P"
            using c d(1) star r(2) e by (subst PhpMatchWildcards_loop.simps) auto
          also have "\<dots> = Some (wild eq (42 # r) w)"
            using IH [of "[]" r "[]" w ?P ?s True] less.prems(3,4) r(1,3) q ps(2) by simp
          finally show ?thesis using spec by simp
        qed
      qed
    qed
  qed
qed

section \<open>Menu prefixes\<close>

fun escaped :: "ushort list \<Rightarrow> ushort list" where
  "escaped [] = []"
| "escaped (c # cs) = (if c = 38 then [38, 38] else [c]) @ escaped cs"

lemma escaped_append: "escaped (xs @ ys) = escaped xs @ escaped ys"
  by (induction xs) auto

lemma escaped_plain: "38 \<notin> set xs \<Longrightarrow> escaped xs = xs"
  by (induction xs) auto

lemma length_escaped: "length (escaped xs) \<le> 2 * length xs"
  by (induction xs) auto

lemma append_units:
  assumes "builder_holds sb cs" "chars_at mem p xs" "p \<noteq> 0" "unat n = 2 * length xs"
    and "2 * (length cs + length xs) < 2 ^ 64 - 2"
  shows "\<exists>sb'. PhAppendStringBuilderEx mem sb p n = Some sb' \<and> builder_holds sb' (cs @ xs)"
  using append_ref [of sb cs mem "\<lparr>Length = n, Buffer = p\<rparr>" xs] assms
  by (simp add: holds_ref_def PhAppendStringBuilder_def)

lemma append_ampersands:
  assumes "builder_holds sb cs" "z_string vec mem amp [38, 38]" "amp \<noteq> 0" "length cs < 2 ^ 62"
  shows "\<exists>sb'. PhAppendStringBuilder2 vec mem sb amp = Some sb' \<and> builder_holds sb' (cs @ [38, 38])"
  using append_units [of sb cs mem amp "[38, 38]" 4] assms count_z_string [OF assms(2)]
  by (simp add: PhAppendStringBuilder2_def z_string_def)

declare PhEscapeStringForMenuPrefix_loop.simps [simp del]

text \<open>After \<open>xs @ run\<close> the builder holds the escaped \<open>xs\<close>, and \<open>runStart\<close> points to \<open>run\<close>, which has no ampersand.\<close>

lemma escape_loop:
  assumes S: "chars_at mem (Buffer S) (xs @ run @ ys)" "length (xs @ run @ ys) < 2 ^ 60"
    and nonnull: "\<And>k. k < length (xs @ run @ ys) \<Longrightarrow> Buffer S + 2 * of_nat k \<noteq> 0"
    and amp: "z_string vec mem amp [38, 38]" "amp \<noteq> 0"
    and n: "unat n = length (xs @ run @ ys)" "unat i = length (xs @ run)"
    and run: "38 \<notin> set run" "if run = [] then r = 0 else r = Buffer S + 2 * of_nat (length xs) \<and> unat k = length run"
    and sb: "builder_holds sb (escaped xs)"
  shows "\<exists>r' k' sb' xs' run'. PhEscapeStringForMenuPrefix_loop vec mem amp S n i r k sb = Some (r', k', sb')
    \<and> xs @ run @ ys = xs' @ run' \<and> builder_holds sb' (escaped xs') \<and> 38 \<notin> set run'
    \<and> (if run' = [] then r' = 0 else r' = Buffer S + 2 * of_nat (length xs') \<and> unat k' = length run')"
  using S nonnull n run sb
proof (induction ys arbitrary: xs run i r k sb)
  case Nil
  then have "\<not> i < n" by (simp add: word_less_nat_alt)
  then have "PhEscapeStringForMenuPrefix_loop vec mem amp S n i r k sb = Some (r, k, sb)"
    by (subst PhEscapeStringForMenuPrefix_loop.simps) simp
  then show ?case using Nil by (intro exI [of _ r] exI [of _ k] exI [of _ sb] exI [of _ xs] exI [of _ run]) simp
next
  case (Cons c ys)
  have i: "i < n" "unat (i + 1) = length (xs @ run @ [c])"
    using Cons.prems(4,5) unat_inc [of i n] by (simp_all add: word_less_nat_alt)
  have iw: "i = of_nat (length (xs @ run))" using Cons.prems(5) by (rule of_nat_unatI)
  have "mem (Buffer S + 2 * of_nat (length (xs @ run))) = Some ((xs @ run @ c # ys) ! length (xs @ run))"
    by (rule chars_at_nth [OF Cons.prems(1)]) simp
  then have c: "mem (Buffer S + i * 2) = Some c" unfolding iw by (simp add: nth_append mult.commute)
  have e: "length (escaped xs) < 2 ^ 61" using length_escaped [of xs] Cons.prems(2) by simp
  show ?case
  proof (cases "c = 38")
    case True
    have "\<exists>sb'. (if r \<noteq> 0 then do { sb \<leftarrow> PhAppendStringBuilderEx mem sb r (k * 2); Some (NULL_PTR, sb) }
        else Some (r, sb)) = Some (0, sb') \<and> builder_holds sb' (escaped (xs @ run))"
    proof (cases "run = []")
      case False
      then have r: "r = Buffer S + 2 * of_nat (length xs)" "unat k = length run" using Cons.prems(7) by simp_all
      have nn: "r \<noteq> 0" unfolding r(1) by (rule Cons.prems(3)) simp
      have "chars_at mem r (run @ c # ys)"
        using Cons.prems(1) unfolding r(1) by (simp add: chars_at_append)
      then have chars: "chars_at mem r run" by (simp add: chars_at_append)
      have k: "unat (k * 2) = 2 * length run" using r(2) Cons.prems(2) by (subst unat_double) simp_all
      obtain sb' where "PhAppendStringBuilderEx mem sb r (k * 2) = Some sb'" "builder_holds sb' (escaped xs @ run)"
        using append_units [OF Cons.prems(8) chars nn k] e Cons.prems(2) by auto
      then show ?thesis using nn escaped_plain [OF Cons.prems(6)] by (simp add: escaped_append)
    qed (use Cons.prems(7,8) in simp)
    then obtain sb1 where sb1: "(if r \<noteq> 0 then do { sb \<leftarrow> PhAppendStringBuilderEx mem sb r (k * 2); Some (NULL_PTR, sb) }
        else Some (r, sb)) = Some (0, sb1)" "builder_holds sb1 (escaped (xs @ run))"
      by (elim exE conjE) (rule that)
    have "length (escaped (xs @ run)) < 2 ^ 62" using length_escaped [of "xs @ run"] Cons.prems(2) by simp
    then obtain sb2 where sb2: "PhAppendStringBuilder2 vec mem sb1 amp = Some sb2"
      "builder_holds sb2 (escaped (xs @ run) @ [38, 38])"
      using append_ampersands [OF sb1(2) amp] by blast
    have sb3: "builder_holds sb2 (escaped (xs @ run @ [c]))" using sb2(2) True by (simp add: escaped_append)
    have "PhEscapeStringForMenuPrefix_loop vec mem amp S n i r k sb
        = PhEscapeStringForMenuPrefix_loop vec mem amp S n (i + 1) 0 k sb2"
      using i(1) c True sb1(1) sb2(1) by (subst PhEscapeStringForMenuPrefix_loop.simps) simp
    then show ?thesis
      using Cons.IH [of "xs @ run @ [c]" "[]" "i + 1" 0 k sb2] Cons.prems(1,2,3,4) i(2) sb3 by simp
  next
    case False
    have r0: "run \<noteq> [] \<Longrightarrow> r \<noteq> 0" using Cons.prems(3,7) by auto
    let ?r = "if run = [] then Buffer S + i * 2 else r" and ?k = "if run = [] then 1 else k + 1"
    have step: "PhEscapeStringForMenuPrefix_loop vec mem amp S n i r k sb
        = PhEscapeStringForMenuPrefix_loop vec mem amp S n (i + 1) ?r ?k sb"
      using i(1) c False r0 Cons.prems(7) by (subst PhEscapeStringForMenuPrefix_loop.simps) auto
    have r: "?r = Buffer S + 2 * of_nat (length xs)" using iw Cons.prems(7) by (simp add: mult.commute)
    have "unat (k + 1) = Suc (length run)" if "run \<noteq> []"
      using that Cons.prems(2,7) unat_add_exact [of k 1] by simp
    then have k: "unat ?k = length (run @ [c])" by simp
    show ?thesis
      unfolding step
      using Cons.IH [of xs "run @ [c]" "i + 1" ?r ?k sb] Cons.prems(1,2,3,4,6,8) i(2) r k False by simp
  qed
qed

lemma escape_menu_prefix:
  assumes S: "holds_ref mem S xs" "length xs < 2 ^ 60" "Buffer S \<noteq> 0" "unat (Buffer S) + 2 * length xs \<le> 2 ^ 64"
    and amp: "z_string vec mem amp [38, 38]" "amp \<noteq> 0"
  obtains R where "PhEscapeStringForMenuPrefix vec mem amp S = Some R"
    "unat (StrLength R) = 2 * length (escaped xs)" "starts (StrBuffer R) (escaped xs @ [0])"
proof -
  have nonnull: "Buffer S + 2 * of_nat k \<noteq> 0" if "k < length xs" for k
  proof -
    have "unat (2 * of_nat k :: ulong64) = 2 * k" using unat_of_nat_small [of "2 * k"] that S(2) by simp
    moreover have "unat (Buffer S) + 2 * k < 2 ^ 64" using that S(4) by simp
    ultimately have "unat (Buffer S + 2 * of_nat k) = unat (Buffer S) + 2 * k" by (subst unat_add_exact) simp_all
    then show ?thesis using S(3) by (metis add_is_0 unat_0 unat_eq_0)
  qed
  have chars: "chars_at mem (Buffer S) xs" using S(1) by (simp add: holds_ref_def)
  have n: "unat (Length S div 2) = length xs" by (rule holds_ref_units [OF S(1)])
  obtain sb where sb: "PhInitializeStringBuilder (Length S) = Some sb" "builder_holds sb []"
    using initialize_builder [of "Length S"] S(1,2) by (auto simp: holds_ref_def)
  have "\<exists>r k sb1 xs' run. PhEscapeStringForMenuPrefix_loop vec mem amp S (Length S div 2) 0 0 0 sb = Some (r, k, sb1)
    \<and> xs = xs' @ run \<and> builder_holds sb1 (escaped xs') \<and> 38 \<notin> set run
    \<and> (if run = [] then r = 0 else r = Buffer S + 2 * of_nat (length xs') \<and> unat k = length run)"
    using escape_loop [of mem S "[]" "[]" xs vec amp "Length S div 2" 0 0 0 sb] chars S(2) nonnull amp n sb(2) by simp
  then obtain r k sb1 xs' run where l: "PhEscapeStringForMenuPrefix_loop vec mem amp S (Length S div 2) 0 0 0 sb = Some (r, k, sb1)"
    "xs = xs' @ run" "builder_holds sb1 (escaped xs')" "38 \<notin> set run"
    "if run = [] then r = 0 else r = Buffer S + 2 * of_nat (length xs') \<and> unat k = length run"
    by (elim exE conjE) (rule that)
  have "\<exists>sb2. (if r \<noteq> 0 then PhAppendStringBuilderEx mem sb1 r (k * 2) else Some sb1) = Some sb2
      \<and> builder_holds sb2 (escaped xs)"
  proof (cases "run = []")
    case False
    then have r: "r = Buffer S + 2 * of_nat (length xs')" "unat k = length run" using l(5) by simp_all
    have nn: "r \<noteq> 0" unfolding r(1) using l(2) False by (intro nonnull) simp
    have ch: "chars_at mem r run" using chars unfolding l(2) r(1) by (simp add: chars_at_append)
    have k: "unat (k * 2) = 2 * length run" using r(2) l(2) S(2) by (subst unat_double) simp_all
    show ?thesis
      using append_units [OF l(3) ch nn k] length_escaped [of xs'] S(2) l(2) nn escaped_plain [OF l(4)]
      by (simp add: escaped_append)
  qed (use l(2,3,5) in simp)
  then obtain sb2 where sb2: "(if r \<noteq> 0 then PhAppendStringBuilderEx mem sb1 r (k * 2) else Some sb1) = Some sb2"
    "builder_holds sb2 (escaped xs)" by blast
  have "PhEscapeStringForMenuPrefix vec mem amp S = Some (BString sb2)"
    using sb(1) l(1) sb2(1) by (simp add: PhEscapeStringForMenuPrefix_def PhFinalStringBuilderString_def)
  then show thesis using that sb2(2) by (simp add: builder_holds_def)
qed

text \<open>Comparing two escaped strings goes through their characters side by side.\<close>

lemma skip_escaped:
  assumes "chars_at mem p (escaped (c # cs) @ [0])"
  shows "\<exists>q. skip_ampersand mem p = Some q \<and> mem q = Some c \<and> chars_at mem (q + 2) (escaped cs @ [0])"
  using assms by (cases "c = 38") (auto simp: skip_ampersand_def)

lemma small_range:
  "0 \<le> a \<Longrightarrow> b < 65536 \<Longrightarrow> - (2147483648 :: int) \<le> a - b" "a < 65536 \<Longrightarrow> 0 \<le> b \<Longrightarrow> a - b < (2147483648 :: int)"
  by simp_all

lemma unit_sign:
  fixes a b :: ushort
  shows "sint (ucast a - ucast b :: slong) < 0 \<longleftrightarrow> a < b" "sint (ucast a - ucast b :: slong) = 0 \<longleftrightarrow> a = b"
proof -
  have "sint (ucast a - ucast b :: slong) = uint a - uint b"
    unfolding unit_difference using unit_range [of a] unit_range [of b] by (intro sint_small_diff) (simp_all add: small_range)
  then show "sint (ucast a - ucast b :: slong) < 0 \<longleftrightarrow> a < b" "sint (ucast a - ucast b :: slong) = 0 \<longleftrightarrow> a = b"
    by (simp_all only: word_less_def word_uint_eq_iff) linarith+
qed

lemma compare_escaped:
  assumes "chars_at mem A (escaped xs @ [0])" "chars_at mem B (escaped ys @ [0])" "0 \<notin> set xs" "0 \<notin> set ys"
  shows "\<exists>d. PhCompareIgnoreMenuPrefix_loop up mem False prefix A B = Some d
    \<and> (if prefix then d = 0 \<longleftrightarrow> take (length xs) ys = xs
       else (sint d < 0 \<longleftrightarrow> xs < ys) \<and> (sint d = 0 \<longleftrightarrow> xs = ys))"
  using assms
proof (induction xs arbitrary: ys A B)
  case Nil
  have A: "skip_ampersand mem A = Some A" "mem A = Some 0" using Nil.prems(1) by (simp_all add: skip_ampersand_def)
  obtain q y where B: "skip_ampersand mem B = Some q" "mem q = Some y" "y = 0 \<longleftrightarrow> ys = []"
  proof (cases ys)
    case Nil
    then show thesis using that [of B 0] \<open>chars_at mem B _\<close> by (simp add: skip_ampersand_def)
  next
    case (Cons y zs)
    then show thesis using that skip_escaped [of mem B y zs] Nil.prems(2,4) by auto
  qed
  show ?case
  proof (cases prefix)
    case True
    then show ?thesis using A B by (subst PhCompareIgnoreMenuPrefix_loop.simps) simp
  next
    case False
    have "(sint (ucast (0 :: ushort) - ucast y :: slong) < 0 \<longleftrightarrow> (0 :: ushort) < y)"
      "(sint (ucast (0 :: ushort) - ucast y :: slong) = 0 \<longleftrightarrow> 0 = y)"
      using unit_sign [of 0 y] by simp_all
    moreover have "0 < y \<longleftrightarrow> [] < ys" using B(3) by (cases ys) (simp_all add: word_gt_0)
    ultimately show ?thesis using A B False by (subst PhCompareIgnoreMenuPrefix_loop.simps) auto
  qed
next
  case (Cons x xs)
  obtain p where A: "skip_ampersand mem A = Some p" "mem p = Some x" "chars_at mem (p + 2) (escaped xs @ [0])"
    using skip_escaped [OF Cons.prems(1)] by blast
  have x: "x \<noteq> 0" using Cons.prems(3) by auto
  show ?case
  proof (cases ys)
    case Nil
    then have B: "skip_ampersand mem B = Some B" "mem B = Some 0" using Cons.prems(2) by (simp_all add: skip_ampersand_def)
    have "\<not> sint (ucast x - ucast (0 :: ushort) :: slong) < 0" "sint (ucast x - ucast (0 :: ushort) :: slong) \<noteq> 0"
      using unit_sign [of x 0] x by simp_all
    then show ?thesis using A(1,2) B x Nil by (subst PhCompareIgnoreMenuPrefix_loop.simps) auto
  next
    case ys: (Cons y zs)
    obtain q where B: "skip_ampersand mem B = Some q" "mem q = Some y" "chars_at mem (q + 2) (escaped zs @ [0])"
      using skip_escaped [of mem B y zs] Cons.prems(2) ys by blast
    show ?thesis
    proof (cases "x = y")
      case True
      have "PhCompareIgnoreMenuPrefix_loop up mem False prefix A B
          = PhCompareIgnoreMenuPrefix_loop up mem False prefix (p + 2) (q + 2)"
        using A(1,2) B(1,2) x True by (subst PhCompareIgnoreMenuPrefix_loop.simps) simp
      then show ?thesis using Cons.IH [OF A(3) B(3)] Cons.prems(3,4) ys True by (cases prefix) simp_all
    next
      case False
      have "(sint (ucast x - ucast y :: slong) < 0 \<longleftrightarrow> x < y)" "sint (ucast x - ucast y :: slong) \<noteq> 0"
        using unit_sign [of x y] False by simp_all
      then show ?thesis using A(1,2) B(1,2) x False ys by (subst PhCompareIgnoreMenuPrefix_loop.simps) auto
    qed
  qed
qed

section \<open>Properties\<close>

text \<open>
  C21.  Matching a null-terminated string against a pattern always ends, reads only the two
  strings, and answers whether the string is in the language of the pattern: a question mark
  is any character, an asterisk any run of characters, with case folded when asked.  Going on
  only from the last asterisk seen loses no match.
\<close>

theorem PhMatchWildcards_correct:
  assumes "chars_at mem Pattern (ps @ [0])" "chars_at mem String (ss @ [0])" "0 \<notin> set ps" "0 \<notin> set ss"
    and "\<forall>c. up c = up 0 \<longrightarrow> c = 0"
  shows "PhMatchWildcards up mem Pattern String IgnoreCase
    = Some (wild (\<lambda>c d. if IgnoreCase then up c = up d else c = d) ps ss)"
  using match_loop [of up mem Pattern "[]" ps String "[]" ss IgnoreCase False] assms
  by (cases IgnoreCase) (simp_all add: PhMatchWildcards_def PhpMatchWildcards_def)

lemma PhMatchWildcards_correct_witness:
  "PhMatchWildcards sample_up (place 4096 [97, 42, 63, 67, 0] (place 8192 [65, 120, 99, 121, 67, 0] (\<lambda>_. None)))
     4096 8192 True = Some True"
proof -
  let ?mem = "place 4096 [97, 42, 63, 67, 0] (place 8192 [65, 120, 99, 121, 67, 0] (\<lambda>_. None))"
  have "\<forall>c. sample_up c = sample_up 0 \<longrightarrow> c = 0" by (auto simp: sample_up_def split: if_splits)
  moreover let ?eq = "\<lambda>c d. sample_up c = sample_up d"
  have "wild ?eq [42, 63, 67] [120, 99, 121, 67]"
    unfolding wild_star by (rule exI [of _ 2]) (simp add: wild_char)
  then have "wild ?eq [97, 42, 63, 67] [65, 120, 99, 121, 67]" by (simp add: wild_char sample_up_def)
  ultimately show ?thesis
    using PhMatchWildcards_correct [of ?mem 4096 "[97, 42, 63, 67]" 8192 "[65, 120, 99, 121, 67]" sample_up True]
    by simp
qed

text \<open>
  Doubling the ampersands of a string with the builder, and comparing ignoring menu
  prefixes, agree: two null-terminated strings that hold the escaped forms compare in the order
  of the strings themselves, and as equal to every string they are a prefix of when asked.
\<close>

theorem PhMenuPrefix_roundtrip:
  assumes "holds_ref mem S xs" "length xs < 2 ^ 60" "Buffer S \<noteq> 0" "unat (Buffer S) + 2 * length xs \<le> 2 ^ 64"
    and "z_string vec mem amp [38, 38]" "amp \<noteq> 0" "0 \<notin> set xs"
  shows "\<exists>R. PhEscapeStringForMenuPrefix vec mem amp S = Some R
    \<and> unat (StrLength R) = 2 * length (escaped xs) \<and> starts (StrBuffer R) (escaped xs @ [0])
    \<and> (\<forall>mem' A B ys. chars_at mem' A (escaped xs @ [0]) \<longrightarrow> chars_at mem' B (escaped ys @ [0]) \<longrightarrow> 0 \<notin> set ys
        \<longrightarrow> A \<noteq> 0 \<longrightarrow> B \<noteq> 0 \<longrightarrow>
        (\<exists>d. PhCompareUnicodeStringZIgnoreMenuPrefix up mem' A B False MatchIfPrefix = Some d
          \<and> (if MatchIfPrefix then d = 0 \<longleftrightarrow> take (length xs) ys = xs
             else (sint d < 0 \<longleftrightarrow> xs < ys) \<and> (sint d = 0 \<longleftrightarrow> xs = ys))))"
proof -
  obtain R where R: "PhEscapeStringForMenuPrefix vec mem amp S = Some R"
    "unat (StrLength R) = 2 * length (escaped xs)" "starts (StrBuffer R) (escaped xs @ [0])"
    by (rule escape_menu_prefix [OF assms(1-6)])
  have "\<exists>d. PhCompareUnicodeStringZIgnoreMenuPrefix up mem' A B False MatchIfPrefix = Some d
      \<and> (if MatchIfPrefix then d = 0 \<longleftrightarrow> take (length xs) ys = xs
         else (sint d < 0 \<longleftrightarrow> xs < ys) \<and> (sint d = 0 \<longleftrightarrow> xs = ys))"
    if "chars_at mem' A (escaped xs @ [0])" "chars_at mem' B (escaped ys @ [0])" "0 \<notin> set ys" "A \<noteq> 0" "B \<noteq> 0"
    for mem' A B ys
    using compare_escaped [OF that(1,2) assms(7) that(3), of up MatchIfPrefix] that(4,5)
    by (simp add: PhCompareUnicodeStringZIgnoreMenuPrefix_def)
  then show ?thesis using R by blast
qed

lemma PhMenuPrefix_roundtrip_witness:
  "(\<exists>R. PhEscapeStringForMenuPrefix False (place 4096 [65, 38] (place 8192 [38, 38, 0] (\<lambda>_. None))) 8192
        \<lparr>Length = 4, Buffer = 4096\<rparr> = Some R)
   \<and> (\<exists>d. PhCompareUnicodeStringZIgnoreMenuPrefix (\<lambda>c. c)
        (place 4096 [65, 38, 38, 0] (place 8192 [65, 66, 0] (\<lambda>_. None))) 4096 8192 False False = Some d \<and> sint d < 0)"
proof -
  let ?mem = "place 4096 [65, 38] (place 8192 [38, 38, 0] (\<lambda>_. None))"
    and ?mem' = "place 4096 [65, 38, 38, 0] (place 8192 [65, 66, 0] (\<lambda>_. None))"
  have S: "holds_ref ?mem \<lparr>Length = 4, Buffer = 4096\<rparr> [65, 38]" by (simp add: holds_ref_def)
  have amp: "z_string False ?mem 8192 [38, 38]" by (simp add: z_string_def)
  have strings: "chars_at ?mem' 4096 (escaped [65, 38] @ [0])" "chars_at ?mem' 8192 (escaped [65, 66] @ [0])" by simp_all
  have side: "length [65, 38 :: ushort] < 2 ^ 60" "Buffer \<lparr>Length = 4, Buffer = 4096\<rparr> \<noteq> 0"
    "unat (Buffer \<lparr>Length = 4, Buffer = 4096\<rparr>) + 2 * length [65, 38 :: ushort] \<le> 2 ^ 64" "(8192 :: ulong64) \<noteq> 0"
    "(0 :: ushort) \<notin> set [65, 38]" by simp_all
  obtain R where R: "PhEscapeStringForMenuPrefix False ?mem 8192 \<lparr>Length = 4, Buffer = 4096\<rparr> = Some R"
    and compare: "\<forall>mem' A B ys. chars_at mem' A (escaped [65, 38] @ [0]) \<longrightarrow> chars_at mem' B (escaped ys @ [0]) \<longrightarrow> 0 \<notin> set ys
        \<longrightarrow> A \<noteq> 0 \<longrightarrow> B \<noteq> 0 \<longrightarrow>
        (\<exists>d. PhCompareUnicodeStringZIgnoreMenuPrefix (\<lambda>c. c) mem' A B False False = Some d
          \<and> (if False then d = 0 \<longleftrightarrow> take (length [65, 38 :: ushort]) ys = [65, 38]
             else (sint d < 0 \<longleftrightarrow> [65, 38] < ys) \<and> (sint d = 0 \<longleftrightarrow> [65, 38] = ys)))"
    using PhMenuPrefix_roundtrip [OF S side(1-3) amp side(4,5), of "\<lambda>c. c" False] by (elim exE conjE) (rule that)
  show ?thesis using R compare [rule_format, OF strings] by auto
qed

end
