(* ===== verification/CommandLine.thy ===== *)
theory CommandLine
  imports BuilderProps
begin

text \<open>
  Command lines (\<open>phlib/util.c\<close>): parsing one part with its quotation marks and backslashes,
  escaping a part, and the parser of options that calls back for every option and value.  The
  name of an option is a null-terminated string in memory; \<open>alnum\<close> is \<open>iswalnum\<close>.  The
  callback is a function on the state of its context; it sees an option, or none for a plain
  part, and the units of the value, or none.
\<close>

unbundle bit_operations_syntax

section \<open>Parts\<close>

text \<open>The loop returns the builder and the index at which it stopped.\<close>

function PhParseCommandLinePart_loop ::
  "memory \<Rightarrow> ulong64 \<Rightarrow> ulong64 \<Rightarrow> ulong64 \<Rightarrow> ulong \<Rightarrow> bool \<Rightarrow> string_builder \<Rightarrow> (string_builder \<times> ulong64) option" where
  "PhParseCommandLinePart_loop mem B n i numberOfBackslashes inQuote sb = (
     if i < n then do {
       c \<leftarrow> mem (B + i * 2);
       if c = 92 then PhParseCommandLinePart_loop mem B n (i + 1) (numberOfBackslashes + 1) inQuote sb
       else if c = 34 then
         if numberOfBackslashes \<noteq> 0 then
           if numberOfBackslashes AND 1 \<noteq> 0 then do {
             let numberOfBackslashes = numberOfBackslashes div 2;
             (numberOfBackslashes, sb) \<leftarrow>
               (if numberOfBackslashes \<noteq> 0
                then do { sb \<leftarrow> PhAppendCharStringBuilder2 sb 92 (ucast numberOfBackslashes); Some (0, sb) }
                else Some (numberOfBackslashes, sb));
             sb \<leftarrow> PhAppendCharStringBuilder sb 34;
             PhParseCommandLinePart_loop mem B n (i + 1) numberOfBackslashes inQuote sb
           }
           else do {
             let numberOfBackslashes = numberOfBackslashes div 2;
             sb \<leftarrow> PhAppendCharStringBuilder2 sb 92 (ucast numberOfBackslashes);
             PhParseCommandLinePart_loop mem B n (i + 1) 0 (\<not> inQuote) sb
           }
         else PhParseCommandLinePart_loop mem B n (i + 1) numberOfBackslashes (\<not> inQuote) sb
       else do {
         (numberOfBackslashes, sb) \<leftarrow>
           (if numberOfBackslashes \<noteq> 0
            then do { sb \<leftarrow> PhAppendCharStringBuilder2 sb 92 (ucast numberOfBackslashes); Some (0, sb) }
            else Some (numberOfBackslashes, sb));
         if c = 32 \<and> \<not> inQuote then Some (sb, i)
         else do {
           sb \<leftarrow> PhAppendCharStringBuilder sb c;
           PhParseCommandLinePart_loop mem B n (i + 1) numberOfBackslashes inQuote sb
         }
       }
     }
     else Some (sb, i))"
  by auto
termination
  by (relation "measure (\<lambda>(m, b, n, i, k, q, s). unat n - unat i)") (auto simp: unat_inc word_less_nat_alt)

definition PhParseCommandLinePart ::
  "memory \<Rightarrow> ph_stringref \<Rightarrow> ulong64 \<Rightarrow> (ph_string \<times> ulong64) option" where
  "PhParseCommandLinePart mem CommandLine Index = do {
     sb \<leftarrow> PhInitializeStringBuilder 0x80;
     (sb, i) \<leftarrow> PhParseCommandLinePart_loop mem (Buffer CommandLine) (Length CommandLine div 2) Index 0 False sb;
     Some (PhFinalStringBuilderString sb, i)
   }"

text \<open>The buffer of the static reference to backslash and quote is at \<open>bq\<close>.\<close>

function PhEscapeCommandLinePart_loop ::
  "memory \<Rightarrow> ulong64 \<Rightarrow> ulong64 \<Rightarrow> ulong \<Rightarrow> ulong \<Rightarrow> ulong \<Rightarrow> string_builder \<Rightarrow> string_builder option" where
  "PhEscapeCommandLinePart_loop mem bq B n i numberOfBackslashes sb = (
     if i < n then do {
       c \<leftarrow> mem (B + ucast i * 2);
       if c = 92 then PhEscapeCommandLinePart_loop mem bq B n (i + 1) (numberOfBackslashes + 1) sb
       else if c = 34 then do {
         (numberOfBackslashes, sb) \<leftarrow>
           (if numberOfBackslashes \<noteq> 0
            then do { sb \<leftarrow> PhAppendCharStringBuilder2 sb 92 (ucast numberOfBackslashes * 2); Some (0, sb) }
            else Some (numberOfBackslashes, sb));
         sb \<leftarrow> PhAppendStringBuilder mem sb \<lparr>Length = 4, Buffer = bq\<rparr>;
         PhEscapeCommandLinePart_loop mem bq B n (i + 1) numberOfBackslashes sb
       }
       else do {
         (numberOfBackslashes, sb) \<leftarrow>
           (if numberOfBackslashes \<noteq> 0
            then do { sb \<leftarrow> PhAppendCharStringBuilder2 sb 92 (ucast numberOfBackslashes); Some (0, sb) }
            else Some (numberOfBackslashes, sb));
         sb \<leftarrow> PhAppendCharStringBuilder sb c;
         PhEscapeCommandLinePart_loop mem bq B n (i + 1) numberOfBackslashes sb
       }
     }
     else Some sb)"
  by auto
termination
  by (relation "measure (\<lambda>(m, q, b, n, i, k, s). unat n - unat i)") (auto simp: unat_inc word_less_nat_alt)

definition PhEscapeCommandLinePart :: "memory \<Rightarrow> ulong64 \<Rightarrow> ph_stringref \<Rightarrow> ph_string option" where
  "PhEscapeCommandLinePart mem bq String = do {
     sb \<leftarrow> PhInitializeStringBuilder (Length String div 2 * 3);
     sb \<leftarrow> PhEscapeCommandLinePart_loop mem bq (Buffer String) (ucast (Length String) div 2) 0 0 sb;
     Some (PhFinalStringBuilderString sb)
   }"

section \<open>Options\<close>

datatype option_type = NoArgumentType | MandatoryArgumentType | OptionalArgumentType

record command_option =
  OptionId :: ulong
  OptionName :: ulong64
  OptionType :: option_type

definition PH_COMMAND_LINE_IGNORE_UNKNOWN_OPTIONS :: ulong where "PH_COMMAND_LINE_IGNORE_UNKNOWN_OPTIONS = 0x1"
definition PH_COMMAND_LINE_IGNORE_FIRST_PART :: ulong where "PH_COMMAND_LINE_IGNORE_FIRST_PART = 0x2"

text \<open>The units a callback sees of a string object.\<close>

definition string_units :: "ph_string \<Rightarrow> ushort list" where
  "string_units S = map the (take (unat (StrLength S div 2)) (StrBuffer S))"

function skip_spaces :: "memory \<Rightarrow> ulong64 \<Rightarrow> ulong64 \<Rightarrow> ulong64 \<Rightarrow> ulong64 option" where
  "skip_spaces mem B n i = (
     if i < n then do { c \<leftarrow> mem (B + i * 2); if c = 32 then skip_spaces mem B n (i + 1) else Some i }
     else Some i)"
  by auto
termination
  by (relation "measure (\<lambda>(m, b, n, i). unat n - unat i)") (auto simp: unat_inc word_less_nat_alt)

function skip_name :: "(ushort \<Rightarrow> bool) \<Rightarrow> memory \<Rightarrow> ulong64 \<Rightarrow> ulong64 \<Rightarrow> ulong64 \<Rightarrow> ulong64 option" where
  "skip_name alnum mem B n i = (
     if i < n then do {
       c \<leftarrow> mem (B + i * 2);
       if \<not> alnum c \<and> c \<noteq> 45 then Some i else skip_name alnum mem B n (i + 1)
     }
     else Some i)"
  by auto
termination
  by (relation "measure (\<lambda>(a, m, b, n, i). unat n - unat i)") (auto simp: unat_inc word_less_nat_alt)

fun find_option ::
  "bool \<Rightarrow> (ushort \<Rightarrow> ushort) \<Rightarrow> memory \<Rightarrow> ph_stringref \<Rightarrow> command_option list \<Rightarrow> command_option option option" where
  "find_option vec up mem optionName [] = Some None"
| "find_option vec up mem optionName (o' # Options) = do {
     e \<leftarrow> PhEqualStringRef2 vec up mem optionName (OptionName o') False;
     if e then Some (Some o') else find_option vec up mem optionName Options
   }"

type_synonym 'c callback = "command_option option \<Rightarrow> ushort list option \<Rightarrow> 'c \<Rightarrow> bool \<times> 'c"

definition pending_optional :: "command_option option \<Rightarrow> bool" where
  "pending_optional option = (case option of None \<Rightarrow> False | Some o' \<Rightarrow> OptionType o' = OptionalArgumentType)"

definition takes_value :: "command_option option \<Rightarrow> ushort \<Rightarrow> bool" where
  "takes_value option c = (case option of None \<Rightarrow> False
     | Some o' \<Rightarrow> OptionType o' = MandatoryArgumentType \<or> OptionType o' = OptionalArgumentType \<and> c \<noteq> 45)"

text \<open>
  One turn of the loop goes on with the index, the option that waits for its value, whether no
  part has been seen, and the context; or ends it, by the early return of \<open>FALSE\<close> (\<open>Inl\<close>) or
  with \<open>cont\<close> and the waiting option.
\<close>

datatype 'c command_turn =
    Continue ulong64 "command_option option" bool 'c
  | Leave "'c + bool \<times> command_option option \<times> 'c"

definition PhParseCommandLine_value ::
  "memory \<Rightarrow> ph_stringref \<Rightarrow> 'c callback \<Rightarrow> ulong64 \<Rightarrow> command_option option \<Rightarrow> bool \<Rightarrow> 'c \<Rightarrow> 'c command_turn option" where
  "PhParseCommandLine_value mem CommandLine Callback i option wasFirst ctx = do {
     (optionValue, i) \<leftarrow> PhParseCommandLinePart mem CommandLine i;
     let (cont, ctx) = Callback option (Some (string_units optionValue)) ctx;
     Some (if \<not> cont then Leave (Inr (cont, option, ctx)) else Continue i None wasFirst ctx)
   }"

definition PhParseCommandLine_option ::
  "bool \<Rightarrow> (ushort \<Rightarrow> ushort) \<Rightarrow> (ushort \<Rightarrow> bool) \<Rightarrow> memory \<Rightarrow> ph_stringref \<Rightarrow> command_option list \<Rightarrow> ulong
   \<Rightarrow> 'c callback \<Rightarrow> ulong64 \<Rightarrow> command_option option \<Rightarrow> 'c \<Rightarrow> 'c command_turn option" where
  "PhParseCommandLine_option vec up alnum mem CommandLine Options Flags Callback i option ctx = do {
     let originalIndex = i + 1;
     i \<leftarrow> skip_name alnum mem (Buffer CommandLine) (Length CommandLine div 2) originalIndex;
     let optionName = \<lparr>Length = (i - originalIndex) * 2, Buffer = Buffer CommandLine + originalIndex * 2\<rparr>;
     let (cont, ctx) = (if pending_optional option then Callback option None ctx else (True, ctx));
     if \<not> cont then Some (Leave (Inr (cont, option, ctx)))
     else do {
       option \<leftarrow> find_option vec up mem optionName Options;
       if option = None \<and> Flags AND PH_COMMAND_LINE_IGNORE_UNKNOWN_OPTIONS = 0 then Some (Leave (Inl ctx))
       else if map_option OptionType option = Some NoArgumentType then
         let (cont, ctx) = Callback option None ctx in
         Some (if \<not> cont then Leave (Inr (cont, option, ctx)) else Continue i None False ctx)
       else Some (Continue i option False ctx)
     }
   }"

definition PhParseCommandLine_part ::
  "memory \<Rightarrow> ph_stringref \<Rightarrow> ulong \<Rightarrow> 'c callback \<Rightarrow> ulong64 \<Rightarrow> command_option option \<Rightarrow> bool \<Rightarrow> 'c \<Rightarrow> 'c command_turn option" where
  "PhParseCommandLine_part mem CommandLine Flags Callback i option wasFirst ctx = do {
     (value, i) \<leftarrow> PhParseCommandLinePart mem CommandLine i;
     let (cont, ctx) =
       (if Flags AND PH_COMMAND_LINE_IGNORE_FIRST_PART \<noteq> 0 \<and> wasFirst then (True, ctx)
        else Callback None (Some (string_units value)) ctx);
     Some (if \<not> cont then Leave (Inr (cont, option, ctx)) else Continue i option False ctx)
   }"

definition PhParseCommandLine_turn ::
  "bool \<Rightarrow> (ushort \<Rightarrow> ushort) \<Rightarrow> (ushort \<Rightarrow> bool) \<Rightarrow> memory \<Rightarrow> ph_stringref \<Rightarrow> command_option list \<Rightarrow> ulong
   \<Rightarrow> 'c callback \<Rightarrow> ulong64 \<Rightarrow> command_option option \<Rightarrow> bool \<Rightarrow> 'c \<Rightarrow> 'c command_turn option" where
  "PhParseCommandLine_turn vec up alnum mem CommandLine Options Flags Callback i option wasFirst ctx = do {
     i \<leftarrow> skip_spaces mem (Buffer CommandLine) (Length CommandLine div 2) i;
     if i \<ge> Length CommandLine div 2 then Some (Leave (Inr (True, option, ctx)))
     else do {
       c \<leftarrow> mem (Buffer CommandLine + i * 2);
       if takes_value option c then PhParseCommandLine_value mem CommandLine Callback i option wasFirst ctx
       else if c = 45 then PhParseCommandLine_option vec up alnum mem CommandLine Options Flags Callback i option ctx
       else PhParseCommandLine_part mem CommandLine Flags Callback i option wasFirst ctx
     }
   }"

partial_function (option) PhParseCommandLine_loop ::
  "bool \<Rightarrow> (ushort \<Rightarrow> ushort) \<Rightarrow> (ushort \<Rightarrow> bool) \<Rightarrow> memory \<Rightarrow> ph_stringref \<Rightarrow> command_option list \<Rightarrow> ulong
   \<Rightarrow> 'c callback \<Rightarrow> ulong64 \<Rightarrow> command_option option \<Rightarrow> bool \<Rightarrow> 'c
   \<Rightarrow> ('c + bool \<times> command_option option \<times> 'c) option" where
  "PhParseCommandLine_loop vec up alnum mem CommandLine Options Flags Callback i option wasFirst ctx = do {
     t \<leftarrow> PhParseCommandLine_turn vec up alnum mem CommandLine Options Flags Callback i option wasFirst ctx;
     case t of
       Leave r \<Rightarrow> Some r
     | Continue i option wasFirst ctx \<Rightarrow>
         PhParseCommandLine_loop vec up alnum mem CommandLine Options Flags Callback i option wasFirst ctx
   }"

definition PhParseCommandLine ::
  "bool \<Rightarrow> (ushort \<Rightarrow> ushort) \<Rightarrow> (ushort \<Rightarrow> bool) \<Rightarrow> memory \<Rightarrow> ph_stringref \<Rightarrow> command_option list \<Rightarrow> ulong
   \<Rightarrow> 'c callback \<Rightarrow> 'c \<Rightarrow> (bool \<times> 'c) option" where
  "PhParseCommandLine vec up alnum mem CommandLine Options Flags Callback ctx = (
     if Length CommandLine = 0 then Some (True, ctx)
     else do {
       r \<leftarrow> PhParseCommandLine_loop vec up alnum mem CommandLine Options Flags Callback 0 None True ctx;
       Some (case r of
         Inl ctx \<Rightarrow> (False, ctx)
       | Inr (cont, option, ctx) \<Rightarrow>
           (True, if cont \<and> pending_optional option then snd (Callback option None ctx) else ctx))
     })"

declare PhParseCommandLinePart_loop.simps [simp del] PhEscapeCommandLinePart_loop.simps [simp del]
  skip_spaces.simps [simp del] skip_name.simps [simp del]

section \<open>What a part stands for\<close>

text \<open>The units of the part and the rest of the line, after \<open>k\<close> backslashes, in quotes or not.\<close>

fun parse_part :: "nat \<Rightarrow> bool \<Rightarrow> ushort list \<Rightarrow> ushort list \<times> ushort list" where
  "parse_part k q [] = ([], [])"
| "parse_part k q (c # cs) =
     (if c = 92 then parse_part (Suc k) q cs
      else if c = 34 then
        if odd k then apfst (\<lambda>out. replicate (k div 2) 92 @ 34 # out) (parse_part 0 q cs)
        else apfst (\<lambda>out. replicate (k div 2) 92 @ out) (parse_part 0 (\<not> q) cs)
      else if c = 32 \<and> \<not> q then (replicate k 92, c # cs)
      else apfst (\<lambda>out. replicate k 92 @ c # out) (parse_part 0 q cs))"

fun escape_part :: "nat \<Rightarrow> ushort list \<Rightarrow> ushort list" where
  "escape_part k [] = []"
| "escape_part k (c # cs) =
     (if c = 92 then escape_part (Suc k) cs
      else if c = 34 then replicate (2 * k) 92 @ [92, 34] @ escape_part 0 cs
      else replicate k 92 @ [c] @ escape_part 0 cs)"

definition without_trailing :: "'a \<Rightarrow> 'a list \<Rightarrow> 'a list" where
  "without_trailing x xs = rev (dropWhile (\<lambda>y. y = x) (rev xs))"

lemma dropWhile_split: "\<exists>y \<in> set xs. \<not> P y \<Longrightarrow> dropWhile P (xs @ ys) = dropWhile P xs @ ys"
  by (induction xs) auto

lemma without_trailing_simps:
  "without_trailing x [] = []" "without_trailing x (replicate k x) = []"
  "y \<noteq> x \<Longrightarrow> without_trailing x (us @ y # ys) = us @ y # without_trailing x ys"
proof -
  show "without_trailing x []  = []" "without_trailing x (replicate k x) = []"
    by (simp_all add: without_trailing_def dropWhile_eq_Nil_conv)
  assume y: "y \<noteq> x"
  show "without_trailing x (us @ y # ys) = us @ y # without_trailing x ys"
  proof (cases "\<exists>z \<in> set (rev ys). z \<noteq> x")
    case True
    then show ?thesis by (simp add: without_trailing_def dropWhile_split)
  next
    case False
    then have "dropWhile (\<lambda>y. y = x) (rev ys @ y # rev us) = y # rev us"
      using y by (subst dropWhile_append2) auto
    moreover have "dropWhile (\<lambda>y. y = x) (rev ys) = []" using False by (auto simp: dropWhile_eq_Nil_conv)
    ultimately show ?thesis by (simp add: without_trailing_def)
  qed
qed

lemma parse_backslashes: "parse_part k q (replicate n 92 @ cs) = parse_part (n + k) q cs"
  by (induction n arbitrary: k) simp_all

lemma parse_escaped:
  "parse_part 0 True (escape_part k s @ t) = apfst (\<lambda>out. without_trailing 92 (replicate k 92 @ s) @ out) (parse_part 0 True t)"
proof (induction s arbitrary: k)
  case Nil
  show ?case by (simp add: without_trailing_simps apfst_id [unfolded id_def])
next
  case (Cons c s)
  have out: "apfst f (apfst g p) = apfst (\<lambda>x. f (g x)) p" for f g :: "ushort list \<Rightarrow> ushort list" and p :: "ushort list \<times> ushort list"
    by (cases p) simp
  consider "c = 92" | "c = 34" | "c \<noteq> 92" "c \<noteq> 34" by blast
  then show ?case
  proof cases
    case 1
    then show ?thesis
      using Cons.IH [of "Suc k"] by (simp add: replicate_app_Cons_same)
  next
    case 2
    have "parse_part 0 True (escape_part k (c # s) @ t)
        = parse_part 0 True (replicate (2 * k) 92 @ 92 # 34 # escape_part 0 s @ t)" using 2 by simp
    also have "\<dots> = apfst (\<lambda>out. replicate k 92 @ 34 # out) (parse_part 0 True (escape_part 0 s @ t))"
      by (simp add: parse_backslashes)
    finally show ?thesis using Cons.IH [of 0] 2 by (simp add: out without_trailing_simps)
  next
    case 3
    then show ?thesis
      using Cons.IH [of 0] by (simp add: parse_backslashes out without_trailing_simps)
  qed
qed

text \<open>A quoted escaped part, at the end of the line or before a space.\<close>

lemma parse_quoted:
  assumes "post = [] \<or> hd post = 32"
  shows "parse_part 0 False (34 # escape_part 0 s @ 34 # post) = (without_trailing 92 s, post)"
  using assms by (cases post) (simp_all add: parse_escaped)

lemma parse_part_rest: "\<exists>us. cs = us @ snd (parse_part k q cs)"
proof (induction k q cs rule: parse_part.induct)
  case (2 k q c cs)
  consider "c = 92" | "c = 34" "odd k" | "c = 34" "even k" | "c \<noteq> 92" "c \<noteq> 34" "c = 32 \<and> \<not> q"
    | "c \<noteq> 92" "c \<noteq> 34" "\<not> (c = 32 \<and> \<not> q)" by blast
  then show ?case
  proof cases
    case 1 then show ?thesis using "2.IH"(1) by (auto intro: exI [of _ "c # _"])
  next
    case 2 then show ?thesis using "2.IH"(2) by (auto intro: exI [of _ "c # _"])
  next
    case 3 then show ?thesis using "2.IH"(3) by (auto intro: exI [of _ "c # _"])
  next
    case 4 then show ?thesis by simp
  next
    case 5 then show ?thesis using "2.IH"(4) by (auto intro: exI [of _ "c # _"])
  qed
qed simp

section \<open>The loops\<close>

lemma string_units_builder: "builder_holds sb cs \<Longrightarrow> string_units (PhFinalStringBuilderString sb) = cs"
proof -
  assume sb: "builder_holds sb cs"
  have "unat (StrLength (BString sb) div 2) = length cs" using sb by (simp add: builder_holds_def unat_div)
  moreover have "take (length cs) (StrBuffer (BString sb)) = map Some cs"
    using sb starts_prefix [of "StrBuffer (BString sb)" cs "[0]"] by (simp add: builder_holds_def starts_def)
  ultimately show ?thesis by (simp add: string_units_def PhFinalStringBuilderString_def map_idI)
qed

lemma unat_ulong_small: "unat (k :: ulong) < 2 ^ 31 \<Longrightarrow> unat (k + 1) = Suc (unat k)"
  using unat_add_exact [of k 1] by simp

lemma unat_ulong_wide: "unat (ucast (k :: ulong) :: ulong64) = unat k"
  by (simp add: unsigned_ucast_eq take_bit_nat_eq_self order_less_trans [OF unsigned_less])

lemma odd_ulong: "k AND 1 \<noteq> (0 :: ulong) \<longleftrightarrow> odd (unat k)"
proof -
  have "k AND 1 = k mod 2" by (rule and_one_eq)
  moreover have "unat (k mod 2) = unat k mod 2" by (simp add: unat_mod)
  ultimately show ?thesis by (metis even_iff_mod_2_eq_zero unat_0 unat_eq_0)
qed

text \<open>Writing out the pending backslashes.\<close>

lemma append_backslashes:
  assumes "builder_holds sb out" "length out + unat k < 2 ^ 60"
  shows "\<exists>sb'. PhAppendCharStringBuilder2 sb 92 (ucast (k :: ulong)) = Some sb' \<and> builder_holds sb' (out @ replicate (unat k) 92)"
  using append_chars [OF assms(1), of "ucast k" 92] assms(2) by (simp add: unat_ulong_wide)

lemma flush_backslashes:
  assumes "builder_holds sb out" "length out + unat k < 2 ^ 60"
  shows "\<exists>sb'. (if k \<noteq> 0 then do { sb \<leftarrow> PhAppendCharStringBuilder2 sb 92 (ucast (k :: ulong)); Some (0, sb) } else Some (k, sb))
      = Some (0, sb') \<and> builder_holds sb' (out @ replicate (unat k) 92)"
  using append_backslashes [OF assms] assms(1) by (cases "k = 0") auto

lemma append_one:
  "builder_holds sb out \<Longrightarrow> length out < 2 ^ 60 \<Longrightarrow>
   \<exists>sb'. PhAppendCharStringBuilder sb c = Some sb' \<and> builder_holds sb' (out @ [c])"
  using append_char [of sb out c] by simp

lemma parse_loop:
  assumes "chars_at mem B (us @ ys)" "length (us @ ys) < 2 ^ 31" "unat n = length (us @ ys)" "unat i = length us"
    and "builder_holds sb out" "length out + unat k \<le> length us"
  shows "\<exists>sb'. PhParseCommandLinePart_loop mem B n i k q sb
      = Some (sb', of_nat (length (us @ ys) - length (snd (parse_part (unat k) q ys))))
    \<and> builder_holds sb' (out @ fst (parse_part (unat k) q ys))"
  using assms
proof (induction ys arbitrary: us i k q sb out)
  case Nil
  then have "i = of_nat (length us)" by (intro of_nat_unatI) simp
  then show ?case using Nil by (subst PhParseCommandLinePart_loop.simps) (simp add: word_less_nat_alt)
next
  case (Cons c ys)
  have i: "i < n" "unat (i + 1) = length (us @ [c])"
    using Cons.prems(3,4) unat_inc [of i n] by (simp_all add: word_less_nat_alt)
  have iw: "i = of_nat (length us)" using Cons.prems(4) by (rule of_nat_unatI)
  have c: "mem (B + i * 2) = Some c"
    using chars_at_nth [OF Cons.prems(1), of "length us"] unfolding iw by (simp add: mult.commute)
  have small: "length out + unat k < 2 ^ 60" "length out < 2 ^ 60" "unat k < 2 ^ 31"
    using Cons.prems(2,6) by simp_all
  have half: "length out + unat k div 2 < 2 ^ 60" using small(1) div_le_dividend [of "unat k" 2] by linarith
  note IH = Cons.IH [of "us @ [c]" "i + 1", unfolded append_assoc append_Cons append_Nil, OF Cons.prems(1,2,3) i(2)[unfolded append_assoc append_Cons append_Nil]]
  consider (slash) "c = 92" | (odd_quote) "c = 34" "odd (unat k)" | (quote) "c = 34" "even (unat k)"
    | (space) "c \<noteq> 92" "c \<noteq> 34" "c = 32 \<and> \<not> q" | (plain) "c \<noteq> 92" "c \<noteq> 34" "\<not> (c = 32 \<and> \<not> q)" by blast
  then show ?case
  proof cases
    case slash
    have "PhParseCommandLinePart_loop mem B n i k q sb = PhParseCommandLinePart_loop mem B n (i + 1) (k + 1) q sb"
      using i(1) c slash by (subst PhParseCommandLinePart_loop.simps) simp
    then show ?thesis
      using IH [of sb out "k + 1" q] Cons.prems(5,6) unat_ulong_small [OF small(3)] slash by simp
  next
    case odd_quote
    have k: "k \<noteq> 0" "k AND 1 \<noteq> 0" "unat (k div 2) = unat k div 2" using odd_quote(2) by (auto simp: odd_ulong unat_div)
    obtain sb1 where sb1: "(if k div 2 \<noteq> 0 then do { sb \<leftarrow> PhAppendCharStringBuilder2 sb 92 (ucast (k div 2)); Some (0, sb) }
        else Some (k div 2, sb)) = Some (0, sb1)" "builder_holds sb1 (out @ replicate (unat k div 2) 92)"
      using flush_backslashes [OF Cons.prems(5) half [folded k(3)]] unfolding k(3) by (elim exE conjE) (rule that)
    obtain sb2 where sb2: "PhAppendCharStringBuilder sb1 34 = Some sb2" "builder_holds sb2 (out @ replicate (unat k div 2) 92 @ [34])"
      using append_one [OF sb1(2), of 34] half by auto
    have "PhParseCommandLinePart_loop mem B n i k q sb = PhParseCommandLinePart_loop mem B n (i + 1) 0 q sb2"
      using i(1) c odd_quote(1) k(1,2) sb1(1) sb2(1)
      by (subst PhParseCommandLinePart_loop.simps) (simp add: Let_def del: bind_eq_Some_conv)
    moreover have "length (out @ replicate (unat k div 2) 92 @ [34]) + unat (0 :: ulong) \<le> length (us @ [c])"
      using Cons.prems(6) by simp
    ultimately show ?thesis using IH [OF sb2(2), of 0 q] odd_quote by simp
  next
    case quote
    show ?thesis
    proof (cases "k = 0")
      case True
      have "PhParseCommandLinePart_loop mem B n i k q sb = PhParseCommandLinePart_loop mem B n (i + 1) 0 (\<not> q) sb"
        using i(1) c quote(1) True by (subst PhParseCommandLinePart_loop.simps) simp
      then show ?thesis using IH [OF Cons.prems(5), of 0 "\<not> q"] Cons.prems(6) quote True by simp
    next
      case False
      have k: "k AND 1 = 0" "unat (k div 2) = unat k div 2" using quote(2) odd_ulong [of k] by (auto simp: unat_div)
      obtain sb1 where sb1: "PhAppendCharStringBuilder2 sb 92 (ucast (k div 2)) = Some sb1"
        "builder_holds sb1 (out @ replicate (unat k div 2) 92)"
        using append_backslashes [OF Cons.prems(5) half [folded k(2)]] unfolding k(2) by (elim exE conjE) (rule that)
      have "PhParseCommandLinePart_loop mem B n i k q sb = PhParseCommandLinePart_loop mem B n (i + 1) 0 (\<not> q) sb1"
        using i(1) c quote(1) False k(1) sb1(1)
        by (subst PhParseCommandLinePart_loop.simps) (simp add: Let_def)
      moreover have "length (out @ replicate (unat k div 2) 92) + unat (0 :: ulong) \<le> length (us @ [c])"
        using Cons.prems(6) by simp
      ultimately show ?thesis using IH [OF sb1(2), of 0 "\<not> q"] quote by simp
    qed
  next
    case space
    obtain sb1 where sb1: "(if k \<noteq> 0 then do { sb \<leftarrow> PhAppendCharStringBuilder2 sb 92 (ucast k); Some (0, sb) } else Some (k, sb))
        = Some (0, sb1)" "builder_holds sb1 (out @ replicate (unat k) 92)"
      using flush_backslashes [OF Cons.prems(5) small(1)] by blast
    have "PhParseCommandLinePart_loop mem B n i k q sb = Some (sb1, i)"
      using i(1) c space sb1(1) by (subst PhParseCommandLinePart_loop.simps) (simp del: bind_eq_Some_conv)
    then show ?thesis using sb1(2) space iw by simp
  next
    case plain
    have not_end: "(c = 32 \<and> \<not> q) = False" using plain(3) by simp
    obtain sb1 where sb1: "(if k \<noteq> 0 then do { sb \<leftarrow> PhAppendCharStringBuilder2 sb 92 (ucast k); Some (0, sb) } else Some (k, sb))
        = Some (0, sb1)" "builder_holds sb1 (out @ replicate (unat k) 92)"
      using flush_backslashes [OF Cons.prems(5) small(1)] by blast
    obtain sb2 where sb2: "PhAppendCharStringBuilder sb1 c = Some sb2" "builder_holds sb2 (out @ replicate (unat k) 92 @ [c])"
      using append_one [OF sb1(2), of c] small(1) by auto
    have "PhParseCommandLinePart_loop mem B n i k q sb = PhParseCommandLinePart_loop mem B n (i + 1) 0 q sb2"
      using i(1) c plain(1,2) sb1(1) sb2(1) not_end
      by (subst PhParseCommandLinePart_loop.simps) (simp del: bind_eq_Some_conv de_Morgan_conj)
    moreover have "length (out @ replicate (unat k) 92 @ [c]) + unat (0 :: ulong) \<le> length (us @ [c])"
      using Cons.prems(6) by simp
    ultimately show ?thesis using IH [OF sb2(2), of 0 q] plain(1,2) not_end by (simp del: de_Morgan_conj)
  qed
qed

lemma parse_command_part:
  assumes "chars_at mem B (us @ ys)" "length (us @ ys) < 2 ^ 31" "unat (Length C) = 2 * length (us @ ys)" "Buffer C = B"
  shows "\<exists>S. PhParseCommandLinePart mem C (of_nat (length us))
      = Some (S, of_nat (length (us @ ys) - length (snd (parse_part 0 False ys))))
    \<and> string_units S = fst (parse_part 0 False ys)"
proof -
  obtain sb where sb: "PhInitializeStringBuilder 0x80 = Some sb" "builder_holds sb []"
    using initialize_builder [of "0x80"] by auto
  have n: "unat (Length C div 2) = length (us @ ys)" using assms(3) by (simp add: unat_div)
  have i: "unat (of_nat (length us) :: ulong64) = length us" using assms(2) by (intro unat_of_nat_small) simp
  obtain sb' where sb': "PhParseCommandLinePart_loop mem B (Length C div 2) (of_nat (length us)) 0 False sb
      = Some (sb', of_nat (length (us @ ys) - length (snd (parse_part (unat (0 :: ulong)) False ys))))"
    "builder_holds sb' ([] @ fst (parse_part (unat (0 :: ulong)) False ys))"
    using parse_loop [OF assms(1,2) n i sb(2), of 0 False] by (auto intro: that)
  show ?thesis
    using sb(1) sb'(1) string_units_builder [OF sb'(2)] assms(4) by (simp add: PhParseCommandLinePart_def)
qed

lemma double_ulong: "unat (ucast (k :: ulong) * 2 :: ulong64) = 2 * unat k"
  using unat_double [of "ucast k :: ulong64"] unsigned_less [of k, where 'a = nat] by (simp add: unat_ulong_wide mult.commute)

lemma escape_part_loop:
  assumes "chars_at mem B (us @ ys)" "length (us @ ys) < 2 ^ 31" "unat n = length (us @ ys)" "unat i = length us"
    and "builder_holds sb out" "length out + 2 * unat k \<le> 3 * length us" "unat k \<le> length us"
    and bq: "chars_at mem bq [92, 34]" "bq \<noteq> 0"
  shows "\<exists>sb'. PhEscapeCommandLinePart_loop mem bq B n i k sb = Some sb'
    \<and> builder_holds sb' (out @ escape_part (unat k) ys)"
  using assms(1-7)
proof (induction ys arbitrary: us i k sb out)
  case Nil
  then show ?case by (subst PhEscapeCommandLinePart_loop.simps) (simp add: word_less_nat_alt)
next
  case (Cons c ys)
  have i: "i < n" "unat (i + 1) = length (us @ [c])"
    using Cons.prems(3,4) unat_inc [of i n] by (simp_all add: word_less_nat_alt)
  have iw: "ucast i = (of_nat (length us) :: ulong64)" using Cons.prems(4) by (intro of_nat_unatI) (simp add: unat_ulong_wide)
  have c: "mem (B + ucast i * 2) = Some c"
    using chars_at_nth [OF Cons.prems(1), of "length us"] unfolding iw by (simp add: mult.commute)
  have small: "length out + 2 * unat k < 2 ^ 59" "length out < 2 ^ 59" "length out + unat k < 2 ^ 60" "length out < 2 ^ 60"
    "unat k < 2 ^ 31" using Cons.prems(2,6,7) by simp_all
  note IH = Cons.IH [of "us @ [c]" "i + 1", unfolded append_assoc append_Cons append_Nil, OF Cons.prems(1,2,3) i(2)[unfolded append_assoc append_Cons append_Nil]]
  consider (slash) "c = 92" | (quote) "c = 34" | (plain) "c \<noteq> 92" "c \<noteq> 34" by blast
  then show ?case
  proof cases
    case slash
    have "PhEscapeCommandLinePart_loop mem bq B n i k sb = PhEscapeCommandLinePart_loop mem bq B n (i + 1) (k + 1) sb"
      using i(1) c slash by (subst PhEscapeCommandLinePart_loop.simps) simp
    then show ?thesis
      using IH [of sb out "k + 1"] Cons.prems(5,6,7) unat_ulong_small [OF small(5)] slash by simp
  next
    case quote
    have "\<exists>sb1. (if k \<noteq> 0 then do { sb \<leftarrow> PhAppendCharStringBuilder2 sb 92 (ucast k * 2); Some (0, sb) } else Some (k, sb))
        = Some (0, sb1) \<and> builder_holds sb1 (out @ replicate (2 * unat k) 92)"
      using append_chars [OF Cons.prems(5), of "ucast k * 2" 92] small(1) Cons.prems(5)
      by (cases "k = 0") (auto simp: double_ulong)
    then obtain sb1 where sb1: "(if k \<noteq> 0 then do { sb \<leftarrow> PhAppendCharStringBuilder2 sb 92 (ucast k * 2); Some (0, sb) }
        else Some (k, sb)) = Some (0, sb1)" "builder_holds sb1 (out @ replicate (2 * unat k) 92)"
      by (elim exE conjE) (rule that)
    have bq': "holds_ref mem \<lparr>Length = 4, Buffer = bq\<rparr> [92, 34]" using bq(1) by (simp add: holds_ref_def)
    have "\<exists>sb2. PhAppendStringBuilder mem sb1 \<lparr>Length = 4, Buffer = bq\<rparr> = Some sb2
        \<and> builder_holds sb2 ((out @ replicate (2 * unat k) 92) @ [92, 34])"
      using append_ref [OF sb1(2) bq'] small(1) bq(2) by simp
    then obtain sb2 where sb2: "PhAppendStringBuilder mem sb1 \<lparr>Length = 4, Buffer = bq\<rparr> = Some sb2"
        "builder_holds sb2 ((out @ replicate (2 * unat k) 92) @ [92, 34])"
      by (elim exE conjE) (rule that)
    have "PhEscapeCommandLinePart_loop mem bq B n i k sb = PhEscapeCommandLinePart_loop mem bq B n (i + 1) 0 sb2"
      using i(1) c quote sb1(1) sb2(1) by (subst PhEscapeCommandLinePart_loop.simps) (simp del: bind_eq_Some_conv)
    moreover have "length ((out @ replicate (2 * unat k) 92) @ [92, 34]) + 2 * unat (0 :: ulong) \<le> 3 * length (us @ [c])"
      using Cons.prems(6) by simp
    ultimately show ?thesis using IH [OF sb2(2), of 0] quote by simp
  next
    case plain
    obtain sb1 where sb1: "(if k \<noteq> 0 then do { sb \<leftarrow> PhAppendCharStringBuilder2 sb 92 (ucast k); Some (0, sb) } else Some (k, sb))
        = Some (0, sb1)" "builder_holds sb1 (out @ replicate (unat k) 92)"
      using flush_backslashes [OF Cons.prems(5) small(3)] by blast
    have "\<exists>sb2. PhAppendCharStringBuilder sb1 c = Some sb2 \<and> builder_holds sb2 ((out @ replicate (unat k) 92) @ [c])"
      using append_one [OF sb1(2), of c] small(3) by simp
    then obtain sb2 where sb2: "PhAppendCharStringBuilder sb1 c = Some sb2" "builder_holds sb2 ((out @ replicate (unat k) 92) @ [c])"
      by (elim exE conjE) (rule that)
    have "PhEscapeCommandLinePart_loop mem bq B n i k sb = PhEscapeCommandLinePart_loop mem bq B n (i + 1) 0 sb2"
      using i(1) c plain sb1(1) sb2(1) by (subst PhEscapeCommandLinePart_loop.simps) (simp del: bind_eq_Some_conv)
    moreover have "length ((out @ replicate (unat k) 92) @ [c]) + 2 * unat (0 :: ulong) \<le> 3 * length (us @ [c])"
      using Cons.prems(6) by simp
    ultimately show ?thesis using IH [OF sb2(2), of 0] plain by simp
  qed
qed

lemma escape_command_part:
  assumes "holds_ref mem R s" "length s < 2 ^ 29" "chars_at mem bq [92, 34]" "bq \<noteq> 0"
  shows "\<exists>S. PhEscapeCommandLinePart mem bq R = Some S \<and> string_units S = escape_part 0 s"
proof -
  have n: "unat (Length R) = 2 * length s" "chars_at mem (Buffer R) s" using assms(1) by (simp_all add: holds_ref_def)
  have "unat (Length R div 2 * 3) = 3 * length s"
    using n(1) assms(2) unat_mult_lem [of "Length R div 2" 3, THEN iffD1] by (simp add: unat_div)
  then obtain sb where sb: "PhInitializeStringBuilder (Length R div 2 * 3) = Some sb" "builder_holds sb []"
    using initialize_builder [of "Length R div 2 * 3"] assms(2) by auto
  have l: "unat (ucast (Length R) div 2 :: ulong) = length s"
    using n(1) assms(2) by (simp add: unat_div unsigned_ucast_eq take_bit_nat_eq_self)
  obtain sb' where sb': "PhEscapeCommandLinePart_loop mem bq (Buffer R) (ucast (Length R) div 2) 0 0 sb = Some sb'"
    "builder_holds sb' ([] @ escape_part (unat (0 :: ulong)) s)"
    using escape_part_loop [of mem "Buffer R" "[]" s "ucast (Length R) div 2" 0 sb "[]" 0 bq] n(2) assms(2-4) l sb(2) by auto
  show ?thesis
    using sb(1) sb'(1) string_units_builder [OF sb'(2)] by (simp add: PhEscapeCommandLinePart_def)
qed

end
