(* ===== verification/CommandProps.thy ===== *)
theory CommandProps
  imports CommandLine
begin

text \<open>
  What the command-line routines promise.  A line is described by its items: options with and
  without a value, unknown options and plain parts, each with the text it is written as; the
  parser calls back as the items say, in their order.
\<close>

unbundle bit_operations_syntax

section \<open>Texts of a value\<close>

text \<open>The text \<open>t\<close> is read as the value \<open>v\<close> where a part ends after it.\<close>

definition part_text :: "ushort list \<Rightarrow> ushort list \<Rightarrow> bool" where
  "part_text t v \<longleftrightarrow> (\<forall>rest. rest = [] \<or> hd rest = 32 \<longrightarrow> parse_part 0 False (t @ rest) = (v, rest))"

lemma part_text_quoted: "part_text (34 # escape_part 0 s @ [34]) (without_trailing 92 s)"
  using parse_quoted [of _ s] by (simp add: part_text_def)

lemma parse_plain:
  "set t \<inter> {32, 34, 92} = {} \<Longrightarrow> rest = [] \<or> hd rest = 32 \<Longrightarrow> parse_part 0 False (t @ rest) = (t, rest)"
proof (induction t)
  case Nil
  then show ?case by (cases rest) simp_all
qed simp

lemma part_text_plain: "set t \<inter> {32, 34, 92} = {} \<Longrightarrow> part_text t t"
  using parse_plain [of t] by (simp add: part_text_def)

section \<open>Items of a line\<close>

datatype line_item =
    Switch command_option
  | Valued command_option nat "ushort list" "ushort list"
  | Bare command_option
  | Unknown "ushort list"
  | Plain "ushort list" "ushort list"

text \<open>The name of an option is given by \<open>nm\<close>; the value of an option follows some spaces.\<close>

fun render_item :: "(command_option \<Rightarrow> ushort list) \<Rightarrow> line_item \<Rightarrow> ushort list" where
  "render_item nm (Switch o') = 45 # nm o'"
| "render_item nm (Valued o' k t v) = 45 # nm o' @ replicate (Suc k) 32 @ t"
| "render_item nm (Bare o') = 45 # nm o'"
| "render_item nm (Unknown name) = 45 # name"
| "render_item nm (Plain t v) = t"

fun render_line :: "(command_option \<Rightarrow> ushort list) \<Rightarrow> (nat \<times> line_item) list \<Rightarrow> ushort list" where
  "render_line nm [] = []"
| "render_line nm ((k, it) # items) = replicate k 32 @ render_item nm it @ render_line nm items"

definition known_option :: "(command_option \<Rightarrow> ushort list) \<Rightarrow> command_option list \<Rightarrow> ushort list \<Rightarrow> command_option option" where
  "known_option nm Options name = List.find (\<lambda>o'. nm o' = name) Options"

definition name_text :: "(ushort \<Rightarrow> bool) \<Rightarrow> ushort list \<Rightarrow> bool" where
  "name_text alnum name \<longleftrightarrow> (\<forall>c \<in> set name. alnum c \<or> c = 45)"

fun proper_item :: "(ushort \<Rightarrow> bool) \<Rightarrow> (command_option \<Rightarrow> ushort list) \<Rightarrow> command_option list \<Rightarrow> line_item \<Rightarrow> bool" where
  "proper_item alnum nm Options (Switch o') \<longleftrightarrow>
     OptionType o' = NoArgumentType \<and> name_text alnum (nm o') \<and> known_option nm Options (nm o') = Some o'"
| "proper_item alnum nm Options (Valued o' k t v) \<longleftrightarrow>
     name_text alnum (nm o') \<and> known_option nm Options (nm o') = Some o'
     \<and> t \<noteq> [] \<and> hd t \<noteq> 32 \<and> part_text t v
     \<and> (OptionType o' = MandatoryArgumentType \<or> OptionType o' = OptionalArgumentType \<and> hd t \<noteq> 45)"
| "proper_item alnum nm Options (Bare o') \<longleftrightarrow>
     OptionType o' = OptionalArgumentType \<and> name_text alnum (nm o') \<and> known_option nm Options (nm o') = Some o'"
| "proper_item alnum nm Options (Unknown name) \<longleftrightarrow> name_text alnum name \<and> known_option nm Options name = None"
| "proper_item alnum nm Options (Plain t v) \<longleftrightarrow> t \<noteq> [] \<and> hd t \<noteq> 32 \<and> hd t \<noteq> 45 \<and> part_text t v"

text \<open>
  Items are separated by spaces, and an optional argument that is left out is not followed by a
  plain part, which would be read as the argument.
\<close>

fun proper_line :: "(ushort \<Rightarrow> bool) \<Rightarrow> (command_option \<Rightarrow> ushort list) \<Rightarrow> command_option list \<Rightarrow> (nat \<times> line_item) list \<Rightarrow> bool" where
  "proper_line alnum nm Options [] \<longleftrightarrow> True"
| "proper_line alnum nm Options ((k, it) # items) \<longleftrightarrow>
     proper_item alnum nm Options it
     \<and> (case items of [] \<Rightarrow> True
        | (j, next_item) # _ \<Rightarrow> 0 < j \<and> (case (it, next_item) of (Bare _, Plain _ _) \<Rightarrow> False | _ \<Rightarrow> True))
     \<and> proper_line alnum nm Options items"

fun item_call :: "line_item \<Rightarrow> command_option option \<times> ushort list option" where
  "item_call (Switch o') = (Some o', None)"
| "item_call (Valued o' k t v) = (Some o', Some v)"
| "item_call (Bare o') = (Some o', None)"
| "item_call (Unknown name) = (None, None)"
| "item_call (Plain t v) = (None, Some v)"

text \<open>What the parser returns, and the context it leaves.\<close>

fun run_items :: "ulong \<Rightarrow> 'c callback \<Rightarrow> bool \<Rightarrow> line_item list \<Rightarrow> 'c \<Rightarrow> bool \<times> 'c" where
  "run_items Flags Callback first [] ctx = (True, ctx)"
| "run_items Flags Callback first (Unknown name # items) ctx =
     (if Flags AND PH_COMMAND_LINE_IGNORE_UNKNOWN_OPTIONS = 0 then (False, ctx)
      else run_items Flags Callback False items ctx)"
| "run_items Flags Callback first (Plain t v # items) ctx =
     (if Flags AND PH_COMMAND_LINE_IGNORE_FIRST_PART \<noteq> 0 \<and> first then run_items Flags Callback False items ctx
      else let (cont, ctx) = Callback None (Some v) ctx in
        if cont then run_items Flags Callback False items ctx else (True, ctx))"
| "run_items Flags Callback first (it # items) ctx =
     (let (cont, ctx) = Callback (fst (item_call it)) (snd (item_call it)) ctx in
        if cont then run_items Flags Callback False items ctx else (True, ctx))"

section \<open>Skipping\<close>

lemma unat_index: "length us < 2 ^ 32 \<Longrightarrow> unat (of_nat (length us) :: ulong64) = length us"
  by (rule unat_of_nat_small) simp

lemma skip_spaces_line:
  "chars_at mem B (us @ replicate k 32 @ ys) \<Longrightarrow> unat n = length (us @ replicate k 32 @ ys)
   \<Longrightarrow> length (us @ replicate k 32 @ ys) < 2 ^ 32 \<Longrightarrow> ys = [] \<or> hd ys \<noteq> 32
   \<Longrightarrow> skip_spaces mem B n (of_nat (length us)) = Some (of_nat (length us + k))"
proof (induction k arbitrary: us)
  case 0
  have i: "unat (of_nat (length us) :: ulong64) = length us" using "0.prems"(3) by (intro unat_index) simp
  show ?case
  proof (cases ys)
    case Nil
    then show ?thesis using "0.prems"(2) i by (subst skip_spaces.simps) (simp add: word_less_nat_alt)
  next
    case (Cons y zs)
    have "mem (B + of_nat (length us) * 2) = Some y"
      using chars_at_nth [OF "0.prems"(1), of "length us"] Cons by (simp add: mult.commute)
    then show ?thesis using "0.prems"(2,4) i Cons by (subst skip_spaces.simps) (simp add: word_less_nat_alt)
  qed
next
  case (Suc k)
  have i: "unat (of_nat (length us) :: ulong64) = length us" using Suc.prems(3) by (intro unat_index) simp
  have line: "us @ replicate (Suc k) 32 @ ys = (us @ [32]) @ replicate k 32 @ ys" by simp
  have "mem (B + of_nat (length us) * 2) = Some 32"
    using chars_at_nth [OF Suc.prems(1), of "length us"] by (simp add: mult.commute)
  then have "skip_spaces mem B n (of_nat (length us)) = skip_spaces mem B n (of_nat (length (us @ [32])))"
    using Suc.prems(2) i by (subst skip_spaces.simps) (simp add: word_less_nat_alt add.commute)
  also have "\<dots> = Some (of_nat (length (us @ [32]) + k))"
    by (rule Suc.IH) (use Suc.prems line in \<open>simp_all only:\<close>)
  finally show ?case by simp
qed

lemma skip_name_line:
  "chars_at mem B (us @ name @ ys) \<Longrightarrow> unat n = length (us @ name @ ys)
   \<Longrightarrow> length (us @ name @ ys) < 2 ^ 32 \<Longrightarrow> name_text alnum name \<Longrightarrow> ys = [] \<or> \<not> alnum (hd ys) \<and> hd ys \<noteq> 45
   \<Longrightarrow> skip_name alnum mem B n (of_nat (length us)) = Some (of_nat (length us + length name))"
proof (induction name arbitrary: us)
  case Nil
  have i: "unat (of_nat (length us) :: ulong64) = length us" using Nil.prems(3) by (intro unat_index) simp
  show ?case
  proof (cases ys)
    case Nil': Nil
    then show ?thesis using Nil.prems(2) i by (subst skip_name.simps) (simp add: word_less_nat_alt)
  next
    case (Cons y zs)
    have "mem (B + of_nat (length us) * 2) = Some y"
      using chars_at_nth [OF Nil.prems(1), of "length us"] Cons by (simp add: mult.commute)
    then show ?thesis using Nil.prems(2,5) i Cons by (subst skip_name.simps) (simp add: word_less_nat_alt)
  qed
next
  case (Cons c name)
  have i: "unat (of_nat (length us) :: ulong64) = length us" using Cons.prems(3) by (intro unat_index) simp
  have line: "us @ (c # name) @ ys = (us @ [c]) @ name @ ys" by simp
  have "mem (B + of_nat (length us) * 2) = Some c"
    using chars_at_nth [OF Cons.prems(1), of "length us"] by (simp add: mult.commute)
  moreover have c: "alnum c \<or> c = 45" "name_text alnum name" using Cons.prems(4) by (simp_all add: name_text_def)
  ultimately have "skip_name alnum mem B n (of_nat (length us)) = skip_name alnum mem B n (of_nat (length (us @ [c])))"
    using Cons.prems(2) i by (subst skip_name.simps) (auto simp: word_less_nat_alt add.commute)
  also have "\<dots> = Some (of_nat (length (us @ [c]) + length name))"
    by (rule Cons.IH) (use Cons.prems line c(2) in \<open>simp_all only:\<close>)
  finally show ?case by simp
qed

lemma find_option_known:
  assumes "\<forall>o' \<in> set Options. z_string False mem (OptionName o') (nm o')" "holds_ref mem R name"
  shows "find_option vec up mem R Options = Some (known_option nm Options name)"
  using assms(1)
proof (induction Options)
  case (Cons o' Options)
  have z: "z_string False mem (OptionName o') (nm o')" using Cons.prems by simp
  then have "holds_ref mem \<lparr>Length = of_nat (length (nm o')) * 2, Buffer = OptionName o'\<rparr> (nm o')"
    using z_string_bytes [OF z] by (simp add: holds_ref_def z_string_def chars_at_append)
  then have "PhEqualStringRef2 vec up mem R (OptionName o') False = Some (name = nm o')"
    using count_z_string [OF z] equal_ref_folded [OF assms(2)]
    by (simp add: PhEqualStringRef2_def PhInitializeStringRef_def PhCountStringZ_def folded_def)
  then show ?case using Cons by (auto simp: known_option_def)
qed (simp add: known_option_def)

section \<open>Turns\<close>

lemma line_ref:
  assumes "holds_ref mem C line" "length line < 2 ^ 31"
  shows "chars_at mem (Buffer C) line" "unat (Length C) = 2 * length line" "unat (Length C div 2) = length line"
    "length line < 2 ^ 32"
  using assms by (simp_all add: holds_ref_def unat_div)

lemma turn_at_stop:
  assumes "holds_ref mem C (us @ replicate k 32)" "length (us @ replicate k 32) < 2 ^ 31"
  shows "PhParseCommandLine_turn vec up alnum mem C Options Flags Callback (of_nat (length us)) option first ctx
    = Some (Leave (Inr (True, option, ctx)))"
proof -
  note line = line_ref [OF assms]
  have skip: "skip_spaces mem (Buffer C) (Length C div 2) (of_nat (length us)) = Some (of_nat (length us + k))"
    using skip_spaces_line [of mem "Buffer C" us k "[]" "Length C div 2"] line by simp
  have "Length C div 2 = of_nat (length us + k)" using line(3) by (intro of_nat_unatI) simp
  then show ?thesis using skip by (simp add: PhParseCommandLine_turn_def)
qed

lemma turn_at:
  assumes "holds_ref mem C (us @ replicate k 32 @ c # ys)" "length (us @ replicate k 32 @ c # ys) < 2 ^ 31" "c \<noteq> 32"
  shows "PhParseCommandLine_turn vec up alnum mem C Options Flags Callback (of_nat (length us)) option first ctx
    = (let i = of_nat (length us + k) in
       if takes_value option c then PhParseCommandLine_value mem C Callback i option first ctx
       else if c = 45 then PhParseCommandLine_option vec up alnum mem C Options Flags Callback i option ctx
       else PhParseCommandLine_part mem C Flags Callback i option first ctx)"
proof -
  note line = line_ref [OF assms(1,2)]
  have skip: "skip_spaces mem (Buffer C) (Length C div 2) (of_nat (length us)) = Some (of_nat (length us + k))"
    using skip_spaces_line [of mem "Buffer C" us k "c # ys" "Length C div 2"] line assms(3) by simp
  have "unat (of_nat (length us + k) :: ulong64) = length us + k" using assms(2) by (intro unat_of_nat_small) simp
  then have "\<not> (Length C div 2 \<le> of_nat (length us + k))" using line(3) by (simp add: word_le_nat_alt)
  moreover have "mem (Buffer C + of_nat (length us + k) * 2) = Some c"
    using chars_at_nth [OF line(1), of "length us + k"] by (simp add: nth_append mult.commute)
  ultimately show ?thesis using skip by (simp add: PhParseCommandLine_turn_def Let_def)
qed

lemma part_at:
  assumes "holds_ref mem C (us @ t @ rest)" "length (us @ t @ rest) < 2 ^ 31" "part_text t v" "rest = [] \<or> hd rest = 32"
  shows "\<exists>S. PhParseCommandLinePart mem C (of_nat (length us)) = Some (S, of_nat (length (us @ t))) \<and> string_units S = v"
proof -
  have "parse_part 0 False (t @ rest) = (v, rest)" using assms(3,4) unfolding part_text_def by blast
  then show ?thesis
    using parse_command_part [of mem "Buffer C" us "t @ rest" C] line_ref [OF assms(1,2)] assms(2) by simp
qed

lemma value_turn:
  assumes "holds_ref mem C (us @ t @ rest)" "length (us @ t @ rest) < 2 ^ 31" "part_text t v" "rest = [] \<or> hd rest = 32"
  shows "PhParseCommandLine_value mem C Callback (of_nat (length us)) option first ctx
    = Some (case Callback option (Some v) ctx of (cont, ctx) \<Rightarrow>
        if \<not> cont then Leave (Inr (cont, option, ctx)) else Continue (of_nat (length (us @ t))) None first ctx)"
  using part_at [OF assms] by (auto simp: PhParseCommandLine_value_def split: prod.split)

lemma part_turn:
  assumes "holds_ref mem C (us @ t @ rest)" "length (us @ t @ rest) < 2 ^ 31" "part_text t v" "rest = [] \<or> hd rest = 32"
  shows "PhParseCommandLine_part mem C Flags Callback (of_nat (length us)) option first ctx
    = Some (case (if Flags AND PH_COMMAND_LINE_IGNORE_FIRST_PART \<noteq> 0 \<and> first then (True, ctx)
          else Callback None (Some v) ctx) of (cont, ctx) \<Rightarrow>
        if \<not> cont then Leave (Inr (cont, option, ctx)) else Continue (of_nat (length (us @ t))) option False ctx)"
  using part_at [OF assms] by (auto simp: PhParseCommandLine_part_def split: prod.split)

lemma option_turn:
  assumes "holds_ref mem C (us @ (45 # name) @ rest)" "length (us @ (45 # name) @ rest) < 2 ^ 31"
    and "name_text alnum name" "rest = [] \<or> hd rest = 32" "\<not> alnum 32"
    and "\<forall>o' \<in> set Options. z_string False mem (OptionName o') (nm o')"
  shows "PhParseCommandLine_option vec up alnum mem C Options Flags Callback (of_nat (length us)) option ctx
    = Some (case (if pending_optional option then Callback option None ctx else (True, ctx)) of (cont, ctx) \<Rightarrow>
        if \<not> cont then Leave (Inr (cont, option, ctx))
        else case known_option nm Options name of
          None \<Rightarrow> if Flags AND PH_COMMAND_LINE_IGNORE_UNKNOWN_OPTIONS = 0 then Leave (Inl ctx)
                  else Continue (of_nat (length (us @ 45 # name))) None False ctx
        | Some o' \<Rightarrow> if OptionType o' = NoArgumentType then
              case Callback (Some o') None ctx of (cont, ctx) \<Rightarrow>
                if \<not> cont then Leave (Inr (cont, Some o', ctx))
                else Continue (of_nat (length (us @ 45 # name))) None False ctx
            else Continue (of_nat (length (us @ 45 # name))) (Some o') False ctx)"
proof -
  note line = line_ref [OF assms(1,2)]
  let ?i = "of_nat (length us) + 1 :: ulong64" and ?j = "of_nat (length (us @ 45 # name)) :: ulong64"
  have i: "?i = of_nat (length (us @ [45]))" by simp
  have skip: "skip_name alnum mem (Buffer C) (Length C div 2) ?i = Some ?j"
    using skip_name_line [of mem "Buffer C" "us @ [45]" name rest "Length C div 2" alnum] line assms(3-5) unfolding i
    by (cases rest) simp_all
  have chars: "chars_at mem (Buffer C + ?i * 2) name"
    using line(1) by (simp add: chars_at_append algebra_simps)
  have "(?j - ?i) = of_nat (length name)" by simp
  moreover have "unat (of_nat (length name) * 2 :: ulong64) = 2 * length name"
    using assms(2) unat_double [of "of_nat (length name) :: ulong64"] unat_of_nat_small [of "length name"] by simp
  ultimately have R: "holds_ref mem \<lparr>Length = (?j - ?i) * 2, Buffer = Buffer C + ?i * 2\<rparr> name"
    using chars by (simp only: holds_ref_def ph_stringref.simps)
  note found = find_option_known [OF assms(6) R, of vec up]
  show ?thesis
    unfolding PhParseCommandLine_option_def Let_def skip option.case bind.bind_lunit found
    by (cases "known_option nm Options name") (auto split: prod.split)
qed

section \<open>Lines\<close>

definition line_result :: "'c callback \<Rightarrow> 'c + bool \<times> command_option option \<times> 'c \<Rightarrow> bool \<times> 'c" where
  "line_result Callback r = (case r of
     Inl ctx \<Rightarrow> (False, ctx)
   | Inr (cont, option, ctx) \<Rightarrow> (True, if cont \<and> pending_optional option then snd (Callback option None ctx) else ctx))"

definition run_pending :: "ulong \<Rightarrow> 'c callback \<Rightarrow> command_option option \<Rightarrow> bool \<Rightarrow> line_item list \<Rightarrow> 'c \<Rightarrow> bool \<times> 'c" where
  "run_pending Flags Callback option first items ctx =
     (case (if pending_optional option then Callback option None ctx else (True, ctx)) of
        (cont, ctx) \<Rightarrow> if cont then run_items Flags Callback first items ctx else (True, ctx))"

lemma loop_continue:
  "PhParseCommandLine_turn vec up alnum mem C Options Flags Callback i option first ctx = Some (Continue i' option' first' ctx') \<Longrightarrow>
   PhParseCommandLine_loop vec up alnum mem C Options Flags Callback i option first ctx
   = PhParseCommandLine_loop vec up alnum mem C Options Flags Callback i' option' first' ctx'"
  by (subst PhParseCommandLine_loop.simps) simp

lemma loop_leave:
  "PhParseCommandLine_turn vec up alnum mem C Options Flags Callback i option first ctx = Some (Leave r) \<Longrightarrow>
   PhParseCommandLine_loop vec up alnum mem C Options Flags Callback i option first ctx = Some r"
  by (subst PhParseCommandLine_loop.simps) simp

lemma rest_of_line:
  "proper_line alnum nm Options ((k, it) # items) \<Longrightarrow>
   render_line nm items @ replicate z 32 = [] \<or> hd (render_line nm items @ replicate z 32) = 32"
  by (cases items; cases z) (auto split: prod.splits)

text \<open>
  The state between two turns: an option waits only when its argument is optional, and then no
  plain part follows.
\<close>

definition waiting :: "command_option option \<Rightarrow> (nat \<times> line_item) list \<Rightarrow> bool" where
  "waiting option items \<longleftrightarrow>
     (option = None \<or> pending_optional option
        \<and> (case items of [] \<Rightarrow> True | (_, it) # _ \<Rightarrow> (case it of Plain _ _ \<Rightarrow> False | _ \<Rightarrow> True)))"

lemma takes_no_value: "waiting option items \<Longrightarrow> \<not> takes_value option 45"
  by (auto simp: waiting_def takes_value_def pending_optional_def split: option.splits)

lemma parse_items:
  fixes Callback :: "'c callback"
  assumes "proper_line alnum nm Options items" "waiting option items"
    and "holds_ref mem C (us @ render_line nm items @ replicate z 32)"
    and "length (us @ render_line nm items @ replicate z 32) < 2 ^ 31"
    and names: "\<not> alnum 32" "\<forall>o' \<in> set Options. z_string False mem (OptionName o') (nm o')"
  shows "map_option (line_result Callback)
      (PhParseCommandLine_loop vec up alnum mem C Options Flags Callback (of_nat (length us)) option first ctx)
    = Some (run_pending Flags Callback option first (map snd items) ctx)"
  using assms(1-4)
proof (induction items arbitrary: us option first ctx)
  case Nil
  show ?case
    using loop_leave [OF turn_at_stop [of mem C us z vec up alnum Options Flags Callback option first ctx]] Nil.prems(3,4)
    by (auto simp: line_result_def run_pending_def split: prod.split)
next
  case (Cons p items)
  obtain k it where p: "p = (k, it)" by (cases p)
  let ?rest = "render_line nm items @ replicate z 32"
  have rest: "?rest = [] \<or> hd ?rest = 32" using Cons.prems(1) unfolding p by (rule rest_of_line)
  have items: "proper_line alnum nm Options items" "proper_item alnum nm Options it" using Cons.prems(1) p by simp_all
  have idle: "waiting None items" by (simp add: waiting_def)
  note IH = Cons.IH [OF items(1)]
  have opt: "PhParseCommandLine_turn vec up alnum mem C Options Flags Callback (of_nat (length us)) option first ctx
      = PhParseCommandLine_option vec up alnum mem C Options Flags Callback (of_nat (length (us @ replicate k 32))) option ctx"
    if "render_item nm it = 45 # ys" for ys
    using turn_at [of mem C us k 45 "ys @ ?rest" vec up alnum Options Flags Callback option first ctx]
      Cons.prems(3,4) takes_no_value [OF Cons.prems(2)] that by (simp add: p)
  show ?case
  proof (cases it)
    case (Switch o')
    have o': "OptionType o' = NoArgumentType" "name_text alnum (nm o')" "known_option nm Options (nm o') = Some o'"
      using items(2) Switch by simp_all
    note O = option_turn [of mem C "us @ replicate k 32" "nm o'" ?rest alnum Options nm vec up Flags Callback option ctx,
        OF _ _ o'(2) rest names]
    have next_item: "map_option (line_result Callback)
        (PhParseCommandLine_loop vec up alnum mem C Options Flags Callback (of_nat (length ((us @ replicate k 32) @ 45 # nm o'))) None False ctx')
      = Some (run_pending Flags Callback None False (map snd items) ctx')" for ctx'
      by (rule IH [OF idle]) (use Cons.prems(3,4) p Switch in simp_all)
    show ?thesis
      using Cons.prems(3,4) opt [of "nm o'"] O next_item
      by (subst PhParseCommandLine_loop.simps)
        (auto simp: p Switch o' run_pending_def pending_optional_def line_result_def split: prod.split)
  next
    case (Valued o' j t v)
    let ?us = "us @ replicate k 32 @ 45 # nm o'"
    have o': "name_text alnum (nm o')" "known_option nm Options (nm o') = Some o'" "OptionType o' \<noteq> NoArgumentType"
      and t: "part_text t v" using items(2) Valued by auto
    obtain c t' where ct: "t = c # t'" "c \<noteq> 32" "takes_value (Some o') c"
      using items(2) Valued by (cases t) (auto simp: takes_value_def)
    have spaces: "replicate (Suc j) 32 @ t @ ?rest = [] \<or> hd (replicate (Suc j) 32 @ t @ ?rest) = (32 :: ushort)" by simp
    note O = option_turn [of mem C "us @ replicate k 32" "nm o'" "replicate (Suc j) 32 @ t @ ?rest" alnum Options nm
        vec up Flags Callback option ctx, OF _ _ o'(1) spaces names]
    note V = value_turn [of mem C "?us @ replicate (Suc j) 32" t ?rest v Callback "Some o'" False, OF _ _ t rest]
    note A = turn_at [of mem C ?us "Suc j" c "t' @ ?rest" vec up alnum Options Flags Callback "Some o'" False]
    have next_item: "map_option (line_result Callback)
        (PhParseCommandLine_loop vec up alnum mem C Options Flags Callback (of_nat (length (?us @ replicate (Suc j) 32 @ t))) None False ctx')
      = Some (run_pending Flags Callback None False (map snd items) ctx')" for ctx'
      by (rule IH [OF idle]) (use Cons.prems(3,4) p Valued in simp_all)
    have valued: "map_option (line_result Callback)
        (PhParseCommandLine_loop vec up alnum mem C Options Flags Callback (of_nat (length ?us)) (Some o') False ctx')
      = Some (case Callback (Some o') (Some v) ctx' of (cont, ctx') \<Rightarrow>
          if cont then run_items Flags Callback False (map snd items) ctx' else (True, ctx'))" for ctx'
      using Cons.prems(3,4) A V next_item ct
      by (subst PhParseCommandLine_loop.simps)
        (auto simp: p Valued Let_def run_pending_def pending_optional_def line_result_def split: prod.split)
    show ?thesis
      using Cons.prems(3,4) opt [of "nm o' @ replicate (Suc j) 32 @ t"] O valued o'
      by (subst PhParseCommandLine_loop.simps)
        (auto simp: p Valued run_pending_def pending_optional_def line_result_def split: prod.split)
  next
    case (Bare o')
    have o': "OptionType o' = OptionalArgumentType" "name_text alnum (nm o')" "known_option nm Options (nm o') = Some o'"
      using items(2) Bare by simp_all
    have wait: "waiting (Some o') items"
      using Cons.prems(1) o'(1) unfolding p Bare
      by (auto simp: waiting_def pending_optional_def split: list.splits line_item.splits)
    note O = option_turn [of mem C "us @ replicate k 32" "nm o'" ?rest alnum Options nm vec up Flags Callback option ctx,
        OF _ _ o'(2) rest names]
    have next_item: "map_option (line_result Callback)
        (PhParseCommandLine_loop vec up alnum mem C Options Flags Callback (of_nat (length ((us @ replicate k 32) @ 45 # nm o'))) (Some o') False ctx')
      = Some (run_pending Flags Callback (Some o') False (map snd items) ctx')" for ctx'
      by (rule IH [OF wait]) (use Cons.prems(3,4) p Bare in simp_all)
    show ?thesis
      using Cons.prems(3,4) opt [of "nm o'"] O next_item
      by (subst PhParseCommandLine_loop.simps)
        (auto simp: p Bare o' run_pending_def pending_optional_def line_result_def split: prod.split)
  next
    case (Unknown name)
    have name: "name_text alnum name" "known_option nm Options name = None" using items(2) Unknown by simp_all
    note O = option_turn [of mem C "us @ replicate k 32" name ?rest alnum Options nm vec up Flags Callback option ctx,
        OF _ _ name(1) rest names]
    have next_item: "map_option (line_result Callback)
        (PhParseCommandLine_loop vec up alnum mem C Options Flags Callback (of_nat (length ((us @ replicate k 32) @ 45 # name))) None False ctx')
      = Some (run_pending Flags Callback None False (map snd items) ctx')" for ctx'
      by (rule IH [OF idle]) (use Cons.prems(3,4) p Unknown in simp_all)
    show ?thesis
      using Cons.prems(3,4) opt [of name] O next_item
      by (subst PhParseCommandLine_loop.simps)
        (auto simp: p Unknown name run_pending_def pending_optional_def line_result_def split: prod.split)
  next
    case (Plain t v)
    have idle': "option = None" using Cons.prems(2) unfolding p Plain by (simp add: waiting_def)
    have t: "part_text t v" using items(2) Plain by simp
    obtain c t' where ct: "t = c # t'" "c \<noteq> 32" "c \<noteq> 45" using items(2) Plain by (cases t) auto
    note A = turn_at [of mem C us k c "t' @ ?rest" vec up alnum Options Flags Callback option first ctx]
    note P = part_turn [of mem C "us @ replicate k 32" t ?rest v Flags Callback option first ctx, OF _ _ t rest]
    have next_item: "map_option (line_result Callback)
        (PhParseCommandLine_loop vec up alnum mem C Options Flags Callback (of_nat (length ((us @ replicate k 32) @ t))) None False ctx')
      = Some (run_pending Flags Callback None False (map snd items) ctx')" for ctx'
      by (rule IH [OF idle]) (use Cons.prems(3,4) p Plain in simp_all)
    show ?thesis
      using Cons.prems(3,4) A P next_item ct
      by (subst PhParseCommandLine_loop.simps)
        (auto simp: p Plain Let_def idle' takes_value_def run_pending_def pending_optional_def line_result_def split: prod.split)
  qed
qed

section \<open>Properties\<close>

text \<open>
  C22.  Escaping a part and parsing it between quotation marks, at
  the end of the line or before a space, gives the string back without its trailing
  backslashes: the escaping drops the backslashes that are pending when the string ends.
\<close>

theorem PhCommandLinePart_roundtrip:
  assumes "holds_ref mem R s" "length s < 2 ^ 29" "chars_at mem bq [92, 34]" "bq \<noteq> 0"
  shows "\<exists>E. PhEscapeCommandLinePart mem bq R = Some E
    \<and> (\<forall>mem' C pre post. holds_ref mem' C (pre @ [34] @ string_units E @ [34] @ post)
        \<longrightarrow> length (pre @ [34] @ string_units E @ [34] @ post) < 2 ^ 31 \<longrightarrow> (post = [] \<or> hd post = 32) \<longrightarrow>
        (\<exists>S. PhParseCommandLinePart mem' C (of_nat (length pre))
            = Some (S, of_nat (length (pre @ [34] @ string_units E @ [34])))
          \<and> string_units S = without_trailing 92 s))
    \<and> string_units E = escape_part 0 s"
proof -
  obtain E where E: "PhEscapeCommandLinePart mem bq R = Some E" "string_units E = escape_part 0 s"
    using escape_command_part [OF assms] by blast
  have "\<exists>S. PhParseCommandLinePart mem' C (of_nat (length pre))
            = Some (S, of_nat (length (pre @ [34] @ string_units E @ [34])))
          \<and> string_units S = without_trailing 92 s"
    if "holds_ref mem' C (pre @ [34] @ string_units E @ [34] @ post)"
      "length (pre @ [34] @ string_units E @ [34] @ post) < 2 ^ 31" "post = [] \<or> hd post = 32" for mem' C pre post
    using part_at [OF _ _ part_text_quoted [of s], of mem' C pre post] that E(2) by simp
  then show ?thesis using E by blast
qed

lemma PhCommandLinePart_roundtrip_witness:
  "\<exists>E S. PhEscapeCommandLinePart (place 4096 [97, 34, 98, 92] (place 8192 [92, 34] (\<lambda>_. None))) 8192
      \<lparr>Length = 8, Buffer = 4096\<rparr> = Some E
    \<and> PhParseCommandLinePart (place 4096 [120, 32, 34, 97, 92, 34, 98, 34] (\<lambda>_. None)) \<lparr>Length = 16, Buffer = 4096\<rparr> 2
      = Some (S, 8) \<and> string_units S = [97, 34, 98]"
proof -
  let ?mem = "place 4096 [97, 34, 98, 92] (place 8192 [92, 34] (\<lambda>_. None))"
    and ?mem' = "place 4096 [120, 32, 34, 97, 92, 34, 98, 34] (\<lambda>_. None)"
  have R: "holds_ref ?mem \<lparr>Length = 8, Buffer = 4096\<rparr> [97, 34, 98, 92]" by (simp add: holds_ref_def)
  have C: "holds_ref ?mem' \<lparr>Length = 16, Buffer = 4096\<rparr> [120, 32, 34, 97, 92, 34, 98, 34]" by (simp add: holds_ref_def)
  have side: "length [97, 34, 98, 92 :: ushort] < 2 ^ 29" "chars_at ?mem 8192 [92, 34]" "(8192 :: ulong64) \<noteq> 0" by simp_all
  have dropped: "without_trailing (92 :: ushort) [97, 34, 98, 92] = [97, 34, 98]" by (simp add: without_trailing_def)
  show ?thesis
    using PhCommandLinePart_roundtrip [OF R side] C dropped
    by (elim exE conjE) (drule spec [of _ ?mem'], drule spec [of _ "\<lparr>Length = 16, Buffer = 4096\<rparr>"],
      drule spec [of _ "[120, 32]"], drule spec [of _ "[]"], auto)
qed

text \<open>
  C23.  A command line that is written as a sequence of items, separated by spaces, calls back
  once for every item that has a call, in their order and with its option and value, until a
  callback returns false; it returns false exactly at an unknown option that is not to be
  ignored, and does not call back for a first plain part that is to be ignored.
\<close>

theorem PhParseCommandLine_correct:
  assumes "holds_ref mem C (render_line nm items @ replicate z 32)"
    and "length (render_line nm items @ replicate z 32) < 2 ^ 31"
    and "proper_line alnum nm Options items" "\<not> alnum 32"
    and "\<forall>o' \<in> set Options. z_string False mem (OptionName o') (nm o')"
  shows "PhParseCommandLine vec up alnum mem C Options Flags Callback ctx
    = Some (run_items Flags Callback True (map snd items) ctx)"
proof (cases "Length C = 0")
  case True
  then have "render_line nm items = []" using assms(1) by (simp add: holds_ref_def)
  then have "items = []"
  proof (cases items)
    case (Cons p its)
    then show ?thesis
      using assms(3) \<open>render_line nm items = []\<close> by (cases p; cases "snd p") simp_all
  qed simp
  then show ?thesis using True by (simp add: PhParseCommandLine_def)
next
  case False
  have "map_option (line_result Callback)
      (PhParseCommandLine_loop vec up alnum mem C Options Flags Callback (of_nat (length ([] :: ushort list))) None True ctx)
    = Some (run_pending Flags Callback None True (map snd items) ctx)"
    by (rule parse_items [where us = "[]" and z = z, OF assms(3) _ _ _ assms(4,5)])
      (use assms(1,2) in \<open>simp_all add: waiting_def\<close>)
  then show ?thesis
    using False by (auto simp: PhParseCommandLine_def run_pending_def pending_optional_def line_result_def)
qed

definition sample_options :: "command_option list" where
  "sample_options = [\<lparr>OptionId = 1, OptionName = 8192, OptionType = NoArgumentType\<rparr>,
     \<lparr>OptionId = 2, OptionName = 12288, OptionType = OptionalArgumentType\<rparr>]"

text \<open>The line \<open>p -n -v "a b"\<close>.\<close>

lemma PhParseCommandLine_correct_witness:
  "PhParseCommandLine True (\<lambda>c. c) (\<lambda>c. 97 \<le> c)
      (place 4096 [112, 32, 45, 110, 32, 45, 118, 32, 34, 97, 32, 98, 34]
        (place 8192 [110, 0] (place 12288 [118, 0] (\<lambda>_. None))))
      \<lparr>Length = 26, Buffer = 4096\<rparr> sample_options 0
      (\<lambda>o' v calls. (True, calls @ [(map_option OptionId o', v)])) []
    = Some (True, [(None, Some [112]), (Some 1, None), (Some 2, Some [97, 32, 98])])"
proof -
  let ?mem = "place 4096 [112, 32, 45, 110, 32, 45, 118, 32, 34, 97, 32, 98, 34]
        (place 8192 [110, 0] (place 12288 [118, 0] (\<lambda>_. None)))"
  let ?nm = "\<lambda>o'. if OptionId o' = 1 then [110] else [118 :: ushort]"
  let ?items = "[(0, Plain [112] [112]), (1, Switch (sample_options ! 0)),
    (1, Valued (sample_options ! 1) 0 (34 # escape_part 0 [97, 32, 98] @ [34]) (without_trailing 92 [97, 32, 98]))]"
  have C: "holds_ref ?mem \<lparr>Length = 26, Buffer = 4096\<rparr> (render_line ?nm ?items @ replicate 0 32)"
    by (simp add: holds_ref_def sample_options_def)
  have len: "length (render_line ?nm ?items @ replicate 0 (32 :: ushort)) < 2 ^ 31" by (simp add: sample_options_def)
  have proper: "proper_line (\<lambda>c. 97 \<le> c) ?nm sample_options ?items"
    using part_text_plain [of "[112]"] part_text_quoted [of "[97, 32, 98]"]
    by (simp add: sample_options_def name_text_def known_option_def)
  have names: "\<not> (97 \<le> (32 :: ushort))" "\<forall>o' \<in> set sample_options. z_string False ?mem (OptionName o') (?nm o')"
    by (simp_all add: sample_options_def z_string_def)
  show ?thesis
    using PhParseCommandLine_correct [OF C len proper names, of True "\<lambda>c. c" 0
        "\<lambda>o' v calls. (True, calls @ [(map_option OptionId o', v)])" "[]"]
    by (simp add: sample_options_def without_trailing_def)
qed

end
