(* ===== verification/HandleTable.thy ===== *)
theory HandleTable
  imports HandleStore Buffers
begin

text \<open>
  The handle table (\<open>phlib/handle.c\<close>, \<open>include/handle.h\<close>, \<open>include/handlep.h\<close>): entries in
  level 0 tables of 256, reached through up to two levels of tables of pointers, the level kept
  in the low bits of the table pointer; a free list threaded through the entries and an
  alternative one for entries that are freed while the first is being popped.

  The model is the code as one thread runs it: an interlocked operation is one assignment, and
  a compare-and-exchange finds the value that was read.  Whether a lock of the table is held by
  somebody who pops the free list is a parameter (\<open>busy\<close>), and locking an entry that somebody
  else has locked has no value, as it waits.  The memory of the tables is part of the state;
  \<open>alloc\<close> allocates a block of it and says what the block holds, or fails.
\<close>

unbundle bit_operations_syntax

section \<open>Entries and tables\<close>

record handle_entry =
  EntryValue :: ulong64
  Value2 :: ulong64

text \<open>\<open>NextFreeValue\<close> is the low half of \<open>Value2\<close>.\<close>

definition NextFreeValue :: "handle_entry \<Rightarrow> ulong" where
  "NextFreeValue e = ucast (Value2 e)"

definition set_NextFreeValue :: "ulong \<Rightarrow> handle_entry \<Rightarrow> handle_entry" where
  "set_NextFreeValue v e = e\<lparr>Value2 := (Value2 e AND NOT 0xffffffff) OR ucast v\<rparr>"

datatype table_block = Entries "handle_entry list" | Pointers "ulong64 list"

type_synonym table_heap = "ulong64 \<rightharpoonup> table_block"
type_synonym table_alloc = "table_heap \<Rightarrow> (ulong64 \<times> handle_entry list) option"
type_synonym entry_ptr = "ulong64 \<times> nat"

record handle_table =
  HandleCount :: ulong
  TableValue :: ulong64
  FreeValue :: ulong
  NextValue :: ulong
  FreeValueAlt :: ulong
  HandleFlags :: ulong
  Tables :: table_heap

definition PH_HANDLE_TABLE_ENTRY_TYPE :: ulong64 where "PH_HANDLE_TABLE_ENTRY_TYPE = 0x1"
definition PH_HANDLE_TABLE_ENTRY_IN_USE :: ulong64 where "PH_HANDLE_TABLE_ENTRY_IN_USE = 0x0"
definition PH_HANDLE_TABLE_ENTRY_FREE :: ulong64 where "PH_HANDLE_TABLE_ENTRY_FREE = 0x1"
definition PH_HANDLE_TABLE_ENTRY_LOCKED :: ulong64 where "PH_HANDLE_TABLE_ENTRY_LOCKED = 0x2"
definition PH_HANDLE_TABLE_ENTRY_LOCKED_SHIFT :: nat where "PH_HANDLE_TABLE_ENTRY_LOCKED_SHIFT = 1"
definition PH_HANDLE_TABLE_LEVEL_ENTRIES :: ulong where "PH_HANDLE_TABLE_LEVEL_ENTRIES = 256"
definition PH_HANDLE_TABLE_LEVEL_MASK :: ulong64 where "PH_HANDLE_TABLE_LEVEL_MASK = 0x3"
definition PH_HANDLE_TABLE_LOCK_INDEX :: "ulong \<Rightarrow> ulong" where "PH_HANDLE_TABLE_LOCK_INDEX v = v mod 8"
definition PH_HANDLE_TABLE_FREE_COUNT :: ulong where "PH_HANDLE_TABLE_FREE_COUNT = 64"
definition PH_HANDLE_TABLE_STRICT_FIFO :: ulong where "PH_HANDLE_TABLE_STRICT_FIFO = 0x1"
definition PH_HANDLE_TABLE_VALID_FLAGS :: ulong where "PH_HANDLE_TABLE_VALID_FLAGS = 0x1"
definition PH_HANDLE_VALUE_INVALID :: ulong where "PH_HANDLE_VALUE_INVALID = -1"
definition PH_HANDLE_VALUE_LEVEL0 :: "ulong \<Rightarrow> ulong" where "PH_HANDLE_VALUE_LEVEL0 v = v AND 0xff"
definition PH_HANDLE_VALUE_LEVEL1_U :: "ulong \<Rightarrow> ulong" where "PH_HANDLE_VALUE_LEVEL1_U v = drop_bit 8 v"
definition PH_HANDLE_VALUE_LEVEL1 :: "ulong \<Rightarrow> ulong" where "PH_HANDLE_VALUE_LEVEL1 v = PH_HANDLE_VALUE_LEVEL1_U v AND 0xff"
definition PH_HANDLE_VALUE_LEVEL2_U :: "ulong \<Rightarrow> ulong" where "PH_HANDLE_VALUE_LEVEL2_U v = drop_bit 16 v"

definition PhpEncodeHandle :: "ulong \<Rightarrow> ulong64" where
  "PhpEncodeHandle HandleValue = ucast (push_bit 2 HandleValue + 4)"

definition PhpDecodeHandle :: "ulong64 \<Rightarrow> ulong" where
  "PhpDecodeHandle Handle = drop_bit 2 (ucast Handle - 4)"

section \<open>Access\<close>

fun read_entry :: "handle_table \<Rightarrow> entry_ptr \<Rightarrow> handle_entry option" where
  "read_entry T (a, i) = (case Tables T a of
     Some (Entries es) \<Rightarrow> if i < length es then Some (es ! i) else None
   | _ \<Rightarrow> None)"

fun write_entry :: "entry_ptr \<Rightarrow> (handle_entry \<Rightarrow> handle_entry) \<Rightarrow> handle_table \<Rightarrow> handle_table option" where
  "write_entry (a, i) f T = (case Tables T a of
     Some (Entries es) \<Rightarrow>
       if i < length es then Some (T\<lparr>Tables := (Tables T)(a \<mapsto> Entries (es[i := f (es ! i)]))\<rparr>) else None
   | _ \<Rightarrow> None)"

definition read_pointer :: "handle_table \<Rightarrow> ulong64 \<Rightarrow> nat \<Rightarrow> ulong64 option" where
  "read_pointer T a i = (case Tables T a of
     Some (Pointers ps) \<Rightarrow> if i < length ps then Some (ps ! i) else None
   | _ \<Rightarrow> None)"

definition write_pointer :: "ulong64 \<Rightarrow> nat \<Rightarrow> ulong64 \<Rightarrow> handle_table \<Rightarrow> handle_table option" where
  "write_pointer a i p T = (case Tables T a of
     Some (Pointers ps) \<Rightarrow>
       if i < length ps then Some (T\<lparr>Tables := (Tables T)(a \<mapsto> Pointers (ps[i := p]))\<rparr>) else None
   | _ \<Rightarrow> None)"

section \<open>Creating and freeing tables\<close>

text \<open>The loop over the entries of a new level 0 table, and the table.  Failure is the address 0.\<close>

function init_entries :: "ulong64 \<Rightarrow> ulong \<Rightarrow> ulong \<Rightarrow> nat \<Rightarrow> handle_table \<Rightarrow> (nat \<times> handle_table) option" where
  "init_entries a i stop k T = (
     if i < stop then do {
       T \<leftarrow> write_entry (a, k) (\<lambda>e. set_NextFreeValue i (e\<lparr>EntryValue := PH_HANDLE_TABLE_ENTRY_FREE\<rparr>)) T;
       init_entries a (i + 1) stop (k + 1) T
     }
     else Some (k, T))"
  by auto
termination
  by (relation "measure (\<lambda>(a, i, stop, k, T). unat stop - unat i)") (auto simp: unat_inc word_less_nat_alt)

definition PhpCreateHandleTableLevel0 :: "table_alloc \<Rightarrow> handle_table \<Rightarrow> bool \<Rightarrow> (ulong64 \<times> handle_table) option" where
  "PhpCreateHandleTableLevel0 alloc T Initialize = (
     case alloc (Tables T) of
       None \<Rightarrow> Some (0, T)
     | Some (a, es) \<Rightarrow>
         let T = T\<lparr>Tables := (Tables T)(a \<mapsto> Entries es)\<rparr> in
         if Initialize then do {
           let baseValue = NextValue T;
           (k, T) \<leftarrow> init_entries a (baseValue + 1) (baseValue + PH_HANDLE_TABLE_LEVEL_ENTRIES) 0 T;
           T \<leftarrow> write_entry (a, k)
             (\<lambda>e. set_NextFreeValue PH_HANDLE_VALUE_INVALID (e\<lparr>EntryValue := PH_HANDLE_TABLE_ENTRY_FREE\<rparr>)) T;
           Some (a, T)
         }
         else Some (a, T))"

definition create_pointers :: "table_alloc \<Rightarrow> handle_table \<Rightarrow> ulong64 \<times> handle_table" where
  "create_pointers alloc T = (
     case alloc (Tables T) of
       None \<Rightarrow> (0, T)
     | Some (a, _) \<Rightarrow> (a, T\<lparr>Tables := (Tables T)(a \<mapsto> Pointers (replicate (unat PH_HANDLE_TABLE_LEVEL_ENTRIES) 0))\<rparr>))"

definition PhpCreateHandleTableLevel1 :: "table_alloc \<Rightarrow> handle_table \<Rightarrow> ulong64 \<times> handle_table" where
  "PhpCreateHandleTableLevel1 alloc T = create_pointers alloc T"

definition PhpCreateHandleTableLevel2 :: "table_alloc \<Rightarrow> handle_table \<Rightarrow> ulong64 \<times> handle_table" where
  "PhpCreateHandleTableLevel2 alloc T = create_pointers alloc T"

definition free_table :: "ulong64 \<Rightarrow> handle_table \<Rightarrow> handle_table option" where
  "free_table a T = (if Tables T a = None then None else Some (T\<lparr>Tables := (Tables T)(a := None)\<rparr>))"

definition PhpFreeHandleTableLevel0 :: "ulong64 \<Rightarrow> handle_table \<Rightarrow> handle_table option" where
  "PhpFreeHandleTableLevel0 a T = free_table a T"

definition PhpFreeHandleTableLevel1 :: "ulong64 \<Rightarrow> handle_table \<Rightarrow> handle_table option" where
  "PhpFreeHandleTableLevel1 a T = free_table a T"

definition PhpFreeHandleTableLevel2 :: "ulong64 \<Rightarrow> handle_table \<Rightarrow> handle_table option" where
  "PhpFreeHandleTableLevel2 a T = free_table a T"

text \<open>A new table, in the memory \<open>H\<close>; \<open>Some None\<close> when the allocation fails.\<close>

definition PhCreateHandleTable :: "table_alloc \<Rightarrow> table_heap \<Rightarrow> handle_table option option" where
  "PhCreateHandleTable alloc H = do {
     let T = \<lparr>HandleCount = 0, TableValue = 0, FreeValue = 0, NextValue = 0, FreeValueAlt = 0,
              HandleFlags = 0, Tables = H\<rparr>;
     (a, T) \<leftarrow> PhpCreateHandleTableLevel0 alloc T True;
     if a = 0 then Some None
     else Some (Some (T\<lparr>TableValue := a, FreeValue := 0, NextValue := PH_HANDLE_TABLE_LEVEL_ENTRIES,
                        FreeValueAlt := PH_HANDLE_VALUE_INVALID, HandleFlags := 0\<rparr>))
   }"

definition table_level :: "handle_table \<Rightarrow> ulong64" where
  "table_level T = TableValue T AND PH_HANDLE_TABLE_LEVEL_MASK"

definition table_address :: "handle_table \<Rightarrow> ulong64" where
  "table_address T = TableValue T - table_level T"

section \<open>Looking an entry up\<close>

text \<open>\<open>Some None\<close> is the null pointer.\<close>

definition PhpLookupHandleTableEntry :: "handle_table \<Rightarrow> ulong \<Rightarrow> entry_ptr option option" where
  "PhpLookupHandleTableEntry T HandleValue = (
     if HandleValue \<ge> NextValue T then Some None
     else if table_level T = 0 then Some (Some (table_address T, unat HandleValue))
     else if table_level T = 1 then do {
       table0 \<leftarrow> read_pointer T (table_address T) (unat (PH_HANDLE_VALUE_LEVEL1_U HandleValue));
       Some (Some (table0, unat (PH_HANDLE_VALUE_LEVEL0 HandleValue)))
     }
     else if table_level T = 2 then do {
       table1 \<leftarrow> read_pointer T (table_address T) (unat (PH_HANDLE_VALUE_LEVEL2_U HandleValue));
       table0 \<leftarrow> read_pointer T table1 (unat (PH_HANDLE_VALUE_LEVEL1 HandleValue));
       Some (Some (table0, unat (PH_HANDLE_VALUE_LEVEL0 HandleValue)))
     }
     else None)"

section \<open>Expanding\<close>

text \<open>The new level 0 table, or 0 when there is none; one definition per level.\<close>

definition grow_level0 :: "table_alloc \<Rightarrow> handle_table \<Rightarrow> bool \<Rightarrow> (ulong64 \<times> handle_table) option" where
  "grow_level0 alloc T Initialize = (
     let tableValue = table_address T; (table1, T) = PhpCreateHandleTableLevel1 alloc T in
     if table1 = 0 then Some (0, T)
     else do {
       (table0, T) \<leftarrow> PhpCreateHandleTableLevel0 alloc T Initialize;
       if table0 = 0 then do { T \<leftarrow> PhpFreeHandleTableLevel1 table1 T; Some (0, T) }
       else do {
         T \<leftarrow> write_pointer table1 0 tableValue T;
         T \<leftarrow> write_pointer table1 1 table0 T;
         Some (table0, T\<lparr>TableValue := table1 OR 1\<rparr>)
       }
     })"

definition grow_level1 :: "table_alloc \<Rightarrow> handle_table \<Rightarrow> bool \<Rightarrow> (ulong64 \<times> handle_table) option" where
  "grow_level1 alloc T Initialize = (
     let tableValue = table_address T; i = NextValue T div PH_HANDLE_TABLE_LEVEL_ENTRIES in
     if i < PH_HANDLE_TABLE_LEVEL_ENTRIES then do {
       (table0, T) \<leftarrow> PhpCreateHandleTableLevel0 alloc T True;
       if table0 = 0 then Some (0, T)
       else do { T \<leftarrow> write_pointer tableValue (unat i) table0 T; Some (table0, T) }
     }
     else
       let (table2, T) = PhpCreateHandleTableLevel2 alloc T in
       if table2 = 0 then Some (0, T)
       else
         let (table1, T) = PhpCreateHandleTableLevel1 alloc T in
         if table1 = 0 then do { T \<leftarrow> PhpFreeHandleTableLevel2 table2 T; Some (0, T) }
         else do {
           (table0, T) \<leftarrow> PhpCreateHandleTableLevel0 alloc T Initialize;
           if table0 = 0 then do {
             T \<leftarrow> PhpFreeHandleTableLevel1 table1 T;
             T \<leftarrow> PhpFreeHandleTableLevel2 table2 T;
             Some (0, T)
           }
           else do {
             T \<leftarrow> write_pointer table1 0 table0 T;
             T \<leftarrow> write_pointer table2 0 tableValue T;
             T \<leftarrow> write_pointer table2 1 table1 T;
             Some (table0, T\<lparr>TableValue := table2 OR 2\<rparr>)
           }
         })"

definition grow_level2 :: "table_alloc \<Rightarrow> handle_table \<Rightarrow> bool \<Rightarrow> (ulong64 \<times> handle_table) option" where
  "grow_level2 alloc T Initialize = (
     let table2 = table_address T;
         i = NextValue T div (PH_HANDLE_TABLE_LEVEL_ENTRIES * PH_HANDLE_TABLE_LEVEL_ENTRIES) in
     if i \<ge> PH_HANDLE_TABLE_LEVEL_ENTRIES then Some (0, T)
     else do {
       p \<leftarrow> read_pointer T table2 (unat i);
       if p \<noteq> 0 then do {
         (table0, T) \<leftarrow> PhpCreateHandleTableLevel0 alloc T Initialize;
         if table0 = 0 then Some (0, T)
         else do {
           let j = NextValue T - i * (PH_HANDLE_TABLE_LEVEL_ENTRIES * PH_HANDLE_TABLE_LEVEL_ENTRIES);
           T \<leftarrow> write_pointer p (unat (j div PH_HANDLE_TABLE_LEVEL_ENTRIES)) table0 T;
           Some (table0, T)
         }
       }
       else
         let (table1, T) = PhpCreateHandleTableLevel1 alloc T in
         if table1 = 0 then Some (0, T)
         else do {
           (table0, T) \<leftarrow> PhpCreateHandleTableLevel0 alloc T True;
           if table0 = 0 then do { T \<leftarrow> PhpFreeHandleTableLevel1 table1 T; Some (0, T) }
           else do {
             T \<leftarrow> write_pointer table1 0 table0 T;
             T \<leftarrow> write_pointer table2 (unat i) table1 T;
             Some (table0, T)
           }
         }
     })"

definition PhpAllocateMoreHandleTableEntries ::
  "table_alloc \<Rightarrow> handle_table \<Rightarrow> bool \<Rightarrow> (bool \<times> handle_table) option" where
  "PhpAllocateMoreHandleTableEntries alloc T Initialize = do {
     (table0, T) \<leftarrow>
       (if table_level T = 0 then grow_level0 alloc T Initialize
        else if table_level T = 1 then grow_level1 alloc T Initialize
        else if table_level T = 2 then grow_level2 alloc T Initialize
        else None);
     if table0 = 0 then Some (False, T)
     else do {
       let oldNextValue = NextValue T;
       let T = T\<lparr>NextValue := NextValue T + PH_HANDLE_TABLE_LEVEL_ENTRIES\<rparr>;
       T \<leftarrow> (if Initialize then do {
              let freeValue = FreeValue T;
              T \<leftarrow> write_entry (table0, unat (PH_HANDLE_TABLE_LEVEL_ENTRIES - 1)) (set_NextFreeValue freeValue) T;
              Some (T\<lparr>FreeValue := oldNextValue\<rparr>)
            }
            else Some T);
       Some (True, T)
     }
   }"

section \<open>The free lists\<close>

text \<open>
  Reversing the chain: its new first index, how many entries it has, and the entry that is now
  last.
\<close>

partial_function (option) reverse_free ::
  "ulong \<Rightarrow> ulong \<Rightarrow> ulong \<Rightarrow> entry_ptr option \<Rightarrow> handle_table \<Rightarrow> (ulong \<times> ulong \<times> entry_ptr option \<times> handle_table) option" where
  "reverse_free index lastIndex count firstEntry T = do {
     p \<leftarrow> PhpLookupHandleTableEntry T index;
     case p of
       None \<Rightarrow> None
     | Some entry \<Rightarrow> do {
         e \<leftarrow> read_entry T entry;
         let nextIndex = NextFreeValue e;
         T \<leftarrow> write_entry entry (set_NextFreeValue lastIndex) T;
         let firstEntry = (if lastIndex = PH_HANDLE_VALUE_INVALID then Some entry else firstEntry);
         if nextIndex = PH_HANDLE_VALUE_INVALID then Some (index, count + 1, firstEntry, T)
         else reverse_free nextIndex index (count + 1) firstEntry T
       }
   }"

definition PhpMoveFreeHandleTableEntries :: "handle_table \<Rightarrow> (ulong \<times> handle_table) option" where
  "PhpMoveFreeHandleTableEntries T = (
     let freeValueAlt = FreeValueAlt T; T = T\<lparr>FreeValueAlt := PH_HANDLE_VALUE_INVALID\<rparr> in
     if freeValueAlt = PH_HANDLE_VALUE_INVALID then Some (PH_HANDLE_VALUE_INVALID, T)
     else
       let flags = HandleFlags T in
       if flags AND PH_HANDLE_TABLE_STRICT_FIFO = 0 \<and> FreeValue T = PH_HANDLE_VALUE_INVALID
       then Some (freeValueAlt, T\<lparr>FreeValue := freeValueAlt\<rparr>)
       else do {
         (index, n, firstEntry, T) \<leftarrow> reverse_free freeValueAlt PH_HANDLE_VALUE_INVALID 0 None T;
         case firstEntry of
           None \<Rightarrow> None
         | Some p \<Rightarrow> do {
             let freeValue = FreeValue T;
             T \<leftarrow> write_entry p (set_NextFreeValue freeValue) T;
             let T = T\<lparr>FreeValue := index\<rparr>;
             Some (if flags AND PH_HANDLE_TABLE_STRICT_FIFO \<noteq> 0 \<and> n < PH_HANDLE_TABLE_FREE_COUNT
                   then PH_HANDLE_VALUE_INVALID else index, T)
           }
       })"

text \<open>
  One turn of the loop that waits for a free value: whether the loop is left, and with which value
  (none when the allocation failed).
\<close>

definition free_value_turn :: "table_alloc \<Rightarrow> handle_table \<Rightarrow> (bool \<times> ulong option \<times> handle_table) option" where
  "free_value_turn alloc T = (
     let freeValue = FreeValue T in
     if freeValue \<noteq> PH_HANDLE_VALUE_INVALID then Some (True, Some freeValue, T)
     else do {
       (freeValue, T) \<leftarrow> PhpMoveFreeHandleTableEntries T;
       if freeValue \<noteq> PH_HANDLE_VALUE_INVALID then Some (True, Some freeValue, T)
       else do {
         (result, T) \<leftarrow> PhpAllocateMoreHandleTableEntries alloc T True;
         let freeValue = FreeValue T;
         if \<not> result \<and> freeValue = PH_HANDLE_VALUE_INVALID then Some (True, None, T)
         else Some (False, Some freeValue, T)
       }
     })"

partial_function (option) free_value_loop ::
  "table_alloc \<Rightarrow> ulong \<Rightarrow> handle_table \<Rightarrow> (ulong option \<times> handle_table) option" where
  "free_value_loop alloc freeValue T = (
     if freeValue = PH_HANDLE_VALUE_INVALID then do {
       r \<leftarrow> free_value_turn alloc T;
       case r of (left, v, T) \<Rightarrow>
         if left then Some (v, T)
         else case v of None \<Rightarrow> None | Some freeValue \<Rightarrow> free_value_loop alloc freeValue T
     }
     else Some (Some freeValue, T))"

partial_function (option) PhpAllocateHandleTableEntry ::
  "table_alloc \<Rightarrow> handle_table \<Rightarrow> ((ulong \<times> entry_ptr) option \<times> handle_table) option" where
  "PhpAllocateHandleTableEntry alloc T = do {
     r \<leftarrow> free_value_loop alloc (FreeValue T) T;
     case r of (v, T) \<Rightarrow> case v of
       None \<Rightarrow> Some (None, T)
     | Some freeValue \<Rightarrow> do {
         entry \<leftarrow> PhpLookupHandleTableEntry T freeValue;
         if FreeValue T \<noteq> freeValue then PhpAllocateHandleTableEntry alloc T
         else case entry of
           None \<Rightarrow> None
         | Some p \<Rightarrow> do {
             e \<leftarrow> read_entry T p;
             Some (Some (freeValue, p), T\<lparr>FreeValue := NextFreeValue e, HandleCount := HandleCount T + 1\<rparr>)
           }
       }
   }"

definition PhpFreeHandleTableEntry ::
  "(ulong \<Rightarrow> bool) \<Rightarrow> handle_table \<Rightarrow> ulong \<Rightarrow> entry_ptr \<Rightarrow> handle_table option" where
  "PhpFreeHandleTableEntry busy T HandleValue p = (
     let T = T\<lparr>HandleCount := HandleCount T - 1\<rparr> in
     if HandleFlags T AND PH_HANDLE_TABLE_STRICT_FIFO = 0 \<and> \<not> busy (PH_HANDLE_TABLE_LOCK_INDEX HandleValue)
     then do { T \<leftarrow> write_entry p (set_NextFreeValue (FreeValue T)) T; Some (T\<lparr>FreeValue := HandleValue\<rparr>) }
     else do { T \<leftarrow> write_entry p (set_NextFreeValue (FreeValueAlt T)) T; Some (T\<lparr>FreeValueAlt := HandleValue\<rparr>) })"

section \<open>Handles\<close>

definition PhLockHandleTableEntry :: "handle_table \<Rightarrow> entry_ptr \<Rightarrow> (bool \<times> handle_table) option" where
  "PhLockHandleTableEntry T p = do {
     e \<leftarrow> read_entry T p;
     let v = EntryValue e;
     if v AND PH_HANDLE_TABLE_ENTRY_TYPE \<noteq> PH_HANDLE_TABLE_ENTRY_IN_USE then Some (False, T)
     else if v AND PH_HANDLE_TABLE_ENTRY_LOCKED \<noteq> 0 then do {
       T \<leftarrow> write_entry p (\<lambda>e. e\<lparr>EntryValue := v - PH_HANDLE_TABLE_ENTRY_LOCKED\<rparr>) T;
       Some (True, T)
     }
     else None
   }"

definition PhUnlockHandleTableEntry :: "handle_table \<Rightarrow> entry_ptr \<Rightarrow> handle_table option" where
  "PhUnlockHandleTableEntry T p =
     write_entry p (\<lambda>e. e\<lparr>EntryValue := set_bit PH_HANDLE_TABLE_ENTRY_LOCKED_SHIFT (EntryValue e)\<rparr>) T"

definition PhCreateHandle :: "table_alloc \<Rightarrow> handle_table \<Rightarrow> handle_entry \<Rightarrow> (ulong64 \<times> handle_table) option" where
  "PhCreateHandle alloc T E = do {
     (r, T) \<leftarrow> PhpAllocateHandleTableEntry alloc T;
     case r of
       None \<Rightarrow> Some (0, T)
     | Some (handleValue, p) \<Rightarrow> do {
         T \<leftarrow> write_entry p (\<lambda>e. e\<lparr>EntryValue := (EntryValue e AND NOT 1) OR PH_HANDLE_TABLE_ENTRY_IN_USE\<rparr>) T;
         T \<leftarrow> write_entry p (\<lambda>e. e\<lparr>EntryValue := (EntryValue e AND 3) OR (EntryValue E AND NOT 3)\<rparr>) T;
         T \<leftarrow> write_entry p (\<lambda>e. e\<lparr>Value2 := Value2 E\<rparr>) T;
         T \<leftarrow> PhUnlockHandleTableEntry T p;
         Some (PhpEncodeHandle handleValue, T)
       }
   }"

text \<open>The caller passes an entry it has locked, or none.\<close>

definition PhDestroyHandle ::
  "(ulong \<Rightarrow> bool) \<Rightarrow> handle_table \<Rightarrow> ulong64 \<Rightarrow> entry_ptr option \<Rightarrow> (bool \<times> handle_table) option" where
  "PhDestroyHandle busy T Handle HandleTableEntry = do {
     let handleValue = PhpDecodeHandle Handle;
     (r, T) \<leftarrow> (case HandleTableEntry of
        Some p \<Rightarrow> Some (Some p, T)
      | None \<Rightarrow> do {
          entry \<leftarrow> PhpLookupHandleTableEntry T handleValue;
          case entry of
            None \<Rightarrow> Some (None, T)
          | Some p \<Rightarrow> do {
              (locked, T) \<leftarrow> PhLockHandleTableEntry T p;
              Some (if locked then Some p else None, T)
            }
        });
     case r of
       None \<Rightarrow> Some (False, T)
     | Some p \<Rightarrow> do {
         T \<leftarrow> write_entry p (\<lambda>e. e\<lparr>EntryValue := PH_HANDLE_TABLE_ENTRY_FREE\<rparr>) T;
         T \<leftarrow> PhpFreeHandleTableEntry busy T handleValue p;
         Some (True, T)
       }
   }"

definition PhLookupHandleTableEntry :: "handle_table \<Rightarrow> ulong64 \<Rightarrow> (entry_ptr option \<times> handle_table) option" where
  "PhLookupHandleTableEntry T Handle = do {
     entry \<leftarrow> PhpLookupHandleTableEntry T (PhpDecodeHandle Handle);
     case entry of
       None \<Rightarrow> Some (None, T)
     | Some p \<Rightarrow> do {
         (locked, T) \<leftarrow> PhLockHandleTableEntry T p;
         Some (if locked then Some p else None, T)
       }
   }"

section \<open>Enumeration\<close>

text \<open>
  A callback sees the handle and the entry and does not change the table.  Enumerating locks the
  entries, sweeping does not.
\<close>

type_synonym 'c handle_callback = "ulong64 \<Rightarrow> handle_entry \<Rightarrow> 'c \<Rightarrow> bool \<times> 'c"

definition enum_turn ::
  "'c handle_callback \<Rightarrow> ulong \<Rightarrow> entry_ptr \<Rightarrow> 'c \<Rightarrow> handle_table \<Rightarrow> (bool \<times> 'c \<times> handle_table) option" where
  "enum_turn Callback handleValue p ctx T = do {
     (locked, T) \<leftarrow> PhLockHandleTableEntry T p;
     if locked then do {
       e \<leftarrow> read_entry T p;
       let (cont, ctx) = Callback (PhpEncodeHandle handleValue) e ctx;
       T \<leftarrow> PhUnlockHandleTableEntry T p;
       Some (cont, ctx, T)
     }
     else Some (True, ctx, T)
   }"

definition sweep_turn ::
  "'c handle_callback \<Rightarrow> ulong \<Rightarrow> entry_ptr \<Rightarrow> 'c \<Rightarrow> handle_table \<Rightarrow> (bool \<times> 'c \<times> handle_table) option" where
  "sweep_turn Callback handleValue p ctx T = do {
     e \<leftarrow> read_entry T p;
     if EntryValue e AND 1 = PH_HANDLE_TABLE_ENTRY_IN_USE then
       let (cont, ctx) = Callback (PhpEncodeHandle handleValue) e ctx in Some (cont, ctx, T)
     else Some (True, ctx, T)
   }"

partial_function (option) enum_loop ::
  "(ulong \<Rightarrow> entry_ptr \<Rightarrow> 'c \<Rightarrow> handle_table \<Rightarrow> (bool \<times> 'c \<times> handle_table) option)
   \<Rightarrow> ulong \<Rightarrow> 'c \<Rightarrow> handle_table \<Rightarrow> ('c \<times> handle_table) option" where
  "enum_loop turn handleValue ctx T = do {
     entry \<leftarrow> PhpLookupHandleTableEntry T handleValue;
     case entry of
       None \<Rightarrow> Some (ctx, T)
     | Some p \<Rightarrow> do {
         r \<leftarrow> turn handleValue p ctx T;
         case r of (cont, ctx, T) \<Rightarrow>
           if \<not> cont then Some (ctx, T) else enum_loop turn (handleValue + 1) ctx T
       }
   }"

definition PhEnumHandleTable :: "'c handle_callback \<Rightarrow> handle_table \<Rightarrow> 'c \<Rightarrow> ('c \<times> handle_table) option" where
  "PhEnumHandleTable Callback T ctx = enum_loop (enum_turn Callback) 0 ctx T"

definition PhSweepHandleTable :: "'c handle_callback \<Rightarrow> handle_table \<Rightarrow> 'c \<Rightarrow> ('c \<times> handle_table) option" where
  "PhSweepHandleTable Callback T ctx = enum_loop (sweep_turn Callback) 0 ctx T"

section \<open>Information and destruction\<close>

datatype handle_status = Success | InfoLengthMismatch | InvalidParameter | InvalidInfoClass

datatype handle_info = BasicInformation ulong ulong ulong | FlagsInformation ulong

text \<open>
  The class is its number; the result is the status, what is stored in the buffer, and the
  returned length.  The sizes are those of the two structures.
\<close>

definition PhQueryInformationHandleTable ::
  "handle_table \<Rightarrow> nat \<Rightarrow> ulong \<Rightarrow> handle_status \<times> handle_info option \<times> ulong" where
  "PhQueryInformationHandleTable T InformationClass BufferLength = (
     if InformationClass = 0 then
       if BufferLength = 12
       then (Success, Some (BasicInformation (HandleCount T) (HandleFlags T) (ucast (table_level T))), 12)
       else (InfoLengthMismatch, None, 12)
     else if InformationClass = 1 then
       if BufferLength = 4 then (Success, Some (FlagsInformation (HandleFlags T)), 4)
       else (InfoLengthMismatch, None, 4)
     else (InvalidInfoClass, None, 0))"

definition PhSetInformationHandleTable ::
  "handle_table \<Rightarrow> nat \<Rightarrow> ulong \<Rightarrow> ulong \<Rightarrow> handle_status \<times> handle_table" where
  "PhSetInformationHandleTable T InformationClass flags BufferLength = (
     if InformationClass = 1 then
       if BufferLength = 4 then
         if flags AND PH_HANDLE_TABLE_VALID_FLAGS = flags then (Success, T\<lparr>HandleFlags := flags\<rparr>)
         else (InvalidParameter, T)
       else (InfoLengthMismatch, T)
     else (InvalidInfoClass, T))"

lemma inc_256: "i < PH_HANDLE_TABLE_LEVEL_ENTRIES \<Longrightarrow> 256 - unat (i + 1) < 256 - unat i"
  using unat_inc [of i PH_HANDLE_TABLE_LEVEL_ENTRIES]
  by (simp add: PH_HANDLE_TABLE_LEVEL_ENTRIES_def word_less_nat_alt)

text \<open>Freeing the tables a table of pointers points to, up to its first null pointer.\<close>

function free_tables0 :: "ulong64 \<Rightarrow> ulong \<Rightarrow> handle_table \<Rightarrow> handle_table option" where
  "free_tables0 table1 i T = (
     if i < PH_HANDLE_TABLE_LEVEL_ENTRIES then do {
       p \<leftarrow> read_pointer T table1 (unat i);
       if p = 0 then Some T
       else do { T \<leftarrow> PhpFreeHandleTableLevel0 p T; free_tables0 table1 (i + 1) T }
     }
     else Some T)"
  by auto
termination
  by (relation "measure (\<lambda>(a, i, T). 256 - unat i)") (auto simp: inc_256)

function free_tables1 :: "ulong64 \<Rightarrow> ulong \<Rightarrow> handle_table \<Rightarrow> handle_table option" where
  "free_tables1 table2 i T = (
     if i < PH_HANDLE_TABLE_LEVEL_ENTRIES then do {
       p \<leftarrow> read_pointer T table2 (unat i);
       if p = 0 then Some T
       else do {
         T \<leftarrow> free_tables0 p 0 T;
         T \<leftarrow> PhpFreeHandleTableLevel1 p T;
         free_tables1 table2 (i + 1) T
       }
     }
     else Some T)"
  by auto
termination
  by (relation "measure (\<lambda>(a, i, T). 256 - unat i)") (auto simp: inc_256)

definition PhDestroyHandleTable :: "handle_table \<Rightarrow> table_heap option" where
  "PhDestroyHandleTable T = do {
     let tableValue = table_address T;
     T \<leftarrow> (if table_level T = 0 then PhpFreeHandleTableLevel0 tableValue T
          else if table_level T = 1 then do {
            T \<leftarrow> free_tables0 tableValue 0 T;
            PhpFreeHandleTableLevel1 tableValue T
          }
          else if table_level T = 2 then do {
            T \<leftarrow> free_tables1 tableValue 0 T;
            PhpFreeHandleTableLevel2 tableValue T
          }
          else None);
     Some (Tables T)
   }"

declare init_entries.simps [simp del] free_tables0.simps [simp del] free_tables1.simps [simp del]

end
