(* ===== verification/HandleWf.thy ===== *)
theory HandleWf
  imports HandleTable
begin

text \<open>
  What a handle table represents: the list of its entries, cut into the level 0 tables that the
  table of pointers reaches, and nothing else of the memory.
\<close>

unbundle bit_operations_syntax

lemmas handle_consts = PH_HANDLE_TABLE_ENTRY_TYPE_def PH_HANDLE_TABLE_ENTRY_IN_USE_def PH_HANDLE_TABLE_ENTRY_FREE_def
  PH_HANDLE_TABLE_ENTRY_LOCKED_def PH_HANDLE_TABLE_ENTRY_LOCKED_SHIFT_def PH_HANDLE_TABLE_LEVEL_ENTRIES_def
  PH_HANDLE_TABLE_LEVEL_MASK_def PH_HANDLE_TABLE_LOCK_INDEX_def PH_HANDLE_TABLE_FREE_COUNT_def
  PH_HANDLE_TABLE_STRICT_FIFO_def PH_HANDLE_TABLE_VALID_FLAGS_def PH_HANDLE_VALUE_LEVEL0_def
  PH_HANDLE_VALUE_LEVEL1_U_def PH_HANDLE_VALUE_LEVEL1_def PH_HANDLE_VALUE_LEVEL2_U_def

section \<open>Chunks\<close>

definition chunk :: "nat \<Rightarrow> 'a list \<Rightarrow> 'a list" where
  "chunk k xs = take 256 (drop (256 * k) xs)"

definition padded :: "ulong64 list \<Rightarrow> ulong64 list" where
  "padded ps = ps @ replicate (256 - length ps) 0"

lemma padded_nth: "k < length ps \<Longrightarrow> padded ps ! k = ps ! k"
  by (simp add: padded_def nth_append)

lemma length_padded: "length ps \<le> 256 \<Longrightarrow> length (padded ps) = 256"
  by (simp add: padded_def)

lemma padded_end: "length ps < 256 \<Longrightarrow> padded ps ! length ps = 0"
  by (simp add: padded_def nth_append)

lemma padded_snoc: "length ps < 256 \<Longrightarrow> (padded ps)[length ps := p] = padded (ps @ [p])"
proof -
  assume "length ps < 256"
  then obtain n where n: "256 - length ps = Suc n" by (metis Suc_diff_Suc)
  then have "256 - length (ps @ [p]) = n" by simp
  then show ?thesis unfolding padded_def n by simp
qed

lemma length_chunk: "256 * Suc k \<le> length xs \<Longrightarrow> length (chunk k xs) = 256"
  by (simp add: chunk_def)

lemma length_chunk_le: "length (chunk k xs) \<le> 256"
  by (simp add: chunk_def)

lemma chunk_nth: "v < length xs \<Longrightarrow> chunk (v div 256) xs ! (v mod 256) = xs ! v"
proof -
  assume "v < length xs"
  then have "chunk (v div 256) xs ! (v mod 256) = xs ! (256 * (v div 256) + v mod 256)"
    by (simp add: chunk_def)
  then show ?thesis by simp
qed

lemma chunk_index: "v < length xs \<Longrightarrow> v mod 256 < length (chunk (v div 256) xs)"
proof -
  assume "v < length xs"
  moreover have "v = 256 * (v div 256) + v mod 256" "v mod 256 < 256" by simp_all
  ultimately have "v mod 256 < 256 \<and> v mod 256 < length xs - 256 * (v div 256)" by linarith
  then show ?thesis by (simp only: chunk_def length_take length_drop min_less_iff_conj)
qed

lemma chunk_update:
  "chunk k (xs[v := x]) = (if k = v div 256 then (chunk k xs)[v mod 256 := x] else chunk k xs)"
proof (cases "k = v div 256")
  case True
  have "v - 256 * (v div 256) = v mod 256" by (simp add: minus_mult_div_eq_mod)
  moreover have "\<not> v < 256 * (v div 256)" using div_mult_mod_eq [of v 256] by linarith
  ultimately show ?thesis using True by (simp add: chunk_def drop_update_swap take_update_swap)
next
  case False
  then consider "v < 256 * k" | "256 * Suc k \<le> v"
    using div_mult_mod_eq [of v 256] mod_less_divisor [of 256 v] by (cases "v div 256 < k") force+
  then show ?thesis
  proof cases
    case 1
    then show ?thesis using False by (simp add: chunk_def drop_update_cancel)
  next
    case 2
    then have "v - 256 * k \<ge> 256" by simp
    then show ?thesis using 2 False by (simp add: chunk_def drop_update_swap take_update_cancel)
  qed
qed

lemma chunk_append: "256 * Suc k \<le> length xs \<Longrightarrow> chunk k (xs @ ys) = chunk k xs"
  by (simp add: chunk_def)

lemma chunk_append_new: "length xs = 256 * k \<Longrightarrow> length ys \<le> 256 \<Longrightarrow> chunk k (xs @ ys) = ys"
  by (simp add: chunk_def)

text \<open>The last chunk of a list grows by one.\<close>

lemma chunk_snoc:
  "chunk k (xs @ [x]) = (if k = length xs div 256 then chunk k xs @ [x] else chunk k xs)"
proof -
  have v: "256 * (length xs div 256) + length xs mod 256 = length xs" "length xs mod 256 < 256" by simp_all
  consider "k = length xs div 256" | "k < length xs div 256" | "length xs div 256 < k" by linarith
  then show ?thesis
  proof cases
    case 1
    then have "256 * k \<le> length xs" "length xs - 256 * k < 256" using v by linarith+
    then show ?thesis using 1 by (simp add: chunk_def)
  next
    case 2
    then have "256 * Suc k \<le> 256 * (length xs div 256)" by simp
    then have "256 * Suc k \<le> length xs" using v(1) by linarith
    then show ?thesis using 2 by (simp add: chunk_append)
  next
    case 3
    then have "256 * Suc (length xs div 256) \<le> 256 * k" by simp
    then have "length xs + 1 \<le> 256 * k" using v by simp
    then show ?thesis using 3 by (simp add: chunk_def)
  qed
qed

section \<open>Words of the index\<close>

lemma handle_level_words:
  "unat (PH_HANDLE_VALUE_LEVEL0 v) = unat v mod 256" "unat (PH_HANDLE_VALUE_LEVEL1_U v) = unat v div 256"
  "unat (PH_HANDLE_VALUE_LEVEL1 v) = unat v div 256 mod 256" "unat (PH_HANDLE_VALUE_LEVEL2_U v) = unat v div 65536"
proof -
  have mask: "unat (x AND 0xff :: ulong) = unat x mod 256" for x
  proof -
    have "x AND 0xff = x mod 256"
      using take_bit_eq_mask [of 8 x] take_bit_eq_mod [of 8 x] by (simp add: mask_eq_exp_minus_1)
    then show ?thesis by (simp add: unat_mod)
  qed
  show "unat (PH_HANDLE_VALUE_LEVEL0 v) = unat v mod 256" "unat (PH_HANDLE_VALUE_LEVEL1_U v) = unat v div 256"
    "unat (PH_HANDLE_VALUE_LEVEL1 v) = unat v div 256 mod 256" "unat (PH_HANDLE_VALUE_LEVEL2_U v) = unat v div 65536"
    by (simp_all add: handle_consts mask drop_bit_eq_div unat_div)
qed

section \<open>Addresses of tables\<close>

lemma level_bits:
  assumes "a AND 3 = (0 :: ulong64)" "n < 4"
  shows "(a OR n) AND 3 = n" "(a OR n) - n = a"
proof -
  have n: "n AND 3 = n"
  proof -
    have "n AND 3 = n mod 4" using take_bit_eq_mask [of 2 n] take_bit_eq_mod [of 2 n] by (simp add: mask_eq_exp_minus_1)
    moreover have "unat n mod 4 = unat n" using assms(2) by (simp add: word_less_nat_alt)
    then have "unat (n mod 4) = unat n" by (simp add: unat_mod)
    ultimately show ?thesis by (simp add: word_unat_eq_iff)
  qed
  show "(a OR n) AND 3 = n" by (simp add: bit.conj_disj_distrib2 assms(1) n)
  have "\<not> bit a i \<or> \<not> bit n i" for i
  proof -
    have "bit (a AND 3) i = False" using assms(1) by simp
    moreover have "bit (n AND 3) i = bit n i" using n by simp
    ultimately show ?thesis by (auto simp: bit_and_iff)
  qed
  then have "a + n = a OR n" by (rule disjunctive_add)
  then show "(a OR n) - n = a" by (metis add_diff_cancel_right')
qed

section \<open>Shape\<close>

text \<open>
  The pointers: \<open>ts\<close> are the level 0 tables in order, \<open>us\<close> the level 1 tables below a level 2
  table, \<open>root\<close> the table that the table value points to.
\<close>

definition index_shape :: "table_heap \<Rightarrow> ulong64 \<Rightarrow> ulong64 \<Rightarrow> ulong64 list \<Rightarrow> ulong64 list \<Rightarrow> bool" where
  "index_shape H lvl root ts us \<longleftrightarrow>
     lvl = 0 \<and> ts = [root] \<and> us = []
   \<or> lvl = 1 \<and> 1 < length ts \<and> length ts \<le> 256 \<and> us = [] \<and> H root = Some (Pointers (padded ts))
   \<or> lvl = 2 \<and> 256 < length ts \<and> length ts \<le> 65536 \<and> length us = (length ts + 255) div 256
     \<and> root \<notin> set us \<and> H root = Some (Pointers (padded us))
     \<and> (\<forall>j < length us. H (us ! j) = Some (Pointers (padded (chunk j ts))))"

definition tables_of :: "ulong64 \<Rightarrow> ulong64 list \<Rightarrow> ulong64 list \<Rightarrow> ulong64 set" where
  "tables_of root ts us = insert root (set ts \<union> set us)"

text \<open>\<open>F\<close> is the memory that is not the table's.\<close>

definition table_repr :: "handle_table \<Rightarrow> ulong64 \<Rightarrow> ulong64 list \<Rightarrow> ulong64 list \<Rightarrow> handle_entry list \<Rightarrow> table_heap \<Rightarrow> bool" where
  "table_repr T root ts us E F \<longleftrightarrow>
     (\<exists>lvl < 4. TableValue T = root OR lvl \<and> index_shape (Tables T) lvl root ts us)
   \<and> length E = 256 * length ts
   \<and> (\<forall>k < length ts. Tables T (ts ! k) = Some (Entries (chunk k E)))
   \<and> distinct ts \<and> distinct us
   \<and> (\<forall>a \<in> tables_of root ts us. a \<noteq> 0 \<and> a AND 3 = 0)
   \<and> (\<forall>a. a \<notin> tables_of root ts us \<longrightarrow> Tables T a = F a) \<and> (\<forall>a \<in> tables_of root ts us. F a = None)"

definition slot :: "ulong64 list \<Rightarrow> nat \<Rightarrow> entry_ptr" where
  "slot ts v = (ts ! (v div 256), v mod 256)"

lemma shape_length: "index_shape H lvl root ts us \<Longrightarrow> 0 < length ts \<and> length ts \<le> 65536 \<and> length us \<le> 256"
  by (auto simp: index_shape_def)

lemma repr_level:
  assumes "table_repr T root ts us E F"
  shows "index_shape (Tables T) (table_level T) root ts us" "table_address T = root" "TableValue T = root OR table_level T"
    "table_level T < 4"
proof -
  obtain lvl where lvl: "lvl < 4" "TableValue T = root OR lvl" "index_shape (Tables T) lvl root ts us"
    using assms by (auto simp: table_repr_def)
  have "root AND 3 = 0" using assms by (simp add: table_repr_def tables_of_def)
  note bits = level_bits [OF this lvl(1)]
  have "table_level T = lvl" using bits(1) lvl(2) by (simp add: table_level_def handle_consts)
  then show "index_shape (Tables T) (table_level T) root ts us" "table_address T = root" "TableValue T = root OR table_level T"
    "table_level T < 4"
    using lvl bits(2) by (simp_all add: table_address_def)
qed

lemma repr_bounds:
  assumes "table_repr T root ts us E F"
  shows "0 < length ts" "length ts \<le> 65536" "length E = 256 * length ts" "length E \<le> 2 ^ 24" "length us \<le> 256"
  using assms shape_length [OF repr_level(1) [OF assms]] by (auto simp: table_repr_def)

lemma repr_slot: "table_repr T root ts us E F \<Longrightarrow> v < length E \<Longrightarrow> v div 256 < length ts"
  using repr_bounds(3) [of T root ts us E F] by (simp add: less_mult_imp_div_less mult.commute)

section \<open>Looking up, reading and writing an entry\<close>

lemma lookup_entry:
  assumes repr: "table_repr T root ts us E F" and n: "NextValue T = of_nat (length E)"
  shows "PhpLookupHandleTableEntry T v = Some (if unat v < length E then Some (slot ts (unat v)) else None)"
proof -
  have "unat (NextValue T) = length E"
    unfolding n using repr_bounds(4) [OF repr] by (intro unat_of_nat_ulong) simp
  then have less: "v \<ge> NextValue T \<longleftrightarrow> \<not> unat v < length E" by (simp add: word_le_nat_alt not_less)
  show ?thesis
  proof (cases "unat v < length E")
    case False
    then show ?thesis using less by (simp add: PhpLookupHandleTableEntry_def)
  next
    case True
    have k: "unat v div 256 < length ts" by (rule repr_slot [OF repr True])
    note lv = repr_level(1,2) [OF repr]
    consider "table_level T = 0" "ts = [root]"
      | "table_level T = 1" "length ts \<le> 256" "Tables T root = Some (Pointers (padded ts))"
      | "table_level T = 2" "length ts \<le> 65536" "length us = (length ts + 255) div 256" "Tables T root = Some (Pointers (padded us))"
        "\<forall>j < length us. Tables T (us ! j) = Some (Pointers (padded (chunk j ts)))"
      using lv(1) by (auto simp: index_shape_def)
    then show ?thesis
    proof cases
      case 1
      then show ?thesis using True less k lv(2) by (simp add: PhpLookupHandleTableEntry_def slot_def)
    next
      case 2
      have "read_pointer T root (unat v div 256) = Some (ts ! (unat v div 256))"
        using 2(2,3) k by (simp add: read_pointer_def length_padded padded_nth)
      then show ?thesis
        using True less lv(2) 2(1) by (simp add: PhpLookupHandleTableEntry_def handle_level_words slot_def)
    next
      case 3
      let ?k = "unat v div 256"
      have j: "?k div 256 < length us" using k 3(3) by linarith
      have jk: "unat v div 65536 = ?k div 256" by (simp add: div_mult2_eq [symmetric])
      have us: "length us \<le> 256" using 3(2,3) by linarith
      have "read_pointer T root (?k div 256) = Some (us ! (?k div 256))"
        using 3(4) j us by (simp add: read_pointer_def length_padded padded_nth)
      moreover have "read_pointer T (us ! (?k div 256)) (?k mod 256) = Some (ts ! ?k)"
        using 3(5) j chunk_index [OF k] chunk_nth [OF k]
        by (simp add: read_pointer_def length_padded length_chunk_le padded_nth)
      ultimately show ?thesis
        using True less lv(2) 3(1) by (simp add: PhpLookupHandleTableEntry_def handle_level_words slot_def jk)
    qed
  qed
qed

lemma repr_block:
  "table_repr T root ts us E F \<Longrightarrow> v < length E \<Longrightarrow> Tables T (ts ! (v div 256)) = Some (Entries (chunk (v div 256) E))"
  using repr_slot [of T root ts us E F v] by (simp add: table_repr_def)

lemma read_slot: "table_repr T root ts us E F \<Longrightarrow> v < length E \<Longrightarrow> read_entry T (slot ts v) = Some (E ! v)"
  using repr_block [of T root ts us E F v] chunk_index [of v E] chunk_nth [of v E] by (simp add: slot_def)

lemma index_shape_cong:
  assumes "index_shape H lvl root ts us" "\<And>a ps. H a = Some (Pointers ps) \<Longrightarrow> H' a = Some (Pointers ps)"
  shows "index_shape H' lvl root ts us"
  using assms unfolding index_shape_def by meson

lemma write_slot:
  assumes repr: "table_repr T root ts us E F" and v: "v < length E"
  shows "\<exists>H. write_entry (slot ts v) f T = Some (T\<lparr>Tables := H\<rparr>) \<and> table_repr (T\<lparr>Tables := H\<rparr>) root ts us (E[v := f (E ! v)]) F"
proof -
  let ?a = "ts ! (v div 256)" and ?es = "(chunk (v div 256) E)[v mod 256 := f (E ! v)]"
  let ?H = "(Tables T)(?a \<mapsto> Entries ?es)"
  note k = repr_slot [OF repr v] and b = repr_block [OF repr v]
  have w: "write_entry (slot ts v) f T = Some (T\<lparr>Tables := ?H\<rparr>)"
    using b chunk_index [OF v] chunk_nth [OF v] by (simp add: slot_def)
  have "index_shape ?H (table_level T) root ts us"
    by (rule index_shape_cong [OF repr_level(1) [OF repr]]) (use b in auto)
  then have shape: "\<exists>lvl < 4. TableValue T = root OR lvl \<and> index_shape ?H lvl root ts us"
    using repr_level(3,4) [OF repr] by blast
  have d: "distinct ts" using repr by (simp add: table_repr_def)
  have blocks: "?H (ts ! j) = Some (Entries (chunk j (E[v := f (E ! v)])))" if "j < length ts" for j
    using that k d repr by (auto simp: chunk_update table_repr_def nth_eq_iff_index_eq)
  have a: "?a \<in> tables_of root ts us" using k by (simp add: tables_of_def)
  have "table_repr (T\<lparr>Tables := ?H\<rparr>) root ts us (E[v := f (E ! v)]) F"
    using shape blocks a repr unfolding table_repr_def by auto
  then show ?thesis using w by blast
qed

end
