(* ===== verification/HandleGrow.thy ===== *)
theory HandleGrow
  imports HandleWf
begin

text \<open>
  Expanding a handle table: a new level 0 table is appended to what the table represents, whatever
  the level, or the memory is as it was before.
\<close>

unbundle bit_operations_syntax

text \<open>An allocator returns unused, aligned memory, or fails.\<close>

definition safe_alloc :: "table_alloc \<Rightarrow> bool" where
  "safe_alloc alloc \<longleftrightarrow>
     (\<forall>H a es. alloc H = Some (a, es) \<longrightarrow> a \<noteq> 0 \<and> a AND 3 = 0 \<and> H a = None \<and> length es = 256)"

lemma safe_allocD:
  "safe_alloc alloc \<Longrightarrow> alloc H = Some (a, es) \<Longrightarrow> a \<noteq> 0 \<and> a AND 3 = 0 \<and> H a = None \<and> length es = 256"
  by (simp add: safe_alloc_def)

section \<open>New entries\<close>

lemma next_free_simps [simp]:
  "NextFreeValue (set_NextFreeValue v e) = v" "EntryValue (set_NextFreeValue v e) = EntryValue e"
  "EntryValue (set_NextFreeValue v (e\<lparr>EntryValue := x\<rparr>)) = x"
proof -
  have "bit (ucast ((w AND NOT 0xffffffff) OR ucast v :: ulong64) :: ulong) n = bit v n" for w n
  proof (cases "n < 32")
    case True
    have "bit (mask 32 :: ulong64) n" using True by (simp add: bit_mask_iff)
    then have "bit (ucast ((w AND NOT (mask 32)) OR ucast v :: ulong64) :: ulong) n = bit v n"
      using True by (simp add: bit_ucast_iff bit_or_iff bit_and_iff bit_not_iff)
    then show ?thesis by (simp add: mask_eq_exp_minus_1)
  next
    case False
    then show ?thesis using bit_imp_le_length by force
  qed
  then show "NextFreeValue (set_NextFreeValue v e) = v"
    by (simp add: NextFreeValue_def set_NextFreeValue_def bit_eq_iff)
qed (simp_all add: set_NextFreeValue_def)

lemma set_next_same: "NextFreeValue e = v \<Longrightarrow> set_NextFreeValue v e = e"
proof -
  assume v: "NextFreeValue e = v"
  have "(w AND NOT (mask 32)) OR ucast (ucast w :: ulong) = w" for w :: ulong64
    by (rule bit_word_eqI) (auto simp: bit_or_iff bit_and_iff bit_not_iff bit_mask_iff bit_ucast_iff)
  then show ?thesis using v [symmetric] by (simp add: set_NextFreeValue_def NextFreeValue_def mask_eq_exp_minus_1)
qed

definition new_entries :: "nat \<Rightarrow> handle_entry list \<Rightarrow> bool" where
  "new_entries b es \<longleftrightarrow> length es = 256 \<and> (\<forall>j < 256. EntryValue (es ! j) = 1)
     \<and> (\<forall>j < 255. NextFreeValue (es ! j) = of_nat (b + 1 + j)) \<and> NextFreeValue (es ! 255) = -1"

lemma init_loop:
  "Tables T a = Some (Entries es) \<Longrightarrow> length es = 256 \<Longrightarrow> k \<le> 255 \<Longrightarrow> b + 256 < 2 ^ 32 \<Longrightarrow>
   \<exists>es'. init_entries a (of_nat (b + 1 + k)) (of_nat (b + 256)) k T = Some (255, T\<lparr>Tables := (Tables T)(a \<mapsto> Entries es')\<rparr>)
     \<and> length es' = 256 \<and> (\<forall>j < k. es' ! j = es ! j)
     \<and> (\<forall>j. k \<le> j \<and> j < 255 \<longrightarrow> EntryValue (es' ! j) = 1 \<and> NextFreeValue (es' ! j) = of_nat (b + 1 + j))"
proof (induction "255 - k" arbitrary: k T es)
  case 0
  then have k: "k = 255" "b + 1 + k = b + 256" by simp_all
  have "Tables T = (Tables T)(a \<mapsto> Entries es)" using "0.prems"(1) by (simp add: fun_upd_idem)
  then have "init_entries a (of_nat (b + 1 + k)) (of_nat (b + 256)) k T = Some (255, T\<lparr>Tables := (Tables T)(a \<mapsto> Entries es)\<rparr>)"
    unfolding k(2) by (subst init_entries.simps) (simp add: k(1))
  then show ?case using "0.prems"(2) k(1) by (intro exI [of _ es]) (auto simp: fun_upd_def)
next
  case (Suc d)
  have k: "k < 255" "d = 255 - Suc k" using Suc.hyps(2) by simp_all
  let ?i = "of_nat (b + 1 + k) :: ulong" and ?stop = "of_nat (b + 256) :: ulong"
  have "b + 1 + k < 2 ^ 32" using k Suc.prems(4) by simp
  then have i: "unat ?i = b + 1 + k" "unat ?stop = b + 256" using Suc.prems(4) by (simp_all only: unat_of_nat_ulong)
  let ?es = "es[k := set_NextFreeValue ?i ((es ! k)\<lparr>EntryValue := 1\<rparr>)]"
  let ?T = "T\<lparr>Tables := (Tables T)(a \<mapsto> Entries ?es)\<rparr>"
  have "?i < ?stop" using i k by (simp only: word_less_nat_alt)
  moreover have next_i: "?i + 1 = of_nat (b + 1 + Suc k)" by simp
  ultimately have step: "init_entries a ?i ?stop k T = init_entries a (of_nat (b + 1 + Suc k)) ?stop (Suc k) ?T"
    using k Suc.prems(1,2) by (subst init_entries.simps) (simp add: handle_consts del: of_nat_Suc of_nat_add)
  obtain es' where es': "init_entries a (of_nat (b + 1 + Suc k)) ?stop (Suc k) ?T
      = Some (255, ?T\<lparr>Tables := (Tables ?T)(a \<mapsto> Entries es')\<rparr>)" "length es' = 256" "\<forall>j < Suc k. es' ! j = ?es ! j"
    "\<forall>j. Suc k \<le> j \<and> j < 255 \<longrightarrow> EntryValue (es' ! j) = 1 \<and> NextFreeValue (es' ! j) = of_nat (b + 1 + j)"
    using Suc.hyps(1) [OF k(2), of ?T ?es] Suc.prems(2,4) k(1) by auto
  have "EntryValue (es' ! j) = 1 \<and> NextFreeValue (es' ! j) = of_nat (b + 1 + j)" if "k \<le> j" "j < 255" for j
  proof (cases "j = k")
    case True
    then show ?thesis using es'(3) Suc.prems(2) k by simp
  next
    case False
    then show ?thesis using es'(4) that by simp
  qed
  moreover have "\<forall>j < k. es' ! j = es ! j" using es'(3) k by simp
  ultimately show ?case unfolding step es'(1) using es'(2) by auto
qed

lemma create_level0:
  assumes "safe_alloc alloc" "NextValue T = of_nat b" "b + 256 < 2 ^ 32"
  shows "PhpCreateHandleTableLevel0 alloc T True = Some (0, T) \<and> alloc (Tables T) = None
    \<or> (\<exists>a es. PhpCreateHandleTableLevel0 alloc T True = Some (a, T\<lparr>Tables := (Tables T)(a \<mapsto> Entries es)\<rparr>)
        \<and> new_entries b es \<and> a \<noteq> 0 \<and> a AND 3 = 0 \<and> Tables T a = None)"
proof (cases "alloc (Tables T)")
  case None
  then show ?thesis by (simp add: PhpCreateHandleTableLevel0_def)
next
  case (Some p)
  obtain a es where p: "p = (a, es)" by (cases p)
  have a: "a \<noteq> 0" "a AND 3 = 0" "Tables T a = None" "length es = 256"
    using safe_allocD [OF assms(1)] Some p by blast+
  let ?T = "T\<lparr>Tables := (Tables T)(a \<mapsto> Entries es)\<rparr>"
  obtain es' where es': "init_entries a (of_nat (b + 1 + 0)) (of_nat (b + 256)) 0 ?T
      = Some (255, ?T\<lparr>Tables := (Tables ?T)(a \<mapsto> Entries es')\<rparr>)" "length es' = 256"
    "\<forall>j. 0 \<le> j \<and> j < 255 \<longrightarrow> EntryValue (es' ! j) = 1 \<and> NextFreeValue (es' ! j) = of_nat (b + 1 + j)"
    using init_loop [of ?T a es 0 b] a(4) assms(3) by auto
  let ?es = "es'[255 := set_NextFreeValue (-1) ((es' ! 255)\<lparr>EntryValue := 1\<rparr>)]"
  have base: "NextValue T + 1 = of_nat (b + 1 + 0)" "NextValue T + 256 = of_nat (b + 256)" using assms(2) by simp_all
  have "PhpCreateHandleTableLevel0 alloc T True = Some (a, T\<lparr>Tables := (Tables T)(a \<mapsto> Entries ?es)\<rparr>)"
    using Some p es'(1,2)
    by (simp add: PhpCreateHandleTableLevel0_def Let_def handle_consts PH_HANDLE_VALUE_INVALID_def base del: of_nat_add add_0_right)
  moreover have "new_entries b ?es"
    using es'(2,3) by (auto simp: new_entries_def nth_list_update)
  ultimately show ?thesis using a by blast
qed

lemma create_pointers_cases:
  assumes "safe_alloc alloc"
  obtains (fail) "create_pointers alloc T = (0, T)" "alloc (Tables T) = None"
    | (ok) a where "create_pointers alloc T = (a, T\<lparr>Tables := (Tables T)(a \<mapsto> Pointers (padded []))\<rparr>)"
        "a \<noteq> 0" "a AND 3 = 0" "Tables T a = None"
proof (cases "alloc (Tables T)")
  case None
  then show thesis using fail by (simp add: create_pointers_def)
next
  case (Some p)
  then show thesis
    using ok [of "fst p"] safe_allocD [OF assms, of "Tables T" "fst p" "snd p"]
    by (auto simp: create_pointers_def padded_def handle_consts split: prod.splits)
qed

lemma write_pointer_Some:
  "Tables T a = Some (Pointers (padded ps)) \<Longrightarrow> length ps < 256 \<Longrightarrow>
   write_pointer a (length ps) p T = Some (T\<lparr>Tables := (Tables T)(a \<mapsto> Pointers (padded (ps @ [p])))\<rparr>)"
  by (simp add: write_pointer_def length_padded padded_snoc)

section \<open>Appending a table\<close>

lemma repr_extend:
  assumes repr: "table_repr T root ts us E F" and es: "length es = 256" "H t = Some (Entries es)"
    and old: "t \<notin> set ts" "\<And>a. a \<in> set ts \<Longrightarrow> H a = Tables T a"
    and shape: "index_shape H lvl root' (ts @ [t]) us'" "lvl < 4" "distinct us'"
    and sub: "tables_of root ts us \<subseteq> tables_of root' (ts @ [t]) us'"
    and new: "\<And>a. a \<in> tables_of root' (ts @ [t]) us' \<Longrightarrow> a \<notin> tables_of root ts us \<Longrightarrow> a \<noteq> 0 \<and> a AND 3 = 0 \<and> Tables T a = None"
    and out: "\<And>a. a \<notin> tables_of root' (ts @ [t]) us' \<Longrightarrow> H a = Tables T a"
  shows "table_repr (T\<lparr>TableValue := root' OR lvl, Tables := H\<rparr>) root' (ts @ [t]) us' (E @ es) F"
proof -
  note n = repr_bounds(3) [OF repr]
  have blocks: "H ((ts @ [t]) ! k) = Some (Entries (chunk k (E @ es)))" if "k < length (ts @ [t])" for k
  proof (cases "k = length ts")
    case True
    then show ?thesis using es n by (simp add: chunk_append_new)
  next
    case False
    then have k: "k < length ts" using that by simp
    then have "256 * Suc k \<le> length E" using n by simp
    then show ?thesis using k old(2) repr by (simp add: nth_append chunk_append table_repr_def)
  qed
  have own: "a \<noteq> 0 \<and> a AND 3 = 0 \<and> F a = None" if "a \<in> tables_of root' (ts @ [t]) us'" for a
    using that new [OF that] repr by (cases "a \<in> tables_of root ts us") (auto simp: table_repr_def)
  have frame: "H a = F a" if "a \<notin> tables_of root' (ts @ [t]) us'" for a
    using that out sub repr by (auto simp: table_repr_def)
  show ?thesis
    unfolding table_repr_def
    using shape es n blocks own frame old(1) repr by (auto simp: table_repr_def simp del: append_assoc)
qed

text \<open>
  The outcome of expanding: nothing but failure, or one more level 0 table of free entries.
\<close>

definition grown :: "handle_table \<Rightarrow> ulong64 list \<Rightarrow> handle_entry list \<Rightarrow> table_heap \<Rightarrow> ulong64 \<Rightarrow> handle_table \<Rightarrow> bool" where
  "grown T ts E F t T' \<longleftrightarrow>
     (\<exists>tv H root us es. T' = T\<lparr>TableValue := tv, Tables := H\<rparr> \<and> t \<noteq> 0
        \<and> table_repr T' root (ts @ [t]) us (E @ es) F \<and> new_entries (length E) es)"

text \<open>Expanding fails when an allocation does, with at most two more blocks in use.\<close>

definition alloc_fails :: "table_alloc \<Rightarrow> handle_table \<Rightarrow> bool" where
  "alloc_fails alloc T \<longleftrightarrow> (\<exists>H a b. alloc H = None \<and> dom H \<subseteq> insert a (insert b (dom (Tables T))))"

lemma alloc_failsI:
  "alloc (Tables T') = None \<Longrightarrow> dom (Tables T') \<subseteq> insert a (insert b (dom (Tables T))) \<Longrightarrow> alloc_fails alloc T"
  by (auto simp: alloc_fails_def)

lemma grownI:
  assumes "table_repr T root ts us E F" "new_entries (length E) es" "H t = Some (Entries es)" "t \<notin> set ts"
    and "\<And>a. a \<in> set ts \<Longrightarrow> H a = Tables T a"
    and "index_shape H lvl root' (ts @ [t]) us'" "lvl < 4" "distinct us'"
    and "tables_of root ts us \<subseteq> tables_of root' (ts @ [t]) us'"
    and "\<And>a. a \<in> tables_of root' (ts @ [t]) us' \<Longrightarrow> a \<notin> tables_of root ts us \<Longrightarrow> a \<noteq> 0 \<and> a AND 3 = 0 \<and> Tables T a = None"
    and "\<And>a. a \<notin> tables_of root' (ts @ [t]) us' \<Longrightarrow> H a = Tables T a" "t \<noteq> 0"
    and "T' = T\<lparr>TableValue := root' OR lvl, Tables := H\<rparr>"
  shows "grown T ts E F t T'"
proof -
  have "length es = 256" using assms(2) by (simp add: new_entries_def)
  then have "table_repr (T\<lparr>TableValue := root' OR lvl, Tables := H\<rparr>) root' (ts @ [t]) us' (E @ es) F"
    by (rule repr_extend [OF assms(1) _ assms(3-11)])
  then show ?thesis unfolding grown_def assms(13) using assms(2,12) by blast
qed

lemma table_heap_upds:
  "T\<lparr>Tables := H\<rparr>\<lparr>Tables := H'\<rparr> = T\<lparr>Tables := H'\<rparr>" "TableValue (T\<lparr>Tables := H\<rparr>) = TableValue T"
  by simp_all

lemma free_again: "Tables T a = None \<Longrightarrow> free_table a (T\<lparr>Tables := (Tables T)(a \<mapsto> b)\<rparr>) = Some T"
  by (simp add: free_table_def fun_upd_idem)

lemma repr_unused:
  "table_repr T root ts us E F \<Longrightarrow> Tables T a = None \<Longrightarrow> a \<notin> set ts"
  by (auto simp: table_repr_def in_set_conv_nth)

lemma grow0:
  assumes repr: "table_repr T root ts us E F" and n: "NextValue T = of_nat (length E)" and lvl: "table_level T = 0"
    and alloc: "safe_alloc alloc"
  shows "grow_level0 alloc T True = Some (0, T) \<and> alloc_fails alloc T \<or> (\<exists>t T'. grow_level0 alloc T True = Some (t, T') \<and> grown T ts E F t T')"
  using alloc
proof (cases rule: create_pointers_cases [of alloc T])
  case fail
  then show ?thesis
    using alloc_failsI [of alloc T 0 0 T] by (auto simp: grow_level0_def PhpCreateHandleTableLevel1_def)
next
  case (ok p)
  have ts: "ts = [root]" "us = []" using repr_level(1) [OF repr] lvl by (auto simp: index_shape_def)
  let ?T = "T\<lparr>Tables := (Tables T)(p \<mapsto> Pointers (padded []))\<rparr>"
  have small: "length E + 256 < 2 ^ 32" using repr_bounds(4) [OF repr] by simp
  have n': "NextValue ?T = of_nat (length E)" using n by simp
  have root: "table_address T = root" using repr_level(2) [OF repr] .
  consider "PhpCreateHandleTableLevel0 alloc ?T True = Some (0, ?T)" "alloc (Tables ?T) = None"
    | t es where "PhpCreateHandleTableLevel0 alloc ?T True = Some (t, ?T\<lparr>Tables := (Tables ?T)(t \<mapsto> Entries es)\<rparr>)"
        "new_entries (length E) es" "t \<noteq> 0" "t AND 3 = 0" "Tables ?T t = None"
    using create_level0 [OF alloc n' small] by (elim disjE exE conjE) (rule that; assumption)+
  then show ?thesis
  proof cases
    case 1
    then show ?thesis
      using ok alloc_failsI [of alloc, OF 1(2), of p 0 T]
      by (auto simp: grow_level0_def PhpCreateHandleTableLevel1_def PhpFreeHandleTableLevel1_def free_again)
  next
    case 2
    have t: "t \<noteq> p" "Tables T t = None" using 2(5) by (auto split: if_splits)
    let ?H = "(Tables T)(p \<mapsto> Pointers (padded [root, t]), t \<mapsto> Entries es)"
    have "grow_level0 alloc T True = Some (t, T\<lparr>TableValue := p OR 1, Tables := ?H\<rparr>)"
      using ok 2 t write_pointer_Some [of "?T\<lparr>Tables := (Tables ?T)(t \<mapsto> Entries es)\<rparr>" p "[]" root]
        write_pointer_Some [of "?T\<lparr>Tables := (Tables ?T)(t \<mapsto> Entries es, p \<mapsto> Pointers (padded [root]))\<rparr>" p "[root]" t]
      by (simp add: grow_level0_def PhpCreateHandleTableLevel1_def root fun_upd_twist)
    moreover have "grown T ts E F t (T\<lparr>TableValue := p OR 1, Tables := ?H\<rparr>)"
    proof (rule grownI [OF repr 2(2), where us' = "[]"])
      show "index_shape ?H 1 p (ts @ [t]) []" using t by (simp add: index_shape_def ts)
      show "t \<notin> set ts" by (rule repr_unused [OF repr t(2)])
      have p: "p \<notin> set ts" by (rule repr_unused [OF repr ok(4)])
      show "?H a = Tables T a" if "a \<in> set ts" for a using that p \<open>t \<notin> set ts\<close> by auto
      show "a \<noteq> 0 \<and> a AND 3 = 0 \<and> Tables T a = None" if "a \<in> tables_of p (ts @ [t]) []" "a \<notin> tables_of root ts us" for a
        using that ok 2 t by (auto simp: tables_of_def)
      show "tables_of root ts us \<subseteq> tables_of p (ts @ [t]) []" by (auto simp: tables_of_def ts)
    qed (use 2 ts in \<open>auto simp: tables_of_def word_less_nat_alt\<close>)
    ultimately show ?thesis by blast
  qed
qed

lemma next_table_index:
  assumes "table_repr T root ts us E F" "NextValue T = of_nat (length E)"
  shows "unat (NextValue T) = length E" "unat (NextValue T div PH_HANDLE_TABLE_LEVEL_ENTRIES) = length ts"
    "NextValue T div PH_HANDLE_TABLE_LEVEL_ENTRIES < PH_HANDLE_TABLE_LEVEL_ENTRIES \<longleftrightarrow> length ts < 256"
    "unat (NextValue T div (PH_HANDLE_TABLE_LEVEL_ENTRIES * PH_HANDLE_TABLE_LEVEL_ENTRIES)) = length ts div 256"
proof -
  note n = repr_bounds(3,4) [OF assms(1)]
  show u: "unat (NextValue T) = length E" unfolding assms(2) using n(2) by (intro unat_of_nat_ulong) simp
  show d: "unat (NextValue T div PH_HANDLE_TABLE_LEVEL_ENTRIES) = length ts"
    by (simp add: unat_div u n(1) handle_consts)
  show "NextValue T div PH_HANDLE_TABLE_LEVEL_ENTRIES < PH_HANDLE_TABLE_LEVEL_ENTRIES \<longleftrightarrow> length ts < 256"
    unfolding word_less_nat_alt d by (simp add: handle_consts)
  have "256 * length ts div 65536 = length ts div 256" by simp
  then show "unat (NextValue T div (PH_HANDLE_TABLE_LEVEL_ENTRIES * PH_HANDLE_TABLE_LEVEL_ENTRIES)) = length ts div 256"
    by (simp add: unat_div u n(1) handle_consts)
qed

text \<open>The new level 0 table, in a memory to which tables of pointers have been added.\<close>

lemma level0_cases:
  assumes "safe_alloc alloc" "table_repr T root ts us E F" "NextValue T = of_nat (length E)" "NextValue T' = NextValue T"
  obtains (fail) "PhpCreateHandleTableLevel0 alloc T' True = Some (0, T')" "alloc (Tables T') = None"
    | (ok) t es where "PhpCreateHandleTableLevel0 alloc T' True = Some (t, T'\<lparr>Tables := (Tables T')(t \<mapsto> Entries es)\<rparr>)"
        "new_entries (length E) es" "t \<noteq> 0" "t AND 3 = 0" "Tables T' t = None"
proof -
  have "length E + 256 < 2 ^ 32" using repr_bounds(4) [OF assms(2)] by simp
  then show thesis using create_level0 [OF assms(1), of T' "length E"] assms(3,4) fail ok by auto
qed

lemma own_block:
  assumes "table_repr T root ts us E F" "a \<in> tables_of root ts us"
  shows "\<exists>b. Tables T a = Some b"
proof -
  have "index_shape (Tables T) (table_level T) root ts us" by (rule repr_level(1) [OF assms(1)])
  then have "a \<in> set ts \<or> (\<exists>ps. Tables T a = Some (Pointers ps))"
    using assms(2) by (auto simp: index_shape_def tables_of_def in_set_conv_nth)
  then show ?thesis using assms(1) by (auto simp: table_repr_def in_set_conv_nth)
qed

lemma not_entries:
  "table_repr T root ts us E F \<Longrightarrow> Tables T a = Some (Pointers ps) \<Longrightarrow> a \<notin> set ts"
  by (auto simp: table_repr_def in_set_conv_nth)

text \<open>Another entry of the only table of pointers.\<close>

lemma grow1_room:
  assumes repr: "table_repr T root ts us E F" and n: "NextValue T = of_nat (length E)" and lvl: "table_level T = 1"
    and alloc: "safe_alloc alloc" and room: "length ts < 256"
  shows "grow_level1 alloc T True = Some (0, T) \<and> alloc_fails alloc T \<or> (\<exists>t T'. grow_level1 alloc T True = Some (t, T') \<and> grown T ts E F t T')"
proof -
  note idx = next_table_index [OF repr n]
  have root: "table_address T = root" "TableValue T = root OR 1" using repr_level(2,3) [OF repr] lvl by simp_all
  have ts: "us = []" "Tables T root = Some (Pointers (padded ts))" "1 < length ts"
    using repr_level(1) [OF repr] lvl by (auto simp: index_shape_def)
  show ?thesis
  proof (rule level0_cases [OF alloc repr n refl])
    assume none: "PhpCreateHandleTableLevel0 alloc T True = Some (0, T)" "alloc (Tables T) = None"
    then show ?thesis using idx room alloc_failsI [of alloc, OF none(2), of 0 0 T] by (auto simp: grow_level1_def)
  next
    fix t es
    assume t: "PhpCreateHandleTableLevel0 alloc T True = Some (t, T\<lparr>Tables := (Tables T)(t \<mapsto> Entries es)\<rparr>)"
      "new_entries (length E) es" "t \<noteq> 0" "t AND 3 = 0" "Tables T t = None"
    have d: "t \<noteq> root" "t \<notin> set ts" "root \<notin> set ts"
      using t(5) ts(2) repr_unused [OF repr] not_entries [OF repr] by auto
    let ?H = "(Tables T)(t \<mapsto> Entries es, root \<mapsto> Pointers (padded (ts @ [t])))"
    have "grow_level1 alloc T True = Some (t, T\<lparr>TableValue := root OR 1, Tables := ?H\<rparr>)"
      using idx room root t(1,3) d ts(2) write_pointer_Some [of "T\<lparr>Tables := (Tables T)(t \<mapsto> Entries es)\<rparr>" root ts t]
      by (simp add: grow_level1_def)
    moreover have "grown T ts E F t (T\<lparr>TableValue := root OR 1, Tables := ?H\<rparr>)"
    proof (rule grownI [OF repr t(2), where us' = "[]"])
      show "index_shape ?H 1 root (ts @ [t]) []" using room ts(3) by (auto simp: index_shape_def)
    qed (use d t ts(1) in \<open>auto simp: tables_of_def word_less_nat_alt\<close>)
    ultimately show ?thesis by blast
  qed
qed

lemma chunk_one: "length xs = 256 * k \<Longrightarrow> chunk k (xs @ [x]) = [x]"
  by (simp add: chunk_append_new)

text \<open>A second level 1 table, below a new level 2 table.\<close>

lemma grow1_full:
  assumes repr: "table_repr T root ts us E F" and n: "NextValue T = of_nat (length E)" and lvl: "table_level T = 1"
    and alloc: "safe_alloc alloc" and full: "\<not> length ts < 256"
  shows "grow_level1 alloc T True = Some (0, T) \<and> alloc_fails alloc T \<or> (\<exists>t T'. grow_level1 alloc T True = Some (t, T') \<and> grown T ts E F t T')"
  using alloc
proof (cases rule: create_pointers_cases [of alloc T])
  case fail
  then show ?thesis
    using next_table_index [OF repr n] full alloc_failsI [of alloc, OF fail(2), of 0 0 T]
    by (auto simp: grow_level1_def PhpCreateHandleTableLevel2_def)
next
  case (ok q)
  note idx = next_table_index [OF repr n]
  have root: "table_address T = root" using repr_level(2) [OF repr] by simp
  have ts: "us = []" "Tables T root = Some (Pointers (padded ts))" "length ts = 256"
    using repr_level(1) [OF repr] lvl full by (auto simp: index_shape_def)
  let ?T = "T\<lparr>Tables := (Tables T)(q \<mapsto> Pointers (padded []))\<rparr>"
  from alloc show ?thesis
  proof (cases rule: create_pointers_cases [of alloc ?T])
    case fail
    then show ?thesis
      using ok idx full alloc_failsI [of alloc, OF fail(2), of q 0 T]
      by (auto simp: grow_level1_def PhpCreateHandleTableLevel2_def PhpCreateHandleTableLevel1_def PhpFreeHandleTableLevel2_def free_again)
  next
    case 2: (ok p)
    have p: "p \<noteq> q" "Tables T p = None" using 2(4) by (auto split: if_splits)
    let ?T2 = "?T\<lparr>Tables := (Tables ?T)(p \<mapsto> Pointers (padded []))\<rparr>"
    show ?thesis
    proof (rule level0_cases [OF alloc repr n, of ?T2])
      show "NextValue ?T2 = NextValue T" by simp
    next
      assume none: "PhpCreateHandleTableLevel0 alloc ?T2 True = Some (0, ?T2)" "alloc (Tables ?T2) = None"
      then show ?thesis
        using ok 2 idx full p alloc_failsI [of alloc, OF none(2), of p q T]
        by (auto simp: grow_level1_def PhpCreateHandleTableLevel2_def PhpCreateHandleTableLevel1_def
            PhpFreeHandleTableLevel1_def PhpFreeHandleTableLevel2_def free_table_def fun_upd_idem)
    next
      fix t es
      assume t: "PhpCreateHandleTableLevel0 alloc ?T2 True = Some (t, ?T2\<lparr>Tables := (Tables ?T2)(t \<mapsto> Entries es)\<rparr>)"
        "new_entries (length E) es" "t \<noteq> 0" "t AND 3 = 0" "Tables ?T2 t = None"
      have tn: "t \<noteq> p" "t \<noteq> q" "Tables T t = None" using t(5) by (auto split: if_splits)
      have nin: "t \<notin> set ts" "p \<notin> set ts" "q \<notin> set ts" "root \<notin> set ts"
        using repr_unused [OF repr] tn p ok(4) not_entries [OF repr ts(2)] by auto
      have nroot: "t \<noteq> root" "p \<noteq> root" "q \<noteq> root" using ts(2) tn p ok(4) by auto
      let ?H = "(Tables T)(q \<mapsto> Pointers (padded [root, p]), p \<mapsto> Pointers (padded [t]), t \<mapsto> Entries es)"
      have writes: "write_pointer p 0 t (?T2\<lparr>Tables := (Tables ?T2)(t \<mapsto> Entries es)\<rparr>)
          = Some (T\<lparr>Tables := (Tables T)(q \<mapsto> Pointers (padded []), t \<mapsto> Entries es, p \<mapsto> Pointers (padded [t]))\<rparr>)"
        "write_pointer q 0 root (T\<lparr>Tables := (Tables T)(q \<mapsto> Pointers (padded []), t \<mapsto> Entries es, p \<mapsto> Pointers (padded [t]))\<rparr>)
          = Some (T\<lparr>Tables := (Tables T)(t \<mapsto> Entries es, p \<mapsto> Pointers (padded [t]), q \<mapsto> Pointers (padded [root]))\<rparr>)"
        "write_pointer q 1 p (T\<lparr>Tables := (Tables T)(t \<mapsto> Entries es, p \<mapsto> Pointers (padded [t]), q \<mapsto> Pointers (padded [root]))\<rparr>)
          = Some (T\<lparr>Tables := ?H\<rparr>)"
        using tn p
          write_pointer_Some [of "?T2\<lparr>Tables := (Tables ?T2)(t \<mapsto> Entries es)\<rparr>" p "[]" t]
          write_pointer_Some [of "T\<lparr>Tables := (Tables T)(q \<mapsto> Pointers (padded []), t \<mapsto> Entries es, p \<mapsto> Pointers (padded [t]))\<rparr>" q "[]" root]
          write_pointer_Some [of "T\<lparr>Tables := (Tables T)(t \<mapsto> Entries es, p \<mapsto> Pointers (padded [t]), q \<mapsto> Pointers (padded [root]))\<rparr>" q "[root]" p]
        by (simp_all add: fun_upd_twist)
      have "grow_level1 alloc T True = Some (t, T\<lparr>TableValue := q OR 2, Tables := ?H\<rparr>)"
        using idx full root t(1,3) ok(1,2) 2(1,2) writes
        by (simp add: grow_level1_def PhpCreateHandleTableLevel2_def PhpCreateHandleTableLevel1_def)
      moreover have "grown T ts E F t (T\<lparr>TableValue := q OR 2, Tables := ?H\<rparr>)"
      proof (rule grownI [OF repr t(2), where us' = "[root, p]"])
        have "chunk 0 (ts @ [t]) = ts" by (simp add: chunk_def ts(3))
        moreover have "chunk 1 (ts @ [t]) = [t]" using chunk_one [of ts 1 t] ts(3) by simp
        ultimately show "index_shape ?H 2 q (ts @ [t]) [root, p]"
          using nroot tn p ts(2,3) by (auto simp: index_shape_def less_Suc_eq nth_Cons')
      qed (use nin nroot tn p t ok 2 ts(1) in \<open>auto simp: tables_of_def word_less_nat_alt\<close>)
      ultimately show ?thesis by blast
    qed
  qed
qed

lemma chunks_of: "(n + 255) div 256 = n div 256 + (if n mod 256 = 0 then 0 else (1 :: nat))"
proof -
  define q r where "q = n div 256" and "r = n mod 256"
  have n: "n = r + q * 256" "r < 256" by (simp_all add: q_def r_def)
  have "(n + 255) div 256 = ((r + 255) + q * 256) div 256" unfolding n(1) by (simp add: ac_simps)
  also have "\<dots> = q + (r + 255) div 256" by (simp only: div_mult_self1 zero_neq_numeral not_False_eq_True add.commute)
  finally have "(n + 255) div 256 = q + (r + 255) div 256" .
  moreover have "(r + 255) div 256 = (if r = 0 then 0 else 1)"
  proof (cases r)
    case (Suc m)
    then have "r + 255 = m + 1 * 256" "m < 256" using n(2) by simp_all
    then show ?thesis using Suc by (simp del: One_nat_def)
  qed simp
  ultimately show ?thesis unfolding q_def r_def by simp
qed

lemma level2_tables:
  assumes repr: "table_repr T root ts us E F" and lvl: "table_level T = 2"
  shows "table_address T = root" "TableValue T = root OR 2" "256 < length ts" "length us = (length ts + 255) div 256"
    "root \<notin> set us" "Tables T root = Some (Pointers (padded us))"
    "\<And>j. j < length us \<Longrightarrow> Tables T (us ! j) = Some (Pointers (padded (chunk j ts)))" "length ts \<le> 65536" "distinct us"
  using repr_level(1-3) [OF repr] lvl repr by (auto simp: index_shape_def table_repr_def)

text \<open>The last level 1 table has room.\<close>

lemma grow2_room:
  assumes repr: "table_repr T root ts us E F" and n: "NextValue T = of_nat (length E)" and lvl: "table_level T = 2"
    and alloc: "safe_alloc alloc" and room: "length ts < 65536" "length ts mod 256 \<noteq> 0"
  shows "grow_level2 alloc T True = Some (0, T) \<and> alloc_fails alloc T \<or> (\<exists>t T'. grow_level2 alloc T True = Some (t, T') \<and> grown T ts E F t T')"
proof -
  note idx = next_table_index [OF repr n] and l2 = level2_tables [OF repr lvl]
  let ?i = "length ts div 256" and ?p = "us ! (length ts div 256)"
  let ?j = "NextValue T - NextValue T div (PH_HANDLE_TABLE_LEVEL_ENTRIES * PH_HANDLE_TABLE_LEVEL_ENTRIES)
      * (PH_HANDLE_TABLE_LEVEL_ENTRIES * PH_HANDLE_TABLE_LEVEL_ENTRIES)"
  have i: "?i < length us" "length us \<le> 256" "?i < 256" using room l2(8) unfolding l2(4) chunks_of by (auto split: if_splits)
  have test: "\<not> NextValue T div (PH_HANDLE_TABLE_LEVEL_ENTRIES * PH_HANDLE_TABLE_LEVEL_ENTRIES) \<ge> PH_HANDLE_TABLE_LEVEL_ENTRIES"
    unfolding word_le_nat_alt idx(4) using i(3) by (simp add: handle_consts)
  have p: "read_pointer T root ?i = Some ?p" "?p \<noteq> 0" "?p \<in> set us"
    using i l2(6) repr by (auto simp: read_pointer_def length_padded padded_nth table_repr_def tables_of_def)
  have j: "unat (?j div PH_HANDLE_TABLE_LEVEL_ENTRIES) = length ts mod 256"
  proof -
    have "NextValue T - NextValue T div 65536 * 65536 = NextValue T mod 65536" by (simp add: minus_div_mult_eq_mod)
    then have "unat ?j = length E mod 65536" by (simp add: handle_consts unat_mod idx(1))
    moreover have "256 * length ts mod 65536 = 256 * (length ts mod 256)" using mult_mod_right [of 256 "length ts" 256] by simp
    ultimately show ?thesis using repr_bounds(3) [OF repr] by (simp add: unat_div handle_consts)
  qed
  have len: "length (chunk ?i ts) = length ts mod 256"
    using div_mult_mod_eq [of "length ts" 256] by (simp add: chunk_def minus_mult_div_eq_mod)
  show ?thesis
  proof (rule level0_cases [OF alloc repr n refl])
    assume none: "PhpCreateHandleTableLevel0 alloc T True = Some (0, T)" "alloc (Tables T) = None"
    then show ?thesis using idx(4) l2(1) test p alloc_failsI [of alloc, OF none(2), of 0 0 T] by (auto simp: grow_level2_def)
  next
    fix t es
    assume t: "PhpCreateHandleTableLevel0 alloc T True = Some (t, T\<lparr>Tables := (Tables T)(t \<mapsto> Entries es)\<rparr>)"
      "new_entries (length E) es" "t \<noteq> 0" "t AND 3 = 0" "Tables T t = None"
    have pp: "Tables T ?p = Some (Pointers (padded (chunk ?i ts)))" by (rule l2(7) [OF i(1)])
    have d: "t \<noteq> root" "t \<notin> set ts" "root \<notin> set ts" "t \<noteq> ?p" "?p \<noteq> root" "?p \<notin> set ts" "t \<notin> set us"
      using t(5) l2(5,6,7) repr_unused [OF repr] not_entries [OF repr] p(3) pp by (auto simp: in_set_conv_nth)
    have us_ts: "a \<notin> set ts" if "a \<in> set us" for a
      using that l2(7) not_entries [OF repr] by (auto simp: in_set_conv_nth)
    let ?H = "(Tables T)(t \<mapsto> Entries es, ?p \<mapsto> Pointers (padded (chunk ?i ts @ [t])))"
    have wrote: "write_pointer ?p (length ts mod 256) t (T\<lparr>Tables := (Tables T)(t \<mapsto> Entries es)\<rparr>) = Some (T\<lparr>Tables := ?H\<rparr>)"
      using write_pointer_Some [of "T\<lparr>Tables := (Tables T)(t \<mapsto> Entries es)\<rparr>" ?p "chunk ?i ts" t] len d pp
      by simp
    have "grow_level2 alloc T True = Some (t, T\<lparr>TableValue := root OR 2, Tables := ?H\<rparr>)"
      using idx(4) l2(1,2) test p t(1,3) j wrote by (simp add: grow_level2_def Let_def)
    moreover have "grown T ts E F t (T\<lparr>TableValue := root OR 2, Tables := ?H\<rparr>)"
    proof (rule grownI [OF repr t(2), where us' = us])
      have "?H (us ! k) = Some (Pointers (padded (chunk k (ts @ [t]))))" if "k < length us" for k
        using that l2(7) [OF that] d l2(9) i(1) by (auto simp: chunk_snoc nth_eq_iff_index_eq)
      moreover have "(length (ts @ [t]) + 255) div 256 = length us"
        using room(2) unfolding l2(4) chunks_of by (simp add: div_Suc)
      ultimately show "index_shape ?H 2 root (ts @ [t]) us"
        using room l2(3,5,6) d by (auto simp: index_shape_def)
    qed (use d t l2(9) us_ts p(3) in \<open>auto simp: tables_of_def word_less_nat_alt\<close>)
    ultimately show ?thesis by blast
  qed
qed

text \<open>A new level 1 table.\<close>

lemma grow2_new:
  assumes repr: "table_repr T root ts us E F" and n: "NextValue T = of_nat (length E)" and lvl: "table_level T = 2"
    and alloc: "safe_alloc alloc" and room: "length ts < 65536" "length ts mod 256 = 0"
  shows "grow_level2 alloc T True = Some (0, T) \<and> alloc_fails alloc T \<or> (\<exists>t T'. grow_level2 alloc T True = Some (t, T') \<and> grown T ts E F t T')"
proof -
  note idx = next_table_index [OF repr n] and l2 = level2_tables [OF repr lvl]
  let ?i = "length ts div 256"
  have i: "?i = length us" "length us < 256" "length ts = 256 * length us" using room unfolding l2(4) chunks_of by auto
  have test: "\<not> NextValue T div (PH_HANDLE_TABLE_LEVEL_ENTRIES * PH_HANDLE_TABLE_LEVEL_ENTRIES) \<ge> PH_HANDLE_TABLE_LEVEL_ENTRIES"
    unfolding word_le_nat_alt idx(4) using i by (simp add: handle_consts)
  have null: "read_pointer T root ?i = Some 0"
    using i l2(6) by (simp add: read_pointer_def length_padded padded_end)
  from alloc show ?thesis
  proof (cases rule: create_pointers_cases [of alloc T])
    case fail
    then show ?thesis
      using idx(4) l2(1) test null alloc_failsI [of alloc, OF fail(2), of 0 0 T]
      by (auto simp: grow_level2_def PhpCreateHandleTableLevel1_def)
  next
    case (ok p)
    let ?T = "T\<lparr>Tables := (Tables T)(p \<mapsto> Pointers (padded []))\<rparr>"
    show ?thesis
    proof (rule level0_cases [OF alloc repr n, of ?T])
      show "NextValue ?T = NextValue T" by simp
    next
      assume none: "PhpCreateHandleTableLevel0 alloc ?T True = Some (0, ?T)" "alloc (Tables ?T) = None"
      then show ?thesis
        using ok idx(4) l2(1) test null alloc_failsI [of alloc, OF none(2), of p 0 T]
        by (auto simp: grow_level2_def PhpCreateHandleTableLevel1_def PhpFreeHandleTableLevel1_def free_again)
    next
      fix t es
      assume t: "PhpCreateHandleTableLevel0 alloc ?T True = Some (t, ?T\<lparr>Tables := (Tables ?T)(t \<mapsto> Entries es)\<rparr>)"
        "new_entries (length E) es" "t \<noteq> 0" "t AND 3 = 0" "Tables ?T t = None"
      have tn: "t \<noteq> p" "Tables T t = None" using t(5) by (auto split: if_splits)
      have d: "t \<noteq> root" "p \<noteq> root" "t \<notin> set ts" "p \<notin> set ts" "t \<notin> set us" "p \<notin> set us" "root \<notin> set ts"
        using tn ok(4) l2(6,7) repr_unused [OF repr] not_entries [OF repr] by (auto simp: in_set_conv_nth)
      let ?H = "(Tables T)(p \<mapsto> Pointers (padded [t]), t \<mapsto> Entries es, root \<mapsto> Pointers (padded (us @ [p])))"
      have writes: "write_pointer p 0 t (?T\<lparr>Tables := (Tables ?T)(t \<mapsto> Entries es)\<rparr>)
          = Some (T\<lparr>Tables := (Tables T)(p \<mapsto> Pointers (padded [t]), t \<mapsto> Entries es)\<rparr>)"
        "write_pointer root (length us) p (T\<lparr>Tables := (Tables T)(p \<mapsto> Pointers (padded [t]), t \<mapsto> Entries es)\<rparr>)
          = Some (T\<lparr>Tables := ?H\<rparr>)"
        using tn d i(2) l2(6) write_pointer_Some [of "?T\<lparr>Tables := (Tables ?T)(t \<mapsto> Entries es)\<rparr>" p "[]" t]
          write_pointer_Some [of "T\<lparr>Tables := (Tables T)(p \<mapsto> Pointers (padded [t]), t \<mapsto> Entries es)\<rparr>" root us p]
        by (simp_all add: fun_upd_twist)
      have "grow_level2 alloc T True = Some (t, T\<lparr>TableValue := root OR 2, Tables := ?H\<rparr>)"
        using idx(4) l2(1,2) test null t(1,3) ok(1,2) writes i(1)
        by (simp add: grow_level2_def PhpCreateHandleTableLevel1_def)
      moreover have "grown T ts E F t (T\<lparr>TableValue := root OR 2, Tables := ?H\<rparr>)"
      proof (rule grownI [OF repr t(2), where us' = "us @ [p]"])
        have "?H ((us @ [p]) ! k) = Some (Pointers (padded (chunk k (ts @ [t]))))" if "k < length (us @ [p])" for k
        proof (cases "k = length us")
          case True
          then show ?thesis using tn d chunk_one [of ts k t] i(3) by simp
        next
          case False
          then have k: "k < length us" using that by simp
          then have "us ! k \<noteq> p" "us ! k \<noteq> t" "us ! k \<noteq> root" using d l2(5) by auto
          then show ?thesis using l2(7) [OF k] k i(1) by (simp add: nth_append chunk_snoc)
        qed
        moreover have "(length (ts @ [t]) + 255) div 256 = length (us @ [p])" using i(3) by simp
        ultimately show "index_shape ?H 2 root (ts @ [t]) (us @ [p])"
          using room l2(3,5) d by (auto simp: index_shape_def)
      qed (use d t tn ok l2(9) in \<open>auto simp: tables_of_def word_less_nat_alt\<close>)
      ultimately show ?thesis by blast
    qed
  qed
qed

lemma grow2_full:
  assumes repr: "table_repr T root ts us E F" and n: "NextValue T = of_nat (length E)" and lvl: "table_level T = 2"
    and full: "\<not> length ts < 65536"
  shows "grow_level2 alloc T True = Some (0, T)"
proof -
  note idx = next_table_index [OF repr n] and l2 = level2_tables [OF repr lvl]
  have "length ts div 256 = 256" using full l2(8) by linarith
  then have "NextValue T div (PH_HANDLE_TABLE_LEVEL_ENTRIES * PH_HANDLE_TABLE_LEVEL_ENTRIES) \<ge> PH_HANDLE_TABLE_LEVEL_ENTRIES"
    unfolding word_le_nat_alt idx(4) by (simp add: handle_consts)
  then show ?thesis by (simp add: grow_level2_def)
qed

text \<open>Whatever the level.\<close>

lemma grow_table:
  assumes "table_repr T root ts us E F" "NextValue T = of_nat (length E)" "safe_alloc alloc"
  shows "(if table_level T = 0 then grow_level0 alloc T True
      else if table_level T = 1 then grow_level1 alloc T True
      else if table_level T = 2 then grow_level2 alloc T True
      else None) = Some (0, T) \<and> (alloc_fails alloc T \<or> length ts = 65536)
    \<or> (\<exists>t T'. (if table_level T = 0 then grow_level0 alloc T True
      else if table_level T = 1 then grow_level1 alloc T True
      else if table_level T = 2 then grow_level2 alloc T True
      else None) = Some (t, T') \<and> grown T ts E F t T')"
proof -
  have "table_level T = 0 \<or> table_level T = 1 \<or> table_level T = 2"
    using repr_level(1) [OF assms(1)] by (auto simp: index_shape_def)
  then consider "table_level T = 0" | "table_level T = 1" | "table_level T = 2" by blast
  then show ?thesis
  proof cases
    case 1
    then show ?thesis using grow0 [OF assms(1,2) 1 assms(3)] by auto
  next
    case 2
    then show ?thesis
      using grow1_room [OF assms(1,2) 2 assms(3)] grow1_full [OF assms(1,2) 2 assms(3)]
      by (cases "length ts < 256") auto
  next
    case 3
    then show ?thesis
      using grow2_room [OF assms(1,2) 3 assms(3)] grow2_new [OF assms(1,2) 3 assms(3)] grow2_full [OF assms(1,2) 3]
        repr_bounds(2) [OF assms(1)]
      by (cases "length ts < 65536"; cases "length ts mod 256 = 0") auto
  qed
qed

end
