(* ===== verification/HandleOps.thy ===== *)
theory HandleOps
  imports HandleGrow
begin

text \<open>
  The operations on a handle table preserve its free lists, and do to the entries in use what they
  should.
\<close>

unbundle bit_operations_syntax

declare read_entry.simps [simp del] write_entry.simps [simp del]

section \<open>Entries without their pointers\<close>

definition holds_entries :: "handle_table \<Rightarrow> ulong64 list \<Rightarrow> handle_entry list \<Rightarrow> table_heap \<Rightarrow> bool" where
  "holds_entries T ts E F \<longleftrightarrow> (\<exists>root us. table_repr T root ts us E F) \<and> NextValue T = of_nat (length E)"

lemma holds_other_fields [simp]:
  "holds_entries (T\<lparr>FreeValue := v\<rparr>) ts E F = holds_entries T ts E F"
  "holds_entries (T\<lparr>FreeValueAlt := v\<rparr>) ts E F = holds_entries T ts E F"
  "holds_entries (T\<lparr>HandleCount := c\<rparr>) ts E F = holds_entries T ts E F"
  "holds_entries (T\<lparr>HandleFlags := f\<rparr>) ts E F = holds_entries T ts E F"
  by (simp_all add: holds_entries_def table_repr_def)

lemma holds_bounds: "holds_entries T ts E F \<Longrightarrow> 0 < length E \<and> length E = 256 * length ts \<and> length E \<le> 2 ^ 24"
  using repr_bounds by (fastforce simp: holds_entries_def)

lemma holds_lookup:
  "holds_entries T ts E F \<Longrightarrow>
   PhpLookupHandleTableEntry T v = Some (if unat v < length E then Some (slot ts (unat v)) else None)"
  using lookup_entry by (auto simp: holds_entries_def)

lemma holds_read: "holds_entries T ts E F \<Longrightarrow> v < length E \<Longrightarrow> read_entry T (slot ts v) = Some (E ! v)"
  using read_slot by (auto simp: holds_entries_def)

lemma holds_write:
  assumes "holds_entries T ts E F" "v < length E"
  obtains H where "write_entry (slot ts v) f T = Some (T\<lparr>Tables := H\<rparr>)"
    "holds_entries (T\<lparr>Tables := H\<rparr>) ts (E[v := f (E ! v)]) F"
proof -
  obtain root us where repr: "table_repr T root ts us E F" using assms(1) by (auto simp: holds_entries_def)
  show thesis
    using write_slot [OF repr assms(2), of f] that assms(1) by (auto simp: holds_entries_def)
qed

lemma holds_rewrite:
  assumes "holds_entries (T\<lparr>Tables := H\<rparr>) ts (E[v := e]) F" "v < length E"
  obtains H' where "write_entry (slot ts v) f (T\<lparr>Tables := H\<rparr>) = Some (T\<lparr>Tables := H'\<rparr>)"
    "holds_entries (T\<lparr>Tables := H'\<rparr>) ts (E[v := f e]) F"
proof -
  have "v < length (E[v := e])" using assms(2) by simp
  then show thesis
    by (rule holds_write [OF assms(1), of v f]) (use that assms(2) in simp)
qed

lemma holds_index: "holds_entries T ts E F \<Longrightarrow> v < length E \<Longrightarrow> unat (of_nat v :: ulong) = v"
  using holds_bounds [of T ts E F] by (intro unat_of_nat_ulong) simp

lemma holds_not_invalid: "holds_entries T ts E F \<Longrightarrow> v < length E \<Longrightarrow> (of_nat v :: ulong) \<noteq> -1"
proof
  assume "holds_entries T ts E F" "v < length E" "(of_nat v :: ulong) = -1"
  then have "v = unat (-1 :: ulong)" "v < 2 ^ 24" using holds_index holds_bounds by fastforce+
  then show False by (simp add: unsigned_minus_1_eq_mask mask_eq_exp_minus_1)
qed

section \<open>Free lists\<close>

fun free_list :: "handle_entry list \<Rightarrow> ulong \<Rightarrow> nat list \<Rightarrow> bool" where
  "free_list E v [] \<longleftrightarrow> v = -1"
| "free_list E v (x # xs) \<longleftrightarrow> v = of_nat x \<and> x < length E \<and> free_list E (NextFreeValue (E ! x)) xs"

lemma free_list_less: "free_list E v xs \<Longrightarrow> x \<in> set xs \<Longrightarrow> x < length E"
  by (induction xs arbitrary: v) auto

lemma free_list_cong:
  "free_list E v xs \<Longrightarrow> length E \<le> length E' \<Longrightarrow> (\<And>x. x \<in> set xs \<Longrightarrow> NextFreeValue (E' ! x) = NextFreeValue (E ! x))
   \<Longrightarrow> free_list E' v xs"
  by (induction xs arbitrary: v) auto

lemma free_list_update: "free_list E v xs \<Longrightarrow> x \<notin> set xs \<Longrightarrow> free_list (E[x := e]) v xs"
  by (induction xs arbitrary: v) auto

lemma free_list_link:
  "free_list E v (xs @ [x]) \<Longrightarrow> free_list E w ys \<Longrightarrow> distinct (xs @ [x] @ ys)
   \<Longrightarrow> free_list (E[x := set_NextFreeValue w (E ! x)]) v (xs @ [x] @ ys)"
proof (induction xs arbitrary: v)
  case Nil
  then show ?case by (auto intro: free_list_update)
next
  case (Cons y xs)
  then show ?case by (auto simp: nth_list_update)
qed

lemma free_list_start: "holds_entries T ts E F \<Longrightarrow> free_list E v xs \<Longrightarrow> v = -1 \<longleftrightarrow> xs = []"
  using holds_not_invalid by (cases xs) auto

section \<open>The invariant and the view\<close>

definition handle_wf :: "handle_table \<Rightarrow> ulong64 list \<Rightarrow> handle_entry list \<Rightarrow> nat list \<Rightarrow> nat list \<Rightarrow> table_heap \<Rightarrow> bool" where
  "handle_wf T ts E fl al F \<longleftrightarrow>
     holds_entries T ts E F \<and> free_list E (FreeValue T) fl \<and> free_list E (FreeValueAlt T) al
   \<and> distinct (fl @ al)
   \<and> (\<forall>v < length E. if v \<in> set (fl @ al) then EntryValue (E ! v) = 1 else EntryValue (E ! v) AND 1 = 0)
   \<and> unat (HandleCount T) + length (fl @ al) = length E"

definition used_entries :: "handle_entry list \<Rightarrow> nat list \<Rightarrow> nat \<Rightarrow> handle_entry option" where
  "used_entries E free v = (if v < length E \<and> v \<notin> set free then Some (E ! v) else None)"

lemma wf_free_less: "handle_wf T ts E fl al F \<Longrightarrow> v \<in> set (fl @ al) \<Longrightarrow> v < length E"
  by (auto simp: handle_wf_def dest: free_list_less)

lemma dom_used: "dom (used_entries E free) = {..<length E} - set free"
  by (auto simp: used_entries_def split: if_splits)

lemma count_used:
  assumes "handle_wf T ts E fl al F"
  shows "card (dom (used_entries E (fl @ al))) = unat (HandleCount T)"
proof -
  have "set (fl @ al) \<subseteq> {..<length E}" using wf_free_less [OF assms] by auto
  moreover have "distinct (fl @ al)" using assms unfolding handle_wf_def by blast
  then have "card (set (fl @ al)) = length (fl @ al)" by (rule distinct_card)
  ultimately have "card ({..<length E} - set (fl @ al)) = length E - length (fl @ al)"
    by (simp add: card_Diff_subset del: set_append)
  moreover have "unat (HandleCount T) + length (fl @ al) = length E" using assms unfolding handle_wf_def by blast
  ultimately show ?thesis unfolding dom_used by linarith
qed

section \<open>Expanding\<close>

lemma free_list_new:
  assumes "new_entries b es" "length E = b" "b + 256 < 2 ^ 32"
  shows "k < 256 \<Longrightarrow> free_list (E @ es[255 := set_NextFreeValue w (es ! 255)]) w xs \<Longrightarrow> distinct xs \<Longrightarrow>
    free_list (E @ es[255 := set_NextFreeValue w (es ! 255)]) (of_nat (b + (255 - k))) ([b + (255 - k)..<b + 256] @ xs)"
proof (induction k)
  case 0
  have "length es = 256" using assms(1) by (simp add: new_entries_def)
  then show ?case using 0 assms(2) by (simp add: nth_append upt_conv_Cons)
next
  case (Suc k)
  have es: "length es = 256" "\<forall>j < 255. NextFreeValue (es ! j) = of_nat (b + 1 + j)"
    using assms(1) by (simp_all add: new_entries_def)
  let ?E = "E @ es[255 := set_NextFreeValue w (es ! 255)]" and ?x = "b + (255 - Suc k)"
  have x: "255 - Suc k < 255" "Suc ?x = b + (255 - k)" using Suc.prems(1) by simp_all
  have "NextFreeValue (?E ! ?x) = of_nat (Suc ?x)"
    using es x(1) assms(2) by (simp add: nth_append add.commute)
  moreover have "[?x..<b + 256] = ?x # [Suc ?x..<b + 256]" using x(1) by (simp add: upt_conv_Cons)
  ultimately show ?case
    using Suc.IH Suc.prems x es(1) assms(2) by (simp del: of_nat_Suc of_nat_add)
qed

text \<open>The new entries are put in front of the free list.\<close>

lemma allocate_more:
  assumes wf: "handle_wf T ts E fl al F" and alloc: "safe_alloc alloc"
  shows "PhpAllocateMoreHandleTableEntries alloc T True = Some (False, T) \<and> (alloc_fails alloc T \<or> length ts = 65536)
    \<or> (\<exists>T' t es. PhpAllocateMoreHandleTableEntries alloc T True = Some (True, T') \<and> length es = 256
        \<and> handle_wf T' (ts @ [t]) (E @ es) ([length E..<length E + 256] @ fl) al F
        \<and> HandleFlags T' = HandleFlags T)"
proof -
  have h: "holds_entries T ts E F" and fl: "free_list E (FreeValue T) fl" and al: "free_list E (FreeValueAlt T) al"
    and d: "distinct (fl @ al)"
    and ev: "\<And>v. v < length E \<Longrightarrow> if v \<in> set (fl @ al) then EntryValue (E ! v) = 1 else EntryValue (E ! v) AND 1 = 0"
    and c: "unat (HandleCount T) + length (fl @ al) = length E"
    using wf by (auto simp: handle_wf_def)
  obtain root us where repr: "table_repr T root ts us E F" and n: "NextValue T = of_nat (length E)"
    using h by (auto simp: holds_entries_def)
  from grow_table [OF repr n alloc] show ?thesis
  proof (elim disjE exE conjE)
    assume "(if table_level T = 0 then grow_level0 alloc T True else if table_level T = 1 then grow_level1 alloc T True
      else if table_level T = 2 then grow_level2 alloc T True else None) = Some (0, T)" "alloc_fails alloc T"
    then show ?thesis by (simp add: PhpAllocateMoreHandleTableEntries_def)
  next
    assume "(if table_level T = 0 then grow_level0 alloc T True else if table_level T = 1 then grow_level1 alloc T True
      else if table_level T = 2 then grow_level2 alloc T True else None) = Some (0, T)" "length ts = 65536"
    then show ?thesis by (simp add: PhpAllocateMoreHandleTableEntries_def)
  next
    fix t T1
    assume grow: "(if table_level T = 0 then grow_level0 alloc T True else if table_level T = 1 then grow_level1 alloc T True
      else if table_level T = 2 then grow_level2 alloc T True else None) = Some (t, T1)"
      and "grown T ts E F t T1"
    then obtain tv H root' us' es where g: "T1 = T\<lparr>TableValue := tv, Tables := H\<rparr>" "t \<noteq> 0"
      "table_repr T1 root' (ts @ [t]) us' (E @ es) F" "new_entries (length E) es"
      by (auto simp: grown_def)
    have es: "length es = 256" using g(4) by (simp add: new_entries_def)
    let ?T2 = "T1\<lparr>NextValue := NextValue T1 + PH_HANDLE_TABLE_LEVEL_ENTRIES\<rparr>"
    have h2: "holds_entries ?T2 (ts @ [t]) (E @ es) F"
      using g(1,3) n es by (auto simp: holds_entries_def table_repr_def handle_consts add.commute)
    have last: "length E + 255 < length (E @ es)" "(E @ es) ! (length E + 255) = es ! 255" using es by simp_all
    have slot: "slot (ts @ [t]) (length E + 255) = (t, 255)"
      using holds_bounds [OF h] by (simp add: slot_def)
    let ?es = "es[255 := set_NextFreeValue (FreeValue T) (es ! 255)]"
    have upd: "(E @ es)[length E + 255 := set_NextFreeValue (FreeValue T) (es ! 255)] = E @ ?es"
      by (simp add: list_update_append)
    obtain H' where H': "write_entry (t, 255) (set_NextFreeValue (FreeValue T)) ?T2 = Some (?T2\<lparr>Tables := H'\<rparr>)"
      "holds_entries (?T2\<lparr>Tables := H'\<rparr>) (ts @ [t]) (E @ ?es) F"
      using holds_write [OF h2 last(1), of "set_NextFreeValue (FreeValue T)"] unfolding slot last(2) upd by blast
    let ?T3 = "?T2\<lparr>Tables := H', FreeValue := NextValue T\<rparr>"
    have run: "PhpAllocateMoreHandleTableEntries alloc T True = Some (True, ?T3)"
      unfolding PhpAllocateMoreHandleTableEntries_def grow bind.bind_lunit prod.case
      using g(1,2) H'(1) by (simp add: handle_consts Let_def)
    have bound: "length E \<le> 2 ^ 24" using holds_bounds [OF h] by simp
    have keep: "free_list (E @ ?es) v xs" if "free_list E v xs" for v xs
      by (rule free_list_cong [OF that]) (use free_list_less [OF that] in \<open>auto simp: nth_append\<close>)
    have "distinct fl" using d by simp
    then have fl': "free_list (E @ ?es) (NextValue T) ([length E..<length E + 256] @ fl)"
      using free_list_new [OF g(4) refl, of 255 "FreeValue T" fl] keep [OF fl] bound unfolding n by simp
    have less: "v < length E" if "v \<in> set fl \<union> set al" for v using that fl al by (auto dest: free_list_less)
    have valued: "if v \<in> set (([length E..<length E + 256] @ fl) @ al) then EntryValue ((E @ ?es) ! v) = 1
        else EntryValue ((E @ ?es) ! v) AND 1 = 0" if v: "v < length (E @ ?es)" for v
    proof (cases "v < length E")
      case True
      then show ?thesis using ev [OF True] by (simp add: nth_append)
    next
      case False
      then have "v - length E < 256" using v es by simp
      then have "EntryValue (?es ! (v - length E)) = 1"
        using g(4) es by (cases "v - length E = 255") (auto simp: new_entries_def)
      then show ?thesis using False v es by (simp add: nth_append)
    qed
    have "set [length E..<length E + 256] \<inter> (set fl \<union> set al) = {}" using less by force
    then have dist: "distinct (([length E..<length E + 256] @ fl) @ al)" using d by (auto simp: disjoint_iff)
    have "handle_wf ?T3 (ts @ [t]) (E @ ?es) ([length E..<length E + 256] @ fl) al F"
      unfolding handle_wf_def
      using H'(2) fl' keep [OF al] dist c g(1) es by (intro conjI allI impI valued) simp_all
    then show ?thesis using run es g(1) by fastforce
  qed
qed

section \<open>Moving the alternative list\<close>

text \<open>What reversing and relinking do to the entries: only the links of free entries change.\<close>

definition relinked :: "handle_entry list \<Rightarrow> handle_entry list \<Rightarrow> nat set \<Rightarrow> bool" where
  "relinked E E' A \<longleftrightarrow> length E' = length E \<and> (\<forall>v < length E. EntryValue (E' ! v) = EntryValue (E ! v))
     \<and> (\<forall>v < length E. v \<notin> A \<longrightarrow> E' ! v = E ! v)"

lemma relinked_refl: "relinked E E A"
  by (simp add: relinked_def)

lemma relinked_trans: "relinked E E' A \<Longrightarrow> relinked E' E'' B \<Longrightarrow> A \<subseteq> C \<Longrightarrow> B \<subseteq> C \<Longrightarrow> relinked E E'' C"
  unfolding relinked_def by (metis subsetD)

lemma relinked_step: "relinked E (E[v := set_NextFreeValue w (E ! v)]) {v}"
  by (cases "v < length E") (auto simp: relinked_def nth_list_update)

lemma relinked_used: "relinked E E' (set free) \<Longrightarrow> used_entries E' free = used_entries E free"
  by (auto simp: relinked_def used_entries_def fun_eq_iff)

lemma relinked_free_list: "relinked E E' A \<Longrightarrow> free_list E v xs \<Longrightarrow> set xs \<inter> A = {} \<Longrightarrow> free_list E' v xs"
  by (induction xs arbitrary: v) (auto simp: relinked_def disjoint_iff)

lemma reverse_entries:
  "holds_entries T ts E F \<Longrightarrow> free_list E index (x # xs) \<Longrightarrow> free_list E lastIndex ys
   \<Longrightarrow> distinct ((x # xs) @ ys) \<Longrightarrow> (lastIndex = -1 \<longleftrightarrow> ys = []) \<Longrightarrow>
   \<exists>H E'. reverse_free index lastIndex n first T
     = Some (of_nat (last (x # xs)), n + of_nat (length (x # xs)), if ys = [] then Some (slot ts x) else first, T\<lparr>Tables := H\<rparr>)
     \<and> holds_entries (T\<lparr>Tables := H\<rparr>) ts E' F \<and> relinked E E' (set (x # xs))
     \<and> free_list E' (of_nat (last (x # xs))) (rev (x # xs) @ ys)"
proof (induction xs arbitrary: T E index x lastIndex ys n first)
  case Nil
  have x: "x < length E" "index = of_nat x" "NextFreeValue (E ! x) = -1" using Nil.prems(2) by simp_all
  obtain H where H: "write_entry (slot ts x) (set_NextFreeValue lastIndex) T = Some (T\<lparr>Tables := H\<rparr>)"
    "holds_entries (T\<lparr>Tables := H\<rparr>) ts (E[x := set_NextFreeValue lastIndex (E ! x)]) F"
    by (rule holds_write [OF Nil.prems(1) x(1)])
  have "free_list (E[x := set_NextFreeValue lastIndex (E ! x)]) (of_nat x) (x # ys)"
    using x(1) free_list_update [OF Nil.prems(3), of x] Nil.prems(4) by simp
  moreover have "reverse_free index lastIndex n first T
      = Some (of_nat x, n + 1, if ys = [] then Some (slot ts x) else first, T\<lparr>Tables := H\<rparr>)"
    using holds_lookup [OF Nil.prems(1), of index] holds_read [OF Nil.prems(1) x(1)] H(1) x Nil.prems(5)
      holds_index [OF Nil.prems(1) x(1)]
    by (subst reverse_free.simps) (simp add: PH_HANDLE_VALUE_INVALID_def Let_def)
  ultimately show ?case using H(2) relinked_step [of E x lastIndex] by fastforce
next
  case (Cons y xs)
  have x: "x < length E" "index = of_nat x" and rest: "free_list E (NextFreeValue (E ! x)) (y # xs)"
    using Cons.prems(2) by simp_all
  obtain H where H: "write_entry (slot ts x) (set_NextFreeValue lastIndex) T = Some (T\<lparr>Tables := H\<rparr>)"
    "holds_entries (T\<lparr>Tables := H\<rparr>) ts (E[x := set_NextFreeValue lastIndex (E ! x)]) F"
    by (rule holds_write [OF Cons.prems(1) x(1)])
  let ?E = "E[x := set_NextFreeValue lastIndex (E ! x)]" and ?next = "NextFreeValue (E ! x)"
  have n1: "?next \<noteq> -1" using free_list_start [OF Cons.prems(1) rest] by simp
  have i1: "index \<noteq> -1" using holds_not_invalid [OF Cons.prems(1) x(1)] x(2) by simp
  have step: "reverse_free index lastIndex n first T
      = reverse_free ?next index (n + 1) (if ys = [] then Some (slot ts x) else first) (T\<lparr>Tables := H\<rparr>)"
    using holds_lookup [OF Cons.prems(1), of index] holds_read [OF Cons.prems(1) x(1)] H(1) x Cons.prems(5) n1
      holds_index [OF Cons.prems(1) x(1)]
    by (subst reverse_free.simps) (simp add: PH_HANDLE_VALUE_INVALID_def Let_def)
  have lists: "free_list ?E ?next (y # xs)" "free_list ?E index (x # ys)"
    using free_list_update [OF rest, of x] free_list_update [OF Cons.prems(3), of x] Cons.prems(4) x by simp_all
  have d: "distinct ((y # xs) @ x # ys)" using Cons.prems(4) by auto
  obtain H' E' where IH: "reverse_free ?next index (n + 1) (if ys = [] then Some (slot ts x) else first) (T\<lparr>Tables := H\<rparr>)
      = Some (of_nat (last (y # xs)), n + 1 + of_nat (length (y # xs)), if ys = [] then Some (slot ts x) else first,
          (T\<lparr>Tables := H\<rparr>)\<lparr>Tables := H'\<rparr>)"
    "holds_entries ((T\<lparr>Tables := H\<rparr>)\<lparr>Tables := H'\<rparr>) ts E' F" "relinked ?E E' (set (y # xs))"
    "free_list E' (of_nat (last (y # xs))) (rev (y # xs) @ x # ys)"
    using Cons.IH [OF H(2) lists d, of "n + 1" "if ys = [] then Some (slot ts x) else first"] i1 by auto
  have "relinked E E' (set (x # y # xs))"
    by (rule relinked_trans [OF relinked_step IH(3)]) auto
  then show ?case
    unfolding step IH(1) using IH(2,4) by (intro exI [of _ H'] exI [of _ E']) (simp add: algebra_simps)
qed

lemma wf_relinked:
  assumes "handle_wf T ts E fl al F" "relinked E E' A" "holds_entries T' ts E' F"
    and "free_list E' (FreeValue T') fl'" "free_list E' (FreeValueAlt T') al'"
    and "distinct (fl' @ al')" "set (fl' @ al') = set (fl @ al)" "HandleCount T' = HandleCount T"
  shows "handle_wf T' ts E' fl' al' F"
proof -
  have wf: "distinct (fl @ al)" "unat (HandleCount T) + length (fl @ al) = length E"
    "\<And>v. v < length E \<Longrightarrow> if v \<in> set (fl @ al) then EntryValue (E ! v) = 1 else EntryValue (E ! v) AND 1 = 0"
    using assms(1) unfolding handle_wf_def by blast+
  have "length (fl' @ al') = length (fl @ al)" using assms(6,7) wf(1) by (metis distinct_card)
  moreover have "if v \<in> set (fl' @ al') then EntryValue (E' ! v) = 1 else EntryValue (E' ! v) AND 1 = 0"
    if "v < length E'" for v
    using wf(3) [of v] that assms(2) unfolding assms(7) relinked_def by simp
  moreover have "length E' = length E" using assms(2) by (simp add: relinked_def)
  ultimately show ?thesis
    unfolding handle_wf_def using assms(3-6,8) wf(2) by (intro conjI allI impI) simp_all
qed

lemma move_free:
  assumes wf: "handle_wf T ts E fl al F"
  shows "al = [] \<and> PhpMoveFreeHandleTableEntries T = Some (-1, T)
    \<or> (\<exists>v T' E' fl'. PhpMoveFreeHandleTableEntries T = Some (v, T') \<and> handle_wf T' ts E' fl' [] F
        \<and> set fl' = set (fl @ al) \<and> fl' \<noteq> [] \<and> relinked E E' (set al) \<and> (v \<noteq> -1 \<longrightarrow> v = FreeValue T')
        \<and> HandleFlags T' = HandleFlags T)"
proof (cases al)
  case Nil
  then have "FreeValueAlt T = -1" using wf by (simp add: handle_wf_def)
  moreover have "T\<lparr>FreeValueAlt := FreeValueAlt T\<rparr> = T" by simp
  ultimately show ?thesis
    using Nil by (simp add: PhpMoveFreeHandleTableEntries_def PH_HANDLE_VALUE_INVALID_def Let_def)
next
  case (Cons x xs)
  have h: "holds_entries T ts E F" and fl: "free_list E (FreeValue T) fl" and al: "free_list E (FreeValueAlt T) (x # xs)"
    and d: "distinct (fl @ x # xs)"
    using wf Cons by (auto simp: handle_wf_def)
  have alt: "FreeValueAlt T \<noteq> -1" using free_list_start [OF h al] by simp
  let ?T = "T\<lparr>FreeValueAlt := -1\<rparr>"
  show ?thesis
  proof (cases "HandleFlags T AND PH_HANDLE_TABLE_STRICT_FIFO = 0 \<and> FreeValue T = PH_HANDLE_VALUE_INVALID")
    case True
    then have "fl = []" using free_list_start [OF h fl] by (simp add: PH_HANDLE_VALUE_INVALID_def)
    let ?T' = "T\<lparr>FreeValueAlt := -1, FreeValue := FreeValueAlt T\<rparr>"
    have "PhpMoveFreeHandleTableEntries T = Some (FreeValueAlt T, ?T')"
      using True alt by (simp add: PhpMoveFreeHandleTableEntries_def PH_HANDLE_VALUE_INVALID_def Let_def)
    moreover have "handle_wf ?T' ts E (x # xs) [] F"
      by (rule wf_relinked [OF wf relinked_refl]) (use h al d \<open>fl = []\<close> Cons in simp_all)
    ultimately show ?thesis using \<open>fl = []\<close> Cons relinked_refl [of E "set al"] by fastforce
  next
    case False
    have h1: "holds_entries ?T ts E F" using h by simp
    have d1: "distinct ((x # xs) @ [])" using d by simp
    obtain H E' where rev: "reverse_free (FreeValueAlt T) (-1) 0 None ?T
        = Some (of_nat (last (x # xs)), of_nat (length (x # xs)), Some (slot ts x), ?T\<lparr>Tables := H\<rparr>)"
      "holds_entries (?T\<lparr>Tables := H\<rparr>) ts E' F" "relinked E E' (set (x # xs))"
      "free_list E' (of_nat (last (x # xs))) (rev (x # xs) @ [])"
      using reverse_entries [OF h1 al, of "-1" "[]" 0 None] d1 by auto
    have x: "x < length E'" using al rev(3) by (simp add: relinked_def)
    obtain H' where H': "write_entry (slot ts x) (set_NextFreeValue (FreeValue T)) (?T\<lparr>Tables := H\<rparr>)
        = Some (?T\<lparr>Tables := H\<rparr>\<lparr>Tables := H'\<rparr>)"
      "holds_entries (?T\<lparr>Tables := H\<rparr>\<lparr>Tables := H'\<rparr>) ts (E'[x := set_NextFreeValue (FreeValue T) (E' ! x)]) F"
      by (rule holds_write [OF rev(2) x])
    let ?E = "E'[x := set_NextFreeValue (FreeValue T) (E' ! x)]"
    let ?T' = "T\<lparr>FreeValueAlt := -1, Tables := H', FreeValue := of_nat (last (x # xs))\<rparr>"
    let ?v = "if HandleFlags T AND PH_HANDLE_TABLE_STRICT_FIFO \<noteq> 0 \<and> of_nat (length (x # xs)) < PH_HANDLE_TABLE_FREE_COUNT
        then -1 else of_nat (last (x # xs))"
    have cond: "\<not> (HandleFlags ?T AND PH_HANDLE_TABLE_STRICT_FIFO = 0 \<and> FreeValue ?T = -1)"
      using False by (simp add: PH_HANDLE_VALUE_INVALID_def)
    have run: "PhpMoveFreeHandleTableEntries T = Some (?v, ?T')"
      unfolding PhpMoveFreeHandleTableEntries_def PH_HANDLE_VALUE_INVALID_def Let_def if_not_P [OF alt] if_not_P [OF cond]
        rev(1) bind.bind_lunit prod.case option.case
      using H'(1) by simp
    have rel: "relinked E ?E (set (x # xs))"
      by (rule relinked_trans [OF rev(3) relinked_step]) auto
    have "free_list E' (FreeValue T) fl"
      by (rule relinked_free_list [OF rev(3) fl]) (use d in auto)
    then have "free_list ?E (of_nat (last (x # xs))) (rev xs @ [x] @ fl)"
      using rev(4) d by (intro free_list_link) auto
    then have "handle_wf ?T' ts ?E (rev xs @ [x] @ fl) [] F"
      using H'(2) d Cons by (intro wf_relinked [OF wf rel]) auto
    moreover have "set (rev xs @ [x] @ fl) = set (fl @ al)" using Cons by auto
    ultimately show ?thesis
      using run rel Cons
      by (intro disjI2 exI [of _ ?v] exI [of _ ?T'] exI [of _ ?E] exI [of _ "rev xs @ [x] @ fl"]) simp
  qed
qed

section \<open>Finding a free entry\<close>

lemma used_extend:
  "length es = 256 \<Longrightarrow> used_entries (E @ es) (([length E..<length E + 256] @ fl) @ al) = used_entries E (fl @ al)"
  by (auto simp: used_entries_def fun_eq_iff nth_append)

lemma moved_used: "relinked E E' (set al) \<Longrightarrow> set fl' = set (fl @ al) \<Longrightarrow> used_entries E' (fl' @ []) = used_entries E (fl @ al)"
  by (auto simp: relinked_def used_entries_def fun_eq_iff)

definition ready :: "handle_table \<Rightarrow> handle_entry list \<Rightarrow> nat list \<Rightarrow> table_heap \<Rightarrow> handle_table \<Rightarrow> bool" where
  "ready T E free F T' \<longleftrightarrow> (\<exists>ts E' fl al. handle_wf T' ts E' fl al F \<and> fl \<noteq> []
     \<and> used_entries E' (fl @ al) = used_entries E free \<and> HandleFlags T' = HandleFlags T)"

lemma readyI:
  "handle_wf T' ts E' fl al F \<Longrightarrow> fl \<noteq> [] \<Longrightarrow> used_entries E' (fl @ al) = used_entries E free
   \<Longrightarrow> HandleFlags T' = HandleFlags T \<Longrightarrow> ready T E free F T'"
  by (auto simp: ready_def)

lemma ready_start: "ready T E free F T' \<Longrightarrow> FreeValue T' \<noteq> -1"
  using free_list_start by (fastforce simp: ready_def handle_wf_def)

lemma loop_ready: "ready T E free F T' \<Longrightarrow> free_value_loop alloc (FreeValue T') T' = Some (Some (FreeValue T'), T')"
  using ready_start [of T E free F T'] by (subst free_value_loop.simps) (simp add: PH_HANDLE_VALUE_INVALID_def)

lemma free_value:
  assumes wf: "handle_wf T ts E fl al F" and alloc: "safe_alloc alloc"
  shows "(\<exists>T'. free_value_loop alloc (FreeValue T) T = Some (Some (FreeValue T'), T') \<and> ready T E (fl @ al) F T')
    \<or> free_value_loop alloc (FreeValue T) T = Some (None, T) \<and> fl = [] \<and> al = [] \<and> (alloc_fails alloc T \<or> length ts = 65536)"
proof (cases "fl = []")
  case False
  then have "ready T E (fl @ al) F T" using wf by (auto simp: ready_def)
  then show ?thesis using loop_ready [of T E "fl @ al" F T] by blast
next
  case True
  then have start: "FreeValue T = -1" using wf by (simp add: handle_wf_def)
  have loop: "free_value_loop alloc (FreeValue T) T = (case free_value_turn alloc T of None \<Rightarrow> None
      | Some (left, v, T') \<Rightarrow> if left then Some (v, T')
          else case v of None \<Rightarrow> None | Some freeValue \<Rightarrow> free_value_loop alloc freeValue T')"
    using start by (subst free_value_loop.simps) (auto simp: PH_HANDLE_VALUE_INVALID_def split: option.splits prod.splits)
  from move_free [OF wf] show ?thesis
  proof (elim disjE exE conjE)
    assume move: "al = []" "PhpMoveFreeHandleTableEntries T = Some (-1, T)"
    from allocate_more [OF wf alloc] show ?thesis
    proof (elim disjE exE conjE)
      fix T' t es
      assume more: "PhpAllocateMoreHandleTableEntries alloc T True = Some (True, T')" "length es = 256"
        "handle_wf T' (ts @ [t]) (E @ es) ([length E..<length E + 256] @ fl) al F" "HandleFlags T' = HandleFlags T"
      have "ready T E (fl @ al) F T'"
        by (rule readyI [OF more(3) _ used_extend [OF more(2)] more(4)]) simp
      then show ?thesis
        using loop loop_ready [of T E "fl @ al" F T' alloc] start move more(1)
        by (auto simp: free_value_turn_def PH_HANDLE_VALUE_INVALID_def)
    qed (use loop start move True in \<open>auto simp: free_value_turn_def PH_HANDLE_VALUE_INVALID_def\<close>)
  next
    fix v T' E' fl'
    assume move: "PhpMoveFreeHandleTableEntries T = Some (v, T')" "handle_wf T' ts E' fl' [] F" "set fl' = set (fl @ al)"
      "fl' \<noteq> []" "relinked E E' (set al)" "v \<noteq> -1 \<longrightarrow> v = FreeValue T'" "HandleFlags T' = HandleFlags T"
    note used = moved_used [OF move(5,3)]
    have r: "ready T E (fl @ al) F T'" unfolding ready_def using move(2,4,7) used by blast
    show ?thesis
    proof (cases "v = -1")
      case False
      then show ?thesis
        using loop start move(1,6) r by (auto simp: free_value_turn_def PH_HANDLE_VALUE_INVALID_def)
    next
      case v: True
      from allocate_more [OF move(2) alloc] show ?thesis
      proof (elim disjE exE conjE)
        fix T'' t es
        assume more: "PhpAllocateMoreHandleTableEntries alloc T' True = Some (True, T'')" "length es = 256"
          "handle_wf T'' (ts @ [t]) (E' @ es) ([length E'..<length E' + 256] @ fl') [] F" "HandleFlags T'' = HandleFlags T'"
        have "ready T E (fl @ al) F T''"
          by (rule readyI [OF more(3)]) (use used_extend [OF more(2), of E' fl' "[]"] used more(4) move(7) in simp_all)
        then show ?thesis
          using loop loop_ready [of T E "fl @ al" F T'' alloc] start move(1) v more(1)
          by (auto simp: free_value_turn_def PH_HANDLE_VALUE_INVALID_def)
      next
        assume "PhpAllocateMoreHandleTableEntries alloc T' True = Some (False, T')"
        then show ?thesis
          using loop loop_ready [OF r, of alloc] ready_start [OF r] start move(1) v r
          by (auto simp: free_value_turn_def PH_HANDLE_VALUE_INVALID_def)
      next
        assume "PhpAllocateMoreHandleTableEntries alloc T' True = Some (False, T')"
        then show ?thesis
          using loop loop_ready [OF r, of alloc] ready_start [OF r] start move(1) v r
          by (auto simp: free_value_turn_def PH_HANDLE_VALUE_INVALID_def)
      qed
    qed
  qed
qed

section \<open>Handles\<close>

lemma encode_unat: "v < 2 ^ 24 \<Longrightarrow> unat (push_bit 2 (of_nat v) + 4 :: ulong) = 4 * v + 4"
proof -
  assume v: "v < 2 ^ 24"
  have "push_bit 2 (of_nat v) + 4 = (of_nat (4 * v + 4) :: ulong)" by (simp add: push_bit_eq_mult)
  moreover have "unat (of_nat (4 * v + 4) :: ulong) = 4 * v + 4" using v by (intro unat_of_nat_ulong) simp
  ultimately show ?thesis by (simp only:)
qed

lemma decode_encode: "v < 2 ^ 24 \<Longrightarrow> PhpDecodeHandle (PhpEncodeHandle (of_nat v)) = of_nat v"
proof -
  assume v: "v < 2 ^ 24"
  have "ucast (ucast x :: ulong64) = x" for x :: ulong
    by (rule bit_word_eqI) (auto simp: bit_ucast_iff)
  then have "PhpDecodeHandle (PhpEncodeHandle (of_nat v)) = drop_bit 2 (push_bit 2 (of_nat v))"
    by (simp add: PhpDecodeHandle_def PhpEncodeHandle_def)
  also have "unat \<dots> = v"
  proof -
    have "push_bit 2 (of_nat v) = (of_nat (4 * v) :: ulong)" by (simp add: push_bit_eq_mult)
    moreover have "unat (of_nat (4 * v) :: ulong) = 4 * v" using v by (intro unat_of_nat_ulong) simp
    ultimately show ?thesis by (simp only: drop_bit_eq_div unat_div) simp
  qed
  finally show ?thesis by (rule of_nat_unatI)
qed

lemma encode_not_null: "v < 2 ^ 24 \<Longrightarrow> PhpEncodeHandle (of_nat v) \<noteq> 0"
proof
  assume v: "v < 2 ^ 24" and "PhpEncodeHandle (of_nat v) = 0"
  then have "unat (ucast (push_bit 2 (of_nat v) + 4 :: ulong) :: ulong64) = 0" by (simp add: PhpEncodeHandle_def)
  then have "unat (push_bit 2 (of_nat v) + 4 :: ulong) = 0"
    by (simp only: unsigned_ucast_eq) (simp add: take_bit_nat_eq_self order_less_trans [OF unsigned_less])
  then show False using encode_unat [OF v] by simp
qed

definition stored_entry :: "handle_entry \<Rightarrow> handle_entry" where
  "stored_entry e = \<lparr>EntryValue = (EntryValue e AND NOT 3) OR 2, Value2 = Value2 e\<rparr>"

lemma entry_bits:
  "((1 :: ulong64) AND NOT 1) OR 0 = 0" "(0 AND 3) OR (x AND NOT 3) = (x AND NOT 3 :: ulong64)"
  "set_bit 1 y = (y OR 2 :: ulong64)" "((x AND NOT 3) OR 2) AND 1 = (0 :: ulong64)"
proof -
  show "((x AND NOT 3) OR 2) AND 1 = (0 :: ulong64)"
  proof (rule bit_word_eqI)
    fix n
    have "bit (3 :: ulong64) 0" "\<not> bit (2 :: ulong64) 0" by simp_all
    then show "bit (((x AND NOT 3) OR 2) AND 1) n = bit (0 :: ulong64) n"
      by (cases n) (auto simp: bit_and_iff bit_or_iff bit_not_iff bit_1_iff)
  qed
qed (simp_all add: set_bit_eq_or push_bit_eq_mult)

text \<open>An entry is taken from the front of the free list.\<close>

lemma pop_free:
  assumes wf: "handle_wf T ts E (x # xs) al F" and e: "EntryValue e AND 1 = 0"
    and h: "holds_entries T' ts (E[x := e]) F" and T': "FreeValue T' = NextFreeValue (E ! x)"
      "FreeValueAlt T' = FreeValueAlt T" "HandleCount T' = HandleCount T + 1"
  shows "handle_wf T' ts (E[x := e]) xs al F" "used_entries E ((x # xs) @ al) x = None"
    "used_entries (E[x := e]) (xs @ al) = (used_entries E ((x # xs) @ al))(x \<mapsto> e)"
proof -
  have w: "holds_entries T ts E F" "free_list E (NextFreeValue (E ! x)) xs" "free_list E (FreeValueAlt T) al"
    "distinct ((x # xs) @ al)" "unat (HandleCount T) + length ((x # xs) @ al) = length E" "x < length E"
    "\<And>v. v < length E \<Longrightarrow> if v \<in> set ((x # xs) @ al) then EntryValue (E ! v) = 1 else EntryValue (E ! v) AND 1 = 0"
    using wf by (simp_all add: handle_wf_def)
  have "unat (HandleCount T) < 2 ^ 24" using w(5) holds_bounds [OF w(1)] by simp
  then have c: "unat (HandleCount T + 1) = Suc (unat (HandleCount T))" using unat_add_exact [of "HandleCount T" 1] by simp
  have lists: "free_list (E[x := e]) (NextFreeValue (E ! x)) xs" "free_list (E[x := e]) (FreeValueAlt T) al"
    using w(2-4) by (auto intro: free_list_update)
  have "if v \<in> set (xs @ al) then EntryValue (E[x := e] ! v) = 1 else EntryValue (E[x := e] ! v) AND 1 = 0"
    if "v < length (E[x := e])" for v
    using w(4) w(7) [of v] that e w(6) by (cases "v = x") auto
  then show "handle_wf T' ts (E[x := e]) xs al F"
    unfolding handle_wf_def using h T' lists w(4,5) c by (intro conjI allI impI) simp_all
  show "used_entries E ((x # xs) @ al) x = None" by (simp add: used_entries_def)
  show "used_entries (E[x := e]) (xs @ al) = (used_entries E ((x # xs) @ al))(x \<mapsto> e)"
    using w(4,6) by (auto simp: used_entries_def fun_eq_iff nth_list_update)
qed

lemma create_handle:
  assumes wf: "handle_wf T ts E fl al F" and alloc: "safe_alloc alloc"
  shows "PhCreateHandle alloc T e = Some (0, T) \<and> fl = [] \<and> al = [] \<and> (alloc_fails alloc T \<or> length ts = 65536)
    \<or> (\<exists>T' ts' E' fl' al' v. PhCreateHandle alloc T e = Some (PhpEncodeHandle (of_nat v), T') \<and> v < length E'
        \<and> handle_wf T' ts' E' fl' al' F \<and> used_entries E (fl @ al) v = None
        \<and> used_entries E' (fl' @ al') = (used_entries E (fl @ al))(v \<mapsto> stored_entry e) \<and> HandleFlags T' = HandleFlags T)"
  using free_value [OF wf alloc]
proof (elim disjE exE conjE)
  assume "free_value_loop alloc (FreeValue T) T = Some (None, T)" "fl = []" "al = []" "alloc_fails alloc T"
  then show ?thesis by (simp add: PhCreateHandle_def PhpAllocateHandleTableEntry.simps)
next
  assume "free_value_loop alloc (FreeValue T) T = Some (None, T)" "fl = []" "al = []" "length ts = 65536"
  then show ?thesis by (simp add: PhCreateHandle_def PhpAllocateHandleTableEntry.simps)
next
  fix T1
  assume loop: "free_value_loop alloc (FreeValue T) T = Some (Some (FreeValue T1), T1)" and "ready T E (fl @ al) F T1"
  then obtain ts1 E1 x xs al1 where r: "handle_wf T1 ts1 E1 (x # xs) al1 F" "HandleFlags T1 = HandleFlags T"
    "used_entries E1 ((x # xs) @ al1) = used_entries E (fl @ al)"
    unfolding ready_def by (metis neq_Nil_conv)
  have h: "holds_entries T1 ts1 E1 F" and x: "FreeValue T1 = of_nat x" "x < length E1" and ev: "EntryValue (E1 ! x) = 1"
    using r(1) by (auto simp: handle_wf_def)
  have ux: "unat (of_nat x :: ulong) = x" by (rule holds_index [OF h x(2)])
  let ?T2 = "T1\<lparr>FreeValue := NextFreeValue (E1 ! x), HandleCount := HandleCount T1 + 1\<rparr>"
  have entry: "PhpAllocateHandleTableEntry alloc T = Some (Some (of_nat x, slot ts1 x), ?T2)"
    using loop holds_lookup [OF h, of "FreeValue T1"] holds_read [OF h x(2)] x ux
    by (subst PhpAllocateHandleTableEntry.simps) simp
  have h2: "holds_entries ?T2 ts1 E1 F" using h by simp
  let ?e1 = "(E1 ! x)\<lparr>EntryValue := (EntryValue (E1 ! x) AND NOT 1) OR PH_HANDLE_TABLE_ENTRY_IN_USE\<rparr>"
  let ?e2 = "?e1\<lparr>EntryValue := (EntryValue ?e1 AND 3) OR (EntryValue e AND NOT 3)\<rparr>"
  let ?e3 = "?e2\<lparr>Value2 := Value2 e\<rparr>"
  let ?e4 = "?e3\<lparr>EntryValue := set_bit PH_HANDLE_TABLE_ENTRY_LOCKED_SHIFT (EntryValue ?e3)\<rparr>"
  have e4: "?e4 = stored_entry e"
    unfolding ev PH_HANDLE_TABLE_ENTRY_IN_USE_def PH_HANDLE_TABLE_ENTRY_LOCKED_SHIFT_def
    by (simp add: stored_entry_def entry_bits del: One_nat_def)
  obtain H1 where H1: "write_entry (slot ts1 x)
      (\<lambda>e. e\<lparr>EntryValue := (EntryValue e AND NOT 1) OR PH_HANDLE_TABLE_ENTRY_IN_USE\<rparr>) ?T2 = Some (?T2\<lparr>Tables := H1\<rparr>)"
    "holds_entries (?T2\<lparr>Tables := H1\<rparr>) ts1 (E1[x := ?e1]) F"
    by (rule holds_write [OF h2 x(2)])
  obtain H2 where H2: "write_entry (slot ts1 x)
      (\<lambda>e'. e'\<lparr>EntryValue := (EntryValue e' AND 3) OR (EntryValue e AND NOT 3)\<rparr>) (?T2\<lparr>Tables := H1\<rparr>) = Some (?T2\<lparr>Tables := H2\<rparr>)"
    "holds_entries (?T2\<lparr>Tables := H2\<rparr>) ts1 (E1[x := ?e2]) F"
    by (rule holds_rewrite [OF H1(2) x(2)])
  obtain H3 where H3: "write_entry (slot ts1 x) (\<lambda>e'. e'\<lparr>Value2 := Value2 e\<rparr>) (?T2\<lparr>Tables := H2\<rparr>) = Some (?T2\<lparr>Tables := H3\<rparr>)"
    "holds_entries (?T2\<lparr>Tables := H3\<rparr>) ts1 (E1[x := ?e3]) F"
    by (rule holds_rewrite [OF H2(2) x(2)])
  obtain H4 where H4: "write_entry (slot ts1 x)
      (\<lambda>e. e\<lparr>EntryValue := set_bit PH_HANDLE_TABLE_ENTRY_LOCKED_SHIFT (EntryValue e)\<rparr>) (?T2\<lparr>Tables := H3\<rparr>) = Some (?T2\<lparr>Tables := H4\<rparr>)"
    "holds_entries (?T2\<lparr>Tables := H4\<rparr>) ts1 (E1[x := ?e4]) F"
    by (rule holds_rewrite [OF H3(2) x(2)])
  have run: "PhCreateHandle alloc T e = Some (PhpEncodeHandle (of_nat x), ?T2\<lparr>Tables := H4\<rparr>)"
    using entry H1(1) H2(1) H3(1) H4(1) by (simp add: PhCreateHandle_def PhUnlockHandleTableEntry_def)
  have e1: "EntryValue (stored_entry e) AND 1 = 0" unfolding stored_entry_def handle_entry.simps by (rule entry_bits(4))
  have p: "handle_wf (?T2\<lparr>Tables := H4\<rparr>) ts1 (E1[x := stored_entry e]) xs al1 F" "used_entries E (fl @ al) x = None"
    "used_entries (E1[x := stored_entry e]) (xs @ al1) = (used_entries E (fl @ al))(x \<mapsto> stored_entry e)"
    unfolding r(3) [symmetric] by (rule pop_free [OF r(1) e1 H4(2)[unfolded e4]]; simp)+
  have f: "x < length (E1[x := stored_entry e])" "HandleFlags (?T2\<lparr>Tables := H4\<rparr>) = HandleFlags T"
    using x(2) r(2) by simp_all
  show ?thesis
    by (intro disjI2 exI conjI) (rule run f p)+
qed

section \<open>Locking and destroying\<close>

lemma bit_two: "bit (2 :: ulong64) n \<longleftrightarrow> n = 1"
proof -
  have "(2 :: ulong64) = push_bit 1 1" by (simp add: push_bit_eq_mult)
  then show ?thesis by (simp only: bit_push_bit_iff bit_1_iff) auto
qed

lemma lock_bits:
  assumes "x AND 2 \<noteq> (0 :: ulong64)"
  shows "x - 2 = x AND NOT 2" "(x - 2) OR 2 = x" "(x - 2) AND 1 = x AND 1"
proof -
  obtain n where "bit (x AND 2) n" using assms by (auto simp: bit_eq_iff)
  then have "bit x n \<and> n = 1" unfolding bit_and_iff bit_two .
  then have b: "bit x 1" by blast
  have x: "(x AND NOT 2) OR 2 = x"
    by (rule bit_word_eqI) (use b in \<open>auto simp only: bit_or_iff bit_and_iff bit_not_iff bit_two possible_bit_word\<close>)
  have "(x AND NOT 2) + 2 = (x AND NOT 2) OR 2"
    by (rule disjunctive_add) (auto simp only: bit_and_iff bit_not_iff bit_two possible_bit_word)
  then have "x = (x AND NOT 2) + 2" using x by simp
  then show d: "x - 2 = x AND NOT 2" by (metis add_diff_cancel_right')
  show "(x - 2) OR 2 = x" unfolding d by (rule x)
  show "(x - 2) AND 1 = x AND 1"
    unfolding d by (rule bit_word_eqI) (auto simp only: bit_and_iff bit_not_iff bit_two bit_1_iff possible_bit_word)
qed

lemma wf_update:
  assumes wf: "handle_wf T ts E fl al F" and v: "v < length E" "v \<notin> set (fl @ al)" and e: "EntryValue e AND 1 = 0"
    and h: "holds_entries (T\<lparr>Tables := H\<rparr>) ts (E[v := e]) F"
  shows "handle_wf (T\<lparr>Tables := H\<rparr>) ts (E[v := e]) fl al F"
    "used_entries (E[v := e]) (fl @ al) = (used_entries E (fl @ al))(v \<mapsto> e)"
proof -
  have w: "free_list E (FreeValue T) fl" "free_list E (FreeValueAlt T) al" "distinct (fl @ al)"
    "unat (HandleCount T) + length (fl @ al) = length E"
    "\<And>v. v < length E \<Longrightarrow> if v \<in> set (fl @ al) then EntryValue (E ! v) = 1 else EntryValue (E ! v) AND 1 = 0"
    using wf by (simp_all add: handle_wf_def)
  have lists: "free_list (E[v := e]) (FreeValue T) fl" "free_list (E[v := e]) (FreeValueAlt T) al"
    using w(1,2) v(2) by (auto intro: free_list_update)
  have "if u \<in> set (fl @ al) then EntryValue (E[v := e] ! u) = 1 else EntryValue (E[v := e] ! u) AND 1 = 0"
    if "u < length (E[v := e])" for u
    using w(5) [of u] that e v by (cases "u = v") auto
  then show "handle_wf (T\<lparr>Tables := H\<rparr>) ts (E[v := e]) fl al F"
    unfolding handle_wf_def using h lists w(3,4) by (intro conjI allI impI) simp_all
  show "used_entries (E[v := e]) (fl @ al) = (used_entries E (fl @ al))(v \<mapsto> e)"
    using v by (auto simp: used_entries_def fun_eq_iff nth_list_update)
qed

text \<open>An entry in use and what it holds.\<close>

lemma used_entryD:
  "used_entries E free v = Some e \<Longrightarrow> v < length E \<and> v \<notin> set free \<and> E ! v = e"
  by (auto simp: used_entries_def split: if_splits)

lemma wf_used:
  "handle_wf T ts E fl al F \<Longrightarrow> used_entries E (fl @ al) v = Some e \<Longrightarrow> EntryValue e AND 1 = 0"
  by (fastforce simp: handle_wf_def dest: used_entryD)

lemma lock_free:
  assumes "handle_wf T ts E fl al F" "v < length E" "used_entries E (fl @ al) v = None"
  shows "PhLockHandleTableEntry T (slot ts v) = Some (False, T)"
proof -
  have "EntryValue (E ! v) = 1" "holds_entries T ts E F"
    using assms by (auto simp: handle_wf_def used_entries_def split: if_splits)
  then show ?thesis using holds_read [of T ts E F v] assms(2) by (simp add: PhLockHandleTableEntry_def handle_consts)
qed

lemma lock_used:
  assumes wf: "handle_wf T ts E fl al F" and e: "used_entries E (fl @ al) v = Some e" "EntryValue e AND 2 \<noteq> 0"
  obtains H E' where "PhLockHandleTableEntry T (slot ts v) = Some (True, T\<lparr>Tables := H\<rparr>)"
    "handle_wf (T\<lparr>Tables := H\<rparr>) ts E' fl al F"
    "used_entries E' (fl @ al) = (used_entries E (fl @ al))(v \<mapsto> e\<lparr>EntryValue := EntryValue e - 2\<rparr>)"
proof -
  have v: "v < length E" "v \<notin> set (fl @ al)" "E ! v = e" using used_entryD [OF e(1)] by simp_all
  have h: "holds_entries T ts E F" using wf by (simp add: handle_wf_def)
  have ev: "EntryValue e AND 1 = 0" by (rule wf_used [OF wf e(1)])
  let ?e = "e\<lparr>EntryValue := EntryValue e - 2\<rparr>"
  obtain H where H: "write_entry (slot ts v) (\<lambda>e'. e'\<lparr>EntryValue := EntryValue e - 2\<rparr>) T = Some (T\<lparr>Tables := H\<rparr>)"
    "holds_entries (T\<lparr>Tables := H\<rparr>) ts (E[v := ?e]) F"
    by (rule holds_write [OF h v(1), of "\<lambda>e'. e'\<lparr>EntryValue := EntryValue e - 2\<rparr>"]) (use v(3) in simp)
  have "PhLockHandleTableEntry T (slot ts v) = Some (True, T\<lparr>Tables := H\<rparr>)"
    using holds_read [OF h v(1)] v(3) ev e(2) H(1) by (simp add: PhLockHandleTableEntry_def handle_consts)
  moreover have "EntryValue ?e AND 1 = 0" using lock_bits(3) [OF e(2)] ev by simp
  note u = wf_update [OF wf v(1,2) this H(2)]
  ultimately show thesis using that u by blast
qed

lemma unlock_used:
  assumes wf: "handle_wf T ts E fl al F" and e: "used_entries E (fl @ al) v = Some e"
  obtains H E' where "PhUnlockHandleTableEntry T (slot ts v) = Some (T\<lparr>Tables := H\<rparr>)"
    "handle_wf (T\<lparr>Tables := H\<rparr>) ts E' fl al F"
    "used_entries E' (fl @ al) = (used_entries E (fl @ al))(v \<mapsto> e\<lparr>EntryValue := EntryValue e OR 2\<rparr>)"
proof -
  have v: "v < length E" "v \<notin> set (fl @ al)" "E ! v = e" using used_entryD [OF e(1)] by simp_all
  have h: "holds_entries T ts E F" using wf by (simp add: handle_wf_def)
  have ev: "EntryValue e AND 1 = 0" by (rule wf_used [OF wf e(1)])
  let ?f = "\<lambda>e. e\<lparr>EntryValue := set_bit PH_HANDLE_TABLE_ENTRY_LOCKED_SHIFT (EntryValue e)\<rparr>"
  have f: "?f e = e\<lparr>EntryValue := EntryValue e OR 2\<rparr>"
    by (simp add: PH_HANDLE_TABLE_ENTRY_LOCKED_SHIFT_def entry_bits del: One_nat_def)
  obtain H where H: "write_entry (slot ts v) ?f T = Some (T\<lparr>Tables := H\<rparr>)"
    "holds_entries (T\<lparr>Tables := H\<rparr>) ts (E[v := ?f e]) F"
    by (rule holds_write [OF h v(1), of ?f]) (use v(3) in simp)
  have "(EntryValue e OR 2) AND 1 = EntryValue e AND 1 OR (2 AND 1 :: ulong64)" by (rule bit.conj_disj_distrib2)
  then have "EntryValue (e\<lparr>EntryValue := EntryValue e OR 2\<rparr>) AND 1 = 0" using ev by simp
  note u = wf_update [OF wf v(1,2) this H(2)[unfolded f]]
  show thesis using that [OF _ u] H(1) by (simp add: PhUnlockHandleTableEntry_def)
qed

text \<open>The entry goes to the front of one of the lists.\<close>

lemma release_entry:
  assumes wf: "handle_wf T ts E fl al F" and v: "v < length E" "v \<notin> set (fl @ al)"
  obtains T' E' fl' al' where
    "do { T \<leftarrow> write_entry (slot ts v) (\<lambda>e. e\<lparr>EntryValue := PH_HANDLE_TABLE_ENTRY_FREE\<rparr>) T;
          PhpFreeHandleTableEntry busy T (of_nat v) (slot ts v) } = Some T'"
    "handle_wf T' ts E' fl' al' F" "used_entries E' (fl' @ al') = (used_entries E (fl @ al))(v := None)"
    "HandleFlags T' = HandleFlags T"
proof -
  have w: "holds_entries T ts E F" "free_list E (FreeValue T) fl" "free_list E (FreeValueAlt T) al"
    "distinct (fl @ al)" "unat (HandleCount T) + length (fl @ al) = length E"
    "\<And>v. v < length E \<Longrightarrow> if v \<in> set (fl @ al) then EntryValue (E ! v) = 1 else EntryValue (E ! v) AND 1 = 0"
    using wf by (simp_all add: handle_wf_def)
  let ?e = "(E ! v)\<lparr>EntryValue := PH_HANDLE_TABLE_ENTRY_FREE\<rparr>"
  obtain H where H: "write_entry (slot ts v) (\<lambda>e. e\<lparr>EntryValue := PH_HANDLE_TABLE_ENTRY_FREE\<rparr>) T = Some (T\<lparr>Tables := H\<rparr>)"
    "holds_entries (T\<lparr>Tables := H\<rparr>) ts (E[v := ?e]) F"
    by (rule holds_write [OF w(1) v(1)])
  let ?T1 = "T\<lparr>HandleCount := HandleCount T - 1\<rparr>"
  have H1: "holds_entries (?T1\<lparr>Tables := H\<rparr>) ts (E[v := ?e]) F" using H(2) by (simp add: holds_entries_def table_repr_def)
  have "set (fl @ al) \<subseteq> {..<length E} - {v}" using wf_free_less [OF wf] v by auto
  then have "card (set (fl @ al)) \<le> card ({..<length E} - {v})" by (rule card_mono [rotated]) simp
  then have "length (fl @ al) \<le> length E - 1" using v(1) w(4) by (simp add: distinct_card del: set_append)
  then have "1 \<le> HandleCount T" using w(5) v(1) by (simp add: word_le_nat_alt)
  then have c: "unat (HandleCount T - 1) = unat (HandleCount T) - 1" "0 < unat (HandleCount T)"
    using unat_minus_exact [of 1 "HandleCount T"] by (simp_all add: word_le_nat_alt)
  have lists: "free_list (E[v := e]) (FreeValue T) fl" "free_list (E[v := e]) (FreeValueAlt T) al" for e
    using w(2,3) v(2) by (auto intro: free_list_update)
  have ev: "if u \<in> set free then EntryValue (E[v := set_NextFreeValue w ?e] ! u) = 1
      else EntryValue (E[v := set_NextFreeValue w ?e] ! u) AND 1 = 0"
    if "set free = insert v (set (fl @ al))" "u < length (E[v := set_NextFreeValue w ?e])" for free u w
    using w(6) [of u] that v by (cases "u = v") (auto simp: handle_consts)
  have used: "used_entries (E[v := e]) free = (used_entries E (fl @ al))(v := None)"
    if "set free = insert v (set (fl @ al))" for free e
    using that v by (auto simp: used_entries_def fun_eq_iff nth_list_update)
  have swap: "T\<lparr>Tables := H, HandleCount := k\<rparr> = T\<lparr>HandleCount := k, Tables := H\<rparr>" for k by (cases T) simp
  show thesis
  proof (cases "HandleFlags T AND PH_HANDLE_TABLE_STRICT_FIFO = 0 \<and> \<not> busy (PH_HANDLE_TABLE_LOCK_INDEX (of_nat v))")
    case True
    obtain H' where H': "write_entry (slot ts v) (set_NextFreeValue (FreeValue T)) (?T1\<lparr>Tables := H\<rparr>) = Some (?T1\<lparr>Tables := H'\<rparr>)"
      "holds_entries (?T1\<lparr>Tables := H'\<rparr>) ts (E[v := set_NextFreeValue (FreeValue T) ?e]) F"
      by (rule holds_rewrite [OF H1 v(1)])
    let ?T' = "?T1\<lparr>Tables := H', FreeValue := of_nat v\<rparr>" and ?E = "E[v := set_NextFreeValue (FreeValue T) ?e]"
    have "handle_wf ?T' ts ?E (v # fl) al F"
      unfolding handle_wf_def
      using H'(2) lists w(4,5) v c by (intro conjI allI impI ev) simp_all
    moreover have "do { T \<leftarrow> write_entry (slot ts v) (\<lambda>e. e\<lparr>EntryValue := PH_HANDLE_TABLE_ENTRY_FREE\<rparr>) T;
        PhpFreeHandleTableEntry busy T (of_nat v) (slot ts v) } = Some ?T'"
      using H(1) H'(1) True by (simp add: PhpFreeHandleTableEntry_def Let_def swap)
    moreover have "used_entries ?E ((v # fl) @ al) = (used_entries E (fl @ al))(v := None)" by (rule used) simp
    ultimately show thesis using that by simp
  next
    case False
    obtain H' where H': "write_entry (slot ts v) (set_NextFreeValue (FreeValueAlt T)) (?T1\<lparr>Tables := H\<rparr>) = Some (?T1\<lparr>Tables := H'\<rparr>)"
      "holds_entries (?T1\<lparr>Tables := H'\<rparr>) ts (E[v := set_NextFreeValue (FreeValueAlt T) ?e]) F"
      by (rule holds_rewrite [OF H1 v(1)])
    let ?T' = "?T1\<lparr>Tables := H', FreeValueAlt := of_nat v\<rparr>" and ?E = "E[v := set_NextFreeValue (FreeValueAlt T) ?e]"
    have "handle_wf ?T' ts ?E fl (v # al) F"
      unfolding handle_wf_def
      using H'(2) lists w(4,5) v c by (intro conjI allI impI ev) simp_all
    moreover have "do { T \<leftarrow> write_entry (slot ts v) (\<lambda>e. e\<lparr>EntryValue := PH_HANDLE_TABLE_ENTRY_FREE\<rparr>) T;
        PhpFreeHandleTableEntry busy T (of_nat v) (slot ts v) } = Some ?T'"
      using H(1) H'(1) False by (auto simp: PhpFreeHandleTableEntry_def Let_def swap)
    moreover have "used_entries ?E (fl @ v # al) = (used_entries E (fl @ al))(v := None)" by (rule used) auto
    ultimately show thesis using that by simp
  qed
qed

text \<open>The entry a handle stands for: \<open>decoded\<close> is its index.\<close>

definition decoded :: "ulong64 \<Rightarrow> nat" where
  "decoded h = unat (PhpDecodeHandle h)"

lemma lookup_handle:
  assumes wf: "handle_wf T ts E fl al F"
  shows "used_entries E (fl @ al) (decoded h) = None \<Longrightarrow> PhLookupHandleTableEntry T h = Some (None, T)"
    and "used_entries E (fl @ al) (decoded h) = Some e \<Longrightarrow> EntryValue e AND 2 \<noteq> 0 \<Longrightarrow>
      \<exists>H E'. PhLookupHandleTableEntry T h = Some (Some (slot ts (decoded h)), T\<lparr>Tables := H\<rparr>)
        \<and> handle_wf (T\<lparr>Tables := H\<rparr>) ts E' fl al F
        \<and> used_entries E' (fl @ al) = (used_entries E (fl @ al))(decoded h \<mapsto> e\<lparr>EntryValue := EntryValue e - 2\<rparr>)"
proof -
  have h: "holds_entries T ts E F" using wf by (simp add: handle_wf_def)
  note look = holds_lookup [OF h, of "PhpDecodeHandle h", folded decoded_def]
  show "PhLookupHandleTableEntry T h = Some (None, T)" if "used_entries E (fl @ al) (decoded h) = None"
    using look lock_free [OF wf _ that] by (simp add: PhLookupHandleTableEntry_def)
  show "\<exists>H E'. PhLookupHandleTableEntry T h = Some (Some (slot ts (decoded h)), T\<lparr>Tables := H\<rparr>)
        \<and> handle_wf (T\<lparr>Tables := H\<rparr>) ts E' fl al F
        \<and> used_entries E' (fl @ al) = (used_entries E (fl @ al))(decoded h \<mapsto> e\<lparr>EntryValue := EntryValue e - 2\<rparr>)"
    if e: "used_entries E (fl @ al) (decoded h) = Some e" "EntryValue e AND 2 \<noteq> 0"
  proof -
    obtain H E' where l: "PhLockHandleTableEntry T (slot ts (decoded h)) = Some (True, T\<lparr>Tables := H\<rparr>)"
      "handle_wf (T\<lparr>Tables := H\<rparr>) ts E' fl al F"
      "used_entries E' (fl @ al) = (used_entries E (fl @ al))(decoded h \<mapsto> e\<lparr>EntryValue := EntryValue e - 2\<rparr>)"
      by (rule lock_used [OF wf e])
    have "decoded h < length E" using used_entryD [OF e(1)] by simp
    then show ?thesis using look l by (intro exI [of _ H] exI [of _ E']) (simp add: PhLookupHandleTableEntry_def)
  qed
qed

lemma decoded_word: "PhpDecodeHandle h = of_nat (decoded h)"
  by (simp add: decoded_def)

lemma destroy_handle:
  assumes wf: "handle_wf T ts E fl al F"
  shows "used_entries E (fl @ al) (decoded h) = None \<Longrightarrow> PhDestroyHandle busy T h None = Some (False, T)"
    and "used_entries E (fl @ al) (decoded h) = Some e \<Longrightarrow> EntryValue e AND 2 \<noteq> 0 \<Longrightarrow>
      \<exists>T' E' fl' al'. PhDestroyHandle busy T h None = Some (True, T') \<and> handle_wf T' ts E' fl' al' F
        \<and> used_entries E' (fl' @ al') = (used_entries E (fl @ al))(decoded h := None) \<and> HandleFlags T' = HandleFlags T"
    and "used_entries E (fl @ al) (decoded h) = Some e \<Longrightarrow>
      \<exists>T' E' fl' al'. PhDestroyHandle busy T h (Some (slot ts (decoded h))) = Some (True, T') \<and> handle_wf T' ts E' fl' al' F
        \<and> used_entries E' (fl' @ al') = (used_entries E (fl @ al))(decoded h := None) \<and> HandleFlags T' = HandleFlags T"
proof -
  have h: "holds_entries T ts E F" using wf by (simp add: handle_wf_def)
  note look = holds_lookup [OF h, of "PhpDecodeHandle h", folded decoded_def]
  show "PhDestroyHandle busy T h None = Some (False, T)" if "used_entries E (fl @ al) (decoded h) = None"
    using look lock_free [OF wf _ that] by (simp add: PhDestroyHandle_def Let_def)
  show "\<exists>T' E' fl' al'. PhDestroyHandle busy T h None = Some (True, T') \<and> handle_wf T' ts E' fl' al' F
        \<and> used_entries E' (fl' @ al') = (used_entries E (fl @ al))(decoded h := None) \<and> HandleFlags T' = HandleFlags T"
    if e: "used_entries E (fl @ al) (decoded h) = Some e" "EntryValue e AND 2 \<noteq> 0"
  proof -
    obtain H E1 where l: "PhLockHandleTableEntry T (slot ts (decoded h)) = Some (True, T\<lparr>Tables := H\<rparr>)"
      "handle_wf (T\<lparr>Tables := H\<rparr>) ts E1 fl al F"
      "used_entries E1 (fl @ al) = (used_entries E (fl @ al))(decoded h \<mapsto> e\<lparr>EntryValue := EntryValue e - 2\<rparr>)"
      by (rule lock_used [OF wf e])
    have v: "decoded h < length E1" "decoded h \<notin> set (fl @ al)"
      using used_entryD [of E1 "fl @ al" "decoded h"] l(3) by simp_all
    have len: "decoded h < length E" using used_entryD [OF e(1)] by simp
    obtain T' E' fl' al' where f: "do { T \<leftarrow> write_entry (slot ts (decoded h)) (\<lambda>e. e\<lparr>EntryValue := PH_HANDLE_TABLE_ENTRY_FREE\<rparr>) (T\<lparr>Tables := H\<rparr>);
          PhpFreeHandleTableEntry busy T (of_nat (decoded h)) (slot ts (decoded h)) } = Some T'"
      "handle_wf T' ts E' fl' al' F" "used_entries E' (fl' @ al') = (used_entries E1 (fl @ al))(decoded h := None)"
      "HandleFlags T' = HandleFlags (T\<lparr>Tables := H\<rparr>)"
      by (rule release_entry [OF l(2) v])
    have "PhDestroyHandle busy T h None = Some (True, T')"
      using look len l(1) f(1) by (auto simp: PhDestroyHandle_def Let_def decoded_word bind_eq_Some_conv)
    then show ?thesis
      using f(2-4) l(3) by (intro exI [of _ T'] exI [of _ E'] exI [of _ fl'] exI [of _ al']) simp
  qed
  show "\<exists>T' E' fl' al'. PhDestroyHandle busy T h (Some (slot ts (decoded h))) = Some (True, T') \<and> handle_wf T' ts E' fl' al' F
        \<and> used_entries E' (fl' @ al') = (used_entries E (fl @ al))(decoded h := None) \<and> HandleFlags T' = HandleFlags T"
    if e: "used_entries E (fl @ al) (decoded h) = Some e"
  proof -
    have v: "decoded h < length E" "decoded h \<notin> set (fl @ al)" using used_entryD [OF e(1)] by simp_all
    obtain T' E' fl' al' where f: "do { T \<leftarrow> write_entry (slot ts (decoded h)) (\<lambda>e. e\<lparr>EntryValue := PH_HANDLE_TABLE_ENTRY_FREE\<rparr>) T;
          PhpFreeHandleTableEntry busy T (of_nat (decoded h)) (slot ts (decoded h)) } = Some T'"
      "handle_wf T' ts E' fl' al' F" "used_entries E' (fl' @ al') = (used_entries E (fl @ al))(decoded h := None)"
      "HandleFlags T' = HandleFlags T"
      by (rule release_entry [OF wf v])
    have "PhDestroyHandle busy T h (Some (slot ts (decoded h))) = Some (True, T')"
      using f(1) by (auto simp: PhDestroyHandle_def Let_def decoded_word bind_eq_Some_conv)
    then show ?thesis
      using f(2-4) by (intro exI [of _ T'] exI [of _ E'] exI [of _ fl'] exI [of _ al']) simp
  qed
qed

end
