(* ===== verification/HandleProps.thy ===== *)
theory HandleProps
  imports HandleOps
begin

text \<open>
  What a handle table promises: every sequence of calls does to a map from indices to entries what
  the specification says, the table is a store of handles in the sense of theory HandleStore, it is
  enumerated in order, and destroying it frees its memory and nothing else.
\<close>

unbundle bit_operations_syntax

section \<open>A new table\<close>

lemma create_table:
  assumes "safe_alloc alloc" "PhCreateHandleTable alloc H = Some (Some T)"
  obtains ts E where "handle_wf T ts E [0..<256] [] H" "used_entries E ([0..<256] @ []) = Map.empty" "HandleFlags T = 0"
proof -
  let ?T = "\<lparr>HandleCount = 0, TableValue = 0, FreeValue = 0, NextValue = 0, FreeValueAlt = 0, HandleFlags = 0, Tables = H\<rparr>"
  have n: "NextValue ?T = of_nat 0" by simp
  have small: "(0 :: nat) + 256 < 2 ^ 32" by simp
  from create_level0 [OF assms(1) n small] show thesis
  proof (elim disjE exE conjE)
    assume "PhpCreateHandleTableLevel0 alloc ?T True = Some (0, ?T)"
    then show thesis using assms(2) by (simp add: PhCreateHandleTable_def)
  next
    fix a es
    assume a: "PhpCreateHandleTableLevel0 alloc ?T True = Some (a, ?T\<lparr>Tables := (Tables ?T)(a \<mapsto> Entries es)\<rparr>)"
      "new_entries 0 es" "a \<noteq> 0" "a AND 3 = 0" "Tables ?T a = None"
    have T: "T = \<lparr>HandleCount = 0, TableValue = a, FreeValue = 0, NextValue = 256, FreeValueAlt = -1, HandleFlags = 0,
        Tables = H(a \<mapsto> Entries es)\<rparr>"
      using assms(2) a(1,3) by (simp add: PhCreateHandleTable_def handle_consts PH_HANDLE_VALUE_INVALID_def)
    have es: "length es = 256" "\<forall>j < 256. EntryValue (es ! j) = 1" "NextFreeValue (es ! 255) = -1"
      using a(2) by (simp_all add: new_entries_def)
    have "chunk 0 es = es" using es(1) by (simp add: chunk_def)
    then have "table_repr T a [a] [] es H"
      using a(3-5) es(1) by (auto simp: T table_repr_def index_shape_def tables_of_def word_less_nat_alt intro: exI [of _ 0])
    then have h: "holds_entries T [a] es H" using es(1) by (auto simp: holds_entries_def T)
    have upd: "es[255 := set_NextFreeValue (-1) (es ! 255)] = es"
    proof -
      have "set_NextFreeValue (-1) (es ! 255) = es ! 255"
        using es(3) by (rule set_next_same)
      then show ?thesis by simp
    qed
    have "free_list ([] @ es[255 := set_NextFreeValue (-1) (es ! 255)]) (of_nat (0 + (255 - 255))) ([0 + (255 - 255)..<0 + 256] @ [])"
      by (rule free_list_new [OF a(2)]) simp_all
    then have "free_list es 0 [0..<256]" unfolding upd by simp
    then have "handle_wf T [a] es [0..<256] [] H"
      unfolding handle_wf_def using h es by (intro conjI allI impI) (simp_all add: T)
    moreover have "used_entries es ([0..<256] @ []) = Map.empty" using es(1) by (auto simp: used_entries_def)
    ultimately show thesis using that by (simp add: T)
  qed
qed

section \<open>Destroying the table\<close>

lemma free_step:
  "p \<noteq> 0 \<Longrightarrow> Tables T p = Some b \<Longrightarrow> PhpFreeHandleTableLevel0 p T = Some (T\<lparr>Tables := (Tables T)(p := None)\<rparr>)"
  by (simp add: PhpFreeHandleTableLevel0_def free_table_def)

text \<open>The loop over a table of pointers that are \<open>ps\<close> from index \<open>i\<close> on.\<close>

lemma free_all0:
  "Tables T a = Some (Pointers (padded (qs @ ps))) \<Longrightarrow> length (qs @ ps) \<le> 256 \<Longrightarrow> a \<notin> set ps \<Longrightarrow> distinct ps
   \<Longrightarrow> (\<forall>p \<in> set ps. p \<noteq> 0 \<and> Tables T p \<noteq> None) \<Longrightarrow>
   free_tables0 a (of_nat (length qs)) T = Some (T\<lparr>Tables := (\<lambda>x. if x \<in> set ps then None else Tables T x)\<rparr>)"
proof (induction ps arbitrary: qs T)
  case Nil
  have u: "unat (of_nat (length qs) :: ulong) = length qs" using Nil.prems(2) by (intro unat_of_nat_ulong) simp
  show ?case
  proof (cases "length qs < 256")
    case True
    then have "read_pointer T a (length qs) = Some 0"
      using Nil.prems(1) by (simp add: read_pointer_def length_padded padded_end)
    then show ?thesis using u True by (subst free_tables0.simps) (simp add: handle_consts word_less_nat_alt)
  next
    case False
    then show ?thesis using u by (subst free_tables0.simps) (simp add: handle_consts word_less_nat_alt)
  qed
next
  case (Cons p ps)
  have u: "unat (of_nat (length qs) :: ulong) = length qs" using Cons.prems(2) by (intro unat_of_nat_ulong) simp
  have r: "read_pointer T a (length qs) = Some p"
    using Cons.prems(1,2) by (simp add: read_pointer_def length_padded padded_nth)
  have less: "of_nat (length qs) < PH_HANDLE_TABLE_LEVEL_ENTRIES"
    using u Cons.prems(2) by (simp add: handle_consts word_less_nat_alt)
  obtain b where p: "p \<noteq> 0" "Tables T p = Some b" using Cons.prems(5) by auto
  let ?T = "T\<lparr>Tables := (Tables T)(p := None)\<rparr>"
  have "free_tables0 a (of_nat (length (qs @ [p]))) ?T = Some (?T\<lparr>Tables := (\<lambda>x. if x \<in> set ps then None else Tables ?T x)\<rparr>)"
    by (rule Cons.IH) (use Cons.prems in auto)
  moreover have "free_tables0 a (of_nat (length qs)) T = free_tables0 a (of_nat (length (qs @ [p]))) ?T"
    using u r p free_step [OF p] less by (subst free_tables0.simps) (simp add: add.commute)
  moreover have "(\<lambda>x. if x \<in> set ps then None else Tables ?T x) = (\<lambda>x. if x \<in> set (p # ps) then None else Tables T x)"
    by (auto simp: fun_eq_iff)
  ultimately show ?case by simp
qed

lemma take_chunk: "set (take (256 * Suc j) xs) = set (take (256 * j) xs) \<union> set (chunk j xs)"
proof -
  have "256 * Suc j = 256 * j + 256" by simp
  then have "take (256 * Suc j) xs = take (256 * j) xs @ chunk j xs" by (simp only: chunk_def take_add)
  then show ?thesis by simp
qed

lemma chunk_apart: "distinct xs \<Longrightarrow> set (chunk j xs) \<inter> set (take (256 * j) xs) = {}"
  using distinct_append [of "take (256 * j) xs" "drop (256 * j) xs"] by (auto simp: chunk_def dest: in_set_takeD)

lemma free_all1:
  assumes us: "Tables T a = Some (Pointers (padded us))" "length us \<le> 256" "a \<notin> set us" "a \<notin> set ts" "distinct us" "distinct ts"
    "set us \<inter> set ts = {}" "\<And>j. j < length us \<Longrightarrow> Tables T (us ! j) = Some (Pointers (padded (chunk j ts)))"
    "\<And>p. p \<in> set us \<union> set ts \<Longrightarrow> p \<noteq> 0" "\<And>p. p \<in> set ts \<Longrightarrow> Tables T p \<noteq> None" "length ts \<le> 256 * length us"
  shows "j \<le> length us \<Longrightarrow>
    free_tables1 a (of_nat j) (T\<lparr>Tables := \<lambda>x. if x \<in> set (take (256 * j) ts) \<union> set (take j us) then None else Tables T x\<rparr>)
    = Some (T\<lparr>Tables := \<lambda>x. if x \<in> set ts \<union> set us then None else Tables T x\<rparr>)"
proof (induction "length us - j" arbitrary: j)
  case 0
  let ?T = "T\<lparr>Tables := \<lambda>x. if x \<in> set ts \<union> set us then None else Tables T x\<rparr>"
  have j: "j = length us" "take (256 * j) ts = ts" "take j us = us" using 0 us(11) by simp_all
  have u: "unat (of_nat j :: ulong) = j" using j us(2) by (intro unat_of_nat_ulong) simp
  have "free_tables1 a (of_nat j) ?T = Some ?T"
  proof (cases "j < 256")
    case True
    then have "read_pointer ?T a j = Some 0"
      using us(1,3,4) j(1) by (simp add: read_pointer_def length_padded padded_end)
    then show ?thesis using u True by (subst free_tables1.simps) (simp add: handle_consts word_less_nat_alt)
  next
    case False
    then show ?thesis using u by (subst free_tables1.simps) (simp add: handle_consts word_less_nat_alt)
  qed
  then show ?case unfolding j(2,3) .
next
  case (Suc d)
  have j: "j < length us" "d = length us - Suc j" using Suc.hyps(2) Suc.prems by simp_all
  let ?T = "T\<lparr>Tables := \<lambda>x. if x \<in> set (take (256 * j) ts) \<union> set (take j us) then None else Tables T x\<rparr>"
  let ?p = "us ! j"
  have u: "unat (of_nat j :: ulong) = j" using j us(2) by (intro unat_of_nat_ulong) simp
  have subs: "set (take (256 * j) ts) \<subseteq> set ts" "set (take j us) \<subseteq> set us" "set (chunk j ts) \<subseteq> set ts"
    by (auto simp: chunk_def dest: in_set_takeD in_set_dropD)
  have "distinct (take j us @ drop j us)" using us(5) by simp
  then have pj: "?p \<notin> set (take j us)" using j(1) by (auto simp: Cons_nth_drop_Suc [symmetric])
  have "?p \<in> set us" using j(1) by simp
  then have p: "?p \<in> set us" "?p \<notin> set ts" "?p \<noteq> 0" using us(7,9) by (auto simp: disjoint_iff)
  have a: "Tables ?T a = Some (Pointers (padded us))" using us(1,3,4) subs by auto
  have r: "read_pointer ?T a j = Some ?p"
    using a j(1) us(2) by (simp only: read_pointer_def) (simp add: length_padded padded_nth)
  have Tp: "Tables ?T ?p = Some (Pointers (padded ([] @ chunk j ts)))"
    using us(8) [OF j(1)] pj p subs by auto
  let ?T1 = "?T\<lparr>Tables := (\<lambda>x. if x \<in> set (chunk j ts) then None else Tables ?T x)\<rparr>"
  have f0: "free_tables0 ?p (of_nat (length ([] :: ulong64 list))) ?T = Some ?T1"
  proof (rule free_all0 [OF Tp])
    show "length ([] @ chunk j ts) \<le> 256" by (simp add: length_chunk_le)
    show "?p \<notin> set (chunk j ts)" using p subs by auto
    show "distinct (chunk j ts)" using us(6) by (simp add: chunk_def)
    show "\<forall>q \<in> set (chunk j ts). q \<noteq> 0 \<and> Tables ?T q \<noteq> None"
    proof
      fix q
      assume q: "q \<in> set (chunk j ts)"
      then have "q \<in> set ts" "q \<notin> set us" "q \<notin> set (take (256 * j) ts)"
        using subs us(7) chunk_apart [OF us(6), of j] by blast+
      moreover from this have "q \<notin> set (take j us)" using subs by blast
      ultimately show "q \<noteq> 0 \<and> Tables ?T q \<noteq> None" using us(9,10) by simp
    qed
  qed
  let ?T2 = "T\<lparr>Tables := \<lambda>x. if x \<in> set (take (256 * Suc j) ts) \<union> set (take (Suc j) us) then None else Tables T x\<rparr>"
  have "take (Suc j) us = take j us @ [?p]" using j(1) by (rule take_Suc_conv_app_nth)
  then have heap: "(Tables ?T1)(?p := None) = (\<lambda>x. if x \<in> set (take (256 * Suc j) ts) \<union> set (take (Suc j) us) then None else Tables T x)"
    unfolding take_chunk by (auto simp: fun_eq_iff)
  have "Tables ?T1 ?p \<noteq> None" using Tp p subs by auto
  then have f1: "PhpFreeHandleTableLevel1 ?p ?T1 = Some ?T2"
    unfolding PhpFreeHandleTableLevel1_def free_table_def heap by simp
  have "of_nat j < PH_HANDLE_TABLE_LEVEL_ENTRIES" using u j us(2) by (simp add: handle_consts word_less_nat_alt)
  then have "free_tables1 a (of_nat j) ?T = free_tables1 a (of_nat (Suc j)) ?T2"
    using u r p(3) f0 f1 by (subst free_tables1.simps) (simp add: add.commute del: fun_upd_apply take_Suc)
  also have "\<dots> = Some (T\<lparr>Tables := \<lambda>x. if x \<in> set ts \<union> set us then None else Tables T x\<rparr>)"
    by (rule Suc.hyps(1) [OF j(2)]) (use j in simp)
  finally show ?case .
qed

lemma chunks_bound:
  assumes "(n :: nat) \<le> 65536"
  shows "(n + 255) div 256 \<le> 256 \<and> n \<le> 256 * ((n + 255) div 256)"
proof (cases "n mod 256 = 0")
  case True
  then have "n = 256 * (n div 256)" using div_mult_mod_eq [of n 256] by simp
  then have "n div 256 \<le> 256 \<and> n \<le> 256 * (n div 256)" using assms by linarith
  then show ?thesis using True by (simp add: chunks_of)
next
  case False
  define q r where "q = n div 256" and "r = n mod 256"
  have "n = 256 * q + r" "r < 256" "0 < r" using False by (simp_all add: q_def r_def)
  then have "n div 256 + 1 \<le> 256" "n \<le> 256 * (n div 256 + 1)" using assms unfolding q_def [symmetric] by simp_all
  then show ?thesis using False by (simp add: chunks_of)
qed

lemma destroy_table:
  assumes repr: "table_repr T root ts us E F"
  shows "PhDestroyHandleTable T = Some F"
proof -
  note lv = repr_level(1,2) [OF repr]
  have own: "\<And>a. a \<in> tables_of root ts us \<Longrightarrow> F a = None" "\<And>a. a \<notin> tables_of root ts us \<Longrightarrow> Tables T a = F a"
    "\<And>a. a \<in> tables_of root ts us \<Longrightarrow> a \<noteq> 0" "distinct ts" "distinct us"
    using repr by (simp_all add: table_repr_def)
  have blocks: "Tables T p \<noteq> None" if "p \<in> set ts" for p
    using own_block [OF repr, of p] that by (auto simp: tables_of_def)
  have F: "(\<lambda>x. if x \<in> set ts \<union> set us then None else Tables T x)(root := None) = F"
    using own(1,2) by (auto simp: fun_eq_iff tables_of_def)
  consider "table_level T = 0" "ts = [root]" "us = []"
    | "table_level T = 1" "length ts \<le> 256" "us = []" "Tables T root = Some (Pointers (padded ts))"
    | "table_level T = 2" "length ts \<le> 65536" "length us = (length ts + 255) div 256" "root \<notin> set us"
        "Tables T root = Some (Pointers (padded us))"
        "\<forall>j < length us. Tables T (us ! j) = Some (Pointers (padded (chunk j ts)))"
    using lv(1) by (auto simp: index_shape_def)
  then show ?thesis
  proof cases
    case 1
    have "(Tables T)(root := None) = F" using own(1,2) 1 by (auto simp: fun_eq_iff tables_of_def)
    then show ?thesis
      using 1 lv(2) blocks own(3) by (simp add: PhDestroyHandleTable_def PhpFreeHandleTableLevel0_def free_table_def)
  next
    case 2
    have root: "root \<notin> set ts" by (rule not_entries [OF repr 2(4)])
    let ?T = "T\<lparr>Tables := (\<lambda>x. if x \<in> set ts then None else Tables T x)\<rparr>"
    have "free_tables0 root (of_nat (length ([] :: ulong64 list))) T = Some ?T"
      by (rule free_all0) (use 2 root own blocks in \<open>auto simp: tables_of_def\<close>)
    then show ?thesis
      using 2(1,3,4) lv(2) root F
      by (simp add: PhDestroyHandleTable_def PhpFreeHandleTableLevel1_def free_table_def)
  next
    case 3
    have root: "root \<notin> set ts" by (rule not_entries [OF repr 3(5)])
    have apart: "set us \<inter> set ts = {}" using 3(6) not_entries [OF repr] by (auto simp: in_set_conv_nth)
    have len: "length us \<le> 256" "length ts \<le> 256 * length us"
      unfolding 3(3) using chunks_bound [OF 3(2)] by simp_all
    let ?T = "T\<lparr>Tables := \<lambda>x. if x \<in> set ts \<union> set us then None else Tables T x\<rparr>"
    have "free_tables1 root (of_nat 0) (T\<lparr>Tables := \<lambda>x. if x \<in> set (take (256 * 0) ts) \<union> set (take 0 us) then None else Tables T x\<rparr>) = Some ?T"
      by (rule free_all1) (use 3 root own apart blocks len in \<open>auto simp: tables_of_def\<close>)
    then have "free_tables1 root 0 T = Some ?T" by simp
    then show ?thesis
      using 3(1,4,5) lv(2) root F
      by (simp add: PhDestroyHandleTable_def PhpFreeHandleTableLevel2_def free_table_def)
  qed
qed

section \<open>Sequences of calls\<close>

text \<open>
  A call names an entry by its handle; \<open>Unlock\<close> and \<open>DestroyLocked\<close> pass the entry that looking the
  handle up has locked.  \<open>Destroy\<close> and \<open>DestroyLocked\<close> say whether the lock of the index is held by
  somebody who pops the free list.
\<close>

datatype handle_call =
    Create handle_entry
  | Lookup ulong64
  | Unlock ulong64
  | Destroy bool ulong64
  | DestroyLocked bool ulong64
  | SetFlags ulong

datatype handle_result = Handle ulong64 | Found bool | Unlocked | Answer handle_status

definition handle_slot :: "handle_table \<Rightarrow> ulong64 \<Rightarrow> entry_ptr option" where
  "handle_slot T h = do { p \<leftarrow> PhpLookupHandleTableEntry T (PhpDecodeHandle h); p }"

fun run_handle_call :: "table_alloc \<Rightarrow> handle_call \<Rightarrow> handle_table \<Rightarrow> (handle_result \<times> handle_table) option" where
  "run_handle_call alloc (Create e) T = do { (h, T) \<leftarrow> PhCreateHandle alloc T e; Some (Handle h, T) }"
| "run_handle_call alloc (Lookup h) T = do { (p, T) \<leftarrow> PhLookupHandleTableEntry T h; Some (Found (p \<noteq> None), T) }"
| "run_handle_call alloc (Unlock h) T = do {
     p \<leftarrow> handle_slot T h;
     T \<leftarrow> PhUnlockHandleTableEntry T p;
     Some (Unlocked, T)
   }"
| "run_handle_call alloc (Destroy busy h) T = do {
     (b, T) \<leftarrow> PhDestroyHandle (\<lambda>_. busy) T h None;
     Some (Found b, T)
   }"
| "run_handle_call alloc (DestroyLocked busy h) T = do {
     p \<leftarrow> handle_slot T h;
     (b, T) \<leftarrow> PhDestroyHandle (\<lambda>_. busy) T h (Some p);
     Some (Found b, T)
   }"
| "run_handle_call alloc (SetFlags f) T =
     (let (s, T) = PhSetInformationHandleTable T 1 f 4 in Some (Answer s, T))"

text \<open>
  The specification: a map from indices to entries, bit 1 of an entry being clear when it is
  locked.  It says for a call and the result of the code what the map is then, or that the result
  is wrong.
\<close>

fun spec_handle_call ::
  "handle_call \<Rightarrow> handle_result \<Rightarrow> (nat \<rightharpoonup> handle_entry) \<Rightarrow> (nat \<rightharpoonup> handle_entry) option" where
  "spec_handle_call (Create e) (Handle h) m = (
     if h = 0 then Some m
     else if h = PhpEncodeHandle (of_nat (decoded h)) \<and> decoded h < 2 ^ 24 \<and> m (decoded h) = None
     then Some (m(decoded h \<mapsto> stored_entry e)) else None)"
| "spec_handle_call (Lookup h) (Found b) m = (case m (decoded h) of
     None \<Rightarrow> if b then None else Some m
   | Some e \<Rightarrow> if b then Some (m(decoded h \<mapsto> e\<lparr>EntryValue := EntryValue e - 2\<rparr>)) else None)"
| "spec_handle_call (Unlock h) Unlocked m = (case m (decoded h) of
     None \<Rightarrow> None
   | Some e \<Rightarrow> Some (m(decoded h \<mapsto> e\<lparr>EntryValue := EntryValue e OR 2\<rparr>)))"
| "spec_handle_call (Destroy busy h) (Found b) m = (case m (decoded h) of
     None \<Rightarrow> if b then None else Some m
   | Some e \<Rightarrow> if b then Some (m(decoded h := None)) else None)"
| "spec_handle_call (DestroyLocked busy h) (Found b) m = (case m (decoded h) of
     None \<Rightarrow> None
   | Some e \<Rightarrow> if b then Some (m(decoded h := None)) else None)"
| "spec_handle_call (SetFlags f) (Answer s) m =
     (if s = (if f AND 1 = f then Success else InvalidParameter) then Some m else None)"
| "spec_handle_call _ _ m = None"

text \<open>
  The calls of a single thread: it does not wait for an entry it has locked, and it unlocks and
  destroys only entries in use.
\<close>

fun proper_handle_call :: "handle_call \<Rightarrow> (nat \<rightharpoonup> handle_entry) \<Rightarrow> bool" where
  "proper_handle_call (Create e) m \<longleftrightarrow> True"
| "proper_handle_call (Lookup h) m \<longleftrightarrow> (case m (decoded h) of None \<Rightarrow> True | Some e \<Rightarrow> EntryValue e AND 2 \<noteq> 0)"
| "proper_handle_call (Unlock h) m \<longleftrightarrow> m (decoded h) \<noteq> None"
| "proper_handle_call (Destroy busy h) m \<longleftrightarrow> (case m (decoded h) of None \<Rightarrow> True | Some e \<Rightarrow> EntryValue e AND 2 \<noteq> 0)"
| "proper_handle_call (DestroyLocked busy h) m \<longleftrightarrow> m (decoded h) \<noteq> None"
| "proper_handle_call (SetFlags f) m \<longleftrightarrow> True"

text \<open>
  The code and the specification side by side: they agree as long as the calls are proper, the
  table counts its handles, and destroying it at any time leaves the memory \<open>F\<close> of the others.
\<close>

fun agree :: "table_alloc \<Rightarrow> table_heap \<Rightarrow> handle_call list \<Rightarrow> handle_table \<Rightarrow> (nat \<rightharpoonup> handle_entry) \<Rightarrow> bool" where
  "agree alloc F [] T m \<longleftrightarrow> unat (HandleCount T) = card (dom m) \<and> PhDestroyHandleTable T = Some F"
| "agree alloc F (c # cs) T m \<longleftrightarrow>
     (if proper_handle_call c m then
        case run_handle_call alloc c T of
          None \<Rightarrow> False
        | Some (r, T) \<Rightarrow> (case spec_handle_call c r m of None \<Rightarrow> False | Some m \<Rightarrow> agree alloc F cs T m)
      else True)"

definition handles :: "handle_table \<Rightarrow> (nat \<rightharpoonup> handle_entry) \<Rightarrow> table_heap \<Rightarrow> bool" where
  "handles T m F \<longleftrightarrow> (\<exists>ts E fl al. handle_wf T ts E fl al F \<and> m = used_entries E (fl @ al))"

lemma handles_end: "handles T m F \<Longrightarrow> unat (HandleCount T) = card (dom m) \<and> PhDestroyHandleTable T = Some F"
proof -
  assume "handles T m F"
  then obtain ts E fl al where wf: "handle_wf T ts E fl al F" and m: "m = used_entries E (fl @ al)"
    by (auto simp: handles_def)
  obtain root us where "table_repr T root ts us E F" using wf by (auto simp: handle_wf_def holds_entries_def)
  then show ?thesis using destroy_table count_used [OF wf] m by simp
qed

lemma handlesI: "handle_wf T ts E fl al F \<Longrightarrow> used_entries E (fl @ al) = m \<Longrightarrow> handles T m F"
  by (auto simp: handles_def)

lemma decoded_encode: "v < 2 ^ 24 \<Longrightarrow> decoded (PhpEncodeHandle (of_nat v)) = v"
  by (simp only: decoded_def decode_encode) (rule unat_of_nat_ulong, simp)

lemma run_handle_call_correct:
  assumes "safe_alloc alloc" "handles T m F" "proper_handle_call c m"
  shows "\<exists>r T' m'. run_handle_call alloc c T = Some (r, T') \<and> spec_handle_call c r m = Some m' \<and> handles T' m' F"
proof -
  obtain ts E fl al where wf: "handle_wf T ts E fl al F" and m: "m = used_entries E (fl @ al)"
    using assms(2) by (auto simp: handles_def)
  have h: "holds_entries T ts E F" using wf by (simp add: handle_wf_def)
  have slot: "handle_slot T x = Some (slot ts (decoded x))" if "m (decoded x) = Some e" for x e
    using holds_lookup [OF h, of "PhpDecodeHandle x", folded decoded_def] used_entryD [OF that [unfolded m]]
    by (simp add: handle_slot_def)
  show ?thesis
  proof (cases c)
    case (Create e)
    from create_handle [OF wf assms(1), of e] show ?thesis
    proof (elim disjE exE conjE)
      fix T' ts' E' fl' al' v
      assume r: "PhCreateHandle alloc T e = Some (PhpEncodeHandle (of_nat v), T')" "v < length E'"
        "handle_wf T' ts' E' fl' al' F" "used_entries E (fl @ al) v = None"
        "used_entries E' (fl' @ al') = (used_entries E (fl @ al))(v \<mapsto> stored_entry e)"
      have "length E' \<le> 2 ^ 24" using r(3) holds_bounds by (auto simp: handle_wf_def)
      then have v: "v < 2 ^ 24" using r(2) by simp
      have "spec_handle_call c (Handle (PhpEncodeHandle (of_nat v))) m = Some (m(v \<mapsto> stored_entry e))"
        using decoded_encode [OF v] encode_not_null [OF v] v r(4) by (simp add: Create m)
      moreover have "handles T' (m(v \<mapsto> stored_entry e)) F" by (rule handlesI [OF r(3)]) (simp add: r(5) m)
      ultimately show ?thesis using r(1) Create by auto
    qed (use assms(2) Create in auto)
  next
    case (Lookup x)
    show ?thesis
    proof (cases "m (decoded x)")
      case None
      then show ?thesis using lookup_handle(1) [OF wf, of x] Lookup m assms(2) by simp
    next
      case (Some e)
      then obtain H E' where l: "PhLookupHandleTableEntry T x = Some (Some (slot ts (decoded x)), T\<lparr>Tables := H\<rparr>)"
        "handle_wf (T\<lparr>Tables := H\<rparr>) ts E' fl al F"
        "used_entries E' (fl @ al) = (used_entries E (fl @ al))(decoded x \<mapsto> e\<lparr>EntryValue := EntryValue e - 2\<rparr>)"
        using lookup_handle(2) [OF wf, of x e] Lookup m assms(3) by auto
      then show ?thesis using Some Lookup handlesI [OF l(2) l(3)] m by auto
    qed
  next
    case (Unlock x)
    then obtain e where e: "m (decoded x) = Some e" using assms(3) by auto
    obtain H E' where l: "PhUnlockHandleTableEntry T (slot ts (decoded x)) = Some (T\<lparr>Tables := H\<rparr>)"
      "handle_wf (T\<lparr>Tables := H\<rparr>) ts E' fl al F"
      "used_entries E' (fl @ al) = (used_entries E (fl @ al))(decoded x \<mapsto> e\<lparr>EntryValue := EntryValue e OR 2\<rparr>)"
      by (rule unlock_used [OF wf e [unfolded m]])
    then show ?thesis using e Unlock slot [OF e] handlesI [OF l(2) l(3)] m by auto
  next
    case (Destroy busy x)
    show ?thesis
    proof (cases "m (decoded x)")
      case None
      then show ?thesis using destroy_handle(1) [OF wf, of x] Destroy m assms(2) by simp
    next
      case (Some e)
      then obtain T' E' fl' al' where l: "PhDestroyHandle (\<lambda>_. busy) T x None = Some (True, T')"
        "handle_wf T' ts E' fl' al' F" "used_entries E' (fl' @ al') = (used_entries E (fl @ al))(decoded x := None)"
        using destroy_handle(2) [OF wf, of x e "\<lambda>_. busy"] Destroy m assms(3) by auto
      then show ?thesis using Some Destroy handlesI [OF l(2) l(3)] m by auto
    qed
  next
    case (DestroyLocked busy x)
    then obtain e where e: "m (decoded x) = Some e" using assms(3) by auto
    obtain T' E' fl' al' where l: "PhDestroyHandle (\<lambda>_. busy) T x (Some (slot ts (decoded x))) = Some (True, T')"
      "handle_wf T' ts E' fl' al' F" "used_entries E' (fl' @ al') = (used_entries E (fl @ al))(decoded x := None)"
      using destroy_handle(3) [OF wf e [unfolded m], of "\<lambda>_. busy"] by auto
    then show ?thesis using e DestroyLocked slot [OF e] handlesI [OF l(2) l(3)] m by auto
  next
    case (SetFlags f)
    have "handle_wf (T\<lparr>HandleFlags := f\<rparr>) ts E fl al F" using wf by (simp add: handle_wf_def)
    then have "handles (T\<lparr>HandleFlags := f\<rparr>) m F" by (rule handlesI) (simp add: m)
    then show ?thesis
      using assms(2) SetFlags by (auto simp: PhSetInformationHandleTable_def PH_HANDLE_TABLE_VALID_FLAGS_def)
  qed
qed

lemma agree_correct: "safe_alloc alloc \<Longrightarrow> handles T m F \<Longrightarrow> agree alloc F cs T m"
proof (induction cs arbitrary: T m)
  case Nil
  then show ?case by (simp add: handles_end)
next
  case (Cons c cs)
  show ?case
  proof (cases "proper_handle_call c m")
    case True
    obtain r T' m' where "run_handle_call alloc c T = Some (r, T')" "spec_handle_call c r m = Some m'" "handles T' m' F"
      using run_handle_call_correct [OF Cons.prems True] by blast
    then show ?thesis using Cons.IH [OF Cons.prems(1)] True by simp
  qed simp
qed

lemma create_handles: "safe_alloc alloc \<Longrightarrow> PhCreateHandleTable alloc H = Some (Some T) \<Longrightarrow> handles T Map.empty H"
  by (rule create_table) (auto intro: handlesI)

end
