(* ===== verification/HandleEnum.thy ===== *)
theory HandleEnum
  imports HandleProps
begin

text \<open>
  Enumerating and sweeping a handle table: the callback sees the entries in use in the order of
  their handles, until it asks to stop, and the table is unchanged.
\<close>

unbundle bit_operations_syntax

section \<open>The visit\<close>

text \<open>The handles in use, in order, with what the callback sees of their entries.\<close>

definition in_order :: "(handle_entry \<Rightarrow> handle_entry) \<Rightarrow> (nat \<rightharpoonup> handle_entry) \<Rightarrow> nat list \<Rightarrow> (ulong64 \<times> handle_entry) list" where
  "in_order seen m vs = map (\<lambda>v. (PhpEncodeHandle (of_nat v), seen (the (m v)))) (filter (\<lambda>v. m v \<noteq> None) vs)"

fun visit :: "'c handle_callback \<Rightarrow> (ulong64 \<times> handle_entry) list \<Rightarrow> 'c \<Rightarrow> 'c" where
  "visit Callback [] ctx = ctx"
| "visit Callback ((h, e) # es) ctx = (let (cont, ctx) = Callback h e ctx in if cont then visit Callback es ctx else ctx)"

definition locked_entry :: "handle_entry \<Rightarrow> handle_entry" where
  "locked_entry e = e\<lparr>EntryValue := EntryValue e - 2\<rparr>"

section \<open>One turn\<close>

text \<open>A turn leaves the table as it was, and calls the callback when the entry is in use.\<close>

lemma enum_turn_correct:
  assumes e: "read_entry T p = Some e" "EntryValue e AND 1 = 0 \<Longrightarrow> EntryValue e AND 2 \<noteq> 0"
  shows "enum_turn Callback v p ctx T = Some (if EntryValue e AND 1 = 0
    then (let (cont, ctx) = Callback (PhpEncodeHandle v) (locked_entry e) ctx in (cont, ctx, T)) else (True, ctx, T))"
proof -
  obtain a i es where p: "p = (a, i)" "Tables T a = Some (Entries es)" "i < length es" "es ! i = e"
    using e(1) by (cases p) (auto simp: read_entry.simps split: option.splits table_block.splits if_splits)
  show ?thesis
  proof (cases "EntryValue e AND 1 = 0")
    case True
    note b = e(2) [OF True]
    have restored: "e\<lparr>EntryValue := set_bit (Suc 0) (EntryValue e - 2)\<rparr> = e"
      using lock_bits(2) [OF b] by (simp add: entry_bits [unfolded One_nat_def])
    let ?T = "T\<lparr>Tables := (Tables T)(a \<mapsto> Entries (es[i := locked_entry e]))\<rparr>"
    have "PhLockHandleTableEntry T p = Some (True, ?T)"
      using e(1) True b p by (simp add: PhLockHandleTableEntry_def write_entry.simps handle_consts locked_entry_def)
    moreover have "read_entry ?T p = Some (locked_entry e)" using p by (simp add: read_entry.simps)
    moreover have "PhUnlockHandleTableEntry ?T p = Some T"
    proof -
      have "(Tables T)(a \<mapsto> Entries es) = Tables T" "es[i := e] = es" using p by (simp_all add: fun_upd_idem) auto
      then show ?thesis
        using p restored by (simp add: PhUnlockHandleTableEntry_def write_entry.simps handle_consts locked_entry_def)
    qed
    ultimately show ?thesis using True by (simp add: enum_turn_def split: prod.split)
  next
    case False
    then show ?thesis using e(1) by (simp add: enum_turn_def PhLockHandleTableEntry_def handle_consts)
  qed
qed

lemma sweep_turn_correct:
  "read_entry T p = Some e \<Longrightarrow> sweep_turn Callback v p ctx T = Some (if EntryValue e AND 1 = 0
    then (let (cont, ctx) = Callback (PhpEncodeHandle v) e ctx in (cont, ctx, T)) else (True, ctx, T))"
  by (simp add: sweep_turn_def handle_consts split: prod.split)

section \<open>The loop\<close>

lemma loop_correct:
  assumes wf: "handle_wf T ts E fl al F"
    and turn: "\<And>v ctx. v < length E \<Longrightarrow> turn (of_nat v) (slot ts v) ctx T = Some (if EntryValue (E ! v) AND 1 = 0
      then (let (cont, ctx) = Callback (PhpEncodeHandle (of_nat v)) (seen (E ! v)) ctx in (cont, ctx, T)) else (True, ctx, T))"
  shows "v \<le> length E \<Longrightarrow> enum_loop turn (of_nat v) ctx T
    = Some (visit Callback (in_order seen (used_entries E (fl @ al)) [v..<length E]) ctx, T)"
proof (induction "length E - v" arbitrary: v ctx)
  case 0
  have h: "holds_entries T ts E F" using wf by (simp add: handle_wf_def)
  have "unat (of_nat v :: ulong) = v" using holds_bounds [OF h] 0 by (intro unat_of_nat_ulong) simp
  then show ?case using holds_lookup [OF h, of "of_nat v"] 0 by (subst enum_loop.simps) (simp add: in_order_def)
next
  case (Suc n)
  have h: "holds_entries T ts E F" using wf by (simp add: handle_wf_def)
  have v: "v < length E" "n = length E - Suc v" using Suc.hyps(2) by simp_all
  have look: "PhpLookupHandleTableEntry T (of_nat v) = Some (Some (slot ts v))"
    using holds_lookup [OF h, of "of_nat v"] holds_index [OF h v(1)] v(1) by simp
  have IH: "enum_loop turn (of_nat v + 1) ctx T
      = Some (visit Callback (in_order seen (used_entries E (fl @ al)) [Suc v..<length E]) ctx, T)" for ctx
    using Suc.hyps(1) [OF v(2), of ctx] v(1) by (simp add: add.commute)
  have split: "[v..<length E] = v # [Suc v..<length E]" using v(1) by (rule upt_conv_Cons)
  have ev: "if v \<in> set (fl @ al) then EntryValue (E ! v) = 1 else EntryValue (E ! v) AND 1 = 0"
    using wf v(1) unfolding handle_wf_def by blast
  show ?case
  proof (cases "v \<in> set (fl @ al)")
    case True
    then have "\<not> EntryValue (E ! v) AND 1 = 0" "used_entries E (fl @ al) v = None" using ev by (simp_all add: used_entries_def)
    then show ?thesis unfolding split
      using look turn [OF v(1), of ctx] IH by (subst enum_loop.simps) (simp add: in_order_def)
  next
    case False
    then have "EntryValue (E ! v) AND 1 = 0" "used_entries E (fl @ al) v = Some (E ! v)" using ev v(1) by (simp_all add: used_entries_def)
    then show ?thesis unfolding split
      using look turn [OF v(1), of ctx] IH
      by (subst enum_loop.simps) (simp add: in_order_def split: prod.split)
  qed
qed

lemma used_in_order: "filter (\<lambda>v. used_entries E free v \<noteq> None) [0..<length E] = sorted_list_of_set (dom (used_entries E free))"
proof -
  let ?xs = "filter (\<lambda>v. used_entries E free v \<noteq> None) [0..<length E]"
  have "sorted ?xs" "distinct ?xs" by (simp_all add: sorted_wrt_filter)
  moreover have "set ?xs = dom (used_entries E free)" by (auto simp: used_entries_def split: if_splits)
  ultimately show ?thesis by (metis sorted_list_of_set.idem_if_sorted_distinct)
qed

lemma in_order_used:
  "in_order seen (used_entries E free) [0..<length E]
   = in_order seen (used_entries E free) (sorted_list_of_set (dom (used_entries E free)))"
  unfolding in_order_def used_in_order [symmetric] by simp

lemma handles_enum:
  assumes "handles T m F" "\<forall>e \<in> ran m. EntryValue e AND 2 \<noteq> 0"
  shows "PhEnumHandleTable Callback T ctx = Some (visit Callback (in_order locked_entry m (sorted_list_of_set (dom m))) ctx, T)"
proof -
  obtain ts E fl al where wf: "handle_wf T ts E fl al F" and m: "m = used_entries E (fl @ al)"
    using assms(1) by (auto simp: handles_def)
  have h: "holds_entries T ts E F" using wf by (simp add: handle_wf_def)
  have "enum_loop (enum_turn Callback) (of_nat 0) ctx T
      = Some (visit Callback (in_order locked_entry (used_entries E (fl @ al)) [0..<length E]) ctx, T)"
  proof (rule loop_correct [OF wf])
    fix v ctx
    assume v: "v < length E"
    have "EntryValue (E ! v) AND 2 \<noteq> 0" if "EntryValue (E ! v) AND 1 = 0"
    proof -
      have "if v \<in> set (fl @ al) then EntryValue (E ! v) = 1 else EntryValue (E ! v) AND 1 = 0"
        using wf v unfolding handle_wf_def by blast
      then have "v \<notin> set (fl @ al)" using that by auto
      then have "m v = Some (E ! v)" using v by (simp add: m used_entries_def)
      then show ?thesis using assms(2) by (auto simp: ran_def)
    qed
    then show "enum_turn Callback (of_nat v) (slot ts v) ctx T = Some (if EntryValue (E ! v) AND 1 = 0
      then (let (cont, ctx) = Callback (PhpEncodeHandle (of_nat v)) (locked_entry (E ! v)) ctx in (cont, ctx, T)) else (True, ctx, T))"
      by (rule enum_turn_correct [OF holds_read [OF h v]])
  qed simp
  then show ?thesis unfolding in_order_used m by (simp add: PhEnumHandleTable_def)
qed

lemma handles_sweep:
  assumes "handles T m F"
  shows "PhSweepHandleTable Callback T ctx = Some (visit Callback (in_order id m (sorted_list_of_set (dom m))) ctx, T)"
proof -
  obtain ts E fl al where wf: "handle_wf T ts E fl al F" and m: "m = used_entries E (fl @ al)"
    using assms(1) by (auto simp: handles_def)
  have h: "holds_entries T ts E F" using wf by (simp add: handle_wf_def)
  have "enum_loop (sweep_turn Callback) (of_nat 0) ctx T
      = Some (visit Callback (in_order id (used_entries E (fl @ al)) [0..<length E]) ctx, T)"
    by (rule loop_correct [OF wf]) (simp_all add: sweep_turn_correct [OF holds_read [OF h]])
  then show ?thesis unfolding in_order_used m by (simp add: PhSweepHandleTable_def)
qed

end
