(* ===== verification/HandleLaws.thy ===== *)
theory HandleLaws
  imports HandleEnum
begin

text \<open>
  A handle table is a store of handles in the sense of theory HandleStore, and the properties of
  the handle table.
\<close>

unbundle bit_operations_syntax

section \<open>The view\<close>

text \<open>
  The handles the table itself gives out: the low bits of a handle, and its upper half, are ignored
  when it is decoded.
\<close>

definition handle_view :: "handle_table \<Rightarrow> ulong64 \<Rightarrow> handle_entry option" where
  "handle_view T h = (if PhpEncodeHandle (PhpDecodeHandle h) = h then do {
     p \<leftarrow> handle_slot T h;
     e \<leftarrow> read_entry T p;
     if EntryValue e AND 3 = 2 then Some e else None
   } else None)"

definition add_handle :: "table_alloc \<Rightarrow> handle_table \<Rightarrow> handle_entry \<Rightarrow> (ulong64 \<times> handle_table) option" where
  "add_handle alloc T e = do { (h, T) \<leftarrow> PhCreateHandle alloc T e; if h = 0 then None else Some (h, T) }"

definition remove_handle :: "(ulong \<Rightarrow> bool) \<Rightarrow> handle_table \<Rightarrow> ulong64 \<Rightarrow> handle_table option" where
  "remove_handle busy T h = do { (b, T) \<leftarrow> PhDestroyHandle busy T h None; if b then Some T else None }"

definition unlocked_entry :: "handle_entry \<Rightarrow> bool" where
  "unlocked_entry e \<longleftrightarrow> EntryValue e AND 3 = 2"

text \<open>Memory that never runs out within the size of a full table and a few blocks of others.\<close>

definition ample_alloc :: "table_alloc \<Rightarrow> bool" where
  "ample_alloc alloc \<longleftrightarrow> safe_alloc alloc \<and> (\<forall>H. card (dom H) \<le> 2 ^ 17 \<longrightarrow> alloc H \<noteq> None)"

definition table_inv :: "table_alloc \<Rightarrow> table_heap \<Rightarrow> handle_table \<Rightarrow> bool" where
  "table_inv alloc F T \<longleftrightarrow> ample_alloc alloc \<and> card (dom F) \<le> 1000 \<and> (\<exists>m. handles T m F)"

lemma unlocked_bits: "x AND 3 = 2 \<Longrightarrow> x AND 2 \<noteq> (0 :: ulong64)"
proof
  assume a: "x AND 3 = 2" "x AND 2 = 0"
  have "x AND 2 = (x AND 3) AND 2" by (simp add: and.assoc)
  then show False using a by simp
qed

lemma view_used:
  assumes wf: "handle_wf T ts E fl al F"
  shows "handle_view T h = (if PhpEncodeHandle (PhpDecodeHandle h) = h then
      (case used_entries E (fl @ al) (decoded h) of None \<Rightarrow> None | Some e \<Rightarrow> if EntryValue e AND 3 = 2 then Some e else None)
      else None)"
proof -
  have h: "holds_entries T ts E F" using wf by (simp add: handle_wf_def)
  have "EntryValue (E ! v) AND 3 \<noteq> 2" if "v < length E" "v \<in> set (fl @ al)" for v
  proof -
    have "EntryValue (E ! v) = 1" using wf that unfolding handle_wf_def by (meson)
    then show ?thesis by simp
  qed
  then show ?thesis
    using holds_lookup [OF h, of "PhpDecodeHandle h", folded decoded_def] holds_read [OF h, of "decoded h"]
    by (simp add: handle_view_def handle_slot_def used_entries_def)
qed

lemma canonical_decoded:
  "PhpEncodeHandle (PhpDecodeHandle h) = h \<Longrightarrow> PhpEncodeHandle (PhpDecodeHandle h') = h' \<Longrightarrow> decoded h = decoded h' \<Longrightarrow> h = h'"
  unfolding decoded_def by (metis word_unat_eq_iff)

lemma stored_unlocked: "unlocked_entry e \<Longrightarrow> stored_entry e = e"
proof -
  assume e: "unlocked_entry e"
  have "(EntryValue e AND NOT 3) OR (EntryValue e AND 3) = EntryValue e"
    by (simp flip: bit.conj_disj_distrib)
  then show ?thesis using e by (simp add: stored_entry_def unlocked_entry_def)
qed

section \<open>The laws\<close>

lemma full_or_room:
  assumes inv: "ample_alloc alloc" "card (dom F) \<le> 1000" and wf: "handle_wf T ts E [] [] F"
    and "alloc_fails alloc T \<or> length ts = 65536"
  shows "unat (HandleCount T) = 2 ^ 24"
proof -
  have h: "holds_entries T ts E F" using wf by (simp add: handle_wf_def)
  obtain root us where repr: "table_repr T root ts us E F" using h by (auto simp: holds_entries_def)
  note b = repr_bounds [OF repr]
  have "dom (Tables T) \<subseteq> tables_of root ts us \<union> dom F"
    using repr by (auto simp: table_repr_def)
  then have "card (dom (Tables T)) \<le> card (tables_of root ts us \<union> dom F)" by (rule card_mono [rotated]) simp
  also have "\<dots> \<le> card (tables_of root ts us) + card (dom F)" by (rule card_Un_le)
  also have "card (tables_of root ts us) \<le> Suc (card (set ts \<union> set us))" unfolding tables_of_def by (rule card_insert_le_m1) simp_all
  also have "card (set ts \<union> set us) \<le> length ts + length us"
    using card_Un_le [of "set ts" "set us"] card_length [of ts] card_length [of us] by linarith
  finally have c: "card (dom (Tables T)) \<le> Suc (65536 + 256) + 1000" using b(2,5) inv(2) by linarith
  have "\<not> alloc_fails alloc T"
  proof
    assume "alloc_fails alloc T"
    then obtain H a b where H: "alloc H = None" "dom H \<subseteq> insert a (insert b (dom (Tables T)))" by (auto simp: alloc_fails_def)
    have "card (dom H) \<le> card (insert a (insert b (dom (Tables T))))" using H(2) by (rule card_mono [rotated]) simp
    also have "\<dots> \<le> Suc (card (insert b (dom (Tables T))))" by (simp only: card_insert_if [OF finite] split: if_splits) simp
    also have "\<dots> \<le> Suc (Suc (card (dom (Tables T))))" by (simp only: card_insert_if [OF finite] split: if_splits) simp
    finally have "card (dom H) \<le> 2 ^ 17" using c by simp
    then show False using inv(1) H(1) by (auto simp: ample_alloc_def)
  qed
  then have "length ts = 65536" using assms(4) by blast
  then have "length E = 2 ^ 24" using b(3) by simp
  then show ?thesis using wf by (simp add: handle_wf_def)
qed

lemma add_law:
  assumes inv: "table_inv alloc F T" and e: "unlocked_entry e" and room: "unat (HandleCount T) < 2 ^ 24"
  shows "\<exists>h T'. add_handle alloc T e = Some (h, T') \<and> table_inv alloc F T' \<and> handle_view T h = None
    \<and> handle_view T' = (handle_view T)(h \<mapsto> e) \<and> unat (HandleCount T') \<le> Suc (unat (HandleCount T))"
proof -
  obtain ts E fl al where wf: "handle_wf T ts E fl al F" and a: "ample_alloc alloc" "card (dom F) \<le> 1000"
    using inv by (auto simp: table_inv_def handles_def)
  have safe: "safe_alloc alloc" using a(1) by (simp add: ample_alloc_def)
  have "\<not> (fl = [] \<and> al = [] \<and> (alloc_fails alloc T \<or> length ts = 65536))"
    using full_or_room [OF a] wf room by fastforce
  then obtain T' ts' E' fl' al' v where r: "PhCreateHandle alloc T e = Some (PhpEncodeHandle (of_nat v), T')" "v < length E'"
      "handle_wf T' ts' E' fl' al' F" "used_entries E (fl @ al) v = None"
      "used_entries E' (fl' @ al') = (used_entries E (fl @ al))(v \<mapsto> stored_entry e)"
    using create_handle [OF wf safe, of e] by blast
  have "length E' \<le> 2 ^ 24" using r(3) holds_bounds by (auto simp: handle_wf_def)
  then have v: "v < 2 ^ 24" using r(2) by simp
  let ?h = "PhpEncodeHandle (of_nat v)"
  have canon: "PhpEncodeHandle (PhpDecodeHandle ?h) = ?h" unfolding decode_encode [OF v] by (rule refl)
  have dec: "decoded ?h = v" by (rule decoded_encode [OF v])
  have "add_handle alloc T e = Some (?h, T')" using r(1) encode_not_null [OF v] by (simp add: add_handle_def)
  moreover have "table_inv alloc F T'" using a handlesI [OF r(3) refl] by (auto simp: table_inv_def)
  moreover have "handle_view T ?h = None" unfolding view_used [OF wf] dec r(4) by simp
  moreover have "handle_view T' = (handle_view T)(?h \<mapsto> e)"
  proof
    fix h
    show "handle_view T' h = ((handle_view T)(?h \<mapsto> e)) h"
    proof (cases "h = ?h")
      case True
      then show ?thesis
        using canon e unfolding view_used [OF r(3)] r(5) by (simp add: dec stored_unlocked unlocked_entry_def)
    next
      case False
      show ?thesis
      proof (cases "PhpEncodeHandle (PhpDecodeHandle h) = h")
        case True
        then have "decoded h \<noteq> v" using canonical_decoded [OF True canon, unfolded dec] False by blast
        then show ?thesis using False unfolding view_used [OF r(3)] view_used [OF wf] r(5) by simp
      next
        case no: False
        then show ?thesis using False unfolding view_used [OF r(3)] view_used [OF wf] by simp
      qed
    qed
  qed
  moreover have "unat (HandleCount T') \<le> Suc (unat (HandleCount T))"
  proof -
    have "card (dom (used_entries E' (fl' @ al'))) \<le> Suc (card (dom (used_entries E (fl @ al))))"
      unfolding r(5) by (simp add: card_insert_if dom_used)
    then show ?thesis using count_used [OF r(3)] count_used [OF wf] by simp
  qed
  ultimately show ?thesis by blast
qed

lemma remove_law:
  assumes inv: "table_inv alloc F T" and e: "handle_view T h = Some e"
  shows "\<exists>T'. remove_handle busy T h = Some T' \<and> table_inv alloc F T' \<and> handle_view T' = (handle_view T)(h := None)
    \<and> unat (HandleCount T') \<le> unat (HandleCount T)"
proof -
  obtain ts E fl al where wf: "handle_wf T ts E fl al F" and a: "ample_alloc alloc" "card (dom F) \<le> 1000"
    using inv by (auto simp: table_inv_def handles_def)
  have u: "used_entries E (fl @ al) (decoded h) = Some e" "EntryValue e AND 3 = 2" "PhpEncodeHandle (PhpDecodeHandle h) = h"
    using e unfolding view_used [OF wf] by (auto split: if_splits option.splits)
  obtain T' E' fl' al' where r: "PhDestroyHandle busy T h None = Some (True, T')" "handle_wf T' ts E' fl' al' F"
      "used_entries E' (fl' @ al') = (used_entries E (fl @ al))(decoded h := None)"
    using destroy_handle(2) [OF wf u(1) unlocked_bits [OF u(2)], of busy] by blast
  have "remove_handle busy T h = Some T'" using r(1) by (simp add: remove_handle_def)
  moreover have "table_inv alloc F T'" using a handlesI [OF r(2) refl] by (auto simp: table_inv_def)
  moreover have "handle_view T' = (handle_view T)(h := None)"
  proof
    fix k
    show "handle_view T' k = ((handle_view T)(h := None)) k"
      using canonical_decoded [OF _ u(3), of k] unfolding view_used [OF r(2)] view_used [OF wf] r(3) by auto
  qed
  moreover have "unat (HandleCount T') \<le> unat (HandleCount T)"
  proof -
    have "card (dom (used_entries E' (fl' @ al'))) \<le> card (dom (used_entries E (fl @ al)))"
      unfolding r(3) by (rule card_mono) (auto simp: dom_used)
    then show ?thesis using count_used [OF r(2)] count_used [OF wf] by simp
  qed
  ultimately show ?thesis by blast
qed

interpretation ht: handle_store "table_inv alloc F" handle_view "add_handle alloc" "remove_handle busy" unlocked_entry
  "\<lambda>T. unat (HandleCount T)" "2 ^ 24"
proof (unfold_locales, goal_cases)
  case (1 T e)
  then show ?case by (rule add_law)
next
  case (2 T h e)
  then show ?case by (rule remove_law)
qed

lemma create_handle_room:
  assumes "table_inv alloc F T"
  shows "\<exists>h T'. PhCreateHandle alloc T e = Some (h, T') \<and> (h = 0 \<longleftrightarrow> unat (HandleCount T) = 2 ^ 24)"
proof -
  obtain ts E fl al where wf: "handle_wf T ts E fl al F" and a: "ample_alloc alloc" "card (dom F) \<le> 1000"
    using assms by (auto simp: table_inv_def handles_def)
  have safe: "safe_alloc alloc" using a(1) by (simp add: ample_alloc_def)
  from create_handle [OF wf safe, of e] show ?thesis
  proof (elim disjE exE conjE, goal_cases)
    case (3 T' ts' E' fl' al' v)
    have len: "length E' \<le> 2 ^ 24" using 3(3) holds_bounds by (auto simp: handle_wf_def)
    have "card (dom (used_entries E' (fl' @ al'))) = Suc (card (dom (used_entries E (fl @ al))))"
    proof -
      have "finite (dom (used_entries E (fl @ al)))" by (simp add: dom_used)
      moreover have "v \<notin> dom (used_entries E (fl @ al))" using 3(4) by (simp add: domIff)
      ultimately show ?thesis unfolding 3(5) dom_fun_upd by simp
    qed
    moreover have "card (dom (used_entries E' (fl' @ al'))) \<le> length E'"
      unfolding dom_used using card_mono [of "{..<length E'}" "{..<length E'} - set (fl' @ al')"] by auto
    ultimately have "unat (HandleCount T) \<noteq> 2 ^ 24" using count_used [OF wf] len by simp
    then show ?case using 3(1,2) len encode_not_null [of v] by auto
  qed (use full_or_room [OF a] wf in auto)
qed

section \<open>A sample allocator\<close>

definition zero_entries :: "handle_entry list" where
  "zero_entries = replicate 256 \<lparr>EntryValue = 0, Value2 = 0\<rparr>"

definition quads :: "nat \<Rightarrow> ulong64 list" where
  "quads n = map (\<lambda>i. push_bit 2 (of_nat (Suc i))) [0..<n]"

definition first_fit :: "nat \<Rightarrow> table_alloc" where
  "first_fit n H = map_option (\<lambda>a. (a, zero_entries)) (find (\<lambda>a. H a = None) (quads n))"

definition sample_alloc :: table_alloc where
  "sample_alloc = first_fit (2 ^ 17 + 1)"

lemma quad_unat: "i < 2 ^ 20 \<Longrightarrow> unat (push_bit 2 (of_nat (Suc i)) :: ulong64) = 4 * Suc i"
proof -
  assume "i < 2 ^ 20"
  then have "unat (of_nat (4 * Suc i) :: ulong64) = 4 * Suc i" by (intro unat_of_nat_small) simp
  moreover have "(push_bit 2 (of_nat (Suc i)) :: ulong64) = of_nat (4 * Suc i)" by (simp add: push_bit_eq_mult)
  ultimately show ?thesis by simp
qed

lemma first_fit_safe:
  assumes "n \<le> 2 ^ 20"
  shows "safe_alloc (first_fit n)"
  unfolding safe_alloc_def
proof (intro allI impI)
  fix H a es
  assume "first_fit n H = Some (a, es)"
  then have a: "find (\<lambda>a. H a = None) (quads n) = Some a" "es = zero_entries" by (auto simp: first_fit_def)
  then obtain i where i: "i < n" "a = push_bit 2 (of_nat (Suc i))" "H a = None"
    by (auto simp: find_Some_iff quads_def)
  have "unat a = 4 * Suc i" unfolding i(2) by (rule quad_unat) (use i(1) assms in simp)
  then have "a \<noteq> 0" by auto
  moreover have "a AND 3 = take_bit 2 a" by (simp add: take_bit_eq_mask mask_eq_exp_minus_1)
  then have "a AND 3 = 0" unfolding i(2) by (simp add: take_bit_push_bit)
  ultimately show "a \<noteq> 0 \<and> a AND 3 = 0 \<and> H a = None \<and> length es = 256"
    using i(3) a(2) by (simp add: zero_entries_def)
qed

lemma first_fit_ample:
  assumes "n \<le> 2 ^ 20" "card (dom H) < n"
  shows "first_fit n H \<noteq> None"
proof
  assume "first_fit n H = None"
  then have "set (quads n) \<subseteq> dom H" by (auto simp: first_fit_def find_None_iff)
  then have "card (set (quads n)) \<le> card (dom H)" by (rule card_mono [rotated]) simp
  moreover have "distinct (quads n)"
    unfolding quads_def distinct_map
  proof (intro conjI inj_onI)
    fix i j
    assume ij: "i \<in> set [0..<n]" "j \<in> set [0..<n]" "(push_bit 2 (of_nat (Suc i)) :: ulong64) = push_bit 2 (of_nat (Suc j))"
    then have "4 * Suc i = 4 * Suc j" using quad_unat [of i] quad_unat [of j] assms(1) by (metis atLeastLessThan_upt atLeastLessThan_iff le_trans less_le_trans)
    then show "i = j" by simp
  qed simp
  then have "card (set (quads n)) = n" by (simp add: distinct_card) (simp add: quads_def)
  ultimately show False using assms(2) by simp
qed

lemma sample_alloc_ample: "ample_alloc sample_alloc"
proof -
  have "safe_alloc sample_alloc" unfolding sample_alloc_def by (rule first_fit_safe) simp
  moreover have "sample_alloc H \<noteq> None" if "card (dom H) \<le> 2 ^ 17" for H
    unfolding sample_alloc_def using that by (intro first_fit_ample) simp_all
  ultimately show ?thesis by (simp add: ample_alloc_def)
qed

lemma sample_alloc_safe: "safe_alloc sample_alloc"
  using sample_alloc_ample by (simp add: ample_alloc_def)

lemma sample_table:
  obtains T where "PhCreateHandleTable sample_alloc Map.empty = Some (Some T)" "handles T Map.empty Map.empty"
    "table_inv sample_alloc Map.empty T" "HandleCount T = 0"
proof -
  let ?T = "\<lparr>HandleCount = 0, TableValue = 0, FreeValue = 0, NextValue = 0, FreeValueAlt = 0, HandleFlags = 0, Tables = Map.empty\<rparr>"
  have n: "NextValue ?T = of_nat 0" by simp
  have some: "sample_alloc (Tables ?T) \<noteq> None" using sample_alloc_ample by (simp add: ample_alloc_def)
  have small: "(0 :: nat) + 256 < 2 ^ 32" by simp
  have "\<exists>T. PhCreateHandleTable sample_alloc Map.empty = Some (Some T) \<and> HandleCount T = 0"
    using create_level0 [OF sample_alloc_safe n small]
  proof (elim disjE exE conjE)
    fix a es
    assume "PhpCreateHandleTableLevel0 sample_alloc ?T True = Some (a, ?T\<lparr>Tables := (Tables ?T)(a \<mapsto> Entries es)\<rparr>)" "a \<noteq> 0"
    then show ?thesis by (simp add: PhCreateHandleTable_def)
  qed (use some in contradiction)
  then obtain T where T: "PhCreateHandleTable sample_alloc Map.empty = Some (Some T)" "HandleCount T = 0" by blast
  have h: "handles T Map.empty Map.empty" by (rule create_handles [OF sample_alloc_safe T(1)])
  then have "table_inv sample_alloc Map.empty T" using sample_alloc_ample by (auto simp: table_inv_def)
  then show thesis using that T h by blast
qed

section \<open>Properties\<close>

text \<open>
  C24.  After a table is created, every sequence of proper calls does to the map from indices to
  entries what the specification says, whatever the growth of the table and the moves between its
  free lists; the table counts its handles; and destroying it then frees its memory and no other.
\<close>

theorem PhHandleTable_history:
  assumes "safe_alloc alloc" "PhCreateHandleTable alloc F = Some (Some T)"
  shows "agree alloc F cs T Map.empty"
  by (rule agree_correct [OF assms(1) create_handles [OF assms]])

theorem PhHandleTable_history_witness:
  "\<exists>T. PhCreateHandleTable sample_alloc Map.empty = Some (Some T)
    \<and> agree sample_alloc Map.empty [Create \<lparr>EntryValue = 64, Value2 = 7\<rparr>, Lookup 4, Unlock 4, SetFlags 1, Destroy False 4, Lookup 4] T Map.empty"
proof -
  obtain T where "PhCreateHandleTable sample_alloc Map.empty = Some (Some T)" by (rule sample_table)
  then show ?thesis using PhHandleTable_history [OF sample_alloc_safe] by blast
qed

text \<open>
  C25.  Up to 2^24 entries, every unlocked entry that is added to a handle table gets a handle of its
  own that leads back to it, and destroying these handles again leaves the table as it was seen.
\<close>

theorem PhHandleTable_add_remove:
  assumes "table_inv alloc F T" "\<forall>e \<in> set es. unlocked_entry e" "unat (HandleCount T) + length es \<le> 2 ^ 24"
  shows "\<exists>hs T' T''. add_all (add_handle alloc) T es = Some (hs, T') \<and> distinct hs \<and> length hs = length es
    \<and> (\<forall>i < length es. handle_view T' (hs ! i) = Some (es ! i))
    \<and> rem_all (remove_handle busy) T' hs = Some T'' \<and> table_inv alloc F T'' \<and> handle_view T'' = handle_view T"
  using ht.add_rem_all [OF assms, of busy] by metis

theorem PhHandleTable_add_remove_witness:
  "\<exists>T hs T' T''. PhCreateHandleTable sample_alloc Map.empty = Some (Some T)
    \<and> add_all (add_handle sample_alloc) T (replicate 300 \<lparr>EntryValue = 66, Value2 = 7\<rparr>) = Some (hs, T') \<and> distinct hs \<and> length hs = 300
    \<and> rem_all (remove_handle (\<lambda>i. i = 3)) T' hs = Some T'' \<and> handle_view T'' = handle_view T"
proof -
  obtain T where T: "PhCreateHandleTable sample_alloc Map.empty = Some (Some T)" "table_inv sample_alloc Map.empty T" "HandleCount T = 0"
    by (rule sample_table)
  have "\<forall>e \<in> set (replicate 300 \<lparr>EntryValue = 66, Value2 = 7\<rparr>). unlocked_entry e" by (simp add: unlocked_entry_def)
  from PhHandleTable_add_remove [OF T(2) this, of "\<lambda>i. i = 3"] show ?thesis using T(1,3) by auto
qed

text \<open>
  C26.  With enough memory, creating a handle fails, with the handle 0, exactly when all 2^24 indices
  are in use.
\<close>

theorem PhCreateHandle_fails:
  assumes "table_inv alloc F T"
  shows "\<exists>h T'. PhCreateHandle alloc T e = Some (h, T') \<and> (h = 0 \<longleftrightarrow> unat (HandleCount T) = 2 ^ 24)"
  by (rule create_handle_room [OF assms])

theorem PhCreateHandle_fails_witness:
  "\<exists>T h T'. PhCreateHandleTable sample_alloc Map.empty = Some (Some T)
    \<and> PhCreateHandle sample_alloc T \<lparr>EntryValue = 64, Value2 = 7\<rparr> = Some (h, T') \<and> h \<noteq> 0"
proof -
  obtain T where T: "PhCreateHandleTable sample_alloc Map.empty = Some (Some T)" "table_inv sample_alloc Map.empty T" "HandleCount T = 0"
    by (rule sample_table)
  from PhCreateHandle_fails [OF T(2), of "\<lparr>EntryValue = 64, Value2 = 7\<rparr>"] show ?thesis using T(1,3) by auto
qed

text \<open>
  C27.  Enumerating and sweeping a table call the callback on the entries in use in the order of their
  handles until it returns false, enumerating on the locked entry and sweeping on the entry as it
  is, and leave the table as it was.
\<close>

theorem PhEnumHandleTable_correct:
  assumes "handles T m F" "\<forall>e \<in> ran m. EntryValue e AND 2 \<noteq> 0"
  shows "PhEnumHandleTable Callback T ctx = Some (visit Callback (in_order locked_entry m (sorted_list_of_set (dom m))) ctx, T)
    \<and> PhSweepHandleTable Callback T ctx = Some (visit Callback (in_order id m (sorted_list_of_set (dom m))) ctx, T)"
  using handles_enum [OF assms, of Callback ctx] handles_sweep [OF assms(1), of Callback ctx] by simp

theorem PhEnumHandleTable_correct_witness:
  "\<exists>T h T'. PhCreateHandleTable sample_alloc Map.empty = Some (Some T)
    \<and> PhCreateHandle sample_alloc T \<lparr>EntryValue = 64, Value2 = 7\<rparr> = Some (h, T')
    \<and> PhEnumHandleTable (\<lambda>h e xs. (True, (h, e) # xs)) T' [] = Some ([(h, \<lparr>EntryValue = 64, Value2 = 7\<rparr>)], T')"
proof -
  let ?e = "\<lparr>EntryValue = 64, Value2 = 7\<rparr> :: handle_entry"
  obtain T where T: "PhCreateHandleTable sample_alloc Map.empty = Some (Some T)" "table_inv sample_alloc Map.empty T" "HandleCount T = 0"
    and h: "handles T Map.empty Map.empty" by (rule sample_table)
  obtain r T' m' where r: "run_handle_call sample_alloc (Create ?e) T = Some (r, T')"
    "spec_handle_call (Create ?e) r Map.empty = Some m'" "handles T' m' Map.empty"
    using run_handle_call_correct [OF sample_alloc_safe h, of "Create ?e"] by auto
  obtain x T1 where x: "PhCreateHandle sample_alloc T ?e = Some (x, T1)" "x \<noteq> 0"
    using create_handle_room [OF T(2), of ?e] T(3) by auto
  then have m: "T1 = T'" "m' = [decoded x \<mapsto> stored_entry ?e]" "x = PhpEncodeHandle (of_nat (decoded x))"
    using r(1,2) by (auto split: if_splits)
  have e: "stored_entry ?e = \<lparr>EntryValue = 66, Value2 = 7\<rparr>" by (simp add: stored_entry_def)
  from PhEnumHandleTable_correct [OF r(3), of "\<lambda>h e xs. (True, (h, e) # xs)" "[]"]
  show ?thesis using T(1) x(1) m by (auto simp: e in_order_def locked_entry_def)
qed

end
