(* ===== verification/Events.thy ===== *)
theory Events
  imports Numbers Threads
begin

text \<open>
  The event of \<open>phlib/sync.c\<close>: a word with a set bit and a reference count, and a kernel event that
  is created by the first thread that has to wait and closed by the last that refers to it; and
  the one-time initialization that keeps a bit of its own in the same word.

  Every access to the event and every call of the kernel is a step of its own, so that the steps of
  any number of threads interleave as they do in the code.  The kernel is a map from the open
  handles to whether they are signalled; closing, setting or waiting on a handle that is not open
  is a misuse, which the state records.
\<close>

unbundle bit_operations_syntax

section \<open>The event\<close>

definition PH_EVENT_SET :: ulong64 where "PH_EVENT_SET = 0x1"
definition PH_EVENT_SET_SHIFT :: nat where "PH_EVENT_SET_SHIFT = 0"
definition PH_EVENT_REFCOUNT_SHIFT :: nat where "PH_EVENT_REFCOUNT_SHIFT = 1"
definition PH_EVENT_REFCOUNT_INC :: ulong64 where "PH_EVENT_REFCOUNT_INC = 0x2"
definition PH_EVENT_REFCOUNT_MASK :: ulong64 where "PH_EVENT_REFCOUNT_MASK = push_bit 15 1 - 1"
definition PH_INITONCE_SHIFT :: nat where "PH_INITONCE_SHIFT = 31"

lemmas event_consts = PH_EVENT_SET_def PH_EVENT_SET_SHIFT_def PH_EVENT_REFCOUNT_SHIFT_def
  PH_EVENT_REFCOUNT_INC_def PH_EVENT_REFCOUNT_MASK_def PH_INITONCE_SHIFT_def

record ph_event =
  EventValue :: ulong64
  EventHandle :: ulong64

definition PhInitializeEvent :: ph_event where
  "PhInitializeEvent = \<lparr>EventValue = PH_EVENT_REFCOUNT_INC, EventHandle = 0\<rparr>"

definition PhTestEvent :: "ph_event \<Rightarrow> bool" where
  "PhTestEvent Event \<longleftrightarrow> EventValue Event AND PH_EVENT_SET \<noteq> 0"

text \<open>No value when the assertion fails.\<close>

definition PhfResetEvent :: "ph_event \<Rightarrow> ph_event option" where
  "PhfResetEvent Event = (
     if EventHandle Event \<noteq> 0 then None
     else Some (if PhTestEvent Event then Event\<lparr>EventValue := PH_EVENT_REFCOUNT_INC\<rparr> else Event))"

text \<open>Whether the reference that was dropped from the value was the last.\<close>

definition PhpDereferenceEvent_last :: "ulong64 \<Rightarrow> bool" where
  "PhpDereferenceEvent_last value \<longleftrightarrow>
     (drop_bit PH_EVENT_REFCOUNT_SHIFT value AND PH_EVENT_REFCOUNT_MASK) - 1 = 0"

section \<open>Threads\<close>

datatype ev_timeout = Infinite | Immediate | Finite

text \<open>
  Where a thread is in \<open>PhfSetEvent\<close>, \<open>PhfWaitForEvent\<close>, \<open>PhpDereferenceEvent\<close> and
  \<open>PhfBeginInitOnce\<close>.  What a dereference comes back to is the end of \<open>PhfSetEvent\<close> (\<open>None\<close>) or of
  \<open>PhfWaitForEvent\<close> with its result.
\<close>

datatype ev_place =
    Outside
  | SetReads
  | SetSignals ulong64
  | WaitEnters
  | WaitReferences
  | WaitReads
  | WaitCreates
  | WaitPublishes ulong64
  | WaitDiscards ulong64
  | WaitRereads
  | WaitTests ulong64
  | Blocked ulong64
  | Dereferences ulong64 "bool option"
  | Closes ulong64 "bool option"
  | Clears "bool option"
  | Returns bool
  | Claims
  | Initializes

record event_system =
  the_event :: ph_event
  kernel :: "ulong64 \<rightharpoonup> bool"
  misused :: bool
  ev_at :: "nat \<Rightarrow> ev_place"
  ev_timeout_of :: "nat \<Rightarrow> ev_timeout"

definition ev_goes :: "nat \<Rightarrow> ev_place \<Rightarrow> event_system \<Rightarrow> event_system" where
  "ev_goes i p s = s\<lparr>ev_at := (ev_at s)(i := p)\<rparr>"

definition put_value :: "ulong64 \<Rightarrow> event_system \<Rightarrow> event_system" where
  "put_value v s = s\<lparr>the_event := (the_event s)\<lparr>EventValue := v\<rparr>\<rparr>"

definition put_handle :: "ulong64 \<Rightarrow> event_system \<Rightarrow> event_system" where
  "put_handle h s = s\<lparr>the_event := (the_event s)\<lparr>EventHandle := h\<rparr>\<rparr>"

definition NtSetEvent :: "ulong64 \<Rightarrow> event_system \<Rightarrow> event_system" where
  "NtSetEvent h s = (if kernel s h = None then s\<lparr>misused := True\<rparr> else s\<lparr>kernel := (kernel s)(h \<mapsto> True)\<rparr>)"

definition NtClose :: "ulong64 \<Rightarrow> event_system \<Rightarrow> event_system" where
  "NtClose h s = (if kernel s h = None then s\<lparr>misused := True\<rparr> else s\<lparr>kernel := (kernel s)(h := None)\<rparr>)"

abbreviation (input) value_of :: "event_system \<Rightarrow> ulong64" where "value_of s \<equiv> EventValue (the_event s)"
abbreviation (input) handle_of :: "event_system \<Rightarrow> ulong64" where "handle_of s \<equiv> EventHandle (the_event s)"

fun after_dereference :: "bool option \<Rightarrow> ev_place" where
  "after_dereference None = Outside"
| "after_dereference (Some b) = Returns b"

text \<open>\<open>PhWaitForEvent\<close> tests the event before it calls \<open>PhfWaitForEvent\<close>.\<close>

definition PhWaitForEvent_entry :: "ph_event \<Rightarrow> ev_place" where
  "PhWaitForEvent_entry Event = (if PhTestEvent Event then Returns True else WaitEnters)"

definition PhfWaitForEvent_entry :: "ph_event \<Rightarrow> ev_timeout \<Rightarrow> ev_place" where
  "PhfWaitForEvent_entry Event Timeout = (
     if EventValue Event AND PH_EVENT_SET \<noteq> 0 then Returns True
     else if Timeout = Immediate then Returns False
     else WaitReferences)"

inductive event_step :: "nat \<Rightarrow> event_system \<Rightarrow> event_system \<Rightarrow> bool" for i :: nat where
  set_reads: "ev_at s i = SetReads \<Longrightarrow> event_step i s (ev_goes i (SetSignals (handle_of s)) s)"
| set_signals: "ev_at s i = SetSignals h \<Longrightarrow>
    event_step i s (ev_goes i (Dereferences h None) (if h \<noteq> 0 then NtSetEvent h s else s))"
| dereferences: "ev_at s i = Dereferences h r \<Longrightarrow>
    event_step i s (ev_goes i
      (if PhpDereferenceEvent_last (value_of s) \<and> h \<noteq> 0 then Closes h r else after_dereference r)
      (put_value (value_of s - PH_EVENT_REFCOUNT_INC) s))"
| closes: "ev_at s i = Closes h r \<Longrightarrow> event_step i s (ev_goes i (Clears r) (NtClose h s))"
| clears: "ev_at s i = Clears r \<Longrightarrow> event_step i s (ev_goes i (after_dereference r) (put_handle 0 s))"
| wait_enters: "ev_at s i = WaitEnters \<Longrightarrow>
    event_step i s (ev_goes i (PhfWaitForEvent_entry (the_event s) (ev_timeout_of s i)) s)"
| wait_references: "ev_at s i = WaitReferences \<Longrightarrow>
    event_step i s (ev_goes i WaitReads (put_value (value_of s + PH_EVENT_REFCOUNT_INC) s))"
| wait_reads: "ev_at s i = WaitReads \<Longrightarrow>
    event_step i s (ev_goes i (if handle_of s = 0 then WaitCreates else WaitTests (handle_of s)) s)"
| wait_creates: "ev_at s i = WaitCreates \<Longrightarrow> h \<noteq> 0 \<Longrightarrow> kernel s h = None \<Longrightarrow>
    event_step i s (ev_goes i (WaitPublishes h) (s\<lparr>kernel := (kernel s)(h \<mapsto> False)\<rparr>))"
| wait_publishes: "ev_at s i = WaitPublishes h \<Longrightarrow> handle_of s = 0 \<Longrightarrow>
    event_step i s (ev_goes i (WaitTests h) (put_handle h s))"
| wait_loses: "ev_at s i = WaitPublishes h \<Longrightarrow> handle_of s \<noteq> 0 \<Longrightarrow>
    event_step i s (ev_goes i (WaitDiscards h) s)"
| wait_discards: "ev_at s i = WaitDiscards h \<Longrightarrow> event_step i s (ev_goes i WaitRereads (NtClose h s))"
| wait_rereads: "ev_at s i = WaitRereads \<Longrightarrow> event_step i s (ev_goes i (WaitTests (handle_of s)) s)"
| wait_tests: "ev_at s i = WaitTests h \<Longrightarrow>
    event_step i s (ev_goes i
      (if value_of s AND PH_EVENT_SET = 0 then Blocked h else Dereferences h (Some True)) s)"
| wakes: "ev_at s i = Blocked h \<Longrightarrow> kernel s h = Some True \<Longrightarrow>
    event_step i s (ev_goes i (Dereferences h (Some True)) s)"
| times_out: "ev_at s i = Blocked h \<Longrightarrow> ev_timeout_of s i = Finite \<Longrightarrow>
    event_step i s (ev_goes i (Dereferences h (Some False)) s)"
| wait_fails: "ev_at s i = Blocked h \<Longrightarrow> kernel s h = None \<Longrightarrow>
    event_step i s (ev_goes i (Dereferences h (Some False)) (s\<lparr>misused := True\<rparr>))"
| returns: "ev_at s i = Returns b \<Longrightarrow> event_step i s (ev_goes i Outside s)"
| claims: "ev_at s i = Claims \<Longrightarrow>
    event_step i s (if bit (value_of s) PH_INITONCE_SHIFT
      then ev_goes i (PhWaitForEvent_entry (the_event s)) s
      else ev_goes i Initializes (put_value (set_bit PH_INITONCE_SHIFT (value_of s)) s))"

text \<open>The calls of the four operations; those of the initialization wait without a timeout.\<close>

datatype event_call = CallSet | CallWait ev_timeout | CallBegin | CallEnd

definition PhfSetEvent :: "nat \<Rightarrow> event_system \<Rightarrow> event_system" where
  "PhfSetEvent i s = (
     if bit (value_of s) PH_EVENT_SET_SHIFT then ev_goes i Outside s
     else ev_goes i SetReads (put_value (set_bit PH_EVENT_SET_SHIFT (value_of s)) s))"

definition set_timeout :: "nat \<Rightarrow> ev_timeout \<Rightarrow> event_system \<Rightarrow> event_system" where
  "set_timeout i Timeout s = s\<lparr>ev_timeout_of := (ev_timeout_of s)(i := Timeout)\<rparr>"

definition PhBeginInitOnce_entry :: "ph_event \<Rightarrow> ev_place" where
  "PhBeginInitOnce_entry Event = (if PhTestEvent Event then Returns True else Claims)"

inductive event_calls :: "nat \<Rightarrow> event_call \<Rightarrow> event_system \<Rightarrow> event_system \<Rightarrow> bool" for i :: nat where
  call_set: "ev_at s i = Outside \<Longrightarrow> event_calls i CallSet s (PhfSetEvent i s)"
| call_wait: "ev_at s i = Outside \<Longrightarrow>
    event_calls i (CallWait Timeout) s (ev_goes i (PhWaitForEvent_entry (the_event s)) (set_timeout i Timeout s))"
| call_begin: "ev_at s i = Outside \<Longrightarrow>
    event_calls i CallBegin s (ev_goes i (PhBeginInitOnce_entry (the_event s)) (set_timeout i Infinite s))"
| call_end: "ev_at s i = Initializes \<Longrightarrow> event_calls i CallEnd s (PhfSetEvent i s)"

definition new_event_system :: event_system where
  "new_event_system = \<lparr>the_event = PhInitializeEvent, kernel = Map.empty, misused = False,
     ev_at = (\<lambda>_. Outside), ev_timeout_of = (\<lambda>_. Infinite)\<rparr>"

text \<open>What \<open>N\<close> threads reach that make calls of \<open>C\<close>.\<close>

inductive event_reachable :: "nat \<Rightarrow> event_call set \<Rightarrow> event_system \<Rightarrow> bool" for N :: nat and C :: "event_call set" where
  start: "event_reachable N C new_event_system"
| steps: "event_reachable N C s \<Longrightarrow> i < N \<Longrightarrow> event_step i s t \<Longrightarrow> event_reachable N C t"
| calls: "event_reachable N C s \<Longrightarrow> i < N \<Longrightarrow> c \<in> C \<Longrightarrow> event_calls i c s t \<Longrightarrow> event_reachable N C t"

section \<open>The word\<close>

definition event_fields :: "ulong64 \<Rightarrow> nat \<Rightarrow> nat \<Rightarrow> nat \<Rightarrow> bool" where
  "event_fields v st rc cl \<longleftrightarrow> st < 2 \<and> rc < 32768 \<and> cl < 2 \<and> unat v = st + 2 * rc + 2147483648 * cl"

lemma event_fieldsI:
  "st < 2 \<Longrightarrow> rc < 32768 \<Longrightarrow> cl < 2 \<Longrightarrow> v = of_nat (st + 2 * rc + 2147483648 * cl) \<Longrightarrow> event_fields v st rc cl"
proof -
  assume a: "st < 2" "rc < 32768" "cl < 2" and v: "v = of_nat (st + 2 * rc + 2147483648 * cl)"
  then have "st + 2 * rc + 2147483648 * cl < 2 ^ 64" by simp
  then have "unat v = st + 2 * rc + 2147483648 * cl" unfolding v by (simp only: unsigned_of_nat) (simp add: take_bit_nat_eq_self)
  then show ?thesis using a by (simp add: event_fields_def)
qed

lemma event_word: "event_fields v st rc cl \<Longrightarrow> v = of_nat (st + 2 * rc + 2147483648 * cl)"
  proof -
  assume "event_fields v st rc cl"
  then have "of_nat (unat v) = (of_nat (st + 2 * rc + 2147483648 * cl) :: ulong64)" by (simp only: event_fields_def)
  then show ?thesis by simp
qed

lemma event_tests:
  assumes "event_fields v st rc cl"
  shows "v AND PH_EVENT_SET = 0 \<longleftrightarrow> st = 0" "bit v PH_EVENT_SET_SHIFT \<longleftrightarrow> st = 1" "bit v PH_INITONCE_SHIFT \<longleftrightarrow> cl = 1"
    "PhpDereferenceEvent_last v \<longleftrightarrow> rc = 1"
proof -
  have lt: "st < 2" "rc < 32768" "cl < 2" and u: "unat v = st + 2 * (rc + 1073741824 * cl)" "unat v = (st + 2 * rc) + 2147483648 * cl"
    using assms by (auto simp: event_fields_def)
  have lt2: "st + 2 * rc < 2147483648" using lt by simp
  have "unat v mod 2 = st" "unat v div 2 = rc + 1073741824 * cl" unfolding u(1) by (rule field_split [OF lt(1)])+
  moreover have "unat v div 2147483648 = cl" unfolding u(2) by (rule field_split [OF lt2])
  moreover have "(rc + 32768 * (32768 * cl)) mod 32768 = rc" by (rule field_split [OF lt(2)])
  ultimately have d: "unat v mod 2 = st" "unat v div 2 mod 32768 = rc" "unat v div 2147483648 = cl"
    by simp_all
  show s: "bit v PH_EVENT_SET_SHIFT \<longleftrightarrow> st = 1"
    using d(1) by (simp add: event_consts bit_unat odd_iff_mod_2_eq_one)
  show "v AND PH_EVENT_SET = 0 \<longleftrightarrow> st = 0"
    using s lt(1) and_exp_eq_0_iff_not_bit [of v 0] by (auto simp: event_consts)
  show "bit v PH_INITONCE_SHIFT \<longleftrightarrow> cl = 1"
    using d(3) lt(3) by (auto simp: event_consts bit_unat bit_iff_odd odd_iff_mod_2_eq_one)
  have "PH_EVENT_REFCOUNT_MASK = mask 15" by (simp add: event_consts mask_eq_exp_minus_1)
  moreover have "unat (drop_bit 1 v AND mask 15) = unat v div 2 ^ 1 mod 2 ^ 15"
    unfolding take_bit_eq_mask [symmetric]
    by (simp only: unsigned_take_bit_eq unsigned_drop_bit_eq)
      (subst take_bit_nat_eq_self, use unsigned_less [of v, where ?'a = nat] in
        \<open>simp_all add: take_bit_eq_mod drop_bit_eq_div\<close>)
  ultimately have "unat (drop_bit 1 v AND PH_EVENT_REFCOUNT_MASK) = rc" using d(2) by simp
  then have "drop_bit 1 v AND PH_EVENT_REFCOUNT_MASK = 1 \<longleftrightarrow> rc = 1" by (simp add: word_unat_eq_iff)
  then show "PhpDereferenceEvent_last v \<longleftrightarrow> rc = 1"
    unfolding PhpDereferenceEvent_last_def by (simp add: event_consts)
qed

lemma event_updates:
  assumes f: "event_fields v st rc cl"
  shows "rc + 1 < 32768 \<Longrightarrow> event_fields (v + PH_EVENT_REFCOUNT_INC) st (rc + 1) cl"
    "0 < rc \<Longrightarrow> event_fields (v - PH_EVENT_REFCOUNT_INC) st (rc - 1) cl"
    "st = 0 \<Longrightarrow> event_fields (set_bit PH_EVENT_SET_SHIFT v) 1 rc cl"
    "cl = 0 \<Longrightarrow> event_fields (set_bit PH_INITONCE_SHIFT v) st rc 1"
proof -
  have lt: "st < 2" "rc < 32768" "cl < 2" using f by (simp_all add: event_fields_def)
  note v = event_word [OF f]
  show "rc + 1 < 32768 \<Longrightarrow> event_fields (v + PH_EVENT_REFCOUNT_INC) st (rc + 1) cl"
    using lt by (intro event_fieldsI) (simp_all add: v event_consts)
  show "event_fields (v - PH_EVENT_REFCOUNT_INC) st (rc - 1) cl" if "0 < rc"
  proof (rule event_fieldsI)
    obtain k where "rc = Suc k" using \<open>0 < rc\<close> gr0_implies_Suc by blast
    then show "v - PH_EVENT_REFCOUNT_INC = of_nat (st + 2 * (rc - 1) + 2147483648 * cl)"
      by (simp add: v event_consts)
  qed (use lt in auto)
  show "event_fields (set_bit PH_EVENT_SET_SHIFT v) 1 rc cl" if "st = 0"
  proof (rule event_fieldsI)
    have "\<not> bit v 0" using event_tests(2) [OF f] that by (simp add: event_consts)
    then show "set_bit PH_EVENT_SET_SHIFT v = of_nat (1 + 2 * rc + 2147483648 * cl)"
      using that by (simp add: set_bit_eq v event_consts)
  qed (use lt in auto)
  show "event_fields (set_bit PH_INITONCE_SHIFT v) st rc 1" if "cl = 0"
  proof (rule event_fieldsI)
    have "\<not> bit v 31" using event_tests(3) [OF f] that by (simp add: event_consts)
    then show "set_bit PH_INITONCE_SHIFT v = of_nat (st + 2 * rc + 2147483648 * 1)"
      using that by (simp add: set_bit_eq v event_consts)
  qed (use lt in auto)
qed

end
