(* ===== verification/EventInv.thy ===== *)
theory EventInv
  imports Events
begin

text \<open>
  The invariant of the event: the word counts the references of the threads; and as long as the
  event is not set, or a thread still waits, its handle is open and nobody is about to close it.
\<close>

unbundle bit_operations_syntax

section \<open>What the places say\<close>

fun holds_ref :: "ev_place \<Rightarrow> nat" where
  "holds_ref SetReads = 1"
| "holds_ref (SetSignals _) = 1"
| "holds_ref WaitReads = 1"
| "holds_ref WaitCreates = 1"
| "holds_ref (WaitPublishes _) = 1"
| "holds_ref (WaitDiscards _) = 1"
| "holds_ref WaitRereads = 1"
| "holds_ref (WaitTests _) = 1"
| "holds_ref (Blocked _) = 1"
| "holds_ref (Dereferences _ _) = 1"
| "holds_ref _ = 0"

text \<open>The places a thread reaches only when the event is set.\<close>

fun after_set :: "ev_place \<Rightarrow> bool" where
  "after_set SetReads = True"
| "after_set (SetSignals _) = True"
| "after_set (Dereferences _ r) = (r \<noteq> Some False)"
| "after_set (Closes _ _) = True"
| "after_set (Clears _) = True"
| "after_set (Returns b) = b"
| "after_set _ = False"

fun private_handle :: "ev_place \<Rightarrow> ulong64 option" where
  "private_handle (WaitPublishes h) = Some h"
| "private_handle (WaitDiscards h) = Some h"
| "private_handle _ = None"

fun closing :: "ev_place \<Rightarrow> bool" where
  "closing (Closes _ _) = True"
| "closing (Clears _) = True"
| "closing _ = False"

fun setting :: "ev_place \<Rightarrow> bool" where
  "setting SetReads = True"
| "setting (SetSignals _) = True"
| "setting _ = False"

text \<open>The places between losing the exchange of the handle and reading it again.\<close>

fun lost :: "ev_place \<Rightarrow> bool" where
  "lost (WaitDiscards _) = True"
| "lost WaitRereads = True"
| "lost _ = False"

section \<open>The invariant\<close>

definition counted :: "nat \<Rightarrow> (nat \<Rightarrow> ev_place) \<Rightarrow> nat \<Rightarrow> ulong64 \<Rightarrow> bool" where
  "counted N f st v \<longleftrightarrow> (\<exists>cl. event_fields v st (1 - st + total N holds_ref f) cl)"

definition truthful :: "nat \<Rightarrow> (nat \<Rightarrow> ev_place) \<Rightarrow> nat \<Rightarrow> bool" where
  "truthful N f st \<longleftrightarrow> (\<forall>i < N. after_set (f i) \<longrightarrow> st = 1)"

definition waited :: "nat \<Rightarrow> (nat \<Rightarrow> ev_place) \<Rightarrow> nat \<Rightarrow> bool" where
  "waited N f st \<longleftrightarrow> st = 0 \<or> (\<exists>i < N. \<exists>h. f i = Blocked h)"

definition none_closing :: "nat \<Rightarrow> (nat \<Rightarrow> ev_place) \<Rightarrow> bool" where
  "none_closing N f \<longleftrightarrow> (\<forall>i < N. \<not> closing (f i))"

definition privates :: "nat \<Rightarrow> (nat \<Rightarrow> ev_place) \<Rightarrow> ulong64 \<Rightarrow> (ulong64 \<rightharpoonup> bool) \<Rightarrow> bool" where
  "privates N f e K \<longleftrightarrow>
     (\<forall>i < N. \<forall>h. private_handle (f i) = Some h \<longrightarrow> h \<noteq> 0 \<and> K h = Some False \<and> h \<noteq> e)
   \<and> (\<forall>i < N. \<forall>j < N. \<forall>h. i \<noteq> j \<longrightarrow> private_handle (f i) = Some h \<longrightarrow> private_handle (f j) \<noteq> Some h)"

definition blocked_on :: "nat \<Rightarrow> (nat \<Rightarrow> ev_place) \<Rightarrow> ulong64 \<Rightarrow> bool" where
  "blocked_on N f e \<longleftrightarrow> (\<forall>i < N. \<forall>h. f i = Blocked h \<longrightarrow> h = e \<and> h \<noteq> 0)"

definition tests_on :: "nat \<Rightarrow> (nat \<Rightarrow> ev_place) \<Rightarrow> nat \<Rightarrow> ulong64 \<Rightarrow> bool" where
  "tests_on N f st e \<longleftrightarrow> (st = 0 \<longrightarrow> (\<forall>i < N. (\<forall>h. f i = WaitTests h \<longrightarrow> h = e \<and> h \<noteq> 0) \<and> (lost (f i) \<longrightarrow> e \<noteq> 0)))"

definition signals_on :: "nat \<Rightarrow> (nat \<Rightarrow> ev_place) \<Rightarrow> bool" where
  "signals_on N f \<longleftrightarrow> (\<forall>i < N. \<forall>j < N. \<forall>g h. f i = SetSignals g \<longrightarrow> f j = Blocked h \<longrightarrow> g = h)"

definition woken :: "nat \<Rightarrow> (nat \<Rightarrow> ev_place) \<Rightarrow> nat \<Rightarrow> ulong64 \<Rightarrow> (ulong64 \<rightharpoonup> bool) \<Rightarrow> bool" where
  "woken N f st e K \<longleftrightarrow> (\<forall>i < N. \<forall>h. st = 1 \<longrightarrow> f i = Blocked h \<longrightarrow> K e = Some True \<or> (\<exists>j < N. setting (f j)))"

definition settled :: "nat \<Rightarrow> (nat \<Rightarrow> ev_place) \<Rightarrow> nat \<Rightarrow> ulong64 \<Rightarrow> (ulong64 \<rightharpoonup> bool) \<Rightarrow> bool" where
  "settled N f st e K \<longleftrightarrow> none_closing N f \<and> (e \<noteq> 0 \<longrightarrow> K e \<noteq> None) \<and> (K e = Some True \<longrightarrow> st = 1)
     \<and> privates N f e K \<and> blocked_on N f e \<and> tests_on N f st e \<and> signals_on N f \<and> woken N f st e K"

definition event_inv :: "nat \<Rightarrow> nat \<Rightarrow> event_system \<Rightarrow> bool" where
  "event_inv N st s \<longleftrightarrow> st < 2 \<and> counted N (ev_at s) st (value_of s) \<and> truthful N (ev_at s) st
     \<and> (waited N (ev_at s) st \<longrightarrow> settled N (ev_at s) st (handle_of s) (kernel s) \<and> \<not> misused s)"

lemma counted_test: "counted N f st (EventValue E) \<Longrightarrow> PhTestEvent E \<longleftrightarrow> st = 1"
proof -
  assume "counted N f st (EventValue E)"
  then obtain cl where f: "event_fields (EventValue E) st (1 - st + total N holds_ref f) cl" by (auto simp: counted_def)
  have "st < 2" using f by (simp add: event_fields_def)
  then show ?thesis using event_tests(1) [OF f] by (auto simp: PhTestEvent_def)
qed

lemma counted_bits:
  assumes "counted N f st v"
  shows "v AND PH_EVENT_SET = 0 \<longleftrightarrow> st = 0" "bit v PH_EVENT_SET_SHIFT \<longleftrightarrow> st = 1"
    "PhpDereferenceEvent_last v \<longleftrightarrow> 1 - st + total N holds_ref f = 1"
proof -
  obtain cl where f: "event_fields v st (1 - st + total N holds_ref f) cl" using assms by (auto simp: counted_def)
  show "v AND PH_EVENT_SET = 0 \<longleftrightarrow> st = 0" "bit v PH_EVENT_SET_SHIFT \<longleftrightarrow> st = 1"
    "PhpDereferenceEvent_last v \<longleftrightarrow> 1 - st + total N holds_ref f = 1"
    by (rule event_tests [OF f])+
qed

lemma holds_ref_le: "holds_ref p \<le> 1"
  by (cases p rule: holds_ref.cases) auto

lemma refs_le: "total N holds_ref f \<le> N"
proof -
  have "total N holds_ref f \<le> (\<Sum>i<N. 1)" unfolding total_def by (rule sum_mono) (rule holds_ref_le)
  then show ?thesis by simp
qed

section \<open>The count\<close>

text \<open>A thread moves, and the word is updated to fit.\<close>

lemma counted_move:
  assumes "counted N f st v" "i < N"
    and "\<And>rc cl. event_fields v st rc cl \<Longrightarrow> rc = 1 - st + total N holds_ref f
      \<Longrightarrow> \<exists>cl. event_fields v' st' rc' cl"
    and "1 - st' + total N holds_ref f + holds_ref q = rc' + holds_ref (f i)"
  shows "counted N (f(i := q)) st' v'"
proof -
  have "1 - st' + total N holds_ref (f(i := q)) = rc'" using total_upd [OF assms(2), of holds_ref f q] assms(4) by linarith
  then show ?thesis using assms(1,3) by (auto simp: counted_def)
qed

lemma counted_same: "counted N f st v \<Longrightarrow> i < N \<Longrightarrow> holds_ref q = holds_ref (f i) \<Longrightarrow> counted N (f(i := q)) st v"
  by (rule counted_move [where rc' = "1 - st + total N holds_ref f"]) auto

lemma counted_inc:
  assumes "counted N f st v" "i < N" "N < 32766" "holds_ref (f i) = 0" "holds_ref q = 1"
  shows "counted N (f(i := q)) st (v + PH_EVENT_REFCOUNT_INC)"
proof (rule counted_move [OF assms(1,2), where rc' = "1 - st + total N holds_ref f + 1"])
  fix rc cl
  assume "event_fields v st rc cl" "rc = 1 - st + total N holds_ref f"
  then show "\<exists>cl. event_fields (v + PH_EVENT_REFCOUNT_INC) st (1 - st + total N holds_ref f + 1) cl"
    using event_updates(1) [of v st rc cl] refs_le [of N f] assms(3) by (intro exI [of _ cl]) auto
qed (use assms in simp)

lemma counted_dec:
  assumes "counted N f st v" "i < N" "holds_ref (f i) = 1" "holds_ref q = 0"
  shows "counted N (f(i := q)) st (v - PH_EVENT_REFCOUNT_INC)"
proof (rule counted_move [OF assms(1,2), where rc' = "1 - st + total N holds_ref f - 1"])
  have "1 \<le> total N holds_ref f" using total_member [OF assms(2), of holds_ref f] assms(3) by simp
  then show "1 - st + total N holds_ref f + holds_ref q = 1 - st + total N holds_ref f - 1 + holds_ref (f i)"
    using assms by simp
  fix rc cl
  assume "event_fields v st rc cl" "rc = 1 - st + total N holds_ref f"
  then show "\<exists>cl. event_fields (v - PH_EVENT_REFCOUNT_INC) st (1 - st + total N holds_ref f - 1) cl"
    using event_updates(2) [of v st rc cl] \<open>1 \<le> total N holds_ref f\<close> by (intro exI [of _ cl]) auto
qed

lemma counted_set:
  assumes "counted N f 0 v" "i < N" "holds_ref (f i) = 0" "holds_ref q = 1"
  shows "counted N (f(i := q)) 1 (set_bit PH_EVENT_SET_SHIFT v)"
proof (rule counted_move [OF assms(1,2), where rc' = "1 + total N holds_ref f"])
  fix rc cl
  assume "event_fields v 0 rc cl" "rc = 1 - 0 + total N holds_ref f"
  then show "\<exists>cl. event_fields (set_bit PH_EVENT_SET_SHIFT v) 1 (1 + total N holds_ref f) cl"
    using event_updates(3) [of v 0 rc cl] by auto
qed (use assms in simp)

lemma counted_claim:
  assumes "counted N f st v" "i < N" "holds_ref q = holds_ref (f i)" "\<not> bit v PH_INITONCE_SHIFT"
  shows "counted N (f(i := q)) st (set_bit PH_INITONCE_SHIFT v)"
proof (rule counted_move [OF assms(1,2), where rc' = "1 - st + total N holds_ref f"])
  fix rc cl
  assume f: "event_fields v st rc cl" "rc = 1 - st + total N holds_ref f"
  have "cl \<noteq> 1" using event_tests(3) [OF f(1)] assms(4) by simp
  then have "cl = 0" using f(1) by (simp add: event_fields_def)
  then show "\<exists>cl. event_fields (set_bit PH_INITONCE_SHIFT v) st (1 - st + total N holds_ref f) cl"
    using event_updates(4) [OF f(1)] f(2) by auto
qed (use assms(3) in simp)

lemma truthful_upd: "truthful N f st \<Longrightarrow> (after_set q \<Longrightarrow> st = 1) \<Longrightarrow> truthful N (f(i := q)) st"
  by (auto simp: truthful_def)

lemma waited_back: "waited N (f(i := q)) st \<Longrightarrow> (\<And>h. q = Blocked h \<Longrightarrow> st = 0) \<Longrightarrow> waited N f st"
  by (auto simp: waited_def split: if_splits)


section \<open>Steps preserve the invariant\<close>

lemma settledD:
  assumes "settled N f st e K"
  shows "none_closing N f" "e \<noteq> 0 \<Longrightarrow> K e \<noteq> None" "K e = Some True \<Longrightarrow> st = 1" "privates N f e K" "blocked_on N f e"
    "tests_on N f st e" "signals_on N f" "woken N f st e K"
  using assms by (simp_all add: settled_def)

lemma settledI:
  "none_closing N f \<Longrightarrow> (e \<noteq> 0 \<Longrightarrow> K e \<noteq> None) \<Longrightarrow> (K e = Some True \<Longrightarrow> st = 1) \<Longrightarrow> privates N f e K \<Longrightarrow> blocked_on N f e
   \<Longrightarrow> tests_on N f st e \<Longrightarrow> signals_on N f \<Longrightarrow> woken N f st e K \<Longrightarrow> settled N f st e K"
  by (simp add: settled_def)

lemma closing_upd: "none_closing N f \<Longrightarrow> \<not> closing q \<Longrightarrow> none_closing N (f(i := q))"
  by (simp add: none_closing_def)

lemma privatesD:
  "privates N f e K \<Longrightarrow> i < N \<Longrightarrow> private_handle (f i) = Some h \<Longrightarrow> h \<noteq> 0 \<and> K h = Some False \<and> h \<noteq> e"
  by (simp add: privates_def)

lemma privates_apart:
  "privates N f e K \<Longrightarrow> i < N \<Longrightarrow> j < N \<Longrightarrow> i \<noteq> j \<Longrightarrow> private_handle (f i) = Some h \<Longrightarrow> private_handle (f j) \<noteq> Some h"
  by (simp add: privates_def)

lemma privates_same:
  assumes "privates N f e K" "private_handle q = private_handle (f i)"
  shows "privates N (f(i := q)) e K"
proof -
  have "private_handle ((f(i := q)) j) = private_handle (f j)" for j using assms(2) by simp
  then show ?thesis using assms(1) unfolding privates_def by simp
qed

lemma privates_upd:
  assumes p: "privates N f e K" and q: "private_handle q = None"
  shows "privates N (f(i := q)) e K"
  unfolding privates_def
proof (intro conjI allI impI)
  fix j g
  assume j: "j < N" "private_handle ((f(i := q)) j) = Some g"
  then have "private_handle (f j) = Some g" using q by (cases "j = i") simp_all
  then show "g \<noteq> 0" "K g = Some False" "g \<noteq> e" using privatesD [OF p j(1)] by simp_all
next
  fix j k g
  assume a: "j < N" "k < N" "j \<noteq> k" "private_handle ((f(i := q)) j) = Some g"
  then have "private_handle (f j) = Some g" using q by (cases "j = i") simp_all
  then show "private_handle ((f(i := q)) k) \<noteq> Some g" using privates_apart [OF p a(1-3)] q by (cases "k = i") simp_all
qed

lemma blocked_upd: "blocked_on N f e \<Longrightarrow> (\<And>h. q \<noteq> Blocked h) \<Longrightarrow> blocked_on N (f(i := q)) e"
  by (simp add: blocked_on_def)

lemma blockedD: "blocked_on N f e \<Longrightarrow> i < N \<Longrightarrow> f i = Blocked h \<Longrightarrow> h = e \<and> h \<noteq> 0"
  by (simp add: blocked_on_def)

lemma tests_upd:
  assumes "tests_on N f st e" "\<And>h. st = 0 \<Longrightarrow> q = WaitTests h \<Longrightarrow> h = e \<and> h \<noteq> 0" "st = 0 \<Longrightarrow> lost q \<Longrightarrow> e \<noteq> 0"
  shows "tests_on N (f(i := q)) st e"
  unfolding tests_on_def
proof (intro impI allI)
  fix j
  assume a: "st = 0" "j < N"
  show "(\<forall>h. (f(i := q)) j = WaitTests h \<longrightarrow> h = e \<and> h \<noteq> 0) \<and> (lost ((f(i := q)) j) \<longrightarrow> e \<noteq> 0)"
    by (cases "j = i") (use assms a in \<open>simp_all add: tests_on_def\<close>)
qed

lemma testsD:
  "tests_on N f 0 e \<Longrightarrow> i < N \<Longrightarrow> f i = WaitTests h \<Longrightarrow> h = e \<and> h \<noteq> 0"
  "tests_on N f 0 e \<Longrightarrow> i < N \<Longrightarrow> lost (f i) \<Longrightarrow> e \<noteq> 0"
  by (simp_all add: tests_on_def)

lemma signals_upd:
  "signals_on N f \<Longrightarrow> (\<And>h. q \<noteq> Blocked h) \<Longrightarrow> (\<And>g. q \<noteq> SetSignals g) \<Longrightarrow> signals_on N (f(i := q))"
  by (simp add: signals_on_def)

lemma signalsD: "signals_on N f \<Longrightarrow> i < N \<Longrightarrow> j < N \<Longrightarrow> f i = SetSignals g \<Longrightarrow> f j = Blocked h \<Longrightarrow> g = h"
  by (simp add: signals_on_def)

lemma woken_upd:
  assumes w: "woken N f st e K" and i: "i < N" and q: "\<And>h. q \<noteq> Blocked h" "setting (f i) \<Longrightarrow> setting q"
  shows "woken N (f(i := q)) st e K"
  unfolding woken_def
proof (intro allI impI)
  fix k h
  assume a: "k < N" "st = 1" "(f(i := q)) k = Blocked h"
  then have "f k = Blocked h" using q(1) by (cases "k = i") auto
  then consider "K e = Some True" | j where "j < N" "setting (f j)" using w a(1,2) unfolding woken_def by blast
  then show "K e = Some True \<or> (\<exists>j < N. setting ((f(i := q)) j))"
  proof cases
    case 2
    then show ?thesis using q(2) by (cases "j = i") auto
  qed blast
qed

lemma settled_weaken:
  assumes s: "settled N f st e K" and i: "i < N"
    and q: "\<not> closing q" "private_handle q = None" "\<And>h. q \<noteq> Blocked h" "\<And>g. q \<noteq> SetSignals g"
      "\<And>h. st = 0 \<Longrightarrow> q = WaitTests h \<Longrightarrow> h = e \<and> h \<noteq> 0" "st = 0 \<Longrightarrow> lost q \<Longrightarrow> e \<noteq> 0" "setting (f i) \<Longrightarrow> setting q"
  shows "settled N (f(i := q)) st e K"
  using settledD [OF s] q i
  by (intro settledI closing_upd privates_upd blocked_upd tests_upd signals_upd woken_upd) assumption+

lemma settled_set_reads:
  assumes s: "settled N f st e K" and i: "i < N" "f i = SetReads"
  shows "settled N (f(i := SetSignals e)) st e K"
proof (rule settledI)
  note p = settledD [OF s]
  show "none_closing N (f(i := SetSignals e))" by (rule closing_upd [OF p(1)]) simp
  show "e \<noteq> 0 \<Longrightarrow> K e \<noteq> None" "K e = Some True \<Longrightarrow> st = 1" by (rule p, assumption)+
  show "privates N (f(i := SetSignals e)) e K" by (rule privates_upd [OF p(4)]) simp
  show b: "blocked_on N (f(i := SetSignals e)) e" by (rule blocked_upd [OF p(5)]) simp
  show "tests_on N (f(i := SetSignals e)) st e" by (rule tests_upd [OF p(6)]) simp_all
  show "signals_on N (f(i := SetSignals e))"
    unfolding signals_on_def
  proof (intro allI impI)
    fix j k g h
    assume a: "j < N" "k < N" "(f(i := SetSignals e)) j = SetSignals g" "(f(i := SetSignals e)) k = Blocked h"
    have h: "h = e" using blockedD [OF b a(2,4)] by simp
    have k: "f k = Blocked h" using a(4) by (cases "k = i") auto
    show "g = h" using a(3) h signalsD [OF p(7) a(1,2) _ k, of g] by (cases "j = i") simp_all
  qed
  show "woken N (f(i := SetSignals e)) st e K" by (rule woken_upd [OF p(8) i(1)]) simp_all
qed

lemma settled_signals:
  assumes s: "settled N f 1 e K" and i: "i < N" "f i = SetSignals h" and w: "j < N" "f j = Blocked g"
  shows "h \<noteq> 0" "K h \<noteq> None" "settled N (f(i := Dereferences h None)) 1 e (K(h \<mapsto> True))"
proof -
  note p = settledD [OF s]
  have h: "h = e" "e \<noteq> 0" using signalsD [OF p(7) i(1) w(1) i(2) w(2)] blockedD [OF p(5) w] by auto
  then show "h \<noteq> 0" "K h \<noteq> None" using p(2) by simp_all
  show "settled N (f(i := Dereferences h None)) 1 e (K(h \<mapsto> True))"
  proof (rule settledI)
    show "none_closing N (f(i := Dereferences h None))" by (rule closing_upd [OF p(1)]) simp
    have "privates N (f(i := Dereferences h None)) e K" by (rule privates_upd [OF p(4)]) simp
    then show "privates N (f(i := Dereferences h None)) e (K(h \<mapsto> True))" by (simp add: privates_def h)
    show "blocked_on N (f(i := Dereferences h None)) e" by (rule blocked_upd [OF p(5)]) simp
    show "tests_on N (f(i := Dereferences h None)) 1 e" by (simp add: tests_on_def)
    show "signals_on N (f(i := Dereferences h None))" by (rule signals_upd [OF p(7)]) simp_all
    show "woken N (f(i := Dereferences h None)) 1 e (K(h \<mapsto> True))" by (simp add: woken_def h)
  qed (simp_all add: h)
qed

lemma settled_creates:
  assumes s: "settled N f st e K" and i: "i < N" "f i = WaitCreates" and h: "h \<noteq> 0" "K h = None"
  shows "settled N (f(i := WaitPublishes h)) st e (K(h \<mapsto> False))"
proof (rule settledI)
  note p = settledD [OF s]
  let ?f = "f(i := WaitPublishes h)"
  have he: "h \<noteq> e" using p(2) h by auto
  show "none_closing N ?f" by (rule closing_upd [OF p(1)]) simp
  show "blocked_on N ?f e" by (rule blocked_upd [OF p(5)]) simp
  show "tests_on N ?f st e" by (rule tests_upd [OF p(6)]) simp_all
  show "signals_on N ?f" by (rule signals_upd [OF p(7)]) simp_all
  show "e \<noteq> 0 \<Longrightarrow> (K(h \<mapsto> False)) e \<noteq> None" "(K(h \<mapsto> False)) e = Some True \<Longrightarrow> st = 1" using p(2,3) he by auto
  have fresh: "private_handle (f j) \<noteq> Some h" if "j < N" for j using privatesD [OF p(4) that, of h] h(2) by auto
  show "privates N ?f e (K(h \<mapsto> False))"
    unfolding privates_def
  proof (intro conjI allI impI)
    fix j g
    assume j: "j < N" "private_handle (?f j) = Some g"
    show "g \<noteq> 0" "(K(h \<mapsto> False)) g = Some False" "g \<noteq> e"
      using j privatesD [OF p(4) j(1), of g] h he by (auto split: if_splits)
  next
    fix j k g
    assume a: "j < N" "k < N" "j \<noteq> k" "private_handle (?f j) = Some g"
    show "private_handle (?f k) \<noteq> Some g"
      using a fresh [OF a(1)] fresh [OF a(2)] privates_apart [OF p(4) a(1-3), of g] by (cases "j = i"; cases "k = i") auto
  qed
  have "woken N ?f st e K" by (rule woken_upd [OF p(8) i(1)]) (simp_all add: i)
  then show "woken N ?f st e (K(h \<mapsto> False))" using he by (simp add: woken_def)
qed

lemma settled_publishes:
  assumes s: "settled N f st 0 K" and i: "i < N" "f i = WaitPublishes h"
  shows "settled N (f(i := WaitTests h)) st h K"
proof (rule settledI)
  note p = settledD [OF s]
  let ?f = "f(i := WaitTests h)"
  have h: "h \<noteq> 0" "K h = Some False" using privatesD [OF p(4) i(1), of h] i(2) by auto
  show "none_closing N ?f" by (rule closing_upd [OF p(1)]) simp
  show "signals_on N ?f" by (rule signals_upd [OF p(7)]) simp_all
  show "K h \<noteq> None" "K h = Some True \<Longrightarrow> st = 1" using h by simp_all
  have nb: "?f j \<noteq> Blocked g" if "j < N" for j g using blockedD [OF p(5) that, of g] by auto
  then show "blocked_on N ?f h" "woken N ?f st h K" by (simp_all add: blocked_on_def woken_def)
  show "tests_on N ?f st h"
    unfolding tests_on_def
  proof (intro impI allI conjI)
    fix j g
    assume "st = 0" "j < N" "?f j = WaitTests g"
    then show "g = h" "g \<noteq> 0" using testsD(1) [of N f 0 j g] p(6) h by (cases "j = i"; simp)+
  qed (rule h)
  have apart: "private_handle (?f j) \<noteq> Some h" if "j < N" for j
    using privates_apart [OF p(4) i(1) that, of h] i(2) by (cases "j = i") auto
  show "privates N ?f h K"
    unfolding privates_def
  proof (intro conjI allI impI)
    fix j g
    assume j: "j < N" "private_handle (?f j) = Some g"
    show "g \<noteq> 0" "K g = Some False" "g \<noteq> h"
      using j privatesD [OF p(4) j(1), of g] apart [OF j(1)] by (cases "j = i"; auto)+
  next
    fix j k g
    assume a: "j < N" "k < N" "j \<noteq> k" "private_handle (?f j) = Some g"
    show "private_handle (?f k) \<noteq> Some g"
      using a privates_apart [OF p(4) a(1-3), of g] by (cases "j = i"; cases "k = i") auto
  qed
qed

lemma settled_loses:
  assumes s: "settled N f st e K" and i: "i < N" "f i = WaitPublishes h" and e: "e \<noteq> 0"
  shows "settled N (f(i := WaitDiscards h)) st e K"
proof (rule settledI)
  note p = settledD [OF s]
  let ?f = "f(i := WaitDiscards h)"
  show "none_closing N ?f" by (rule closing_upd [OF p(1)]) simp
  show "blocked_on N ?f e" by (rule blocked_upd [OF p(5)]) simp
  show "tests_on N ?f st e" by (rule tests_upd [OF p(6)]) (simp_all add: e)
  show "signals_on N ?f" by (rule signals_upd [OF p(7)]) simp_all
  show "e \<noteq> 0 \<Longrightarrow> K e \<noteq> None" "K e = Some True \<Longrightarrow> st = 1" by (rule p, assumption)+
  show "privates N ?f e K" by (rule privates_same [OF p(4)]) (simp add: i)
  show "woken N ?f st e K" by (rule woken_upd [OF p(8) i(1)]) (simp_all add: i)
qed

lemma settled_discards:
  assumes s: "settled N f st e K" and i: "i < N" "f i = WaitDiscards h"
  shows "K h \<noteq> None" "settled N (f(i := WaitRereads)) st e (K(h := None))"
proof -
  note p = settledD [OF s]
  let ?f = "f(i := WaitRereads)"
  have h: "h \<noteq> 0" "K h = Some False" "h \<noteq> e" using privatesD [OF p(4) i(1), of h] i(2) by auto
  then show "K h \<noteq> None" by simp
  show "settled N ?f st e (K(h := None))"
  proof (rule settledI)
    show "none_closing N ?f" by (rule closing_upd [OF p(1)]) simp
    show "blocked_on N ?f e" by (rule blocked_upd [OF p(5)]) simp
    show "signals_on N ?f" by (rule signals_upd [OF p(7)]) simp_all
    have "st = 0 \<Longrightarrow> e \<noteq> 0" using testsD(2) [of N f e, OF _ i(1)] p(6) i(2) by simp
    then show "tests_on N ?f st e" by (intro tests_upd [OF p(6)]) simp_all
    show "e \<noteq> 0 \<Longrightarrow> (K(h := None)) e \<noteq> None" "(K(h := None)) e = Some True \<Longrightarrow> st = 1" using p(2,3) h by auto
    have pr: "privates N ?f e K" by (rule privates_upd [OF p(4)]) simp
    have apart: "private_handle (?f j) \<noteq> Some h" if "j < N" for j
      using privates_apart [OF p(4) i(1) that, of h] i(2) by (cases "j = i") auto
    show "privates N ?f e (K(h := None))"
      unfolding privates_def
    proof (intro conjI allI impI)
      fix j g
      assume j: "j < N" "private_handle (?f j) = Some g"
      show "g \<noteq> 0" "(K(h := None)) g = Some False" "g \<noteq> e" using privatesD [OF pr j] apart [OF j(1)] j(2) by auto
    next
      fix j k g
      assume a: "j < N" "k < N" "j \<noteq> k" "private_handle (?f j) = Some g"
      show "private_handle (?f k) \<noteq> Some g" by (rule privates_apart [OF pr a])
    qed
    have "woken N ?f st e K" by (rule woken_upd [OF p(8) i(1)]) (simp_all add: i)
    then show "woken N ?f st e (K(h := None))" using h by (simp add: woken_def)
  qed
qed

lemma settled_blocks:
  assumes s: "settled N f 0 e K" and i: "i < N" "f i = WaitTests h" and t: "truthful N f 0"
  shows "settled N (f(i := Blocked h)) 0 e K"
proof (rule settledI)
  note p = settledD [OF s]
  let ?f = "f(i := Blocked h)"
  show "none_closing N ?f" by (rule closing_upd [OF p(1)]) simp
  show "privates N ?f e K" by (rule privates_upd [OF p(4)]) simp
  show "tests_on N ?f 0 e" by (rule tests_upd [OF p(6)]) simp_all
  show "e \<noteq> 0 \<Longrightarrow> K e \<noteq> None" "K e = Some True \<Longrightarrow> (0 :: nat) = 1" using p(2,3) by blast+
  have "h = e" "e \<noteq> 0" using testsD(1) [OF p(6) i] by auto
  then show "blocked_on N ?f e" using p(5) by (simp add: blocked_on_def)
  have "f j \<noteq> SetSignals g" if "j < N" for j g using t that by (auto simp: truthful_def)
  then show "signals_on N ?f" by (simp add: signals_on_def)
  show "woken N ?f 0 e K" by (simp add: woken_def)
qed

lemma settled_set:
  assumes s: "settled N f 0 e K" and i: "i < N" and t: "truthful N f 0"
  shows "settled N (f(i := SetReads)) 1 e K"
proof (rule settledI)
  note p = settledD [OF s]
  let ?f = "f(i := SetReads)"
  show "none_closing N ?f" by (rule closing_upd [OF p(1)]) simp
  show "privates N ?f e K" by (rule privates_upd [OF p(4)]) simp
  show "blocked_on N ?f e" by (rule blocked_upd [OF p(5)]) simp
  show "signals_on N ?f" by (rule signals_upd [OF p(7)]) simp_all
  show "tests_on N ?f 1 e" by (simp add: tests_on_def)
  show "e \<noteq> 0 \<Longrightarrow> K e \<noteq> None" by (rule p(2))
  have "setting (?f i)" by simp
  then show "woken N ?f 1 e K" using i unfolding woken_def by blast
qed simp


lemma system_simps [simp]:
  "ev_at (ev_goes i p s) = (ev_at s)(i := p)" "the_event (ev_goes i p s) = the_event s" "kernel (ev_goes i p s) = kernel s"
  "misused (ev_goes i p s) = misused s" "ev_timeout_of (ev_goes i p s) = ev_timeout_of s"
  "ev_at (put_value v s) = ev_at s" "value_of (put_value v s) = v" "handle_of (put_value v s) = handle_of s"
  "kernel (put_value v s) = kernel s" "misused (put_value v s) = misused s" "ev_timeout_of (put_value v s) = ev_timeout_of s"
  "ev_at (put_handle h s) = ev_at s" "value_of (put_handle h s) = value_of s" "handle_of (put_handle h s) = h"
  "kernel (put_handle h s) = kernel s" "misused (put_handle h s) = misused s"
  "ev_at (NtSetEvent h s) = ev_at s" "the_event (NtSetEvent h s) = the_event s"
  "ev_at (NtClose h s) = ev_at s" "the_event (NtClose h s) = the_event s"
  "ev_at (set_timeout i T s) = ev_at s" "the_event (set_timeout i T s) = the_event s" "kernel (set_timeout i T s) = kernel s"
  "misused (set_timeout i T s) = misused s"
  by (simp_all add: ev_goes_def put_value_def put_handle_def NtSetEvent_def NtClose_def set_timeout_def)

lemma event_inv_step:
  assumes inv: "event_inv N st s" and i: "i < N" and t: "ev_at t = (ev_at s)(i := q)"
    and c: "counted N ((ev_at s)(i := q)) st (value_of t)" and q: "after_set q \<Longrightarrow> st = 1" "\<And>h. q = Blocked h \<Longrightarrow> st = 0"
    and ok: "waited N ((ev_at s)(i := q)) st \<Longrightarrow> settled N (ev_at s) st (handle_of s) (kernel s) \<Longrightarrow> \<not> misused s
      \<Longrightarrow> settled N ((ev_at s)(i := q)) st (handle_of t) (kernel t) \<and> \<not> misused t"
  shows "event_inv N st t"
proof -
  have "truthful N (ev_at t) st" unfolding t by (rule truthful_upd) (use inv q in \<open>simp_all add: event_inv_def\<close>)
  moreover have "settled N (ev_at t) st (handle_of t) (kernel t) \<and> \<not> misused t" if "waited N (ev_at t) st"
  proof -
    have "waited N (ev_at s) st" using that unfolding t by (rule waited_back) (rule q(2))
    then show ?thesis using that inv ok unfolding t event_inv_def by blast
  qed
  ultimately show ?thesis using inv c unfolding event_inv_def t by blast
qed

text \<open>A thread moves and nothing else changes.\<close>

lemma event_inv_move:
  assumes inv: "event_inv N st s" and i: "i < N" "holds_ref q = holds_ref (ev_at s i)"
    and q: "after_set q \<Longrightarrow> st = 1" "\<And>h. q = Blocked h \<Longrightarrow> st = 0"
    and ok: "settled N (ev_at s) st (handle_of s) (kernel s) \<Longrightarrow> settled N ((ev_at s)(i := q)) st (handle_of s) (kernel s)"
  shows "event_inv N st (ev_goes i q s)"
  by (rule event_inv_step [OF inv i(1), where q = q])
    (use inv i q ok counted_same in \<open>simp_all add: event_inv_def\<close>)

lemma event_inv_weaken:
  assumes inv: "event_inv N st s" and i: "i < N" "holds_ref q = holds_ref (ev_at s i)" and q: "after_set q \<Longrightarrow> st = 1"
      "\<not> closing q" "private_handle q = None" "\<And>h. q \<noteq> Blocked h" "\<And>g. q \<noteq> SetSignals g"
      "\<And>h. settled N (ev_at s) st (handle_of s) (kernel s) \<Longrightarrow> st = 0 \<Longrightarrow> q = WaitTests h \<Longrightarrow> h = handle_of s \<and> h \<noteq> 0"
      "\<not> lost q" "\<not> setting (ev_at s i)"
  shows "event_inv N st (ev_goes i q s)"
proof (rule event_inv_move [OF inv i q(1)])
  assume s: "settled N (ev_at s) st (handle_of s) (kernel s)"
  show "settled N ((ev_at s)(i := q)) st (handle_of s) (kernel s)"
    by (rule settled_weaken [OF s i(1) q(2-5) q(6) [OF s]]) (use q in auto)
qed (use q in auto)

lemma inv_after:
  assumes "event_inv N st s" "i < N" "after_set (ev_at s i)"
  shows "st = 1"
  using assms by (simp add: event_inv_def truthful_def)

lemma entry_simps [simp]:
  "holds_ref (PhBeginInitOnce_entry E) = 0" "\<not> closing (PhBeginInitOnce_entry E)" "private_handle (PhBeginInitOnce_entry E) = None"
  "PhBeginInitOnce_entry E \<noteq> Blocked h" "PhBeginInitOnce_entry E \<noteq> SetSignals h" "PhBeginInitOnce_entry E \<noteq> WaitTests h"
  "\<not> lost (PhBeginInitOnce_entry E)" "after_set (PhBeginInitOnce_entry E) = PhTestEvent E"
  "holds_ref (PhfWaitForEvent_entry E T) = 0" "\<not> closing (PhfWaitForEvent_entry E T)" "private_handle (PhfWaitForEvent_entry E T) = None"
  "PhfWaitForEvent_entry E T \<noteq> Blocked h" "PhfWaitForEvent_entry E T \<noteq> SetSignals h" "PhfWaitForEvent_entry E T \<noteq> WaitTests h"
  "\<not> lost (PhfWaitForEvent_entry E T)" "after_set (PhfWaitForEvent_entry E T) = PhTestEvent E"
  "holds_ref (PhWaitForEvent_entry E) = 0" "\<not> closing (PhWaitForEvent_entry E)" "private_handle (PhWaitForEvent_entry E) = None"
  "PhWaitForEvent_entry E \<noteq> Blocked h" "PhWaitForEvent_entry E \<noteq> SetSignals h" "PhWaitForEvent_entry E \<noteq> WaitTests h"
  "\<not> lost (PhWaitForEvent_entry E)" "after_set (PhWaitForEvent_entry E) = PhTestEvent E"
  "holds_ref (after_dereference r) = 0" "\<not> closing (after_dereference r)" "private_handle (after_dereference r) = None"
  "after_dereference r \<noteq> Blocked h" "after_dereference r \<noteq> SetSignals h" "after_dereference r \<noteq> WaitTests h"
  "\<not> lost (after_dereference r)" "after_set (after_dereference r) = (r = Some True)"
  by (simp_all add: PhWaitForEvent_entry_def PhBeginInitOnce_entry_def PhfWaitForEvent_entry_def PhTestEvent_def)
    (cases r; simp)+

theorem event_step_inv:
  assumes inv: "event_inv N st s" and i: "i < N" and N: "N < 32766" and step: "event_step i s t"
  shows "event_inv N st t"
  using step
proof cases
  have c: "counted N (ev_at s) st (value_of s)" and st: "st < 2" using inv by (simp_all add: event_inv_def)
  note bits = counted_bits [OF c] and test = counted_test [OF c]
  note same = counted_same [OF c i]
  case set_reads
  have "st = 1" by (rule inv_after [OF inv i]) (simp add: set_reads)
  then show ?thesis unfolding set_reads(1)
    using settled_set_reads [OF _ i] set_reads(2) by (intro event_inv_move [OF inv i]) simp_all
next
  case (set_signals h)
  have st1: "st = 1" by (rule inv_after [OF inv i]) (simp add: set_signals)
  show ?thesis
  proof (rule event_inv_step [OF inv i, where q = "Dereferences h None"])
    show "counted N ((ev_at s)(i := Dereferences h None)) st (value_of t)"
      unfolding set_signals(1) using inv counted_same [OF _ i] set_signals(2) by (simp add: event_inv_def)
  next
    assume w: "waited N ((ev_at s)(i := Dereferences h None)) st" and s: "settled N (ev_at s) st (handle_of s) (kernel s)" "\<not> misused s"
    obtain j g where "j < N" "ev_at s j = Blocked g" using w st1 by (auto simp: waited_def split: if_splits)
    from settled_signals [OF s(1) [unfolded st1] i set_signals(2) this]
    show "settled N ((ev_at s)(i := Dereferences h None)) st (handle_of t) (kernel t) \<and> \<not> misused t"
      unfolding set_signals(1) st1 using s(2) by (simp add: NtSetEvent_def)
  qed (simp_all add: set_signals(1) st1)
next
  case (dereferences h r)
  let ?q = "if PhpDereferenceEvent_last (value_of s) \<and> h \<noteq> 0 then Closes h r else after_dereference r"
  have c: "counted N (ev_at s) st (value_of s)" and st: "st < 2" using inv by (simp_all add: event_inv_def)
  have one: "total N holds_ref (ev_at s) \<ge> 1" using total_member [OF i, of holds_ref "ev_at s"] dereferences(2) by simp
  have last: "PhpDereferenceEvent_last (value_of s) \<longleftrightarrow> st = 1 \<and> total N holds_ref (ev_at s) = 1"
    using counted_bits(3) [OF c] one st by auto
  have tr: "r = Some True \<Longrightarrow> st = 1" using inv_after [OF inv i] dereferences(2) by simp
  show ?thesis
  proof (rule event_inv_step [OF inv i, where q = ?q])
    show "counted N ((ev_at s)(i := ?q)) st (value_of t)"
      unfolding dereferences(1) using counted_dec [OF c i, of ?q] dereferences(2) by simp
    show "after_set ?q \<Longrightarrow> st = 1" using last tr by (auto split: if_splits)
    show "st = 0" if "?q = Blocked h'" for h' using that by (auto split: if_splits)
  next
    assume w: "waited N ((ev_at s)(i := ?q)) st" and s: "settled N (ev_at s) st (handle_of s) (kernel s)" "\<not> misused s"
    have "\<not> PhpDereferenceEvent_last (value_of s)"
    proof
      assume l: "PhpDereferenceEvent_last (value_of s)"
      then obtain j g where j: "j < N" "((ev_at s)(i := ?q)) j = Blocked g" using w last by (auto simp: waited_def)
      then have "j \<noteq> i" "ev_at s j = Blocked g" by (auto split: if_splits)
      then have "2 \<le> total N holds_ref (ev_at s)"
        using total_two [OF i j(1), of holds_ref "ev_at s"] dereferences(2) by simp
      then show False using l last by simp
    qed
    then show "settled N ((ev_at s)(i := ?q)) st (handle_of t) (kernel t) \<and> \<not> misused t"
      unfolding dereferences(1) using s dereferences(2) by (auto intro!: settled_weaken [OF s(1) i])
  qed (simp add: dereferences(1))
next
  case (closes h r)
  have st1: "st = 1" by (rule inv_after [OF inv i]) (simp add: closes)
  show ?thesis
  proof (rule event_inv_step [OF inv i, where q = "Clears r"])
    show "counted N ((ev_at s)(i := Clears r)) st (value_of t)"
      unfolding closes(1) using inv counted_same [OF _ i] closes(2) by (simp add: event_inv_def)
  next
    assume "settled N (ev_at s) st (handle_of s) (kernel s)"
    then have "\<not> closing (ev_at s i)" using settledD(1) i by (auto simp: none_closing_def)
    then show "settled N ((ev_at s)(i := Clears r)) st (handle_of t) (kernel t) \<and> \<not> misused t" by (simp add: closes)
  qed (simp_all add: closes st1)
next
  case (clears r)
  have st1: "st = 1" by (rule inv_after [OF inv i]) (simp add: clears)
  show ?thesis
  proof (rule event_inv_step [OF inv i, where q = "after_dereference r"])
    show "counted N ((ev_at s)(i := after_dereference r)) st (value_of t)"
      unfolding clears(1) using inv counted_same [OF _ i] clears(2) by (simp add: event_inv_def)
  next
    assume "settled N (ev_at s) st (handle_of s) (kernel s)"
    then have "\<not> closing (ev_at s i)" using settledD(1) i by (auto simp: none_closing_def)
    then show "settled N ((ev_at s)(i := after_dereference r)) st (handle_of t) (kernel t) \<and> \<not> misused t" by (simp add: clears)
  qed (simp_all add: clears st1)
next
  case wait_enters
  have c: "counted N (ev_at s) st (value_of s)" using inv by (simp add: event_inv_def)
  show ?thesis unfolding wait_enters(1)
    using counted_test [OF c] wait_enters(2) by (intro event_inv_weaken [OF inv i]) simp_all
next
  case wait_references
  show ?thesis
  proof (rule event_inv_step [OF inv i, where q = WaitReads])
    show "counted N ((ev_at s)(i := WaitReads)) st (value_of t)"
      unfolding wait_references(1) using inv counted_inc [OF _ i N] wait_references(2) by (simp add: event_inv_def)
  next
    assume s: "settled N (ev_at s) st (handle_of s) (kernel s)" "\<not> misused s"
    have "settled N ((ev_at s)(i := WaitReads)) st (handle_of s) (kernel s)"
      by (rule settled_weaken [OF s(1) i]) (simp_all add: wait_references)
    then show "settled N ((ev_at s)(i := WaitReads)) st (handle_of t) (kernel t) \<and> \<not> misused t"
      unfolding wait_references(1) using s(2) by simp
  qed (simp_all add: wait_references)
next
  case wait_reads
  then show ?thesis unfolding wait_reads(1)
    by (intro event_inv_weaken [OF inv i]) (auto split: if_splits)
next
  case (wait_creates h)
  show ?thesis
  proof (rule event_inv_step [OF inv i, where q = "WaitPublishes h"])
    show "counted N ((ev_at s)(i := WaitPublishes h)) st (value_of t)"
      unfolding wait_creates(1) using inv counted_same [OF _ i] wait_creates(2) by (simp add: event_inv_def)
  next
    assume "settled N (ev_at s) st (handle_of s) (kernel s)" "\<not> misused s"
    then show "settled N ((ev_at s)(i := WaitPublishes h)) st (handle_of t) (kernel t) \<and> \<not> misused t"
      unfolding wait_creates(1) using settled_creates [of N "ev_at s" st "handle_of s" "kernel s", OF _ i wait_creates(2-4)] by simp
  qed (simp_all add: wait_creates)
next
  case (wait_publishes h)
  show ?thesis
  proof (rule event_inv_step [OF inv i, where q = "WaitTests h"])
    show "counted N ((ev_at s)(i := WaitTests h)) st (value_of t)"
      unfolding wait_publishes(1) using inv counted_same [OF _ i] wait_publishes(2) by (simp add: event_inv_def)
  next
    assume "settled N (ev_at s) st (handle_of s) (kernel s)" "\<not> misused s"
    then show "settled N ((ev_at s)(i := WaitTests h)) st (handle_of t) (kernel t) \<and> \<not> misused t"
      unfolding wait_publishes(1) using settled_publishes [of N "ev_at s" st "kernel s", OF _ i wait_publishes(2)] wait_publishes(3) by simp
  qed (simp_all add: wait_publishes)
next
  case (wait_loses h)
  then show ?thesis unfolding wait_loses(1)
    using settled_loses [of N "ev_at s" st "handle_of s" "kernel s", OF _ i wait_loses(2,3)] by (intro event_inv_move [OF inv i]) simp_all
next
  case (wait_discards h)
  show ?thesis
  proof (rule event_inv_step [OF inv i, where q = WaitRereads])
    show "counted N ((ev_at s)(i := WaitRereads)) st (value_of t)"
      unfolding wait_discards(1) using inv counted_same [OF _ i] wait_discards(2) by (simp add: event_inv_def)
  next
    assume s: "settled N (ev_at s) st (handle_of s) (kernel s)" "\<not> misused s"
    from settled_discards [OF s(1) i wait_discards(2)] s(2)
    show "settled N ((ev_at s)(i := WaitRereads)) st (handle_of t) (kernel t) \<and> \<not> misused t"
      unfolding wait_discards(1) by (simp add: NtClose_def)
  qed (simp_all add: wait_discards)
next
  case wait_rereads
  have "handle_of s \<noteq> 0" if "settled N (ev_at s) st (handle_of s) (kernel s)" "st = 0"
    using testsD(2) [OF settledD(6) [OF that(1)[unfolded that(2)]] i] wait_rereads(2) by simp
  then show ?thesis unfolding wait_rereads(1) using wait_rereads(2)
    by (intro event_inv_weaken [OF inv i]) auto
next
  case (wait_tests h)
  have c: "counted N (ev_at s) st (value_of s)" and st: "st < 2" and tr: "truthful N (ev_at s) st"
    using inv by (simp_all add: event_inv_def)
  show ?thesis
  proof (cases "st = 0")
    case True
    then have "t = ev_goes i (Blocked h) s" using counted_bits(1) [OF c] by (simp add: wait_tests(1))
    moreover have "event_inv N st (ev_goes i (Blocked h) s)"
      using True settled_blocks [of N "ev_at s" "handle_of s" "kernel s", OF _ i wait_tests(2)] tr wait_tests(2) by (intro event_inv_move [OF inv i]) simp_all
    ultimately show ?thesis by simp
  next
    case False
    then have "t = ev_goes i (Dereferences h (Some True)) s" using counted_bits(1) [OF c] by (simp add: wait_tests(1))
    moreover have "event_inv N st (ev_goes i (Dereferences h (Some True)) s)"
      by (rule event_inv_weaken [OF inv i]) (use False st wait_tests(2) in simp_all)
    ultimately show ?thesis by simp
  qed
next
  case (wakes h)
  have w: "waited N (ev_at s) st" using i wakes(2) by (auto simp: waited_def)
  then have s: "settled N (ev_at s) st (handle_of s) (kernel s)" using inv by (simp add: event_inv_def)
  have "st = 1" using blockedD [OF settledD(5) [OF s] i wakes(2)] settledD(3) [OF s] wakes(3) by simp
  then show ?thesis unfolding wakes(1) using wakes(2) by (intro event_inv_weaken [OF inv i]) simp_all
next
  case (times_out h)
  then show ?thesis unfolding times_out(1) by (intro event_inv_weaken [OF inv i]) simp_all
next
  case (wait_fails h)
  have w: "waited N (ev_at s) st" using i wait_fails(2) by (auto simp: waited_def)
  then have s: "settled N (ev_at s) st (handle_of s) (kernel s)" using inv by (simp add: event_inv_def)
  have "kernel s h \<noteq> None" using blockedD [OF settledD(5) [OF s] i wait_fails(2)] settledD(2) [OF s] by auto
  then show ?thesis using wait_fails(3) by simp
next
  case (returns b)
  then show ?thesis unfolding returns(1) by (intro event_inv_weaken [OF inv i]) simp_all
next
  case claims
  have c: "counted N (ev_at s) st (value_of s)" using inv by (simp add: event_inv_def)
  show ?thesis
  proof (cases "bit (value_of s) PH_INITONCE_SHIFT")
    case True
    then show ?thesis unfolding claims(1) using claims(2) counted_test [OF c] inv
      by (simp, intro event_inv_weaken [OF inv i]) (simp_all add: event_inv_def)
  next
    case False
    show ?thesis
    proof (rule event_inv_step [OF inv i, where q = Initializes])
      show "counted N ((ev_at s)(i := Initializes)) st (value_of t)"
        using counted_claim [OF c i _ False, of Initializes] claims(2) False by (simp add: claims(1))
    next
      assume s: "settled N (ev_at s) st (handle_of s) (kernel s)" "\<not> misused s"
      have "settled N ((ev_at s)(i := Initializes)) st (handle_of s) (kernel s)"
        by (rule settled_weaken [OF s(1) i]) (simp_all add: claims)
      then show "settled N ((ev_at s)(i := Initializes)) st (handle_of t) (kernel t) \<and> \<not> misused t"
        using s(2) claims False by simp
    qed (simp_all add: claims False)
  qed
qed

section \<open>Calls preserve the invariant\<close>

lemma PhfSetEvent_inv:
  assumes inv: "event_inv N st s" and i: "i < N" and p: "ev_at s i = Outside \<or> ev_at s i = Initializes"
  shows "event_inv N 1 (PhfSetEvent i s)"
proof -
  have c: "counted N (ev_at s) st (value_of s)" and st: "st < 2" and tr: "truthful N (ev_at s) st"
    using inv by (simp_all add: event_inv_def)
  show ?thesis
  proof (cases "st = 0")
    case True
    then have r: "PhfSetEvent i s = ev_goes i SetReads (put_value (set_bit PH_EVENT_SET_SHIFT (value_of s)) s)"
      using counted_bits(2) [OF c] by (simp add: PhfSetEvent_def)
    have "counted N ((ev_at s)(i := SetReads)) 1 (set_bit PH_EVENT_SET_SHIFT (value_of s))"
      by (rule counted_set [OF c [unfolded True] i]) (use p in auto)
    moreover have "truthful N ((ev_at s)(i := SetReads)) 1" by (simp add: truthful_def)
    moreover have "settled N (ev_at s) 0 (handle_of s) (kernel s)" "\<not> misused s"
      using inv True by (simp_all add: event_inv_def waited_def)
    ultimately show ?thesis
      using settled_set [OF _ i tr [unfolded True]] unfolding r event_inv_def by simp
  next
    case False
    then have s1: "st = 1" using st by simp
    then have "PhfSetEvent i s = ev_goes i Outside s" using counted_bits(2) [OF c] by (simp add: PhfSetEvent_def)
    moreover have "event_inv N st (ev_goes i Outside s)" by (rule event_inv_weaken [OF inv i]) (use p in auto)
    ultimately show ?thesis using s1 by simp
  qed
qed

lemma timeout_inv: "event_inv N st (set_timeout i T s) = event_inv N st s"
  by (simp add: event_inv_def)

theorem event_calls_inv:
  assumes inv: "event_inv N st s" and i: "i < N" and call: "event_calls i c s t"
  shows "\<exists>st'. event_inv N st' t"
  using call
proof cases
  case call_set
  then show ?thesis using PhfSetEvent_inv [OF inv i] by blast
next
  case (call_wait T)
  have "counted N (ev_at s) st (value_of s)" using inv by (simp add: event_inv_def)
  note test = counted_test [OF this]
  have "event_inv N st (set_timeout i T s)" using inv by (simp add: timeout_inv)
  then have "event_inv N st (ev_goes i (PhWaitForEvent_entry (the_event s)) (set_timeout i T s))"
    by (rule event_inv_weaken [OF _ i]) (use call_wait test in simp_all)
  then show ?thesis using call_wait by blast
next
  case call_begin
  have "counted N (ev_at s) st (value_of s)" using inv by (simp add: event_inv_def)
  note test = counted_test [OF this]
  have "event_inv N st (set_timeout i Infinite s)" using inv by (simp add: timeout_inv)
  then have "event_inv N st (ev_goes i (PhBeginInitOnce_entry (the_event s)) (set_timeout i Infinite s))"
    by (rule event_inv_weaken [OF _ i]) (use call_begin test in simp_all)
  then show ?thesis using call_begin by blast
next
  case call_end
  then show ?thesis using PhfSetEvent_inv [OF inv i] by blast
qed

lemma new_inv: "event_inv N 0 new_event_system"
proof -
  have z: "total N holds_ref (\<lambda>_. Outside) = 0" by (simp add: total_zero)
  have "event_fields PH_EVENT_REFCOUNT_INC 0 1 0" by (rule event_fieldsI) (simp_all add: event_consts)
  then have "counted N (\<lambda>_. Outside) 0 PH_EVENT_REFCOUNT_INC" using z by (auto simp: counted_def)
  then show ?thesis
    by (simp add: event_inv_def new_event_system_def PhInitializeEvent_def truthful_def settled_def none_closing_def
        privates_def blocked_on_def tests_on_def signals_on_def woken_def)
qed

theorem event_reachable_inv:
  assumes "event_reachable N C s" "N < 32766"
  shows "\<exists>st. event_inv N st s"
  using assms(1)
proof induction
  case start
  then show ?case using new_inv by blast
next
  case (steps s i t)
  then show ?case using event_step_inv [OF _ steps(2) assms(2) steps(3)] by blast
next
  case (calls s i c t)
  then show ?case using event_calls_inv [OF _ calls(2) calls(4)] by blast
qed

end
