(* ===== verification/EventProps.thy ===== *)
theory EventProps
  imports EventInv
begin

text \<open>
  What the event and the one-time initialization promise to any number of threads below 32766, and
  two runs in which the event loses or closes a kernel handle twice.
\<close>

unbundle bit_operations_syntax

section \<open>Runs\<close>

text \<open>The next step of a thread, with the handle that a new kernel event gets.\<close>

definition event_next :: "nat \<Rightarrow> ulong64 \<Rightarrow> event_system \<Rightarrow> event_system option" where
  "event_next i g s = (case ev_at s i of
     SetReads \<Rightarrow> Some (ev_goes i (SetSignals (handle_of s)) s)
   | SetSignals h \<Rightarrow> Some (ev_goes i (Dereferences h None) (if h \<noteq> 0 then NtSetEvent h s else s))
   | Dereferences h r \<Rightarrow> Some (ev_goes i
       (if PhpDereferenceEvent_last (value_of s) \<and> h \<noteq> 0 then Closes h r else after_dereference r)
       (put_value (value_of s - PH_EVENT_REFCOUNT_INC) s))
   | Closes h r \<Rightarrow> Some (ev_goes i (Clears r) (NtClose h s))
   | Clears r \<Rightarrow> Some (ev_goes i (after_dereference r) (put_handle 0 s))
   | WaitEnters \<Rightarrow> Some (ev_goes i (PhfWaitForEvent_entry (the_event s) (ev_timeout_of s i)) s)
   | WaitReferences \<Rightarrow> Some (ev_goes i WaitReads (put_value (value_of s + PH_EVENT_REFCOUNT_INC) s))
   | WaitReads \<Rightarrow> Some (ev_goes i (if handle_of s = 0 then WaitCreates else WaitTests (handle_of s)) s)
   | WaitCreates \<Rightarrow> (if g \<noteq> 0 \<and> kernel s g = None
       then Some (ev_goes i (WaitPublishes g) (s\<lparr>kernel := (kernel s)(g \<mapsto> False)\<rparr>)) else None)
   | WaitPublishes h \<Rightarrow> Some (if handle_of s = 0 then ev_goes i (WaitTests h) (put_handle h s)
       else ev_goes i (WaitDiscards h) s)
   | WaitDiscards h \<Rightarrow> Some (ev_goes i WaitRereads (NtClose h s))
   | WaitRereads \<Rightarrow> Some (ev_goes i (WaitTests (handle_of s)) s)
   | WaitTests h \<Rightarrow> Some (ev_goes i
       (if value_of s AND PH_EVENT_SET = 0 then Blocked h else Dereferences h (Some True)) s)
   | Blocked h \<Rightarrow> (if kernel s h = Some True then Some (ev_goes i (Dereferences h (Some True)) s) else None)
   | Returns b \<Rightarrow> Some (ev_goes i Outside s)
   | Claims \<Rightarrow> Some (if bit (value_of s) PH_INITONCE_SHIFT then ev_goes i (PhWaitForEvent_entry (the_event s)) s
       else ev_goes i Initializes (put_value (set_bit PH_INITONCE_SHIFT (value_of s)) s))
   | _ \<Rightarrow> None)"

lemma event_next_step:
  assumes "event_next i g s = Some t"
  shows "event_step i s t"
proof (cases "ev_at s i")
  case (SetSignals h)
  from event_step.set_signals [OF this] show ?thesis using assms SetSignals by (simp add: event_next_def)
next
  case WaitReads
  from event_step.wait_reads [OF this] show ?thesis using assms WaitReads by (simp add: event_next_def)
next
  case (WaitTests h)
  from event_step.wait_tests [OF this] show ?thesis using assms WaitTests by (simp add: event_next_def)
next
  case (Dereferences h r)
  from event_step.dereferences [OF this] show ?thesis using assms Dereferences by (simp add: event_next_def)
next
  case Claims
  from event_step.claims [OF this] show ?thesis using assms Claims by (simp add: event_next_def)
qed (use assms in \<open>auto simp: event_next_def intro: event_step.intros split: if_splits\<close>)

datatype event_move = Goes nat | Calls nat event_call

fun event_run :: "ulong64 \<Rightarrow> event_move list \<Rightarrow> event_system \<Rightarrow> event_system option" where
  "event_run g [] s = Some s"
| "event_run g (Goes i # ms) s = (case event_next i g s of None \<Rightarrow> None | Some s \<Rightarrow> event_run g ms s)"
| "event_run g (Calls i CallSet # ms) s =
     (if ev_at s i = Outside then event_run g ms (PhfSetEvent i s) else None)"
| "event_run g (Calls i (CallWait T) # ms) s =
     (if ev_at s i = Outside
      then event_run g ms (ev_goes i (PhWaitForEvent_entry (the_event s)) (set_timeout i T s)) else None)"
| "event_run g (Calls i CallBegin # ms) s =
     (if ev_at s i = Outside
      then event_run g ms (ev_goes i (PhBeginInitOnce_entry (the_event s)) (set_timeout i Infinite s)) else None)"
| "event_run g (Calls i CallEnd # ms) s =
     (if ev_at s i = Initializes then event_run g ms (PhfSetEvent i s) else None)"

fun move_of :: "nat \<Rightarrow> event_call set \<Rightarrow> event_move \<Rightarrow> bool" where
  "move_of N C (Goes i) \<longleftrightarrow> i < N"
| "move_of N C (Calls i c) \<longleftrightarrow> i < N \<and> c \<in> C"

lemma event_run_reachable:
  "event_run g ms s = Some t \<Longrightarrow> event_reachable N C s \<Longrightarrow> (\<forall>m \<in> set ms. move_of N C m) \<Longrightarrow> event_reachable N C t"
proof (induction g ms s rule: event_run.induct)
  case (2 g i ms s)
  then obtain u where u: "event_next i g s = Some u" "event_run g ms u = Some t" by (auto split: option.splits)
  have "event_reachable N C u"
    by (rule event_reachable.steps [OF 2(3) _ event_next_step [OF u(1)]]) (use 2(4) in simp)
  then show ?case using 2 u by simp
qed (auto intro: event_reachable.calls event_calls.intros split: if_splits)

lemmas event_eval = event_next_def PhfSetEvent_def PhWaitForEvent_entry_def PhfWaitForEvent_entry_def PhTestEvent_def
  PhBeginInitOnce_entry_def
  PhpDereferenceEvent_last_def NtSetEvent_def NtClose_def ev_goes_def put_value_def put_handle_def set_timeout_def
  new_event_system_def PhInitializeEvent_def event_consts

definition leak_run :: "event_move list" where
  "leak_run = [Calls 0 (CallWait Infinite), Goes 0, Goes 0, Goes 0, Calls 1 CallSet, Goes 1, Goes 0, Goes 0, Goes 0, Goes 0,
     Goes 0, Goes 1, Goes 1]"

definition double_run :: "event_move list" where
  "double_run = [Calls 0 (CallWait Infinite), Goes 0, Calls 2 (CallWait Infinite), Goes 2, Goes 2, Goes 2, Goes 2, Goes 2, Goes 2,
     Calls 1 CallSet, Goes 1, Goes 1, Goes 1, Goes 2, Goes 2, Goes 2, Goes 0, Goes 0, Goes 0, Goes 0, Goes 0]"

lemma leak: "\<exists>s. event_run 4 leak_run new_event_system = Some s \<and> (\<forall>i. ev_at s i = Outside) \<and> value_of s = 1
    \<and> handle_of s = 4 \<and> kernel s 4 = Some False"
  by (simp add: leak_run_def event_eval)

lemma double: "\<exists>s. event_run 4 double_run new_event_system = Some s \<and> misused s"
  by (simp add: double_run_def event_eval)


section \<open>One-time initialization\<close>

fun says_false :: "ev_place \<Rightarrow> bool" where
  "says_false (Returns b) = (\<not> b)"
| "says_false (Dereferences h r) = (r = Some False)"
| "says_false (Closes h r) = (r = Some False)"
| "says_false (Clears r) = (r = Some False)"
| "says_false _ = False"

text \<open>The bit of the initialization is set once a thread initializes or has ended the initialization.\<close>

definition once_inv :: "nat \<Rightarrow> event_system \<Rightarrow> bool" where
  "once_inv N s \<longleftrightarrow> (\<forall>i < N. ev_timeout_of s i = Infinite \<and> \<not> says_false (ev_at s i))
     \<and> total N (is_at Initializes) (ev_at s) + of_bool (PhTestEvent (the_event s)) = of_bool (bit (value_of s) PH_INITONCE_SHIFT)"

lemma once_move:
  assumes o: "once_inv N s" and i: "i < N" and t: "ev_at t = (ev_at s)(i := q)" "ev_timeout_of t = ev_timeout_of s"
    and q: "is_at Initializes q = is_at Initializes (ev_at s i)" "\<not> says_false q"
    and v: "PhTestEvent (the_event t) = PhTestEvent (the_event s)" "bit (value_of t) PH_INITONCE_SHIFT = bit (value_of s) PH_INITONCE_SHIFT"
  shows "once_inv N t"
proof -
  have "total N (is_at Initializes) ((ev_at s)(i := q)) = total N (is_at Initializes) (ev_at s)"
    using total_upd [OF i, of "is_at Initializes" "ev_at s" q] q(1) by simp
  then show ?thesis using o t q(2) v by (simp add: once_inv_def)
qed

lemma fields_same:
  assumes "event_fields v st rc cl" "event_fields w st rc' cl"
  shows "bit w PH_INITONCE_SHIFT = bit v PH_INITONCE_SHIFT" "w AND PH_EVENT_SET = 0 \<longleftrightarrow> v AND PH_EVENT_SET = 0"
  by (simp_all only: event_tests(1,3) [OF assms(1)] event_tests(1,3) [OF assms(2)])

lemma ref_bits:
  assumes c: "counted N f st v" and i: "i < N"
  shows "N < 32766 \<Longrightarrow> bit (v + PH_EVENT_REFCOUNT_INC) PH_INITONCE_SHIFT = bit v PH_INITONCE_SHIFT"
    "N < 32766 \<Longrightarrow> (v + PH_EVENT_REFCOUNT_INC) AND PH_EVENT_SET = 0 \<longleftrightarrow> v AND PH_EVENT_SET = 0"
    "0 < total N holds_ref f \<Longrightarrow> bit (v - PH_EVENT_REFCOUNT_INC) PH_INITONCE_SHIFT = bit v PH_INITONCE_SHIFT"
    "0 < total N holds_ref f \<Longrightarrow> (v - PH_EVENT_REFCOUNT_INC) AND PH_EVENT_SET = 0 \<longleftrightarrow> v AND PH_EVENT_SET = 0"
proof -
  obtain cl where f: "event_fields v st (1 - st + total N holds_ref f) cl" using c by (auto simp: counted_def)
  { assume "N < 32766"
    then have "1 - st + total N holds_ref f + 1 < 32768" using refs_le [of N f] by linarith
    note fields_same [OF f event_updates(1) [OF f this]]
    then show "bit (v + PH_EVENT_REFCOUNT_INC) PH_INITONCE_SHIFT = bit v PH_INITONCE_SHIFT"
      "(v + PH_EVENT_REFCOUNT_INC) AND PH_EVENT_SET = 0 \<longleftrightarrow> v AND PH_EVENT_SET = 0"
      by blast+ }
  { assume "0 < total N holds_ref f"
    then have "0 < 1 - st + total N holds_ref f" by linarith
    note fields_same [OF f event_updates(2) [OF f this]]
    then show "bit (v - PH_EVENT_REFCOUNT_INC) PH_INITONCE_SHIFT = bit v PH_INITONCE_SHIFT"
      "(v - PH_EVENT_REFCOUNT_INC) AND PH_EVENT_SET = 0 \<longleftrightarrow> v AND PH_EVENT_SET = 0"
      by blast+ }
qed

lemma set_bits:
  assumes c: "counted N f st v"
  shows "st = 0 \<Longrightarrow> bit (set_bit PH_EVENT_SET_SHIFT v) PH_INITONCE_SHIFT = bit v PH_INITONCE_SHIFT"
    "(set_bit PH_EVENT_SET_SHIFT v) AND PH_EVENT_SET \<noteq> 0"
    "bit (set_bit PH_INITONCE_SHIFT v) PH_INITONCE_SHIFT"
    "(set_bit PH_INITONCE_SHIFT v) AND PH_EVENT_SET = 0 \<longleftrightarrow> v AND PH_EVENT_SET = 0"
  by (simp_all add: event_consts bit_set_bit_iff and_exp_eq_0_iff_not_bit [of _ 0, simplified] possible_bit_word)


lemma once_step:
  assumes o: "once_inv N s" and inv: "event_inv N st s" and i: "i < N" and N: "N < 32766" and step: "event_step i s t"
  shows "once_inv N t"
proof -
  have c: "counted N (ev_at s) st (value_of s)" using inv by (simp add: event_inv_def)
  have no: "ev_timeout_of s i = Infinite" "\<not> says_false (ev_at s i)" using o i by (simp_all add: once_inv_def)
  have open_handle: "kernel s h \<noteq> None" if "ev_at s i = Blocked h" for h
  proof -
    have "waited N (ev_at s) st" using i that by (auto simp: waited_def)
    then have k: "settled N (ev_at s) st (handle_of s) (kernel s)" using inv by (simp add: event_inv_def)
    show ?thesis using blockedD [OF settledD(5) [OF k] i that] settledD(2) [OF k] by auto
  qed
  have pos: "0 < total N holds_ref (ev_at s)" if "holds_ref (ev_at s i) = 1"
    using total_member [OF i, of holds_ref "ev_at s"] that by simp
  note move = once_move [OF o i]
  show ?thesis
    using step
  proof cases
    case (set_signals h)
    then show ?thesis by (intro move [where q = "Dereferences h None"]) (simp_all add: is_at_def NtSetEvent_def)
  next
    case (dereferences h r)
    let ?q = "if PhpDereferenceEvent_last (value_of s) \<and> h \<noteq> 0 then Closes h r else after_dereference r"
    show ?thesis
    proof (rule move [where q = ?q])
      have "after_dereference r \<noteq> Initializes" "r \<noteq> Some False \<Longrightarrow> \<not> says_false (after_dereference r)" by (cases r; simp)+
      then show "is_at Initializes ?q = is_at Initializes (ev_at s i)" "\<not> says_false ?q"
        using no dereferences(2) by (simp_all add: is_at_def)
      show "PhTestEvent (the_event t) = PhTestEvent (the_event s)"
        "bit (value_of t) PH_INITONCE_SHIFT = bit (value_of s) PH_INITONCE_SHIFT"
        using ref_bits(3,4) [OF c i pos] dereferences by (simp_all add: PhTestEvent_def)
    qed (simp_all add: dereferences)
  next
    case (closes h r)
    then show ?thesis using no by (intro move [where q = "Clears r"]) (simp_all add: is_at_def NtClose_def)
  next
    case (clears r)
    have "after_dereference r \<noteq> Initializes" "r \<noteq> Some False \<Longrightarrow> \<not> says_false (after_dereference r)" by (cases r; simp)+
    then show ?thesis using no clears
      by (intro move [where q = "after_dereference r"]) (simp_all add: is_at_def put_handle_def PhTestEvent_def)
  next
    case wait_enters
    then show ?thesis using no
      by (intro move [where q = "PhfWaitForEvent_entry (the_event s) (ev_timeout_of s i)"])
        (simp_all add: is_at_def PhfWaitForEvent_entry_def)
  next
    case wait_references
    then show ?thesis using ref_bits(1,2) [OF c i N]
      by (intro move [where q = WaitReads]) (simp_all add: is_at_def PhTestEvent_def)
  next
    case wait_reads
    then show ?thesis
      by (intro move [where q = "if handle_of s = 0 then WaitCreates else WaitTests (handle_of s)"]) (simp_all add: is_at_def)
  next
    case (wait_discards h)
    then show ?thesis by (intro move [where q = WaitRereads]) (simp_all add: is_at_def NtClose_def)
  next
    case (wait_tests h)
    then show ?thesis
      by (intro move [where q = "if value_of s AND PH_EVENT_SET = 0 then Blocked h else Dereferences h (Some True)"])
        (simp_all add: is_at_def)
  next
    case (wait_publishes h)
    then show ?thesis by (intro move [where q = "WaitTests h"]) (simp_all add: is_at_def PhTestEvent_def put_handle_def)
  next
    case (times_out h)
    then show ?thesis using no by simp
  next
    case (wait_fails h)
    then show ?thesis using open_handle by simp
  next
    case claims
    show ?thesis
    proof (cases "bit (value_of s) PH_INITONCE_SHIFT")
      case True
      then show ?thesis using claims
        by (intro move [where q = "PhWaitForEvent_entry (the_event s)"]) (simp_all add: is_at_def PhWaitForEvent_entry_def)
    next
      case False
      let ?f = "(ev_at s)(i := Initializes)"
      have "total N (is_at Initializes) ?f = total N (is_at Initializes) (ev_at s) + 1"
        using total_upd [OF i, of "is_at Initializes" "ev_at s" Initializes] claims(2) by (simp add: is_at_def)
      moreover have "total N (is_at Initializes) (ev_at s) = 0" "\<not> PhTestEvent (the_event s)" using o False by (simp_all add: once_inv_def)
      ultimately show ?thesis
        using o False claims set_bits(3,4) [OF c] by (simp add: once_inv_def PhTestEvent_def)
    qed
  next
    case set_reads
    then show ?thesis by (intro move [where q = "SetSignals (handle_of s)"]) (simp_all add: is_at_def)
  next
    case (wait_creates h)
    then show ?thesis by (intro move [where q = "WaitPublishes h"]) (simp_all add: is_at_def)
  next
    case (wait_loses h)
    then show ?thesis by (intro move [where q = "WaitDiscards h"]) (simp_all add: is_at_def)
  next
    case wait_rereads
    then show ?thesis by (intro move [where q = "WaitTests (handle_of s)"]) (simp_all add: is_at_def)
  next
    case (wakes h)
    then show ?thesis by (intro move [where q = "Dereferences h (Some True)"]) (simp_all add: is_at_def)
  next
    case (returns b)
    then show ?thesis by (intro move [where q = Outside]) (simp_all add: is_at_def)
  qed
qed

lemma once_call:
  assumes o: "once_inv N s" and inv: "event_inv N st s" and i: "i < N" and call: "event_calls i c s t" "c \<in> {CallBegin, CallEnd}"
  shows "once_inv N t"
proof -
  have c: "counted N (ev_at s) st (value_of s)" using inv by (simp add: event_inv_def)
  show ?thesis
    using call(1)
  proof cases
    case call_begin
    have q: "is_at Initializes (PhBeginInitOnce_entry (the_event s)) = 0" "\<not> says_false (PhBeginInitOnce_entry (the_event s))"
      by (simp_all add: is_at_def PhBeginInitOnce_entry_def)
    have o': "once_inv N (set_timeout i Infinite s)"
      using o unfolding once_inv_def set_timeout_def by (auto simp del: says_false.simps)
    show ?thesis unfolding call_begin(2)
      by (rule once_move [OF o' i, where q = "PhBeginInitOnce_entry (the_event s)"])
        (use q call_begin in \<open>simp_all add: is_at_def\<close>)
  next
    case call_end
    have one: "1 \<le> total N (is_at Initializes) (ev_at s)"
      using total_member [OF i, of "is_at Initializes" "ev_at s"] call_end by (simp add: is_at_def)
    then have v: "bit (value_of s) PH_INITONCE_SHIFT" "\<not> PhTestEvent (the_event s)" "total N (is_at Initializes) (ev_at s) = 1"
      using o by (auto simp: once_inv_def of_bool_def split: if_splits)
    have st: "st = 0" using counted_test [OF c] v(2) inv by (simp add: event_inv_def)
    have r: "t = ev_goes i SetReads (put_value (set_bit PH_EVENT_SET_SHIFT (value_of s)) s)"
      using counted_bits(2) [OF c] st call_end by (simp add: PhfSetEvent_def)
    have "total N (is_at Initializes) ((ev_at s)(i := SetReads)) = 0"
      using total_upd [OF i, of "is_at Initializes" "ev_at s" SetReads] call_end v(3) by (simp add: is_at_def)
    then show ?thesis
      using o v(1) set_bits(1,2) [OF c] st unfolding r by (simp add: once_inv_def PhTestEvent_def put_value_def ev_goes_def)
  qed (use call(2) in auto)
qed

lemma once_reachable:
  assumes "event_reachable N {CallBegin, CallEnd} s" "N < 32766"
  shows "once_inv N s"
  using assms(1)
proof induction
  case start
  have "total N (is_at Initializes) (\<lambda>_. Outside) = 0" by (simp add: total_zero is_at_def)
  then show ?case by (simp add: once_inv_def new_event_system_def PhInitializeEvent_def PhTestEvent_def event_consts)
next
  case (steps s i t)
  obtain st where "event_inv N st s" using event_reachable_inv [OF steps(1) assms(2)] by blast
  then show ?case by (rule once_step [OF steps(4) _ steps(2) assms(2) steps(3)])
next
  case (calls s i c t)
  obtain st where "event_inv N st s" using event_reachable_inv [OF calls(1) assms(2)] by blast
  then show ?case by (rule once_call [OF calls(5) _ calls(2) calls(4,3)])
qed

section \<open>Properties\<close>


definition wait_run :: "event_move list" where
  "wait_run = [Calls 0 (CallWait Infinite), Goes 0, Goes 0, Goes 0, Goes 0, Goes 0, Goes 0, Calls 1 CallSet, Goes 1, Goes 1]"


text \<open>
  C29.  One-time initialization: at most one of the threads that call \<open>PhBeginInitOnce\<close> is told to
  initialize, and a thread is told not to only after the initializing thread has called
  \<open>PhEndInitOnce\<close>.
\<close>

theorem PhInitOnce_once:
  assumes "event_reachable N {CallBegin, CallEnd} s" "N < 32766" "i < N" "j < N"
  shows "(ev_at s i = Initializes \<longrightarrow> ev_at s j = Initializes \<longrightarrow> i = j)
    \<and> (ev_at s i = Returns b \<longrightarrow> PhTestEvent (the_event s) \<and> ev_at s j \<noteq> Initializes)"
proof -
  have o: "once_inv N s" by (rule once_reachable [OF assms(1,2)])
  have le: "total N (is_at Initializes) (ev_at s) + of_bool (PhTestEvent (the_event s)) \<le> 1"
    using o by (simp add: once_inv_def)
  have pos: "1 \<le> total N (is_at Initializes) (ev_at s)" if "k < N" "ev_at s k = Initializes" for k
    using total_member [OF that(1), of "is_at Initializes" "ev_at s"] that(2) by (simp add: is_at_def)
  show ?thesis
  proof (intro conjI impI)
    assume "ev_at s i = Initializes" "ev_at s j = Initializes"
    then show "i = j" using total_two [OF assms(3,4), of "is_at Initializes" "ev_at s"] le by (auto simp: is_at_def)
  next
    assume r: "ev_at s i = Returns b"
    then have "b" using o assms(3) by (auto simp: once_inv_def)
    moreover obtain st where inv: "event_inv N st s" using event_reachable_inv [OF assms(1,2)] by blast
    ultimately have "st = 1" using inv_after [OF inv assms(3)] r by simp
    moreover have "counted N (ev_at s) st (value_of s)" using inv by (simp add: event_inv_def)
    ultimately show t: "PhTestEvent (the_event s)" using counted_test by blast
    show "ev_at s j \<noteq> Initializes" using le t pos [OF assms(4)] by auto
  qed
qed

definition once_run :: "event_move list" where
  "once_run = [Calls 0 CallBegin, Calls 1 CallBegin, Goes 1, Goes 0, Calls 1 CallEnd, Goes 0]"

theorem PhInitOnce_once_witness:
  "\<exists>s. event_reachable 2 {CallBegin, CallEnd} s \<and> ev_at s 0 = Returns True \<and> ev_at s 1 \<noteq> Initializes"
proof -
  obtain s where s: "event_run 4 once_run new_event_system = Some s" "ev_at s 0 = Returns True"
    by (simp add: once_run_def event_eval)
  have "event_reachable 2 {CallBegin, CallEnd} s"
    by (rule event_run_reachable [OF s(1) event_reachable.start]) (simp add: once_run_def)
  then show ?thesis using PhInitOnce_once [of 2 s 0 1 True] s(2) by auto
qed


end
