(* ===== verification/Rundown.thy ===== *)
theory Rundown
  imports Numbers Threads
begin

text \<open>
  The rundown protection of \<open>phlib/sync.c\<close>: a word that counts references until a thread waits for
  them to be released, and then holds the address of the wait block on that thread's stack, to
  which the count has moved.

  The event in the wait block is its set bit here: what a wait on it promises is proved in theory
  EventProps.  Setting it is two steps, the one that sets the bit and the rest of \<open>PhfSetEvent\<close>,
  which still accesses the event; an access to the block after the waiting thread has returned
  is recorded as a fault.
\<close>

unbundle bit_operations_syntax

section \<open>The word\<close>

definition PH_RUNDOWN_ACTIVE :: ulong64 where "PH_RUNDOWN_ACTIVE = 0x1"
definition PH_RUNDOWN_REF_SHIFT :: nat where "PH_RUNDOWN_REF_SHIFT = 1"
definition PH_RUNDOWN_REF_INC :: ulong64 where "PH_RUNDOWN_REF_INC = 0x2"

lemmas rundown_consts = PH_RUNDOWN_ACTIVE_def PH_RUNDOWN_REF_SHIFT_def PH_RUNDOWN_REF_INC_def

text \<open>
  One turn of each operation on the value it has read, which the compare-and-exchange finds
  unchanged: the new value, or none when the operation fails.
\<close>

definition PhInitializeRundownProtection :: ulong64 where
  "PhInitializeRundownProtection = 0"

definition PhfAcquireRundownProtection :: "ulong64 \<Rightarrow> ulong64 option" where
  "PhfAcquireRundownProtection value = (
     if value AND PH_RUNDOWN_ACTIVE \<noteq> 0 then None else Some (value + PH_RUNDOWN_REF_INC))"

definition PhAcquireRundownProtection :: "ulong64 \<Rightarrow> ulong64 option" where
  "PhAcquireRundownProtection Value = (
     let value = Value AND NOT PH_RUNDOWN_ACTIVE in
     if Value = value then Some (value + PH_RUNDOWN_REF_INC) else PhfAcquireRundownProtection Value)"

text \<open>Releasing: the address of the wait block, or the new value.\<close>

datatype release = ToBlock ulong64 | ToValue ulong64

definition PhfReleaseRundownProtection :: "ulong64 \<Rightarrow> release" where
  "PhfReleaseRundownProtection value = (
     if value AND PH_RUNDOWN_ACTIVE \<noteq> 0 then ToBlock (value AND NOT PH_RUNDOWN_ACTIVE)
     else ToValue (value - PH_RUNDOWN_REF_INC))"

definition PhReleaseRundownProtection :: "ulong64 \<Rightarrow> release" where
  "PhReleaseRundownProtection Value = (
     let value = Value AND NOT PH_RUNDOWN_ACTIVE in
     if Value = value then ToValue (value - PH_RUNDOWN_REF_INC) else PhfReleaseRundownProtection Value)"

text \<open>The fast path of waiting: the value it leaves, and whether the wait is over.\<close>

definition PhWaitForRundownProtection :: "ulong64 \<Rightarrow> ulong64 \<times> bool" where
  "PhWaitForRundownProtection value = (
     if value = 0 then (PH_RUNDOWN_ACTIVE, True)
     else (value, value = PH_RUNDOWN_ACTIVE))"

text \<open>A turn of the loop with the wait block at \<open>block\<close>: the count for the block, and the new value.\<close>

definition PhfWaitForRundownProtection_turn :: "ulong64 \<Rightarrow> ulong64 \<Rightarrow> ulong64 \<times> ulong64" where
  "PhfWaitForRundownProtection_turn block value =
     (drop_bit PH_RUNDOWN_REF_SHIFT value, block OR PH_RUNDOWN_ACTIVE)"

section \<open>Threads\<close>

text \<open>
  A thread that releases while rundown is active first has the address of the block, then may have
  to wake the waiter.
\<close>

datatype rd_place = RdOutside | Releases ulong64 | Wakes | WakeEnds | RdWaits | RdBlocked | RdDone

record rundown_system =
  RundownValue :: ulong64
  BlockCount :: ulong64
  BlockSet :: bool
  BlockLive :: bool
  faulted :: bool
  held :: "nat \<Rightarrow> nat"
  rd_at :: "nat \<Rightarrow> rd_place"

definition rd_goes :: "nat \<Rightarrow> rd_place \<Rightarrow> rundown_system \<Rightarrow> rundown_system" where
  "rd_goes i p s = s\<lparr>rd_at := (rd_at s)(i := p)\<rparr>"

definition holds :: "nat \<Rightarrow> nat \<Rightarrow> rundown_system \<Rightarrow> rundown_system" where
  "holds i n s = s\<lparr>held := (held s)(i := n)\<rparr>"

definition touch_block :: "rundown_system \<Rightarrow> rundown_system" where
  "touch_block s = (if BlockLive s then s else s\<lparr>faulted := True\<rparr>)"

text \<open>
  The steps with the waiting thread \<open>w\<close> and its wait block at \<open>block\<close>.  The number of references
  stays below 2^61.
\<close>

inductive rd_step :: "nat \<Rightarrow> ulong64 \<Rightarrow> nat \<Rightarrow> rundown_system \<Rightarrow> rundown_system \<Rightarrow> bool"
  for w :: nat and block :: ulong64 and i :: nat where
  acquires: "rd_at s i = RdOutside \<Longrightarrow> PhAcquireRundownProtection (RundownValue s) = Some v \<Longrightarrow>
    unat (RundownValue s) < 2 ^ 62 \<Longrightarrow>
    rd_step w block i s (holds i (held s i + 1) (s\<lparr>RundownValue := v\<rparr>))"
| releases: "rd_at s i = RdOutside \<Longrightarrow> held s i = Suc n \<Longrightarrow>
    PhReleaseRundownProtection (RundownValue s) = ToValue v \<Longrightarrow>
    rd_step w block i s (holds i n (s\<lparr>RundownValue := v\<rparr>))"
| finds_block: "rd_at s i = RdOutside \<Longrightarrow> held s i = Suc n \<Longrightarrow>
    PhReleaseRundownProtection (RundownValue s) = ToBlock a \<Longrightarrow>
    rd_step w block i s (rd_goes i (Releases a) s)"
| decrements: "rd_at s i = Releases a \<Longrightarrow> held s i = Suc n \<Longrightarrow>
    rd_step w block i s (rd_goes i (if BlockCount s - 1 = 0 then Wakes else RdOutside)
      (holds i n (touch_block (s\<lparr>BlockCount := BlockCount s - 1\<rparr>))))"
| sets_event: "rd_at s i = Wakes \<Longrightarrow>
    rd_step w block i s (rd_goes i WakeEnds (touch_block (s\<lparr>BlockSet := True\<rparr>)))"
| ends_wake: "rd_at s i = WakeEnds \<Longrightarrow> rd_step w block i s (rd_goes i RdOutside (touch_block s))"
| waits_fast: "i = w \<Longrightarrow> rd_at s i = RdOutside \<Longrightarrow>
    PhWaitForRundownProtection (RundownValue s) = (v, True) \<Longrightarrow>
    rd_step w block i s (rd_goes i RdDone (s\<lparr>RundownValue := v\<rparr>))"
| waits_slow: "i = w \<Longrightarrow> rd_at s i = RdOutside \<Longrightarrow>
    PhWaitForRundownProtection (RundownValue s) = (v, False) \<Longrightarrow>
    rd_step w block i s (rd_goes i RdWaits (s\<lparr>RundownValue := v, BlockLive := True\<rparr>))"
| publishes: "i = w \<Longrightarrow> rd_at s i = RdWaits \<Longrightarrow>
    PhfWaitForRundownProtection_turn block (RundownValue s) = (count, v) \<Longrightarrow> count \<noteq> 0 \<Longrightarrow>
    rd_step w block i s (rd_goes i RdBlocked (s\<lparr>RundownValue := v, BlockCount := count, BlockSet := False\<rparr>))"
| publishes_none: "i = w \<Longrightarrow> rd_at s i = RdWaits \<Longrightarrow>
    PhfWaitForRundownProtection_turn block (RundownValue s) = (count, v) \<Longrightarrow> count = 0 \<Longrightarrow>
    rd_step w block i s (rd_goes i RdDone (s\<lparr>RundownValue := v, BlockCount := count, BlockLive := False\<rparr>))"
| returns: "i = w \<Longrightarrow> rd_at s i = RdBlocked \<Longrightarrow> BlockSet s \<Longrightarrow>
    rd_step w block i s (rd_goes i RdDone (s\<lparr>BlockLive := False\<rparr>))"

definition new_rundown :: rundown_system where
  "new_rundown = \<lparr>RundownValue = PhInitializeRundownProtection, BlockCount = 0, BlockSet = False, BlockLive = False,
     faulted = False, held = (\<lambda>_. 0), rd_at = (\<lambda>_. RdOutside)\<rparr>"

inductive rd_path :: "nat \<Rightarrow> nat \<Rightarrow> ulong64 \<Rightarrow> rundown_system \<Rightarrow> rundown_system \<Rightarrow> bool"
  for N :: nat and w :: nat and block :: ulong64 and s :: rundown_system where
  here: "rd_path N w block s s"
| further: "rd_path N w block s t \<Longrightarrow> i < N \<Longrightarrow> rd_step w block i t u \<Longrightarrow> rd_path N w block s u"

section \<open>The operations on the word\<close>

text \<open>The inlined fast paths do what the functions do that they fall back to.\<close>

lemma active_bit: "v AND PH_RUNDOWN_ACTIVE = 0 \<longleftrightarrow> even (unat v)"
  using and_exp_eq_0_iff_not_bit [of v 0] by (simp add: rundown_consts bit_unat)

lemma clear_active: "v = v AND NOT PH_RUNDOWN_ACTIVE \<longleftrightarrow> v AND PH_RUNDOWN_ACTIVE = 0"
proof
  assume "v = v AND NOT PH_RUNDOWN_ACTIVE"
  then have "v AND PH_RUNDOWN_ACTIVE = (v AND NOT PH_RUNDOWN_ACTIVE) AND PH_RUNDOWN_ACTIVE" by simp
  then show "v AND PH_RUNDOWN_ACTIVE = 0" by (simp add: and.assoc)
next
  assume "v AND PH_RUNDOWN_ACTIVE = 0"
  moreover have "v = (v AND PH_RUNDOWN_ACTIVE) OR (v AND NOT PH_RUNDOWN_ACTIVE)" by (simp flip: bit.conj_disj_distrib)
  ultimately show "v = v AND NOT PH_RUNDOWN_ACTIVE" by simp
qed

lemma acquire_word: "PhAcquireRundownProtection v = PhfAcquireRundownProtection v"
  by (simp add: PhAcquireRundownProtection_def PhfAcquireRundownProtection_def Let_def clear_active)
    (auto simp flip: clear_active)

lemma release_word: "PhReleaseRundownProtection v = PhfReleaseRundownProtection v"
  by (simp add: PhReleaseRundownProtection_def PhfReleaseRundownProtection_def Let_def clear_active)
    (auto simp flip: clear_active)

text \<open>The values the word takes: twice the count, or the block with the active bit.\<close>

lemma count_word:
  assumes "unat v = 2 * n"
  shows "v AND PH_RUNDOWN_ACTIVE = 0" "unat (drop_bit PH_RUNDOWN_REF_SHIFT v) = n"
    "n < 2 ^ 62 \<Longrightarrow> unat (v + PH_RUNDOWN_REF_INC) = 2 * Suc n" "0 < n \<Longrightarrow> unat (v - PH_RUNDOWN_REF_INC) = 2 * (n - 1)"
    "v = 0 \<longleftrightarrow> n = 0" "v \<noteq> PH_RUNDOWN_ACTIVE"
proof -
  show "v AND PH_RUNDOWN_ACTIVE = 0" using assms by (simp add: active_bit)
  show "unat (drop_bit PH_RUNDOWN_REF_SHIFT v) = n"
    using assms unsigned_less [of v, where ?'a = nat]
    by (simp only: unsigned_drop_bit_eq rundown_consts) (simp add: take_bit_nat_eq_self drop_bit_eq_div)
  show "unat (v + PH_RUNDOWN_REF_INC) = 2 * Suc n" if "n < 2 ^ 62"
    using assms that by (simp add: rundown_consts unat_word_ariths)
  show "unat (v - PH_RUNDOWN_REF_INC) = 2 * (n - 1)" if "0 < n"
  proof -
    have "PH_RUNDOWN_REF_INC \<le> v" using assms that by (simp add: rundown_consts word_le_nat_alt)
    then show ?thesis using assms by (simp add: unat_sub rundown_consts)
  qed
  show "v = 0 \<longleftrightarrow> n = 0" using assms by (simp add: unat_eq_0 [symmetric])
  have "unat v \<noteq> 1" unfolding assms by presburger
  then show "v \<noteq> PH_RUNDOWN_ACTIVE" by (auto simp: rundown_consts)
qed

lemma block_word:
  assumes "a AND PH_RUNDOWN_ACTIVE = 0"
  shows "(a OR PH_RUNDOWN_ACTIVE) AND PH_RUNDOWN_ACTIVE \<noteq> 0" "(a OR PH_RUNDOWN_ACTIVE) AND NOT PH_RUNDOWN_ACTIVE = a"
proof -
  have "(a OR PH_RUNDOWN_ACTIVE) AND PH_RUNDOWN_ACTIVE = (a AND PH_RUNDOWN_ACTIVE) OR PH_RUNDOWN_ACTIVE"
    by (simp add: bit.conj_disj_distrib2)
  then show "(a OR PH_RUNDOWN_ACTIVE) AND PH_RUNDOWN_ACTIVE \<noteq> 0" using assms by (simp add: rundown_consts)
  have "(a OR PH_RUNDOWN_ACTIVE) AND NOT PH_RUNDOWN_ACTIVE = a AND NOT PH_RUNDOWN_ACTIVE"
    by (simp add: bit.conj_disj_distrib2)
  then show "(a OR PH_RUNDOWN_ACTIVE) AND NOT PH_RUNDOWN_ACTIVE = a" using assms clear_active [of a] by simp
qed

section \<open>The invariant\<close>

definition references :: "nat \<Rightarrow> rundown_system \<Rightarrow> nat" where
  "references N s = total N (\<lambda>n. n) (held s)"

text \<open>Only the waiting thread waits, and only while it does are there threads at its block.\<close>

definition places_ok :: "nat \<Rightarrow> nat \<Rightarrow> (nat \<Rightarrow> rd_place) \<Rightarrow> bool" where
  "places_ok N w f \<longleftrightarrow> (\<forall>i < N. i \<noteq> w \<longrightarrow> f i \<notin> {RdWaits, RdBlocked, RdDone})
     \<and> f w \<in> {RdOutside, RdWaits, RdBlocked, RdDone}"

definition releases_ok :: "nat \<Rightarrow> nat \<Rightarrow> ulong64 \<Rightarrow> (nat \<Rightarrow> rd_place) \<Rightarrow> (nat \<Rightarrow> nat) \<Rightarrow> bool" where
  "releases_ok N w block f n \<longleftrightarrow> (\<forall>i < N. \<forall>a. f i = Releases a \<longrightarrow> 0 < n i \<and> a = block \<and> f w = RdBlocked)"

text \<open>A thread that is to wake the waiter has released the last reference.\<close>

definition wakes_ok :: "nat \<Rightarrow> nat \<Rightarrow> (nat \<Rightarrow> rd_place) \<Rightarrow> nat \<Rightarrow> bool" where
  "wakes_ok N w f r \<longleftrightarrow> (\<forall>i < N. f i = Wakes \<longrightarrow> r = 0 \<and> f w \<in> {RdBlocked, RdDone})"

definition blocked_ok :: "nat \<Rightarrow> ulong64 \<Rightarrow> rundown_system \<Rightarrow> bool" where
  "blocked_ok N block s \<longleftrightarrow> RundownValue s = block OR PH_RUNDOWN_ACTIVE \<and> unat (BlockCount s) = references N s
     \<and> (BlockSet s \<longrightarrow> references N s = 0) \<and> (references N s = 0 \<longrightarrow> BlockSet s \<or> (\<exists>i < N. rd_at s i = Wakes))"

fun phase_ok :: "rd_place \<Rightarrow> nat \<Rightarrow> ulong64 \<Rightarrow> rundown_system \<Rightarrow> bool" where
  "phase_ok RdBlocked N block s \<longleftrightarrow> blocked_ok N block s"
| "phase_ok RdDone N block s \<longleftrightarrow> RundownValue s AND PH_RUNDOWN_ACTIVE \<noteq> 0 \<and> references N s = 0"
| "phase_ok _ N block s \<longleftrightarrow> unat (RundownValue s) = 2 * references N s"

definition rd_inv :: "nat \<Rightarrow> nat \<Rightarrow> ulong64 \<Rightarrow> rundown_system \<Rightarrow> bool" where
  "rd_inv N w block s \<longleftrightarrow> places_ok N w (rd_at s) \<and> releases_ok N w block (rd_at s) (held s)
     \<and> wakes_ok N w (rd_at s) (references N s) \<and> phase_ok (rd_at s w) N block s"

lemma places_upd:
  "places_ok N w f \<Longrightarrow> (if i = w then q \<in> {RdOutside, RdWaits, RdBlocked, RdDone} else q \<notin> {RdWaits, RdBlocked, RdDone})
   \<Longrightarrow> places_ok N w (f(i := q))"
  by (auto simp: places_ok_def)

lemma wakes_same: "wakes_ok N w f r \<Longrightarrow> i \<noteq> w \<Longrightarrow> q \<noteq> Wakes \<Longrightarrow> wakes_ok N w (f(i := q)) r"
  by (simp add: wakes_ok_def)

lemma wakes_none: "wakes_ok N w f r \<Longrightarrow> f w \<notin> {RdBlocked, RdDone} \<Longrightarrow> i < N \<Longrightarrow> f i \<noteq> Wakes"
  by (auto simp: wakes_ok_def)

lemma blocked_same:
  "blocked_ok N block s \<Longrightarrow> RundownValue t = RundownValue s \<Longrightarrow> BlockCount t = BlockCount s \<Longrightarrow> BlockSet t = BlockSet s
   \<Longrightarrow> references N t = references N s \<Longrightarrow> (\<And>j. j < N \<Longrightarrow> rd_at s j = Wakes \<Longrightarrow> rd_at t j = Wakes) \<Longrightarrow> blocked_ok N block t"
  unfolding blocked_ok_def by metis

lemma releases_none:
  "releases_ok N w block f n \<Longrightarrow> f w \<noteq> RdBlocked \<Longrightarrow> (\<And>a. q \<noteq> Releases a) \<Longrightarrow> releases_ok N w block (f(i := q)) m"
  by (auto simp: releases_ok_def)

lemma releases_upd:
  assumes "releases_ok N w block f n" "f w = RdBlocked" "i \<noteq> w" "\<And>a. q = Releases a \<Longrightarrow> 0 < m \<and> a = block"
  shows "releases_ok N w block (f(i := q)) (n(i := m))"
  unfolding releases_ok_def
proof (intro allI impI)
  fix j a
  assume j: "j < N" "(f(i := q)) j = Releases a"
  show "0 < (n(i := m)) j \<and> a = block \<and> (f(i := q)) w = RdBlocked"
    by (cases "j = i") (use j assms in \<open>auto simp: releases_ok_def\<close>)
qed

lemma references_upd: "i < N \<Longrightarrow> total N (\<lambda>n. n) ((held s)(i := n)) + held s i = references N s + n"
  using total_upd [of i N "\<lambda>n. n" "held s" n] by (simp add: references_def)

lemma rd_simps [simp]:
  "rd_at (rd_goes i p s) = (rd_at s)(i := p)" "held (rd_goes i p s) = held s" "RundownValue (rd_goes i p s) = RundownValue s"
  "BlockCount (rd_goes i p s) = BlockCount s" "BlockSet (rd_goes i p s) = BlockSet s"
  "rd_at (holds i n s) = rd_at s" "held (holds i n s) = (held s)(i := n)" "RundownValue (holds i n s) = RundownValue s"
  "BlockCount (holds i n s) = BlockCount s" "BlockSet (holds i n s) = BlockSet s"
  "rd_at (touch_block s) = rd_at s" "held (touch_block s) = held s" "RundownValue (touch_block s) = RundownValue s"
  "BlockCount (touch_block s) = BlockCount s" "BlockSet (touch_block s) = BlockSet s"
  by (simp_all add: rd_goes_def holds_def touch_block_def)


lemma active_phase:
  assumes "rd_inv N w block s" "w < N" "RundownValue s AND PH_RUNDOWN_ACTIVE = 0" "block AND PH_RUNDOWN_ACTIVE = 0"
  shows "unat (RundownValue s) = 2 * references N s" "rd_at s w \<noteq> RdBlocked" "rd_at s w \<noteq> RdDone"
proof -
  have ph: "phase_ok (rd_at s w) N block s" using assms(1) by (simp add: rd_inv_def)
  show b: "rd_at s w \<noteq> RdBlocked"
  proof
    assume "rd_at s w = RdBlocked"
    then have "RundownValue s = block OR PH_RUNDOWN_ACTIVE" using ph by (simp add: blocked_ok_def)
    then show False using assms(3) block_word(1) [OF assms(4)] by simp
  qed
  show d: "rd_at s w \<noteq> RdDone" using ph assms(3) by auto
  show "unat (RundownValue s) = 2 * references N s" using ph b d by (cases "rd_at s w") simp_all
qed

lemma phase_counting: "q \<noteq> RdBlocked \<Longrightarrow> q \<noteq> RdDone \<Longrightarrow> phase_ok q N block s \<longleftrightarrow> unat (RundownValue s) = 2 * references N s"
  by (cases q) simp_all

lemma references_le: "i < N \<Longrightarrow> held s i \<le> references N s"
  unfolding references_def by (rule total_member)

lemma active_references:
  assumes inv: "rd_inv N w block s" and w: "w < N" and v: "RundownValue s AND PH_RUNDOWN_ACTIVE \<noteq> 0" and h: "i < N" "0 < held s i"
  shows "rd_at s w = RdBlocked" "blocked_ok N block s"
proof -
  have ph: "phase_ok (rd_at s w) N block s" using inv by (simp add: rd_inv_def)
  have "rd_at s w \<noteq> RdDone" using ph references_le [OF h(1), of s] h(2) by auto
  then show "rd_at s w = RdBlocked"
    using ph v count_word(1) [of "RundownValue s" "references N s"] by (cases "rd_at s w") auto
  then show "blocked_ok N block s" using ph by simp
qed

text \<open>Every step by a thread that is not the waiting one, and every step of the waiting one.\<close>

theorem rd_step_inv:
  assumes inv: "rd_inv N w block s" and w: "w < N" and i: "i < N" and a: "block AND PH_RUNDOWN_ACTIVE = 0"
    and step: "rd_step w block i s t"
  shows "rd_inv N w block t"
proof -
  have pl: "places_ok N w (rd_at s)" and rl: "releases_ok N w block (rd_at s) (held s)"
    and wk: "wakes_ok N w (rd_at s) (references N s)" and ph: "phase_ok (rd_at s w) N block s"
    using inv by (simp_all add: rd_inv_def)
  have R0: "references N (t :: rundown_system) = references N s" if "held t = held s" for t using that by (simp add: references_def)
  have wplace: "rd_at s w \<notin> {Wakes, WakeEnds}" "rd_at s w \<noteq> Releases b" for b using pl by (auto simp: places_ok_def)
  show ?thesis
    using step
  proof cases
    case (acquires v)
    have z: "RundownValue s AND PH_RUNDOWN_ACTIVE = 0" and v: "v = RundownValue s + PH_RUNDOWN_REF_INC"
      using acquires(3) by (auto simp: acquire_word PhfAcquireRundownProtection_def split: if_splits)
    note p = active_phase [OF inv w z a]
    have "references N s < 2 ^ 62" using p(1) acquires(4) by simp
    then have u: "unat v = 2 * Suc (references N s)" unfolding v by (rule count_word(3) [OF p(1)])
    have "references N t = Suc (references N s)"
      using references_upd [OF i, of s "held s i + 1"] unfolding acquires(1) references_def by simp
    then have "unat (RundownValue t) = 2 * references N t" using u by (simp add: acquires(1))
    moreover have "releases_ok N w block (rd_at s) (held t)" using rl p(2) by (simp add: releases_ok_def)
    moreover have "wakes_ok N w (rd_at s) (references N t)" using wakes_none [OF wk] p(2,3) by (simp add: wakes_ok_def)
    ultimately show ?thesis
      using pl phase_counting [OF p(2,3)] unfolding rd_inv_def acquires(1) by simp
  next
    case (releases n v)
    have z: "RundownValue s AND PH_RUNDOWN_ACTIVE = 0" and v: "v = RundownValue s - PH_RUNDOWN_REF_INC"
      using releases(4) by (auto simp: release_word PhfReleaseRundownProtection_def split: if_splits)
    note p = active_phase [OF inv w z a]
    have pos: "0 < references N s" using references_le [OF i, of s] releases(3) by simp
    have u: "unat v = 2 * (references N s - 1)" unfolding v by (rule count_word(4) [OF p(1) pos])
    have "references N t = references N s - 1"
      using references_upd [OF i, of s n] releases(3) unfolding releases(1) references_def by simp
    then have "unat (RundownValue t) = 2 * references N t" using u by (simp add: releases(1))
    moreover have "releases_ok N w block (rd_at s) (held t)" using rl p(2) by (simp add: releases_ok_def)
    moreover have "wakes_ok N w (rd_at s) (references N t)" using wakes_none [OF wk] p(2,3) by (simp add: wakes_ok_def)
    ultimately show ?thesis
      using pl phase_counting [OF p(2,3)] unfolding rd_inv_def releases(1) by simp
  next
    case (finds_block n b)
    have v: "RundownValue s AND PH_RUNDOWN_ACTIVE \<noteq> 0" and b: "b = RundownValue s AND NOT PH_RUNDOWN_ACTIVE"
      using finds_block(4) by (auto simp: release_word PhfReleaseRundownProtection_def split: if_splits)
    have h: "0 < held s i" using finds_block(3) by simp
    note p = active_references [OF inv w v i h]
    have b': "b = block" using p(2) block_word(2) [OF a] b by (simp add: blocked_ok_def)
    have iw: "i \<noteq> w" using p(1) finds_block(2) by auto
    have "releases_ok N w block ((rd_at s)(i := Releases b)) ((held s)(i := held s i))"
      by (rule releases_upd [OF rl p(1) iw]) (use h b' in auto)
    moreover have "blocked_ok N block t"
      by (rule blocked_same [OF p(2)]) (use finds_block(2) in \<open>auto simp: finds_block(1) references_def\<close>)
    ultimately show ?thesis
      using places_upd [OF pl, of i "Releases b"] wakes_same [OF wk iw, of "Releases b"] iw p(1) R0 [of t]
      unfolding rd_inv_def finds_block(1) by simp
  next
    case (decrements b n)
    have h: "b = block" "rd_at s w = RdBlocked" using rl i decrements(2) by (auto simp: releases_ok_def)
    have iw: "i \<noteq> w" using h(2) decrements(2) by auto
    have bl: "blocked_ok N block s" using ph h(2) by simp
    let ?q = "if BlockCount s - 1 = 0 then Wakes else RdOutside"
    have R: "references N t = references N s - 1" "0 < references N s"
      using references_upd [OF i, of s n] references_le [OF i, of s] decrements(3) unfolding decrements(1) references_def by simp_all
    have c: "unat (BlockCount s - 1) = references N s - 1"
    proof -
      have "1 \<le> BlockCount s" using bl R(2) by (simp add: blocked_ok_def word_le_nat_alt)
      then show ?thesis using bl by (simp add: blocked_ok_def unat_sub)
    qed
    have zero: "BlockCount s - 1 = 0 \<longleftrightarrow> references N s - 1 = 0" using c by (simp only: unat_eq_0 [symmetric])
    have nset: "\<not> BlockSet s" using bl R(2) by (auto simp: blocked_ok_def)
    have last: "\<exists>j < N. ((rd_at s)(i := ?q)) j = Wakes" if "references N s - 1 = 0"
      using i that zero by (intro exI [of _ i]) simp
    have tf: "RundownValue t = RundownValue s" "BlockCount t = BlockCount s - 1" "BlockSet t = BlockSet s"
      "rd_at t = (rd_at s)(i := ?q)"
      by (simp_all add: decrements(1) touch_block_def)
    have "blocked_ok N block t"
      using bl c nset last unfolding blocked_ok_def tf R(1) by blast
    moreover have "releases_ok N w block ((rd_at s)(i := ?q)) ((held s)(i := n))"
      by (rule releases_upd [OF rl h(2) iw]) (auto split: if_splits)
    moreover have "wakes_ok N w ((rd_at s)(i := ?q)) (references N t)"
      using wk R zero h(2) iw by (simp add: wakes_ok_def)
    ultimately show ?thesis
      using places_upd [OF pl, of i ?q] iw h(2) unfolding rd_inv_def decrements(1) by simp
  next
    case sets_event
    have iw: "i \<noteq> w" using wplace sets_event(2) by auto
    have z: "references N s = 0" "rd_at s w \<in> {RdBlocked, RdDone}" using wk i sets_event(2) by (auto simp: wakes_ok_def)
    have tf: "rd_at t = (rd_at s)(i := WakeEnds)" "held t = held s" by (simp_all add: sets_event(1) touch_block_def)
    have "phase_ok (rd_at s w) N block t"
      using ph z R0 [OF tf(2)] unfolding sets_event(1) by (auto simp: blocked_ok_def touch_block_def)
    moreover have "releases_ok N w block ((rd_at s)(i := WakeEnds)) (held s)"
      using rl iw by (simp add: releases_ok_def)
    ultimately show ?thesis
      using places_upd [OF pl, of i WakeEnds] wakes_same [OF wk iw, of WakeEnds] iw R0 [OF tf(2)]
      unfolding rd_inv_def tf by simp
  next
    case ends_wake
    have iw: "i \<noteq> w" using wplace ends_wake(2) by auto
    have tf: "rd_at t = (rd_at s)(i := RdOutside)" "held t = held s" by (simp_all add: ends_wake(1))
    have "phase_ok (rd_at s w) N block t"
    proof (cases "rd_at s w = RdBlocked")
      case True
      have "blocked_ok N block t"
        by (rule blocked_same [of _ _ s]) (use ph True ends_wake(2) in \<open>auto simp: ends_wake(1) references_def\<close>)
      then show ?thesis using True by simp
    next
      case False
      then show ?thesis using ph R0 [of t] unfolding ends_wake(1) by (cases "rd_at s w") simp_all
    qed
    moreover have "releases_ok N w block ((rd_at s)(i := RdOutside)) (held s)"
      using rl iw by (simp add: releases_ok_def)
    ultimately show ?thesis
      using places_upd [OF pl, of i RdOutside] wakes_same [OF wk iw, of RdOutside] iw R0 [OF tf(2)]
      unfolding rd_inv_def tf by simp
  next
    case (waits_fast v)
    have u: "unat (RundownValue s) = 2 * references N s" using ph waits_fast(2,3) by simp
    have "RundownValue s = 0" "v = PH_RUNDOWN_ACTIVE"
      using waits_fast(4) count_word(6) [OF u] by (auto simp: PhWaitForRundownProtection_def split: if_splits)
    then have R: "references N s = 0" using count_word(5) [OF u] by simp
    have "releases_ok N w block ((rd_at s)(i := RdDone)) (held s)"
      by (rule releases_none [OF rl]) (use waits_fast in auto)
    moreover have "wakes_ok N w ((rd_at s)(i := RdDone)) 0" using waits_fast(2) by (simp add: wakes_ok_def)
    ultimately show ?thesis
      using places_upd [OF pl, of i RdDone] waits_fast(2) R R0 [of t] \<open>v = PH_RUNDOWN_ACTIVE\<close>
      unfolding rd_inv_def waits_fast(1) by (simp add: rundown_consts)
  next
    case (waits_slow v)
    have "v = RundownValue s" using waits_slow(4) by (auto simp: PhWaitForRundownProtection_def split: if_splits)
    moreover have "releases_ok N w block ((rd_at s)(i := RdWaits)) (held s)"
      by (rule releases_none [OF rl]) (use waits_slow in auto)
    moreover have "wakes_ok N w ((rd_at s)(i := RdWaits)) (references N s)"
      using wakes_none [OF wk] waits_slow(2,3) by (simp add: wakes_ok_def)
    ultimately show ?thesis
      using places_upd [OF pl, of i RdWaits] waits_slow(2,3) ph R0 [of t]
      unfolding rd_inv_def waits_slow(1) by simp
  next
    case (publishes count v)
    have u: "unat (RundownValue s) = 2 * references N s" using ph publishes(2,3) by simp
    have c: "unat count = references N s" "v = block OR PH_RUNDOWN_ACTIVE"
      using publishes(4) count_word(2) [OF u] by (auto simp: PhfWaitForRundownProtection_turn_def)
    have pos: "references N s \<noteq> 0" using publishes(5) unat_eq_0 [of count] c(1) by simp
    have "releases_ok N w block ((rd_at s)(i := RdBlocked)) (held s)"
      by (rule releases_none [OF rl]) (use publishes in auto)
    moreover have "wakes_ok N w ((rd_at s)(i := RdBlocked)) (references N s)"
      using wakes_none [OF wk] publishes(2,3) by (simp add: wakes_ok_def)
    moreover have "blocked_ok N block t" using c pos R0 [of t] unfolding publishes(1) by (simp add: blocked_ok_def)
    ultimately show ?thesis
      using places_upd [OF pl, of i RdBlocked] publishes(2) R0 [of t] unfolding rd_inv_def publishes(1) by simp
  next
    case (publishes_none count v)
    have u: "unat (RundownValue s) = 2 * references N s" using ph publishes_none(2,3) by simp
    have c: "unat count = references N s" "v = block OR PH_RUNDOWN_ACTIVE"
      using publishes_none(4) count_word(2) [OF u] by (auto simp: PhfWaitForRundownProtection_turn_def)
    have R: "references N s = 0" using publishes_none(5) c(1) by simp
    have "releases_ok N w block ((rd_at s)(i := RdDone)) (held s)"
      by (rule releases_none [OF rl]) (use publishes_none in auto)
    moreover have "wakes_ok N w ((rd_at s)(i := RdDone)) 0" using publishes_none(2) by (simp add: wakes_ok_def)
    ultimately show ?thesis
      using places_upd [OF pl, of i RdDone] publishes_none(2) R R0 [of t] block_word(1) [OF a] c(2)
      unfolding rd_inv_def publishes_none(1) by simp
  next
    case returns
    have bl: "blocked_ok N block s" using ph returns(2,3) by simp
    then have R: "references N s = 0" "RundownValue s AND PH_RUNDOWN_ACTIVE \<noteq> 0"
      using returns(4) block_word(1) [OF a] by (simp_all add: blocked_ok_def)
    have "\<And>j b. j < N \<Longrightarrow> rd_at s j \<noteq> Releases b"
    proof
      fix j b
      assume j: "j < N" "rd_at s j = Releases b"
      then have "0 < held s j" using rl by (auto simp: releases_ok_def)
      then show False using references_le [OF j(1), of s] R(1) by simp
    qed
    then have "releases_ok N w block ((rd_at s)(i := RdDone)) (held s)" by (auto simp: releases_ok_def)
    moreover have "wakes_ok N w ((rd_at s)(i := RdDone)) 0" using returns(2) by (simp add: wakes_ok_def)
    ultimately show ?thesis
      using places_upd [OF pl, of i RdDone] returns(2) R R0 [of t] unfolding rd_inv_def returns(1) by simp
  qed
qed


lemma rd_path_inv:
  assumes "rd_path N w block s t" "rd_inv N w block s" "w < N" "block AND PH_RUNDOWN_ACTIVE = 0"
  shows "rd_inv N w block t"
  using assms(1)
proof induction
  case here
  show ?case by (rule assms(2))
next
  case (further t i u)
  show ?case by (rule rd_step_inv [OF further(4) assms(3) further(2) assms(4) further(3)])
qed

lemma new_rd_inv: "rd_inv N w block new_rundown"
  by (simp add: rd_inv_def new_rundown_def places_ok_def releases_ok_def wakes_ok_def references_def
      PhInitializeRundownProtection_def total_zero)

section \<open>Runs\<close>

definition rd_next :: "nat \<Rightarrow> ulong64 \<Rightarrow> nat \<Rightarrow> rundown_system \<Rightarrow> rundown_system option" where
  "rd_next w block i s = (case rd_at s i of
     Releases a \<Rightarrow> (case held s i of 0 \<Rightarrow> None | Suc n \<Rightarrow>
       Some (rd_goes i (if BlockCount s - 1 = 0 then Wakes else RdOutside)
         (holds i n (touch_block (s\<lparr>BlockCount := BlockCount s - 1\<rparr>)))))
   | Wakes \<Rightarrow> Some (rd_goes i WakeEnds (touch_block (s\<lparr>BlockSet := True\<rparr>)))
   | WakeEnds \<Rightarrow> Some (rd_goes i RdOutside (touch_block s))
   | RdWaits \<Rightarrow> (if i = w then
       let (count, v) = PhfWaitForRundownProtection_turn block (RundownValue s) in
       Some (if count \<noteq> 0 then rd_goes i RdBlocked (s\<lparr>RundownValue := v, BlockCount := count, BlockSet := False\<rparr>)
         else rd_goes i RdDone (s\<lparr>RundownValue := v, BlockCount := count, BlockLive := False\<rparr>)) else None)
   | RdBlocked \<Rightarrow> (if i = w \<and> BlockSet s then Some (rd_goes i RdDone (s\<lparr>BlockLive := False\<rparr>)) else None)
   | _ \<Rightarrow> None)"

definition wait_call :: "nat \<Rightarrow> rundown_system \<Rightarrow> rundown_system" where
  "wait_call w s = (let (v, over) = PhWaitForRundownProtection (RundownValue s) in
     if over then rd_goes w RdDone (s\<lparr>RundownValue := v\<rparr>)
     else rd_goes w RdWaits (s\<lparr>RundownValue := v, BlockLive := True\<rparr>))"

lemma wait_call_step: "rd_at s w = RdOutside \<Longrightarrow> rd_step w block w s (wait_call w s)"
  by (auto simp: wait_call_def intro: rd_step.waits_fast rd_step.waits_slow split: prod.split)

datatype rd_move = RdAcquire nat | RdRelease nat | RdWait | RdGoes nat

fun rd_run :: "nat \<Rightarrow> ulong64 \<Rightarrow> rd_move list \<Rightarrow> rundown_system \<Rightarrow> rundown_system option" where
  "rd_run w block [] s = Some s"
| "rd_run w block (RdAcquire i # ms) s =
     (case PhAcquireRundownProtection (RundownValue s) of None \<Rightarrow> None | Some v \<Rightarrow>
       if rd_at s i = RdOutside \<and> unat (RundownValue s) < 2 ^ 62
       then rd_run w block ms (holds i (held s i + 1) (s\<lparr>RundownValue := v\<rparr>)) else None)"
| "rd_run w block (RdRelease i # ms) s =
     (if rd_at s i = RdOutside \<and> 0 < held s i then
        case PhReleaseRundownProtection (RundownValue s) of
          ToBlock a \<Rightarrow> rd_run w block ms (rd_goes i (Releases a) s)
        | ToValue v \<Rightarrow> rd_run w block ms (holds i (held s i - 1) (s\<lparr>RundownValue := v\<rparr>))
      else None)"
| "rd_run w block (RdWait # ms) s = (if rd_at s w = RdOutside then rd_run w block ms (wait_call w s) else None)"
| "rd_run w block (RdGoes i # ms) s = (case rd_next w block i s of None \<Rightarrow> None | Some s \<Rightarrow> rd_run w block ms s)"

fun rd_mover :: "nat \<Rightarrow> rd_move \<Rightarrow> nat" where
  "rd_mover w (RdAcquire i) = i"
| "rd_mover w (RdRelease i) = i"
| "rd_mover w RdWait = w"
| "rd_mover w (RdGoes i) = i"

lemma rd_next_step: "rd_next w block i s = Some t \<Longrightarrow> rd_step w block i s t"
proof (cases "rd_at s i")
  case (Releases a)
  assume n: "rd_next w block i s = Some t"
  then obtain k where k: "held s i = Suc k" using Releases by (auto simp: rd_next_def split: nat.splits)
  show ?thesis using rd_step.decrements [OF Releases k] n k Releases by (simp add: rd_next_def)
qed (auto simp: rd_next_def Let_def intro: rd_step.intros split: if_splits prod.splits)

lemma rd_run_path:
  "rd_run w block ms s = Some t \<Longrightarrow> rd_path N w block r s \<Longrightarrow> (\<forall>m \<in> set ms. rd_mover w m < N) \<Longrightarrow> rd_path N w block r t"
proof (induction w block ms s rule: rd_run.induct)
  case (2 w block i ms s)
  then obtain v where v: "PhAcquireRundownProtection (RundownValue s) = Some v" "rd_at s i = RdOutside" "unat (RundownValue s) < 2 ^ 62"
    "rd_run w block ms (holds i (held s i + 1) (s\<lparr>RundownValue := v\<rparr>)) = Some t"
    by (auto split: option.splits if_splits)
  have "rd_path N w block r (holds i (held s i + 1) (s\<lparr>RundownValue := v\<rparr>))"
    by (rule rd_path.further [OF 2(3) _ rd_step.acquires [OF v(2,1,3)]]) (use 2(4) in simp)
  moreover have "rd_at s i = RdOutside \<and> unat (RundownValue s) < 2 ^ 62" using v by simp
  ultimately show ?case using 2(1) [OF v(1)] v(4) 2(4) by simp
next
  case (3 w block i ms s)
  then obtain n where n: "rd_at s i = RdOutside" "held s i = Suc n" by (auto split: if_splits simp: gr0_conv_Suc)
  show ?case
  proof (cases "PhReleaseRundownProtection (RundownValue s)")
    case (ToBlock a)
    then show ?thesis using 3 n by (auto intro: rd_path.further rd_step.finds_block)
  next
    case (ToValue v)
    then show ?thesis using 3 n by (auto intro: rd_path.further rd_step.releases)
  qed
next
  case (4 w block ms s)
  have o: "rd_at s w = RdOutside" "rd_run w block ms (wait_call w s) = Some t" using 4(2) by (auto split: if_splits)
  have "rd_path N w block r (wait_call w s)"
    by (rule rd_path.further [OF 4(3) _ wait_call_step [OF o(1)]]) (use 4(4) in simp)
  then show ?case using 4(1) [OF o(1)] o(2) 4(4) by simp
next
  case (5 w block i ms s)
  then show ?case by (auto split: option.splits intro: rd_path.further rd_next_step)
qed simp


lemmas rd_eval = rd_next_def wait_call_def PhAcquireRundownProtection_def PhfAcquireRundownProtection_def
  PhReleaseRundownProtection_def PhfReleaseRundownProtection_def PhWaitForRundownProtection_def
  PhfWaitForRundownProtection_turn_def rd_goes_def holds_def touch_block_def rundown_consts new_rundown_def
  PhInitializeRundownProtection_def Let_def

section \<open>Waiting a second time\<close>

text \<open>The states of a second wait that has blocked on a count that is the address of the first block.\<close>

definition stuck :: "nat \<Rightarrow> nat \<Rightarrow> rundown_system \<Rightarrow> bool" where
  "stuck N w s \<longleftrightarrow> (\<forall>i < N. held s i = 0 \<and> (i \<noteq> w \<longrightarrow> rd_at s i = RdOutside))
     \<and> RundownValue s AND PH_RUNDOWN_ACTIVE \<noteq> 0 \<and> drop_bit 1 (RundownValue s) \<noteq> 0
     \<and> rd_at s w \<in> {RdOutside, RdWaits, RdBlocked} \<and> (rd_at s w = RdBlocked \<longrightarrow> \<not> BlockSet s)"

lemma stuck_step:
  assumes st: "stuck N w s" and w: "w < N" and i: "i < N" and b: "drop_bit 1 (block OR PH_RUNDOWN_ACTIVE) \<noteq> 0"
    and step: "rd_step w block i s t"
  shows "stuck N w t"
  using step
proof cases
  case (acquires v)
  then show ?thesis using st by (simp add: acquire_word PhfAcquireRundownProtection_def stuck_def)
next
  case (waits_fast v)
  have "RundownValue s \<noteq> 0" "RundownValue s \<noteq> PH_RUNDOWN_ACTIVE"
  proof -
    have "drop_bit 1 (0 :: ulong64) = 0" "drop_bit 1 PH_RUNDOWN_ACTIVE = 0" by (simp_all add: rundown_consts)
    then show "RundownValue s \<noteq> 0" "RundownValue s \<noteq> PH_RUNDOWN_ACTIVE" using st unfolding stuck_def by metis+
  qed
  then show ?thesis using waits_fast by (simp add: PhWaitForRundownProtection_def)
next
  case (waits_slow v)
  then have "v = RundownValue s" by (auto simp: PhWaitForRundownProtection_def split: if_splits)
  then show ?thesis using st waits_slow by (simp add: stuck_def)
next
  case (publishes count v)
  have "v = block OR PH_RUNDOWN_ACTIVE" using publishes(4) by (simp add: PhfWaitForRundownProtection_turn_def)
  moreover have "(block OR PH_RUNDOWN_ACTIVE) AND PH_RUNDOWN_ACTIVE \<noteq> 0" by (simp add: bit.conj_disj_distrib2 rundown_consts)
  ultimately show ?thesis using st publishes(1,2) b by (simp add: stuck_def)
next
  case (publishes_none count v)
  then have "drop_bit 1 (RundownValue s) = 0" by (simp add: PhfWaitForRundownProtection_turn_def PH_RUNDOWN_REF_SHIFT_def)
  then show ?thesis using st by (simp add: stuck_def)
next
  case returns
  then show ?thesis using st by (simp add: stuck_def)
qed (use st i in \<open>auto simp: stuck_def\<close>)

lemma stuck_path:
  "rd_path N w block s t \<Longrightarrow> stuck N w s \<Longrightarrow> w < N \<Longrightarrow> drop_bit 1 (block OR PH_RUNDOWN_ACTIVE) \<noteq> 0 \<Longrightarrow> stuck N w t"
  by (induction rule: rd_path.induct) (auto intro: stuck_step)

section \<open>Properties\<close>

text \<open>
  C31.  When the wait for the rundown is over, nobody holds a reference any more and no reference can be
  taken again; and as long as it is not over although every reference has been released, the
  thread that released the last one is about to set the event, or has set it.
\<close>

theorem PhWaitForRundownProtection_safe:
  assumes "rd_path N w block new_rundown s" "w < N" "block AND PH_RUNDOWN_ACTIVE = 0"
  shows "(rd_at s w = RdDone \<longrightarrow> (\<forall>i < N. held s i = 0) \<and> PhAcquireRundownProtection (RundownValue s) = None)
    \<and> (rd_at s w = RdBlocked \<longrightarrow> (\<forall>i < N. held s i = 0) \<longrightarrow> BlockSet s \<or> (\<exists>i < N. rd_at s i = Wakes))"
proof -
  have inv: "rd_inv N w block s" by (rule rd_path_inv [OF assms(1) new_rd_inv assms(2,3)])
  have ph: "phase_ok (rd_at s w) N block s" using inv by (simp add: rd_inv_def)
  show ?thesis
  proof (intro conjI impI)
    assume d: "rd_at s w = RdDone"
    then have "references N s = 0" "RundownValue s AND PH_RUNDOWN_ACTIVE \<noteq> 0" using ph by simp_all
    then show "\<forall>i < N. held s i = 0" "PhAcquireRundownProtection (RundownValue s) = None"
      using references_le [of _ N s] by (auto simp: acquire_word PhfAcquireRundownProtection_def)
  next
    assume b: "rd_at s w = RdBlocked" "\<forall>i < N. held s i = 0"
    then have "references N s = 0" by (simp add: references_def total_zero)
    then show "BlockSet s \<or> (\<exists>i < N. rd_at s i = Wakes)" using ph b(1) by (simp add: blocked_ok_def)
  qed
qed

definition handover_run :: "rd_move list" where
  "handover_run = [RdAcquire 1, RdAcquire 2, RdWait, RdRelease 1, RdGoes 0, RdRelease 2, RdGoes 2, RdGoes 2, RdGoes 2, RdGoes 0]"

theorem PhWaitForRundownProtection_safe_witness:
  "\<exists>s. rd_path 3 0 64 new_rundown s \<and> rd_at s 0 = RdDone \<and> (\<forall>i < 3. held s i = 0)
    \<and> PhAcquireRundownProtection (RundownValue s) = None"
proof -
  obtain s where s: "rd_run 0 64 handover_run new_rundown = Some s" "rd_at s 0 = RdDone"
    by (simp add: handover_run_def rd_eval)
  have "rd_path 3 0 64 new_rundown s"
    by (rule rd_run_path [OF s(1) rd_path.here]) (simp add: handover_run_def)
  then show ?thesis using PhWaitForRundownProtection_safe [of 3 0 64 s] s(2) by (auto simp: rundown_consts)
qed

text \<open>
  C32.  The wait is not idempotent.  Its fast path takes a value that is just the active bit for a rundown
  that is over, but a wait that had to block leaves the address of its block in the word: the next
  wait takes that address for a count, blocks on it, and no step of any thread ends it.
\<close>

theorem PhWaitForRundownProtection_twice:
  assumes "rd_at s w = RdOutside" "\<forall>i < N. held s i = 0 \<and> rd_at s i = RdOutside" "w < N"
    "RundownValue s = first OR PH_RUNDOWN_ACTIVE" "drop_bit 1 first \<noteq> 0" "drop_bit 1 block \<noteq> 0"
    "rd_path N w block s t"
  shows "rd_at t w \<noteq> RdDone"
proof -
  have d: "drop_bit 1 (a OR PH_RUNDOWN_ACTIVE) = drop_bit 1 a" for a
    by (simp add: drop_bit_or rundown_consts)
  have "(first OR PH_RUNDOWN_ACTIVE) AND PH_RUNDOWN_ACTIVE \<noteq> 0" by (simp add: bit.conj_disj_distrib2 rundown_consts)
  then have "stuck N w s" using assms d by (simp add: stuck_def)
  then have "stuck N w t" by (rule stuck_path [OF assms(7) _ assms(3)]) (use assms(6) d in simp)
  then show ?thesis by (auto simp: stuck_def)
qed

theorem PhWaitForRundownProtection_twice_witness:
  "\<exists>s. rd_path 3 0 64 new_rundown s \<and> rd_at s 0 = RdDone
    \<and> (\<forall>t. rd_path 3 0 128 (rd_goes 0 RdOutside s) t \<longrightarrow> rd_at t 0 \<noteq> RdDone)"
proof -
  obtain s where s: "rd_run 0 64 handover_run new_rundown = Some s" "rd_at s 0 = RdDone" "RundownValue s = 64 OR PH_RUNDOWN_ACTIVE"
    "\<forall>i < 3. held s i = 0" "\<forall>i < 3. rd_at (rd_goes 0 RdOutside s) i = RdOutside"
    by (simp add: handover_run_def rd_eval)
  have "rd_path 3 0 64 new_rundown s"
    by (rule rd_run_path [OF s(1) rd_path.here]) (simp add: handover_run_def)
  moreover have "rd_at t 0 \<noteq> RdDone" if "rd_path 3 0 128 (rd_goes 0 RdOutside s) t" for t
    by (rule PhWaitForRundownProtection_twice [OF _ _ _ _ _ _ that, where first = 64]) (use s in simp_all)
  ultimately show ?thesis using s(2) by blast
qed

text \<open>
  C33.  The wait block lives on the stack of the waiting thread, which can return as soon as the bit of the
  event is set, while the thread that set it has still to read the event: there is a run in which
  the block is accessed after it is gone.
\<close>

theorem PhfReleaseRundownProtection_after_scope:
  "\<exists>s. rd_path 2 0 64 new_rundown s \<and> rd_at s 0 = RdDone \<and> faulted s"
proof -
  let ?ms = "[RdAcquire 1, RdWait, RdGoes 0, RdRelease 1, RdGoes 1, RdGoes 1, RdGoes 0, RdGoes 1]"
  obtain s where s: "rd_run 0 64 ?ms new_rundown = Some s" "rd_at s 0 = RdDone" "faulted s"
    by (simp add: rd_eval)
  have "rd_path 2 0 64 new_rundown s" by (rule rd_run_path [OF s(1) rd_path.here]) simp
  then show ?thesis using s by blast
qed

end
