(* ===== verification/Barrier.thy ===== *)
theory Barrier
  imports Numbers Threads
begin

text \<open>
  The barrier of \<open>phlib/sync.c\<close>: a word with the number of threads that wait, the number that is
  waited for, and a bit that is set while the threads of a phase are leaving.

  The wake event it is built on belongs to the queued lock.  It is a set of queued threads here:
  queueing adds the thread, setting the event empties the set, and a thread that waits is blocked
  while it is in the set.  How often a thread has arrived at the barrier, returned from it, and
  returned \<open>TRUE\<close>, is recorded in the state for the properties.
\<close>

unbundle bit_operations_syntax

section \<open>The word\<close>

definition PH_BARRIER_COUNT_SHIFT :: nat where "PH_BARRIER_COUNT_SHIFT = 0"
definition PH_BARRIER_COUNT_MASK :: ulong64 where "PH_BARRIER_COUNT_MASK = push_bit 31 1 - 1"
definition PH_BARRIER_COUNT_INC :: ulong64 where "PH_BARRIER_COUNT_INC = push_bit PH_BARRIER_COUNT_SHIFT 1"
definition PH_BARRIER_TARGET_SHIFT :: nat where "PH_BARRIER_TARGET_SHIFT = 32"
definition PH_BARRIER_TARGET_MASK :: ulong64 where "PH_BARRIER_TARGET_MASK = push_bit 31 1 - 1"
definition PH_BARRIER_WAKING :: ulong64 where "PH_BARRIER_WAKING = push_bit 63 1"

lemmas barrier_consts = PH_BARRIER_COUNT_SHIFT_def PH_BARRIER_COUNT_MASK_def PH_BARRIER_COUNT_INC_def
  PH_BARRIER_TARGET_SHIFT_def PH_BARRIER_TARGET_MASK_def PH_BARRIER_WAKING_def

datatype role = PH_BARRIER_MASTER | PH_BARRIER_SLAVE | PH_BARRIER_OBSERVER

definition PhfInitializeBarrier :: "ulong64 \<Rightarrow> ulong64" where
  "PhfInitializeBarrier Target = push_bit PH_BARRIER_TARGET_SHIFT Target"

definition barrier_count :: "ulong64 \<Rightarrow> ulong64" where
  "barrier_count value = drop_bit PH_BARRIER_COUNT_SHIFT value AND PH_BARRIER_COUNT_MASK"

definition barrier_target :: "ulong64 \<Rightarrow> ulong64" where
  "barrier_target value = drop_bit PH_BARRIER_TARGET_SHIFT value AND PH_BARRIER_TARGET_MASK"

text \<open>Whether \<open>PhpBlockOnBarrier\<close> cancels its wait.\<close>

fun PhpBlockOnBarrier_cancel :: "role \<Rightarrow> ulong64 \<Rightarrow> bool" where
  "PhpBlockOnBarrier_cancel PH_BARRIER_MASTER Value \<longleftrightarrow> barrier_count Value = 1"
| "PhpBlockOnBarrier_cancel PH_BARRIER_SLAVE Value \<longleftrightarrow> Value AND PH_BARRIER_WAKING \<noteq> 0"
| "PhpBlockOnBarrier_cancel PH_BARRIER_OBSERVER Value \<longleftrightarrow> Value AND PH_BARRIER_WAKING = 0"

text \<open>A turn of the loop of \<open>PhfWaitForBarrier\<close>: no value when the assertion fails.\<close>

definition PhfWaitForBarrier_turn :: "ulong64 \<Rightarrow> (role \<times> ulong64) option" where
  "PhfWaitForBarrier_turn value = (
     if value AND PH_BARRIER_WAKING = 0 then
       let count = barrier_count value; target = barrier_target value in
       if count = target then None
       else
         let count = count + 1 in
         if count \<noteq> target then Some (PH_BARRIER_SLAVE, value + PH_BARRIER_COUNT_INC)
         else Some (PH_BARRIER_MASTER, value + PH_BARRIER_COUNT_INC + PH_BARRIER_WAKING)
     else Some (PH_BARRIER_OBSERVER, value))"

text \<open>Leaving: the new value, and for a slave whether the master is to be woken.\<close>

definition PhfWaitForBarrier_slave :: "ulong64 \<Rightarrow> ulong64 \<times> bool" where
  "PhfWaitForBarrier_slave value = (value - PH_BARRIER_COUNT_INC, barrier_count value - 1 = 1)"

definition PhfWaitForBarrier_master :: "ulong64 \<Rightarrow> ulong64" where
  "PhfWaitForBarrier_master value = value - (PH_BARRIER_WAKING + PH_BARRIER_COUNT_INC)"

section \<open>Threads\<close>

datatype b_place = BOut | BQueues role | BChecks role | BBlocked role | BTests role
  | SlaveLeaves | WakesMaster | WakesSlaves | MasterLeaves | WakesObservers

record barrier_system =
  BarrierValue :: ulong64
  queued :: "nat set"
  b_at :: "nat \<Rightarrow> b_place"
  arrived :: "nat \<Rightarrow> nat"
  returned :: "nat \<Rightarrow> nat"
  trues :: "nat \<Rightarrow> nat"

definition b_goes :: "nat \<Rightarrow> b_place \<Rightarrow> barrier_system \<Rightarrow> barrier_system" where
  "b_goes i p s = s\<lparr>b_at := (b_at s)(i := p)\<rparr>"

definition arrives :: "nat \<Rightarrow> barrier_system \<Rightarrow> barrier_system" where
  "arrives i s = s\<lparr>arrived := (arrived s)(i := arrived s i + 1)\<rparr>"

definition PhSetWakeEvent :: "barrier_system \<Rightarrow> barrier_system" where
  "PhSetWakeEvent s = s\<lparr>queued := {}\<rparr>"

definition PhQueueWakeEvent :: "nat \<Rightarrow> barrier_system \<Rightarrow> barrier_system" where
  "PhQueueWakeEvent i s = s\<lparr>queued := insert i (queued s)\<rparr>"

definition b_returns :: "nat \<Rightarrow> bool \<Rightarrow> barrier_system \<Rightarrow> barrier_system" where
  "b_returns i b s = s\<lparr>b_at := (b_at s)(i := BOut), returned := (returned s)(i := returned s i + 1),
     trues := (if b then (trues s)(i := trues s i + 1) else trues s)\<rparr>"

text \<open>The first place of a thread after its turn of the loop.\<close>

fun after_turn :: "role \<Rightarrow> b_place" where
  "after_turn PH_BARRIER_MASTER = WakesSlaves"
| "after_turn r = BQueues r"

fun after_block :: "role \<Rightarrow> ulong64 \<Rightarrow> b_place" where
  "after_block PH_BARRIER_SLAVE Value =
     (if Value AND PH_BARRIER_WAKING \<noteq> 0 then SlaveLeaves else BQueues PH_BARRIER_SLAVE)"
| "after_block PH_BARRIER_MASTER Value =
     (if barrier_count Value = 1 then MasterLeaves else BQueues PH_BARRIER_MASTER)"
| "after_block PH_BARRIER_OBSERVER Value = BOut"

inductive b_step :: "nat \<Rightarrow> barrier_system \<Rightarrow> barrier_system \<Rightarrow> bool" for i :: nat where
  turns: "b_at s i = BOut \<Longrightarrow> PhfWaitForBarrier_turn (BarrierValue s) = Some (r, v) \<Longrightarrow>
    b_step i s (b_goes i (after_turn r) ((if r = PH_BARRIER_OBSERVER then s else arrives i s)\<lparr>BarrierValue := v\<rparr>))"
| queues: "b_at s i = BQueues r \<Longrightarrow> b_step i s (b_goes i (BChecks r) (PhQueueWakeEvent i s))"
| checks: "b_at s i = BChecks r \<Longrightarrow>
    b_step i s (if PhpBlockOnBarrier_cancel r (BarrierValue s) then b_goes i (BTests r) (PhSetWakeEvent s)
      else b_goes i (BBlocked r) s)"
| resumes: "b_at s i = BBlocked r \<Longrightarrow> i \<notin> queued s \<Longrightarrow> b_step i s (b_goes i (BTests r) s)"
| tests: "b_at s i = BTests r \<Longrightarrow> b_step i s (b_goes i (after_block r (BarrierValue s)) s)"
| slave_leaves: "b_at s i = SlaveLeaves \<Longrightarrow> PhfWaitForBarrier_slave (BarrierValue s) = (v, wake) \<Longrightarrow>
    b_step i s (if wake then b_goes i WakesMaster (s\<lparr>BarrierValue := v\<rparr>) else b_returns i False (s\<lparr>BarrierValue := v\<rparr>))"
| wakes_master: "b_at s i = WakesMaster \<Longrightarrow> b_step i s (b_returns i False (PhSetWakeEvent s))"
| wakes_slaves: "b_at s i = WakesSlaves \<Longrightarrow>
    b_step i s (b_goes i (BQueues PH_BARRIER_MASTER) (PhSetWakeEvent s))"
| master_leaves: "b_at s i = MasterLeaves \<Longrightarrow>
    b_step i s (b_goes i WakesObservers (s\<lparr>BarrierValue := PhfWaitForBarrier_master (BarrierValue s)\<rparr>))"
| wakes_observers: "b_at s i = WakesObservers \<Longrightarrow> b_step i s (b_returns i True (PhSetWakeEvent s))"

text \<open>What \<open>N\<close> threads reach on a barrier for \<open>N\<close> threads.\<close>

definition new_barrier :: "nat \<Rightarrow> barrier_system" where
  "new_barrier N = \<lparr>BarrierValue = PhfInitializeBarrier (of_nat N), queued = {}, b_at = (\<lambda>_. BOut),
     arrived = (\<lambda>_. 0), returned = (\<lambda>_. 0), trues = (\<lambda>_. 0)\<rparr>"

inductive b_reachable :: "nat \<Rightarrow> barrier_system \<Rightarrow> bool" for N :: nat where
  start: "b_reachable N (new_barrier N)"
| move: "b_reachable N s \<Longrightarrow> i < N \<Longrightarrow> b_step i s t \<Longrightarrow> b_reachable N t"

section \<open>The fields of the word\<close>

definition barrier_fields :: "ulong64 \<Rightarrow> nat \<Rightarrow> nat \<Rightarrow> nat \<Rightarrow> bool" where
  "barrier_fields v c T wk \<longleftrightarrow> c < 2147483648 \<and> T < 2147483648 \<and> wk < 2
     \<and> unat v = c + 4294967296 * T + 9223372036854775808 * wk"

lemma barrier_fieldsI:
  assumes "c < 2147483648" "T < 2147483648" "wk < 2" "v = of_nat (c + 4294967296 * T + 9223372036854775808 * wk)"
  shows "barrier_fields v c T wk"
proof -
  have "c + 4294967296 * T + 9223372036854775808 * wk < 2 ^ 64" using assms(1-3) by simp
  then have "unat v = c + 4294967296 * T + 9223372036854775808 * wk"
    unfolding assms(4) by (simp only: unsigned_of_nat) (simp add: take_bit_nat_eq_self)
  then show ?thesis using assms by (simp add: barrier_fields_def)
qed

lemma barrier_word:
  assumes "barrier_fields v c T wk"
  shows "v = of_nat (c + 4294967296 * T + 9223372036854775808 * wk)"
proof -
  have "of_nat (unat v) = (of_nat (c + 4294967296 * T + 9223372036854775808 * wk) :: ulong64)"
    using assms by (simp only: barrier_fields_def)
  then show ?thesis by simp
qed

lemma mask_31: "unat (drop_bit k v AND (push_bit 31 1 - 1)) = unat v div 2 ^ k mod 2147483648" for v :: ulong64
proof -
  have "drop_bit k v AND (push_bit 31 1 - 1) = drop_bit k v AND mask 31" by (simp add: mask_eq_exp_minus_1)
  then show ?thesis
    unfolding take_bit_eq_mask [symmetric]
    by (simp only: unsigned_take_bit_eq unsigned_drop_bit_eq)
      (subst take_bit_nat_eq_self, use unsigned_less [of v, where ?'a = nat] in
        \<open>simp_all add: take_bit_eq_mod drop_bit_eq_div\<close>)
qed

lemma barrier_tests:
  assumes f: "barrier_fields v c T wk"
  shows "v AND PH_BARRIER_WAKING = 0 \<longleftrightarrow> wk = 0" "unat (barrier_count v) = c" "unat (barrier_target v) = T"
proof -
  have lt: "c < 2147483648" "T < 2147483648" "wk < 2" and u: "unat v = c + 4294967296 * (T + 2147483648 * wk)"
    "unat v = c + 2147483648 * (2 * (T + 2147483648 * wk))" "unat v = (c + 4294967296 * T) + 9223372036854775808 * wk"
    using f by (auto simp: barrier_fields_def)
  have lt2: "c < 4294967296" "c + 4294967296 * T < 9223372036854775808" using lt by simp_all
  have "unat v div 4294967296 = T + 2147483648 * wk" unfolding u(1) by (rule field_split [OF lt2(1)])
  moreover have "(T + 2147483648 * wk) mod 2147483648 = T" by (rule field_split [OF lt(2)])
  ultimately show "unat (barrier_target v) = T"
    unfolding barrier_target_def PH_BARRIER_TARGET_MASK_def mask_31 by (simp add: barrier_consts)
  have "unat v mod 2147483648 = c" unfolding u(2) by (rule field_split [OF lt(1)])
  then show "unat (barrier_count v) = c"
    unfolding barrier_count_def PH_BARRIER_COUNT_MASK_def mask_31 by (simp add: barrier_consts)
  have "unat v div 9223372036854775808 = wk" unfolding u(3) by (rule field_split [OF lt2(2)])
  then have "bit v 63 \<longleftrightarrow> odd wk" by (simp add: bit_unat)
  then have "bit v 63 \<longleftrightarrow> wk \<noteq> 0" using lt(3) by (cases wk) auto
  moreover have "PH_BARRIER_WAKING = 2 ^ 63" by (simp add: barrier_consts push_bit_eq_mult)
  ultimately show "v AND PH_BARRIER_WAKING = 0 \<longleftrightarrow> wk = 0" using and_exp_eq_0_iff_not_bit [of v 63] by simp
qed

lemma barrier_updates:
  assumes f: "barrier_fields v c T wk"
  shows "c + 1 < 2147483648 \<Longrightarrow> barrier_fields (v + PH_BARRIER_COUNT_INC) (c + 1) T wk"
    "c + 1 < 2147483648 \<Longrightarrow> wk = 0 \<Longrightarrow> barrier_fields (v + PH_BARRIER_COUNT_INC + PH_BARRIER_WAKING) (c + 1) T 1"
    "0 < c \<Longrightarrow> barrier_fields (v - PH_BARRIER_COUNT_INC) (c - 1) T wk"
    "0 < c \<Longrightarrow> wk = 1 \<Longrightarrow> barrier_fields (PhfWaitForBarrier_master v) (c - 1) T 0"
proof -
  have lt: "c < 2147483648" "T < 2147483648" "wk < 2" using f by (simp_all add: barrier_fields_def)
  note v = barrier_word [OF f]
  show "c + 1 < 2147483648 \<Longrightarrow> barrier_fields (v + PH_BARRIER_COUNT_INC) (c + 1) T wk"
    using lt by (intro barrier_fieldsI) (simp_all add: v barrier_consts)
  show "c + 1 < 2147483648 \<Longrightarrow> wk = 0 \<Longrightarrow> barrier_fields (v + PH_BARRIER_COUNT_INC + PH_BARRIER_WAKING) (c + 1) T 1"
    using lt by (intro barrier_fieldsI) (simp_all add: v barrier_consts push_bit_eq_mult)
  show "barrier_fields (v - PH_BARRIER_COUNT_INC) (c - 1) T wk" if "0 < c"
  proof (rule barrier_fieldsI)
    obtain k where "c = Suc k" using \<open>0 < c\<close> gr0_implies_Suc by blast
    then show "v - PH_BARRIER_COUNT_INC = of_nat (c - 1 + 4294967296 * T + 9223372036854775808 * wk)"
      by (simp add: v barrier_consts)
  qed (use lt in auto)
  show "barrier_fields (PhfWaitForBarrier_master v) (c - 1) T 0" if "0 < c" "wk = 1"
  proof (rule barrier_fieldsI)
    obtain k where "c = Suc k" using \<open>0 < c\<close> gr0_implies_Suc by blast
    then show "PhfWaitForBarrier_master v = of_nat (c - 1 + 4294967296 * T + 9223372036854775808 * 0)"
      using that(2) by (simp add: v PhfWaitForBarrier_master_def barrier_consts push_bit_eq_mult)
  qed (use lt in auto)
qed

end
