(* ===== verification/BarrierInv.thy ===== *)
theory BarrierInv
  imports Barrier
begin

text \<open>
  The barrier lets the threads through phase by phase: its invariant, and the properties.
\<close>

unbundle bit_operations_syntax

section \<open>What the places say\<close>

fun in_role :: "role \<Rightarrow> b_place \<Rightarrow> bool" where
  "in_role r (BQueues q) = (q = r)"
| "in_role r (BChecks q) = (q = r)"
| "in_role r (BBlocked q) = (q = r)"
| "in_role r (BTests q) = (q = r)"
| "in_role r SlaveLeaves = (r = PH_BARRIER_SLAVE)"
| "in_role r WakesSlaves = (r = PH_BARRIER_MASTER)"
| "in_role r MasterLeaves = (r = PH_BARRIER_MASTER)"
| "in_role r _ = False"

definition slave_at :: "b_place \<Rightarrow> nat" where "slave_at p = of_bool (in_role PH_BARRIER_SLAVE p)"
definition master_at :: "b_place \<Rightarrow> nat" where "master_at p = of_bool (in_role PH_BARRIER_MASTER p)"

text \<open>Arrived and not yet returned.\<close>

definition pending :: "b_place \<Rightarrow> nat" where
  "pending p = of_bool (in_role PH_BARRIER_SLAVE p \<or> in_role PH_BARRIER_MASTER p \<or> p = WakesMaster \<or> p = WakesObservers)"

definition observers_waker :: "b_place \<Rightarrow> nat" where "observers_waker p = of_bool (p = WakesObservers)"

text \<open>When a thread in a role must not stay blocked, and who is to wake it then.\<close>

fun must_wake :: "role \<Rightarrow> nat \<Rightarrow> nat \<Rightarrow> bool" where
  "must_wake PH_BARRIER_SLAVE wk S \<longleftrightarrow> wk = 1"
| "must_wake PH_BARRIER_MASTER wk S \<longleftrightarrow> S + wk = 1"
| "must_wake PH_BARRIER_OBSERVER wk S \<longleftrightarrow> wk = 0"

fun waker :: "role \<Rightarrow> b_place" where
  "waker PH_BARRIER_SLAVE = WakesSlaves"
| "waker PH_BARRIER_MASTER = WakesMaster"
| "waker PH_BARRIER_OBSERVER = WakesObservers"

section \<open>The invariant\<close>

abbreviation (input) slaves :: "nat \<Rightarrow> (nat \<Rightarrow> b_place) \<Rightarrow> nat" where "slaves N f \<equiv> total N slave_at f"

text \<open>\<open>wk\<close> is the waking bit, \<open>k\<close> the number of phases that are over.\<close>

definition b_phase :: "nat \<Rightarrow> nat \<Rightarrow> nat \<Rightarrow> (nat \<Rightarrow> b_place) \<Rightarrow> bool" where
  "b_phase N wk k f \<longleftrightarrow> total N master_at f = wk \<and> (wk = 0 \<longrightarrow> slaves N f < N)
     \<and> (\<forall>i < N. (f i = SlaveLeaves \<longrightarrow> wk = 1) \<and> (f i = MasterLeaves \<longrightarrow> slaves N f = 0))"

definition b_counts :: "nat \<Rightarrow> nat \<Rightarrow> nat \<Rightarrow> (nat \<Rightarrow> b_place) \<Rightarrow> (nat \<Rightarrow> nat) \<Rightarrow> (nat \<Rightarrow> nat) \<Rightarrow> (nat \<Rightarrow> nat) \<Rightarrow> bool" where
  "b_counts N wk k f arr ret tr \<longleftrightarrow>
     (\<forall>i < N. arr i = k + (if wk = 1 then 1 else slave_at (f i))) \<and> (\<forall>i < N. ret i + pending (f i) = arr i)
   \<and> total N (\<lambda>n. n) tr + total N observers_waker f = k"

definition b_queue :: "nat \<Rightarrow> nat \<Rightarrow> (nat \<Rightarrow> b_place) \<Rightarrow> nat set \<Rightarrow> bool" where
  "b_queue N wk f Q \<longleftrightarrow> (\<forall>i < N. \<forall>r. f i = BBlocked r \<longrightarrow> i \<in> Q \<longrightarrow> must_wake r wk (slaves N f) \<longrightarrow> (\<exists>j < N. f j = waker r))"

definition b_inv :: "nat \<Rightarrow> nat \<Rightarrow> nat \<Rightarrow> barrier_system \<Rightarrow> bool" where
  "b_inv N wk k s \<longleftrightarrow> barrier_fields (BarrierValue s) (slaves N (b_at s) + wk) N wk \<and> b_phase N wk k (b_at s)
     \<and> b_counts N wk k (b_at s) (arrived s) (returned s) (trues s) \<and> b_queue N wk (b_at s) (queued s)"

lemma slaves_upd: "i < N \<Longrightarrow> slaves N (f(i := q)) + slave_at (f i) = slaves N f + slave_at q"
  by (rule total_upd)

lemma masters_upd: "i < N \<Longrightarrow> total N master_at (f(i := q)) + master_at (f i) = total N master_at f + master_at q"
  by (rule total_upd)

lemma wakers_upd:
  "i < N \<Longrightarrow> total N observers_waker (f(i := q)) + observers_waker (f i) = total N observers_waker f + observers_waker q"
  by (rule total_upd)

lemma in_phase:
  assumes "b_phase N wk k f" "i < N" "wk < 2"
  shows "in_role PH_BARRIER_MASTER (f i) \<Longrightarrow> wk = 1"
    "in_role PH_BARRIER_MASTER (f i) \<Longrightarrow> j < N \<Longrightarrow> in_role PH_BARRIER_MASTER (f j) \<Longrightarrow> i = j"
    "in_role PH_BARRIER_SLAVE (f i) \<Longrightarrow> 0 < slaves N f"
proof -
  have m: "total N master_at f = wk" using assms(1) by (simp add: b_phase_def)
  show "in_role PH_BARRIER_MASTER (f i) \<Longrightarrow> wk = 1"
    using total_member [OF assms(2), of master_at f] m assms(3) by (simp add: master_at_def)
  show "in_role PH_BARRIER_MASTER (f i) \<Longrightarrow> j < N \<Longrightarrow> in_role PH_BARRIER_MASTER (f j) \<Longrightarrow> i = j"
    using total_two [OF assms(2), of j master_at f] m assms(3) by (cases "i = j") (simp_all add: master_at_def)
  show "in_role PH_BARRIER_SLAVE (f i) \<Longrightarrow> 0 < slaves N f"
    using total_member [OF assms(2), of slave_at f] by (simp add: slave_at_def)
qed

text \<open>A thread moves within its role.\<close>

lemma phase_move:
  assumes "b_phase N wk k f" "i < N" "slave_at q = slave_at (f i)" "master_at q = master_at (f i)"
    "q = SlaveLeaves \<Longrightarrow> wk = 1" "q = MasterLeaves \<Longrightarrow> slaves N f = 0"
  shows "b_phase N wk k (f(i := q))" "slaves N (f(i := q)) = slaves N f"
proof -
  show S: "slaves N (f(i := q)) = slaves N f" using slaves_upd [OF assms(2), of f q] assms(3) by simp
  have M: "total N master_at (f(i := q)) = total N master_at f" using masters_upd [OF assms(2), of f q] assms(4) by simp
  show "b_phase N wk k (f(i := q))"
    using assms unfolding b_phase_def S M by auto
qed

lemma counts_move:
  assumes "b_counts N wk k f arr ret tr" "i < N" "slave_at q = slave_at (f i)" "pending q = pending (f i)"
    "observers_waker q = observers_waker (f i)"
  shows "b_counts N wk k (f(i := q)) arr ret tr"
proof -
  have "total N observers_waker (f(i := q)) = total N observers_waker f" using wakers_upd [OF assms(2), of f q] assms(5) by simp
  then show ?thesis using assms unfolding b_counts_def by auto
qed

lemma queue_move:
  assumes "b_queue N wk f Q" "i < N" "slaves N (f(i := q)) = slaves N f" "\<And>r. f i \<noteq> waker r"
    "\<And>r. q = BBlocked r \<Longrightarrow> \<not> must_wake r wk (slaves N f)" "Q' \<subseteq> insert i Q"
  shows "b_queue N wk (f(i := q)) Q'"
  unfolding b_queue_def assms(3)
proof (intro allI impI)
  fix j r
  assume a: "j < N" "(f(i := q)) j = BBlocked r" "j \<in> Q'" "must_wake r wk (slaves N f)"
  then have "j \<noteq> i" using assms(5) by auto
  then have "f j = BBlocked r" "j \<in> Q" using a assms(6) by auto
  then obtain l where l: "l < N" "f l = waker r" using assms(1) a(1,4) unfolding b_queue_def by blast
  then have "l \<noteq> i" using assms(4) by metis
  then show "\<exists>j < N. (f(i := q)) j = waker r" using l by (intro exI [of _ l]) simp
qed

lemma queue_empty: "b_queue N wk f {}"
  by (simp add: b_queue_def)

lemma b_simps [simp]:
  "b_at (b_goes i p s) = (b_at s)(i := p)" "BarrierValue (b_goes i p s) = BarrierValue s" "queued (b_goes i p s) = queued s"
  "arrived (b_goes i p s) = arrived s" "returned (b_goes i p s) = returned s" "trues (b_goes i p s) = trues s"
  "b_at (PhSetWakeEvent s) = b_at s" "BarrierValue (PhSetWakeEvent s) = BarrierValue s" "queued (PhSetWakeEvent s) = {}"
  "arrived (PhSetWakeEvent s) = arrived s" "returned (PhSetWakeEvent s) = returned s" "trues (PhSetWakeEvent s) = trues s"
  "b_at (PhQueueWakeEvent i s) = b_at s" "BarrierValue (PhQueueWakeEvent i s) = BarrierValue s"
  "queued (PhQueueWakeEvent i s) = insert i (queued s)"
  "arrived (PhQueueWakeEvent i s) = arrived s" "returned (PhQueueWakeEvent i s) = returned s" "trues (PhQueueWakeEvent i s) = trues s"
  "b_at (arrives i s) = b_at s" "BarrierValue (arrives i s) = BarrierValue s" "queued (arrives i s) = queued s"
  "arrived (arrives i s) = (arrived s)(i := arrived s i + 1)" "returned (arrives i s) = returned s" "trues (arrives i s) = trues s"
  "b_at (b_returns i b s) = (b_at s)(i := BOut)" "BarrierValue (b_returns i b s) = BarrierValue s" "queued (b_returns i b s) = queued s"
  "arrived (b_returns i b s) = arrived s" "returned (b_returns i b s) = (returned s)(i := returned s i + 1)"
  "trues (b_returns i b s) = (if b then (trues s)(i := trues s i + 1) else trues s)"
  by (simp_all add: b_goes_def PhSetWakeEvent_def PhQueueWakeEvent_def arrives_def b_returns_def)

lemma b_inv_move:
  assumes inv: "b_inv N wk k s" and i: "i < N"
    and q: "slave_at q = slave_at (b_at s i)" "master_at q = master_at (b_at s i)" "pending q = pending (b_at s i)"
      "observers_waker q = observers_waker (b_at s i)" "q = SlaveLeaves \<Longrightarrow> wk = 1" "q = MasterLeaves \<Longrightarrow> slaves N (b_at s) = 0"
    and t: "b_at t = (b_at s)(i := q)" "BarrierValue t = BarrierValue s" "arrived t = arrived s" "returned t = returned s" "trues t = trues s"
    and Q: "b_queue N wk (b_at t) (queued t)"
  shows "b_inv N wk k t"
proof -
  have "b_phase N wk k (b_at s)" "b_counts N wk k (b_at s) (arrived s) (returned s) (trues s)" using inv by (simp_all add: b_inv_def)
  note p = phase_move [OF this(1) i q(1,2,5,6)] and c = counts_move [OF this(2) i q(1,3,4)]
  show ?thesis using inv p c Q unfolding b_inv_def t by simp
qed

lemma cancel_must_wake:
  assumes "barrier_fields v (S + wk) N wk"
  shows "PhpBlockOnBarrier_cancel r v \<longleftrightarrow> must_wake r wk S"
proof -
  have "barrier_count v = 1 \<longleftrightarrow> S + wk = 1" using barrier_tests(2) [OF assms] by (simp add: word_unat_eq_iff)
  moreover have "wk < 2" using assms by (simp add: barrier_fields_def)
  ultimately show ?thesis using barrier_tests(1) [OF assms] by (cases r) auto
qed


lemma weight_simps [simp]:
  "slave_at (BQueues r) = of_bool (r = PH_BARRIER_SLAVE)" "slave_at (BChecks r) = of_bool (r = PH_BARRIER_SLAVE)"
  "slave_at (BBlocked r) = of_bool (r = PH_BARRIER_SLAVE)" "slave_at (BTests r) = of_bool (r = PH_BARRIER_SLAVE)"
  "slave_at BOut = 0" "slave_at SlaveLeaves = 1" "slave_at WakesMaster = 0" "slave_at WakesSlaves = 0" "slave_at MasterLeaves = 0"
  "slave_at WakesObservers = 0"
  "master_at (BQueues r) = of_bool (r = PH_BARRIER_MASTER)" "master_at (BChecks r) = of_bool (r = PH_BARRIER_MASTER)"
  "master_at (BBlocked r) = of_bool (r = PH_BARRIER_MASTER)" "master_at (BTests r) = of_bool (r = PH_BARRIER_MASTER)"
  "master_at BOut = 0" "master_at SlaveLeaves = 0" "master_at WakesMaster = 0" "master_at WakesSlaves = 1" "master_at MasterLeaves = 1"
  "master_at WakesObservers = 0"
  "pending (BQueues r) = of_bool (r \<noteq> PH_BARRIER_OBSERVER)" "pending (BChecks r) = of_bool (r \<noteq> PH_BARRIER_OBSERVER)"
  "pending (BBlocked r) = of_bool (r \<noteq> PH_BARRIER_OBSERVER)" "pending (BTests r) = of_bool (r \<noteq> PH_BARRIER_OBSERVER)"
  "pending BOut = 0" "pending SlaveLeaves = 1" "pending WakesMaster = 1" "pending WakesSlaves = 1" "pending MasterLeaves = 1"
  "pending WakesObservers = 1"
  "observers_waker (BQueues r) = 0" "observers_waker (BChecks r) = 0" "observers_waker (BBlocked r) = 0" "observers_waker (BTests r) = 0"
  "observers_waker BOut = 0" "observers_waker SlaveLeaves = 0" "observers_waker WakesMaster = 0" "observers_waker WakesSlaves = 0"
  "observers_waker MasterLeaves = 0" "observers_waker WakesObservers = 1"
  by (auto simp: slave_at_def master_at_def pending_def observers_waker_def) (cases r; simp)+

lemma waker_simps [simp]:
  "waker r \<noteq> BOut" "waker r \<noteq> BQueues q" "waker r \<noteq> BChecks q" "waker r \<noteq> BBlocked q" "waker r \<noteq> BTests q"
  "waker r \<noteq> SlaveLeaves" "waker r \<noteq> MasterLeaves"
  "BOut \<noteq> waker r" "BQueues q \<noteq> waker r" "BChecks q \<noteq> waker r" "BBlocked q \<noteq> waker r" "BTests q \<noteq> waker r"
  "SlaveLeaves \<noteq> waker r" "MasterLeaves \<noteq> waker r"
  by (cases r; simp)+

lemma slaves_le: "slaves N f \<le> N"
proof -
  have "slaves N f \<le> (\<Sum>i<N. 1)" unfolding total_def by (rule sum_mono) (simp add: slave_at_def)
  then show ?thesis by simp
qed

text \<open>When all threads but one are slaves, every other thread is one.\<close>

lemma all_slaves:
  assumes "i < N" "slave_at (f i) = 0" "slaves N f + 1 = N" "j < N" "j \<noteq> i"
  shows "slave_at (f j) = 1"
proof (rule ccontr)
  assume "slave_at (f j) \<noteq> 1"
  then have z: "slave_at (f j) = 0" by (auto simp: slave_at_def of_bool_def split: if_splits)
  have "slaves N f = slaves N (f(j := BOut))" using slaves_upd [OF assms(4), of f BOut] z by simp
  also have "\<dots> + 2 \<le> N"
  proof -
    let ?g = "\<lambda>k. slave_at (f k) + of_bool (k = i) + of_bool (k = j)"
    have "(\<Sum>k<N. ?g k) \<le> (\<Sum>k<N. 1)"
    proof (rule sum_mono)
      fix k
      show "?g k \<le> 1" using assms(2,5) z by (cases "k = i"; cases "k = j") (auto simp: slave_at_def)
    qed
    moreover have "(\<Sum>k<N. ?g k) = slaves N f + 1 + 1"
      using assms(1,4) by (simp add: sum.distrib total_def of_bool_def)
    moreover have "slaves N f = slaves N (f(j := BOut))" using slaves_upd [OF assms(4), of f BOut] z by simp
    ultimately show ?thesis by simp
  qed
  finally show False using assms(3) by simp
qed

theorem b_step_inv:
  assumes inv: "b_inv N wk k s" and i: "i < N" and N: "N < 2147483648" and step: "b_step i s t"
  shows "\<exists>wk k. b_inv N wk k t"
proof -
  let ?f = "b_at s"
  have F: "barrier_fields (BarrierValue s) (slaves N ?f + wk) N wk" and ph: "b_phase N wk k ?f"
    and co: "b_counts N wk k ?f (arrived s) (returned s) (trues s)" and qu: "b_queue N wk ?f (queued s)"
    using inv by (simp_all add: b_inv_def)
  have wk: "wk < 2" using F by (simp add: barrier_fields_def)
  note cancel = cancel_must_wake [OF F]
  have M: "total N master_at ?f = wk" and SN: "wk = 0 \<Longrightarrow> slaves N ?f < N" using ph by (simp_all add: b_phase_def)
  show ?thesis
    using step
  proof cases
    case (turns r v)
    show ?thesis
    proof (cases "wk = 0")
      case False
      then have "r = PH_BARRIER_OBSERVER" "v = BarrierValue s"
        using turns(3) barrier_tests(1) [OF F] by (auto simp: PhfWaitForBarrier_turn_def)
      then have t: "t = b_goes i (BQueues PH_BARRIER_OBSERVER) s" using turns(1) by (simp add: b_goes_def)
      have "b_queue N wk (?f(i := BQueues PH_BARRIER_OBSERVER)) (queued s)"
        by (rule queue_move [OF qu i]) (use turns(2) phase_move(2) [OF ph i, of "BQueues PH_BARRIER_OBSERVER"] in auto)
      then have "b_inv N wk k t"
        unfolding t by (intro b_inv_move [OF inv i, where q = "BQueues PH_BARRIER_OBSERVER"]) (simp_all add: turns(2))
      then show ?thesis by blast
    next
      case True
      have lt: "slaves N ?f < N" by (rule SN [OF True])
      have F0: "barrier_fields (BarrierValue s) (slaves N ?f) N 0" using F True by simp
      note tests = barrier_tests [OF F0]
      have u: "unat (barrier_count (BarrierValue s) + 1) = slaves N ?f + 1"
        using tests(2) lt N by (simp add: unat_word_ariths)
      have ne: "barrier_count (BarrierValue s) \<noteq> barrier_target (BarrierValue s)"
        using tests(2,3) lt by (metis less_irrefl)
      have eq: "barrier_count (BarrierValue s) + 1 = barrier_target (BarrierValue s) \<longleftrightarrow> slaves N ?f + 1 = N"
        using u tests(3) by (simp add: word_unat_eq_iff)
      have arr: "arrived s i = k" "returned s i = k" using co i turns(2) True by (auto simp: b_counts_def)
      have no_master: "\<not> in_role PH_BARRIER_MASTER (?f j)" if "j < N" for j
        using in_phase(1) [OF ph that wk] True by auto
      show ?thesis
      proof (cases "slaves N ?f + 1 = N")
        case False
        then have rv: "r = PH_BARRIER_SLAVE" "v = BarrierValue s + PH_BARRIER_COUNT_INC"
          using turns(3) tests(1) ne eq by (auto simp: PhfWaitForBarrier_turn_def Let_def)
        let ?g = "?f(i := BQueues PH_BARRIER_SLAVE)"
        have S: "slaves N ?g = slaves N ?f + 1" using slaves_upd [OF i, of ?f "BQueues PH_BARRIER_SLAVE"] turns(2) by simp
        have M': "total N master_at ?g = 0" using masters_upd [OF i, of ?f "BQueues PH_BARRIER_SLAVE"] turns(2) M True by simp
        have W: "total N observers_waker ?g = total N observers_waker ?f"
          using wakers_upd [OF i, of ?f "BQueues PH_BARRIER_SLAVE"] turns(2) by simp
        have tf: "BarrierValue t = v" "b_at t = ?g" "queued t = queued s" "arrived t = (arrived s)(i := k + 1)"
          "returned t = returned s" "trues t = trues s"
          unfolding turns(1) rv using arr by (simp_all add: arrives_def)
        have "barrier_fields v (slaves N ?g + 0) N 0"
          using barrier_updates(1) [OF F0] lt N S by (simp add: rv)
        moreover have "b_phase N 0 k ?g"
          unfolding b_phase_def S M'
          using False lt ph no_master True by (auto simp: b_phase_def) (metis in_role.simps(7))
        moreover have "b_counts N 0 k ?g ((arrived s)(i := k + 1)) (returned s) (trues s)"
          using co arr True W by (auto simp: b_counts_def)
        moreover have "b_queue N 0 ?g (queued s)"
          unfolding b_queue_def
        proof (intro allI impI)
          fix j q
          assume a: "j < N" "?g j = BBlocked q" "j \<in> queued s" "must_wake q 0 (slaves N ?g)"
          then have j: "?f j = BBlocked q" "j \<noteq> i" by (auto split: if_splits)
          then have "q = PH_BARRIER_OBSERVER" using a(4) no_master [OF a(1)] by (cases q) auto
          then obtain l where l: "l < N" "?f l = waker q" using qu a(1,3) j(1) True unfolding b_queue_def by fastforce
          then show "\<exists>j < N. ?g j = waker q" using turns(2) by (intro exI [of _ l]) auto
        qed
        ultimately show ?thesis unfolding b_inv_def tf by blast
      next
        case last: True
        then have rv: "r = PH_BARRIER_MASTER" "v = BarrierValue s + PH_BARRIER_COUNT_INC + PH_BARRIER_WAKING"
          using turns(3) tests(1) ne eq by (auto simp: PhfWaitForBarrier_turn_def Let_def)
        let ?g = "?f(i := WakesSlaves)"
        have S: "slaves N ?g = slaves N ?f" using slaves_upd [OF i, of ?f WakesSlaves] turns(2) by simp
        have M': "total N master_at ?g = 1" using masters_upd [OF i, of ?f WakesSlaves] turns(2) M True by simp
        have W: "total N observers_waker ?g = total N observers_waker ?f"
          using wakers_upd [OF i, of ?f WakesSlaves] turns(2) by simp
        have tf: "BarrierValue t = v" "b_at t = ?g" "queued t = queued s" "arrived t = (arrived s)(i := k + 1)"
          "returned t = returned s" "trues t = trues s"
          unfolding turns(1) rv using arr by (simp_all add: arrives_def)
        have others: "slave_at (?f j) = 1" if "j < N" "j \<noteq> i" for j
          by (rule all_slaves [OF i _ last that]) (simp add: turns(2))
        have "barrier_fields v (slaves N ?g + 1) N 1"
          using barrier_updates(2) [OF F0] lt N S by (simp add: rv)
        moreover have "b_phase N 1 k ?g"
          unfolding b_phase_def S M' using no_master by (auto, metis in_role.simps(7))
        moreover have "b_counts N 1 k ?g ((arrived s)(i := k + 1)) (returned s) (trues s)"
          using co arr True W others by (auto simp: b_counts_def)
        moreover have "b_queue N 1 ?g (queued s)"
          unfolding b_queue_def
        proof (intro allI impI)
          fix j q
          assume a: "j < N" "?g j = BBlocked q" "j \<in> queued s" "must_wake q 1 (slaves N ?g)"
          then have "?f j = BBlocked q" by (auto split: if_splits)
          then have "q = PH_BARRIER_SLAVE" using a(4) no_master [OF a(1)] by (cases q) auto
          then show "\<exists>j < N. ?g j = waker q" using i by (intro exI [of _ i]) simp
        qed
        ultimately show ?thesis unfolding b_inv_def tf by blast
      qed
    qed
  next
    case (queues r)
    have "b_queue N wk (?f(i := BChecks r)) (insert i (queued s))"
      by (rule queue_move [OF qu i]) (use queues(2) phase_move(2) [OF ph i, of "BChecks r"] in auto)
    then have "b_inv N wk k t"
      unfolding queues(1) by (intro b_inv_move [OF inv i, where q = "BChecks r"]) (simp_all add: queues(2))
    then show ?thesis by blast
  next
    case (checks r)
    show ?thesis
    proof (cases "PhpBlockOnBarrier_cancel r (BarrierValue s)")
      case True
      then have t: "t = b_goes i (BTests r) (PhSetWakeEvent s)" using checks(1) by simp
      have "b_inv N wk k t"
        unfolding t by (intro b_inv_move [OF inv i, where q = "BTests r"]) (simp_all add: checks(2) queue_empty)
      then show ?thesis by blast
    next
      case False
      then have t: "t = b_goes i (BBlocked r) s" using checks(1) by simp
      have "b_queue N wk (?f(i := BBlocked r)) (queued s)"
        by (rule queue_move [OF qu i])
          (use checks(2) False cancel phase_move(2) [OF ph i, of "BBlocked r"] in auto)
      then have "b_inv N wk k t"
        unfolding t by (intro b_inv_move [OF inv i, where q = "BBlocked r"]) (simp_all add: checks(2))
      then show ?thesis by blast
    qed
  next
    case (resumes r)
    have "b_queue N wk (?f(i := BTests r)) (queued s)"
      by (rule queue_move [OF qu i]) (use resumes(2) phase_move(2) [OF ph i, of "BTests r"] in auto)
    then have "b_inv N wk k t"
      unfolding resumes(1) by (intro b_inv_move [OF inv i, where q = "BTests r"]) (simp_all add: resumes(2))
    then show ?thesis by blast
  next
    case (tests r)
    let ?q = "after_block r (BarrierValue s)"
    have q: "slave_at ?q = slave_at (?f i)" "master_at ?q = master_at (?f i)" "pending ?q = pending (?f i)"
      "observers_waker ?q = observers_waker (?f i)"
      using tests(2) by (cases r; simp)+
    have q1: "wk = 1" if "?q = SlaveLeaves"
      using that barrier_tests(1) [OF F] wk by (cases r) (auto split: if_splits)
    have q2: "slaves N ?f = 0" if "?q = MasterLeaves"
    proof -
      have r: "r = PH_BARRIER_MASTER" using that by (cases r) (auto split: if_splits)
      then have "slaves N ?f + wk = 1" using that cancel [of PH_BARRIER_MASTER] by (auto split: if_splits)
      moreover have "wk = 1" using in_phase(1) [OF ph i wk] tests(2) r by simp
      ultimately show ?thesis by simp
    qed
    have nb: "?q \<noteq> BBlocked r'" for r' by (cases r) auto
    have "b_queue N wk (?f(i := ?q)) (queued s)"
      by (rule queue_move [OF qu i]) (use tests(2) nb phase_move(2) [OF ph i q(1,2) q1 q2] in auto)
    then have "b_inv N wk k t"
      unfolding tests(1) by (intro b_inv_move [OF inv i, where q = ?q]) (use q q1 q2 in simp_all)
    then show ?thesis by blast
  next
    case (slave_leaves v wake)
    have w1: "wk = 1" using ph i slave_leaves(2) by (auto simp: b_phase_def)
    have pos: "0 < slaves N ?f" using in_phase(3) [OF ph i wk] slave_leaves(2) by simp
    have F1: "barrier_fields (BarrierValue s) (slaves N ?f + 1) N 1" using F w1 by simp
    have v: "v = BarrierValue s - PH_BARRIER_COUNT_INC" and wake: "wake \<longleftrightarrow> slaves N ?f = 1"
    proof -
      show "v = BarrierValue s - PH_BARRIER_COUNT_INC" using slave_leaves(3) by (simp add: PhfWaitForBarrier_slave_def)
      have "unat (barrier_count (BarrierValue s) - 1) = slaves N ?f"
        using barrier_tests(2) [OF F1] by (subst unat_sub) (simp_all add: word_le_nat_alt)
      then show "wake \<longleftrightarrow> slaves N ?f = 1" using slave_leaves(3) by (auto simp: PhfWaitForBarrier_slave_def word_unat_eq_iff)
    qed
    let ?q = "if wake then WakesMaster else BOut"
    let ?g = "?f(i := ?q)"
    have S: "slaves N ?g = slaves N ?f - 1" using slaves_upd [OF i, of ?f ?q] slave_leaves(2) by (cases wake) simp_all
    have M': "total N master_at ?g = 1" using masters_upd [OF i, of ?f ?q] slave_leaves(2) M w1 by (cases wake) simp_all
    have W: "total N observers_waker ?g = total N observers_waker ?f"
      using wakers_upd [OF i, of ?f ?q] slave_leaves(2) by (cases wake) simp_all
    have tf: "BarrierValue t = v" "b_at t = ?g" "queued t = queued s" "arrived t = arrived s"
      "returned t = (returned s)(i := returned s i + (if wake then 0 else 1))" "trues t = trues s"
      unfolding slave_leaves(1) by (simp_all add: b_goes_def b_returns_def)
    have "barrier_fields v (slaves N ?g + 1) N 1"
      using barrier_updates(3) [OF F1] pos S by (simp add: v)
    moreover have "b_phase N 1 k ?g" unfolding b_phase_def S M' using ph pos by (auto simp: b_phase_def)
    moreover have "b_counts N 1 k ?g (arrived s) (returned t) (trues s)"
      unfolding tf b_counts_def W
    proof (intro conjI allI impI)
      fix j
      assume j: "j < N"
      show "arrived s j = k + (if (1 :: nat) = 1 then 1 else slave_at (?g j))" using co j w1 by (simp add: b_counts_def)
      have "returned s j + pending (?f j) = arrived s j" using co j by (simp add: b_counts_def)
      then show "((returned s)(i := returned s i + (if wake then 0 else 1))) j + pending (?g j) = arrived s j"
        using slave_leaves(2) by (cases "j = i") auto
    next
      show "total N (\<lambda>n. n) (trues s) + total N observers_waker ?f = k" using co by (simp add: b_counts_def)
    qed
    moreover have "b_queue N 1 ?g (queued s)"
      unfolding b_queue_def
    proof (intro allI impI)
      fix j q
      assume a: "j < N" "?g j = BBlocked q" "j \<in> queued s" "must_wake q 1 (slaves N ?g)"
      then have j: "?f j = BBlocked q" by (auto split: if_splits)
      show "\<exists>j < N. ?g j = waker q"
      proof (cases q)
        case PH_BARRIER_MASTER
        then have "wake" using a(4) S wake pos by simp
        then show ?thesis using i PH_BARRIER_MASTER by (intro exI [of _ i]) simp
      next
        case PH_BARRIER_SLAVE
        then obtain l where l: "l < N" "?f l = waker q" using qu a(1,3) j w1 unfolding b_queue_def by fastforce
        then show ?thesis using slave_leaves(2) by (intro exI [of _ l]) auto
      qed (use a(4) in simp)
    qed
    ultimately show ?thesis unfolding b_inv_def tf by blast
  next
    case wakes_master
    have p: "b_phase N wk k (?f(i := BOut))" "slaves N (?f(i := BOut)) = slaves N ?f"
      using phase_move [OF ph i, of BOut] wakes_master(2) by simp_all
    have "total N observers_waker (?f(i := BOut)) = total N observers_waker ?f"
      using wakers_upd [OF i, of ?f BOut] wakes_master(2) by simp
    then have "b_counts N wk k (?f(i := BOut)) (arrived s) ((returned s)(i := returned s i + 1)) (trues s)"
      using co i wakes_master(2) by (auto simp: b_counts_def)
    then have "b_inv N wk k t" using F p unfolding b_inv_def wakes_master(1) by (simp add: queue_empty)
    then show ?thesis by blast
  next
    case wakes_slaves
    have "b_inv N wk k t" unfolding wakes_slaves(1)
      by (intro b_inv_move [OF inv i, where q = "BQueues PH_BARRIER_MASTER"]) (simp_all add: wakes_slaves(2) queue_empty)
    then show ?thesis by blast
  next
    case master_leaves
    have w1: "wk = 1" using in_phase(1) [OF ph i wk] master_leaves(2) by simp
    have S0: "slaves N ?f = 0" using ph i master_leaves(2) by (auto simp: b_phase_def)
    then have none: "slave_at (?f j) = 0" if "j < N" for j using that by (simp add: total_zero)
    let ?g = "?f(i := WakesObservers)"
    have S: "slaves N ?g = 0" using slaves_upd [OF i, of ?f WakesObservers] master_leaves(2) S0 by simp
    have M': "total N master_at ?g = 0" using masters_upd [OF i, of ?f WakesObservers] master_leaves(2) M w1 by simp
    have no_master: "master_at (?g j) = 0" if "j < N" for j using M' that unfolding total_zero by blast
    have W: "total N observers_waker ?g = total N observers_waker ?f + 1"
      using wakers_upd [OF i, of ?f WakesObservers] master_leaves(2) by simp
    have tf: "BarrierValue t = PhfWaitForBarrier_master (BarrierValue s)" "b_at t = ?g" "queued t = queued s" "arrived t = arrived s"
      "returned t = returned s" "trues t = trues s"
      unfolding master_leaves(1) by (simp_all add: b_goes_def)
    have F1: "barrier_fields (BarrierValue s) 1 N 1" using F S0 w1 by simp
    have "barrier_fields (PhfWaitForBarrier_master (BarrierValue s)) (slaves N ?g + 0) N 0"
      using barrier_updates(4) [OF F1] S by simp
    moreover have "b_phase N 0 (k + 1) ?g"
      unfolding b_phase_def S M'
    proof (intro conjI allI impI)
      show "0 < N" using i by simp
      fix j
      assume "j < N" "?g j = SlaveLeaves"
      then show "(0 :: nat) = 1" using none [of j] by (cases "j = i") simp_all
    qed simp_all
    moreover have "b_counts N 0 (k + 1) ?g (arrived s) (returned s) (trues s)"
      unfolding b_counts_def W
    proof (intro conjI allI impI)
      fix j
      assume j: "j < N"
      have "slave_at (?g j) = 0" using S j unfolding total_zero by blast
      then show "arrived s j = k + 1 + (if (0 :: nat) = 1 then 1 else slave_at (?g j))" using co j w1 by (simp add: b_counts_def)
      show "returned s j + pending (?g j) = arrived s j"
        using co j master_leaves(2) by (cases "j = i") (auto simp: b_counts_def)
    next
      show "total N (\<lambda>n. n) (trues s) + (total N observers_waker ?f + 1) = k + 1" using co by (simp add: b_counts_def)
    qed
    moreover have "b_queue N 0 ?g (queued s)"
      unfolding b_queue_def
    proof (intro allI impI)
      fix j q
      assume a: "j < N" "?g j = BBlocked q" "j \<in> queued s" "must_wake q 0 (slaves N ?g)"
      then have "q = PH_BARRIER_OBSERVER" using S no_master [OF a(1)] by (cases q) simp_all
      then show "\<exists>j < N. ?g j = waker q" using i by (intro exI [of _ i]) simp
    qed
    ultimately show ?thesis unfolding b_inv_def tf by blast
  next
    case wakes_observers
    have p: "b_phase N wk k (?f(i := BOut))" "slaves N (?f(i := BOut)) = slaves N ?f"
      using phase_move [OF ph i, of BOut] wakes_observers(2) by simp_all
    have "total N observers_waker (?f(i := BOut)) + 1 = total N observers_waker ?f"
      using wakers_upd [OF i, of ?f BOut] wakes_observers(2) by simp
    moreover have "total N (\<lambda>n. n) ((trues s)(i := trues s i + 1)) = total N (\<lambda>n. n) (trues s) + 1"
      using total_upd [OF i, of "\<lambda>n. n" "trues s" "trues s i + 1"] by simp
    ultimately have "b_counts N wk k (?f(i := BOut)) (arrived s) ((returned s)(i := returned s i + 1)) ((trues s)(i := trues s i + 1))"
      using co i wakes_observers(2) by (auto simp: b_counts_def)
    then have "b_inv N wk k t" using F p unfolding b_inv_def wakes_observers(1) by (simp add: queue_empty)
    then show ?thesis by blast
  qed
qed

end
