(* ===== verification/BarrierProps.thy ===== *)
theory BarrierProps
  imports BarrierInv
begin

text \<open>
  What the barrier promises: phases one after the other, one \<open>TRUE\<close> per phase, and no deadlock.
\<close>

unbundle bit_operations_syntax

lemma new_barrier_inv:
  assumes "0 < N" "N < 2147483648"
  shows "b_inv N 0 0 (new_barrier N)"
proof -
  have z: "total N g (\<lambda>_. BOut) = 0" if "g BOut = 0" for g using that by (simp add: total_def)
  have "barrier_fields (PhfInitializeBarrier (of_nat N)) 0 N 0"
    using assms by (intro barrier_fieldsI)
      (simp_all add: PhfInitializeBarrier_def PH_BARRIER_TARGET_SHIFT_def push_bit_eq_mult mult.commute)
  moreover have "total N (\<lambda>n. n) (\<lambda>_. 0) = 0" by (simp add: total_def)
  ultimately show ?thesis
    using assms by (simp add: b_inv_def new_barrier_def b_phase_def b_counts_def queue_empty z)
qed

lemma b_reachable_inv:
  assumes "b_reachable N s" "N < 2147483648" "0 < N"
  shows "\<exists>wk k. b_inv N wk k s"
  using assms
proof induction
  case start
  then show ?case using new_barrier_inv by blast
next
  case (move s i t)
  then obtain wk k where "b_inv N wk k s" by blast
  from b_step_inv [OF this move(2) _ move(3)] move(5) show ?case by blast
qed

section \<open>Running the threads\<close>

definition b_next :: "nat \<Rightarrow> barrier_system \<Rightarrow> barrier_system option" where
  "b_next i s = (case b_at s i of
     BOut \<Rightarrow> (case PhfWaitForBarrier_turn (BarrierValue s) of None \<Rightarrow> None
       | Some (r, v) \<Rightarrow>
         Some (b_goes i (after_turn r) ((if r = PH_BARRIER_OBSERVER then s else arrives i s)\<lparr>BarrierValue := v\<rparr>)))
   | BQueues r \<Rightarrow> Some (b_goes i (BChecks r) (PhQueueWakeEvent i s))
   | BChecks r \<Rightarrow> Some (if PhpBlockOnBarrier_cancel r (BarrierValue s) then b_goes i (BTests r) (PhSetWakeEvent s)
       else b_goes i (BBlocked r) s)
   | BBlocked r \<Rightarrow> (if i \<in> queued s then None else Some (b_goes i (BTests r) s))
   | BTests r \<Rightarrow> Some (b_goes i (after_block r (BarrierValue s)) s)
   | SlaveLeaves \<Rightarrow> (case PhfWaitForBarrier_slave (BarrierValue s) of (v, wake) \<Rightarrow>
       Some (if wake then b_goes i WakesMaster (s\<lparr>BarrierValue := v\<rparr>) else b_returns i False (s\<lparr>BarrierValue := v\<rparr>)))
   | WakesMaster \<Rightarrow> Some (b_returns i False (PhSetWakeEvent s))
   | WakesSlaves \<Rightarrow> Some (b_goes i (BQueues PH_BARRIER_MASTER) (PhSetWakeEvent s))
   | MasterLeaves \<Rightarrow> Some (b_goes i WakesObservers (s\<lparr>BarrierValue := PhfWaitForBarrier_master (BarrierValue s)\<rparr>))
   | WakesObservers \<Rightarrow> Some (b_returns i True (PhSetWakeEvent s)))"

lemma b_next_step: "b_next i s = Some t \<Longrightarrow> b_step i s t"
proof (cases "b_at s i")
  case (BChecks r)
  from b_step.checks [of s i, OF this] show "b_next i s = Some t \<Longrightarrow> ?thesis" by (simp add: b_next_def BChecks)
next
  case SlaveLeaves
  obtain v w where v: "PhfWaitForBarrier_slave (BarrierValue s) = (v, w)" by fastforce
  from b_step.slave_leaves [of s i, OF SlaveLeaves v] show "b_next i s = Some t \<Longrightarrow> ?thesis" by (simp add: b_next_def SlaveLeaves v)
next
  case BOut
  show "b_next i s = Some t \<Longrightarrow> ?thesis"
    using b_step.turns [of s i, OF BOut] by (auto simp: b_next_def BOut split: option.splits prod.splits)
qed (auto simp: b_next_def intro: b_step.intros split: if_splits)

fun b_run :: "nat list \<Rightarrow> barrier_system \<Rightarrow> barrier_system option" where
  "b_run [] s = Some s"
| "b_run (i # is) s = (case b_next i s of None \<Rightarrow> None | Some s \<Rightarrow> b_run is s)"

lemma b_run_reachable:
  "b_run is s = Some t \<Longrightarrow> b_reachable N s \<Longrightarrow> (\<forall>i \<in> set is. i < N) \<Longrightarrow> b_reachable N t"
proof (induction "is" arbitrary: s)
  case (Cons i "is")
  then obtain u where u: "b_next i s = Some u" "b_run is u = Some t" by (auto split: option.splits)
  have "b_reachable N u" by (rule b_reachable.move [OF Cons(3) _ b_next_step [OF u(1)]]) (use Cons(4) in simp)
  from Cons.IH [OF u(2) this] Cons(4) show ?case by simp
qed simp

lemmas barrier_eval = b_next_def PhfWaitForBarrier_turn_def PhfWaitForBarrier_slave_def PhfWaitForBarrier_master_def
  barrier_count_def barrier_target_def PhfInitializeBarrier_def new_barrier_def b_goes_def arrives_def b_returns_def
  PhSetWakeEvent_def PhQueueWakeEvent_def barrier_consts

section \<open>Phases\<close>

text \<open>
  C34.  \<open>PhWaitForBarrier\<close>, called by the threads a barrier was initialized for: its assertion holds,
  no thread has returned from a phase that another thread has not arrived at, at most one thread has
  returned \<open>TRUE\<close> from each phase, and when no thread is inside, all have returned from the same
  number of phases and exactly one \<open>TRUE\<close> has been returned per phase.
\<close>

theorem PhWaitForBarrier_phases:
  assumes "b_reachable N s" "0 < N" "N < 2147483648" "i < N" "j < N"
  shows "PhfWaitForBarrier_turn (BarrierValue s) \<noteq> None
    \<and> returned s i \<le> arrived s j \<and> total N (\<lambda>n. n) (trues s) \<le> arrived s j
    \<and> ((\<forall>l < N. b_at s l = BOut) \<longrightarrow> arrived s i = returned s i \<and> returned s j = returned s i
         \<and> total N (\<lambda>n. n) (trues s) = returned s i)"
proof -
  obtain wk k where inv: "b_inv N wk k s" using b_reachable_inv assms(1,2,3) by blast
  let ?f = "b_at s"
  have F: "barrier_fields (BarrierValue s) (slaves N ?f + wk) N wk" and ph: "b_phase N wk k ?f"
    and co: "b_counts N wk k ?f (arrived s) (returned s) (trues s)"
    using inv by (simp_all add: b_inv_def)
  have wk: "wk < 2" using F by (simp add: barrier_fields_def)
  have arr: "arrived s l = k + (if wk = 1 then 1 else slave_at (?f l))" "returned s l + pending (?f l) = arrived s l"
    if "l < N" for l using co that by (auto simp: b_counts_def)
  have tr: "total N (\<lambda>n. n) (trues s) + total N observers_waker ?f = k" using co by (simp add: b_counts_def)
  have "PhfWaitForBarrier_turn (BarrierValue s) \<noteq> None"
  proof (cases "wk = 0")
    case True
    then have "unat (barrier_count (BarrierValue s)) \<noteq> unat (barrier_target (BarrierValue s))"
      using barrier_tests(2,3) [OF F] ph by (simp add: b_phase_def)
    then show ?thesis by (auto simp: PhfWaitForBarrier_turn_def Let_def)
  qed (use barrier_tests(1) [OF F] in \<open>simp add: PhfWaitForBarrier_turn_def\<close>)
  moreover have "returned s i \<le> arrived s j"
  proof (cases "wk = 1")
    case False
    have "slave_at (?f i) \<le> pending (?f i)" by (simp add: slave_at_def pending_def)
    then have "returned s i \<le> k" using arr [OF assms(4)] False by simp
    then show ?thesis using arr [OF assms(5)] by simp
  qed (use arr [OF assms(4)] arr [OF assms(5)] in simp)
  moreover have "total N (\<lambda>n. n) (trues s) \<le> arrived s j" using tr arr [OF assms(5)] by simp
  moreover have "arrived s i = returned s i \<and> returned s j = returned s i \<and> total N (\<lambda>n. n) (trues s) = returned s i"
    if out: "\<forall>l < N. b_at s l = BOut"
  proof -
    have z: "total N g ?f = 0" if "g BOut = 0" for g using out that by (simp add: total_zero)
    have "wk = 0" using ph z [of master_at] by (simp add: b_phase_def)
    then show ?thesis using arr [OF assms(4)] arr [OF assms(5)] tr z [of observers_waker] out assms(4,5) by simp
  qed
  ultimately show ?thesis by blast
qed

text \<open>Two threads through one phase.\<close>

definition phase_run :: "nat list" where
  "phase_run = [0, 0, 0, 1, 1, 1, 1, 0, 0, 0, 0, 1, 1, 1, 1]"

lemma PhWaitForBarrier_phases_witness:
  "\<exists>s. b_reachable 2 s \<and> (\<forall>l < 2. b_at s l = BOut) \<and> returned s 1 = 1 \<and> total 2 (\<lambda>n. n) (trues s) = returned s 1"
proof -
  obtain s where s: "b_run phase_run (new_barrier 2) = Some s" "b_at s 0 = BOut" "b_at s 1 = BOut" "returned s 1 = 1"
    by (simp add: phase_run_def barrier_eval)
  have "b_reachable 2 s" by (rule b_run_reachable [OF s(1) b_reachable.start]) (simp add: phase_run_def)
  moreover have "\<forall>l < 2. b_at s l = BOut" using s(2,3) by (auto simp: less_2_cases_iff)
  ultimately show ?thesis using PhWaitForBarrier_phases [of 2 s 1 1] s(4) by auto
qed

section \<open>No deadlock\<close>

text \<open>A thread inside can go on unless it is blocked on an event that is not set.\<close>

lemma b_enabled: "b_at s i \<noteq> BOut \<Longrightarrow> \<not> (\<exists>r. b_at s i = BBlocked r \<and> i \<in> queued s) \<Longrightarrow> \<exists>t. b_step i s t"
proof (cases "b_at s i")
  case SlaveLeaves
  obtain v w where v: "PhfWaitForBarrier_slave (BarrierValue s) = (v, w)" by fastforce
  from b_step.slave_leaves [of s i, OF SlaveLeaves v] show "\<exists>t. b_step i s t" by blast
qed (auto intro: b_step.intros)

lemma waker_enabled: "b_at s j = waker r \<Longrightarrow> b_at s j \<noteq> BOut \<and> (\<exists>t. b_step j s t)"
  using b_enabled [of s j] waker_simps by metis

lemma blocked_enabled:
  assumes "b_queue N wk (b_at s) (queued s)" "i < N" "b_at s i \<noteq> BOut"
    "\<And>r. b_at s i = BBlocked r \<Longrightarrow> must_wake r wk (slaves N (b_at s))"
  shows "\<exists>j < N. b_at s j \<noteq> BOut \<and> (\<exists>t. b_step j s t)"
proof (cases "\<exists>r. b_at s i = BBlocked r \<and> i \<in> queued s")
  case True
  then obtain j r where "j < N" "b_at s j = waker r" using assms unfolding b_queue_def by blast
  then show ?thesis using waker_enabled by blast
next
  case False
  then show ?thesis using b_enabled assms(2,3) by blast
qed



end
