(* ===== verification/HashCrc.thy ===== *)
theory HashCrc
  imports Numbers
begin

text \<open>
  The CRC-32 of \<open>phlib/util.c\<close>, which goes over a buffer byte by byte with the table of
  \<open>phlib/data.c\<close>, and its specification bit by bit.
\<close>

unbundle bit_operations_syntax

section \<open>The code\<close>

definition PhCrc32Table :: "ulong list" where
  "PhCrc32Table = [0x00000000, 0x77073096, 0xee0e612c, 0x990951ba, 0x076dc419, 0x706af48f, 0xe963a535, 0x9e6495a3,
   0x0edb8832, 0x79dcb8a4, 0xe0d5e91e, 0x97d2d988, 0x09b64c2b, 0x7eb17cbd, 0xe7b82d07, 0x90bf1d91,
   0x1db71064, 0x6ab020f2, 0xf3b97148, 0x84be41de, 0x1adad47d, 0x6ddde4eb, 0xf4d4b551, 0x83d385c7,
   0x136c9856, 0x646ba8c0, 0xfd62f97a, 0x8a65c9ec, 0x14015c4f, 0x63066cd9, 0xfa0f3d63, 0x8d080df5,
   0x3b6e20c8, 0x4c69105e, 0xd56041e4, 0xa2677172, 0x3c03e4d1, 0x4b04d447, 0xd20d85fd, 0xa50ab56b,
   0x35b5a8fa, 0x42b2986c, 0xdbbbc9d6, 0xacbcf940, 0x32d86ce3, 0x45df5c75, 0xdcd60dcf, 0xabd13d59,
   0x26d930ac, 0x51de003a, 0xc8d75180, 0xbfd06116, 0x21b4f4b5, 0x56b3c423, 0xcfba9599, 0xb8bda50f,
   0x2802b89e, 0x5f058808, 0xc60cd9b2, 0xb10be924, 0x2f6f7c87, 0x58684c11, 0xc1611dab, 0xb6662d3d,
   0x76dc4190, 0x01db7106, 0x98d220bc, 0xefd5102a, 0x71b18589, 0x06b6b51f, 0x9fbfe4a5, 0xe8b8d433,
   0x7807c9a2, 0x0f00f934, 0x9609a88e, 0xe10e9818, 0x7f6a0dbb, 0x086d3d2d, 0x91646c97, 0xe6635c01,
   0x6b6b51f4, 0x1c6c6162, 0x856530d8, 0xf262004e, 0x6c0695ed, 0x1b01a57b, 0x8208f4c1, 0xf50fc457,
   0x65b0d9c6, 0x12b7e950, 0x8bbeb8ea, 0xfcb9887c, 0x62dd1ddf, 0x15da2d49, 0x8cd37cf3, 0xfbd44c65,
   0x4db26158, 0x3ab551ce, 0xa3bc0074, 0xd4bb30e2, 0x4adfa541, 0x3dd895d7, 0xa4d1c46d, 0xd3d6f4fb,
   0x4369e96a, 0x346ed9fc, 0xad678846, 0xda60b8d0, 0x44042d73, 0x33031de5, 0xaa0a4c5f, 0xdd0d7cc9,
   0x5005713c, 0x270241aa, 0xbe0b1010, 0xc90c2086, 0x5768b525, 0x206f85b3, 0xb966d409, 0xce61e49f,
   0x5edef90e, 0x29d9c998, 0xb0d09822, 0xc7d7a8b4, 0x59b33d17, 0x2eb40d81, 0xb7bd5c3b, 0xc0ba6cad,
   0xedb88320, 0x9abfb3b6, 0x03b6e20c, 0x74b1d29a, 0xead54739, 0x9dd277af, 0x04db2615, 0x73dc1683,
   0xe3630b12, 0x94643b84, 0x0d6d6a3e, 0x7a6a5aa8, 0xe40ecf0b, 0x9309ff9d, 0x0a00ae27, 0x7d079eb1,
   0xf00f9344, 0x8708a3d2, 0x1e01f268, 0x6906c2fe, 0xf762575d, 0x806567cb, 0x196c3671, 0x6e6b06e7,
   0xfed41b76, 0x89d32be0, 0x10da7a5a, 0x67dd4acc, 0xf9b9df6f, 0x8ebeeff9, 0x17b7be43, 0x60b08ed5,
   0xd6d6a3e8, 0xa1d1937e, 0x38d8c2c4, 0x4fdff252, 0xd1bb67f1, 0xa6bc5767, 0x3fb506dd, 0x48b2364b,
   0xd80d2bda, 0xaf0a1b4c, 0x36034af6, 0x41047a60, 0xdf60efc3, 0xa867df55, 0x316e8eef, 0x4669be79,
   0xcb61b38c, 0xbc66831a, 0x256fd2a0, 0x5268e236, 0xcc0c7795, 0xbb0b4703, 0x220216b9, 0x5505262f,
   0xc5ba3bbe, 0xb2bd0b28, 0x2bb45a92, 0x5cb36a04, 0xc2d7ffa7, 0xb5d0cf31, 0x2cd99e8b, 0x5bdeae1d,
   0x9b64c2b0, 0xec63f226, 0x756aa39c, 0x026d930a, 0x9c0906a9, 0xeb0e363f, 0x72076785, 0x05005713,
   0x95bf4a82, 0xe2b87a14, 0x7bb12bae, 0x0cb61b38, 0x92d28e9b, 0xe5d5be0d, 0x7cdcefb7, 0x0bdbdf21,
   0x86d3d2d4, 0xf1d4e242, 0x68ddb3f8, 0x1fda836e, 0x81be16cd, 0xf6b9265b, 0x6fb077e1, 0x18b74777,
   0x88085ae6, 0xff0f6a70, 0x66063bca, 0x11010b5c, 0x8f659eff, 0xf862ae69, 0x616bffd3, 0x166ccf45,
   0xa00ae278, 0xd70dd2ee, 0x4e048354, 0x3903b3c2, 0xa7672661, 0xd06016f7, 0x4969474d, 0x3e6e77db,
   0xaed16a4a, 0xd9d65adc, 0x40df0b66, 0x37d83bf0, 0xa9bcae53, 0xdebb9ec5, 0x47b2cf7f, 0x30b5ffe9,
   0xbdbdf21c, 0xcabac28a, 0x53b39330, 0x24b4a3a6, 0xbad03605, 0xcdd70693, 0x54de5729, 0x23d967bf,
   0xb3667a2e, 0xc4614ab8, 0x5d681b02, 0x2a6f2b94, 0xb40bbe37, 0xc30c8ea1, 0x5a05df1b, 0x2d02ef8d]"

text \<open>The bytes of the buffer are signed characters.\<close>

fun PhCrc32_loop :: "ulong \<Rightarrow> uchar list \<Rightarrow> ulong" where
  "PhCrc32_loop Crc [] = Crc"
| "PhCrc32_loop Crc (b # Buffer) =
     PhCrc32_loop (drop_bit 8 Crc XOR PhCrc32Table ! unat ((Crc XOR scast b) AND 0xff)) Buffer"

definition PhCrc32 :: "ulong \<Rightarrow> uchar list \<Rightarrow> ulong" where
  "PhCrc32 Crc Buffer = PhCrc32_loop (Crc XOR 0xffffffff) Buffer XOR 0xffffffff"

section \<open>Bit by bit\<close>

text \<open>
  The register of the reflected polynomial: a bit that leaves it subtracts the polynomial.
\<close>

definition crc_bit :: "ulong \<Rightarrow> ulong" where
  "crc_bit c = (if bit c 0 then drop_bit 1 c XOR 0xEDB88320 else drop_bit 1 c)"

definition crc_byte :: "uchar \<Rightarrow> ulong \<Rightarrow> ulong" where
  "crc_byte b c = (crc_bit ^^ 8) (c XOR ucast b)"

definition crc32 :: "uchar list \<Rightarrow> ulong" where
  "crc32 m = NOT (fold crc_byte m (NOT 0))"

section \<open>The table\<close>

lemma crc_bit_xor: "crc_bit (x XOR y) = crc_bit x XOR crc_bit y"
  by (rule bit_word_eqI) (auto simp: crc_bit_def bit_simps)

lemma crc_bits_xor: "(crc_bit ^^ n) (x XOR y) = (crc_bit ^^ n) x XOR (crc_bit ^^ n) y"
  by (induction n) (simp_all add: crc_bit_xor)

lemma crc_bit_if: "bit c 0 \<Longrightarrow> crc_bit c = drop_bit 1 c XOR 0xEDB88320" "\<not> bit c 0 \<Longrightarrow> crc_bit c = drop_bit 1 c"
  by (simp_all only: crc_bit_def if_True if_False)

lemma crc_bits_low_zero: "(\<And>j. j < n \<Longrightarrow> \<not> bit w j) \<Longrightarrow> (crc_bit ^^ n) w = drop_bit n w"
proof (induction n)
  case (Suc n)
  then have "(crc_bit ^^ n) w = drop_bit n w" by simp
  moreover have "\<not> bit (drop_bit n w) 0" using Suc(2) [of n] by (simp add: bit_drop_bit_eq)
  ultimately show ?case by (simp add: crc_bit_if)
qed simp

lemma crc_bits_8: "(crc_bit ^^ 8) x = crc_bit (crc_bit (crc_bit (crc_bit (crc_bit (crc_bit (crc_bit (crc_bit x)))))))"
  by (simp add: eval_nat_numeral)

text \<open>The table is linear too: its second half of each power of two is the first, shifted.\<close>

definition crc_doubled :: "ulong \<Rightarrow> ulong list \<Rightarrow> ulong list" where
  "crc_doubled b L = L @ map (\<lambda>x. x XOR b) L"

lemma crc_powers:
  "(crc_bit ^^ 8) 1 = 0x77073096" "(crc_bit ^^ 8) 2 = 0xee0e612c" "(crc_bit ^^ 8) 4 = 0x076dc419" "(crc_bit ^^ 8) 8 = 0x0edb8832"
  "(crc_bit ^^ 8) 16 = 0x1db71064" "(crc_bit ^^ 8) 32 = 0x3b6e20c8" "(crc_bit ^^ 8) 64 = 0x76dc4190" "(crc_bit ^^ 8) 128 = 0xedb88320"
  unfolding crc_bits_8 by (simp_all add: crc_bit_if)

lemma crc_table_doubled:
  "fold crc_doubled [0x77073096, 0xee0e612c, 0x076dc419, 0x0edb8832, 0x1db71064, 0x3b6e20c8, 0x76dc4190, 0xedb88320] [0] = PhCrc32Table"
  by (simp add: crc_doubled_def PhCrc32Table_def)

lemma crc_doubled_map:
  assumes "n = 2 ^ k" "k < 8"
  shows "crc_doubled ((crc_bit ^^ 8) (of_nat n)) (map (\<lambda>i. (crc_bit ^^ 8) (of_nat i)) [0..<n])
    = map (\<lambda>i. (crc_bit ^^ 8) (of_nat i)) [0..<n + n]"
proof -
  have X: "of_nat (i + n) = (of_nat i XOR of_nat n :: ulong)" if "i < n" for i
  proof -
    have "of_nat i AND (2 ^ k :: ulong) = 0"
    proof -
      have "(2 :: nat) ^ k \<le> 2 ^ 7" by (rule power_increasing) (use assms(2) in simp_all)
      then have "unat (of_nat i :: ulong) = i" using that assms(1) by (simp add: unat_of_nat take_bit_nat_eq_self)
      then show ?thesis
        unfolding and_exp_eq_0_iff_not_bit using that assms by (simp add: bit_unat)
    qed
    then show ?thesis using assms(1) by (simp add: disjunctive_add_eq_xor)
  qed
  have "map (\<lambda>i. (crc_bit ^^ 8) (of_nat i)) [n..<n + n]
    = map (\<lambda>i. (crc_bit ^^ 8) (of_nat i) XOR (crc_bit ^^ 8) (of_nat n)) [0..<n]"
  proof -
    have "map (\<lambda>i. (crc_bit ^^ 8) (of_nat i)) [n..<n + n] = map (\<lambda>i. (crc_bit ^^ 8) (of_nat (i + n))) [0..<n]"
      by (subst map_add_upt [symmetric]) (simp only: map_map o_def)
    also have "\<dots> = map (\<lambda>i. (crc_bit ^^ 8) (of_nat i XOR of_nat n)) [0..<n]"
      by (rule map_cong [OF refl]) (subst X, simp_all)
    finally show ?thesis by (simp only: crc_bits_xor)
  qed
  moreover have "[0..<n + n] = [0..<n] @ [n..<n + n]" using upt_add_eq_append [of 0 n n] by simp
  ultimately show ?thesis by (simp add: crc_doubled_def o_def)
qed

lemma crc_doubled_fold:
  "j \<le> 8 \<Longrightarrow> fold crc_doubled (map (\<lambda>k. (crc_bit ^^ 8) (of_nat (2 ^ k))) [0..<j]) [0]
    = map (\<lambda>i. (crc_bit ^^ 8) (of_nat i)) [0..<2 ^ j]"
proof (induction j)
  case 0
  show ?case by (simp add: crc_bits_8 crc_bit_if)
next
  case (Suc j)
  then show ?case using crc_doubled_map [of "2 ^ j" j] by (simp add: mult_2 del: of_nat_power)
qed

lemma crc_table: "map (\<lambda>i. (crc_bit ^^ 8) (of_nat i)) [0..<256] = PhCrc32Table"
proof -
  have "map (\<lambda>k. (crc_bit ^^ 8) (of_nat (2 ^ k))) [0..<8]
    = [0x77073096, 0xee0e612c, 0x076dc419, 0x0edb8832, 0x1db71064, 0x3b6e20c8, 0x76dc4190, 0xedb88320]"
    using crc_powers by (simp add: upt_rec)
  then show ?thesis using crc_doubled_fold [of 8] crc_table_doubled by simp
qed

lemma low_byte: "x AND 0xff = take_bit 8 x" for x :: ulong
  by (simp add: take_bit_eq_mask mask_eq_exp_minus_1)

lemma crc_lookup: "(crc_bit ^^ 8) x = drop_bit 8 x XOR PhCrc32Table ! unat (x AND 0xff)"
proof -
  have "x = push_bit 8 (drop_bit 8 x) XOR take_bit 8 x"
    by (rule bit_word_eqI) (auto simp: bit_simps)
  then have "(crc_bit ^^ 8) x = (crc_bit ^^ 8) (push_bit 8 (drop_bit 8 x)) XOR (crc_bit ^^ 8) (take_bit 8 x)"
    by (metis crc_bits_xor)
  moreover have "(crc_bit ^^ 8) (push_bit 8 (drop_bit 8 x)) = drop_bit 8 (push_bit 8 (drop_bit 8 x))"
    by (rule crc_bits_low_zero) (simp add: bit_simps)
  moreover have "drop_bit 8 (push_bit 8 (drop_bit 8 x)) = drop_bit 8 x"
    by (rule bit_word_eqI) (auto simp: bit_simps dest: bit_imp_le_length)
  moreover have "unat (take_bit 8 x) < 256"
    by (simp only: unsigned_take_bit_eq) (simp add: take_bit_eq_mod)
  then have "(crc_bit ^^ 8) (of_nat (unat (take_bit 8 x))) = PhCrc32Table ! unat (take_bit 8 x)"
    by (subst crc_table [symmetric]) simp
  ultimately show ?thesis unfolding low_byte by simp
qed

lemma crc_low_byte: "(c XOR scast b) AND 0xff = (c XOR ucast (b :: uchar)) AND (0xff :: ulong)"
  unfolding low_byte by (rule bit_word_eqI) (auto simp: bit_simps min_def dest: le_antisym [of 7 _] split: if_splits)

lemma PhCrc32_loop_bits: "PhCrc32_loop c m = fold crc_byte m c"
proof (induction m arbitrary: c)
  case (Cons b m)
  have "drop_bit 8 (c XOR ucast b) = drop_bit 8 c"
    by (rule bit_word_eqI) (auto simp: bit_simps dest: bit_imp_le_length)
  then have "crc_byte b c = drop_bit 8 c XOR PhCrc32Table ! unat ((c XOR scast b) AND 0xff)"
    unfolding crc_byte_def crc_lookup crc_low_byte by simp
  then show ?case using Cons by simp
qed simp

lemma xor_ones: "x XOR 0xffffffff = NOT x" for x :: ulong
proof -
  have "0xffffffff = (- 1 :: ulong)" by simp
  then show ?thesis by (simp only: bit.xor_one_right)
qed

text \<open>
  C38.  \<open>PhCrc32\<close> is the CRC-32 of IEEE 802.3: for every buffer, started with 0, it gives what the register
  of the reflected polynomial gives bit by bit; and a buffer can be hashed in parts, each call
  started with the result of the one before.
\<close>

theorem PhCrc32_correct:
  "PhCrc32 0 m = crc32 m \<and> PhCrc32 (PhCrc32 c m) m' = PhCrc32 c (m @ m')"
  unfolding PhCrc32_def crc32_def PhCrc32_loop_bits xor_ones by simp

end
