(* ===== verification/HashBlocks.thy ===== *)
theory HashBlocks
  imports Numbers Buffers
begin

text \<open>
  What the hash functions of \<open>phlib/md5.c\<close>, \<open>phlib/sha.c\<close> and \<open>phlib/sha256.c\<close> share: words in
  bytes of either order, copies into the block buffer of a context, and what it means to have
  absorbed a message block by block.  The contract of a hash is the locale \<open>hash_stream\<close>.
\<close>

unbundle bit_operations_syntax

section \<open>Words in memory\<close>

definition le_word :: "uchar \<Rightarrow> uchar \<Rightarrow> uchar \<Rightarrow> uchar \<Rightarrow> ulong" where
  "le_word a b c d = ucast a OR push_bit 8 (ucast b) OR push_bit 16 (ucast c) OR push_bit 24 (ucast d)"

definition be_word :: "uchar \<Rightarrow> uchar \<Rightarrow> uchar \<Rightarrow> uchar \<Rightarrow> ulong" where
  "be_word a b c d = le_word d c b a"

definition le_bytes :: "ulong \<Rightarrow> uchar list" where
  "le_bytes w = [ucast w, ucast (drop_bit 8 w), ucast (drop_bit 16 w), ucast (drop_bit 24 w)]"

definition be_bytes :: "ulong \<Rightarrow> uchar list" where
  "be_bytes w = rev (le_bytes w)"

text \<open>An array of \<open>ULONG\<close> over the bytes, as the machine has it and in network order.\<close>

fun le_words :: "uchar list \<Rightarrow> ulong list" where
  "le_words (a # b # c # d # bs) = le_word a b c d # le_words bs"
| "le_words _ = []"

fun be_words :: "uchar list \<Rightarrow> ulong list" where
  "be_words (a # b # c # d # bs) = be_word a b c d # be_words bs"
| "be_words _ = []"

text \<open>\<open>memcpy\<close> of \<open>n\<close> bytes into a buffer: no value outside of either.\<close>

definition copy_bytes :: "uchar list \<Rightarrow> nat \<Rightarrow> uchar list \<Rightarrow> nat \<Rightarrow> uchar list option" where
  "copy_bytes buf off src n =
     (if off + n \<le> length buf \<and> n \<le> length src then Some (overwrite off (take n src) buf) else None)"

definition fill_bytes :: "uchar list \<Rightarrow> nat \<Rightarrow> uchar \<Rightarrow> nat \<Rightarrow> uchar list option" where
  "fill_bytes buf off b n = copy_bytes buf off (replicate n b) n"

lemma bit_byte: "8 \<le> n \<Longrightarrow> \<not> bit (a :: uchar) n"
  by (auto dest: bit_imp_le_length)

text \<open>Words are compared bit by bit.\<close>

lemma ulong_eqI:
  fixes v w :: ulong
  assumes "\<forall>n \<in> set [0, 1, 2, 3, 4, 5, 6, 7, 8, 9, 10, 11, 12, 13, 14, 15, 16, 17, 18, 19, 20, 21, 22, 23, 24, 25, 26, 27, 28, 29, 30, 31].
    bit v n = bit w n"
  shows "v = w"
proof (rule bit_word_eqI)
  have "[0..<32] = [0, 1, 2, 3, 4, 5, 6, 7, 8, 9, 10, 11, 12, 13, 14, 15, 16, 17, 18, 19, 20, 21, 22, 23, 24, 25, 26, 27, 28, 29, 30, 31]"
    by (simp add: upt_rec)
  then have "\<forall>n \<in> set [0..<32]. bit v n = bit w n" using assms by (simp only:)
  then show "n < LENGTH(32) \<Longrightarrow> bit v n = bit w n" for n by simp
qed

lemma unat_drop_bit: "unat (drop_bit k w) = unat w div 2 ^ k" for w :: ulong
  unfolding unsigned_drop_bit_eq using unsigned_less [of w, where ?'a = nat]
  by (simp add: drop_bit_eq_div take_bit_nat_eq_self)

lemma length_le_bytes [simp]: "length (le_bytes w) = 4" "length (be_bytes w) = 4"
  by (simp_all add: le_bytes_def be_bytes_def)

lemma length_words: "length (le_words bs) = length bs div 4" "length (be_words bs) = length bs div 4"
  by (induction bs rule: le_words.induct; simp)+

lemma be_words_nth:
  "4 * i + 3 < length bs \<Longrightarrow> be_words bs ! i = be_word (bs ! (4 * i)) (bs ! (4 * i + 1)) (bs ! (4 * i + 2)) (bs ! (4 * i + 3))"
proof (induction bs arbitrary: i rule: be_words.induct)
  case (1 a b c d bs)
  then show ?case by (cases i) (simp_all add: numeral_3_eq_3)
qed simp_all

lemma le_words_nth:
  "4 * i + 3 < length bs \<Longrightarrow> le_words bs ! i = le_word (bs ! (4 * i)) (bs ! (4 * i + 1)) (bs ! (4 * i + 2)) (bs ! (4 * i + 3))"
proof (induction bs arbitrary: i rule: le_words.induct)
  case (1 a b c d bs)
  then show ?case by (cases i) (simp_all add: numeral_3_eq_3)
qed simp_all

lemma copy_bytesD:
  "copy_bytes buf off src n = Some b \<Longrightarrow> length b = length buf"
  by (auto simp: copy_bytes_def overwrite_def split: if_splits)

text \<open>Counting in two words: the low word has overflowed exactly when it is below a summand.\<close>

lemma field_div_mod: "a < m \<Longrightarrow> (a + m * b) div m = b \<and> (a + m * b) mod m = a" for a b m :: nat
  by simp

lemma carry_add:
  "(a + b) div 2 ^ 32 = a div 2 ^ 32 + b div 2 ^ 32 + (if (of_nat (a + b) :: ulong) < of_nat a then 1 else 0)"
proof -
  have m: "unat (of_nat k :: ulong) = k mod 2 ^ 32" for k by (simp add: unat_of_nat take_bit_eq_mod)
  let ?r = "a mod 2 ^ 32" and ?s = "b mod 2 ^ 32"
  have lt: "?r < 2 ^ 32" "?s < 2 ^ 32" by simp_all
  have split: "(q * 2 ^ 32 + x + (q' * 2 ^ 32 + y)) div 2 ^ 32 = q + q' + (x + y) div 2 ^ 32"
    "(q * 2 ^ 32 + x + (q' * 2 ^ 32 + y)) mod 2 ^ 32 = (x + y) mod 2 ^ 32" for q q' x y :: nat
  proof -
    have "q * 2 ^ 32 + x + (q' * 2 ^ 32 + y) = x + y + 2 ^ 32 * (q + q')" by simp
    then show "(q * 2 ^ 32 + x + (q' * 2 ^ 32 + y)) div 2 ^ 32 = q + q' + (x + y) div 2 ^ 32"
      "(q * 2 ^ 32 + x + (q' * 2 ^ 32 + y)) mod 2 ^ 32 = (x + y) mod 2 ^ 32"
      by (simp_all only: div_mult_self2 mod_mult_self2 zero_neq_numeral power_not_zero add.commute) simp_all
  qed
  have d: "(a + b) div 2 ^ 32 = a div 2 ^ 32 + b div 2 ^ 32 + (?r + ?s) div 2 ^ 32"
    and mm: "(a + b) mod 2 ^ 32 = (?r + ?s) mod 2 ^ 32"
    using split [of "a div 2 ^ 32" ?r "b div 2 ^ 32" ?s] by (simp_all only: div_mult_mod_eq)
  show ?thesis
  proof (cases "?r + ?s < 2 ^ 32")
    case True
    then have "(?r + ?s) div 2 ^ 32 = 0" "unat (of_nat (a + b) :: ulong) = ?r + ?s" by (simp_all only: m mm div_less mod_less)
    then show ?thesis unfolding d by (simp only: word_less_nat_alt m) simp
  next
    case False
    define k where "k = ?r + ?s - 2 ^ 32"
    have rs: "?r + ?s = 2 ^ 32 * 1 + k" using False by (simp add: k_def)
    have k: "k < ?r" "k < 2 ^ 32" using rs lt by linarith+
    then have "(?r + ?s) div 2 ^ 32 = 1" "(?r + ?s) mod 2 ^ 32 = k"
      unfolding rs using field_div_mod [of k "2 ^ 32" 1] by (simp_all only: add.commute)
    then show ?thesis unfolding d using k by (simp only: word_less_nat_alt m mm) simp
  qed
qed

lemma length_words_64: "push_bit 3 (of_nat (n div 2 ^ 32)) OR drop_bit 29 (of_nat n) = (of_nat (8 * n div 2 ^ 32) :: ulong)"
  "push_bit 3 (of_nat n) = (of_nat (8 * n) :: ulong)"
proof -
  have m: "unat (of_nat k :: ulong) = k mod 2 ^ 32" for k by (simp add: unat_of_nat take_bit_eq_mod)
  have "unat (drop_bit 29 (of_nat n) :: ulong) = n mod 2 ^ 32 div 2 ^ 29"
    by (simp only: unat_drop_bit m)
  moreover have "n mod 2 ^ 32 div 2 ^ 29 < 2 ^ 32" by (rule order.strict_trans1 [OF div_le_dividend]) simp
  ultimately have d: "drop_bit 29 (of_nat n) = (of_nat (n mod 2 ^ 32 div 2 ^ 29) :: ulong)"
    by (simp add: word_unat_eq_iff m)
  have "push_bit 3 (of_nat (n div 2 ^ 32)) AND drop_bit 29 (of_nat n) = (0 :: ulong)"
    by (rule bit_word_eqI) (auto simp: bit_simps dest: bit_imp_le_length)
  then have "push_bit 3 (of_nat (n div 2 ^ 32)) OR drop_bit 29 (of_nat n)
      = push_bit 3 (of_nat (n div 2 ^ 32)) + (drop_bit 29 (of_nat n) :: ulong)"
    by (simp only: disjunctive_add_eq_or)
  also have "\<dots> = of_nat (8 * (n div 2 ^ 32) + n mod 2 ^ 32 div 2 ^ 29)"
    unfolding d by (simp add: push_bit_eq_mult)
  also have "8 * (n div 2 ^ 32) + n mod 2 ^ 32 div 2 ^ 29 = 8 * n div 2 ^ 32"
  proof -
    have "8 * (q * 2 ^ 32 + k) div 2 ^ 32 = 8 * q + k div 2 ^ 29" for q k :: nat by simp
    from this [of "n div 2 ^ 32" "n mod 2 ^ 32"] show ?thesis by (simp only: div_mult_mod_eq)
  qed
  finally show "push_bit 3 (of_nat (n div 2 ^ 32)) OR drop_bit 29 (of_nat n) = (of_nat (8 * n div 2 ^ 32) :: ulong)" .
  show "push_bit 3 (of_nat n) = (of_nat (8 * n) :: ulong)" by (simp add: push_bit_eq_mult)
qed

lemma count_and_63: "unat (of_nat n AND 63 :: ulong) = n mod 64"
proof -
  have "63 = (mask 6 :: ulong)" by (simp add: mask_eq_exp_minus_1)
  then have "of_nat n AND 63 = (take_bit 6 (of_nat n) :: ulong)" by (simp only: take_bit_eq_mask)
  then have "unat (of_nat n AND 63 :: ulong) = take_bit 6 (take_bit 32 n)"
    by (simp only: unsigned_take_bit_eq unsigned_of_nat) simp
  then show ?thesis by (simp add: take_bit_eq_mod mod_mod_cancel)
qed

text \<open>The functions of FIPS 180.\<close>

definition Ch :: "ulong \<Rightarrow> ulong \<Rightarrow> ulong \<Rightarrow> ulong" where "Ch x y z = (x AND y) XOR (NOT x AND z)"
definition Parity :: "ulong \<Rightarrow> ulong \<Rightarrow> ulong \<Rightarrow> ulong" where "Parity x y z = x XOR y XOR z"
definition Maj :: "ulong \<Rightarrow> ulong \<Rightarrow> ulong \<Rightarrow> ulong" where "Maj x y z = (x AND y) XOR (x AND z) XOR (y AND z)"

section \<open>Blocks of 64 bytes\<close>

function absorb :: "('s \<Rightarrow> uchar list \<Rightarrow> 's) \<Rightarrow> 's \<Rightarrow> uchar list \<Rightarrow> 's" where
  "absorb f H bs = (if length bs < 64 then H else absorb f (f H (take 64 bs)) (drop 64 bs))"
  by auto
termination by (relation "measure (\<lambda>(f, H, bs). length bs)") auto

declare absorb.simps [simp del]

definition rest64 :: "'b list \<Rightarrow> 'b list" where
  "rest64 bs = drop (length bs div 64 * 64) bs"

lemma absorb_short: "length bs < 64 \<Longrightarrow> absorb f H bs = H"
  by (subst absorb.simps) simp

lemma absorb_block: "length b = 64 \<Longrightarrow> absorb f H (b @ bs) = absorb f (f H b) bs"
  by (subst absorb.simps) simp

lemma absorb_long: "64 \<le> length bs \<Longrightarrow> absorb f H bs = absorb f (f H (take 64 bs)) (drop 64 bs)"
  by (subst absorb.simps) simp

lemma length_rest64: "length (rest64 bs) = length bs mod 64"
  by (simp add: rest64_def minus_div_mult_eq_mod)

lemma rest64_short: "length bs < 64 \<Longrightarrow> rest64 bs = bs"
  by (simp add: rest64_def)

lemma rest64_long: "64 \<le> length bs \<Longrightarrow> rest64 (drop 64 bs) = rest64 bs"
proof -
  assume "64 \<le> length bs"
  then have "length bs div 64 = Suc ((length bs - 64) div 64)" by (simp add: le_div_geq)
  then show ?thesis by (simp add: rest64_def add.commute)
qed

lemma absorb_append: "absorb f H (a @ b) = absorb f (absorb f H a) (rest64 a @ b)"
proof (induction f H a rule: absorb.induct)
  case (1 f H a)
  show ?case
  proof (cases "length a < 64")
    case False
    then have "absorb f H (a @ b) = absorb f (f H (take 64 a)) (drop 64 a @ b)" by (subst absorb_long) simp_all
    then show ?thesis using 1 [OF False] False by (simp add: absorb_long [of a] rest64_long)
  qed (simp add: absorb_short rest64_short)
qed

lemma rest64_append: "rest64 (a @ b) = rest64 (rest64 a @ b)"
proof (induction "length a" arbitrary: a rule: less_induct)
  case less
  show ?case
  proof (cases "length a < 64")
    case False
    then have "rest64 (a @ b) = rest64 (drop 64 a @ b)" using rest64_long [of "a @ b"] by simp
    also have "\<dots> = rest64 (rest64 (drop 64 a) @ b)" by (rule less) (use False in simp)
    finally show ?thesis using False by (simp add: rest64_long)
  qed (simp add: rest64_short)
qed

lemma absorb_cong:
  "(\<And>S b. length b = 64 \<Longrightarrow> f S b = g S b) \<Longrightarrow> absorb f H bs = absorb g H bs"
proof (induction f H bs rule: absorb.induct)
  case (1 f H bs)
  then show ?case by (cases "length bs < 64") (simp_all add: absorb_short absorb_long)
qed

lemma fold_upt_inv:
  "P a s \<Longrightarrow> a \<le> b \<Longrightarrow> (\<And>t s. a \<le> t \<Longrightarrow> t < b \<Longrightarrow> P t s \<Longrightarrow> P (Suc t) (g t s)) \<Longrightarrow> P b (fold g [a..<b] s)"
proof (induction b)
  case (Suc b)
  show ?case
  proof (cases "a = Suc b")
    case False
    then have "P b (fold g [a..<b] s)" using Suc by simp
    then show ?thesis using Suc.prems(3) [of b] Suc.prems(2) False by simp
  qed (use Suc in simp)
qed simp

text \<open>
  A context with state \<open>H\<close> and buffer \<open>buf\<close> stands for the message \<open>m\<close>: the whole blocks are in the
  state, and the rest of the message is at the front of the buffer.
\<close>

definition absorbed :: "('s \<Rightarrow> uchar list \<Rightarrow> 's) \<Rightarrow> 's \<Rightarrow> uchar list \<Rightarrow> 's \<Rightarrow> uchar list \<Rightarrow> bool" where
  "absorbed f H0 m H buf \<longleftrightarrow> H = absorb f H0 m \<and> length buf = 64 \<and> take (length m mod 64) buf = rest64 m"

lemma absorbed_start: "length buf = 64 \<Longrightarrow> absorbed f H0 [] H0 buf"
  by (simp add: absorbed_def absorb_short rest64_def)

lemma absorbed_more:
  assumes "absorbed f H0 m H buf" "H' = absorb f H (take (length m mod 64) buf @ x)" "length buf' = 64"
    "take ((length m mod 64 + length x) mod 64) buf' = rest64 (take (length m mod 64) buf @ x)"
  shows "absorbed f H0 (m @ x) H' buf'"
proof -
  have "take (length m mod 64) buf = rest64 m" "H = absorb f H0 m" using assms(1) by (simp_all add: absorbed_def)
  then show ?thesis
    using assms(2-4) absorb_append [of f H0 m x] rest64_append [of m x]
    by (simp add: absorbed_def mod_add_left_eq)
qed

section \<open>Padding\<close>

text \<open>The message, one bit, zeros up to eight bytes before the end of a block, and its length in bits.\<close>

definition padding :: "nat \<Rightarrow> nat" where
  "padding n = (if n mod 64 < 56 then 56 - n mod 64 else 120 - n mod 64)"

definition pad64 :: "uchar list \<Rightarrow> uchar list \<Rightarrow> uchar list" where
  "pad64 m len = m @ 0x80 # replicate (padding (length m) - 1) 0 @ len"

lemma padding_pos: "0 < padding n" "padding n \<le> 64" "(n + padding n) mod 64 = 56"
proof -
  have "n mod 64 < 64" by simp
  then show "0 < padding n" "padding n \<le> 64" by (auto simp: padding_def)
  have "(n + padding n) mod 64 = (n mod 64 + padding n) mod 64" by (simp add: mod_add_left_eq)
  also have "\<dots> = 56" using \<open>n mod 64 < 64\<close> by (auto simp: padding_def)
  finally show "(n + padding n) mod 64 = 56" .
qed

section \<open>The contract of a hash\<close>

text \<open>Hashing the parts of a message one after the other.\<close>

fun hash_parts :: "('ctx \<Rightarrow> uchar list \<Rightarrow> 'ctx option) \<Rightarrow> 'ctx \<Rightarrow> uchar list list \<Rightarrow> 'ctx option" where
  "hash_parts update c [] = Some c"
| "hash_parts update c (x # xs) = Option.bind (update c x) (\<lambda>c. hash_parts update c xs)"

text \<open>
  A context stands for a message.  Adding a part of at most \<open>part\<close> bytes extends the message as long as
  its length stays below \<open>bound\<close>, and the final value is the digest of the message.
\<close>

locale hash_stream =
  fixes init :: 'ctx and update :: "'ctx \<Rightarrow> uchar list \<Rightarrow> 'ctx option" and final :: "'ctx \<Rightarrow> (uchar list \<times> 'ctx) option"
    and digest :: "uchar list \<Rightarrow> uchar list" and stands :: "uchar list \<Rightarrow> 'ctx \<Rightarrow> bool" and part :: nat and bound :: nat
  assumes init_stands: "stands [] init"
    and update_stands: "stands m c \<Longrightarrow> length x \<le> part \<Longrightarrow> length m + length x < bound \<Longrightarrow> \<exists>c'. update c x = Some c' \<and> stands (m @ x) c'"
    and final_digest: "stands m c \<Longrightarrow> length m < bound \<Longrightarrow> \<exists>c'. final c = Some (digest m, c')"
begin

lemma parts_stand:
  "stands m c \<Longrightarrow> \<forall>x \<in> set xs. length x \<le> part \<Longrightarrow> length m + length (concat xs) < bound \<Longrightarrow>
    \<exists>c'. hash_parts update c xs = Some c' \<and> stands (m @ concat xs) c'"
proof (induction xs arbitrary: m c)
  case (Cons x xs)
  then obtain c1 where c1: "update c x = Some c1" "stands (m @ x) c1"
    using update_stands [of m c x] by auto
  then show ?case using Cons.IH [of "m @ x" c1] Cons.prems by auto
qed simp

lemma hashed:
  assumes "\<forall>x \<in> set xs. length x \<le> part" "length (concat xs) < bound"
  shows "\<exists>c c'. hash_parts update init xs = Some c \<and> final c = Some (digest (concat xs), c')"
proof -
  obtain c where c: "hash_parts update init xs = Some c" "stands (concat xs) c"
    using parts_stand [OF init_stands assms(1)] assms(2) by auto
  then show ?thesis using final_digest assms(2) by blast
qed

end

end
