(* ===== verification/Md5.thy ===== *)
theory Md5
  imports HashBlocks
begin

text \<open>
  MD5 of \<open>phlib/md5.c\<close>: the unrolled steps, the context, and the algorithm of RFC 1321.
\<close>

unbundle bit_operations_syntax

section \<open>The steps\<close>

definition F1 :: "ulong \<Rightarrow> ulong \<Rightarrow> ulong \<Rightarrow> ulong" where "F1 x y z = z XOR (x AND (y XOR z))"
definition F2 :: "ulong \<Rightarrow> ulong \<Rightarrow> ulong \<Rightarrow> ulong" where "F2 x y z = F1 z x y"
definition F3 :: "ulong \<Rightarrow> ulong \<Rightarrow> ulong \<Rightarrow> ulong" where "F3 x y z = x XOR y XOR z"
definition F4 :: "ulong \<Rightarrow> ulong \<Rightarrow> ulong \<Rightarrow> ulong" where "F4 x y z = y XOR (x OR NOT z)"

type_synonym md5_regs = "ulong \<times> ulong \<times> ulong \<times> ulong"
type_synonym md5_row = "(ulong \<Rightarrow> ulong \<Rightarrow> ulong \<Rightarrow> ulong) \<times> nat \<times> ulong \<times> nat"

text \<open>
  \<open>MD5STEP(f, w, x, y, z, data, s)\<close>.  The next step takes the variables one place further on, which
  the result says by the order of its components.
\<close>

fun MD5STEP :: "ulong list \<Rightarrow> md5_row \<Rightarrow> md5_regs \<Rightarrow> md5_regs" where
  "MD5STEP inp (f, i, K, s) (w, x, y, z) =
     (let w = w + (f x y z + (inp ! i + K));
          w = word_rotl s w;
          w = w + x
      in (z, w, x, y))"

text \<open>The steps: function, word of the block, constant, rotation.\<close>

definition MD5_steps :: "md5_row list" where
  "MD5_steps = [
    (F1, 0, 0xd76aa478, 7), (F1, 1, 0xe8c7b756, 12), (F1, 2, 0x242070db, 17), (F1, 3, 0xc1bdceee, 22),
    (F1, 4, 0xf57c0faf, 7), (F1, 5, 0x4787c62a, 12), (F1, 6, 0xa8304613, 17), (F1, 7, 0xfd469501, 22),
    (F1, 8, 0x698098d8, 7), (F1, 9, 0x8b44f7af, 12), (F1, 10, 0xffff5bb1, 17), (F1, 11, 0x895cd7be, 22),
    (F1, 12, 0x6b901122, 7), (F1, 13, 0xfd987193, 12), (F1, 14, 0xa679438e, 17), (F1, 15, 0x49b40821, 22),
    (F2, 1, 0xf61e2562, 5), (F2, 6, 0xc040b340, 9), (F2, 11, 0x265e5a51, 14), (F2, 0, 0xe9b6c7aa, 20),
    (F2, 5, 0xd62f105d, 5), (F2, 10, 0x02441453, 9), (F2, 15, 0xd8a1e681, 14), (F2, 4, 0xe7d3fbc8, 20),
    (F2, 9, 0x21e1cde6, 5), (F2, 14, 0xc33707d6, 9), (F2, 3, 0xf4d50d87, 14), (F2, 8, 0x455a14ed, 20),
    (F2, 13, 0xa9e3e905, 5), (F2, 2, 0xfcefa3f8, 9), (F2, 7, 0x676f02d9, 14), (F2, 12, 0x8d2a4c8a, 20),
    (F3, 5, 0xfffa3942, 4), (F3, 8, 0x8771f681, 11), (F3, 11, 0x6d9d6122, 16), (F3, 14, 0xfde5380c, 23),
    (F3, 1, 0xa4beea44, 4), (F3, 4, 0x4bdecfa9, 11), (F3, 7, 0xf6bb4b60, 16), (F3, 10, 0xbebfbc70, 23),
    (F3, 13, 0x289b7ec6, 4), (F3, 0, 0xeaa127fa, 11), (F3, 3, 0xd4ef3085, 16), (F3, 6, 0x04881d05, 23),
    (F3, 9, 0xd9d4d039, 4), (F3, 12, 0xe6db99e5, 11), (F3, 15, 0x1fa27cf8, 16), (F3, 2, 0xc4ac5665, 23),
    (F4, 0, 0xf4292244, 6), (F4, 7, 0x432aff97, 10), (F4, 14, 0xab9423a7, 15), (F4, 5, 0xfc93a039, 21),
    (F4, 12, 0x655b59c3, 6), (F4, 3, 0x8f0ccc92, 10), (F4, 10, 0xffeff47d, 15), (F4, 1, 0x85845dd1, 21),
    (F4, 8, 0x6fa87e4f, 6), (F4, 15, 0xfe2ce6e0, 10), (F4, 6, 0xa3014314, 15), (F4, 13, 0x4e0811a1, 21),
    (F4, 4, 0xf7537e82, 6), (F4, 11, 0xbd3af235, 10), (F4, 2, 0x2ad7d2bb, 15), (F4, 9, 0xeb86d391, 21)]"

fun MD5_add :: "md5_regs \<Rightarrow> md5_regs \<Rightarrow> md5_regs" where
  "MD5_add (b0, b1, b2, b3) (a, b, c, d) = (b0 + a, b1 + b, b2 + c, b3 + d)"

definition MD5Transform :: "md5_regs \<Rightarrow> uchar list \<Rightarrow> md5_regs" where
  "MD5Transform buf inp = MD5_add buf (fold (MD5STEP (le_words inp)) MD5_steps buf)"

section \<open>The context\<close>

record MD5_CTX =
  md5_i0 :: ulong
  md5_i1 :: ulong
  md5_buf :: md5_regs
  md5_in :: "uchar list"

definition MD5Init :: "MD5_CTX \<Rightarrow> MD5_CTX" where
  "MD5Init Context = Context\<lparr>md5_buf := (0x67452301, 0xefcdab89, 0x98badcfe, 0x10325476), md5_i0 := 0, md5_i1 := 0\<rparr>"

text \<open>The count of bits, and the loop over whole blocks.\<close>

definition MD5Update_count :: "ulong \<times> ulong \<Rightarrow> ulong \<Rightarrow> ulong \<times> ulong" where
  "MD5Update_count i Length = (let
       i0 = fst i + push_bit 3 Length;
       i1 = (if i0 < fst i then snd i + 1 else snd i) + drop_bit 29 Length
     in (i0, i1))"

partial_function (option) MD5Update_loop ::
    "md5_regs \<Rightarrow> uchar list \<Rightarrow> uchar list \<Rightarrow> ulong \<Rightarrow> (md5_regs \<times> uchar list \<times> uchar list \<times> ulong) option" where
  "MD5Update_loop buf inp Input Length = (
     if Length \<ge> 64 then do {
       inp \<leftarrow> copy_bytes inp 0 Input 64;
       MD5Update_loop (MD5Transform buf inp) inp (drop 64 Input) (Length - 64)
     } else Some (buf, inp, Input, Length))"

definition MD5Update :: "MD5_CTX \<Rightarrow> uchar list \<Rightarrow> ulong \<Rightarrow> MD5_CTX option" where
  "MD5Update Context Input Length = (let
       t = md5_i0 Context;
       (i0, i1) = MD5Update_count (md5_i0 Context, md5_i1 Context) Length;
       Context = Context\<lparr>md5_i0 := i0, md5_i1 := i1\<rparr>;
       t = drop_bit 3 t AND 0x3f;
       rest = (\<lambda>buf inp Input Length. do {
         (buf, inp, Input, Length) \<leftarrow> MD5Update_loop buf inp Input Length;
         inp \<leftarrow> copy_bytes inp 0 Input (unat Length);
         Some (Context\<lparr>md5_buf := buf, md5_in := inp\<rparr>)
       })
     in if t \<noteq> 0 then
       if Length < 64 - t then do {
         inp \<leftarrow> copy_bytes (md5_in Context) (unat t) Input (unat Length);
         Some (Context\<lparr>md5_in := inp\<rparr>)
       } else do {
         inp \<leftarrow> copy_bytes (md5_in Context) (unat t) Input (unat (64 - t));
         rest (MD5Transform (md5_buf Context) inp) inp (drop (unat (64 - t)) Input) (Length - (64 - t))
       }
     else rest (md5_buf Context) (md5_in Context) Input Length)"

text \<open>The last block or two, made in the buffer of the context; the digest is the state in memory.\<close>

definition MD5Final :: "MD5_CTX \<Rightarrow> (uchar list \<times> MD5_CTX) option" where
  "MD5Final Context = (let count = drop_bit 3 (md5_i0 Context) AND 0x3F; p = unat count + 1 in do {
       inp \<leftarrow> fill_bytes (md5_in Context) (unat count) 0x80 1;
       let count = 64 - 1 - count;
       (buf, inp) \<leftarrow> (if count < 8 then do {
           inp \<leftarrow> fill_bytes inp p 0 (unat count);
           let buf = MD5Transform (md5_buf Context) inp;
           inp \<leftarrow> fill_bytes inp 0 0 56;
           Some (buf, inp)
         } else do {
           inp \<leftarrow> fill_bytes inp p 0 (unat (count - 8));
           Some (md5_buf Context, inp)
         });
       inp \<leftarrow> copy_bytes inp 56 (le_bytes (md5_i0 Context) @ le_bytes (md5_i1 Context)) 8;
       (case MD5Transform buf inp of (a, b, c, d) \<Rightarrow>
         Some (concat (map le_bytes [a, b, c, d]), Context\<lparr>md5_buf := (a, b, c, d), md5_in := inp\<rparr>))
     })"

section \<open>RFC 1321\<close>

definition md5_F :: "nat \<Rightarrow> ulong \<Rightarrow> ulong \<Rightarrow> ulong \<Rightarrow> ulong" where
  "md5_F i x y z = (if i < 16 then (x AND y) OR (NOT x AND z)
     else if i < 32 then (x AND z) OR (y AND NOT z)
     else if i < 48 then x XOR y XOR z
     else y XOR (x OR NOT z))"

definition md5_word :: "nat \<Rightarrow> nat" where
  "md5_word i = (if i < 16 then i else if i < 32 then (5 * i + 1) mod 16 else if i < 48 then (3 * i + 5) mod 16
     else 7 * i mod 16)"

definition md5_shift :: "nat \<Rightarrow> nat" where
  "md5_shift i = (if i < 16 then [7, 12, 17, 22] else if i < 32 then [5, 9, 14, 20] else if i < 48 then [4, 11, 16, 23]
     else [6, 10, 15, 21]) ! (i mod 4)"

definition md5_T :: "ulong list" where
  "md5_T = [
    0xd76aa478, 0xe8c7b756, 0x242070db, 0xc1bdceee, 0xf57c0faf, 0x4787c62a, 0xa8304613, 0xfd469501,
    0x698098d8, 0x8b44f7af, 0xffff5bb1, 0x895cd7be, 0x6b901122, 0xfd987193, 0xa679438e, 0x49b40821,
    0xf61e2562, 0xc040b340, 0x265e5a51, 0xe9b6c7aa, 0xd62f105d, 0x02441453, 0xd8a1e681, 0xe7d3fbc8,
    0x21e1cde6, 0xc33707d6, 0xf4d50d87, 0x455a14ed, 0xa9e3e905, 0xfcefa3f8, 0x676f02d9, 0x8d2a4c8a,
    0xfffa3942, 0x8771f681, 0x6d9d6122, 0xfde5380c, 0xa4beea44, 0x4bdecfa9, 0xf6bb4b60, 0xbebfbc70,
    0x289b7ec6, 0xeaa127fa, 0xd4ef3085, 0x04881d05, 0xd9d4d039, 0xe6db99e5, 0x1fa27cf8, 0xc4ac5665,
    0xf4292244, 0x432aff97, 0xab9423a7, 0xfc93a039, 0x655b59c3, 0x8f0ccc92, 0xffeff47d, 0x85845dd1,
    0x6fa87e4f, 0xfe2ce6e0, 0xa3014314, 0x4e0811a1, 0xf7537e82, 0xbd3af235, 0x2ad7d2bb, 0xeb86d391]"

fun md5_round :: "ulong list \<Rightarrow> nat \<Rightarrow> md5_regs \<Rightarrow> md5_regs" where
  "md5_round X i (a, b, c, d) = (d, b + word_rotl (md5_shift i) (a + md5_F i b c d + X ! md5_word i + md5_T ! i), b, c)"

definition md5_compress :: "md5_regs \<Rightarrow> uchar list \<Rightarrow> md5_regs" where
  "md5_compress H block = MD5_add H (fold (md5_round (le_words block)) [0..<64] H)"

definition md5 :: "uchar list \<Rightarrow> uchar list" where
  "md5 m = (case absorb md5_compress (0x67452301, 0xefcdab89, 0x98badcfe, 0x10325476)
       (pad64 m (le_bytes (of_nat (8 * length m)) @ le_bytes (of_nat (8 * length m div 2 ^ 32)))) of
     (a, b, c, d) \<Rightarrow> concat (map le_bytes [a, b, c, d]))"

section \<open>The steps implement it\<close>

lemma F_md5:
  "i < 16 \<Longrightarrow> F1 = md5_F i" "16 \<le> i \<Longrightarrow> i < 32 \<Longrightarrow> F2 = md5_F i" "32 \<le> i \<Longrightarrow> i < 48 \<Longrightarrow> F3 = md5_F i" "48 \<le> i \<Longrightarrow> F4 = md5_F i"
  by (intro ext bit_word_eqI; auto simp: F1_def F2_def F3_def F4_def md5_F_def bit_simps)+

lemma MD5_steps_rfc: "MD5_steps = map (\<lambda>i. (md5_F i, md5_word i, md5_T ! i, md5_shift i)) [0..<64]"
proof -
  have "[0..<64] = [0..<16] @ [16..<32] @ [32..<48] @ [48..<64]" by (simp add: upt_rec)
  moreover have rep: "map md5_F [a..<b] = replicate (b - a) F" if "\<And>i. a \<le> i \<Longrightarrow> i < b \<Longrightarrow> F = md5_F i" for a b F
    by (intro nth_equalityI) (simp_all add: that [THEN sym])
  have "map md5_F [0..<16] = replicate (16 - 0) F1" by (rule rep) (simp add: F_md5)
  moreover have "map md5_F [16..<32] = replicate (32 - 16) F2" by (rule rep) (simp add: F_md5)
  moreover have "map md5_F [32..<48] = replicate (48 - 32) F3" by (rule rep) (simp add: F_md5)
  moreover have "map md5_F [48..<64] = replicate (64 - 48) F4" by (rule rep) (simp add: F_md5)
  ultimately have "map md5_F [0..<64] = replicate (16 - 0) F1 @ replicate (32 - 16) F2 @ replicate (48 - 32) F3 @ replicate (64 - 48) F4"
    by (simp only: map_append)
  moreover have "map fst MD5_steps = replicate (16 - 0) F1 @ replicate (32 - 16) F2 @ replicate (48 - 32) F3 @ replicate (64 - 48) F4"
    by (simp add: MD5_steps_def eval_nat_numeral)
  ultimately have f: "map fst MD5_steps = map md5_F [0..<64]" by (simp only:)
  have g: "map snd MD5_steps = map (\<lambda>i. (md5_word i, md5_T ! i, md5_shift i)) [0..<64]"
    by (simp add: MD5_steps_def md5_word_def md5_T_def md5_shift_def upt_rec)
  have "MD5_steps = zip (map fst MD5_steps) (map snd MD5_steps)" by (rule zip_map_fst_snd [symmetric])
  also have "\<dots> = map (\<lambda>i. (md5_F i, md5_word i, md5_T ! i, md5_shift i)) [0..<64]"
    unfolding f g by (simp add: zip_map_map zip_same_conv_map)
  finally show ?thesis .
qed

lemma MD5Transform_compress: "MD5Transform H block = md5_compress H block"
proof -
  have "(\<lambda>i. MD5STEP X (md5_F i, md5_word i, md5_T ! i, md5_shift i)) = md5_round X" for X
    by (intro ext) (auto simp: Let_def algebra_simps)
  then show ?thesis by (simp add: MD5Transform_def md5_compress_def MD5_steps_rfc fold_map o_def)
qed

section \<open>The context implements it\<close>

abbreviation (input) md5_start :: md5_regs where
  "md5_start \<equiv> (0x67452301, 0xefcdab89, 0x98badcfe, 0x10325476)"

definition md5_stands :: "uchar list \<Rightarrow> MD5_CTX \<Rightarrow> bool" where
  "md5_stands m Context \<longleftrightarrow> absorbed md5_compress md5_start m (md5_buf Context) (md5_in Context)
     \<and> md5_i0 Context = of_nat (8 * length m) \<and> md5_i1 Context = of_nat (8 * length m div 2 ^ 32)"

lemma MD5Update_count_correct:
  assumes "Length < 2 ^ 32"
  shows "MD5Update_count (of_nat (8 * n), of_nat (8 * n div 2 ^ 32)) (of_nat Length)
    = (of_nat (8 * (n + Length)), of_nat (8 * (n + Length) div 2 ^ 32))"
proof -
  have L: "unat (of_nat Length :: ulong) = Length" by (rule unat_of_nat_ulong) (use assms in simp)
  have "8 * Length div 2 ^ 32 = Length div 2 ^ 29" by simp
  then have hi: "drop_bit 29 (of_nat Length :: ulong) = of_nat (8 * Length div 2 ^ 32)"
    using assms by (simp only: word_unat_eq_iff unat_drop_bit L)
      (subst unat_of_nat_ulong, simp_all add: order.strict_trans1 [OF div_le_dividend])
  have lo: "of_nat (8 * n) + push_bit 3 (of_nat Length) = (of_nat (8 * n + 8 * Length) :: ulong)"
    by (simp add: push_bit_eq_mult)
  have e: "8 * (n + Length) = 8 * n + 8 * Length" by simp
  show ?thesis
    unfolding MD5Update_count_def Let_def fst_conv snd_conv lo hi e carry_add [of "8 * n" "8 * Length"]
    by (cases "(of_nat (8 * n + 8 * Length) :: ulong) < of_nat (8 * n)")
      (simp_all only: if_True if_False of_nat_add of_nat_1 of_nat_0 add_0_right add_0_left ac_simps)
qed

lemma MD5Update_loop_correct:
  assumes "length inp = 64" "length Input < 2 ^ 32"
  shows "\<exists>B. MD5Update_loop buf inp Input (of_nat (length Input))
      = Some (absorb md5_compress buf Input, B, rest64 Input, of_nat (length (rest64 Input))) \<and> length B = 64"
  using assms
proof (induction "length Input" arbitrary: buf inp Input rule: less_induct)
  case less
  let ?L = "of_nat (length Input) :: ulong"
  have L: "unat ?L = length Input" by (rule unat_of_nat_ulong) (use less.prems(2) in simp)
  show ?case
  proof (cases "64 \<le> length Input")
    case False
    then have "\<not> ?L \<ge> 64" using L by (simp add: word_le_nat_alt)
    then show ?thesis using less.prems False
      by (subst MD5Update_loop.simps) (simp add: absorb_short rest64_short)
  next
    case True
    then have ge: "?L \<ge> 64" using L by (simp add: word_le_nat_alt)
    have c: "copy_bytes inp 0 Input 64 = Some (take 64 Input)"
      using True less.prems(1) by (simp add: copy_bytes_def overwrite_def)
    have sub: "?L - 64 = of_nat (length (drop 64 Input))"
      using ge True less.prems(2) by (simp add: word_unat_eq_iff unat_minus_exact L unat_of_nat_ulong)
    have "\<exists>B. MD5Update_loop (md5_compress buf (take 64 Input)) (take 64 Input) (drop 64 Input) (of_nat (length (drop 64 Input)))
      = Some (absorb md5_compress (md5_compress buf (take 64 Input)) (drop 64 Input), B, rest64 (drop 64 Input),
          of_nat (length (rest64 (drop 64 Input)))) \<and> length B = 64"
      by (rule less.hyps) (use True less.prems(2) in simp_all)
    then obtain B where B: "MD5Update_loop (md5_compress buf (take 64 Input)) (take 64 Input) (drop 64 Input) (of_nat (length (drop 64 Input)))
      = Some (absorb md5_compress (md5_compress buf (take 64 Input)) (drop 64 Input), B, rest64 (drop 64 Input),
          of_nat (length (rest64 (drop 64 Input))))" "length B = 64" by blast
    show ?thesis
      unfolding absorb_long [OF True] rest64_long [OF True, symmetric]
      using B ge c sub by (subst MD5Update_loop.simps) (simp add: MD5Transform_compress)
  qed
qed

lemma bit_count: "unat (drop_bit 3 (of_nat (8 * n)) AND 0x3f :: ulong) = n mod 64"
proof -
  have m: "0x3f = (mask 6 :: ulong)" by (simp add: mask_eq_exp_minus_1)
  have "unat (take_bit 6 w) = unat w mod 64" for w :: ulong
    by (simp only: unsigned_take_bit_eq) (simp add: take_bit_eq_mod)
  moreover have "unat (drop_bit 3 (of_nat (8 * n)) :: ulong) = 8 * n mod 2 ^ 32 div 2 ^ 3"
    unfolding unat_drop_bit by (simp only: unat_of_nat) (simp add: take_bit_eq_mod)
  moreover have "8 * n mod 2 ^ 32 div 2 ^ 3 = n mod 2 ^ 29"
  proof -
    have "8 * n mod 2 ^ 32 = 8 * (n mod 2 ^ 29)" using mult_mod_right [of 8 n "2 ^ 29"] by simp
    then show ?thesis by simp
  qed
  moreover have "n mod 2 ^ 29 mod 64 = n mod 64" by (simp add: mod_mod_cancel)
  ultimately show ?thesis unfolding m by (simp only: take_bit_eq_mask [symmetric])
qed

text \<open>What is left after the first block goes on like a context with an empty buffer.\<close>

lemma MD5Update_rest:
  assumes "length inp = 64" "length x < 2 ^ 32"
  shows "\<exists>B. do {
      (buf, inp, Input, Length) \<leftarrow> MD5Update_loop buf inp x (of_nat (length x));
      inp \<leftarrow> copy_bytes inp 0 Input (unat Length);
      Some (Context\<lparr>md5_buf := buf, md5_in := inp\<rparr>) }
    = Some (Context\<lparr>md5_buf := absorb md5_compress buf x, md5_in := B\<rparr>)
    \<and> length B = 64 \<and> take (length (rest64 x)) B = rest64 x"
proof -
  obtain B where B: "MD5Update_loop buf inp x (of_nat (length x))
      = Some (absorb md5_compress buf x, B, rest64 x, of_nat (length (rest64 x)))" "length B = 64"
    using MD5Update_loop_correct [OF assms] by blast
  have r: "length (rest64 x) < 64" by (simp add: length_rest64)
  then have u: "unat (of_nat (length (rest64 x)) :: ulong) = length (rest64 x)" by (intro unat_of_nat_ulong) simp
  have c: "copy_bytes B 0 (rest64 x) (length (rest64 x)) = Some (overwrite 0 (rest64 x) B)"
    using r B(2) by (simp add: copy_bytes_def)
  show ?thesis
    by (rule exI [of _ "overwrite 0 (rest64 x) B"]) (use B(2) r in \<open>simp add: B(1) u c overwrite_def\<close>)
qed

lemma MD5Update_stands:
  assumes "md5_stands m c" "length x < 2 ^ 32"
  shows "\<exists>c'. MD5Update c x (of_nat (length x)) = Some c' \<and> md5_stands (m @ x) c'"
proof -
  have a: "absorbed md5_compress md5_start m (md5_buf c) (md5_in c)" "md5_i0 c = of_nat (8 * length m)"
    "md5_i1 c = of_nat (8 * length m div 2 ^ 32)"
    using assms(1) by (simp_all add: md5_stands_def)
  let ?t = "drop_bit 3 (md5_i0 c) AND 0x3f" and ?L = "of_nat (length x) :: ulong" and ?n = "length (m @ x)"
  have t: "unat ?t = length m mod 64" unfolding a(2) by (rule bit_count)
  have tlt: "length m mod 64 < 64" by simp
  have L: "unat ?L = length x" using assms(2) by (rule unat_of_nat_ulong)
  have li: "length (md5_in c) = 64" using a(1) by (simp add: absorbed_def)
  have cnt: "MD5Update_count (md5_i0 c, md5_i1 c) ?L = (of_nat (8 * ?n), of_nat (8 * ?n div 2 ^ 32))"
    unfolding a(2,3) MD5Update_count_correct [OF assms(2)] by (simp only: length_append)
  let ?c = "c\<lparr>md5_i0 := of_nat (8 * ?n), md5_i1 := of_nat (8 * ?n div 2 ^ 32)\<rparr>"
  have ready: "md5_stands (m @ x) (?c\<lparr>md5_buf := buf, md5_in := B\<rparr>)"
    if "absorbed md5_compress md5_start (m @ x) buf B" for buf B
    using that by (simp add: md5_stands_def)
  have k: "unat (64 - ?t) = 64 - length m mod 64" using t by (subst unat_minus_exact) (simp_all add: word_le_nat_alt)
  consider "?t = 0" | "?t \<noteq> 0" "?L < 64 - ?t" | "?t \<noteq> 0" "\<not> ?L < 64 - ?t" by blast
  then show ?thesis
  proof cases
    case 1
    then have z: "length m mod 64 = 0" using t by simp
    obtain B where B: "do {
        (buf, inp, Input, Length) \<leftarrow> MD5Update_loop (md5_buf c) (md5_in c) x ?L;
        inp \<leftarrow> copy_bytes inp 0 Input (unat Length);
        Some (?c\<lparr>md5_buf := buf, md5_in := inp\<rparr>) }
      = Some (?c\<lparr>md5_buf := absorb md5_compress (md5_buf c) x, md5_in := B\<rparr>)"
      "length B = 64" "take (length (rest64 x)) B = rest64 x"
      using MD5Update_rest [OF li assms(2)] by blast
    have "absorbed md5_compress md5_start (m @ x) (absorb md5_compress (md5_buf c) x) B"
      using B(2,3) z by (intro absorbed_more [OF a(1)]) (simp_all add: length_rest64)
    moreover have "MD5Update c x ?L = Some (?c\<lparr>md5_buf := absorb md5_compress (md5_buf c) x, md5_in := B\<rparr>)"
      unfolding MD5Update_def Let_def cnt using 1 B(1) by simp
    ultimately show ?thesis using ready by blast
  next
    case 2
    then have lt: "length m mod 64 + length x < 64" using k L by (simp add: word_less_nat_alt)
    let ?B = "overwrite (length m mod 64) x (md5_in c)"
    have c: "copy_bytes (md5_in c) (unat ?t) x (unat ?L) = Some ?B" using lt t L li by (simp add: copy_bytes_def)
    have "absorbed md5_compress md5_start (m @ x) (md5_buf c) ?B"
      using lt li by (intro absorbed_more [OF a(1)]) (simp_all add: absorb_short rest64_short overwrite_def)
    then have "md5_stands (m @ x) (?c\<lparr>md5_in := ?B\<rparr>)" by (simp add: md5_stands_def)
    moreover have "MD5Update c x ?L = Some (?c\<lparr>md5_in := ?B\<rparr>)"
      using 2 c by (simp add: MD5Update_def Let_def cnt)
    ultimately show ?thesis by blast
  next
    case 3
    let ?k = "64 - length m mod 64"
    have ge: "?k \<le> length x" using 3(2) k L by (simp add: word_less_nat_alt)
    let ?b = "take (length m mod 64) (md5_in c) @ take ?k x" and ?x = "drop ?k x"
    have lb: "length ?b = 64" using ge li by simp
    have c: "copy_bytes (md5_in c) (unat ?t) x ?k = Some ?b"
      using ge li tlt t by (simp add: copy_bytes_def overwrite_def)
    have "unat (?L - (64 - ?t)) = length ?x" using ge k L by (subst unat_minus_exact) (simp_all add: word_le_nat_alt)
    then have sub: "?L - (64 - ?t) = of_nat (length ?x)" by (rule of_nat_unatI)
    have lx: "length ?x < 2 ^ 32" using assms(2) unfolding length_drop by linarith
    obtain B where B: "do {
        (buf, inp, Input, Length) \<leftarrow> MD5Update_loop (MD5Transform (md5_buf c) ?b) ?b ?x (of_nat (length ?x));
        inp \<leftarrow> copy_bytes inp 0 Input (unat Length);
        Some (?c\<lparr>md5_buf := buf, md5_in := inp\<rparr>) }
      = Some (?c\<lparr>md5_buf := absorb md5_compress (MD5Transform (md5_buf c) ?b) ?x, md5_in := B\<rparr>)"
      "length B = 64" "take (length (rest64 ?x)) B = rest64 ?x"
      using MD5Update_rest [OF lb lx] by blast
    have all: "take (length m mod 64) (md5_in c) @ x = ?b @ ?x" by simp
    have abs: "absorb md5_compress (md5_buf c) (?b @ ?x) = absorb md5_compress (MD5Transform (md5_buf c) ?b) ?x"
      unfolding MD5Transform_compress by (rule absorb_block [OF lb])
    have r: "rest64 (?b @ ?x) = rest64 ?x" using rest64_long [of "?b @ ?x"] lb by simp
    have "(length m mod 64 + length x) mod 64 = length (rest64 ?x)"
      unfolding r [symmetric] length_rest64 all [symmetric] using li tlt by simp
    then have "absorbed md5_compress md5_start (m @ x) (absorb md5_compress (MD5Transform (md5_buf c) ?b) ?x) B"
      using B(2,3) by (intro absorbed_more [OF a(1)]) (simp_all only: all abs r)
    moreover have "MD5Update c x ?L = Some (?c\<lparr>md5_buf := absorb md5_compress (MD5Transform (md5_buf c) ?b) ?x, md5_in := B\<rparr>)"
      unfolding MD5Update_def Let_def cnt using 3 B(1) c k sub by simp
    ultimately show ?thesis using ready by blast
  qed
qed

section \<open>The last blocks\<close>

lemma fill_bytes_Some: "off + n \<le> length buf \<Longrightarrow> fill_bytes buf off b n = Some (take off buf @ replicate n b @ drop (off + n) buf)"
  by (simp add: fill_bytes_def copy_bytes_def overwrite_def)

lemma copy_len: "length Y = 56 \<Longrightarrow> length Z = 8 \<Longrightarrow> length l = 8 \<Longrightarrow> copy_bytes (Y @ Z) 56 l 8 = Some (Y @ l)"
  by (simp add: copy_bytes_def overwrite_def)

lemma md5_final:
  assumes "md5_stands m c"
  shows "\<exists>c'. MD5Final c = Some (md5 m, c')"
proof -
  have a: "absorbed md5_compress md5_start m (md5_buf c) (md5_in c)" "md5_i0 c = of_nat (8 * length m)"
    "md5_i1 c = of_nat (8 * length m div 2 ^ 32)"
    using assms(1) by (simp_all add: md5_stands_def)
  let ?t = "drop_bit 3 (md5_i0 c) AND 0x3F" and ?r = "length m mod 64"
  let ?len = "le_bytes (md5_i0 c) @ le_bytes (md5_i1 c)"
  have t: "unat ?t = ?r" unfolding a(2) by (rule bit_count)
  have tlt: "?r < 64" by simp
  have li: "length (md5_in c) = 64" and front: "take ?r (md5_in c) = rest64 m" and H: "md5_buf c = absorb md5_compress md5_start m"
    using a(1) by (simp_all add: absorbed_def)
  have lr: "length (rest64 m) = ?r" by (simp add: length_rest64)
  obtain A where A: "absorb md5_compress md5_start (pad64 m ?len) = A" by blast
  have all: "A = absorb md5_compress (md5_buf c) (rest64 m @ 0x80 # replicate (padding (length m) - 1) 0 @ ?len)"
    unfolding A [symmetric] pad64_def absorb_append [of _ _ m] H ..
  have dig: "md5 m = (case A of (a, b, c, d) \<Rightarrow> concat (map le_bytes [a, b, c, d]))"
    unfolding md5_def A [symmetric] a(2,3) ..
  let ?D = "drop (?r + 1) (md5_in c)"
  have f1: "fill_bytes (md5_in c) ?r 0x80 1 = Some (rest64 m @ [0x80] @ ?D)"
    using li tlt front by (simp add: fill_bytes_Some)
  have k: "unat (64 - 1 - ?t) = 63 - ?r"
    using t tlt by (subst unat_minus_exact) (simp_all add: word_le_nat_alt)
  have k8: "64 - 1 - ?t < 8 \<longleftrightarrow> 56 \<le> ?r" unfolding word_less_nat_alt k using tlt by auto
  have "\<exists>I. MD5Final c = Some (md5 m, I)"
  proof (cases "56 \<le> ?r")
    case True
    let ?b1 = "rest64 m @ [0x80] @ replicate (63 - ?r) 0"
    have l1: "length ?b1 = 64" using lr tlt by simp
    have f2: "fill_bytes (rest64 m @ [0x80] @ ?D) (?r + 1) 0 (63 - ?r) = Some ?b1"
      using lr li tlt by (subst fill_bytes_Some) simp_all
    have f3: "fill_bytes ?b1 0 0 56 = Some (replicate 56 0 @ drop 56 ?b1)" using l1 by (subst fill_bytes_Some) simp_all
    have f4: "copy_bytes (replicate 56 0 @ drop 56 ?b1) 56 ?len 8 = Some (replicate 56 0 @ ?len)"
      by (rule copy_len) (use l1 in \<open>simp_all only: length_replicate length_drop length_append length_le_bytes\<close>)
    have p: "padding (length m) - 1 = (63 - ?r) + 56" using True tlt by (simp add: padding_def)
    have split: "rest64 m @ 0x80 # replicate (padding (length m) - 1) 0 @ ?len = ?b1 @ (replicate 56 0 @ ?len)"
      unfolding p replicate_add by simp
    have l2: "length (replicate 56 0 @ ?len) = 64" by simp
    have "A = md5_compress (md5_compress (md5_buf c) ?b1) (replicate 56 0 @ ?len)"
      unfolding all split absorb_block [OF l1] using absorb_block [OF l2, of _ _ "[]"] by (simp add: absorb_short)
    then show ?thesis
      unfolding MD5Final_def Let_def t f1 bind.bind_lunit k if_P [OF k8 [THEN iffD2, OF True]] f2 f3 prod.case f4 MD5Transform_compress dig
      by (simp split: prod.split)
  next
    case False
    then have nk: "\<not> 64 - 1 - ?t < 8" using k8 by simp
    let ?b = "rest64 m @ [0x80] @ replicate (55 - ?r) 0"
    have f2: "fill_bytes (rest64 m @ [0x80] @ ?D) (?r + 1) 0 (55 - ?r) = Some (?b @ drop (55 - ?r) ?D)"
      using lr li False Suc_diff_le [of ?r 55] by (subst fill_bytes_Some) simp_all
    have f4: "copy_bytes (?b @ drop (55 - ?r) ?D) 56 ?len 8 = Some (?b @ ?len)"
      by (rule copy_len) (use lr li False in simp_all)
    have k55: "unat (64 - 1 - ?t - 8) = 55 - ?r"
      using k False by (subst unat_minus_exact) (simp_all add: word_le_nat_alt)
    have p: "padding (length m) - 1 = 55 - ?r" using False by (simp add: padding_def)
    have l2: "length (?b @ ?len) = 64" using lr False by simp
    have "A = md5_compress (md5_buf c) (?b @ ?len)"
      unfolding all p using absorb_block [OF l2, of _ _ "[]"] by (simp add: absorb_short)
    then show ?thesis
      unfolding MD5Final_def Let_def t f1 bind.bind_lunit if_not_P [OF nk] k55 f2 prod.case f4 MD5Transform_compress dig
      by (simp split: prod.split)
  qed
  then show ?thesis .
qed

lemma md5_init: "length (md5_in c) = 64 \<Longrightarrow> md5_stands [] (MD5Init c)"
  by (simp add: md5_stands_def MD5Init_def absorbed_start)

interpretation md5_stream: hash_stream "MD5Init \<lparr>md5_i0 = 0, md5_i1 = 0, md5_buf = md5_start, md5_in = replicate 64 0\<rparr>"
    "\<lambda>c x. MD5Update c x (of_nat (length x))" MD5Final md5 md5_stands "2 ^ 32 - 1" "2 ^ 61"
proof
  show "md5_stands m c \<Longrightarrow> length x \<le> 2 ^ 32 - 1 \<Longrightarrow> \<exists>c'. MD5Update c x (of_nat (length x)) = Some c' \<and> md5_stands (m @ x) c'" for m c x
    by (rule MD5Update_stands) auto
qed (simp_all add: md5_init md5_final)

end
