(* ===== verification/Sha1.thy ===== *)
theory Sha1
  imports HashBlocks
begin

text \<open>
  SHA-1 of \<open>phlib/sha.c\<close>: the unrolled rounds, which keep the message schedule in the sixteen words
  of the block, the context, and the algorithm of FIPS 180 they implement.
\<close>

unbundle bit_operations_syntax

section \<open>The rounds\<close>

definition rol :: "ulong \<Rightarrow> nat \<Rightarrow> ulong" where "rol value bits = word_rotl bits value"

definition DWORD2BE :: "ulong \<Rightarrow> ulong" where
  "DWORD2BE x = (drop_bit 24 x AND 0xff) OR (drop_bit 8 x AND 0xff00) OR (push_bit 8 x AND 0xff0000)
     OR (push_bit 24 x AND 0xff000000)"

definition blk0 :: "nat \<Rightarrow> ulong list \<Rightarrow> ulong \<times> ulong list" where
  "blk0 i Block = (let x = (rol (Block ! i) 24 AND 0xFF00FF00) OR (rol (Block ! i) 8 AND 0x00FF00FF)
     in (x, Block[i := x]))"

definition blk1 :: "nat \<Rightarrow> ulong list \<Rightarrow> ulong \<times> ulong list" where
  "blk1 i Block = (let x = rol (Block ! ((i + 13) AND 15) XOR Block ! ((i + 8) AND 15) XOR Block ! ((i + 2) AND 15)
       XOR Block ! (i AND 15)) 1
     in (x, Block[i AND 15 := x]))"

definition f1 :: "ulong \<Rightarrow> ulong \<Rightarrow> ulong \<Rightarrow> ulong" where "f1 x y z = z XOR (x AND (y XOR z))"
definition f2 :: "ulong \<Rightarrow> ulong \<Rightarrow> ulong \<Rightarrow> ulong" where "f2 x y z = x XOR y XOR z"
definition f3 :: "ulong \<Rightarrow> ulong \<Rightarrow> ulong \<Rightarrow> ulong" where "f3 x y z = (x AND y) OR (z AND (x OR y))"
definition f4 :: "ulong \<Rightarrow> ulong \<Rightarrow> ulong \<Rightarrow> ulong" where "f4 x y z = x XOR y XOR z"

type_synonym sha_regs = "ulong \<times> ulong \<times> ulong \<times> ulong \<times> ulong"

text \<open>
  The operations \<open>R0\<close> to \<open>R4\<close>.  The next operation of the unrolled loop takes the variables one place
  further on, which the result says by the order of its components.
\<close>

fun SHA_R :: "(ulong \<Rightarrow> ulong \<Rightarrow> ulong \<Rightarrow> ulong) \<Rightarrow> (nat \<Rightarrow> ulong list \<Rightarrow> ulong \<times> ulong list) \<Rightarrow> ulong \<Rightarrow> nat
    \<Rightarrow> sha_regs \<times> ulong list \<Rightarrow> sha_regs \<times> ulong list" where
  "SHA_R f blk K i ((v, w, x, y, z), Block) =
     (let (X, Block) = blk i Block;
          z = z + (f w x y + X + K + rol v 5);
          w = rol w 30
      in ((z, v, w, x, y), Block))"

definition R0 :: "nat \<Rightarrow> sha_regs \<times> ulong list \<Rightarrow> sha_regs \<times> ulong list" where "R0 = SHA_R f1 blk0 0x5A827999"
definition R1 :: "nat \<Rightarrow> sha_regs \<times> ulong list \<Rightarrow> sha_regs \<times> ulong list" where "R1 = SHA_R f1 blk1 0x5A827999"
definition R2 :: "nat \<Rightarrow> sha_regs \<times> ulong list \<Rightarrow> sha_regs \<times> ulong list" where "R2 = SHA_R f2 blk1 0x6ED9EBA1"
definition R3 :: "nat \<Rightarrow> sha_regs \<times> ulong list \<Rightarrow> sha_regs \<times> ulong list" where "R3 = SHA_R f3 blk1 0x8F1BBCDC"
definition R4 :: "nat \<Rightarrow> sha_regs \<times> ulong list \<Rightarrow> sha_regs \<times> ulong list" where "R4 = SHA_R f4 blk1 0xCA62C1D6"

fun SHA_add :: "sha_regs \<Rightarrow> sha_regs \<Rightarrow> sha_regs" where
  "SHA_add (s0, s1, s2, s3, s4) (a, b, c, d, e) = (s0 + a, s1 + b, s2 + c, s3 + d, s4 + e)"

definition SHATransform :: "sha_regs \<Rightarrow> uchar list \<Rightarrow> sha_regs \<times> uchar list" where
  "SHATransform State Buffer =
     (let Block = le_words Buffer;
          (regs, Block) = fold R4 [60..<80] (fold R3 [40..<60] (fold R2 [20..<40] (fold R1 [16..<20]
            (fold R0 [0..<16] (State, Block)))))
      in (SHA_add State regs, concat (map le_bytes Block)))"

section \<open>The context\<close>

record A_SHA_CTX =
  sha_state :: sha_regs
  sha_count0 :: ulong
  sha_count1 :: ulong
  sha_buffer :: "uchar list"

text \<open>Initialization leaves the buffer as it is.\<close>

definition A_SHAInit :: "A_SHA_CTX \<Rightarrow> A_SHA_CTX" where
  "A_SHAInit Context = Context\<lparr>sha_state := (0x67452301, 0xEFCDAB89, 0x98BADCFE, 0x10325476, 0xC3D2E1F0),
     sha_count0 := 0, sha_count1 := 0\<rparr>"

partial_function (option) A_SHAUpdate_loop ::
    "sha_regs \<Rightarrow> uchar list \<Rightarrow> ulong \<Rightarrow> uchar list \<Rightarrow> ulong \<Rightarrow> (sha_regs \<times> uchar list \<times> ulong \<times> uchar list \<times> ulong) option" where
  "A_SHAUpdate_loop State Buffer InputContentSize Input Length = (
     if InputContentSize + Length \<ge> 64 then do {
       Buffer \<leftarrow> copy_bytes Buffer (unat InputContentSize) Input (unat (64 - InputContentSize));
       let (State, Buffer) = SHATransform State Buffer in
         A_SHAUpdate_loop State Buffer 0 (drop (unat (64 - InputContentSize)) Input) (Length - (64 - InputContentSize))
     } else Some (State, Buffer, InputContentSize, Input, Length))"

definition A_SHAUpdate_count :: "ulong \<times> ulong \<Rightarrow> ulong \<Rightarrow> ulong \<times> ulong" where
  "A_SHAUpdate_count count Length = (let
       count1 = snd count + Length;
       count0 = (if count1 < Length then fst count + 1 else fst count) + drop_bit 29 Length
     in (count0, count1))"

definition A_SHAUpdate :: "A_SHA_CTX \<Rightarrow> uchar list \<Rightarrow> ulong \<Rightarrow> A_SHA_CTX option" where
  "A_SHAUpdate Context Input Length = (let
       InputContentSize = sha_count1 Context AND 63;
       (count0, count1) = A_SHAUpdate_count (sha_count0 Context, sha_count1 Context) Length;
       Context = Context\<lparr>sha_count0 := count0, sha_count1 := count1\<rparr>
     in if InputContentSize + Length < 64 then do {
       Buffer \<leftarrow> copy_bytes (sha_buffer Context) (unat InputContentSize) Input (unat Length);
       Some (Context\<lparr>sha_buffer := Buffer\<rparr>)
     } else do {
       (State, Buffer, InputContentSize, Input, Length) \<leftarrow>
         A_SHAUpdate_loop (sha_state Context) (sha_buffer Context) InputContentSize Input Length;
       Buffer \<leftarrow> copy_bytes Buffer (unat InputContentSize) Input (unat Length);
       Some (Context\<lparr>sha_state := State, sha_buffer := Buffer\<rparr>)
     })"

text \<open>The padding, with the length in bits as two words in network order.\<close>

definition A_SHAFinal_Pad :: "ulong \<Rightarrow> ulong" where
  "A_SHAFinal_Pad BufferContentSize =
     (if BufferContentSize \<ge> 56 then 56 + 64 - BufferContentSize else 56 - BufferContentSize)"

definition A_SHAFinal :: "A_SHA_CTX \<Rightarrow> (uchar list \<times> A_SHA_CTX) option" where
  "A_SHAFinal Context = (let
       Pad = A_SHAFinal_Pad (sha_count1 Context AND 63);
       LengthHi = push_bit 3 (sha_count0 Context) OR drop_bit (32 - 3) (sha_count1 Context);
       LengthLo = push_bit 3 (sha_count1 Context);
       Buffer = 0x80 # replicate (unat (Pad - 1)) 0 @ le_bytes (DWORD2BE LengthHi) @ le_bytes (DWORD2BE LengthLo)
     in do {
       Context \<leftarrow> A_SHAUpdate Context Buffer (Pad + 8);
       (case sha_state Context of (s0, s1, s2, s3, s4) \<Rightarrow>
         Some (concat (map (\<lambda>w. le_bytes (DWORD2BE w)) [s0, s1, s2, s3, s4]), A_SHAInit Context))
     })"

section \<open>FIPS 180\<close>

fun sha1_W :: "ulong list \<Rightarrow> nat \<Rightarrow> ulong" where
  "sha1_W M t = (if t < 16 then M ! t
     else word_rotl 1 (sha1_W M (t - 3) XOR sha1_W M (t - 8) XOR sha1_W M (t - 14) XOR sha1_W M (t - 16)))"

declare sha1_W.simps [simp del]

definition sha1_f :: "nat \<Rightarrow> ulong \<Rightarrow> ulong \<Rightarrow> ulong \<Rightarrow> ulong" where
  "sha1_f t = (if t < 20 then Ch else if t < 40 then Parity else if t < 60 then Maj else Parity)"

definition sha1_K :: "nat \<Rightarrow> ulong" where
  "sha1_K t = (if t < 20 then 0x5A827999 else if t < 40 then 0x6ED9EBA1 else if t < 60 then 0x8F1BBCDC else 0xCA62C1D6)"

fun sha1_round :: "ulong list \<Rightarrow> nat \<Rightarrow> sha_regs \<Rightarrow> sha_regs" where
  "sha1_round M t (a, b, c, d, e) =
     (word_rotl 5 a + sha1_f t b c d + e + sha1_K t + sha1_W M t, a, word_rotl 30 b, c, d)"

definition sha1_compress :: "sha_regs \<Rightarrow> uchar list \<Rightarrow> sha_regs" where
  "sha1_compress H block = SHA_add H (fold (sha1_round (be_words block)) [0..<80] H)"

text \<open>The hash of a message that is padded with a length field.\<close>

definition sha1_padded :: "uchar list \<Rightarrow> uchar list \<Rightarrow> uchar list" where
  "sha1_padded m len = (case absorb sha1_compress (0x67452301, 0xEFCDAB89, 0x98BADCFE, 0x10325476, 0xC3D2E1F0) (pad64 m len) of
     (h0, h1, h2, h3, h4) \<Rightarrow> concat (map be_bytes [h0, h1, h2, h3, h4]))"

definition sha1 :: "uchar list \<Rightarrow> uchar list" where
  "sha1 m = sha1_padded m (be_bytes (of_nat (8 * length m div 2 ^ 32)) @ be_bytes (of_nat (8 * length m)))"

section \<open>The rounds implement it\<close>

lemma f1_Ch: "f1 x y z = Ch x y z" "f2 x y z = Parity x y z" "f3 x y z = Maj x y z" "f4 x y z = Parity x y z"
  by (rule bit_word_eqI; auto simp: f1_def f2_def f3_def f4_def Ch_def Parity_def Maj_def bit_simps)+

lemma DWORD2BE_bytes: "le_bytes (DWORD2BE w) = be_bytes w"
proof -
  have m: "0xff = (mask 8 :: ulong)" "0xff00 = (push_bit 8 (mask 8) :: ulong)" "0xff0000 = (push_bit 16 (mask 8) :: ulong)"
    "0xff000000 = (push_bit 24 (mask 8) :: ulong)"
    by (simp_all add: mask_eq_exp_minus_1 push_bit_eq_mult)
  show ?thesis
    unfolding le_bytes_def be_bytes_def DWORD2BE_def m
    by (simp; intro conjI; rule bit_word_eqI; auto simp: bit_simps)
qed

lemma swapped: "(rol (le_word a b c d) 24 AND 0xFF00FF00) OR (rol (le_word a b c d) 8 AND 0x00FF00FF) = be_word a b c d"
  by (rule ulong_eqI) (simp add: rol_def be_word_def le_word_def bit_simps bit_word_rotl_iff bit_byte)

lemma swapped_nth:
  "length block = 64 \<Longrightarrow> t < 16 \<Longrightarrow>
    (rol (le_words block ! t) 24 AND 0xFF00FF00) OR (rol (le_words block ! t) 8 AND 0x00FF00FF) = be_words block ! t"
  by (simp add: le_words_nth be_words_nth swapped)

text \<open>The block holds the last sixteen words of the schedule.\<close>

definition sched0 :: "uchar list \<Rightarrow> nat \<Rightarrow> ulong list \<Rightarrow> bool" where
  "sched0 block t B \<longleftrightarrow> length B = 16 \<and> (\<forall>j < 16. B ! j = (if j < t then be_words block ! j else le_words block ! j))"

definition sched1 :: "uchar list \<Rightarrow> nat \<Rightarrow> ulong list \<Rightarrow> bool" where
  "sched1 block t B \<longleftrightarrow> length B = 16 \<and> (\<forall>j < 16. B ! ((t + j) mod 16) = sha1_W (be_words block) (t - 16 + j))"

lemma sched_switch: "sched0 block 16 B \<Longrightarrow> sched1 block 16 B"
  unfolding sched0_def sched1_def by (simp add: sha1_W.simps)

lemma sched0_step:
  assumes "length block = 64" "sched0 block t B" "t < 16"
  shows "\<exists>B'. blk0 t B = (sha1_W (be_words block) t, B') \<and> sched0 block (Suc t) B'"
proof -
  have B: "length B = 16" "B ! j = (if j < t then be_words block ! j else le_words block ! j)" if "j < 16" for j
    using assms(2) that by (auto simp: sched0_def)
  let ?x = "be_words block ! t"
  have "sha1_W (be_words block) t = ?x" using assms(3) by (simp add: sha1_W.simps)
  then have "blk0 t B = (sha1_W (be_words block) t, B[t := ?x])"
    using B [of t] swapped_nth [OF assms(1,3)] assms(3) by (simp add: blk0_def Let_def)
  moreover have "sched0 block (Suc t) (B[t := ?x])"
    using B B(1) [of 0] by (auto simp: sched0_def nth_list_update less_Suc_eq)
  ultimately show ?thesis by blast
qed

lemma and_mask_15: "n AND 15 = n mod 16" for n :: nat
proof -
  have "15 = (mask 4 :: nat)" by (simp add: mask_eq_exp_minus_1)
  then show ?thesis by (simp only: flip: take_bit_eq_mask) (simp add: take_bit_eq_mod)
qed

lemma sched1_step:
  assumes "sched1 block t B" "16 \<le> t"
  shows "\<exists>B'. blk1 t B = (sha1_W (be_words block) t, B') \<and> sched1 block (Suc t) B'"
proof -
  let ?W = "sha1_W (be_words block)"
  have len: "length B = 16" and B: "B ! ((t + j) mod 16) = ?W (t - 16 + j)" if "j < 16" for j
    using assms(1) that by (auto simp: sched1_def)
  have W: "?W t = word_rotl 1 (?W (t - 16 + 13) XOR ?W (t - 16 + 8) XOR ?W (t - 16 + 2) XOR ?W (t - 16))"
  proof -
    have "t - 16 + 13 = t - 3" "t - 16 + 8 = t - 8" "t - 16 + 2 = t - 14" using assms(2) by simp_all
    then show ?thesis using assms(2) by (subst sha1_W.simps) (simp only: not_less [symmetric] if_False)
  qed
  have "blk1 t B = (?W t, B[t mod 16 := ?W t])"
    using B [of 13] B [of 8] B [of 2] B [of 0] unfolding W by (simp add: blk1_def and_mask_15 rol_def Let_def)
  moreover have "sched1 block (Suc t) (B[t mod 16 := ?W t])"
    unfolding sched1_def
  proof (intro conjI allI impI)
    show "length (B[t mod 16 := ?W t]) = 16" using len [of 0] by simp
    fix j :: nat
    assume j: "j < 16"
    show "B[t mod 16 := ?W t] ! ((Suc t + j) mod 16) = ?W (Suc t - 16 + j)"
    proof (cases "j = 15")
      case True
      then show ?thesis using len [of 0] assms(2) by simp
    next
      case False
      have "(Suc t + j) mod 16 \<noteq> t mod 16"
      proof
        assume "(Suc t + j) mod 16 = t mod 16"
        then have "16 dvd Suc t + j - t" by (subst mod_eq_dvd_iff_nat [symmetric]) simp_all
        then have "16 dvd Suc j" by simp
        then show False using dvd_imp_le [of 16 "Suc j"] j False by simp
      qed
      moreover have e: "t - 16 + Suc j = Suc t - 16 + j" using assms(2) by simp
      moreover have "Suc j < 16" using False j by simp
      from B [OF this] have "B ! ((Suc t + j) mod 16) = ?W (Suc t - 16 + j)" unfolding e by simp
      ultimately show ?thesis by simp
    qed
  qed
  ultimately show ?thesis by blast
qed

definition sha_after :: "bool \<Rightarrow> sha_regs \<Rightarrow> uchar list \<Rightarrow> nat \<Rightarrow> sha_regs \<times> ulong list \<Rightarrow> bool" where
  "sha_after b H block t s \<longleftrightarrow> fst s = fold (sha1_round (be_words block)) [0..<t] H
     \<and> (if b then sched1 block t (snd s) else sched0 block t (snd s))"

lemma sha_after_step:
  assumes "sha_after b H block t s" "length block = 64" "if b then 16 \<le> t else t < 16" "f = sha1_f t" "K = sha1_K t"
    "blk = (if b then blk1 else blk0)"
  shows "sha_after b H block (Suc t) (SHA_R f blk K t s)"
proof -
  obtain v w x y z B where s: "s = ((v, w, x, y, z), B)" by (metis prod_cases3 surj_pair)
  obtain B' where B': "blk t B = (sha1_W (be_words block) t, B')" "if b then sched1 block (Suc t) B' else sched0 block (Suc t) B'"
    using sched0_step [of block t B] sched1_step [of block t B] assms(1,2,3,6) s by (auto simp: sha_after_def split: if_splits)
  have "(v, w, x, y, z) = fold (sha1_round (be_words block)) [0..<t] H" using assms(1) s by (simp add: sha_after_def)
  then have "fold (sha1_round (be_words block)) [0..<Suc t] H = sha1_round (be_words block) t (v, w, x, y, z)" by simp
  then show ?thesis using B' by (simp add: sha_after_def s assms(4,5) rol_def algebra_simps)
qed

lemma SHATransform_compress:
  assumes "length Buffer = 64"
  shows "fst (SHATransform State Buffer) = sha1_compress State Buffer" "length (snd (SHATransform State Buffer)) = 64"
proof -
  note step = sha_after_step [OF _ assms, where H = State]
  let ?s0 = "fold R0 [0..<16] (State, le_words Buffer)"
  have "sha_after False State Buffer 0 (State, le_words Buffer)"
    using assms by (simp add: sha_after_def sched0_def length_words)
  then have "sha_after False State Buffer 16 ?s0"
    by (rule fold_upt_inv) (simp_all add: R0_def, rule step, simp_all add: sha1_f_def sha1_K_def f1_Ch fun_eq_iff)
  then have "sha_after True State Buffer 16 ?s0" by (simp add: sha_after_def sched_switch)
  then have 1: "sha_after True State Buffer 20 (fold R1 [16..<20] ?s0)" (is "sha_after _ _ _ _ ?s1")
    by (rule fold_upt_inv) (simp_all add: R1_def, rule step, simp_all add: sha1_f_def sha1_K_def f1_Ch fun_eq_iff)
  have 2: "sha_after True State Buffer 40 (fold R2 [20..<40] ?s1)" (is "sha_after _ _ _ _ ?s2")
    using 1 by (rule fold_upt_inv) (simp_all add: R2_def, rule step, simp_all add: sha1_f_def sha1_K_def f1_Ch fun_eq_iff)
  have 3: "sha_after True State Buffer 60 (fold R3 [40..<60] ?s2)" (is "sha_after _ _ _ _ ?s3")
    using 2 by (rule fold_upt_inv) (simp_all add: R3_def, rule step, simp_all add: sha1_f_def sha1_K_def f1_Ch fun_eq_iff)
  have 4: "sha_after True State Buffer 80 (fold R4 [60..<80] ?s3)" (is "sha_after _ _ _ _ ?s4")
    using 3 by (rule fold_upt_inv) (simp_all add: R4_def, rule step, simp_all add: sha1_f_def sha1_K_def f1_Ch fun_eq_iff)
  have T: "SHATransform State Buffer = (SHA_add State (fst ?s4), concat (map le_bytes (snd ?s4)))"
    by (simp add: SHATransform_def Let_def case_prod_beta)
  show "fst (SHATransform State Buffer) = sha1_compress State Buffer"
    using 4 by (simp add: T sha1_compress_def sha_after_def)
  have "length (snd ?s4) = 16" using 4 by (simp add: sha_after_def sched1_def)
  then show "length (snd (SHATransform State Buffer)) = 64"
    by (simp add: T length_concat o_def sum_list_triv)
qed

section \<open>The context implements it\<close>

abbreviation (input) sha1_start :: sha_regs where
  "sha1_start \<equiv> (0x67452301, 0xEFCDAB89, 0x98BADCFE, 0x10325476, 0xC3D2E1F0)"

text \<open>A context that stands for a message.\<close>

definition sha1_stands :: "uchar list \<Rightarrow> A_SHA_CTX \<Rightarrow> bool" where
  "sha1_stands m Context \<longleftrightarrow> absorbed sha1_compress sha1_start m (sha_state Context) (sha_buffer Context)
     \<and> sha_count1 Context = of_nat (length m) \<and> sha_count0 Context = of_nat (length m div 2 ^ 32)"

lemma A_SHAUpdate_loop_correct:
  assumes "length Buffer = 64" "unat n < 64" "unat n + length Input < 2 ^ 32"
  shows "\<exists>B n' I. A_SHAUpdate_loop State Buffer n Input (of_nat (length Input))
      = Some (absorb sha1_compress State (take (unat n) Buffer @ Input), B, n', I, of_nat (length I))
    \<and> length B = 64 \<and> unat n' + length I < 64 \<and> take (unat n') B @ I = rest64 (take (unat n) Buffer @ Input)"
  using assms
proof (induction "length Input" arbitrary: State Buffer n Input rule: less_induct)
  case less
  let ?L = "of_nat (length Input) :: ulong"
  have L: "unat ?L = length Input" by (rule unat_of_nat_ulong) (use less.prems(3) in simp)
  have sum: "unat (n + ?L) = unat n + length Input" using less.prems(3) L by (subst unat_add_exact) simp_all
  show ?case
  proof (cases "64 \<le> unat n + length Input")
    case False
    then have "\<not> n + ?L \<ge> 64" using sum by (simp add: word_le_nat_alt)
    moreover have "length (take (unat n) Buffer @ Input) < 64" using False less.prems(1) by simp
    ultimately show ?thesis using less.prems False
      by (subst A_SHAUpdate_loop.simps) (simp add: absorb_short rest64_short)
  next
    case True
    let ?k = "64 - unat n"
    have k: "unat (64 - n) = ?k" using less.prems(2) by (subst unat_minus_exact) (simp_all add: word_le_nat_alt)
    have c: "copy_bytes Buffer (unat n) Input ?k = Some (take (unat n) Buffer @ take ?k Input)"
      using True less.prems(1,2) by (simp add: copy_bytes_def overwrite_def)
    let ?B = "take (unat n) Buffer @ take ?k Input"
    have lB: "length ?B = 64" using True less.prems(1,2) by simp
    obtain S B1 where S: "SHATransform State ?B = (S, B1)" by fastforce
    then have S2: "S = sha1_compress State ?B" "length B1 = 64" using SHATransform_compress [OF lB, of State] by simp_all
    have rest: "?L - (64 - n) = of_nat (length (drop ?k Input))"
    proof -
      have "64 - n \<le> ?L" using True k L by (simp add: word_le_nat_alt)
      then have "unat (?L - (64 - n)) = length Input - ?k" using k L by (simp add: unat_minus_exact)
      then show ?thesis by (intro word_unat_eq_iff [THEN iffD2]) (use less.prems(3) in \<open>simp add: unat_of_nat_ulong\<close>)
    qed
    have short: "length (drop ?k Input) < length Input" using True less.prems(2) by simp
    have "\<exists>B n' I. A_SHAUpdate_loop S B1 0 (drop ?k Input) (of_nat (length (drop ?k Input)))
        = Some (absorb sha1_compress S (take (unat (0 :: ulong)) B1 @ drop ?k Input), B, n', I, of_nat (length I))
      \<and> length B = 64 \<and> unat n' + length I < 64 \<and> take (unat n') B @ I = rest64 (take (unat (0 :: ulong)) B1 @ drop ?k Input)"
      by (rule less.hyps [OF short]) (use S2 less.prems(3) in simp_all)
    moreover have "absorb sha1_compress S (drop ?k Input) = absorb sha1_compress State (take (unat n) Buffer @ Input)"
      using absorb_block [OF lB, of sha1_compress State "drop ?k Input"] S2(1) by simp
    moreover have "rest64 (drop ?k Input) = rest64 (take (unat n) Buffer @ Input)"
      using rest64_long [of "take (unat n) Buffer @ Input"] True less.prems(1,2) by simp
    moreover have "n + ?L \<ge> 64" using True sum by (simp add: word_le_nat_alt)
    ultimately show ?thesis
      by (subst A_SHAUpdate_loop.simps) (simp add: k c S rest)
  qed
qed

lemma A_SHAUpdate_stands:
  assumes "absorbed sha1_compress sha1_start m (sha_state Context) (sha_buffer Context)"
    "sha_count1 Context = of_nat (length m)" "length Input + 64 \<le> 2 ^ 32"
  shows "\<exists>State Buffer. A_SHAUpdate Context Input (of_nat (length Input)) = Some (Context\<lparr>sha_state := State, sha_buffer := Buffer,
      sha_count0 := fst (A_SHAUpdate_count (sha_count0 Context, sha_count1 Context) (of_nat (length Input))),
      sha_count1 := of_nat (length (m @ Input))\<rparr>)
    \<and> absorbed sha1_compress sha1_start (m @ Input) State Buffer"
proof -
  let ?n = "sha_count1 Context AND 63" and ?L = "of_nat (length Input) :: ulong" and ?B = "sha_buffer Context"
  have n: "unat ?n = length m mod 64" by (simp add: assms(2) count_and_63)
  have n64: "unat ?n < 64" using n by simp
  have lB: "length ?B = 64" using assms(1) by (simp add: absorbed_def)
  have L: "unat ?L = length Input" by (rule unat_of_nat_ulong) (use assms(3) in simp)
  have sum: "unat (?n + ?L) = unat ?n + length Input" using assms(3) L n64 by (subst unat_add_exact) simp_all
  obtain c0 where cnt: "A_SHAUpdate_count (sha_count0 Context, sha_count1 Context) ?L = (c0, of_nat (length (m @ Input)))"
    by (simp add: A_SHAUpdate_count_def Let_def assms(2))
  show ?thesis
  proof (cases "unat ?n + length Input < 64")
    case True
    then have lt: "?n + ?L < 64" using sum by (simp add: word_less_nat_alt)
    let ?B' = "overwrite (unat ?n) Input ?B"
    have c: "copy_bytes ?B (unat ?n) Input (unat ?L) = Some ?B'" using True L lB by (simp add: copy_bytes_def)
    have "absorbed sha1_compress sha1_start (m @ Input) (sha_state Context) ?B'"
      using True lB n by (intro absorbed_more [OF assms(1)]) (simp_all add: absorb_short rest64_short overwrite_def)
    then show ?thesis
      by (intro exI [of _ "sha_state Context"] exI [of _ ?B'])
        (simp add: A_SHAUpdate_def Let_def cnt lt c)
  next
    case False
    then have lt: "\<not> ?n + ?L < 64" using sum by (simp add: word_less_nat_alt)
    obtain B n' I where r: "A_SHAUpdate_loop (sha_state Context) ?B ?n Input ?L
        = Some (absorb sha1_compress (sha_state Context) (take (unat ?n) ?B @ Input), B, n', I, of_nat (length I))"
      "length B = 64" "unat n' + length I < 64" "take (unat n') B @ I = rest64 (take (unat ?n) ?B @ Input)"
      using A_SHAUpdate_loop_correct [OF lB n64, of Input "sha_state Context"] assms(3) n64 by auto
    have LI: "unat (of_nat (length I) :: ulong) = length I" by (rule unat_of_nat_ulong) (use r(3) in simp)
    let ?B' = "overwrite (unat n') I B"
    have c: "copy_bytes B (unat n') I (length I) = Some ?B'" using r(2,3) by (simp add: copy_bytes_def)
    have "take ((length m mod 64 + length Input) mod 64) ?B' = rest64 (take (unat ?n) ?B @ Input)"
    proof -
      have "length (rest64 (take (unat ?n) ?B @ Input)) = (length m mod 64 + length Input) mod 64"
        using n lB by (simp add: length_rest64)
      then have "(length m mod 64 + length Input) mod 64 = unat n' + length I"
        using r(2,3) unfolding r(4) [symmetric] by simp
      then show ?thesis using r(2,3) unfolding r(4) [symmetric] by (simp add: overwrite_def)
    qed
    then have "absorbed sha1_compress sha1_start (m @ Input)
        (absorb sha1_compress (sha_state Context) (take (unat ?n) ?B @ Input)) ?B'"
      using n r(2,3) by (intro absorbed_more [OF assms(1)]) (simp_all add: overwrite_def)
    then show ?thesis
      by (intro exI [of _ "absorb sha1_compress (sha_state Context) (take (unat ?n) ?B @ Input)"] exI [of _ ?B'])
        (simp add: A_SHAUpdate_def Let_def cnt lt r(1) c LI)
  qed
qed

text \<open>Counting parts that are shorter than \<open>2 ^ 29\<close> bytes counts the message.\<close>

lemma A_SHAUpdate_count_correct:
  assumes "Length < 2 ^ 29"
  shows "A_SHAUpdate_count (of_nat (n div 2 ^ 32), of_nat n) (of_nat Length) = (of_nat ((n + Length) div 2 ^ 32), of_nat (n + Length))"
proof -
  have L: "unat (of_nat Length :: ulong) = Length" by (rule unat_of_nat_ulong) (use assms in simp)
  have "unat (drop_bit 29 (of_nat Length :: ulong)) = 0"
    using assms by (simp only: unat_drop_bit L) simp
  then have z: "drop_bit 29 (of_nat Length :: ulong) = 0" by (simp add: word_unat_eq_iff)
  have step: "A_SHAUpdate_count (a, b) (of_nat Length) = (if b + of_nat Length < of_nat Length then a + 1 else a, b + of_nat Length)" for a b
    by (simp add: A_SHAUpdate_count_def Let_def z)
  have "Length div 2 ^ 32 = 0" using assms by simp
  then have e: "(n + Length) div 2 ^ 32 = n div 2 ^ 32 + (if (of_nat (n + Length) :: ulong) < of_nat Length then 1 else 0)"
    using carry_add [of Length n] by (simp only: add.commute [of n Length] add_0)
  show ?thesis
    unfolding step of_nat_add [symmetric, of n] e by (cases "(of_nat (n + Length) :: ulong) < of_nat Length") (simp_all only: if_True if_False of_nat_add of_nat_1 of_nat_0 add_0_right)
qed

lemma sha1_update:
  assumes "sha1_stands m c" "length x < 2 ^ 29"
  shows "\<exists>c'. A_SHAUpdate c x (of_nat (length x)) = Some c' \<and> sha1_stands (m @ x) c'"
proof -
  have a: "absorbed sha1_compress sha1_start m (sha_state c) (sha_buffer c)" "sha_count1 c = of_nat (length m)"
    "sha_count0 c = of_nat (length m div 2 ^ 32)"
    using assms(1) by (simp_all add: sha1_stands_def)
  have l: "length x + 64 \<le> 2 ^ 32" using assms(2) by simp
  show ?thesis
    using A_SHAUpdate_stands [OF a(1,2) l] A_SHAUpdate_count_correct [OF assms(2), of "length m"] a(2,3)
    by (auto simp: sha1_stands_def)
qed

text \<open>The padding.\<close>

lemma A_SHAFinal_Pad_padding: "unat (A_SHAFinal_Pad (of_nat n AND 63)) = padding n"
proof -
  let ?c = "of_nat n AND 63 :: ulong"
  have c: "unat ?c = n mod 64" by (rule count_and_63)
  have lt: "n mod 64 < 64" by simp
  have "56 \<le> ?c \<longleftrightarrow> 56 \<le> n mod 64" by (simp add: word_le_nat_alt c)
  moreover have "unat (56 + 64 - ?c) = 120 - n mod 64" using lt by (subst unat_minus_exact) (simp_all add: word_le_nat_alt c)
  moreover have "unat (56 - ?c) = 56 - n mod 64" if "n mod 64 < 56" using that by (subst unat_minus_exact) (simp_all add: word_le_nat_alt c)
  ultimately show ?thesis by (auto simp: A_SHAFinal_Pad_def padding_def)
qed

lemma A_SHAFinal_padded:
  assumes a: "absorbed sha1_compress sha1_start m (sha_state c) (sha_buffer c)" "sha_count1 c = of_nat (length m)"
  shows "\<exists>c'. A_SHAFinal c = Some (sha1_padded m (be_bytes (push_bit 3 (sha_count0 c) OR drop_bit 29 (sha_count1 c))
      @ be_bytes (of_nat (8 * length m))), c') \<and> sha1_stands [] c'"
proof -
  let ?Pad = "A_SHAFinal_Pad (sha_count1 c AND 63)"
  have Pad: "unat ?Pad = padding (length m)" by (simp only: a(2) A_SHAFinal_Pad_padding)
  have P1: "unat (?Pad - 1) = padding (length m) - 1"
    using Pad padding_pos(1) [of "length m"] by (subst unat_minus_exact) (simp_all add: word_le_nat_alt)
  let ?len = "be_bytes (push_bit 3 (sha_count0 c) OR drop_bit 29 (sha_count1 c)) @ be_bytes (of_nat (8 * length m))"
  let ?I = "0x80 # replicate (padding (length m) - 1) 0 @ ?len"
  have lI: "length ?I = padding (length m) + 8" using padding_pos(1) [of "length m"] by simp
  have "of_nat (padding (length m)) = ?Pad" using Pad by (simp add: word_unat_eq_iff flip: Pad)
  then have L: "?Pad + 8 = of_nat (length ?I)" unfolding lI by simp
  have l: "length ?I + 64 \<le> 2 ^ 32" unfolding lI using padding_pos(2) [of "length m"] by simp
  obtain State Buffer c0 c1 where u: "A_SHAUpdate c ?I (of_nat (length ?I)) = Some (c\<lparr>sha_state := State, sha_buffer := Buffer,
      sha_count0 := c0, sha_count1 := c1\<rparr>)" "absorbed sha1_compress sha1_start (m @ ?I) State Buffer"
    using A_SHAUpdate_stands [OF a(1,2) l] by blast
  have st: "State = absorb sha1_compress sha1_start (pad64 m ?len)" "length Buffer = 64"
    using u(2) by (simp_all add: absorbed_def pad64_def)
  obtain s0 s1 s2 s3 s4 where S: "State = (s0, s1, s2, s3, s4)" by (metis prod_cases5)
  have dig: "sha1_padded m ?len = concat (map be_bytes [s0, s1, s2, s3, s4])"
    unfolding sha1_padded_def st(1) [symmetric] S by simp
  have n29: "32 - 3 = (29 :: nat)" by simp
  have lo: "push_bit 3 (sha_count1 c) = of_nat (8 * length m)" unfolding a(2) by (rule length_words_64)
  have "A_SHAFinal c = Option.bind (A_SHAUpdate c ?I (?Pad + 8)) (\<lambda>Context. case sha_state Context of
      (s0, s1, s2, s3, s4) \<Rightarrow> Some (concat (map be_bytes [s0, s1, s2, s3, s4]), A_SHAInit Context))"
    by (simp only: A_SHAFinal_def Let_def lo n29 DWORD2BE_bytes P1)
  then have "A_SHAFinal c = Some (sha1_padded m ?len,
      A_SHAInit (c\<lparr>sha_state := State, sha_buffer := Buffer, sha_count0 := c0, sha_count1 := c1\<rparr>))"
    unfolding L u(1) S dig by simp
  moreover have "sha1_stands [] (A_SHAInit (c\<lparr>sha_state := State, sha_buffer := Buffer, sha_count0 := c0, sha_count1 := c1\<rparr>))"
    using st(2) by (simp add: sha1_stands_def A_SHAInit_def absorbed_start)
  ultimately show ?thesis by blast
qed

lemma sha1_final: "sha1_stands m c \<Longrightarrow> \<exists>c'. A_SHAFinal c = Some (sha1 m, c')"
  using A_SHAFinal_padded [of m c] length_words_64 [of "length m"] by (auto simp only: sha1_stands_def sha1_def)

lemma sha1_init: "length (sha_buffer c) = 64 \<Longrightarrow> sha1_stands [] (A_SHAInit c)"
  by (simp add: sha1_stands_def A_SHAInit_def absorbed_start)

interpretation sha_stream: hash_stream "A_SHAInit \<lparr>sha_state = sha1_start, sha_count0 = 0, sha_count1 = 0, sha_buffer = replicate 64 0\<rparr>"
    "\<lambda>c x. A_SHAUpdate c x (of_nat (length x))" A_SHAFinal sha1 sha1_stands "2 ^ 29 - 1" "2 ^ 61"
proof
  show "sha1_stands m c \<Longrightarrow> length x \<le> 2 ^ 29 - 1 \<Longrightarrow> \<exists>c'. A_SHAUpdate c x (of_nat (length x)) = Some c' \<and> sha1_stands (m @ x) c'" for m c x
    by (rule sha1_update) auto
qed (simp_all add: sha1_init sha1_final)

text \<open>
  Adding a part so long that the count of buffered bytes and its length together exceed 32 bits copies it
  over the end of the buffer.
\<close>

lemma A_SHAUpdate_overrun:
  assumes "2 ^ 32 \<le> unat (sha_count1 c AND 63) + unat Length" "length (sha_buffer c) = 64" "unat (sha_count1 c AND 63) < 64"
  shows "A_SHAUpdate c Input Length = None"
proof -
  let ?n = "sha_count1 c AND 63"
  have "unat (?n + Length) = (unat ?n + unat Length) mod 2 ^ 32" by (simp add: unat_word_ariths)
  also have "(unat ?n + unat Length) mod 2 ^ 32 = unat ?n + unat Length - 2 ^ 32"
    using assms(1,3) unsigned_less [of Length, where ?'a = nat] by (simp add: mod_if)
  finally have "?n + Length < 64"
    using assms(3) unsigned_less [of Length, where ?'a = nat] by (simp add: word_less_nat_alt)
  moreover have "copy_bytes (sha_buffer c) (unat ?n) Input (unat Length) = None"
    using assms by (simp add: copy_bytes_def)
  ultimately show ?thesis by (simp add: A_SHAUpdate_def Let_def split: prod.split)
qed

text \<open>
  C40.  A single part of \<open>2 ^ 29\<close> bytes or more is counted wrongly: \<open>A_SHAUpdate\<close> adds the high bits of a
  length in bits to the high word of a count of bytes.  The result is then the hash of the message
  padded with another length than its own.
\<close>

theorem A_SHAUpdate_long_part:
  assumes "2 ^ 29 \<le> length x" "length x + 64 \<le> 2 ^ 32" "length (sha_buffer c) = 64"
  shows "\<exists>c1 c2 hi. A_SHAUpdate (A_SHAInit c) x (of_nat (length x)) = Some c1
    \<and> A_SHAFinal c1 = Some (sha1_padded x (be_bytes hi @ be_bytes (of_nat (8 * length x))), c2)
    \<and> hi \<noteq> of_nat (8 * length x div 2 ^ 32)"
proof -
  let ?c = "A_SHAInit c" and ?n = "length x"
  have a: "absorbed sha1_compress sha1_start [] (sha_state ?c) (sha_buffer ?c)" "sha_count1 ?c = of_nat (length [])" "sha_count0 ?c = 0"
    using sha1_init [OF assms(3)] by (simp_all add: sha1_stands_def A_SHAInit_def)
  let ?q = "?n div 2 ^ 29"
  have L: "unat (of_nat ?n :: ulong) = ?n" by (rule unat_of_nat_ulong) (use assms(2) in simp)
  have q: "0 < ?q" "?q < 8" using assms by (simp_all add: div_greater_zero_iff less_mult_imp_div_less)
  have dq: "drop_bit 29 (of_nat ?n :: ulong) = of_nat ?q"
    using q by (simp only: word_unat_eq_iff unat_drop_bit L) (simp add: unat_of_nat_ulong)
  have c0: "fst (A_SHAUpdate_count (sha_count0 ?c, sha_count1 ?c) (of_nat ?n)) = of_nat ?q"
    by (simp add: A_SHAUpdate_count_def A_SHAInit_def Let_def dq)
  let ?hi = "push_bit 3 (of_nat ?q) OR of_nat ?q :: ulong"
  obtain State Buffer where u: "A_SHAUpdate ?c x (of_nat ?n) = Some (?c\<lparr>sha_state := State, sha_buffer := Buffer,
      sha_count0 := of_nat ?q, sha_count1 := of_nat ?n\<rparr>)" (is "_ = Some ?c1")
    "absorbed sha1_compress sha1_start x State Buffer"
    using A_SHAUpdate_stands [OF a(1,2) assms(2)] unfolding c0 by auto
  obtain c2 where c2: "A_SHAFinal ?c1 = Some (sha1_padded x (be_bytes ?hi @ be_bytes (of_nat (8 * ?n))), c2)"
    using A_SHAFinal_padded [of x ?c1] u(2) dq by auto
  have "?hi \<noteq> of_nat (8 * ?n div 2 ^ 32)"
  proof -
    have "8 * ?n div 2 ^ 32 = ?q" by simp
    moreover have "of_nat ?q \<in> {1, 2, 3, 4, 5, 6, 7 :: ulong}"
    proof -
      have "?q = 1 \<or> ?q = 2 \<or> ?q = 3 \<or> ?q = 4 \<or> ?q = 5 \<or> ?q = 6 \<or> ?q = 7" using q by linarith
      then show ?thesis by (elim disjE) (simp_all only:, simp_all)
    qed
    ultimately show ?thesis by (auto simp only: insert_iff empty_iff)  (simp_all)
  qed
  then show ?thesis using u(1) c2 by blast
qed

theorem A_SHAUpdate_long_part_witness:
  "\<exists>x c c1 c2 hi. length x = 2 ^ 29 \<and> A_SHAUpdate (A_SHAInit c) x (of_nat (length x)) = Some c1
    \<and> A_SHAFinal c1 = Some (sha1_padded x (be_bytes hi @ be_bytes (of_nat (8 * length x))), c2) \<and> hi \<noteq> of_nat (8 * length x div 2 ^ 32)"
proof -
  obtain x :: "uchar list" where x: "length x = 2 ^ 29" using Ex_list_of_length by blast
  let ?c = "\<lparr>sha_state = sha1_start, sha_count0 = 0, sha_count1 = 0, sha_buffer = replicate 64 0\<rparr>"
  have "length x + 64 \<le> 2 ^ 32" unfolding x by simp
  then have "\<exists>c1 c2 hi. A_SHAUpdate (A_SHAInit ?c) x (of_nat (length x)) = Some c1
      \<and> A_SHAFinal c1 = Some (sha1_padded x (be_bytes hi @ be_bytes (of_nat (8 * length x))), c2) \<and> hi \<noteq> of_nat (8 * length x div 2 ^ 32)"
    by (intro A_SHAUpdate_long_part) (simp_all add: x)
  then show ?thesis using x by blast
qed

end
