(* ===== verification/Sha256.thy ===== *)
theory Sha256
  imports HashBlocks
begin

text \<open>
  SHA-256 of \<open>phlib/sha256.c\<close>: the unrolled rounds, the context, and the algorithm of FIPS 180.
\<close>

unbundle bit_operations_syntax

section \<open>The rounds\<close>

definition SHR :: "ulong \<Rightarrow> nat \<Rightarrow> ulong" where "SHR x n = drop_bit n (x AND 0xFFFFFFFF)"
definition ROTR :: "ulong \<Rightarrow> nat \<Rightarrow> ulong" where "ROTR x n = SHR x n OR push_bit (32 - n) x"

definition S0 :: "ulong \<Rightarrow> ulong" where "S0 x = ROTR x 7 XOR ROTR x 18 XOR SHR x 3"
definition S1 :: "ulong \<Rightarrow> ulong" where "S1 x = ROTR x 17 XOR ROTR x 19 XOR SHR x 10"
definition S2 :: "ulong \<Rightarrow> ulong" where "S2 x = ROTR x 2 XOR ROTR x 13 XOR ROTR x 22"
definition S3 :: "ulong \<Rightarrow> ulong" where "S3 x = ROTR x 6 XOR ROTR x 11 XOR ROTR x 25"

definition SF0 :: "ulong \<Rightarrow> ulong \<Rightarrow> ulong \<Rightarrow> ulong" where "SF0 x y z = (x AND y) OR (z AND (x OR y))"
definition SF1 :: "ulong \<Rightarrow> ulong \<Rightarrow> ulong \<Rightarrow> ulong" where "SF1 x y z = z XOR (x AND (y XOR z))"

text \<open>The words of the schedule so far, and the next of them.\<close>

definition sha256_R :: "ulong list \<Rightarrow> nat \<Rightarrow> ulong" where
  "sha256_R W t = S1 (W ! (t - 2)) + W ! (t - 7) + S0 (W ! (t - 15)) + W ! (t - 16)"

type_synonym sha256_regs = "ulong \<times> ulong \<times> ulong \<times> ulong \<times> ulong \<times> ulong \<times> ulong \<times> ulong"

text \<open>
  The macro \<open>P\<close>.  Its next use takes the variables one place further on, which the result says by the
  order of its components.
\<close>

fun sha256_P :: "ulong \<Rightarrow> ulong \<Rightarrow> sha256_regs \<Rightarrow> sha256_regs" where
  "sha256_P x K (a, b, c, d, e, f, g, h) =
     (let temp1 = h + S3 e + SF1 e f g + K + x;
          temp2 = S2 a + SF0 a b c;
          d = d + temp1;
          h = temp1 + temp2
      in (h, a, b, c, d, e, f, g))"

definition sha256_K :: "ulong list" where
  "sha256_K = [
    0x428A2F98, 0x71374491, 0xB5C0FBCF, 0xE9B5DBA5, 0x3956C25B, 0x59F111F1, 0x923F82A4, 0xAB1C5ED5,
    0xD807AA98, 0x12835B01, 0x243185BE, 0x550C7DC3, 0x72BE5D74, 0x80DEB1FE, 0x9BDC06A7, 0xC19BF174,
    0xE49B69C1, 0xEFBE4786, 0x0FC19DC6, 0x240CA1CC, 0x2DE92C6F, 0x4A7484AA, 0x5CB0A9DC, 0x76F988DA,
    0x983E5152, 0xA831C66D, 0xB00327C8, 0xBF597FC7, 0xC6E00BF3, 0xD5A79147, 0x06CA6351, 0x14292967,
    0x27B70A85, 0x2E1B2138, 0x4D2C6DFC, 0x53380D13, 0x650A7354, 0x766A0ABB, 0x81C2C92E, 0x92722C85,
    0xA2BFE8A1, 0xA81A664B, 0xC24B8B70, 0xC76C51A3, 0xD192E819, 0xD6990624, 0xF40E3585, 0x106AA070,
    0x19A4C116, 0x1E376C08, 0x2748774C, 0x34B0BCB5, 0x391C0CB3, 0x4ED8AA4A, 0x5B9CCA4F, 0x682E6FF3,
    0x748F82EE, 0x78A5636F, 0x84C87814, 0x8CC70208, 0x90BEFFFA, 0xA4506CEB, 0xBEF9A3F7, 0xC67178F2]"

definition sha256_first :: "nat \<Rightarrow> sha256_regs \<times> ulong list \<Rightarrow> sha256_regs \<times> ulong list" where
  "sha256_first t s = (case s of (regs, W) \<Rightarrow> (sha256_P (W ! t) (sha256_K ! t) regs, W))"

definition sha256_next :: "nat \<Rightarrow> sha256_regs \<times> ulong list \<Rightarrow> sha256_regs \<times> ulong list" where
  "sha256_next t s = (case s of (regs, W) \<Rightarrow> let x = sha256_R W t; W = W @ [x] in (sha256_P x (sha256_K ! t) regs, W))"

fun sha256_add :: "sha256_regs \<Rightarrow> sha256_regs \<Rightarrow> sha256_regs" where
  "sha256_add (s0, s1, s2, s3, s4, s5, s6, s7) (a, b, c, d, e, f, g, h) =
     (s0 + a, s1 + b, s2 + c, s3 + d, s4 + e, s5 + f, s6 + g, s7 + h)"

definition sha256_process :: "sha256_regs \<Rightarrow> uchar list \<Rightarrow> sha256_regs" where
  "sha256_process state data =
     sha256_add state (fst (fold sha256_next [16..<64] (fold sha256_first [0..<16] (state, be_words data))))"

section \<open>The context\<close>

record sha256_context =
  sha256_total0 :: ulong
  sha256_total1 :: ulong
  sha256_state :: sha256_regs
  sha256_buffer :: "uchar list"

definition sha256_starts :: "sha256_context \<Rightarrow> sha256_context" where
  "sha256_starts ctx = ctx\<lparr>sha256_total0 := 0, sha256_total1 := 0, sha256_state :=
     (0x6A09E667, 0xBB67AE85, 0x3C6EF372, 0xA54FF53A, 0x510E527F, 0x9B05688C, 0x1F83D9AB, 0x5BE0CD19)\<rparr>"

definition sha256_count :: "ulong \<times> ulong \<Rightarrow> ulong \<Rightarrow> ulong \<times> ulong" where
  "sha256_count tot len = (let
       total0 = (fst tot + len) AND 0xFFFFFFFF;
       total1 = (if total0 < len then snd tot + 1 else snd tot)
     in (total0, total1))"

text \<open>Whole blocks are taken from the input without a copy.\<close>

partial_function (option) sha256_update_loop ::
    "sha256_regs \<Rightarrow> uchar list \<Rightarrow> ulong \<Rightarrow> (sha256_regs \<times> uchar list \<times> ulong) option" where
  "sha256_update_loop state input len = (
     if len \<ge> 64 then
       if length input < 64 then None
       else sha256_update_loop (sha256_process state (take 64 input)) (drop 64 input) (len - 64)
     else Some (state, input, len))"

definition sha256_update :: "sha256_context \<Rightarrow> uchar list \<Rightarrow> ulong \<Rightarrow> sha256_context option" where
  "sha256_update ctx input len = (
     if len = 0 then Some ctx
     else let
       left = sha256_total0 ctx AND 0x3F;
       fill = 64 - left;
       (total0, total1) = sha256_count (sha256_total0 ctx, sha256_total1 ctx) len;
       ctx = ctx\<lparr>sha256_total0 := total0, sha256_total1 := total1\<rparr>
     in do {
       (state, buffer, left, input, len) \<leftarrow>
         (if left \<noteq> 0 \<and> len \<ge> fill then do {
            buffer \<leftarrow> copy_bytes (sha256_buffer ctx) (unat left) input (unat fill);
            Some (sha256_process (sha256_state ctx) buffer, buffer, 0, drop (unat fill) input, len - fill)
          } else Some (sha256_state ctx, sha256_buffer ctx, left, input, len));
       (state, input, len) \<leftarrow> sha256_update_loop state input len;
       buffer \<leftarrow> (if len \<noteq> 0 then copy_bytes buffer (unat left) input (unat len) else Some buffer);
       Some (ctx\<lparr>sha256_state := state, sha256_buffer := buffer\<rparr>)
     })"

definition sha256_padding :: "uchar list" where
  "sha256_padding = 0x80 # replicate 63 0"

definition sha256_finish :: "sha256_context \<Rightarrow> (uchar list \<times> sha256_context) option" where
  "sha256_finish ctx = (let
       high = drop_bit 29 (sha256_total0 ctx) OR push_bit 3 (sha256_total1 ctx);
       low = push_bit 3 (sha256_total0 ctx);
       msglen = be_bytes high @ be_bytes low;
       last = sha256_total0 ctx AND 0x3F;
       padn = (if last < 56 then 56 - last else 120 - last)
     in do {
       ctx \<leftarrow> sha256_update ctx (take (unat padn) sha256_padding) padn;
       ctx \<leftarrow> sha256_update ctx msglen 8;
       (case sha256_state ctx of (s0, s1, s2, s3, s4, s5, s6, s7) \<Rightarrow>
         Some (concat (map be_bytes [s0, s1, s2, s3, s4, s5, s6, s7]), ctx))
     })"

section \<open>FIPS 180\<close>

definition Sigma0 :: "ulong \<Rightarrow> ulong" where "Sigma0 x = word_rotr 2 x XOR word_rotr 13 x XOR word_rotr 22 x"
definition Sigma1 :: "ulong \<Rightarrow> ulong" where "Sigma1 x = word_rotr 6 x XOR word_rotr 11 x XOR word_rotr 25 x"
definition sigma0 :: "ulong \<Rightarrow> ulong" where "sigma0 x = word_rotr 7 x XOR word_rotr 18 x XOR drop_bit 3 x"
definition sigma1 :: "ulong \<Rightarrow> ulong" where "sigma1 x = word_rotr 17 x XOR word_rotr 19 x XOR drop_bit 10 x"

fun sha256_W :: "ulong list \<Rightarrow> nat \<Rightarrow> ulong" where
  "sha256_W M t = (if t < 16 then M ! t
     else sigma1 (sha256_W M (t - 2)) + sha256_W M (t - 7) + sigma0 (sha256_W M (t - 15)) + sha256_W M (t - 16))"

declare sha256_W.simps [simp del]

fun sha256_round :: "ulong list \<Rightarrow> nat \<Rightarrow> sha256_regs \<Rightarrow> sha256_regs" where
  "sha256_round M t (a, b, c, d, e, f, g, h) =
     (let T1 = h + Sigma1 e + Ch e f g + sha256_K ! t + sha256_W M t;
          T2 = Sigma0 a + Maj a b c
      in (T1 + T2, a, b, c, d + T1, e, f, g))"

definition sha256_compress :: "sha256_regs \<Rightarrow> uchar list \<Rightarrow> sha256_regs" where
  "sha256_compress H block = sha256_add H (fold (sha256_round (be_words block)) [0..<64] H)"

abbreviation (input) sha256_start :: sha256_regs where
  "sha256_start \<equiv> (0x6A09E667, 0xBB67AE85, 0x3C6EF372, 0xA54FF53A, 0x510E527F, 0x9B05688C, 0x1F83D9AB, 0x5BE0CD19)"

definition sha256 :: "uchar list \<Rightarrow> uchar list" where
  "sha256 m = (case absorb sha256_compress sha256_start
       (pad64 m (be_bytes (of_nat (8 * length m div 2 ^ 32)) @ be_bytes (of_nat (8 * length m)))) of
     (h0, h1, h2, h3, h4, h5, h6, h7) \<Rightarrow> concat (map be_bytes [h0, h1, h2, h3, h4, h5, h6, h7]))"

section \<open>The rounds implement it\<close>

lemma SHR_drop: "SHR x n = drop_bit n x"
proof -
  have "0xFFFFFFFF = (- 1 :: ulong)" by simp
  then show ?thesis unfolding SHR_def by (simp only: bit.conj_one_right)
qed

lemma ROTR_rotr: "0 < n \<Longrightarrow> n < 32 \<Longrightarrow> ROTR x n = word_rotr n x"
proof (rule bit_word_eqI)
  fix k
  assume n: "0 < n" "n < 32" and "k < LENGTH(32)"
  then have k: "k < 32" by simp
  have L: "bit (ROTR x n) k \<longleftrightarrow> bit x (n + k) \<or> 32 - n \<le> k \<and> bit x (k - (32 - n))"
    unfolding ROTR_def SHR_drop using k by (simp add: bit_simps)
  have R: "bit (word_rotr n x) k \<longleftrightarrow> bit x ((n + k) mod 32)"
    using k by (simp add: bit_word_rotr_iff add.commute)
  show "bit (ROTR x n) k = bit (word_rotr n x) k"
  proof (cases "n + k < 32")
    case True
    then have "\<not> 32 - n \<le> k" "(n + k) mod 32 = n + k" using n by (linarith, simp)
    then show ?thesis unfolding L R by simp
  next
    case False
    then have "\<not> bit x (n + k)" "(n + k) mod 32 = n + k - 32" "32 - n \<le> k" "k - (32 - n) = n + k - 32"
      using n k by (auto dest: bit_imp_le_length simp: mod_if)
    then show ?thesis unfolding L R by simp
  qed
qed

lemma Sigmas: "S0 x = sigma0 x" "S1 x = sigma1 x" "S2 x = Sigma0 x" "S3 x = Sigma1 x"
  by (simp_all add: S0_def S1_def S2_def S3_def sigma0_def sigma1_def Sigma0_def Sigma1_def ROTR_rotr SHR_drop)

lemma SF_FIPS: "SF0 x y z = Maj x y z" "SF1 x y z = Ch x y z"
  by (rule bit_word_eqI; auto simp: SF0_def SF1_def Ch_def Maj_def bit_simps)+

lemma sha256_P_round: "sha256_P (sha256_W M t) (sha256_K ! t) regs = sha256_round M t regs"
  by (cases "(sha256_W M t, sha256_K ! t, regs)" rule: sha256_P.cases) (simp add: Let_def Sigmas SF_FIPS algebra_simps)

declare sha256_P.simps [simp del] sha256_round.simps [simp del]

text \<open>The words so far are those of the schedule.\<close>

definition sha256_after :: "sha256_regs \<Rightarrow> uchar list \<Rightarrow> nat \<Rightarrow> nat \<Rightarrow> sha256_regs \<times> ulong list \<Rightarrow> bool" where
  "sha256_after H block t n s \<longleftrightarrow> fst s = fold (sha256_round (be_words block)) [0..<t] H
     \<and> length (snd s) = n \<and> (\<forall>j < n. snd s ! j = sha256_W (be_words block) j)"

lemma sha256_process_compress:
  assumes "length block = 64"
  shows "sha256_process H block = sha256_compress H block"
proof -
  have "sha256_after H block 0 16 (H, be_words block)"
    using assms by (simp add: sha256_after_def length_words sha256_W.simps)
  then have "sha256_after H block 16 16 (fold sha256_first [0..<16] (H, be_words block))"
    by (rule fold_upt_inv) (auto simp: sha256_after_def sha256_first_def sha256_P_round case_prod_beta)
  then have "sha256_after H block 64 64 (fold sha256_next [16..<64] (fold sha256_first [0..<16] (H, be_words block)))"
  proof (rule fold_upt_inv [where P = "\<lambda>t. sha256_after H block t t"])
    fix t s
    assume t: "16 \<le> t" "sha256_after H block t t s"
    obtain r W where s: "s = (r, W)" by fastforce
    have W: "length W = t" "\<And>j. j < t \<Longrightarrow> W ! j = sha256_W (be_words block) j" using t(2) by (simp_all add: sha256_after_def s)
    have "sha256_R W t = sha256_W (be_words block) t"
      using t(1) by (subst sha256_W.simps) (simp add: sha256_R_def W Sigmas)
    then show "sha256_after H block (Suc t) (Suc t) (sha256_next t s)"
      using t(2) by (auto simp: sha256_after_def sha256_next_def s sha256_P_round Let_def nth_append less_Suc_eq)
  qed simp
  then show ?thesis by (simp add: sha256_process_def sha256_compress_def sha256_after_def)
qed

section \<open>The context implements it\<close>

definition sha256_stands :: "uchar list \<Rightarrow> sha256_context \<Rightarrow> bool" where
  "sha256_stands m ctx \<longleftrightarrow> absorbed sha256_compress sha256_start m (sha256_state ctx) (sha256_buffer ctx)
     \<and> sha256_total0 ctx = of_nat (length m) \<and> sha256_total1 ctx = of_nat (length m div 2 ^ 32)"

lemma sha256_count_correct:
  assumes "k < 2 ^ 32"
  shows "sha256_count (of_nat n, of_nat (n div 2 ^ 32)) (of_nat k) = (of_nat (n + k), of_nat ((n + k) div 2 ^ 32))"
proof -
  have "0xFFFFFFFF = (- 1 :: ulong)" by simp
  then have a: "w AND 0xFFFFFFFF = w" for w :: ulong by (simp only: bit.conj_one_right)
  have "k div 2 ^ 32 = 0" using assms by simp
  then have e: "(n + k) div 2 ^ 32 = n div 2 ^ 32 + (if (of_nat (n + k) :: ulong) < of_nat k then 1 else 0)"
    using carry_add [of k n] by (simp only: add.commute [of n k] add_0)
  show ?thesis
    unfolding sha256_count_def Let_def fst_conv snd_conv a of_nat_add [symmetric, of n] e
    by (cases "(of_nat (n + k) :: ulong) < of_nat k") (simp_all only: if_True if_False of_nat_add of_nat_1 of_nat_0 add_0_right)
qed

lemma sha256_update_loop_correct:
  assumes "length input < 2 ^ 32"
  shows "sha256_update_loop state input (of_nat (length input))
    = Some (absorb sha256_compress state input, rest64 input, of_nat (length (rest64 input)))"
  using assms
proof (induction "length input" arbitrary: state input rule: less_induct)
  case less
  let ?L = "of_nat (length input) :: ulong"
  have L: "unat ?L = length input" by (rule unat_of_nat_ulong) (use less.prems in simp)
  show ?case
  proof (cases "64 \<le> length input")
    case False
    then have "\<not> ?L \<ge> 64" using L by (simp add: word_le_nat_alt)
    then show ?thesis using False
      by (subst sha256_update_loop.simps) (simp add: absorb_short rest64_short)
  next
    case True
    then have ge: "?L \<ge> 64" using L by (simp add: word_le_nat_alt)
    have nl: "\<not> length input < 64" using True by simp
    have sub: "?L - 64 = of_nat (length (drop 64 input))"
      using ge True less.prems by (simp add: word_unat_eq_iff unat_minus_exact L unat_of_nat_ulong)
    have ih: "sha256_update_loop (sha256_compress state (take 64 input)) (drop 64 input) (of_nat (length (drop 64 input)))
      = Some (absorb sha256_compress (sha256_compress state (take 64 input)) (drop 64 input), rest64 (drop 64 input),
          of_nat (length (rest64 (drop 64 input))))"
      by (rule less.hyps) (use True less.prems in simp_all)
    have p: "sha256_process state (take 64 input) = sha256_compress state (take 64 input)"
      by (rule sha256_process_compress) (use True in simp)
    show ?thesis
      unfolding absorb_long [OF True] rest64_long [OF True, symmetric]
      by (subst sha256_update_loop.simps) (simp only: ge nl if_True sub ih p if_False)
  qed
qed

lemma sha256_update_stands:
  assumes "sha256_stands m c" "length x < 2 ^ 32"
  shows "\<exists>c'. sha256_update c x (of_nat (length x)) = Some c' \<and> sha256_stands (m @ x) c'"
proof (cases "x = []")
  case True
  then show ?thesis using assms(1) by (simp add: sha256_update_def)
next
  case ne: False
  have a: "absorbed sha256_compress sha256_start m (sha256_state c) (sha256_buffer c)" "sha256_total0 c = of_nat (length m)"
    "sha256_total1 c = of_nat (length m div 2 ^ 32)"
    using assms(1) by (simp_all add: sha256_stands_def)
  let ?l = "sha256_total0 c AND 0x3F" and ?L = "of_nat (length x) :: ulong" and ?n = "length (m @ x)" and ?r = "length m mod 64"
  let ?B = "sha256_buffer c" and ?S = "sha256_state c"
  have l: "unat ?l = ?r" unfolding a(2) by (rule count_and_63)
  have tlt: "?r < 64" by simp
  have L: "unat ?L = length x" using assms(2) by (rule unat_of_nat_ulong)
  have L0: "?L \<noteq> 0" using L ne by (auto simp: word_unat_eq_iff)
  have li: "length ?B = 64" using a(1) by (simp add: absorbed_def)
  have cnt: "sha256_count (sha256_total0 c, sha256_total1 c) ?L = (of_nat ?n, of_nat (?n div 2 ^ 32))"
    unfolding a(2,3) sha256_count_correct [OF assms(2)] by (simp only: length_append)
  let ?c = "c\<lparr>sha256_total0 := of_nat ?n, sha256_total1 := of_nat (?n div 2 ^ 32)\<rparr>"
  have sel: "sha256_buffer ?c = ?B" "sha256_state ?c = ?S" by simp_all
  have ready: "sha256_stands (m @ x) (?c\<lparr>sha256_state := S, sha256_buffer := B\<rparr>)"
    if "absorbed sha256_compress sha256_start (m @ x) S B" for S B
    using that by (simp add: sha256_stands_def)
  have k: "unat (64 - ?l) = 64 - ?r" using l by (subst unat_minus_exact) (simp_all add: word_le_nat_alt)
  have fill: "?L \<ge> 64 - ?l \<longleftrightarrow> 64 \<le> ?r + length x" unfolding word_le_nat_alt L k using tlt by auto
  have u: "unat (of_nat (length (rest64 y)) :: ulong) = length (rest64 y)" for y :: "uchar list"
  proof (rule unat_of_nat_ulong)
    have "length (rest64 y) < 64" by (simp add: length_rest64)
    then show "length (rest64 y) < 2 ^ 32" by simp
  qed
  have w0: "(of_nat (length (rest64 y)) :: ulong) \<noteq> 0 \<longleftrightarrow> rest64 y \<noteq> []" for y :: "uchar list"
    using u [of y] by (auto simp: word_unat_eq_iff)
  text \<open>The end of the routine, once the front of the buffer is in place.\<close>
  have finish: "\<exists>B'. (if (of_nat (length (rest64 y)) :: ulong) \<noteq> 0
      then copy_bytes B (unat (p :: ulong)) (rest64 y) (unat (of_nat (length (rest64 y)) :: ulong)) else Some B)
      = Some B' \<and> length B' = 64 \<and> take (unat p + length (rest64 y)) B' = take (unat p) B @ rest64 y"
    if "length B = 64" "unat p + length (rest64 y) \<le> 64" for B y p
  proof (cases "rest64 y = []")
    case True
    then show ?thesis using that by simp
  next
    case False
    then show ?thesis using that by (simp add: w0 u copy_bytes_def overwrite_def)
  qed
  show ?thesis
  proof (cases "?l \<noteq> 0 \<and> ?L \<ge> 64 - ?l")
    case True
    let ?k = "64 - ?r"
    have ge: "?k \<le> length x" using True fill by linarith
    let ?b = "take ?r ?B @ take ?k x" and ?x = "drop ?k x"
    have lb: "length ?b = 64" using ge li by simp
    have c: "copy_bytes ?B (unat ?l) x ?k = Some ?b"
      using ge li tlt l by (simp add: copy_bytes_def overwrite_def)
    have "unat (?L - (64 - ?l)) = length ?x" using ge k L by (subst unat_minus_exact) (simp_all add: word_le_nat_alt)
    then have sub: "?L - (64 - ?l) = of_nat (length ?x)" by (rule of_nat_unatI)
    have lx: "length ?x < 2 ^ 32" using assms(2) unfolding length_drop by linarith
    have loop: "sha256_update_loop (sha256_process ?S ?b) ?x (of_nat (length ?x))
        = Some (absorb sha256_compress (sha256_compress ?S ?b) ?x, rest64 ?x, of_nat (length (rest64 ?x)))"
      unfolding sha256_process_compress [OF lb] by (rule sha256_update_loop_correct [OF lx])
    have "length (rest64 ?x) < 64" by (simp add: length_rest64)
    then obtain B' where B': "(if (of_nat (length (rest64 ?x)) :: ulong) \<noteq> 0
        then copy_bytes ?b (unat (0 :: ulong)) (rest64 ?x) (unat (of_nat (length (rest64 ?x)) :: ulong)) else Some ?b) = Some B'"
      "length B' = 64" "take (length (rest64 ?x)) B' = rest64 ?x"
      using finish [OF lb, of 0 ?x] by auto
    have all: "take ?r ?B @ x = ?b @ ?x" by simp
    have abs: "absorb sha256_compress ?S (?b @ ?x) = absorb sha256_compress (sha256_compress ?S ?b) ?x"
      by (rule absorb_block [OF lb])
    have r: "rest64 (?b @ ?x) = rest64 ?x" using rest64_long [of "?b @ ?x"] lb by simp
    have "(?r + length x) mod 64 = length (rest64 ?x)"
      unfolding r [symmetric] length_rest64 all [symmetric] using li tlt by simp
    then have "absorbed sha256_compress sha256_start (m @ x) (absorb sha256_compress (sha256_compress ?S ?b) ?x) B'"
      using B'(2,3) by (intro absorbed_more [OF a(1)]) (simp_all only: all abs r)
    moreover have "sha256_update c x ?L = Some (?c\<lparr>sha256_state := absorb sha256_compress (sha256_compress ?S ?b) ?x, sha256_buffer := B'\<rparr>)"
      unfolding sha256_update_def if_not_P [OF L0] Let_def cnt prod.case sel if_P [OF True] k c bind.bind_lunit sub loop B'(1) ..
    ultimately show ?thesis using ready by blast
  next
    case False
    have loop: "sha256_update_loop ?S x ?L = Some (absorb sha256_compress ?S x, rest64 x, of_nat (length (rest64 x)))"
      by (rule sha256_update_loop_correct [OF assms(2)])
    have l0: "?r = 0" if "64 \<le> ?r + length x" using False that fill l by auto
    have le: "?r + length (rest64 x) \<le> 64"
    proof (cases "64 \<le> ?r + length x")
      case True
      then show ?thesis using l0 by (simp add: length_rest64 less_imp_le)
    next
      case False
      then show ?thesis by (simp add: rest64_short)
    qed
    obtain B' where B': "(if (of_nat (length (rest64 x)) :: ulong) \<noteq> 0
        then copy_bytes ?B (unat ?l) (rest64 x) (unat (of_nat (length (rest64 x)) :: ulong)) else Some ?B) = Some B'"
      "length B' = 64" "take (?r + length (rest64 x)) B' = take ?r ?B @ rest64 x"
      using finish [OF li, of ?l x] le l by auto
    have "absorbed sha256_compress sha256_start (m @ x) (absorb sha256_compress ?S x) B'"
    proof (cases "64 \<le> ?r + length x")
      case True
      then show ?thesis
        using B'(2,3) l0 by (intro absorbed_more [OF a(1)]) (simp_all add: length_rest64)
    next
      case False
      then have "length x < 64" by simp
      then show ?thesis
        using B'(2,3) False li by (intro absorbed_more [OF a(1)]) (simp_all add: absorb_short rest64_short)
    qed
    moreover have "sha256_update c x ?L = Some (?c\<lparr>sha256_state := absorb sha256_compress ?S x, sha256_buffer := B'\<rparr>)"
      unfolding sha256_update_def if_not_P [OF L0] Let_def cnt prod.case sel if_not_P [OF False] bind.bind_lunit loop B'(1) ..
    ultimately show ?thesis using ready by blast
  qed
qed

lemma sha256_finish_digest:
  assumes "sha256_stands m c"
  shows "\<exists>c'. sha256_finish c = Some (sha256 m, c')"
proof -
  have a: "sha256_total0 c = of_nat (length m)" "sha256_total1 c = of_nat (length m div 2 ^ 32)"
    using assms by (simp_all add: sha256_stands_def)
  let ?l = "sha256_total0 c AND 0x3F" and ?r = "length m mod 64"
  have l: "unat ?l = ?r" unfolding a(1) by (rule count_and_63)
  have tlt: "?r < 64" by simp
  let ?padn = "if ?l < 56 then 56 - ?l else 120 - ?l"
  have "unat ?padn = padding (length m)"
  proof (cases "?r < 56")
    case True
    then have "?l < 56" using l by (simp add: word_less_nat_alt)
    then show ?thesis using True l by (simp add: padding_def unat_minus_exact word_le_nat_alt)
  next
    case False
    then have "\<not> ?l < 56" using l by (simp add: word_less_nat_alt)
    then show ?thesis using False l tlt by (simp add: padding_def unat_minus_exact word_le_nat_alt)
  qed
  then obtain padn where padn: "?padn = padn" "unat padn = padding (length m)" by blast
  let ?p = "take (unat padn) sha256_padding"
  have p: "?p = 0x80 # replicate (padding (length m) - 1) 0" "length ?p = padding (length m)"
    using padding_pos(1,2) [of "length m"] by (cases "padding (length m)", simp_all add: padn(2) sha256_padding_def)
  have pl: "of_nat (length ?p) = padn" using p(2) padn(2) by (metis of_nat_unatI)
  let ?len = "be_bytes (of_nat (8 * length m div 2 ^ 32)) @ be_bytes (of_nat (8 * length m))"
  have "length ?p < 2 ^ 32" using p(2) padding_pos(2) [of "length m"] by simp
  then obtain c1 where c1: "sha256_update c ?p padn = Some c1" "sha256_stands (m @ ?p) c1"
    using sha256_update_stands [OF assms, of ?p] pl by auto
  obtain c2 where c2: "sha256_update c1 ?len (of_nat (length ?len)) = Some c2" "sha256_stands ((m @ ?p) @ ?len) c2"
    using sha256_update_stands [OF c1(2), of ?len] by auto
  have len8: "of_nat (length ?len) = (8 :: ulong)" by simp
  have st: "sha256_state c2 = absorb sha256_compress sha256_start (pad64 m ?len)"
    using c2(2) by (simp add: sha256_stands_def absorbed_def pad64_def p(1))
  obtain s0 s1 s2 s3 s4 s5 s6 s7 where S: "sha256_state c2 = (s0, s1, s2, s3, s4, s5, s6, s7)" by (metis surj_pair)
  have dig: "sha256 m = concat (map be_bytes [s0, s1, s2, s3, s4, s5, s6, s7])"
    unfolding sha256_def st [symmetric] S by simp
  have hi: "drop_bit 29 (sha256_total0 c) OR push_bit 3 (sha256_total1 c) = of_nat (8 * length m div 2 ^ 32)"
    unfolding a using length_words_64(1) [of "length m"] by (simp only: or.commute)
  have lo: "push_bit 3 (sha256_total0 c) = of_nat (8 * length m)" unfolding a by (rule length_words_64)
  have "sha256_finish c = Some (sha256 m, c2)"
    unfolding sha256_finish_def Let_def hi lo padn(1) c1(1) bind.bind_lunit c2(1) [unfolded len8] S dig by simp
  then show ?thesis by blast
qed

lemma sha256_init: "length (sha256_buffer c) = 64 \<Longrightarrow> sha256_stands [] (sha256_starts c)"
  by (simp add: sha256_stands_def sha256_starts_def absorbed_start)

interpretation sha256_stream: hash_stream
    "sha256_starts \<lparr>sha256_total0 = 0, sha256_total1 = 0, sha256_state = sha256_start, sha256_buffer = replicate 64 0\<rparr>"
    "\<lambda>c x. sha256_update c x (of_nat (length x))" sha256_finish sha256 sha256_stands "2 ^ 32 - 1" "2 ^ 61"
proof
  show "sha256_stands m c \<Longrightarrow> length x \<le> 2 ^ 32 - 1 \<Longrightarrow>
      \<exists>c'. sha256_update c x (of_nat (length x)) = Some c' \<and> sha256_stands (m @ x) c'" for m c x
    by (rule sha256_update_stands) auto
qed (simp_all add: sha256_init sha256_finish_digest)

section \<open>The constants\<close>

text \<open>
  FIPS 180 defines the constants of the rounds as the first 32 bits of the fractional parts of the cube
  roots of the first 64 primes, and the initial state likewise by square roots of the first eight.
\<close>

definition first_primes :: "nat list" where
  "first_primes = [2, 3, 5, 7, 11, 13, 17, 19, 23, 29, 31, 37, 41, 43, 47, 53, 59, 61, 67, 71, 73, 79, 83, 89, 97, 101, 103,
     107, 109, 113, 127, 131, 137, 139, 149, 151, 157, 163, 167, 173, 179, 181, 191, 193, 197, 199, 211, 223, 227, 229, 233,
     239, 241, 251, 257, 263, 269, 271, 277, 281, 283, 293, 307, 311]"

definition root_bits :: "nat \<Rightarrow> nat \<Rightarrow> ulong \<Rightarrow> bool" where
  "root_bits e p w \<longleftrightarrow> (\<exists>i. (i * 2 ^ 32 + unat w) ^ e \<le> p * 2 ^ (32 * e) \<and> p * 2 ^ (32 * e) < (i * 2 ^ 32 + unat w + 1) ^ e)"

lemma first_primes: "first_primes = filter (\<lambda>p. list_all (\<lambda>d. p mod d \<noteq> 0 \<or> p = d) [2, 3, 5, 7, 11, 13, 17]) [2..<312]"
  by (simp add: first_primes_def upt_rec)

definition root_floor :: "nat \<Rightarrow> nat \<Rightarrow> nat" where
  "root_floor e p = (if p < 2 ^ e then 1 else if p < 3 ^ e then 2 else if p < 4 ^ e then 3 else if p < 5 ^ e then 4
     else if p < 6 ^ e then 5 else 6)"

lemma root_bitsI:
  assumes "list_all2 (\<lambda>p (w :: ulong). let n = root_floor e p * 4294967296 + unat w in n ^ e \<le> p * 4294967296 ^ e \<and> p * 4294967296 ^ e < (n + 1) ^ e) ps ws"
  shows "list_all2 (root_bits e) ps ws"
  using assms
proof (rule list_all2_mono)
  fix p and w :: ulong
  assume "let n = root_floor e p * 4294967296 + unat w in n ^ e \<le> p * 4294967296 ^ e \<and> p * 4294967296 ^ e < (n + 1) ^ e"
  then show "root_bits e p w" unfolding root_bits_def power_mult by (intro exI [of _ "root_floor e p"]) (simp add: Let_def)
qed

text \<open>
  C39.  The constants of SHA-256 in the code are those of FIPS 180: the round constants are the first 32
  bits of the fractional parts of the cube roots of the first 64 primes, and the initial state that
  \<open>sha256_starts\<close> sets those of the square roots of the first eight.
\<close>

theorem sha256_constants:
  "list_all2 (root_bits 3) first_primes sha256_K
   \<and> (case sha256_state (sha256_starts c) of (s0, s1, s2, s3, s4, s5, s6, s7) \<Rightarrow>
        list_all2 (root_bits 2) (take 8 first_primes) [s0, s1, s2, s3, s4, s5, s6, s7])"
proof
  show "list_all2 (root_bits 3) first_primes sha256_K"
    by (rule root_bitsI) (simp add: first_primes_def sha256_K_def root_floor_def)
  have "list_all2 (root_bits 2) [2, 3, 5, 7, 11, 13, 17, 19]
      [0x6A09E667, 0xBB67AE85, 0x3C6EF372, 0xA54FF53A, 0x510E527F, 0x9B05688C, 0x1F83D9AB, 0x5BE0CD19]"
    by (rule root_bitsI) (simp add: root_floor_def)
  then show "case sha256_state (sha256_starts c) of (s0, s1, s2, s3, s4, s5, s6, s7) \<Rightarrow>
        list_all2 (root_bits 2) (take 8 first_primes) [s0, s1, s2, s3, s4, s5, s6, s7]"
    by (simp add: sha256_starts_def first_primes_def)
qed

end
