(* ===== verification/HashContexts.thy ===== *)
theory HashContexts
  imports HashCrc Md5 Sha1 Sha256
begin

text \<open>
  The hash contexts of \<open>phlib/util.c\<close>: one interface to the four hash functions, which the algorithm
  of the context selects.
\<close>

unbundle bit_operations_syntax

section \<open>The operations\<close>

definition Md5HashAlgorithm :: ulong where "Md5HashAlgorithm = 0"
definition Sha1HashAlgorithm :: ulong where "Sha1HashAlgorithm = 1"
definition Crc32HashAlgorithm :: ulong where "Crc32HashAlgorithm = 2"
definition Sha256HashAlgorithm :: ulong where "Sha256HashAlgorithm = 3"

lemmas hash_algorithms = Md5HashAlgorithm_def Sha1HashAlgorithm_def Crc32HashAlgorithm_def Sha256HashAlgorithm_def

datatype ph_hash_context =
    Md5Context MD5_CTX
  | Sha1Context A_SHA_CTX
  | Crc32Context ulong
  | Sha256Context sha256_context

text \<open>The context is not cleared: \<open>mem\<close> is what its block buffer holds.\<close>

definition PhInitializeHash :: "uchar list \<Rightarrow> ulong \<Rightarrow> ph_error + ph_hash_context" where
  "PhInitializeHash mem Algorithm = (
     if Algorithm = Md5HashAlgorithm then
       Inr (Md5Context (MD5Init \<lparr>md5_i0 = 0, md5_i1 = 0, md5_buf = (0, 0, 0, 0), md5_in = mem\<rparr>))
     else if Algorithm = Sha1HashAlgorithm then
       Inr (Sha1Context (A_SHAInit \<lparr>sha_state = (0, 0, 0, 0, 0), sha_count0 = 0, sha_count1 = 0, sha_buffer = mem\<rparr>))
     else if Algorithm = Crc32HashAlgorithm then Inr (Crc32Context 0)
     else if Algorithm = Sha256HashAlgorithm then
       Inr (Sha256Context (sha256_starts \<lparr>sha256_total0 = 0, sha256_total1 = 0, sha256_state = (0, 0, 0, 0, 0, 0, 0, 0),
         sha256_buffer = mem\<rparr>))
     else Inl STATUS_INVALID_PARAMETER_2)"

fun PhUpdateHash :: "ph_hash_context \<Rightarrow> uchar list \<Rightarrow> ulong \<Rightarrow> ph_hash_context option" where
  "PhUpdateHash (Md5Context c) Buffer Length = map_option Md5Context (MD5Update c Buffer Length)"
| "PhUpdateHash (Sha1Context c) Buffer Length = map_option Sha1Context (A_SHAUpdate c Buffer Length)"
| "PhUpdateHash (Crc32Context c) Buffer Length =
     (if unat Length \<le> length Buffer then Some (Crc32Context (PhCrc32 c (take (unat Length) Buffer))) else None)"
| "PhUpdateHash (Sha256Context c) Buffer Length = map_option Sha256Context (sha256_update c Buffer Length)"

text \<open>
  What is written to a hash buffer of \<open>HashLength\<close> bytes, which is nothing when the result is
  \<open>FALSE\<close>, the return length, and the context.
\<close>

definition final_hash :: "ulong \<Rightarrow> ulong \<Rightarrow> (uchar list \<times> 'c) option \<Rightarrow> 'c \<Rightarrow> (uchar list option \<times> ulong \<times> 'c) option" where
  "final_hash bytes HashLength final c =
     (if HashLength \<ge> bytes then map_option (\<lambda>(h, c). (Some h, bytes, c)) final else Some (None, bytes, c))"

fun PhFinalHash :: "ph_hash_context \<Rightarrow> ulong \<Rightarrow> (uchar list option \<times> ulong \<times> ph_hash_context) option" where
  "PhFinalHash (Md5Context c) HashLength =
     map_option (\<lambda>(h, n, c). (h, n, Md5Context c)) (final_hash 16 HashLength (MD5Final c) c)"
| "PhFinalHash (Sha1Context c) HashLength =
     map_option (\<lambda>(h, n, c). (h, n, Sha1Context c)) (final_hash 20 HashLength (A_SHAFinal c) c)"
| "PhFinalHash (Crc32Context c) HashLength =
     map_option (\<lambda>(h, n, c). (h, n, Crc32Context c)) (final_hash 4 HashLength (Some (le_bytes c, c)) c)"
| "PhFinalHash (Sha256Context c) HashLength =
     map_option (\<lambda>(h, n, c). (h, n, Sha256Context c)) (final_hash 32 HashLength (sha256_finish c) c)"

section \<open>The contract\<close>

definition ph_digest :: "ulong \<Rightarrow> uchar list \<Rightarrow> uchar list" where
  "ph_digest Algorithm m = (if Algorithm = Md5HashAlgorithm then md5 m else if Algorithm = Sha1HashAlgorithm then sha1 m
     else if Algorithm = Crc32HashAlgorithm then le_bytes (crc32 m) else sha256 m)"

fun hash_stands :: "ulong \<Rightarrow> uchar list \<Rightarrow> ph_hash_context \<Rightarrow> bool" where
  "hash_stands Algorithm m (Md5Context c) \<longleftrightarrow> Algorithm = Md5HashAlgorithm \<and> md5_stands m c"
| "hash_stands Algorithm m (Sha1Context c) \<longleftrightarrow> Algorithm = Sha1HashAlgorithm \<and> sha1_stands m c"
| "hash_stands Algorithm m (Crc32Context c) \<longleftrightarrow> Algorithm = Crc32HashAlgorithm \<and> c = PhCrc32 0 m"
| "hash_stands Algorithm m (Sha256Context c) \<longleftrightarrow> Algorithm = Sha256HashAlgorithm \<and> sha256_stands m c"

lemma PhCrc32_parts: "PhCrc32 (PhCrc32 c m) m' = PhCrc32 c (m @ m')" "PhCrc32 0 m = crc32 m" "PhCrc32 c [] = c"
  by (simp_all add: PhCrc32_def PhCrc32_loop_bits crc32_def xor_ones xor.assoc)

lemma digest_lengths: "length (md5 m) = 16" "length (sha1 m) = 20" "length (sha256 m) = 32"
  by (simp_all add: md5_def sha1_def sha1_padded_def sha256_def split: prod.split)

lemma length_ph_digest: "hash_stands Algorithm m c \<Longrightarrow> PhFinalHash c HashLength = Some (h, n, c') \<Longrightarrow> unat n = length (ph_digest Algorithm m)"
  by (cases c) (auto simp: final_hash_def ph_digest_def hash_algorithms digest_lengths split: if_splits)

lemma ph_hash_init:
  assumes "PhInitializeHash mem Algorithm = Inr c" "length mem = 64"
  shows "hash_stands Algorithm [] c"
  using assms by (auto simp: PhInitializeHash_def md5_init sha1_init sha256_init PhCrc32_parts split: if_splits)

lemma ph_hash_update:
  assumes "hash_stands Algorithm m c" "length x < 2 ^ 29"
  shows "\<exists>c'. PhUpdateHash c x (of_nat (length x)) = Some c' \<and> hash_stands Algorithm (m @ x) c'"
proof -
  have lt: "length x < 2 ^ 32" using assms(2) by simp
  then have u: "unat (of_nat (length x) :: ulong) = length x" by (rule unat_of_nat_ulong)
  show ?thesis
  proof (cases c)
    case (Md5Context d)
    then show ?thesis using MD5Update_stands [OF _ lt, of m d] assms(1) by auto
  next
    case (Sha1Context d)
    then show ?thesis using sha1_update [OF _ assms(2), of m d] assms(1) by auto
  next
    case (Crc32Context d)
    then show ?thesis using assms(1) u by (simp add: PhCrc32_parts(1))
  next
    case (Sha256Context d)
    then show ?thesis using sha256_update_stands [OF _ lt, of m d] assms(1) by auto
  qed
qed

lemma ph_hash_final:
  assumes "hash_stands Algorithm m c"
  shows "\<exists>c'. PhFinalHash c HashLength
    = Some (if length (ph_digest Algorithm m) \<le> unat HashLength then Some (ph_digest Algorithm m) else None,
        of_nat (length (ph_digest Algorithm m)), c')"
  using assms md5_final [of m] sha1_final [of m] sha256_finish_digest [of m]
  by (cases c) (force simp: final_hash_def ph_digest_def hash_algorithms digest_lengths PhCrc32_parts word_le_nat_alt)+

lemma ph_hash_stream:
  assumes "PhInitializeHash mem Algorithm = Inr c" "length mem = 64"
  shows "hash_stream c (\<lambda>c x. PhUpdateHash c x (of_nat (length x)))
    (\<lambda>c. Option.bind (PhFinalHash c 32) (\<lambda>(h, n, c). map_option (\<lambda>h. (h, c)) h))
    (ph_digest Algorithm) (hash_stands Algorithm) (2 ^ 29 - 1) (2 ^ 61)"
proof
  show "hash_stands Algorithm [] c" by (rule ph_hash_init [OF assms])
  show "hash_stands Algorithm m c \<Longrightarrow> length x \<le> 2 ^ 29 - 1 \<Longrightarrow>
      \<exists>c'. PhUpdateHash c x (of_nat (length x)) = Some c' \<and> hash_stands Algorithm (m @ x) c'" for m c x
    by (rule ph_hash_update) auto
  show "hash_stands Algorithm m c \<Longrightarrow>
      \<exists>c'. Option.bind (PhFinalHash c 32) (\<lambda>(h, n, c). map_option (\<lambda>h. (h, c)) h) = Some (ph_digest Algorithm m, c')" for m c
    using ph_hash_final [of Algorithm m c 32] by (auto simp: ph_digest_def digest_lengths)
qed

section \<open>Properties\<close>

definition ph_hash_parts :: "ph_hash_context \<Rightarrow> uchar list list \<Rightarrow> ph_hash_context option" where
  "ph_hash_parts = hash_parts (\<lambda>c x. PhUpdateHash c x (of_nat (length x)))"

text \<open>
  C36.  Whatever a message is split into, hashing its parts, each shorter than \<open>2 ^ 29\<close> bytes, touches no
  memory outside of the context, and \<open>PhFinalHash\<close> gives the MD5 of RFC 1321, the SHA-1 or SHA-256 of
  FIPS 180 or the CRC-32 of IEEE 802.3 of the whole message, if the buffer is large enough for it,
  and the required length in any case.
\<close>

theorem PhHash_history:
  assumes "PhInitializeHash mem Algorithm = Inr c0" "length mem = 64" "\<forall>x \<in> set xs. length x < 2 ^ 29"
    "length (concat xs) < 2 ^ 61"
  shows "\<exists>c c'. ph_hash_parts c0 xs = Some c
    \<and> PhFinalHash c HashLength
      = Some (if length (ph_digest Algorithm (concat xs)) \<le> unat HashLength then Some (ph_digest Algorithm (concat xs)) else None,
          of_nat (length (ph_digest Algorithm (concat xs))), c')"
proof -
  note stream = hash_stream.parts_stand [OF ph_hash_stream [OF assms(1,2)] ph_hash_init [OF assms(1,2)], of xs]
  have "\<forall>x \<in> set xs. length x \<le> 2 ^ 29 - 1" using assms(3) by auto
  then obtain c where c: "ph_hash_parts c0 xs = Some c" "hash_stands Algorithm (concat xs) c"
    unfolding ph_hash_parts_def using stream assms(4) by auto
  then show ?thesis using ph_hash_final [OF c(2)] by blast
qed

theorem PhHash_history_witness:
  "\<exists>c c'. ph_hash_parts (Crc32Context 0) [[1, 2], [], [3]] = Some c
    \<and> PhFinalHash c 4 = Some (Some (ph_digest Crc32HashAlgorithm [1, 2, 3]), 4, c')"
proof -
  have "PhInitializeHash (replicate 64 0) Crc32HashAlgorithm = Inr (Crc32Context 0)"
    by (simp add: PhInitializeHash_def hash_algorithms)
  from PhHash_history [OF this, of "[[1, 2], [], [3]]" 4] show ?thesis
    by (simp add: ph_digest_def hash_algorithms)
qed

text \<open>
  C37.  The unrolled rounds of the three hash functions, with their in-place message schedules and their
  rewritten logical functions, compute what the loops of RFC 1321 and FIPS 180 compute, for every
  state and every block.
\<close>

theorem hash_transforms_correct:
  assumes "length block = 64"
  shows "MD5Transform H block = md5_compress H block \<and> fst (SHATransform S block) = sha1_compress S block
    \<and> sha256_process T block = sha256_compress T block"
  using MD5Transform_compress SHATransform_compress [OF assms] sha256_process_compress [OF assms] by simp

theorem hash_transforms_correct_witness:
  "MD5Transform (1, 2, 3, 4) (replicate 64 7) = md5_compress (1, 2, 3, 4) (replicate 64 7)
    \<and> fst (SHATransform (1, 2, 3, 4, 5) (replicate 64 7)) = sha1_compress (1, 2, 3, 4, 5) (replicate 64 7)
    \<and> sha256_process (1, 2, 3, 4, 5, 6, 7, 8) (replicate 64 7) = sha256_compress (1, 2, 3, 4, 5, 6, 7, 8) (replicate 64 7)"
  by (rule hash_transforms_correct) simp

end
