(* ===== verification/Spec2Isabelle.thy ===== *)
theory Spec2Isabelle
  imports AvlProps Lists Arrays PointerLists Numbers HashProps FastLock Wildcards CommandProps HandleLaws
    EventProps Rundown BarrierProps HashContexts
begin

text \<open>
  Verification of the base library \<open>src/phlib\<close>, the C library of the process viewer that this repository
  builds its application on.  The development models the parts of the library that carry logic of
  their own: containers, text, synchronization and hashing.  Each definition has the name of the C
  function, type or macro it translates; a part of a function that the model states separately has
  the function's name with a suffix, as in \<open>PhfWaitForBarrier_turn\<close>.

  \<^bold>\<open>Parts of the program and their theories.\<close>

  \<^item> \<^emph>\<open>AVL trees\<close> (\<open>avltree.c\<close>): AvlLinks translates every function over a heap of linked nodes;
    AvlTree is the abstraction to trees, AvlRotate, AvlRebalance, AvlOps and AvlIter prove the rotations,
    rebalancing, insertion, removal and iteration, AvlProps states the contract.  Compare has the order
    functions of \<open>symprv.c\<close> and \<open>filepool.c\<close> that interpret the locale of orders.
  \<^item> \<^emph>\<open>Lists, arrays and pointer lists\<close> (\<open>basesup.c\<close>): Lists, Arrays and PointerLists over the blocks of
    cells of Buffers.  HandleStore is the interface that pointer lists and handle tables both provide.
  \<^item> \<^emph>\<open>Hashtables\<close> (\<open>basesup.c\<close>): Hashtables translates the operations, HashWf has the invariant, HashOps
    the effect of each operation, HashProps the contract and the simple hashtable over it.
  \<^item> \<^emph>\<open>Numbers and hashes of bytes\<close> (\<open>basesup.c\<close>, \<open>phbasesup.h\<close>): Numbers.
  \<^item> \<^emph>\<open>Unicode\<close> (\<open>basesup.c\<close>): Unicode translates decoder and encoder, Decoding is the interface of a decoder
    that Utf8 and Utf16 provide, Conversions has the conversions between the encodings.
  \<^item> \<^emph>\<open>Strings\<close> (\<open>basesup.c\<close>): StringRefs and StringFind translate comparison and search, StringSplit
    splitting, trimming and reversing, ZStrings the terminated strings, Digits the numbers as text,
    StringBuilders and BuilderProps the owned strings and builders; StringProps states the contract.
  \<^item> \<^emph>\<open>Patterns and command lines\<close> (\<open>util.c\<close>): Wildcards, CommandLine and CommandProps.
  \<^item> \<^emph>\<open>Handle tables\<close> (\<open>handle.c\<close>): HandleTable translates every function over the memory of the tables,
    HandleWf has the invariant, HandleGrow, HandleOps and HandleEnum the effect of growth, of each
    operation and of enumeration, HandleProps and HandleLaws the contract.
  \<^item> \<^emph>\<open>Locks and synchronization\<close> (\<open>fastlock.c\<close>, \<open>sync.c\<close>): FastLock; Events, EventInv and EventProps for the
    event and one-time initialization; Rundown; Barrier, BarrierInv and BarrierProps.  Threads has the
    counting of threads by place that their invariants share.
  \<^item> \<^emph>\<open>Hash functions\<close> (\<open>util.c\<close>, \<open>data.c\<close>, \<open>md5.c\<close>, \<open>sha.c\<close>, \<open>sha256.c\<close>): HashBlocks has words in bytes, blocks and
    the contract of a hash, HashCrc, Md5, Sha1 and Sha256 the four hashes with their specifications,
    HashContexts the interface that selects one of them.

  \<^bold>\<open>How the parts interact.\<close>  A client states what it needs of a provider as a locale, which the provider
  interprets on its own definitions.  An AVL tree takes a comparison (Compare), a hashtable an equality
  and a hash (the simple hashtable provides them), the conversions take a decoder (Utf8, Utf16), a
  handle store is provided by pointer lists and by handle tables, and a hash context inherits the
  contract of the hash it selects.  Rundown protection waits on an event: Rundown uses of it the set
  bit, and what a wait for that bit promises is proved in EventProps.

  \<^bold>\<open>How the code is modelled.\<close>  Machine integers are words of their width, so that wrap-around is that of
  the code.  Memory is a heap of records for linked structures, a list of cells for an allocated block,
  and a map from addresses for strings; a read or write outside of it, a failed assertion and an
  unbounded loop all have no result (\<open>None\<close>), so that a theorem that a function gives \<open>Some\<close> says that
  it touches no other memory and ends.  Raised statuses and false results are values.  Loops are
  recursion over the data, or partial functions whose termination is part of each theorem; none uses
  fuel.  A concurrent operation is a step relation whose steps are the accesses to the shared word and
  the calls of the system, so that all interleavings are covered; the safety theorems are invariants
  of its reachable states, and the theorems about lost wake-ups say who will still wake a waiter.

  \<^bold>\<open>What the groups of lemmas show.\<close>  For each component: its invariant and that every operation preserves
  it; the effect of every operation on the abstract value (a set of keys, a sequence, a map, a code
  point, a message), errors included; and, for the containers, the builder, the handle table and the
  hashes, that any history of calls gives what the abstract specification gives.

  \<^bold>\<open>Bounds.\<close>  They are the least the code needs, and each theorem states its own.  An AVL tree has fewer
  than 12586269024 nodes, so that its depth stays below the 48 pointers the removal reserves; a
  hashtable has at most \<open>2 ^ 31\<close> entries; lists and arrays have counts of 32 bits; strings are shorter
  than \<open>2 ^ 60\<close> to \<open>2 ^ 62\<close> bytes, a command line shorter than \<open>2 ^ 31\<close> units and a part to be escaped than
  \<open>2 ^ 29\<close>; a handle table has \<open>2 ^ 24\<close> handles.  Fewer than 1024 threads use a fast lock, fewer than 32766
  an event, at most \<open>2 ^ 31 - 1\<close> a barrier, and fewer than \<open>2 ^ 61\<close> references are held under a rundown
  protection: these are the widths of the counters.  A hashed message is shorter than \<open>2 ^ 61\<close> bytes, and
  its parts shorter than \<open>2 ^ 29\<close>, which SHA-1 needs (theory Sha1 shows why).

  \<^bold>\<open>Assumptions on code outside of the sources.\<close>  These are parameters: the upcase table of the system, the
  character classes and \<open>towupper\<close> of the C library, the addresses the allocator returns (it gives fresh
  memory, and the handle table is also modelled with an allocator that fails), whether the processor
  has SSE2 (every theorem holds for both values).  Strings lie in memory that is mapped in whole
  blocks of 16 bytes, which is what the vector code relies on.  The kernel is a map from open event
  handles to their state, a semaphore is a count, and the wake event of a barrier is the set of the
  threads that are queued on it.

  \<^bold>\<open>Configuration.\<close>  64 bits, hashtables of power-of-two sizes, and the portable branch of the Unicode
  conversions (the build calls the system there).

  \<^bold>\<open>Not modelled.\<close>  The reference counts of objects (\<open>ref.c\<close>): the objects are modelled by their fields.
  The queued lock (\<open>queuedlock.c\<close>): its chain of wait blocks on the stacks of the waiting threads is
  taken as an abstract lock or queue by its clients.  Work queues, providers, file pools and streams,
  settings, formatting through the C library, the natural-order comparison, and the circular buffers,
  whose type header is not in the repository.  Image parsing, symbols, and all that only calls Windows
  or draws the user interface (\<open>native.c\<close>, the rest of \<open>util.c\<close>, \<open>treenew.c\<close> and others).  The C++ libraries
  and the application of the repository.

  \<^bold>\<open>What modelling found.\<close>  Some theorems state how the code differs from what it means to do: the
  overflow of the owners of a fast lock, handles of events that leak or are closed twice, a second wait
  for a rundown that never ends, a wait block that is used after its scope, the length field of SHA-1
  for a part of 512 MB, and the errors of the string routines that the manifest lists.
\<close>

end
